(* ===== verification/Prelude.thy ===== *)
theory Prelude
  imports Main "HOL-Library.Word"
begin

text \<open>
  Shared material of the development: the C types and constants the kernel uses
  (\<^verbatim>\<open>rt-thread/include/rtdef.h\<close>), the fact collections of the library, and the
  generic lemmas on lists and words the components share.
\<close>

unbundle bit_operations_syntax

section \<open>Fact collections\<close>

named_theorems kdefs \<open>definitions of the kernel operations, for unfolding\<close>
named_theorems kinv \<open>preservation of the kernel invariant, one fact per operation\<close>
named_theorems kframe \<open>what an operation leaves unchanged\<close>
named_theorems word_facts \<open>bounds and conversions on machine words\<close>

section \<open>Types and constants of \<open>rtdef.h\<close>\<close>

type_synonym u8 = "8 word"
type_synonym u16 = "16 word"
type_synonym u32 = "32 word"
type_synonym addr = nat

text \<open>Error codes are returned negated; \<open>rt_err_t\<close> is a signed machine word that only
  ever holds these small values.\<close>

type_synonym rt_err = int

abbreviation (input) RT_EOK :: rt_err where "RT_EOK \<equiv> 0"
abbreviation (input) RT_ERROR :: rt_err where "RT_ERROR \<equiv> 1"
abbreviation (input) RT_ETIMEOUT :: rt_err where "RT_ETIMEOUT \<equiv> 2"
abbreviation (input) RT_EFULL :: rt_err where "RT_EFULL \<equiv> 3"
abbreviation (input) RT_EEMPTY :: rt_err where "RT_EEMPTY \<equiv> 4"
abbreviation (input) RT_ENOMEM :: rt_err where "RT_ENOMEM \<equiv> 5"
abbreviation (input) RT_ENOSYS :: rt_err where "RT_ENOSYS \<equiv> 6"
abbreviation (input) RT_EBUSY :: rt_err where "RT_EBUSY \<equiv> 7"
abbreviation (input) RT_EIO :: rt_err where "RT_EIO \<equiv> 8"
abbreviation (input) RT_EINTR :: rt_err where "RT_EINTR \<equiv> 9"
abbreviation (input) RT_EINVAL :: rt_err where "RT_EINVAL \<equiv> 10"

abbreviation (input) RT_ALIGN_SIZE :: u32 where "RT_ALIGN_SIZE \<equiv> 4"
abbreviation (input) RT_TICK_MAX :: u32 where "RT_TICK_MAX \<equiv> 0xFFFFFFFF"
abbreviation (input) RT_TICK_HALF :: u32 where "RT_TICK_HALF \<equiv> 0x7FFFFFFF"

definition RT_ALIGN :: "u32 \<Rightarrow> u32 \<Rightarrow> u32" where
  "RT_ALIGN sz align = (sz + align - 1) AND NOT (align - 1)"

definition RT_ALIGN_DOWN :: "u32 \<Rightarrow> u32 \<Rightarrow> u32" where
  "RT_ALIGN_DOWN sz align = sz AND NOT (align - 1)"

section \<open>Lists\<close>

lemma removeAll_notin [simp]: "x \<notin> set xs \<Longrightarrow> removeAll x xs = xs"
  by (induction xs) auto

lemma distinct_removeAll_snoc:
  "distinct xs \<Longrightarrow> distinct (removeAll x xs @ [x])"
  by (simp add: distinct_removeAll)

lemma removeAll_split:
  "distinct (ys @ x # zs) \<Longrightarrow> removeAll x (ys @ x # zs) = ys @ zs"
  by simp

section \<open>Words\<close>

lemma unat_sub_le [word_facts]: "b \<le> a \<Longrightarrow> unat (a - b) = unat a - unat (b :: 'a :: len word)"
  by (rule unat_sub)

lemma unat_add_no_wrap [word_facts]:
  "unat a + unat b < 2 ^ LENGTH('a) \<Longrightarrow> unat (a + b :: 'a :: len word) = unat a + unat b"
  by (rule unat_add_lem [THEN iffD1])

lemma unat_of_nat32: "x < 2 ^ 32 \<Longrightarrow> unat (word_of_nat x :: u32) = x"
  by (simp add: unat_of_nat)

lemma word_less_unat: "(a < b) = (unat a < unat (b :: 'a :: len word))"
  by (rule word_less_nat_alt)

lemma word_le_unat: "(a \<le> b) = (unat a \<le> unat (b :: 'a :: len word))"
  by (rule word_le_nat_alt)

text \<open>Replacing the bits under a mask: what the code writes as
  \<^verbatim>\<open>x = VALUE | (x & ~MASK)\<close>.\<close>

lemma set_field_and:
  fixes m :: "'a :: len word"
  assumes "v AND m = v"
  shows "(v OR (x AND NOT m)) AND m = v"
proof -
  have "(v OR (x AND NOT m)) AND m = (v AND m) OR ((x AND NOT m) AND m)"
    by (rule word_ao_dist)
  also have "(x AND NOT m) AND m = 0"
    by (simp add: and.assoc)
  finally show ?thesis using assms by simp
qed

text \<open>The same with \<open>NOT 7\<close> in the form the simplifier gives it.\<close>

lemma set_field_and_8 [simp]:
  "v AND 7 = v \<Longrightarrow> (v OR (x AND - 8)) AND 7 = (v :: u8)"
  using set_field_and [of v 7 x] by simp

lemma clear_yield_and [simp]: "(x AND NOT 8) AND 7 = x AND (7 :: u8)" "(x AND - 9) AND 7 = x AND (7 :: u8)"
  by (simp_all add: and.assoc)

lemma set_yield_and [simp]: "(x OR 8) AND 7 = x AND (7 :: u8)"
  by (simp add: word_ao_dist)

text \<open>Rounding to multiples of four.\<close>

lemma and_not3:
  fixes x :: u32
  shows "unat (x AND NOT 3) = unat x div 4 * 4"
proof -
  have m: "x AND 3 = x mod 4" using take_bit_eq_mask [of 2 x] by (simp add: mask_eq_exp_minus_1 take_bit_eq_mod)
  have "x = (x AND NOT 3) + (x AND 3)"
    using disjunctive_add_eq_or [of "x AND NOT 3" "x AND 3"] by (simp add: bit.conj_disj_distrib [symmetric] ac_simps)
  then have e: "x AND NOT 3 = x - x mod 4" using m by (simp add: eq_diff_eq)
  have "x mod 4 \<le> x" by (simp add: word_le_nat_alt unat_mod_distrib)
  then have "unat (x - x mod 4) = unat x - unat (x mod 4)" by (rule unat_sub)
  then show ?thesis unfolding e by (simp add: unat_mod_distrib minus_mod_eq_div_mult)
qed

lemma RT_ALIGN4:
  assumes "unat sz \<le> 2 ^ 32 - 4"
  shows "unat (RT_ALIGN sz 4) = (unat sz + 3) div 4 * 4"
proof -
  have "unat (sz + 3) = unat sz + 3" using assms by (simp add: unat_add_no_wrap)
  then show ?thesis using and_not3 [of "sz + 3"] by (simp add: RT_ALIGN_def add.commute)
qed

lemma RT_ALIGN_DOWN4: "unat (RT_ALIGN_DOWN sz 4) = unat sz div 4 * 4"
  using and_not3 [of sz] by (simp add: RT_ALIGN_DOWN_def)

text \<open>The value of an \<open>int\<close> computation, which wraps on the target.\<close>

definition int32 :: "int \<Rightarrow> int" where
  "int32 x = signed_take_bit 31 x"

lemma int32_id [simp]: "- (2 ^ 31) \<le> x \<Longrightarrow> x < 2 ^ 31 \<Longrightarrow> int32 x = x"
  unfolding int32_def by (rule signed_take_bit_int_eq_self) simp_all

section \<open>Invariants of step relations\<close>

text \<open>The interface between a component's operations, as a step relation, and what holds of all
  its runs: initial states satisfy the invariant and steps keep it.\<close>

locale safe_steps =
  fixes init :: "'s \<Rightarrow> bool" and step :: "'s \<Rightarrow> 's \<Rightarrow> bool" and inv :: "'s \<Rightarrow> bool"
  assumes init_inv: "init s \<Longrightarrow> inv s"
    and step_inv: "step s s' \<Longrightarrow> inv s \<Longrightarrow> inv s'"
begin

lemma steps_inv: "step\<^sup>*\<^sup>* s s' \<Longrightarrow> inv s \<Longrightarrow> inv s'"
  by (induction rule: rtranclp_induct) (auto intro: step_inv)

lemma reach_inv: "init s \<Longrightarrow> step\<^sup>*\<^sup>* s s' \<Longrightarrow> inv s'"
  using steps_inv init_inv by blast

end

end
