(* ===== verification/Rt_List.thy ===== *)
theory Rt_List
  imports Prelude
begin

text \<open>
  The intrusive doubly linked list of \<^verbatim>\<open>rt-thread/include/rtservice.h\<close>, at the level
  of its pointers: a heap gives every node its \<open>next\<close> and \<open>prev\<close> field, and the
  operations perform the C assignments in order. \<open>ring h l xs\<close> says that the nodes
  \<open>xs\<close>, in this order, hang on the list head \<open>l\<close>; \<open>rep\<close> says so for a whole
  family of heads that share one set of nodes, each node being on at most one of them and
  linked to itself when it is on none. The other theories work on such a family of lists
  directly; the refinement lemmas below are what entitles them to.
\<close>

section \<open>The operations\<close>

record 'n dheap =
  nxt :: "'n \<Rightarrow> 'n"
  prv :: "'n \<Rightarrow> 'n"

definition set_nxt :: "'n \<Rightarrow> 'n \<Rightarrow> 'n dheap \<Rightarrow> 'n dheap" where
  "set_nxt p v h = h\<lparr>nxt := (nxt h)(p := v)\<rparr>"

definition set_prv :: "'n \<Rightarrow> 'n \<Rightarrow> 'n dheap \<Rightarrow> 'n dheap" where
  "set_prv p v h = h\<lparr>prv := (prv h)(p := v)\<rparr>"

definition rt_list_init :: "'n \<Rightarrow> 'n dheap \<Rightarrow> 'n dheap" where
  "rt_list_init l h = set_nxt l l (set_prv l l h)"

definition rt_list_insert_after :: "'n \<Rightarrow> 'n \<Rightarrow> 'n dheap \<Rightarrow> 'n dheap" where
  "rt_list_insert_after l n h =
     (let h = set_prv (nxt h l) n h;
          h = set_nxt n (nxt h l) h;
          h = set_nxt l n h
      in set_prv n l h)"

definition rt_list_insert_before :: "'n \<Rightarrow> 'n \<Rightarrow> 'n dheap \<Rightarrow> 'n dheap" where
  "rt_list_insert_before l n h =
     (let h = set_nxt (prv h l) n h;
          h = set_prv n (prv h l) h;
          h = set_prv l n h
      in set_nxt n l h)"

definition rt_list_remove :: "'n \<Rightarrow> 'n dheap \<Rightarrow> 'n dheap" where
  "rt_list_remove n h =
     (let h = set_prv (nxt h n) (prv h n) h;
          h = set_nxt (prv h n) (nxt h n) h
      in set_nxt n n (set_prv n n h))"

definition rt_list_isempty :: "'n \<Rightarrow> 'n dheap \<Rightarrow> bool" where
  "rt_list_isempty l h = (nxt h l = l)"

text \<open>The counting loop of \<open>rt_list_len\<close>; on a chain of nodes that never comes back to
  the head it does not return, and the model is \<open>None\<close>.\<close>

partial_function (option) rt_list_len_loop :: "'n \<Rightarrow> 'n dheap \<Rightarrow> 'n \<Rightarrow> u32 \<Rightarrow> u32 option" where
  "rt_list_len_loop l h p len =
     (if nxt h p \<noteq> l then rt_list_len_loop l h (nxt h p) (len + 1) else Some len)"

definition rt_list_len :: "'n \<Rightarrow> 'n dheap \<Rightarrow> u32 option" where
  "rt_list_len l h = rt_list_len_loop l h l 0"

section \<open>What a heap represents\<close>

fun dseg :: "'n dheap \<Rightarrow> 'n \<Rightarrow> 'n list \<Rightarrow> 'n \<Rightarrow> bool" where
  "dseg h a [] b = (nxt h a = b \<and> prv h b = a)"
| "dseg h a (x # xs) b = (nxt h a = x \<and> prv h x = a \<and> dseg h x xs b)"

definition ring :: "'n dheap \<Rightarrow> 'n \<Rightarrow> 'n list \<Rightarrow> bool" where
  "ring h l xs \<longleftrightarrow> distinct (l # xs) \<and> dseg h l xs l"

definition rep :: "'n dheap \<Rightarrow> 'n set \<Rightarrow> 'n set \<Rightarrow> ('n \<Rightarrow> 'n list) \<Rightarrow> bool" where
  "rep h H N L \<longleftrightarrow>
     H \<inter> N = {} \<and>
     (\<forall>l\<in>H. ring h l (L l) \<and> set (L l) \<subseteq> N) \<and>
     (\<forall>l\<in>H. \<forall>m\<in>H. \<forall>x\<in>set (L l). x \<in> set (L m) \<longrightarrow> l = m) \<and>
     (\<forall>n\<in>N. (\<forall>l\<in>H. n \<notin> set (L l)) \<longrightarrow> ring h n [])"

lemmas list_op_defs = set_nxt_def set_prv_def rt_list_init_def rt_list_insert_after_def
  rt_list_insert_before_def rt_list_remove_def rt_list_isempty_def Let_def

section \<open>Segments\<close>

lemma dseg_append:
  "dseg h a (xs @ x # ys) b \<longleftrightarrow> dseg h a xs x \<and> dseg h x ys b"
  by (induction xs arbitrary: a) auto

lemma dseg_cong:
  assumes "dseg h a xs b" "\<forall>p\<in>insert a (set xs). nxt h' p = nxt h p"
    "\<forall>p\<in>insert b (set xs). prv h' p = prv h p"
  shows "dseg h' a xs b"
  using assms by (induction xs arbitrary: a) auto

lemma ring_nxt: "ring h l xs \<Longrightarrow> nxt h l = (case xs of [] \<Rightarrow> l | x # _ \<Rightarrow> x)"
  by (cases xs) (auto simp: ring_def)

lemma ring_isempty: "ring h l xs \<Longrightarrow> rt_list_isempty l h \<longleftrightarrow> xs = []"
  by (cases xs) (auto simp: ring_def rt_list_isempty_def)

lemma ring_frame:
  assumes "ring h l xs" "\<forall>p\<in>insert l (set xs). nxt h' p = nxt h p \<and> prv h' p = prv h p"
  shows "ring h' l xs"
  using assms unfolding ring_def by (auto intro: dseg_cong)

section \<open>Insertion\<close>

lemma insert_after_fields:
  "nxt (rt_list_insert_after a n h) = (nxt h)(n := nxt h a, a := n)"
  "prv (rt_list_insert_after a n h) = (prv h)(nxt h a := n, n := a)"
  by (simp_all add: list_op_defs)

lemma insert_before_eq_after:
  assumes "nxt h a = c" "prv h c = a" "n \<noteq> a" "n \<noteq> c"
  shows "rt_list_insert_before c n h = rt_list_insert_after a n h"
  using assms by (auto simp: list_op_defs fun_eq_iff)

lemma ring_split_nxt:
  assumes "ring h l (ys @ zs)"
  shows "nxt h (last (l # ys)) = hd (zs @ [l])" "prv h (hd (zs @ [l])) = last (l # ys)"
  using assms by (cases ys rule: rev_cases; cases zs; auto simp: ring_def dseg_append)+

text \<open>The two halves of a ring around the place where a node goes in or comes out:
  nothing in them changes but the fields that point across the gap.\<close>

lemma dseg_left:
  assumes "dseg h l (ys @ zs) l" "distinct (l # ys @ zs)"
    and "nxt h' = (nxt h)(n := u, p := c)" "prv h' = (prv h)(d := v, n := w)"
    and "p = last (l # ys)" "d = hd (zs @ [l])" "n \<notin> insert l (set ys)"
    and "nxt h' p = c" "prv h' c = p"
  shows "dseg h' l ys c"
proof (cases ys rule: rev_cases)
  case Nil
  then show ?thesis using assms by simp
next
  case (snoc us q)
  with assms(1) have "dseg h l us q" by (simp add: dseg_append)
  then have "dseg h' l us q"
    by (rule dseg_cong) (use assms(2-7) snoc in \<open>cases zs; auto\<close>)+
  then show ?thesis using assms(5,8,9) snoc by (simp add: dseg_append)
qed

lemma dseg_right:
  assumes "dseg h l (ys @ zs) l" "distinct (l # ys @ zs)"
    and "nxt h' = (nxt h)(n := u, p := c)" "prv h' = (prv h)(d := v, n := w)"
    and "p = last (l # ys)" "d = hd (zs @ [l])" "n \<notin> insert l (set zs)"
    and "nxt h' a = d" "prv h' d = a"
  shows "dseg h' a zs l"
proof (cases zs)
  case Nil
  then show ?thesis using assms by simp
next
  case (Cons z us)
  with assms(1) have "dseg h z us l" by (simp add: dseg_append)
  then have "dseg h' z us l"
    by (rule dseg_cong) (use assms(2-7) Cons in \<open>cases ys rule: rev_cases; auto\<close>)+
  then show ?thesis using assms(6,8,9) Cons by simp
qed

lemma ring_insert_after:
  assumes r: "ring h l (ys @ zs)" and n: "n \<notin> insert l (set (ys @ zs))"
  shows "ring (rt_list_insert_after (last (l # ys)) n h) l (ys @ n # zs)"
proof -
  define p where p: "p = last (l # ys)"
  define d where d: "d = hd (zs @ [l])"
  define h' where h': "h' = rt_list_insert_after p n h"
  have link: "nxt h p = d" unfolding p d using r by (rule ring_split_nxt)
  have D: "distinct (l # ys @ zs)" and S: "dseg h l (ys @ zs) l"
    using r by (auto simp: ring_def)
  have np: "n \<noteq> p" "n \<noteq> d"
    using n by (auto simp: p d hd_append split: if_splits)
  have nx: "nxt h' = (nxt h)(n := d, p := n)" and pv: "prv h' = (prv h)(d := n, n := p)"
    using link by (simp_all add: h' insert_after_fields)
  have "dseg h' l ys n"
    by (rule dseg_left [OF S D nx pv p d]) (use n np in \<open>auto simp: nx pv\<close>)
  moreover have "dseg h' n zs l"
    by (rule dseg_right [OF S D nx pv p d]) (use n np in \<open>auto simp: nx pv\<close>)
  ultimately show ?thesis using D n unfolding h' p by (auto simp: ring_def dseg_append)
qed

lemma ring_insert_before:
  assumes r: "ring h l (ys @ zs)" and n: "n \<notin> insert l (set (ys @ zs))"
  shows "ring (rt_list_insert_before (hd (zs @ [l])) n h) l (ys @ n # zs)"
proof -
  have "rt_list_insert_before (hd (zs @ [l])) n h = rt_list_insert_after (last (l # ys)) n h"
    using ring_split_nxt [OF r] n
    by (intro insert_before_eq_after) (auto simp: hd_append split: if_splits)
  then show ?thesis using ring_insert_after [OF r n] by simp
qed

section \<open>Removal\<close>

lemma remove_linked_fields:
  assumes "nxt h n \<noteq> n" "prv h n \<noteq> n"
  shows "nxt (rt_list_remove n h) = (nxt h)(n := n, prv h n := nxt h n)"
    "prv (rt_list_remove n h) = (prv h)(nxt h n := prv h n, n := n)"
  using assms by (auto simp: list_op_defs)

lemma remove_unlinked: "ring h n [] \<Longrightarrow> rt_list_remove n h = h"
  by (auto simp: list_op_defs ring_def fun_upd_idem)

lemma ring_remove:
  assumes r: "ring h l (ys @ n # zs)"
  shows "ring (rt_list_remove n h) l (ys @ zs)" "ring (rt_list_remove n h) n []"
proof -
  define p where p: "p = last (l # ys)"
  define d where d: "d = hd (zs @ [l])"
  define h' where h': "h' = rt_list_remove n h"
  have D: "distinct (l # ys @ n # zs)" and S: "dseg h l ys n" "dseg h n zs l"
    using r by (auto simp: ring_def dseg_append)
  have c: "nxt h n = d" "d \<noteq> n"
    using D S unfolding d by (cases zs; auto)+
  have q: "prv h n = p" "p \<noteq> n"
    using D S unfolding p by (cases ys rule: rev_cases; auto simp: dseg_append)+
  have nx: "nxt h' = (nxt h)(n := n, p := d)" and pv: "prv h' = (prv h)(d := p, n := n)"
    using c q by (simp_all add: h' remove_linked_fields)
  show "ring (rt_list_remove n h) n []"
    unfolding h' [symmetric] using nx pv q c by (simp add: ring_def)
  have link: "nxt h' p = d" "prv h' d = p"
    using q c by (auto simp: nx pv)
  have "dseg h' l ys d"
  proof (cases ys rule: rev_cases)
    case Nil
    then show ?thesis using link p by simp
  next
    case (snoc us x)
    with S have "dseg h l us x" by (simp add: dseg_append)
    then have "dseg h' l us x"
      by (rule dseg_cong) (use D snoc p d in \<open>cases zs; auto simp: nx pv\<close>)+
    then show ?thesis using snoc link p by (simp add: dseg_append)
  qed
  moreover have "dseg h' z us l" if "zs = z # us" for z us
  proof -
    have "dseg h z us l" using S that by simp
    then show ?thesis
      by (rule dseg_cong) (use D that p d in \<open>cases ys rule: rev_cases; auto simp: nx pv\<close>)+
  qed
  ultimately show "ring (rt_list_remove n h) l (ys @ zs)"
    unfolding h' [symmetric] using D d by (cases zs) (auto simp: ring_def dseg_append)
qed

section \<open>Length\<close>

declare rt_list_len_loop.simps [code]

lemma rt_list_len_loop_dseg:
  "distinct (p # xs) \<Longrightarrow> l \<notin> set xs \<Longrightarrow> dseg h p xs l \<Longrightarrow>
     rt_list_len_loop l h p c = Some (c + of_nat (length xs))"
proof (induction xs arbitrary: p c)
  case Nil
  then show ?case by (subst rt_list_len_loop.simps) simp
next
  case (Cons x xs)
  then have "rt_list_len_loop l h x (c + 1) = Some (c + 1 + of_nat (length xs))"
    by simp
  then show ?case using Cons.prems
    by (subst rt_list_len_loop.simps) (auto simp: algebra_simps)
qed

lemma rt_list_len_ring: "ring h l xs \<Longrightarrow> rt_list_len l h = Some (of_nat (length xs))"
  unfolding rt_list_len_def ring_def by (subst rt_list_len_loop_dseg) auto

section \<open>Families of lists\<close>

lemma dseg_ends: "dseg h a xs b \<Longrightarrow> nxt h a \<in> insert b (set xs) \<and> prv h b \<in> insert a (set xs)"
  by (induction xs arbitrary: a) auto

lemma ring_prv_last: "ring h l xs \<Longrightarrow> prv h l = last (l # xs)"
  using ring_split_nxt(2) [of h l xs "[]"] by simp

lemma ring_neighbours:
  assumes "ring h l xs" "n \<in> set xs"
  shows "nxt h n \<in> insert l (set xs)" "prv h n \<in> insert l (set xs)"
proof -
  obtain ys zs where xs: "xs = ys @ n # zs" using assms(2) by (meson split_list)
  then have "dseg h l ys n" "dseg h n zs l"
    using assms(1) by (auto simp: ring_def dseg_append)
  then show "nxt h n \<in> insert l (set xs)" "prv h n \<in> insert l (set xs)"
    using xs by (auto dest: dseg_ends)
qed

lemma ring_remove_frame:
  assumes "ring h l xs" "n \<in> set xs" "ring h m ys" "insert l (set xs) \<inter> insert m (set ys) = {}"
  shows "ring (rt_list_remove n h) m ys"
proof (rule ring_frame [OF assms(3)], safe)
  fix q assume "q \<in> set ys"
  with assms ring_neighbours [OF assms(1,2)]
  show "nxt (rt_list_remove n h) q = nxt h q" "prv (rt_list_remove n h) q = prv h q"
    by (auto simp: list_op_defs)
next
  show "nxt (rt_list_remove n h) m = nxt h m" "prv (rt_list_remove n h) m = prv h m"
    using assms ring_neighbours [OF assms(1,2)] by (auto simp: list_op_defs)
qed

lemma ring_insert_frame:
  assumes "ring h l xs" "p \<in> insert l (set xs)" "ring h m ys"
    "insert n (insert l (set xs)) \<inter> insert m (set ys) = {}"
  shows "ring (rt_list_insert_after p n h) m ys"
proof -
  have "nxt h p \<in> insert l (set xs)"
    using assms(1,2) ring_neighbours(1) [OF assms(1)]
    by (cases "p = l") (auto simp: ring_nxt split: list.splits)
  then show ?thesis
    using assms by (intro ring_frame [OF assms(3)]) (auto simp: insert_after_fields)
qed

lemma rep_ring: "rep h H N L \<Longrightarrow> l \<in> H \<Longrightarrow> ring h l (L l)"
  by (simp add: rep_def)

lemma rep_distinct: "rep h H N L \<Longrightarrow> l \<in> H \<Longrightarrow> distinct (L l)"
  by (auto simp: rep_def ring_def)

lemma rep_one_list: "rep h H N L \<Longrightarrow> l \<in> H \<Longrightarrow> m \<in> H \<Longrightarrow> n \<in> set (L l) \<Longrightarrow> n \<in> set (L m) \<Longrightarrow> l = m"
  unfolding rep_def by blast

lemma rep_heads_apart: "rep h H N L \<Longrightarrow> l \<in> H \<Longrightarrow> m \<in> H \<Longrightarrow> l \<notin> set (L m)"
  unfolding rep_def by blast

lemma rep_apart:
  "rep h H N L \<Longrightarrow> l \<in> H \<Longrightarrow> m \<in> H \<Longrightarrow> l \<noteq> m \<Longrightarrow> insert l (set (L l)) \<inter> insert m (set (L m)) = {}"
  using rep_one_list [of h H N L l m] rep_heads_apart [of h H N L] by blast

lemma rep_isempty: "rep h H N L \<Longrightarrow> l \<in> H \<Longrightarrow> rt_list_isempty l h \<longleftrightarrow> L l = []"
  by (auto simp: rep_def ring_isempty)

lemma rep_remove:
  assumes R: "rep h H N L" and n: "n \<in> N"
  shows "rep (rt_list_remove n h) H N (\<lambda>l. removeAll n (L l))"
proof (cases "\<exists>l\<in>H. n \<in> set (L l)")
  case False
  with R n have "rt_list_remove n h = h" by (intro remove_unlinked) (auto simp: rep_def)
  moreover have "\<forall>l\<in>H. removeAll n (L l) = L l" using False by simp
  ultimately show ?thesis using R by (simp add: rep_def)
next
  case True
  then obtain l where l: "l \<in> H" "n \<in> set (L l)" by blast
  then obtain ys zs where ll: "L l = ys @ n # zs" by (meson split_list)
  let ?h = "rt_list_remove n h"
  have rl: "ring h l (L l)" using R l(1) by (rule rep_ring)
  have rr: "ring ?h l (ys @ zs)" "ring ?h n []"
    using rl unfolding ll by (rule ring_remove)+
  have al: "removeAll n (L l) = ys @ zs"
    using rep_distinct [OF R l(1)] unfolding ll by (rule removeAll_split)
  have other: "ring ?h m (L m)" if "m \<in> H" "m \<noteq> l" for m
    using rl l(2) rep_ring [OF R that(1)] rep_apart [OF R l(1) that(1)] that
    by (intro ring_remove_frame) auto
  have free: "ring ?h q []" if "q \<in> N" "\<forall>m\<in>H. q \<notin> set (L m)" for q
    using R l that by (intro ring_remove_frame [OF rl l(2)]) (auto simp: rep_def)
  have lists: "\<forall>m\<in>H. ring ?h m (removeAll n (L m))"
  proof
    fix m assume m: "m \<in> H"
    show "ring ?h m (removeAll n (L m))"
    proof (cases "m = l")
      case True
      then show ?thesis using al rr(1) by simp
    next
      case False
      then have "n \<notin> set (L m)" using rep_one_list [OF R l(1) m l(2)] by blast
      then show ?thesis using other [OF m False] by simp
    qed
  qed
  show ?thesis
    unfolding rep_def
  proof (intro conjI ballI impI)
    show "H \<inter> N = {}" using R by (simp add: rep_def)
  next
    fix m assume "m \<in> H"
    then show "ring ?h m (removeAll n (L m))" "set (removeAll n (L m)) \<subseteq> N"
      using lists R by (auto simp: rep_def)
  next
    fix m k x assume "m \<in> H" "k \<in> H" "x \<in> set (removeAll n (L m))" "x \<in> set (removeAll n (L k))"
    then show "m = k" using rep_one_list [OF R, of m k x] by simp
  next
    fix q assume "q \<in> N" "\<forall>m\<in>H. q \<notin> set (removeAll n (L m))"
    then show "ring ?h q []" using free rr(2) by (cases "q = n") auto
  qed
qed

lemma rep_insert:
  assumes R: "rep h H N L" and l: "l \<in> H" and n: "n \<in> N" "\<forall>m\<in>H. n \<notin> set (L m)"
    and ll: "L l = ys @ zs"
  shows "rep (rt_list_insert_after (last (l # ys)) n h) H N (L(l := ys @ n # zs))"
proof -
  let ?p = "last (l # ys)"
  let ?h = "rt_list_insert_after ?p n h"
  have nl: "n \<notin> insert l (set (ys @ zs))" using R l n ll by (auto simp: rep_def)
  have rl: "ring h l (ys @ zs)" using rep_ring [OF R l] ll by simp
  have p: "?p \<in> insert l (set (ys @ zs))" by auto
  have here: "ring ?h l (ys @ n # zs)" using rl nl by (rule ring_insert_after)
  have other: "ring ?h m (L m)" if "m \<in> H" "m \<noteq> l" for m
    using rep_apart [OF R l that(1)] that R n ll
    by (intro ring_insert_frame [OF rl p rep_ring [OF R that(1)]]) (auto simp: rep_def)
  have free: "ring ?h q []" if "q \<in> N" "\<forall>m\<in>H. q \<notin> set (L m)" "q \<noteq> n" for q
    using R l that ll by (intro ring_insert_frame [OF rl p]) (auto simp: rep_def)
  show ?thesis
    unfolding rep_def
  proof (intro conjI ballI impI)
    show "H \<inter> N = {}" using R by (simp add: rep_def)
  next
    fix m assume "m \<in> H"
    then show "ring ?h m ((L(l := ys @ n # zs)) m)" using other here by simp
    show "set ((L(l := ys @ n # zs)) m) \<subseteq> N"
      using R l n ll \<open>m \<in> H\<close> unfolding rep_def by (cases "m = l") force+
  next
    fix m k x assume *: "m \<in> H" "k \<in> H"
      "x \<in> set ((L(l := ys @ n # zs)) m)" "x \<in> set ((L(l := ys @ n # zs)) k)"
    have "x \<in> set (L m) \<and> x \<in> set (L k) \<or> m = k"
      using * n(2) ll by (cases "m = l"; cases "k = l") auto
    then show "m = k" using rep_one_list [OF R *(1,2)] by blast
  next
    fix q assume "q \<in> N" "\<forall>m\<in>H. q \<notin> set ((L(l := ys @ n # zs)) m)"
    moreover from this have "q \<notin> set (ys @ n # zs)" using l by fastforce
    moreover have "q \<notin> set (L m)" if "m \<in> H" for m
      using calculation that ll by (cases "m = l") force+
    ultimately show "ring ?h q []" by (intro free) auto
  qed
qed

lemma rep_insert_before:
  assumes R: "rep h H N L" and l: "l \<in> H" and n: "n \<in> N" "\<forall>m\<in>H. n \<notin> set (L m)"
    and ll: "L l = ys @ zs"
  shows "rep (rt_list_insert_before (hd (zs @ [l])) n h) H N (L(l := ys @ n # zs))"
proof -
  have rl: "ring h l (ys @ zs)" using rep_ring [OF R l] ll by simp
  have nl: "n \<notin> insert l (set (ys @ zs))" using R l n ll by (auto simp: rep_def)
  have "rt_list_insert_before (hd (zs @ [l])) n h = rt_list_insert_after (last (l # ys)) n h"
    using ring_split_nxt [OF rl] nl
    by (intro insert_before_eq_after) (auto simp: hd_append split: if_splits)
  then show ?thesis using rep_insert [OF assms] by simp
qed

section \<open>The interface the kernel relies on\<close>

text \<open>
  What the scheduler, the IPC objects and the timers need of an intrusive list: the heap
  represents a family of lists, a node is on at most one of them, unlinking works wherever the
  node is (and does nothing where it is on no list), and a free node can be pushed on either
  end.
\<close>

locale intrusive_lists =
  fixes represents :: "'h \<Rightarrow> ('l \<Rightarrow> 'n list) \<Rightarrow> bool"
    and head :: "'l \<Rightarrow> bool"
    and node :: "'n \<Rightarrow> bool"
    and push_front :: "'l \<Rightarrow> 'n \<Rightarrow> 'h \<Rightarrow> 'h"
    and push_back :: "'l \<Rightarrow> 'n \<Rightarrow> 'h \<Rightarrow> 'h"
    and unlink :: "'n \<Rightarrow> 'h \<Rightarrow> 'h"
    and isempty :: "'l \<Rightarrow> 'h \<Rightarrow> bool"
  assumes unlink: "represents h L \<Longrightarrow> node n \<Longrightarrow> represents (unlink n h) (\<lambda>l. removeAll n (L l))"
    and push_front: "represents h L \<Longrightarrow> head l \<Longrightarrow> node n \<Longrightarrow> (\<And>m. head m \<Longrightarrow> n \<notin> set (L m)) \<Longrightarrow>
      represents (push_front l n h) (L(l := n # L l))"
    and push_back: "represents h L \<Longrightarrow> head l \<Longrightarrow> node n \<Longrightarrow> (\<And>m. head m \<Longrightarrow> n \<notin> set (L m)) \<Longrightarrow>
      represents (push_back l n h) (L(l := L l @ [n]))"
    and isempty: "represents h L \<Longrightarrow> head l \<Longrightarrow> isempty l h \<longleftrightarrow> L l = []"
    and one_list: "represents h L \<Longrightarrow> head l \<Longrightarrow> head m \<Longrightarrow> n \<in> set (L l) \<Longrightarrow> n \<in> set (L m) \<Longrightarrow> l = m"
    and dist: "represents h L \<Longrightarrow> head l \<Longrightarrow> distinct (L l)"
begin

lemma move_back:
  assumes "represents h L" "head l" "node n"
  shows "represents (push_back l n (unlink n h))
    ((\<lambda>m. removeAll n (L m))(l := removeAll n (L l) @ [n]))"
  using push_back [OF unlink [OF assms(1,3)] assms(2,3)] by simp

lemma move_front:
  assumes "represents h L" "head l" "node n"
  shows "represents (push_front l n (unlink n h))
    ((\<lambda>m. removeAll n (L m))(l := n # removeAll n (L l)))"
  using push_front [OF unlink [OF assms(1,3)] assms(2,3)] by simp

lemma moved_only_there:
  assumes "represents h L" "head l" "node n" "head m" "m \<noteq> l"
  shows "\<not> isempty l (push_back l n (unlink n h)) \<and>
    n \<notin> set (((\<lambda>m. removeAll n (L m))(l := removeAll n (L l) @ [n])) m)"
  using isempty [OF move_back [OF assms(1-3)] assms(2)] assms(5) by simp

lemma unlink_isempty:
  assumes "represents h L" "head l" "node n"
  shows "isempty l (unlink n h) \<longleftrightarrow> set (L l) \<subseteq> {n}"
  using isempty [OF unlink [OF assms(1,3)] assms(2)] by (auto simp: removeAll_id removeAll_filter_not_eq filter_empty_conv)

end

interpretation rtl: intrusive_lists "\<lambda>h. rep h H N" "\<lambda>l. l \<in> H" "\<lambda>n. n \<in> N"
  rt_list_insert_after rt_list_insert_before rt_list_remove rt_list_isempty
  for H N :: "'n set"
proof unfold_locales
  fix h L and l n :: 'n
  assume *: "rep h H N L" "l \<in> H" "n \<in> N" "\<And>m. m \<in> H \<Longrightarrow> n \<notin> set (L m)"
  show "rep (rt_list_insert_after l n h) H N (L(l := n # L l))"
    using rep_insert [of h H N L l n "[]" "L l"] * by simp
  show "rep (rt_list_insert_before l n h) H N (L(l := L l @ [n]))"
    using rep_insert_before [of h H N L l n "L l" "[]"] * by simp
qed (auto intro: rep_remove dest: rep_isempty rep_one_list rep_distinct)

section \<open>Properties\<close>

text \<open>
  Moving a node between lists: in a heap that represents a family of lists,
  \<open>rt_list_remove\<close> followed by \<open>rt_list_insert_before\<close> on a head (the way every
  thread moves between the ready queues and the suspend lists) takes the node off whatever
  list it was on, appends it to the list of that head, and leaves every other list as it was.
\<close>

theorem rt_list_move_refines:
  assumes "rep h H N L" "l \<in> H" "n \<in> N"
  shows "rep (rt_list_insert_before l n (rt_list_remove n h)) H N
    ((\<lambda>m. removeAll n (L m))(l := removeAll n (L l) @ [n]))"
  using assms by (rule rtl.move_back)

definition example_heap :: "nat dheap" where
  "example_heap = rt_list_insert_before 10 3 (rt_list_insert_before 10 2 \<lparr>nxt = id, prv = id\<rparr>)"

lemma example_heap_rep: "rep example_heap {10, 11} {2, 3} ((\<lambda>_. [])(10 := [2, 3]))"
  by (auto simp: rep_def ring_def example_heap_def list_op_defs)

theorem rt_list_move_refines_witness:
  "rep (rt_list_insert_before 11 2 (rt_list_remove 2 example_heap)) {10, 11} {2, 3}
    ((\<lambda>_. [])(10 := [3], 11 := [2]))"
proof -
  have "(\<lambda>m :: nat. removeAll 2 (((\<lambda>_ :: nat. [])(10 := [2, 3])) m))(11 := removeAll 2 (((\<lambda>_ :: nat. [])(10 := [2, 3])) 11) @ [2])
      = (\<lambda>_ :: nat. [])(10 := [3 :: nat], 11 := [2])"
    by (auto simp: fun_eq_iff)
  with rt_list_move_refines [OF example_heap_rep, of 11 2] show ?thesis by (metis insertI1 insertI2)
qed

text \<open>
  \<open>rt_list_len\<close> returns on every well-formed list, with the number of nodes (as an
  \<open>unsigned int\<close>, that is modulo \<open>2 ^ 32\<close>).
\<close>

theorem rt_list_len_correct:
  assumes "ring h l xs"
  shows "rt_list_len l h = Some (of_nat (length xs))"
  using assms by (rule rt_list_len_ring)

theorem rt_list_len_correct_witness: "rt_list_len 10 example_heap = Some 2"
proof -
  have "ring example_heap 10 [2, 3]"
    using rep_ring [OF example_heap_rep, of 10] by simp
  from rt_list_len_correct [OF this] show ?thesis by simp
qed

end
