(* ===== verification/Rt_Slist.thy ===== *)
theory Rt_Slist
  imports Prelude
begin

text \<open>
  The singly linked lists of \<^verbatim>\<open>rt-thread/include/rtservice.h\<close>: a map from nodes to their \<open>next\<close> fields,
  the operations as the inline functions have them, and their refinement to lists of nodes. The
  loops follow pointers and are partial functions; that they return on a list is part of the lemmas.
\<close>

type_synonym 'p links = "'p \<Rightarrow> 'p option"

section \<open>Operations\<close>

definition rt_slist_init :: "'p \<Rightarrow> 'p links \<Rightarrow> 'p links" where
  "rt_slist_init l s = s(l := None)"

partial_function (option) rt_slist_tail :: "'p links \<Rightarrow> 'p \<Rightarrow> 'p option" where
  "rt_slist_tail s l = (case s l of None \<Rightarrow> Some l | Some n \<Rightarrow> rt_slist_tail s n)"

text \<open>The loop of \<open>rt_slist_append\<close> is the one of \<open>rt_slist_tail\<close>.\<close>

definition rt_slist_append :: "'p \<Rightarrow> 'p \<Rightarrow> 'p links \<Rightarrow> 'p links option" where
  "rt_slist_append l n s = map_option (\<lambda>node. s(node := Some n, n := None)) (rt_slist_tail s l)"

definition rt_slist_insert :: "'p \<Rightarrow> 'p \<Rightarrow> 'p links \<Rightarrow> 'p links" where
  "rt_slist_insert l n s = (let s = s(n := s l) in s(l := Some n))"

partial_function (option) slist_len_loop :: "'p links \<Rightarrow> 'p option \<Rightarrow> nat \<Rightarrow> nat option" where
  "slist_len_loop s list1 len = (case list1 of None \<Rightarrow> Some len | Some p \<Rightarrow> slist_len_loop s (s p) (len + 1))"

definition rt_slist_len :: "'p links \<Rightarrow> 'p \<Rightarrow> nat option" where
  "rt_slist_len s l = slist_len_loop s (s l) 0"

partial_function (option) slist_before :: "'p links \<Rightarrow> 'p \<Rightarrow> 'p \<Rightarrow> 'p option" where
  "slist_before s n node =
     (case s node of
        None \<Rightarrow> Some node
      | Some p \<Rightarrow> if p \<noteq> n then slist_before s n p else Some node)"

definition rt_slist_remove :: "'p \<Rightarrow> 'p \<Rightarrow> 'p links \<Rightarrow> 'p links option" where
  "rt_slist_remove l n s =
     map_option (\<lambda>node. case s node of None \<Rightarrow> s | Some p \<Rightarrow> s(node := s p)) (slist_before s n l)"

definition rt_slist_first :: "'p links \<Rightarrow> 'p \<Rightarrow> 'p option" where
  "rt_slist_first s l = s l"

definition rt_slist_next :: "'p links \<Rightarrow> 'p \<Rightarrow> 'p option" where
  "rt_slist_next s n = s n"

definition rt_slist_isempty :: "'p links \<Rightarrow> 'p \<Rightarrow> bool" where
  "rt_slist_isempty s l \<longleftrightarrow> s l = None"

section \<open>Lists of nodes\<close>

primrec links_from :: "'p links \<Rightarrow> 'p \<Rightarrow> 'p list \<Rightarrow> bool" where
  "links_from s l [] \<longleftrightarrow> s l = None"
| "links_from s l (x # xs) \<longleftrightarrow> s l = Some x \<and> links_from s x xs"

definition slist :: "'p links \<Rightarrow> 'p \<Rightarrow> 'p list \<Rightarrow> bool" where
  "slist s l xs \<longleftrightarrow> links_from s l xs \<and> distinct (l # xs)"

lemma links_from_cong: "(\<And>x. x \<in> set (l # xs) \<Longrightarrow> s x = s' x) \<Longrightarrow> links_from s l xs = links_from s' l xs"
  by (induction xs arbitrary: l) auto

lemma links_from_unique: "links_from s l xs \<Longrightarrow> links_from s l ys \<Longrightarrow> xs = ys"
proof (induction xs arbitrary: l ys)
  case Nil
  then show ?case by (cases ys) auto
next
  case (Cons x xs)
  then show ?case by (cases ys) auto
qed

lemma rt_slist_tail_last: "links_from s l xs \<Longrightarrow> rt_slist_tail s l = Some (last (l # xs))"
  by (induction xs arbitrary: l) (subst rt_slist_tail.simps, simp)+

lemma links_from_append:
  "links_from s l xs \<Longrightarrow> n \<notin> set (l # xs) \<Longrightarrow> distinct (l # xs) \<Longrightarrow> links_from (s(last (l # xs) := Some n, n := None)) l (xs @ [n])"
proof (induction xs arbitrary: l)
  case (Cons x xs)
  define s' where "s' = s(last (x # xs) := Some n, n := None)"
  have "links_from s' x (xs @ [n])" unfolding s'_def by (rule Cons.IH) (use Cons.prems in auto)
  moreover have "last (x # xs) \<in> set (x # xs)" by (rule last_in_set) simp
  then have "s' l = Some x" using Cons.prems by (auto simp: s'_def)
  ultimately have "links_from s' l ((x # xs) @ [n])" by (simp only: append_Cons links_from.simps simp_thms)
  moreover have "last (l # x # xs) = last (x # xs)" by simp
  ultimately show ?case unfolding s'_def by (simp only:)
qed simp

lemma slist_append:
  assumes "slist s l xs" "n \<notin> set (l # xs)"
  shows "\<exists>s'. rt_slist_append l n s = Some s' \<and> slist s' l (xs @ [n])"
  using assms links_from_append [of s l xs n] by (auto simp: slist_def rt_slist_append_def rt_slist_tail_last)

lemma slist_insert:
  assumes "slist s l xs" "n \<notin> set (l # xs)"
  shows "slist (rt_slist_insert l n s) l (n # xs)"
proof -
  have "links_from (s(n := s l, l := Some n)) n xs"
  proof (cases xs)
    case (Cons x ys)
    then have "links_from (s(n := s l, l := Some n)) x ys = links_from s x ys" using assms by (intro links_from_cong) (auto simp: slist_def)
    then show ?thesis using Cons assms by (auto simp: slist_def)
  qed (use assms in \<open>auto simp: slist_def\<close>)
  then show ?thesis using assms by (auto simp: slist_def rt_slist_insert_def Let_def)
qed

lemma slist_len_loop: "links_from s l xs \<Longrightarrow> slist_len_loop s (s l) k = Some (k + length xs)"
  by (induction xs arbitrary: l k) (subst slist_len_loop.simps, simp)+

lemma slist_remove_links:
  "links_from s l xs \<Longrightarrow> distinct (l # xs) \<Longrightarrow> \<exists>s'. rt_slist_remove l n s = Some s' \<and> links_from s' l (remove1 n xs) \<and> (\<forall>x. x \<notin> set (l # xs) \<longrightarrow> s' x = s x)"
proof (induction xs arbitrary: l)
  case Nil
  then show ?case by (simp add: rt_slist_remove_def slist_before.simps)
next
  case (Cons x xs)
  show ?case
  proof (cases "x = n")
    case True
    have "slist_before s n l = Some l" using Cons.prems(1) True by (subst slist_before.simps) simp
    moreover have "links_from (s(l := s x)) l xs"
    proof (cases xs)
      case (Cons y ys)
      then have "links_from (s(l := s x)) y ys = links_from s y ys" using Cons.prems(2) by (intro links_from_cong) auto
      then show ?thesis using Cons Cons.prems by auto
    qed (use Cons.prems in auto)
    ultimately show ?thesis using Cons.prems True by (auto simp: rt_slist_remove_def)
  next
    case False
    have "slist_before s n l = slist_before s n x" using Cons.prems(1) False by (subst slist_before.simps) simp
    then have "rt_slist_remove l n s = rt_slist_remove x n s" by (simp add: rt_slist_remove_def)
    moreover obtain s' where "rt_slist_remove x n s = Some s'" "links_from s' x (remove1 n xs)" "\<forall>y. y \<notin> set (x # xs) \<longrightarrow> s' y = s y"
      using Cons.IH [of x] Cons.prems by auto
    ultimately show ?thesis using Cons.prems False by auto
  qed
qed

text \<open>
  The singly linked lists refine lists of nodes: \<open>rt_slist_append\<close> returns and puts a new node at the
  end, \<open>rt_slist_insert\<close> at the front, \<open>rt_slist_remove\<close> returns and takes out exactly the node given (and
  nothing when it is not there), \<open>rt_slist_len\<close> returns the length.
\<close>

theorem rt_slist_refines:
  assumes "slist s l xs"
  shows "(n \<notin> set (l # xs) \<longrightarrow> (\<exists>s'. rt_slist_append l n s = Some s' \<and> slist s' l (xs @ [n])) \<and> slist (rt_slist_insert l n s) l (n # xs))
    \<and> (\<exists>s'. rt_slist_remove l n s = Some s' \<and> slist s' l (remove1 n xs))
    \<and> rt_slist_len s l = Some (length xs) \<and> rt_slist_isempty s l = (xs = []) \<and> rt_slist_tail s l = Some (last (l # xs))"
proof -
  have f: "links_from s l xs" "distinct (l # xs)" using assms by (simp_all add: slist_def)
  have "distinct (l # remove1 n xs)" using f(2) by (auto dest: notin_set_remove1)
  then have "\<exists>s'. rt_slist_remove l n s = Some s' \<and> slist s' l (remove1 n xs)" using slist_remove_links [OF f, of n] by (auto simp: slist_def)
  moreover have "rt_slist_isempty s l = (xs = [])" using f(1) by (cases xs) (simp_all add: rt_slist_isempty_def)
  ultimately show ?thesis
    using slist_append [OF assms] slist_insert [OF assms] slist_len_loop [OF f(1), of 0] rt_slist_tail_last [OF f(1)]
    by (simp add: rt_slist_len_def)
qed

theorem rt_slist_refines_witness:
  "\<exists>s'. rt_slist_remove 0 (2 :: nat) [0 \<mapsto> 1, 1 \<mapsto> 2, 2 \<mapsto> 3] = Some s' \<and> slist s' 0 [1, 3]"
  using rt_slist_refines [of "[0 \<mapsto> 1, 1 \<mapsto> 2, 2 \<mapsto> 3]" "0 :: nat" "[1, 2, 3]" 2] by (auto simp: slist_def)

end
