(* ===== verification/Kservice.thy ===== *)
theory Kservice
  imports Prelude
begin

text \<open>
  The kernel service routines of \<^verbatim>\<open>rt-thread/src/kservice.c\<close> that the other components
  rely on: the find-first-set function the scheduler picks priorities with, the memory block
  operations (with the word-at-a-time loops of the default build, on a little-endian 32-bit
  target) and the string operations. A C string is the list of its characters before the
  terminating zero; reading past the list yields that zero. Memory is a map from addresses to
  bytes.
\<close>

section \<open>Find first set\<close>

definition lowest_bit_bitmap :: "nat list" where
  "lowest_bit_bitmap =
    [0, 0, 1, 0, 2, 0, 1, 0, 3, 0, 1, 0, 2, 0, 1, 0,
     4, 0, 1, 0, 2, 0, 1, 0, 3, 0, 1, 0, 2, 0, 1, 0,
     5, 0, 1, 0, 2, 0, 1, 0, 3, 0, 1, 0, 2, 0, 1, 0,
     4, 0, 1, 0, 2, 0, 1, 0, 3, 0, 1, 0, 2, 0, 1, 0,
     6, 0, 1, 0, 2, 0, 1, 0, 3, 0, 1, 0, 2, 0, 1, 0,
     4, 0, 1, 0, 2, 0, 1, 0, 3, 0, 1, 0, 2, 0, 1, 0,
     5, 0, 1, 0, 2, 0, 1, 0, 3, 0, 1, 0, 2, 0, 1, 0,
     4, 0, 1, 0, 2, 0, 1, 0, 3, 0, 1, 0, 2, 0, 1, 0,
     7, 0, 1, 0, 2, 0, 1, 0, 3, 0, 1, 0, 2, 0, 1, 0,
     4, 0, 1, 0, 2, 0, 1, 0, 3, 0, 1, 0, 2, 0, 1, 0,
     5, 0, 1, 0, 2, 0, 1, 0, 3, 0, 1, 0, 2, 0, 1, 0,
     4, 0, 1, 0, 2, 0, 1, 0, 3, 0, 1, 0, 2, 0, 1, 0,
     6, 0, 1, 0, 2, 0, 1, 0, 3, 0, 1, 0, 2, 0, 1, 0,
     4, 0, 1, 0, 2, 0, 1, 0, 3, 0, 1, 0, 2, 0, 1, 0,
     5, 0, 1, 0, 2, 0, 1, 0, 3, 0, 1, 0, 2, 0, 1, 0,
     4, 0, 1, 0, 2, 0, 1, 0, 3, 0, 1, 0, 2, 0, 1, 0]"

definition rt_ffs :: "u32 \<Rightarrow> nat" where
  "rt_ffs value =
     (if value = 0 then 0
      else if value AND 0xff \<noteq> 0 then lowest_bit_bitmap ! unat (value AND 0xff) + 1
      else if value AND 0xff00 \<noteq> 0 then lowest_bit_bitmap ! unat (drop_bit 8 (value AND 0xff00)) + 9
      else if value AND 0xff0000 \<noteq> 0 then lowest_bit_bitmap ! unat (drop_bit 16 (value AND 0xff0000)) + 17
      else lowest_bit_bitmap ! unat (drop_bit 24 (value AND 0xff000000)) + 25)"

section \<open>Memory blocks\<close>

type_synonym memory = "addr \<Rightarrow> u8"

definition store32 :: "addr \<Rightarrow> u32 \<Rightarrow> memory \<Rightarrow> memory" where
  "store32 a w m = m(a := ucast w, a + 1 := ucast (drop_bit 8 w),
     a + 2 := ucast (drop_bit 16 w), a + 3 := ucast (drop_bit 24 w))"

definition load32 :: "addr \<Rightarrow> memory \<Rightarrow> u32" where
  "load32 a m = ucast (m a) OR push_bit 8 (ucast (m (a + 1)))
     OR push_bit 16 (ucast (m (a + 2))) OR push_bit 24 (ucast (m (a + 3)))"

definition copy32 :: "addr \<Rightarrow> addr \<Rightarrow> memory \<Rightarrow> memory" where
  "copy32 d s m = store32 d (load32 s m) m"

fun memset_blocks :: "addr \<Rightarrow> u32 \<Rightarrow> nat \<Rightarrow> memory \<Rightarrow> addr \<times> nat \<times> memory" where
  "memset_blocks a buffer count m =
     (if 16 \<le> count then
        memset_blocks (a + 16) buffer (count - 16)
          (store32 (a + 12) buffer (store32 (a + 8) buffer
             (store32 (a + 4) buffer (store32 a buffer m))))
      else (a, count, m))"

fun memset_words :: "addr \<Rightarrow> u32 \<Rightarrow> nat \<Rightarrow> memory \<Rightarrow> addr \<times> nat \<times> memory" where
  "memset_words a buffer count m =
     (if 4 \<le> count then memset_words (a + 4) buffer (count - 4) (store32 a buffer m)
      else (a, count, m))"

fun memset_bytes :: "addr \<Rightarrow> u8 \<Rightarrow> nat \<Rightarrow> memory \<Rightarrow> memory" where
  "memset_bytes a d 0 m = m"
| "memset_bytes a d (Suc count) m = memset_bytes (a + 1) d count (m(a := d))"

definition rt_memset :: "addr \<Rightarrow> int \<Rightarrow> nat \<Rightarrow> memory \<Rightarrow> memory" where
  "rt_memset s c count m =
     (let d = word_of_int c AND 0xff :: u32 in
      if \<not> count < 4 \<and> s mod 4 = 0 then
        (let buffer = push_bit 8 d OR d;
             buffer = buffer OR push_bit 16 buffer;
             (a, count, m) = memset_blocks s buffer count m;
             (a, count, m) = memset_words a buffer count m
         in memset_bytes a (ucast d) count m)
      else memset_bytes s (ucast d) count m)"

fun memcpy_blocks :: "addr \<Rightarrow> addr \<Rightarrow> nat \<Rightarrow> memory \<Rightarrow> addr \<times> addr \<times> nat \<times> memory" where
  "memcpy_blocks d s len m =
     (if 16 \<le> len then
        memcpy_blocks (d + 16) (s + 16) (len - 16)
          (copy32 (d + 12) (s + 12) (copy32 (d + 8) (s + 8)
             (copy32 (d + 4) (s + 4) (copy32 d s m))))
      else (d, s, len, m))"

fun memcpy_words :: "addr \<Rightarrow> addr \<Rightarrow> nat \<Rightarrow> memory \<Rightarrow> addr \<times> addr \<times> nat \<times> memory" where
  "memcpy_words d s len m =
     (if 4 \<le> len then memcpy_words (d + 4) (s + 4) (len - 4) (copy32 d s m)
      else (d, s, len, m))"

fun copy_up :: "addr \<Rightarrow> addr \<Rightarrow> nat \<Rightarrow> memory \<Rightarrow> memory" where
  "copy_up d s 0 m = m"
| "copy_up d s (Suc n) m = copy_up (d + 1) (s + 1) n (m(d := m s))"

fun copy_down :: "addr \<Rightarrow> addr \<Rightarrow> nat \<Rightarrow> memory \<Rightarrow> memory" where
  "copy_down d s 0 m = m"
| "copy_down d s (Suc n) m = copy_down d s n (m(d + n := m (s + n)))"

definition rt_memcpy :: "addr \<Rightarrow> addr \<Rightarrow> nat \<Rightarrow> memory \<Rightarrow> memory" where
  "rt_memcpy dst src count m =
     (if \<not> count < 16 \<and> src mod 4 = 0 \<and> dst mod 4 = 0 then
        (let (d, s, len, m) = memcpy_blocks dst src count m;
             (d, s, len, m) = memcpy_words d s len m
         in copy_up d s len m)
      else copy_up dst src count m)"

definition rt_memmove :: "addr \<Rightarrow> addr \<Rightarrow> nat \<Rightarrow> memory \<Rightarrow> memory" where
  "rt_memmove dest src n m =
     (if src < dest \<and> dest < src + n then copy_down dest src n m
      else copy_up dest src n m)"

fun rt_memcmp :: "addr \<Rightarrow> addr \<Rightarrow> nat \<Rightarrow> memory \<Rightarrow> int" where
  "rt_memcmp cs ct 0 m = 0"
| "rt_memcmp cs ct (Suc count) m =
     (let res = uint (m cs) - uint (m ct)
      in if res \<noteq> 0 then res else rt_memcmp (cs + 1) (ct + 1) count m)"

section \<open>Strings\<close>

type_synonym cstring = "u8 list"

definition chr_at :: "cstring \<Rightarrow> u8" where
  "chr_at s = (case s of [] \<Rightarrow> 0 | c # _ \<Rightarrow> c)"

fun rt_strncpy :: "cstring \<Rightarrow> nat \<Rightarrow> cstring" where
  "rt_strncpy src 0 = []"
| "rt_strncpy src (Suc n) =
     (if chr_at src = 0 then 0 # replicate n 0
      else chr_at src # rt_strncpy (tl src) n)"

fun rt_strncmp :: "cstring \<Rightarrow> cstring \<Rightarrow> nat \<Rightarrow> int" where
  "rt_strncmp cs ct 0 = 0"
| "rt_strncmp cs ct (Suc count) =
     (let res = chr_at cs - chr_at ct
      in if res \<noteq> 0 \<or> chr_at cs = 0 then sint res
         else rt_strncmp (tl cs) (tl ct) count)"

lemma chr_at_nonzero [termination_simp]: "chr_at s \<noteq> 0 \<Longrightarrow> length s - Suc 0 < length s"
  by (cases s) (auto simp: chr_at_def)

function rt_strcmp :: "cstring \<Rightarrow> cstring \<Rightarrow> int" where
  "rt_strcmp cs ct =
     (if chr_at cs \<noteq> 0 \<and> chr_at cs = chr_at ct then rt_strcmp (tl cs) (tl ct)
      else uint (chr_at cs) - uint (chr_at ct))"
  by pat_completeness auto
termination
  by (relation "measure (\<lambda>(cs, ct). length cs)") (auto intro: chr_at_nonzero)

function rt_strlen :: "cstring \<Rightarrow> nat" where
  "rt_strlen s = (if chr_at s \<noteq> 0 then Suc (rt_strlen (tl s)) else 0)"
  by pat_completeness auto
termination
  by (relation "measure length") (auto intro: chr_at_nonzero)

fun rt_strnlen :: "cstring \<Rightarrow> nat \<Rightarrow> nat" where
  "rt_strnlen s maxlen =
     (if chr_at s \<noteq> 0 \<and> 0 < maxlen then Suc (rt_strnlen (tl s) (maxlen - 1)) else 0)"

text \<open>\<open>rt_memcmp\<close> on two strings, as \<open>rt_strstr\<close> calls it.\<close>

fun str_memcmp :: "cstring \<Rightarrow> cstring \<Rightarrow> nat \<Rightarrow> int" where
  "str_memcmp cs ct 0 = 0"
| "str_memcmp cs ct (Suc count) =
     (let res = uint (chr_at cs) - uint (chr_at ct)
      in if res \<noteq> 0 then res else str_memcmp (tl cs) (tl ct) count)"

function strstr_loop :: "int \<Rightarrow> int \<Rightarrow> cstring \<Rightarrow> cstring \<Rightarrow> cstring option" where
  "strstr_loop l1 l2 s1 s2 =
     (if l1 \<ge> l2 then
        (if str_memcmp s1 s2 (nat l2) = 0 then Some s1 else strstr_loop (l1 - 1) l2 (tl s1) s2)
      else None)"
  by pat_completeness auto
termination by (relation "measure (\<lambda>(l1, l2, _, _). nat (l1 - l2 + 1))") auto

definition rt_strstr :: "cstring \<Rightarrow> cstring \<Rightarrow> cstring option" where
  "rt_strstr s1 s2 =
     (let l2 = int (rt_strlen s2)
      in if l2 = 0 then Some s1 else strstr_loop (int (rt_strlen s1)) l2 s1 s2)"

definition lower :: "int \<Rightarrow> int" where
  "lower c = (if 65 \<le> c \<and> c \<le> 90 then c + (97 - 65) else c)"

function rt_strcasecmp :: "cstring \<Rightarrow> cstring \<Rightarrow> int" where
  "rt_strcasecmp a b =
     (let ca = lower (uint (chr_at a)); cb = lower (uint (chr_at b))
      in if ca = cb \<and> ca \<noteq> 0 then rt_strcasecmp (tl a) (tl b) else ca - cb)"
  by pat_completeness auto
termination
  by (relation "measure (\<lambda>(a, b). length a)") (auto simp: lower_def intro!: chr_at_nonzero)

declare strstr_loop.simps [simp del] rt_strcasecmp.simps [simp del]

declare memset_blocks.simps [simp del] memset_words.simps [simp del] memcpy_blocks.simps [simp del]
  memcpy_words.simps [simp del] rt_strcmp.simps [simp del] rt_strlen.simps [simp del]
  rt_strnlen.simps [simp del]

section \<open>Find first set: the table holds the lowest bit of every byte\<close>

lemma lowest_bit_bitmap_ok:
  "list_all (\<lambda>(b, t). b = 0 \<or> b mod 2 ^ t = 0 \<and> b div 2 ^ t mod 2 = 1 \<and> t < 8)
     (enumerate 0 lowest_bit_bitmap)"
  unfolding lowest_bit_bitmap_def by simp

lemma length_bitmap: "length lowest_bit_bitmap = 256"
  unfolding lowest_bit_bitmap_def by simp

lemma bitmap_byte:
  assumes "0 < b" "b < 256"
  shows "b mod 2 ^ (lowest_bit_bitmap ! b) = 0" "odd (b div 2 ^ (lowest_bit_bitmap ! b))"
    "lowest_bit_bitmap ! b < 8"
proof -
  have "(b, lowest_bit_bitmap ! b) \<in> set (enumerate 0 lowest_bit_bitmap)"
    using assms by (simp add: in_set_enumerate_eq length_bitmap)
  with lowest_bit_bitmap_ok assms
  show "b mod 2 ^ (lowest_bit_bitmap ! b) = 0" "odd (b div 2 ^ (lowest_bit_bitmap ! b))"
    "lowest_bit_bitmap ! b < 8"
    by (auto simp: list_all_iff odd_iff_mod_2_eq_one)
qed

lemma byte_of_word:
  fixes v :: u32
  shows "unat (v AND 0xff) = unat v mod 256"
    "unat (drop_bit 8 (v AND 0xff00)) = unat v div 2 ^ 8 mod 256"
    "unat (drop_bit 16 (v AND 0xff0000)) = unat v div 2 ^ 16 mod 256"
    "unat (drop_bit 24 (v AND 0xff000000)) = unat v div 2 ^ 24 mod 256"
proof -
  have m: "x AND 0xff = take_bit 8 x" for x :: u32
    by (simp add: take_bit_eq_mask mask_eq_exp_minus_1)
  have u: "unat (take_bit 8 x) = unat x mod 256" for x :: u32
    by (simp add: unsigned_take_bit_eq take_bit_nat_def)
  have d: "unat (drop_bit k x) = unat x div 2 ^ k" for k and x :: u32
    by (simp add: unat_drop_bit_eq drop_bit_nat_def)
  show "unat (v AND 0xff) = unat v mod 256"
    by (simp only: m u)
  show "unat (drop_bit 8 (v AND 0xff00)) = unat v div 2 ^ 8 mod 256"
    "unat (drop_bit 16 (v AND 0xff0000)) = unat v div 2 ^ 16 mod 256"
    "unat (drop_bit 24 (v AND 0xff000000)) = unat v div 2 ^ 24 mod 256"
    by (simp_all add: drop_bit_and m u d)
qed

lemma lowest_bit_shift:
  assumes "n mod 2 ^ k = 0" "(n div 2 ^ k) mod 256 = b" "0 < b" "t = lowest_bit_bitmap ! b"
  shows "2 ^ (t + k) dvd n \<and> odd (n div 2 ^ (t + k)) \<and> t < (8 :: nat)"
proof -
  let ?q = "n div 2 ^ k"
  have b: "b < 256" using assms(2) by auto
  note t = bitmap_byte [OF assms(3) b, folded assms(4)]
  obtain c where c: "?q = 256 * c + b" using assms(2) by (metis mult_div_mod_eq)
  have "2 ^ t dvd (256 :: nat)"
    using t(3) le_imp_power_dvd [of t 8 "2 :: nat"] by simp
  then obtain e where e: "(256 :: nat) = 2 ^ t * e" by blast
  have "even e"
  proof -
    have "2 ^ Suc t dvd (256 :: nat)"
      using t(3) le_imp_power_dvd [of "Suc t" 8 "2 :: nat"] by simp
    then show ?thesis using e by (auto simp: dvd_def)
  qed
  obtain f where f: "b = 2 ^ t * f" using t(1) by auto
  with t(2) have "odd f" by simp
  have q: "?q = 2 ^ t * (e * c + f)" using c e f by (simp add: algebra_simps)
  have n: "n = 2 ^ k * ?q" using assms(1) by auto
  then have "n = 2 ^ (t + k) * (e * c + f)" using q by (simp add: power_add algebra_simps)
  then show ?thesis using \<open>odd f\<close> \<open>even e\<close> t(3) by simp
qed

lemma lowest_bit_unique:
  assumes "2 ^ p dvd unat (v :: u32)" "odd (unat v div 2 ^ p)"
  shows "bit v p \<and> (\<forall>q<p. \<not> bit v q)"
proof -
  have b: "bit v q \<longleftrightarrow> odd (unat v div 2 ^ q)" for q
  proof -
    have "bit v q \<longleftrightarrow> bit (unat v) q" by (simp add: bit_unsigned_iff)
    then show ?thesis by (simp only: bit_iff_odd)
  qed
  have "\<not> bit v q" if "q < p" for q
  proof -
    obtain c where c: "unat v = 2 ^ p * c" using assms(1) by blast
    have "(2 :: nat) ^ p = 2 ^ q * (2 * 2 ^ (p - Suc q))"
      using that by (simp add: power_add [symmetric] flip: power_Suc)
    then have "unat v div 2 ^ q = 2 * 2 ^ (p - Suc q) * c" using c by simp
    then show ?thesis unfolding b by simp
  qed
  then show ?thesis using assms(2) b by blast
qed

lemma and_shifted_zero:
  fixes v :: "'a :: len word"
  shows "v AND push_bit k c = 0 \<longleftrightarrow> drop_bit k (v AND push_bit k c) = 0"
proof -
  have "v AND push_bit k c = push_bit k (drop_bit k (v AND push_bit k c))"
    by (rule bit_word_eqI) (auto simp: bit_simps)
  then show ?thesis by (metis drop_bit_of_0 push_bit_of_0)
qed

lemma byte_zero:
  fixes v :: u32
  shows "v AND 0xff = 0 \<longleftrightarrow> unat v mod 256 = 0"
    "v AND 0xff00 = 0 \<longleftrightarrow> unat v div 2 ^ 8 mod 256 = 0"
    "v AND 0xff0000 = 0 \<longleftrightarrow> unat v div 2 ^ 16 mod 256 = 0"
proof -
  have "v AND 0xff00 = 0 \<longleftrightarrow> drop_bit 8 (v AND 0xff00) = 0"
    "v AND 0xff0000 = 0 \<longleftrightarrow> drop_bit 16 (v AND 0xff0000) = 0"
    using and_shifted_zero [of v 8 "0xff"] and_shifted_zero [of v 16 "0xff"] by simp_all
  then show "v AND 0xff = 0 \<longleftrightarrow> unat v mod 256 = 0"
    "v AND 0xff00 = 0 \<longleftrightarrow> unat v div 2 ^ 8 mod 256 = 0"
    "v AND 0xff0000 = 0 \<longleftrightarrow> unat v div 2 ^ 16 mod 256 = 0"
    unfolding byte_of_word [symmetric] unat_eq_zero by blast+
qed

lemma rt_ffs_cases:
  assumes "v \<noteq> 0"
  obtains k b where "unat v mod 2 ^ k = 0" "unat v div 2 ^ k mod 256 = b" "0 < b"
    "rt_ffs v = lowest_bit_bitmap ! b + k + 1" "k \<le> 24"
proof -
  let ?n = "unat v"
  have n: "?n < 2 ^ 32" "0 < ?n"
    using unsigned_less [of v] assms by (auto simp: unat_gt_0)
  define m8 m16 m24 where "m8 = ?n mod 2 ^ 8" and "m16 = ?n mod 2 ^ 16" and "m24 = ?n mod 2 ^ 24"
  define b1 b2 b3 where "b1 = ?n div 2 ^ 8 mod 256" and "b2 = ?n div 2 ^ 16 mod 256"
    and "b3 = ?n div 2 ^ 24 mod 256"
  note md = m8_def m16_def m24_def b1_def b2_def b3_def
  have split: "m16 = m8 + 2 ^ 8 * b1" "m24 = m16 + 2 ^ 16 * b2" "?n = m24 + 2 ^ 24 * b3"
    unfolding md
    using n(1) mod_mult2_eq [of ?n "2 ^ 8" 256] mod_mult2_eq [of ?n "2 ^ 16" 256]
      mod_mult2_eq [of ?n "2 ^ 24" 256] by (simp_all add: mult.commute)
  have m: "?n mod 256 = m8" by (simp add: m8_def)
  have f: "rt_ffs v = (if v = 0 then 0 else if m8 \<noteq> 0 then lowest_bit_bitmap ! m8 + 1
      else if b1 \<noteq> 0 then lowest_bit_bitmap ! b1 + 9
      else if b2 \<noteq> 0 then lowest_bit_bitmap ! b2 + 17 else lowest_bit_bitmap ! b3 + 25)"
    unfolding rt_ffs_def byte_zero byte_of_word m md [symmetric] by (rule refl)
  consider "0 < m8" | "m8 = 0" "0 < b1" | "m16 = 0" "m8 = 0" "b1 = 0" "0 < b2"
    | "m24 = 0" "m8 = 0" "b1 = 0" "b2 = 0" "0 < b3"
    using split n(2) by (cases "m8 = 0"; cases "b1 = 0"; cases "b2 = 0"; cases "b3 = 0") auto
  then show ?thesis
  proof cases
    case 1
    have "rt_ffs v = lowest_bit_bitmap ! m8 + 0 + 1" using 1 f assms by simp
    with 1 show ?thesis using that [of 0 m8] m by simp
  next
    case 2
    have "rt_ffs v = lowest_bit_bitmap ! b1 + 8 + 1" using 2 f assms by simp
    from that [OF 2(1) [unfolded m8_def] b1_def [symmetric] 2(2) this] show ?thesis by simp
  next
    case 3
    have "rt_ffs v = lowest_bit_bitmap ! b2 + 16 + 1" using 3 f assms by simp
    from that [OF 3(1) [unfolded m16_def] b2_def [symmetric] 3(4) this] show ?thesis by simp
  next
    case 4
    have "rt_ffs v = lowest_bit_bitmap ! b3 + 24 + 1" using 4 f assms by simp
    from that [OF 4(1) [unfolded m24_def] b3_def [symmetric] 4(5) this] show ?thesis by simp
  qed
qed

lemma rt_ffs_lowest:
  assumes "v \<noteq> 0"
  shows "0 < rt_ffs v" "rt_ffs v \<le> 32" "bit v (rt_ffs v - 1)" "\<forall>q<rt_ffs v - 1. \<not> bit v q"
proof -
  obtain k b where kb: "unat v mod 2 ^ k = 0" "unat v div 2 ^ k mod 256 = b" "0 < b"
    "rt_ffs v = lowest_bit_bitmap ! b + k + 1" "k \<le> 24"
    using assms by (rule rt_ffs_cases)
  from lowest_bit_shift [OF kb(1-3) refl] lowest_bit_unique [of "lowest_bit_bitmap ! b + k" v]
  show "0 < rt_ffs v" "rt_ffs v \<le> 32" "bit v (rt_ffs v - 1)" "\<forall>q<rt_ffs v - 1. \<not> bit v q"
    using kb(4,5) by auto
qed

section \<open>Memory blocks: the word loops do what the byte loops do\<close>

definition mem_fill :: "addr \<Rightarrow> u8 \<Rightarrow> nat \<Rightarrow> memory \<Rightarrow> memory" where
  "mem_fill a b n m = (\<lambda>x. if a \<le> x \<and> x < a + n then b else m x)"

definition mem_copy :: "addr \<Rightarrow> addr \<Rightarrow> nat \<Rightarrow> memory \<Rightarrow> memory" where
  "mem_copy d s n m = (\<lambda>x. if d \<le> x \<and> x < d + n then m (s + (x - d)) else m x)"

lemma mem_fill_0 [simp]: "mem_fill a b 0 m = m"
  by (auto simp: mem_fill_def fun_eq_iff)

lemma mem_fill_add: "mem_fill (a + j) b k (mem_fill a b j m) = mem_fill a b (j + k) m"
  by (auto simp: mem_fill_def fun_eq_iff)

lemma memset_bytes_fill: "memset_bytes a b n m = mem_fill a b n m"
proof (induction n arbitrary: a m)
  case (Suc n)
  have "m(a := b) = mem_fill a b 1 m" by (auto simp: mem_fill_def)
  with Suc show ?case by (simp add: mem_fill_add [of a 1 b n m, simplified])
qed simp

lemma store32_fill:
  assumes "ucast w = b" "ucast (drop_bit 8 w) = b" "ucast (drop_bit 16 w) = b" "ucast (drop_bit 24 w) = b"
  shows "store32 a w m = mem_fill a b 4 m"
  using assms by (auto simp: store32_def mem_fill_def fun_eq_iff)

lemma memset_words_fill:
  assumes st: "\<And>a m. store32 a w m = mem_fill a b 4 m"
  shows "(case memset_words a w n m of (a', n', m') \<Rightarrow> mem_fill a' b n' m') = mem_fill a b n m"
proof (induction n arbitrary: a m rule: less_induct)
  case (less n)
  show ?case
  proof (cases "4 \<le> n")
    case True
    with less [of "n - 4" "a + 4" "mem_fill a b 4 m"] show ?thesis
      by (subst memset_words.simps) (simp add: st mem_fill_add)
  next
    case False
    then show ?thesis by (subst memset_words.simps) simp
  qed
qed

lemma memset_blocks_fill:
  assumes st: "\<And>a m. store32 a w m = mem_fill a b 4 m"
  shows "(case memset_blocks a w n m of (a', n', m') \<Rightarrow> mem_fill a' b n' m') = mem_fill a b n m"
proof (induction n arbitrary: a m rule: less_induct)
  case (less n)
  show ?case
  proof (cases "16 \<le> n")
    case True
    have "mem_fill (a + 12) b 4 (mem_fill (a + 8) b 4 (mem_fill (a + 4) b 4 (mem_fill a b 4 m)))
        = mem_fill a b 16 m"
      by (auto simp: mem_fill_def fun_eq_iff)
    with True less [of "n - 16" "a + 16" "mem_fill a b 16 m"] show ?thesis
      by (subst memset_blocks.simps) (simp add: st mem_fill_add)
  next
    case False
    then show ?thesis by (subst memset_blocks.simps) simp
  qed
qed

lemma memset_buffer:
  fixes c :: int
  defines "d \<equiv> word_of_int c AND 0xff :: u32"
  defines "w \<equiv> push_bit 8 d OR d"
  defines "buffer \<equiv> w OR push_bit 16 w"
  shows "ucast d = (word_of_int c :: u8)" "ucast buffer = (word_of_int c :: u8)"
    "ucast (drop_bit 8 buffer) = (word_of_int c :: u8)"
    "ucast (drop_bit 16 buffer) = (word_of_int c :: u8)"
    "ucast (drop_bit 24 buffer) = (word_of_int c :: u8)"
proof -
  have d: "d = take_bit 8 (word_of_int c)"
    by (simp add: d_def take_bit_eq_mask mask_eq_exp_minus_1)
  show "ucast d = (word_of_int c :: u8)" "ucast buffer = (word_of_int c :: u8)"
    "ucast (drop_bit 8 buffer) = (word_of_int c :: u8)"
    "ucast (drop_bit 16 buffer) = (word_of_int c :: u8)"
    "ucast (drop_bit 24 buffer) = (word_of_int c :: u8)"
    unfolding buffer_def w_def d by (rule bit_word_eqI; auto simp: bit_simps)+
qed

lemma rt_memset_fill: "rt_memset s c count m = mem_fill s (word_of_int c) count m"
proof -
  define d :: u32 where "d = word_of_int c AND 0xff"
  define buf where "buf = (push_bit 8 d OR d) OR push_bit 16 (push_bit 8 d OR d)"
  define b :: u8 where "b = word_of_int c"
  have cd: "ucast d = b" unfolding d_def b_def by (rule memset_buffer)
  have st: "store32 a buf m = mem_fill a b 4 m" for a m
    unfolding buf_def d_def b_def by (rule store32_fill; rule memset_buffer)
  obtain a1 n1 m1 where 1: "memset_blocks s buf count m = (a1, n1, m1)"
    by (cases "memset_blocks s buf count m") auto
  obtain a2 n2 m2 where 2: "memset_words a1 buf n1 m1 = (a2, n2, m2)"
    by (cases "memset_words a1 buf n1 m1") auto
  have "mem_fill a2 b n2 m2 = mem_fill s b count m"
    using memset_blocks_fill [OF st, of s count m] memset_words_fill [OF st, of a1 n1 m1] 1 2
    by simp
  then show ?thesis
    unfolding rt_memset_def Let_def d_def [symmetric] buf_def [symmetric] b_def [symmetric]
    by (simp add: 1 2 cd memset_bytes_fill)
qed

lemma copy_up_mem_copy:
  assumes "d \<le> s \<or> s + n \<le> d"
  shows "copy_up d s n m = mem_copy d s n m"
  using assms
proof (induction n arbitrary: d s m)
  case (Suc n)
  then have "copy_up (d + 1) (s + 1) n (m(d := m s)) = mem_copy (d + 1) (s + 1) n (m(d := m s))"
    by (intro Suc.IH) auto
  also have "\<dots> = mem_copy d s (Suc n) m"
    using Suc.prems by (auto simp: mem_copy_def fun_eq_iff Suc_diff_Suc)
  finally show ?case by simp
qed (auto simp: mem_copy_def fun_eq_iff)

lemma copy_down_mem_copy:
  assumes "s \<le> d"
  shows "copy_down d s n m = mem_copy d s n m"
proof (induction n arbitrary: m)
  case (Suc n)
  have "copy_down d s n (m(d + n := m (s + n))) = mem_copy d s n (m(d + n := m (s + n)))"
    by (rule Suc.IH)
  also have "\<dots> = mem_copy d s (Suc n) m"
    using assms by (auto simp: mem_copy_def fun_eq_iff less_Suc_eq)
  finally show ?case by simp
qed (auto simp: mem_copy_def fun_eq_iff)

lemma rt_memmove_copy: "rt_memmove d s n m = mem_copy d s n m"
  by (auto simp: rt_memmove_def intro!: copy_down_mem_copy copy_up_mem_copy)

lemma load32_bytes:
  "ucast (load32 s m) = m s" "ucast (drop_bit 8 (load32 s m)) = m (s + 1)"
  "ucast (drop_bit 16 (load32 s m)) = m (s + 2)" "ucast (drop_bit 24 (load32 s m)) = m (s + 3)"
  unfolding load32_def by (rule bit_word_eqI; auto simp: bit_simps dest: bit_imp_le_length)+

lemma copy32_copy: "copy32 d s m = mem_copy d s 4 m"
proof -
  have "x = d \<or> x = d + 1 \<or> x = d + 2 \<or> x = d + 3" if "d \<le> x" "x < d + 4" for x
    using that by arith
  then show ?thesis
    unfolding copy32_def store32_def load32_bytes mem_copy_def by (auto simp: fun_eq_iff)
qed

lemma mem_copy_add:
  assumes "d \<le> s \<or> s + (j + k) \<le> d"
  shows "mem_copy (d + j) (s + j) k (mem_copy d s j m) = mem_copy d s (j + k) m"
proof
  fix x
  show "mem_copy (d + j) (s + j) k (mem_copy d s j m) x = mem_copy d s (j + k) m x"
    using assms by (cases "x < d + j") (auto simp: mem_copy_def)
qed

lemma memcpy_words_copy:
  assumes "d \<le> s \<or> s + n \<le> d"
  shows "(case memcpy_words d s n m of (d', s', n', m') \<Rightarrow> copy_up d' s' n' m') = mem_copy d s n m"
  using assms
proof (induction n arbitrary: d s m rule: less_induct)
  case (less n)
  show ?case
  proof (cases "4 \<le> n")
    case True
    with less.IH [of "n - 4" "d + 4" "s + 4" "mem_copy d s 4 m"] less.prems
    have "(case memcpy_words (d + 4) (s + 4) (n - 4) (mem_copy d s 4 m) of
        (d', s', n', m') \<Rightarrow> copy_up d' s' n' m') = mem_copy d s (4 + (n - 4)) m"
      by (subst mem_copy_add [symmetric]) auto
    with True show ?thesis by (subst memcpy_words.simps) (simp add: copy32_copy)
  next
    case False
    then show ?thesis using less.prems by (subst memcpy_words.simps) (simp add: copy_up_mem_copy)
  qed
qed

lemma mem_copy_16:
  assumes "d \<le> s \<or> s + 16 \<le> d"
  shows "copy32 (d + 12) (s + 12) (copy32 (d + 8) (s + 8) (copy32 (d + 4) (s + 4) (copy32 d s m)))
    = mem_copy d s 16 m"
  using assms mem_copy_add [of d s 4 4 m] mem_copy_add [of d s 8 4 m] mem_copy_add [of d s 12 4 m]
  by (auto simp: copy32_copy)

lemma memcpy_blocks_copy:
  assumes "d \<le> s \<or> s + n \<le> d"
  shows "(case memcpy_blocks d s n m of (d', s', n', m') \<Rightarrow> mem_copy d' s' n' m') = mem_copy d s n m
    \<and> (case memcpy_blocks d s n m of (d', s', n', m') \<Rightarrow> d' \<le> s' \<or> s' + n' \<le> d')"
  using assms
proof (induction n arbitrary: d s m rule: less_induct)
  case (less n)
  show ?case
  proof (cases "16 \<le> n")
    case True
    have "mem_copy (d + 16) (s + 16) (n - 16) (mem_copy d s 16 m) = mem_copy d s n m"
      using True less.prems mem_copy_add [of d s 16 "n - 16" m] by auto
    moreover have "copy32 (d + 12) (s + 12) (copy32 (d + 8) (s + 8) (copy32 (d + 4) (s + 4) (copy32 d s m)))
        = mem_copy d s 16 m"
      using True less.prems by (intro mem_copy_16) auto
    ultimately show ?thesis
      using True less.IH [of "n - 16" "d + 16" "s + 16" "mem_copy d s 16 m"] less.prems
      by (subst (1 2) memcpy_blocks.simps) auto
  next
    case False
    then show ?thesis using less.prems by (subst (1 2) memcpy_blocks.simps) simp
  qed
qed

lemma rt_memcpy_copy:
  assumes "dst \<le> src \<or> src + count \<le> dst"
  shows "rt_memcpy dst src count m = mem_copy dst src count m"
proof -
  obtain d s n m' where 1: "memcpy_blocks dst src count m = (d, s, n, m')"
    by (cases "memcpy_blocks dst src count m") auto
  with memcpy_blocks_copy [OF assms, of m]
  have "mem_copy d s n m' = mem_copy dst src count m" "d \<le> s \<or> s + n \<le> d" by auto
  moreover from this(2) have "(case memcpy_words d s n m' of (d', s', n', m') \<Rightarrow> copy_up d' s' n' m')
      = mem_copy d s n m'"
    by (rule memcpy_words_copy)
  ultimately show ?thesis
    using assms by (simp add: rt_memcpy_def 1 copy_up_mem_copy)
qed

section \<open>Strings: truncated names\<close>

lemma rt_strncpy_length [simp]: "length (rt_strncpy s n) = n"
  by (induction n arbitrary: s) auto

lemma chr_at_strncpy [simp]: "chr_at (rt_strncpy s (Suc n)) = chr_at s"
  by (simp add: chr_at_def)

lemma rt_strncpy_idem: "rt_strncpy (rt_strncpy s n) n = rt_strncpy s n"
  by (induction n arbitrary: s) (auto simp: chr_at_def split: list.splits)

lemma rt_strncmp_zero_iff: "rt_strncmp a b n = 0 \<longleftrightarrow> rt_strncpy a n = rt_strncpy b n"
proof (induction n arbitrary: a b)
  case (Suc n)
  have s: "sint x = 0 \<longleftrightarrow> x = 0" for x :: u8
    by (simp add: signed_eq_0_iff)
  from Suc show ?case by (auto simp: Let_def s)
qed simp

lemma rt_strlen_takeWhile: "rt_strlen s = length (takeWhile (\<lambda>c. c \<noteq> 0) s)"
proof (induction s)
  case Nil then show ?case by (subst rt_strlen.simps) (simp add: chr_at_def)
next
  case (Cons c s) then show ?case by (subst rt_strlen.simps) (simp add: chr_at_def)
qed

lemma rt_strnlen_min: "rt_strnlen s n = min n (rt_strlen s)"
proof (induction s arbitrary: n)
  case Nil then show ?case by (subst rt_strlen.simps, subst rt_strnlen.simps) (simp add: chr_at_def)
next
  case (Cons c s)
  then show ?case
    by (subst rt_strlen.simps, subst rt_strnlen.simps, cases n) (auto simp: chr_at_def)
qed

lemma rt_strcmp_zero_iff:
  "rt_strcmp a b = 0 \<longleftrightarrow> takeWhile (\<lambda>c. c \<noteq> 0) a = takeWhile (\<lambda>c. c \<noteq> 0) b"
proof (induction a arbitrary: b)
  case Nil
  then show ?case by (subst rt_strcmp.simps) (cases b; auto simp: chr_at_def unsigned_eq_0_iff)
next
  case (Cons c a)
  have u: "uint x = uint y \<longleftrightarrow> x = y" for x y :: u8
    by (simp add: word_uint_eq_iff)
  from Cons show ?case by (subst rt_strcmp.simps) (cases b; auto simp: chr_at_def uint_0_iff u)
qed

section \<open>Properties\<close>

text \<open>
  \<open>__rt_ffs\<close> is correct on every word: it returns 0 exactly for 0, and otherwise one
  more than the position of the lowest set bit. The scheduler takes this position as the
  highest ready priority.
\<close>

theorem rt_ffs_correct:
  "if v = 0 then rt_ffs v = 0
   else 0 < rt_ffs v \<and> rt_ffs v \<le> 32 \<and> bit v (rt_ffs v - 1) \<and> (\<forall>q. bit v q \<longrightarrow> rt_ffs v - 1 \<le> q)"
proof (cases "v = 0")
  case True
  then show ?thesis by (simp add: rt_ffs_def)
next
  case False
  have "\<forall>q. bit v q \<longrightarrow> rt_ffs v - 1 \<le> q" using rt_ffs_lowest(4) [OF False] by (meson not_le)
  then show ?thesis using rt_ffs_lowest(1-3) [OF False] False by simp
qed

theorem rt_ffs_correct_witness: "bit (0x500 :: u32) 10 \<and> rt_ffs 0x500 - 1 \<le> 10 \<and> rt_ffs 0x500 = 9"
proof -
  have "rt_ffs 0x500 = 9" by (simp add: rt_ffs_def lowest_bit_bitmap_def)
  then show ?thesis using rt_ffs_correct [of "0x500"] by simp
qed

text \<open>
  \<open>rt_memset\<close> is equivalent to the byte-by-byte fill: whatever the alignment and the
  length, the words written by its unrolled loops leave exactly the \<open>count\<close> bytes from
  \<open>s\<close> equal to the low byte of \<open>c\<close> and every other byte untouched.
\<close>

theorem rt_memset_correct:
  "rt_memset s c count m = (\<lambda>x. if s \<le> x \<and> x < s + count then word_of_int c else m x)"
  by (simp add: rt_memset_fill mem_fill_def)

text \<open>
  \<open>rt_memmove\<close> copies correctly for every pair of regions, overlapping or not: each
  destination byte receives the byte its source held before the call, and nothing else changes.
\<close>

theorem rt_memmove_correct:
  "rt_memmove dest src n m = (\<lambda>x. if dest \<le> x \<and> x < dest + n then m (src + (x - dest)) else m x)"
  by (simp add: rt_memmove_copy mem_copy_def)

text \<open>
  \<open>rt_memcpy\<close>, with its 16-byte and 4-byte loops, agrees with \<open>rt_memmove\<close>
  whenever the destination does not start inside the source region.
\<close>

theorem rt_memcpy_memmove:
  assumes "dst \<le> src \<or> src + count \<le> dst"
  shows "rt_memcpy dst src count m = rt_memmove dst src count m"
  using rt_memcpy_copy [OF assms] by (simp add: rt_memmove_copy)

theorem rt_memcpy_memmove_witness: "rt_memcpy 100 40 20 (\<lambda>_. 7) = rt_memmove 100 40 20 (\<lambda>_. 7)"
  by (rule rt_memcpy_memmove) simp

text \<open>
  Comparing names: \<open>rt_strncmp\<close> returns 0 for two strings exactly when
  \<open>rt_strncpy\<close> stores the same \<open>n\<close> bytes for both, so an object is found under the
  name it was created with, truncated to the size of its name field.
\<close>

theorem rt_strncmp_strncpy:
  "rt_strncmp a b n = 0 \<longleftrightarrow> rt_strncpy a n = rt_strncpy b n"
  by (rule rt_strncmp_zero_iff)

text \<open>
  \<open>rt_strncmp\<close> narrows the difference of two characters to a signed char, so its sign
  is wrong for characters 128 or more apart: it calls the string \<open>0xE4\<close> smaller than the
  string \<open>a\<close>, where \<open>rt_strcmp\<close> (whose comment makes the same promise) calls it
  greater.
\<close>

theorem rt_strncmp_wrong_sign: "rt_strncmp [0xE4] [0x61] 1 < 0 \<and> rt_strcmp [0xE4] [0x61] > 0"
  by (simp add: rt_strcmp.simps chr_at_def)

section \<open>The first occurrence of a string, and comparison without case\<close>

lemma str_memcmp_prefix:
  "0 \<notin> set t \<Longrightarrow> str_memcmp s t (length t) = 0 \<longleftrightarrow> take (length t) s = t"
proof (induction t arbitrary: s)
  case (Cons c t)
  then show ?case by (cases s) (auto simp: chr_at_def Let_def uint_0_iff dest: word_uint_eq_iff [THEN iffD2])
qed simp

lemma strstr_loop_first:
  assumes "0 \<notin> set t" "t \<noteq> []"
  shows "case strstr_loop (int (length s)) (int (length t)) s t of
      None \<Rightarrow> \<forall>i. take (length t) (drop i s) \<noteq> t
    | Some r \<Rightarrow> \<exists>i. r = drop i s \<and> take (length t) r = t \<and> (\<forall>j < i. take (length t) (drop j s) \<noteq> t)"
proof (induction s)
  case Nil
  then show ?case using assms by (subst strstr_loop.simps) auto
next
  case (Cons c s)
  show ?case
  proof (cases "take (length t) (c # s) = t")
    case True
    then have "length t \<le> length (c # s)" by (metis length_take min.cobounded1)
    then show ?thesis using True str_memcmp_prefix [OF assms(1), of "c # s"]
      by (subst strstr_loop.simps) (auto intro!: exI [of _ 0])
  next
    case False
    have step: "strstr_loop (int (length (c # s))) (int (length t)) (c # s) t = strstr_loop (int (length s)) (int (length t)) s t"
      using False str_memcmp_prefix [OF assms(1), of "c # s"]
      by (subst strstr_loop.simps) (auto simp: strstr_loop.simps [of "int (length s)"])
    show ?thesis
    proof (cases "strstr_loop (int (length s)) (int (length t)) s t")
      case None
      have "take (length t) (drop i (c # s)) \<noteq> t" for i using Cons None False by (cases i) auto
      then show ?thesis unfolding step None by simp
    next
      case (Some r)
      then obtain i where i: "r = drop i s" "take (length t) r = t" "\<forall>j < i. take (length t) (drop j s) \<noteq> t" using Cons by auto
      have "take (length t) (drop j (c # s)) \<noteq> t" if "j < Suc i" for j using that i(3) False by (cases j) auto
      then show ?thesis unfolding step Some using i(1,2) by (auto intro!: exI [of _ "Suc i"])
    qed
  qed
qed

lemma rt_strlen_length: "0 \<notin> set s \<Longrightarrow> rt_strlen s = length s"
  by (induction s) (auto simp: rt_strlen.simps chr_at_def)

lemma rt_strcasecmp_zero_iff:
  "0 \<notin> set a \<Longrightarrow> 0 \<notin> set b \<Longrightarrow> rt_strcasecmp a b = 0 \<longleftrightarrow> map (\<lambda>c. lower (uint c)) a = map (\<lambda>c. lower (uint c)) b"
proof (induction a b rule: rt_strcasecmp.induct)
  case (1 a b)
  have nz: "lower (uint c) = 0 \<longleftrightarrow> c = 0" for c :: u8
    using uint_bounded [of c] by (auto simp: lower_def uint_0_iff)
  show ?case
    using 1 by (subst rt_strcasecmp.simps; cases a; cases b) (auto simp: chr_at_def Let_def nz lower_def [of 0])
qed

text \<open>
  \<open>rt_strstr\<close> returns the string from the first occurrence on, and null exactly when there is none.
\<close>

theorem rt_strstr_first:
  assumes "0 \<notin> set s" "0 \<notin> set t"
  shows "case rt_strstr s t of
      None \<Rightarrow> \<forall>i. take (length t) (drop i s) \<noteq> t
    | Some r \<Rightarrow> \<exists>i. r = drop i s \<and> take (length t) r = t \<and> (\<forall>j < i. take (length t) (drop j s) \<noteq> t)"
proof (cases "t = []")
  case True
  then show ?thesis by (auto simp: rt_strstr_def rt_strlen.simps chr_at_def intro!: exI [of _ 0])
next
  case False
  then show ?thesis using strstr_loop_first [OF assms(2) False, of s] assms by (simp add: rt_strstr_def rt_strlen_length Let_def)
qed

theorem rt_strstr_first_witness:
  "\<exists>r. rt_strstr [1, 2, 3, 2, 4] [2, 4] = Some r \<and> take (length [2, 4 :: u8]) r = [2, 4]"
proof -
  note f = rt_strstr_first [of "[1, 2, 3, 2, 4]" "[2, 4]"]
  show ?thesis using f by (cases "rt_strstr [1, 2, 3, 2, 4] [2, 4 :: u8]") (auto dest: spec [where x = 3])
qed

end
