(* ===== verification/Printf.thy ===== *)
theory Printf
  imports Kservice
begin

text \<open>
  Formatted output, the second half of \<^verbatim>\<open>rt-thread/src/kservice.c\<close>: \<open>rt_vsnprintf\<close> with the helpers
  \<open>print_number\<close>, \<open>skip_atoi\<close> and \<open>divide\<close>, in the configuration of the board (\<^verbatim>\<open>RT_PRINTF_LONGLONG\<close> and
  \<^verbatim>\<open>RT_PRINTF_PRECISION\<close> defined, \<^verbatim>\<open>RT_PRINTF_SPECIAL\<close> not). The format is a C string; \<open>str\<close> and \<open>end\<close> are
  addresses, and every character goes through the code's test \<open>str < end\<close>. The arguments are a list of what
  \<open>va_arg\<close> delivers on this 32-bit target; an argument that is missing or of another type is undefined
  behaviour and the model has no result. The text that a format stands for is stated
  separately, with \<open>replicate\<close> and positional digits, and the code is shown to write exactly as much of it as
  fits.
\<close>

section \<open>Characters, flags and arguments\<close>

type_synonym u64 = "64 word"

definition ascii :: "char \<Rightarrow> u8" where
  "ascii c = of_char c"

lemma ascii_code [simp]:
  "ascii (Char b0 b1 b2 b3 b4 b5 b6 b7) = horner_sum of_bool 2 [b0, b1, b2, b3, b4, b5, b6, b7]"
  by (simp add: ascii_def)

abbreviation ZEROPAD :: u8 where "ZEROPAD \<equiv> 1"
abbreviation SIGN :: u8 where "SIGN \<equiv> 2"
abbreviation PLUS :: u8 where "PLUS \<equiv> 4"
abbreviation SPACE :: u8 where "SPACE \<equiv> 8"
abbreviation LEFT :: u8 where "LEFT \<equiv> 16"
abbreviation SPECIAL :: u8 where "SPECIAL \<equiv> 32"
abbreviation LARGE :: u8 where "LARGE \<equiv> 64"

datatype va = Va_word u32 | Va_longlong u64 | Va_string "cstring option"

fun va_word :: "va list \<Rightarrow> (u32 \<times> va list) option" where
  "va_word (Va_word w # args) = Some (w, args)"
| "va_word _ = None"

fun va_longlong :: "va list \<Rightarrow> (u64 \<times> va list) option" where
  "va_longlong (Va_longlong w # args) = Some (w, args)"
| "va_longlong _ = None"

fun va_string :: "va list \<Rightarrow> (cstring option \<times> va list) option" where
  "va_string (Va_string s # args) = Some (s, args)"
| "va_string _ = None"

section \<open>Writing characters\<close>

type_synonym out = "addr \<times> memory"

definition put :: "addr \<Rightarrow> u8 \<Rightarrow> out \<Rightarrow> out" where
  "put end c o1 = (case o1 of (str, m) \<Rightarrow> (str + 1, if str < end then m(str := c) else m))"

text \<open>The three padding loops: \<open>while (size-- > 0)\<close>, \<open>while (len < width--)\<close> and \<open>while (--width > 0)\<close>.\<close>

function pad_size :: "addr \<Rightarrow> u8 \<Rightarrow> int \<Rightarrow> out \<Rightarrow> int \<times> out" where
  "pad_size end c sz o1 = (if sz > 0 then pad_size end c (sz - 1) (put end c o1) else (sz - 1, o1))"
  by pat_completeness auto
termination by (relation "measure (\<lambda>(_, _, sz, _). nat sz)") auto

function pad_len :: "addr \<Rightarrow> u8 \<Rightarrow> int \<Rightarrow> int \<Rightarrow> out \<Rightarrow> int \<times> out" where
  "pad_len end c len width o1 =
     (if len < width then pad_len end c len (width - 1) (put end c o1) else (width - 1, o1))"
  by pat_completeness auto
termination by (relation "measure (\<lambda>(_, _, len, width, _). nat (width - len))") auto

function pad_before :: "addr \<Rightarrow> u8 \<Rightarrow> int \<Rightarrow> out \<Rightarrow> int \<times> out" where
  "pad_before end c width o1 =
     (let width = width - 1 in if width > 0 then pad_before end c width (put end c o1) else (width, o1))"
  by pat_completeness auto
termination by (relation "measure (\<lambda>(_, _, width, _). nat width)") auto

declare pad_size.simps [simp del] pad_len.simps [simp del] pad_before.simps [simp del]

section \<open>Numbers\<close>

definition divide :: "u64 \<Rightarrow> nat \<Rightarrow> nat \<times> u64" where
  "divide n base = (if base = 10 then (unat (n mod 10), n div 10) else (unat (n mod 16), n div 16))"

definition small_digits :: "u8 list" where
  "small_digits = map ascii ''0123456789abcdef''"

definition large_digits :: "u8 list" where
  "large_digits = map ascii ''0123456789ABCDEF''"

lemma divide_less: "num \<noteq> 0 \<Longrightarrow> unat (snd (divide num base)) < unat num"
proof -
  assume "num \<noteq> 0"
  then have "0 < unat num" by (simp add: unat_gt_0)
  then show ?thesis by (simp add: divide_def unat_div_distrib)
qed

text \<open>The temporary buffer \<open>tmp\<close>, lowest digit first.\<close>

function number_digits :: "u8 list \<Rightarrow> nat \<Rightarrow> u64 \<Rightarrow> u8 list" where
  "number_digits digits base num =
     (if num = 0 then []
      else digits ! fst (divide num base) # number_digits digits base (snd (divide num base)))"
  by pat_completeness auto
termination by (relation "measure (\<lambda>(_, _, num). unat num)") (auto simp: divide_less)

declare number_digits.simps [simp del]

definition print_number :: "addr \<Rightarrow> u64 \<Rightarrow> nat \<Rightarrow> int \<Rightarrow> int \<Rightarrow> u8 \<Rightarrow> out \<Rightarrow> out" where
  "print_number end num base s precision type o1 =
     (let digits = (if type AND LARGE \<noteq> 0 then large_digits else small_digits);
          type = (if type AND LEFT \<noteq> 0 then type AND NOT ZEROPAD else type);
          c = (if type AND ZEROPAD \<noteq> 0 then ascii CHR ''0'' else ascii CHR '' '');
          (sign, num) =
            (if type AND SIGN \<noteq> 0 then
               (if sint num < 0 then (ascii CHR ''-'', - num)
                else if type AND PLUS \<noteq> 0 then (ascii CHR ''+'', num)
                else if type AND SPACE \<noteq> 0 then (ascii CHR '' '', num)
                else (0, num))
             else (0, num));
          tmp = (if num = 0 then [ascii CHR ''0''] else number_digits digits base num);
          i = int (length tmp);
          precision_bak = precision;
          precision = (if i > precision then i else precision);
          size1 = s - precision;
          (size1, o1) =
            (if type AND (ZEROPAD OR LEFT) = 0
             then pad_size end (ascii CHR '' '') (if sign \<noteq> 0 \<and> size1 > 0 then size1 - 1 else size1) o1
             else (size1, o1));
          (size1, o1) = (if sign \<noteq> 0 then (size1 - 1, put end sign o1) else (size1, o1));
          (size1, o1) = (if type AND LEFT = 0 then pad_size end c size1 o1 else (size1, o1));
          (_, o1) = pad_len end (ascii CHR ''0'') i precision o1;
          o1 = (if precision_bak \<noteq> 0 then fold (put end) (rev tmp) o1 else o1)
      in snd (pad_size end (ascii CHR '' '') size1 o1))"

section \<open>Parsing a conversion\<close>

definition isdigit :: "u8 \<Rightarrow> bool" where
  "isdigit c \<longleftrightarrow> (word_of_int (uint c - 48) :: u32) < 10"

lemma isdigit_iff: "isdigit c \<longleftrightarrow> 48 \<le> uint c \<and> uint c < 58"
proof -
  have c: "0 \<le> uint c" "uint c < 256" using uint_bounded [of c] by simp_all
  have "((uint c - 48) mod 4294967296 < 10) = (48 \<le> uint c \<and> uint c < 58)"
  proof (cases "48 \<le> uint c")
    case True
    then show ?thesis using c by (simp add: mod_pos_pos_trivial)
  next
    case False
    have "(uint c - 48) mod 4294967296 = (uint c - 48 + 4294967296) mod 4294967296" by (rule mod_add_self2 [symmetric])
    also have "\<dots> = uint c - 48 + 4294967296" using False c by (intro mod_pos_pos_trivial) simp_all
    finally show ?thesis using False c by linarith
  qed
  then show ?thesis by (simp only: isdigit_def word_less_def uint_word_of_int) simp
qed

lemma isdigit_nonzero [termination_simp, simp]: "isdigit c \<Longrightarrow> c \<noteq> 0"
  by (auto simp: isdigit_iff)

function skip_atoi :: "int \<Rightarrow> cstring \<Rightarrow> int \<times> cstring" where
  "skip_atoi i s =
     (if isdigit (chr_at s) then skip_atoi (int32 (i * 10 + uint (chr_at s) - 48)) (tl s) else (i, s))"
  by pat_completeness auto
termination
  by (relation "measure (\<lambda>(_, s). length s)") (auto dest!: isdigit_nonzero intro: chr_at_nonzero)


function parse_flags :: "u8 \<Rightarrow> cstring \<Rightarrow> u8 \<times> cstring" where
  "parse_flags flags fmt =
     (if chr_at fmt = ascii CHR ''-'' then parse_flags (flags OR LEFT) (tl fmt)
      else if chr_at fmt = ascii CHR ''+'' then parse_flags (flags OR PLUS) (tl fmt)
      else if chr_at fmt = ascii CHR '' '' then parse_flags (flags OR SPACE) (tl fmt)
      else if chr_at fmt = ascii CHR ''#'' then parse_flags (flags OR SPECIAL) (tl fmt)
      else if chr_at fmt = ascii CHR ''0'' then parse_flags (flags OR ZEROPAD) (tl fmt)
      else (flags, fmt))"
  by pat_completeness auto
termination
  by (relation "measure (\<lambda>(_, fmt). length fmt)") (auto intro!: chr_at_nonzero)

declare skip_atoi.simps [simp del] parse_flags.simps [simp del]

definition parse_width :: "u8 \<Rightarrow> cstring \<Rightarrow> va list \<Rightarrow> (int \<times> u8 \<times> cstring \<times> va list) option" where
  "parse_width flags fmt args =
     (if isdigit (chr_at fmt) then
        (case skip_atoi 0 fmt of (width, fmt) \<Rightarrow> Some (width, flags, fmt, args))
      else if chr_at fmt = ascii CHR ''*'' then
        (case va_word args of
           None \<Rightarrow> None
         | Some (w, args) \<Rightarrow>
             if sint w < 0 then Some (int32 (- sint w), flags OR LEFT, tl fmt, args)
             else Some (sint w, flags, tl fmt, args))
      else Some (- 1, flags, fmt, args))"

definition parse_precision :: "cstring \<Rightarrow> va list \<Rightarrow> (int \<times> cstring \<times> va list) option" where
  "parse_precision fmt args =
     (if chr_at fmt = ascii CHR ''.'' then
        (let fmt = tl fmt
         in case (if isdigit (chr_at fmt) then
                    (case skip_atoi 0 fmt of (precision, fmt) \<Rightarrow> Some (precision, fmt, args))
                  else if chr_at fmt = ascii CHR ''*'' then
                    (case va_word args of
                       None \<Rightarrow> None
                     | Some (w, args) \<Rightarrow> Some (sint w, tl fmt, args))
                  else Some (- 1, fmt, args)) of
              None \<Rightarrow> None
            | Some (precision, fmt, args) \<Rightarrow> Some (if precision < 0 then 0 else precision, fmt, args))
      else Some (- 1, fmt, args))"

definition parse_qualifier :: "cstring \<Rightarrow> u8 \<times> cstring" where
  "parse_qualifier fmt =
     (let c = chr_at fmt
      in if c = ascii CHR ''h'' \<or> c = ascii CHR ''l'' \<or> c = ascii CHR ''L'' then
           (if c = ascii CHR ''l'' \<and> chr_at (tl fmt) = ascii CHR ''l'' then (ascii CHR ''L'', tl (tl fmt))
            else (c, tl fmt))
         else (0, fmt))"

section \<open>Conversions\<close>

definition convert_c :: "addr \<Rightarrow> u8 \<Rightarrow> int \<Rightarrow> u32 \<Rightarrow> out \<Rightarrow> out" where
  "convert_c end flags width w o1 =
     (let (width, o1) = (if flags AND LEFT = 0 then pad_before end (ascii CHR '' '') width o1 else (width, o1));
          o1 = put end (ucast w) o1
      in snd (pad_before end (ascii CHR '' '') width o1))"

function str_len :: "int \<Rightarrow> int \<Rightarrow> cstring \<Rightarrow> int" where
  "str_len len width s = (if len \<noteq> width \<and> chr_at s \<noteq> 0 then str_len (len + 1) width (tl s) else len)"
  by pat_completeness auto
termination
  by (relation "measure (\<lambda>(_, _, s). length s)") (auto intro: chr_at_nonzero)

declare str_len.simps [simp del]

definition convert_s :: "addr \<Rightarrow> u8 \<Rightarrow> int \<Rightarrow> int \<Rightarrow> cstring option \<Rightarrow> out \<Rightarrow> out" where
  "convert_s end flags width precision s o1 =
     (let s = (case s of None \<Rightarrow> map ascii ''(NULL)'' | Some s \<Rightarrow> s);
          len = str_len 0 width s;
          len = (if precision > 0 \<and> len > precision then precision else len);
          (width, o1) = (if flags AND LEFT = 0 then pad_len end (ascii CHR '' '') len width o1 else (width, o1));
          o1 = fold (put end) (take (nat len) s) o1
      in snd (pad_len end (ascii CHR '' '') len width o1))"

text \<open>The argument of an integer conversion, widened to 64 bits.\<close>

definition int_arg :: "u8 \<Rightarrow> u8 \<Rightarrow> va list \<Rightarrow> (u64 \<times> va list) option" where
  "int_arg flags qualifier args =
     (if qualifier = ascii CHR ''L'' then va_longlong args
      else case va_word args of
        None \<Rightarrow> None
      | Some (w, args) \<Rightarrow>
          if qualifier = ascii CHR ''h'' then
            Some (if flags AND SIGN \<noteq> 0 then scast (ucast w :: u16) else ucast (ucast w :: u16), args)
          else Some (if flags AND SIGN \<noteq> 0 then scast w else ucast w, args))"

definition convert_int :: "addr \<Rightarrow> u8 \<Rightarrow> u8 \<Rightarrow> nat \<Rightarrow> int \<Rightarrow> int \<Rightarrow> cstring \<Rightarrow> va list \<Rightarrow> out \<Rightarrow> (out \<times> cstring \<times> va list) option" where
  "convert_int end flags qualifier base width precision fmt args o1 =
     (case int_arg flags qualifier args of
        None \<Rightarrow> None
      | Some (num, args) \<Rightarrow> Some (print_number end num base width precision flags o1, tl fmt, args))"

definition convert :: "addr \<Rightarrow> u8 \<Rightarrow> u8 \<Rightarrow> int \<Rightarrow> int \<Rightarrow> cstring \<Rightarrow> va list \<Rightarrow> out \<Rightarrow> (out \<times> cstring \<times> va list) option" where
  "convert end flags qualifier width precision fmt args o1 =
     (let c = chr_at fmt
      in if c = ascii CHR ''c'' then
           (case va_word args of
              None \<Rightarrow> None
            | Some (w, args) \<Rightarrow> Some (convert_c end flags width w o1, tl fmt, args))
         else if c = ascii CHR ''s'' then
           (case va_string args of
              None \<Rightarrow> None
            | Some (s, args) \<Rightarrow> Some (convert_s end flags width precision s o1, tl fmt, args))
         else if c = ascii CHR ''p'' then
           (case va_word args of
              None \<Rightarrow> None
            | Some (w, args) \<Rightarrow>
                let (width, flags) = (if width = - 1 then (8, flags OR ZEROPAD) else (width, flags))
                in Some (print_number end (scast w) 16 width precision flags o1, tl fmt, args))
         else if c = ascii CHR ''%'' then Some (put end (ascii CHR ''%'') o1, tl fmt, args)
         else if c = ascii CHR ''o'' then convert_int end flags qualifier 8 width precision fmt args o1
         else if c = ascii CHR ''X'' then convert_int end (flags OR LARGE) qualifier 16 width precision fmt args o1
         else if c = ascii CHR ''x'' then convert_int end flags qualifier 16 width precision fmt args o1
         else if c = ascii CHR ''d'' \<or> c = ascii CHR ''i''
         then convert_int end (flags OR SIGN) qualifier 10 width precision fmt args o1
         else if c = ascii CHR ''u'' then convert_int end flags qualifier 10 width precision fmt args o1
         else
           let o1 = put end (ascii CHR ''%'') o1
           in if c \<noteq> 0 then Some (put end c o1, tl fmt, args) else Some (o1, fmt, args))"

text \<open>One round of the loop at a percent sign; \<open>fmt\<close> is behind it.\<close>

definition format_one :: "addr \<Rightarrow> cstring \<Rightarrow> va list \<Rightarrow> out \<Rightarrow> (out \<times> cstring \<times> va list) option" where
  "format_one end fmt args o1 =
     (case parse_flags 0 fmt of (flags, fmt) \<Rightarrow>
      case parse_width flags fmt args of
        None \<Rightarrow> None
      | Some (width, flags, fmt, args) \<Rightarrow>
          case parse_precision fmt args of
            None \<Rightarrow> None
          | Some (precision, fmt, args) \<Rightarrow>
              case parse_qualifier fmt of (qualifier, fmt) \<Rightarrow>
                convert end flags qualifier width precision fmt args o1)"


lemma skip_atoi_length: "length (snd (skip_atoi i s)) \<le> length s"
  by (induction i s rule: skip_atoi.induct) (subst skip_atoi.simps, auto intro: order.trans)

lemma parse_flags_length: "length (snd (parse_flags f s)) \<le> length s"
  by (induction f s rule: parse_flags.induct) (subst parse_flags.simps, auto intro: order.trans)

lemma parse_width_length: "parse_width f s as = Some (w, f', s', as') \<Longrightarrow> length s' \<le> length s"
  using skip_atoi_length [of 0 s]
  by (auto simp: parse_width_def split: if_splits option.splits prod.splits)

lemma parse_precision_length: "parse_precision s as = Some (p, s', as') \<Longrightarrow> length s' \<le> length s"
  using skip_atoi_length [of 0 "tl s"]
  by (auto simp: parse_precision_def Let_def split: if_splits option.splits prod.splits)

lemma parse_qualifier_length: "length (snd (parse_qualifier s)) \<le> length s"
  by (auto simp: parse_qualifier_def Let_def)

lemma convert_int_length: "convert_int end f q b w p s as o1 = Some (o2, s', as') \<Longrightarrow> length s' \<le> length s"
  by (auto simp: convert_int_def split: option.splits)

lemma convert_length: "convert end f q w p s as o1 = Some (o2, s', as') \<Longrightarrow> length s' \<le> length s"
  unfolding convert_def Let_def
  by (auto dest: convert_int_length split: if_splits option.splits prod.splits)

lemma format_one_length:
  assumes "format_one end s as o1 = Some (o2, s', as')"
  shows "length s' \<le> length s"
  using assms parse_flags_length [of 0 s]
  by (auto simp: format_one_def split: prod.splits option.splits
      dest!: parse_width_length parse_precision_length convert_length)
     (metis parse_qualifier_length order.trans snd_conv)

lemma format_one_shorter:
  "format_one end (tl s) as o1 = Some (o2, s', as') \<Longrightarrow> chr_at s \<noteq> 0 \<Longrightarrow> length s' < length s"
  using format_one_length [of "end" "tl s"] chr_at_nonzero [of s] by fastforce

function format_loop :: "addr \<Rightarrow> cstring \<Rightarrow> va list \<Rightarrow> out \<Rightarrow> out option" where
  "format_loop end fmt args o1 =
     (if chr_at fmt = 0 then Some o1
      else if chr_at fmt \<noteq> ascii CHR ''%'' then format_loop end (tl fmt) args (put end (chr_at fmt) o1)
      else case format_one end (tl fmt) args o1 of
        None \<Rightarrow> None
      | Some (o1, fmt, args) \<Rightarrow> format_loop end fmt args o1)"
  by pat_completeness auto
termination
  by (relation "measure (\<lambda>(_, fmt, _, _). length fmt)") (auto intro: chr_at_nonzero format_one_shorter)

declare format_loop.simps [simp del]

definition rt_vsnprintf :: "addr \<Rightarrow> nat \<Rightarrow> cstring \<Rightarrow> va list \<Rightarrow> memory \<Rightarrow> (int \<times> memory) option" where
  "rt_vsnprintf buf sz fmt args m =
     (let end = (buf + sz) mod 2 ^ 32;
          (end, sz) = (if end < buf then (2 ^ 32 - 1, 2 ^ 32 - 1 - buf) else (end, sz))
      in case format_loop end fmt args (buf, m) of
           None \<Rightarrow> None
         | Some (str, m) \<Rightarrow>
             let m = (if sz > 0 then (if str < end then m(str := 0) else m(end - 1 := 0)) else m)
             in Some (int str - int buf, m))"

definition rt_snprintf :: "addr \<Rightarrow> nat \<Rightarrow> cstring \<Rightarrow> va list \<Rightarrow> memory \<Rightarrow> (int \<times> memory) option" where
  "rt_snprintf buf sz fmt args m = rt_vsnprintf buf sz fmt args m"

definition rt_vsprintf :: "addr \<Rightarrow> cstring \<Rightarrow> va list \<Rightarrow> memory \<Rightarrow> (int \<times> memory) option" where
  "rt_vsprintf buf fmt args m = rt_vsnprintf buf (2 ^ 32 - 1) fmt args m"

definition rt_sprintf :: "addr \<Rightarrow> cstring \<Rightarrow> va list \<Rightarrow> memory \<Rightarrow> (int \<times> memory) option" where
  "rt_sprintf buf fmt args m = rt_vsprintf buf fmt args m"


section \<open>The text of a format\<close>

text \<open>What a call stands for, without a buffer: a list of characters built with \<open>replicate\<close>.\<close>

definition fill :: "u8 \<Rightarrow> int \<Rightarrow> u8 list" where
  "fill c n = replicate (nat n) c"

lemma fill_simps [simp]: "n \<le> 0 \<Longrightarrow> fill c n = []" "length (fill c n) = nat n"
  by (simp_all add: fill_def)

text \<open>The digits of a number, lowest first.\<close>

fun radix_digits :: "nat \<Rightarrow> nat \<Rightarrow> nat list" where
  "radix_digits b n = (if n = 0 \<or> b < 2 then [] else n mod b # radix_digits b (n div b))"

declare radix_digits.simps [simp del]

definition radix :: "nat \<Rightarrow> nat" where
  "radix base = (if base = 10 then 10 else 16)"

definition number_body :: "u8 \<Rightarrow> nat \<Rightarrow> nat \<Rightarrow> u8 list" where
  "number_body type base n =
     (let digits = (if type AND LARGE \<noteq> 0 then large_digits else small_digits)
      in if n = 0 then [ascii CHR ''0''] else map ((!) digits) (rev (radix_digits (radix base) n)))"

definition number_sign :: "u8 \<Rightarrow> u64 \<Rightarrow> u8 list" where
  "number_sign type num =
     (if type AND SIGN = 0 then []
      else if sint num < 0 then [ascii CHR ''-'']
      else if type AND PLUS \<noteq> 0 then [ascii CHR ''+'']
      else if type AND SPACE \<noteq> 0 then [ascii CHR '' ''] else [])"

definition number_abs :: "u8 \<Rightarrow> u64 \<Rightarrow> nat" where
  "number_abs type num = (if type AND SIGN \<noteq> 0 then nat \<bar>sint num\<bar> else unat num)"

definition number_text :: "u64 \<Rightarrow> nat \<Rightarrow> int \<Rightarrow> int \<Rightarrow> u8 \<Rightarrow> u8 list" where
  "number_text num base width precision type =
     (let body = number_body type base (number_abs type num);
          sign = number_sign type num;
          zeros = fill (ascii CHR ''0'') (precision - int (length body));
          room = width - int (length zeros + length body + length sign);
          number = zeros @ (if precision \<noteq> 0 then body else [])
      in if type AND LEFT \<noteq> 0 then sign @ number @ fill (ascii CHR '' '') room
         else if type AND ZEROPAD \<noteq> 0 then sign @ fill (ascii CHR ''0'') room @ number
         else fill (ascii CHR '' '') room @ sign @ number)"

definition char_text :: "u8 \<Rightarrow> int \<Rightarrow> u32 \<Rightarrow> u8 list" where
  "char_text flags width w =
     (if flags AND LEFT = 0 then fill (ascii CHR '' '') (width - 1) @ [ucast w]
      else ucast w # fill (ascii CHR '' '') (width - 1))"

definition string_text :: "u8 \<Rightarrow> int \<Rightarrow> int \<Rightarrow> cstring option \<Rightarrow> u8 list" where
  "string_text flags width precision s =
     (let s = (case s of None \<Rightarrow> map ascii ''(NULL)'' | Some s \<Rightarrow> takeWhile (\<lambda>c. c \<noteq> 0) s);
          s = (if width < 0 then s else take (nat width) s);
          s = (if precision > 0 then take (nat precision) s else s);
          pad = fill (ascii CHR '' '') (width - int (length s))
      in if flags AND LEFT = 0 then pad @ s else s @ pad)"

section \<open>The code writes the text\<close>

lemma fill_step: "0 < n \<Longrightarrow> fill c n = c # fill c (n - 1)"
proof -
  assume "0 < n"
  then have "nat n = Suc (nat (n - 1))" by linarith
  then show ?thesis by (simp add: fill_def)
qed

lemma pad_size_fill: "pad_size end c n o1 = (min n 0 - 1, fold (put end) (fill c n) o1)"
proof (induction "end" c n o1 rule: pad_size.induct)
  case (1 "end" c n o1)
  then show ?case by (subst pad_size.simps) (cases "0 < n"; simp add: fill_step)
qed

lemma pad_len_fill: "pad_len end c l w o1 = (min w l - 1, fold (put end) (fill c (w - l)) o1)"
proof (induction "end" c l w o1 rule: pad_len.induct)
  case (1 "end" c l w o1)
  moreover have "w - 1 - l = w - l - 1" by simp
  ultimately show ?case by (subst pad_len.simps) (cases "l < w"; simp add: fill_step)
qed

lemma pad_before_fill:
  "pad_before end c w o1 = (if 1 \<le> w then 0 else w - 1, fold (put end) (fill c (w - 1)) o1)"
proof (induction "end" c w o1 rule: pad_before.induct)
  case (1 "end" c w o1)
  then show ?case by (subst pad_before.simps) (cases "1 < w"; simp add: fill_step)
qed

lemma number_digits_radix: "number_digits digits base num = map ((!) digits) (radix_digits (radix base) (unat num))"
proof (induction digits base num rule: number_digits.induct)
  case (1 digits base num)
  then show ?case
    by (subst number_digits.simps, subst radix_digits.simps)
      (auto simp: divide_def radix_def unat_div_distrib unat_mod_distrib unat_eq_zero)
qed

lemma unat_of_sint:
  assumes "num = word_of_int x" "0 \<le> x" "x < 2 ^ 64"
  shows "unat (num :: u64) = nat x"
  unfolding assms(1) unat_eq_nat_uint uint_word_of_int using assms(2,3) by simp

lemma unat_abs: "sint (num :: u64) < 0 \<Longrightarrow> unat (- num) = nat \<bar>sint num\<bar>" "0 \<le> sint (num :: u64) \<Longrightarrow> unat num = nat \<bar>sint num\<bar>"
proof -
  show "unat num = nat \<bar>sint num\<bar>" if "0 \<le> sint num"
    using that sint_less [of num] by (subst unat_of_sint [where x = "sint num"]) simp_all
  show "unat (- num) = nat \<bar>sint num\<bar>" if "sint num < 0"
    using that sint_greater_eq [of num] by (subst unat_of_sint [where x = "- sint num"]) simp_all
qed

lemma radix_digits_nonempty: "0 < n \<Longrightarrow> 2 \<le> b \<Longrightarrow> radix_digits b n \<noteq> []"
  by (subst radix_digits.simps) simp

lemma flag_bits:
  fixes f :: u8
  shows "(f AND NOT ZEROPAD) AND SIGN = f AND SIGN" "(f AND NOT ZEROPAD) AND PLUS = f AND PLUS"
    "(f AND NOT ZEROPAD) AND SPACE = f AND SPACE" "(f AND NOT ZEROPAD) AND LEFT = f AND LEFT"
    "(f AND NOT ZEROPAD) AND ZEROPAD = 0"
    "f AND (ZEROPAD OR LEFT) = 0 \<longleftrightarrow> f AND ZEROPAD = 0 \<and> f AND LEFT = 0"
proof -
  have "f AND (ZEROPAD OR LEFT) = (f AND ZEROPAD) OR (f AND LEFT)" by (rule bit.conj_disj_distrib)
  then show "f AND (ZEROPAD OR LEFT) = 0 \<longleftrightarrow> f AND ZEROPAD = 0 \<and> f AND LEFT = 0" by (simp only: or_eq_0_iff)
qed (simp_all add: and.assoc)

text \<open>The code with its locals named: the sign it prints and the digits in \<open>tmp\<close>.\<close>

lemma print_number_parts:
  assumes sg: "number_sign type num = (if sign = 0 then [] else [sign])"
    and tmp: "rev tmp = number_body type base (number_abs type num)"
  shows "print_number e num base w p type o1 =
    (let i = int (length tmp); pr = max i p; left = (type AND LEFT \<noteq> 0); zero = (\<not> left \<and> type AND ZEROPAD \<noteq> 0);
         (sz, o1) = (if \<not> zero \<and> \<not> left
            then pad_size e (ascii CHR '' '') (if sign \<noteq> 0 \<and> w - pr > 0 then w - pr - 1 else w - pr) o1 else (w - pr, o1));
         (sz, o1) = (if sign \<noteq> 0 then (sz - 1, put e sign o1) else (sz, o1));
         (sz, o1) = (if \<not> left then pad_size e (if zero then ascii CHR ''0'' else ascii CHR '' '') sz o1 else (sz, o1));
         (_, o1) = pad_len e (ascii CHR ''0'') i pr o1;
         o1 = (if p \<noteq> 0 then fold (put e) (rev tmp) o1 else o1)
     in snd (pad_size e (ascii CHR '' '') sz o1))"
proof -
  define num' where "num' = (if type AND SIGN \<noteq> 0 \<and> sint num < 0 then - num else num)"
  define sign' where "sign' = (if type AND SIGN = 0 then 0 else if sint num < 0 then ascii CHR ''-''
     else if type AND PLUS \<noteq> 0 then ascii CHR ''+'' else if type AND SPACE \<noteq> 0 then ascii CHR '' '' else 0)"
  define digits where "digits = (if type AND LARGE \<noteq> 0 then large_digits else small_digits)"
  define tmp' where "tmp' = (if num' = 0 then [ascii CHR ''0''] else number_digits digits base num')"
  define ty where "ty = (if type AND LEFT \<noteq> 0 then type AND NOT ZEROPAD else type)"
  have ty: "ty AND SIGN = type AND SIGN" "ty AND PLUS = type AND PLUS" "ty AND SPACE = type AND SPACE" "ty AND LEFT = type AND LEFT"
    "ty AND ZEROPAD = 0 \<longleftrightarrow> type AND LEFT \<noteq> 0 \<or> type AND ZEROPAD = 0" by (cases "type AND LEFT = 0"; simp only: ty_def flag_bits simp_thms if_True if_False)+
  have s: "(if type AND SIGN \<noteq> 0 then if sint num < 0 then (ascii CHR ''-'', - num) else if type AND PLUS \<noteq> 0 then (ascii CHR ''+'', num)
     else if type AND SPACE \<noteq> 0 then (ascii CHR '' '', num) else (0, num) else (0, num)) = (sign', num')" by (simp add: sign'_def num'_def)
  have "unat num' = number_abs type num" using unat_abs [of num] by (simp add: num'_def number_abs_def)
  then have "rev tmp' = rev tmp"
    unfolding tmp tmp'_def number_body_def Let_def digits_def number_digits_radix by (auto simp: rev_map unat_eq_zero)
  then have "tmp' = tmp" by simp
  moreover have "sign' = sign" using sg by (simp add: sign'_def number_sign_def split: if_splits)
  ultimately show ?thesis
    unfolding print_number_def Let_def ty_def [symmetric] ty s prod.case flag_bits(6) digits_def [symmetric] tmp'_def [symmetric]
    by (simp add: max_def not_less cong: if_cong)
qed


lemma print_number_text: "print_number e num base w p type o1 = fold (put e) (number_text num base w p type) o1"
proof -
  define sign where "sign = (case number_sign type num of [] \<Rightarrow> 0 | c # _ \<Rightarrow> c)"
  have sg: "number_sign type num = (if sign = 0 then [] else [sign])"
    by (auto simp: sign_def number_sign_def split: if_splits)
  define tmp where "tmp = rev (number_body type base (number_abs type num))"
  have tmp: "rev tmp = number_body type base (number_abs type num)" by (simp add: tmp_def)
  have len: "length (number_body type base (number_abs type num)) = length tmp" by (simp add: tmp_def)
  define i where "i = int (length tmp)"
  define x where "x = w - max i p"
  define z where "z = fill (ascii CHR ''0'') (p - i) @ (if p \<noteq> 0 then rev tmp else [])"
  have zeros: "fill c (max i p - i) = fill c (p - i)" for c by (simp add: max_def)
  have room: "w - int (length (fill c (p - i)) + length tmp + length s) = x - int (length s)"
    for c and s :: "u8 list"
    unfolding x_def i_def by simp
  have nt: "number_text num base w p type =
     (let sg = number_sign type num; r = x - int (length sg)
      in if type AND LEFT \<noteq> 0 then sg @ z @ fill (ascii CHR '' '') r
         else if type AND ZEROPAD \<noteq> 0 then sg @ fill (ascii CHR ''0'') r @ z
         else fill (ascii CHR '' '') r @ sg @ z)"
    unfolding number_text_def Let_def len i_def [symmetric] unfolding room tmp [symmetric] z_def by simp
  have none: "fill c (min y 0 - 1) = []" "fill c (min y 0 - 1 - 1) = []" for c y by simp_all
  show ?thesis
    unfolding print_number_parts [OF sg tmp] nt Let_def i_def [symmetric] x_def [symmetric] sg pad_size_fill pad_len_fill zeros prod.case
    by (cases "type AND LEFT = 0"; cases "type AND ZEROPAD = 0"; cases "sign = 0"; cases "0 < x"; simp add: none z_def)
qed


lemma convert_c_text: "convert_c e flags width w o1 = fold (put e) (char_text flags width w) o1"
  by (simp add: convert_c_def char_text_def pad_before_fill)

lemma str_len_take:
  "str_len len width s = len + int (length (if width < len then takeWhile (\<lambda>c. c \<noteq> 0) s else take (nat (width - len)) (takeWhile (\<lambda>c. c \<noteq> 0) s)))"
proof (induction len width s rule: str_len.induct)
  case (1 len width s)
  show ?case
  proof (cases "len \<noteq> width \<and> chr_at s \<noteq> 0")
    case True
    then obtain c s' where s: "s = c # s'" "c \<noteq> 0" by (cases s) (auto simp: chr_at_def)
    have n: "nat (width - len) = Suc (nat (width - (len + 1)))" if "len < width" using that by linarith
    show ?thesis using 1 [OF True] True s by (subst str_len.simps) (auto simp: n)
  next
    case False
    then show ?thesis by (subst str_len.simps) (cases s; auto simp: chr_at_def)
  qed
qed

lemma take_takeWhile: "n \<le> length (takeWhile P s) \<Longrightarrow> take n s = take n (takeWhile P s)"
proof -
  assume "n \<le> length (takeWhile P s)"
  then show ?thesis using take_append [of n "takeWhile P s" "dropWhile P s"] by simp
qed

lemma convert_s_text: "convert_s e flags width precision s o1 = fold (put e) (string_text flags width precision s) o1"
proof -
  define s' where "s' = (case s of None \<Rightarrow> map ascii ''(NULL)'' | Some s \<Rightarrow> s)"
  define cs where "cs = (let t = takeWhile (\<lambda>c. c \<noteq> 0) s'; t = (if width < 0 then t else take (nat width) t)
     in if precision > 0 then take (nat precision) t else t)"
  define len where "len = (if precision > 0 \<and> str_len 0 width s' > precision then precision else str_len 0 width s')"
  have l: "len = int (length cs)" by (auto simp: len_def cs_def str_len_take Let_def min_def)
  have "nat len \<le> length (takeWhile (\<lambda>c. c \<noteq> 0) s')" unfolding l cs_def Let_def by (auto simp: min_def)
  then have tk: "take (nat len) s' = take (nat len) (takeWhile (\<lambda>c. c \<noteq> 0) s')" by (rule take_takeWhile)
  also have "\<dots> = cs" unfolding l by (auto simp: cs_def Let_def min_def)
  finally have tk: "take (nat len) s' = cs" .
  have "(case s of None \<Rightarrow> map ascii ''(NULL)'' | Some s \<Rightarrow> takeWhile (\<lambda>c. c \<noteq> 0) s) = takeWhile (\<lambda>c. c \<noteq> 0) s'"
    by (simp add: s'_def split: option.split)
  then have st: "string_text flags width precision s =
      (if flags AND LEFT = 0 then fill (ascii CHR '' '') (width - len) @ cs else cs @ fill (ascii CHR '' '') (width - len))"
    unfolding string_text_def Let_def l by (simp only:) (simp add: cs_def Let_def)
  show ?thesis
    unfolding convert_s_def Let_def s'_def [symmetric] len_def [symmetric] tk st pad_len_fill
    by (cases "flags AND LEFT = 0") simp_all
qed


text \<open>What one conversion stands for: its text, and the rest of the format and of the arguments.\<close>

definition int_text :: "u8 \<Rightarrow> u8 \<Rightarrow> nat \<Rightarrow> int \<Rightarrow> int \<Rightarrow> cstring \<Rightarrow> va list \<Rightarrow> (u8 list \<times> cstring \<times> va list) option" where
  "int_text flags qualifier base width precision fmt args =
     map_option (\<lambda>(num, args). (number_text num base width precision flags, tl fmt, args)) (int_arg flags qualifier args)"

definition convert_text :: "u8 \<Rightarrow> u8 \<Rightarrow> int \<Rightarrow> int \<Rightarrow> cstring \<Rightarrow> va list \<Rightarrow> (u8 list \<times> cstring \<times> va list) option" where
  "convert_text flags qualifier width precision fmt args =
     (let c = chr_at fmt
      in if c = ascii CHR ''c'' then map_option (\<lambda>(w, args). (char_text flags width w, tl fmt, args)) (va_word args)
         else if c = ascii CHR ''s'' then
           map_option (\<lambda>(s, args). (string_text flags width precision s, tl fmt, args)) (va_string args)
         else if c = ascii CHR ''p'' then
           map_option (\<lambda>(w, args). (if width = - 1 then number_text (scast w) 16 8 precision (flags OR ZEROPAD)
              else number_text (scast w) 16 width precision flags, tl fmt, args)) (va_word args)
         else if c = ascii CHR ''%'' then Some ([c], tl fmt, args)
         else if c = ascii CHR ''o'' then int_text flags qualifier 8 width precision fmt args
         else if c = ascii CHR ''X'' then int_text (flags OR LARGE) qualifier 16 width precision fmt args
         else if c = ascii CHR ''x'' then int_text flags qualifier 16 width precision fmt args
         else if c = ascii CHR ''d'' \<or> c = ascii CHR ''i'' then int_text (flags OR SIGN) qualifier 10 width precision fmt args
         else if c = ascii CHR ''u'' then int_text flags qualifier 10 width precision fmt args
         else if c = 0 then Some ([ascii CHR ''%''], fmt, args)
         else Some ([ascii CHR ''%'', c], tl fmt, args))"

definition format_one_text :: "cstring \<Rightarrow> va list \<Rightarrow> (u8 list \<times> cstring \<times> va list) option" where
  "format_one_text fmt args =
     (case parse_flags 0 fmt of (flags, fmt) \<Rightarrow>
      case parse_width flags fmt args of
        None \<Rightarrow> None
      | Some (width, flags, fmt, args) \<Rightarrow>
          case parse_precision fmt args of
            None \<Rightarrow> None
          | Some (precision, fmt, args) \<Rightarrow>
              case parse_qualifier fmt of (qualifier, fmt) \<Rightarrow> convert_text flags qualifier width precision fmt args)"

definition emits :: "addr \<Rightarrow> out \<Rightarrow> u8 list \<times> 'b \<Rightarrow> out \<times> 'b" where
  "emits e o1 = (\<lambda>(t, r). (fold (put e) t o1, r))"

lemma convert_int_emits: "convert_int e f q b w p s as o1 = map_option (emits e o1) (int_text f q b w p s as)"
  by (simp add: convert_int_def int_text_def emits_def print_number_text split: option.split)

lemma convert_emits: "convert e f q w p s as o1 = map_option (emits e o1) (convert_text f q w p s as)"
  unfolding convert_def convert_text_def Let_def convert_int_emits
  by (auto simp: emits_def convert_c_text convert_s_text print_number_text split: option.split)

lemma format_one_emits: "format_one e s as o1 = map_option (emits e o1) (format_one_text s as)"
  by (simp add: format_one_def format_one_text_def convert_emits split: prod.split option.split)

lemma format_one_text_shorter:
  "format_one_text (tl s) as = Some (t, s', as') \<Longrightarrow> chr_at s \<noteq> 0 \<Longrightarrow> length s' < length s"
  using format_one_shorter [of 0 s as "(0, \<lambda>_. 0)"] by (simp add: format_one_emits emits_def)

function format_text :: "cstring \<Rightarrow> va list \<Rightarrow> u8 list option" where
  "format_text fmt args =
     (if chr_at fmt = 0 then Some []
      else if chr_at fmt \<noteq> ascii CHR ''%'' then map_option ((#) (chr_at fmt)) (format_text (tl fmt) args)
      else case format_one_text (tl fmt) args of
        None \<Rightarrow> None
      | Some (t, fmt, args) \<Rightarrow> map_option ((@) t) (format_text fmt args))"
  by pat_completeness auto
termination
  by (relation "measure (\<lambda>(fmt, _). length fmt)") (auto intro: chr_at_nonzero format_one_text_shorter)

declare format_text.simps [simp del]

lemma format_loop_text: "format_loop e s as o1 = map_option (\<lambda>t. fold (put e) t o1) (format_text s as)"
proof (induction s as arbitrary: o1 rule: format_text.induct)
  case (1 s as)
  show ?case
  proof (cases "chr_at s = ascii CHR ''%''")
    case True
    then show ?thesis
      using 1(2) by (subst format_loop.simps, subst format_text.simps)
        (auto simp: format_one_emits emits_def option.map_comp comp_def split: option.split)
  next
    case False
    then show ?thesis
      using 1(1) by (subst format_loop.simps, subst format_text.simps) (auto simp: option.map_comp comp_def)
  qed
qed

lemma fold_put:
  "fold (put e) t (a, m) = (a + length t, \<lambda>x. if a \<le> x \<and> x < a + length t \<and> x < e then t ! (x - a) else m x)"
proof (induction t arbitrary: a m)
  case (Cons c t)
  have "fold (put e) (c # t) (a, m) = fold (put e) t (a + 1, if a < e then m(a := c) else m)" by (simp add: put_def)
  also have "\<dots> = (a + length (c # t), \<lambda>x. if a \<le> x \<and> x < a + length (c # t) \<and> x < e then (c # t) ! (x - a) else m x)"
    unfolding Cons by (auto simp: fun_eq_iff nth_Cons' Suc_le_eq)
  finally show ?case .
qed (auto simp: fun_eq_iff)

text \<open>The memory after a call: as much of the text as fits, and the terminating zero.\<close>

definition written :: "addr \<Rightarrow> nat \<Rightarrow> u8 list \<Rightarrow> memory \<Rightarrow> memory" where
  "written buf n t m = (\<lambda>x. let k = min (length t) (n - 1)
     in if x < buf \<or> n = 0 \<or> buf + k < x then m x else if x = buf + k then 0 else t ! (x - buf))"

lemma rt_vsnprintf_text:
  assumes "buf + n < 2 ^ 32"
  shows "rt_vsnprintf buf n fmt args m = map_option (\<lambda>t. (int (length t), written buf n t m)) (format_text fmt args)"
proof (cases "format_text fmt args")
  case (Some t)
  have "(buf + n) mod 2 ^ 32 = buf + n" using assms by simp
  then show ?thesis
    using Some by (auto simp: rt_vsnprintf_def format_loop_text fold_put written_def Let_def fun_eq_iff min_def)
qed (simp add: rt_vsnprintf_def format_loop_text Let_def)


section \<open>Reading a printed number back\<close>

lemma radix_digits_less: "2 \<le> b \<Longrightarrow> d \<in> set (radix_digits b n) \<Longrightarrow> d < b"
  by (induction b n rule: radix_digits.induct) (subst (asm) (2) radix_digits.simps, auto split: if_splits)

lemma radix_digits_value: "2 \<le> b \<Longrightarrow> horner_sum int (int b) (radix_digits b n) = int n"
proof (induction b n rule: radix_digits.induct)
  case (1 b n)
  have "int (b * (n div b) + n mod b) = int n" by (simp only: mult_div_mod_eq)
  then have "int (n mod b) + int b * int (n div b) = int n" by (simp only: of_nat_add of_nat_mult add.commute)
  then show ?case using 1 by (subst radix_digits.simps) auto
qed

lemma radix_digits_length: "2 \<le> b \<Longrightarrow> n < b ^ k \<Longrightarrow> length (radix_digits b n) \<le> k"
proof (induction k arbitrary: n)
  case 0
  then show ?case by (subst radix_digits.simps) simp
next
  case (Suc k)
  then have "n div b < b ^ k" by (simp add: less_mult_imp_div_less mult.commute)
  then show ?case using Suc by (subst radix_digits.simps) simp
qed

lemma small_digit: "d < 10 \<Longrightarrow> unat (small_digits ! d) = 48 + d"
proof -
  assume "d < 10"
  then have "d = 0 \<or> d = 1 \<or> d = 2 \<or> d = 3 \<or> d = 4 \<or> d = 5 \<or> d = 6 \<or> d = 7 \<or> d = 8 \<or> d = 9" by presburger
  then show ?thesis by (elim disjE) (simp_all add: small_digits_def)
qed

lemma skip_atoi_digits:
  assumes "\<forall>d \<in> set ds. d < 10" "\<not> isdigit (chr_at rest)" "0 \<le> i"
    "i * 10 ^ length ds + horner_sum int 10 (rev ds) < 2 ^ 31"
  shows "skip_atoi i (map ((!) small_digits) ds @ rest) = (i * 10 ^ length ds + horner_sum int 10 (rev ds), rest)"
  using assms
proof (induction ds arbitrary: i)
  case Nil
  then show ?case by (simp add: skip_atoi.simps)
next
  case (Cons d ds)
  define i' where "i' = i * 10 + int d"
  have nn: "0 \<le> horner_sum int 10 (rev ds)" for ds by (simp add: horner_sum_eq_sum sum_nonneg)
  have v: "i * 10 ^ length (d # ds) + horner_sum int 10 (rev (d # ds)) = i' * 10 ^ length ds + horner_sum int 10 (rev ds)"
    by (simp add: i'_def horner_sum_append algebra_simps)
  have d: "uint (small_digits ! d) = 48 + int d" using small_digit [of d] Cons.prems(1) by (metis int_ops(5) list.set_intros(1) of_nat_numeral uint_nat)
  have "i' \<le> i' * 10 ^ length ds" using Cons.prems(3) by (simp add: i'_def mult_le_cancel_left1)
  then have lt: "i' < 2 ^ 31" using Cons.prems(4) v nn [of ds] by linarith
  have "int32 (i * 10 + uint (small_digits ! d) - 48) = i'"
    unfolding d using lt Cons.prems(3) by (simp add: i'_def)
  moreover have "isdigit (small_digits ! d)" unfolding isdigit_iff d using Cons.prems(1) by simp
  ultimately have "skip_atoi i (map ((!) small_digits) (d # ds) @ rest) = skip_atoi i' (map ((!) small_digits) ds @ rest)"
    by (subst skip_atoi.simps) (simp add: chr_at_def)
  then show ?case using Cons.IH [of i'] Cons.prems lt v by (simp add: i'_def)
qed


section \<open>Properties\<close>

lemmas format_eval = format_text.simps format_one_text_def parse_flags.simps parse_width_def parse_precision_def
  parse_qualifier_def convert_text_def int_text_def int_arg_def chr_at_def isdigit_def skip_atoi.simps

lemma format_d: "format_text (map ascii ''%d'') [Va_word w] = Some (number_text (scast w) 10 (- 1) (- 1) SIGN)"
  by (simp add: format_eval)

lemma format_o: "format_text (map ascii ''%o'') [Va_word w] = Some (number_text (ucast w) 8 (- 1) (- 1) 0)"
  by (simp add: format_eval)

lemma format_x: "format_text (map ascii ''%x'') [Va_word w] = Some (number_text (ucast w) 16 (- 1) (- 1) 0)"
  by (simp add: format_eval)

lemma format_p: "format_text (map ascii ''%p'') [Va_word w] = Some (number_text (scast w) 16 8 (- 1) ZEROPAD)"
  by (simp add: format_eval)

lemma format_5s: "format_text (map ascii ''%5s'') [Va_string (Some s)] = Some (string_text 0 5 (- 1) (Some s))"
  by (simp add: format_eval)


lemma radix_digits_split:
  assumes "0 < a" "2 \<le> b"
  shows "r < b ^ k \<Longrightarrow> \<exists>lo. radix_digits b (a * b ^ k + r) = lo @ radix_digits b a \<and> length lo = k"
proof (induction k arbitrary: r)
  case (Suc k)
  have e: "(a * b ^ Suc k + r) div b = a * b ^ k + r div b"
  proof -
    have "a * b ^ Suc k + r = b * (a * b ^ k) + r" by simp
    then show ?thesis using assms(2) by (simp only: div_mult_self4)
  qed
  have "r div b < b ^ k" using Suc.prems by (simp add: less_mult_imp_div_less mult.commute)
  then obtain lo where lo: "radix_digits b (a * b ^ k + r div b) = lo @ radix_digits b a" "length lo = k" using Suc.IH by blast
  have "radix_digits b (a * b ^ Suc k + r) = (a * b ^ Suc k + r) mod b # radix_digits b ((a * b ^ Suc k + r) div b)"
    using assms by (subst radix_digits.simps) simp
  then show ?case unfolding e lo(1) using lo(2) by (intro exI [of _ "((a * b ^ Suc k + r) mod b) # lo"]) simp
qed simp

lemma sint_scast64: "sint (scast (w :: u32) :: u64) = sint w"
  by (rule sint_up_scast) (simp add: is_up)

lemma number_text_plain: "number_text num base (- 1) (- 1) f = number_sign f num @ number_body f base (number_abs f num)"
  by (simp add: number_text_def Let_def)



text \<open>
  A number printed with \<open>%d\<close> takes at most 11 characters: a minus sign exactly for negative
  numbers, then digits that \<open>skip_atoi\<close> reads back as the magnitude, for every \<open>int\<close> but the smallest.
\<close>

theorem rt_snprintf_decimal_roundtrip:
  assumes "buf + n < 2 ^ 32" "w \<noteq> 0x80000000" "\<not> isdigit (chr_at rest)"
  shows "\<exists>t ds. rt_snprintf buf n (map ascii ''%d'') [Va_word w] m = Some (int (length t), written buf n t m)
    \<and> length t \<le> 11 \<and> t = (if sint w < 0 then [ascii CHR ''-''] else []) @ ds \<and> skip_atoi 0 (ds @ rest) = (\<bar>sint w\<bar>, rest)"
proof -
  define v where "v = nat \<bar>sint w\<bar>"
  have "sint w \<noteq> sint (0x80000000 :: u32)" using assms(2) signed_word_eqI by blast
  then have v: "v < 2 ^ 31" "int v = \<bar>sint w\<bar>" using sint_greater_eq [of w] sint_less [of w] by (auto simp: v_def)
  have s: "sint (scast w :: u64) = sint w" by (rule sint_scast64)
  define ds where "ds = number_body SIGN 10 v"
  have d: "ds = (if v = 0 then [small_digits ! 0] else map ((!) small_digits) (rev (radix_digits 10 v)))"
    by (simp add: ds_def number_body_def radix_def small_digits_def)
  have sk: "skip_atoi 0 (ds @ rest) = (int v, rest)"
    unfolding d using skip_atoi_digits [of "rev (radix_digits 10 v)" rest 0] skip_atoi_digits [of "[0]" rest 0] assms(3) v(1)
      radix_digits_less [of 10 _ v] radix_digits_value [of 10 v] by auto
  have "v < 10 ^ 10" using v(1) by simp
  then have "length ds \<le> 10" using radix_digits_length [of 10 v 10] unfolding d by auto
  moreover have "number_text (scast w) 10 (- 1) (- 1) SIGN = (if sint w < 0 then [ascii CHR ''-''] else []) @ ds"
    unfolding number_text_plain by (simp add: number_sign_def number_abs_def s ds_def v_def)
  ultimately show ?thesis
    using sk v(2) rt_vsnprintf_text [OF assms(1), of "map ascii ''%d''" "[Va_word w]" m] unfolding format_d rt_snprintf_def
    by (intro exI [of _ "(if sint w < 0 then [ascii CHR ''-''] else []) @ ds"] exI [of _ ds]) auto
qed

theorem rt_snprintf_decimal_roundtrip_witness:
  "\<exists>t ds. rt_snprintf 100 12 (map ascii ''%d'') [Va_word (- 42)] (\<lambda>_. 0) = Some (int (length t), written 100 12 t (\<lambda>_. 0))
    \<and> t = ascii CHR ''-'' # ds \<and> skip_atoi 0 ds = (42, [])"
  using rt_snprintf_decimal_roundtrip [of 100 12 "- 42" "[]" "\<lambda>_. 0"] by (auto simp: chr_at_def isdigit_iff)


text \<open>
  \<open>%o\<close> prints hexadecimal: \<open>divide\<close> divides by 16 for every base but 10, so a call with \<open>%o\<close> and one
  with \<open>%x\<close> do the same for every number, and 64 is printed as 40 instead of 100.
\<close>

theorem rt_snprintf_octal_is_hex:
  "rt_snprintf buf n (map ascii ''%o'') [Va_word w] m = rt_snprintf buf n (map ascii ''%x'') [Va_word w] m
    \<and> format_text (map ascii ''%o'') [Va_word 64] = Some (map ascii ''40'')"
proof -
  have "number_text num 8 wd p f = number_text num 16 wd p f" for num wd p f
    by (simp add: number_text_def number_body_def radix_def)
  moreover have "format_text (map ascii ''%o'') [Va_word 64] = Some (map ascii ''40'')"
    unfolding format_o number_text_plain
    by (simp add: number_body_def number_sign_def number_abs_def radix_def, simp add: radix_digits.simps, simp add: small_digits_def)
  ultimately show ?thesis
    by (simp only: rt_snprintf_def rt_vsnprintf_def format_loop_text format_o format_x simp_thms)
qed

text \<open>The pointer of \<open>%p\<close> goes through a signed \<open>long\<close> into a 64-bit number.\<close>

lemma unat_scast64:
  assumes "(0x80000000 :: u32) \<le> w"
  shows "unat (scast w :: u64) = 0xFFFFFFFF * 16 ^ 8 + unat w"
proof -
  define b where "b = 2 ^ 32 - unat w"
  have b: "int (unat w) = 2 ^ 32 - int b" "0 < b" "b \<le> 2 ^ 31"
    using assms unsigned_less [of w, where 'a = nat] by (auto simp: b_def word_le_nat_alt)
  have "- int b = int (unat w) - 4294967296" using b(1) by simp
  then have "w = word_of_int (- int b)" by simp
  then have "sint w = - int b" using b(3) by (simp only: sint_sbintrunc') (rule signed_take_bit_int_eq_self; simp)
  moreover have "scast w = (word_of_int (sint w + 2 ^ 64) :: u64)" by simp
  moreover have "unat w = 2 ^ 32 - b" unfolding b_def using unsigned_less [of w, where 'a = nat] by simp
  ultimately show ?thesis using unat_of_sint [of "scast w" "sint w + 2 ^ 64"] b(2,3) by (simp add: nat_diff_distrib)
qed

text \<open>
  \<open>%p\<close> prints sixteen digits for every address in the upper half of the address space, where the
  flash of the board is mapped: the pointer is sign-extended to 64 bits and eight digits \<open>f\<close> stand in front of it.
\<close>

theorem rt_snprintf_pointer_sign_extends:
  assumes "buf + n < 2 ^ 32" "0x80000000 \<le> w"
  shows "\<exists>ds. length ds = 8 \<and> rt_snprintf buf n (map ascii ''%p'') [Va_word w] m
    = Some (16, written buf n (replicate 8 (ascii CHR ''f'') @ ds) m)"
proof -
  obtain lo where lo: "radix_digits 16 (0xFFFFFFFF * 16 ^ 8 + unat w) = lo @ radix_digits 16 0xFFFFFFFF" "length lo = 8"
    using radix_digits_split [of "0xFFFFFFFF" 16 "unat w" 8] unsigned_less [of w, where 'a = nat] by auto
  have "radix_digits 16 0xFFFFFFFF = replicate 8 15" by (simp add: radix_digits.simps, simp add: numeral_eq_Suc)
  moreover have "small_digits ! 15 = ascii CHR ''f''" by (simp add: small_digits_def)
  ultimately have "number_body ZEROPAD 16 (unat (scast w :: u64)) = replicate 8 (ascii CHR ''f'') @ map ((!) small_digits) (rev lo)"
    unfolding unat_scast64 [OF assms(2)] number_body_def radix_def Let_def
    by (simp add: lo(1) [simplified])
  then have "number_text (scast w) 16 8 (- 1) ZEROPAD = replicate 8 (ascii CHR ''f'') @ map ((!) small_digits) (rev lo)"
    using lo(2) by (simp add: number_text_def number_sign_def number_abs_def)
  then show ?thesis
    using rt_vsnprintf_text [OF assms(1), of "map ascii ''%p''" "[Va_word w]" m] lo(2) unfolding format_p rt_snprintf_def
    by (intro exI [of _ "map ((!) small_digits) (rev lo)"]) simp
qed

theorem rt_snprintf_pointer_sign_extends_witness:
  "\<exists>m'. rt_snprintf 100 20 (map ascii ''%p'') [Va_word 0x80003000] (\<lambda>_. 0) = Some (16, m')"
  using rt_snprintf_pointer_sign_extends [of 100 20 "0x80003000" "\<lambda>_. 0"] by auto

text \<open>
  A field width cuts strings: \<open>%5s\<close> prints only the first five characters of a longer string, since
  the loop that measures the string stops at the width.
\<close>

theorem rt_snprintf_width_truncates:
  assumes "buf + n < 2 ^ 32" "0 \<notin> set s" "5 \<le> length s"
  shows "rt_snprintf buf n (map ascii ''%5s'') [Va_string (Some s)] m = Some (5, written buf n (take 5 s) m)"
proof -
  have tw: "takeWhile (\<lambda>c. c \<noteq> 0) s = s" using assms(2) by (auto simp: takeWhile_eq_all_conv)
  have "string_text 0 5 (- 1) (Some s) = take 5 s"
    unfolding string_text_def Let_def option.case tw using assms(3) by simp
  then show ?thesis using rt_vsnprintf_text [OF assms(1), of "map ascii ''%5s''" "[Va_string (Some s)]" m] assms(3)
    unfolding format_5s rt_snprintf_def by simp
qed

theorem rt_snprintf_width_truncates_witness:
  "rt_snprintf 100 20 (map ascii ''%5s'') [Va_string (Some (map ascii ''hello world''))] m
     = Some (5, written 100 20 (map ascii ''hello'') m)"
  using rt_snprintf_width_truncates [of 100 20 "map ascii ''hello world''" m] by simp

end
