(* ===== verification/Kernel.thy ===== *)
theory Kernel
  imports Rt_List Kservice
begin

text \<open>
  The state of the kernel: the globals of \<^verbatim>\<open>scheduler.c\<close>, \<^verbatim>\<open>clock.c\<close>,
  \<^verbatim>\<open>irq.c\<close>, \<^verbatim>\<open>timer.c\<close>, \<^verbatim>\<open>idle.c\<close> and \<^verbatim>\<open>object.c\<close>, and the thread,
  timer and object control blocks of \<^verbatim>\<open>rtdef.h\<close>, in the configuration of the board's
  projects (one core, 32 priorities, no modules, signals or debug assertions). Threads, timers
  and IPC objects are named by numbers that stand for their addresses. Every list the code
  builds with \<open>rt_list_t\<close> is the list of its nodes: a thread's \<open>tlist\<close> node is on at
  most one of the lists of \<open>tlist\<close>, and \<open>rt_list_remove\<close> takes it off whichever that
  is, as the theory of intrusive lists justifies. The record is extensible: the IPC objects
  add their own fields.
\<close>

type_synonym tid = nat

section \<open>Control blocks\<close>

datatype list_id = Ready nat | Suspended addr | Senders addr | Defunct

datatype timer_id = Thread_timer tid | Timer addr

datatype row_id = Hard | Soft | Hard_firing | Soft_firing

datatype obj_id = Thread_obj tid | Timer_obj timer_id | Ipc_obj addr

datatype timeout_fn = Rt_thread_timeout tid | User_timeout nat

record rt_object =
  obj_name :: cstring
  obj_type :: u8
  obj_flag :: u8

record rt_thread =
  entry :: addr
  parameter :: addr
  stack_addr :: addr
  stack_size :: u32
  error :: rt_err
  stat :: u8
  current_priority :: u8
  init_priority :: u8
  number_mask :: u32
  event_set :: u32
  event_info :: u8
  init_tick :: u32
  remaining_tick :: u32
  cleanup :: "nat option"
  user_data :: u32

record rt_timer =
  timeout_func :: timeout_fn
  timer_init_tick :: u32
  timeout_tick :: u32

record kernel =
  rt_tick :: u32
  rt_interrupt_nest :: u8
  rt_scheduler_lock_nest :: u16
  rt_current_thread :: "tid option"
  rt_current_priority :: u8
  ready_group :: u32
  tlist :: "list_id \<Rightarrow> tid list"
  thread :: "tid \<Rightarrow> rt_thread"
  object :: "obj_id \<Rightarrow> rt_object"
  object_list :: "u8 \<Rightarrow> obj_id list"
  timer :: "timer_id \<Rightarrow> rt_timer"
  timer_row :: "row_id \<Rightarrow> timer_id list"
  soft_timer_idle :: bool
  random_nr :: u32
  idle_hook_list :: "nat option list"
  rt_errno :: rt_err

abbreviation (input) RT_NAME_MAX :: nat where "RT_NAME_MAX \<equiv> 8"
abbreviation (input) RT_THREAD_PRIORITY_MAX :: nat where "RT_THREAD_PRIORITY_MAX \<equiv> 32"

abbreviation (input) RT_THREAD_INIT :: u8 where "RT_THREAD_INIT \<equiv> 0"
abbreviation (input) RT_THREAD_READY :: u8 where "RT_THREAD_READY \<equiv> 1"
abbreviation (input) RT_THREAD_SUSPEND :: u8 where "RT_THREAD_SUSPEND \<equiv> 2"
abbreviation (input) RT_THREAD_RUNNING :: u8 where "RT_THREAD_RUNNING \<equiv> 3"
abbreviation (input) RT_THREAD_CLOSE :: u8 where "RT_THREAD_CLOSE \<equiv> 4"
abbreviation (input) RT_THREAD_STAT_MASK :: u8 where "RT_THREAD_STAT_MASK \<equiv> 7"
abbreviation (input) RT_THREAD_STAT_YIELD :: u8 where "RT_THREAD_STAT_YIELD \<equiv> 8"

abbreviation (input) RT_Object_Class_Thread :: u8 where "RT_Object_Class_Thread \<equiv> 1"
abbreviation (input) RT_Object_Class_Semaphore :: u8 where "RT_Object_Class_Semaphore \<equiv> 2"
abbreviation (input) RT_Object_Class_Mutex :: u8 where "RT_Object_Class_Mutex \<equiv> 3"
abbreviation (input) RT_Object_Class_Event :: u8 where "RT_Object_Class_Event \<equiv> 4"
abbreviation (input) RT_Object_Class_MailBox :: u8 where "RT_Object_Class_MailBox \<equiv> 5"
abbreviation (input) RT_Object_Class_MessageQueue :: u8 where "RT_Object_Class_MessageQueue \<equiv> 6"
abbreviation (input) RT_Object_Class_Timer :: u8 where "RT_Object_Class_Timer \<equiv> 10"
abbreviation (input) RT_Object_Class_Static :: u8 where "RT_Object_Class_Static \<equiv> 0x80"

abbreviation (input) RT_TIMER_FLAG_ACTIVATED :: u8 where "RT_TIMER_FLAG_ACTIVATED \<equiv> 1"
abbreviation (input) RT_TIMER_FLAG_PERIODIC :: u8 where "RT_TIMER_FLAG_PERIODIC \<equiv> 2"
abbreviation (input) RT_TIMER_FLAG_SOFT_TIMER :: u8 where "RT_TIMER_FLAG_SOFT_TIMER \<equiv> 4"

section \<open>Access and update\<close>

text \<open>The scheduling state of a thread, \<^verbatim>\<open>thread->stat & RT_THREAD_STAT_MASK\<close>.\<close>

definition tstat :: "'a kernel_scheme \<Rightarrow> tid \<Rightarrow> u8" where
  "tstat k t = stat (thread k t) AND RT_THREAD_STAT_MASK"

definition prio :: "'a kernel_scheme \<Rightarrow> tid \<Rightarrow> nat" where
  "prio k t = unat (current_priority (thread k t))"

definition upd_thread :: "tid \<Rightarrow> (rt_thread \<Rightarrow> rt_thread) \<Rightarrow> 'a kernel_scheme \<Rightarrow> 'a kernel_scheme" where
  "upd_thread t f k = k\<lparr>thread := (thread k)(t := f (thread k t))\<rparr>"

definition upd_timer :: "timer_id \<Rightarrow> (rt_timer \<Rightarrow> rt_timer) \<Rightarrow> 'a kernel_scheme \<Rightarrow> 'a kernel_scheme" where
  "upd_timer t f k = k\<lparr>timer := (timer k)(t := f (timer k t))\<rparr>"

definition upd_object :: "obj_id \<Rightarrow> (rt_object \<Rightarrow> rt_object) \<Rightarrow> 'a kernel_scheme \<Rightarrow> 'a kernel_scheme" where
  "upd_object b f k = k\<lparr>object := (object k)(b := f (object k b))\<rparr>"

text \<open>\<^verbatim>\<open>thread->stat = s | (thread->stat & ~RT_THREAD_STAT_MASK)\<close>\<close>

definition set_stat :: "tid \<Rightarrow> u8 \<Rightarrow> 'a kernel_scheme \<Rightarrow> 'a kernel_scheme" where
  "set_stat t s = upd_thread t (\<lambda>th. th\<lparr>stat := s OR (stat th AND NOT RT_THREAD_STAT_MASK)\<rparr>)"

text \<open>\<^verbatim>\<open>rt_list_remove\<close>, \<^verbatim>\<open>rt_list_insert_before\<close> and \<^verbatim>\<open>rt_list_insert_after\<close>
  on the \<open>tlist\<close> node of a thread and a list head.\<close>

definition tlist_remove :: "tid \<Rightarrow> 'a kernel_scheme \<Rightarrow> 'a kernel_scheme" where
  "tlist_remove t k = k\<lparr>tlist := \<lambda>l. removeAll t (tlist k l)\<rparr>"

definition tlist_push_back :: "list_id \<Rightarrow> tid \<Rightarrow> 'a kernel_scheme \<Rightarrow> 'a kernel_scheme" where
  "tlist_push_back l t k = k\<lparr>tlist := (tlist k)(l := tlist k l @ [t])\<rparr>"

definition tlist_push_front :: "list_id \<Rightarrow> tid \<Rightarrow> 'a kernel_scheme \<Rightarrow> 'a kernel_scheme" where
  "tlist_push_front l t k = k\<lparr>tlist := (tlist k)(l := t # tlist k l)\<rparr>"

lemmas upd_defs = upd_thread_def upd_timer_def upd_object_def set_stat_def
  tlist_remove_def tlist_push_back_def tlist_push_front_def

lemma upd_thread_sel [simp]:
  "thread (upd_thread t f k) = (thread k)(t := f (thread k t))"
  "tlist (upd_thread t f k) = tlist k" "ready_group (upd_thread t f k) = ready_group k"
  "rt_current_thread (upd_thread t f k) = rt_current_thread k" "rt_tick (upd_thread t f k) = rt_tick k"
  "rt_scheduler_lock_nest (upd_thread t f k) = rt_scheduler_lock_nest k"
  "timer (upd_thread t f k) = timer k" "timer_row (upd_thread t f k) = timer_row k"
  "object (upd_thread t f k) = object k" "object_list (upd_thread t f k) = object_list k"
  "soft_timer_idle (upd_thread t f k) = soft_timer_idle k"
  by (simp_all add: upd_thread_def)

lemma upd_timer_sel [simp]:
  "timer (upd_timer t f k) = (timer k)(t := f (timer k t))"
  "thread (upd_timer t f k) = thread k"
  "tlist (upd_timer t f k) = tlist k" "ready_group (upd_timer t f k) = ready_group k"
  "rt_current_thread (upd_timer t f k) = rt_current_thread k" "rt_tick (upd_timer t f k) = rt_tick k"
  "rt_scheduler_lock_nest (upd_timer t f k) = rt_scheduler_lock_nest k"
  "timer_row (upd_timer t f k) = timer_row k"
  "object (upd_timer t f k) = object k" "object_list (upd_timer t f k) = object_list k"
  "soft_timer_idle (upd_timer t f k) = soft_timer_idle k"
  by (simp_all add: upd_timer_def)

lemma upd_object_sel [simp]:
  "object (upd_object b f k) = (object k)(b := f (object k b))"
  "object_list (upd_object b f k) = object_list k"
  "thread (upd_object b f k) = thread k"
  "tlist (upd_object b f k) = tlist k" "ready_group (upd_object b f k) = ready_group k"
  "rt_current_thread (upd_object b f k) = rt_current_thread k" "rt_tick (upd_object b f k) = rt_tick k"
  "rt_scheduler_lock_nest (upd_object b f k) = rt_scheduler_lock_nest k"
  "timer (upd_object b f k) = timer k" "timer_row (upd_object b f k) = timer_row k"
  "soft_timer_idle (upd_object b f k) = soft_timer_idle k"
  by (simp_all add: upd_object_def)

lemma set_stat_sel [simp]:
  "thread (set_stat t s k) =
     (thread k)(t := (thread k t)\<lparr>stat := s OR (stat (thread k t) AND NOT RT_THREAD_STAT_MASK)\<rparr>)"
  "tlist (set_stat t s k) = tlist k" "ready_group (set_stat t s k) = ready_group k"
  "rt_current_thread (set_stat t s k) = rt_current_thread k" "rt_tick (set_stat t s k) = rt_tick k"
  "rt_scheduler_lock_nest (set_stat t s k) = rt_scheduler_lock_nest k"
  "timer (set_stat t s k) = timer k" "timer_row (set_stat t s k) = timer_row k"
  "object (set_stat t s k) = object k" "object_list (set_stat t s k) = object_list k"
  "soft_timer_idle (set_stat t s k) = soft_timer_idle k"
  by (simp_all add: set_stat_def)

lemma tlist_ops_sel [simp]:
  "tlist (tlist_remove t k) = (\<lambda>l. removeAll t (tlist k l))"
  "tlist (tlist_push_back l t k) = (tlist k)(l := tlist k l @ [t])"
  "tlist (tlist_push_front l t k) = (tlist k)(l := t # tlist k l)"
  "thread (tlist_remove t k) = thread k" "thread (tlist_push_back l t k) = thread k"
  "thread (tlist_push_front l t k) = thread k"
  "ready_group (tlist_remove t k) = ready_group k" "ready_group (tlist_push_back l t k) = ready_group k"
  "ready_group (tlist_push_front l t k) = ready_group k"
  "rt_current_thread (tlist_remove t k) = rt_current_thread k"
  "rt_current_thread (tlist_push_back l t k) = rt_current_thread k"
  "rt_current_thread (tlist_push_front l t k) = rt_current_thread k"
  "rt_tick (tlist_remove t k) = rt_tick k" "rt_tick (tlist_push_back l t k) = rt_tick k"
  "rt_tick (tlist_push_front l t k) = rt_tick k"
  "rt_scheduler_lock_nest (tlist_remove t k) = rt_scheduler_lock_nest k"
  "rt_scheduler_lock_nest (tlist_push_back l t k) = rt_scheduler_lock_nest k"
  "rt_scheduler_lock_nest (tlist_push_front l t k) = rt_scheduler_lock_nest k"
  "timer (tlist_remove t k) = timer k" "timer (tlist_push_back l t k) = timer k"
  "timer (tlist_push_front l t k) = timer k"
  "timer_row (tlist_remove t k) = timer_row k" "timer_row (tlist_push_back l t k) = timer_row k"
  "timer_row (tlist_push_front l t k) = timer_row k"
  "object (tlist_remove t k) = object k" "object (tlist_push_back l t k) = object k"
  "object (tlist_push_front l t k) = object k"
  "object_list (tlist_remove t k) = object_list k" "object_list (tlist_push_back l t k) = object_list k"
  "object_list (tlist_push_front l t k) = object_list k"
  "soft_timer_idle (tlist_remove t k) = soft_timer_idle k"
  "soft_timer_idle (tlist_push_back l t k) = soft_timer_idle k"
  "soft_timer_idle (tlist_push_front l t k) = soft_timer_idle k"
  by (simp_all add: upd_defs)

lemma tstat_cong [simp]:
  "tstat (upd_timer x g k) = tstat k" "tstat (upd_object b h k) = tstat k"
  "tstat (tlist_remove t k) = tstat k" "tstat (tlist_push_back l t k) = tstat k"
  "tstat (tlist_push_front l t k) = tstat k"
  "tstat (k\<lparr>ready_group := r\<rparr>) = tstat k" "tstat (k\<lparr>rt_current_thread := c\<rparr>) = tstat k"
  "tstat (k\<lparr>rt_current_priority := cp\<rparr>) = tstat k"
  "tstat (k\<lparr>timer_row := tr\<rparr>) = tstat k" "tstat (k\<lparr>rt_tick := tk\<rparr>) = tstat k"
  "tstat (k\<lparr>rt_scheduler_lock_nest := ln\<rparr>) = tstat k" "tstat (k\<lparr>object_list := ol\<rparr>) = tstat k"
  "tstat (k\<lparr>random_nr := rn\<rparr>) = tstat k" "tstat (k\<lparr>soft_timer_idle := si\<rparr>) = tstat k"
  by (simp_all add: tstat_def fun_eq_iff)

lemma prio_cong [simp]:
  "prio (upd_timer x g k) = prio k" "prio (upd_object b h k) = prio k"
  "prio (tlist_remove t k) = prio k" "prio (tlist_push_back l t k) = prio k"
  "prio (tlist_push_front l t k) = prio k" "prio (set_stat t s k) = prio k"
  "prio (k\<lparr>ready_group := r\<rparr>) = prio k" "prio (k\<lparr>rt_current_thread := c\<rparr>) = prio k"
  "prio (k\<lparr>rt_current_priority := cp\<rparr>) = prio k"
  "prio (k\<lparr>timer_row := tr\<rparr>) = prio k" "prio (k\<lparr>rt_tick := tk\<rparr>) = prio k"
  "prio (k\<lparr>rt_scheduler_lock_nest := ln\<rparr>) = prio k" "prio (k\<lparr>object_list := ol\<rparr>) = prio k"
  "prio (k\<lparr>random_nr := rn\<rparr>) = prio k" "prio (k\<lparr>soft_timer_idle := si\<rparr>) = prio k"
  by (simp_all add: prio_def fun_eq_iff)

lemma tstat_upd_thread [simp]:
  "tstat (upd_thread t f k) = (tstat k)(t := stat (f (thread k t)) AND 7)"
  by (simp add: tstat_def fun_eq_iff)

lemma prio_upd_thread [simp]:
  "prio (upd_thread t f k) = (prio k)(t := unat (current_priority (f (thread k t))))"
  by (simp add: prio_def fun_eq_iff)

lemma tstat_set_stat [simp]: "s AND 7 = s \<Longrightarrow> tstat (set_stat t s k) = (tstat k)(t := s)"
  by (simp add: tstat_def fun_eq_iff)

end
