(* ===== verification/Scheduler.thy ===== *)
theory Scheduler
  imports Kernel
begin

text \<open>
  The single-core scheduler of \<^verbatim>\<open>rt-thread/src/scheduler.c\<close>: the per-priority ready
  queues with their bitmap, the scheduling decision and the scheduler lock. The context switch
  itself (saving and restoring registers) belongs to the CPU port; here a switch is the change
  of \<open>rt_current_thread\<close>, and code that follows a call of \<open>rt_schedule\<close> in a thread is
  modelled as a separate operation that runs when the thread is current again.
\<close>

section \<open>Operations\<close>

definition rt_schedule_insert_thread :: "tid \<Rightarrow> 'a kernel_scheme \<Rightarrow> 'a kernel_scheme" where
  "rt_schedule_insert_thread t k =
     (if rt_current_thread k = Some t then set_stat t RT_THREAD_RUNNING k
      else
        let k = set_stat t RT_THREAD_READY k;
            k = tlist_push_back (Ready (prio k t)) t k
        in k\<lparr>ready_group := ready_group k OR number_mask (thread k t)\<rparr>)"

definition rt_schedule_remove_thread :: "tid \<Rightarrow> 'a kernel_scheme \<Rightarrow> 'a kernel_scheme" where
  "rt_schedule_remove_thread t k =
     (let k = tlist_remove t k
      in if tlist k (Ready (prio k t)) = []
         then k\<lparr>ready_group := ready_group k AND NOT (number_mask (thread k t))\<rparr>
         else k)"

definition scheduler_get_highest_priority_thread :: "'a kernel_scheme \<Rightarrow> tid \<times> nat" where
  "scheduler_get_highest_priority_thread k =
     (let highest_ready_priority = rt_ffs (ready_group k) - 1
      in (hd (tlist k (Ready highest_ready_priority)), highest_ready_priority))"

definition rt_system_scheduler_init :: "'a kernel_scheme \<Rightarrow> 'a kernel_scheme" where
  "rt_system_scheduler_init k =
     k\<lparr>rt_scheduler_lock_nest := 0,
       tlist := (\<lambda>l. case l of Ready p \<Rightarrow> if p < RT_THREAD_PRIORITY_MAX then [] else tlist k l | _ \<Rightarrow> tlist k l),
       ready_group := 0\<rparr>"

definition rt_system_scheduler_start :: "'a kernel_scheme \<Rightarrow> 'a kernel_scheme" where
  "rt_system_scheduler_start k =
     (let (to_thread, _) = scheduler_get_highest_priority_thread k;
          k = k\<lparr>rt_current_thread := Some to_thread\<rparr>;
          k = rt_schedule_remove_thread to_thread k
      in upd_thread to_thread (\<lambda>th. th\<lparr>stat := RT_THREAD_RUNNING\<rparr>) k)"

text \<open>The decision of \<open>rt_schedule\<close>: the thread to run and whether the current one goes
  back to its ready queue.\<close>

definition schedule_choice :: "'a kernel_scheme \<Rightarrow> tid \<Rightarrow> tid \<times> bool" where
  "schedule_choice k c =
     (let (to_thread, highest_ready_priority) = scheduler_get_highest_priority_thread k
      in if tstat k c = RT_THREAD_RUNNING then
           (if prio k c < highest_ready_priority then (c, False)
            else if prio k c = highest_ready_priority \<and> stat (thread k c) AND RT_THREAD_STAT_YIELD = 0
            then (c, False)
            else (to_thread, True))
         else (to_thread, False))"

definition rt_schedule :: "'a kernel_scheme \<Rightarrow> 'a kernel_scheme" where
  "rt_schedule k =
     (case rt_current_thread k of
        None \<Rightarrow> k
      | Some c \<Rightarrow>
          if rt_scheduler_lock_nest k = 0 \<and> ready_group k \<noteq> 0 then
            let (to_thread, need_insert_from_thread) = schedule_choice k c;
                highest_ready_priority = snd (scheduler_get_highest_priority_thread k);
                k = (if tstat k c = RT_THREAD_RUNNING
                     then upd_thread c (\<lambda>th. th\<lparr>stat := stat th AND NOT RT_THREAD_STAT_YIELD\<rparr>) k
                     else k)
            in if to_thread \<noteq> c then
                 let k = k\<lparr>rt_current_priority := of_nat highest_ready_priority,
                           rt_current_thread := Some to_thread\<rparr>;
                     k = (if need_insert_from_thread then rt_schedule_insert_thread c k else k);
                     k = rt_schedule_remove_thread to_thread k
                 in set_stat to_thread RT_THREAD_RUNNING k
               else
                 set_stat c RT_THREAD_RUNNING (rt_schedule_remove_thread c k)
          else k)"

definition rt_enter_critical :: "'a kernel_scheme \<Rightarrow> 'a kernel_scheme" where
  "rt_enter_critical k = k\<lparr>rt_scheduler_lock_nest := rt_scheduler_lock_nest k + 1\<rparr>"

definition rt_exit_critical :: "'a kernel_scheme \<Rightarrow> 'a kernel_scheme" where
  "rt_exit_critical k =
     (let k = k\<lparr>rt_scheduler_lock_nest := rt_scheduler_lock_nest k - 1\<rparr>
      in if sint (rt_scheduler_lock_nest k) \<le> 0 then
           let k = k\<lparr>rt_scheduler_lock_nest := 0\<rparr>
           in if rt_current_thread k \<noteq> None then rt_schedule k else k
         else k)"

definition rt_critical_level :: "'a kernel_scheme \<Rightarrow> u16" where
  "rt_critical_level k = rt_scheduler_lock_nest k"

section \<open>Invariant\<close>

definition family_ok :: "('l \<Rightarrow> 'n list) \<Rightarrow> bool" where
  "family_ok L \<longleftrightarrow> (\<forall>l. distinct (L l)) \<and> (\<forall>l m t. t \<in> set (L l) \<longrightarrow> t \<in> set (L m) \<longrightarrow> l = m)"

definition lists_ok :: "'a kernel_scheme \<Rightarrow> bool" where
  "lists_ok k \<longleftrightarrow> family_ok (tlist k)"

definition unlinked :: "'a kernel_scheme \<Rightarrow> tid \<Rightarrow> bool" where
  "unlinked k t \<longleftrightarrow> (\<forall>l. t \<notin> set (tlist k l))"

text \<open>What a thread that has been started carries: a priority in range and its bit mask.\<close>

definition mask_ok :: "'a kernel_scheme \<Rightarrow> tid \<Rightarrow> bool" where
  "mask_ok k t \<longleftrightarrow> prio k t < 32 \<and> number_mask (thread k t) = 2 ^ prio k t"

definition rq_inv :: "'a kernel_scheme \<Rightarrow> bool" where
  "rq_inv k \<longleftrightarrow> lists_ok k
     \<and> (\<forall>p t. t \<in> set (tlist k (Ready p)) \<longrightarrow> tstat k t = RT_THREAD_READY \<and> prio k t = p)
     \<and> (\<forall>t. tstat k t = RT_THREAD_READY \<longrightarrow> t \<in> set (tlist k (Ready (prio k t))))
     \<and> (\<forall>p. bit (ready_group k) p \<longleftrightarrow> tlist k (Ready p) \<noteq> [])
     \<and> (\<forall>t. tstat k t \<noteq> RT_THREAD_INIT \<longrightarrow> tstat k t \<noteq> RT_THREAD_CLOSE \<longrightarrow> mask_ok k t)
     \<and> (\<forall>a t. t \<in> set (tlist k (Suspended a)) \<or> t \<in> set (tlist k (Senders a)) \<longrightarrow> tstat k t = RT_THREAD_SUSPEND)
     \<and> (\<forall>t. t \<in> set (tlist k Defunct) \<longrightarrow> tstat k t = RT_THREAD_CLOSE)"

definition cur_inv :: "'a kernel_scheme \<Rightarrow> bool" where
  "cur_inv k \<longleftrightarrow> (\<forall>t. tstat k t = RT_THREAD_RUNNING \<longrightarrow> rt_current_thread k = Some t)
     \<and> (\<forall>t. rt_current_thread k = Some t \<longrightarrow> tstat k t \<noteq> RT_THREAD_READY)"

definition sched_inv :: "'a kernel_scheme \<Rightarrow> bool" where
  "sched_inv k \<longleftrightarrow> rq_inv k \<and> cur_inv k"

text \<open>What a scheduling decision guarantees: the current thread is running, and no ready
  thread has a higher priority (a smaller number).\<close>

definition runs_highest :: "'a kernel_scheme \<Rightarrow> bool" where
  "runs_highest k \<longleftrightarrow> (\<exists>c. rt_current_thread k = Some c \<and> tstat k c = RT_THREAD_RUNNING \<and>
     (\<forall>t. tstat k t = RT_THREAD_READY \<longrightarrow> prio k c \<le> prio k t))"

section \<open>Queue operations keep the invariant\<close>

lemma mask_ok_cong [simp]:
  "mask_ok (tlist_remove t k) = mask_ok k" "mask_ok (tlist_push_back l t k) = mask_ok k"
  "mask_ok (tlist_push_front l t k) = mask_ok k"
  "mask_ok (set_stat t s k) = mask_ok k" "mask_ok (k\<lparr>ready_group := r\<rparr>) = mask_ok k"
  "mask_ok (k\<lparr>rt_current_thread := c\<rparr>) = mask_ok k" "mask_ok (k\<lparr>rt_current_priority := cp\<rparr>) = mask_ok k"
  by (auto simp: mask_ok_def fun_eq_iff)

lemma rq_inv_cong:
  assumes "tlist k' = tlist k" "ready_group k' = ready_group k" "\<And>t. tstat k' t = tstat k t"
    "\<And>t. prio k' t = prio k t" "\<And>t. number_mask (thread k' t) = number_mask (thread k t)"
  shows "rq_inv k' = rq_inv k"
  using assms by (simp add: rq_inv_def lists_ok_def mask_ok_def)

lemma rq_invI:
  assumes "lists_ok k"
    and "\<And>p t. t \<in> set (tlist k (Ready p)) \<Longrightarrow> tstat k t = RT_THREAD_READY \<and> prio k t = p"
    and "\<And>t. tstat k t = RT_THREAD_READY \<Longrightarrow> t \<in> set (tlist k (Ready (prio k t)))"
    and "\<And>p. bit (ready_group k) p \<longleftrightarrow> tlist k (Ready p) \<noteq> []"
    and "\<And>t. tstat k t \<noteq> RT_THREAD_INIT \<Longrightarrow> tstat k t \<noteq> RT_THREAD_CLOSE \<Longrightarrow> mask_ok k t"
    and "\<And>a t. t \<in> set (tlist k (Suspended a)) \<Longrightarrow> tstat k t = RT_THREAD_SUSPEND"
    and "\<And>a t. t \<in> set (tlist k (Senders a)) \<Longrightarrow> tstat k t = RT_THREAD_SUSPEND"
    and "\<And>t. t \<in> set (tlist k Defunct) \<Longrightarrow> tstat k t = RT_THREAD_CLOSE"
  shows "rq_inv k"
  using assms unfolding rq_inv_def by blast

lemma rq_waiting:
  "rq_inv k \<Longrightarrow> t \<in> set (tlist k (Suspended a)) \<Longrightarrow> tstat k t = 2"
  "rq_inv k \<Longrightarrow> t \<in> set (tlist k (Senders a)) \<Longrightarrow> tstat k t = 2"
  "rq_inv k \<Longrightarrow> t \<in> set (tlist k Defunct) \<Longrightarrow> tstat k t = 4"
  by (simp_all add: rq_inv_def)

lemma bit_set_mask: "p < 32 \<Longrightarrow> bit (g OR 2 ^ p :: u32) q \<longleftrightarrow> bit g q \<or> q = p"
  by (auto simp: bit_simps)

lemma bit_clear_mask: "p < 32 \<Longrightarrow> bit (g AND NOT (2 ^ p) :: u32) q \<longleftrightarrow> bit g q \<and> q \<noteq> p"
  by (auto simp: bit_simps dest: bit_imp_le_length)

lemma rq_ready_prio: "rq_inv k \<Longrightarrow> t \<in> set (tlist k (Ready p)) \<Longrightarrow> tstat k t = 1 \<and> prio k t = p"
  by (simp add: rq_inv_def)

lemma rq_readyD: "rq_inv k \<Longrightarrow> tstat k t = 1 \<Longrightarrow> t \<in> set (tlist k (Ready (prio k t)))"
  by (simp add: rq_inv_def)

lemma rq_group: "rq_inv k \<Longrightarrow> bit (ready_group k) p \<longleftrightarrow> tlist k (Ready p) \<noteq> []"
  by (simp add: rq_inv_def)

lemma rq_mask: "rq_inv k \<Longrightarrow> tstat k t \<noteq> 0 \<Longrightarrow> tstat k t \<noteq> 4 \<Longrightarrow> mask_ok k t"
  by (simp add: rq_inv_def)

lemma rq_lists: "rq_inv k \<Longrightarrow> lists_ok k"
  by (simp add: rq_inv_def)

lemma rq_unlinked:
  assumes "rq_inv k" "tstat k t \<notin> {1, 2, 4}"
  shows "unlinked k t"
  unfolding unlinked_def
proof
  fix l
  show "t \<notin> set (tlist k l)"
    using assms by (cases l) (auto simp: rq_inv_def)
qed

lemma unlinked_simps [simp]:
  "unlinked (set_stat u s k) = unlinked k" "unlinked (upd_thread u f k) = unlinked k"
  "unlinked (k\<lparr>rt_current_thread := c\<rparr>) = unlinked k"
  "unlinked (k\<lparr>rt_current_priority := cp\<rparr>) = unlinked k"
  "unlinked (tlist_remove t k) t"
  by (auto simp: unlinked_def fun_eq_iff)

lemma family_ok_remove: "family_ok L \<Longrightarrow> family_ok (\<lambda>l. removeAll t (L l))"
  unfolding family_ok_def by (simp add: distinct_removeAll) blast

lemma family_ok_insert:
  assumes "family_ok L" "\<forall>l. t \<notin> set (L l)" "L l = ys @ zs"
  shows "family_ok (L(l := ys @ t # zs))"
proof -
  have d: "distinct (ys @ zs)" "t \<notin> set (ys @ zs)"
    using assms unfolding family_ok_def by metis+
  let ?L = "L(l := ys @ t # zs)"
  have m: "u = t \<and> m = l \<or> u \<in> set (L m) \<and> u \<noteq> t" if "u \<in> set (?L m)" for u m
    using that assms(2,3) by (cases "m = l") auto
  have "l' = m" if "u \<in> set (?L l')" "u \<in> set (?L m)" for l' m u
    using m [OF that(1)] m [OF that(2)] assms(1) unfolding family_ok_def by blast
  moreover have "distinct (?L m)" for m
    using assms(1) d unfolding family_ok_def by simp
  ultimately show ?thesis unfolding family_ok_def by blast
qed

lemma family_ok_push_back:
  "family_ok L \<Longrightarrow> \<forall>l. t \<notin> set (L l) \<Longrightarrow> family_ok (L(l := L l @ [t]))"
  using family_ok_insert [of L t l "L l" "[]"] by simp

lemma family_ok_push_front:
  "family_ok L \<Longrightarrow> \<forall>l. t \<notin> set (L l) \<Longrightarrow> family_ok (L(l := t # L l))"
  using family_ok_insert [of L t l "[]" "L l"] by simp

lemma rq_inv_insert:
  assumes k: "rq_inv k" and u: "unlinked k t" and m: "mask_ok k t"
    and c: "rt_current_thread k \<noteq> Some t"
  shows "rq_inv (rt_schedule_insert_thread t k)"
proof -
  let ?k = "rt_schedule_insert_thread t k"
  have T: "tlist ?k = (tlist k)(Ready (prio k t) := tlist k (Ready (prio k t)) @ [t])"
    and G: "ready_group ?k = ready_group k OR 2 ^ prio k t"
    and S: "tstat ?k = (tstat k)(t := 1)" and P: "prio ?k = prio k"
    and M: "mask_ok ?k = mask_ok k"
    using c m by (simp_all add: rt_schedule_insert_thread_def Let_def mask_ok_def)
  have p: "prio k t < 32" using m by (simp add: mask_ok_def)
  have L: "lists_ok ?k"
    using rq_lists [OF k] u unfolding lists_ok_def unlinked_def T by (rule family_ok_push_back)
  note u' = u [unfolded unlinked_def]
  show ?thesis
  proof (rule rq_invI [OF L])
    fix q x assume "x \<in> set (tlist ?k (Ready q))"
    then show "tstat ?k x = 1 \<and> prio ?k x = q"
      using u' rq_ready_prio [OF k] unfolding T S P by (auto split: if_splits)
  next
    fix x assume "tstat ?k x = 1"
    then show "x \<in> set (tlist ?k (Ready (prio ?k x)))"
      using rq_readyD [OF k, of x] unfolding T S P by (auto split: if_splits)
  next
    fix q show "bit (ready_group ?k) q \<longleftrightarrow> tlist ?k (Ready q) \<noteq> []"
      unfolding T G using rq_group [OF k] by (simp add: bit_set_mask [OF p])
  next
    fix x assume "tstat ?k x \<noteq> 0" "tstat ?k x \<noteq> 4"
    then show "mask_ok ?k x" using rq_mask [OF k, of x] m unfolding S M by (cases "x = t") auto
  next
    fix a x
    show "tstat ?k x = 2" if "x \<in> set (tlist ?k (Suspended a))"
      using that rq_waiting(1) [OF k] u' unfolding T S by auto
    show "tstat ?k x = 2" if "x \<in> set (tlist ?k (Senders a))"
      using that rq_waiting(2) [OF k] u' unfolding T S by auto
    show "tstat ?k x = 4" if "x \<in> set (tlist ?k Defunct)"
      using that rq_waiting(3) [OF k] u' unfolding T S by auto
  qed
qed

lemma rq_inv_remove:
  assumes k: "rq_inv k" and m: "mask_ok k t" and s: "stat (f (thread k t)) AND 7 \<notin> {0, 1}"
    and f: "current_priority (f (thread k t)) = current_priority (thread k t)"
      "number_mask (f (thread k t)) = number_mask (thread k t)"
  shows "rq_inv (upd_thread t f (rt_schedule_remove_thread t k))"
proof -
  let ?k = "upd_thread t f (rt_schedule_remove_thread t k)"
  have T: "tlist ?k = (\<lambda>l. removeAll t (tlist k l))"
    and S: "tstat ?k = (tstat k)(t := stat (f (thread k t)) AND 7)" and P: "prio ?k = prio k"
    and G: "ready_group ?k = (if removeAll t (tlist k (Ready (prio k t))) = []
      then ready_group k AND NOT (2 ^ prio k t) else ready_group k)"
    using f m by (auto simp: rt_schedule_remove_thread_def Let_def mask_ok_def prio_def fun_eq_iff)
  have M: "mask_ok ?k = mask_ok k"
    using f by (auto simp: rt_schedule_remove_thread_def Let_def mask_ok_def prio_def fun_eq_iff)
  have p: "prio k t < 32" using m by (simp add: mask_ok_def)
  have L: "lists_ok ?k"
    using rq_lists [OF k] unfolding lists_ok_def T by (rule family_ok_remove)
  have B: "bit (ready_group ?k) q \<longleftrightarrow> tlist ?k (Ready q) \<noteq> []" for q
  proof (cases "q = prio k t")
    case True
    then show ?thesis using rq_group [OF k, of q] unfolding G T
      by (auto simp: bit_clear_mask [OF p])
  next
    case False
    then have "t \<notin> set (tlist k (Ready q))" using rq_ready_prio [OF k, of t q] by auto
    then show ?thesis using False rq_group [OF k, of q] unfolding G T
      by (simp add: bit_clear_mask [OF p])
  qed
  show ?thesis
  proof (rule rq_invI [OF L _ _ B])
    fix q x assume "x \<in> set (tlist ?k (Ready q))"
    then show "tstat ?k x = 1 \<and> prio ?k x = q"
      using rq_ready_prio [OF k] unfolding T S P by auto
  next
    fix x assume "tstat ?k x = 1"
    then show "x \<in> set (tlist ?k (Ready (prio ?k x)))"
      using rq_readyD [OF k, of x] s unfolding T S P by (auto split: if_splits)
  next
    fix x assume "tstat ?k x \<noteq> 0" "tstat ?k x \<noteq> 4"
    then show "mask_ok ?k x" using rq_mask [OF k, of x] m unfolding S M by (cases "x = t") auto
  next
    fix a x
    show "tstat ?k x = 2" if "x \<in> set (tlist ?k (Suspended a))"
      using that rq_waiting(1) [OF k] unfolding T S by auto
    show "tstat ?k x = 2" if "x \<in> set (tlist ?k (Senders a))"
      using that rq_waiting(2) [OF k] unfolding T S by auto
    show "tstat ?k x = 4" if "x \<in> set (tlist ?k Defunct)"
      using that rq_waiting(3) [OF k] unfolding T S by auto
  qed
qed

lemma cur_inv_insert:
  assumes "cur_inv k"
  shows "cur_inv (rt_schedule_insert_thread t k)"
  using assms by (auto simp: cur_inv_def rt_schedule_insert_thread_def Let_def)

lemma sched_inv_insert [kinv]:
  assumes "sched_inv k" "unlinked k t" "mask_ok k t"
  shows "sched_inv (rt_schedule_insert_thread t k)"
proof (cases "rt_current_thread k = Some t")
  case True
  have "rq_inv (set_stat t 3 k)"
    using assms unfolding sched_inv_def rq_inv_def unlinked_def lists_ok_def by auto
  with True assms show ?thesis
    by (simp add: sched_inv_def cur_inv_insert) (simp add: rt_schedule_insert_thread_def)
next
  case False
  with assms show ?thesis by (simp add: sched_inv_def cur_inv_insert rq_inv_insert)
qed

lemma rt_schedule_remove_thread_sel [simp]:
  "thread (rt_schedule_remove_thread t k) = thread k"
  "tlist (rt_schedule_remove_thread t k) = (\<lambda>l. removeAll t (tlist k l))"
  "tstat (rt_schedule_remove_thread t k) = tstat k" "prio (rt_schedule_remove_thread t k) = prio k"
  "rt_current_thread (rt_schedule_remove_thread t k) = rt_current_thread k"
  "rt_tick (rt_schedule_remove_thread t k) = rt_tick k"
  "timer (rt_schedule_remove_thread t k) = timer k"
  "timer_row (rt_schedule_remove_thread t k) = timer_row k"
  "object (rt_schedule_remove_thread t k) = object k"
  "rt_scheduler_lock_nest (rt_schedule_remove_thread t k) = rt_scheduler_lock_nest k"
  by (simp_all add: rt_schedule_remove_thread_def Let_def)

lemma rt_schedule_insert_thread_sel [simp]:
  "rt_current_thread (rt_schedule_insert_thread t k) = rt_current_thread k"
  "rt_tick (rt_schedule_insert_thread t k) = rt_tick k"
  "timer (rt_schedule_insert_thread t k) = timer k"
  "timer_row (rt_schedule_insert_thread t k) = timer_row k"
  "object (rt_schedule_insert_thread t k) = object k"
  "prio (rt_schedule_insert_thread t k) = prio k"
  "mask_ok (rt_schedule_insert_thread t k) = mask_ok k"
  "rt_scheduler_lock_nest (rt_schedule_insert_thread t k) = rt_scheduler_lock_nest k"
  by (simp_all add: rt_schedule_insert_thread_def Let_def)

lemma tstat_insert:
  "tstat (rt_schedule_insert_thread t k) = (tstat k)(t := if rt_current_thread k = Some t then 3 else 1)"
  by (simp add: rt_schedule_insert_thread_def Let_def)

section \<open>The scheduling decision\<close>

lemma highest_ready:
  assumes "rq_inv k" "ready_group k \<noteq> 0"
    and "scheduler_get_highest_priority_thread k = (t, p)"
  shows "tlist k (Ready p) \<noteq> []" "t = hd (tlist k (Ready p))" "tstat k t = 1" "prio k t = p"
    "tstat k u = 1 \<Longrightarrow> p \<le> prio k u"
proof -
  have p: "p = rt_ffs (ready_group k) - 1" and t: "t = hd (tlist k (Ready p))"
    using assms(3) by (auto simp: scheduler_get_highest_priority_thread_def Let_def)
  show ne: "tlist k (Ready p) \<noteq> []"
    using rt_ffs_lowest(3) [OF assms(2)] rq_group [OF assms(1)] p by simp
  show "t = hd (tlist k (Ready p))" by (rule t)
  have "t \<in> set (tlist k (Ready p))" using ne t by simp
  then show "tstat k t = 1" "prio k t = p" using rq_ready_prio [OF assms(1)] by auto
  show "p \<le> prio k u" if "tstat k u = 1"
  proof -
    have "bit (ready_group k) (prio k u)"
      using rq_readyD [OF assms(1) that] rq_group [OF assms(1)] by force
    then show ?thesis using rt_ffs_lowest(4) [OF assms(2)] p by (meson not_le)
  qed
qed

text \<open>The three ways \<open>rt_schedule\<close> can go when it has something to decide.\<close>

definition clear_yield :: "tid \<Rightarrow> 'a kernel_scheme \<Rightarrow> 'a kernel_scheme" where
  "clear_yield c = upd_thread c (\<lambda>th. th\<lparr>stat := stat th AND NOT RT_THREAD_STAT_YIELD\<rparr>)"

lemma clear_yield_sel [simp]:
  "tlist (clear_yield c k) = tlist k" "ready_group (clear_yield c k) = ready_group k"
  "rt_current_thread (clear_yield c k) = rt_current_thread k" "tstat (clear_yield c k) = tstat k"
  "prio (clear_yield c k) = prio k" "mask_ok (clear_yield c k) = mask_ok k"
  "number_mask (thread (clear_yield c k) t) = number_mask (thread k t)"
  "unlinked (clear_yield c k) = unlinked k"
  by (auto simp: clear_yield_def tstat_def prio_def mask_ok_def fun_eq_iff)

lemma rq_inv_clear_yield [simp]: "rq_inv (clear_yield c k) = rq_inv k"
  by (rule rq_inv_cong) simp_all

lemma rt_schedule_locked:
  "rt_scheduler_lock_nest k \<noteq> 0 \<or> ready_group k = 0 \<or> rt_current_thread k = None \<Longrightarrow> rt_schedule k = k"
  by (auto simp: rt_schedule_def split: option.splits)

lemma rt_schedule_cases:
  assumes inv: "sched_inv k" and cur: "rt_current_thread k = Some c"
    and lock: "rt_scheduler_lock_nest k = 0" and ready: "ready_group k \<noteq> 0"
    and high: "scheduler_get_highest_priority_thread k = (t, p)"
  obtains
    (keep) "tstat k c = 3" "prio k c < p \<or> prio k c = p \<and> stat (thread k c) AND 8 = 0"
      "rt_schedule k = set_stat c 3 (rt_schedule_remove_thread c (clear_yield c k))"
  | (preempt) "tstat k c = 3" "p < prio k c \<or> prio k c = p \<and> stat (thread k c) AND 8 \<noteq> 0" "t \<noteq> c"
      "rt_schedule k = set_stat t 3 (rt_schedule_remove_thread t (rt_schedule_insert_thread c
         ((clear_yield c k)\<lparr>rt_current_priority := of_nat p, rt_current_thread := Some t\<rparr>)))"
  | (switch) "tstat k c \<noteq> 3" "t \<noteq> c"
      "rt_schedule k = set_stat t 3 (rt_schedule_remove_thread t
         (k\<lparr>rt_current_priority := of_nat p, rt_current_thread := Some t\<rparr>))"
proof -
  have rq: "rq_inv k" and ci: "cur_inv k" using inv by (auto simp: sched_inv_def)
  have t: "tstat k t = 1" using highest_ready(3) [OF rq ready high] .
  then have tc: "t \<noteq> c" using ci cur by (auto simp: cur_inv_def)
  show ?thesis
  proof (cases "tstat k c = 3")
    case True
    show ?thesis
    proof (cases "prio k c < p \<or> prio k c = p \<and> stat (thread k c) AND 8 = 0")
      case T: True
      then have "rt_schedule k = set_stat c 3 (rt_schedule_remove_thread c (clear_yield c k))"
        using True cur lock ready high
        by (auto simp: rt_schedule_def schedule_choice_def clear_yield_def)
      with True T show ?thesis by (rule keep)
    next
      case F: False
      then have "p < prio k c \<or> prio k c = p \<and> stat (thread k c) AND 8 \<noteq> 0" by auto
      moreover have "rt_schedule k = set_stat t 3 (rt_schedule_remove_thread t (rt_schedule_insert_thread c
         ((clear_yield c k)\<lparr>rt_current_priority := of_nat p, rt_current_thread := Some t\<rparr>)))"
        using True F tc cur lock ready high
        by (auto simp: rt_schedule_def schedule_choice_def clear_yield_def Let_def)
      ultimately show ?thesis using preempt True tc by blast
    qed
  next
    case False
    then show ?thesis using tc cur lock ready high
      by (intro switch) (auto simp: rt_schedule_def schedule_choice_def Let_def)
  qed
qed

lemma rt_schedule_effect:
  assumes inv: "sched_inv k" and cur: "rt_current_thread k = Some c"
    and lock: "rt_scheduler_lock_nest k = 0" and ready: "ready_group k \<noteq> 0"
  shows "rq_inv (rt_schedule k) \<and> (\<exists>n. rt_current_thread (rt_schedule k) = Some n \<and>
      tstat (rt_schedule k) = (tstat k)(c := if n = c then 3 else if tstat k c = 3 then 1 else tstat k c, n := 3)
      \<and> prio (rt_schedule k) = prio k
      \<and> (\<forall>u. tstat (rt_schedule k) u = 1 \<longrightarrow> prio k n \<le> prio k u))"
proof -
  have rq: "rq_inv k" and ci: "cur_inv k" using inv by (auto simp: sched_inv_def)
  obtain t p where high: "scheduler_get_highest_priority_thread k = (t, p)" by fastforce
  note hr = highest_ready [OF rq ready high]
  have mt: "mask_ok k t" using rq_mask [OF rq] hr(3) by simp
  from inv cur lock ready high show ?thesis
  proof (cases rule: rt_schedule_cases)
    case keep
    have mc: "mask_ok k c" using rq_mask [OF rq] keep(1) by simp
    have "rq_inv (rt_schedule k)"
      unfolding keep(3) set_stat_def using rq mc by (intro rq_inv_remove) simp_all
    moreover have "prio k c \<le> prio k u" if "tstat k u = 1" for u
      using keep(2) hr(5) [OF that] by linarith
    ultimately show ?thesis using keep cur by (auto simp: fun_eq_iff)
  next
    case preempt
    let ?k1 = "(clear_yield c k)\<lparr>rt_current_priority := of_nat p, rt_current_thread := Some t\<rparr>"
    let ?k2 = "rt_schedule_insert_thread c ?k1"
    have uc: "unlinked k c" using rq_unlinked [OF rq] preempt(1) by simp
    have mc: "mask_ok k c" using rq_mask [OF rq] preempt(1) by simp
    have "rq_inv ?k1" using rq by (subst rq_inv_cong [of _ "clear_yield c k"]) simp_all
    then have k2: "rq_inv ?k2" using uc mc preempt(3) by (intro rq_inv_insert) auto
    have "rq_inv (rt_schedule k)"
      unfolding preempt(4) set_stat_def using k2 mt by (intro rq_inv_remove) simp_all
    moreover have "prio k t \<le> prio k u" if "tstat k u = 1 \<or> u = c" for u
      using that hr(4,5) preempt(2) by auto
    ultimately show ?thesis
      unfolding preempt(4) using preempt(1,3) by (auto simp: tstat_insert fun_eq_iff)
  next
    case switch
    let ?k1 = "k\<lparr>rt_current_priority := of_nat p, rt_current_thread := Some t\<rparr>"
    have "rq_inv ?k1" using rq by (subst rq_inv_cong [of _ k]) simp_all
    then have "rq_inv (rt_schedule k)"
      unfolding switch(3) set_stat_def using mt by (intro rq_inv_remove) simp_all
    then show ?thesis
      unfolding switch(3) using switch(1,2) hr(4,5) by (auto simp: fun_eq_iff)
  qed
qed

lemma sched_inv_schedule [kinv]:
  assumes "sched_inv k"
  shows "sched_inv (rt_schedule k)"
proof (cases "rt_scheduler_lock_nest k \<noteq> 0 \<or> ready_group k = 0 \<or> rt_current_thread k = None")
  case True
  then show ?thesis using assms by (simp add: rt_schedule_locked)
next
  case False
  then obtain c where c: "rt_current_thread k = Some c" by blast
  have ci: "cur_inv k" using assms by (simp add: sched_inv_def)
  from rt_schedule_effect [OF assms c] False obtain n where
    e: "rq_inv (rt_schedule k)" "rt_current_thread (rt_schedule k) = Some n"
      "tstat (rt_schedule k) = (tstat k)(c := if n = c then 3 else if tstat k c = 3 then 1 else tstat k c, n := 3)"
    by blast
  have "u = n" if "tstat (rt_schedule k) u = 3" for u
  proof (rule ccontr)
    assume u: "u \<noteq> n"
    then have "u \<noteq> c" using that unfolding e(3) by (auto split: if_splits)
    with u that have "tstat k u = 3" unfolding e(3) by simp
    then have "rt_current_thread k = Some u" using ci unfolding cur_inv_def by blast
    with c \<open>u \<noteq> c\<close> show False by simp
  qed
  moreover have "tstat (rt_schedule k) n \<noteq> 1" unfolding e(3) by simp
  ultimately have "cur_inv (rt_schedule k)" unfolding cur_inv_def e(2) by (metis option.inject)
  with e(1) show ?thesis by (simp add: sched_inv_def)
qed

text \<open>A scheduling point moves threads between ready and running only.\<close>

lemma rt_schedule_tstat:
  assumes "sched_inv k"
  shows "tstat (rt_schedule k) t = tstat k t \<or> tstat k t \<in> {1, 3} \<and> tstat (rt_schedule k) t \<in> {1, 3}"
proof (cases "rt_scheduler_lock_nest k \<noteq> 0 \<or> ready_group k = 0 \<or> rt_current_thread k = None")
  case True
  then show ?thesis by (simp add: rt_schedule_locked)
next
  case False
  then obtain c where c: "rt_current_thread k = Some c" by blast
  have rq: "rq_inv k" using assms by (simp add: sched_inv_def)
  obtain u p where high: "scheduler_get_highest_priority_thread k = (u, p)" by fastforce
  have u: "tstat k u = 1" using highest_ready(3) [OF rq _ high] False by simp
  from False have "rt_scheduler_lock_nest k = 0" "ready_group k \<noteq> 0" by auto
  from assms c this high show ?thesis
    by (cases rule: rt_schedule_cases) (use u in \<open>auto simp: tstat_insert\<close>)
qed

lemma no_ready_group: "rq_inv k \<Longrightarrow> ready_group k = 0 \<longleftrightarrow> (\<forall>t. tstat k t \<noteq> 1)"
proof
  assume k: "rq_inv k" and "ready_group k = 0"
  then show "\<forall>t. tstat k t \<noteq> 1" using rq_readyD [OF k] rq_group [OF k] by force
next
  assume k: "rq_inv k" and "\<forall>t. tstat k t \<noteq> 1"
  then have "tlist k (Ready p) = []" for p
    using rq_ready_prio [OF k, of _ p] by (cases "tlist k (Ready p)") auto
  then have "\<not> bit (ready_group k) p" for p using rq_group [OF k] by simp
  then show "ready_group k = 0" by (simp add: bit_eq_iff)
qed

lemma rt_schedule_runs_highest:
  assumes "sched_inv k" "rt_current_thread k = Some c" "rt_scheduler_lock_nest k = 0"
    and "tstat k c = 3 \<or> ready_group k \<noteq> 0"
  shows "runs_highest (rt_schedule k)"
proof (cases "ready_group k = 0")
  case True
  then have "rt_schedule k = k" by (simp add: rt_schedule_locked)
  moreover have "\<forall>t. tstat k t \<noteq> 1"
    using no_ready_group [of k] True assms(1) by (simp add: sched_inv_def)
  ultimately show ?thesis using assms True by (auto simp: runs_highest_def)
next
  case False
  from rt_schedule_effect [OF assms(1-3) False] show ?thesis
    by (auto simp: runs_highest_def)
qed

section \<open>What scheduling leaves alone\<close>

lemma insert_thread_stat_only:
  "\<exists>s. thread (rt_schedule_insert_thread t k) u = (thread k u)\<lparr>stat := s\<rparr>"
  by (cases "u = t") (auto simp: rt_schedule_insert_thread_def Let_def intro: exI [of _ "stat (thread k u)"])

lemma rt_schedule_stat_only: "\<exists>s. thread (rt_schedule k) u = (thread k u)\<lparr>stat := s\<rparr>"
proof -
  have ss: "\<exists>s. thread (set_stat t v k') u = (thread k' u)\<lparr>stat := s\<rparr>" for t v and k' :: "'a kernel_scheme"
    by (cases "u = t") (auto intro: exI [of _ "stat (thread k' u)"])
  have cy: "\<exists>s. thread (if b then upd_thread t (\<lambda>th. th\<lparr>stat := stat th AND NOT 8\<rparr>) k' else k') u
      = (thread k' u)\<lparr>stat := s\<rparr>" for t b and k' :: "'a kernel_scheme"
    by (cases "u = t \<and> b") (auto intro: exI [of _ "stat (thread k' u)"])
  have it: "\<exists>s. thread (if b then rt_schedule_insert_thread t k' else k') u = (thread k' u)\<lparr>stat := s\<rparr>"
    for t b and k' :: "'a kernel_scheme"
    using insert_thread_stat_only [of t k' u] by (cases b) (auto intro: exI [of _ "stat (thread k' u)"])
  show ?thesis
  proof (cases "rt_scheduler_lock_nest k \<noteq> 0 \<or> ready_group k = 0 \<or> rt_current_thread k = None")
    case True
    then show ?thesis by (auto simp: rt_schedule_locked intro: exI [of _ "stat (thread k u)"])
  next
    case False
    then obtain c where c: "rt_current_thread k = Some c" by blast
    obtain t b where tb: "schedule_choice k c = (t, b)" by fastforce
    define k1 where "k1 = (if tstat k c = 3 then upd_thread c (\<lambda>th. th\<lparr>stat := stat th AND NOT 8\<rparr>) k else k)"
    define k2 where "k2 = k1\<lparr>rt_current_priority := of_nat (snd (scheduler_get_highest_priority_thread k)),
      rt_current_thread := Some t\<rparr>"
    define k3 where "k3 = (if b then rt_schedule_insert_thread c k2 else k2)"
    have e: "rt_schedule k = (if t \<noteq> c then set_stat t 3 (rt_schedule_remove_thread t k3)
        else set_stat c 3 (rt_schedule_remove_thread c k1))"
      using False c tb unfolding k3_def k2_def k1_def by (simp add: rt_schedule_def Let_def)
    obtain s1 where s1: "thread k1 u = (thread k u)\<lparr>stat := s1\<rparr>" using cy unfolding k1_def by blast
    have "thread k2 u = thread k1 u" by (simp add: k2_def)
    then obtain s3 where s3: "thread k3 u = (thread k u)\<lparr>stat := s3\<rparr>"
      using it [of b c k2] s1 unfolding k3_def by auto
    show ?thesis
      using ss [of t 3 "rt_schedule_remove_thread t k3"] ss [of c 3 "rt_schedule_remove_thread c k1"] s1 s3
      unfolding e by auto
  qed
qed

lemma rt_schedule_thread_fields [simp]:
  "error (thread (rt_schedule k) u) = error (thread k u)"
  "current_priority (thread (rt_schedule k) u) = current_priority (thread k u)"
  "init_priority (thread (rt_schedule k) u) = init_priority (thread k u)"
  "number_mask (thread (rt_schedule k) u) = number_mask (thread k u)"
  "event_set (thread (rt_schedule k) u) = event_set (thread k u)"
  "event_info (thread (rt_schedule k) u) = event_info (thread k u)"
  "remaining_tick (thread (rt_schedule k) u) = remaining_tick (thread k u)"
  "init_tick (thread (rt_schedule k) u) = init_tick (thread k u)"
  "prio (rt_schedule k) u = prio k u"
  using rt_schedule_stat_only [of k u] by (auto simp: prio_def)

lemma sched_ops_sel [simp]:
  "object_list (rt_schedule_insert_thread t k) = object_list k"
  "soft_timer_idle (rt_schedule_insert_thread t k) = soft_timer_idle k"
  "rt_interrupt_nest (rt_schedule_insert_thread t k) = rt_interrupt_nest k"
  "kernel.more (rt_schedule_insert_thread t k) = kernel.more k"
  "object_list (rt_schedule_remove_thread t k) = object_list k"
  "soft_timer_idle (rt_schedule_remove_thread t k) = soft_timer_idle k"
  "rt_interrupt_nest (rt_schedule_remove_thread t k) = rt_interrupt_nest k"
  "kernel.more (rt_schedule_remove_thread t k) = kernel.more k"
  by (simp_all add: rt_schedule_insert_thread_def rt_schedule_remove_thread_def Let_def upd_defs)

lemma set_stat_more [simp]:
  "rt_interrupt_nest (set_stat t s k) = rt_interrupt_nest k" "kernel.more (set_stat t s k) = kernel.more k"
  "rt_interrupt_nest (upd_thread t f k) = rt_interrupt_nest k" "kernel.more (upd_thread t f k) = kernel.more k"
  by (simp_all add: upd_defs)

lemma rt_schedule_sel [simp]:
  "rt_tick (rt_schedule k) = rt_tick k" "timer (rt_schedule k) = timer k"
  "timer_row (rt_schedule k) = timer_row k" "object (rt_schedule k) = object k"
  "object_list (rt_schedule k) = object_list k" "soft_timer_idle (rt_schedule k) = soft_timer_idle k"
  "rt_scheduler_lock_nest (rt_schedule k) = rt_scheduler_lock_nest k"
  "rt_interrupt_nest (rt_schedule k) = rt_interrupt_nest k"
  "kernel.more (rt_schedule k) = kernel.more k"
  by (simp_all add: rt_schedule_def Let_def split: option.split prod.split)

lemma rt_schedule_wait_lists:
  assumes "sched_inv k" "\<And>p. l \<noteq> Ready p"
  shows "tlist (rt_schedule k) l = tlist k l"
proof (cases "rt_scheduler_lock_nest k \<noteq> 0 \<or> ready_group k = 0 \<or> rt_current_thread k = None")
  case True
  then show ?thesis by (simp add: rt_schedule_locked)
next
  case False
  then obtain c where c: "rt_current_thread k = Some c" by blast
  have rq: "rq_inv k" using assms(1) by (simp add: sched_inv_def)
  have nr: "u \<notin> set (tlist k l)" if "tstat k u \<in> {1, 3}" for u
    using that assms(2) rq_waiting [OF rq, of u] by (cases l) auto
  obtain t p where high: "scheduler_get_highest_priority_thread k = (t, p)" by fastforce
  have t: "tstat k t = 1" using highest_ready(3) [OF rq _ high] False by simp
  from False have "rt_scheduler_lock_nest k = 0" "ready_group k \<noteq> 0" by auto
  from assms(1) c this high show ?thesis
  proof (cases rule: rt_schedule_cases)
    case keep
    then show ?thesis using nr [of c] by simp
  next
    case preempt
    then show ?thesis using nr [of t] t assms(2) by (simp add: rt_schedule_insert_thread_def Let_def)
  next
    case switch
    then show ?thesis using nr [of t] t by simp
  qed
qed

section \<open>Time slices\<close>

lemma rt_schedule_yield:
  assumes inv: "sched_inv k" and cur: "rt_current_thread k = Some c"
    and lock: "rt_scheduler_lock_nest k = 0" and run: "tstat k c = 3"
    and y: "stat (thread k c) AND 8 \<noteq> 0"
    and q: "tlist k (Ready (prio k c)) = x # xs" and top: "\<And>t. tstat k t = 1 \<Longrightarrow> prio k c \<le> prio k t"
  shows "rt_current_thread (rt_schedule k) = Some x \<and> tlist (rt_schedule k) (Ready (prio k c)) = xs @ [c]"
proof -
  have rq: "rq_inv k" using inv by (simp add: sched_inv_def)
  have ready: "ready_group k \<noteq> 0" using rq_group [OF rq, of "prio k c"] q by auto
  obtain t p where high: "scheduler_get_highest_priority_thread k = (t, p)" by fastforce
  note hr = highest_ready [OF rq ready high]
  have x: "tstat k x = 1" "prio k x = prio k c" using rq_ready_prio [OF rq, of x "prio k c"] q by auto
  have p: "p = prio k c" using hr(4) hr(5) [OF x(1)] top [OF hr(3)] x(2) by simp
  have t: "t = x" using hr(2) p q by simp
  have d: "x \<notin> set xs" using rq_lists [OF rq] q unfolding lists_ok_def family_ok_def
    by (metis distinct.simps(2))
  from inv cur lock ready high show ?thesis
  proof (cases rule: rt_schedule_cases)
    case keep
    then show ?thesis using p y by simp
  next
    case preempt
    then show ?thesis using t q p d by (simp add: rt_schedule_insert_thread_def Let_def)
  next
    case switch
    then show ?thesis using run by simp
  qed
qed

section \<open>The scheduler lock\<close>

lemma rt_enter_critical_inv [kinv]: "sched_inv k \<Longrightarrow> sched_inv (rt_enter_critical k)"
  unfolding sched_inv_def cur_inv_def rt_enter_critical_def
  by (simp add: rq_inv_cong [of "k\<lparr>rt_scheduler_lock_nest := _\<rparr>" k])

lemma sched_inv_lock_nest: "sched_inv (k\<lparr>rt_scheduler_lock_nest := n\<rparr>) = sched_inv k"
  unfolding sched_inv_def cur_inv_def
  by (simp add: rq_inv_cong [of "k\<lparr>rt_scheduler_lock_nest := n\<rparr>" k])

lemma rt_exit_critical_inv [kinv]: "sched_inv k \<Longrightarrow> sched_inv (rt_exit_critical k)"
  by (simp add: rt_exit_critical_def Let_def sched_inv_lock_nest sched_inv_schedule)

lemma exit_enter_critical:
  assumes "0 \<le> sint (rt_scheduler_lock_nest k)" "sint (rt_scheduler_lock_nest k) < 0x7fff"
  shows "rt_exit_critical (rt_enter_critical k) =
    (if rt_scheduler_lock_nest k = 0 \<and> rt_current_thread k \<noteq> None then rt_schedule k else k)"
proof -
  have z: "sint (rt_scheduler_lock_nest k) \<le> 0 \<longleftrightarrow> rt_scheduler_lock_nest k = 0"
    using assms(1) by (auto simp: signed_eq_0_iff intro: antisym)
  have e: "k\<lparr>rt_scheduler_lock_nest := 0\<rparr> = k" if "rt_scheduler_lock_nest k = 0"
    unfolding that [symmetric] by simp
  have r: "rt_schedule (k\<lparr>rt_scheduler_lock_nest := 0\<rparr>) = rt_schedule k" if "rt_scheduler_lock_nest k = 0"
    by (simp only: e [OF that])
  show ?thesis
    by (cases "rt_scheduler_lock_nest k = 0")
      (simp_all add: rt_exit_critical_def rt_enter_critical_def Let_def z r e)
qed

section \<open>An example state\<close>

definition zero_thread :: rt_thread where
  "zero_thread = \<lparr>entry = 0, parameter = 0, stack_addr = 0, stack_size = 0, error = 0, stat = 0,
     current_priority = 0, init_priority = 0, number_mask = 0, event_set = 0, event_info = 0,
     init_tick = 0, remaining_tick = 0, cleanup = None, user_data = 0\<rparr>"

definition zero_timer :: rt_timer where
  "zero_timer = \<lparr>timeout_func = User_timeout 0, timer_init_tick = 0, timeout_tick = 0\<rparr>"

definition zero_object :: rt_object where
  "zero_object = \<lparr>obj_name = [], obj_type = 0, obj_flag = 0\<rparr>"

text \<open>The state at reset: zeroed memory, all lists empty.\<close>

definition boot_kernel :: "'a \<Rightarrow> 'a kernel_scheme" where
  "boot_kernel ext =
     \<lparr>rt_tick = 0, rt_interrupt_nest = 0, rt_scheduler_lock_nest = 0, rt_current_thread = None,
      rt_current_priority = 0, ready_group = 0, tlist = (\<lambda>_. []), thread = (\<lambda>_. zero_thread),
      object = (\<lambda>_. zero_object), object_list = (\<lambda>_. []), timer = (\<lambda>_. zero_timer),
      timer_row = (\<lambda>_. []), soft_timer_idle = True, random_nr = 0,
      idle_hook_list = replicate 4 None, rt_errno = 0, \<dots> = ext\<rparr>"

definition started_thread :: "u8 \<Rightarrow> u8 \<Rightarrow> rt_thread" where
  "started_thread p s = zero_thread\<lparr>stat := s, current_priority := p, init_priority := p,
     number_mask := push_bit (unat p) 1, init_tick := 10, remaining_tick := 10\<rparr>"

text \<open>The idle thread 0 (priority 31) and thread 2 (priority 10) are ready, thread 1
  (priority 10) runs.\<close>

definition example_kernel :: "'a \<Rightarrow> 'a kernel_scheme" where
  "example_kernel ext = (boot_kernel ext)\<lparr>
     rt_current_thread := Some 1, rt_current_priority := 10, ready_group := 0x80000400,
     tlist := (\<lambda>_. [])(Ready 31 := [0], Ready 10 := [2]),
     thread := (\<lambda>_. zero_thread)(0 := started_thread 31 1, 1 := started_thread 10 3, 2 := started_thread 10 1)\<rparr>"

lemma boot_kernel_inv: "sched_inv (boot_kernel ext)"
proof -
  have "tstat (boot_kernel ext) t = 0" for t by (simp add: tstat_def boot_kernel_def zero_thread_def)
  then show ?thesis
    by (auto simp: sched_inv_def cur_inv_def boot_kernel_def lists_ok_def family_ok_def intro!: rq_invI)
qed

lemma example_kernel_tstat:
  "tstat (example_kernel ext) = (\<lambda>_. 0)(0 := 1, 1 := 3, 2 := 1)"
  "prio (example_kernel ext) = (\<lambda>_. 0)(0 := 31, 1 := 10, 2 := 10)"
  by (auto simp: tstat_def prio_def example_kernel_def started_thread_def zero_thread_def fun_eq_iff)

lemma example_kernel_inv: "sched_inv (example_kernel ext)"
proof -
  let ?k = "example_kernel ext"
  have T: "tlist ?k = (\<lambda>_. [])(Ready 31 := [0], Ready 10 := [2])" by (simp add: example_kernel_def)
  have "rq_inv ?k"
  proof (rule rq_invI)
    show "lists_ok ?k" unfolding lists_ok_def family_ok_def T by auto
    show "tstat ?k t = 1 \<and> prio ?k t = p" if "t \<in> set (tlist ?k (Ready p))" for t p
      using that unfolding T example_kernel_tstat by (auto split: if_splits)
    show "t \<in> set (tlist ?k (Ready (prio ?k t)))" if "tstat ?k t = 1" for t
      using that unfolding T example_kernel_tstat by (auto split: if_splits)
    show "bit (ready_group ?k) p \<longleftrightarrow> tlist ?k (Ready p) \<noteq> []" for p
    proof -
      have m: "(0x80000400 :: u32) = (2 ^ 31) OR 2 ^ 10" by simp
      have "bit ((2 ^ 31) OR 2 ^ 10 :: u32) p \<longleftrightarrow> p = 31 \<or> p = 10"
        by (subst bit_set_mask) (auto simp only: bit_exp_iff possible_bit_def, simp_all)
      then have "bit (0x80000400 :: u32) p \<longleftrightarrow> p = 31 \<or> p = 10" by (simp only: m)
      then show ?thesis unfolding T by (simp add: example_kernel_def)
    qed
    show "mask_ok ?k t" if "tstat ?k t \<noteq> 0" for t
      using that unfolding mask_ok_def example_kernel_tstat
      by (auto simp: example_kernel_def started_thread_def split: if_splits)
  qed (simp_all add: T)
  moreover have "cur_inv ?k" unfolding cur_inv_def example_kernel_tstat by (simp add: example_kernel_def)
  ultimately show ?thesis by (simp add: sched_inv_def)
qed

section \<open>Properties\<close>

text \<open>
  C2. \<open>rt_schedule\<close> implements fixed-priority preemptive scheduling: from any consistent
  state with the scheduler unlocked, where the current thread can go on or some thread is
  ready, it leaves a consistent state (queues, bitmap and thread states agree) in which the
  current thread is running and no ready thread has a higher priority.
\<close>

theorem rt_schedule_correct:
  assumes "sched_inv k" "rt_current_thread k = Some c" "rt_scheduler_lock_nest k = 0"
    and "tstat k c = RT_THREAD_RUNNING \<or> ready_group k \<noteq> 0"
  shows "sched_inv (rt_schedule k) \<and> runs_highest (rt_schedule k)"
  using assms by (simp add: sched_inv_schedule rt_schedule_runs_highest)

theorem rt_schedule_correct_witness:
  "sched_inv (rt_schedule (example_kernel ())) \<and> runs_highest (rt_schedule (example_kernel ()))"
  using rt_schedule_correct [of "example_kernel ()" 1] example_kernel_inv [of "()"]
  by (simp add: example_kernel_tstat) (simp add: example_kernel_def boot_kernel_def)

text \<open>
  Round robin: when the running thread has used up its slice (or yields) and no ready
  thread has a higher priority, \<open>rt_schedule\<close> hands the processor to the thread at the
  front of the queue of the same priority and puts the current thread at its end.
\<close>

theorem rt_schedule_round_robin:
  assumes "sched_inv k" "rt_current_thread k = Some c" "rt_scheduler_lock_nest k = 0"
    and "tstat k c = RT_THREAD_RUNNING" "stat (thread k c) AND RT_THREAD_STAT_YIELD \<noteq> 0"
    and "tlist k (Ready (prio k c)) = x # xs"
    and "\<forall>t. tstat k t = RT_THREAD_READY \<longrightarrow> prio k c \<le> prio k t"
  shows "rt_current_thread (rt_schedule k) = Some x \<and> tlist (rt_schedule k) (Ready (prio k c)) = xs @ [c]"
  using assms by (intro rt_schedule_yield) auto

theorem rt_schedule_round_robin_witness:
  "rt_current_thread (rt_schedule (upd_thread 1 (\<lambda>th. th\<lparr>stat := stat th OR 8\<rparr>) (example_kernel ()))) = Some 2"
proof -
  let ?k = "upd_thread 1 (\<lambda>th. th\<lparr>stat := stat th OR 8\<rparr>) (example_kernel ())"
  have s: "tstat ?k = tstat (example_kernel ())" "prio ?k = prio (example_kernel ())"
    by (auto simp: tstat_def prio_def fun_eq_iff)
  have "rq_inv ?k = rq_inv (example_kernel ())"
    by (rule rq_inv_cong) (simp_all only: s, auto)
  then have "sched_inv ?k"
    using example_kernel_inv [of "()"] unfolding sched_inv_def cur_inv_def s by simp
  moreover have "tlist ?k (Ready (prio ?k 1)) = 2 # []"
    unfolding s example_kernel_tstat by (simp add: example_kernel_def)
  moreover have "stat (thread ?k 1) AND 8 \<noteq> 0"
    by (simp add: example_kernel_def started_thread_def)
  moreover have "rt_current_thread ?k = Some 1" "rt_scheduler_lock_nest ?k = 0"
    by (simp_all add: example_kernel_def boot_kernel_def)
  moreover have "tstat ?k 1 = 3" "\<forall>t. tstat ?k t = 1 \<longrightarrow> prio ?k 1 \<le> prio ?k t"
    unfolding s example_kernel_tstat by auto
  ultimately show ?thesis using rt_schedule_round_robin [of ?k 1 2 "[]"] by blast
qed

text \<open>
  Inside a critical section there is no thread switch: after \<open>rt_enter_critical\<close>,
  at any nesting depth below the counter's limit, \<open>rt_schedule\<close> does nothing; and leaving
  the section again restores the state, scheduling only when the outermost section is left.
\<close>

theorem critical_section_no_switch:
  assumes "0 \<le> sint (rt_scheduler_lock_nest k)" "sint (rt_scheduler_lock_nest k) < 0x7fff"
  shows "rt_schedule (rt_enter_critical k) = rt_enter_critical k \<and>
    rt_exit_critical (rt_enter_critical k) =
      (if rt_scheduler_lock_nest k = 0 \<and> rt_current_thread k \<noteq> None then rt_schedule k else k)"
proof -
  have "rt_scheduler_lock_nest k \<noteq> - 1" using assms(1) by auto
  then have "rt_scheduler_lock_nest (rt_enter_critical k) \<noteq> 0"
    unfolding rt_enter_critical_def by (simp add: eq_neg_iff_add_eq_0)
  then show ?thesis using exit_enter_critical [OF assms] by (simp add: rt_schedule_locked)
qed

theorem critical_section_no_switch_witness:
  "rt_schedule (rt_enter_critical (example_kernel ())) = rt_enter_critical (example_kernel ())"
proof -
  have "rt_scheduler_lock_nest (example_kernel ()) = 0" by (simp add: example_kernel_def boot_kernel_def)
  then show ?thesis using critical_section_no_switch [of "example_kernel ()"] by simp
qed

end
