(* ===== verification/Object.thy ===== *)
theory Object
  imports Scheduler
begin

text \<open>
  The object system of \<^verbatim>\<open>rt-thread/src/object.c\<close>: every kernel object is registered, under
  a name of at most eight characters, in the list of its class. \<open>object_list k c\<close> is the
  list of the container whose \<open>type\<close> is \<open>c\<close>; \<open>object_classes\<close> are the containers the
  configuration has. The functions are only ever called with the class constants of that table.
  A dynamic object's memory comes from the kernel heap: the address the allocator returned is an
  argument.
\<close>

section \<open>Operations\<close>

text \<open>The containers of \<open>_object_container\<close>: threads, the five IPC classes, memory pools,
  devices and timers (\<open>RT_USING_MEMHEAP\<close>, class 7, is not configured).\<close>

definition object_classes :: "u8 list" where
  "object_classes = [1, 2, 3, 4, 5, 6, 8, 9, 10]"

definition rt_object_get_information :: "u8 \<Rightarrow> u8 option" where
  "rt_object_get_information ty = find (\<lambda>c. c = ty) object_classes"

definition rt_object_get_length :: "u8 \<Rightarrow> 'a kernel_scheme \<Rightarrow> nat" where
  "rt_object_get_length ty k =
     (case rt_object_get_information ty of None \<Rightarrow> 0
      | Some information \<Rightarrow> fold (\<lambda>_ count. count + 1) (object_list k information) 0)"

text \<open>The loop writes one pointer and stops when \<open>maxlen\<close> of them are written.\<close>

fun get_pointers_loop :: "obj_id list \<Rightarrow> int \<Rightarrow> int \<Rightarrow> obj_id list" where
  "get_pointers_loop [] index maxlen = []"
| "get_pointers_loop (b # node) index maxlen =
     b # (if index + 1 \<ge> maxlen then [] else get_pointers_loop node (index + 1) maxlen)"

definition rt_object_get_pointers :: "u8 \<Rightarrow> int \<Rightarrow> 'a kernel_scheme \<Rightarrow> obj_id list" where
  "rt_object_get_pointers ty maxlen k =
     (if maxlen \<le> 0 then []
      else case rt_object_get_information ty of None \<Rightarrow> []
      | Some information \<Rightarrow> get_pointers_loop (object_list k information) 0 maxlen)"

definition object_list_insert :: "u8 \<Rightarrow> obj_id \<Rightarrow> 'a kernel_scheme \<Rightarrow> 'a kernel_scheme" where
  "object_list_insert ty b k = k\<lparr>object_list := (object_list k)(ty := b # object_list k ty)\<rparr>"

definition object_list_remove :: "obj_id \<Rightarrow> 'a kernel_scheme \<Rightarrow> 'a kernel_scheme" where
  "object_list_remove b k = k\<lparr>object_list := (\<lambda>c. removeAll b (object_list k c))\<rparr>"

definition rt_object_init :: "obj_id \<Rightarrow> u8 \<Rightarrow> cstring \<Rightarrow> 'a kernel_scheme \<Rightarrow> 'a kernel_scheme" where
  "rt_object_init b ty name k =
     (let k = rt_enter_critical k;
          k = rt_exit_critical k;
          k = upd_object b (\<lambda>ob. ob\<lparr>obj_type := ty OR RT_Object_Class_Static,
                                    obj_name := rt_strncpy name RT_NAME_MAX\<rparr>) k
      in object_list_insert ty b k)"

definition rt_object_detach :: "obj_id \<Rightarrow> 'a kernel_scheme \<Rightarrow> 'a kernel_scheme" where
  "rt_object_detach b k = object_list_remove b (upd_object b (\<lambda>ob. ob\<lparr>obj_type := 0\<rparr>) k)"

text \<open>\<^verbatim>\<open>rt_memset(object, 0, size)\<close> on the control blocks the kernel record holds: a thread
  contains its timer.\<close>

definition zero_control_block :: "obj_id \<Rightarrow> 'a kernel_scheme \<Rightarrow> 'a kernel_scheme" where
  "zero_control_block b k = (case b of
     Thread_obj t \<Rightarrow> upd_object (Timer_obj (Thread_timer t)) (\<lambda>_. zero_object)
       (upd_timer (Thread_timer t) (\<lambda>_. zero_timer) (upd_thread t (\<lambda>_. zero_thread) k))
   | Timer_obj t \<Rightarrow> upd_timer t (\<lambda>_. zero_timer) k
   | Ipc_obj a \<Rightarrow> k)"

definition rt_object_allocate :: "obj_id option \<Rightarrow> u8 \<Rightarrow> cstring \<Rightarrow> 'a kernel_scheme \<Rightarrow>
    obj_id option \<times> 'a kernel_scheme" where
  "rt_object_allocate mem ty name k =
     (case mem of None \<Rightarrow> (None, k)
      | Some b \<Rightarrow>
          let k = zero_control_block b k;
              k = upd_object b (\<lambda>_. zero_object\<lparr>obj_type := ty, obj_flag := 0,
                                      obj_name := rt_strncpy name RT_NAME_MAX\<rparr>) k
          in (Some b, object_list_insert ty b k))"

definition rt_object_delete :: "obj_id \<Rightarrow> 'a kernel_scheme \<Rightarrow> 'a kernel_scheme" where
  "rt_object_delete b k = object_list_remove b (upd_object b (\<lambda>ob. ob\<lparr>obj_type := 0\<rparr>) k)"

definition rt_object_is_systemobject :: "obj_id \<Rightarrow> 'a kernel_scheme \<Rightarrow> bool" where
  "rt_object_is_systemobject b k \<longleftrightarrow> obj_type (object k b) AND RT_Object_Class_Static \<noteq> 0"

definition rt_object_get_type :: "obj_id \<Rightarrow> 'a kernel_scheme \<Rightarrow> u8" where
  "rt_object_get_type b k = obj_type (object k b) AND NOT RT_Object_Class_Static"

fun find_loop :: "(obj_id \<Rightarrow> rt_object) \<Rightarrow> cstring \<Rightarrow> obj_id list \<Rightarrow> obj_id option" where
  "find_loop ob name [] = None"
| "find_loop ob name (b # node) =
     (if rt_strncmp (obj_name (ob b)) name RT_NAME_MAX = 0 then Some b else find_loop ob name node)"

definition rt_object_find :: "cstring option \<Rightarrow> u8 \<Rightarrow> 'a kernel_scheme \<Rightarrow> obj_id option \<times> 'a kernel_scheme" where
  "rt_object_find name ty k =
     (case (name, rt_object_get_information ty) of
        (Some name, Some information) \<Rightarrow>
          let k = rt_enter_critical k;
              r = find_loop (object k) name (object_list k information)
          in (r, rt_exit_critical k)
      | _ \<Rightarrow> (None, k))"

lemmas object_defs = object_list_insert_def object_list_remove_def rt_object_init_def
  rt_object_detach_def rt_object_allocate_def rt_object_delete_def Let_def

section \<open>The registry invariant\<close>

text \<open>Every object is on at most one list, once, that of its class, and its name is in the form
  \<open>rt_strncpy\<close> stores: \<open>RT_NAME_MAX\<close> bytes, zero from the first zero on.\<close>

definition obj_inv :: "'a kernel_scheme \<Rightarrow> bool" where
  "obj_inv k \<longleftrightarrow> family_ok (object_list k) \<and>
     (\<forall>c b. b \<in> set (object_list k c) \<longrightarrow>
        rt_object_get_type b k = c \<and> rt_strncpy (obj_name (object k b)) RT_NAME_MAX = obj_name (object k b))"

definition unregistered :: "obj_id \<Rightarrow> 'a kernel_scheme \<Rightarrow> bool" where
  "unregistered b k \<longleftrightarrow> (\<forall>c. b \<notin> set (object_list k c))"

lemma critical_sel [simp]:
  "rt_tick (rt_enter_critical k) = rt_tick k" "timer (rt_enter_critical k) = timer k"
  "timer_row (rt_enter_critical k) = timer_row k" "object (rt_enter_critical k) = object k"
  "object_list (rt_enter_critical k) = object_list k" "thread (rt_enter_critical k) = thread k"
  "soft_timer_idle (rt_enter_critical k) = soft_timer_idle k"
  "rt_tick (rt_exit_critical k) = rt_tick k" "timer (rt_exit_critical k) = timer k"
  "timer_row (rt_exit_critical k) = timer_row k" "object (rt_exit_critical k) = object k"
  "object_list (rt_exit_critical k) = object_list k"
  "soft_timer_idle (rt_exit_critical k) = soft_timer_idle k"
  by (simp_all add: rt_enter_critical_def rt_exit_critical_def Let_def)

lemma get_information_iff: "rt_object_get_information ty = Some c \<longleftrightarrow> c = ty \<and> ty \<in> set object_classes"
  by (auto simp: rt_object_get_information_def find_Some_iff object_classes_def find_None_iff
      split: if_splits)

lemma find_loop_eq:
  "find_loop ob name bs = find (\<lambda>b. rt_strncpy (obj_name (ob b)) 8 = rt_strncpy name 8) bs"
  by (induction bs) (auto simp: rt_strncmp_zero_iff)

lemma class_type [simp]:
  "ty \<in> set object_classes \<Longrightarrow> (ty OR 0x80) AND NOT 0x80 = ty" "ty \<in> set object_classes \<Longrightarrow> ty AND NOT 0x80 = ty"
  "ty \<in> set object_classes \<Longrightarrow> (ty OR 0x80) AND - 129 = ty" "ty \<in> set object_classes \<Longrightarrow> ty AND - 129 = ty"
  by (auto simp: object_classes_def)

lemma obj_invI:
  assumes "family_ok (object_list k)"
    and "\<And>c b. b \<in> set (object_list k c) \<Longrightarrow>
      obj_type (object k b) AND NOT 0x80 = c \<and> rt_strncpy (obj_name (object k b)) 8 = obj_name (object k b)"
  shows "obj_inv k"
  using assms by (simp add: obj_inv_def rt_object_get_type_def)

lemma obj_inv_family: "obj_inv k \<Longrightarrow> family_ok (object_list k)"
  by (simp add: obj_inv_def)

lemma obj_inv_entry: "obj_inv k \<Longrightarrow> b \<in> set (object_list k c) \<Longrightarrow>
    obj_type (object k b) AND NOT 0x80 = c \<and> rt_strncpy (obj_name (object k b)) 8 = obj_name (object k b)"
  by (simp add: obj_inv_def rt_object_get_type_def)

lemma obj_inv_cong:
  "object_list k' = object_list k \<Longrightarrow> (\<And>b c. b \<in> set (object_list k c) \<Longrightarrow>
     obj_type (object k' b) = obj_type (object k b) \<and> obj_name (object k' b) = obj_name (object k b)) \<Longrightarrow>
   obj_inv k' = obj_inv k"
  by (auto simp: obj_inv_def rt_object_get_type_def)

text \<open>Registration, whatever else changes: \<open>b\<close> goes to the front of its class.\<close>

lemma obj_inv_register:
  assumes "obj_inv k" "unregistered b k" "ty \<in> set object_classes"
    and "object_list k' = (object_list k)(ty := b # object_list k ty)"
    and "\<And>x c. x \<in> set (object_list k c) \<Longrightarrow> object k' x = object k x"
    and "obj_type (object k' b) AND NOT 0x80 = ty" "obj_name (object k' b) = rt_strncpy name 8"
  shows "obj_inv k'"
proof (rule obj_invI)
  show "family_ok (object_list k')"
    using obj_inv_family [OF assms(1)] assms(2) unfolding assms(4) unregistered_def
    by (rule family_ok_push_front)
  fix c x assume x: "x \<in> set (object_list k' c)"
  show "obj_type (object k' x) AND NOT 0x80 = c \<and> rt_strncpy (obj_name (object k' x)) 8 = obj_name (object k' x)"
  proof (cases "x = b")
    case True
    then have "c = ty" using x assms(2) unfolding assms(4) unregistered_def by (auto split: if_splits)
    with True assms(6,7) show ?thesis by (simp add: rt_strncpy_idem)
  next
    case False
    then have "x \<in> set (object_list k c)" using x unfolding assms(4) by (auto split: if_splits)
    then show ?thesis using assms(5) obj_inv_entry [OF assms(1)] by auto
  qed
qed

lemma rt_object_init_inv:
  assumes "obj_inv k" "unregistered b k" "ty \<in> set object_classes"
  shows "obj_inv (rt_object_init b ty name k)"
  using assms by (intro obj_inv_register [OF assms, of _ name]) (auto simp: object_defs unregistered_def)

lemma unregistered_remove_inv:
  assumes "obj_inv k" "object_list k' = (\<lambda>c. removeAll b (object_list k c))"
    and "\<And>x. x \<noteq> b \<Longrightarrow> object k' x = object k x"
  shows "obj_inv k' \<and> unregistered b k'"
proof
  show "obj_inv k'"
  proof (rule obj_invI)
    show "family_ok (object_list k')"
      unfolding assms(2) using obj_inv_family [OF assms(1)] by (rule family_ok_remove)
    fix c x assume "x \<in> set (object_list k' c)"
    then have "x \<noteq> b" "x \<in> set (object_list k c)" by (auto simp: assms(2))
    then show "obj_type (object k' x) AND NOT 0x80 = c \<and> rt_strncpy (obj_name (object k' x)) 8 = obj_name (object k' x)"
      using assms(3) obj_inv_entry [OF assms(1)] by simp
  qed
  show "unregistered b k'" by (simp add: unregistered_def assms(2))
qed

lemma rt_object_detach_inv:
  "obj_inv k \<Longrightarrow> obj_inv (rt_object_detach b k) \<and> unregistered b (rt_object_detach b k)"
  by (erule unregistered_remove_inv) (auto simp: object_defs)

lemma rt_object_delete_inv:
  "obj_inv k \<Longrightarrow> obj_inv (rt_object_delete b k) \<and> unregistered b (rt_object_delete b k)"
  by (erule unregistered_remove_inv) (auto simp: object_defs)

lemma zero_control_block_sel [simp]:
  "object_list (zero_control_block b k) = object_list k"
  "tlist (zero_control_block b k) = tlist k"
  "rt_current_thread (zero_control_block b k) = rt_current_thread k"
  "rt_scheduler_lock_nest (zero_control_block b k) = rt_scheduler_lock_nest k"
  "timer_row (zero_control_block b k) = timer_row k"
  "rt_tick (zero_control_block b k) = rt_tick k"
  "ready_group (zero_control_block b k) = ready_group k"
  by (simp_all add: zero_control_block_def split: obj_id.split)

text \<open>A thread's timer is part of the thread: fresh memory for the thread has no registered
  timer either.\<close>

lemma rt_object_allocate_inv:
  assumes "obj_inv k" "unregistered b k" "ty \<in> set object_classes"
    and "\<And>t. b = Thread_obj t \<Longrightarrow> unregistered (Timer_obj (Thread_timer t)) k"
  shows "obj_inv (snd (rt_object_allocate (Some b) ty name k))"
proof (rule obj_inv_register [OF assms(1-3), of _ name])
  fix x c assume "x \<in> set (object_list k c)"
  with assms(2,4) show "object (snd (rt_object_allocate (Some b) ty name k)) x = object k x"
    by (cases b) (auto simp: object_defs zero_control_block_def unregistered_def)
qed (use assms(3) in \<open>auto simp: object_defs zero_object_def\<close>)

section \<open>Lookup\<close>

lemma rt_object_find_result:
  "fst (rt_object_find (Some name) ty k) =
     (if ty \<in> set object_classes
      then find (\<lambda>b. rt_strncpy (obj_name (object k b)) 8 = rt_strncpy name 8) (object_list k ty) else None)"
  by (auto simp: rt_object_find_def find_loop_eq Let_def get_information_iff split: option.split)
    (auto simp: rt_object_get_information_def find_None_iff)

lemma rt_object_init_sel [simp]:
  "object (rt_object_init b ty name k) = (object k)(b := (object k b)\<lparr>obj_type := ty OR 0x80, obj_name := rt_strncpy name 8\<rparr>)"
  "object_list (rt_object_init b ty name k) = (object_list k)(ty := b # object_list k ty)"
  "rt_tick (rt_object_init b ty name k) = rt_tick k" "timer (rt_object_init b ty name k) = timer k"
  "timer_row (rt_object_init b ty name k) = timer_row k"
  by (simp_all add: object_defs fun_eq_iff)

text \<open>The registry operations leave the scheduler's state to the critical section they open.\<close>

lemma sched_inv_object [simp]:
  "sched_inv (upd_object b f k) = sched_inv k" "sched_inv (k\<lparr>object_list := ol\<rparr>) = sched_inv k"
  "sched_inv (upd_timer x g k) = sched_inv k" "sched_inv (k\<lparr>timer_row := tr\<rparr>) = sched_inv k"
  unfolding sched_inv_def cur_inv_def
  by (simp_all add: rq_inv_cong [of "upd_object b f k" k] rq_inv_cong [of "k\<lparr>object_list := ol\<rparr>" k]
      rq_inv_cong [of "upd_timer x g k" k] rq_inv_cong [of "k\<lparr>timer_row := tr\<rparr>" k])

lemma object_sched_inv [kinv]:
  "sched_inv k \<Longrightarrow> sched_inv (rt_object_init b ty name k)"
  "sched_inv k \<Longrightarrow> sched_inv (rt_object_detach b k)"
  "sched_inv k \<Longrightarrow> sched_inv (rt_object_delete b k)"
  "sched_inv k \<Longrightarrow> sched_inv (snd (rt_object_find nm ty k))"
  by (auto simp: object_defs rt_object_find_def rt_enter_critical_inv rt_exit_critical_inv
      split: option.split prod.split)

lemma get_pointers_take:
  "0 \<le> i \<Longrightarrow> i < m \<Longrightarrow> get_pointers_loop bs i m = take (nat (m - i)) bs"
proof (induction bs i m rule: get_pointers_loop.induct)
  case (2 ob node index maxlen)
  show ?case
  proof (cases "index + 1 \<ge> maxlen")
    case True
    with 2 have "nat (maxlen - index) = 1" by simp
    with True show ?thesis by simp
  next
    case False
    with 2 have "nat (maxlen - index) = Suc (nat (maxlen - (index + 1)))" by simp
    with 2 False show ?thesis by simp
  qed
qed simp

section \<open>Properties\<close>

text \<open>
  A registered object is found under its name: after \<open>rt_object_init b ty name\<close>, looking
  up any string that agrees with \<open>name\<close> on its first \<open>RT_NAME_MAX\<close> characters in the class
  returns \<open>b\<close>, even when an older object of the class has the same name, and the registry is
  well formed again.
\<close>

theorem rt_object_find_init:
  assumes "obj_inv k" "unregistered b k" "ty \<in> set object_classes"
    and "rt_strncmp name key RT_NAME_MAX = 0"
  shows "fst (rt_object_find (Some key) ty (rt_object_init b ty name k)) = Some b
    \<and> obj_inv (rt_object_init b ty name k)"
  using assms rt_object_init_inv [OF assms(1-3)]
  by (simp add: rt_object_find_result rt_strncmp_zero_iff rt_strncpy_idem)

theorem rt_object_find_init_witness:
  "fst (rt_object_find (Some [116, 49]) 10 (rt_object_init (Timer_obj (Timer 5)) 10 [116, 49] (boot_kernel ())))
     = Some (Timer_obj (Timer 5))"
proof -
  have "obj_inv (boot_kernel ())" by (simp add: obj_inv_def family_ok_def boot_kernel_def)
  moreover have "unregistered (Timer_obj (Timer 5)) (boot_kernel ())"
    by (simp add: unregistered_def boot_kernel_def)
  ultimately show ?thesis
    using rt_object_find_init [of "boot_kernel ()" "Timer_obj (Timer 5)" 10 "[116, 49]" "[116, 49]"]
    by (simp add: object_classes_def rt_strncmp_zero_iff)
qed

text \<open>
  Lookup is sound and complete: on a well-formed registry \<open>rt_object_find\<close> returns an
  object exactly when some object of the class carries the (truncated) name, and what it returns
  is such an object; \<open>rt_object_detach\<close> takes an object out of every later lookup and keeps
  the registry well formed.
\<close>

theorem rt_object_find_sound_complete:
  assumes "obj_inv k" "ty \<in> set object_classes"
  shows "(case fst (rt_object_find (Some key) ty k) of
        Some b \<Rightarrow> b \<in> set (object_list k ty) \<and> rt_object_get_type b k = ty
          \<and> obj_name (object k b) = rt_strncpy key RT_NAME_MAX
      | None \<Rightarrow> (\<forall>b \<in> set (object_list k ty). obj_name (object k b) \<noteq> rt_strncpy key RT_NAME_MAX))
    \<and> fst (rt_object_find (Some key) ty (rt_object_detach d k)) \<noteq> Some d
    \<and> obj_inv (rt_object_detach d k)"
proof -
  have n: "rt_strncpy (obj_name (object k b)) 8 = obj_name (object k b)" if "b \<in> set (object_list k ty)" for b
    using obj_inv_entry [OF assms(1) that] by simp
  have d: "obj_inv (rt_object_detach d k)" "unregistered d (rt_object_detach d k)"
    using rt_object_detach_inv [OF assms(1)] by auto
  have "fst (rt_object_find (Some key) ty (rt_object_detach d k)) \<noteq> Some d"
    using d(2) assms(2) by (auto simp: rt_object_find_result find_Some_iff unregistered_def) (metis nth_mem)
  moreover have "case fst (rt_object_find (Some key) ty k) of
        Some b \<Rightarrow> b \<in> set (object_list k ty) \<and> rt_object_get_type b k = ty
          \<and> obj_name (object k b) = rt_strncpy key RT_NAME_MAX
      | None \<Rightarrow> (\<forall>b \<in> set (object_list k ty). obj_name (object k b) \<noteq> rt_strncpy key RT_NAME_MAX)"
    using assms n
    by (auto simp: rt_object_find_result obj_inv_def find_None_iff find_Some_iff split: option.split)
      (metis nth_mem)
  ultimately show ?thesis using d(1) by simp
qed

theorem rt_object_find_sound_complete_witness:
  "fst (rt_object_find (Some [97]) 10 (rt_object_detach (Timer_obj (Timer 5))
     (rt_object_init (Timer_obj (Timer 5)) 10 [97] (boot_kernel ())))) \<noteq> Some (Timer_obj (Timer 5))"
proof -
  let ?k = "rt_object_init (Timer_obj (Timer 5)) 10 [97] (boot_kernel ())"
  have "obj_inv ?k"
    by (rule rt_object_init_inv) (auto simp: obj_inv_def family_ok_def boot_kernel_def unregistered_def object_classes_def)
  then show ?thesis
    using rt_object_find_sound_complete [of ?k 10 "[97]" "Timer_obj (Timer 5)"]
    by (simp add: object_classes_def)
qed

end
