(* ===== verification/Thread_Switch.thy ===== *)
theory Thread_Switch
  imports Object
begin

text \<open>
  The operations of \<^verbatim>\<open>thread.c\<close> and \<^verbatim>\<open>timer.c\<close> that take a thread off the ready queues
  and put it back: \<open>rt_thread_suspend\<close>, \<open>rt_thread_resume\<close>, \<open>rt_thread_timeout\<close> and
  \<open>rt_timer_stop\<close>. They come before the rest of both files because the timer module resumes
  its own thread and the thread module stops timers. The timer part of the kernel invariant is
  stated here: it ties a thread's timer to the thread's state.
\<close>

section \<open>Operations\<close>

definition timer_remove :: "timer_id \<Rightarrow> 'a kernel_scheme \<Rightarrow> 'a kernel_scheme" where
  "timer_remove x k = k\<lparr>timer_row := (\<lambda>r. removeAll x (timer_row k r))\<rparr>"

definition timer_flag :: "'a kernel_scheme \<Rightarrow> timer_id \<Rightarrow> u8" where
  "timer_flag k x = obj_flag (object k (Timer_obj x))"

definition upd_timer_flag :: "timer_id \<Rightarrow> (u8 \<Rightarrow> u8) \<Rightarrow> 'a kernel_scheme \<Rightarrow> 'a kernel_scheme" where
  "upd_timer_flag x f = upd_object (Timer_obj x) (\<lambda>ob. ob\<lparr>obj_flag := f (obj_flag ob)\<rparr>)"

definition rt_timer_stop :: "timer_id \<Rightarrow> 'a kernel_scheme \<Rightarrow> rt_err \<times> 'a kernel_scheme" where
  "rt_timer_stop x k =
     (if timer_flag k x AND RT_TIMER_FLAG_ACTIVATED = 0 then (- RT_ERROR, k)
      else (RT_EOK, upd_timer_flag x (\<lambda>f. f AND NOT RT_TIMER_FLAG_ACTIVATED) (timer_remove x k)))"

definition rt_thread_suspend :: "tid \<Rightarrow> 'a kernel_scheme \<Rightarrow> rt_err \<times> 'a kernel_scheme" where
  "rt_thread_suspend t k =
     (if tstat k t \<noteq> RT_THREAD_READY \<and> tstat k t \<noteq> RT_THREAD_RUNNING then (- RT_ERROR, k)
      else
        let k = rt_schedule_remove_thread t k;
            k = set_stat t RT_THREAD_SUSPEND k;
            k = snd (rt_timer_stop (Thread_timer t) k)
        in (RT_EOK, k))"

definition rt_thread_resume :: "tid \<Rightarrow> 'a kernel_scheme \<Rightarrow> rt_err \<times> 'a kernel_scheme" where
  "rt_thread_resume t k =
     (if tstat k t \<noteq> RT_THREAD_SUSPEND then (- RT_ERROR, k)
      else
        let k = tlist_remove t k;
            k = snd (rt_timer_stop (Thread_timer t) k);
            k = rt_schedule_insert_thread t k
        in (RT_EOK, k))"

definition rt_thread_timeout :: "tid \<Rightarrow> 'a kernel_scheme \<Rightarrow> 'a kernel_scheme" where
  "rt_thread_timeout t k =
     (let k = upd_thread t (\<lambda>th. th\<lparr>error := - RT_ETIMEOUT\<rparr>) k;
          k = tlist_remove t k;
          k = rt_schedule_insert_thread t k
      in rt_schedule k)"

section \<open>The invariant\<close>

definition thread_timer_ok :: "'a kernel_scheme \<Rightarrow> tid \<Rightarrow> bool" where
  "thread_timer_ok k t \<longleftrightarrow>
     (tstat k t \<noteq> RT_THREAD_INIT \<longrightarrow> timeout_func (timer k (Thread_timer t)) = Rt_thread_timeout t)
     \<and> timer_flag k (Thread_timer t) AND RT_TIMER_FLAG_PERIODIC = 0
     \<and> timer_flag k (Thread_timer t) AND RT_TIMER_FLAG_SOFT_TIMER = 0"

text \<open>Timer lists: no timer is on two of them; a timer on a list is marked activated and is on
  the list of its kind; a thread's own timer is a hard one-shot timer that runs only while the
  thread is suspended, and nothing else calls \<open>rt_thread_timeout\<close> for it.\<close>

definition timer_inv :: "'a kernel_scheme \<Rightarrow> bool" where
  "timer_inv k \<longleftrightarrow> family_ok (timer_row k)
     \<and> (\<forall>x. x \<in> set (timer_row k Hard) \<or> x \<in> set (timer_row k Soft) \<longrightarrow> timer_flag k x AND 1 \<noteq> 0)
     \<and> (\<forall>t. Thread_timer t \<in> set (timer_row k Hard) \<longrightarrow> tstat k t = RT_THREAD_SUSPEND)
     \<and> (\<forall>t. thread_timer_ok k t)
     \<and> (\<forall>t r. Thread_timer t \<in> set (timer_row k r) \<longrightarrow> tstat k t \<noteq> RT_THREAD_INIT)
     \<and> (\<forall>x t. timeout_func (timer k x) = Rt_thread_timeout t \<longrightarrow> x = Thread_timer t)
     \<and> (\<forall>x \<in> set (timer_row k Hard). timer_flag k x AND RT_TIMER_FLAG_SOFT_TIMER = 0)
     \<and> (\<forall>x \<in> set (timer_row k Soft). timer_flag k x AND RT_TIMER_FLAG_SOFT_TIMER \<noteq> 0)"

definition kernel_inv :: "'a kernel_scheme \<Rightarrow> bool" where
  "kernel_inv k \<longleftrightarrow> sched_inv k \<and> timer_inv k"

lemma timer_invI:
  assumes "family_ok (timer_row k)"
    and "\<And>x. x \<in> set (timer_row k Hard) \<Longrightarrow> timer_flag k x AND 1 \<noteq> 0"
    and "\<And>x. x \<in> set (timer_row k Soft) \<Longrightarrow> timer_flag k x AND 1 \<noteq> 0"
    and "\<And>t. Thread_timer t \<in> set (timer_row k Hard) \<Longrightarrow> tstat k t = RT_THREAD_SUSPEND"
    and "\<And>t. thread_timer_ok k t"
    and "\<And>t r. Thread_timer t \<in> set (timer_row k r) \<Longrightarrow> tstat k t \<noteq> RT_THREAD_INIT"
    and "\<And>x t. timeout_func (timer k x) = Rt_thread_timeout t \<Longrightarrow> x = Thread_timer t"
    and "\<And>x. x \<in> set (timer_row k Hard) \<Longrightarrow> timer_flag k x AND 4 = 0"
    and "\<And>x. x \<in> set (timer_row k Soft) \<Longrightarrow> timer_flag k x AND 4 \<noteq> 0"
  shows "timer_inv k"
  using assms unfolding timer_inv_def by blast

lemma timer_invD:
  assumes "timer_inv k"
  shows "family_ok (timer_row k)"
    "x \<in> set (timer_row k Hard) \<Longrightarrow> timer_flag k x AND 1 \<noteq> 0"
    "x \<in> set (timer_row k Soft) \<Longrightarrow> timer_flag k x AND 1 \<noteq> 0"
    "Thread_timer t \<in> set (timer_row k Hard) \<Longrightarrow> tstat k t = RT_THREAD_SUSPEND"
    "thread_timer_ok k t"
    "Thread_timer t \<in> set (timer_row k r) \<Longrightarrow> tstat k t \<noteq> RT_THREAD_INIT"
    "timeout_func (timer k x) = Rt_thread_timeout t \<Longrightarrow> x = Thread_timer t"
    "x \<in> set (timer_row k Hard) \<Longrightarrow> timer_flag k x AND 4 = 0"
    "x \<in> set (timer_row k Soft) \<Longrightarrow> timer_flag k x AND 4 \<noteq> 0"
  using assms unfolding timer_inv_def by blast+

lemma timer_remove_sel [simp]:
  "timer_row (timer_remove x k) = (\<lambda>r. removeAll x (timer_row k r))"
  "thread (timer_remove x k) = thread k" "tlist (timer_remove x k) = tlist k"
  "ready_group (timer_remove x k) = ready_group k"
  "rt_current_thread (timer_remove x k) = rt_current_thread k" "rt_tick (timer_remove x k) = rt_tick k"
  "rt_scheduler_lock_nest (timer_remove x k) = rt_scheduler_lock_nest k"
  "timer (timer_remove x k) = timer k" "object (timer_remove x k) = object k"
  "object_list (timer_remove x k) = object_list k" "soft_timer_idle (timer_remove x k) = soft_timer_idle k"
  "tstat (timer_remove x k) = tstat k" "prio (timer_remove x k) = prio k"
  "timer_flag (timer_remove x k) = timer_flag k"
  "kernel.more (timer_remove x k) = kernel.more k"
  by (simp_all add: timer_remove_def timer_flag_def fun_eq_iff)

lemma upd_timer_flag_sel [simp]:
  "timer_flag (upd_timer_flag x f k) = (timer_flag k)(x := f (timer_flag k x))"
  "timer_row (upd_timer_flag x f k) = timer_row k"
  "thread (upd_timer_flag x f k) = thread k" "tlist (upd_timer_flag x f k) = tlist k"
  "ready_group (upd_timer_flag x f k) = ready_group k"
  "rt_current_thread (upd_timer_flag x f k) = rt_current_thread k" "rt_tick (upd_timer_flag x f k) = rt_tick k"
  "rt_scheduler_lock_nest (upd_timer_flag x f k) = rt_scheduler_lock_nest k"
  "timer (upd_timer_flag x f k) = timer k"
  "object_list (upd_timer_flag x f k) = object_list k" "soft_timer_idle (upd_timer_flag x f k) = soft_timer_idle k"
  "tstat (upd_timer_flag x f k) = tstat k" "prio (upd_timer_flag x f k) = prio k"
  "obj_type (object (upd_timer_flag x f k) b) = obj_type (object k b)"
  "obj_name (object (upd_timer_flag x f k) b) = obj_name (object k b)"
  "kernel.more (upd_timer_flag x f k) = kernel.more k"
  "sched_inv (upd_timer_flag x f k) = sched_inv k"
  by (auto simp: upd_timer_flag_def timer_flag_def fun_eq_iff) (auto simp: upd_object_def)

lemma timer_flag_cong [simp]:
  "timer_flag (upd_thread t f k) = timer_flag k" "timer_flag (set_stat t s k) = timer_flag k"
  "timer_flag (tlist_remove t k) = timer_flag k" "timer_flag (tlist_push_back l t k) = timer_flag k"
  "timer_flag (tlist_push_front l t k) = timer_flag k" "timer_flag (upd_timer x g k) = timer_flag k"
  "timer_flag (rt_schedule_insert_thread t k) = timer_flag k"
  "timer_flag (rt_schedule_remove_thread t k) = timer_flag k" "timer_flag (rt_schedule k) = timer_flag k"
  by (simp_all add: timer_flag_def fun_eq_iff)

lemma and_not_1 [simp]: "(f AND NOT 1) AND 1 = (0 :: u8)" "(f AND - 2) AND 1 = (0 :: u8)"
  "(f AND NOT 1) AND 2 = f AND (2 :: u8)" "(f AND - 2) AND 2 = f AND (2 :: u8)"
  "(f AND NOT 1) AND 4 = f AND (4 :: u8)" "(f AND - 2) AND 4 = f AND (4 :: u8)"
  by (simp_all add: and.assoc)

lemma or_1 [simp]: "(f OR 1) AND 1 = (1 :: u8)" "(f OR 1) AND 2 = f AND (2 :: u8)"
  "(f OR 1) AND 4 = f AND (4 :: u8)"
  by (simp_all add: word_ao_dist)

lemma sched_inv_timer_remove [simp]: "sched_inv (timer_remove x k) = sched_inv k"
  by (simp add: timer_remove_def)

section \<open>Stopping a timer\<close>

lemma rt_timer_stop_sel [simp]:
  "thread (snd (rt_timer_stop x k)) = thread k" "tlist (snd (rt_timer_stop x k)) = tlist k"
  "ready_group (snd (rt_timer_stop x k)) = ready_group k"
  "rt_current_thread (snd (rt_timer_stop x k)) = rt_current_thread k"
  "rt_tick (snd (rt_timer_stop x k)) = rt_tick k"
  "rt_scheduler_lock_nest (snd (rt_timer_stop x k)) = rt_scheduler_lock_nest k"
  "timer (snd (rt_timer_stop x k)) = timer k"
  "object_list (snd (rt_timer_stop x k)) = object_list k"
  "soft_timer_idle (snd (rt_timer_stop x k)) = soft_timer_idle k"
  "tstat (snd (rt_timer_stop x k)) = tstat k" "prio (snd (rt_timer_stop x k)) = prio k"
  "kernel.more (snd (rt_timer_stop x k)) = kernel.more k"
  "sched_inv (snd (rt_timer_stop x k)) = sched_inv k"
  by (simp_all add: rt_timer_stop_def)

lemma rt_timer_stop_flag:
  "timer_flag (snd (rt_timer_stop x k)) = (timer_flag k)(x := timer_flag k x AND NOT 1)"
proof -
  have "timer_flag k x AND NOT 1 = timer_flag k x" if "timer_flag k x AND 1 = 0"
  proof -
    have "(timer_flag k x AND 1) OR (timer_flag k x AND NOT 1) = timer_flag k x AND (1 OR NOT 1)"
      by (rule bit.conj_disj_distrib [symmetric])
    with that show ?thesis by simp
  qed
  then show ?thesis by (auto simp: rt_timer_stop_def fun_eq_iff)
qed

lemma rt_timer_stop_row:
  assumes "timer_inv k" "x \<notin> set (timer_row k Hard_firing)" "x \<notin> set (timer_row k Soft_firing)"
  shows "timer_row (snd (rt_timer_stop x k)) = (\<lambda>r. removeAll x (timer_row k r))"
proof -
  have "x \<notin> set (timer_row k r)" if "timer_flag k x AND 1 = 0" for r
    using that assms timer_invD(2,3) [OF assms(1), of x] by (cases r) auto
  then show ?thesis by (auto simp: rt_timer_stop_def fun_eq_iff)
qed

lemma rt_timer_stop_notin:
  assumes "timer_inv k"
  shows "x \<notin> set (timer_row (snd (rt_timer_stop x k)) Hard)" "x \<notin> set (timer_row (snd (rt_timer_stop x k)) Soft)"
  using timer_invD(2,3) [OF assms, of x] by (auto simp: rt_timer_stop_def)

lemma timer_row_stop_subset:
  "y \<in> set (timer_row (snd (rt_timer_stop x k)) r) \<Longrightarrow> y \<in> set (timer_row k r)"
  "y \<noteq> x \<Longrightarrow> y \<in> set (timer_row k r) \<Longrightarrow> y \<in> set (timer_row (snd (rt_timer_stop x k)) r)"
  by (auto simp: rt_timer_stop_def split: if_splits)

lemma rt_timer_stop_family: "family_ok (timer_row k) \<Longrightarrow> family_ok (timer_row (snd (rt_timer_stop x k)))"
  by (simp add: rt_timer_stop_def family_ok_remove)

lemma thread_timer_ok_stop [simp]: "thread_timer_ok (snd (rt_timer_stop x k)) t = thread_timer_ok k t"
  by (simp add: thread_timer_ok_def rt_timer_stop_flag)

text \<open>Stopping a timer, while threads other than its own may have changed state meanwhile.\<close>

lemma timer_inv_stop [kinv]: "timer_inv k \<Longrightarrow> timer_inv (snd (rt_timer_stop x k))"
proof (rule timer_invI)
  let ?k = "snd (rt_timer_stop x k)"
  assume k: "timer_inv k"
  show "family_ok (timer_row ?k)" using timer_invD(1) [OF k] by (rule rt_timer_stop_family)
  show "timer_flag ?k y AND 1 \<noteq> 0" if "y \<in> set (timer_row ?k Hard)" for y
    using that rt_timer_stop_notin(1) [OF k, of x] timer_invD(2) [OF k] timer_row_stop_subset(1) [of y x k]
    by (auto simp: rt_timer_stop_flag)
  show "timer_flag ?k y AND 1 \<noteq> 0" if "y \<in> set (timer_row ?k Soft)" for y
    using that rt_timer_stop_notin(2) [OF k, of x] timer_invD(3) [OF k] timer_row_stop_subset(1) [of y x k]
    by (auto simp: rt_timer_stop_flag)
  show "tstat ?k t = 2" if "Thread_timer t \<in> set (timer_row ?k Hard)" for t
    using that timer_invD(4) [OF k] timer_row_stop_subset(1) by fastforce
  show "thread_timer_ok ?k t" for t using timer_invD(5) [OF k] by simp
  show "tstat ?k t \<noteq> 0" if "Thread_timer t \<in> set (timer_row ?k r)" for t r
    using that timer_invD(6) [OF k] timer_row_stop_subset(1) by fastforce
  show "y = Thread_timer t" if "timeout_func (timer ?k y) = Rt_thread_timeout t" for y t
    using that timer_invD(7) [OF k] by simp
  show "timer_flag ?k y AND 4 = 0" if "y \<in> set (timer_row ?k Hard)" for y
    using timer_invD(8) [OF k] timer_row_stop_subset(1) [OF that] by (auto simp: rt_timer_stop_flag)
  show "timer_flag ?k y AND 4 \<noteq> 0" if "y \<in> set (timer_row ?k Soft)" for y
    using timer_invD(9) [OF k] timer_row_stop_subset(1) [OF that] by (auto simp: rt_timer_stop_flag)
qed

text \<open>A change of thread states keeps the timer invariant when no thread leaves the initial
  state without a timer, none returns to it, and a thread whose timer runs stays suspended.\<close>

lemma timer_inv_tstat:
  assumes "timer_inv k"
    and "timer_row k' = timer_row k" "timer k' = timer k" "timer_flag k' = timer_flag k"
    and "\<And>t. tstat k' t = tstat k t \<or>
      tstat k t \<noteq> 0 \<and> tstat k' t \<noteq> 0 \<and> Thread_timer t \<notin> set (timer_row k Hard)"
  shows "timer_inv k'"
proof (rule timer_invI)
  show "thread_timer_ok k' t" for t
    using assms(3,4) assms(5) [of t] timer_invD(5) [OF assms(1), of t] by (auto simp: thread_timer_ok_def)
  show "tstat k' t = 2" if "Thread_timer t \<in> set (timer_row k' Hard)" for t
    using that assms(2,5) timer_invD(4) [OF assms(1), of t] by metis
  show "tstat k' t \<noteq> 0" if "Thread_timer t \<in> set (timer_row k' r)" for t r
    using that assms(2,5) timer_invD(6) [OF assms(1), of t r] by metis
qed (use assms(2-4) timer_invD(1-3,7-9) [OF assms(1)] in auto)

section \<open>Suspend, resume, time out\<close>

lemma rq_inv_tlist_remove:
  assumes "rq_inv k" "tstat k t \<noteq> 1"
  shows "rq_inv (tlist_remove t k)"
proof -
  have "t \<notin> set (tlist k (Ready p))" for p using assms rq_ready_prio [OF assms(1), of t p] by auto
  then have r: "tlist (tlist_remove t k) (Ready p) = tlist k (Ready p)" for p by simp
  show ?thesis
  proof (rule rq_invI)
    show "lists_ok (tlist_remove t k)"
      using rq_lists [OF assms(1)] by (simp add: lists_ok_def family_ok_remove)
  qed (use assms r rq_waiting [OF assms(1)] rq_ready_prio [OF assms(1)] rq_readyD [OF assms(1)]
      rq_group [OF assms(1)] rq_mask [OF assms(1)] in auto)
qed

lemma sched_inv_tlist_remove: "sched_inv k \<Longrightarrow> tstat k t \<noteq> 1 \<Longrightarrow> sched_inv (tlist_remove t k)"
  by (simp add: sched_inv_def rq_inv_tlist_remove cur_inv_def)

lemma sched_inv_remove_stat:
  assumes "sched_inv k" "tstat k t \<noteq> 0" "tstat k t \<noteq> 4" "s \<in> {2, 4}"
  shows "sched_inv (set_stat t s (rt_schedule_remove_thread t k))"
proof -
  have rq: "rq_inv k" and ci: "cur_inv k" using assms(1) by (auto simp: sched_inv_def)
  have m: "mask_ok k t" using rq_mask [OF rq assms(2,3)] .
  have "rq_inv (set_stat t s (rt_schedule_remove_thread t k))"
    unfolding set_stat_def using assms(4) by (intro rq_inv_remove [OF rq m]) auto
  moreover have "cur_inv (set_stat t s (rt_schedule_remove_thread t k))"
    using ci assms(4) unfolding cur_inv_def by (auto split: if_splits)
  ultimately show ?thesis by (simp add: sched_inv_def)
qed

text \<open>\<open>kernel_inv\<close> of a state that differs from \<open>k\<close> in fields the invariant does not
  read.\<close>

lemma sched_inv_cong:
  assumes "tlist k' = tlist k" "ready_group k' = ready_group k" "tstat k' = tstat k"
    "prio k' = prio k" "\<And>t. number_mask (thread k' t) = number_mask (thread k t)"
    "rt_current_thread k' = rt_current_thread k"
  shows "sched_inv k' = sched_inv k"
  unfolding sched_inv_def cur_inv_def using assms rq_inv_cong [of k' k] by simp

lemma timer_inv_cong:
  assumes "timer_inv k" "timer_row k' = timer_row k" "timer k' = timer k" "timer_flag k' = timer_flag k"
    "tstat k' = tstat k"
  shows "timer_inv k'"
  by (rule timer_inv_tstat [OF assms(1-4)]) (simp add: assms(5))

lemma rt_thread_suspend_inv [kinv]:
  assumes "kernel_inv k"
  shows "kernel_inv (snd (rt_thread_suspend t k))"
proof (cases "tstat k t = 1 \<or> tstat k t = 3")
  case False
  then show ?thesis using assms by (simp add: rt_thread_suspend_def)
next
  case True
  have k: "sched_inv k" "timer_inv k" using assms by (auto simp: kernel_inv_def)
  have n: "Thread_timer t \<notin> set (timer_row k Hard)" using timer_invD(4) [OF k(2), of t] True by auto
  have "sched_inv (set_stat t 2 (rt_schedule_remove_thread t k))"
    using k(1) True by (intro sched_inv_remove_stat) auto
  moreover have "timer_inv (set_stat t 2 (rt_schedule_remove_thread t k))"
    using True n by (intro timer_inv_tstat [OF k(2)]) auto
  ultimately show ?thesis
    using True by (auto simp: rt_thread_suspend_def Let_def kernel_inv_def timer_inv_stop)
qed

lemma rt_thread_suspend_effect:
  assumes "tstat k t = 1 \<or> tstat k t = 3"
  shows "fst (rt_thread_suspend t k) = 0" "tstat (snd (rt_thread_suspend t k)) = (tstat k)(t := 2)"
    "tlist (snd (rt_thread_suspend t k)) = (\<lambda>l. removeAll t (tlist k l))"
  using assms by (auto simp: rt_thread_suspend_def Let_def)

lemma rt_thread_resume_inv [kinv]:
  assumes "kernel_inv k"
  shows "kernel_inv (snd (rt_thread_resume t k))"
proof (cases "tstat k t = 2")
  case False
  then show ?thesis using assms by (simp add: rt_thread_resume_def)
next
  case True
  have k: "sched_inv k" "timer_inv k" using assms by (auto simp: kernel_inv_def)
  let ?k = "snd (rt_timer_stop (Thread_timer t) (tlist_remove t k))"
  have s: "sched_inv ?k" using k(1) True by (simp add: sched_inv_tlist_remove)
  have "timer_inv (tlist_remove t k)" by (rule timer_inv_cong [OF k(2)]) simp_all
  then have ti: "timer_inv ?k" and n: "Thread_timer t \<notin> set (timer_row ?k Hard)"
    by (simp_all add: timer_inv_stop rt_timer_stop_notin)
  have "mask_ok k t" using rq_mask [of k t] k(1) True by (simp add: sched_inv_def)
  then have m: "mask_ok ?k t" "unlinked ?k t" by (auto simp: mask_ok_def unlinked_def)
  have "sched_inv (rt_schedule_insert_thread t ?k)" by (rule sched_inv_insert [OF s m(2,1)])
  moreover have "timer_inv (rt_schedule_insert_thread t ?k)"
    using True n by (intro timer_inv_tstat [OF ti]) (auto simp: tstat_insert)
  ultimately show ?thesis using True by (simp add: rt_thread_resume_def Let_def kernel_inv_def)
qed

lemma rt_thread_resume_effect:
  assumes "tstat k t = 2"
  shows "fst (rt_thread_resume t k) = 0"
    "tstat (snd (rt_thread_resume t k)) = (tstat k)(t := if rt_current_thread k = Some t then 3 else 1)"
    "prio (snd (rt_thread_resume t k)) = prio k"
    "rt_current_thread (snd (rt_thread_resume t k)) = rt_current_thread k"
  using assms by (auto simp: rt_thread_resume_def Let_def tstat_insert)

lemma rt_schedule_kernel_inv [kinv]:
  assumes "kernel_inv k"
  shows "kernel_inv (rt_schedule k)"
proof -
  have k: "sched_inv k" "timer_inv k" using assms by (auto simp: kernel_inv_def)
  have "timer_inv (rt_schedule k)"
  proof (rule timer_inv_tstat [OF k(2)])
    fix t
    show "tstat (rt_schedule k) t = tstat k t \<or>
      tstat k t \<noteq> 0 \<and> tstat (rt_schedule k) t \<noteq> 0 \<and> Thread_timer t \<notin> set (timer_row k Hard)"
      using rt_schedule_tstat [OF k(1), of t] timer_invD(4) [OF k(2), of t] by auto
  qed simp_all
  then show ?thesis using k(1) by (simp add: kernel_inv_def sched_inv_schedule)
qed

text \<open>\<open>rt_thread_timeout\<close> is called for a suspended thread whose timer has just been taken
  off its list.\<close>

lemma timeout_insert_inv:
  assumes "kernel_inv k" "tstat k t = 2" "Thread_timer t \<notin> set (timer_row k Hard)"
  shows "kernel_inv (rt_schedule_insert_thread t (tlist_remove t (upd_thread t (\<lambda>th. th\<lparr>error := - RT_ETIMEOUT\<rparr>) k)))"
proof -
  have k: "sched_inv k" "timer_inv k" using assms(1) by (auto simp: kernel_inv_def)
  let ?k = "upd_thread t (\<lambda>th. th\<lparr>error := - RT_ETIMEOUT\<rparr>) k"
  have t: "tstat ?k = tstat k" "prio ?k = prio k" by (auto simp: tstat_def prio_def fun_eq_iff)
  have s: "sched_inv ?k" using k(1) by (subst sched_inv_cong [of _ k]) (auto simp: t simp del: tstat_upd_thread prio_upd_thread)
  have s': "sched_inv (tlist_remove t ?k)" using s assms(2) by (intro sched_inv_tlist_remove) (simp_all add: t del: tstat_upd_thread)
  have "mask_ok k t" using rq_mask [of k t] k(1) assms(2) by (simp add: sched_inv_def)
  then have m: "mask_ok (tlist_remove t ?k) t" "unlinked (tlist_remove t ?k) t"
    by (auto simp: mask_ok_def prio_def)
  have "sched_inv (rt_schedule_insert_thread t (tlist_remove t ?k))" by (rule sched_inv_insert [OF s' m(2,1)])
  moreover have "timer_inv (rt_schedule_insert_thread t (tlist_remove t ?k))"
    using assms(2,3) by (intro timer_inv_tstat [OF k(2)]) (auto simp: tstat_insert tstat_def)
  ultimately show ?thesis by (simp add: kernel_inv_def)
qed

lemma rt_thread_timeout_inv [kinv]:
  assumes "kernel_inv k" "tstat k t = 2" "Thread_timer t \<notin> set (timer_row k Hard)"
  shows "kernel_inv (rt_thread_timeout t k)"
  using timeout_insert_inv [OF assms] by (simp add: rt_thread_timeout_def Let_def rt_schedule_kernel_inv)

text \<open>The thread that timed out is ready or running with error \<open>-RT_ETIMEOUT\<close>; the others
  at most change between ready and running.\<close>

lemma rt_thread_timeout_effect:
  assumes "kernel_inv k" "tstat k t = 2" "Thread_timer t \<notin> set (timer_row k Hard)"
  shows "tstat (rt_thread_timeout t k) t \<in> {1, 3}" "error (thread (rt_thread_timeout t k) t) = - RT_ETIMEOUT"
    "u \<noteq> t \<Longrightarrow> tstat (rt_thread_timeout t k) u = tstat k u \<or> tstat k u \<in> {1, 3} \<and> tstat (rt_thread_timeout t k) u \<in> {1, 3}"
    "u \<noteq> t \<Longrightarrow> error (thread (rt_thread_timeout t k) u) = error (thread k u)"
proof -
  let ?k = "rt_schedule_insert_thread t (tlist_remove t (upd_thread t (\<lambda>th. th\<lparr>error := - RT_ETIMEOUT\<rparr>) k))"
  have i: "sched_inv ?k" using timeout_insert_inv [OF assms] by (simp add: kernel_inv_def)
  have e: "rt_thread_timeout t k = rt_schedule ?k" by (simp add: rt_thread_timeout_def Let_def)
  have er: "error (thread ?k u) = (if u = t then - RT_ETIMEOUT else error (thread k u))" for u
    using insert_thread_stat_only [of t "tlist_remove t (upd_thread t (\<lambda>th. th\<lparr>error := - RT_ETIMEOUT\<rparr>) k)" u] by auto
  have ts: "tstat ?k u = (if u = t then if rt_current_thread k = Some t then 3 else 1 else tstat k u)" for u
    by (simp add: tstat_insert tstat_def)
  show "tstat (rt_thread_timeout t k) t \<in> {1, 3}" using rt_schedule_tstat [OF i, of t] ts [of t] unfolding e by (auto split: if_splits)
  show "error (thread (rt_thread_timeout t k) t) = - RT_ETIMEOUT" unfolding e by (simp add: er)
  show "tstat (rt_thread_timeout t k) u = tstat k u \<or> tstat k u \<in> {1, 3} \<and> tstat (rt_thread_timeout t k) u \<in> {1, 3}" if "u \<noteq> t"
    using rt_schedule_tstat [OF i, of u] ts [of u] that unfolding e by auto
  show "error (thread (rt_thread_timeout t k) u) = error (thread k u)" if "u \<noteq> t" using that unfolding e by (simp add: er)
qed

end
