(* ===== verification/Timer.thy ===== *)
theory Timer
  imports Thread_Switch
begin

text \<open>
  The timers of \<^verbatim>\<open>rt-thread/src/timer.c\<close>: sorted lists of timers whose deadlines are
  compared by the difference of 32-bit ticks, so that they survive the wrap-around of the tick
  counter. In the board's configuration the skip list has one level, so a list is one row. Hard
  timers run their callback in the tick interrupt (\<open>rt_timer_check\<close>), soft timers in the
  timer thread (\<open>rt_soft_timer_check\<close>). A user callback is a parameter \<open>cb\<close>; the local list
  that holds a timer while its callback runs is the row \<open>Hard_firing\<close> or \<open>Soft_firing\<close>.
  The timer checks are \<open>partial_function\<close>s: a loop that does not end has the value
  \<open>None\<close>.
\<close>

section \<open>Operations\<close>

type_synonym 'a callback = "nat \<Rightarrow> 'a kernel_scheme \<Rightarrow> 'a kernel_scheme"

text \<open>The address of \<^verbatim>\<open>_timer_thread\<close>.\<close>

definition timer_thread :: tid where "timer_thread = 100"

definition timer_init :: "timer_id \<Rightarrow> timeout_fn \<Rightarrow> u32 \<Rightarrow> u8 \<Rightarrow> 'a kernel_scheme \<Rightarrow> 'a kernel_scheme" where
  "timer_init x timeout time flag k =
     (let k = upd_timer_flag x (\<lambda>_. flag AND NOT RT_TIMER_FLAG_ACTIVATED) k
      in upd_timer x (\<lambda>_. \<lparr>timeout_func = timeout, timer_init_tick = time, timeout_tick = 0\<rparr>) k)"

definition timer_list_next_timeout :: "row_id \<Rightarrow> 'a kernel_scheme \<Rightarrow> u32" where
  "timer_list_next_timeout r k =
     (case timer_row k r of [] \<Rightarrow> RT_TICK_MAX | x # _ \<Rightarrow> timeout_tick (timer k x))"

definition rt_timer_init :: "timer_id \<Rightarrow> cstring \<Rightarrow> timeout_fn \<Rightarrow> u32 \<Rightarrow> u8 \<Rightarrow> 'a kernel_scheme \<Rightarrow> 'a kernel_scheme" where
  "rt_timer_init x name timeout time flag k =
     timer_init x timeout time flag (rt_object_init (Timer_obj x) RT_Object_Class_Timer name k)"

definition rt_timer_detach :: "timer_id \<Rightarrow> 'a kernel_scheme \<Rightarrow> 'a kernel_scheme" where
  "rt_timer_detach x k =
     rt_object_detach (Timer_obj x) (upd_timer_flag x (\<lambda>f. f AND NOT RT_TIMER_FLAG_ACTIVATED) (timer_remove x k))"

definition rt_timer_create :: "obj_id option \<Rightarrow> cstring \<Rightarrow> timeout_fn \<Rightarrow> u32 \<Rightarrow> u8 \<Rightarrow> 'a kernel_scheme \<Rightarrow>
    timer_id option \<times> 'a kernel_scheme" where
  "rt_timer_create mem name timeout time flag k =
     (case rt_object_allocate mem RT_Object_Class_Timer name k of
        (Some (Timer_obj x), k) \<Rightarrow> (Some x, timer_init x timeout time flag k)
      | (_, k) \<Rightarrow> (None, k))"

definition rt_timer_delete :: "timer_id \<Rightarrow> 'a kernel_scheme \<Rightarrow> 'a kernel_scheme" where
  "rt_timer_delete x k =
     rt_object_delete (Timer_obj x) (upd_timer_flag x (\<lambda>f. f AND NOT RT_TIMER_FLAG_ACTIVATED) (timer_remove x k))"

text \<open>The search loop of \<open>rt_timer_start\<close>: skip every timer that is not later.\<close>

fun timer_insert :: "(timer_id \<Rightarrow> rt_timer) \<Rightarrow> timer_id \<Rightarrow> timer_id list \<Rightarrow> timer_id list" where
  "timer_insert tm x [] = [x]"
| "timer_insert tm x (t # ts) =
     (let d = timeout_tick (tm t) - timeout_tick (tm x)
      in if d = 0 then t # timer_insert tm x ts
         else if d < RT_TICK_HALF then x # t # ts
         else t # timer_insert tm x ts)"

definition timer_enqueue :: "timer_id \<Rightarrow> 'a kernel_scheme \<Rightarrow> 'a kernel_scheme" where
  "timer_enqueue x k =
     (let k = timer_remove x k;
          k = upd_timer_flag x (\<lambda>f. f AND NOT RT_TIMER_FLAG_ACTIVATED) k;
          k = upd_timer x (\<lambda>tm. tm\<lparr>timeout_tick := rt_tick k + timer_init_tick tm\<rparr>) k;
          r = (if timer_flag k x AND RT_TIMER_FLAG_SOFT_TIMER \<noteq> 0 then Soft else Hard);
          k = k\<lparr>random_nr := random_nr k + 1\<rparr>;
          k = k\<lparr>timer_row := (timer_row k)(r := timer_insert (timer k) x (timer_row k r))\<rparr>
      in upd_timer_flag x (\<lambda>f. f OR RT_TIMER_FLAG_ACTIVATED) k)"

definition rt_timer_start :: "timer_id \<Rightarrow> 'a kernel_scheme \<Rightarrow> 'a kernel_scheme" where
  "rt_timer_start x k =
     (let k = timer_enqueue x k
      in if timer_flag k x AND RT_TIMER_FLAG_SOFT_TIMER \<noteq> 0 \<and> soft_timer_idle k
            \<and> tstat k timer_thread = RT_THREAD_SUSPEND
         then rt_schedule (snd (rt_thread_resume timer_thread k))
         else k)"

text \<open>\<open>arg\<close> is the tick the caller's pointer refers to; its new value is returned.\<close>

definition rt_timer_control :: "timer_id \<Rightarrow> nat \<Rightarrow> u32 \<Rightarrow> 'a kernel_scheme \<Rightarrow> u32 \<times> 'a kernel_scheme" where
  "rt_timer_control x cmd arg k =
     (if cmd = 1 then (timer_init_tick (timer k x), k)
      else if cmd = 0 then (arg, upd_timer x (\<lambda>tm. tm\<lparr>timer_init_tick := arg\<rparr>) k)
      else if cmd = 2 then (arg, upd_timer_flag x (\<lambda>f. f AND NOT RT_TIMER_FLAG_PERIODIC) k)
      else if cmd = 3 then (arg, upd_timer_flag x (\<lambda>f. f OR RT_TIMER_FLAG_PERIODIC) k)
      else if cmd = 4 then (if timer_flag k x AND RT_TIMER_FLAG_ACTIVATED \<noteq> 0 then 1 else 0, k)
      else (arg, k))"

definition timer_call :: "'a callback \<Rightarrow> timer_id \<Rightarrow> 'a kernel_scheme \<Rightarrow> 'a kernel_scheme" where
  "timer_call cb x k =
     (case timeout_func (timer k x) of Rt_thread_timeout t \<Rightarrow> rt_thread_timeout t k | User_timeout n \<Rightarrow> cb n k)"

text \<open>The body of both check loops for an expired timer \<open>x\<close>: take it off its list, hold it
  on the local list while \<open>run\<close> calls the callback, and restart it if it is periodic and the
  callback has neither stopped nor restarted it.\<close>

definition timer_expire :: "row_id \<Rightarrow> ('a kernel_scheme \<Rightarrow> 'a kernel_scheme) \<Rightarrow> timer_id \<Rightarrow> 'a kernel_scheme \<Rightarrow> 'a kernel_scheme" where
  "timer_expire firing run x k =
     (let k = timer_remove x k;
          k = (if timer_flag k x AND RT_TIMER_FLAG_PERIODIC = 0
               then upd_timer_flag x (\<lambda>f. f AND NOT RT_TIMER_FLAG_ACTIVATED) k else k);
          k = k\<lparr>timer_row := (timer_row k)(firing := x # timer_row k firing)\<rparr>;
          k = run k
      in if timer_row k firing = [] then k
         else
           let k = timer_remove x k
           in if timer_flag k x AND RT_TIMER_FLAG_PERIODIC \<noteq> 0 \<and> timer_flag k x AND RT_TIMER_FLAG_ACTIVATED \<noteq> 0
              then rt_timer_start x (upd_timer_flag x (\<lambda>f. f AND NOT RT_TIMER_FLAG_ACTIVATED) k)
              else k)"

partial_function (option) timer_check_loop :: "'a callback \<Rightarrow> u32 \<Rightarrow> 'a kernel_scheme \<Rightarrow> 'a kernel_scheme option" where
  "timer_check_loop cb current_tick k =
     (case timer_row k Hard of
        [] \<Rightarrow> Some k
      | x # _ \<Rightarrow>
          if current_tick - timeout_tick (timer k x) < RT_TICK_HALF then
            let k = timer_expire Hard_firing (timer_call cb x) x k
            in timer_check_loop cb (rt_tick k) k
          else Some k)"

definition rt_timer_check :: "'a callback \<Rightarrow> 'a kernel_scheme \<Rightarrow> 'a kernel_scheme option" where
  "rt_timer_check cb k = timer_check_loop cb (rt_tick k) k"

definition soft_timer_run :: "'a callback \<Rightarrow> timer_id \<Rightarrow> 'a kernel_scheme \<Rightarrow> 'a kernel_scheme" where
  "soft_timer_run cb x k = (timer_call cb x (k\<lparr>soft_timer_idle := False\<rparr>))\<lparr>soft_timer_idle := True\<rparr>"

partial_function (option) rt_soft_timer_check :: "'a callback \<Rightarrow> 'a kernel_scheme \<Rightarrow> 'a kernel_scheme option" where
  "rt_soft_timer_check cb k =
     (case timer_row k Soft of
        [] \<Rightarrow> Some k
      | x # _ \<Rightarrow>
          if rt_tick k - timeout_tick (timer k x) < RT_TICK_HALF
          then rt_soft_timer_check cb (timer_expire Soft_firing (soft_timer_run cb x) x k)
          else Some k)"

definition rt_timer_next_timeout_tick :: "'a kernel_scheme \<Rightarrow> u32" where
  "rt_timer_next_timeout_tick k = timer_list_next_timeout Hard k"

definition rt_system_timer_init :: "'a kernel_scheme \<Rightarrow> 'a kernel_scheme" where
  "rt_system_timer_init k = k\<lparr>timer_row := (timer_row k)(Hard := [])\<rparr>"

section \<open>Deadlines in a window of the tick counter\<close>

text \<open>The distance of a deadline from a base tick, and whether a list is in deadline order
  within half the range of the counter after the base.\<close>

definition deadline :: "u32 \<Rightarrow> 'a kernel_scheme \<Rightarrow> timer_id \<Rightarrow> nat" where
  "deadline b k x = unat (timeout_tick (timer k x) - b)"

definition row_sorted :: "u32 \<Rightarrow> 'a kernel_scheme \<Rightarrow> row_id \<Rightarrow> bool" where
  "row_sorted b k r \<longleftrightarrow> sorted (map (deadline b k) (timer_row k r))
     \<and> (\<forall>x \<in> set (timer_row k r). deadline b k x < 0x7FFFFFFF)"

definition expired :: "u32 \<Rightarrow> 'a kernel_scheme \<Rightarrow> timer_id \<Rightarrow> bool" where
  "expired now k x \<longleftrightarrow> now - timeout_tick (timer k x) < RT_TICK_HALF"

text \<open>The comparison the code makes, read as a comparison of deadlines.\<close>

lemma tick_diff:
  fixes u v b :: u32
  assumes "unat (u - b) < 0x7FFFFFFF" "unat (v - b) < 0x7FFFFFFF"
  shows "u - v < 0x7FFFFFFF \<longleftrightarrow> unat (v - b) \<le> unat (u - b)"
proof -
  have e: "u - v = (u - b) - (v - b)" by simp
  show ?thesis
  proof (cases "v - b \<le> u - b")
    case True
    then have "unat (u - v) = unat (u - b) - unat (v - b)" unfolding e by (rule unat_sub)
    then have "unat (u - v) < unat (0x7FFFFFFF :: u32)" using assms(1) by simp
    then show ?thesis using True by (simp add: word_le_nat_alt word_less_nat_alt)
  next
    case False
    then have l: "unat (u - b) < unat (v - b)" by (simp add: word_le_nat_alt)
    then have "unat (u - v) = 2 ^ 32 - (unat (v - b) - unat (u - b))"
      unfolding e by (subst unat_sub_if_size) (simp add: word_size)
    then have "\<not> unat (u - v) < unat (0x7FFFFFFF :: u32)" using assms l by simp
    then show ?thesis using False by (simp add: word_le_nat_alt word_less_nat_alt)
  qed
qed

lemma expired_iff:
  assumes "deadline b k x < 0x7FFFFFFF" "unat (now - b) < 0x7FFFFFFF"
  shows "expired now k x \<longleftrightarrow> deadline b k x \<le> unat (now - b)"
  using tick_diff [OF assms(2) assms(1) [unfolded deadline_def]] by (simp add: expired_def deadline_def)

lemma timer_insert_split:
  "\<exists>ys zs. ts = ys @ zs \<and> timer_insert tm x ts = ys @ x # zs"
proof (induction ts)
  case (Cons t ts)
  then obtain ys zs where "ts = ys @ zs" "timer_insert tm x ts = ys @ x # zs" by blast
  then show ?case
    by (auto simp: Let_def intro: exI [of _ "t # ys"] exI [of _ "[]"])
qed simp

lemma set_timer_insert [simp]: "set (timer_insert tm x ts) = insert x (set ts)"
  using timer_insert_split [of ts tm x] by auto

lemma filter_timer_insert: "\<not> P x \<Longrightarrow> filter P (timer_insert tm x ts) = filter P ts"
  using timer_insert_split [of ts tm x] by auto

text \<open>Insertion is where it should be, and behind timers with the same deadline.\<close>

lemma timer_insert_key:
  fixes b :: u32 and tm :: "timer_id \<Rightarrow> rt_timer"
  defines "key \<equiv> \<lambda>y. unat (timeout_tick (tm y) - b)"
  assumes "\<And>y. y \<in> insert x (set ts) \<Longrightarrow> key y < 0x7FFFFFFF" "sorted (map key ts)"
  shows "timer_insert tm x ts = filter (\<lambda>y. key y \<le> key x) ts @ x # filter (\<lambda>y. key x < key y) ts"
  using assms(2,3)
proof (induction ts)
  case (Cons t ts)
  have lt: "key t < 0x7FFFFFFF" "key x < 0x7FFFFFFF" using Cons.prems by auto
  have d: "timeout_tick (tm t) - timeout_tick (tm x) < 0x7FFFFFFF \<longleftrightarrow> key x \<le> key t"
    using tick_diff [OF lt [unfolded key_def]] by (simp add: key_def)
  have z: "timeout_tick (tm t) - timeout_tick (tm x) = 0 \<longleftrightarrow> key t = key x"
    unfolding key_def word_unat_eq_iff [symmetric] by simp
  have IH: "timer_insert tm x ts = filter (\<lambda>y. key y \<le> key x) ts @ x # filter (\<lambda>y. key x < key y) ts"
    using Cons.prems by (intro Cons.IH) auto
  show ?case
  proof (cases "key x < key t")
    case True
    then have "\<forall>y \<in> set ts. key x < key y" using Cons.prems(2) by auto
    then have "filter (\<lambda>y. key y \<le> key x) ts = []" "filter (\<lambda>y. key x < key y) ts = ts"
      by (auto simp: filter_empty_conv not_le)
    then show ?thesis using True d z by (simp add: Let_def)
  next
    case False
    then show ?thesis using IH d z by (auto simp: Let_def)
  qed
qed simp

lemma timer_insert_sorted:
  fixes b :: u32
  assumes "\<And>y. y \<in> insert x (set ts) \<Longrightarrow> unat (timeout_tick (tm y) - b) < 0x7FFFFFFF"
    "sorted (map (\<lambda>y. unat (timeout_tick (tm y) - b)) ts)"
  shows "sorted (map (\<lambda>y. unat (timeout_tick (tm y) - b)) (timer_insert tm x ts))"
proof -
  have "timer_insert tm x ts = filter (\<lambda>y. unat (timeout_tick (tm y) - b) \<le> unat (timeout_tick (tm x) - b)) ts
      @ x # filter (\<lambda>y. unat (timeout_tick (tm x) - b) < unat (timeout_tick (tm y) - b)) ts"
    by (rule timer_insert_key [OF assms])
  then show ?thesis using assms(2) by (auto simp: sorted_append sorted_filter)
qed

section \<open>Starting a timer\<close>

definition start_row :: "'a kernel_scheme \<Rightarrow> timer_id \<Rightarrow> row_id" where
  "start_row k x = (if timer_flag k x AND RT_TIMER_FLAG_SOFT_TIMER \<noteq> 0 then Soft else Hard)"

lemma timer_flag_row [simp]: "timer_flag (k\<lparr>timer_row := r\<rparr>) = timer_flag k"
  "timer_flag (k\<lparr>random_nr := n\<rparr>) = timer_flag k" "timer_flag (k\<lparr>rt_tick := m\<rparr>) = timer_flag k"
  by (simp_all add: timer_flag_def fun_eq_iff)

lemma sched_inv_random [simp]: "sched_inv (k\<lparr>random_nr := n\<rparr>) = sched_inv k"
  by (rule sched_inv_cong) simp_all

lemma timer_enqueue_sel [simp]:
  "timer (timer_enqueue x k) = (timer k)(x := (timer k x)\<lparr>timeout_tick := rt_tick k + timer_init_tick (timer k x)\<rparr>)"
  "timer_flag (timer_enqueue x k) = (timer_flag k)(x := (timer_flag k x AND NOT 1) OR 1)"
  "thread (timer_enqueue x k) = thread k" "tlist (timer_enqueue x k) = tlist k"
  "ready_group (timer_enqueue x k) = ready_group k"
  "rt_current_thread (timer_enqueue x k) = rt_current_thread k" "rt_tick (timer_enqueue x k) = rt_tick k"
  "rt_scheduler_lock_nest (timer_enqueue x k) = rt_scheduler_lock_nest k"
  "object_list (timer_enqueue x k) = object_list k" "soft_timer_idle (timer_enqueue x k) = soft_timer_idle k"
  "tstat (timer_enqueue x k) = tstat k" "prio (timer_enqueue x k) = prio k"
  "kernel.more (timer_enqueue x k) = kernel.more k"
  "sched_inv (timer_enqueue x k) = sched_inv k"
  by (simp_all add: timer_enqueue_def Let_def) (simp add: upd_timer_def)

lemma timer_enqueue_row:
  "timer_row (timer_enqueue x k) = (\<lambda>r. removeAll x (timer_row k r))
     (start_row k x := timer_insert (timer (timer_enqueue x k)) x (removeAll x (timer_row k (start_row k x))))"
  by (simp add: timer_enqueue_def Let_def start_row_def)

lemma timer_enqueue_mem:
  "y \<in> set (timer_row (timer_enqueue x k) r) \<longleftrightarrow> y = x \<and> r = start_row k x \<or> y \<noteq> x \<and> y \<in> set (timer_row k r)"
  by (auto simp: timer_enqueue_row)

lemma timer_inv_enqueue:
  assumes "timer_inv k" "\<And>t. x = Thread_timer t \<Longrightarrow> tstat k t = 2"
  shows "timer_inv (timer_enqueue x k)"
proof (rule timer_invI)
  let ?k = "timer_enqueue x k"
  have rm: "family_ok (\<lambda>r. removeAll x (timer_row k r))"
    using timer_invD(1) [OF assms(1)] by (rule family_ok_remove)
  obtain ys zs where yz: "removeAll x (timer_row k (start_row k x)) = ys @ zs"
    "timer_insert (timer ?k) x (removeAll x (timer_row k (start_row k x))) = ys @ x # zs"
    using timer_insert_split by blast
  show "family_ok (timer_row ?k)"
    unfolding timer_enqueue_row yz(2) by (rule family_ok_insert [OF rm _ yz(1)]) simp
  show "timer_flag ?k y AND 1 \<noteq> 0" if "y \<in> set (timer_row ?k Hard)" for y
    using that timer_invD(2) [OF assms(1), of y] by (auto simp: timer_enqueue_mem)
  show "timer_flag ?k y AND 1 \<noteq> 0" if "y \<in> set (timer_row ?k Soft)" for y
    using that timer_invD(3) [OF assms(1), of y] by (auto simp: timer_enqueue_mem)
  show "tstat ?k t = 2" if "Thread_timer t \<in> set (timer_row ?k Hard)" for t
    using that assms(2) [of t] timer_invD(4) [OF assms(1), of t] by (auto simp: timer_enqueue_mem)
  show "thread_timer_ok ?k t" for t
    using timer_invD(5) [OF assms(1), of t] by (auto simp: thread_timer_ok_def)
  show "tstat ?k t \<noteq> 0" if "Thread_timer t \<in> set (timer_row ?k r)" for t r
    using that assms(2) [of t] timer_invD(6) [OF assms(1), of t r] by (auto simp: timer_enqueue_mem)
  show "y = Thread_timer t" if "timeout_func (timer ?k y) = Rt_thread_timeout t" for y t
    using that timer_invD(7) [OF assms(1), of y t] by (auto split: if_splits)
  show "timer_flag ?k y AND 4 = 0" if "y \<in> set (timer_row ?k Hard)" for y
    using that timer_invD(8) [OF assms(1), of y] by (auto simp: timer_enqueue_mem start_row_def split: if_splits)
  show "timer_flag ?k y AND 4 \<noteq> 0" if "y \<in> set (timer_row ?k Soft)" for y
    using that timer_invD(9) [OF assms(1), of y] by (auto simp: timer_enqueue_mem start_row_def split: if_splits)
qed

lemma rt_timer_start_inv [kinv]:
  assumes "kernel_inv k" "\<And>t. x = Thread_timer t \<Longrightarrow> tstat k t = 2"
  shows "kernel_inv (rt_timer_start x k)"
proof -
  have "kernel_inv (timer_enqueue x k)"
    using assms by (simp add: kernel_inv_def timer_inv_enqueue)
  then show ?thesis
    by (simp add: rt_timer_start_def Let_def rt_schedule_kernel_inv rt_thread_resume_inv)
qed

lemma row_sorted_enqueue:
  assumes "row_sorted b k r" "unat (rt_tick k - b) + unat (timer_init_tick (timer k x)) < 0x7FFFFFFF"
  shows "row_sorted b (timer_enqueue x k) r"
proof -
  let ?k = "timer_enqueue x k"
  have dx: "deadline b ?k x = unat (rt_tick k - b) + unat (timer_init_tick (timer k x))"
  proof -
    have "rt_tick k + timer_init_tick (timer k x) - b = (rt_tick k - b) + timer_init_tick (timer k x)" by simp
    then have "deadline b ?k x = unat ((rt_tick k - b) + timer_init_tick (timer k x))"
      by (simp add: deadline_def algebra_simps)
    then show ?thesis using assms(2) by (simp only: unat_add_no_wrap) (simp add: unat_add_no_wrap)
  qed
  have dy: "deadline b ?k y = deadline b k y" if "y \<noteq> x" for y using that by (simp add: deadline_def)
  let ?ts = "removeAll x (timer_row k r)"
  have bd: "deadline b ?k y < 0x7FFFFFFF" if "y \<in> insert x (set ?ts)" for y
    using that assms dx dy [of y] by (cases "y = x") (auto simp: row_sorted_def)
  have "sorted (map (deadline b k) ?ts)"
    using assms(1) by (simp add: row_sorted_def removeAll_filter_not_eq sorted_filter)
  also have "map (deadline b k) ?ts = map (deadline b ?k) ?ts" using dy by simp
  finally have s: "sorted (map (deadline b ?k) ?ts)" .
  show ?thesis
  proof (cases "r = start_row k x")
    case True
    have "sorted (map (deadline b ?k) (timer_insert (timer ?k) x ?ts))"
      using timer_insert_sorted [of x ?ts "timer ?k" b] bd s
      unfolding deadline_def [abs_def] by blast
    then show ?thesis using True bd by (auto simp: row_sorted_def timer_enqueue_row)
  next
    case False
    then show ?thesis using s bd by (auto simp: row_sorted_def timer_enqueue_row)
  qed
qed

text \<open>Moving the base forward, as time passes, when no deadline lies before the new base.\<close>

lemma row_sorted_rebase:
  assumes "row_sorted b k r" "\<And>x. x \<in> set (timer_row k r) \<Longrightarrow> unat (n - b) \<le> deadline b k x"
  shows "row_sorted n k r"
proof -
  have d: "deadline n k x = deadline b k x - unat (n - b)" if "x \<in> set (timer_row k r)" for x
  proof -
    have e: "timeout_tick (timer k x) - n = (timeout_tick (timer k x) - b) - (n - b)" by simp
    have "n - b \<le> timeout_tick (timer k x) - b"
      using assms(2) [OF that] by (simp add: deadline_def word_le_nat_alt)
    then show ?thesis unfolding deadline_def e by (rule unat_sub)
  qed
  have "map (deadline n k) (timer_row k r) = map (\<lambda>x. deadline b k x - unat (n - b)) (timer_row k r)"
    using d by simp
  then have "map (deadline n k) (timer_row k r) = map (\<lambda>v. v - unat (n - b)) (map (deadline b k) (timer_row k r))"
    by simp
  moreover have "sorted (map (\<lambda>v. v - m) vs)" if "sorted vs" for vs and m :: nat
    using that by (induction vs) (auto intro: diff_le_mono)
  ultimately have "sorted (map (deadline n k) (timer_row k r))"
    using assms(1) unfolding row_sorted_def by metis
  moreover have "deadline n k x < 0x7FFFFFFF" if "x \<in> set (timer_row k r)" for x
    using assms(1) d [OF that] that unfolding row_sorted_def by (metis diff_le_self le_less_trans)
  ultimately show ?thesis unfolding row_sorted_def by blast
qed

section \<open>Expiry keeps the kernel consistent\<close>

lemma timer_inv_sub:
  assumes "timer_inv k" "timer k' = timer k" "tstat k' = tstat k"
    and "family_ok (timer_row k')" "\<And>x. x \<in> set (timer_row k' Hard) \<Longrightarrow> x \<in> set (timer_row k Hard)"
    and "\<And>x. x \<in> set (timer_row k' Soft) \<Longrightarrow> x \<in> set (timer_row k Soft)"
    and "\<And>x r. x \<in> set (timer_row k' r) \<Longrightarrow> \<exists>q. x \<in> set (timer_row k q)"
    and "\<And>x. x \<in> set (timer_row k' Hard) \<or> x \<in> set (timer_row k' Soft) \<Longrightarrow> timer_flag k' x = timer_flag k x"
    and "\<And>x. timer_flag k' x AND 2 = timer_flag k x AND 2 \<and> timer_flag k' x AND 4 = timer_flag k x AND 4"
  shows "timer_inv k'"
proof (rule timer_invI)
  show "thread_timer_ok k' t" for t
    using timer_invD(5) [OF assms(1), of t] assms(2,3) assms(9) [of "Thread_timer t"] by (simp add: thread_timer_ok_def)
  show "tstat k' t \<noteq> 0" if "Thread_timer t \<in> set (timer_row k' r)" for t r
    using assms(7) [OF that] timer_invD(6) [OF assms(1)] assms(3) by auto
qed (use assms(2-6,8) timer_invD [OF assms(1)] in auto)

lemma timer_inv_remove [simp]: "timer_inv k \<Longrightarrow> timer_inv (timer_remove x k)"
  by (rule timer_inv_sub) (auto simp: timer_invD(1) family_ok_remove)

lemma kernel_inv_remove: "kernel_inv k \<Longrightarrow> kernel_inv (timer_remove x k)"
  by (simp add: kernel_inv_def)

text \<open>The state in which the callback runs.\<close>

definition timer_hold :: "row_id \<Rightarrow> timer_id \<Rightarrow> 'a kernel_scheme \<Rightarrow> 'a kernel_scheme" where
  "timer_hold firing x k =
     (let k = timer_remove x k;
          k = (if timer_flag k x AND RT_TIMER_FLAG_PERIODIC = 0
               then upd_timer_flag x (\<lambda>f. f AND NOT RT_TIMER_FLAG_ACTIVATED) k else k)
      in k\<lparr>timer_row := (timer_row k)(firing := x # timer_row k firing)\<rparr>)"

lemma timer_hold_sel [simp]:
  "timer (timer_hold f x k) = timer k" "tstat (timer_hold f x k) = tstat k" "prio (timer_hold f x k) = prio k"
  "thread (timer_hold f x k) = thread k"
  "rt_tick (timer_hold f x k) = rt_tick k" "sched_inv (timer_hold f x k) = sched_inv k"
  "soft_timer_idle (timer_hold f x k) = soft_timer_idle k"
  "timer_flag (timer_hold f x k) = (timer_flag k)(x :=
     if timer_flag k x AND 2 = 0 then timer_flag k x AND NOT 1 else timer_flag k x)"
  "timer_row (timer_hold f x k) = (\<lambda>r. removeAll x (timer_row k r))(f := x # removeAll x (timer_row k f))"
  by (auto simp: timer_hold_def Let_def fun_eq_iff)

lemma timer_expire_hold:
  "timer_expire firing run x k =
     (let k = run (timer_hold firing x k)
      in if timer_row k firing = [] then k
         else
           let k = timer_remove x k
           in if timer_flag k x AND RT_TIMER_FLAG_PERIODIC \<noteq> 0 \<and> timer_flag k x AND RT_TIMER_FLAG_ACTIVATED \<noteq> 0
              then rt_timer_start x (upd_timer_flag x (\<lambda>f. f AND NOT RT_TIMER_FLAG_ACTIVATED) k)
              else k)"
  by (simp add: timer_expire_def timer_hold_def Let_def)

lemma timer_hold_inv:
  assumes "kernel_inv k" "x \<in> set (timer_row k r)" "f \<in> {Hard_firing, Soft_firing}"
  shows "kernel_inv (timer_hold f x k)"
proof -
  have k: "sched_inv k" "timer_inv k" using assms by (auto simp: kernel_inv_def)
  have rm: "family_ok (\<lambda>r. removeAll x (timer_row k r))"
    using timer_invD(1) [OF k(2)] by (rule family_ok_remove)
  have "timer_inv (timer_hold f x k)"
  proof (rule timer_inv_sub [OF k(2)])
    show "family_ok (timer_row (timer_hold f x k))"
      using family_ok_push_front [OF rm, of x f] by simp
    show "\<exists>q. y \<in> set (timer_row k q)" if "y \<in> set (timer_row (timer_hold f x k) q)" for y q
      using that assms(2) by (auto split: if_splits)
  qed (use assms(3) in auto)
  with k show ?thesis by (simp add: kernel_inv_def)
qed

lemma clear_flag_inv:
  assumes "kernel_inv k" "x \<notin> set (timer_row k Hard)" "x \<notin> set (timer_row k Soft)"
  shows "kernel_inv (upd_timer_flag x (\<lambda>f. f AND NOT 1) k)"
proof -
  have k: "sched_inv k" "timer_inv k" using assms by (auto simp: kernel_inv_def)
  have "timer_inv (upd_timer_flag x (\<lambda>f. f AND NOT 1) k)"
    by (rule timer_inv_sub [OF k(2)]) (use assms(2,3) timer_invD(1) [OF k(2)] in auto)
  with k show ?thesis by (simp add: kernel_inv_def)
qed

lemma timer_call_inv:
  assumes "kernel_inv k" "\<And>n k. kernel_inv k \<Longrightarrow> kernel_inv (cb n k)"
    and "\<And>t. x = Thread_timer t \<Longrightarrow> tstat k t = 2" "x \<notin> set (timer_row k Hard)"
  shows "kernel_inv (timer_call cb x k)"
proof (cases "timeout_func (timer k x)")
  case (Rt_thread_timeout t)
  then have "x = Thread_timer t" using assms(1) timer_invD(7) by (auto simp: kernel_inv_def)
  then show ?thesis
    using Rt_thread_timeout assms by (simp add: timer_call_def rt_thread_timeout_inv)
qed (use assms(1,2) in \<open>simp add: timer_call_def\<close>)

lemma timer_expire_inv:
  assumes "kernel_inv k" "x \<in> set (timer_row k r)" "f \<in> {Hard_firing, Soft_firing}"
    and "kernel_inv (timer_hold f x k) \<Longrightarrow> kernel_inv (run (timer_hold f x k))"
  shows "kernel_inv (timer_expire f run x k)"
proof -
  let ?k = "run (timer_hold f x k)"
  have i: "kernel_inv ?k" using assms timer_hold_inv by blast
  have r: "kernel_inv (timer_remove x ?k)" by (rule kernel_inv_remove [OF i])
  have "kernel_inv (rt_timer_start x (upd_timer_flag x (\<lambda>f. f AND NOT 1) (timer_remove x ?k)))"
    if p: "timer_flag ?k x AND 2 \<noteq> 0"
  proof (rule rt_timer_start_inv)
    show "kernel_inv (upd_timer_flag x (\<lambda>f. f AND NOT 1) (timer_remove x ?k))"
      by (rule clear_flag_inv [OF r]) simp_all
    fix t assume "x = Thread_timer t"
    with p timer_invD(5) [of ?k t] i show "tstat (upd_timer_flag x (\<lambda>f. f AND NOT 1) (timer_remove x ?k)) t = 2"
      by (simp add: kernel_inv_def thread_timer_ok_def)
  qed
  with i r show ?thesis by (simp add: timer_expire_hold Let_def)
qed

lemma hard_expire_inv:
  assumes "kernel_inv k" "\<And>n k. kernel_inv k \<Longrightarrow> kernel_inv (cb n k)" "x \<in> set (timer_row k Hard)"
  shows "kernel_inv (timer_expire Hard_firing (timer_call cb x) x k)"
proof (rule timer_expire_inv [OF assms(1,3)])
  assume "kernel_inv (timer_hold Hard_firing x k)"
  then show "kernel_inv (timer_call cb x (timer_hold Hard_firing x k))"
    using assms timer_invD(4) [of k] by (intro timer_call_inv) (auto simp: kernel_inv_def)
qed simp

lemma timer_check_loop_inv:
  assumes "\<forall>n k. kernel_inv k \<longrightarrow> kernel_inv (cb n k)" "kernel_inv k"
    and "timer_check_loop cb now k = Some k'"
  shows "kernel_inv k'"
proof -
  have "(\<forall>n k. kernel_inv k \<longrightarrow> kernel_inv (cb n k)) \<longrightarrow> kernel_inv k \<longrightarrow> kernel_inv k'"
  proof (rule timer_check_loop.raw_induct [OF _ assms(3)])
    fix loop :: "'a callback \<Rightarrow> u32 \<Rightarrow> 'a kernel_scheme \<Rightarrow> 'a kernel_scheme option"
      and cb :: "'a callback" and now and k k' :: "'a kernel_scheme"
    assume IH: "\<And>cb now k k'. loop cb now k = Some k' \<Longrightarrow>
        (\<forall>n k. kernel_inv k \<longrightarrow> kernel_inv (cb n k)) \<longrightarrow> kernel_inv k \<longrightarrow> kernel_inv k'"
      and eq: "(case timer_row k Hard of [] \<Rightarrow> Some k
        | x # _ \<Rightarrow> if now - timeout_tick (timer k x) < 0x7FFFFFFF
            then let k = timer_expire Hard_firing (timer_call cb x) x k in loop cb (rt_tick k) k
            else Some k) = Some k'"
    show "(\<forall>n k. kernel_inv k \<longrightarrow> kernel_inv (cb n k)) \<longrightarrow> kernel_inv k \<longrightarrow> kernel_inv k'"
    proof (intro impI)
      assume cb: "\<forall>n k. kernel_inv k \<longrightarrow> kernel_inv (cb n k)" and k: "kernel_inv k"
      have "kernel_inv (timer_expire Hard_firing (timer_call cb x) x k)" if "timer_row k Hard = x # ts" for x ts
        using cb k that by (intro hard_expire_inv) auto
      then show "kernel_inv k'" using eq cb k IH by (auto simp: Let_def split: list.splits if_splits)
    qed
  qed
  with assms show ?thesis by blast
qed

section \<open>What a timer check does\<close>

text \<open>A callback that leaves timers and the tick alone.\<close>

definition quiet :: "'a callback \<Rightarrow> bool" where
  "quiet cb \<longleftrightarrow> (\<forall>n k. timer (cb n k) = timer k \<and> timer_row (cb n k) = timer_row k
     \<and> object (cb n k) = object k \<and> rt_tick (cb n k) = rt_tick k)"

lemma rt_thread_timeout_sel [simp]:
  "timer (rt_thread_timeout t k) = timer k" "timer_row (rt_thread_timeout t k) = timer_row k"
  "timer_flag (rt_thread_timeout t k) = timer_flag k" "rt_tick (rt_thread_timeout t k) = rt_tick k"
  by (simp_all add: rt_thread_timeout_def Let_def)

lemma timer_call_quiet:
  assumes "quiet cb"
  shows "timer (timer_call cb x k) = timer k" "timer_row (timer_call cb x k) = timer_row k"
    "timer_flag (timer_call cb x k) = timer_flag k" "rt_tick (timer_call cb x k) = rt_tick k"
  using assms by (auto simp: timer_call_def quiet_def timer_flag_def fun_eq_iff split: timeout_fn.split)
    (auto simp flip: timer_flag_def)

text \<open>What the check loop needs of the hard timers: lists are disjoint, nothing is firing, and
  restarting a timer of the list puts it back on the list.\<close>

definition hard_ok :: "'a kernel_scheme \<Rightarrow> bool" where
  "hard_ok k \<longleftrightarrow> family_ok (timer_row k) \<and> timer_row k Hard_firing = []
     \<and> (\<forall>x \<in> set (timer_row k Hard). timer_flag k x AND RT_TIMER_FLAG_SOFT_TIMER = 0
          \<and> timer_flag k x AND RT_TIMER_FLAG_ACTIVATED \<noteq> 0)"

definition periodic :: "'a kernel_scheme \<Rightarrow> timer_id \<Rightarrow> bool" where
  "periodic k x \<longleftrightarrow> timer_flag k x AND RT_TIMER_FLAG_PERIODIC \<noteq> 0"

lemma timer_inv_hard_ok: "timer_inv k \<Longrightarrow> timer_row k Hard_firing = [] \<Longrightarrow> hard_ok k"
  by (simp add: hard_ok_def timer_inv_def)

abbreviation (input) hard_expire :: "'a callback \<Rightarrow> timer_id \<Rightarrow> 'a kernel_scheme \<Rightarrow> 'a kernel_scheme" where
  "hard_expire cb x \<equiv> timer_expire Hard_firing (timer_call cb x) x"

lemma hard_expire_effect:
  assumes cb: "quiet cb" and ok: "hard_ok k" and row: "timer_row k Hard = x # ts"
  defines "k' \<equiv> hard_expire cb x k"
  shows "rt_tick k' = rt_tick k" "timer_row k' Hard_firing = []" "family_ok (timer_row k')"
    "timer k' = (if periodic k x then (timer k)(x := (timer k x)\<lparr>timeout_tick := rt_tick k + timer_init_tick (timer k x)\<rparr>)
       else timer k)"
    "timer_row k' Hard = (if periodic k x then timer_insert (timer k') x ts else ts)"
    "y \<noteq> x \<Longrightarrow> timer_flag k' y = timer_flag k y"
    "periodic k x \<Longrightarrow> timer_flag k' x AND 1 \<noteq> 0 \<and> timer_flag k' x AND 4 = 0 \<and> periodic k' x"
    "thread k' = thread (timer_call cb x (timer_hold Hard_firing x k))"
proof -
  have x: "x \<in> set (timer_row k Hard)" "x \<notin> set ts"
    using row ok by (auto simp: hard_ok_def family_ok_def dest: spec [of _ Hard])
  have f: "timer_flag k x AND 4 = 0" "timer_flag k x AND 1 \<noteq> 0" "timer_row k Hard_firing = []"
    using ok x(1) by (auto simp: hard_ok_def)
  let ?k1 = "timer_remove x (timer_call cb x (timer_hold Hard_firing x k))"
  let ?k2 = "upd_timer_flag x (\<lambda>f. f AND NOT 1) ?k1"
  note q = timer_call_quiet [OF cb]
  have e: "k' = (if periodic k x then rt_timer_start x ?k2 else ?k1)"
    using f(2) unfolding k'_def timer_expire_hold by (simp add: Let_def q periodic_def)
  have s: "rt_timer_start x ?k2 = timer_enqueue x ?k2"
    using f(1) by (simp add: rt_timer_start_def Let_def q)
  have r: "removeAll x (timer_row k Hard) = ts" using row x(2) by simp
  have r1: "timer_row ?k1 = (\<lambda>r. removeAll x (timer_row k r))" using f(3) by (auto simp: q fun_eq_iff)
  have fam: "family_ok (timer_row ?k1)" unfolding r1 using ok by (simp add: hard_ok_def family_ok_remove)
  have sr: "start_row ?k2 x = Hard" using f(1) by (simp add: start_row_def q)
  have r2: "timer_row (timer_enqueue x ?k2) = (\<lambda>r. removeAll x (timer_row k r))
      (Hard := timer_insert (timer (timer_enqueue x ?k2)) x ts)"
    using r1 r unfolding timer_enqueue_row sr by (auto simp: fun_eq_iff)
  show "rt_tick k' = rt_tick k" unfolding e s by (simp add: q)
  show "timer_row k' Hard_firing = []" unfolding e s r2 if_distrib [of timer_row] r1 using f(3) by simp
  show "family_ok (timer_row k')"
  proof (cases "periodic k x")
    case True
    obtain ys zs where yz: "ts = ys @ zs" "timer_insert (timer (timer_enqueue x ?k2)) x ts = ys @ x # zs"
      using timer_insert_split by blast
    have "family_ok ((timer_row ?k1)(Hard := ys @ x # zs))"
      by (rule family_ok_insert [OF fam]) (use r1 r yz(1) in auto)
    moreover have "timer_row k' = (timer_row ?k1)(Hard := ys @ x # zs)"
      using True e s r2 yz(2) r1 by metis
    ultimately show ?thesis by simp
  next
    case False
    then show ?thesis using fam unfolding e by simp
  qed
  show t: "timer k' = (if periodic k x then (timer k)(x := (timer k x)\<lparr>timeout_tick := rt_tick k + timer_init_tick (timer k x)\<rparr>)
       else timer k)" unfolding e s by (simp add: q)
  show "timer_row k' Hard = (if periodic k x then timer_insert (timer k') x ts else ts)"
  proof (cases "periodic k x")
    case True
    then have "k' = timer_enqueue x ?k2" using e s by simp
    with True fun_cong [OF r2, of Hard] show ?thesis by (simp only: fun_upd_same if_True)
  next
    case False
    then have "k' = ?k1" using e by simp
    with False fun_cong [OF r1, of Hard] r show ?thesis by (simp only: if_False)
  qed
  show "timer_flag k' y = timer_flag k y" if "y \<noteq> x" using that unfolding e s by (simp add: q)
  show "thread k' = thread (timer_call cb x (timer_hold Hard_firing x k))" unfolding e s by simp
  show "timer_flag k' x AND 1 \<noteq> 0 \<and> timer_flag k' x AND 4 = 0 \<and> periodic k' x" if "periodic k x"
    using that f unfolding e s by (simp add: q periodic_def)
qed

lemma hard_expire_sorted:
  assumes cb: "quiet cb" and ok: "hard_ok k" and row: "timer_row k Hard = x # ts"
    and srt: "row_sorted b k Hard"
    and per: "periodic k x \<Longrightarrow> 0 < timer_init_tick (timer k x) \<and>
      unat (rt_tick k - b) + unat (timer_init_tick (timer k x)) < 0x7FFFFFFF"
  defines "k' \<equiv> hard_expire cb x k"
  shows "row_sorted b k' Hard" "filter (expired (rt_tick k) k') (timer_row k' Hard) = filter (expired (rt_tick k) k) ts"
proof -
  note eff = hard_expire_effect [OF cb ok row, folded k'_def]
  have x: "x \<notin> set ts" using row ok by (auto simp: hard_ok_def family_ok_def dest: spec [of _ Hard])
  have tm: "timer k' y = timer k y" if "y \<in> set ts" for y using that x eff(4) by auto
  have dl: "deadline b k' y = deadline b k y" "expired n k' y = expired n k y" if "y \<in> set ts" for y n
    using tm [OF that] by (simp_all add: deadline_def expired_def)
  have eq: "map (deadline b k') ts = map (deadline b k) ts" using dl(1) by simp
  have ts: "sorted (map (deadline b k') ts)" "\<forall>y \<in> set ts. deadline b k' y < 0x7FFFFFFF"
    using srt dl(1) unfolding eq row_sorted_def row by auto
  have fl: "filter (expired (rt_tick k) k') ts = filter (expired (rt_tick k) k) ts"
    using dl(2) by (auto intro: filter_cong)
  show "row_sorted b k' Hard" "filter (expired (rt_tick k) k') (timer_row k' Hard) = filter (expired (rt_tick k) k) ts"
  proof (atomize (full), cases "periodic k x")
    case False
    then show "row_sorted b k' Hard \<and> filter (expired (rt_tick k) k') (timer_row k' Hard) = filter (expired (rt_tick k) k) ts"
      using ts fl eff(5) by (simp add: row_sorted_def)
  next
    case True
    let ?i = "timer_init_tick (timer k x)"
    have "timeout_tick (timer k' x) - b = (rt_tick k - b) + ?i" using True eff(4) by simp
    then have dx: "deadline b k' x = unat (rt_tick k - b) + unat ?i"
      using per [OF True] unfolding deadline_def by (simp only: unat_add_no_wrap) (simp add: unat_add_no_wrap)
    have i: "0 < unat ?i" using per [OF True] by (simp add: unat_gt_0 word_neq_0_conv)
    have "\<not> expired (rt_tick k) k' x"
      using expired_iff [of b k' x "rt_tick k"] dx i per [OF True] by simp
    moreover have bd: "deadline b k' y < 0x7FFFFFFF" if "y \<in> insert x (set ts)" for y
      using that ts(2) dx per [OF True] by auto
    moreover have "sorted (map (deadline b k') (timer_insert (timer k') x ts))"
      using timer_insert_sorted [of x ts "timer k'" b] bd ts(1) unfolding deadline_def [abs_def] by blast
    ultimately show "row_sorted b k' Hard \<and> filter (expired (rt_tick k) k') (timer_row k' Hard) = filter (expired (rt_tick k) k) ts"
      using True eff(5) fl by (simp add: row_sorted_def filter_timer_insert)
  qed
qed

text \<open>Within the window, periods that are not zero and fit the window.\<close>

definition periods_ok :: "u32 \<Rightarrow> 'a kernel_scheme \<Rightarrow> bool" where
  "periods_ok b k \<longleftrightarrow> (\<forall>x \<in> set (timer_row k Hard). periodic k x \<longrightarrow> 0 < timer_init_tick (timer k x) \<and>
     unat (rt_tick k - b) + unat (timer_init_tick (timer k x)) < 0x7FFFFFFF)"

lemma hard_expire_keeps:
  assumes cb: "quiet cb" and ok: "hard_ok k" and row: "timer_row k Hard = x # ts" and per: "periods_ok b k"
  shows "hard_ok (hard_expire cb x k)" "periods_ok b (hard_expire cb x k)"
proof -
  let ?k = "hard_expire cb x k"
  note eff = hard_expire_effect [OF cb ok row]
  have x: "x \<notin> set ts" using row ok by (auto simp: hard_ok_def family_ok_def dest: spec [of _ Hard])
  have mem: "y \<in> set ts \<and> y \<noteq> x \<or> y = x \<and> periodic k x" if "y \<in> set (timer_row ?k Hard)" for y
    using that x eff(5) by (auto split: if_splits)
  show "hard_ok ?k"
    unfolding hard_ok_def using eff(2,3)
  proof (intro conjI ballI)
    fix y assume "y \<in> set (timer_row ?k Hard)"
    then show "timer_flag ?k y AND 4 = 0" "timer_flag ?k y AND 1 \<noteq> 0"
      using mem [of y] eff(6) [of y] eff(7) ok row unfolding hard_ok_def by auto
  qed auto
  show "periods_ok b ?k"
    unfolding periods_ok_def
  proof (intro ballI impI)
    fix y assume "y \<in> set (timer_row ?k Hard)" "periodic ?k y"
    then have y: "y \<in> set (timer_row k Hard)" "periodic k y"
      using mem [of y] eff(6) [of y] row by (auto simp: periodic_def)
    moreover have "timer_init_tick (timer ?k y) = timer_init_tick (timer k y)" using eff(4) by auto
    ultimately show "0 < timer_init_tick (timer ?k y) \<and>
        unat (rt_tick ?k - b) + unat (timer_init_tick (timer ?k y)) < 0x7FFFFFFF"
      using per eff(1) unfolding periods_ok_def by simp
  qed
qed

lemma timer_check_loop_result:
  assumes "quiet cb" "hard_ok k" "row_sorted b k Hard" "periods_ok b k" "unat (rt_tick k - b) < 0x7FFFFFFF"
  shows "\<exists>k'. timer_check_loop cb (rt_tick k) k = Some k'
    \<and> k' = fold (hard_expire cb) (filter (expired (rt_tick k) k) (timer_row k Hard)) k
    \<and> rt_tick k' = rt_tick k \<and> hard_ok k' \<and> row_sorted b k' Hard
    \<and> (\<forall>x \<in> set (timer_row k' Hard). \<not> expired (rt_tick k) k' x)"
  using assms(2-5)
proof (induction "length (filter (expired (rt_tick k) k) (timer_row k Hard))" arbitrary: k)
  case 0
  then have none: "filter (expired (rt_tick k) k) (timer_row k Hard) = []"
    "\<forall>x \<in> set (timer_row k Hard). \<not> expired (rt_tick k) k x" by (auto simp: filter_empty_conv)
  then have "timer_check_loop cb (rt_tick k) k = Some k"
    by (subst timer_check_loop.simps) (auto simp: expired_def split: list.split)
  then show ?case using 0 none by simp
next
  case (Suc n)
  then obtain x ts where row: "timer_row k Hard = x # ts" by (cases "timer_row k Hard") auto
  have dl: "deadline b k y < 0x7FFFFFFF" if "y \<in> set (x # ts)" for y
    using that Suc.prems(2) row by (auto simp: row_sorted_def)
  obtain y where y: "y \<in> set (x # ts)" "expired (rt_tick k) k y"
    using Suc.hyps(2) row by (metis (no_types) filter_False length_0_conv nat.simps(3))
  have "deadline b k x \<le> deadline b k y" using y(1) Suc.prems(2) row by (auto simp: row_sorted_def)
  then have ex: "expired (rt_tick k) k x"
    using y dl Suc.prems(4) expired_iff [of b k] by (meson le_trans list.set_intros(1))
  let ?k = "hard_expire cb x k"
  note eff = hard_expire_effect [OF assms(1) Suc.prems(1) row]
  note keep = hard_expire_keeps [OF assms(1) Suc.prems(1) row Suc.prems(3)]
  have srt: "row_sorted b ?k Hard" "filter (expired (rt_tick k) ?k) (timer_row ?k Hard) = filter (expired (rt_tick k) k) ts"
    using hard_expire_sorted [OF assms(1) Suc.prems(1) row Suc.prems(2)] Suc.prems(3) row
    unfolding periods_ok_def by auto
  have step: "timer_check_loop cb (rt_tick k) k = timer_check_loop cb (rt_tick ?k) ?k"
    using ex row by (subst timer_check_loop.simps) (simp add: expired_def Let_def)
  have "n = length (filter (expired (rt_tick ?k) ?k) (timer_row ?k Hard))"
    using Suc.hyps(2) ex row srt(2) eff(1) by simp
  from Suc.hyps(1) [OF this keep(1) srt(1) keep(2)] Suc.prems(4) eff(1)
  show ?case using ex row srt(2) unfolding step by simp
qed

section \<open>Waking a sleeping thread\<close>

text \<open>A callback that touches only the user's data (the part of the state that extends the
  kernel record).\<close>

definition inert :: "'a callback \<Rightarrow> bool" where
  "inert cb \<longleftrightarrow> (\<forall>n k. \<exists>m. cb n k = kernel.more_update (\<lambda>_. m) k)"

lemma inert_sel:
  assumes "inert cb"
  shows "thread (cb n k) = thread k" "timer (cb n k) = timer k" "timer_row (cb n k) = timer_row k"
    "object (cb n k) = object k" "rt_tick (cb n k) = rt_tick k" "tstat (cb n k) = tstat k"
    "prio (cb n k) = prio k" "tlist (cb n k) = tlist k" "ready_group (cb n k) = ready_group k"
    "rt_current_thread (cb n k) = rt_current_thread k" "timer_flag (cb n k) = timer_flag k"
proof -
  obtain m where m: "cb n k = kernel.more_update (\<lambda>_. m) k" using assms by (auto simp: inert_def)
  show "thread (cb n k) = thread k" "timer (cb n k) = timer k" "timer_row (cb n k) = timer_row k"
    "object (cb n k) = object k" "rt_tick (cb n k) = rt_tick k" "tlist (cb n k) = tlist k"
    "ready_group (cb n k) = ready_group k" "rt_current_thread (cb n k) = rt_current_thread k" by (simp_all add: m)
  then show "tstat (cb n k) = tstat k" "prio (cb n k) = prio k" "timer_flag (cb n k) = timer_flag k"
    by (simp_all add: tstat_def prio_def timer_flag_def fun_eq_iff)
qed

lemma inert_quiet: "inert cb \<Longrightarrow> quiet cb"
  by (simp add: quiet_def inert_sel)

lemma inert_inv: "inert cb \<Longrightarrow> kernel_inv k \<Longrightarrow> kernel_inv (cb n k)"
  using sched_inv_cong [of "cb n k" k] timer_inv_cong [of k "cb n k"] by (simp add: kernel_inv_def inert_sel)

text \<open>Thread \<open>t\<close> sleeps until its timer \<open>tm\<close> expires, or has been woken.\<close>

definition sleeping_or_woken :: "tid \<Rightarrow> rt_timer \<Rightarrow> 'a kernel_scheme \<Rightarrow> bool" where
  "sleeping_or_woken t tm k \<longleftrightarrow>
     Thread_timer t \<in> set (timer_row k Hard) \<and> timer k (Thread_timer t) = tm \<and> tstat k t = RT_THREAD_SUSPEND
     \<or> tstat k t \<in> {RT_THREAD_READY, RT_THREAD_RUNNING} \<and> error (thread k t) = - RT_ETIMEOUT"

lemma hard_expire_sleeping:
  assumes cb: "inert cb" and k: "kernel_inv k" and ok: "hard_ok k" and row: "timer_row k Hard = x # ts"
    and j: "sleeping_or_woken t tm k"
  shows "sleeping_or_woken t tm (hard_expire cb x k)"
proof -
  note eff = hard_expire_effect [OF inert_quiet [OF cb] ok row]
  let ?h = "timer_hold Hard_firing x k" and ?k = "hard_expire cb x k"
  have ti: "timer_inv k" using k by (simp add: kernel_inv_def)
  have h: "kernel_inv ?h" using k row by (intro timer_hold_inv [of k x Hard]) auto
  have nh: "x \<notin> set (timer_row ?h Hard)" by simp
  have ts: "tstat ?k = tstat (timer_call cb x ?h)" using eff(8) by (simp add: tstat_def fun_eq_iff)
  have th: "thread ?k = thread (timer_call cb x ?h)" by (rule eff(8))
  have xt: "x = Thread_timer u" "tstat k u = 2" if "timeout_func (timer k x) = Rt_thread_timeout u" for u
  proof -
    show x: "x = Thread_timer u" by (rule timer_invD(7) [OF ti that])
    then show "tstat k u = 2" using timer_invD(4) [OF ti, of u] row by simp
  qed
  show ?thesis
  proof (cases "x = Thread_timer t")
    case True
    then have s: "tstat k t = 2" using timer_invD(4) [OF ti, of t] row by simp
    then have "timeout_func (timer k x) = Rt_thread_timeout t"
      using timer_invD(5) [OF ti, of t] True by (simp add: thread_timer_ok_def)
    then have "timer_call cb x ?h = rt_thread_timeout t ?h" by (simp add: timer_call_def)
    then show ?thesis
      using rt_thread_timeout_effect(1,2) [OF h, of t] s nh True unfolding sleeping_or_woken_def ts th by simp
  next
    case False
    have c: "(tstat (timer_call cb x ?h) t = tstat k t \<or> tstat k t \<in> {1, 3} \<and> tstat (timer_call cb x ?h) t \<in> {1, 3})
        \<and> error (thread (timer_call cb x ?h) t) = error (thread k t)"
    proof (cases "timeout_func (timer k x)")
      case (Rt_thread_timeout u)
      then show ?thesis
        using rt_thread_timeout_effect(3,4) [OF h, of u t] xt [of u] nh False by (simp add: timer_call_def)
    qed (simp add: timer_call_def inert_sel [OF cb])
    have r: "timer ?k (Thread_timer t) = timer k (Thread_timer t)" using False eff(4) by auto
    have m: "Thread_timer t \<in> set (timer_row ?k Hard)" if "Thread_timer t \<in> set (timer_row k Hard)"
      using that False row eff(5) by auto
    show ?thesis using j c m r unfolding sleeping_or_woken_def ts th by auto
  qed
qed

lemma timer_check_wakes:
  assumes cb: "inert cb" and k: "kernel_inv k" "timer_row k Hard_firing = []" "row_sorted b k Hard" "periods_ok b k"
    "unat (rt_tick k - b) < 0x7FFFFFFF"
    and t: "Thread_timer t \<in> set (timer_row k Hard)" "expired (rt_tick k) k (Thread_timer t)"
  shows "\<exists>k'. rt_timer_check cb k = Some k' \<and> kernel_inv k' \<and> tstat k' t \<in> {1, 3} \<and> error (thread k' t) = - RT_ETIMEOUT"
proof -
  let ?tm = "timer k (Thread_timer t)"
  have ti: "timer_inv k" using k by (simp add: kernel_inv_def)
  note q = inert_quiet [OF cb] and ok = timer_inv_hard_ok [OF ti k(2)]
  obtain k' where k': "timer_check_loop cb (rt_tick k) k = Some k'" "hard_ok k'"
    "\<forall>x \<in> set (timer_row k' Hard). \<not> expired (rt_tick k) k' x" "rt_tick k' = rt_tick k"
    using timer_check_loop_result [OF q ok k(3-5)] by blast
  define I where "I = (\<lambda>(cb :: 'a callback) (k :: 'a kernel_scheme). inert cb \<and> kernel_inv k \<and> hard_ok k
    \<and> periods_ok b k \<and> sleeping_or_woken t ?tm k)"
  have step: "I cb (hard_expire cb x k)" if "I cb k" "timer_row k Hard = x # ts" for cb x ts and k :: "'a kernel_scheme"
    using that hard_expire_inv [of k cb x] hard_expire_keeps [of cb k x ts b] hard_expire_sleeping [of cb k x ts t ?tm]
    by (simp add: I_def inert_inv inert_quiet)
  have "I cb k \<longrightarrow> I cb k'"
  proof (rule timer_check_loop.raw_induct [OF _ k'(1), of "\<lambda>cb _ k k'. I cb k \<longrightarrow> I cb k'"])
    fix loop :: "'a callback \<Rightarrow> u32 \<Rightarrow> 'a kernel_scheme \<Rightarrow> 'a kernel_scheme option"
      and cb :: "'a callback" and now and k k' :: "'a kernel_scheme"
    assume IH: "\<And>cb now k k'. loop cb now k = Some k' \<Longrightarrow> I cb k \<longrightarrow> I cb k'"
      and eq: "(case timer_row k Hard of [] \<Rightarrow> Some k
        | x # _ \<Rightarrow> if now - timeout_tick (timer k x) < 0x7FFFFFFF
            then let k = timer_expire Hard_firing (timer_call cb x) x k in loop cb (rt_tick k) k
            else Some k) = Some k'"
    show "I cb k \<longrightarrow> I cb k'" using eq step [of cb k] IH by (auto simp: Let_def split: list.splits if_splits)
  qed
  moreover have "I cb k"
    using cb k ok t timer_invD(4) [OF ti, of t] by (simp add: I_def sleeping_or_woken_def)
  ultimately have f: "kernel_inv k'" "sleeping_or_woken t ?tm k'" by (auto simp: I_def)
  have "\<not> (Thread_timer t \<in> set (timer_row k' Hard) \<and> timer k' (Thread_timer t) = ?tm)"
    using k'(3) t(2) by (auto simp: expired_def)
  with f k'(1) show ?thesis by (auto simp: rt_timer_check_def sleeping_or_woken_def)
qed

text \<open>Before its deadline a check leaves the thread asleep.\<close>

lemma timer_check_sleeps:
  assumes cb: "inert cb" and k: "kernel_inv k" "timer_row k Hard_firing = []"
    and t: "Thread_timer t \<in> set (timer_row k Hard)" "\<not> expired (rt_tick k) k (Thread_timer t)"
    and r: "rt_timer_check cb k = Some k'"
  shows "tstat k' t = 2"
proof -
  have ti: "timer_inv k" using k by (simp add: kernel_inv_def)
  define I where "I = (\<lambda>(cb :: 'a callback) now (k :: 'a kernel_scheme). inert cb \<and> kernel_inv k
    \<and> timer_row k Hard_firing = [] \<and> Thread_timer t \<in> set (timer_row k Hard) \<and> now = rt_tick k
    \<and> \<not> expired now k (Thread_timer t))"
  have step: "I cb (rt_tick (hard_expire cb x k)) (hard_expire cb x k)"
    if i: "I cb now k" and row: "timer_row k Hard = x # ts" and x: "now - timeout_tick (timer k x) < 0x7FFFFFFF"
    for cb x ts now and k :: "'a kernel_scheme"
  proof -
    have xt: "x \<noteq> Thread_timer t" using i x by (auto simp: I_def expired_def)
    have "hard_ok k" using i by (auto simp: I_def kernel_inv_def intro: timer_inv_hard_ok)
    note eff = hard_expire_effect [OF inert_quiet this row, of cb]
    show ?thesis
      using i row xt eff(1,2,4,5) hard_expire_inv [of k cb x]
      by (auto simp: I_def inert_inv expired_def)
  qed
  have "I cb (rt_tick k) k \<longrightarrow> tstat k' t = 2"
  proof (rule timer_check_loop.raw_induct [OF _ r [unfolded rt_timer_check_def], of "\<lambda>cb now k k'. I cb now k \<longrightarrow> tstat k' t = 2"])
    fix loop :: "'a callback \<Rightarrow> u32 \<Rightarrow> 'a kernel_scheme \<Rightarrow> 'a kernel_scheme option"
      and cb :: "'a callback" and now and k k' :: "'a kernel_scheme"
    assume IH: "\<And>cb now k k'. loop cb now k = Some k' \<Longrightarrow> I cb now k \<longrightarrow> tstat k' t = 2"
      and eq: "(case timer_row k Hard of [] \<Rightarrow> Some k
        | x # _ \<Rightarrow> if now - timeout_tick (timer k x) < 0x7FFFFFFF
            then let k = timer_expire Hard_firing (timer_call cb x) x k in loop cb (rt_tick k) k
            else Some k) = Some k'"
    have "tstat k t = 2" if "I cb now k" using that timer_invD(4) [of k t] by (auto simp: I_def kernel_inv_def)
    then show "I cb now k \<longrightarrow> tstat k' t = 2"
      using eq step [of cb now k] IH by (auto simp: Let_def split: list.splits if_splits)
  qed
  then show ?thesis using cb k t by (simp add: I_def)
qed

section \<open>Example states\<close>

text \<open>Just after reset, with timer 5 set up (10 ticks) but not started.\<close>

definition example_timers :: "u8 \<Rightarrow> u32 \<Rightarrow> 'a \<Rightarrow> 'a kernel_scheme" where
  "example_timers flag time ext = timer_init (Timer 5) (User_timeout 1) time flag (boot_kernel ext)"

lemma boot_kernel_sel [simp]:
  "timer_row (boot_kernel ext) = (\<lambda>_. [])" "timer (boot_kernel ext) = (\<lambda>_. zero_timer)"
  "timer_flag (boot_kernel ext) = (\<lambda>_. 0)" "tstat (boot_kernel ext) = (\<lambda>_. 0)" "rt_tick (boot_kernel ext) = 0"
  by (auto simp: boot_kernel_def timer_flag_def tstat_def zero_thread_def zero_object_def fun_eq_iff)

lemma example_timers_sel [simp]:
  "timer (example_timers flag time ext) = (\<lambda>_. zero_timer)(Timer 5 := \<lparr>timeout_func = User_timeout 1, timer_init_tick = time, timeout_tick = 0\<rparr>)"
  "timer_flag (example_timers flag time ext) = (\<lambda>_. 0)(Timer 5 := flag AND NOT 1)"
  "timer_row (example_timers flag time ext) = (\<lambda>_. [])" "tstat (example_timers flag time ext) = (\<lambda>_. 0)"
  "rt_tick (example_timers flag time ext) = 0"
  by (simp_all add: example_timers_def timer_init_def Let_def)

lemma example_timers_inv: "kernel_inv (example_timers flag time ext)"
proof -
  have "sched_inv (example_timers flag time ext)"
    by (simp add: example_timers_def timer_init_def Let_def boot_kernel_inv)
  moreover have "timer_inv (example_timers flag time ext)"
    by (rule timer_invI) (auto simp: family_ok_def thread_timer_ok_def zero_timer_def split: if_splits)
  ultimately show ?thesis by (simp add: kernel_inv_def)
qed

lemma example_started:
  fixes ext :: 'a and time :: u32 and flag :: u8
  assumes "flag AND 4 = 0"
  defines "k \<equiv> rt_timer_start (Timer 5) (example_timers flag time ext)"
  shows "kernel_inv k" "timer_row k = (\<lambda>_. [])(Hard := [Timer 5])" "hard_ok k" "rt_tick k = 0"
    "timer k (Timer 5) = \<lparr>timeout_func = User_timeout 1, timer_init_tick = time, timeout_tick = time\<rparr>"
    "periodic k (Timer 5) \<longleftrightarrow> flag AND 2 \<noteq> 0"
proof -
  have e: "k = timer_enqueue (Timer 5) (example_timers flag time ext)"
    using assms(1) by (simp add: k_def rt_timer_start_def)
  show i: "kernel_inv k" unfolding k_def by (rule rt_timer_start_inv [OF example_timers_inv]) simp
  show r: "timer_row k = (\<lambda>_. [])(Hard := [Timer 5])"
    unfolding e timer_enqueue_row using assms(1) by (auto simp: start_row_def fun_eq_iff)
  show "hard_ok k" using r i by (intro timer_inv_hard_ok) (auto simp: kernel_inv_def)
  show "rt_tick k = 0" "timer k (Timer 5) = \<lparr>timeout_func = User_timeout 1, timer_init_tick = time, timeout_tick = time\<rparr>"
    "periodic k (Timer 5) \<longleftrightarrow> flag AND 2 \<noteq> 0"
    by (simp_all add: e periodic_def)
qed

section \<open>Properties\<close>

text \<open>
  C12. Starting a hard timer is correct across the wrap-around of the tick counter: as long as the
  deadlines fit in half the range of the counter after a base tick, the timer ends up on the
  hard list with the deadline \<open>rt_tick + init_tick\<close>, behind every timer that is due no later
  and before every later one, the list stays in deadline order and the kernel consistent.
\<close>

theorem rt_timer_start_sorted:
  assumes "kernel_inv k" "row_sorted b k Hard"
    and "timer_flag k x AND RT_TIMER_FLAG_SOFT_TIMER = 0"
    and "unat (rt_tick k - b) + unat (timer_init_tick (timer k x)) < 0x7FFFFFFF"
    and "\<forall>t. x = Thread_timer t \<longrightarrow> tstat k t = RT_THREAD_SUSPEND"
  shows "kernel_inv (rt_timer_start x k) \<and> row_sorted b (rt_timer_start x k) Hard
    \<and> timeout_tick (timer (rt_timer_start x k) x) = rt_tick k + timer_init_tick (timer k x)
    \<and> timer_row (rt_timer_start x k) Hard =
        filter (\<lambda>y. deadline b (rt_timer_start x k) y \<le> deadline b (rt_timer_start x k) x) (removeAll x (timer_row k Hard))
        @ x # filter (\<lambda>y. deadline b (rt_timer_start x k) x < deadline b (rt_timer_start x k) y) (removeAll x (timer_row k Hard))"
proof -
  have e: "rt_timer_start x k = timer_enqueue x k" using assms(3) by (simp add: rt_timer_start_def Let_def)
  have s: "row_sorted b (timer_enqueue x k) Hard" by (rule row_sorted_enqueue [OF assms(2,4)])
  let ?ts = "removeAll x (timer_row k Hard)"
  have r: "timer_row (timer_enqueue x k) Hard = timer_insert (timer (timer_enqueue x k)) x ?ts"
    using assms(3) by (simp add: timer_enqueue_row start_row_def)
  have bd: "deadline b (timer_enqueue x k) y < 0x7FFFFFFF" if "y \<in> insert x (set ?ts)" for y
    using that s r by (auto simp: row_sorted_def)
  have "map (deadline b (timer_enqueue x k)) ?ts = map (deadline b k) ?ts"
    by (simp add: deadline_def)
  then have "sorted (map (deadline b (timer_enqueue x k)) ?ts)"
    using assms(2) by (simp only: row_sorted_def removeAll_filter_not_eq sorted_filter)
  then show ?thesis
    using assms(1,5) s r bd timer_insert_key [of x ?ts "timer (timer_enqueue x k)" b] rt_timer_start_inv [of k x]
    unfolding e deadline_def [abs_def] by simp
qed

theorem rt_timer_start_sorted_witness:
  "timer_row (rt_timer_start (Timer 5) (example_timers 0 10 ())) Hard = [Timer 5]"
  using rt_timer_start_sorted [of "example_timers 0 10 ()" 0 "Timer 5"] example_timers_inv [of 0 10 "()"]
  by (simp add: row_sorted_def)

text \<open>
  C13. The tick interrupt's \<open>rt_timer_check\<close> returns and fires exactly the expired timers: with
  the hard list in deadline order and non-zero periods, and callbacks that leave the timers alone,
  it ends in the state reached by expiring, in list order, every timer whose deadline has been
  reached and no other; afterwards no timer on the list is due and the list is in order from the
  current tick on, across the wrap-around of the counter.
\<close>

theorem rt_timer_check_correct:
  assumes "quiet cb" "timer_inv k" "timer_row k Hard_firing = []" "row_sorted b k Hard" "periods_ok b k"
    and "unat (rt_tick k - b) < 0x7FFFFFFF"
  shows "\<exists>k'. rt_timer_check cb k = Some k'
    \<and> k' = fold (\<lambda>x. timer_expire Hard_firing (timer_call cb x) x)
             (filter (\<lambda>x. deadline b k x \<le> unat (rt_tick k - b)) (timer_row k Hard)) k
    \<and> (\<forall>x \<in> set (timer_row k' Hard). \<not> expired (rt_tick k) k' x)
    \<and> row_sorted (rt_tick k) k' Hard"
proof -
  have ex: "filter (expired (rt_tick k) k) (timer_row k Hard) =
      filter (\<lambda>x. deadline b k x \<le> unat (rt_tick k - b)) (timer_row k Hard)"
    using assms(4,6) by (intro filter_cong) (auto simp: row_sorted_def expired_iff)
  obtain k' where k': "timer_check_loop cb (rt_tick k) k = Some k'"
    "k' = fold (hard_expire cb) (filter (expired (rt_tick k) k) (timer_row k Hard)) k"
    "row_sorted b k' Hard" "\<forall>x \<in> set (timer_row k' Hard). \<not> expired (rt_tick k) k' x"
    using timer_check_loop_result [OF assms(1) timer_inv_hard_ok [OF assms(2,3)] assms(4,5,6)] by blast
  have "row_sorted (rt_tick k) k' Hard"
  proof (rule row_sorted_rebase [OF k'(3)])
    fix x assume x: "x \<in> set (timer_row k' Hard)"
    then have "deadline b k' x < 0x7FFFFFFF" using k'(3) by (simp add: row_sorted_def)
    then show "unat (rt_tick k - b) \<le> deadline b k' x" using expired_iff [of b k' x "rt_tick k"] k'(4) x assms(6) by auto
  qed
  then show ?thesis using k' unfolding rt_timer_check_def ex by blast
qed

theorem rt_timer_check_correct_witness:
  "\<exists>k'. rt_timer_check (\<lambda>_ k. k) ((rt_timer_start (Timer 5) (example_timers 0 10 ()))\<lparr>rt_tick := 10\<rparr>) = Some k'
     \<and> row_sorted 10 k' Hard"
proof -
  let ?j = "rt_timer_start (Timer 5) (example_timers 0 10 ())"
  let ?k = "?j\<lparr>rt_tick := 10\<rparr>"
  note ex = example_started [of 0 10 "()"]
  have "timer_inv ?k" using ex(1) by (intro timer_inv_cong [of ?j ?k]) (auto simp: kernel_inv_def)
  moreover have "deadline 0 ?k (Timer 5) = 10" using ex(5) by (simp add: deadline_def)
  moreover have "\<not> periodic ?k (Timer 5)" using ex(6) by (simp add: periodic_def)
  ultimately show ?thesis
    using rt_timer_check_correct [of "\<lambda>_ k. k" ?k 0] ex(2) by (auto simp: quiet_def row_sorted_def periods_ok_def)
qed

text \<open>
  A periodic timer with period 0 stops the system: once it is the due timer of the hard
  list, \<open>rt_timer_check\<close> (in the tick interrupt, with interrupts disabled) fires and restarts
  it for ever. Nothing in \<open>rt_timer_init\<close>, \<open>rt_timer_control\<close> or \<open>rt_timer_start\<close> rejects
  such a timer.
\<close>

theorem rt_timer_check_zero_period:
  assumes "quiet cb" "hard_ok k" "timer_row k Hard = [x]" "periodic k x"
    and "timer_init_tick (timer k x) = 0" "expired (rt_tick k) k x"
  shows "rt_timer_check cb k = None"
proof -
  define bad where "bad = (\<lambda>(cb :: 'a callback) now (k :: 'a kernel_scheme). quiet cb \<and> hard_ok k \<and> timer_row k Hard = [x]
    \<and> periodic k x \<and> timer_init_tick (timer k x) = 0 \<and> expired now k x)"
  have step: "bad cb (rt_tick (hard_expire cb x k)) (hard_expire cb x k)" if "bad cb now k"
    for cb now and k :: "'a kernel_scheme"
  proof -
    from that have b: "quiet cb" "hard_ok k" "timer_row k Hard = [x]" "periodic k x" "timer_init_tick (timer k x) = 0"
      by (auto simp: bad_def)
    note eff = hard_expire_effect [OF b(1-3)]
    have "hard_ok (hard_expire cb x k)"
      unfolding hard_ok_def using eff(2,3,5,7) b(4) by simp
    then show ?thesis using eff b by (simp add: bad_def expired_def)
  qed
  have "\<not> bad cb now k" if "timer_check_loop cb now k = Some k'" for cb now and k k' :: "'a kernel_scheme"
  proof (rule timer_check_loop.raw_induct [OF _ that])
    fix loop :: "'a callback \<Rightarrow> u32 \<Rightarrow> 'a kernel_scheme \<Rightarrow> 'a kernel_scheme option"
      and cb :: "'a callback" and now and k k' :: "'a kernel_scheme"
    assume IH: "\<And>cb now k k'. loop cb now k = Some k' \<Longrightarrow> \<not> bad cb now k"
      and eq: "(case timer_row k Hard of [] \<Rightarrow> Some k
        | x # _ \<Rightarrow> if now - timeout_tick (timer k x) < 0x7FFFFFFF
            then let k = timer_expire Hard_firing (timer_call cb x) x k in loop cb (rt_tick k) k
            else Some k) = Some k'"
    show "\<not> bad cb now k"
      using eq step [of cb now k] IH by (auto simp: bad_def expired_def Let_def)
  qed
  moreover have "bad cb (rt_tick k) k" using assms by (simp add: bad_def)
  ultimately show ?thesis unfolding rt_timer_check_def by (metis not_None_eq)
qed

theorem rt_timer_check_zero_period_witness:
  "rt_timer_check (\<lambda>_ k. k) (rt_timer_start (Timer 5) (example_timers 2 0 ())) = None"
  using rt_timer_check_zero_period [of "\<lambda>_ k. k" "rt_timer_start (Timer 5) (example_timers 2 0 ())" "Timer 5"]
    example_started [of 2 0 "()"] by (simp add: quiet_def expired_def)

text \<open>
  A periodic timer that its own callback turns into a one-shot timer
  (\<open>RT_TIMER_CTRL_SET_ONESHOT\<close>) is taken off every list but stays marked activated: from then
  on \<open>RT_TIMER_CTRL_GET_STATE\<close> reports a timer that will never fire as active.
\<close>

theorem rt_timer_check_stale_active:
  assumes "hard_ok k" "timer_row k Hard = [x]" "periodic k x" "expired (rt_tick k) k x"
    and "timeout_func (timer k x) = User_timeout n"
  shows "\<exists>k'. rt_timer_check (\<lambda>_ k. snd (rt_timer_control x 2 0 k)) k = Some k'
    \<and> (\<forall>r. x \<notin> set (timer_row k' r)) \<and> fst (rt_timer_control x 4 0 k') = 1"
proof -
  let ?cb = "\<lambda>_ k. snd (rt_timer_control x 2 0 k)"
  let ?k1 = "upd_timer_flag x (\<lambda>f. f AND NOT 2) (timer_hold Hard_firing x k)"
  have fl: "timer_flag k x AND 2 \<noteq> 0" "timer_flag k x AND 1 \<noteq> 0" using assms(1-3) by (auto simp: periodic_def hard_ok_def)
  have c: "timer_call ?cb x (timer_hold Hard_firing x k) = ?k1"
    using assms(5) by (simp add: timer_call_def rt_timer_control_def)
  have z: "(f AND NOT 2) AND 2 = (0 :: u8)" "(f AND NOT 2) AND 1 = f AND (1 :: u8)" for f
    by (simp_all add: and.assoc)
  have e: "hard_expire ?cb x k = timer_remove x ?k1"
    unfolding timer_expire_hold c by (simp add: Let_def) (simp add: z [simplified])
  have r: "timer_row (timer_remove x ?k1) = (\<lambda>r. removeAll x (timer_row k r))"
    by (auto simp: fun_eq_iff)
  have "rt_timer_check ?cb k = timer_check_loop ?cb (rt_tick (timer_remove x ?k1)) (timer_remove x ?k1)"
    unfolding rt_timer_check_def using assms(2,4) e
    by (subst timer_check_loop.simps) (simp add: expired_def Let_def)
  also have "\<dots> = Some (timer_remove x ?k1)"
    using assms(2) by (subst timer_check_loop.simps) simp
  finally show ?thesis
    using r fl by (intro exI [of _ "timer_remove x ?k1"]) (simp add: rt_timer_control_def z [simplified])
qed

theorem rt_timer_check_stale_active_witness:
  "\<exists>k'. rt_timer_check (\<lambda>_ k. snd (rt_timer_control (Timer 5) 2 0 k))
      (rt_timer_start (Timer 5) (example_timers 2 0 ())) = Some k'
    \<and> (\<forall>r. Timer 5 \<notin> set (timer_row k' r)) \<and> fst (rt_timer_control (Timer 5) 4 0 k') = 1"
  using rt_timer_check_stale_active [of "rt_timer_start (Timer 5) (example_timers 2 0 ())" "Timer 5" 1]
    example_started [of 2 0 "()"] by (simp add: expired_def)

end
