(* ===== verification/Thread.thy ===== *)
theory Thread
  imports Timer
begin

text \<open>
  Threads and their life cycle (\<^verbatim>\<open>rt-thread/src/thread.c\<close>), the idle thread that reclaims
  dead threads (\<^verbatim>\<open>idle.c\<close>), the clock (\<^verbatim>\<open>clock.c\<close>), the interrupt nesting counter
  (\<^verbatim>\<open>irq.c\<close>) and the thread of the soft timers (end of \<^verbatim>\<open>timer.c\<close>). An operation that
  blocks the calling thread is split at its call of \<open>rt_schedule\<close>: the second part
  (\<open>rt_thread_sleep_end\<close>) runs when the thread is current again. A thread's \<open>cleanup\<close>
  function and the results of the kernel heap are parameters.
\<close>

section \<open>Life cycle\<close>

type_synonym 'a cleanup_fn = "nat \<Rightarrow> tid \<Rightarrow> 'a kernel_scheme \<Rightarrow> 'a kernel_scheme"

definition thread_cleanup_execute :: "'a cleanup_fn \<Rightarrow> tid \<Rightarrow> 'a kernel_scheme \<Rightarrow> 'a kernel_scheme" where
  "thread_cleanup_execute clean t k =
     (case cleanup (thread k t) of None \<Rightarrow> k | Some f \<Rightarrow> clean f t k)"

definition rt_thread_defunct_enqueue :: "tid \<Rightarrow> 'a kernel_scheme \<Rightarrow> 'a kernel_scheme" where
  "rt_thread_defunct_enqueue t k = tlist_push_front Defunct t k"

definition rt_thread_defunct_dequeue :: "'a kernel_scheme \<Rightarrow> tid option \<times> 'a kernel_scheme" where
  "rt_thread_defunct_dequeue k =
     (case tlist k Defunct of [] \<Rightarrow> (None, k) | t # _ \<Rightarrow> (Some t, tlist_remove t k))"

text \<open>\<open>rt_list_init\<close> of the thread's node leaves a node that is on no list so. The stack
  contents (filled with \<^verbatim>\<open>'#'\<close> and the initial register frame) belong to the CPU port.\<close>

definition thread_init :: "tid \<Rightarrow> addr \<Rightarrow> addr \<Rightarrow> addr \<Rightarrow> u32 \<Rightarrow> u8 \<Rightarrow> u32 \<Rightarrow> 'a kernel_scheme \<Rightarrow> 'a kernel_scheme" where
  "thread_init t ent param stack_start stk_size priority tick k =
     (let k = upd_thread t (\<lambda>th. th\<lparr>entry := ent, parameter := param, stack_addr := stack_start,
            stack_size := stk_size, init_priority := priority, current_priority := priority,
            number_mask := 0, init_tick := tick, remaining_tick := tick, error := RT_EOK,
            stat := RT_THREAD_INIT, cleanup := None, user_data := 0\<rparr>) k
      in rt_timer_init (Thread_timer t) (obj_name (object k (Thread_obj t))) (Rt_thread_timeout t) 0 0 k)"

definition rt_thread_init :: "tid \<Rightarrow> cstring \<Rightarrow> addr \<Rightarrow> addr \<Rightarrow> addr \<Rightarrow> u32 \<Rightarrow> u8 \<Rightarrow> u32 \<Rightarrow> 'a kernel_scheme \<Rightarrow> 'a kernel_scheme" where
  "rt_thread_init t name ent param stack_start stk_size priority tick k =
     thread_init t ent param stack_start stk_size priority tick
       (rt_object_init (Thread_obj t) RT_Object_Class_Thread name k)"

definition rt_thread_self :: "'a kernel_scheme \<Rightarrow> tid option" where
  "rt_thread_self k = rt_current_thread k"

definition rt_thread_startup :: "tid \<Rightarrow> 'a kernel_scheme \<Rightarrow> 'a kernel_scheme" where
  "rt_thread_startup t k =
     (let k = upd_thread t (\<lambda>th. th\<lparr>current_priority := init_priority th\<rparr>) k;
          k = upd_thread t (\<lambda>th. th\<lparr>number_mask := push_bit (unat (current_priority th)) 1\<rparr>) k;
          k = upd_thread t (\<lambda>th. th\<lparr>stat := RT_THREAD_SUSPEND\<rparr>) k;
          k = snd (rt_thread_resume t k)
      in if rt_thread_self k \<noteq> None then rt_schedule k else k)"

definition thread_exit :: "'a cleanup_fn \<Rightarrow> tid \<Rightarrow> 'a kernel_scheme \<Rightarrow> 'a kernel_scheme" where
  "thread_exit clean t k =
     (let k = thread_cleanup_execute clean t k;
          k = rt_schedule_remove_thread t k;
          k = upd_thread t (\<lambda>th. th\<lparr>stat := RT_THREAD_CLOSE\<rparr>) k;
          k = rt_timer_detach (Thread_timer t) k;
          k = (if rt_object_is_systemobject (Thread_obj t) k
               then rt_object_detach (Thread_obj t) k
               else rt_thread_defunct_enqueue t k)
      in rt_schedule k)"

definition rt_thread_detach :: "'a cleanup_fn \<Rightarrow> tid \<Rightarrow> 'a kernel_scheme \<Rightarrow> 'a kernel_scheme" where
  "rt_thread_detach clean t k =
     (if tstat k t = RT_THREAD_CLOSE then k
      else
        let k = (if tstat k t \<noteq> RT_THREAD_INIT then rt_schedule_remove_thread t k else k);
            k = thread_cleanup_execute clean t k;
            k = rt_timer_detach (Thread_timer t) k;
            k = upd_thread t (\<lambda>th. th\<lparr>stat := RT_THREAD_CLOSE\<rparr>) k
        in if rt_object_is_systemobject (Thread_obj t) k
           then rt_object_detach (Thread_obj t) k
           else rt_thread_defunct_enqueue t k)"

text \<open>\<open>mem\<close> and \<open>stack_mem\<close> are what the two allocations return.\<close>

definition rt_thread_create :: "obj_id option \<Rightarrow> addr option \<Rightarrow> cstring \<Rightarrow> addr \<Rightarrow> addr \<Rightarrow> u32 \<Rightarrow> u8 \<Rightarrow> u32 \<Rightarrow>
    'a kernel_scheme \<Rightarrow> tid option \<times> 'a kernel_scheme" where
  "rt_thread_create mem stack_mem name ent param stk_size priority tick k =
     (case rt_object_allocate mem RT_Object_Class_Thread name k of
        (Some (Thread_obj t), k) \<Rightarrow>
          (case stack_mem of
             None \<Rightarrow> (None, rt_object_delete (Thread_obj t) k)
           | Some stack_start \<Rightarrow> (Some t, thread_init t ent param stack_start stk_size priority tick k))
      | (_, k) \<Rightarrow> (None, k))"

definition rt_thread_delete :: "'a cleanup_fn \<Rightarrow> tid \<Rightarrow> 'a kernel_scheme \<Rightarrow> 'a kernel_scheme" where
  "rt_thread_delete clean t k =
     (if tstat k t = RT_THREAD_CLOSE then k
      else
        let k = (if tstat k t \<noteq> RT_THREAD_INIT then rt_schedule_remove_thread t k else k);
            k = thread_cleanup_execute clean t k;
            k = rt_timer_detach (Thread_timer t) k;
            k = upd_thread t (\<lambda>th. th\<lparr>stat := RT_THREAD_CLOSE\<rparr>) k
        in rt_thread_defunct_enqueue t k)"

section \<open>Giving up the processor\<close>

text \<open>These run in a thread, so there is a current one.\<close>

definition rt_thread_yield :: "'a kernel_scheme \<Rightarrow> 'a kernel_scheme" where
  "rt_thread_yield k =
     (case rt_thread_self k of None \<Rightarrow> k
      | Some t \<Rightarrow> rt_schedule (upd_thread t (\<lambda>th. th\<lparr>remaining_tick := init_tick th,
                                  stat := stat th OR RT_THREAD_STAT_YIELD\<rparr>) k))"

text \<open>Suspend the thread and start its timer, the lines \<open>rt_thread_sleep\<close> and
  \<open>rt_thread_delay_until\<close> share.\<close>

definition thread_wait :: "tid \<Rightarrow> u32 \<Rightarrow> 'a kernel_scheme \<Rightarrow> 'a kernel_scheme" where
  "thread_wait t tick k =
     (let k = snd (rt_thread_suspend t k);
          k = snd (rt_timer_control (Thread_timer t) 0 tick k)
      in rt_timer_start (Thread_timer t) k)"

definition rt_thread_sleep :: "u32 \<Rightarrow> 'a kernel_scheme \<Rightarrow> 'a kernel_scheme" where
  "rt_thread_sleep tick k =
     (case rt_thread_self k of None \<Rightarrow> k | Some t \<Rightarrow> rt_schedule (thread_wait t tick k))"

definition rt_thread_sleep_end :: "tid \<Rightarrow> 'a kernel_scheme \<Rightarrow> 'a kernel_scheme" where
  "rt_thread_sleep_end t k =
     (if error (thread k t) = - RT_ETIMEOUT then upd_thread t (\<lambda>th. th\<lparr>error := RT_EOK\<rparr>) k else k)"

definition rt_thread_delay_until :: "u32 \<Rightarrow> u32 \<Rightarrow> 'a kernel_scheme \<Rightarrow> u32 \<times> 'a kernel_scheme" where
  "rt_thread_delay_until tick inc_tick k =
     (case rt_thread_self k of None \<Rightarrow> (tick, k)
      | Some t \<Rightarrow>
          let cur_tick = rt_tick k
          in if cur_tick - tick < inc_tick then
               let tick = tick + inc_tick;
                   left_tick = tick - cur_tick
               in (tick, rt_schedule (thread_wait t left_tick k))
             else (cur_tick, k))"

text \<open>\<open>rt_tick_from_millisecond\<close> for a given \<open>RT_TICK_PER_SECOND\<close>; \<open>ms\<close> is a signed
  32-bit number and C's division truncates, which for \<open>ms \<ge> 0\<close> is \<open>div\<close>.\<close>

definition rt_tick_from_millisecond :: "int \<Rightarrow> int \<Rightarrow> u32" where
  "rt_tick_from_millisecond tick_per_second ms =
     (if ms < 0 then 0xFFFFFFFF
      else of_int (tick_per_second * (ms div 1000)) + of_int ((tick_per_second * (ms mod 1000) + 999) div 1000))"

definition rt_thread_mdelay :: "int \<Rightarrow> 'a kernel_scheme \<Rightarrow> 'a kernel_scheme" where
  "rt_thread_mdelay ms k = rt_thread_sleep (rt_tick_from_millisecond 1000 ms) k"

definition rt_thread_control :: "'a cleanup_fn \<Rightarrow> tid \<Rightarrow> nat \<Rightarrow> u8 \<Rightarrow> 'a kernel_scheme \<Rightarrow> 'a kernel_scheme" where
  "rt_thread_control clean t cmd arg k =
     (if cmd = 2 then
        (if tstat k t = RT_THREAD_READY then
           let k = rt_schedule_remove_thread t k;
               k = upd_thread t (\<lambda>th. th\<lparr>current_priority := arg\<rparr>) k;
               k = upd_thread t (\<lambda>th. th\<lparr>number_mask := push_bit (unat (current_priority th)) 1\<rparr>) k
           in rt_schedule_insert_thread t k
         else
           let k = upd_thread t (\<lambda>th. th\<lparr>current_priority := arg\<rparr>) k
           in upd_thread t (\<lambda>th. th\<lparr>number_mask := push_bit (unat (current_priority th)) 1\<rparr>) k)
      else if cmd = 0 then rt_thread_startup t k
      else if cmd = 1 then
        rt_schedule (if rt_object_is_systemobject (Thread_obj t) k
                     then rt_thread_detach clean t k else rt_thread_delete clean t k)
      else k)"

definition rt_thread_find :: "cstring \<Rightarrow> 'a kernel_scheme \<Rightarrow> obj_id option \<times> 'a kernel_scheme" where
  "rt_thread_find name k = rt_object_find (Some name) RT_Object_Class_Thread k"

section \<open>The clock and interrupts\<close>

definition rt_tick_get :: "'a kernel_scheme \<Rightarrow> u32" where
  "rt_tick_get k = rt_tick k"

definition rt_tick_set :: "u32 \<Rightarrow> 'a kernel_scheme \<Rightarrow> 'a kernel_scheme" where
  "rt_tick_set tick k = k\<lparr>rt_tick := tick\<rparr>"

text \<open>The tick interrupt. It is enabled when the first thread runs, so there is a current
  thread; \<open>None\<close> is a timer check that does not return.\<close>

definition rt_tick_increase :: "'a callback \<Rightarrow> 'a kernel_scheme \<Rightarrow> 'a kernel_scheme option" where
  "rt_tick_increase cb k =
     (let k = k\<lparr>rt_tick := rt_tick k + 1\<rparr>
      in case rt_thread_self k of
           None \<Rightarrow> None
         | Some t \<Rightarrow>
             let k = upd_thread t (\<lambda>th. th\<lparr>remaining_tick := remaining_tick th - 1\<rparr>) k;
                 k = (if remaining_tick (thread k t) = 0
                      then rt_schedule (upd_thread t (\<lambda>th. th\<lparr>remaining_tick := init_tick th,
                                          stat := stat th OR RT_THREAD_STAT_YIELD\<rparr>) k)
                      else k)
             in rt_timer_check cb k)"

definition rt_tick_get_millisecond :: "'a kernel_scheme \<Rightarrow> u32" where
  "rt_tick_get_millisecond k = rt_tick_get k * (1000 div 1000)"

definition rt_interrupt_enter :: "'a kernel_scheme \<Rightarrow> 'a kernel_scheme" where
  "rt_interrupt_enter k = k\<lparr>rt_interrupt_nest := rt_interrupt_nest k + 1\<rparr>"

definition rt_interrupt_leave :: "'a kernel_scheme \<Rightarrow> 'a kernel_scheme" where
  "rt_interrupt_leave k = k\<lparr>rt_interrupt_nest := rt_interrupt_nest k - 1\<rparr>"

definition rt_interrupt_get_nest :: "'a kernel_scheme \<Rightarrow> u8" where
  "rt_interrupt_get_nest k = rt_interrupt_nest k"

subsection \<open>The error number\<close>

text \<open>Of the running thread, or the global one in interrupts and before the scheduler starts;
  \<open>rt_errno_place\<close> is the place whose address \<open>_rt_errno\<close> returns.\<close>

datatype errno_place = Global_errno | Thread_errno tid

definition rt_errno_place :: "'a kernel_scheme \<Rightarrow> errno_place" where
  "rt_errno_place k =
     (if rt_interrupt_get_nest k \<noteq> 0 then Global_errno
      else case rt_thread_self k of Some t \<Rightarrow> Thread_errno t | None \<Rightarrow> Global_errno)"

definition rt_get_errno :: "'a kernel_scheme \<Rightarrow> rt_err" where
  "rt_get_errno k =
     (if rt_interrupt_get_nest k \<noteq> 0 then rt_errno k
      else case rt_thread_self k of None \<Rightarrow> rt_errno k | Some t \<Rightarrow> error (thread k t))"

definition rt_set_errno :: "rt_err \<Rightarrow> 'a kernel_scheme \<Rightarrow> 'a kernel_scheme" where
  "rt_set_errno e k =
     (if rt_interrupt_get_nest k \<noteq> 0 then k\<lparr>rt_errno := e\<rparr>
      else case rt_thread_self k of
             None \<Rightarrow> k\<lparr>rt_errno := e\<rparr>
           | Some t \<Rightarrow> upd_thread t (\<lambda>th. th\<lparr>error := e\<rparr>) k)"

lemma rt_get_set_errno [simp]: "rt_get_errno (rt_set_errno e k) = e"
  by (simp add: rt_get_errno_def rt_set_errno_def rt_interrupt_get_nest_def rt_thread_self_def upd_thread_def split: option.split)

section \<open>The idle thread\<close>

definition idle_tid :: tid where "idle_tid = 0"

fun hook_replace :: "nat option \<Rightarrow> nat option \<Rightarrow> nat option list \<Rightarrow> nat option list option" where
  "hook_replace old new [] = None"
| "hook_replace old new (h # hs) =
     (if h = old then Some (new # hs) else map_option (Cons h) (hook_replace old new hs))"

definition rt_thread_idle_sethook :: "nat option \<Rightarrow> 'a kernel_scheme \<Rightarrow> rt_err \<times> 'a kernel_scheme" where
  "rt_thread_idle_sethook hook k =
     (case hook_replace None hook (idle_hook_list k) of
        None \<Rightarrow> (- RT_EFULL, k) | Some hs \<Rightarrow> (RT_EOK, k\<lparr>idle_hook_list := hs\<rparr>))"

definition rt_thread_idle_delhook :: "nat option \<Rightarrow> 'a kernel_scheme \<Rightarrow> rt_err \<times> 'a kernel_scheme" where
  "rt_thread_idle_delhook hook k =
     (case hook_replace hook None (idle_hook_list k) of
        None \<Rightarrow> (- RT_ENOSYS, k) | Some hs \<Rightarrow> (RT_EOK, k\<lparr>idle_hook_list := hs\<rparr>))"

text \<open>One round of the reclaiming loop for the thread taken off the defunct list.
  \<open>free\<close> returns a block to the kernel heap.\<close>

definition defunct_one :: "'a cleanup_fn \<Rightarrow> (addr \<Rightarrow> 'a kernel_scheme \<Rightarrow> 'a kernel_scheme) \<Rightarrow> tid \<Rightarrow> 'a kernel_scheme \<Rightarrow> 'a kernel_scheme" where
  "defunct_one clean free t k =
     (let k = (case cleanup (thread k t) of None \<Rightarrow> k | Some f \<Rightarrow> clean f t k)
      in if rt_object_is_systemobject (Thread_obj t) k then rt_object_detach (Thread_obj t) k
         else rt_object_delete (Thread_obj t) (free (stack_addr (thread k t)) k))"

partial_function (option) rt_defunct_execute ::
    "'a cleanup_fn \<Rightarrow> (addr \<Rightarrow> 'a kernel_scheme \<Rightarrow> 'a kernel_scheme) \<Rightarrow> 'a kernel_scheme \<Rightarrow> 'a kernel_scheme option" where
  "rt_defunct_execute clean free k =
     (case rt_thread_defunct_dequeue k of
        (None, k) \<Rightarrow> Some k
      | (Some t, k) \<Rightarrow> rt_defunct_execute clean free (defunct_one clean free t k))"

definition idle_hooks_run :: "(nat \<Rightarrow> 'a kernel_scheme \<Rightarrow> 'a kernel_scheme) \<Rightarrow> 'a kernel_scheme \<Rightarrow> 'a kernel_scheme" where
  "idle_hooks_run hook k =
     fold (\<lambda>i k. case idle_hook_list k ! i of None \<Rightarrow> k | Some h \<Rightarrow> hook h k) [0..<4] k"

text \<open>One round of \<open>rt_thread_idle_entry\<close>'s endless loop.\<close>

definition rt_thread_idle_entry_round ::
    "(nat \<Rightarrow> 'a kernel_scheme \<Rightarrow> 'a kernel_scheme) \<Rightarrow> 'a cleanup_fn \<Rightarrow> (addr \<Rightarrow> 'a kernel_scheme \<Rightarrow> 'a kernel_scheme) \<Rightarrow> 'a kernel_scheme \<Rightarrow> 'a kernel_scheme option" where
  "rt_thread_idle_entry_round hook clean free k = rt_defunct_execute clean free (idle_hooks_run hook k)"

text \<open>\<^verbatim>\<open>"tidle0"\<close>, priority 31, 32 ticks; the entry, stack and names are addresses and
  strings of the image.\<close>

definition rt_thread_idle_init :: "addr \<Rightarrow> addr \<Rightarrow> u32 \<Rightarrow> 'a kernel_scheme \<Rightarrow> 'a kernel_scheme" where
  "rt_thread_idle_init ent stack stk_size k =
     rt_thread_startup idle_tid
       (rt_thread_init idle_tid [0x74, 0x69, 0x64, 0x6C, 0x65, 0x30] ent 0 stack stk_size 31 32 k)"

definition rt_thread_idle_gethandler :: tid where
  "rt_thread_idle_gethandler = idle_tid"

section \<open>The timer thread\<close>

text \<open>A round of \<open>_timer_thread_entry\<close> up to the point where it may block; the check of the
  soft timers follows when the thread goes on.\<close>

definition timer_thread_wait :: "'a kernel_scheme \<Rightarrow> 'a kernel_scheme" where
  "timer_thread_wait k =
     (let next_timeout = timer_list_next_timeout Soft k
      in if next_timeout = RT_TICK_MAX then
           (case rt_thread_self k of None \<Rightarrow> k | Some t \<Rightarrow> rt_schedule (snd (rt_thread_suspend t k)))
         else if next_timeout - rt_tick k < RT_TICK_HALF
         then rt_thread_sleep (next_timeout - rt_tick k) k
         else k)"

definition rt_system_timer_thread_init :: "addr \<Rightarrow> addr \<Rightarrow> u32 \<Rightarrow> 'a kernel_scheme \<Rightarrow> 'a kernel_scheme" where
  "rt_system_timer_thread_init ent stack stk_size k =
     rt_thread_startup timer_thread
       (rt_thread_init timer_thread [0x74, 0x69, 0x6D, 0x65, 0x72] ent 0 stack stk_size 4 10
          (k\<lparr>timer_row := (timer_row k)(Soft := [])\<rparr>))"

section \<open>Invariant lemmas\<close>

text \<open>Changing a thread that is not ready: its state may change when it is on no list.\<close>

lemma sched_inv_upd_thread:
  assumes inv: "sched_inv k" and nr: "tstat k t \<noteq> 1" and s: "s = stat (f (thread k t)) AND 7" "s \<noteq> 1"
    and u: "s = tstat k t \<or> unlinked k t"
    and m: "s \<noteq> 0 \<Longrightarrow> s \<noteq> 4 \<Longrightarrow> mask_ok (upd_thread t f k) t"
    and c: "s = 3 \<Longrightarrow> rt_current_thread k = Some t"
  shows "sched_inv (upd_thread t f k)"
proof -
  let ?k = "upd_thread t f k"
  have rq: "rq_inv k" and ci: "cur_inv k" using inv by (auto simp: sched_inv_def)
  have S: "tstat ?k = (tstat k)(t := s)" using s(1) by simp
  have P: "prio ?k x = prio k x" "mask_ok ?k x = mask_ok k x" if "x \<noteq> t" for x
    using that by (simp_all add: mask_ok_def)
  have n: "t \<notin> set (tlist k (Ready p))" for p using rq_ready_prio [OF rq, of t p] nr by auto
  have w: "x = t \<Longrightarrow> s = tstat k t" if "x \<in> set (tlist k l)" for x l
    using u that by (auto simp: unlinked_def)
  have "rq_inv ?k"
  proof (rule rq_invI)
    show "lists_ok ?k" using rq_lists [OF rq] by (simp add: lists_ok_def)
    show "tstat ?k x = 1 \<and> prio ?k x = p" if "x \<in> set (tlist ?k (Ready p))" for x p
      using that n rq_ready_prio [OF rq, of x p] P(1) unfolding S by (cases "x = t") auto
    show "x \<in> set (tlist ?k (Ready (prio ?k x)))" if "tstat ?k x = 1" for x
      using that s(2) rq_readyD [OF rq, of x] P(1) unfolding S by (cases "x = t") auto
    show "bit (ready_group ?k) p \<longleftrightarrow> tlist ?k (Ready p) \<noteq> []" for p using rq_group [OF rq] by simp
    show "mask_ok ?k x" if "tstat ?k x \<noteq> 0" "tstat ?k x \<noteq> 4" for x
      using that m rq_mask [OF rq, of x] P(2) unfolding S by (cases "x = t") auto
    show "tstat ?k x = 2" if "x \<in> set (tlist ?k (Suspended a))" for a x
      using that w [of x "Suspended a"] rq_waiting(1) [OF rq] unfolding S by auto
    show "tstat ?k x = 2" if "x \<in> set (tlist ?k (Senders a))" for a x
      using that w [of x "Senders a"] rq_waiting(2) [OF rq] unfolding S by auto
    show "tstat ?k x = 4" if "x \<in> set (tlist ?k Defunct)" for x
      using that w [of x Defunct] rq_waiting(3) [OF rq] unfolding S by auto
  qed
  moreover have "cur_inv ?k" using ci c s(2) unfolding cur_inv_def S by (auto split: if_splits)
  ultimately show ?thesis by (simp add: sched_inv_def)
qed

lemma critical_tstat:
  assumes "sched_inv k"
  shows "tstat (rt_exit_critical (rt_enter_critical k)) t = tstat k t
    \<or> tstat k t \<in> {1, 3} \<and> tstat (rt_exit_critical (rt_enter_critical k)) t \<in> {1, 3}"
proof -
  let ?k = "k\<lparr>rt_scheduler_lock_nest := 0\<rparr>"
  have "sched_inv ?k" using assms by (simp add: sched_inv_lock_nest)
  then show ?thesis using rt_schedule_tstat [of ?k t]
    by (simp add: rt_exit_critical_def rt_enter_critical_def Let_def)
qed

lemma timer_flag_critical [simp]:
  "timer_flag (rt_exit_critical k) = timer_flag k" "timer_flag (rt_enter_critical k) = timer_flag k"
  by (simp_all add: timer_flag_def fun_eq_iff)

lemma critical_kernel_inv:
  assumes "kernel_inv k"
  shows "kernel_inv (rt_exit_critical (rt_enter_critical k))"
proof -
  have k: "sched_inv k" "timer_inv k" using assms by (auto simp: kernel_inv_def)
  have "timer_inv (rt_exit_critical (rt_enter_critical k))"
  proof (rule timer_inv_tstat [OF k(2)])
    fix t
    show "tstat (rt_exit_critical (rt_enter_critical k)) t = tstat k t \<or> tstat k t \<noteq> 0 \<and>
        tstat (rt_exit_critical (rt_enter_critical k)) t \<noteq> 0 \<and> Thread_timer t \<notin> set (timer_row k Hard)"
      using critical_tstat [OF k(1), of t] timer_invD(4) [OF k(2), of t] by auto
  qed simp_all
  with k show ?thesis by (simp add: kernel_inv_def rt_enter_critical_inv rt_exit_critical_inv)
qed

lemma object_list_sel [simp]:
  "timer_flag (object_list_insert ty b k) = timer_flag k" "timer_flag (object_list_remove b k) = timer_flag k"
  "timer_row (object_list_insert ty b k) = timer_row k" "timer_row (object_list_remove b k) = timer_row k"
  "timer (object_list_insert ty b k) = timer k" "timer (object_list_remove b k) = timer k"
  "tstat (object_list_insert ty b k) = tstat k" "tstat (object_list_remove b k) = tstat k"
  "tlist (object_list_insert ty b k) = tlist k" "tlist (object_list_remove b k) = tlist k"
  "thread (object_list_insert ty b k) = thread k" "thread (object_list_remove b k) = thread k"
  "sched_inv (object_list_insert ty b k) = sched_inv k" "sched_inv (object_list_remove b k) = sched_inv k"
  by (simp_all add: object_list_insert_def object_list_remove_def timer_flag_def fun_eq_iff)

lemma timer_flag_upd_object [simp]:
  "(\<And>ob. obj_flag (f ob) = obj_flag ob) \<Longrightarrow> timer_flag (upd_object b f k) = timer_flag k"
  by (auto simp: timer_flag_def fun_eq_iff)

lemma rt_object_init_flag [simp]: "timer_flag (rt_object_init b ty name k) = timer_flag k"
  by (simp add: rt_object_init_def Let_def)

lemma rt_object_init_kernel_inv [kinv]:
  assumes "kernel_inv k"
  shows "kernel_inv (rt_object_init b ty name k)"
proof -
  let ?k = "rt_exit_critical (rt_enter_critical k)"
  have i: "timer_inv ?k" using critical_kernel_inv [OF assms] by (simp add: kernel_inv_def)
  have "timer_inv (rt_object_init b ty name k)"
    by (rule timer_inv_cong [OF i]) (simp_all add: rt_object_init_def Let_def)
  with assms show ?thesis by (simp add: kernel_inv_def object_sched_inv)
qed

lemma rt_object_init_tstat:
  assumes "sched_inv k" "tstat k t \<notin> {1, 3}"
  shows "tstat (rt_object_init b ty name k) t = tstat k t"
  using critical_tstat [OF assms(1), of t] assms(2) by (auto simp: rt_object_init_def Let_def)

lemma timer_init_inv:
  assumes "kernel_inv k" "\<And>r. x \<notin> set (timer_row k r)"
    and "\<And>t. fn = Rt_thread_timeout t \<Longrightarrow> x = Thread_timer t"
    and "\<And>t. x = Thread_timer t \<Longrightarrow> flag AND 2 = 0 \<and> flag AND 4 = 0 \<and> fn = Rt_thread_timeout t"
  shows "kernel_inv (timer_init x fn time flag k)"
proof -
  let ?k = "timer_init x fn time flag k"
  have k: "sched_inv k" "timer_inv k" using assms(1) by (auto simp: kernel_inv_def)
  have e: "timer_row ?k = timer_row k" "tstat ?k = tstat k"
    "timer_flag ?k = (timer_flag k)(x := flag AND NOT 1)"
    "timer ?k = (timer k)(x := \<lparr>timeout_func = fn, timer_init_tick = time, timeout_tick = 0\<rparr>)"
    by (simp_all add: timer_init_def Let_def)
  have nx: "y \<noteq> x" if "y \<in> set (timer_row k r)" for y r using that assms(2) by auto
  have "timer_inv ?k"
  proof (rule timer_invI)
    show "thread_timer_ok ?k t" for t
      using timer_invD(5) [OF k(2), of t] assms(4) [of t] unfolding thread_timer_ok_def e by auto
    show "y = Thread_timer t" if "timeout_func (timer ?k y) = Rt_thread_timeout t" for y t
      using that timer_invD(7) [OF k(2), of y t] assms(3) unfolding e by (auto split: if_splits)
  qed (use timer_invD(1-4,6,8,9) [OF k(2)] nx in \<open>auto simp: e\<close>)
  with k show ?thesis by (simp add: kernel_inv_def timer_init_def Let_def)
qed

lemma thread_init_inv:
  assumes "kernel_inv k" "tstat k t = 0"
  shows "kernel_inv (thread_init t ent param stk sz priority tick k)"
proof -
  define k1 where "k1 = upd_thread t (\<lambda>th. th\<lparr>entry := ent, parameter := param, stack_addr := stk,
            stack_size := sz, init_priority := priority, current_priority := priority,
            number_mask := 0, init_tick := tick, remaining_tick := tick, error := RT_EOK,
            stat := RT_THREAD_INIT, cleanup := None, user_data := 0\<rparr>) k"
  have k: "sched_inv k" "timer_inv k" using assms by (auto simp: kernel_inv_def)
  have "sched_inv k1" unfolding k1_def
    by (rule sched_inv_upd_thread [OF k(1), of _ 0]) (simp_all add: assms(2))
  moreover have "timer_inv k1" unfolding k1_def
    by (rule timer_inv_cong [OF k(2)]) (auto simp: assms(2))
  ultimately have i1: "kernel_inv k1" by (simp add: kernel_inv_def)
  let ?k2 = "rt_object_init (Timer_obj (Thread_timer t)) 10 (obj_name (object k1 (Thread_obj t))) k1"
  have i2: "kernel_inv ?k2" by (rule rt_object_init_kernel_inv [OF i1])
  have "Thread_timer t \<notin> set (timer_row k r)" for r using timer_invD(6) [OF k(2), of t r] assms(2) by auto
  then have "kernel_inv (timer_init (Thread_timer t) (Rt_thread_timeout t) 0 0 ?k2)"
    by (intro timer_init_inv [OF i2]) (auto simp: k1_def)
  then show ?thesis by (simp add: thread_init_def Let_def rt_timer_init_def k1_def)
qed

lemma rt_thread_init_inv [kinv]:
  assumes "kernel_inv k" "tstat k t = 0"
  shows "kernel_inv (rt_thread_init t name ent param stk sz priority tick k)"
  unfolding rt_thread_init_def using assms
  by (intro thread_init_inv rt_object_init_kernel_inv) (simp_all add: rt_object_init_tstat kernel_inv_def)

lemma mask_ok_push_bit:
  "prio k t < 32 \<Longrightarrow> number_mask (thread k t) = push_bit (prio k t) 1 \<Longrightarrow> mask_ok k t"
  by (simp add: mask_ok_def push_bit_eq_mult)

text \<open>The state \<open>rt_thread_startup\<close> hands to \<open>rt_thread_resume\<close>.\<close>

lemma startup_suspended_inv:
  assumes "kernel_inv k" "tstat k t = 0" "unat (init_priority (thread k t)) < 32"
    and "timeout_func (timer k (Thread_timer t)) = Rt_thread_timeout t"
    and f: "\<And>th. f th = th\<lparr>current_priority := init_priority th,
      number_mask := push_bit (unat (init_priority th)) 1, stat := 2\<rparr>"
  shows "kernel_inv (upd_thread t f k)"
proof -
  have k: "sched_inv k" "timer_inv k" using assms(1) by (auto simp: kernel_inv_def)
  have u: "unlinked k t" using rq_unlinked [of k t] k(1) assms(2) by (simp add: sched_inv_def)
  have "sched_inv (upd_thread t f k)"
    by (rule sched_inv_upd_thread [OF k(1), of t 2])
      (use assms(2,3) u f in \<open>auto intro!: mask_ok_push_bit\<close>)
  moreover have "timer_inv (upd_thread t f k)"
  proof (rule timer_invI)
    show "thread_timer_ok (upd_thread t f k) x" for x
      using timer_invD(5) [OF k(2), of x] assms(4) by (auto simp: thread_timer_ok_def f)
    show "tstat (upd_thread t f k) x \<noteq> 0" if "Thread_timer x \<in> set (timer_row (upd_thread t f k) r)" for x r
      using that timer_invD(6) [OF k(2), of x r] by (auto simp: f)
    show "tstat (upd_thread t f k) x = 2" if "Thread_timer x \<in> set (timer_row (upd_thread t f k) Hard)" for x
      using that timer_invD(4) [OF k(2), of x] by (auto simp: f)
  qed (use timer_invD(1-3,7-9) [OF k(2)] in auto)
  ultimately show ?thesis by (simp add: kernel_inv_def)
qed

lemma upd_thread_twice: "upd_thread t g (upd_thread t f k) = upd_thread t (\<lambda>th. g (f th)) k"
  by (simp add: upd_thread_def)

lemma rt_thread_startup_unfold:
  "rt_thread_startup t k =
     (let k = snd (rt_thread_resume t (upd_thread t (\<lambda>th. th\<lparr>current_priority := init_priority th,
        number_mask := push_bit (unat (init_priority th)) 1, stat := 2\<rparr>) k))
      in if rt_thread_self k \<noteq> None then rt_schedule k else k)"
  by (simp add: rt_thread_startup_def upd_thread_twice Let_def)

lemma rt_thread_startup_inv [kinv]:
  assumes "kernel_inv k" "tstat k t = 0" "unat (init_priority (thread k t)) < 32"
    and "timeout_func (timer k (Thread_timer t)) = Rt_thread_timeout t"
  shows "kernel_inv (rt_thread_startup t k)"
  unfolding rt_thread_startup_unfold Let_def
  using startup_suspended_inv [OF assms] by (simp add: rt_thread_resume_inv rt_schedule_kernel_inv)

subsection \<open>Closing a thread\<close>

lemma rt_timer_detach_sel [simp]:
  "timer_row (rt_timer_detach x k) = (\<lambda>r. removeAll x (timer_row k r))"
  "timer (rt_timer_detach x k) = timer k" "tstat (rt_timer_detach x k) = tstat k"
  "timer_flag (rt_timer_detach x k) = (timer_flag k)(x := timer_flag k x AND NOT 1)"
  "thread (rt_timer_detach x k) = thread k" "tlist (rt_timer_detach x k) = tlist k"
  "sched_inv (rt_timer_detach x k) = sched_inv k"
  "obj_type (object (rt_timer_detach x k) (Thread_obj t)) = obj_type (object k (Thread_obj t))"
  by (simp_all add: rt_timer_detach_def rt_object_detach_def) (simp add: object_list_remove_def)

lemma timer_inv_detach: "timer_inv k \<Longrightarrow> timer_inv (rt_timer_detach x k)"
  by (rule timer_inv_sub) (auto simp: timer_invD(1) family_ok_remove)

lemma rt_object_detach_sel [simp]:
  "timer_row (rt_object_detach b k) = timer_row k" "timer (rt_object_detach b k) = timer k"
  "tstat (rt_object_detach b k) = tstat k" "timer_flag (rt_object_detach b k) = timer_flag k"
  "thread (rt_object_detach b k) = thread k" "tlist (rt_object_detach b k) = tlist k"
  "sched_inv (rt_object_detach b k) = sched_inv k"
  "timer_row (rt_object_delete b k) = timer_row k" "timer (rt_object_delete b k) = timer k"
  "tstat (rt_object_delete b k) = tstat k" "timer_flag (rt_object_delete b k) = timer_flag k"
  "thread (rt_object_delete b k) = thread k" "tlist (rt_object_delete b k) = tlist k"
  "sched_inv (rt_object_delete b k) = sched_inv k"
  by (simp_all add: rt_object_detach_def rt_object_delete_def)

lemma kernel_inv_object_detach [kinv]:
  "kernel_inv k \<Longrightarrow> kernel_inv (rt_object_detach b k)" "kernel_inv k \<Longrightarrow> kernel_inv (rt_object_delete b k)"
  by (auto simp: kernel_inv_def intro: timer_inv_cong)

lemma defunct_enqueue_inv:
  assumes "kernel_inv k" "tstat k t = 4" "unlinked k t"
  shows "kernel_inv (rt_thread_defunct_enqueue t k)"
proof -
  let ?k = "tlist_push_front Defunct t k"
  have k: "sched_inv k" "timer_inv k" using assms(1) by (auto simp: kernel_inv_def)
  have rq: "rq_inv k" and ci: "cur_inv k" using k(1) by (auto simp: sched_inv_def)
  have "rq_inv ?k"
  proof (rule rq_invI)
    show "lists_ok ?k"
      using rq_lists [OF rq] assms(3) by (simp add: lists_ok_def unlinked_def family_ok_push_front)
  qed (use assms(2) rq_ready_prio [OF rq] rq_readyD [OF rq] rq_group [OF rq] rq_mask [OF rq] rq_waiting [OF rq] in auto)
  moreover have "cur_inv ?k" using ci by (simp add: cur_inv_def)
  moreover have "timer_inv ?k" by (rule timer_inv_cong [OF k(2)]) simp_all
  ultimately show ?thesis by (simp add: rt_thread_defunct_enqueue_def kernel_inv_def sched_inv_def)
qed

text \<open>Taking a thread off its list, detaching its timer and closing it, in either order.\<close>

lemma close_inv:
  assumes "kernel_inv k" "tstat k t \<noteq> 4"
    and "tstat k t = 0 \<Longrightarrow> timeout_func (timer k (Thread_timer t)) = Rt_thread_timeout t"
  defines "k1 \<equiv> (if tstat k t \<noteq> 0 then rt_schedule_remove_thread t k else k)"
  shows "kernel_inv (upd_thread t (\<lambda>th. th\<lparr>stat := 4\<rparr>) (rt_timer_detach (Thread_timer t) k1))"
    "unlinked k1 t"
proof -
  let ?f = "\<lambda>th. th\<lparr>stat := 4\<rparr>"
  let ?k = "upd_thread t ?f (rt_timer_detach (Thread_timer t) k1)"
  have k: "sched_inv k" "timer_inv k" using assms(1) by (auto simp: kernel_inv_def)
  have rq: "rq_inv k" and ci: "cur_inv k" using k(1) by (auto simp: sched_inv_def)
  show u1: "unlinked k1 t" using rq_unlinked [OF rq, of t] by (auto simp: k1_def unlinked_def)
  have s1: "sched_inv (upd_thread t ?f k1)"
  proof (cases "tstat k t = 0")
    case True
    then show ?thesis
      using u1 by (intro sched_inv_upd_thread [OF _ _ refl]) (auto simp: k1_def k)
  next
    case False
    have m: "mask_ok k t" using rq_mask [OF rq False assms(2)] .
    have "rq_inv (upd_thread t ?f (rt_schedule_remove_thread t k))" by (rule rq_inv_remove [OF rq m]) simp_all
    moreover have "cur_inv (upd_thread t ?f (rt_schedule_remove_thread t k))"
      using ci unfolding cur_inv_def by (auto split: if_splits)
    ultimately show ?thesis using False by (simp add: k1_def sched_inv_def)
  qed
  have "sched_inv ?k = sched_inv (upd_thread t ?f k1)"
    by (rule sched_inv_cong) (auto simp: rt_timer_detach_def rt_object_detach_def object_list_remove_def prio_def fun_eq_iff)
  with s1 have "sched_inv ?k" by simp
  moreover have "timer_inv ?k"
  proof -
    have "timer_inv k1" by (rule timer_inv_cong [OF k(2)]) (simp_all add: k1_def)
    then have d: "timer_inv (rt_timer_detach (Thread_timer t) k1)" by (rule timer_inv_detach)
    show ?thesis
    proof (rule timer_invI)
      show "thread_timer_ok ?k x" for x
        using timer_invD(5) [OF d, of x] assms(3) by (auto simp: thread_timer_ok_def k1_def split: if_splits)
      show "tstat ?k x \<noteq> 0" if "Thread_timer x \<in> set (timer_row ?k r)" for x r
        using that timer_invD(6) [OF d, of x r] by auto
      show "tstat ?k x = 2" if "Thread_timer x \<in> set (timer_row ?k Hard)" for x
        using that timer_invD(4) [OF d, of x] by auto
    qed (use timer_invD(1-3,7-9) [OF d] in auto)
  qed
  ultimately show "kernel_inv ?k" by (simp add: kernel_inv_def)
qed

lemma close_finish_inv:
  assumes "kernel_inv k" "tstat k t = 4" "unlinked k t"
  shows "kernel_inv (if rt_object_is_systemobject (Thread_obj t) k then rt_object_detach (Thread_obj t) k
    else rt_thread_defunct_enqueue t k)"
  using assms by (simp add: kernel_inv_object_detach defunct_enqueue_inv)

lemma rt_thread_detach_inv [kinv]:
  assumes "kernel_inv k" "cleanup (thread k t) = None"
    and "tstat k t = 0 \<Longrightarrow> timeout_func (timer k (Thread_timer t)) = Rt_thread_timeout t"
  shows "kernel_inv (rt_thread_detach clean t k)" "kernel_inv (rt_thread_delete clean t k)"
proof -
  let ?k1 = "if tstat k t \<noteq> 0 then rt_schedule_remove_thread t k else k"
  let ?k2 = "upd_thread t (\<lambda>th. th\<lparr>stat := 4\<rparr>) (rt_timer_detach (Thread_timer t) ?k1)"
  have c: "thread_cleanup_execute clean t ?k1 = ?k1" using assms(2) by (simp add: thread_cleanup_execute_def)
  have i: "kernel_inv ?k2" "unlinked ?k2 t" "tstat ?k2 t = 4" if "tstat k t \<noteq> 4"
    using close_inv [OF assms(1) that assms(3)] by (auto simp: unlinked_def)
  show "kernel_inv (rt_thread_detach clean t k)"
    unfolding rt_thread_detach_def Let_def c using assms(1) close_finish_inv [OF i(1,3,2)] by simp
  show "kernel_inv (rt_thread_delete clean t k)"
    unfolding rt_thread_delete_def Let_def c using assms(1) defunct_enqueue_inv [OF i(1,3,2)] by simp
qed


lemma timer_detach_upd_thread:
  "rt_timer_detach x (upd_thread t f k) = upd_thread t f (rt_timer_detach x k)"
  by (simp add: rt_timer_detach_def rt_object_detach_def object_list_remove_def upd_timer_flag_def
      timer_remove_def upd_thread_def upd_object_def)

lemma thread_exit_inv [kinv]:
  assumes "kernel_inv k" "cleanup (thread k t) = None" "tstat k t \<noteq> 0" "tstat k t \<noteq> 4"
  shows "kernel_inv (thread_exit clean t k)"
proof -
  let ?k2 = "upd_thread t (\<lambda>th. th\<lparr>stat := 4\<rparr>) (rt_timer_detach (Thread_timer t) (rt_schedule_remove_thread t k))"
  have "kernel_inv ?k2" "unlinked ?k2 t" "tstat ?k2 t = 4"
    using close_inv [OF assms(1,4)] assms(3) by (auto simp: unlinked_def)
  then have "kernel_inv (if rt_object_is_systemobject (Thread_obj t) ?k2 then rt_object_detach (Thread_obj t) ?k2
    else rt_thread_defunct_enqueue t ?k2)" by (intro close_finish_inv)
  from rt_schedule_kernel_inv [OF this] show ?thesis
    unfolding thread_exit_def Let_def thread_cleanup_execute_def assms(2) option.case timer_detach_upd_thread .
qed

subsection \<open>Waiting\<close>

lemma kernel_inv_upd_same:
  assumes "kernel_inv k" "\<And>th. stat (f th) AND 7 = stat th AND 7"
    "\<And>th. current_priority (f th) = current_priority th" "\<And>th. number_mask (f th) = number_mask th"
  shows "kernel_inv (upd_thread t f k)"
proof -
  have e: "tstat (upd_thread t f k) = tstat k" "prio (upd_thread t f k) = prio k"
    using assms(2,3) by (auto simp: tstat_def prio_def fun_eq_iff)
  have "sched_inv (upd_thread t f k) = sched_inv k"
    by (rule sched_inv_cong) (use e assms(4) in \<open>auto simp del: tstat_upd_thread prio_upd_thread\<close>)
  moreover have "timer_inv (upd_thread t f k)" if "timer_inv k"
    by (rule timer_inv_cong [OF that]) (use e in \<open>auto simp del: tstat_upd_thread\<close>)
  ultimately show ?thesis using assms(1) by (simp add: kernel_inv_def)
qed

lemma rt_thread_yield_inv [kinv]: "kernel_inv k \<Longrightarrow> kernel_inv (rt_thread_yield k)"
  by (auto simp: rt_thread_yield_def intro!: rt_schedule_kernel_inv kernel_inv_upd_same split: option.split)

lemma rt_timer_control_inv [kinv]:
  assumes "kernel_inv k" "cmd \<noteq> 3 \<or> (\<forall>t. x \<noteq> Thread_timer t)"
  shows "kernel_inv (snd (rt_timer_control x cmd arg k))"
proof -
  have k: "sched_inv k" "timer_inv k" using assms(1) by (auto simp: kernel_inv_def)
  have z: "(f AND NOT 2) AND 2 = (0 :: u8)" "(f AND NOT 2) AND 1 = f AND (1 :: u8)"
    "(f AND NOT 2) AND 4 = f AND (4 :: u8)" "(f OR 2) AND 1 = f AND (1 :: u8)" "(f OR 2) AND 4 = f AND (4 :: u8)" for f
    by (simp_all add: and.assoc word_ao_dist)
  have f2: "timer_inv (upd_timer_flag x (\<lambda>f. f AND NOT 2) k)"
    by (rule timer_invI) (use timer_invD [OF k(2)] in \<open>auto simp: thread_timer_ok_def z z [simplified]\<close>)
  have f3: "timer_inv (upd_timer_flag x (\<lambda>f. f OR 2) k)" if "\<forall>t. x \<noteq> Thread_timer t"
    by (rule timer_invI) (use that timer_invD [OF k(2)] in \<open>auto simp: thread_timer_ok_def z z [simplified]\<close>)
  have f0: "timer_inv (upd_timer x (\<lambda>tm. tm\<lparr>timer_init_tick := arg\<rparr>) k)"
    by (rule timer_invI) (use timer_invD [OF k(2)] in \<open>auto simp: thread_timer_ok_def split: if_splits\<close>)
  show ?thesis using k f0 f2 f3 assms(2) by (auto simp: rt_timer_control_def kernel_inv_def)
qed

lemma rt_timer_control_sel [simp]:
  "tstat (snd (rt_timer_control x cmd arg k)) = tstat k"
  "timer_row (snd (rt_timer_control x cmd arg k)) = timer_row k"
  "rt_tick (snd (rt_timer_control x cmd arg k)) = rt_tick k"
  "thread (snd (rt_timer_control x cmd arg k)) = thread k"
  "rt_current_thread (snd (rt_timer_control x cmd arg k)) = rt_current_thread k"
  by (simp_all add: rt_timer_control_def)

lemma thread_wait_inv:
  assumes "kernel_inv k" "tstat k t \<in> {1, 2, 3}"
  shows "kernel_inv (thread_wait t tick k)"
proof -
  let ?k = "snd (rt_thread_suspend t k)"
  have "kernel_inv (snd (rt_timer_control (Thread_timer t) 0 tick ?k))"
    using rt_thread_suspend_inv [OF assms(1)] by (intro rt_timer_control_inv) auto
  moreover have "tstat ?k t = 2"
    using assms(2) rt_thread_suspend_effect(2) [of k t] by (cases "tstat k t = 2") (auto simp: rt_thread_suspend_def)
  ultimately show ?thesis unfolding thread_wait_def Let_def by (intro rt_timer_start_inv) auto
qed

lemma rt_thread_sleep_inv [kinv]:
  assumes "kernel_inv k" "rt_current_thread k = Some t" "tstat k t \<in> {1, 2, 3}"
  shows "kernel_inv (rt_thread_sleep tick k)" "kernel_inv (snd (rt_thread_delay_until old inc k))"
  using thread_wait_inv [OF assms(1,3)] assms(1,2)
  by (auto simp: rt_thread_sleep_def rt_thread_delay_until_def rt_thread_self_def Let_def rt_schedule_kernel_inv)

lemma rt_thread_sleep_end_inv [kinv]: "kernel_inv k \<Longrightarrow> kernel_inv (rt_thread_sleep_end t k)"
  by (auto simp: rt_thread_sleep_end_def intro: kernel_inv_upd_same)

subsection \<open>Changing a priority\<close>

lemma change_priority_unfold:
  "rt_thread_control clean t 2 p k =
     (let f = (\<lambda>th. th\<lparr>current_priority := p, number_mask := push_bit (unat p) 1\<rparr>)
      in if tstat k t = 1 then rt_schedule_insert_thread t (upd_thread t f (rt_schedule_remove_thread t k))
         else upd_thread t f k)"
  by (simp add: rt_thread_control_def upd_thread_twice Let_def)

text \<open>A thread that is being moved between ready queues is on none, in a state of its own
  (here: closed), so the queue lemmas apply to the two halves of the move.\<close>

lemma upd_thread_cong: "f (thread k t) = g (thread k t) \<Longrightarrow> upd_thread t f k = upd_thread t g k"
  by (simp add: upd_thread_def)

lemma insert_thread_stat_irrelevant:
  assumes "current_priority (f (thread k t)) = current_priority (g (thread k t))"
    "number_mask (f (thread k t)) = number_mask (g (thread k t))"
    "\<And>th. \<exists>s. f th = (g th)\<lparr>stat := s\<rparr>" "stat (f (thread k t)) AND NOT 7 = stat (g (thread k t)) AND NOT 7"
  shows "rt_schedule_insert_thread t (upd_thread t f k) = rt_schedule_insert_thread t (upd_thread t g k)"
proof -
  obtain s where s: "f (thread k t) = (g (thread k t))\<lparr>stat := s\<rparr>" using assms(3) by blast
  have "set_stat t v (upd_thread t f k) = set_stat t v (upd_thread t g k)" for v
    using assms(4) s unfolding set_stat_def upd_thread_twice by (intro upd_thread_cong) simp
  moreover have "rt_current_thread (upd_thread t f k) = rt_current_thread (upd_thread t g k)" by simp
  ultimately show ?thesis unfolding rt_schedule_insert_thread_def by presburger
qed

lemma change_priority_inv [kinv]:
  assumes "kernel_inv k" "unat p < 32"
  shows "kernel_inv (rt_thread_control clean t 2 p k)"
proof -
  have k: "sched_inv k" "timer_inv k" using assms(1) by (auto simp: kernel_inv_def)
  have rq: "rq_inv k" and ci: "cur_inv k" using k(1) by (auto simp: sched_inv_def)
  let ?f = "\<lambda>th. th\<lparr>current_priority := p, number_mask := push_bit (unat p) 1\<rparr>"
  show ?thesis
  proof (cases "tstat k t = 1")
    case False
    have "sched_inv (upd_thread t ?f k)"
      by (rule sched_inv_upd_thread [OF k(1) False refl])
        (use False ci assms(2) in \<open>auto simp: tstat_def cur_inv_def intro!: mask_ok_push_bit\<close>)
    moreover have "timer_inv (upd_thread t ?f k)"
      by (rule timer_inv_cong [OF k(2)]) (auto simp: tstat_def fun_eq_iff)
    ultimately show ?thesis using False by (simp add: change_priority_unfold kernel_inv_def Let_def)
  next
    case True
    let ?r = "rt_schedule_remove_thread t k"
    let ?g = "\<lambda>th. ?f (th\<lparr>stat := 4 OR (stat th AND NOT 7)\<rparr>)"
    have m: "mask_ok k t" using rq_mask [OF rq] True by simp
    have "rq_inv (upd_thread t (\<lambda>th. th\<lparr>stat := 4 OR (stat th AND NOT 7)\<rparr>) ?r)"
      by (rule rq_inv_remove [OF rq m]) simp_all
    moreover have c: "rt_current_thread k \<noteq> Some t" using ci True by (auto simp: cur_inv_def)
    ultimately have s: "sched_inv (upd_thread t (\<lambda>th. th\<lparr>stat := 4 OR (stat th AND NOT 7)\<rparr>) ?r)"
      using ci by (auto simp: sched_inv_def cur_inv_def split: if_splits)
    have "sched_inv (upd_thread t ?f (upd_thread t (\<lambda>th. th\<lparr>stat := 4 OR (stat th AND NOT 7)\<rparr>) ?r))"
      by (rule sched_inv_upd_thread [OF s _ refl]) simp_all
    then have g: "sched_inv (upd_thread t ?g ?r)" by (simp only: upd_thread_twice)
    have "sched_inv (rt_schedule_insert_thread t (upd_thread t ?g ?r))"
      by (rule sched_inv_insert [OF g]) (use assms(2) in \<open>auto simp: unlinked_def intro!: mask_ok_push_bit\<close>)
    moreover have "rt_schedule_insert_thread t (upd_thread t ?f ?r) = rt_schedule_insert_thread t (upd_thread t ?g ?r)"
    proof (rule insert_thread_stat_irrelevant)
      show "\<exists>s. ?f th = (?g th)\<lparr>stat := s\<rparr>" for th by (cases th) (rule exI [of _ "stat th"], simp)
      show "stat (?f (thread ?r t)) AND NOT 7 = stat (?g (thread ?r t)) AND NOT 7"
        by (simp add: word_ao_dist and.assoc)
    qed simp_all
    moreover have "timer_inv (rt_schedule_insert_thread t (upd_thread t ?f ?r))"
      by (rule timer_inv_cong [OF k(2)]) (use True c in \<open>auto simp: tstat_insert tstat_def fun_eq_iff\<close>)
    ultimately show ?thesis using True by (simp add: change_priority_unfold kernel_inv_def Let_def)
  qed
qed


subsection \<open>The tick\<close>

lemma kernel_inv_tick [simp]: "kernel_inv (k\<lparr>rt_tick := n\<rparr>) = kernel_inv k"
proof -
  have "timer_inv (k\<lparr>rt_tick := n\<rparr>)" if "timer_inv k" for k :: "'a kernel_scheme" and n
    by (rule timer_inv_cong [OF that]) simp_all
  from this [of k n] this [of "k\<lparr>rt_tick := n\<rparr>" "rt_tick k"] show ?thesis
    using sched_inv_cong [of "k\<lparr>rt_tick := n\<rparr>" k] by (auto simp: kernel_inv_def)
qed

lemma rt_tick_increase_inv [kinv]:
  assumes cb: "\<forall>n k. kernel_inv k \<longrightarrow> kernel_inv (cb n k)" and k: "kernel_inv k"
    and r: "rt_tick_increase cb k = Some k'"
  shows "kernel_inv k'"
proof -
  obtain t where t: "rt_current_thread k = Some t"
    using r by (auto simp: rt_tick_increase_def rt_thread_self_def Let_def split: option.splits)
  let ?k1 = "upd_thread t (\<lambda>th. th\<lparr>remaining_tick := remaining_tick th - 1\<rparr>) (k\<lparr>rt_tick := rt_tick k + 1\<rparr>)"
  let ?k2 = "rt_schedule (upd_thread t (\<lambda>th. th\<lparr>remaining_tick := init_tick th, stat := stat th OR 8\<rparr>) ?k1)"
  have i1: "kernel_inv ?k1" using k by (intro kernel_inv_upd_same) simp_all
  have i2: "kernel_inv ?k2" by (intro rt_schedule_kernel_inv kernel_inv_upd_same [OF i1]) simp_all
  define k3 where "k3 = (if remaining_tick (thread ?k1 t) = 0 then ?k2 else ?k1)"
  have i3: "kernel_inv k3" unfolding k3_def by (rule if_split [THEN iffD2]) (intro conjI impI i1 i2)
  have "timer_check_loop cb (rt_tick k3) k3 = Some k'"
    using r t unfolding rt_tick_increase_def rt_thread_self_def Let_def rt_timer_check_def k3_def by simp
  then show ?thesis by (rule timer_check_loop_inv [OF cb i3])
qed

section \<open>Reachable states\<close>

text \<open>The steps of the system: the calls threads and interrupts make, each under the conditions
  the kernel's documentation puts on its arguments (threads are initialised once before they are
  started, the scheduler is started once and when a thread is ready, priorities are below
  \<open>RT_THREAD_PRIORITY_MAX\<close>, user code does not touch a thread's own timer).\<close>

inductive kernel_step :: "'a callback \<Rightarrow> 'a cleanup_fn \<Rightarrow> 'a kernel_scheme \<Rightarrow> 'a kernel_scheme \<Rightarrow> bool"
  for cb clean where
  step_init: "tstat k t = RT_THREAD_INIT \<Longrightarrow>
     kernel_step cb clean k (rt_thread_init t name ent param stk sz p tick k)"
| step_startup: "tstat k t = RT_THREAD_INIT \<Longrightarrow> timeout_func (timer k (Thread_timer t)) = Rt_thread_timeout t \<Longrightarrow>
     unat (init_priority (thread k t)) < RT_THREAD_PRIORITY_MAX \<Longrightarrow> kernel_step cb clean k (rt_thread_startup t k)"
| step_start: "rt_current_thread k = None \<Longrightarrow> ready_group k \<noteq> 0 \<Longrightarrow>
     kernel_step cb clean k (rt_system_scheduler_start k)"
| step_detach: "tstat k t \<noteq> RT_THREAD_INIT \<Longrightarrow> cleanup (thread k t) = None \<Longrightarrow>
     kernel_step cb clean k (rt_thread_detach clean t k)"
| step_delete: "tstat k t \<noteq> RT_THREAD_INIT \<Longrightarrow> cleanup (thread k t) = None \<Longrightarrow>
     kernel_step cb clean k (rt_thread_delete clean t k)"
| step_exit: "rt_current_thread k = Some t \<Longrightarrow> tstat k t = RT_THREAD_RUNNING \<Longrightarrow> cleanup (thread k t) = None \<Longrightarrow>
     kernel_step cb clean k (thread_exit clean t k)"
| step_yield: "kernel_step cb clean k (rt_thread_yield k)"
| step_sleep: "rt_current_thread k = Some t \<Longrightarrow> tstat k t = RT_THREAD_RUNNING \<Longrightarrow>
     kernel_step cb clean k (rt_thread_sleep tick k)"
| step_delay_until: "rt_current_thread k = Some t \<Longrightarrow> tstat k t = RT_THREAD_RUNNING \<Longrightarrow>
     kernel_step cb clean k (snd (rt_thread_delay_until tick inc k))"
| step_sleep_end: "kernel_step cb clean k (rt_thread_sleep_end t k)"
| step_suspend: "kernel_step cb clean k (snd (rt_thread_suspend t k))"
| step_resume: "kernel_step cb clean k (snd (rt_thread_resume t k))"
| step_priority: "unat p < RT_THREAD_PRIORITY_MAX \<Longrightarrow> kernel_step cb clean k (rt_thread_control clean t 2 p k)"
| step_schedule: "kernel_step cb clean k (rt_schedule k)"
| step_enter: "kernel_step cb clean k (rt_enter_critical k)"
| step_exit_critical: "kernel_step cb clean k (rt_exit_critical k)"
| step_tick: "rt_tick_increase cb k = Some k' \<Longrightarrow> kernel_step cb clean k k'"
| step_timer_init: "x = Timer a \<Longrightarrow> fn = User_timeout n \<Longrightarrow> \<forall>r. x \<notin> set (timer_row k r) \<Longrightarrow>
     kernel_step cb clean k (rt_timer_init x name fn time flag k)"
| step_timer_start: "x = Timer a \<Longrightarrow> kernel_step cb clean k (rt_timer_start x k)"
| step_timer_stop: "x = Timer a \<Longrightarrow> kernel_step cb clean k (snd (rt_timer_stop x k))"
| step_timer_detach: "x = Timer a \<Longrightarrow> kernel_step cb clean k (rt_timer_detach x k)"
| step_timer_control: "x = Timer a \<Longrightarrow> kernel_step cb clean k (snd (rt_timer_control x cmd arg k))"
| step_timer_thread: "rt_current_thread k = Some timer_thread \<Longrightarrow> tstat k timer_thread = RT_THREAD_RUNNING \<Longrightarrow>
     kernel_step cb clean k (timer_thread_wait k)"

lemma exit_critical_kernel_inv [kinv]:
  assumes "kernel_inv k"
  shows "kernel_inv (rt_enter_critical k)" "kernel_inv (rt_exit_critical k)"
proof -
  have n: "kernel_inv (k\<lparr>rt_scheduler_lock_nest := n\<rparr>)" for n
    using assms timer_inv_cong [of k "k\<lparr>rt_scheduler_lock_nest := n\<rparr>"]
    by (simp add: kernel_inv_def sched_inv_lock_nest timer_flag_def fun_eq_iff)
  show "kernel_inv (rt_enter_critical k)" using n by (simp add: rt_enter_critical_def)
  show "kernel_inv (rt_exit_critical k)"
    using n rt_schedule_kernel_inv [OF n] by (simp add: rt_exit_critical_def Let_def)
qed

lemma rt_timer_init_inv [kinv]:
  "kernel_inv k \<Longrightarrow> \<forall>r. x \<notin> set (timer_row k r) \<Longrightarrow> x = Timer a \<Longrightarrow> fn = User_timeout n \<Longrightarrow>
     kernel_inv (rt_timer_init x name fn time flag k)"
  unfolding rt_timer_init_def by (rule timer_init_inv [OF rt_object_init_kernel_inv]) auto

lemma timer_step_inv [kinv]:
  "kernel_inv k \<Longrightarrow> kernel_inv (snd (rt_timer_stop x k))"
  "kernel_inv k \<Longrightarrow> kernel_inv (rt_timer_detach x k)"
  by (auto simp: kernel_inv_def timer_inv_stop timer_inv_detach)

text \<open>Starting the scheduler makes the first thread of the highest ready priority the running one.\<close>

lemma rt_system_scheduler_start_effect:
  assumes "kernel_inv k" "rt_current_thread k = None" "ready_group k \<noteq> 0"
    and "scheduler_get_highest_priority_thread k = (t, p)"
  shows "kernel_inv (rt_system_scheduler_start k)" "rt_current_thread (rt_system_scheduler_start k) = Some t"
    "tstat (rt_system_scheduler_start k) = (tstat k)(t := 3)"
proof -
  have rq: "rq_inv k" and ci: "cur_inv k" and ti: "timer_inv k" using assms(1) by (auto simp: kernel_inv_def sched_inv_def)
  note hr = highest_ready [OF rq assms(3,4)]
  let ?k = "k\<lparr>rt_current_thread := Some t\<rparr>" and ?k' = "rt_system_scheduler_start k"
  have e: "?k' = upd_thread t (\<lambda>th. th\<lparr>stat := 3\<rparr>) (rt_schedule_remove_thread t ?k)"
    using assms(4) by (simp add: rt_system_scheduler_start_def)
  have m: "mask_ok ?k t" using rq_mask [OF rq, of t] hr(3) by (simp add: mask_ok_def prio_def)
  have "rq_inv ?k" using rq by (subst rq_inv_cong [of _ k]) (simp_all add: tstat_def prio_def fun_eq_iff)
  then have r: "rq_inv ?k'" unfolding e using m by (intro rq_inv_remove) simp_all
  show ts: "tstat ?k' = (tstat k)(t := 3)" unfolding e by (simp add: tstat_def fun_eq_iff)
  show c: "rt_current_thread ?k' = Some t" unfolding e by simp
  have "cur_inv ?k'" using ci assms(2) unfolding cur_inv_def ts c by auto
  moreover have "timer_inv ?k'"
  proof (rule timer_inv_tstat [OF ti])
    fix u
    show "tstat ?k' u = tstat k u \<or>
        tstat k u \<noteq> 0 \<and> tstat ?k' u \<noteq> 0 \<and> Thread_timer u \<notin> set (timer_row k Hard)"
      using hr(3) timer_invD(4) [OF ti, of t] unfolding ts by auto
  qed (simp_all add: e timer_flag_def fun_eq_iff)
  ultimately show "kernel_inv ?k'" using r by (simp add: kernel_inv_def sched_inv_def)
qed

lemma rt_system_scheduler_start_inv [kinv]:
  "kernel_inv k \<Longrightarrow> rt_current_thread k = None \<Longrightarrow> ready_group k \<noteq> 0 \<Longrightarrow> kernel_inv (rt_system_scheduler_start k)"
  using rt_system_scheduler_start_effect(1) [of k] by (cases "scheduler_get_highest_priority_thread k") blast

lemma kernel_step_inv:
  assumes cb: "\<forall>n k. kernel_inv k \<longrightarrow> kernel_inv (cb n k)"
    and "kernel_step cb clean k k'" "kernel_inv k"
  shows "kernel_inv k'"
  using assms(2,3)
proof induction
  case (step_tick k k')
  then show ?case using rt_tick_increase_inv [OF cb] by blast
next
  case (step_timer_thread k)
  then show ?case
    by (auto simp: timer_thread_wait_def rt_thread_self_def Let_def
        intro: rt_schedule_kernel_inv rt_thread_suspend_inv rt_thread_sleep_inv)
next
  case (step_sleep k t tick)
  then show ?case by (intro rt_thread_sleep_inv(1)) auto
next
  case (step_delay_until k t tick inc)
  then show ?case by (intro rt_thread_sleep_inv(2)) auto
qed (auto intro: kinv)


section \<open>Sleeping\<close>

lemma row_sorted_schedule [simp]: "row_sorted b (rt_schedule k) r = row_sorted b k r"
  by (simp add: row_sorted_def deadline_def [abs_def])

lemma rt_thread_suspend_sel [simp]:
  "timer (snd (rt_thread_suspend t k)) = timer k" "rt_tick (snd (rt_thread_suspend t k)) = rt_tick k"
  "rt_current_thread (snd (rt_thread_suspend t k)) = rt_current_thread k"
  by (simp_all add: rt_thread_suspend_def Let_def)

text \<open>The state in which \<open>thread_wait\<close> starts the timer.\<close>

definition wait_prepared :: "tid \<Rightarrow> u32 \<Rightarrow> 'a kernel_scheme \<Rightarrow> 'a kernel_scheme" where
  "wait_prepared t tick k = snd (rt_timer_control (Thread_timer t) 0 tick (snd (rt_thread_suspend t k)))"

lemma wait_prepared_effect:
  assumes "kernel_inv k" "tstat k t = 3"
  shows "kernel_inv (wait_prepared t n k)" "tstat (wait_prepared t n k) = (tstat k)(t := 2)"
    "timer_row (wait_prepared t n k) Hard = timer_row k Hard"
    "timer_row (wait_prepared t n k) Hard_firing = removeAll (Thread_timer t) (timer_row k Hard_firing) \<or>
     timer_row (wait_prepared t n k) Hard_firing = timer_row k Hard_firing"
    "timer (wait_prepared t n k) = (timer k)(Thread_timer t := (timer k (Thread_timer t))\<lparr>timer_init_tick := n\<rparr>)"
    "rt_tick (wait_prepared t n k) = rt_tick k"
    "timer_flag (wait_prepared t n k) (Thread_timer t) AND 4 = 0"
    "x \<noteq> Thread_timer t \<Longrightarrow> timer_flag (wait_prepared t n k) x = timer_flag k x"
proof -
  have ti: "timer_inv k" using assms by (simp add: kernel_inv_def)
  have nh: "Thread_timer t \<notin> set (timer_row k Hard)" using timer_invD(4) [OF ti, of t] assms(2) by auto
  show i: "kernel_inv (wait_prepared t n k)"
    unfolding wait_prepared_def using rt_thread_suspend_inv [OF assms(1)] by (intro rt_timer_control_inv) auto
  show "tstat (wait_prepared t n k) = (tstat k)(t := 2)"
    using rt_thread_suspend_effect(2) [of k t] assms(2) by (simp add: wait_prepared_def)
  show "timer_row (wait_prepared t n k) Hard = timer_row k Hard"
    "timer_row (wait_prepared t n k) Hard_firing = removeAll (Thread_timer t) (timer_row k Hard_firing) \<or>
     timer_row (wait_prepared t n k) Hard_firing = timer_row k Hard_firing"
    using assms(2) nh by (auto simp: wait_prepared_def rt_thread_suspend_def rt_timer_stop_def Let_def)
  show "timer (wait_prepared t n k) = (timer k)(Thread_timer t := (timer k (Thread_timer t))\<lparr>timer_init_tick := n\<rparr>)"
    "rt_tick (wait_prepared t n k) = rt_tick k"
    by (simp_all add: wait_prepared_def) (simp add: rt_timer_control_def)
  show "timer_flag (wait_prepared t n k) (Thread_timer t) AND 4 = 0"
    using timer_invD(5) [of "wait_prepared t n k" t] i by (simp add: kernel_inv_def thread_timer_ok_def)
  show "timer_flag (wait_prepared t n k) x = timer_flag k x" if "x \<noteq> Thread_timer t"
    using that assms(2) by (simp add: wait_prepared_def rt_timer_control_def rt_thread_suspend_def rt_timer_stop_flag Let_def)
qed

lemma thread_wait_eq:
  assumes "kernel_inv k" "tstat k t = 3"
  shows "thread_wait t n k = timer_enqueue (Thread_timer t) (wait_prepared t n k)"
  using wait_prepared_effect(7) [OF assms]
  by (simp add: thread_wait_def rt_timer_start_def Let_def wait_prepared_def)

lemma rt_thread_sleep_effect:
  fixes n :: u32
  assumes "kernel_inv k" "rt_current_thread k = Some t" "tstat k t = 3"
  defines "k' \<equiv> rt_thread_sleep n k"
  shows "kernel_inv k'" "tstat k' t = 2" "Thread_timer t \<in> set (timer_row k' Hard)"
    "timeout_tick (timer k' (Thread_timer t)) = rt_tick k + n" "rt_tick k' = rt_tick k"
    "row_sorted b k Hard \<Longrightarrow> unat (rt_tick k - b) + unat n < 0x7FFFFFFF \<Longrightarrow> row_sorted b k' Hard"
    "x \<noteq> Thread_timer t \<Longrightarrow> x \<in> set (timer_row k' Hard) \<longleftrightarrow> x \<in> set (timer_row k Hard)"
    "x \<noteq> Thread_timer t \<Longrightarrow> periodic k' x = periodic k x"
    "x \<noteq> Thread_timer t \<Longrightarrow> timer k' x = timer k x"
    "timer_row k Hard_firing = [] \<Longrightarrow> timer_row k' Hard_firing = []"
proof -
  let ?w = "wait_prepared t n k"
  note w = wait_prepared_effect [OF assms(1,3), where n = n]
  have e: "k' = rt_schedule (timer_enqueue (Thread_timer t) ?w)"
    using assms(2) by (simp add: k'_def rt_thread_sleep_def rt_thread_self_def thread_wait_eq [OF assms(1,3)])
  show i: "kernel_inv k'" unfolding k'_def using assms by (intro rt_thread_sleep_inv) auto
  have hr: "start_row ?w (Thread_timer t) = Hard" using w(7) by (simp add: start_row_def)
  show m: "Thread_timer t \<in> set (timer_row k' Hard)" using hr by (simp add: e timer_enqueue_mem)
  show "tstat k' t = 2" using timer_invD(4) [OF _ m] i by (simp add: kernel_inv_def)
  show "timeout_tick (timer k' (Thread_timer t)) = rt_tick k + n" "rt_tick k' = rt_tick k"
    by (simp_all add: e w(5,6))
  show "x \<in> set (timer_row k' Hard) \<longleftrightarrow> x \<in> set (timer_row k Hard)" if "x \<noteq> Thread_timer t"
    using that hr by (simp add: e timer_enqueue_mem w(3))
  show "periodic k' x = periodic k x" "timer k' x = timer k x" if "x \<noteq> Thread_timer t"
    using that by (simp_all add: e periodic_def w(5,8))
  show "timer_row k' Hard_firing = []" if "timer_row k Hard_firing = []"
    using that w(4) hr by (auto simp: e timer_enqueue_row)
  show "row_sorted b k' Hard" if s: "row_sorted b k Hard" and n: "unat (rt_tick k - b) + unat n < 0x7FFFFFFF"
  proof -
    have nh: "x \<noteq> Thread_timer t" if "x \<in> set (timer_row k Hard)" for x
      using that timer_invD(4) [of k t] assms(1,3) by (auto simp: kernel_inv_def)
    have d: "deadline b ?w x = deadline b k x" if "x \<in> set (timer_row k Hard)" for x
      using nh [OF that] by (simp add: deadline_def w(5))
    have "map (deadline b ?w) (timer_row k Hard) = map (deadline b k) (timer_row k Hard)" using d by simp
    then have "row_sorted b ?w Hard" using s d unfolding row_sorted_def w(3) by (metis)
    then have "row_sorted b (timer_enqueue (Thread_timer t) ?w) Hard"
      by (rule row_sorted_enqueue) (use n in \<open>simp add: w(5,6)\<close>)
    then show ?thesis by (simp add: e)
  qed
qed

section \<open>Sleeping over many ticks\<close>

text \<open>The next \<open>m\<close> tick interrupts, one after the other.\<close>

primrec run_ticks :: "'a callback \<Rightarrow> nat \<Rightarrow> 'a kernel_scheme \<Rightarrow> 'a kernel_scheme option" where
  "run_ticks cb 0 k = Some k"
| "run_ticks cb (Suc m) k = (case run_ticks cb m k of None \<Rightarrow> None | Some k' \<Rightarrow> rt_tick_increase cb k')"

lemma current_stays:
  assumes "rt_current_thread k \<noteq> None"
  shows "rt_current_thread (rt_schedule k) \<noteq> None" "rt_current_thread (rt_timer_start x k) \<noteq> None"
    "rt_current_thread (rt_thread_timeout t k) \<noteq> None" "inert cb \<Longrightarrow> rt_current_thread (timer_call cb x k) \<noteq> None"
proof -
  have s: "rt_current_thread (rt_schedule k) \<noteq> None" if "rt_current_thread k \<noteq> None" for k :: "'a kernel_scheme"
    using that by (auto simp: rt_schedule_def Let_def split: prod.splits)
  show "rt_current_thread (rt_schedule k) \<noteq> None" using s assms by blast
  have r: "rt_current_thread (snd (rt_thread_resume t k)) = rt_current_thread k" for t and k :: "'a kernel_scheme"
    by (cases "tstat k t = 2") (simp_all add: rt_thread_resume_effect(4), simp add: rt_thread_resume_def)
  have e: "rt_current_thread (timer_enqueue x k) = rt_current_thread k" by (simp add: timer_enqueue_def Let_def)
  show "rt_current_thread (rt_timer_start x k) \<noteq> None"
    using s [of "snd (rt_thread_resume timer_thread (timer_enqueue x k))"] assms
    by (simp add: rt_timer_start_def Let_def r e)
  show t: "rt_current_thread (rt_thread_timeout t k) \<noteq> None" for t
    unfolding rt_thread_timeout_def Let_def using assms by (intro s) simp
  show "rt_current_thread (timer_call cb x k) \<noteq> None" if "inert cb"
    using t assms by (simp add: timer_call_def inert_sel(10) [OF that] split: timeout_fn.split)
qed

lemma hard_expire_current:
  assumes "inert cb" "rt_current_thread k \<noteq> None"
  shows "rt_current_thread (hard_expire cb x k) \<noteq> None"
proof -
  have h: "rt_current_thread (timer_hold Hard_firing x k) \<noteq> None" using assms(2) by (simp add: timer_hold_def Let_def)
  note c = current_stays(4) [OF h assms(1), of x]
  show ?thesis
    unfolding timer_expire_hold Let_def using c by (auto intro!: current_stays(2) simp del: not_None_eq)
qed

text \<open>Periods that are not zero and fit the window of the next \<open>B\<close> ticks.\<close>

definition periods_below :: "nat \<Rightarrow> 'a kernel_scheme \<Rightarrow> bool" where
  "periods_below B k \<longleftrightarrow> (\<forall>x \<in> set (timer_row k Hard). periodic k x \<longrightarrow>
     0 < timer_init_tick (timer k x) \<and> B + unat (timer_init_tick (timer k x)) < 0x7FFFFFFF)"

lemma hard_expire_periods:
  assumes cb: "quiet cb" and ok: "hard_ok k" and row: "timer_row k Hard = x # ts" and per: "periods_below B k"
  shows "periods_below B (hard_expire cb x k)"
proof -
  let ?k = "hard_expire cb x k"
  note eff = hard_expire_effect [OF cb ok row]
  have "x \<notin> set ts" using row ok by (auto simp: hard_ok_def family_ok_def dest: spec [of _ Hard])
  then have mem: "y \<in> set ts \<and> y \<noteq> x \<or> y = x \<and> periodic k x" if "y \<in> set (timer_row ?k Hard)" for y
    using that eff(5) by (auto split: if_splits)
  show ?thesis
    unfolding periods_below_def
  proof (intro ballI impI)
    fix y assume y: "y \<in> set (timer_row ?k Hard)" "periodic ?k y"
    then have "y \<in> set (timer_row k Hard)" "periodic k y"
      using mem [of y] eff(6) [of y] row by (auto simp: periodic_def)
    moreover have "timer_init_tick (timer ?k y) = timer_init_tick (timer k y)" using eff(4) by auto
    ultimately show "0 < timer_init_tick (timer ?k y) \<and> B + unat (timer_init_tick (timer ?k y)) < 0x7FFFFFFF"
      using per by (simp add: periods_below_def)
  qed
qed

text \<open>One timer check, in a state where nothing fires: it returns, leaves the lists sorted and the
  periods bounded, and keeps every timer that is not due.\<close>

lemma timer_check_keeps:
  assumes cb: "inert cb" and k: "kernel_inv k" "rt_current_thread k \<noteq> None" "timer_row k Hard_firing = []"
    and b: "row_sorted b k Hard" "periods_below B k" "unat (rt_tick k - b) \<le> B" "B < 0x7FFFFFFF"
  shows "\<exists>k'. rt_timer_check cb k = Some k' \<and> kernel_inv k' \<and> rt_current_thread k' \<noteq> None
    \<and> timer_row k' Hard_firing = [] \<and> row_sorted b k' Hard \<and> periods_below B k' \<and> rt_tick k' = rt_tick k
    \<and> (\<forall>y \<in> set (timer_row k Hard). expired (rt_tick k) k y \<or> y \<in> set (timer_row k' Hard) \<and> timer k' y = timer k y)"
proof -
  have ti: "timer_inv k" using k by (simp add: kernel_inv_def)
  note q = inert_quiet [OF cb] and ok = timer_inv_hard_ok [OF ti k(3)]
  have per: "periods_ok b k" using b(2,3) unfolding periods_ok_def periods_below_def by fastforce
  obtain k' where k': "timer_check_loop cb (rt_tick k) k = Some k'" "hard_ok k'" "row_sorted b k' Hard" "rt_tick k' = rt_tick k"
    using timer_check_loop_result [OF q ok b(1) per] b(3,4) by auto
  define Y where "Y = {y \<in> set (timer_row k Hard). \<not> expired (rt_tick k) k y}"
  define I where "I = (\<lambda>(cb :: 'a callback) now (l :: 'a kernel_scheme). inert cb \<and> kernel_inv l \<and> hard_ok l
    \<and> rt_current_thread l \<noteq> None \<and> periods_below B l \<and> now = rt_tick k \<and> rt_tick l = rt_tick k
    \<and> (\<forall>y \<in> Y. y \<in> set (timer_row l Hard) \<and> timer l y = timer k y))"
  have step: "I cb (rt_tick (hard_expire cb x l)) (hard_expire cb x l)"
    if i: "I cb now l" and row: "timer_row l Hard = x # ts" and x: "now - timeout_tick (timer l x) < 0x7FFFFFFF"
    for cb x ts now and l :: "'a kernel_scheme"
  proof -
    have xt: "x \<notin> Y" using i x by (auto simp: I_def Y_def expired_def)
    have "quiet cb" "hard_ok l" using i by (auto simp: I_def inert_quiet)
    note eff = hard_expire_effect [OF this row]
    have "hard_ok (hard_expire cb x l)"
    proof -
      have "kernel_inv (hard_expire cb x l)" using i row by (intro hard_expire_inv) (auto simp: I_def inert_inv)
      then show ?thesis using eff(2) by (intro timer_inv_hard_ok) (simp_all add: kernel_inv_def)
    qed
    moreover have "kernel_inv (hard_expire cb x l)" using i row by (intro hard_expire_inv) (auto simp: I_def inert_inv)
    moreover have "\<forall>y \<in> Y. y \<in> set (timer_row (hard_expire cb x l) Hard) \<and> timer (hard_expire cb x l) y = timer k y"
    proof
      fix y assume y: "y \<in> Y"
      then have "y \<noteq> x" using xt by blast
      then show "y \<in> set (timer_row (hard_expire cb x l) Hard) \<and> timer (hard_expire cb x l) y = timer k y"
        using i y row eff(4,5) by (auto simp: I_def)
    qed
    ultimately show ?thesis
      using i eff(1) hard_expire_current [of cb l x] hard_expire_periods [OF \<open>quiet cb\<close> \<open>hard_ok l\<close> row, of B]
      unfolding I_def by presburger
  qed
  have "I cb (rt_tick k) k \<longrightarrow> I cb (rt_tick k) k'"
  proof (rule timer_check_loop.raw_induct [OF _ k'(1), of "\<lambda>cb now l l'. I cb now l \<longrightarrow> I cb now l'"])
    fix loop :: "'a callback \<Rightarrow> u32 \<Rightarrow> 'a kernel_scheme \<Rightarrow> 'a kernel_scheme option"
      and cb :: "'a callback" and now and l l' :: "'a kernel_scheme"
    assume IH: "\<And>cb now l l'. loop cb now l = Some l' \<Longrightarrow> I cb now l \<longrightarrow> I cb now l'"
      and eq: "(case timer_row l Hard of [] \<Rightarrow> Some l
        | x # _ \<Rightarrow> if now - timeout_tick (timer l x) < 0x7FFFFFFF
            then let k = timer_expire Hard_firing (timer_call cb x) x l in loop cb (rt_tick k) k
            else Some l) = Some l'"
    have n: "rt_tick (hard_expire cb x l) = now" if "I cb now l" "timer_row l Hard = x # ts" "now - timeout_tick (timer l x) < 0x7FFFFFFF" for x ts
      using step [OF that] that(1) by (simp add: I_def)
    show "I cb now l \<longrightarrow> I cb now l'"
    proof
      assume i: "I cb now l"
      show "I cb now l'"
      proof (cases "timer_row l Hard")
        case Nil
        then show ?thesis using eq i by simp
      next
        case (Cons x ts)
        show ?thesis
        proof (cases "now - timeout_tick (timer l x) < 0x7FFFFFFF")
          case True
          then show ?thesis
            using eq Cons IH [of cb now "hard_expire cb x l" l'] step [OF i Cons True] n [OF i Cons True] by (simp add: Let_def)
        next
          case False
          then show ?thesis using eq Cons i by simp
        qed
      qed
    qed
  qed
  moreover have "I cb (rt_tick k) k" using cb k ok b by (simp add: I_def Y_def)
  ultimately have i: "I cb (rt_tick k) k'" by blast
  then have "\<forall>y \<in> set (timer_row k Hard). expired (rt_tick k) k y \<or> y \<in> set (timer_row k' Hard) \<and> timer k' y = timer k y"
    by (auto simp: I_def Y_def)
  then show ?thesis using i k' by (simp add: I_def rt_timer_check_def hard_ok_def)
qed

text \<open>Thread \<open>t\<close> sleeps until \<open>b + n\<close>, \<open>j\<close> ticks after \<open>b\<close>.\<close>

definition asleep :: "tid \<Rightarrow> u32 \<Rightarrow> u32 \<Rightarrow> nat \<Rightarrow> 'a kernel_scheme \<Rightarrow> bool" where
  "asleep t b n j k \<longleftrightarrow> kernel_inv k \<and> rt_current_thread k \<noteq> None \<and> timer_row k Hard_firing = []
     \<and> row_sorted b k Hard \<and> periods_below (unat n) k \<and> rt_tick k = b + of_nat j
     \<and> Thread_timer t \<in> set (timer_row k Hard) \<and> timeout_tick (timer k (Thread_timer t)) = b + n"

lemma asleep_stat: "asleep t b n j k \<Longrightarrow> tstat k t = 2"
  using timer_invD(4) [of k t] by (simp add: asleep_def kernel_inv_def)

text \<open>The part of a tick interrupt before the timer check.\<close>

lemma tick_prefix:
  assumes "asleep t b n j k"
  obtains k3 where "rt_tick_increase cb k = rt_timer_check cb k3" "kernel_inv k3" "rt_current_thread k3 \<noteq> None"
    "timer_row k3 = timer_row k" "timer k3 = timer k" "timer_flag k3 = timer_flag k" "rt_tick k3 = b + of_nat (Suc j)"
proof -
  obtain c where c: "rt_current_thread k = Some c" and k: "kernel_inv k" using assms by (auto simp: asleep_def)
  let ?k1 = "upd_thread c (\<lambda>th. th\<lparr>remaining_tick := remaining_tick th - 1\<rparr>) (k\<lparr>rt_tick := rt_tick k + 1\<rparr>)"
  let ?k2 = "rt_schedule (upd_thread c (\<lambda>th. th\<lparr>remaining_tick := init_tick th, stat := stat th OR 8\<rparr>) ?k1)"
  have i1: "kernel_inv ?k1" using k by (intro kernel_inv_upd_same) simp_all
  have i2: "kernel_inv ?k2" by (intro rt_schedule_kernel_inv kernel_inv_upd_same [OF i1]) simp_all
  define k3 where "k3 = (if remaining_tick (thread ?k1 c) = 0 then ?k2 else ?k1)"
  have "rt_tick_increase cb k = rt_timer_check cb k3"
    using c unfolding rt_tick_increase_def rt_thread_self_def Let_def k3_def by simp
  moreover have "kernel_inv k3" unfolding k3_def by (rule if_split [THEN iffD2]) (intro conjI impI i1 i2)
  moreover have "rt_current_thread k3 \<noteq> None"
    unfolding k3_def using c by (simp add: current_stays(1) del: not_None_eq)
  moreover have "timer_row k3 = timer_row k" "timer k3 = timer k" "timer_flag k3 = timer_flag k" "rt_tick k3 = b + of_nat (Suc j)"
    unfolding k3_def using assms by (auto simp: asleep_def timer_flag_def fun_eq_iff)
  ultimately show ?thesis using that by blast
qed

lemma asleep_due:
  assumes "asleep t b n j k" "rt_tick k3 = b + of_nat (Suc j)" "timer k3 = timer k" "Suc j \<le> unat n" "unat n < 0x7FFFFFFF"
  shows "expired (rt_tick k3) k3 (Thread_timer t) \<longleftrightarrow> Suc j = unat n" "unat (rt_tick k3 - b) = Suc j"
proof -
  have u: "unat (of_nat (Suc j) :: u32) = Suc j" using assms(4,5) by (simp only: unat_of_nat) simp
  show w: "unat (rt_tick k3 - b) = Suc j" unfolding assms(2) using u by simp
  have "deadline b k3 (Thread_timer t) = unat n" using assms(1,3) by (simp add: deadline_def asleep_def)
  then show "expired (rt_tick k3) k3 (Thread_timer t) \<longleftrightarrow> Suc j = unat n"
    using expired_iff [of b k3 "Thread_timer t" "rt_tick k3"] w assms(4,5) by auto
qed

lemma tick_while_asleep:
  assumes cb: "inert cb" and a: "asleep t b n j k" and j: "Suc j < unat n" "unat n < 0x7FFFFFFF"
  shows "\<exists>k'. rt_tick_increase cb k = Some k' \<and> asleep t b n (Suc j) k'"
proof -
  obtain k3 where k3: "rt_tick_increase cb k = rt_timer_check cb k3" "kernel_inv k3" "rt_current_thread k3 \<noteq> None"
    "timer_row k3 = timer_row k" "timer k3 = timer k" "timer_flag k3 = timer_flag k" "rt_tick k3 = b + of_nat (Suc j)"
    by (rule tick_prefix [OF a])
  note d = asleep_due [OF a k3(7,5) less_imp_le [OF j(1)] j(2)]
  have "row_sorted b k3 Hard" "periods_below (unat n) k3"
    using a k3(4-6) by (auto simp: asleep_def row_sorted_def deadline_def [abs_def] periods_below_def periodic_def)
  from timer_check_keeps [OF cb k3(2,3) _ this] a k3 d j show ?thesis
    by (auto simp: asleep_def)
qed

lemma tick_that_wakes:
  assumes cb: "inert cb" and a: "asleep t b n j k" and j: "Suc j = unat n" "unat n < 0x7FFFFFFF"
  shows "\<exists>k'. rt_tick_increase cb k = Some k' \<and> tstat k' t \<in> {1, 3} \<and> error (thread k' t) = - RT_ETIMEOUT"
proof -
  obtain k3 where k3: "rt_tick_increase cb k = rt_timer_check cb k3" "kernel_inv k3" "rt_current_thread k3 \<noteq> None"
    "timer_row k3 = timer_row k" "timer k3 = timer k" "timer_flag k3 = timer_flag k" "rt_tick k3 = b + of_nat (Suc j)"
    by (rule tick_prefix [OF a])
  note d = asleep_due [OF a k3(7,5) eq_imp_le [OF j(1)] j(2)]
  have "row_sorted b k3 Hard" "periods_ok b k3"
    using a k3(4-6) d(2) j by (auto simp: asleep_def row_sorted_def deadline_def [abs_def] periods_below_def periods_ok_def periodic_def)
  from timer_check_wakes [OF cb k3(2) _ this] a k3 d j show ?thesis by (auto simp: asleep_def)
qed

lemma run_ticks_asleep:
  assumes "inert cb" "asleep t b n 0 k" "unat n < 0x7FFFFFFF"
  shows "m < unat n \<Longrightarrow> \<exists>k'. run_ticks cb m k = Some k' \<and> asleep t b n m k'"
proof (induction m)
  case 0
  then show ?case using assms(2) by simp
next
  case (Suc m)
  then obtain k' where "run_ticks cb m k = Some k'" "asleep t b n m k'" by auto
  then show ?case using tick_while_asleep [OF assms(1) _ Suc.prems assms(3)] by auto
qed

lemma rt_thread_sleep_asleep:
  assumes "kernel_inv k" "rt_current_thread k = Some t" "tstat k t = 3"
    and "timer_row k Hard_firing = []" "row_sorted (rt_tick k) k Hard" "unat n < 0x7FFFFFFF" "periods_below (unat n) k"
  shows "asleep t (rt_tick k) n 0 (rt_thread_sleep n k)"
proof -
  note s = rt_thread_sleep_effect [OF assms(1-3), where n = n]
  have np: "\<not> periodic (rt_thread_sleep n k) (Thread_timer t)"
    using s(1) timer_invD(5) [of "rt_thread_sleep n k" t] by (simp add: kernel_inv_def thread_timer_ok_def periodic_def)
  have "periods_below (unat n) (rt_thread_sleep n k)"
    using assms(7) s(7-9) np unfolding periods_below_def by metis
  moreover have "rt_current_thread (rt_thread_sleep n k) \<noteq> None"
    using assms(2) by (auto simp: rt_thread_sleep_def rt_thread_self_def thread_wait_def Let_def
        simp del: not_None_eq intro!: current_stays(1,2)) 
  ultimately show ?thesis using s assms by (simp add: asleep_def)
qed

section \<open>Reclaiming dead threads\<close>

lemma rt_defunct_execute_none:
  assumes "lists_ok k" "\<forall>t \<in> set (tlist k Defunct). cleanup (thread k t) = None"
    and free: "\<And>a k. free a k = kernel.more_update (fr a) k"
  shows "\<exists>k'. rt_defunct_execute clean free k = Some k' \<and> tlist k' Defunct = []
    \<and> object_list k' = (\<lambda>c. filter (\<lambda>b. b \<notin> Thread_obj ` set (tlist k Defunct)) (object_list k c))"
  using assms(1,2)
proof (induction "tlist k Defunct" arbitrary: k)
  case Nil
  then have "rt_defunct_execute clean free k = Some k"
    by (subst rt_defunct_execute.simps) (simp add: rt_thread_defunct_dequeue_def)
  then show ?case using Nil by (auto simp: fun_eq_iff)
next
  case (Cons t ts)
  have d: "t \<notin> set ts" using Cons.prems(1) Cons.hyps(2) unfolding lists_ok_def family_ok_def by (metis distinct.simps(2))
  let ?k = "defunct_one clean free t (tlist_remove t k)"
  have c: "cleanup (thread k t) = None" using Cons.prems(2) Cons.hyps(2) by (metis list.set_intros(1))
  have e: "rt_defunct_execute clean free k = rt_defunct_execute clean free ?k"
    using Cons.hyps(2) [symmetric] by (subst rt_defunct_execute.simps) (simp add: rt_thread_defunct_dequeue_def)
  have tl: "tlist ?k = (\<lambda>l. removeAll t (tlist k l))" and th: "thread ?k = thread k"
    and ol: "object_list ?k = (\<lambda>b. removeAll (Thread_obj t) (object_list k b))"
    using c by (auto simp: defunct_one_def free rt_object_detach_def rt_object_delete_def object_list_remove_def Let_def)
  have ts: "tlist ?k Defunct = ts" using Cons.hyps(2) [symmetric] d by (simp add: tl)
  have l: "lists_ok ?k" using Cons.prems(1) by (simp add: lists_ok_def tl family_ok_remove)
  have cl: "\<forall>u \<in> set (tlist ?k Defunct). cleanup (thread ?k u) = None"
    using Cons.prems(2) Cons.hyps(2) [symmetric] by (simp add: ts th)
  from Cons.hyps(1) [OF ts [symmetric] l cl] obtain k' where
    k': "rt_defunct_execute clean free ?k = Some k'" "tlist k' Defunct = []"
      "object_list k' = (\<lambda>c. filter (\<lambda>b. b \<notin> Thread_obj ` set ts) (object_list ?k c))" unfolding ts by blast
  have "object_list k' = (\<lambda>c. filter (\<lambda>b. b \<notin> Thread_obj ` set (tlist k Defunct)) (object_list k c))"
    unfolding k'(3) ol Cons.hyps(2) [symmetric]
    by (auto simp: fun_eq_iff removeAll_filter_not_eq intro!: filter_cong)
  then show ?case using k' e by auto
qed


section \<open>Properties\<close>

interpretation kernel_run: safe_steps "\<lambda>k. \<exists>ext. k = boot_kernel ext"
  "\<lambda>k k'. (\<forall>n k. kernel_inv k \<longrightarrow> kernel_inv (cb n k)) \<and> kernel_step cb clean k k'" kernel_inv
  for cb :: "'a callback" and clean
proof
  fix k :: "'a kernel_scheme"
  assume "\<exists>ext. k = boot_kernel ext"
  then show "kernel_inv k"
    by (auto simp: kernel_inv_def boot_kernel_inv zero_timer_def family_ok_def thread_timer_ok_def intro!: timer_invI)
next
  fix k k' :: "'a kernel_scheme"
  assume "(\<forall>n k. kernel_inv k \<longrightarrow> kernel_inv (cb n k)) \<and> kernel_step cb clean k k'" "kernel_inv k"
  then show "kernel_inv k'" using kernel_step_inv by blast
qed

text \<open>
  C1. The kernel is consistent in every reachable state: from reset, after any sequence of thread
  life-cycle, scheduling, timer and tick operations, the start of the scheduler included, with user
  callbacks that keep it so, at most one thread is running and it is the current one; the current
  thread is never on a ready queue; a thread is on the ready queue of its priority
  exactly when it is ready, and on no other list then; a bit of the priority bitmap is set exactly
  when its queue is not empty; and a thread whose timer runs is suspended.
\<close>

theorem kernel_reachable_consistent:
  assumes "\<forall>n k. kernel_inv k \<longrightarrow> kernel_inv (cb n k)"
    and "(kernel_step cb clean)\<^sup>*\<^sup>* (boot_kernel ext) k"
  shows "(\<forall>t. tstat k t = RT_THREAD_RUNNING \<longrightarrow> rt_current_thread k = Some t)
    \<and> (\<forall>t. rt_current_thread k = Some t \<longrightarrow> tstat k t \<noteq> RT_THREAD_READY)
    \<and> (\<forall>t p. t \<in> set (tlist k (Ready p)) \<longleftrightarrow> tstat k t = RT_THREAD_READY \<and> prio k t = p)
    \<and> (\<forall>t l. tstat k t = RT_THREAD_READY \<longrightarrow> t \<in> set (tlist k l) \<longrightarrow> l = Ready (prio k t))
    \<and> (\<forall>l. distinct (tlist k l))
    \<and> (\<forall>p. bit (ready_group k) p \<longleftrightarrow> tlist k (Ready p) \<noteq> [])
    \<and> (\<forall>t. Thread_timer t \<in> set (timer_row k Hard) \<longrightarrow> tstat k t = RT_THREAD_SUSPEND)"
proof -
  have "(\<lambda>k k'. (\<forall>n k. kernel_inv k \<longrightarrow> kernel_inv (cb n k)) \<and> kernel_step cb clean k k')\<^sup>*\<^sup>* (boot_kernel ext) k"
    using assms by simp
  then have "kernel_inv k" by (rule kernel_run.reach_inv [rotated]) blast
  then have k: "rq_inv k" "cur_inv k" "timer_inv k" by (auto simp: kernel_inv_def sched_inv_def)
  show ?thesis
    using k rq_ready_prio [OF k(1)] rq_readyD [OF k(1)] rq_group [OF k(1)] rq_lists [OF k(1)] timer_invD(4) [OF k(3)]
    unfolding cur_inv_def lists_ok_def family_ok_def by (intro conjI allI) blast+
qed

text \<open>A system that runs: from reset, thread 1 (priority 20) and thread 2 (priority 10) are
  initialised and started, then the scheduler is started and picks thread 2.\<close>

definition example_start :: "'a \<Rightarrow> 'a kernel_scheme" where
  "example_start ext = rt_system_scheduler_start
     (rt_thread_startup 2 (rt_thread_init 2 [98] 1 2 3 512 10 10
       (rt_thread_startup 1 (rt_thread_init 1 [97] 1 2 3 512 20 10 (boot_kernel ext)))))"

lemma reach_step: "r\<^sup>*\<^sup>* a b \<Longrightarrow> r b c \<Longrightarrow> r\<^sup>*\<^sup>* a c"
  by (rule rtranclp.rtrancl_into_rtrancl)

lemma example_start_steps: "(kernel_step cb clean)\<^sup>*\<^sup>* (boot_kernel ()) (example_start ())"
proof -
  let ?k1 = "rt_thread_init 1 [97] 1 2 3 512 20 10 (boot_kernel ())" and ?r = "(kernel_step cb clean)\<^sup>*\<^sup>* (boot_kernel ())"
  let ?k2 = "rt_thread_startup 1 ?k1" let ?k3 = "rt_thread_init 2 [98] 1 2 3 512 10 10 ?k2" let ?k4 = "rt_thread_startup 2 ?k3"
  have i: "tstat (boot_kernel ()) 1 = 0" "tstat ?k1 1 = 0" "timeout_func (timer ?k1 (Thread_timer 1)) = Rt_thread_timeout 1"
    "unat (init_priority (thread ?k1 1)) < RT_THREAD_PRIORITY_MAX" "tstat ?k2 2 = 0" "tstat ?k3 2 = 0"
    "timeout_func (timer ?k3 (Thread_timer 2)) = Rt_thread_timeout 2" "unat (init_priority (thread ?k3 2)) < RT_THREAD_PRIORITY_MAX"
    "rt_current_thread ?k4 = None" "ready_group ?k4 \<noteq> 0" by code_simp+
  have "?r ?k1" using i(1) by (intro r_into_rtranclp step_init) simp
  then have "?r ?k2" by (rule reach_step) (rule step_startup [OF i(2-4)])
  then have "?r ?k3" by (rule reach_step) (rule step_init [OF i(5)])
  then have "?r ?k4" by (rule reach_step) (rule step_startup [OF i(6-8)])
  then show ?thesis
    unfolding example_start_def by (rule reach_step) (rule step_start [OF i(9,10)])
qed

lemma run_ticks_steps: "run_ticks cb m k = Some k' \<Longrightarrow> (kernel_step cb clean)\<^sup>*\<^sup>* k k'"
proof (induction m arbitrary: k')
  case (Suc m)
  then obtain l where l: "run_ticks cb m k = Some l" "rt_tick_increase cb l = Some k'" by (auto split: option.splits)
  show ?case using Suc.IH [OF l(1)] step_tick [OF l(2)] by (rule reach_step)
qed simp

text \<open>Thread 2 goes to sleep for five ticks and thread 1 runs; a tick later thread 1 resumes
  thread 2, which preempts it.\<close>

definition example_tick :: "unit kernel_scheme \<Rightarrow> unit kernel_scheme" where
  "example_tick k = upd_thread 1 (\<lambda>th. th\<lparr>remaining_tick := remaining_tick th - 1\<rparr>) (k\<lparr>rt_tick := rt_tick k + 1\<rparr>)"

lemma example_tick_run:
  defines "s \<equiv> rt_thread_sleep 5 (example_start ())"
  shows "rt_tick_increase (\<lambda>_ k. k) s = Some (example_tick s)"
proof -
  let ?l = "example_tick s"
  have c: "rt_current_thread s = Some 1" "remaining_tick (thread s 1) \<noteq> 1" unfolding s_def by code_simp+
  have r: "timer_row ?l Hard = [Thread_timer 2]" "\<not> rt_tick ?l - timeout_tick (timer ?l (Thread_timer 2)) < 0x7FFFFFFF"
    unfolding s_def by code_simp+
  have "timer_check_loop (\<lambda>_ k. k) (rt_tick ?l) ?l = Some ?l"
    using r by (subst timer_check_loop.simps) simp
  then show "rt_tick_increase (\<lambda>_ k. k) s = Some ?l"
    using c by (simp add: rt_tick_increase_def rt_thread_self_def Let_def example_tick_def rt_timer_check_def)
qed

lemma only_running:
  "\<forall>t. f t = v \<longrightarrow> c = Some t \<Longrightarrow> c = Some a \<Longrightarrow> f a = v \<Longrightarrow> {t. f t = v} = {a}"
  "\<forall>t. f t = v \<longrightarrow> c = Some t \<Longrightarrow> c = Some a \<Longrightarrow> {t. f t = v} \<subseteq> {a}"
  by (intro set_eqI subsetI, metis mem_Collect_eq option.inject singleton_iff)+

definition example_preempted :: "unit kernel_scheme" where
  "example_preempted = rt_schedule (snd (rt_thread_resume 2 (example_tick (rt_thread_sleep 5 (example_start ())))))"

theorem kernel_reachable_consistent_witness:
  "{t. tstat (rt_thread_sleep 5 (example_start ())) t = RT_THREAD_RUNNING} = {1}
     \<and> rt_current_thread example_preempted = Some 2 \<and> {t. tstat example_preempted t = RT_THREAD_RUNNING} \<subseteq> {2}"
proof -
  let ?cb = "\<lambda>_ k. k :: unit kernel_scheme" and ?clean = "\<lambda>_ _ k. k :: unit kernel_scheme"
  let ?s = "rt_thread_sleep 5 (example_start ())" and ?p = example_preempted
  let ?r = "(kernel_step ?cb ?clean)\<^sup>*\<^sup>* (boot_kernel ())"
  have i: "rt_current_thread (example_start ()) = Some 2" "tstat (example_start ()) 2 = 3" by code_simp+
  have rs: "?r ?s" by (rule reach_step [OF example_start_steps step_sleep [OF i]])
  have rp: "?r ?p"
    unfolding example_preempted_def
    by (rule reach_step [OF reach_step [OF reach_step [OF rs step_tick [OF example_tick_run]] step_resume] step_schedule])
  have s: "rt_current_thread ?s = Some 1" "tstat ?s 1 = 3" by code_simp+
  have p: "rt_current_thread ?p = Some 2" by code_simp
  have cb: "\<forall>n k. kernel_inv k \<longrightarrow> kernel_inv (?cb n k)" by simp
  have cs: "\<forall>t. tstat ?s t = 3 \<longrightarrow> rt_current_thread ?s = Some t"
    by (rule conjunct1 [OF kernel_reachable_consistent [OF cb rs]])
  have cp: "\<forall>t. tstat ?p t = 3 \<longrightarrow> rt_current_thread ?p = Some t"
    by (rule conjunct1 [OF kernel_reachable_consistent [OF cb rp]])
  show ?thesis by (intro conjI only_running(1) [OF cs s] p only_running(2) [OF cp p])
qed

text \<open>
  C11. A sleeping thread sleeps exactly as long as it asked for: after \<open>rt_thread_sleep n\<close> by the
  running thread, each of the next \<open>n - 1\<close> tick interrupts returns and leaves the thread suspended
  with its timer on the list, and the \<open>n\<close>-th returns with the thread ready or running and its
  error set to \<open>-RT_ETIMEOUT\<close>, whatever the other timers are that fire in between (one-shot or
  periodic, threads woken by them included) and even when the tick counter wraps around on the way.
\<close>

theorem rt_thread_sleep_wakes:
  assumes "kernel_inv k" "rt_current_thread k = Some t" "tstat k t = RT_THREAD_RUNNING"
    and "inert cb" "timer_row k Hard_firing = []" "row_sorted (rt_tick k) k Hard" "0 < n" "unat n < 0x7FFFFFFF"
    and "\<forall>x \<in> set (timer_row k Hard). periodic k x \<longrightarrow>
      0 < timer_init_tick (timer k x) \<and> unat n + unat (timer_init_tick (timer k x)) < 0x7FFFFFFF"
  shows "(\<forall>m < unat n. \<exists>k'. run_ticks cb m (rt_thread_sleep n k) = Some k' \<and> rt_tick k' = rt_tick k + of_nat m
        \<and> tstat k' t = RT_THREAD_SUSPEND \<and> Thread_timer t \<in> set (timer_row k' Hard))
    \<and> (\<exists>k'. run_ticks cb (unat n) (rt_thread_sleep n k) = Some k'
        \<and> tstat k' t \<in> {RT_THREAD_READY, RT_THREAD_RUNNING} \<and> error (thread k' t) = - RT_ETIMEOUT)"
proof -
  have a: "asleep t (rt_tick k) n 0 (rt_thread_sleep n k)"
    using assms by (intro rt_thread_sleep_asleep) (auto simp: periods_below_def)
  note run = run_ticks_asleep [OF assms(4) a assms(8)]
  have "0 < unat n" using assms(7) by (simp add: unat_gt_0 word_neq_0_conv)
  then obtain j where j: "unat n = Suc j" by (cases "unat n") auto
  obtain k' where k': "run_ticks cb j (rt_thread_sleep n k) = Some k'" "asleep t (rt_tick k) n j k'"
    using run [of j] j by auto
  have "\<exists>k'. run_ticks cb (unat n) (rt_thread_sleep n k) = Some k' \<and> tstat k' t \<in> {1, 3} \<and> error (thread k' t) = - RT_ETIMEOUT"
    using tick_that_wakes [OF assms(4) k'(2) j [symmetric] assms(8)] k'(1) unfolding j by simp
  moreover have "\<exists>k'. run_ticks cb m (rt_thread_sleep n k) = Some k' \<and> rt_tick k' = rt_tick k + of_nat m
      \<and> tstat k' t = 2 \<and> Thread_timer t \<in> set (timer_row k' Hard)" if "m < unat n" for m
    using run [OF that] asleep_stat unfolding asleep_def by blast
  ultimately show ?thesis by blast
qed


text \<open>Thread 1 runs, 0 and 2 are ready, and every thread's timer is set up.\<close>

definition example_running :: "'a \<Rightarrow> 'a kernel_scheme" where
  "example_running ext = (example_kernel ext)\<lparr>timer := (\<lambda>x. case x of
     Thread_timer t \<Rightarrow> zero_timer\<lparr>timeout_func := Rt_thread_timeout t\<rparr> | Timer a \<Rightarrow> zero_timer)\<rparr>"

lemma example_running_sel [simp]:
  "tstat (example_running ext) = (\<lambda>_. 0)(0 := 1, 1 := 3, 2 := 1)" "rt_current_thread (example_running ext) = Some 1"
  "prio (example_running ext) = (\<lambda>_. 0)(0 := 31, 1 := 10, 2 := 10)"
  "timer_row (example_running ext) = (\<lambda>_. [])" "timer_flag (example_running ext) = (\<lambda>_. 0)" "rt_tick (example_running ext) = 0"
  "rt_scheduler_lock_nest (example_running ext) = 0" "tlist (example_running ext) = (\<lambda>_. [])(Ready 31 := [0], Ready 10 := [2])"
proof -
  have "tstat (example_running ext) = tstat (example_kernel ext)" "prio (example_running ext) = prio (example_kernel ext)"
    by (simp_all add: example_running_def tstat_def prio_def fun_eq_iff)
  then show "tstat (example_running ext) = (\<lambda>_. 0)(0 := 1, 1 := 3, 2 := 1)"
    "prio (example_running ext) = (\<lambda>_. 0)(0 := 31, 1 := 10, 2 := 10)" by (simp_all add: example_kernel_tstat)
qed (simp_all add: example_running_def example_kernel_def boot_kernel_def timer_flag_def zero_object_def fun_eq_iff)

lemma example_running_timer:
  "timer (example_running ext) x = (case x of
     Thread_timer t \<Rightarrow> zero_timer\<lparr>timeout_func := Rt_thread_timeout t\<rparr> | Timer a \<Rightarrow> zero_timer)"
  by (simp add: example_running_def)

lemma example_running_inv: "kernel_inv (example_running ext)"
proof -
  have "sched_inv (example_running ext) = sched_inv (example_kernel ext)"
    by (rule sched_inv_cong) (simp_all add: example_running_def tstat_def prio_def fun_eq_iff)
  moreover have "timer_inv (example_running ext)"
    by (rule timer_invI) (auto simp: family_ok_def thread_timer_ok_def example_running_timer zero_timer_def split: timer_id.splits)
  ultimately show ?thesis by (simp add: kernel_inv_def example_kernel_inv)
qed

theorem rt_thread_sleep_wakes_witness:
  "\<exists>k'. run_ticks (\<lambda>_ k. k) 5 (rt_thread_sleep 5 (example_running ())) = Some k' \<and> tstat k' 1 \<in> {1, 3}
     \<and> error (thread k' 1) = - 2"
proof -
  have "inert (\<lambda>_ k. k :: unit kernel_scheme)" by (auto simp: inert_def)
  then show ?thesis
    using rt_thread_sleep_wakes [of "example_running ()" 1 "\<lambda>_ k. k" 5] example_running_inv [of "()"]
    by (auto simp: row_sorted_def)
qed

text \<open>
  The idle thread reclaims every dead thread: \<open>rt_defunct_execute\<close> returns, the defunct list
  is then empty, and exactly the threads that were on it have left the object registry (threads
  without a cleanup function; giving memory back to the heap changes only the heap).
\<close>

theorem rt_defunct_execute_reclaims:
  assumes "kernel_inv k" "\<forall>t \<in> set (tlist k Defunct). cleanup (thread k t) = None"
    and "\<forall>a k. free a k = kernel.more_update (fr a) k"
  shows "\<exists>k'. rt_defunct_execute clean free k = Some k' \<and> tlist k' Defunct = []
    \<and> object_list k' = (\<lambda>c. filter (\<lambda>b. b \<notin> Thread_obj ` set (tlist k Defunct)) (object_list k c))"
  by (rule rt_defunct_execute_none) (use assms in \<open>auto simp: kernel_inv_def sched_inv_def rq_inv_def\<close>)

theorem rt_defunct_execute_reclaims_witness:
  "\<exists>k'. rt_defunct_execute (\<lambda>_ _ k. k) (\<lambda>_ k. k) (rt_thread_delete (\<lambda>_ _ k. k) 2 (example_running ())) = Some k'
     \<and> tlist k' Defunct = []"
proof -
  let ?k = "rt_thread_delete (\<lambda>_ _ k. k) 2 (example_running ())"
  have c: "cleanup (thread (example_running ()) t) = None" for t
    by (simp add: example_running_def example_kernel_def started_thread_def zero_thread_def)
  have "kernel_inv ?k" by (rule rt_thread_detach_inv(2) [OF example_running_inv]) (simp_all add: c)
  moreover have "cleanup (thread ?k t) = None" for t
    using c by (auto simp: rt_thread_delete_def thread_cleanup_execute_def rt_thread_defunct_enqueue_def Let_def)
  moreover have "kernel.more_update (\<lambda>m. m) j = j" for j :: "unit kernel_scheme" by (cases j) simp
  ultimately show ?thesis
    using rt_defunct_execute_reclaims [of ?k "\<lambda>_ k. k" "\<lambda>_ m. m" "\<lambda>_ _ k. k"] by metis
qed

text \<open>
  Milliseconds are converted to ticks by rounding up, so a delay is never shorter than asked
  for: for every \<open>ms \<ge> 0\<close> the result is the least number of ticks that lasts at least
  \<open>ms\<close> milliseconds, without overflow; a negative \<open>ms\<close> gives the value that means waiting
  for ever.
\<close>

theorem rt_tick_from_millisecond_rounds_up:
  assumes "0 < tick_per_second" "tick_per_second \<le> 1000" "ms < 2 ^ 31"
  shows "(0 \<le> ms \<longrightarrow> uint (rt_tick_from_millisecond tick_per_second ms) = (tick_per_second * ms + 999) div 1000
      \<and> tick_per_second * ms \<le> 1000 * uint (rt_tick_from_millisecond tick_per_second ms)
      \<and> 1000 * uint (rt_tick_from_millisecond tick_per_second ms) < tick_per_second * ms + 1000)
    \<and> (ms < 0 \<longrightarrow> rt_tick_from_millisecond tick_per_second ms = RT_TICK_MAX)"
proof -
  have "uint (rt_tick_from_millisecond tick_per_second ms) = (tick_per_second * ms + 999) div 1000" if p: "0 \<le> ms"
  proof -
    have "tick_per_second * ms = 1000 * (tick_per_second * (ms div 1000)) + tick_per_second * (ms mod 1000)"
      by (metis div_mult_mod_eq distrib_left mult.assoc mult.commute)
    then have e: "tick_per_second * (ms div 1000) + (tick_per_second * (ms mod 1000) + 999) div 1000 = (tick_per_second * ms + 999) div 1000"
      by simp
    have "tick_per_second * ms \<le> 1000 * ms" using assms(2) p by (rule mult_right_mono)
    then have "(tick_per_second * ms + 999) div 1000 < 2 ^ 32" using assms(3) by simp
    moreover have "0 \<le> (tick_per_second * ms + 999) div 1000" using assms(1) p by (simp add: pos_imp_zdiv_nonneg_iff)
    moreover have "rt_tick_from_millisecond tick_per_second ms = of_int ((tick_per_second * ms + 999) div 1000)"
      using p unfolding rt_tick_from_millisecond_def e [symmetric] by simp
    ultimately show ?thesis by (simp add: unsigned_of_int take_bit_int_eq_self)
  qed
  then show ?thesis by (auto simp: rt_tick_from_millisecond_def)
qed

theorem rt_tick_from_millisecond_rounds_up_witness: "uint (rt_tick_from_millisecond 100 1) = 1"
  using rt_tick_from_millisecond_rounds_up [of 100 1] by simp

text \<open>
  C40. A soft timer that is due at tick \<open>0xFFFFFFFF\<close> is missed: \<open>_timer_list_next_timeout\<close>
  uses that value for an empty list, so with such a timer at the head of the soft list the timer
  thread suspends itself without starting its own timer, and nothing wakes it at the deadline.
\<close>

theorem timer_thread_misses_tick_max:
  assumes "kernel_inv k" "rt_current_thread k = Some timer_thread" "tstat k timer_thread = RT_THREAD_RUNNING"
    and "timer_row k Soft = x # xs" "timeout_tick (timer k x) = RT_TICK_MAX"
  shows "tstat (timer_thread_wait k) timer_thread = RT_THREAD_SUSPEND
    \<and> Thread_timer timer_thread \<notin> set (timer_row (timer_thread_wait k) Hard)
    \<and> timer_row (timer_thread_wait k) Soft = timer_row k Soft"
proof -
  let ?s = "snd (rt_thread_suspend timer_thread k)"
  have e: "timer_thread_wait k = rt_schedule ?s"
    using assms(2,4,5) by (simp add: timer_thread_wait_def timer_list_next_timeout_def rt_thread_self_def)
  have ti: "timer_inv k" using assms(1) by (simp add: kernel_inv_def)
  have "Thread_timer timer_thread \<notin> set (timer_row k Hard)" "Thread_timer timer_thread \<notin> set (timer_row k Soft)"
    using timer_invD(4) [OF ti, of timer_thread] timer_invD(5) [OF ti, of timer_thread] timer_invD(9) [OF ti, of "Thread_timer timer_thread"] assms(3)
    by (auto simp: thread_timer_ok_def)
  then have r: "timer_row ?s Hard = timer_row k Hard" "timer_row ?s Soft = timer_row k Soft"
      "Thread_timer timer_thread \<notin> set (timer_row ?s Hard)"
    using assms(3) by (auto simp: rt_thread_suspend_def rt_timer_stop_def Let_def)
  have "tstat ?s timer_thread = 2" using rt_thread_suspend_effect(2) [of k timer_thread] assms(3) by simp
  then have "tstat (rt_schedule ?s) timer_thread = 2"
    using rt_schedule_tstat [of ?s timer_thread] rt_thread_suspend_inv [OF assms(1)] by (auto simp: kernel_inv_def)
  with r show ?thesis unfolding e by simp
qed


text \<open>The timer thread runs and timer 5, a soft timer, is due at the last tick before the
  wrap-around.\<close>

definition example_soft :: "'a \<Rightarrow> 'a kernel_scheme" where
  "example_soft ext = (let k = boot_kernel ext in k\<lparr>
     rt_current_thread := Some timer_thread,
     thread := (thread k)(timer_thread := started_thread 4 3),
     timer := (timer k)(Thread_timer timer_thread := zero_timer\<lparr>timeout_func := Rt_thread_timeout timer_thread\<rparr>,
       Timer 5 := zero_timer\<lparr>timeout_tick := 0xFFFFFFFF\<rparr>),
     object := (object k)(Timer_obj (Timer 5) := zero_object\<lparr>obj_flag := 5\<rparr>),
     timer_row := (timer_row k)(Soft := [Timer 5])\<rparr>)"

lemma example_soft_inv: "kernel_inv (example_soft ext)"
proof -
  have s: "tstat (example_soft ext) = (\<lambda>_. 0)(timer_thread := 3)"
    "timer_flag (example_soft ext) = (\<lambda>_. 0)(Timer 5 := 5)"
    by (auto simp: example_soft_def Let_def tstat_def boot_kernel_def started_thread_def zero_thread_def zero_object_def
        timer_flag_def fun_eq_iff)
  have t: "tlist (example_soft ext) = (\<lambda>_. [])" "ready_group (example_soft ext) = 0"
    "rt_current_thread (example_soft ext) = Some timer_thread"
    by (simp_all add: example_soft_def boot_kernel_def Let_def)
  have "mask_ok (example_soft ext) timer_thread"
    by (simp add: mask_ok_def prio_def example_soft_def started_thread_def Let_def)
  then have "sched_inv (example_soft ext)"
    unfolding sched_inv_def cur_inv_def by (auto intro!: rq_invI simp: lists_ok_def family_ok_def s t split: if_splits)
  moreover have "timer_inv (example_soft ext)"
    by (rule timer_invI) (auto simp: s thread_timer_ok_def family_ok_def, auto simp: example_soft_def Let_def zero_timer_def split: if_splits)
  ultimately show ?thesis by (simp add: kernel_inv_def)
qed

theorem timer_thread_misses_tick_max_witness:
  "tstat (timer_thread_wait (example_soft ())) timer_thread = 2
     \<and> timer_row (timer_thread_wait (example_soft ())) Soft = [Timer 5]"
proof -
  have "tstat (example_soft ()) timer_thread = 3" "rt_current_thread (example_soft ()) = Some timer_thread"
    "timer_row (example_soft ()) Soft = [Timer 5]" "timeout_tick (timer (example_soft ()) (Timer 5)) = 0xFFFFFFFF"
    by (simp_all add: example_soft_def tstat_def started_thread_def Let_def)
  then show ?thesis
    using timer_thread_misses_tick_max [of "example_soft ()" "Timer 5" "[]"] example_soft_inv [of "()"] by simp
qed

end
