(* ===== verification/Ipc.thy ===== *)
theory Ipc
  imports Thread
begin

text \<open>
  The common part of \<^verbatim>\<open>rt-thread/src/ipc.c\<close>: the state of the IPC objects, which extends the
  kernel record, and the wait lists (\<open>_ipc_list_suspend\<close>, \<open>_ipc_list_resume\<close>,
  \<open>_ipc_list_resume_all\<close>). An object at address \<open>a\<close> has the wait lists \<open>Suspended a\<close> and,
  for mailboxes and message queues, \<open>Senders a\<close>. Operations that block are split at the call of
  \<open>rt_schedule\<close>: the first part returns \<open>None\<close> when the caller has been suspended.
\<close>

section \<open>State\<close>

record rt_semaphore =
  sem_value :: u16

record rt_mutex =
  mutex_value :: u16
  original_priority :: u8
  hold :: u8
  owner :: "tid option"

record rt_event =
  evt_set :: u32

record rt_mailbox =
  msg_pool :: "nat \<Rightarrow> u32"
  mb_size :: u16
  mb_entry :: u16
  in_offset :: u16
  out_offset :: u16

record rt_messagequeue =
  mq_data :: "nat \<Rightarrow> u8 list"
  mq_next :: "nat \<Rightarrow> nat option"
  msg_size :: u16
  max_msgs :: u16
  mq_entry :: u16
  msg_queue_head :: "nat option"
  msg_queue_tail :: "nat option"
  msg_queue_free :: "nat option"

record ipc = kernel +
  sem :: "addr \<Rightarrow> rt_semaphore"
  mutex :: "addr \<Rightarrow> rt_mutex"
  event :: "addr \<Rightarrow> rt_event"
  mailbox :: "addr \<Rightarrow> rt_mailbox"
  messagequeue :: "addr \<Rightarrow> rt_messagequeue"

abbreviation (input) RT_IPC_FLAG_FIFO :: u8 where "RT_IPC_FLAG_FIFO \<equiv> 0"
abbreviation (input) RT_IPC_FLAG_PRIO :: u8 where "RT_IPC_FLAG_PRIO \<equiv> 1"

definition upd_sem :: "addr \<Rightarrow> (rt_semaphore \<Rightarrow> rt_semaphore) \<Rightarrow> 'a ipc_scheme \<Rightarrow> 'a ipc_scheme" where
  "upd_sem a f k = k\<lparr>sem := (sem k)(a := f (sem k a))\<rparr>"

definition upd_mutex :: "addr \<Rightarrow> (rt_mutex \<Rightarrow> rt_mutex) \<Rightarrow> 'a ipc_scheme \<Rightarrow> 'a ipc_scheme" where
  "upd_mutex a f k = k\<lparr>mutex := (mutex k)(a := f (mutex k a))\<rparr>"

definition upd_event :: "addr \<Rightarrow> (rt_event \<Rightarrow> rt_event) \<Rightarrow> 'a ipc_scheme \<Rightarrow> 'a ipc_scheme" where
  "upd_event a f k = k\<lparr>event := (event k)(a := f (event k a))\<rparr>"

definition upd_mailbox :: "addr \<Rightarrow> (rt_mailbox \<Rightarrow> rt_mailbox) \<Rightarrow> 'a ipc_scheme \<Rightarrow> 'a ipc_scheme" where
  "upd_mailbox a f k = k\<lparr>mailbox := (mailbox k)(a := f (mailbox k a))\<rparr>"

definition upd_mq :: "addr \<Rightarrow> (rt_messagequeue \<Rightarrow> rt_messagequeue) \<Rightarrow> 'a ipc_scheme \<Rightarrow> 'a ipc_scheme" where
  "upd_mq a f k = k\<lparr>messagequeue := (messagequeue k)(a := f (messagequeue k a))\<rparr>"

definition set_ipc_flag :: "addr \<Rightarrow> u8 \<Rightarrow> 'a kernel_scheme \<Rightarrow> 'a kernel_scheme" where
  "set_ipc_flag a flag = upd_object (Ipc_obj a) (\<lambda>ob. ob\<lparr>obj_flag := flag\<rparr>)"

definition ipc_flag :: "'a kernel_scheme \<Rightarrow> addr \<Rightarrow> u8" where
  "ipc_flag k a = obj_flag (object k (Ipc_obj a))"

section \<open>Wait lists\<close>

text \<open>\<open>rt_list_init\<close> of the wait list of an object that is being set up.\<close>

definition ipc_object_init :: "addr \<Rightarrow> 'a kernel_scheme \<Rightarrow> 'a kernel_scheme" where
  "ipc_object_init a k = k\<lparr>tlist := (tlist k)(Suspended a := [])\<rparr>"

text \<open>Priority order: before the first waiter with a lower priority (a larger number), so behind
  the waiters of the same priority.\<close>

fun prio_insert :: "(tid \<Rightarrow> nat) \<Rightarrow> tid \<Rightarrow> tid list \<Rightarrow> tid list" where
  "prio_insert p t [] = [t]"
| "prio_insert p t (u # us) = (if p t < p u then t # u # us else u # prio_insert p t us)"

definition ipc_list_suspend :: "list_id \<Rightarrow> tid \<Rightarrow> u8 \<Rightarrow> 'a kernel_scheme \<Rightarrow> 'a kernel_scheme" where
  "ipc_list_suspend l t flag k =
     (let k = snd (rt_thread_suspend t k)
      in if flag = RT_IPC_FLAG_FIFO then tlist_push_back l t k
         else if flag = RT_IPC_FLAG_PRIO then k\<lparr>tlist := (tlist k)(l := prio_insert (prio k) t (tlist k l))\<rparr>
         else k)"

text \<open>Called only when the list is not empty.\<close>

definition ipc_list_resume :: "list_id \<Rightarrow> 'a kernel_scheme \<Rightarrow> 'a kernel_scheme" where
  "ipc_list_resume l k = snd (rt_thread_resume (hd (tlist k l)) k)"

partial_function (option) ipc_list_resume_all :: "list_id \<Rightarrow> 'a kernel_scheme \<Rightarrow> 'a kernel_scheme option" where
  "ipc_list_resume_all l k =
     (case tlist k l of
        [] \<Rightarrow> Some k
      | t # _ \<Rightarrow> ipc_list_resume_all l (snd (rt_thread_resume t (upd_thread t (\<lambda>th. th\<lparr>error := - RT_ERROR\<rparr>) k))))"

text \<open>What every blocking operation does before it calls \<open>rt_schedule\<close>: suspend the caller on
  the list and start its timer unless it waits for ever.\<close>

definition wait_timer :: "tid \<Rightarrow> int \<Rightarrow> 'a kernel_scheme \<Rightarrow> 'a kernel_scheme" where
  "wait_timer t time k =
     (if time > 0
      then rt_timer_start (Thread_timer t) (snd (rt_timer_control (Thread_timer t) 0 (of_int time) k))
      else k)"

definition ipc_wait :: "list_id \<Rightarrow> tid \<Rightarrow> u8 \<Rightarrow> int \<Rightarrow> 'a kernel_scheme \<Rightarrow> 'a kernel_scheme" where
  "ipc_wait l t flag time k = wait_timer t time (ipc_list_suspend l t flag k)"

section \<open>Frame\<close>

text \<open>Kernel operations leave the IPC objects alone: they keep \<open>kernel.more\<close>.\<close>

lemma upd_more [simp]:
  "kernel.more (upd_timer x g k) = kernel.more k" "kernel.more (upd_object b h k) = kernel.more k"
  "kernel.more (tlist_remove t k) = kernel.more k" "kernel.more (tlist_push_back l t k) = kernel.more k"
  "kernel.more (tlist_push_front l t k) = kernel.more k"
  "kernel.more (object_list_insert ty b k) = kernel.more k" "kernel.more (object_list_remove b k) = kernel.more k"
  "kernel.more (rt_enter_critical k) = kernel.more k" "kernel.more (rt_exit_critical k) = kernel.more k"
  by (simp_all add: upd_defs object_list_insert_def object_list_remove_def rt_enter_critical_def
      rt_exit_critical_def Let_def)

lemma kernel_ops_more [simp]:
  "kernel.more (snd (rt_thread_suspend t k)) = kernel.more k"
  "kernel.more (snd (rt_thread_resume t k)) = kernel.more k"
  "kernel.more (snd (rt_timer_control x cmd arg k)) = kernel.more k"
  "kernel.more (rt_object_init b ty name k) = kernel.more k"
  "kernel.more (rt_object_detach b k) = kernel.more k" "kernel.more (rt_object_delete b k) = kernel.more k"
  "kernel.more (set_ipc_flag a flag k) = kernel.more k" "kernel.more (ipc_object_init a k) = kernel.more k"
  by (simp_all add: rt_thread_suspend_def rt_thread_resume_def rt_timer_control_def rt_object_init_def
      rt_object_detach_def rt_object_delete_def set_ipc_flag_def ipc_object_init_def Let_def)

lemma timer_start_more [simp]: "kernel.more (rt_timer_start x k) = kernel.more k"
  by (simp add: rt_timer_start_def Let_def)

lemma ipc_ops_more [simp]:
  "kernel.more (ipc_list_suspend l t flag k) = kernel.more k"
  "kernel.more (ipc_list_resume l k) = kernel.more k"
  "kernel.more (ipc_wait l t flag time k) = kernel.more k" "kernel.more (wait_timer t time k) = kernel.more k"
  by (simp_all add: ipc_list_suspend_def ipc_list_resume_def ipc_wait_def wait_timer_def Let_def)

lemma change_priority_more [simp]: "kernel.more (rt_thread_control clean t 2 p k) = kernel.more k"
  by (simp add: rt_thread_control_def Let_def)

lemma ipc_more_sel:
  assumes "kernel.more k' = kernel.more k"
  shows "sem k' = sem k" "mutex k' = mutex k" "event k' = event k" "mailbox k' = mailbox k"
    "messagequeue k' = messagequeue k"
  using assms by (cases k; cases k'; simp)+

lemmas ipc_frame [simp] =
  ipc_more_sel [OF rt_schedule_sel(9)] ipc_more_sel [OF ipc_ops_more(1)] ipc_more_sel [OF ipc_ops_more(2)]
  ipc_more_sel [OF ipc_ops_more(3)] ipc_more_sel [OF change_priority_more] ipc_more_sel [OF set_stat_more(4)]
  ipc_more_sel [OF kernel_ops_more(2)] ipc_more_sel [OF kernel_ops_more(4)] ipc_more_sel [OF kernel_ops_more(7)]
  ipc_more_sel [OF kernel_ops_more(8)] ipc_more_sel [OF kernel_ops_more(5)] ipc_more_sel [OF kernel_ops_more(6)]

text \<open>Changing an IPC object leaves the kernel alone.\<close>

lemma upd_ipc_sel [simp]:
  "sem (upd_sem a f k) = (sem k)(a := f (sem k a))"
  "mutex (upd_mutex a g k) = (mutex k)(a := g (mutex k a))"
  "event (upd_event a h k) = (event k)(a := h (event k a))"
  "mailbox (upd_mailbox a m k) = (mailbox k)(a := m (mailbox k a))"
  "messagequeue (upd_mq a q k) = (messagequeue k)(a := q (messagequeue k a))"
  by (simp_all add: upd_sem_def upd_mutex_def upd_event_def upd_mailbox_def upd_mq_def)

lemma upd_ipc_kernel [simp]:
  "thread (upd_sem a f k) = thread k" "tlist (upd_sem a f k) = tlist k" "rt_current_thread (upd_sem a f k) = rt_current_thread k"
  "rt_tick (upd_sem a f k) = rt_tick k" "object (upd_sem a f k) = object k" "timer_row (upd_sem a f k) = timer_row k"
  "thread (upd_mutex a g k) = thread k" "tlist (upd_mutex a g k) = tlist k" "rt_current_thread (upd_mutex a g k) = rt_current_thread k"
  "rt_tick (upd_mutex a g k) = rt_tick k" "object (upd_mutex a g k) = object k" "timer_row (upd_mutex a g k) = timer_row k"
  "thread (upd_event a h k) = thread k" "tlist (upd_event a h k) = tlist k" "rt_current_thread (upd_event a h k) = rt_current_thread k"
  "rt_tick (upd_event a h k) = rt_tick k" "object (upd_event a h k) = object k" "timer_row (upd_event a h k) = timer_row k"
  "thread (upd_mailbox a m k) = thread k" "tlist (upd_mailbox a m k) = tlist k" "rt_current_thread (upd_mailbox a m k) = rt_current_thread k"
  "rt_tick (upd_mailbox a m k) = rt_tick k" "object (upd_mailbox a m k) = object k" "timer_row (upd_mailbox a m k) = timer_row k"
  "thread (upd_mq a q k) = thread k" "tlist (upd_mq a q k) = tlist k" "rt_current_thread (upd_mq a q k) = rt_current_thread k"
  "rt_tick (upd_mq a q k) = rt_tick k" "object (upd_mq a q k) = object k" "timer_row (upd_mq a q k) = timer_row k"
  by (simp_all add: upd_sem_def upd_mutex_def upd_event_def upd_mailbox_def upd_mq_def)

lemma kernel_inv_more:
  assumes "kernel_inv k" "tlist k' = tlist k" "ready_group k' = ready_group k" "thread k' = thread k"
    "rt_current_thread k' = rt_current_thread k" "timer k' = timer k" "timer_row k' = timer_row k" "object k' = object k"
  shows "kernel_inv k'"
proof -
  have e: "tstat k' = tstat k" "prio k' = prio k" "timer_flag k' = timer_flag k"
    using assms by (simp_all add: tstat_def prio_def timer_flag_def fun_eq_iff)
  have "timer_inv k'" using assms(1) by (intro timer_inv_cong [of k k']) (simp_all add: assms e kernel_inv_def)
  then show ?thesis using assms(1) sched_inv_cong [of k' k] by (simp add: assms e kernel_inv_def)
qed

lemma upd_ipc_inv [kinv]:
  "kernel_inv k \<Longrightarrow> kernel_inv (upd_sem a f k)" "kernel_inv k \<Longrightarrow> kernel_inv (upd_mutex a g k)"
  "kernel_inv k \<Longrightarrow> kernel_inv (upd_event a h k)" "kernel_inv k \<Longrightarrow> kernel_inv (upd_mailbox a m k)"
  "kernel_inv k \<Longrightarrow> kernel_inv (upd_mq a q k)"
  by (erule kernel_inv_more; simp add: upd_sem_def upd_mutex_def upd_event_def upd_mailbox_def upd_mq_def)+

lemma upd_ipc_tstat [simp]:
  "tstat (upd_sem a f k) = tstat k" "tstat (upd_mutex a g k) = tstat k" "tstat (upd_event a h k) = tstat k"
  "tstat (upd_mailbox a m k) = tstat k" "tstat (upd_mq a q k) = tstat k"
  "prio (upd_sem a f k) = prio k" "prio (upd_mutex a g k) = prio k" "prio (upd_event a h k) = prio k"
  "prio (upd_mailbox a m k) = prio k" "prio (upd_mq a q k) = prio k"
  by (simp_all add: tstat_def prio_def fun_eq_iff)

section \<open>Wait lists keep the kernel consistent\<close>

definition wait_list :: "list_id \<Rightarrow> bool" where
  "wait_list l \<longleftrightarrow> (\<exists>a. l = Suspended a \<or> l = Senders a)"

lemma wait_list_simps [simp]:
  "wait_list (Suspended a)" "wait_list (Senders a)" "\<not> wait_list (Ready p)" "\<not> wait_list Defunct"
  by (auto simp: wait_list_def)

lemma prio_insert_split: "\<exists>ys zs. us = ys @ zs \<and> prio_insert p t us = ys @ t # zs"
proof (induction us)
  case (Cons u us)
  then obtain ys zs where "us = ys @ zs" "prio_insert p t us = ys @ t # zs" by blast
  then show ?case by (auto intro: exI [of _ "u # ys"] exI [of _ "[]"])
qed simp

lemma set_prio_insert [simp]: "set (prio_insert p t us) = insert t (set us)"
  using prio_insert_split [of us p t] by auto

text \<open>A suspended thread that is on no list may be put anywhere on a wait list.\<close>

lemma wait_insert_inv:
  assumes k: "kernel_inv k" and t: "tstat k t = 2" "unlinked k t" and l: "wait_list l" and s: "tlist k l = ys @ zs"
  shows "kernel_inv (k\<lparr>tlist := (tlist k)(l := ys @ t # zs)\<rparr>)"
proof -
  let ?k = "k\<lparr>tlist := (tlist k)(l := ys @ t # zs)\<rparr>"
  have rq: "rq_inv k" and ci: "cur_inv k" and ti: "timer_inv k" using k by (auto simp: kernel_inv_def sched_inv_def)
  have S: "tstat ?k = tstat k" "prio ?k = prio k" "mask_ok ?k = mask_ok k"
    by (simp_all add: tstat_def prio_def mask_ok_def fun_eq_iff)
  have m: "x \<in> set (tlist ?k i) \<Longrightarrow> x \<in> set (tlist k i) \<or> x = t \<and> i = l" for x i
    using s by (auto split: if_splits)
  have r: "tlist ?k (Ready p) = tlist k (Ready p)" "tlist ?k Defunct = tlist k Defunct" for p
    using l by (auto simp: wait_list_def)
  have "rq_inv ?k"
  proof (rule rq_invI)
    show "lists_ok ?k"
      using rq_lists [OF rq] t(2) s by (auto simp: lists_ok_def unlinked_def intro: family_ok_insert)
    show "tstat ?k x = 2" if "x \<in> set (tlist ?k (Suspended a))" for a x
      using m [OF that] t(1) rq_waiting(1) [OF rq] unfolding S by auto
    show "tstat ?k x = 2" if "x \<in> set (tlist ?k (Senders a))" for a x
      using m [OF that] t(1) rq_waiting(2) [OF rq] unfolding S by auto
  qed (use r rq_ready_prio [OF rq] rq_readyD [OF rq] rq_group [OF rq] rq_mask [OF rq] rq_waiting(3) [OF rq] in \<open>simp_all add: S del: fun_upd_apply\<close>)
  moreover have "cur_inv ?k" using ci by (simp add: cur_inv_def S)
  moreover have "timer_inv ?k" by (rule timer_inv_cong [OF ti]) (simp_all add: S timer_flag_def fun_eq_iff)
  ultimately show ?thesis by (simp add: kernel_inv_def sched_inv_def)
qed

lemma running_unlinked: "kernel_inv k \<Longrightarrow> tstat k t = 3 \<Longrightarrow> t \<notin> set (tlist k l)"
  using rq_unlinked [of k t] by (auto simp: kernel_inv_def sched_inv_def unlinked_def)

text \<open>Where \<open>_ipc_list_suspend\<close> puts the running thread.\<close>

definition wait_place :: "u8 \<Rightarrow> (tid \<Rightarrow> nat) \<Rightarrow> tid \<Rightarrow> tid list \<Rightarrow> tid list" where
  "wait_place flag p t us = (if flag = RT_IPC_FLAG_FIFO then us @ [t] else prio_insert p t us)"

lemma rt_thread_suspend_prio [simp]: "prio (snd (rt_thread_suspend t k)) = prio k"
  by (simp add: rt_thread_suspend_def Let_def)

text \<open>Suspending the running thread and putting it on a wait list.\<close>

lemma suspend_insert_effect:
  assumes k: "kernel_inv k" and t: "tstat k t = 3" and l: "wait_list l" and yz: "tlist k l = ys @ zs"
  defines "s \<equiv> snd (rt_thread_suspend t k)"
  shows "tlist s = tlist k" "kernel_inv (s\<lparr>tlist := (tlist s)(l := ys @ t # zs)\<rparr>)"
    "tstat (s\<lparr>tlist := (tlist s)(l := ys @ t # zs)\<rparr>) = (tstat k)(t := 2)"
    "rt_current_thread s = rt_current_thread k"
proof -
  have s: "kernel_inv s" "tstat s = (tstat k)(t := 2)" by (simp_all add: s_def rt_thread_suspend_inv k rt_thread_suspend_effect t)
  show tl: "tlist s = tlist k"
    using running_unlinked [OF k t] by (auto simp: s_def rt_thread_suspend_effect t fun_eq_iff)
  have u: "unlinked s t" using running_unlinked [OF k t] by (simp add: unlinked_def tl)
  show "kernel_inv (s\<lparr>tlist := (tlist s)(l := ys @ t # zs)\<rparr>)"
    by (rule wait_insert_inv [OF s(1) _ u l]) (simp_all add: s(2) tl yz)
  show "tstat (s\<lparr>tlist := (tlist s)(l := ys @ t # zs)\<rparr>) = (tstat k)(t := 2)" using s(2) by (simp add: tstat_def fun_eq_iff)
  show "rt_current_thread s = rt_current_thread k" by (simp add: s_def)
qed

lemma ipc_list_suspend_effect:
  assumes k: "kernel_inv k" and t: "tstat k t = 3" and l: "wait_list l" and f: "flag \<in> {0, 1}"
  shows "kernel_inv (ipc_list_suspend l t flag k)"
    "tlist (ipc_list_suspend l t flag k) = (tlist k)(l := wait_place flag (prio k) t (tlist k l))"
    "tstat (ipc_list_suspend l t flag k) = (tstat k)(t := 2)"
    "rt_current_thread (ipc_list_suspend l t flag k) = rt_current_thread k"
proof -
  let ?s = "snd (rt_thread_suspend t k)"
  obtain ys zs where yz: "tlist k l = ys @ zs" "wait_place flag (prio k) t (tlist k l) = ys @ t # zs"
    using prio_insert_split [of "tlist k l" "prio k" t] that [of "tlist k l" "[]"]
    by (cases "flag = 0") (auto simp: wait_place_def)
  note s = suspend_insert_effect [OF k t l yz(1)]
  have e: "ipc_list_suspend l t flag k = ?s\<lparr>tlist := (tlist ?s)(l := wait_place flag (prio k) t (tlist k l))\<rparr>"
    using f by (auto simp: ipc_list_suspend_def wait_place_def tlist_push_back_def s(1) Let_def)
  show "kernel_inv (ipc_list_suspend l t flag k)" "tstat (ipc_list_suspend l t flag k) = (tstat k)(t := 2)"
    unfolding e yz(2) by (rule s(2), rule s(3))
  show "tlist (ipc_list_suspend l t flag k) = (tlist k)(l := wait_place flag (prio k) t (tlist k l))"
    "rt_current_thread (ipc_list_suspend l t flag k) = rt_current_thread k" unfolding e by (simp_all add: s(1,4))
qed

lemma rt_timer_start_thread:
  assumes "timer_flag k (Thread_timer t) AND 4 = 0"
  shows "tlist (rt_timer_start (Thread_timer t) k) = tlist k" "tstat (rt_timer_start (Thread_timer t) k) = tstat k"
    "rt_current_thread (rt_timer_start (Thread_timer t) k) = rt_current_thread k"
    "thread (rt_timer_start (Thread_timer t) k) = thread k"
  using assms by (simp_all add: rt_timer_start_def Let_def)

lemma wait_timer_effect:
  assumes k: "kernel_inv k" and t: "tstat k t = 2"
  shows "kernel_inv (wait_timer t time k)" "tlist (wait_timer t time k) = tlist k" "tstat (wait_timer t time k) = tstat k"
    "rt_current_thread (wait_timer t time k) = rt_current_thread k"
    "0 < time \<Longrightarrow> Thread_timer t \<in> set (timer_row (wait_timer t time k) Hard)"
proof -
  let ?c = "snd (rt_timer_control (Thread_timer t) 0 (of_int time) k)"
  have c: "kernel_inv ?c" using k by (intro rt_timer_control_inv) auto
  then have fl: "timer_flag ?c (Thread_timer t) AND 4 = 0"
    using timer_invD(5) [of ?c t] by (simp add: kernel_inv_def thread_timer_ok_def)
  have "kernel_inv (rt_timer_start (Thread_timer t) ?c)" using c t by (intro rt_timer_start_inv) auto
  then show "kernel_inv (wait_timer t time k)" using k by (simp add: wait_timer_def)
  have tl: "tlist ?c = tlist k" by (simp add: rt_timer_control_def)
  show "tlist (wait_timer t time k) = tlist k" "tstat (wait_timer t time k) = tstat k"
    "rt_current_thread (wait_timer t time k) = rt_current_thread k"
    using rt_timer_start_thread [OF fl] tl by (auto simp: wait_timer_def)
  show "Thread_timer t \<in> set (timer_row (wait_timer t time k) Hard)" if "0 < time"
    using that fl by (simp add: wait_timer_def rt_timer_start_def Let_def timer_enqueue_mem start_row_def)
qed

lemma ipc_wait_effect:
  assumes k: "kernel_inv k" and t: "tstat k t = 3" and l: "wait_list l" and f: "flag \<in> {0, 1}"
  shows "kernel_inv (ipc_wait l t flag time k)"
    "tlist (ipc_wait l t flag time k) = (tlist k)(l := wait_place flag (prio k) t (tlist k l))"
    "tstat (ipc_wait l t flag time k) = (tstat k)(t := 2)"
    "rt_current_thread (ipc_wait l t flag time k) = rt_current_thread k"
    "0 < time \<Longrightarrow> Thread_timer t \<in> set (timer_row (ipc_wait l t flag time k) Hard)"
proof -
  note s = ipc_list_suspend_effect [OF assms]
  have "tstat (ipc_list_suspend l t flag k) t = 2" using s(3) by simp
  note w = wait_timer_effect [OF s(1) this, of time]
  show "kernel_inv (ipc_wait l t flag time k)" "tstat (ipc_wait l t flag time k) = (tstat k)(t := 2)"
    "tlist (ipc_wait l t flag time k) = (tlist k)(l := wait_place flag (prio k) t (tlist k l))"
    "rt_current_thread (ipc_wait l t flag time k) = rt_current_thread k"
    "0 < time \<Longrightarrow> Thread_timer t \<in> set (timer_row (ipc_wait l t flag time k) Hard)"
    unfolding ipc_wait_def using w s by simp_all
qed

section \<open>Waking waiters\<close>

lemma wait_list_hd:
  assumes "kernel_inv k" "wait_list l" "tlist k l = t # ts"
  shows "tstat k t = 2" "t \<notin> set ts" "x \<in> set ts \<Longrightarrow> tstat k x = 2"
proof -
  have rq: "rq_inv k" using assms(1) by (simp add: kernel_inv_def sched_inv_def)
  have "tstat k x = 2" if "x \<in> set (tlist k l)" for x
    using that rq_waiting(1,2) [OF rq, of x] assms(2) by (auto simp: wait_list_def)
  then show "tstat k t = 2" "x \<in> set ts \<Longrightarrow> tstat k x = 2" using assms(3) by auto
  show "t \<notin> set ts" using rq_lists [OF rq] assms(3) unfolding lists_ok_def family_ok_def by (metis distinct.simps(2))
qed

lemma rt_thread_resume_tlist:
  assumes "tstat k t = 2" "wait_list l"
  shows "tlist (snd (rt_thread_resume t k)) l = removeAll t (tlist k l)"
  using assms by (auto simp: rt_thread_resume_def rt_schedule_insert_thread_def Let_def wait_list_def)

lemma ipc_list_resume_effect:
  assumes "kernel_inv k" "wait_list l" "tlist k l = t # ts"
  shows "kernel_inv (ipc_list_resume l k)" "tlist (ipc_list_resume l k) l = ts"
    "tstat (ipc_list_resume l k) = (tstat k)(t := if rt_current_thread k = Some t then 3 else 1)"
    "rt_current_thread (ipc_list_resume l k) = rt_current_thread k"
  using assms wait_list_hd [OF assms] rt_thread_resume_effect [of k t]
  by (simp_all add: ipc_list_resume_def rt_thread_resume_inv rt_thread_resume_tlist)

lemma ipc_list_resume_other:
  assumes "kernel_inv k" "wait_list l" "tlist k l = t # ts" "wait_list m" "m \<noteq> l"
  shows "tlist (ipc_list_resume l k) m = tlist k m"
proof -
  have "t \<notin> set (tlist k m)"
    using assms by (auto simp: kernel_inv_def sched_inv_def rq_inv_def lists_ok_def family_ok_def)
  then show ?thesis using assms wait_list_hd(1) [OF assms(1-3)] by (simp add: ipc_list_resume_def rt_thread_resume_tlist)
qed


text \<open>\<open>_ipc_list_resume_all\<close> returns and wakes every waiter with error \<open>-RT_ERROR\<close>.\<close>

lemma rt_thread_resume_fields [simp]:
  "error (thread (snd (rt_thread_resume t k)) u) = error (thread k u)"
  "object (snd (rt_timer_stop x k)) (Ipc_obj a) = object k (Ipc_obj a)"
  "object (snd (rt_thread_resume t k)) (Ipc_obj a) = object k (Ipc_obj a)"
  using insert_thread_stat_only [of t "snd (rt_timer_stop (Thread_timer t) (tlist_remove t k))" u]
  by (auto simp: rt_thread_resume_def rt_timer_stop_def upd_timer_flag_def Let_def)

lemma ipc_list_resume_all_effect:
  fixes k :: "'a kernel_scheme"
  assumes "kernel_inv k" and w: "wait_list l"
  shows "\<exists>k'. ipc_list_resume_all l k = Some k' \<and> kernel_inv k' \<and> tlist k' l = [] \<and> kernel.more k' = kernel.more k
    \<and> (\<forall>t \<in> set (tlist k l). tstat k' t \<in> {1, 3} \<and> error (thread k' t) = - RT_ERROR)
    \<and> (\<forall>t. t \<notin> set (tlist k l) \<longrightarrow> tstat k' t = tstat k t \<and> error (thread k' t) = error (thread k t))
    \<and> (\<forall>m. wait_list m \<longrightarrow> m \<noteq> l \<longrightarrow> tlist k' m = tlist k m) \<and> (\<forall>a. object k' (Ipc_obj a) = object k (Ipc_obj a))"
  using assms(1)
proof (induction "tlist k l" arbitrary: k)
  case Nil
  then show ?case by (subst ipc_list_resume_all.simps) (auto simp: Nil.hyps [symmetric])
next
  case (Cons t ts)
  let ?e = "upd_thread t (\<lambda>th. th\<lparr>error := - RT_ERROR\<rparr>) k"
  let ?k = "ipc_list_resume l ?e"
  note l = Cons.hyps(2) [symmetric]
  have e: "kernel_inv ?e" using Cons.prems by (intro kernel_inv_upd_same) simp_all
  have te: "tstat ?e = tstat k" by (auto simp: tstat_def fun_eq_iff)
  have le: "tlist ?e l = t # ts" using l by simp
  note r = ipc_list_resume_effect [OF e w le]
  have t: "t \<notin> set ts" using wait_list_hd(2) [OF e w le] .
  have er: "error (thread ?k u) = (if u = t then - RT_ERROR else error (thread k u))" for u
    by (simp add: ipc_list_resume_def)
  have ts: "tstat ?k u = (if u = t then if rt_current_thread k = Some t then 3 else 1 else tstat k u)" for u
    using r(3) te by simp
  have ob: "object ?k (Ipc_obj a) = object k (Ipc_obj a)" for a by (simp add: ipc_list_resume_def)
  have ot: "tlist ?k m = tlist k m" if "wait_list m" "m \<noteq> l" for m
    using ipc_list_resume_other [OF e w le that] by simp
  have step: "ipc_list_resume_all l k = ipc_list_resume_all l ?k"
    using l by (subst ipc_list_resume_all.simps) (simp add: ipc_list_resume_def)
  obtain k' where k': "ipc_list_resume_all l ?k = Some k'" "kernel_inv k'" "tlist k' l = []" "kernel.more k' = kernel.more ?k"
    "\<forall>u \<in> set ts. tstat k' u \<in> {1, 3} \<and> error (thread k' u) = - RT_ERROR"
    "\<forall>u. u \<notin> set ts \<longrightarrow> tstat k' u = tstat ?k u \<and> error (thread k' u) = error (thread ?k u)"
    "\<forall>m. wait_list m \<longrightarrow> m \<noteq> l \<longrightarrow> tlist k' m = tlist ?k m" "\<forall>a. object k' (Ipc_obj a) = object ?k (Ipc_obj a)"
    using Cons.hyps(1) [OF r(2) [symmetric] r(1)] unfolding r(2) by blast
  have "tstat k' u \<in> {1, 3} \<and> error (thread k' u) = - RT_ERROR" if "u \<in> set (tlist k l)" for u
    using that l k'(5,6) t ts er by (cases "u = t") auto
  moreover have "tstat k' u = tstat k u \<and> error (thread k' u) = error (thread k u)" if "u \<notin> set (tlist k l)" for u
    using that l k'(6) ts er by auto
  ultimately show ?case using k' step ob ot by auto
qed

section \<open>The blocking path\<close>

lemma wait_lists_schedule:
  "kernel_inv k \<Longrightarrow> tlist (rt_schedule k) (Suspended a) = tlist k (Suspended a)"
  "kernel_inv k \<Longrightarrow> tlist (rt_schedule k) (Senders a) = tlist k (Senders a)"
  by (auto simp: kernel_inv_def intro: rt_schedule_wait_lists)

text \<open>Leaving a critical section.\<close>

lemma exit_critical_effect:
  assumes "kernel_inv k"
  shows "wait_list m \<Longrightarrow> tlist (rt_exit_critical k) m = tlist k m" "tstat (rt_exit_critical k) t = tstat k t \<or> tstat k t \<in> {1, 3} \<and> tstat (rt_exit_critical k) t \<in> {1, 3}"
    "error (thread (rt_exit_critical k) t) = error (thread k t)"
proof -
  have n: "sched_inv (k\<lparr>rt_scheduler_lock_nest := n\<rparr>)" for n using assms by (simp add: kernel_inv_def sched_inv_lock_nest)
  show "wait_list m \<Longrightarrow> tlist (rt_exit_critical k) m = tlist k m"
    using rt_schedule_wait_lists [OF n [of 0], of m] by (auto simp: rt_exit_critical_def Let_def wait_list_def)
  show "tstat (rt_exit_critical k) t = tstat k t \<or> tstat k t \<in> {1, 3} \<and> tstat (rt_exit_critical k) t \<in> {1, 3}"
    using rt_schedule_tstat [OF n [of 0], of t] by (auto simp: rt_exit_critical_def Let_def)
  show "error (thread (rt_exit_critical k) t) = error (thread k t)" by (simp add: rt_exit_critical_def Let_def)
qed

lemma set_error_inv:
  assumes "kernel_inv k"
  shows "kernel_inv (upd_thread t (\<lambda>th. th\<lparr>error := e\<rparr>) k)"
    "tstat (upd_thread t (\<lambda>th. th\<lparr>error := e\<rparr>) k) = tstat k" "prio (upd_thread t (\<lambda>th. th\<lparr>error := e\<rparr>) k) = prio k"
  using assms by (auto simp: tstat_def prio_def fun_eq_iff intro: kernel_inv_upd_same)

lemma rt_set_errno_effect:
  assumes "kernel_inv k"
  shows "kernel_inv (rt_set_errno e k)" "tlist (rt_set_errno e k) = tlist k" "tstat (rt_set_errno e k) = tstat k"
    "kernel.more (rt_set_errno e k) = kernel.more k"
proof -
  have "kernel_inv (k\<lparr>rt_errno := e\<rparr>)" by (rule kernel_inv_more [OF assms]) simp_all
  then show "kernel_inv (rt_set_errno e k)" "tlist (rt_set_errno e k) = tlist k" "tstat (rt_set_errno e k) = tstat k"
    "kernel.more (rt_set_errno e k) = kernel.more k"
    using set_error_inv [OF assms] by (auto simp: rt_set_errno_def upd_thread_def tstat_def fun_eq_iff split: option.split)
qed

lemma ipc_flag_upd_thread [simp]: "ipc_flag (upd_thread t f k) = ipc_flag k"
  by (simp add: ipc_flag_def fun_eq_iff)

text \<open>The blocking path shared by the IPC operations: clear the error, wait, schedule.\<close>

lemma schedule_waiter:
  assumes w: "kernel_inv w" "tstat w t = 2"
  shows "kernel_inv (rt_schedule w)" "tstat (rt_schedule w) t = 2" "wait_list m \<Longrightarrow> tlist (rt_schedule w) m = tlist w m"
    "tstat w u \<notin> {1, 3} \<Longrightarrow> tstat (rt_schedule w) u = tstat w u"
proof -
  have s: "sched_inv w" using w(1) by (simp add: kernel_inv_def)
  show "kernel_inv (rt_schedule w)" using w(1) by (rule rt_schedule_kernel_inv)
  show "wait_list m \<Longrightarrow> tlist (rt_schedule w) m = tlist w m" by (intro rt_schedule_wait_lists [OF s]) auto
  show "tstat (rt_schedule w) t = 2" "tstat w u \<notin> {1, 3} \<Longrightarrow> tstat (rt_schedule w) u = tstat w u"
    using rt_schedule_tstat [OF s, of t] rt_schedule_tstat [OF s, of u] w(2) by auto
qed

lemma block_effect:
  fixes time :: int
  assumes k: "kernel_inv k" and t: "tstat k t = 3" and l: "wait_list l" and f: "flag \<in> {0, 1}"
  defines "k' \<equiv> rt_schedule (ipc_wait l t flag time (upd_thread t (\<lambda>th. th\<lparr>error := 0\<rparr>) k))"
  shows "kernel_inv k'" "tlist k' l = wait_place flag (prio k) t (tlist k l)" "tstat k' t = 2"
    "wait_list m \<Longrightarrow> m \<noteq> l \<Longrightarrow> tlist k' m = tlist k m" "kernel.more k' = kernel.more k"
    "u \<noteq> t \<Longrightarrow> tstat k u \<notin> {1, 3} \<Longrightarrow> tstat k' u = tstat k u"
proof -
  let ?e = "upd_thread t (\<lambda>th. th\<lparr>error := 0\<rparr>) k"
  note e = set_error_inv [OF k, of t 0]
  have "tstat ?e t = 3" using t e(2) by simp
  note w = ipc_wait_effect [OF e(1) this l f, of time]
  have "tstat (ipc_wait l t flag time ?e) t = 2" using w(3) by simp
  note s = schedule_waiter [OF w(1) this, folded k'_def]
  show "kernel_inv k'" "tstat k' t = 2" by (rule s)+
  show "tlist k' l = wait_place flag (prio k) t (tlist k l)" using s(3) [OF l] w(2) e(3) by simp
  show "tlist k' m = tlist k m" if "wait_list m" "m \<noteq> l" using s(3) [OF that(1)] w(2) that(2) by simp
  show "u \<noteq> t \<Longrightarrow> tstat k u \<notin> {1, 3} \<Longrightarrow> tstat k' u = tstat k u" using s(4) [of u] w(3) e(2) by simp
  show "kernel.more k' = kernel.more k" unfolding k'_def by simp
qed

section \<open>First in, first out\<close>

text \<open>The interface a FIFO wait list offers to the objects that use it: blocking appends the
  thread, waking takes the one that has waited longest.\<close>

locale fifo_waiters =
  fixes waiters :: "'s \<Rightarrow> tid list" and block :: "tid \<Rightarrow> 's \<Rightarrow> 's" and wake :: "'s \<Rightarrow> 's"
    and ok :: "'s \<Rightarrow> bool" and may_block :: "'s \<Rightarrow> tid \<Rightarrow> bool"
  assumes block: "ok s \<Longrightarrow> may_block s t \<Longrightarrow> ok (block t s) \<and> waiters (block t s) = waiters s @ [t]"
    and wake: "ok s \<Longrightarrow> waiters s = t # ts \<Longrightarrow> ok (wake s) \<and> waiters (wake s) = ts"
begin

lemma wake_many: "ok s \<Longrightarrow> n \<le> length (waiters s) \<Longrightarrow> ok ((wake ^^ n) s) \<and> waiters ((wake ^^ n) s) = drop n (waiters s)"
proof (induction n)
  case (Suc n)
  then have IH: "ok ((wake ^^ n) s)" "waiters ((wake ^^ n) s) = drop n (waiters s)" by auto
  have "drop n (waiters s) = waiters s ! n # drop (Suc n) (waiters s)" using Suc.prems(2) by (simp add: Cons_nth_drop_Suc)
  then show ?case using wake [OF IH(1)] IH(2) by simp
qed simp

text \<open>A thread that blocks behind \<open>n\<close> others is first in line after \<open>n\<close> wake-ups.\<close>

lemma served_in_turn:
  assumes "ok s" "may_block s t"
  shows "waiters ((wake ^^ length (waiters s)) (block t s)) = [t]"
  using block [OF assms] wake_many [of "block t s" "length (waiters s)"] by simp

end

interpretation ipc_fifo: fifo_waiters "\<lambda>k. tlist k l" "\<lambda>t. ipc_list_suspend l t RT_IPC_FLAG_FIFO"
  "ipc_list_resume l" "\<lambda>k. kernel_inv k \<and> wait_list l" "\<lambda>k t. tstat k t = RT_THREAD_RUNNING"
  for l
  by unfold_locales (auto simp: ipc_list_suspend_effect ipc_list_resume_effect wait_place_def)

section \<open>An example state\<close>

text \<open>The example kernel (thread 1 runs, 2 and the idle thread 0 are ready) with zeroed IPC
  objects, all with the FIFO flag.\<close>

definition idle_ipc :: "'a \<Rightarrow> 'a ipc_ext" where
  "idle_ipc ext = ipc_ext (\<lambda>_. \<lparr>sem_value = 0\<rparr>)
     (\<lambda>_. \<lparr>mutex_value = 1, original_priority = 0xFF, hold = 0, owner = None\<rparr>) (\<lambda>_. \<lparr>evt_set = 0\<rparr>)
     (\<lambda>_. \<lparr>msg_pool = (\<lambda>_. 0), mb_size = 0, mb_entry = 0, in_offset = 0, out_offset = 0\<rparr>)
     (\<lambda>_. \<lparr>mq_data = (\<lambda>_. []), mq_next = (\<lambda>_. None), msg_size = 0, max_msgs = 0, mq_entry = 0,
       msg_queue_head = None, msg_queue_tail = None, msg_queue_free = None\<rparr>) ext"

definition example_ipc :: ipc where
  "example_ipc = example_running (idle_ipc ())"

lemma example_ipc_sel [simp]:
  "kernel_inv example_ipc" "tstat example_ipc = (\<lambda>_. 0)(0 := 1, 1 := 3, 2 := 1)"
  "rt_current_thread example_ipc = Some 1" "prio example_ipc = (\<lambda>_. 0)(0 := 31, 1 := 10, 2 := 10)"
  "tlist example_ipc = (\<lambda>_. [])(Ready 31 := [0], Ready 10 := [2])" "ipc_flag example_ipc = (\<lambda>_. 0)"
  "rt_scheduler_lock_nest example_ipc = 0" "timer_row example_ipc = (\<lambda>_. [])"
  by (simp_all add: example_ipc_def example_running_inv)
    (simp add: ipc_flag_def example_running_def example_kernel_def boot_kernel_def zero_object_def fun_eq_iff)

lemma example_ipc_objects [simp]:
  "sem example_ipc a = \<lparr>sem_value = 0\<rparr>"
  "mutex example_ipc a = \<lparr>mutex_value = 1, original_priority = 0xFF, hold = 0, owner = None\<rparr>"
  "event example_ipc a = \<lparr>evt_set = 0\<rparr>"
  by (simp_all add: example_ipc_def example_running_def example_kernel_def boot_kernel_def idle_ipc_def)

end
