(* ===== verification/Ipc_Sem.thy ===== *)
theory Ipc_Sem
  imports Ipc
begin

text \<open>
  Semaphores (\<^verbatim>\<open>rt_sem_*\<close> of \<^verbatim>\<open>rt-thread/src/ipc.c\<close>) and their specification as a counter
  with a queue of waiters. \<open>rt_sem_take\<close> returns \<open>None\<close> when the caller has been suspended;
  \<open>rt_sem_take_end\<close> is what it returns when it runs again.
\<close>

section \<open>Operations\<close>

definition rt_sem_init :: "addr \<Rightarrow> cstring \<Rightarrow> u32 \<Rightarrow> u8 \<Rightarrow> 'a ipc_scheme \<Rightarrow> 'a ipc_scheme" where
  "rt_sem_init a name value flag k =
     (let k = rt_object_init (Ipc_obj a) RT_Object_Class_Semaphore name k;
          k = ipc_object_init a k;
          k = upd_sem a (\<lambda>s. s\<lparr>sem_value := ucast value\<rparr>) k
      in set_ipc_flag a flag k)"

definition rt_sem_detach :: "addr \<Rightarrow> 'a ipc_scheme \<Rightarrow> 'a ipc_scheme option" where
  "rt_sem_detach a k = map_option (rt_object_detach (Ipc_obj a)) (ipc_list_resume_all (Suspended a) k)"

definition rt_sem_create :: "obj_id option \<Rightarrow> cstring \<Rightarrow> u32 \<Rightarrow> u8 \<Rightarrow> 'a ipc_scheme \<Rightarrow> addr option \<times> 'a ipc_scheme" where
  "rt_sem_create mem name value flag k =
     (case rt_object_allocate mem RT_Object_Class_Semaphore name k of
        (Some (Ipc_obj a), k) \<Rightarrow>
          let k = ipc_object_init a k;
              k = upd_sem a (\<lambda>s. s\<lparr>sem_value := ucast value\<rparr>) k
          in (Some a, set_ipc_flag a flag k)
      | (_, k) \<Rightarrow> (None, k))"

definition rt_sem_delete :: "addr \<Rightarrow> 'a ipc_scheme \<Rightarrow> 'a ipc_scheme option" where
  "rt_sem_delete a k = map_option (rt_object_delete (Ipc_obj a)) (ipc_list_resume_all (Suspended a) k)"

text \<open>A caller that has to wait is a thread, so there is a current one.\<close>

definition rt_sem_take :: "addr \<Rightarrow> int \<Rightarrow> 'a ipc_scheme \<Rightarrow> rt_err option \<times> 'a ipc_scheme" where
  "rt_sem_take a time k =
     (if sem_value (sem k a) > 0 then (Some RT_EOK, upd_sem a (\<lambda>s. s\<lparr>sem_value := sem_value s - 1\<rparr>) k)
      else if time = 0 then (Some (- RT_ETIMEOUT), k)
      else case rt_thread_self k of
        None \<Rightarrow> (None, k)
      | Some t \<Rightarrow>
          let k = upd_thread t (\<lambda>th. th\<lparr>error := RT_EOK\<rparr>) k;
              k = ipc_wait (Suspended a) t (ipc_flag k a) time k
          in (None, rt_schedule k))"

definition rt_sem_take_end :: "tid \<Rightarrow> 'a ipc_scheme \<Rightarrow> rt_err" where
  "rt_sem_take_end t k = (if error (thread k t) \<noteq> RT_EOK then error (thread k t) else RT_EOK)"

definition rt_sem_trytake :: "addr \<Rightarrow> 'a ipc_scheme \<Rightarrow> rt_err option \<times> 'a ipc_scheme" where
  "rt_sem_trytake a k = rt_sem_take a 0 k"

definition rt_sem_release :: "addr \<Rightarrow> 'a ipc_scheme \<Rightarrow> rt_err \<times> 'a ipc_scheme" where
  "rt_sem_release a k =
     (if tlist k (Suspended a) \<noteq> [] then (RT_EOK, rt_schedule (ipc_list_resume (Suspended a) k))
      else if sem_value (sem k a) < 0xFFFF then (RT_EOK, upd_sem a (\<lambda>s. s\<lparr>sem_value := sem_value s + 1\<rparr>) k)
      else (- RT_EFULL, k))"

definition rt_sem_control :: "addr \<Rightarrow> nat \<Rightarrow> u32 \<Rightarrow> 'a ipc_scheme \<Rightarrow> (rt_err \<times> 'a ipc_scheme) option" where
  "rt_sem_control a cmd arg k =
     (if cmd = 1 then
        map_option (\<lambda>k. (RT_EOK, rt_schedule (upd_sem a (\<lambda>s. s\<lparr>sem_value := ucast arg\<rparr>) k)))
          (ipc_list_resume_all (Suspended a) k)
      else Some (- RT_ERROR, k))"

section \<open>Specification\<close>

text \<open>A counting semaphore: the count and the waiters in the order they will be served.\<close>

type_synonym sem_spec = "nat \<times> tid list"

definition sem_abs :: "addr \<Rightarrow> 'a ipc_scheme \<Rightarrow> sem_spec" where
  "sem_abs a k = (unat (sem_value (sem k a)), tlist k (Suspended a))"

text \<open>Nobody waits while the count is positive.\<close>

definition sem_inv :: "addr \<Rightarrow> 'a ipc_scheme \<Rightarrow> bool" where
  "sem_inv a k \<longleftrightarrow> (case sem_abs a k of (n, q) \<Rightarrow> 0 < n \<longrightarrow> q = [])"

fun sem_take_spec :: "(tid list \<Rightarrow> tid list) \<Rightarrow> int \<Rightarrow> sem_spec \<Rightarrow> rt_err option \<times> sem_spec" where
  "sem_take_spec place time (n, q) =
     (if 0 < n then (Some RT_EOK, (n - 1, q))
      else if time = 0 then (Some (- RT_ETIMEOUT), (n, q))
      else (None, (n, place q)))"

fun sem_release_spec :: "sem_spec \<Rightarrow> rt_err \<times> sem_spec" where
  "sem_release_spec (n, []) = (if n < 65535 then (RT_EOK, (n + 1, [])) else (- RT_EFULL, (n, [])))"
| "sem_release_spec (n, t # q) = (RT_EOK, (n, q))"

section \<open>Refinement\<close>

lemma rt_sem_take_effect:
  assumes k: "kernel_inv k" and c: "rt_current_thread k = Some t" "tstat k t = 3" and f: "ipc_flag k a \<in> {0, 1}"
  shows "kernel_inv (snd (rt_sem_take a time k))"
    "(fst (rt_sem_take a time k), sem_abs a (snd (rt_sem_take a time k)))
       = sem_take_spec (wait_place (ipc_flag k a) (prio k) t) time (sem_abs a k)"
proof -
  note b = block_effect [OF k c(2) wait_list_simps(1) [of a] f, where time = time]
  have v: "sem_value (sem k a) > 0 \<longleftrightarrow> 0 < unat (sem_value (sem k a))" by (simp add: unat_gt_0 word_neq_0_conv)
  have m: "unat (sem_value (sem k a) - 1) = unat (sem_value (sem k a)) - 1" if "sem_value (sem k a) > 0"
    using that by (simp add: word_gt_0 unat_minus_one)
  show "kernel_inv (snd (rt_sem_take a time k))"
    using k c b(1) by (simp add: rt_sem_take_def rt_thread_self_def Let_def upd_ipc_inv)
  show "(fst (rt_sem_take a time k), sem_abs a (snd (rt_sem_take a time k)))
       = sem_take_spec (wait_place (ipc_flag k a) (prio k) t) time (sem_abs a k)"
    using c v m b(2) ipc_more_sel(1) [OF b(5)] by (auto simp: rt_sem_take_def sem_abs_def rt_thread_self_def Let_def)
qed

lemma rt_sem_release_effect:
  assumes k: "kernel_inv k"
  shows "kernel_inv (snd (rt_sem_release a k))"
    "(fst (rt_sem_release a k), sem_abs a (snd (rt_sem_release a k))) = sem_release_spec (sem_abs a k)"
proof -
  have l: "sem_value (sem k a) < 0xFFFF \<longleftrightarrow> unat (sem_value (sem k a)) < 65535" by (simp add: word_less_nat_alt)
  have p: "unat (sem_value (sem k a) + 1) = unat (sem_value (sem k a)) + 1" if "unat (sem_value (sem k a)) < 65535"
    using that by (simp add: unat_add_no_wrap)
  show "kernel_inv (snd (rt_sem_release a k))"
    using k ipc_list_resume_effect(1) [OF k, of "Suspended a"]
    by (cases "tlist k (Suspended a)") (auto simp: rt_sem_release_def upd_ipc_inv rt_schedule_kernel_inv)
  show "(fst (rt_sem_release a k), sem_abs a (snd (rt_sem_release a k))) = sem_release_spec (sem_abs a k)"
  proof (cases "tlist k (Suspended a)")
    case Nil
    then show ?thesis using l p by (simp add: rt_sem_release_def sem_abs_def)
  next
    case (Cons t ts)
    note r = ipc_list_resume_effect [OF k wait_list_simps(1) Cons]
    show ?thesis using Cons r wait_lists_schedule(1) [OF r(1), of a] by (simp add: rt_sem_release_def sem_abs_def)
  qed
qed

lemma sem_inv_take: "sem_inv a k \<Longrightarrow> (r, sem_abs a k') = sem_take_spec pl time (sem_abs a k) \<Longrightarrow> sem_inv a k'"
  by (cases "sem_abs a k") (auto simp: sem_inv_def split: if_splits)

lemma sem_inv_release: "sem_inv a k \<Longrightarrow> (r, sem_abs a k') = sem_release_spec (sem_abs a k) \<Longrightarrow> sem_inv a k'"
  by (cases "sem_abs a k" rule: sem_release_spec.cases) (auto simp: sem_inv_def split: if_splits)

section \<open>Accounting\<close>

text \<open>A run of one semaphore by any threads, counting the takes that have been granted (at once or
  by a release that hands over to a waiter) and the releases that have been accepted. A waiter that
  gives up (times out or is resumed by others) leaves the list. Between the calls anything may
  happen that leaves this semaphore's value alone and keeps the kernel consistent.\<close>

inductive sem_run :: "addr \<Rightarrow> 'a ipc_scheme \<Rightarrow> 'a ipc_scheme \<Rightarrow> nat \<Rightarrow> nat \<Rightarrow> bool" for a k0 where
  start: "sem_run a k0 k0 0 0"
| taken: "sem_run a k0 k g r \<Longrightarrow> rt_sem_take a time k = (Some RT_EOK, k') \<Longrightarrow> sem_run a k0 k' (g + 1) r"
| not_taken: "sem_run a k0 k g r \<Longrightarrow> rt_sem_take a time k = (e, k') \<Longrightarrow> e \<noteq> Some RT_EOK \<Longrightarrow>
    rt_current_thread k = Some t \<Longrightarrow> tstat k t = RT_THREAD_RUNNING \<Longrightarrow> ipc_flag k a \<in> {0, 1} \<Longrightarrow> sem_run a k0 k' g r"
| handed_over: "sem_run a k0 k g r \<Longrightarrow> tlist k (Suspended a) \<noteq> [] \<Longrightarrow> rt_sem_release a k = (e, k') \<Longrightarrow>
    sem_run a k0 k' (g + 1) (r + 1)"
| released: "sem_run a k0 k g r \<Longrightarrow> tlist k (Suspended a) = [] \<Longrightarrow> rt_sem_release a k = (RT_EOK, k') \<Longrightarrow>
    sem_run a k0 k' g (r + 1)"
| other: "sem_run a k0 k g r \<Longrightarrow> kernel_inv k' \<Longrightarrow> sem k' a = sem k a \<Longrightarrow>
    set (tlist k' (Suspended a)) \<subseteq> set (tlist k (Suspended a)) \<Longrightarrow> sem_run a k0 k' g r"

lemma sem_run_inv:
  assumes "sem_run a k0 k g r" "kernel_inv k0" "sem_inv a k0"
  shows "kernel_inv k \<and> sem_inv a k \<and> fst (sem_abs a k) + g = fst (sem_abs a k0) + r"
  using assms
proof induction
  case (taken k g r time k')
  then have v: "sem_value (sem k a) > 0" "k' = upd_sem a (\<lambda>s. s\<lparr>sem_value := sem_value s - 1\<rparr>) k"
    by (auto simp: rt_sem_take_def Let_def split: if_splits option.splits)
  have p: "0 < unat (sem_value (sem k a))" using v(1) by (simp add: unat_gt_0 word_neq_0_conv)
  moreover have "unat (sem_value (sem k a) - 1) = unat (sem_value (sem k a)) - 1"
    using v(1) by (simp add: word_gt_0 unat_minus_one)
  ultimately show ?case using taken.IH taken.prems v(2) by (auto simp: sem_abs_def sem_inv_def upd_ipc_inv)
next
  case (not_taken k g r time e k' t)
  then have i: "kernel_inv k" "sem_inv a k" "fst (sem_abs a k) + g = fst (sem_abs a k0) + r" by auto
  note ef = rt_sem_take_effect [OF i(1) not_taken.hyps(4-6), of time, unfolded not_taken.hyps(2) fst_conv snd_conv]
  have "sem_inv a k'" by (rule sem_inv_take [OF i(2) ef(2)])
  moreover have "fst (sem_abs a k') = fst (sem_abs a k)"
    using ef(2) not_taken.hyps(3) by (cases "sem_abs a k") (auto split: if_splits)
  ultimately show ?case using ef(1) i(3) by simp
next
  case (handed_over k g r e k')
  then have i: "kernel_inv k" "sem_inv a k" "fst (sem_abs a k) + g = fst (sem_abs a k0) + r" by auto
  note ef = rt_sem_release_effect [OF i(1), of a, unfolded handed_over.hyps(3) fst_conv snd_conv]
  have "sem_inv a k'" by (rule sem_inv_release [OF i(2) ef(2)])
  moreover have "fst (sem_abs a k') = fst (sem_abs a k)"
    using ef(2) handed_over.hyps(2) by (cases "tlist k (Suspended a)") (auto simp: sem_abs_def)
  ultimately show ?case using ef(1) i(3) by simp
next
  case (released k g r k')
  then have i: "kernel_inv k" "sem_inv a k" "fst (sem_abs a k) + g = fst (sem_abs a k0) + r" by auto
  note ef = rt_sem_release_effect [OF i(1), of a, unfolded released.hyps(3) fst_conv snd_conv]
  have "sem_inv a k'" by (rule sem_inv_release [OF i(2) ef(2)])
  moreover have "fst (sem_abs a k') = fst (sem_abs a k) + 1"
    using ef(2) released.hyps(2) by (auto simp: sem_abs_def split: if_splits)
  ultimately show ?case using ef(1) i(3) by simp
next
  case (other k g r k')
  then show ?case by (auto simp: sem_abs_def sem_inv_def)
qed auto

section \<open>Properties\<close>

text \<open>
  C7. Semaphores refine a counting semaphore: on every consistent state, \<open>rt_sem_take\<close> by the
  running thread and \<open>rt_sem_release\<close> return what the specification returns and leave its
  count and its queue of waiters (in arrival or priority order), keep the kernel consistent and
  keep the count at zero while threads wait.
\<close>

theorem rt_sem_refines:
  assumes "kernel_inv k" "sem_inv a k" "rt_current_thread k = Some t" "tstat k t = RT_THREAD_RUNNING"
    and "ipc_flag k a \<in> {RT_IPC_FLAG_FIFO, RT_IPC_FLAG_PRIO}"
  shows "(fst (rt_sem_take a time k), sem_abs a (snd (rt_sem_take a time k)))
        = sem_take_spec (wait_place (ipc_flag k a) (prio k) t) time (sem_abs a k)
    \<and> (fst (rt_sem_release a k), sem_abs a (snd (rt_sem_release a k))) = sem_release_spec (sem_abs a k)
    \<and> kernel_inv (snd (rt_sem_take a time k)) \<and> sem_inv a (snd (rt_sem_take a time k))
    \<and> kernel_inv (snd (rt_sem_release a k)) \<and> sem_inv a (snd (rt_sem_release a k))"
  using rt_sem_take_effect [OF assms(1,3,4,5), of time] rt_sem_release_effect [OF assms(1), of a]
    sem_inv_take [OF assms(2)] sem_inv_release [OF assms(2)] by (intro conjI) blast+

theorem rt_sem_refines_witness:
  "sem_abs 4 (snd (rt_sem_take 4 (- 1) example_ipc)) = (0, [1]) \<and> kernel_inv (snd (rt_sem_take 4 (- 1) example_ipc))"
  using rt_sem_refines [of example_ipc 4 1 "- 1"] by (simp add: sem_inv_def sem_abs_def wait_place_def)

text \<open>
  No permit is lost or invented: in every run of takes and releases of a semaphore, with
  anything else in between that leaves its value alone, the count plus the number of granted takes
  equals the initial count plus the number of accepted releases; in particular at most
  initial count plus releases threads ever hold it.
\<close>

theorem rt_sem_accounting:
  assumes "sem_run a k0 k granted released" "kernel_inv k0" "sem_inv a k0"
  shows "unat (sem_value (sem k a)) + granted = unat (sem_value (sem k0 a)) + released
    \<and> (tlist k (Suspended a) \<noteq> [] \<longrightarrow> granted = unat (sem_value (sem k0 a)) + released)"
  using sem_run_inv [OF assms] by (auto simp: sem_abs_def sem_inv_def)

theorem rt_sem_accounting_witness:
  "unat (sem_value (sem (snd (rt_sem_take 4 5 (snd (rt_sem_release 4 example_ipc)))) 4)) + 1 = 0 + 1"
proof -
  let ?k1 = "snd (rt_sem_release 4 example_ipc)" and ?k2 = "snd (rt_sem_take 4 5 (snd (rt_sem_release 4 example_ipc)))"
  have "sem_run 4 example_ipc ?k1 0 1"
    using sem_run.released [OF sem_run.start, of example_ipc 4 ?k1] by (simp add: rt_sem_release_def)
  moreover have "rt_sem_take 4 5 ?k1 = (Some 0, ?k2)" by (simp add: rt_sem_take_def rt_sem_release_def)
  ultimately have "sem_run 4 example_ipc ?k2 1 1" using sem_run.taken [of 4 example_ipc ?k1 0 1 5 ?k2] by simp
  then show ?thesis using rt_sem_accounting [of 4 example_ipc ?k2 1 1] by (simp add: sem_inv_def sem_abs_def)
qed

end
