(* ===== verification/Ipc_Mutex.thy ===== *)
theory Ipc_Mutex
  imports Ipc
begin

text \<open>
  Mutexes (\<^verbatim>\<open>rt_mutex_*\<close> of \<^verbatim>\<open>rt-thread/src/ipc.c\<close>): recursive locks with an owner and
  priority inheritance. \<open>rt_mutex_take\<close> and \<open>rt_mutex_release\<close> run in a thread, so there is
  a current one; \<open>rt_mutex_take\<close> returns \<open>None\<close> when the caller has been suspended.
\<close>

section \<open>Operations\<close>

definition mutex_setup :: "addr \<Rightarrow> 'a ipc_scheme \<Rightarrow> 'a ipc_scheme" where
  "mutex_setup a k =
     (let k = ipc_object_init a k;
          k = upd_mutex a (\<lambda>_. \<lparr>mutex_value = 1, original_priority = 0xFF, hold = 0, owner = None\<rparr>) k
      in set_ipc_flag a RT_IPC_FLAG_PRIO k)"

definition rt_mutex_init :: "addr \<Rightarrow> cstring \<Rightarrow> u8 \<Rightarrow> 'a ipc_scheme \<Rightarrow> 'a ipc_scheme" where
  "rt_mutex_init a name flag k = mutex_setup a (rt_object_init (Ipc_obj a) RT_Object_Class_Mutex name k)"

definition rt_mutex_detach :: "addr \<Rightarrow> 'a ipc_scheme \<Rightarrow> 'a ipc_scheme option" where
  "rt_mutex_detach a k = map_option (rt_object_detach (Ipc_obj a)) (ipc_list_resume_all (Suspended a) k)"

definition rt_mutex_create :: "obj_id option \<Rightarrow> cstring \<Rightarrow> u8 \<Rightarrow> 'a ipc_scheme \<Rightarrow> addr option \<times> 'a ipc_scheme" where
  "rt_mutex_create mem name flag k =
     (case rt_object_allocate mem RT_Object_Class_Mutex name k of
        (Some (Ipc_obj a), k) \<Rightarrow> (Some a, mutex_setup a k)
      | (_, k) \<Rightarrow> (None, k))"

definition rt_mutex_delete :: "addr \<Rightarrow> 'a ipc_scheme \<Rightarrow> 'a ipc_scheme option" where
  "rt_mutex_delete a k = map_option (rt_object_delete (Ipc_obj a)) (ipc_list_resume_all (Suspended a) k)"

text \<open>\<^verbatim>\<open>rt_thread_control(t, RT_THREAD_CTRL_CHANGE_PRIORITY, &p)\<close>; this command calls no
  cleanup function.\<close>

definition change_priority :: "tid \<Rightarrow> u8 \<Rightarrow> 'a kernel_scheme \<Rightarrow> 'a kernel_scheme" where
  "change_priority t p k = rt_thread_control (\<lambda>_ _ k. k) t 2 p k"

definition rt_mutex_take :: "addr \<Rightarrow> int \<Rightarrow> 'a ipc_scheme \<Rightarrow> rt_err option \<times> 'a ipc_scheme" where
  "rt_mutex_take a time k =
     (case rt_thread_self k of
        None \<Rightarrow> (None, k)
      | Some t \<Rightarrow>
          let k = upd_thread t (\<lambda>th. th\<lparr>error := RT_EOK\<rparr>) k
          in if owner (mutex k a) = Some t then
               (if hold (mutex k a) < 0xFF
                then (Some RT_EOK, upd_mutex a (\<lambda>m. m\<lparr>hold := hold m + 1\<rparr>) k)
                else (Some (- RT_EFULL), k))
             else if mutex_value (mutex k a) > 0 then
               let k = upd_mutex a (\<lambda>m. m\<lparr>mutex_value := mutex_value m - 1, owner := Some t,
                          original_priority := current_priority (thread k t)\<rparr>) k
               in if hold (mutex k a) < 0xFF
                  then (Some RT_EOK, upd_mutex a (\<lambda>m. m\<lparr>hold := hold m + 1\<rparr>) k)
                  else (Some (- RT_EFULL), k)
             else if time = 0 then
               (Some (- RT_ETIMEOUT), upd_thread t (\<lambda>th. th\<lparr>error := - RT_ETIMEOUT\<rparr>) k)
             else
               let k = (case owner (mutex k a) of
                          None \<Rightarrow> k
                        | Some ow \<Rightarrow>
                            if current_priority (thread k t) < current_priority (thread k ow)
                            then change_priority ow (current_priority (thread k t)) k else k);
                   k = ipc_wait (Suspended a) t (ipc_flag k a) time k
               in (None, rt_schedule k))"

definition rt_mutex_take_end :: "tid \<Rightarrow> 'a ipc_scheme \<Rightarrow> rt_err" where
  "rt_mutex_take_end t k = (if error (thread k t) \<noteq> RT_EOK then error (thread k t) else RT_EOK)"

definition rt_mutex_trytake :: "addr \<Rightarrow> 'a ipc_scheme \<Rightarrow> rt_err option \<times> 'a ipc_scheme" where
  "rt_mutex_trytake a k = rt_mutex_take a 0 k"

definition rt_mutex_release :: "addr \<Rightarrow> 'a ipc_scheme \<Rightarrow> rt_err \<times> 'a ipc_scheme" where
  "rt_mutex_release a k =
     (case rt_thread_self k of
        None \<Rightarrow> (- RT_ERROR, k)
      | Some t \<Rightarrow>
          if owner (mutex k a) \<noteq> Some t then
            (- RT_ERROR, upd_thread t (\<lambda>th. th\<lparr>error := - RT_ERROR\<rparr>) k)
          else
            let k = upd_mutex a (\<lambda>m. m\<lparr>hold := hold m - 1\<rparr>) k
            in if hold (mutex k a) \<noteq> 0 then (RT_EOK, k)
               else
                 let k = (if original_priority (mutex k a) \<noteq> current_priority (thread k t)
                          then change_priority t (original_priority (mutex k a)) k else k)
                 in case tlist k (Suspended a) of
                      w # _ \<Rightarrow>
                        let k = upd_mutex a (\<lambda>m. m\<lparr>owner := Some w, original_priority := current_priority (thread k w)\<rparr>) k
                        in if hold (mutex k a) < 0xFF then
                             let k = upd_mutex a (\<lambda>m. m\<lparr>hold := hold m + 1\<rparr>) k
                             in (RT_EOK, rt_schedule (ipc_list_resume (Suspended a) k))
                           else (- RT_EFULL, k)
                    | [] \<Rightarrow>
                        if mutex_value (mutex k a) < 0xFFFF then
                          (RT_EOK, upd_mutex a (\<lambda>m. m\<lparr>mutex_value := mutex_value m + 1, owner := None,
                             original_priority := 0xFF\<rparr>) k)
                        else (- RT_EFULL, k))"

definition rt_mutex_control :: "addr \<Rightarrow> nat \<Rightarrow> 'a ipc_scheme \<Rightarrow> rt_err \<times> 'a ipc_scheme" where
  "rt_mutex_control a cmd k = (- RT_ERROR, k)"

section \<open>Invariant\<close>

text \<open>A mutex is free, with nobody waiting, or held by one owner whose priority at the time it took
  the mutex is recorded.\<close>

definition mutex_inv :: "addr \<Rightarrow> 'a ipc_scheme \<Rightarrow> bool" where
  "mutex_inv a k \<longleftrightarrow>
     (case owner (mutex k a) of
        None \<Rightarrow> mutex_value (mutex k a) = 1 \<and> hold (mutex k a) = 0 \<and> tlist k (Suspended a) = []
      | Some ow \<Rightarrow> mutex_value (mutex k a) = 0 \<and> hold (mutex k a) \<noteq> 0
          \<and> unat (original_priority (mutex k a)) < RT_THREAD_PRIORITY_MAX
          \<and> ow \<notin> set (tlist k (Suspended a)))"

lemma change_priority_sel [simp]:
  "kernel.more (change_priority t p k) = kernel.more k"
  "rt_current_thread (change_priority t p k) = rt_current_thread k"
  by (simp_all add: change_priority_def rt_thread_control_def Let_def)

lemmas change_priority_frame [simp] = ipc_more_sel [OF change_priority_sel(1)]

lemma change_priority_kernel_inv [kinv]: "kernel_inv k \<Longrightarrow> unat p < 32 \<Longrightarrow> kernel_inv (change_priority t p k)"
  unfolding change_priority_def by (rule change_priority_inv)

text \<open>Only ready queues and the priority itself change.\<close>

lemma change_priority_effect:
  assumes "kernel_inv k"
  shows "tstat (change_priority t p k) = tstat k" "prio (change_priority t p k) = (prio k)(t := unat p)"
    "wait_list l \<Longrightarrow> tlist (change_priority t p k) l = tlist k l"
    "ipc_flag (change_priority t p k) = ipc_flag k"
    "error (thread (change_priority t p k) u) = error (thread k u)"
proof -
  let ?f = "\<lambda>th. th\<lparr>current_priority := p, number_mask := push_bit (unat p) 1\<rparr>"
  have e: "change_priority t p k = (if tstat k t = 1 then rt_schedule_insert_thread t (upd_thread t ?f (rt_schedule_remove_thread t k))
      else upd_thread t ?f k)"
    unfolding change_priority_def change_priority_unfold Let_def ..
  have rq: "rq_inv k" and ci: "cur_inv k" using assms by (auto simp: kernel_inv_def sched_inv_def)
  have c: "rt_current_thread k \<noteq> Some t" if "tstat k t = 1" using ci that by (auto simp: cur_inv_def)
  show "tstat (change_priority t p k) = tstat k"
    unfolding e using c by (cases "tstat k t = 1") (auto simp: tstat_insert fun_eq_iff, auto simp: tstat_def)
  show "prio (change_priority t p k) = (prio k)(t := unat p)" unfolding e by simp
  show "tlist (change_priority t p k) l = tlist k l" if l: "wait_list l"
  proof (cases "tstat k t = 1")
    case True
    then have "t \<notin> set (tlist k l)" using l rq_waiting(1,2) [OF rq, of t] by (auto simp: wait_list_def)
    then show ?thesis using True l c unfolding e by (auto simp: rt_schedule_insert_thread_def Let_def wait_list_def)
  next
    case False
    then show ?thesis unfolding e by simp
  qed
  show "ipc_flag (change_priority t p k) = ipc_flag k" unfolding e by (simp add: ipc_flag_def fun_eq_iff)
  show "error (thread (change_priority t p k) u) = error (thread k u)"
    unfolding e using insert_thread_stat_only [of t "upd_thread t ?f (rt_schedule_remove_thread t k)" u] by auto
qed

section \<open>Taking\<close>

lemma ipc_flag_mutex [simp]: "ipc_flag (upd_mutex a f k) = ipc_flag k"
  by (simp add: ipc_flag_def fun_eq_iff)

text \<open>The four ways \<open>rt_mutex_take\<close> by the running thread can go on a well-formed mutex.\<close>

lemma rt_mutex_take_cases:
  fixes k :: "'a ipc_scheme"
  assumes k: "kernel_inv k" and m: "mutex_inv a k" and c: "rt_current_thread k = Some t" "tstat k t = 3"
  defines "k1 \<equiv> upd_thread t (\<lambda>th. th\<lparr>error := 0\<rparr>) k"
  obtains
    (nested) "owner (mutex k a) = Some t" "hold (mutex k a) < 0xFF"
      "rt_mutex_take a time k = (Some 0, upd_mutex a (\<lambda>m. m\<lparr>hold := hold m + 1\<rparr>) k1)"
  | (full) "owner (mutex k a) = Some t" "hold (mutex k a) = 0xFF" "rt_mutex_take a time k = (Some (- 3), k1)"
  | (free) "owner (mutex k a) = None" "rt_mutex_take a time k = (Some 0,
      upd_mutex a (\<lambda>_. \<lparr>mutex_value = 0, original_priority = current_priority (thread k t), hold = 1, owner = Some t\<rparr>) k1)"
  | (fail) ow where "owner (mutex k a) = Some ow" "ow \<noteq> t" "time = 0"
      "rt_mutex_take a time k = (Some (- 2), upd_thread t (\<lambda>th. th\<lparr>error := - 2\<rparr>) k1)"
  | (wait) ow where "owner (mutex k a) = Some ow" "ow \<noteq> t" "time \<noteq> 0"
      "rt_mutex_take a time k = (None, rt_schedule (ipc_wait (Suspended a) t (ipc_flag k a) time
         (if current_priority (thread k t) < current_priority (thread k ow)
          then change_priority ow (current_priority (thread k t)) k1 else k1)))"
proof (cases "owner (mutex k a)")
  case None
  then have v: "mutex_value (mutex k a) = 1" "hold (mutex k a) = 0" using m by (simp_all add: mutex_inv_def)
  have r: "(mutex k a)\<lparr>mutex_value := 0, owner := Some t, original_priority := p, hold := 1\<rparr>
      = \<lparr>mutex_value = 0, original_priority = p, hold = 1, owner = Some t\<rparr>" for p by simp
  have "rt_mutex_take a time k = (Some 0, upd_mutex a
      (\<lambda>_. \<lparr>mutex_value = 0, original_priority = current_priority (thread k t), hold = 1, owner = Some t\<rparr>) k1)"
    using c None v by (simp add: rt_mutex_take_def rt_thread_self_def k1_def Let_def upd_mutex_def r)
  with None show ?thesis by (rule free)
next
  case (Some ow)
  then have v: "mutex_value (mutex k a) = 0" using m by (simp add: mutex_inv_def)
  show ?thesis
  proof (cases "ow = t")
    case True
    show ?thesis
    proof (cases "hold (mutex k a) < 0xFF")
      case h: True
      then show ?thesis using Some True c
        by (intro nested) (simp_all add: rt_mutex_take_def rt_thread_self_def k1_def Let_def)
    next
      case h: False
      have "unat (hold (mutex k a)) < 2 ^ LENGTH(8)" by (rule unsigned_less)
      then have "hold (mutex k a) \<le> 0xFF" by (simp add: word_le_nat_alt)
      then have "hold (mutex k a) = 0xFF" using h by simp
      then show ?thesis using Some True c
        by (intro full) (simp_all add: rt_mutex_take_def rt_thread_self_def k1_def Let_def)
    qed
  next
    case False
    have o: "thread k1 ow = thread k ow" using False by (simp add: k1_def)
    show ?thesis
    proof (cases "time = 0")
      case True
      with Some False v c show ?thesis
        by (intro fail) (simp_all add: rt_mutex_take_def rt_thread_self_def k1_def Let_def)
    next
      case nz: False
      have fl: "ipc_flag (change_priority ow p k1) = ipc_flag k" for p
        using change_priority_effect(4) [of k1] set_error_inv(1) [OF k, of t 0] by (simp add: k1_def)
      from Some False nz show ?thesis
      proof (rule wait)
        show "rt_mutex_take a time k = (None, rt_schedule (ipc_wait (Suspended a) t (ipc_flag k a) time
         (if current_priority (thread k t) < current_priority (thread k ow)
          then change_priority ow (current_priority (thread k t)) k1 else k1)))"
          using Some False v c nz fl unfolding rt_mutex_take_def rt_thread_self_def k1_def
          by (auto simp: Let_def)
      qed
    qed
  qed
qed

lemma started_prio: "kernel_inv k \<Longrightarrow> tstat k t \<in> {1, 2, 3} \<Longrightarrow> unat (current_priority (thread k t)) < 32"
  using rq_mask [of k t] by (auto simp: kernel_inv_def sched_inv_def mask_ok_def prio_def)

text \<open>Blocking on a held mutex: the owner inherits the priority of the thread that waits.\<close>

lemma mutex_wait_effect:
  fixes k :: "'a ipc_scheme" and time :: int
  assumes k: "kernel_inv k" and m: "mutex_inv a k" and c: "rt_current_thread k = Some t" "tstat k t = 3"
    and f: "ipc_flag k a \<in> {0, 1}" and ow: "owner (mutex k a) = Some ow" "ow \<noteq> t"
  defines "k2 \<equiv> (if current_priority (thread k t) < current_priority (thread k ow)
      then change_priority ow (current_priority (thread k t)) (upd_thread t (\<lambda>th. th\<lparr>error := 0\<rparr>) k)
      else upd_thread t (\<lambda>th. th\<lparr>error := 0\<rparr>) k)"
  defines "k' \<equiv> rt_schedule (ipc_wait (Suspended a) t (ipc_flag k a) time k2)"
  shows "kernel_inv k'" "mutex_inv a k'" "mutex k' = mutex k" "tstat k' t = 2" "t \<in> set (tlist k' (Suspended a))"
    "prio k' ow = min (prio k ow) (prio k t)"
proof -
  let ?k1 = "upd_thread t (\<lambda>th. th\<lparr>error := 0\<rparr>) k" and ?p = "current_priority (thread k t)"
  note e = set_error_inv [OF k, of t 0]
  have p: "unat ?p < 32" using started_prio [OF k, of t] c(2) by simp
  note cp = change_priority_effect [OF e(1), where t = ow and p = ?p]
  have lt: "?p < current_priority (thread k ow) \<longleftrightarrow> prio k t < prio k ow" by (simp add: prio_def word_less_nat_alt)
  have i2: "kernel_inv k2" unfolding k2_def using e(1) change_priority_kernel_inv [OF e(1) p] by simp
  have t2: "tstat k2 = tstat k" unfolding k2_def using cp(1) e(2) by simp
  have p2: "prio k2 ow = min (prio k ow) (prio k t)"
  proof (cases "prio k t < prio k ow")
    case True
    then have "k2 = change_priority ow ?p ?k1" using lt by (simp add: k2_def)
    then show ?thesis using cp(2) e(3) True by (simp add: prio_def [of k t])
  next
    case False
    then have "k2 = ?k1" using lt by (simp add: k2_def)
    then show ?thesis using e(3) False by (simp del: prio_upd_thread)
  qed
  have l2: "tlist k2 (Suspended a) = tlist k (Suspended a)" unfolding k2_def using cp(3) by simp
  have m2: "kernel.more k2 = kernel.more k" unfolding k2_def by simp
  have "tstat k2 t = 3" using t2 c(2) by simp
  note w = ipc_wait_effect [OF i2 this wait_list_simps(1) [of a] f, of time]
  have s: "sched_inv (ipc_wait (Suspended a) t (ipc_flag k a) time k2)" using w(1) by (simp add: kernel_inv_def)
  have wp: "prio (ipc_wait (Suspended a) t (ipc_flag k a) time k2) = prio k2"
  proof -
    have "prio (ipc_list_suspend l u fl kk) = prio kk" for l u fl and kk :: "'a ipc_scheme"
      by (simp add: ipc_list_suspend_def Let_def prio_def fun_eq_iff) (simp add: rt_thread_suspend_def prio_def Let_def)
    moreover have "prio (rt_timer_start x kk) = prio kk" for x and kk :: "'a ipc_scheme"
      by (auto simp: rt_timer_start_def Let_def fun_eq_iff rt_thread_resume_def)
    ultimately show ?thesis by (simp add: ipc_wait_def wait_timer_def Let_def) (simp add: rt_timer_control_def)
  qed
  show "kernel_inv k'" unfolding k'_def using w(1) by (rule rt_schedule_kernel_inv)
  have tl: "tlist k' (Suspended a) = wait_place (ipc_flag k a) (prio k2) t (tlist k (Suspended a))"
    unfolding k'_def using rt_schedule_wait_lists [OF s, of "Suspended a"] w(2) l2 by simp
  then show "t \<in> set (tlist k' (Suspended a))" by (simp add: wait_place_def)
  show mu: "mutex k' = mutex k" unfolding k'_def using ipc_more_sel(2) [OF m2] by simp
  show "tstat k' t = 2" unfolding k'_def using rt_schedule_tstat [OF s, of t] w(3) by auto
  show "prio k' ow = min (prio k ow) (prio k t)" unfolding k'_def using p2 wp by simp
  show "mutex_inv a k'" using m ow mu tl by (auto simp: mutex_inv_def wait_place_def)
qed

lemma rt_mutex_take_inv:
  assumes k: "kernel_inv k" and m: "mutex_inv a k" and c: "rt_current_thread k = Some t" "tstat k t = 3"
    and f: "ipc_flag k a \<in> {0, 1}"
  shows "kernel_inv (snd (rt_mutex_take a time k)) \<and> mutex_inv a (snd (rt_mutex_take a time k))"
  using k m c
proof (cases rule: rt_mutex_take_cases [where time = time])
  case nested
  have "unat (hold (mutex k a) + 1) = unat (hold (mutex k a)) + 1"
    using nested(2) by (simp add: unat_add_no_wrap word_less_nat_alt)
  then have "hold (mutex k a) + 1 \<noteq> 0" by (metis One_nat_def add_is_0 nat.simps(3) unsigned_0)
  then show ?thesis using nested k m by (simp add: mutex_inv_def upd_ipc_inv set_error_inv)
next
  case full
  then show ?thesis using k m by (simp add: mutex_inv_def set_error_inv)
next
  case free
  then show ?thesis using k m started_prio [OF k, of t] c(2) by (simp add: mutex_inv_def upd_ipc_inv set_error_inv)
next
  case (fail ow)
  then show ?thesis using k m by (simp add: mutex_inv_def set_error_inv)
next
  case (wait ow)
  then show ?thesis using mutex_wait_effect(1,2) [OF k m c f wait(1,2), where time = time] by simp
qed

section \<open>Releasing\<close>

text \<open>The state in which the last release of a mutex passes it on: the owner is back at the
  priority it had when it took it.\<close>

definition mutex_restored :: "addr \<Rightarrow> tid \<Rightarrow> 'a ipc_scheme \<Rightarrow> 'a ipc_scheme" where
  "mutex_restored a t k =
     (let k = upd_mutex a (\<lambda>m. m\<lparr>hold := hold m - 1\<rparr>) k
      in if original_priority (mutex k a) \<noteq> current_priority (thread k t)
         then change_priority t (original_priority (mutex k a)) k else k)"

lemma mutex_restored_effect:
  assumes k: "kernel_inv k" and m: "mutex_inv a k" and o: "owner (mutex k a) = Some t"
  shows "kernel_inv (mutex_restored a t k)"
    "mutex (mutex_restored a t k) = (mutex k)(a := (mutex k a)\<lparr>hold := hold (mutex k a) - 1\<rparr>)"
    "tstat (mutex_restored a t k) = tstat k" "wait_list l \<Longrightarrow> tlist (mutex_restored a t k) l = tlist k l"
    "prio (mutex_restored a t k) = (prio k)(t := unat (original_priority (mutex k a)))"
    "rt_current_thread (mutex_restored a t k) = rt_current_thread k"
proof -
  let ?k = "upd_mutex a (\<lambda>m. m\<lparr>hold := hold m - 1\<rparr>) k"
  have i: "kernel_inv ?k" using k by (rule upd_ipc_inv)
  have p: "unat (original_priority (mutex k a)) < 32" using m o by (simp add: mutex_inv_def)
  note cp = change_priority_effect [OF i, where t = t and p = "original_priority (mutex k a)"]
  have e: "mutex_restored a t k = (if original_priority (mutex k a) \<noteq> current_priority (thread k t)
      then change_priority t (original_priority (mutex k a)) ?k else ?k)"
    by (simp add: mutex_restored_def Let_def)
  show "kernel_inv (mutex_restored a t k)" unfolding e using i change_priority_kernel_inv [OF i p] by simp
  show "mutex (mutex_restored a t k) = (mutex k)(a := (mutex k a)\<lparr>hold := hold (mutex k a) - 1\<rparr>)"
    "rt_current_thread (mutex_restored a t k) = rt_current_thread k" unfolding e by simp_all
  show "tstat (mutex_restored a t k) = tstat k" "wait_list l \<Longrightarrow> tlist (mutex_restored a t k) l = tlist k l"
    unfolding e using cp(1,3) by simp_all
  show "prio (mutex_restored a t k) = (prio k)(t := unat (original_priority (mutex k a)))"
    unfolding e using cp(2) by (auto simp: prio_def fun_eq_iff)
qed

lemma rt_mutex_release_cases:
  fixes k :: "'a ipc_scheme"
  assumes m: "mutex_inv a k" and k: "kernel_inv k" and c: "rt_current_thread k = Some t"
  obtains
    (not_owner) "owner (mutex k a) \<noteq> Some t"
      "rt_mutex_release a k = (- 1, upd_thread t (\<lambda>th. th\<lparr>error := - 1\<rparr>) k)"
  | (nested) "owner (mutex k a) = Some t" "hold (mutex k a) \<noteq> 1"
      "rt_mutex_release a k = (0, upd_mutex a (\<lambda>m. m\<lparr>hold := hold m - 1\<rparr>) k)"
  | (free) "owner (mutex k a) = Some t" "hold (mutex k a) = 1" "tlist k (Suspended a) = []"
      "rt_mutex_release a k = (0, upd_mutex a (\<lambda>_. \<lparr>mutex_value = 1, original_priority = 0xFF, hold = 0, owner = None\<rparr>)
         (mutex_restored a t k))"
  | (pass) w ws where "owner (mutex k a) = Some t" "hold (mutex k a) = 1" "tlist k (Suspended a) = w # ws"
      "rt_mutex_release a k = (0, rt_schedule (ipc_list_resume (Suspended a)
         (upd_mutex a (\<lambda>_. \<lparr>mutex_value = 0, original_priority = current_priority (thread (mutex_restored a t k) w), hold = 1, owner = Some w\<rparr>)
            (mutex_restored a t k))))"
proof (cases "owner (mutex k a) = Some t")
  case False
  then show ?thesis using c by (intro not_owner) (simp_all add: rt_mutex_release_def rt_thread_self_def)
next
  case o: True
  have v: "mutex_value (mutex k a) = 0" "hold (mutex k a) \<noteq> 0" using m o by (simp_all add: mutex_inv_def)
  show ?thesis
  proof (cases "hold (mutex k a) = 1")
    case False
    then show ?thesis using c o by (intro nested) (simp_all add: rt_mutex_release_def rt_thread_self_def Let_def)
  next
    case h: True
    note r = mutex_restored_effect [OF k m o]
    have mu: "mutex (mutex_restored a t k) a = \<lparr>mutex_value = 0, original_priority = original_priority (mutex k a), hold = 0, owner = Some t\<rparr>"
      using r(2) o v h by simp
    have e: "rt_mutex_release a k = (case tlist k (Suspended a) of
        w # _ \<Rightarrow> (0, rt_schedule (ipc_list_resume (Suspended a)
          (upd_mutex a (\<lambda>m. m\<lparr>hold := hold m + 1\<rparr>)
            (upd_mutex a (\<lambda>m. m\<lparr>owner := Some w, original_priority := current_priority (thread (mutex_restored a t k) w)\<rparr>) (mutex_restored a t k)))))
      | [] \<Rightarrow> (0, upd_mutex a (\<lambda>m. m\<lparr>mutex_value := mutex_value m + 1, owner := None, original_priority := 0xFF\<rparr>) (mutex_restored a t k)))"
      using c o h mu r(4) [of "Suspended a"]
      by (simp add: rt_mutex_release_def rt_thread_self_def mutex_restored_def Let_def split: list.split)
    show ?thesis
    proof (cases "tlist k (Suspended a)")
      case Nil
      then show ?thesis using o h e mu by (intro free) (simp_all add: upd_mutex_def)
    next
      case (Cons w ws)
      then show ?thesis using o h e mu by (intro pass) (simp_all add: upd_mutex_def)
    qed
  qed
qed


lemma rt_mutex_release_inv:
  assumes k: "kernel_inv k" and m: "mutex_inv a k" and c: "rt_current_thread k = Some t"
  shows "kernel_inv (snd (rt_mutex_release a k)) \<and> mutex_inv a (snd (rt_mutex_release a k))"
  using m k c
proof (cases rule: rt_mutex_release_cases)
  case not_owner
  then show ?thesis using k m by (cases "owner (mutex k a)") (simp_all add: mutex_inv_def set_error_inv)
next
  case nested
  have "hold (mutex k a) - 1 \<noteq> 0" using nested(2) by simp
  then show ?thesis using nested k m by (simp add: mutex_inv_def upd_ipc_inv)
next
  case free
  then show ?thesis using mutex_restored_effect(1,4) [OF k m free(1)] by (simp add: mutex_inv_def upd_ipc_inv)
next
  case (pass w ws)
  note r = mutex_restored_effect [OF k m pass(1)]
  let ?k3 = "upd_mutex a (\<lambda>_. \<lparr>mutex_value = 0, original_priority = current_priority (thread (mutex_restored a t k) w), hold = 1, owner = Some w\<rparr>)
            (mutex_restored a t k)"
  have i3: "kernel_inv ?k3" using r(1) by (rule upd_ipc_inv)
  have l3: "tlist ?k3 (Suspended a) = w # ws" using r(4) pass(3) by simp
  note ru = ipc_list_resume_effect [OF i3 wait_list_simps(1) l3] and w = wait_list_hd [OF i3 wait_list_simps(1) l3]
  have "unat (current_priority (thread (mutex_restored a t k) w)) < 32" using started_prio [OF i3, of w] w(1) by simp
  then show ?thesis
    using pass(4) ru w(2) wait_lists_schedule(1) [OF ru(1), of a] rt_schedule_kernel_inv [OF ru(1)]
    by (simp add: mutex_inv_def)
qed

section \<open>Properties\<close>

text \<open>
  C3. Mutual exclusion: on a well-formed mutex, \<open>rt_mutex_take\<close> by the running thread is granted
  exactly when the mutex is free or already held by that thread (fewer than 255 times), and then
  the thread is its owner; a refused or waiting take changes no mutex. \<open>rt_mutex_release\<close> by
  another thread than the owner fails and changes no mutex; by the owner it undoes one take, and
  the last one hands the mutex to the first waiter, or frees it. Both keep the mutex and the kernel
  well formed.
\<close>

theorem rt_mutex_exclusion:
  assumes "kernel_inv k" "mutex_inv a k" "rt_current_thread k = Some t" "tstat k t = RT_THREAD_RUNNING"
    and "ipc_flag k a \<in> {RT_IPC_FLAG_FIFO, RT_IPC_FLAG_PRIO}"
  shows "(fst (rt_mutex_take a time k) = Some RT_EOK \<longleftrightarrow>
          owner (mutex k a) = None \<or> owner (mutex k a) = Some t \<and> hold (mutex k a) < 255)
    \<and> (fst (rt_mutex_take a time k) = Some RT_EOK \<longrightarrow> owner (mutex (snd (rt_mutex_take a time k)) a) = Some t)
    \<and> (fst (rt_mutex_take a time k) \<noteq> Some RT_EOK \<longrightarrow> mutex (snd (rt_mutex_take a time k)) = mutex k)
    \<and> (owner (mutex k a) \<noteq> Some t \<longrightarrow>
         fst (rt_mutex_release a k) = - RT_ERROR \<and> mutex (snd (rt_mutex_release a k)) = mutex k)
    \<and> (owner (mutex k a) = Some t \<longrightarrow> fst (rt_mutex_release a k) = RT_EOK
         \<and> owner (mutex (snd (rt_mutex_release a k)) a) =
             (if hold (mutex k a) \<noteq> 1 then Some t
              else case tlist k (Suspended a) of [] \<Rightarrow> None | w # _ \<Rightarrow> Some w))
    \<and> kernel_inv (snd (rt_mutex_take a time k)) \<and> mutex_inv a (snd (rt_mutex_take a time k))
    \<and> kernel_inv (snd (rt_mutex_release a k)) \<and> mutex_inv a (snd (rt_mutex_release a k))"
proof -
  have take: "(fst (rt_mutex_take a time k) = Some RT_EOK \<longleftrightarrow>
          owner (mutex k a) = None \<or> owner (mutex k a) = Some t \<and> hold (mutex k a) < 255)
    \<and> (fst (rt_mutex_take a time k) = Some RT_EOK \<longrightarrow> owner (mutex (snd (rt_mutex_take a time k)) a) = Some t)
    \<and> (fst (rt_mutex_take a time k) \<noteq> Some RT_EOK \<longrightarrow> mutex (snd (rt_mutex_take a time k)) = mutex k)"
    using assms(1-4)
  proof (cases rule: rt_mutex_take_cases [where time = time])
    case (wait ow)
    then show ?thesis using mutex_wait_effect(3) [OF assms wait(1,2), where time = time] by simp
  qed simp_all
  have release: "(owner (mutex k a) \<noteq> Some t \<longrightarrow>
         fst (rt_mutex_release a k) = - RT_ERROR \<and> mutex (snd (rt_mutex_release a k)) = mutex k)
    \<and> (owner (mutex k a) = Some t \<longrightarrow> fst (rt_mutex_release a k) = RT_EOK
         \<and> owner (mutex (snd (rt_mutex_release a k)) a) =
             (if hold (mutex k a) \<noteq> 1 then Some t
              else case tlist k (Suspended a) of [] \<Rightarrow> None | w # _ \<Rightarrow> Some w))"
    using assms(2,1,3) by (cases rule: rt_mutex_release_cases) simp_all
  show ?thesis
    using take release rt_mutex_take_inv [OF assms, of time] rt_mutex_release_inv [OF assms(1-3)] by blast
qed

theorem rt_mutex_exclusion_witness:
  "owner (mutex (snd (rt_mutex_take 9 0 example_ipc)) 9) = Some 1 \<and> mutex_inv 9 (snd (rt_mutex_take 9 0 example_ipc))"
proof -
  have "mutex_inv 9 example_ipc" by (simp add: mutex_inv_def)
  then show ?thesis using rt_mutex_exclusion [of example_ipc 9 1 0] by simp
qed

text \<open>
  C35. Priority inheritance, from the take to the release: a running thread takes a free mutex; later,
  whatever happened in between short of operations on this mutex, another running thread blocks on it:
  the owner's priority is raised to the caller's if that is higher (the smaller number), so the owner
  can never be kept from running by a thread that the caller itself would preempt, and the caller is
  suspended on the mutex; later again the owner gives the mutex back with a single release: that
  succeeds, hands the mutex to the first waiter, and the owner is back at the priority it had when it
  took it.
\<close>

theorem rt_mutex_priority_inheritance:
  fixes k k1 k2 k3 k4 k5 :: "'a ipc_scheme"
  assumes take: "kernel_inv k" "mutex_inv a k" "rt_current_thread k = Some t" "tstat k t = RT_THREAD_RUNNING"
      "owner (mutex k a) = None" "k1 = snd (rt_mutex_take a time k)"
    and block: "kernel_inv k2" "mutex_inv a k2" "rt_current_thread k2 = Some u" "tstat k2 u = RT_THREAD_RUNNING"
      "ipc_flag k2 a \<in> {RT_IPC_FLAG_FIFO, RT_IPC_FLAG_PRIO}" "mutex k2 a = mutex k1 a" "u \<noteq> t" "time' \<noteq> 0"
      "k3 = snd (rt_mutex_take a time' k2)"
    and release: "kernel_inv k4" "mutex_inv a k4" "rt_current_thread k4 = Some t" "mutex k4 a = mutex k3 a"
      "k5 = snd (rt_mutex_release a k4)"
  shows "fst (rt_mutex_take a time' k2) = None \<and> prio k3 t = min (prio k2 t) (prio k2 u)
    \<and> tstat k3 u = RT_THREAD_SUSPEND \<and> u \<in> set (tlist k3 (Suspended a))
    \<and> fst (rt_mutex_release a k4) = RT_EOK \<and> prio k5 t = prio k t
    \<and> owner (mutex k5 a) = (case tlist k4 (Suspended a) of [] \<Rightarrow> None | w # _ \<Rightarrow> Some w)"
proof -
  let ?m = "\<lparr>mutex_value = 0, original_priority = current_priority (thread k t), hold = 1, owner = Some t\<rparr>"
  have e1: "k1 = upd_mutex a (\<lambda>_. ?m) (upd_thread t (\<lambda>th. th\<lparr>error := 0\<rparr>) k)"
    unfolding take(6) using take(1-4)
    by (cases rule: rt_mutex_take_cases [where time = time]) (use take(5) in simp_all)
  then have m2: "mutex k2 a = ?m" using block(6) by simp
  then have ow: "owner (mutex k2 a) = Some t" "t \<noteq> u" using block(7) by simp_all
  have w: "fst (rt_mutex_take a time' k2) = None \<and> prio k3 t = min (prio k2 t) (prio k2 u)
      \<and> tstat k3 u = 2 \<and> u \<in> set (tlist k3 (Suspended a)) \<and> mutex k3 = mutex k2"
    using block(1-4)
  proof (cases rule: rt_mutex_take_cases [where time = time'])
    case (wait ow')
    then have o: "ow' = t" using ow by simp
    show ?thesis
      unfolding block(9) wait(4) o fst_conv snd_conv
      using mutex_wait_effect(3-6) [OF block(1-5) ow, where time = time'] by blast
  qed (use ow block(8) in simp_all)
  have m4: "mutex k4 a = ?m" using w m2 release(4) by simp
  note r = mutex_restored_effect [OF release(1,2), of t]
  have pr: "prio (ipc_list_resume l j) = prio j" for l and j :: "'a ipc_scheme"
    by (simp add: ipc_list_resume_def rt_thread_resume_def Let_def)
  have "fst (rt_mutex_release a k4) = 0 \<and> prio k5 t = prio k t
      \<and> owner (mutex k5 a) = (case tlist k4 (Suspended a) of [] \<Rightarrow> None | w # _ \<Rightarrow> Some w)"
    using release(2,1,3)
  proof (cases rule: rt_mutex_release_cases)
    case (pass w ws)
    then show ?thesis using m4 r(5) by (simp add: release(5) pr prio_def [of k])
  next
    case free
    then show ?thesis using m4 r(5) by (simp add: release(5) prio_def [of k])
  qed (use m4 in \<open>simp_all add: release(5)\<close>)
  with w show ?thesis by blast
qed

text \<open>Mutex 9 is held by the given thread at the given original priority.\<close>

definition example_held :: "tid \<Rightarrow> u8 \<Rightarrow> ipc" where
  "example_held t p = upd_mutex 9 (\<lambda>_. \<lparr>mutex_value = 0, original_priority = p, hold = 1, owner = Some t\<rparr>) example_ipc"

lemma example_held_inv:
  assumes "unat p < 32"
  shows "kernel_inv (example_held t p)" "mutex_inv 9 (example_held t p)" "mutex_inv 8 (example_held t p)"
  using assms by (simp_all add: example_held_def mutex_inv_def upd_ipc_inv)

text \<open>Thread 1 runs at priority 25 and takes mutex 9; thread 2 (priority 10) preempts it and blocks
  on the mutex; thread 1 runs on at priority 10 until it releases the mutex.\<close>

definition example_low :: ipc where "example_low = change_priority 1 25 example_ipc"
definition example_taken :: ipc where "example_taken = rt_schedule (snd (rt_mutex_take 9 0 example_low))"
definition example_blocked :: ipc where "example_blocked = snd (rt_mutex_take 9 100 example_taken)"

lemma example_blocked_run:
  "kernel_inv example_low" "mutex_inv 9 example_low" "rt_current_thread example_low = Some 1" "tstat example_low 1 = 3"
  "prio example_low 1 = 25" "owner (mutex example_low 9) = None"
  "kernel_inv example_taken" "mutex_inv 9 example_taken" "rt_current_thread example_taken = Some 2"
  "tstat example_taken 2 = 3" "prio example_taken 1 = 25" "prio example_taken 2 = 10" "ipc_flag example_taken 9 = 0"
  "kernel_inv example_blocked" "mutex_inv 9 example_blocked" "rt_current_thread example_blocked = Some 1"
proof -
  have i: "kernel_inv example_ipc" "mutex_inv 9 example_ipc" by (simp_all add: mutex_inv_def)
  show l: "kernel_inv example_low" unfolding example_low_def by (rule change_priority_kernel_inv [OF i(1)]) simp
  show ml: "mutex_inv 9 example_low" using i change_priority_effect(3) [OF i(1)] by (simp add: example_low_def mutex_inv_def)
  show cl: "rt_current_thread example_low = Some 1" "tstat example_low 1 = 3" "prio example_low 1 = 25"
    "owner (mutex example_low 9) = None" by code_simp+
  have fl: "ipc_flag example_low 9 \<in> {0, 1}" by code_simp
  note t = rt_mutex_take_inv [OF l ml cl(1,2) fl, of 0]
  show k2: "kernel_inv example_taken" unfolding example_taken_def using t by (intro rt_schedule_kernel_inv) blast
  have "mutex example_taken = mutex (snd (rt_mutex_take 9 0 example_low))" by (simp add: example_taken_def)
  moreover have "tlist example_taken (Suspended 9) = tlist (snd (rt_mutex_take 9 0 example_low)) (Suspended 9)"
    unfolding example_taken_def using t by (intro wait_lists_schedule) blast
  ultimately show m2: "mutex_inv 9 example_taken" using t unfolding mutex_inv_def by metis
  show c2: "rt_current_thread example_taken = Some 2" "tstat example_taken 2 = 3" "prio example_taken 1 = 25"
    "prio example_taken 2 = 10" "ipc_flag example_taken 9 = 0" by code_simp+
  have "ipc_flag example_taken 9 \<in> {0, 1}" using c2(5) by simp
  from rt_mutex_take_inv [OF k2 m2 c2(1,2) this, of 100]
  show "kernel_inv example_blocked" "mutex_inv 9 example_blocked" by (simp_all add: example_blocked_def)
  show "rt_current_thread example_blocked = Some 1" by code_simp
qed

theorem rt_mutex_priority_inheritance_witness:
  "prio example_low 1 = 25 \<and> prio example_blocked 1 = 10 \<and> prio (snd (rt_mutex_release 9 example_blocked)) 1 = 25"
proof -
  note e = example_blocked_run
  have m: "mutex example_taken 9 = mutex (snd (rt_mutex_take 9 0 example_low)) 9" by (simp add: example_taken_def)
  have f: "ipc_flag example_taken 9 \<in> {0, 1}" using e(13) by simp
  have n: "(2 :: tid) \<noteq> 1" "(100 :: int) \<noteq> 0" by simp_all
  show ?thesis
    using rt_mutex_priority_inheritance [OF e(1-4,6) refl e(7-10) f m n example_blocked_def e(14-16) refl refl]
    by (simp only: e(5,11,12)) simp
qed

text \<open>
  C38. Priority inheritance is not undone for nested mutexes: a thread that holds mutex \<open>a\<close>, has
  inherited a higher priority through it and then takes a free mutex \<open>b\<close> stores the inherited
  priority as its original one; after it has released \<open>a\<close> and then \<open>b\<close> it holds no mutex and
  yet runs at the inherited priority instead of the one it had when it took \<open>a\<close>.
\<close>

theorem rt_mutex_nested_priority_leak:
  assumes "kernel_inv k" "rt_current_thread k = Some t" "tstat k t = RT_THREAD_RUNNING" "a \<noteq> b"
    and "mutex_inv a k" "owner (mutex k a) = Some t" "hold (mutex k a) = 1" "tlist k (Suspended a) = []"
    and "mutex_inv b k" "owner (mutex k b) = None"
    and "prio k t < unat (original_priority (mutex k a))"
    and "k' = snd (rt_mutex_release b (snd (rt_mutex_release a (snd (rt_mutex_take b time k)))))"
  shows "owner (mutex k' a) = None \<and> owner (mutex k' b) = None
    \<and> prio k' t = prio k t \<and> prio k' t \<noteq> unat (original_priority (mutex k a))"
proof -
  let ?m = "\<lparr>mutex_value = 0, original_priority = current_priority (thread k t), hold = 1, owner = Some t\<rparr>"
  define k1 where "k1 = snd (rt_mutex_take b time k)"
  define k2 where "k2 = snd (rt_mutex_release a k1)"
  have e1: "k1 = upd_mutex b (\<lambda>_. ?m) (upd_thread t (\<lambda>th. th\<lparr>error := 0\<rparr>) k)"
    unfolding k1_def using assms(1,9,2,3)
    by (cases rule: rt_mutex_take_cases [where time = time]) (use assms(10) in simp_all)
  have tb: "tlist k (Suspended b) = []" using assms(9,10) by (simp add: mutex_inv_def)
  have i1: "kernel_inv k1" unfolding e1 using assms(1) by (intro upd_ipc_inv set_error_inv)
  have s1: "tlist k1 = tlist k" "mutex k1 a = mutex k a" "mutex k1 b = ?m" "rt_current_thread k1 = Some t"
    using assms(2,4) by (simp_all add: e1)
  have p: "unat (current_priority (thread k t)) < 32" using started_prio [OF assms(1), of t] assms(3) by simp
  have ma: "mutex_inv a k1" using assms(5,6,8) by (simp add: mutex_inv_def s1)
  have mb: "mutex_inv b k1" using p tb by (simp add: mutex_inv_def s1)
  note r1 = mutex_restored_effect [OF i1 ma, of t]
  have e2: "k2 = upd_mutex a (\<lambda>_. \<lparr>mutex_value = 1, original_priority = 0xFF, hold = 0, owner = None\<rparr>) (mutex_restored a t k1)"
    unfolding k2_def using ma i1 s1(4)
    by (cases rule: rt_mutex_release_cases) (use assms(6,7,8) s1 in simp_all)
  have i2: "kernel_inv k2" unfolding e2 using r1(1) assms(6) s1 by (intro upd_ipc_inv) simp
  have s2: "tlist k2 (Suspended b) = []" "mutex k2 b = ?m" "owner (mutex k2 a) = None" "rt_current_thread k2 = Some t"
    using r1 assms(4,6) s1 tb by (simp_all add: e2)
  have mb2: "mutex_inv b k2" using p by (simp add: mutex_inv_def s2)
  note r2 = mutex_restored_effect [OF i2 mb2, of t]
  have e3: "k' = upd_mutex b (\<lambda>_. \<lparr>mutex_value = 1, original_priority = 0xFF, hold = 0, owner = None\<rparr>) (mutex_restored b t k2)"
    unfolding assms(12) k1_def [symmetric] k2_def [symmetric] using mb2 i2 s2(4)
    by (cases rule: rt_mutex_release_cases) (use s2 in simp_all)
  have "prio k' t = prio k t" using r2(5) s2(2) by (simp add: e3) (simp add: prio_def)
  then show ?thesis using r2(2) s2 assms(4,11) by (simp add: e3)
qed

theorem rt_mutex_nested_priority_leak_witness:
  "prio (snd (rt_mutex_release 8 (snd (rt_mutex_release 9 (snd (rt_mutex_take 8 0 (example_held 1 20))))))) 1 = 10"
  using rt_mutex_nested_priority_leak [of "example_held 1 20" 1 9 8 _ 0, OF _ _ _ _ _ _ _ _ _ _ _ refl]
    example_held_inv [of 20 1]
  by (simp add: example_held_def)

end
