(* ===== verification/Ipc_Event.thy ===== *)
theory Ipc_Event
  imports Ipc
begin

text \<open>
  Event sets (\<^verbatim>\<open>rt_event_*\<close> of \<^verbatim>\<open>rt-thread/src/ipc.c\<close>): a thread waits until all
  (\<open>RT_EVENT_FLAG_AND\<close>) or some (\<open>RT_EVENT_FLAG_OR\<close>) of the events it names have been sent, and
  may consume them (\<open>RT_EVENT_FLAG_CLEAR\<close>). Sending serves the waiters in list order, each from
  what the ones before it have left; \<open>event_serve\<close> says so without the kernel.
\<close>

abbreviation (input) RT_EVENT_FLAG_AND :: u8 where "RT_EVENT_FLAG_AND \<equiv> 1"
abbreviation (input) RT_EVENT_FLAG_OR :: u8 where "RT_EVENT_FLAG_OR \<equiv> 2"
abbreviation (input) RT_EVENT_FLAG_CLEAR :: u8 where "RT_EVENT_FLAG_CLEAR \<equiv> 4"

section \<open>Operations\<close>

definition event_setup :: "addr \<Rightarrow> u8 \<Rightarrow> 'a ipc_scheme \<Rightarrow> 'a ipc_scheme" where
  "event_setup a flag k =
     upd_event a (\<lambda>e. e\<lparr>evt_set := 0\<rparr>) (ipc_object_init a (set_ipc_flag a flag k))"

definition rt_event_init :: "addr \<Rightarrow> cstring \<Rightarrow> u8 \<Rightarrow> 'a ipc_scheme \<Rightarrow> 'a ipc_scheme" where
  "rt_event_init a name flag k = event_setup a flag (rt_object_init (Ipc_obj a) RT_Object_Class_Event name k)"

definition rt_event_detach :: "addr \<Rightarrow> 'a ipc_scheme \<Rightarrow> 'a ipc_scheme option" where
  "rt_event_detach a k = map_option (rt_object_detach (Ipc_obj a)) (ipc_list_resume_all (Suspended a) k)"

definition rt_event_create :: "obj_id option \<Rightarrow> cstring \<Rightarrow> u8 \<Rightarrow> 'a ipc_scheme \<Rightarrow> addr option \<times> 'a ipc_scheme" where
  "rt_event_create mem name flag k =
     (case rt_object_allocate mem RT_Object_Class_Event name k of
        (Some (Ipc_obj a), k) \<Rightarrow> (Some a, event_setup a flag k)
      | (_, k) \<Rightarrow> (None, k))"

definition rt_event_delete :: "addr \<Rightarrow> 'a ipc_scheme \<Rightarrow> 'a ipc_scheme option" where
  "rt_event_delete a k = map_option (rt_object_delete (Ipc_obj a)) (ipc_list_resume_all (Suspended a) k)"

text \<open>A waiter whose condition holds takes its events, if it asked to, and becomes ready.\<close>

definition event_deliver :: "addr \<Rightarrow> tid \<Rightarrow> 'a ipc_scheme \<Rightarrow> 'a ipc_scheme" where
  "event_deliver a t k =
     (let k = (if event_info (thread k t) AND RT_EVENT_FLAG_CLEAR \<noteq> 0
               then upd_event a (\<lambda>e. e\<lparr>evt_set := evt_set e AND NOT (event_set (thread k t))\<rparr>) k else k)
      in snd (rt_thread_resume t k))"

text \<open>The loop over the wait list. The code reads the next node before it resumes a thread, so it
  visits the threads that were waiting when it started. It returns early, without scheduling, at a
  waiter with neither option.\<close>

primrec event_send_loop :: "addr \<Rightarrow> tid list \<Rightarrow> bool \<Rightarrow> 'a ipc_scheme \<Rightarrow> rt_err \<times> bool \<times> 'a ipc_scheme" where
  "event_send_loop a [] need_schedule k = (RT_EOK, need_schedule, k)"
| "event_send_loop a (t # n) need_schedule k =
     (let info = event_info (thread k t); want = event_set (thread k t); evts = evt_set (event k a)
      in if info AND RT_EVENT_FLAG_AND \<noteq> 0 then
           (if want AND evts = want
            then event_send_loop a n True (event_deliver a t k)
            else event_send_loop a n need_schedule k)
         else if info AND RT_EVENT_FLAG_OR \<noteq> 0 then
           (if want AND evts \<noteq> 0
            then event_send_loop a n True (event_deliver a t (upd_thread t (\<lambda>th. th\<lparr>event_set := want AND evts\<rparr>) k))
            else event_send_loop a n need_schedule k)
         else (- RT_EINVAL, need_schedule, k))"

definition rt_event_send :: "addr \<Rightarrow> u32 \<Rightarrow> 'a ipc_scheme \<Rightarrow> rt_err \<times> 'a ipc_scheme" where
  "rt_event_send a evts k =
     (if evts = 0 then (- RT_ERROR, k)
      else
        let k = upd_event a (\<lambda>e. e\<lparr>evt_set := evt_set e OR evts\<rparr>) k
        in case event_send_loop a (tlist k (Suspended a)) False k of
             (err, need_schedule, k) \<Rightarrow>
               if err \<noteq> RT_EOK then (err, k)
               else (RT_EOK, if need_schedule then rt_schedule k else k))"

text \<open>The result is \<open>None\<close> when the caller waits; the second component is what the code stores
  through \<open>recved\<close>.\<close>

definition rt_event_recv :: "addr \<Rightarrow> u32 \<Rightarrow> u8 \<Rightarrow> int \<Rightarrow> 'a ipc_scheme \<Rightarrow> rt_err option \<times> u32 option \<times> 'a ipc_scheme" where
  "rt_event_recv a want opt timeout k =
     (if want = 0 then (Some (- RT_ERROR), None, k)
      else case rt_thread_self k of
        None \<Rightarrow> (None, None, k)
      | Some t \<Rightarrow>
          let k = upd_thread t (\<lambda>th. th\<lparr>error := RT_EOK\<rparr>) k;
              evts = evt_set (event k a);
              ready = (if opt AND RT_EVENT_FLAG_AND \<noteq> 0 then evts AND want = want
                       else if opt AND RT_EVENT_FLAG_OR \<noteq> 0 then evts AND want \<noteq> 0
                       else False)
          in if ready then
               let k = upd_thread t (\<lambda>th. th\<lparr>event_set := evts AND want, event_info := opt\<rparr>) k;
                   k = (if opt AND RT_EVENT_FLAG_CLEAR \<noteq> 0
                        then upd_event a (\<lambda>e. e\<lparr>evt_set := evt_set e AND NOT want\<rparr>) k else k)
               in (Some (error (thread k t)), Some (evts AND want), k)
             else if timeout = 0 then
               (Some (- RT_ETIMEOUT), None, upd_thread t (\<lambda>th. th\<lparr>error := - RT_ETIMEOUT\<rparr>) k)
             else
               let k = upd_thread t (\<lambda>th. th\<lparr>event_set := want, event_info := opt\<rparr>) k;
                   k = ipc_wait (Suspended a) t (ipc_flag k a) timeout k
               in (None, None, rt_schedule k))"

definition rt_event_recv_end :: "tid \<Rightarrow> 'a ipc_scheme \<Rightarrow> rt_err \<times> u32 option" where
  "rt_event_recv_end t k =
     (if error (thread k t) \<noteq> RT_EOK then (error (thread k t), None)
      else (error (thread k t), Some (event_set (thread k t))))"

definition rt_event_control :: "addr \<Rightarrow> nat \<Rightarrow> 'a ipc_scheme \<Rightarrow> (rt_err \<times> 'a ipc_scheme) option" where
  "rt_event_control a cmd k =
     (if cmd = 1 then
        map_option (\<lambda>k. (RT_EOK, rt_schedule (upd_event a (\<lambda>e. e\<lparr>evt_set := 0\<rparr>) k)))
          (ipc_list_resume_all (Suspended a) k)
      else Some (- RT_ERROR, k))"

section \<open>Specification\<close>

text \<open>Serving waiters \<open>(thread, option, wanted events)\<close> in order from a set of events: what is left
  of the set, and which threads are woken with which events.\<close>

definition event_ready :: "u8 \<Rightarrow> u32 \<Rightarrow> u32 \<Rightarrow> bool" where
  "event_ready info want s = (if info AND RT_EVENT_FLAG_AND \<noteq> 0 then want AND s = want else want AND s \<noteq> 0)"

definition event_left :: "u8 \<Rightarrow> u32 \<Rightarrow> u32 \<Rightarrow> u32" where
  "event_left info got s = (if info AND RT_EVENT_FLAG_CLEAR \<noteq> 0 then s AND NOT got else s)"

fun event_serve :: "u32 \<Rightarrow> (tid \<times> u8 \<times> u32) list \<Rightarrow> u32 \<times> (tid \<times> u32) list" where
  "event_serve s [] = (s, [])"
| "event_serve s ((t, info, want) # ws) =
     (if event_ready info want s
      then let r = event_serve (event_left info (want AND s) s) ws in (fst r, (t, want AND s) # snd r)
      else event_serve s ws)"

definition waiting :: "'a ipc_scheme \<Rightarrow> tid list \<Rightarrow> (tid \<times> u8 \<times> u32) list" where
  "waiting k ts = map (\<lambda>t. (t, event_info (thread k t), event_set (thread k t))) ts"

definition valid_waiter :: "'a ipc_scheme \<Rightarrow> tid \<Rightarrow> bool" where
  "valid_waiter k t \<longleftrightarrow> event_info (thread k t) AND RT_EVENT_FLAG_AND \<noteq> 0 \<or> event_info (thread k t) AND RT_EVENT_FLAG_OR \<noteq> 0"

lemma event_serve_subset: "fst ` set (snd (event_serve s ws)) \<subseteq> fst ` set ws"
  by (induction s ws rule: event_serve.induct) (auto simp: Let_def)

lemma fst_waiting: "fst ` set (waiting k ts) = set ts"
  by (simp add: waiting_def image_image)

lemma event_serve_waiting: "t \<notin> set ts \<Longrightarrow> t \<notin> fst ` set (snd (event_serve s (waiting k ts)))"
  using event_serve_subset [of s "waiting k ts"] fst_waiting [of k ts] by blast

section \<open>Delivery\<close>

lemma resume_event_fields [simp]:
  "event_set (thread (snd (rt_thread_resume t k)) u) = event_set (thread k u)"
  "event_info (thread (snd (rt_thread_resume t k)) u) = event_info (thread k u)"
  using insert_thread_stat_only [of t "snd (rt_timer_stop (Thread_timer t) (tlist_remove t k))" u]
  by (auto simp: rt_thread_resume_def Let_def)

lemma kernel_inv_event_set:
  assumes "kernel_inv k"
  shows "kernel_inv (upd_thread t (\<lambda>th. th\<lparr>event_set := s\<rparr>) k)" "tstat (upd_thread t (\<lambda>th. th\<lparr>event_set := s\<rparr>) k) = tstat k"
  using assms by (auto intro: kernel_inv_upd_same simp: tstat_def fun_eq_iff)

lemma event_deliver_effect:
  assumes k: "kernel_inv k" and l: "tlist k (Suspended a) = sk @ t # ts"
  shows "kernel_inv (event_deliver a t k)" "tlist (event_deliver a t k) (Suspended a) = sk @ ts"
    "tstat (event_deliver a t k) u = (if u = t then if rt_current_thread k = Some t then 3 else 1 else tstat k u)"
    "event_set (thread (event_deliver a t k) u) = event_set (thread k u)"
    "event_info (thread (event_deliver a t k) u) = event_info (thread k u)"
    "error (thread (event_deliver a t k) u) = error (thread k u)"
    "evt_set (event (event_deliver a t k) a) =
       (if event_info (thread k t) AND 4 \<noteq> 0 then evt_set (event k a) AND NOT (event_set (thread k t)) else evt_set (event k a))"
proof -
  let ?k = "if event_info (thread k t) AND 4 \<noteq> 0
      then upd_event a (\<lambda>e. e\<lparr>evt_set := evt_set e AND NOT (event_set (thread k t))\<rparr>) k else k"
  have e: "event_deliver a t k = snd (rt_thread_resume t ?k)" by (simp add: event_deliver_def Let_def)
  have i: "kernel_inv ?k" using k by (simp add: upd_ipc_inv)
  have s: "tstat ?k = tstat k" "thread ?k = thread k" "tlist ?k = tlist k" "rt_current_thread ?k = rt_current_thread k" by auto
  have rq: "rq_inv k" using k by (simp add: kernel_inv_def sched_inv_def)
  have t: "tstat k t = 2" using rq_waiting(1) [OF rq, of t a] l by simp
  have "distinct (sk @ t # ts)" using rq_lists [OF rq] l unfolding lists_ok_def family_ok_def by metis
  then have d: "removeAll t (sk @ t # ts) = sk @ ts" by (rule removeAll_split)
  show "kernel_inv (event_deliver a t k)" unfolding e by (rule rt_thread_resume_inv [OF i])
  show "tlist (event_deliver a t k) (Suspended a) = sk @ ts"
    unfolding e using rt_thread_resume_tlist [of ?k t "Suspended a"] t s l d by simp
  show "tstat (event_deliver a t k) u = (if u = t then if rt_current_thread k = Some t then 3 else 1 else tstat k u)"
    unfolding e using rt_thread_resume_effect(2) [of ?k t] t s by simp
  show "event_set (thread (event_deliver a t k) u) = event_set (thread k u)"
    "event_info (thread (event_deliver a t k) u) = event_info (thread k u)"
    "error (thread (event_deliver a t k) u) = error (thread k u)" unfolding e using s(2) by simp_all
  show "evt_set (event (event_deliver a t k) a) =
       (if event_info (thread k t) AND 4 \<noteq> 0 then evt_set (event k a) AND NOT (event_set (thread k t)) else evt_set (event k a))"
    unfolding e by simp
qed

text \<open>What the loop does at a waiter with a valid option, in terms of the specification.\<close>

definition event_grant :: "addr \<Rightarrow> tid \<Rightarrow> 'a ipc_scheme \<Rightarrow> 'a ipc_scheme" where
  "event_grant a t k = event_deliver a t
     (if event_info (thread k t) AND RT_EVENT_FLAG_AND \<noteq> 0 then k
      else upd_thread t (\<lambda>th. th\<lparr>event_set := event_set (thread k t) AND evt_set (event k a)\<rparr>) k)"

lemma event_send_loop_step:
  assumes "valid_waiter k t"
  shows "event_send_loop a (t # n) b k =
    (if event_ready (event_info (thread k t)) (event_set (thread k t)) (evt_set (event k a))
     then event_send_loop a n True (event_grant a t k) else event_send_loop a n b k)"
  using assms by (simp add: valid_waiter_def event_ready_def event_grant_def Let_def)

lemma event_grant_effect:
  fixes s want :: u32
  assumes k: "kernel_inv k" and l: "tlist k (Suspended a) = sk @ t # ts"
  defines "want \<equiv> event_set (thread k t)" and "s \<equiv> evt_set (event k a)"
  assumes r: "event_ready (event_info (thread k t)) want s"
  shows "kernel_inv (event_grant a t k)" "tlist (event_grant a t k) (Suspended a) = sk @ ts"
    "tstat (event_grant a t k) t \<in> {1, 3}" "u \<noteq> t \<Longrightarrow> tstat (event_grant a t k) u = tstat k u"
    "event_set (thread (event_grant a t k) u) = (if u = t then want AND s else event_set (thread k u))"
    "event_info (thread (event_grant a t k) u) = event_info (thread k u)"
    "error (thread (event_grant a t k) u) = error (thread k u)"
    "evt_set (event (event_grant a t k) a) = event_left (event_info (thread k t)) (want AND s) s"
proof -
  let ?k = "if event_info (thread k t) AND 1 \<noteq> 0 then k
      else upd_thread t (\<lambda>th. th\<lparr>event_set := event_set (thread k t) AND evt_set (event k a)\<rparr>) k"
  have i: "kernel_inv ?k" using k by (simp add: kernel_inv_event_set)
  have ts: "tstat ?k = tstat k" by (simp add: tstat_def fun_eq_iff)
  have tl: "tlist ?k (Suspended a) = sk @ t # ts" using l by simp
  have es: "event_set (thread ?k u) = (if u = t then want AND s else event_set (thread k u))" for u
    using r by (auto simp: want_def s_def event_ready_def)
  have ei: "event_info (thread ?k u) = event_info (thread k u)" "error (thread ?k u) = error (thread k u)" for u by simp_all
  have ev: "event ?k = event k" by (simp add: upd_thread_def)
  note d = event_deliver_effect [OF i tl]
  show "kernel_inv (event_grant a t k)" "tlist (event_grant a t k) (Suspended a) = sk @ ts"
    unfolding event_grant_def by (rule d(1), rule d(2))
  show "tstat (event_grant a t k) t \<in> {1, 3}" "u \<noteq> t \<Longrightarrow> tstat (event_grant a t k) u = tstat k u"
    unfolding event_grant_def d(3) ts by simp_all
  show "event_set (thread (event_grant a t k) u) = (if u = t then want AND s else event_set (thread k u))"
    unfolding event_grant_def d(4) by (rule es)
  show "event_info (thread (event_grant a t k) u) = event_info (thread k u)"
    "error (thread (event_grant a t k) u) = error (thread k u)" unfolding event_grant_def d(5,6) by (rule ei)+
  show "evt_set (event (event_grant a t k) a) = event_left (event_info (thread k t)) (want AND s) s"
    unfolding event_grant_def d(7) es ei ev event_left_def by (simp add: s_def)
qed

text \<open>The loop, from a point where the threads \<open>sk\<close> have been passed over and \<open>ts\<close> are still to
  come.\<close>

lemma event_send_loop_effect:
  assumes "kernel_inv k" "tlist k (Suspended a) = sk @ ts" "\<forall>t \<in> set ts. valid_waiter k t" "distinct ts"
  defines "srv \<equiv> event_serve (evt_set (event k a)) (waiting k ts)"
  shows "\<exists>k'. event_send_loop a ts b k = (0, b \<or> snd srv \<noteq> [], k') \<and> kernel_inv k'
    \<and> evt_set (event k' a) = fst srv
    \<and> tlist k' (Suspended a) = sk @ filter (\<lambda>t. t \<notin> fst ` set (snd srv)) ts
    \<and> (\<forall>(t, got) \<in> set (snd srv). tstat k' t \<in> {1, 3} \<and> event_set (thread k' t) = got)
    \<and> (\<forall>t. t \<notin> fst ` set (snd srv) \<longrightarrow> tstat k' t = tstat k t \<and> event_set (thread k' t) = event_set (thread k t))
    \<and> (\<forall>t. event_info (thread k' t) = event_info (thread k t) \<and> error (thread k' t) = error (thread k t))"
  using assms(1-4) unfolding srv_def
proof (induction ts arbitrary: k sk b)
  case Nil
  then show ?case by (simp add: waiting_def)
next
  case (Cons t ts)
  let ?i = "event_info (thread k t)" and ?w = "event_set (thread k t)" and ?s = "evt_set (event k a)"
  have v: "valid_waiter k t" and t: "t \<notin> set ts" using Cons.prems by auto
  show ?case
  proof (cases "event_ready ?i ?w ?s")
    case False
    have "tlist k (Suspended a) = (sk @ [t]) @ ts" "\<forall>t \<in> set ts. valid_waiter k t" "distinct ts" using Cons.prems by auto
    note ih = Cons.IH [OF Cons.prems(1) this, of b]
    have "event_serve ?s (waiting k (t # ts)) = event_serve ?s (waiting k ts)"
      using False by (simp add: waiting_def)
    then show ?thesis using ih False v event_serve_waiting [OF t, of ?s k] by (simp add: event_send_loop_step del: event_send_loop.simps(2))
  next
    case True
    let ?k = "event_grant a t k" and ?r = "event_serve (event_left ?i (?w AND ?s) ?s) (waiting k ts)"
    note g = event_grant_effect [OF Cons.prems(1,2) True]
    have w: "waiting ?k ts = waiting k ts" using t by (auto simp: waiting_def g(5,6))
    have "\<forall>u \<in> set ts. valid_waiter ?k u" using Cons.prems(3) by (simp add: valid_waiter_def g(6))
    moreover have "distinct ts" using Cons.prems(4) by simp
    ultimately obtain k' where k': "event_send_loop a ts True ?k = (0, True \<or> snd ?r \<noteq> [], k')" "kernel_inv k'"
      "evt_set (event k' a) = fst ?r" "tlist k' (Suspended a) = sk @ filter (\<lambda>t. t \<notin> fst ` set (snd ?r)) ts"
      "\<forall>(t, got) \<in> set (snd ?r). tstat k' t \<in> {1, 3} \<and> event_set (thread k' t) = got"
      "\<forall>u. u \<notin> fst ` set (snd ?r) \<longrightarrow> tstat k' u = tstat ?k u \<and> event_set (thread k' u) = event_set (thread ?k u)"
      "\<forall>u. event_info (thread k' u) = event_info (thread ?k u) \<and> error (thread k' u) = error (thread ?k u)"
      using Cons.IH [OF g(1,2), of True] unfolding w g(8) by blast
    have n: "t \<notin> fst ` set (snd ?r)" by (rule event_serve_waiting [OF t])
    have e: "event_serve ?s (waiting k (t # ts)) = (fst ?r, (t, ?w AND ?s) # snd ?r)"
      using True by (simp add: waiting_def Let_def)
    have fl: "filter (\<lambda>u. u \<noteq> t \<and> u \<notin> fst ` set (snd ?r)) ts = filter (\<lambda>u. u \<notin> fst ` set (snd ?r)) ts"
      by (rule filter_cong) (use t in auto)
    have "tstat k' t \<in> {1, 3} \<and> event_set (thread k' t) = ?w AND ?s" using k'(6) n g(3) g(5) [of t] by auto
    moreover have "tstat k' u = tstat k u \<and> event_set (thread k' u) = event_set (thread k u)"
      if "u \<noteq> t" "u \<notin> fst ` set (snd ?r)" for u using k'(6) that g(4,5) by auto
    ultimately show ?thesis
      using k' v True g(6,7) fl by (intro exI [of _ k']) (simp add: e event_send_loop_step del: event_send_loop.simps(2))
  qed
qed

section \<open>No lost wake-up\<close>

lemma bits_subset_iff: "(x :: u32) AND y = x \<longleftrightarrow> (\<forall>n < 32. bit x n \<longrightarrow> bit y n)"
  by (auto simp: bit_eq_iff bit_simps)

lemma bits_meet_iff: "(x :: u32) AND y \<noteq> 0 \<longleftrightarrow> (\<exists>n < 32. bit x n \<and> bit y n)"
  by (auto simp: bit_eq_iff bit_simps)

lemma event_left_subset: "event_left info got s AND s = event_left info got s"
  by (auto simp: event_left_def bits_subset_iff bit_simps)

lemma event_ready_mono: "s' AND s = s' \<Longrightarrow> event_ready info want s' \<Longrightarrow> event_ready info want s"
  unfolding event_ready_def bits_subset_iff bits_meet_iff by (auto split: if_splits)

lemma event_serve_left: "fst (event_serve s ws) AND s = fst (event_serve s ws)"
proof (induction s ws rule: event_serve.induct)
  case (2 s t info want ws)
  have "x AND s = x" if "x AND event_left info (want AND s) s = x" for x
    using that event_left_subset [of info "want AND s" s] unfolding bits_subset_iff by blast
  then show ?case using 2 by (simp add: Let_def)
qed simp

text \<open>Whoever is passed over has a condition that does not hold on what is left.\<close>

lemma event_serve_unserved:
  "distinct (map fst ws) \<Longrightarrow> (t, info, want) \<in> set ws \<Longrightarrow> t \<notin> fst ` set (snd (event_serve s ws)) \<Longrightarrow>
     \<not> event_ready info want (fst (event_serve s ws))"
proof (induction s ws rule: event_serve.induct)
  case (2 s u info' want' ws)
  show ?case
  proof (cases "(t, info, want) = (u, info', want') \<and> \<not> event_ready info' want' s")
    case True
    then show ?thesis using event_ready_mono [OF event_serve_left, of info' want' s ws] by auto
  next
    case False
    then show ?thesis using 2 by (auto simp: Let_def split: if_splits)
  qed
qed simp

text \<open>No thread waits for events that are there.\<close>

definition event_inv :: "addr \<Rightarrow> 'a ipc_scheme \<Rightarrow> bool" where
  "event_inv a k \<longleftrightarrow> (\<forall>t \<in> set (tlist k (Suspended a)). valid_waiter k t
     \<and> \<not> event_ready (event_info (thread k t)) (event_set (thread k t)) (evt_set (event k a)))"

lemma rt_event_send_effect:
  assumes k: "kernel_inv k" and v: "\<forall>t \<in> set (tlist k (Suspended a)). valid_waiter k t" and e: "evts \<noteq> 0"
  defines "srv \<equiv> event_serve (evt_set (event k a) OR evts) (waiting k (tlist k (Suspended a)))"
    and "k' \<equiv> snd (rt_event_send a evts k)"
  shows "fst (rt_event_send a evts k) = 0" "kernel_inv k'" "evt_set (event k' a) = fst srv"
    "tlist k' (Suspended a) = filter (\<lambda>t. t \<notin> fst ` set (snd srv)) (tlist k (Suspended a))"
    "(t, got) \<in> set (snd srv) \<Longrightarrow> tstat k' t \<in> {1, 3} \<and> event_set (thread k' t) = got"
    "t \<notin> fst ` set (snd srv) \<Longrightarrow> event_set (thread k' t) = event_set (thread k t)"
    "event_info (thread k' t) = event_info (thread k t)" "error (thread k' t) = error (thread k t)"
proof -
  let ?k = "upd_event a (\<lambda>e. e\<lparr>evt_set := evt_set e OR evts\<rparr>) k" and ?l = "tlist k (Suspended a)"
  have w: "waiting ?k = waiting k" by (simp add: waiting_def fun_eq_iff)
  have d: "distinct ?l" using k by (auto simp: kernel_inv_def sched_inv_def rq_inv_def lists_ok_def family_ok_def)
  have v': "\<forall>t \<in> set ?l. valid_waiter ?k t" using v by (simp add: valid_waiter_def)
  obtain k1 where l: "event_send_loop a ?l False ?k = (0, False \<or> snd srv \<noteq> [], k1)" "kernel_inv k1"
    "evt_set (event k1 a) = fst srv" "tlist k1 (Suspended a) = [] @ filter (\<lambda>t. t \<notin> fst ` set (snd srv)) ?l"
    "\<forall>(t, got) \<in> set (snd srv). tstat k1 t \<in> {1, 3} \<and> event_set (thread k1 t) = got"
    "\<forall>t. t \<notin> fst ` set (snd srv) \<longrightarrow> tstat k1 t = tstat ?k t \<and> event_set (thread k1 t) = event_set (thread ?k t)"
    "\<forall>t. event_info (thread k1 t) = event_info (thread ?k t) \<and> error (thread k1 t) = error (thread ?k t)"
    using event_send_loop_effect [OF upd_ipc_inv(3) [OF k], of a "\<lambda>e. e\<lparr>evt_set := evt_set e OR evts\<rparr>" a "[]" ?l False] v' d
    unfolding w srv_def by auto
  have r: "rt_event_send a evts k = (0, if snd srv \<noteq> [] then rt_schedule k1 else k1)"
    using e l(1) by (simp add: rt_event_send_def)
  then have k': "k' = (if snd srv \<noteq> [] then rt_schedule k1 else k1)" by (simp add: k'_def)
  show "fst (rt_event_send a evts k) = 0" using r by simp
  show "kernel_inv k'" "evt_set (event k' a) = fst srv"
    "tlist k' (Suspended a) = filter (\<lambda>t. t \<notin> fst ` set (snd srv)) ?l"
    using l(2-4) by (simp_all add: k' rt_schedule_kernel_inv wait_lists_schedule)
  have s: "tstat k' u \<in> {1, 3}" if "tstat k1 u \<in> {1, 3}" for u
    using that rt_schedule_tstat [of k1 u] l(2) by (auto simp: k' kernel_inv_def)
  show "tstat k' t \<in> {1, 3} \<and> event_set (thread k' t) = got" if "(t, got) \<in> set (snd srv)"
    using that l(5) s [of t] by (auto simp: k')
  show "t \<notin> fst ` set (snd srv) \<Longrightarrow> event_set (thread k' t) = event_set (thread k t)"
    "event_info (thread k' t) = event_info (thread k t)" "error (thread k' t) = error (thread k t)"
    using l(6,7) by (simp_all add: k')
qed

lemma rt_event_send_inv:
  assumes k: "kernel_inv k" and i: "event_inv a k"
  shows "event_inv a (snd (rt_event_send a evts k))"
proof (cases "evts = 0")
  case False
  have v: "\<forall>t \<in> set (tlist k (Suspended a)). valid_waiter k t" using i by (simp add: event_inv_def)
  note ef = rt_event_send_effect [OF k v False]
  have d: "distinct (map fst (waiting k (tlist k (Suspended a))))"
    using k by (auto simp: waiting_def comp_def kernel_inv_def sched_inv_def rq_inv_def lists_ok_def family_ok_def)
  let ?srv = "event_serve (evt_set (event k a) OR evts) (waiting k (tlist k (Suspended a)))"
  have "\<not> event_ready (event_info (thread k t)) (event_set (thread k t)) (fst ?srv)"
    if "t \<in> set (tlist k (Suspended a))" "t \<notin> fst ` set (snd ?srv)" for t
    using that by (intro event_serve_unserved [OF d, of t]) (auto simp: waiting_def)
  then show ?thesis using v ef(3,4,6,7) by (auto simp: event_inv_def valid_waiter_def)
qed (simp add: rt_event_send_def i)

section \<open>Receiving\<close>

lemma ipc_wait_event_fields [simp]:
  "event_set (thread (ipc_wait l t flag time k) u) = event_set (thread k u)"
  "event_info (thread (ipc_wait l t flag time k) u) = event_info (thread k u)"
proof -
  have s: "event_set (thread (ipc_list_suspend l t flag k) u) = event_set (thread k u)"
    "event_info (thread (ipc_list_suspend l t flag k) u) = event_info (thread k u)"
    by (simp_all add: ipc_list_suspend_def rt_thread_suspend_def Let_def)
  have r: "event_set (thread (rt_timer_start x kk) u) = event_set (thread kk u)"
    "event_info (thread (rt_timer_start x kk) u) = event_info (thread kk u)" for x and kk :: "'a kernel_scheme"
    by (auto simp: rt_timer_start_def Let_def)
  show "event_set (thread (ipc_wait l t flag time k) u) = event_set (thread k u)"
    "event_info (thread (ipc_wait l t flag time k) u) = event_info (thread k u)"
    by (simp_all add: ipc_wait_def wait_timer_def Let_def s r)
qed

text \<open>The three outcomes of \<open>rt_event_recv\<close> with a valid option.\<close>

lemma rt_event_recv_cases:
  assumes "want \<noteq> 0" "rt_current_thread k = Some t" "opt AND 3 \<noteq> 0"
  obtains
    (ready) "event_ready opt want (evt_set (event k a))"
      "rt_event_recv a want opt time k = (Some 0, Some (want AND evt_set (event k a)),
         upd_event a (\<lambda>e. e\<lparr>evt_set := event_left opt want (evt_set e)\<rparr>)
           (upd_thread t (\<lambda>th. th\<lparr>error := 0, event_set := want AND evt_set (event k a), event_info := opt\<rparr>) k))"
  | (poll) "\<not> event_ready opt want (evt_set (event k a))" "time = 0"
      "rt_event_recv a want opt time k = (Some (- 2), None, upd_thread t (\<lambda>th. th\<lparr>error := - 2\<rparr>) k)"
  | (wait) "\<not> event_ready opt want (evt_set (event k a))" "time \<noteq> 0"
      "rt_event_recv a want opt time k = (None, None, rt_schedule (ipc_wait (Suspended a) t (ipc_flag k a) time
         (upd_thread t (\<lambda>th. th\<lparr>error := 0\<rparr>) (upd_thread t (\<lambda>th. th\<lparr>event_set := want, event_info := opt\<rparr>) k))))"
proof -
  have o: "opt AND 2 \<noteq> 0" if "opt AND 1 = 0"
  proof
    assume "opt AND 2 = 0"
    moreover have "opt AND 3 = (opt AND 1) OR (opt AND 2)" by (simp add: bit.conj_disj_distrib [symmetric])
    ultimately show False using that assms(3) by simp
  qed
  have ev: "event (upd_thread t f k) = event k" for f by (simp add: upd_thread_def)
  have uu: "upd_thread t f (upd_thread t g k) = upd_thread t (\<lambda>th. f (g th)) k" for f g by (simp add: upd_thread_def)
  have ab: "upd_event a f k' = k'" if "\<And>e. f e = e" for f and k' :: "'a ipc_scheme" using that by (simp add: upd_event_def)
  show thesis
  proof (cases "event_ready opt want (evt_set (event k a))")
    case True
    then show thesis
      using assms o by (intro ready) (auto simp: rt_event_recv_def rt_thread_self_def event_ready_def event_left_def
          Let_def ev uu ab and.commute)
  next
    case False
    have cm: "th\<lparr>error := 0, event_set := x, event_info := y\<rparr> = th\<lparr>event_set := x, event_info := y, error := 0\<rparr>"
      for th :: rt_thread and x y by (cases th) simp
    show thesis
    proof (cases "time = 0")
      case True
      then show thesis using False assms o
        by (intro poll) (auto simp: rt_event_recv_def rt_thread_self_def event_ready_def Let_def ev uu and.commute)
    next
      case t: False
      show thesis using t False assms o
        by (intro wait) (auto simp: rt_event_recv_def rt_thread_self_def event_ready_def Let_def ev uu cm and.commute)
    qed
  qed
qed

lemma kernel_inv_recv:
  assumes "kernel_inv k"
  shows "kernel_inv (upd_thread t (\<lambda>th. th\<lparr>event_set := x, event_info := y\<rparr>) k)"
    "tstat (upd_thread t (\<lambda>th. th\<lparr>event_set := x, event_info := y\<rparr>) k) = tstat k"
    "kernel_inv (upd_thread t (\<lambda>th. th\<lparr>error := e, event_set := x, event_info := y\<rparr>) k)"
  using assms by (auto intro: kernel_inv_upd_same simp: tstat_def fun_eq_iff)

lemma rt_event_recv_wait_effect:
  fixes time :: int and want :: u32 and opt :: u8
  assumes k: "kernel_inv k" and t: "tstat k t = 3" and f: "ipc_flag k a \<in> {0, 1}"
  defines "k' \<equiv> rt_schedule (ipc_wait (Suspended a) t (ipc_flag k a) time
    (upd_thread t (\<lambda>th. th\<lparr>error := 0\<rparr>) (upd_thread t (\<lambda>th. th\<lparr>event_set := want, event_info := opt\<rparr>) k)))"
  shows "kernel_inv k'" "tstat k' t = 2" "set (tlist k' (Suspended a)) = insert t (set (tlist k (Suspended a)))"
    "tlist k (Suspended a) = [] \<Longrightarrow> tlist k' (Suspended a) = [t]"
    "event_set (thread k' u) = (if u = t then want else event_set (thread k u))"
    "event_info (thread k' u) = (if u = t then opt else event_info (thread k u))" "event k' = event k"
proof -
  let ?k = "upd_thread t (\<lambda>th. th\<lparr>event_set := want, event_info := opt\<rparr>) k"
  note i = kernel_inv_recv [OF k, where t = t and x = want and y = opt]
  have fl: "ipc_flag ?k a = ipc_flag k a" by simp
  have "tstat ?k t = 3" unfolding i(2) by (rule t)
  note b = block_effect [OF i(1) this wait_list_simps(1) [of a] f, where time = time, folded k'_def]
  show "kernel_inv k'" "tstat k' t = 2" by (rule b(1), rule b(3))
  show "set (tlist k' (Suspended a)) = insert t (set (tlist k (Suspended a)))"
    "tlist k (Suspended a) = [] \<Longrightarrow> tlist k' (Suspended a) = [t]" using b(2) by (auto simp: wait_place_def)
  show "event_set (thread k' u) = (if u = t then want else event_set (thread k u))"
    "event_info (thread k' u) = (if u = t then opt else event_info (thread k u))" by (simp_all add: k'_def)
  have "kernel.more ?k = kernel.more k" by simp
  then show "event k' = event k" using ipc_more_sel(3) [OF b(5)] ipc_more_sel(3) by metis
qed

lemma rt_event_recv_inv:
  assumes k: "kernel_inv k" and i: "event_inv a k" and c: "rt_current_thread k = Some t" "tstat k t = 3"
    and f: "ipc_flag k a \<in> {0, 1}" and w: "want \<noteq> 0" and o: "opt AND 3 \<noteq> 0"
  shows "kernel_inv (snd (snd (rt_event_recv a want opt time k))) \<and> event_inv a (snd (snd (rt_event_recv a want opt time k)))"
proof -
  have n: "t \<notin> set (tlist k (Suspended a))" by (rule running_unlinked [OF k c(2)])
  have ov: "opt AND 1 \<noteq> 0 \<or> opt AND 2 \<noteq> 0"
  proof -
    have "opt AND 3 = (opt AND 1) OR (opt AND 2)" by (simp add: bit.conj_disj_distrib [symmetric])
    then show ?thesis using o by auto
  qed
  from w c(1) o show ?thesis
  proof (cases rule: rt_event_recv_cases [where a = a and time = time])
    case ready
    have "\<not> event_ready x y (event_left opt want s)" if "\<not> event_ready x y s" for x y s
      using that event_ready_mono [OF event_left_subset [of opt want s]] by blast
    moreover have "event (upd_thread t f k) = event k" for f by (simp add: upd_thread_def)
    ultimately show ?thesis using ready(2) i n
      by (auto simp: event_inv_def valid_waiter_def upd_ipc_inv kernel_inv_recv(3) [OF k])
  next
    case poll
    have "event (upd_thread t (\<lambda>th. th\<lparr>error := - 2\<rparr>) k) = event k" by (simp add: upd_thread_def)
    then show ?thesis using poll(3) i by (auto simp: event_inv_def valid_waiter_def set_error_inv(1) [OF k])
  next
    case wait
    note e = rt_event_recv_wait_effect [OF k c(2) f, where want = want and opt = opt and time = time]
    show ?thesis using wait i e(1) ov unfolding wait(3) snd_conv
      by (auto simp: event_inv_def valid_waiter_def e(3,5,6,7))
  qed
qed

section \<open>Properties\<close>

text \<open>
  C8. \<open>rt_event_send\<close> serves the waiters in list order: each waiter whose condition holds (all or
  some of its events, as it asked) becomes runnable with exactly the events it gets, and its
  \<open>rt_event_recv\<close> returns them; events it asked to clear are gone for the waiters behind it and
  for the event set that remains; the others keep waiting in their order.
\<close>

theorem rt_event_send_serves:
  assumes "kernel_inv k" "\<forall>t \<in> set (tlist k (Suspended a)). valid_waiter k t" "evts \<noteq> 0"
  shows "case event_serve (evt_set (event k a) OR evts) (waiting k (tlist k (Suspended a))) of (left, woken) \<Rightarrow>
    case rt_event_send a evts k of (err, k') \<Rightarrow>
      err = RT_EOK \<and> kernel_inv k' \<and> evt_set (event k' a) = left
      \<and> tlist k' (Suspended a) = filter (\<lambda>t. t \<notin> fst ` set woken) (tlist k (Suspended a))
      \<and> (\<forall>(t, got) \<in> set woken. tstat k' t \<in> {RT_THREAD_READY, RT_THREAD_RUNNING}
           \<and> (error (thread k t) = RT_EOK \<longrightarrow> rt_event_recv_end t k' = (RT_EOK, Some got)))"
  using rt_event_send_effect(1-4,8) [OF assms] rt_event_send_effect(5) [OF assms]
  by (auto simp: rt_event_recv_end_def split: prod.splits) fastforce+

text \<open>Thread 1 waits for both of the events 1 and 2 and clears them; event 2 is already there when
  5 is sent.\<close>

definition event_waiting :: ipc where
  "event_waiting = snd (snd (rt_event_recv 4 3 5 (- 1) (upd_event 4 (\<lambda>e. e\<lparr>evt_set := 2\<rparr>) example_ipc)))"

lemma event_waiting_sel:
  "kernel_inv event_waiting" "tlist event_waiting (Suspended 4) = [1]" "event_set (thread event_waiting 1) = 3"
  "event_info (thread event_waiting 1) = 5" "evt_set (event event_waiting 4) = 2"
proof -
  let ?k = "upd_event 4 (\<lambda>e. e\<lparr>evt_set := 2\<rparr>) example_ipc"
  have f: "ipc_flag ?k 4 = 0" using fun_cong [OF example_ipc_sel(6), of 4] unfolding ipc_flag_def by simp
  have k: "kernel_inv ?k" by (simp add: upd_ipc_inv)
  have t: "tstat ?k 1 = 3" by simp
  have e: "event_waiting = rt_schedule (ipc_wait (Suspended 4) 1 (ipc_flag ?k 4) (- 1)
    (upd_thread 1 (\<lambda>th. th\<lparr>error := 0\<rparr>) (upd_thread 1 (\<lambda>th. th\<lparr>event_set := 3, event_info := 5\<rparr>) ?k)))"
    unfolding event_waiting_def
    by (rule rt_event_recv_cases [where want = 3 and k = ?k and t = 1 and opt = 5 and a = 4 and time = "- 1"])
      (simp_all add: event_ready_def)
  note w = rt_event_recv_wait_effect [OF k t, where a = 4 and time = "- 1" and want = 3 and opt = 5, folded e]
  show "kernel_inv event_waiting" "tlist event_waiting (Suspended 4) = [1]" "event_set (thread event_waiting 1) = 3"
    "event_info (thread event_waiting 1) = 5" "evt_set (event event_waiting 4) = 2"
    using w f by simp_all
qed

theorem rt_event_send_serves_witness:
  "fst (rt_event_send 4 5 event_waiting) = 0 \<and> evt_set (event (snd (rt_event_send 4 5 event_waiting)) 4) = 4"
  using rt_event_send_serves [of event_waiting 4 5]
  by (simp add: event_waiting_sel valid_waiter_def waiting_def event_ready_def event_left_def del: One_nat_def split: prod.splits)

text \<open>
  C36. No lost wake-up: while every receiver passes a valid option, no thread ever waits for events
  that are already in the set. \<open>rt_event_recv\<close> and \<open>rt_event_send\<close> keep it so.
\<close>

theorem rt_event_no_lost_wakeup:
  assumes "kernel_inv k" "event_inv a k" "rt_current_thread k = Some t" "tstat k t = RT_THREAD_RUNNING"
    and "ipc_flag k a \<in> {RT_IPC_FLAG_FIFO, RT_IPC_FLAG_PRIO}" "want \<noteq> 0" "opt AND (RT_EVENT_FLAG_AND OR RT_EVENT_FLAG_OR) \<noteq> 0"
  shows "event_inv a (snd (snd (rt_event_recv a want opt time k))) \<and> event_inv a (snd (rt_event_send a evts k))
    \<and> event_inv a (snd (rt_event_send a evts (snd (snd (rt_event_recv a want opt time k)))))"
  using rt_event_recv_inv [OF assms(1-6), of opt time] assms(7) rt_event_send_inv [OF assms(1,2)]
    rt_event_send_inv [of "snd (snd (rt_event_recv a want opt time k))" a evts] by simp

theorem rt_event_no_lost_wakeup_witness:
  "event_inv 4 (snd (rt_event_send 4 1 (snd (snd (rt_event_recv 4 3 1 10 example_ipc)))))"
  using rt_event_no_lost_wakeup [of example_ipc 4 1 3 1 10 1] by (simp add: event_inv_def)

text \<open>
  A receiver with neither \<open>RT_EVENT_FLAG_AND\<close> nor \<open>RT_EVENT_FLAG_OR\<close> blocks the event object:
  the assertion that rejects it is compiled out without \<open>RT_DEBUG\<close>, so it waits, and from then on
  every \<open>rt_event_send\<close> returns \<open>-RT_EINVAL\<close> and wakes nobody, although the events are
  added to the set.
\<close>

theorem rt_event_invalid_option:
  assumes "kernel_inv k" "rt_current_thread k = Some t" "tstat k t = RT_THREAD_RUNNING" "tlist k (Suspended a) = []"
    and "ipc_flag k a \<in> {RT_IPC_FLAG_FIFO, RT_IPC_FLAG_PRIO}" "want \<noteq> 0" "time \<noteq> 0" "evts \<noteq> 0"
    and "opt AND RT_EVENT_FLAG_AND = 0" "opt AND RT_EVENT_FLAG_OR = 0"
  shows "case rt_event_recv a want opt time k of (err, recved, k1) \<Rightarrow> err = None \<and> tlist k1 (Suspended a) = [t]
    \<and> rt_event_send a evts k1 = (- RT_EINVAL, upd_event a (\<lambda>e. e\<lparr>evt_set := evt_set e OR evts\<rparr>) k1)"
proof -
  have uu: "upd_thread t f (upd_thread t g k) = upd_thread t (\<lambda>th. f (g th)) k" for f g by (simp add: upd_thread_def)
  have cm: "th\<lparr>error := 0, event_set := x, event_info := y\<rparr> = th\<lparr>event_set := x, event_info := y, error := 0\<rparr>"
    for th :: rt_thread and x y by (cases th) simp
  let ?k1 = "rt_schedule (ipc_wait (Suspended a) t (ipc_flag k a) time
    (upd_thread t (\<lambda>th. th\<lparr>error := 0\<rparr>) (upd_thread t (\<lambda>th. th\<lparr>event_set := want, event_info := opt\<rparr>) k)))"
  have r: "rt_event_recv a want opt time k = (None, None, ?k1)"
    using assms(2,6,7,9,10) by (simp add: rt_event_recv_def rt_thread_self_def Let_def uu cm)
  note w = rt_event_recv_wait_effect [OF assms(1,3,5), where time = time and want = want and opt = opt]
  show ?thesis using assms(8-10) by (simp add: r w(4) [OF assms(4)] rt_event_send_def w(6))
qed

theorem rt_event_invalid_option_witness:
  "fst (rt_event_send 4 1 (snd (snd (rt_event_recv 4 1 0 (- 1) example_ipc)))) = - 10"
  using rt_event_invalid_option [of example_ipc 1 4 1 "- 1" 1 0] by (simp split: prod.splits)

end
