(* ===== verification/Fifo.thy ===== *)
theory Fifo
  imports Prelude
begin

text \<open>
  Bounded queues. \<open>fifo_queue\<close> is the contract of a store with insertion at the back and removal at
  the front; the ring buffer of the drivers (\<open>Ringbuffer\<close>) is an instance, and \<open>bounded_queue\<close> of
  \<open>Ipc_Queue\<close> extends it with insertion at the front for mailboxes and message queues.
\<close>

section \<open>Bounded queues\<close>

fun get_many :: "('s \<Rightarrow> 'v \<times> 's) \<Rightarrow> nat \<Rightarrow> 's \<Rightarrow> 'v list \<times> 's" where
  "get_many get 0 s = ([], s)"
| "get_many get (Suc n) s = (case get s of (v, s) \<Rightarrow> case get_many get n s of (vs, s) \<Rightarrow> (v # vs, s))"

text \<open>\<open>stores w v\<close>: the element \<open>w\<close> of the queue holds the value \<open>v\<close> that was put there.\<close>

locale fifo_queue =
  fixes ok :: "'s \<Rightarrow> bool" and contents :: "'s \<Rightarrow> 'w list" and cap :: "'s \<Rightarrow> nat"
    and put :: "'v \<Rightarrow> 's \<Rightarrow> 's" and get :: "'s \<Rightarrow> 'w \<times> 's"
    and fits :: "'s \<Rightarrow> 'v \<Rightarrow> bool" and stores :: "'w \<Rightarrow> 'v \<Rightarrow> bool"
  assumes bounded: "ok s \<Longrightarrow> length (contents s) \<le> cap s"
    and put: "ok s \<Longrightarrow> fits s v \<Longrightarrow> length (contents s) < cap s \<Longrightarrow> ok (put v s)
      \<and> (\<exists>w. stores w v \<and> contents (put v s) = contents s @ [w]) \<and> cap (put v s) = cap s \<and> fits (put v s) = fits s"
    and get: "ok s \<Longrightarrow> contents s = w # ws \<Longrightarrow>
      fst (get s) = w \<and> ok (snd (get s)) \<and> contents (snd (get s)) = ws \<and> cap (snd (get s)) = cap s \<and> fits (snd (get s)) = fits s"
begin

lemma put_many:
  assumes "ok s" "\<forall>v \<in> set vs. fits s v" "length (contents s) + length vs \<le> cap s"
  shows "\<exists>ws. list_all2 stores ws vs \<and> ok (fold put vs s) \<and> contents (fold put vs s) = contents s @ ws
    \<and> cap (fold put vs s) = cap s"
  using assms
proof (induction vs arbitrary: s)
  case (Cons v vs)
  obtain w where w: "stores w v" "ok (put v s)" "contents (put v s) = contents s @ [w]" "cap (put v s) = cap s"
    "fits (put v s) = fits s" using put [of s v] Cons.prems by auto
  obtain ws where "list_all2 stores ws vs" "ok (fold put vs (put v s))"
    "contents (fold put vs (put v s)) = contents (put v s) @ ws" "cap (fold put vs (put v s)) = cap (put v s)"
    using Cons.IH [of "put v s"] Cons.prems w by auto
  then show ?case using w by (auto intro: exI [of _ "w # ws"])
qed simp

lemma get_many_contents:
  assumes "ok s" "n \<le> length (contents s)"
  shows "fst (get_many get n s) = take n (contents s) \<and> ok (snd (get_many get n s))
    \<and> contents (snd (get_many get n s)) = drop n (contents s)"
  using assms
proof (induction n arbitrary: s)
  case (Suc n)
  obtain w ws where c: "contents s = w # ws" using Suc.prems(2) by (cases "contents s") auto
  show ?case using get [OF Suc.prems(1) c] Suc.IH [of "snd (get s)"] Suc.prems(2) c
    by (auto split: prod.split)
qed simp

text \<open>First in, first out: values put into an empty queue come out in the same order.\<close>

lemma first_in_first_out:
  assumes "ok s" "contents s = []" "\<forall>v \<in> set vs. fits s v" "length vs \<le> cap s"
  shows "list_all2 stores (fst (get_many get (length vs) (fold put vs s))) vs"
proof -
  obtain ws where "list_all2 stores ws vs" "ok (fold put vs s)" "contents (fold put vs s) = ws"
    using put_many [of s vs] assms by auto
  then show ?thesis using get_many_contents [of "fold put vs s" "length vs"] by (simp add: list_all2_lengthD)
qed

end

section \<open>Rings\<close>

text \<open>Writing to the slot behind the occupied part of a ring changes none of it.\<close>

lemma ring_slots:
  fixes out n e i :: nat
  assumes "i < e" "e < n"
  shows "(out + e) mod n \<noteq> (out + i) mod n"
proof
  assume "(out + e) mod n = (out + i) mod n"
  then have "n dvd (out + e) - (out + i)" using mod_eq_dvd_iff_nat [of "out + i" "out + e" n] assms(1) by simp
  then have "n dvd e - i" by simp
  then show False using assms nat_dvd_not_less [of "e - i" n] by simp
qed

end
