(* ===== verification/Ipc_Queue.thy ===== *)
theory Ipc_Queue
  imports Ipc Fifo
begin

text \<open>
  What mailboxes and message queues share. Their blocking calls loop: they wait while the queue is
  full (or empty), and each time they run again they look again with what is left of the timeout.
  An operation is split at \<open>rt_schedule\<close>; \<open>Blocks timeout tick_delta\<close> carries the local variables
  that live across it. The locale \<open>bounded_queue\<close> is the contract of the storage: the bounded queue
  of \<open>Fifo\<close> with insertion at the front as well.
\<close>

section \<open>Blocking calls\<close>

text \<open>\<open>Faults\<close> is the write through the null thread pointer when code that is not a thread has to
  wait.\<close>

datatype 'v outcome = Returns rt_err "'v option" | Blocks int u32 | Faults

definition queue_wait :: "list_id \<Rightarrow> tid \<Rightarrow> u8 \<Rightarrow> int \<Rightarrow> u32 \<Rightarrow> 'a kernel_scheme \<Rightarrow> 'v outcome \<times> 'a kernel_scheme" where
  "queue_wait l t flag timeout tick_delta k =
     (Blocks timeout (if timeout > 0 then rt_tick_get k else tick_delta), rt_schedule (ipc_wait l t flag timeout k))"

text \<open>\<open>timeout -= rt_tick_get() - tick_delta\<close>, in unsigned arithmetic and read back as
  \<open>rt_int32_t\<close>.\<close>

definition timeout_left :: "int \<Rightarrow> u32 \<Rightarrow> 'a kernel_scheme \<Rightarrow> int" where
  "timeout_left timeout tick_delta k =
     (if timeout > 0 then
        let left = sint (word_of_int timeout - (rt_tick_get k - tick_delta) :: 32 word)
        in if left < 0 then 0 else left
      else timeout)"

lemma sint_small: "- (2 ^ 31) \<le> x \<Longrightarrow> x < 2 ^ 31 \<Longrightarrow> sint (word_of_int x :: 32 word) = x"
  by (simp add: sint_sbintrunc' signed_take_bit_int_eq_self)

lemma timeout_left_bounds:
  assumes "0 < timeout" "timeout < 2 ^ 31" "rt_tick k = start + of_nat e" "e < 2 ^ 31"
  shows "timeout_left timeout start k = max 0 (timeout - int e)"
proof -
  have "sint (word_of_int (timeout - int e) :: 32 word) = timeout - int e"
    using assms by (intro sint_small) auto
  moreover have "word_of_int timeout - (rt_tick_get k - start) = (word_of_int (timeout - int e) :: 32 word)"
    using assms(3) by (simp add: rt_tick_get_def)
  ultimately have "sint (word_of_int timeout - (rt_tick_get k - start) :: 32 word) = timeout - int e" by presburger
  then show ?thesis using assms(1) unfolding timeout_left_def Let_def by (simp del: diff_add_eq)
qed

section \<open>Bounded queues with urgent values\<close>

locale bounded_queue = fifo_queue ok contents cap put get fits stores
  for ok :: "'s \<Rightarrow> bool" and contents :: "'s \<Rightarrow> 'w list" and cap :: "'s \<Rightarrow> nat" and put :: "'v \<Rightarrow> 's \<Rightarrow> 's"
    and get :: "'s \<Rightarrow> 'w \<times> 's" and fits :: "'s \<Rightarrow> 'v \<Rightarrow> bool" and stores :: "'w \<Rightarrow> 'v \<Rightarrow> bool" +
  fixes urgent :: "'v \<Rightarrow> 's \<Rightarrow> 's"
  assumes urgent: "ok s \<Longrightarrow> fits s v \<Longrightarrow> length (contents s) < cap s \<Longrightarrow> ok (urgent v s)
      \<and> (\<exists>w. stores w v \<and> contents (urgent v s) = w # contents s) \<and> cap (urgent v s) = cap s \<and> fits (urgent v s) = fits s"
begin

text \<open>An urgent value is the next to come out.\<close>

lemma urgent_next:
  assumes "ok s" "fits s v" "length (contents s) < cap s"
  shows "stores (fst (get (urgent v s))) v" "contents (snd (get (urgent v s))) = contents s"
  using urgent [OF assms] get [of "urgent v s" _ "contents s"] by auto

end

section \<open>Specification of the operations\<close>

text \<open>A queue with the threads that wait to receive and to send. A send that succeeds wakes the
  first receiver, a receive the first sender; a woken thread looks again when it runs.\<close>

type_synonym 'w queue_spec = "'w list \<times> tid list \<times> tid list"

fun send_spec :: "nat \<Rightarrow> (tid list \<Rightarrow> tid list) \<Rightarrow> int \<Rightarrow> u32 \<Rightarrow> 'w \<Rightarrow> 'w queue_spec \<Rightarrow> 'v outcome \<times> 'w queue_spec" where
  "send_spec cap place timeout now w (q, receivers, senders) =
     (if length q < cap then (Returns RT_EOK None, (q @ [w], tl receivers, senders))
      else if timeout = 0 then (Returns (- RT_EFULL) None, (q, receivers, senders))
      else (Blocks timeout (if timeout > 0 then now else 0), (q, receivers, place senders)))"

fun urgent_spec :: "nat \<Rightarrow> 'w \<Rightarrow> 'w queue_spec \<Rightarrow> rt_err \<times> 'w queue_spec" where
  "urgent_spec cap w (q, receivers, senders) =
     (if length q < cap then (RT_EOK, (w # q, tl receivers, senders)) else (- RT_EFULL, (q, receivers, senders)))"

fun recv_spec :: "(tid list \<Rightarrow> tid list) \<Rightarrow> int \<Rightarrow> u32 \<Rightarrow> 'w queue_spec \<Rightarrow> 'w outcome \<times> 'w queue_spec" where
  "recv_spec place timeout now ([], receivers, senders) =
     (if timeout = 0 then (Returns (- RT_ETIMEOUT) None, ([], receivers, senders))
      else (Blocks timeout (if timeout > 0 then now else 0), ([], place receivers, senders)))"
| "recv_spec place timeout now (w # q, receivers, senders) = (Returns RT_EOK (Some w), (q, receivers, tl senders))"

section \<open>Waiting and waking\<close>

lemma queue_wait_effect:
  fixes timeout :: int and tick_delta :: u32
  assumes k: "kernel_inv k" and t: "tstat k t = 3" and l: "wait_list l" and f: "flag \<in> {0, 1}"
  defines "r \<equiv> queue_wait l t flag timeout tick_delta (upd_thread t (\<lambda>th. th\<lparr>error := 0\<rparr>) k)"
  shows "kernel_inv (snd r)" "tlist (snd r) l = wait_place flag (prio k) t (tlist k l)" "tstat (snd r) t = 2"
    "wait_list m \<Longrightarrow> m \<noteq> l \<Longrightarrow> tlist (snd r) m = tlist k m" "kernel.more (snd r) = kernel.more k"
    "fst r = Blocks timeout (if timeout > 0 then rt_tick k else tick_delta)"
  using block_effect [OF k t l f, where time = timeout] unfolding r_def
  by (simp_all add: queue_wait_def rt_tick_get_def)

text \<open>After a change of an object's storage: wake the first of a wait list, if there is one.\<close>

definition wake_one :: "list_id \<Rightarrow> 'a kernel_scheme \<Rightarrow> 'a kernel_scheme" where
  "wake_one l k = (if tlist k l \<noteq> [] then rt_schedule (ipc_list_resume l k) else k)"

lemma wake_one_effect:
  assumes k: "kernel_inv k" and l: "wait_list l"
  shows "kernel_inv (wake_one l k)" "tlist (wake_one l k) l = tl (tlist k l)"
    "wait_list m \<Longrightarrow> m \<noteq> l \<Longrightarrow> tlist (wake_one l k) m = tlist k m" "kernel.more (wake_one l k) = kernel.more k"
    "tlist k l = t # ts \<Longrightarrow> tstat (wake_one l k) t \<in> {1, 3}"
proof -
  have s: "tlist (rt_schedule k') m = tlist k' m" if "kernel_inv k'" "wait_list m" for k' :: "'a kernel_scheme" and m
    using that wait_lists_schedule [of k'] by (auto simp: wait_list_def)
  show "kernel_inv (wake_one l k)" "tlist (wake_one l k) l = tl (tlist k l)"
    "wait_list m \<Longrightarrow> m \<noteq> l \<Longrightarrow> tlist (wake_one l k) m = tlist k m" "kernel.more (wake_one l k) = kernel.more k"
    using k l ipc_list_resume_effect [OF k l] ipc_list_resume_other [OF k l] s
    by (cases "tlist k l"; simp add: wake_one_def rt_schedule_kernel_inv)+
  show "tstat (wake_one l k) t \<in> {1, 3}" if "tlist k l = t # ts"
    using ipc_list_resume_effect [OF k l that] rt_schedule_tstat [of "ipc_list_resume l k" t] that
    by (auto simp: wake_one_def kernel_inv_def)
qed

end
