(* ===== verification/Ipc_Mailbox.thy ===== *)
theory Ipc_Mailbox
  imports Ipc_Queue
begin

text \<open>
  Mailboxes (\<^verbatim>\<open>rt_mb_*\<close> of \<^verbatim>\<open>rt-thread/src/ipc.c\<close>): a ring of words with 16-bit offsets.
  The specification is a bounded list of values with the receivers and the senders that wait.
\<close>

section \<open>The ring\<close>

definition mb_put :: "u32 \<Rightarrow> rt_mailbox \<Rightarrow> rt_err \<times> rt_mailbox" where
  "mb_put value mb =
     (let mb = mb\<lparr>msg_pool := (msg_pool mb)(unat (in_offset mb) := value)\<rparr>;
          mb = mb\<lparr>in_offset := in_offset mb + 1\<rparr>;
          mb = (if in_offset mb \<ge> mb_size mb then mb\<lparr>in_offset := 0\<rparr> else mb)
      in if mb_entry mb < 0xFFFF then (RT_EOK, mb\<lparr>mb_entry := mb_entry mb + 1\<rparr>) else (- RT_EFULL, mb))"

definition mb_put_urgent :: "u32 \<Rightarrow> rt_mailbox \<Rightarrow> rt_mailbox" where
  "mb_put_urgent value mb =
     (let mb = (if out_offset mb > 0 then mb\<lparr>out_offset := out_offset mb - 1\<rparr>
                else mb\<lparr>out_offset := mb_size mb - 1\<rparr>);
          mb = mb\<lparr>msg_pool := (msg_pool mb)(unat (out_offset mb) := value)\<rparr>
      in mb\<lparr>mb_entry := mb_entry mb + 1\<rparr>)"

definition mb_get :: "rt_mailbox \<Rightarrow> u32 \<times> rt_mailbox" where
  "mb_get mb =
     (let value = msg_pool mb (unat (out_offset mb));
          mb = mb\<lparr>out_offset := out_offset mb + 1\<rparr>;
          mb = (if out_offset mb \<ge> mb_size mb then mb\<lparr>out_offset := 0\<rparr> else mb)
      in (value, if mb_entry mb > 0 then mb\<lparr>mb_entry := mb_entry mb - 1\<rparr> else mb))"

section \<open>Operations\<close>

definition mb_setup :: "addr \<Rightarrow> (nat \<Rightarrow> u32) \<Rightarrow> 'a ipc_scheme \<Rightarrow> 'a ipc_scheme" where
  "mb_setup a pool k =
     (let k = upd_mailbox a (\<lambda>mb. mb\<lparr>msg_pool := pool, mb_entry := 0, in_offset := 0, out_offset := 0\<rparr>) k
      in k\<lparr>tlist := (tlist k)(Senders a := [])\<rparr>)"

definition rt_mb_init :: "addr \<Rightarrow> cstring \<Rightarrow> (nat \<Rightarrow> u32) \<Rightarrow> u32 \<Rightarrow> u8 \<Rightarrow> 'a ipc_scheme \<Rightarrow> 'a ipc_scheme" where
  "rt_mb_init a name msgpool sz flag k =
     (let k = rt_object_init (Ipc_obj a) RT_Object_Class_MailBox name k;
          k = ipc_object_init a (set_ipc_flag a flag k);
          k = upd_mailbox a (\<lambda>mb. mb\<lparr>mb_size := ucast sz\<rparr>) k
      in mb_setup a msgpool k)"

definition rt_mb_detach :: "addr \<Rightarrow> 'a ipc_scheme \<Rightarrow> 'a ipc_scheme option" where
  "rt_mb_detach a k =
     map_option (rt_object_detach (Ipc_obj a))
       (Option.bind (ipc_list_resume_all (Suspended a) k) (ipc_list_resume_all (Senders a)))"

text \<open>\<open>pool\<close> is the memory \<open>rt_malloc\<close> returns, if it does.\<close>

definition rt_mb_create :: "obj_id option \<Rightarrow> (nat \<Rightarrow> u32) option \<Rightarrow> cstring \<Rightarrow> u32 \<Rightarrow> u8 \<Rightarrow> 'a ipc_scheme \<Rightarrow> addr option \<times> 'a ipc_scheme" where
  "rt_mb_create mem pool name sz flag k =
     (case rt_object_allocate mem RT_Object_Class_MailBox name k of
        (Some (Ipc_obj a), k) \<Rightarrow>
          let k = ipc_object_init a (set_ipc_flag a flag k);
              k = upd_mailbox a (\<lambda>mb. mb\<lparr>mb_size := ucast sz\<rparr>) k
          in (case pool of
                None \<Rightarrow> (None, rt_object_delete (Ipc_obj a) k)
              | Some p \<Rightarrow> (Some a, mb_setup a p k))
      | (_, k) \<Rightarrow> (None, k))"

definition rt_mb_delete :: "addr \<Rightarrow> 'a ipc_scheme \<Rightarrow> 'a ipc_scheme option" where
  "rt_mb_delete a k =
     map_option (rt_object_delete (Ipc_obj a))
       (Option.bind (ipc_list_resume_all (Suspended a) k) (ipc_list_resume_all (Senders a)))"

text \<open>The body of the loop of \<open>rt_mb_send_wait\<close> and what follows it; \<open>self\<close> is the local variable \<open>thread\<close>
  set by \<open>rt_thread_self\<close> at the start of the call.\<close>

definition mb_send_loop :: "addr \<Rightarrow> u32 \<Rightarrow> tid option \<Rightarrow> int \<Rightarrow> u32 \<Rightarrow> 'a ipc_scheme \<Rightarrow> u32 outcome \<times> 'a ipc_scheme" where
  "mb_send_loop a value self timeout tick_delta k =
     (if mb_entry (mailbox k a) = mb_size (mailbox k a) then
        (case self of
           None \<Rightarrow> (Faults, k)
         | Some t \<Rightarrow>
             let k = upd_thread t (\<lambda>th. th\<lparr>error := RT_EOK\<rparr>) k
             in if timeout = 0 then (Returns (- RT_EFULL) None, k)
                else queue_wait (Senders a) t (ipc_flag k a) timeout tick_delta k)
      else
        case mb_put value (mailbox k a) of (err, mb) \<Rightarrow>
          let k = upd_mailbox a (\<lambda>_. mb) k
          in if err \<noteq> RT_EOK then (Returns err None, k)
             else if tlist k (Suspended a) \<noteq> [] then (Returns RT_EOK None, rt_schedule (ipc_list_resume (Suspended a) k))
             else (Returns RT_EOK None, k))"

definition rt_mb_send_wait :: "addr \<Rightarrow> u32 \<Rightarrow> int \<Rightarrow> 'a ipc_scheme \<Rightarrow> u32 outcome \<times> 'a ipc_scheme" where
  "rt_mb_send_wait a value timeout k =
     (if mb_entry (mailbox k a) = mb_size (mailbox k a) \<and> timeout = 0 then (Returns (- RT_EFULL) None, k)
      else mb_send_loop a value (rt_thread_self k) timeout 0 k)"

text \<open>A sender that runs again.\<close>

definition rt_mb_send_wait_resumed :: "addr \<Rightarrow> u32 \<Rightarrow> tid \<Rightarrow> int \<Rightarrow> u32 \<Rightarrow> 'a ipc_scheme \<Rightarrow> u32 outcome \<times> 'a ipc_scheme" where
  "rt_mb_send_wait_resumed a value t timeout tick_delta k =
     (if error (thread k t) \<noteq> RT_EOK then (Returns (error (thread k t)) None, k)
      else mb_send_loop a value (Some t) (timeout_left timeout tick_delta k)
        (if timeout > 0 then rt_tick_get k - tick_delta else tick_delta) k)"

definition rt_mb_send :: "addr \<Rightarrow> u32 \<Rightarrow> 'a ipc_scheme \<Rightarrow> u32 outcome \<times> 'a ipc_scheme" where
  "rt_mb_send a value k = rt_mb_send_wait a value 0 k"

definition rt_mb_urgent :: "addr \<Rightarrow> u32 \<Rightarrow> 'a ipc_scheme \<Rightarrow> rt_err \<times> 'a ipc_scheme" where
  "rt_mb_urgent a value k =
     (if mb_entry (mailbox k a) = mb_size (mailbox k a) then (- RT_EFULL, k)
      else
        let k = upd_mailbox a (mb_put_urgent value) k
        in if tlist k (Suspended a) \<noteq> [] then (RT_EOK, rt_schedule (ipc_list_resume (Suspended a) k))
           else (RT_EOK, k))"

definition mb_recv_loop :: "addr \<Rightarrow> tid option \<Rightarrow> int \<Rightarrow> u32 \<Rightarrow> 'a ipc_scheme \<Rightarrow> u32 outcome \<times> 'a ipc_scheme" where
  "mb_recv_loop a self timeout tick_delta k =
     (if mb_entry (mailbox k a) = 0 then
        (case self of
           None \<Rightarrow> (Faults, k)
         | Some t \<Rightarrow>
             let k = upd_thread t (\<lambda>th. th\<lparr>error := RT_EOK\<rparr>) k
             in if timeout = 0 then
                  (Returns (- RT_ETIMEOUT) None, upd_thread t (\<lambda>th. th\<lparr>error := - RT_ETIMEOUT\<rparr>) k)
                else queue_wait (Suspended a) t (ipc_flag k a) timeout tick_delta k)
      else
        case mb_get (mailbox k a) of (value, mb) \<Rightarrow>
          let k = upd_mailbox a (\<lambda>_. mb) k
          in if tlist k (Senders a) \<noteq> [] then (Returns RT_EOK (Some value), rt_schedule (ipc_list_resume (Senders a) k))
             else (Returns RT_EOK (Some value), k))"

definition rt_mb_recv :: "addr \<Rightarrow> int \<Rightarrow> 'a ipc_scheme \<Rightarrow> u32 outcome \<times> 'a ipc_scheme" where
  "rt_mb_recv a timeout k =
     (if mb_entry (mailbox k a) = 0 \<and> timeout = 0 then (Returns (- RT_ETIMEOUT) None, k)
      else mb_recv_loop a (rt_thread_self k) timeout 0 k)"

definition rt_mb_recv_resumed :: "addr \<Rightarrow> tid \<Rightarrow> int \<Rightarrow> u32 \<Rightarrow> 'a ipc_scheme \<Rightarrow> u32 outcome \<times> 'a ipc_scheme" where
  "rt_mb_recv_resumed a t timeout tick_delta k =
     (if error (thread k t) \<noteq> RT_EOK then (Returns (error (thread k t)) None, k)
      else mb_recv_loop a (Some t) (timeout_left timeout tick_delta k)
        (if timeout > 0 then rt_tick_get k - tick_delta else tick_delta) k)"

definition rt_mb_control :: "addr \<Rightarrow> nat \<Rightarrow> 'a ipc_scheme \<Rightarrow> (rt_err \<times> 'a ipc_scheme) option" where
  "rt_mb_control a cmd k =
     (if cmd = 1 then
        map_option (\<lambda>k. (RT_EOK, rt_schedule
            (upd_mailbox a (\<lambda>mb. mb\<lparr>mb_entry := 0, in_offset := 0, out_offset := 0\<rparr>) k)))
          (Option.bind (ipc_list_resume_all (Suspended a) k) (ipc_list_resume_all (Senders a)))
      else Some (- RT_ERROR, k))"

section \<open>The ring is a bounded queue\<close>

definition mb_contents :: "rt_mailbox \<Rightarrow> u32 list" where
  "mb_contents mb = map (\<lambda>i. msg_pool mb ((unat (out_offset mb) + i) mod unat (mb_size mb))) [0..<unat (mb_entry mb)]"

definition mb_ok :: "rt_mailbox \<Rightarrow> bool" where
  "mb_ok mb \<longleftrightarrow> mb_entry mb \<le> mb_size mb \<and> in_offset mb < mb_size mb \<and> out_offset mb < mb_size mb
     \<and> unat (in_offset mb) = (unat (out_offset mb) + unat (mb_entry mb)) mod unat (mb_size mb)"

text \<open>Stepping an offset forwards and backwards.\<close>

lemma offset_next:
  fixes x n :: u16
  assumes "x < n"
  shows "unat (if x + 1 \<ge> n then 0 else x + 1) = Suc (unat x) mod unat n"
proof -
  have l: "unat x < unat n" "unat n < 65536" using assms unsigned_less [of n] by (simp_all add: word_less_nat_alt)
  have "unat (x + 1) = Suc (unat x)" using l by (simp add: unat_add_no_wrap)
  then show ?thesis using l by (auto simp: word_le_nat_alt mod_Suc)
qed

lemma offset_prev:
  fixes x n :: u16
  assumes "x < n"
  shows "Suc (unat (if x > 0 then x - 1 else n - 1)) mod unat n = unat x" "(if x > 0 then x - 1 else n - 1) < n"
proof -
  have l: "unat x < unat n" using assms by (simp add: word_less_nat_alt)
  then have n: "unat (n - 1) = unat n - 1" by (intro unat_minus_one) auto
  have x: "unat (x - 1) = unat x - 1" if "x > 0" using that by (intro unat_minus_one) (auto simp: word_gt_0)
  have z: "0 < unat x" if "x > 0" using that by (simp add: word_gt_0 unat_gt_0)
  show "Suc (unat (if x > 0 then x - 1 else n - 1)) mod unat n = unat x" using l n x z by (auto simp: word_gt_0)
  show "(if x > 0 then x - 1 else n - 1) < n" using l n x z by (auto simp: word_less_nat_alt)
qed

lemma mb_okD:
  assumes "mb_ok mb"
  shows "0 < unat (mb_size mb)" "unat (out_offset mb) < unat (mb_size mb)" "unat (mb_entry mb) \<le> unat (mb_size mb)"
    "unat (mb_size mb) < 65536" "length (mb_contents mb) = unat (mb_entry mb)"
  using assms unsigned_less [of "mb_size mb"] by (auto simp: mb_ok_def word_less_nat_alt word_le_nat_alt mb_contents_def)

lemma mb_put_effect:
  assumes ok: "mb_ok mb" and room: "unat (mb_entry mb) < unat (mb_size mb)"
  shows "fst (mb_put v mb) = 0" "mb_ok (snd (mb_put v mb))" "mb_contents (snd (mb_put v mb)) = mb_contents mb @ [v]"
    "mb_size (snd (mb_put v mb)) = mb_size mb"
proof -
  let ?n = "unat (mb_size mb)" and ?o = "unat (out_offset mb)" and ?e = "unat (mb_entry mb)"
  note d = mb_okD [OF ok]
  have e: "mb_entry mb < 0xFFFF" using room d(4) by (simp add: word_less_nat_alt)
  have e1: "unat (mb_entry mb + 1) = Suc ?e" using e by (simp add: word_less_nat_alt unat_add_no_wrap)
  have i: "in_offset mb < mb_size mb" "unat (in_offset mb) = (?o + ?e) mod ?n" using ok by (auto simp: mb_ok_def)
  have r: "mb_put v mb = (0, mb\<lparr>msg_pool := (msg_pool mb)(unat (in_offset mb) := v),
      in_offset := if in_offset mb + 1 \<ge> mb_size mb then 0 else in_offset mb + 1, mb_entry := mb_entry mb + 1\<rparr>)"
    using e by (simp add: mb_put_def Let_def)
  show "fst (mb_put v mb) = 0" "mb_size (snd (mb_put v mb)) = mb_size mb" unfolding r by simp_all
  let ?i = "if in_offset mb + 1 \<ge> mb_size mb then 0 else in_offset mb + 1"
  have u: "unat ?i = (?o + Suc ?e) mod ?n" unfolding offset_next [OF i(1)] i(2) by (simp add: mod_Suc_eq)
  then have "?i < mb_size mb" using d(1) unfolding word_less_nat_alt by simp
  moreover have "mb_entry mb + 1 \<le> mb_size mb" using room e1 by (simp add: word_le_nat_alt)
  ultimately show "mb_ok (snd (mb_put v mb))" using u e1 ok unfolding r by (simp add: mb_ok_def del: if_split)
  have "(?o + x) mod ?n \<noteq> (?o + ?e) mod ?n" if "x < ?e" for x using ring_slots [OF that room, of ?o] by simp
  then show "mb_contents (snd (mb_put v mb)) = mb_contents mb @ [v]"
    unfolding r using e1 i(2) by (simp add: mb_contents_def)
qed

lemma mb_put_urgent_effect:
  assumes ok: "mb_ok mb" and room: "unat (mb_entry mb) < unat (mb_size mb)"
  shows "mb_ok (mb_put_urgent v mb)" "mb_contents (mb_put_urgent v mb) = v # mb_contents mb"
    "mb_size (mb_put_urgent v mb) = mb_size mb"
proof -
  let ?n = "unat (mb_size mb)" and ?e = "unat (mb_entry mb)"
  let ?w = "if out_offset mb > 0 then out_offset mb - 1 else mb_size mb - 1"
  note d = mb_okD [OF ok]
  have e1: "unat (mb_entry mb + 1) = Suc ?e" using room d(4) by (simp add: unat_add_no_wrap)
  have o: "Suc (unat ?w) mod ?n = unat (out_offset mb)" "?w < mb_size mb"
    using offset_prev [of "out_offset mb" "mb_size mb"] ok by (auto simp: mb_ok_def)
  have r: "mb_put_urgent v mb = mb\<lparr>msg_pool := (msg_pool mb)(unat ?w := v), out_offset := ?w, mb_entry := mb_entry mb + 1\<rparr>"
    by (simp add: mb_put_urgent_def Let_def)
  show "mb_size (mb_put_urgent v mb) = mb_size mb" unfolding r by simp
  have w: "unat ?w < ?n" using o(2) by (simp add: word_less_nat_alt)
  have s: "(unat ?w + Suc x) mod ?n = (unat (out_offset mb) + x) mod ?n" for x
    unfolding o(1) [symmetric] by (simp add: mod_add_left_eq)
  have "unat (in_offset mb) = (unat ?w + Suc ?e) mod ?n" using ok s [of ?e] by (simp add: mb_ok_def)
  then show "mb_ok (mb_put_urgent v mb)" using ok e1 room o(2) unfolding r
    by (simp add: mb_ok_def word_le_nat_alt del: if_split)
  have "(unat ?w + Suc x) mod ?n \<noteq> unat ?w" if "x < ?e" for x
    using ring_slots [of 0 "Suc x" ?n "unat ?w"] that room unfolding add_0_right mod_less [OF w] by linarith
  then show "mb_contents (mb_put_urgent v mb) = v # mb_contents mb"
    unfolding r using e1 w s by (simp add: mb_contents_def upt_conv_Cons map_Suc_upt [symmetric] del: if_split upt_Suc)
qed

lemma mb_get_effect:
  assumes ok: "mb_ok mb" and c: "mb_contents mb = v # vs"
  shows "fst (mb_get mb) = v" "mb_ok (snd (mb_get mb))" "mb_contents (snd (mb_get mb)) = vs"
    "mb_size (snd (mb_get mb)) = mb_size mb"
proof -
  let ?n = "unat (mb_size mb)" and ?o = "unat (out_offset mb)" and ?e = "unat (mb_entry mb)"
  let ?w = "if out_offset mb + 1 \<ge> mb_size mb then 0 else out_offset mb + 1"
  note d = mb_okD [OF ok]
  have e: "?e = Suc (length vs)" using d(5) c by simp
  have p: "0 < mb_entry mb" using e by (simp add: word_less_nat_alt)
  have e1: "unat (mb_entry mb - 1) = length vs" using p e by (simp add: unat_minus_one word_gt_0)
  have w: "unat ?w = Suc ?o mod ?n" using ok by (intro offset_next) (simp add: mb_ok_def)
  have wl: "?w < mb_size mb" using w d(1) unfolding word_less_nat_alt by simp
  have r: "mb_get mb = (msg_pool mb ?o, mb\<lparr>out_offset := ?w, mb_entry := mb_entry mb - 1\<rparr>)"
    using p by (simp add: mb_get_def Let_def)
  have s: "(unat ?w + x) mod ?n = (?o + Suc x) mod ?n" for x unfolding w by (simp add: mod_add_left_eq)
  have m: "mb_contents mb = msg_pool mb (?o mod ?n) # map (\<lambda>i. msg_pool mb ((?o + Suc i) mod ?n)) [0..<length vs]"
    unfolding mb_contents_def e by (simp add: upt_conv_Cons map_Suc_upt [symmetric] del: upt_Suc)
  show "fst (mb_get mb) = v" "mb_size (snd (mb_get mb)) = mb_size mb" using c d(2) unfolding r m by simp_all
  show "mb_contents (snd (mb_get mb)) = vs" using c e1 s unfolding r m by (simp add: mb_contents_def del: if_split)
  have "mb_entry mb - 1 \<le> mb_size mb" using d(3) e e1 by (simp add: word_le_nat_alt)
  moreover have "unat (in_offset mb) = (unat ?w + length vs) mod ?n" using ok e s by (simp add: mb_ok_def)
  ultimately show "mb_ok (snd (mb_get mb))" using ok wl e1 unfolding r by (simp add: mb_ok_def del: if_split)
qed

interpretation mbq: bounded_queue mb_ok mb_contents "\<lambda>mb. unat (mb_size mb)" "\<lambda>v mb. snd (mb_put v mb)"
  mb_get "\<lambda>_ _. True" "(=)" mb_put_urgent
  by unfold_locales (auto simp: mb_okD mb_put_effect mb_put_urgent_effect mb_get_effect)

section \<open>Refinement\<close>

definition mb_abs :: "addr \<Rightarrow> 'a ipc_scheme \<Rightarrow> u32 queue_spec" where
  "mb_abs a k = (mb_contents (mailbox k a), tlist k (Suspended a), tlist k (Senders a))"

lemma mb_full: "mb_ok mb \<Longrightarrow> mb_entry mb = mb_size mb \<longleftrightarrow> \<not> length (mb_contents mb) < unat (mb_size mb)"
  using mb_okD(3,5) [of mb] by (auto simp: word_unat_eq_iff)

lemma mb_empty: "mb_ok mb \<Longrightarrow> mb_entry mb = 0 \<longleftrightarrow> mb_contents mb = []"
  using mb_okD(5) [of mb] by (auto simp: mb_contents_def unat_eq_0)

lemma mb_upd_abs:
  assumes "kernel_inv k" "wait_list l"
  shows "mb_abs a (wake_one l (upd_mailbox a f k)) = (mb_contents (f (mailbox k a)),
    (if l = Suspended a then tl else id) (tlist k (Suspended a)), (if l = Senders a then tl else id) (tlist k (Senders a)))"
    "mailbox (wake_one l (upd_mailbox a f k)) a = f (mailbox k a)" "kernel_inv (wake_one l (upd_mailbox a f k))"
proof -
  note w = wake_one_effect [OF upd_ipc_inv(4) [OF assms(1), of a f] assms(2)]
  show m: "mailbox (wake_one l (upd_mailbox a f k)) a = f (mailbox k a)" using ipc_more_sel(4) [OF w(4)] by simp
  show "mb_abs a (wake_one l (upd_mailbox a f k)) = (mb_contents (f (mailbox k a)),
    (if l = Suspended a then tl else id) (tlist k (Suspended a)), (if l = Senders a then tl else id) (tlist k (Senders a)))"
    using w(2) w(3) [of "Suspended a"] w(3) [of "Senders a"] by (auto simp: mb_abs_def m)
  show "kernel_inv (wake_one l (upd_mailbox a f k))" by (rule w(1))
qed

lemma mb_wait_abs:
  fixes timeout :: int and tick_delta :: u32
  assumes k: "kernel_inv k" and t: "tstat k t = 3" and f: "flag \<in> {0, 1}" and l: "wait_list l"
  defines "(r :: u32 outcome \<times> 'a ipc_scheme) \<equiv> queue_wait l t flag timeout tick_delta (upd_thread t (\<lambda>th. th\<lparr>error := 0\<rparr>) k)"
  shows "mb_abs a (snd r) = (mb_contents (mailbox k a),
     (if l = Suspended a then wait_place flag (prio k) t else id) (tlist k (Suspended a)),
     (if l = Senders a then wait_place flag (prio k) t else id) (tlist k (Senders a)))"
    "mailbox (snd r) = mailbox k" "kernel_inv (snd r)" "fst r = Blocks timeout (if timeout > 0 then rt_tick k else tick_delta)"
proof -
  note q = queue_wait_effect [OF k t l f, where timeout = timeout and tick_delta = tick_delta]
  show m: "mailbox (snd r) = mailbox k" unfolding r_def by (rule ipc_more_sel(4) [OF q(5)])
  have "tlist (snd r) l = wait_place flag (prio k) t (tlist k l)" unfolding r_def by (rule q(2))
  moreover have "tlist (snd r) m = tlist k m" if "wait_list m" "m \<noteq> l" for m unfolding r_def by (rule q(4) [OF that])
  ultimately show "mb_abs a (snd r) = (mb_contents (mailbox k a),
     (if l = Suspended a then wait_place flag (prio k) t else id) (tlist k (Suspended a)),
     (if l = Senders a then wait_place flag (prio k) t else id) (tlist k (Senders a)))"
    by (auto simp: mb_abs_def m)
  show "kernel_inv (snd r)" "fst r = Blocks timeout (if timeout > 0 then rt_tick k else tick_delta)"
    unfolding r_def by (rule q(1), rule q(6))
qed

lemma rt_mb_send_wait_effect:
  assumes k: "kernel_inv k" and ok: "mb_ok (mailbox k a)" and c: "rt_current_thread k = Some t" "tstat k t = 3"
    and f: "ipc_flag k a \<in> {0, 1}"
  shows "case rt_mb_send_wait a v timeout k of (r, k') \<Rightarrow>
    (r, mb_abs a k') = send_spec (unat (mb_size (mailbox k a))) (wait_place (ipc_flag k a) (prio k) t) timeout (rt_tick k) v (mb_abs a k)
    \<and> kernel_inv k' \<and> mb_ok (mailbox k' a) \<and> mb_size (mailbox k' a) = mb_size (mailbox k a)"
proof (cases "length (mb_contents (mailbox k a)) < unat (mb_size (mailbox k a))")
  case True
  then have e: "unat (mb_entry (mailbox k a)) < unat (mb_size (mailbox k a))" using mb_okD(5) [OF ok] by simp
  note p = mb_put_effect [OF ok e, of v]
  have "rt_mb_send_wait a v timeout k
      = (Returns 0 None, wake_one (Suspended a) (upd_mailbox a (\<lambda>_. snd (mb_put v (mailbox k a))) k))"
    using True p(1) mb_full [OF ok]
    by (auto simp: rt_mb_send_wait_def mb_send_loop_def wake_one_def Let_def split: prod.split)
  then show ?thesis using True p mb_upd_abs [OF k, of "Suspended a" a] by (simp add: mb_abs_def [of a k])
next
  case False
  then have full: "mb_entry (mailbox k a) = mb_size (mailbox k a)" using mb_full [OF ok] by simp
  show ?thesis
  proof (cases "timeout = 0")
    case True
    then show ?thesis using full False k ok by (simp add: rt_mb_send_wait_def mb_abs_def)
  next
    case nz: False
    let ?q = "queue_wait (Senders a) t (ipc_flag k a) timeout 0 (upd_thread t (\<lambda>th. th\<lparr>error := 0\<rparr>) k)"
    have "rt_mb_send_wait a v timeout k = ?q"
      using full nz c(1) by (simp add: rt_mb_send_wait_def mb_send_loop_def rt_thread_self_def)
    then show ?thesis using False nz ok mb_wait_abs(2-4) [OF k c(2) f wait_list_simps(2) [of a], where timeout = timeout and tick_delta = 0]
        mb_wait_abs(1) [OF k c(2) f wait_list_simps(2) [of a], where timeout = timeout and tick_delta = 0 and a = a]
      by (simp add: mb_abs_def [of a k] case_prod_beta)
  qed
qed

lemma rt_mb_urgent_effect:
  assumes k: "kernel_inv k" and ok: "mb_ok (mailbox k a)"
  shows "case rt_mb_urgent a v k of (r, k') \<Rightarrow>
    (r, mb_abs a k') = urgent_spec (unat (mb_size (mailbox k a))) v (mb_abs a k)
    \<and> kernel_inv k' \<and> mb_ok (mailbox k' a) \<and> mb_size (mailbox k' a) = mb_size (mailbox k a)"
proof (cases "length (mb_contents (mailbox k a)) < unat (mb_size (mailbox k a))")
  case True
  then have e: "unat (mb_entry (mailbox k a)) < unat (mb_size (mailbox k a))" using mb_okD(5) [OF ok] by simp
  have "rt_mb_urgent a v k = (0, wake_one (Suspended a) (upd_mailbox a (mb_put_urgent v) k))"
    using True mb_full [OF ok] by (simp add: rt_mb_urgent_def wake_one_def Let_def)
  then show ?thesis using True mb_put_urgent_effect [OF ok e, of v] mb_upd_abs [OF k, of "Suspended a" a]
    by (simp add: mb_abs_def [of a k])
next
  case False
  then show ?thesis using k ok mb_full [OF ok] by (simp add: rt_mb_urgent_def mb_abs_def)
qed

lemma rt_mb_recv_effect:
  assumes k: "kernel_inv k" and ok: "mb_ok (mailbox k a)" and c: "rt_current_thread k = Some t" "tstat k t = 3"
    and f: "ipc_flag k a \<in> {0, 1}"
  shows "case rt_mb_recv a timeout k of (r, k') \<Rightarrow>
    (r, mb_abs a k') = recv_spec (wait_place (ipc_flag k a) (prio k) t) timeout (rt_tick k) (mb_abs a k)
    \<and> kernel_inv k' \<and> mb_ok (mailbox k' a) \<and> mb_size (mailbox k' a) = mb_size (mailbox k a)"
proof (cases "mb_contents (mailbox k a)")
  case (Cons v vs)
  note g = mb_get_effect [OF ok Cons]
  have "rt_mb_recv a timeout k
      = (Returns 0 (Some v), wake_one (Senders a) (upd_mailbox a (\<lambda>_. snd (mb_get (mailbox k a))) k))"
    using Cons g(1) mb_empty [OF ok] by (auto simp: rt_mb_recv_def mb_recv_loop_def wake_one_def Let_def split: prod.split)
  then show ?thesis using Cons g mb_upd_abs [OF k, of "Senders a" a] by (simp add: mb_abs_def [of a k])
next
  case Nil
  then have e: "mb_entry (mailbox k a) = 0" using mb_empty [OF ok] by simp
  show ?thesis
  proof (cases "timeout = 0")
    case True
    then show ?thesis using e Nil k ok by (simp add: rt_mb_recv_def mb_abs_def)
  next
    case False
    let ?q = "queue_wait (Suspended a) t (ipc_flag k a) timeout 0 (upd_thread t (\<lambda>th. th\<lparr>error := 0\<rparr>) k)"
    have "rt_mb_recv a timeout k = ?q"
      using e False c(1) by (simp add: rt_mb_recv_def mb_recv_loop_def rt_thread_self_def)
    then show ?thesis using Nil False ok mb_wait_abs(2-4) [OF k c(2) f wait_list_simps(1) [of a], where timeout = timeout and tick_delta = 0]
        mb_wait_abs(1) [OF k c(2) f wait_list_simps(1) [of a], where timeout = timeout and tick_delta = 0 and a = a]
      by (simp add: mb_abs_def [of a k] case_prod_beta)
  qed
qed

section \<open>Without waiters\<close>

lemma rt_mb_send_quiet:
  assumes "mb_ok (mailbox k a)" "length (mb_contents (mailbox k a)) < unat (mb_size (mailbox k a))" "tlist k (Suspended a) = []"
  shows "rt_mb_send a v k = (Returns 0 None, upd_mailbox a (\<lambda>mb. snd (mb_put v mb)) k)"
proof -
  have "fst (mb_put v (mailbox k a)) = 0" using mb_put_effect(1) [OF assms(1)] mb_okD(5) [OF assms(1)] assms(2) by simp
  then show ?thesis using assms mb_full [OF assms(1)]
    by (auto simp: rt_mb_send_def rt_mb_send_wait_def mb_send_loop_def upd_mailbox_def Let_def split: prod.split)
qed

lemma rt_mb_recv_quiet:
  assumes "mb_ok (mailbox k a)" "mb_contents (mailbox k a) \<noteq> []" "tlist k (Senders a) = []"
  shows "rt_mb_recv a timeout k = (Returns 0 (Some (fst (mb_get (mailbox k a)))), upd_mailbox a (\<lambda>mb. snd (mb_get mb)) k)"
  using assms mb_empty [OF assms(1)]
  by (auto simp: rt_mb_recv_def mb_recv_loop_def upd_mailbox_def Let_def split: prod.split)

lemma upd_mailbox_twice: "upd_mailbox a f (upd_mailbox a g k) = upd_mailbox a (\<lambda>mb. f (g mb)) k"
  by (simp add: upd_mailbox_def)

lemma mb_send_many:
  assumes "mb_ok (mailbox k a)" "tlist k (Suspended a) = []"
    and "length (mb_contents (mailbox k a)) + length vs \<le> unat (mb_size (mailbox k a))"
  shows "fold (\<lambda>v k. snd (rt_mb_send a v k)) vs k = upd_mailbox a (fold (\<lambda>v mb. snd (mb_put v mb)) vs) k"
  using assms
proof (induction vs arbitrary: k)
  case Nil
  then show ?case by (simp add: upd_mailbox_def id_def)
next
  case (Cons v vs)
  let ?k = "upd_mailbox a (\<lambda>mb. snd (mb_put v mb)) k"
  have s: "snd (rt_mb_send a v k) = ?k" using rt_mb_send_quiet [OF Cons.prems(1) _ Cons.prems(2), of v] Cons.prems(3) by simp
  have "mb_ok (mailbox ?k a) \<and> mb_contents (mailbox ?k a) = mb_contents (mailbox k a) @ [v]
      \<and> mb_size (mailbox ?k a) = mb_size (mailbox k a)"
    using mb_put_effect(2-4) [OF Cons.prems(1), of v] mb_okD(5) [OF Cons.prems(1)] Cons.prems(3) by simp
  then show ?case using Cons.IH [of ?k] Cons.prems s by (simp add: upd_mailbox_twice)
qed

lemma mb_recv_many:
  assumes "mb_ok (mailbox k a)" "tlist k (Senders a) = []" "n \<le> length (mb_contents (mailbox k a))"
  shows "fst (get_many (rt_mb_recv a timeout) n k) = map (\<lambda>v. Returns 0 (Some v)) (fst (get_many mb_get n (mailbox k a)))"
  using assms
proof (induction n arbitrary: k)
  case (Suc n)
  let ?k = "upd_mailbox a (\<lambda>mb. snd (mb_get mb)) k"
  obtain v vs where c: "mb_contents (mailbox k a) = v # vs" using Suc.prems(3) by (cases "mb_contents (mailbox k a)") auto
  note g = mb_get_effect [OF Suc.prems(1) c]
  have "rt_mb_recv a timeout k = (Returns 0 (Some (fst (mb_get (mailbox k a)))), ?k)"
    using rt_mb_recv_quiet [OF Suc.prems(1) _ Suc.prems(2)] c by simp
  then show ?case using Suc.IH [of ?k] Suc.prems g c by (simp add: case_prod_beta)
qed simp

lemma rt_mb_init_effect:
  assumes "0 < sz" "sz < 0x10000"
  shows "mb_ok (mailbox (rt_mb_init a name pool sz flag k) a)" "mb_contents (mailbox (rt_mb_init a name pool sz flag k) a) = []"
    "unat (mb_size (mailbox (rt_mb_init a name pool sz flag k) a)) = unat sz"
    "tlist (rt_mb_init a name pool sz flag k) (Suspended a) = []" "tlist (rt_mb_init a name pool sz flag k) (Senders a) = []"
proof -
  have m: "mailbox (rt_mb_init a name pool sz flag k) a
      = (mailbox k a)\<lparr>mb_size := ucast sz, msg_pool := pool, mb_entry := 0, in_offset := 0, out_offset := 0\<rparr>"
    by (simp add: rt_mb_init_def mb_setup_def upd_mailbox_def Let_def)
  have u: "unat (ucast sz :: u16) = unat sz" using assms(2) by (simp add: unsigned_ucast_eq take_bit_nat_eq_self word_less_nat_alt)
  then show "unat (mb_size (mailbox (rt_mb_init a name pool sz flag k) a)) = unat sz" unfolding m by simp
  have "(0 :: u16) < ucast sz" using u assms(1) by (simp add: word_less_nat_alt)
  then show "mb_ok (mailbox (rt_mb_init a name pool sz flag k) a)" unfolding m by (simp add: mb_ok_def)
  show "mb_contents (mailbox (rt_mb_init a name pool sz flag k) a) = []" unfolding m by (simp add: mb_contents_def)
  show "tlist (rt_mb_init a name pool sz flag k) (Suspended a) = []" "tlist (rt_mb_init a name pool sz flag k) (Senders a) = []"
    by (simp_all add: rt_mb_init_def mb_setup_def ipc_object_init_def Let_def)
qed

section \<open>Properties\<close>

text \<open>
  C9. Mailboxes refine a bounded queue with waiting receivers and senders: on every consistent state
  \<open>rt_mb_send_wait\<close>, \<open>rt_mb_urgent\<close> and \<open>rt_mb_recv\<close> by the running thread return what the
  specification returns and leave its contents and its two wait lists; they keep the offsets of
  the ring in range and the kernel consistent.
\<close>

theorem rt_mb_refines:
  assumes "kernel_inv k" "mb_ok (mailbox k a)" "rt_current_thread k = Some t" "tstat k t = RT_THREAD_RUNNING"
    and "ipc_flag k a \<in> {RT_IPC_FLAG_FIFO, RT_IPC_FLAG_PRIO}"
  shows "(case rt_mb_send_wait a v timeout k of (r, k') \<Rightarrow>
      (r, mb_abs a k') = send_spec (unat (mb_size (mailbox k a))) (wait_place (ipc_flag k a) (prio k) t) timeout (rt_tick k) v (mb_abs a k)
      \<and> kernel_inv k' \<and> mb_ok (mailbox k' a) \<and> mb_size (mailbox k' a) = mb_size (mailbox k a))
    \<and> (case rt_mb_urgent a v k of (r, k') \<Rightarrow>
      (r, mb_abs a k') = urgent_spec (unat (mb_size (mailbox k a))) v (mb_abs a k)
      \<and> kernel_inv k' \<and> mb_ok (mailbox k' a) \<and> mb_size (mailbox k' a) = mb_size (mailbox k a))
    \<and> (case rt_mb_recv a timeout k of (r, k') \<Rightarrow>
      (r, mb_abs a k') = recv_spec (wait_place (ipc_flag k a) (prio k) t) timeout (rt_tick k) (mb_abs a k)
      \<and> kernel_inv k' \<and> mb_ok (mailbox k' a) \<and> mb_size (mailbox k' a) = mb_size (mailbox k a))"
  using rt_mb_send_wait_effect [OF assms, where v = v and timeout = timeout] rt_mb_urgent_effect [OF assms(1,2), of v]
    rt_mb_recv_effect [OF assms, of timeout] by (intro conjI)

definition example_mb :: ipc where
  "example_mb = upd_mailbox 4 (\<lambda>_. \<lparr>msg_pool = (\<lambda>_. 0), mb_size = 2, mb_entry = 0, in_offset = 1, out_offset = 1\<rparr>) example_ipc"

theorem rt_mb_refines_witness:
  "mb_abs 4 (snd (rt_mb_send_wait 4 7 0 example_mb)) = ([7], [], [])
    \<and> mb_abs 4 (snd (rt_mb_recv 4 (- 1) example_mb)) = ([], [1], [])"
proof -
  have f: "ipc_flag example_mb 4 = 0"
    using fun_cong [OF example_ipc_sel(6), of 4] unfolding ipc_flag_def example_mb_def by simp
  have k: "kernel_inv example_mb" "tstat example_mb 1 = 3" "rt_current_thread example_mb = Some 1"
    "mb_ok (mailbox example_mb 4)" "mb_abs 4 example_mb = ([], [], [])" "mb_size (mailbox example_mb 4) = 2"
    by (simp_all add: example_mb_def upd_ipc_inv mb_ok_def mb_abs_def mb_contents_def)
  show ?thesis using rt_mb_refines [OF k(1,4,3,2), where v = 7 and timeout = 0]
      rt_mb_refines [OF k(1,4,3,2), where v = 7 and timeout = "- 1"]
    by (simp add: f k(5,6) wait_place_def case_prod_beta)
qed

text \<open>
  First in, first out: after \<open>rt_mb_init\<close> with a size between 1 and 65535, as many values
  as fit sent with \<open>rt_mb_send\<close> are returned by as many calls of \<open>rt_mb_recv\<close> in the order in which
  they were sent.
\<close>

theorem rt_mb_fifo:
  assumes "0 < sz" "sz < 0x10000" "length vs \<le> unat sz"
  shows "fst (get_many (rt_mb_recv a timeout) (length vs)
      (fold (\<lambda>v k. snd (rt_mb_send a v k)) vs (rt_mb_init a name pool sz flag k)))
    = map (\<lambda>v. Returns RT_EOK (Some v)) vs"
proof -
  let ?k = "rt_mb_init a name pool sz flag k"
  note i = rt_mb_init_effect [OF assms(1,2), of a name pool flag k]
  have "list_all2 (=) (fst (get_many mb_get (length vs) (fold (\<lambda>v mb. snd (mb_put v mb)) vs (mailbox ?k a)))) vs"
    by (rule mbq.first_in_first_out) (use i assms(3) in simp_all)
  moreover have "mb_ok (fold (\<lambda>v mb. snd (mb_put v mb)) vs (mailbox ?k a))
      \<and> mb_contents (fold (\<lambda>v mb. snd (mb_put v mb)) vs (mailbox ?k a)) = vs"
    using mbq.put_many [of "mailbox ?k a" vs] i assms(3) by (auto simp: list.rel_eq)
  ultimately show ?thesis using i assms(3) mb_send_many [of ?k a vs]
    by (simp add: mb_recv_many list.rel_eq)
qed

theorem rt_mb_fifo_witness:
  "fst (get_many (rt_mb_recv 4 0) 2 (fold (\<lambda>v k. snd (rt_mb_send 4 v k)) [5, 6]
     (rt_mb_init 4 [109, 98, 0] (\<lambda>_. 0) 2 0 example_ipc))) = [Returns 0 (Some 5), Returns 0 (Some 6)]"
proof -
  have "fst (get_many (rt_mb_recv 4 0) (length [5, 6 :: u32]) (fold (\<lambda>v k. snd (rt_mb_send 4 v k)) [5, 6]
      (rt_mb_init 4 [109, 98, 0] (\<lambda>_. 0) 2 0 example_ipc))) = map (\<lambda>v. Returns 0 (Some v)) [5, 6]"
    by (rule rt_mb_fifo) simp_all
  then show ?thesis by (simp add: numeral_2_eq_2)
qed

text \<open>Blocking with a timeout arms the thread's timer to expire exactly \<open>timeout\<close> ticks from now.\<close>

lemma queue_wait_timer:
  fixes timeout :: int and tick_delta :: u32
  assumes "kernel_inv k" "tstat k t = 3" "wait_list l" "flag \<in> {0, 1}" "0 < timeout"
  defines "k' \<equiv> snd (queue_wait l t flag timeout tick_delta (upd_thread t (\<lambda>th. th\<lparr>error := 0\<rparr>) k))"
  shows "Thread_timer t \<in> set (timer_row k' Hard)" "timeout_tick (timer k' (Thread_timer t)) = rt_tick k + of_int timeout"
    "rt_tick k' = rt_tick k"
proof -
  let ?k = "upd_thread t (\<lambda>th. th\<lparr>error := 0\<rparr>) k"
  let ?s = "ipc_list_suspend l t flag ?k"
  note e = set_error_inv [OF assms(1), of t 0]
  have e3: "tstat ?k t = 3" using e(2) assms(2) by simp
  have k': "k' = rt_schedule (ipc_wait l t flag timeout ?k)" by (simp add: k'_def queue_wait_def)
  show "Thread_timer t \<in> set (timer_row k' Hard)"
    using ipc_wait_effect(5) [OF e(1) e3 assms(3,4,5)] by (simp add: k')
  have st: "timer ?s = timer k" "rt_tick ?s = rt_tick k"
    by (simp_all add: ipc_list_suspend_def Let_def)
  have s1: "timer (rt_timer_start x j) = (timer j)(x := (timer j x)\<lparr>timeout_tick := rt_tick j + timer_init_tick (timer j x)\<rparr>)"
    "rt_tick (rt_timer_start x j) = rt_tick j" for x and j :: "'a kernel_scheme"
    by (simp_all add: rt_timer_start_def Let_def rt_thread_resume_def)
  show "timeout_tick (timer k' (Thread_timer t)) = rt_tick k + of_int timeout" "rt_tick k' = rt_tick k"
    using assms(5) by (simp_all add: k' ipc_wait_def wait_timer_def s1 st) (simp_all add: rt_timer_control_def st)
qed

text \<open>
  C37. A sender that is woken and finds the mailbox full again does not wait longer than it asked
  for: \<open>e\<close> ticks after it started to wait it gives up with \<open>-RT_EFULL\<close> when its timeout is used up;
  otherwise it is suspended again, on the list of senders, with its timer running and due exactly
  \<open>timeout\<close> ticks after it started, also when the tick counter has wrapped around in between.
\<close>

theorem rt_mb_send_deadline:
  assumes "kernel_inv k" "rt_current_thread k = Some t" "tstat k t = RT_THREAD_RUNNING"
    and "ipc_flag k a \<in> {RT_IPC_FLAG_FIFO, RT_IPC_FLAG_PRIO}"
    and "mb_entry (mailbox k a) = mb_size (mailbox k a)" "error (thread k t) = RT_EOK"
    and "0 < timeout" "timeout < 2 ^ 31" "rt_tick k = start + of_nat e" "e < 2 ^ 31"
    and "rt_mb_send_wait_resumed a v t timeout start k = (r, k')"
  shows "if timeout \<le> int e then r = Returns (- RT_EFULL) None \<and> tstat k' t = RT_THREAD_RUNNING
    else r = Blocks (timeout - int e) (rt_tick k) \<and> tstat k' t = RT_THREAD_SUSPEND \<and> t \<in> set (tlist k' (Senders a))
      \<and> Thread_timer t \<in> set (timer_row k' Hard) \<and> timeout_tick (timer k' (Thread_timer t)) = start + of_int timeout"
proof -
  have left: "timeout_left timeout start k = max 0 (timeout - int e)" by (rule timeout_left_bounds [OF assms(7-10)])
  have eq: "(r, k') = (if timeout \<le> int e then (Returns (- RT_EFULL) None, upd_thread t (\<lambda>th. th\<lparr>error := 0\<rparr>) k)
      else queue_wait (Senders a) t (ipc_flag k a) (timeout - int e) (rt_tick k - start) (upd_thread t (\<lambda>th. th\<lparr>error := 0\<rparr>) k))"
    using assms(5,6,7) left unfolding assms(11) [symmetric]
    by (simp add: rt_mb_send_wait_resumed_def mb_send_loop_def rt_tick_get_def max_def)
  show ?thesis
  proof (cases "timeout \<le> int e")
    case True
    then show ?thesis using eq set_error_inv(2) [OF assms(1), of t 0] assms(3) by simp
  next
    case False
    then have left: "0 < timeout - int e" by simp
    have q: "(r, k') = queue_wait (Senders a) t (ipc_flag k a) (timeout - int e) (rt_tick k - start)
        (upd_thread t (\<lambda>th. th\<lparr>error := 0\<rparr>) k)" using eq False by simp
    note w = queue_wait_effect [OF assms(1,3) wait_list_simps(2) assms(4)]
    have "tlist (snd (r, k')) (Senders a) = wait_place (ipc_flag k a) (prio k) t (tlist k (Senders a))"
      "tstat (snd (r, k')) t = 2" unfolding q by (rule w(2,3))+
    moreover have "fst (r, k') = Blocks (timeout - int e) (if 0 < timeout - int e then rt_tick k else rt_tick k - start)"
      unfolding q by (rule w(6))
    moreover have "Thread_timer t \<in> set (timer_row (snd (r, k')) Hard)"
      "timeout_tick (timer (snd (r, k')) (Thread_timer t)) = rt_tick k + of_int (timeout - int e)"
      unfolding q by (rule queue_wait_timer [OF assms(1,3) wait_list_simps(2) assms(4) left])+
    moreover have "rt_tick k + of_int (timeout - int e) = start + of_int timeout" using assms(9) by simp
    ultimately show ?thesis using False left by (simp add: wait_place_def)
  qed
qed

theorem rt_mb_send_deadline_witness:
  "case rt_mb_send_wait_resumed 4 9 1 5 0xFFFFFFFF (example_ipc\<lparr>rt_tick := 2\<rparr>) of (r, k') \<Rightarrow>
     r = Blocks 2 2 \<and> Thread_timer 1 \<in> set (timer_row k' Hard) \<and> timeout_tick (timer k' (Thread_timer 1)) = 4"
proof -
  let ?k = "example_ipc\<lparr>rt_tick := 2\<rparr>"
  have e: "error (thread ?k 1) = 0" "mb_entry (mailbox ?k 4) = mb_size (mailbox ?k 4)" "ipc_flag ?k 4 \<in> {0, 1}"
    "tstat ?k 1 = 3" "rt_current_thread ?k = Some 1"
    by (simp_all add: example_ipc_def example_running_def example_kernel_def boot_kernel_def idle_ipc_def started_thread_def zero_thread_def
      tstat_def ipc_flag_def zero_object_def)
  have "kernel_inv example_ipc" by simp
  then have i: "kernel_inv ?k"
    using sched_inv_cong [of ?k example_ipc] timer_inv_cong [of example_ipc ?k]
    by (simp add: kernel_inv_def timer_flag_def tstat_def prio_def fun_eq_iff)
  obtain r k' where r: "rt_mb_send_wait_resumed 4 9 1 5 0xFFFFFFFF ?k = (r, k')" by fastforce
  show ?thesis using rt_mb_send_deadline [OF i e(5,4,3,2,1), of 5 "0xFFFFFFFF" 3 9 r k'] r by simp
qed

end
