(* ===== verification/Ipc_Mq.thy ===== *)
theory Ipc_Mq
  imports Ipc_Queue
begin

text \<open>
  Message queues (\<^verbatim>\<open>rt_mq_*\<close> of \<^verbatim>\<open>rt-thread/src/ipc.c\<close>): a pool of nodes, each a link and
  \<open>msg_size\<close> bytes, on a free list or in the queue. A node is named by its index in the pool. The
  code enables interrupts while it copies a message, so a node can be on neither list; the
  pieces between these points are separate definitions, composed to the operations here and
  interleaved by \<open>mq_step\<close> below.
\<close>

section \<open>The pool\<close>

text \<open>The loop that threads the free list through the pool.\<close>

definition mq_free_node :: "nat \<Rightarrow> rt_messagequeue \<Rightarrow> rt_messagequeue" where
  "mq_free_node m q = q\<lparr>mq_next := (mq_next q)(m := msg_queue_free q), msg_queue_free := Some m\<rparr>"

definition mq_pool_init :: "rt_messagequeue \<Rightarrow> rt_messagequeue" where
  "mq_pool_init q =
     (let q = q\<lparr>msg_queue_head := None, msg_queue_tail := None, msg_queue_free := None\<rparr>;
          q = fold mq_free_node [0..<unat (max_msgs q)] q
      in q\<lparr>mq_entry := 0\<rparr>)"

text \<open>Taking a free node, copying the message into it, and putting it into the queue.\<close>

definition mq_take_free :: "nat \<Rightarrow> rt_messagequeue \<Rightarrow> rt_messagequeue" where
  "mq_take_free m q = q\<lparr>msg_queue_free := mq_next q m\<rparr>"

definition mq_clear_next :: "nat \<Rightarrow> rt_messagequeue \<Rightarrow> rt_messagequeue" where
  "mq_clear_next m q = q\<lparr>mq_next := (mq_next q)(m := None)\<rparr>"

definition mq_copy_in :: "nat \<Rightarrow> u8 list \<Rightarrow> rt_messagequeue \<Rightarrow> rt_messagequeue" where
  "mq_copy_in m buffer q = q\<lparr>mq_data := (mq_data q)(m := buffer @ drop (length buffer) (mq_data q m))\<rparr>"

definition mq_count :: "rt_messagequeue \<Rightarrow> rt_err \<times> rt_messagequeue" where
  "mq_count q = (if mq_entry q < 0xFFFF then (RT_EOK, q\<lparr>mq_entry := mq_entry q + 1\<rparr>) else (- RT_EFULL, q))"

definition mq_append :: "nat \<Rightarrow> rt_messagequeue \<Rightarrow> rt_err \<times> rt_messagequeue" where
  "mq_append m q =
     (let q = (case msg_queue_tail q of
                 None \<Rightarrow> q
               | Some l \<Rightarrow> q\<lparr>mq_next := (mq_next q)(l := Some m)\<rparr>);
          q = q\<lparr>msg_queue_tail := Some m\<rparr>;
          q = (if msg_queue_head q = None then q\<lparr>msg_queue_head := Some m\<rparr> else q)
      in mq_count q)"

definition mq_push :: "nat \<Rightarrow> rt_messagequeue \<Rightarrow> rt_err \<times> rt_messagequeue" where
  "mq_push m q =
     (let q = q\<lparr>mq_next := (mq_next q)(m := msg_queue_head q)\<rparr>;
          q = q\<lparr>msg_queue_head := Some m\<rparr>;
          q = (if msg_queue_tail q = None then q\<lparr>msg_queue_tail := Some m\<rparr> else q)
      in mq_count q)"

text \<open>Taking the head of the queue and giving its node back.\<close>

definition mq_take_head :: "nat \<Rightarrow> rt_messagequeue \<Rightarrow> rt_messagequeue" where
  "mq_take_head m q =
     (let q = q\<lparr>msg_queue_head := mq_next q m\<rparr>;
          q = (if msg_queue_tail q = Some m then q\<lparr>msg_queue_tail := None\<rparr> else q)
      in if mq_entry q > 0 then q\<lparr>mq_entry := mq_entry q - 1\<rparr> else q)"

definition mq_copy_out :: "nat \<Rightarrow> nat \<Rightarrow> rt_messagequeue \<Rightarrow> u8 list" where
  "mq_copy_out m sz q = take (if sz > unat (msg_size q) then unat (msg_size q) else sz) (mq_data q m)"

section \<open>Operations\<close>

text \<open>\<open>mem\<close> is the memory of the pool.\<close>

definition mq_setup :: "addr \<Rightarrow> (nat \<Rightarrow> u8 list) \<Rightarrow> 'a ipc_scheme \<Rightarrow> 'a ipc_scheme" where
  "mq_setup a mem k =
     (let k = upd_mq a (\<lambda>q. mq_pool_init (q\<lparr>mq_data := mem\<rparr>)) k
      in k\<lparr>tlist := (tlist k)(Senders a := [])\<rparr>)"

definition rt_mq_init :: "addr \<Rightarrow> cstring \<Rightarrow> (nat \<Rightarrow> u8 list) \<Rightarrow> u32 \<Rightarrow> u32 \<Rightarrow> u8 \<Rightarrow> 'a ipc_scheme \<Rightarrow> 'a ipc_scheme" where
  "rt_mq_init a name mem msz pool_size flag k =
     (let k = rt_object_init (Ipc_obj a) RT_Object_Class_MessageQueue name k;
          k = ipc_object_init a (set_ipc_flag a flag k);
          k = upd_mq a (\<lambda>q. q\<lparr>msg_size := ucast (RT_ALIGN msz RT_ALIGN_SIZE)\<rparr>) k;
          k = upd_mq a (\<lambda>q. q\<lparr>max_msgs := ucast (pool_size div (ucast (msg_size q) + 4))\<rparr>) k
      in mq_setup a mem k)"

definition rt_mq_detach :: "addr \<Rightarrow> 'a ipc_scheme \<Rightarrow> 'a ipc_scheme option" where
  "rt_mq_detach a k =
     map_option (rt_object_detach (Ipc_obj a))
       (Option.bind (ipc_list_resume_all (Suspended a) k) (ipc_list_resume_all (Senders a)))"

definition rt_mq_create :: "obj_id option \<Rightarrow> (nat \<Rightarrow> u8 list) option \<Rightarrow> cstring \<Rightarrow> u32 \<Rightarrow> u32 \<Rightarrow> u8 \<Rightarrow> 'a ipc_scheme \<Rightarrow> addr option \<times> 'a ipc_scheme" where
  "rt_mq_create mem pool name msz max_n flag k =
     (case rt_object_allocate mem RT_Object_Class_MessageQueue name k of
        (Some (Ipc_obj a), k) \<Rightarrow>
          let k = ipc_object_init a (set_ipc_flag a flag k);
              k = upd_mq a (\<lambda>q. q\<lparr>msg_size := ucast (RT_ALIGN msz RT_ALIGN_SIZE), max_msgs := ucast max_n\<rparr>) k
          in (case pool of
                None \<Rightarrow> (None, rt_object_delete (Ipc_obj a) k)
              | Some p \<Rightarrow> (Some a, mq_setup a p k))
      | (_, k) \<Rightarrow> (None, k))"

definition rt_mq_delete :: "addr \<Rightarrow> 'a ipc_scheme \<Rightarrow> 'a ipc_scheme option" where
  "rt_mq_delete a k =
     map_option (rt_object_delete (Ipc_obj a))
       (Option.bind (ipc_list_resume_all (Suspended a) k) (ipc_list_resume_all (Senders a)))"

text \<open>\<open>buffer\<close> is the caller's message, \<open>size\<close> its length.\<close>

definition mq_send_loop :: "addr \<Rightarrow> u8 list \<Rightarrow> tid option \<Rightarrow> int \<Rightarrow> u32 \<Rightarrow> 'a ipc_scheme \<Rightarrow> u8 list outcome \<times> 'a ipc_scheme" where
  "mq_send_loop a buffer self timeout tick_delta k =
     (case msg_queue_free (messagequeue k a) of
        None \<Rightarrow>
          (case self of
             None \<Rightarrow> (Faults, k)
           | Some t \<Rightarrow>
               let k = upd_thread t (\<lambda>th. th\<lparr>error := RT_EOK\<rparr>) k
               in if timeout = 0 then (Returns (- RT_EFULL) None, k)
                  else queue_wait (Senders a) t (ipc_flag k a) timeout tick_delta k)
      | Some m \<Rightarrow>
          let k = upd_mq a (mq_take_free m) k;
              k = upd_mq a (\<lambda>q. mq_copy_in m buffer (mq_clear_next m q)) k
          in case mq_append m (messagequeue k a) of (err, q) \<Rightarrow>
               let k = upd_mq a (\<lambda>_. q) k
               in if err \<noteq> RT_EOK then (Returns err None, k)
                  else if tlist k (Suspended a) \<noteq> [] then (Returns RT_EOK None, rt_schedule (ipc_list_resume (Suspended a) k))
                  else (Returns RT_EOK None, k))"

definition rt_mq_send_wait :: "addr \<Rightarrow> u8 list \<Rightarrow> int \<Rightarrow> 'a ipc_scheme \<Rightarrow> u8 list outcome \<times> 'a ipc_scheme" where
  "rt_mq_send_wait a buffer timeout k =
     (if length buffer > unat (msg_size (messagequeue k a)) then (Returns (- RT_ERROR) None, k)
      else if msg_queue_free (messagequeue k a) = None \<and> timeout = 0 then (Returns (- RT_EFULL) None, k)
      else mq_send_loop a buffer (rt_thread_self k) timeout 0 k)"

definition rt_mq_send_wait_resumed :: "addr \<Rightarrow> u8 list \<Rightarrow> tid \<Rightarrow> int \<Rightarrow> u32 \<Rightarrow> 'a ipc_scheme \<Rightarrow> u8 list outcome \<times> 'a ipc_scheme" where
  "rt_mq_send_wait_resumed a buffer t timeout tick_delta k =
     (if error (thread k t) \<noteq> RT_EOK then (Returns (error (thread k t)) None, k)
      else mq_send_loop a buffer (Some t) (timeout_left timeout tick_delta k)
        (if timeout > 0 then rt_tick_get k - tick_delta else tick_delta) k)"

definition rt_mq_send :: "addr \<Rightarrow> u8 list \<Rightarrow> 'a ipc_scheme \<Rightarrow> u8 list outcome \<times> 'a ipc_scheme" where
  "rt_mq_send a buffer k = rt_mq_send_wait a buffer 0 k"

definition rt_mq_urgent :: "addr \<Rightarrow> u8 list \<Rightarrow> 'a ipc_scheme \<Rightarrow> rt_err \<times> 'a ipc_scheme" where
  "rt_mq_urgent a buffer k =
     (if length buffer > unat (msg_size (messagequeue k a)) then (- RT_ERROR, k)
      else case msg_queue_free (messagequeue k a) of
        None \<Rightarrow> (- RT_EFULL, k)
      | Some m \<Rightarrow>
          let k = upd_mq a (mq_take_free m) k;
              k = upd_mq a (mq_copy_in m buffer) k
          in case mq_push m (messagequeue k a) of (err, q) \<Rightarrow>
               let k = upd_mq a (\<lambda>_. q) k
               in if err \<noteq> RT_EOK then (err, k)
                  else if tlist k (Suspended a) \<noteq> [] then (RT_EOK, rt_schedule (ipc_list_resume (Suspended a) k))
                  else (RT_EOK, k))"

definition mq_recv_loop :: "addr \<Rightarrow> nat \<Rightarrow> tid option \<Rightarrow> int \<Rightarrow> u32 \<Rightarrow> 'a ipc_scheme \<Rightarrow> u8 list outcome \<times> 'a ipc_scheme" where
  "mq_recv_loop a sz self timeout tick_delta k =
     (if mq_entry (messagequeue k a) = 0 then
        (case self of
           None \<Rightarrow> (Faults, k)
         | Some t \<Rightarrow>
             let k = upd_thread t (\<lambda>th. th\<lparr>error := RT_EOK\<rparr>) k
             in if timeout = 0 then
                  (Returns (- RT_ETIMEOUT) None, upd_thread t (\<lambda>th. th\<lparr>error := - RT_ETIMEOUT\<rparr>) k)
                else queue_wait (Suspended a) t (ipc_flag k a) timeout tick_delta k)
      else case msg_queue_head (messagequeue k a) of
        None \<Rightarrow> (Faults, k)
      | Some m \<Rightarrow>
          let k = upd_mq a (mq_take_head m) k;
              buffer = mq_copy_out m sz (messagequeue k a);
              k = upd_mq a (mq_free_node m) k
          in if tlist k (Senders a) \<noteq> [] then (Returns RT_EOK (Some buffer), rt_schedule (ipc_list_resume (Senders a) k))
             else (Returns RT_EOK (Some buffer), k))"

definition rt_mq_recv :: "addr \<Rightarrow> nat \<Rightarrow> int \<Rightarrow> 'a ipc_scheme \<Rightarrow> u8 list outcome \<times> 'a ipc_scheme" where
  "rt_mq_recv a sz timeout k =
     (if mq_entry (messagequeue k a) = 0 \<and> timeout = 0 then (Returns (- RT_ETIMEOUT) None, k)
      else mq_recv_loop a sz (rt_thread_self k) timeout 0 k)"

definition rt_mq_recv_resumed :: "addr \<Rightarrow> nat \<Rightarrow> tid \<Rightarrow> int \<Rightarrow> u32 \<Rightarrow> 'a ipc_scheme \<Rightarrow> u8 list outcome \<times> 'a ipc_scheme" where
  "rt_mq_recv_resumed a sz t timeout tick_delta k =
     (if error (thread k t) \<noteq> RT_EOK then (Returns (error (thread k t)) None, k)
      else mq_recv_loop a sz (Some t) (timeout_left timeout tick_delta k)
        (if timeout > 0 then rt_tick_get k - tick_delta else tick_delta) k)"

text \<open>The loop of \<open>rt_mq_control\<close> that frees the queued nodes.\<close>

partial_function (option) mq_flush :: "rt_messagequeue \<Rightarrow> rt_messagequeue option" where
  "mq_flush q =
     (case msg_queue_head q of
        None \<Rightarrow> Some q
      | Some m \<Rightarrow>
          let q = q\<lparr>msg_queue_head := mq_next q m\<rparr>;
              q = (if msg_queue_tail q = Some m then q\<lparr>msg_queue_tail := None\<rparr> else q)
          in mq_flush (mq_free_node m q))"

definition rt_mq_control :: "addr \<Rightarrow> nat \<Rightarrow> 'a ipc_scheme \<Rightarrow> (rt_err \<times> 'a ipc_scheme) option" where
  "rt_mq_control a cmd k =
     (if cmd = 1 then
        Option.bind (Option.bind (ipc_list_resume_all (Suspended a) k) (ipc_list_resume_all (Senders a)))
          (\<lambda>k. map_option (\<lambda>q. (RT_EOK, rt_schedule (upd_mq a (\<lambda>_. q\<lparr>mq_entry := 0\<rparr>) k)))
            (mq_flush (messagequeue k a)))
      else Some (- RT_ERROR, k))"

section \<open>Chains of nodes\<close>

primrec chain :: "(nat \<Rightarrow> nat option) \<Rightarrow> nat option \<Rightarrow> nat list \<Rightarrow> bool" where
  "chain f p [] \<longleftrightarrow> p = None"
| "chain f p (m # ms) \<longleftrightarrow> p = Some m \<and> chain f (f m) ms"

text \<open>Following the links for at most \<open>n\<close> nodes.\<close>

fun walk :: "nat \<Rightarrow> (nat \<Rightarrow> nat option) \<Rightarrow> nat option \<Rightarrow> nat list" where
  "walk (Suc n) f (Some m) = m # walk n f (f m)"
| "walk _ _ _ = []"

lemma walk_chain: "chain f p ms \<Longrightarrow> length ms \<le> n \<Longrightarrow> walk n f p = ms"
proof (induction ms arbitrary: n p)
  case (Cons m ms)
  then show ?case by (cases n) auto
qed simp

lemma chain_cong: "(\<And>m. m \<in> set ms \<Longrightarrow> f m = g m) \<Longrightarrow> chain f p ms = chain g p ms"
  by (induction ms arbitrary: p) auto

lemma chain_upd [simp]: "m \<notin> set ms \<Longrightarrow> chain (f(m := x)) p ms = chain f p ms"
  by (rule chain_cong) auto

lemma chain_append:
  assumes "chain f p ms" "ms \<noteq> []" "distinct ms" "m \<notin> set ms" "f m = None"
  shows "chain (f(last ms := Some m)) p (ms @ [m])"
  using assms
proof (induction ms arbitrary: p)
  case (Cons x ms)
  then show ?case by (cases ms) auto
qed simp

section \<open>The invariant\<close>

definition mq_free_nodes :: "rt_messagequeue \<Rightarrow> nat list" where
  "mq_free_nodes q = walk (unat (max_msgs q)) (mq_next q) (msg_queue_free q)"

definition mq_nodes :: "rt_messagequeue \<Rightarrow> nat list" where
  "mq_nodes q = walk (unat (max_msgs q)) (mq_next q) (msg_queue_head q)"

text \<open>Every node of the pool is on the free list, in the queue or, while interrupts are enabled in the
  middle of an operation, with one caller (the set \<open>H\<close>).\<close>

definition mq_ok :: "nat set \<Rightarrow> rt_messagequeue \<Rightarrow> bool" where
  "mq_ok H q \<longleftrightarrow> chain (mq_next q) (msg_queue_free q) (mq_free_nodes q) \<and> chain (mq_next q) (msg_queue_head q) (mq_nodes q)
     \<and> distinct (mq_free_nodes q @ mq_nodes q) \<and> H \<inter> set (mq_free_nodes q @ mq_nodes q) = {}
     \<and> H \<union> set (mq_free_nodes q @ mq_nodes q) = {..<unat (max_msgs q)}
     \<and> msg_queue_tail q = (if mq_nodes q = [] then None else Some (last (mq_nodes q)))
     \<and> unat (mq_entry q) = length (mq_nodes q) \<and> (\<forall>m < unat (max_msgs q). length (mq_data q m) = unat (msg_size q))"

lemma mq_okI:
  assumes "chain (mq_next q) (msg_queue_free q) fr" "chain (mq_next q) (msg_queue_head q) qs"
    and "distinct (fr @ qs)" "H \<inter> set (fr @ qs) = {}" "H \<union> set (fr @ qs) = {..<unat (max_msgs q)}"
    and "msg_queue_tail q = (if qs = [] then None else Some (last qs))" "unat (mq_entry q) = length qs"
    and "\<And>m. m < unat (max_msgs q) \<Longrightarrow> length (mq_data q m) = unat (msg_size q)"
  shows "mq_ok H q" "mq_free_nodes q = fr" "mq_nodes q = qs"
proof -
  have "set (fr @ qs) \<subseteq> {..<unat (max_msgs q)}" using assms(5) by blast
  then have "length (fr @ qs) \<le> unat (max_msgs q)"
    using card_mono [of "{..<unat (max_msgs q)}" "set (fr @ qs)"] distinct_card [OF assms(3)] by simp
  then show f: "mq_free_nodes q = fr" "mq_nodes q = qs"
    using walk_chain [OF assms(1)] walk_chain [OF assms(2)] by (simp_all add: mq_free_nodes_def mq_nodes_def)
  show "mq_ok H q" unfolding mq_ok_def f using assms by blast
qed

lemma mq_okD:
  assumes "mq_ok H q"
  shows "chain (mq_next q) (msg_queue_free q) (mq_free_nodes q)" "chain (mq_next q) (msg_queue_head q) (mq_nodes q)"
    "distinct (mq_free_nodes q @ mq_nodes q)" "H \<inter> set (mq_free_nodes q @ mq_nodes q) = {}"
    "H \<union> set (mq_free_nodes q @ mq_nodes q) = {..<unat (max_msgs q)}"
    "msg_queue_tail q = (if mq_nodes q = [] then None else Some (last (mq_nodes q)))"
    "unat (mq_entry q) = length (mq_nodes q)" "m < unat (max_msgs q) \<Longrightarrow> length (mq_data q m) = unat (msg_size q)"
  using assms unfolding mq_ok_def by blast+

lemma mq_ok_card:
  assumes "mq_ok H q"
  shows "card H + length (mq_free_nodes q) + length (mq_nodes q) = unat (max_msgs q)"
proof -
  note d = mq_okD [OF assms]
  have "finite H" using d(5) finite_subset [of H "{..<unat (max_msgs q)}"] by blast
  then have "card (H \<union> set (mq_free_nodes q @ mq_nodes q)) = card H + card (set (mq_free_nodes q @ mq_nodes q))"
    using d(4) by (intro card_Un_disjoint) auto
  then show ?thesis using d(3,5) by (simp only: distinct_card) simp
qed

lemma mq_held: "mq_ok H q \<Longrightarrow> m \<in> H \<Longrightarrow> m < unat (max_msgs q) \<and> m \<notin> set (mq_free_nodes q) \<and> m \<notin> set (mq_nodes q)"
  using mq_okD(4,5) [of H q] by auto

lemma mq_entry_room: "mq_ok H q \<Longrightarrow> m \<in> H \<Longrightarrow> length (mq_nodes q) < 65535"
proof -
  assume a: "mq_ok H q" "m \<in> H"
  have "finite H" using mq_okD(5) [OF a(1)] finite_subset [of H "{..<unat (max_msgs q)}"] by blast
  then have "0 < card H" using a(2) by (auto simp: card_gt_0_iff)
  moreover have "unat (max_msgs q) < 65536" using unsigned_less [of "max_msgs q"] by simp
  ultimately show ?thesis using mq_ok_card [OF a(1)] by simp
qed

section \<open>The pieces keep the invariant\<close>

lemma mq_take_free_ok:
  assumes q: "mq_ok H q" and m: "msg_queue_free q = Some m"
  shows "mq_ok (insert m H) (mq_take_free m q)" "mq_nodes (mq_take_free m q) = mq_nodes q" "m \<notin> H"
    "\<exists>ms. mq_free_nodes q = m # ms"
proof -
  note d = mq_okD [OF q]
  obtain ms where fr: "mq_free_nodes q = m # ms" using d(1) m by (cases "mq_free_nodes q") auto
  then show "\<exists>ms. mq_free_nodes q = m # ms" by blast
  show "m \<notin> H" using d(4) fr by auto
  have "insert m H \<inter> set (ms @ mq_nodes q) = {}" "insert m H \<union> set (ms @ mq_nodes q) = {..<unat (max_msgs q)}"
    using d(3,4,5) fr by auto
  then show "mq_ok (insert m H) (mq_take_free m q)" "mq_nodes (mq_take_free m q) = mq_nodes q"
    using mq_okI [of "mq_take_free m q" ms "mq_nodes q" "insert m H"] d fr by (simp_all add: mq_take_free_def)
qed

lemma mq_clear_next_ok:
  assumes q: "mq_ok H q" and m: "m \<in> H"
  shows "mq_ok H (mq_clear_next m q)" "mq_nodes (mq_clear_next m q) = mq_nodes q"
    "mq_free_nodes (mq_clear_next m q) = mq_free_nodes q"
  using mq_okI [of "mq_clear_next m q" "mq_free_nodes q" "mq_nodes q" H] mq_okD [OF q] mq_held [OF q m]
  by (simp_all add: mq_clear_next_def)

lemma mq_copy_in_ok:
  assumes q: "mq_ok H q" and m: "m \<in> H" and b: "length b \<le> unat (msg_size q)"
  shows "mq_ok H (mq_copy_in m b q)" "mq_nodes (mq_copy_in m b q) = mq_nodes q"
    "mq_free_nodes (mq_copy_in m b q) = mq_free_nodes q" "take (length b) (mq_data (mq_copy_in m b q) m) = b"
  using mq_okI [of "mq_copy_in m b q" "mq_free_nodes q" "mq_nodes q" H] mq_okD [OF q] mq_held [OF q m] b
  by (simp_all add: mq_copy_in_def)

lemma mq_count_eq:
  assumes "unat (mq_entry q) < 65535"
  shows "mq_count q = (0, q\<lparr>mq_entry := mq_entry q + 1\<rparr>)" "unat (mq_entry q + 1) = Suc (unat (mq_entry q))"
  using assms by (simp_all add: mq_count_def word_less_nat_alt unat_add_no_wrap)

lemma mq_append_ok:
  assumes q: "mq_ok H q" and m: "m \<in> H" and n: "mq_next q m = None"
  shows "fst (mq_append m q) = 0" "mq_ok (H - {m}) (snd (mq_append m q))" "mq_nodes (snd (mq_append m q)) = mq_nodes q @ [m]"
    "mq_free_nodes (snd (mq_append m q)) = mq_free_nodes q" "mq_data (snd (mq_append m q)) = mq_data q"
    "max_msgs (snd (mq_append m q)) = max_msgs q" "msg_size (snd (mq_append m q)) = msg_size q"
proof -
  note d = mq_okD [OF q] and h = mq_held [OF q m]
  have e: "unat (mq_entry q) < 65535" using mq_entry_room [OF q m] d(7) by simp
  define q' where "q' = q\<lparr>mq_next := if mq_nodes q = [] then mq_next q else (mq_next q)(last (mq_nodes q) := Some m),
    msg_queue_tail := Some m, msg_queue_head := if mq_nodes q = [] then Some m else msg_queue_head q, mq_entry := mq_entry q + 1\<rparr>"
  have hd: "msg_queue_head q = None \<longleftrightarrow> mq_nodes q = []" using d(2) by (cases "mq_nodes q") auto
  have a: "mq_append m q = (0, q')"
    using d(6) hd mq_count_eq [of "q\<lparr>mq_next := x, msg_queue_tail := y, msg_queue_head := z\<rparr>" for x y z] e
    by (auto simp: mq_append_def q'_def mq_count_def word_less_nat_alt Let_def split: option.splits)
  have l: "last (mq_nodes q) \<notin> set (mq_free_nodes q)" if "mq_nodes q \<noteq> []" using that d(3) last_in_set by fastforce
  have "chain (mq_next q') (msg_queue_free q') (mq_free_nodes q)" using d(1) l by (simp add: q'_def)
  moreover have "chain (mq_next q') (msg_queue_head q') (mq_nodes q @ [m])"
    using d(2,3) n h chain_append [of "mq_next q" "msg_queue_head q" "mq_nodes q" m] by (auto simp: q'_def)
  moreover have "(H - {m}) \<inter> set (mq_free_nodes q @ mq_nodes q @ [m]) = {}"
    "(H - {m}) \<union> set (mq_free_nodes q @ mq_nodes q @ [m]) = {..<unat (max_msgs q')}" using d(4,5) m by (auto simp: q'_def)
  ultimately show "mq_ok (H - {m}) (snd (mq_append m q))" "mq_nodes (snd (mq_append m q)) = mq_nodes q @ [m]"
    "mq_free_nodes (snd (mq_append m q)) = mq_free_nodes q"
    using mq_okI [of q' "mq_free_nodes q" "mq_nodes q @ [m]" "H - {m}"] d(3,7,8) h mq_count_eq(2) [OF e]
    unfolding a by (simp_all add: q'_def)
  show "fst (mq_append m q) = 0" "mq_data (snd (mq_append m q)) = mq_data q"
    "max_msgs (snd (mq_append m q)) = max_msgs q" "msg_size (snd (mq_append m q)) = msg_size q" unfolding a by (simp_all add: q'_def)
qed

lemma mq_push_ok:
  assumes q: "mq_ok H q" and m: "m \<in> H"
  shows "fst (mq_push m q) = 0" "mq_ok (H - {m}) (snd (mq_push m q))" "mq_nodes (snd (mq_push m q)) = m # mq_nodes q"
    "mq_free_nodes (snd (mq_push m q)) = mq_free_nodes q" "mq_data (snd (mq_push m q)) = mq_data q"
    "max_msgs (snd (mq_push m q)) = max_msgs q" "msg_size (snd (mq_push m q)) = msg_size q"
proof -
  note d = mq_okD [OF q] and h = mq_held [OF q m]
  have e: "unat (mq_entry q) < 65535" using mq_entry_room [OF q m] d(7) by simp
  define q' where "q' = q\<lparr>mq_next := (mq_next q)(m := msg_queue_head q), msg_queue_head := Some m,
    msg_queue_tail := Some (last (m # mq_nodes q)), mq_entry := mq_entry q + 1\<rparr>"
  have tl: "msg_queue_tail q = None \<longleftrightarrow> mq_nodes q = []" "mq_nodes q \<noteq> [] \<Longrightarrow> msg_queue_tail q = Some (last (mq_nodes q))"
    using d(6) by auto
  have a: "mq_push m q = (0, q')"
    using tl e by (auto simp: mq_push_def q'_def mq_count_def word_less_nat_alt Let_def)
  have "(H - {m}) \<inter> set (mq_free_nodes q @ m # mq_nodes q) = {}"
    "(H - {m}) \<union> set (mq_free_nodes q @ m # mq_nodes q) = {..<unat (max_msgs q')}" using d(4,5) m by (auto simp: q'_def)
  then show "mq_ok (H - {m}) (snd (mq_push m q))" "mq_nodes (snd (mq_push m q)) = m # mq_nodes q"
    "mq_free_nodes (snd (mq_push m q)) = mq_free_nodes q"
    using mq_okI [of q' "mq_free_nodes q" "m # mq_nodes q" "H - {m}"] d h mq_count_eq(2) [OF e] unfolding a by (simp_all add: q'_def)
  show "fst (mq_push m q) = 0" "mq_data (snd (mq_push m q)) = mq_data q"
    "max_msgs (snd (mq_push m q)) = max_msgs q" "msg_size (snd (mq_push m q)) = msg_size q" unfolding a by (simp_all add: q'_def)
qed

lemma mq_take_head_ok:
  assumes q: "mq_ok H q" and n: "mq_nodes q = m # ms"
  shows "mq_ok (insert m H) (mq_take_head m q)" "mq_nodes (mq_take_head m q) = ms" "mq_data (mq_take_head m q) = mq_data q"
    "max_msgs (mq_take_head m q) = max_msgs q" "msg_size (mq_take_head m q) = msg_size q" "msg_queue_head q = Some m"
proof -
  note d = mq_okD [OF q, unfolded n]
  have e: "0 < mq_entry q" using d(7) by (simp add: word_less_nat_alt)
  define q' where "q' = q\<lparr>msg_queue_head := mq_next q m, msg_queue_tail := if ms = [] then None else Some (last ms), mq_entry := mq_entry q - 1\<rparr>"
  have "msg_queue_tail q = Some m \<longleftrightarrow> ms = []" using d(3,6) last_in_set [of ms] by auto
  then have a: "mq_take_head m q = q'" using e d(6) by (auto simp: mq_take_head_def q'_def Let_def)
  have "insert m H \<inter> set (mq_free_nodes q @ ms) = {}" "insert m H \<union> set (mq_free_nodes q @ ms) = {..<unat (max_msgs q')}"
    using d(3-5) by (auto simp: q'_def)
  moreover have "unat (mq_entry q - 1) = length ms" using e d(7) by (simp add: unat_minus_one word_gt_0)
  ultimately show "mq_ok (insert m H) (mq_take_head m q)" "mq_nodes (mq_take_head m q) = ms"
    using mq_okI [of q' "mq_free_nodes q" ms "insert m H"] d unfolding a by (simp_all add: q'_def)
  show "mq_data (mq_take_head m q) = mq_data q" "max_msgs (mq_take_head m q) = max_msgs q"
    "msg_size (mq_take_head m q) = msg_size q" unfolding a by (simp_all add: q'_def)
  show "msg_queue_head q = Some m" using d(2) by simp
qed

lemma mq_free_node_ok:
  assumes q: "mq_ok H q" and m: "m \<in> H"
  shows "mq_ok (H - {m}) (mq_free_node m q)" "mq_nodes (mq_free_node m q) = mq_nodes q"
    "mq_free_nodes (mq_free_node m q) = m # mq_free_nodes q"
proof -
  note d = mq_okD [OF q] and h = mq_held [OF q m]
  have "(H - {m}) \<inter> set ((m # mq_free_nodes q) @ mq_nodes q) = {}"
    "(H - {m}) \<union> set ((m # mq_free_nodes q) @ mq_nodes q) = {..<unat (max_msgs q)}" using d(4,5) m by auto
  then show "mq_ok (H - {m}) (mq_free_node m q)" "mq_nodes (mq_free_node m q) = mq_nodes q"
    "mq_free_nodes (mq_free_node m q) = m # mq_free_nodes q"
    using mq_okI [of "mq_free_node m q" "m # mq_free_nodes q" "mq_nodes q" "H - {m}"] d h by (simp_all add: mq_free_node_def)
qed

section \<open>Initialisation and reset\<close>

lemma mq_free_node_sel [simp]:
  "max_msgs (mq_free_node m q) = max_msgs q" "msg_size (mq_free_node m q) = msg_size q" "mq_data (mq_free_node m q) = mq_data q"
  "msg_queue_head (mq_free_node m q) = msg_queue_head q" "msg_queue_tail (mq_free_node m q) = msg_queue_tail q"
  "mq_entry (mq_free_node m q) = mq_entry q"
  by (simp_all add: mq_free_node_def)

lemma fold_free_node_sel [simp]:
  "max_msgs (fold mq_free_node ms q) = max_msgs q" "msg_size (fold mq_free_node ms q) = msg_size q"
  "mq_data (fold mq_free_node ms q) = mq_data q" "msg_queue_head (fold mq_free_node ms q) = msg_queue_head q"
  "msg_queue_tail (fold mq_free_node ms q) = msg_queue_tail q"
  by (induction ms arbitrary: q) simp_all

lemma mq_free_nodes_init:
  "msg_queue_free q = None \<Longrightarrow>
    chain (mq_next (fold mq_free_node [0..<n] q)) (msg_queue_free (fold mq_free_node [0..<n] q)) (rev [0..<n])"
  by (induction n) (simp_all add: mq_free_node_def)

lemma mq_pool_init_ok:
  assumes "\<And>m. m < unat (max_msgs q) \<Longrightarrow> length (mq_data q m) = unat (msg_size q)"
  shows "mq_ok {} (mq_pool_init q)" "mq_nodes (mq_pool_init q) = []" "max_msgs (mq_pool_init q) = max_msgs q"
    "msg_size (mq_pool_init q) = msg_size q" "length (mq_free_nodes (mq_pool_init q)) = unat (max_msgs q)"
proof -
  let ?n = "unat (max_msgs q)"
  let ?i = "q\<lparr>msg_queue_head := None, msg_queue_tail := None, msg_queue_free := None\<rparr>"
  note f = mq_free_nodes_init [of ?i ?n]
  have "set (rev [0..<?n]) = {..<?n}" by auto
  then show "mq_ok {} (mq_pool_init q)" "mq_nodes (mq_pool_init q) = []"
    "length (mq_free_nodes (mq_pool_init q)) = unat (max_msgs q)"
    using mq_okI [of "mq_pool_init q" "rev [0..<?n]" "[]" "{}"] f assms by (simp_all add: mq_pool_init_def Let_def)
  show "max_msgs (mq_pool_init q) = max_msgs q" "msg_size (mq_pool_init q) = msg_size q"
    using f by (simp_all add: mq_pool_init_def Let_def)
qed

text \<open>The reset loop ends: it moves every queued node to the free list.\<close>

lemma mq_flush_effect:
  assumes "mq_ok H (q\<lparr>mq_entry := e\<rparr>)"
  shows "\<exists>q'. mq_flush q = Some q' \<and> mq_ok H (q'\<lparr>mq_entry := 0\<rparr>) \<and> mq_nodes q' = []
    \<and> max_msgs q' = max_msgs q \<and> msg_size q' = msg_size q"
  using assms
proof (induction "mq_nodes q" arbitrary: q e)
  case Nil
  have d: "chain (mq_next q) (msg_queue_head q) []" "mq_ok H (q\<lparr>mq_entry := 0\<rparr>)"
    using mq_okD(2,7) [OF Nil.prems] Nil.hyps Nil.prems by (simp_all add: mq_nodes_def unat_eq_0)
  then show ?case using Nil.hyps by (subst mq_flush.simps) simp
next
  case (Cons m ms)
  let ?q = "q\<lparr>mq_entry := e\<rparr>"
  have n: "mq_nodes ?q = m # ms" using Cons.hyps(2) by (simp add: mq_nodes_def)
  note t = mq_take_head_ok [OF Cons.prems n]
  let ?f = "mq_free_node m (q\<lparr>msg_queue_head := mq_next q m,
    msg_queue_tail := if msg_queue_tail q = Some m then None else msg_queue_tail q\<rparr>)"
  have r: "mq_flush q = mq_flush ?f" using t(6) by (subst mq_flush.simps) (simp add: Let_def)
  have "mq_free_node m (mq_take_head m ?q) = ?f\<lparr>mq_entry := mq_entry (mq_take_head m ?q)\<rparr>"
    by (simp add: mq_take_head_def mq_free_node_def Let_def)
  moreover have "m \<notin> H" using mq_held [OF Cons.prems] n by auto
  ultimately have ok: "mq_ok H (?f\<lparr>mq_entry := mq_entry (mq_take_head m ?q)\<rparr>)" "ms = mq_nodes (?f\<lparr>mq_entry := mq_entry (mq_take_head m ?q)\<rparr>)"
    using mq_free_node_ok [OF t(1), of m] t(2) by simp_all
  have "ms = mq_nodes ?f" using ok(2) by (simp add: mq_nodes_def)
  from Cons.hyps(1) [OF this ok(1)] show ?case unfolding r by simp
qed

section \<open>The pool is a bounded queue\<close>

definition mq_contents :: "rt_messagequeue \<Rightarrow> u8 list list" where
  "mq_contents q = map (mq_data q) (mq_nodes q)"

text \<open>The storage part of a send, an urgent send and a receive that are not interrupted.\<close>

definition mq_put :: "u8 list \<Rightarrow> rt_messagequeue \<Rightarrow> rt_messagequeue" where
  "mq_put b q = (case msg_queue_free q of
     None \<Rightarrow> q | Some m \<Rightarrow> snd (mq_append m (mq_copy_in m b (mq_clear_next m (mq_take_free m q)))))"

definition mq_put_urgent :: "u8 list \<Rightarrow> rt_messagequeue \<Rightarrow> rt_messagequeue" where
  "mq_put_urgent b q = (case msg_queue_free q of
     None \<Rightarrow> q | Some m \<Rightarrow> snd (mq_push m (mq_copy_in m b (mq_take_free m q))))"

definition mq_get :: "rt_messagequeue \<Rightarrow> u8 list \<times> rt_messagequeue" where
  "mq_get q = (case msg_queue_head q of
     None \<Rightarrow> ([], q) | Some m \<Rightarrow> (mq_data q m, mq_free_node m (mq_take_head m q)))"

definition mq_stores :: "u8 list \<Rightarrow> u8 list \<Rightarrow> bool" where
  "mq_stores w v \<longleftrightarrow> take (length v) w = v"

lemma mq_idle_free:
  assumes "mq_ok {} q"
  shows "msg_queue_free q = None \<longleftrightarrow> \<not> length (mq_contents q) < unat (max_msgs q)" "length (mq_contents q) \<le> unat (max_msgs q)"
    "mq_entry q = 0 \<longleftrightarrow> mq_contents q = []"
proof -
  have c: "length (mq_free_nodes q) + length (mq_contents q) = unat (max_msgs q)" using mq_ok_card [OF assms] by (simp add: mq_contents_def)
  have "msg_queue_free q = None \<longleftrightarrow> mq_free_nodes q = []" using mq_okD(1) [OF assms] by (cases "mq_free_nodes q") auto
  then show "msg_queue_free q = None \<longleftrightarrow> \<not> length (mq_contents q) < unat (max_msgs q)" "length (mq_contents q) \<le> unat (max_msgs q)"
    using c by (cases "mq_free_nodes q"; simp)+
  show "mq_entry q = 0 \<longleftrightarrow> mq_contents q = []" using mq_okD(7) [OF assms] by (auto simp: mq_contents_def unat_eq_0)
qed

lemma mq_put_steps:
  assumes q: "mq_ok {} q" and m: "msg_queue_free q = Some m" and b: "length b \<le> unat (msg_size q)"
  defines "q1 \<equiv> mq_copy_in m b (mq_clear_next m (mq_take_free m q))" and "q2 \<equiv> mq_copy_in m b (mq_take_free m q)"
  shows "mq_ok {m} q1" "mq_nodes q1 = mq_nodes q" "mq_next q1 m = None" "mq_data q1 = (mq_data q)(m := b @ drop (length b) (mq_data q m))"
    "mq_ok {m} q2" "mq_nodes q2 = mq_nodes q" "mq_data q2 = (mq_data q)(m := b @ drop (length b) (mq_data q m))"
    "max_msgs q1 = max_msgs q" "max_msgs q2 = max_msgs q" "msg_size q1 = msg_size q" "msg_size q2 = msg_size q"
proof -
  note t = mq_take_free_ok [OF q m]
  have b': "length b \<le> unat (msg_size (mq_take_free m q))" "length b \<le> unat (msg_size (mq_clear_next m (mq_take_free m q)))"
    using b by (simp_all add: mq_take_free_def mq_clear_next_def)
  note c = mq_clear_next_ok [OF t(1), of m]
  show "mq_ok {m} q1" "mq_nodes q1 = mq_nodes q" "mq_ok {m} q2" "mq_nodes q2 = mq_nodes q"
    unfolding q1_def q2_def using t c mq_copy_in_ok [of "{m}" "mq_take_free m q" m b] b'
      mq_copy_in_ok [of "{m}" "mq_clear_next m (mq_take_free m q)" m b] by simp_all
  show "mq_next q1 m = None" "mq_data q1 = (mq_data q)(m := b @ drop (length b) (mq_data q m))"
    "mq_data q2 = (mq_data q)(m := b @ drop (length b) (mq_data q m))" "max_msgs q1 = max_msgs q" "max_msgs q2 = max_msgs q"
    "msg_size q1 = msg_size q" "msg_size q2 = msg_size q"
    unfolding q1_def q2_def by (simp_all add: mq_copy_in_def mq_clear_next_def mq_take_free_def)
qed

lemma mq_put_effect:
  assumes q: "mq_ok {} q" and room: "length (mq_contents q) < unat (max_msgs q)" and b: "length b \<le> unat (msg_size q)"
  shows "\<exists>m. msg_queue_free q = Some m \<and> m < unat (max_msgs q) \<and> mq_ok {} (mq_put b q)
      \<and> mq_contents (mq_put b q) = mq_contents q @ [b @ drop (length b) (mq_data q m)]
      \<and> fst (mq_append m (mq_copy_in m b (mq_clear_next m (mq_take_free m q)))) = 0" "max_msgs (mq_put b q) = max_msgs q"
    "msg_size (mq_put b q) = msg_size q"
proof -
  obtain m where m: "msg_queue_free q = Some m" using mq_idle_free(1) [OF q] room by auto
  note p = mq_put_steps [OF q m b]
  note a = mq_append_ok [OF p(1) insertI1 p(3)]
  have n: "m \<notin> set (mq_nodes q)" "m < unat (max_msgs q)" using mq_held [OF p(1), of m] p(2,8) by simp_all
  show "\<exists>m. msg_queue_free q = Some m \<and> m < unat (max_msgs q) \<and> mq_ok {} (mq_put b q)
      \<and> mq_contents (mq_put b q) = mq_contents q @ [b @ drop (length b) (mq_data q m)]
      \<and> fst (mq_append m (mq_copy_in m b (mq_clear_next m (mq_take_free m q)))) = 0"
    using m a(1-3,5) p(2,4) n by (intro exI [of _ m]) (auto simp: mq_put_def mq_contents_def)
  show "max_msgs (mq_put b q) = max_msgs q" "msg_size (mq_put b q) = msg_size q" using m a(6,7) p(8,10) by (simp_all add: mq_put_def)
qed

lemma mq_put_urgent_effect:
  assumes q: "mq_ok {} q" and room: "length (mq_contents q) < unat (max_msgs q)" and b: "length b \<le> unat (msg_size q)"
  shows "\<exists>m. msg_queue_free q = Some m \<and> m < unat (max_msgs q) \<and> mq_ok {} (mq_put_urgent b q)
      \<and> mq_contents (mq_put_urgent b q) = (b @ drop (length b) (mq_data q m)) # mq_contents q
      \<and> fst (mq_push m (mq_copy_in m b (mq_take_free m q))) = 0" "max_msgs (mq_put_urgent b q) = max_msgs q"
    "msg_size (mq_put_urgent b q) = msg_size q"
proof -
  obtain m where m: "msg_queue_free q = Some m" using mq_idle_free(1) [OF q] room by auto
  note p = mq_put_steps [OF q m b]
  note a = mq_push_ok [OF p(5) insertI1]
  have n: "m \<notin> set (mq_nodes q)" "m < unat (max_msgs q)" using mq_held [OF p(5), of m] p(6,9) by simp_all
  show "\<exists>m. msg_queue_free q = Some m \<and> m < unat (max_msgs q) \<and> mq_ok {} (mq_put_urgent b q)
      \<and> mq_contents (mq_put_urgent b q) = (b @ drop (length b) (mq_data q m)) # mq_contents q
      \<and> fst (mq_push m (mq_copy_in m b (mq_take_free m q))) = 0"
    using m a(1-3,5) p(6,7) n by (intro exI [of _ m]) (auto simp: mq_put_urgent_def mq_contents_def)
  show "max_msgs (mq_put_urgent b q) = max_msgs q" "msg_size (mq_put_urgent b q) = msg_size q"
    using m a(6,7) p(9,11) by (simp_all add: mq_put_urgent_def)
qed

lemma mq_get_effect:
  assumes q: "mq_ok {} q" and c: "mq_contents q = w # ws"
  shows "\<exists>m. msg_queue_head q = Some m \<and> mq_data (mq_take_head m q) m = w \<and> msg_size (mq_take_head m q) = msg_size q"
    "fst (mq_get q) = w" "mq_ok {} (snd (mq_get q))" "mq_contents (snd (mq_get q)) = ws"
    "max_msgs (snd (mq_get q)) = max_msgs q" "msg_size (snd (mq_get q)) = msg_size q"
proof -
  obtain m ms where n: "mq_nodes q = m # ms" "mq_data q m = w" "map (mq_data q) ms = ws"
    using c by (auto simp: mq_contents_def)
  note t = mq_take_head_ok [OF q n(1)]
  note f = mq_free_node_ok [OF t(1) insertI1]
  show "\<exists>m. msg_queue_head q = Some m \<and> mq_data (mq_take_head m q) m = w \<and> msg_size (mq_take_head m q) = msg_size q"
    using t(3,5,6) n(2) by simp
  show "fst (mq_get q) = w" "mq_ok {} (snd (mq_get q))" "mq_contents (snd (mq_get q)) = ws"
    "max_msgs (snd (mq_get q)) = max_msgs q" "msg_size (snd (mq_get q)) = msg_size q"
    using t f n by (simp_all add: mq_get_def mq_contents_def)
qed

interpretation mqq: bounded_queue "mq_ok {}" mq_contents "\<lambda>q. unat (max_msgs q)" mq_put mq_get
  "\<lambda>q b. length b \<le> unat (msg_size q)" mq_stores mq_put_urgent
proof unfold_locales
  fix s and v :: "u8 list" assume "mq_ok {} s" "length v \<le> unat (msg_size s)" "length (mq_contents s) < unat (max_msgs s)"
  note p = this(1,3,2)
  show "mq_ok {} (mq_put v s) \<and> (\<exists>w. mq_stores w v \<and> mq_contents (mq_put v s) = mq_contents s @ [w])
    \<and> unat (max_msgs (mq_put v s)) = unat (max_msgs s)
    \<and> (\<lambda>b. length b \<le> unat (msg_size (mq_put v s))) = (\<lambda>b. length b \<le> unat (msg_size s))"
    using mq_put_effect [OF p] by (auto simp: mq_stores_def)
  show "mq_ok {} (mq_put_urgent v s) \<and> (\<exists>w. mq_stores w v \<and> mq_contents (mq_put_urgent v s) = w # mq_contents s)
    \<and> unat (max_msgs (mq_put_urgent v s)) = unat (max_msgs s)
    \<and> (\<lambda>b. length b \<le> unat (msg_size (mq_put_urgent v s))) = (\<lambda>b. length b \<le> unat (msg_size s))"
    using mq_put_urgent_effect [OF p] by (auto simp: mq_stores_def)
qed (auto simp: mq_idle_free mq_get_effect)

section \<open>Refinement\<close>

definition mq_abs :: "addr \<Rightarrow> 'a ipc_scheme \<Rightarrow> u8 list queue_spec" where
  "mq_abs a k = (mq_contents (messagequeue k a), tlist k (Suspended a), tlist k (Senders a))"

lemma mq_upd_abs:
  assumes "kernel_inv k" "wait_list l"
  shows "mq_abs a (wake_one l (upd_mq a f k)) = (mq_contents (f (messagequeue k a)),
    (if l = Suspended a then tl else id) (tlist k (Suspended a)), (if l = Senders a then tl else id) (tlist k (Senders a)))"
    "messagequeue (wake_one l (upd_mq a f k)) a = f (messagequeue k a)" "kernel_inv (wake_one l (upd_mq a f k))"
proof -
  note w = wake_one_effect [OF upd_ipc_inv(5) [OF assms(1), of a f] assms(2)]
  show m: "messagequeue (wake_one l (upd_mq a f k)) a = f (messagequeue k a)" using ipc_more_sel(5) [OF w(4)] by simp
  show "mq_abs a (wake_one l (upd_mq a f k)) = (mq_contents (f (messagequeue k a)),
    (if l = Suspended a then tl else id) (tlist k (Suspended a)), (if l = Senders a then tl else id) (tlist k (Senders a)))"
    using w(2) w(3) [of "Suspended a"] w(3) [of "Senders a"] by (auto simp: mq_abs_def m)
  show "kernel_inv (wake_one l (upd_mq a f k))" by (rule w(1))
qed

lemma mq_wait_abs:
  fixes timeout :: int and tick_delta :: u32
  assumes k: "kernel_inv k" and t: "tstat k t = 3" and f: "flag \<in> {0, 1}" and l: "wait_list l"
  defines "(r :: u8 list outcome \<times> 'a ipc_scheme) \<equiv> queue_wait l t flag timeout tick_delta (upd_thread t (\<lambda>th. th\<lparr>error := 0\<rparr>) k)"
  shows "mq_abs a (snd r) = (mq_contents (messagequeue k a),
     (if l = Suspended a then wait_place flag (prio k) t else id) (tlist k (Suspended a)),
     (if l = Senders a then wait_place flag (prio k) t else id) (tlist k (Senders a)))"
    "messagequeue (snd r) = messagequeue k" "kernel_inv (snd r)" "fst r = Blocks timeout (if timeout > 0 then rt_tick k else tick_delta)"
proof -
  note q = queue_wait_effect [OF k t l f, where timeout = timeout and tick_delta = tick_delta]
  show m: "messagequeue (snd r) = messagequeue k" unfolding r_def by (rule ipc_more_sel(5) [OF q(5)])
  have "tlist (snd r) l = wait_place flag (prio k) t (tlist k l)" unfolding r_def by (rule q(2))
  moreover have "tlist (snd r) m = tlist k m" if "wait_list m" "m \<noteq> l" for m unfolding r_def by (rule q(4) [OF that])
  ultimately show "mq_abs a (snd r) = (mq_contents (messagequeue k a),
     (if l = Suspended a then wait_place flag (prio k) t else id) (tlist k (Suspended a)),
     (if l = Senders a then wait_place flag (prio k) t else id) (tlist k (Senders a)))"
    by (auto simp: mq_abs_def m)
  show "kernel_inv (snd r)" "fst r = Blocks timeout (if timeout > 0 then rt_tick k else tick_delta)"
    unfolding r_def by (rule q(1), rule q(6))
qed

lemma upd_mq_twice: "upd_mq a f (upd_mq a g k) = upd_mq a (\<lambda>q. f (g q)) k"
  by (simp add: upd_mq_def)

lemma rt_mq_send_wait_room:
  assumes ok: "mq_ok {} (messagequeue k a)" and b: "length b \<le> unat (msg_size (messagequeue k a))"
    and room: "length (mq_contents (messagequeue k a)) < unat (max_msgs (messagequeue k a))"
  shows "rt_mq_send_wait a b timeout k = (Returns 0 None, wake_one (Suspended a) (upd_mq a (\<lambda>_. mq_put b (messagequeue k a)) k))"
proof -
  obtain m where m: "msg_queue_free (messagequeue k a) = Some m"
    "fst (mq_append m (mq_copy_in m b (mq_clear_next m (mq_take_free m (messagequeue k a))))) = 0"
    using mq_put_effect(1) [OF ok room b] by blast
  then obtain q where q: "mq_append m (mq_copy_in m b (mq_clear_next m (mq_take_free m (messagequeue k a)))) = (0, q)"
    by (cases "mq_append m (mq_copy_in m b (mq_clear_next m (mq_take_free m (messagequeue k a))))") simp
  show ?thesis using m(1) q b by (simp add: rt_mq_send_wait_def mq_send_loop_def mq_put_def wake_one_def upd_mq_twice Let_def)
qed

lemma rt_mq_send_wait_effect:
  assumes k: "kernel_inv k" and ok: "mq_ok {} (messagequeue k a)" and c: "rt_current_thread k = Some t" "tstat k t = 3"
    and f: "ipc_flag k a \<in> {0, 1}" and b: "length b \<le> unat (msg_size (messagequeue k a))"
  shows "case rt_mq_send_wait a b timeout k of (r, k') \<Rightarrow>
    (\<exists>w. mq_stores w b \<and> (r, mq_abs a k')
        = send_spec (unat (max_msgs (messagequeue k a))) (wait_place (ipc_flag k a) (prio k) t) timeout (rt_tick k) w (mq_abs a k))
    \<and> kernel_inv k' \<and> mq_ok {} (messagequeue k' a)"
proof (cases "length (mq_contents (messagequeue k a)) < unat (max_msgs (messagequeue k a))")
  case True
  obtain w where w: "mq_stores w b" "mq_ok {} (mq_put b (messagequeue k a))"
    "mq_contents (mq_put b (messagequeue k a)) = mq_contents (messagequeue k a) @ [w]"
    using mqq.put [OF ok b True] by blast
  show ?thesis unfolding rt_mq_send_wait_room [OF ok b True]
    using True w mq_upd_abs [OF k, of "Suspended a" a] by (auto simp: mq_abs_def [of a k])
next
  case False
  then have full: "msg_queue_free (messagequeue k a) = None" using mq_idle_free(1) [OF ok] by simp
  have b': "mq_stores b b" by (simp add: mq_stores_def)
  show ?thesis
  proof (cases "timeout = 0")
    case True
    then show ?thesis using full False k ok b b' by (auto simp: rt_mq_send_wait_def mq_abs_def)
  next
    case nz: False
    let ?q = "queue_wait (Senders a) t (ipc_flag k a) timeout 0 (upd_thread t (\<lambda>th. th\<lparr>error := 0\<rparr>) k)"
    have "rt_mq_send_wait a b timeout k = ?q"
      using full nz c(1) b by (simp add: rt_mq_send_wait_def mq_send_loop_def rt_thread_self_def)
    then show ?thesis using False nz ok b' mq_wait_abs(2-4) [OF k c(2) f wait_list_simps(2) [of a], where timeout = timeout and tick_delta = 0]
        mq_wait_abs(1) [OF k c(2) f wait_list_simps(2) [of a], where timeout = timeout and tick_delta = 0 and a = a]
      by (auto simp: mq_abs_def [of a k] case_prod_beta)
  qed
qed

lemma rt_mq_urgent_effect:
  assumes k: "kernel_inv k" and ok: "mq_ok {} (messagequeue k a)" and b: "length b \<le> unat (msg_size (messagequeue k a))"
  shows "case rt_mq_urgent a b k of (r, k') \<Rightarrow>
    (\<exists>w. mq_stores w b \<and> (r, mq_abs a k') = urgent_spec (unat (max_msgs (messagequeue k a))) w (mq_abs a k))
    \<and> kernel_inv k' \<and> mq_ok {} (messagequeue k' a)"
proof (cases "length (mq_contents (messagequeue k a)) < unat (max_msgs (messagequeue k a))")
  case True
  obtain w where w: "mq_stores w b" "mq_ok {} (mq_put_urgent b (messagequeue k a))"
    "mq_contents (mq_put_urgent b (messagequeue k a)) = w # mq_contents (messagequeue k a)"
    using mqq.urgent [OF ok b True] by blast
  obtain m q where m: "msg_queue_free (messagequeue k a) = Some m"
    "mq_push m (mq_copy_in m b (mq_take_free m (messagequeue k a))) = (0, q)"
    using mq_put_urgent_effect(1) [OF ok True b] by (metis prod.collapse)
  have "rt_mq_urgent a b k = (0, wake_one (Suspended a) (upd_mq a (\<lambda>_. mq_put_urgent b (messagequeue k a)) k))"
    using m b by (simp add: rt_mq_urgent_def mq_put_urgent_def wake_one_def upd_mq_twice Let_def)
  then show ?thesis using True w mq_upd_abs [OF k, of "Suspended a" a] by (auto simp: mq_abs_def [of a k])
next
  case False
  have "mq_stores b b" by (simp add: mq_stores_def)
  then show ?thesis using False k ok b mq_idle_free(1) [OF ok] by (auto simp: rt_mq_urgent_def mq_abs_def)
qed

lemma rt_mq_recv_effect:
  assumes k: "kernel_inv k" and ok: "mq_ok {} (messagequeue k a)" and c: "rt_current_thread k = Some t" "tstat k t = 3"
    and f: "ipc_flag k a \<in> {0, 1}"
  shows "case rt_mq_recv a sz timeout k of (r, k') \<Rightarrow>
    (case recv_spec (wait_place (ipc_flag k a) (prio k) t) timeout (rt_tick k) (mq_abs a k) of (r0, s) \<Rightarrow>
       (r, mq_abs a k') = (map_outcome (take (min sz (unat (msg_size (messagequeue k a))))) r0, s))
    \<and> kernel_inv k' \<and> mq_ok {} (messagequeue k' a)"
proof (cases "mq_contents (messagequeue k a)")
  case (Cons w ws)
  note g = mq_get_effect [OF ok Cons]
  obtain m where m: "msg_queue_head (messagequeue k a) = Some m" "mq_data (mq_take_head m (messagequeue k a)) m = w"
    "msg_size (mq_take_head m (messagequeue k a)) = msg_size (messagequeue k a)" using g(1) by blast
  have "rt_mq_recv a sz timeout k = (Returns 0 (Some (take (min sz (unat (msg_size (messagequeue k a)))) w)),
      wake_one (Senders a) (upd_mq a (\<lambda>_. snd (mq_get (messagequeue k a))) k))"
    using Cons m mq_idle_free(3) [OF ok]
    by (simp add: rt_mq_recv_def mq_recv_loop_def mq_get_def mq_copy_out_def wake_one_def upd_mq_def min_def Let_def)
  then show ?thesis using Cons g mq_upd_abs [OF k, of "Senders a" a] by (simp add: mq_abs_def [of a k])
next
  case Nil
  then have e: "mq_entry (messagequeue k a) = 0" using mq_idle_free(3) [OF ok] by simp
  show ?thesis
  proof (cases "timeout = 0")
    case True
    then show ?thesis using e Nil k ok by (simp add: rt_mq_recv_def mq_abs_def)
  next
    case False
    let ?q = "queue_wait (Suspended a) t (ipc_flag k a) timeout 0 (upd_thread t (\<lambda>th. th\<lparr>error := 0\<rparr>) k)"
    have "rt_mq_recv a sz timeout k = ?q"
      using e False c(1) by (simp add: rt_mq_recv_def mq_recv_loop_def rt_thread_self_def)
    then show ?thesis using Nil False ok mq_wait_abs(2-4) [OF k c(2) f wait_list_simps(1) [of a], where timeout = timeout and tick_delta = 0]
        mq_wait_abs(1) [OF k c(2) f wait_list_simps(1) [of a], where timeout = timeout and tick_delta = 0 and a = a]
      by (simp add: mq_abs_def [of a k] case_prod_beta)
  qed
qed

section \<open>Interleaved operations\<close>

text \<open>Any number of senders and receivers, each at any of the points where its call enables
  interrupts. \<open>P\<close> says who holds which node: a sender that has taken it, copied its message into
  it (to append it or to push it), or a receiver that copies it out. \<open>msgs\<close> records the messages
  that have been put into the queue and not yet been taken.\<close>

datatype phase = Taken "u8 list" | Filled "u8 list" | Urgent "u8 list" | Reading "u8 list"

type_synonym mq_run = "rt_messagequeue \<times> (nat \<rightharpoonup> phase) \<times> u8 list list"

inductive mq_step :: "mq_run \<Rightarrow> mq_run \<Rightarrow> bool" where
  take_free: "msg_queue_free q = Some m \<Longrightarrow> length b \<le> unat (msg_size q) \<Longrightarrow>
    mq_step (q, P, msgs) (mq_take_free m q, P(m \<mapsto> Taken b), msgs)"
| copy_in: "P m = Some (Taken b) \<Longrightarrow> mq_step (q, P, msgs) (mq_copy_in m b (mq_clear_next m q), P(m \<mapsto> Filled b), msgs)"
| append: "P m = Some (Filled b) \<Longrightarrow> mq_step (q, P, msgs) (snd (mq_append m q), P(m := None), msgs @ [b])"
| copy_urgent: "P m = Some (Taken b) \<Longrightarrow> mq_step (q, P, msgs) (mq_copy_in m b q, P(m \<mapsto> Urgent b), msgs)"
| push: "P m = Some (Urgent b) \<Longrightarrow> mq_step (q, P, msgs) (snd (mq_push m q), P(m := None), b # msgs)"
| take_head: "mq_entry q \<noteq> 0 \<Longrightarrow> msg_queue_head q = Some m \<Longrightarrow>
    mq_step (q, P, msgs) (mq_take_head m q, P(m \<mapsto> Reading (hd msgs)), tl msgs)"
| give_free: "P m = Some (Reading b) \<Longrightarrow> mq_step (q, P, msgs) (mq_free_node m q, P(m := None), msgs)"

definition phase_ok :: "rt_messagequeue \<Rightarrow> nat \<Rightarrow> phase \<Rightarrow> bool" where
  "phase_ok q m p = (case p of
     Taken b \<Rightarrow> length b \<le> unat (msg_size q)
   | Filled b \<Rightarrow> mq_next q m = None \<and> mq_stores (mq_data q m) b
   | Urgent b \<Rightarrow> mq_stores (mq_data q m) b
   | Reading b \<Rightarrow> mq_stores (mq_data q m) b)"

definition mq_run_inv :: "mq_run \<Rightarrow> bool" where
  "mq_run_inv s = (case s of (q, P, msgs) \<Rightarrow>
     mq_ok (dom P) q \<and> list_all2 mq_stores (mq_contents q) msgs \<and> (\<forall>m p. P m = Some p \<longrightarrow> phase_ok q m p))"

text \<open>The pieces leave the links and the data of the nodes other callers hold alone.\<close>

lemma phase_ok_frame:
  assumes "phase_ok q m p" "mq_next q' m = mq_next q m" "mq_data q' m = mq_data q m" "msg_size q' = msg_size q"
  shows "phase_ok q' m p"
  using assms by (cases p) (simp_all add: phase_ok_def)

lemma mq_pieces_frame [simp]:
  "mq_next (mq_take_free m q) = mq_next q" "mq_data (mq_take_free m q) = mq_data q" "msg_size (mq_take_free m q) = msg_size q"
  "mq_next (mq_take_head m q) = mq_next q" "mq_data (mq_take_head m q) = mq_data q" "msg_size (mq_take_head m q) = msg_size q"
  "mq_next (mq_clear_next m q) = (mq_next q)(m := None)" "mq_data (mq_clear_next m q) = mq_data q"
  "msg_size (mq_clear_next m q) = msg_size q" "mq_next (mq_copy_in m b q) = mq_next q"
  "mq_data (mq_copy_in m b q) = (mq_data q)(m := b @ drop (length b) (mq_data q m))" "msg_size (mq_copy_in m b q) = msg_size q"
  "mq_next (mq_free_node m q) = (mq_next q)(m := msg_queue_free q)"
  "mq_next (snd (mq_push m q)) = (mq_next q)(m := msg_queue_head q)"
  by (simp_all add: mq_take_free_def mq_take_head_def mq_clear_next_def mq_copy_in_def mq_free_node_def mq_push_def
      mq_count_def Let_def)

lemma mq_append_frame:
  assumes "mq_ok H q" "m' \<in> H"
  shows "mq_next (snd (mq_append m q)) m' = mq_next q m'"
proof -
  have "msg_queue_tail q \<noteq> Some m'" using mq_okD(6) [OF assms(1)] mq_held [OF assms] last_in_set [of "mq_nodes q"] by auto
  then show ?thesis by (auto simp: mq_append_def mq_count_def Let_def split: option.splits)
qed

lemma mq_contents_cong: "mq_nodes q' = mq_nodes q \<Longrightarrow> (\<And>m. m \<in> set (mq_nodes q) \<Longrightarrow> mq_data q' m = mq_data q m) \<Longrightarrow> mq_contents q' = mq_contents q"
  by (simp add: mq_contents_def)

lemma mq_run_invD:
  assumes "mq_run_inv (q, P, msgs)"
  shows "mq_ok (dom P) q" "list_all2 mq_stores (mq_contents q) msgs" "\<And>m p. P m = Some p \<Longrightarrow> phase_ok q m p"
  using assms by (auto simp: mq_run_inv_def)

lemma mq_run_take_free:
  assumes v: "mq_run_inv (q, P, msgs)" and h: "msg_queue_free q = Some m" "length b \<le> unat (msg_size q)"
  shows "mq_run_inv (mq_take_free m q, P(m \<mapsto> Taken b), msgs)"
proof -
  note i = mq_run_invD [OF v]
  note t = mq_take_free_ok [OF i(1) h(1)]
  have "phase_ok (mq_take_free m q) m' p" if "(P(m \<mapsto> Taken b)) m' = Some p" for m' p
    using that i(3) h(2) phase_ok_frame [of q m' p "mq_take_free m q"] by (auto simp: phase_ok_def [of _ _ "Taken b"] split: if_splits)
  then show ?thesis using t(1,2) i(2) by (simp add: mq_run_inv_def mq_contents_def)
qed

lemma mq_run_copy_in:
  assumes v: "mq_run_inv (q, P, msgs)" and h: "P m = Some (Taken b)"
  shows "mq_run_inv (mq_copy_in m b (mq_clear_next m q), P(m \<mapsto> Filled b), msgs)"
proof -
  note i = mq_run_invD [OF v]
  have m: "m \<in> dom P" and b: "length b \<le> unat (msg_size q)" using h(1) i(3) [OF h(1)] by (auto simp: phase_ok_def)
  let ?q = "mq_copy_in m b (mq_clear_next m q)"
  note c = mq_clear_next_ok [OF i(1) m]
  note o = mq_copy_in_ok [OF c(1) m, of b]
  have "mq_contents ?q = mq_contents q" using o(2) c(2) b mq_held [OF i(1) m] by (intro mq_contents_cong) auto
  moreover have "phase_ok ?q m' p" if "(P(m \<mapsto> Filled b)) m' = Some p" for m' p
    using that i(3) phase_ok_frame [of q m' p ?q] by (auto simp: phase_ok_def [of _ _ "Filled b"] mq_stores_def split: if_splits)
  moreover have "insert m (dom P) = dom P" using m by blast
  ultimately show ?thesis using o(1) b i(2) by (simp add: mq_run_inv_def)
qed

lemma mq_run_append:
  assumes v: "mq_run_inv (q, P, msgs)" and h: "P m = Some (Filled b)"
  shows "mq_run_inv (snd (mq_append m q), P(m := None), msgs @ [b])"
proof -
  note i = mq_run_invD [OF v]
  have m: "m \<in> dom P" and b: "mq_next q m = None" "mq_stores (mq_data q m) b" using h(1) i(3) [OF h(1)] by (auto simp: phase_ok_def)
  note a = mq_append_ok [OF i(1) m b(1)]
  have "mq_contents (snd (mq_append m q)) = mq_contents q @ [mq_data q m]" using a(3,5) by (simp add: mq_contents_def)
  moreover have "phase_ok (snd (mq_append m q)) m' p" if "(P(m := None)) m' = Some p" for m' p
    using that i(3) phase_ok_frame [of q m' p "snd (mq_append m q)"] mq_append_frame [OF i(1), of m' m] a(5,7)
    by (auto split: if_splits)
  ultimately show ?thesis using a(2) i(2) b(2) by (simp add: mq_run_inv_def list_all2_appendI)
qed

lemma mq_run_copy_urgent:
  assumes v: "mq_run_inv (q, P, msgs)" and h: "P m = Some (Taken b)"
  shows "mq_run_inv (mq_copy_in m b q, P(m \<mapsto> Urgent b), msgs)"
proof -
  note i = mq_run_invD [OF v]
  have m: "m \<in> dom P" and b: "length b \<le> unat (msg_size q)" using h(1) i(3) [OF h(1)] by (auto simp: phase_ok_def)
  let ?q = "mq_copy_in m b q"
  note o = mq_copy_in_ok [OF i(1) m b]
  have "mq_contents ?q = mq_contents q" using o(2) mq_held [OF i(1) m] by (intro mq_contents_cong) auto
  moreover have "phase_ok ?q m' p" if "(P(m \<mapsto> Urgent b)) m' = Some p" for m' p
    using that i(3) phase_ok_frame [of q m' p ?q] by (auto simp: phase_ok_def [of _ _ "Urgent b"] mq_stores_def split: if_splits)
  moreover have "insert m (dom P) = dom P" using m by blast
  ultimately show ?thesis using o(1) i(2) by (simp add: mq_run_inv_def)
qed

lemma mq_run_push:
  assumes v: "mq_run_inv (q, P, msgs)" and h: "P m = Some (Urgent b)"
  shows "mq_run_inv (snd (mq_push m q), P(m := None), b # msgs)"
proof -
  note i = mq_run_invD [OF v]
  have m: "m \<in> dom P" and b: "mq_stores (mq_data q m) b" using h(1) i(3) [OF h(1)] by (auto simp: phase_ok_def)
  note a = mq_push_ok [OF i(1) m]
  have "mq_contents (snd (mq_push m q)) = mq_data q m # mq_contents q" using a(3,5) by (simp add: mq_contents_def)
  moreover have "phase_ok (snd (mq_push m q)) m' p" if "(P(m := None)) m' = Some p" for m' p
    using that i(3) phase_ok_frame [of q m' p "snd (mq_push m q)"] a(5,7) by (auto split: if_splits)
  ultimately show ?thesis using a(2) i(2) b by (simp add: mq_run_inv_def)
qed

lemma mq_run_take_head:
  assumes v: "mq_run_inv (q, P, msgs)" and h: "mq_entry q \<noteq> 0" "msg_queue_head q = Some m"
  shows "mq_run_inv (mq_take_head m q, P(m \<mapsto> Reading (hd msgs)), tl msgs)"
proof -
  note i = mq_run_invD [OF v]
  obtain ms where n: "mq_nodes q = m # ms" using mq_okD(2) [OF i(1)] h(2) by (cases "mq_nodes q") auto
  obtain b bs where ms: "msgs = b # bs" "mq_stores (mq_data q m) b" "list_all2 mq_stores (map (mq_data q) ms) bs"
    using i(2) n by (auto simp: mq_contents_def list_all2_Cons1)
  note t = mq_take_head_ok [OF i(1) n]
  have "phase_ok (mq_take_head m q) m' p" if "(P(m \<mapsto> Reading b)) m' = Some p" for m' p
    using that i(3) ms(2) phase_ok_frame [of q m' p "mq_take_head m q"] by (auto simp: phase_ok_def [of _ _ "Reading b"] split: if_splits)
  then show ?thesis using t(1,2) ms by (simp add: mq_run_inv_def mq_contents_def)
qed

lemma mq_run_give_free:
  assumes v: "mq_run_inv (q, P, msgs)" and h: "P m = Some (Reading b)"
  shows "mq_run_inv (mq_free_node m q, P(m := None), msgs)"
proof -
  note i = mq_run_invD [OF v]
  have m: "m \<in> dom P" using h(1) by auto
  note f = mq_free_node_ok [OF i(1) m]
  have "phase_ok (mq_free_node m q) m' p" if "(P(m := None)) m' = Some p" for m' p
    using that i(3) phase_ok_frame [of q m' p "mq_free_node m q"] by (auto split: if_splits)
  then show ?thesis using f(1,2) i(2) by (simp add: mq_run_inv_def mq_contents_def)
qed

lemmas mq_run_steps = mq_run_take_free mq_run_copy_in mq_run_append mq_run_copy_urgent mq_run_push mq_run_take_head mq_run_give_free

lemma mq_step_keeps: "mq_step s s' \<Longrightarrow> mq_run_inv s \<Longrightarrow> mq_run_inv s'"
  by (induction rule: mq_step.induct) (simp_all add: mq_run_steps del: fun_upd_apply)

interpretation mq_run: safe_steps
  "\<lambda>s. \<exists>q. s = (mq_pool_init q, Map.empty, []) \<and> (\<forall>m < unat (max_msgs q). length (mq_data q m) = unat (msg_size q))"
  mq_step mq_run_inv
proof unfold_locales
  fix s :: mq_run assume "\<exists>q. s = (mq_pool_init q, Map.empty, []) \<and> (\<forall>m < unat (max_msgs q). length (mq_data q m) = unat (msg_size q))"
  then show "mq_run_inv s" by (auto simp: mq_run_inv_def mq_pool_init_ok mq_contents_def)
qed (rule mq_step_keeps)

section \<open>Without waiters\<close>

lemma mq_put_size [simp]: "msg_size (mq_put b q) = msg_size q"
  by (simp add: mq_put_def mq_append_def mq_count_def Let_def split: option.split)

lemma fold_mq_put_size [simp]: "msg_size (fold mq_put bs q) = msg_size q"
  by (induction bs arbitrary: q) simp_all

lemma mq_send_many:
  assumes "mq_ok {} (messagequeue k a)" "tlist k (Suspended a) = []" "\<forall>b \<in> set bs. length b \<le> unat (msg_size (messagequeue k a))"
    and "length (mq_contents (messagequeue k a)) + length bs \<le> unat (max_msgs (messagequeue k a))"
  shows "fold (\<lambda>b k. snd (rt_mq_send a b k)) bs k = upd_mq a (fold mq_put bs) k"
  using assms
proof (induction bs arbitrary: k)
  case Nil
  then show ?case by (simp add: upd_mq_def id_def)
next
  case (Cons b bs)
  let ?k = "upd_mq a (mq_put b) k"
  have b: "length b \<le> unat (msg_size (messagequeue k a))" using Cons.prems(3) by simp
  have "upd_mq a (\<lambda>_. mq_put b (messagequeue k a)) k = ?k" by (simp add: upd_mq_def)
  then have s: "snd (rt_mq_send a b k) = ?k"
    using rt_mq_send_wait_room [OF Cons.prems(1) b] Cons.prems(2,4) by (simp add: rt_mq_send_def wake_one_def)
  have "length (mq_contents (messagequeue k a)) < unat (max_msgs (messagequeue k a))" using Cons.prems(4) by simp
  note p = mq_put_effect [OF Cons.prems(1) this b]
  have "mq_ok {} (messagequeue ?k a)" "length (mq_contents (messagequeue ?k a)) = Suc (length (mq_contents (messagequeue k a)))"
    using p(1) by auto
  then show ?case using Cons.IH [of ?k] Cons.prems s p(2,3) by (simp add: upd_mq_twice)
qed

lemma mq_recv_many:
  assumes "mq_ok {} (messagequeue k a)" "tlist k (Senders a) = []" "n \<le> length (mq_contents (messagequeue k a))"
  shows "fst (get_many (rt_mq_recv a sz timeout) n k)
    = map (\<lambda>w. Returns 0 (Some (take (min sz (unat (msg_size (messagequeue k a)))) w))) (fst (get_many mq_get n (messagequeue k a)))"
  using assms
proof (induction n arbitrary: k)
  case (Suc n)
  let ?k = "upd_mq a (\<lambda>q. snd (mq_get q)) k"
  obtain w ws where c: "mq_contents (messagequeue k a) = w # ws" using Suc.prems(3) by (cases "mq_contents (messagequeue k a)") auto
  note g = mq_get_effect [OF Suc.prems(1) c]
  obtain m where m: "msg_queue_head (messagequeue k a) = Some m" "mq_data (mq_take_head m (messagequeue k a)) m = w" using g(1) by blast
  have "rt_mq_recv a sz timeout k = (Returns 0 (Some (take (min sz (unat (msg_size (messagequeue k a)))) w)), ?k)"
    using c m mq_idle_free(3) [OF Suc.prems(1)] Suc.prems(2)
    by (simp add: rt_mq_recv_def mq_recv_loop_def mq_get_def mq_copy_out_def upd_mq_def min_def Let_def)
  then show ?case using Suc.IH [of ?k] Suc.prems g c by (simp add: case_prod_beta)
qed simp

lemma rt_mq_init_effect:
  fixes k :: "'a ipc_scheme"
  assumes "\<And>m. m < unat (max_msgs (messagequeue (rt_mq_init a name mem msz psz flag k) a)) \<Longrightarrow>
      length (mem m) = unat (msg_size (messagequeue (rt_mq_init a name mem msz psz flag k) a))"
  defines "k' \<equiv> rt_mq_init a name mem msz psz flag k"
  shows "mq_ok {} (messagequeue k' a)" "mq_contents (messagequeue k' a) = []"
    "tlist k' (Suspended a) = []" "tlist k' (Senders a) = []"
    "msg_size (messagequeue k' a) = ucast (RT_ALIGN msz RT_ALIGN_SIZE)"
    "max_msgs (messagequeue k' a) = ucast (psz div (ucast (msg_size (messagequeue k' a)) + 4))"
proof -
  let ?s = "ucast (RT_ALIGN msz RT_ALIGN_SIZE) :: u16"
  let ?q = "(messagequeue k a)\<lparr>msg_size := ?s, max_msgs := ucast (psz div (ucast ?s + 4)), mq_data := mem\<rparr>"
  have m: "messagequeue k' a = mq_pool_init ?q"
    by (simp add: k'_def rt_mq_init_def mq_setup_def upd_mq_def Let_def)
  have sz: "max_msgs (mq_pool_init ?q) = max_msgs ?q" "msg_size (mq_pool_init ?q) = msg_size ?q"
    by (simp_all add: mq_pool_init_def Let_def)
  have l: "length (mq_data ?q x) = unat (msg_size ?q)" if "x < unat (max_msgs ?q)" for x
    using assms(1) that unfolding k'_def [symmetric] m sz by simp
  show "mq_ok {} (messagequeue k' a)" "mq_contents (messagequeue k' a) = []"
    "msg_size (messagequeue k' a) = ucast (RT_ALIGN msz RT_ALIGN_SIZE)"
    "max_msgs (messagequeue k' a) = ucast (psz div (ucast (msg_size (messagequeue k' a)) + 4))"
    unfolding m using mq_pool_init_ok [OF l] by (simp_all add: mq_contents_def)
  show "tlist k' (Suspended a) = []" "tlist k' (Senders a) = []"
    by (simp_all add: k'_def rt_mq_init_def mq_setup_def ipc_object_init_def Let_def)
qed

section \<open>Properties\<close>

text \<open>
  C10. Message queues refine a bounded queue of messages with waiting receivers and senders: on every
  consistent state with no call in progress, \<open>rt_mq_send_wait\<close>, \<open>rt_mq_urgent\<close> and \<open>rt_mq_recv\<close>
  by the running thread return what the specification returns for an element that holds the
  message (the receiver gets at most \<open>msg_size\<close> and at most as many bytes as it asks for), and
  leave the specification's contents and wait lists; the pool and the kernel stay consistent.
\<close>

theorem rt_mq_refines:
  assumes "kernel_inv k" "mq_ok {} (messagequeue k a)" "rt_current_thread k = Some t" "tstat k t = RT_THREAD_RUNNING"
    and "ipc_flag k a \<in> {RT_IPC_FLAG_FIFO, RT_IPC_FLAG_PRIO}" "length b \<le> unat (msg_size (messagequeue k a))"
  shows "(case rt_mq_send_wait a b timeout k of (r, k') \<Rightarrow>
      (\<exists>w. mq_stores w b \<and> (r, mq_abs a k')
        = send_spec (unat (max_msgs (messagequeue k a))) (wait_place (ipc_flag k a) (prio k) t) timeout (rt_tick k) w (mq_abs a k))
      \<and> kernel_inv k' \<and> mq_ok {} (messagequeue k' a))
    \<and> (case rt_mq_urgent a b k of (r, k') \<Rightarrow>
      (\<exists>w. mq_stores w b \<and> (r, mq_abs a k') = urgent_spec (unat (max_msgs (messagequeue k a))) w (mq_abs a k))
      \<and> kernel_inv k' \<and> mq_ok {} (messagequeue k' a))
    \<and> (case rt_mq_recv a sz timeout k of (r, k') \<Rightarrow>
      (case recv_spec (wait_place (ipc_flag k a) (prio k) t) timeout (rt_tick k) (mq_abs a k) of (r0, s) \<Rightarrow>
         (r, mq_abs a k') = (map_outcome (take (min sz (unat (msg_size (messagequeue k a))))) r0, s))
      \<and> kernel_inv k' \<and> mq_ok {} (messagequeue k' a))"
  using rt_mq_send_wait_effect [OF assms, of timeout] rt_mq_urgent_effect [OF assms(1,2,6)]
    rt_mq_recv_effect [OF assms(1-5), of sz timeout] by (intro conjI)

text \<open>The example kernel with a queue of two messages of four bytes.\<close>

definition example_mq :: ipc where
  "example_mq = upd_mq 4 (\<lambda>q. mq_pool_init (q\<lparr>msg_size := 4, max_msgs := 2, mq_data := \<lambda>_. [0, 0, 0, 0]\<rparr>)) example_ipc"

lemma example_mq_sel:
  "kernel_inv example_mq" "mq_ok {} (messagequeue example_mq 4)" "rt_current_thread example_mq = Some 1" "tstat example_mq 1 = 3"
  "ipc_flag example_mq 4 = 0" "msg_size (messagequeue example_mq 4) = 4" "max_msgs (messagequeue example_mq 4) = 2"
  "mq_abs 4 example_mq = ([], [], [])"
proof -
  let ?q = "(messagequeue example_ipc 4)\<lparr>msg_size := 4, max_msgs := 2, mq_data := \<lambda>_. [0, 0, 0, 0]\<rparr>"
  have p: "mq_ok {} (mq_pool_init ?q)" "mq_nodes (mq_pool_init ?q) = []" "max_msgs (mq_pool_init ?q) = 2" "msg_size (mq_pool_init ?q) = 4"
    using mq_pool_init_ok [of ?q] by simp_all
  show "ipc_flag example_mq 4 = 0"
    using fun_cong [OF example_ipc_sel(6), of 4] unfolding ipc_flag_def example_mq_def by simp
  show "kernel_inv example_mq" "mq_ok {} (messagequeue example_mq 4)" "rt_current_thread example_mq = Some 1" "tstat example_mq 1 = 3"
    "msg_size (messagequeue example_mq 4) = 4" "max_msgs (messagequeue example_mq 4) = 2" "mq_abs 4 example_mq = ([], [], [])"
    using p by (simp_all add: example_mq_def upd_ipc_inv mq_abs_def mq_contents_def)
qed

theorem rt_mq_refines_witness:
  "\<exists>w. mq_stores w [1, 2] \<and> mq_abs 4 (snd (rt_mq_send_wait 4 [1, 2] 0 example_mq)) = ([w], [], [])"
  using rt_mq_refines [OF example_mq_sel(1-4), of "[1, 2]" 0 0]
  by (auto simp: example_mq_sel(5-8) case_prod_beta)

text \<open>
  C6. Interleaved senders and receivers cannot corrupt a message queue: from an initialised pool, in
  every sequence of the steps the calls make between the points where they enable interrupts,
  no node is lost or held twice, the queue holds exactly the messages that were put in and not taken,
  in their order, a node that a receiver copies out still holds its message, a receiver that
  finds \<open>entry\<close> non-zero finds a head, and the entry count never overflows.
\<close>

theorem rt_mq_interleaving:
  assumes "mq_step\<^sup>*\<^sup>* (mq_pool_init q0, Map.empty, []) (q, P, msgs)"
    and "\<forall>m < unat (max_msgs q0). length (mq_data q0 m) = unat (msg_size q0)"
  shows "card (dom P) + length (mq_free_nodes q) + length (mq_nodes q) = unat (max_msgs q)
    \<and> distinct (mq_free_nodes q @ mq_nodes q) \<and> dom P \<inter> set (mq_free_nodes q @ mq_nodes q) = {}
    \<and> list_all2 mq_stores (mq_contents q) msgs \<and> unat (mq_entry q) = length msgs
    \<and> (\<forall>m b. P m = Some (Reading b) \<longrightarrow> mq_stores (mq_data q m) b)
    \<and> (mq_entry q \<noteq> 0 \<longrightarrow> msg_queue_head q \<noteq> None)
    \<and> (\<forall>m b. P m = Some (Filled b) \<longrightarrow> fst (mq_append m q) = RT_EOK)
    \<and> (\<forall>m b. P m = Some (Urgent b) \<longrightarrow> fst (mq_push m q) = RT_EOK)"
proof -
  have "mq_run_inv (q, P, msgs)" by (rule mq_run.reach_inv [OF _ assms(1)]) (use assms(2) in blast)
  note i = mq_run_invD [OF this]
  note d = mq_okD [OF i(1)]
  have "unat (mq_entry q) = length msgs" using d(7) list_all2_lengthD [OF i(2)] by (simp add: mq_contents_def)
  moreover have "msg_queue_head q \<noteq> None" if "mq_entry q \<noteq> 0"
    using that d(2,7) by (cases "mq_nodes q") (auto simp: unat_eq_0)
  moreover have "fst (mq_append m q) = RT_EOK" if "P m = Some (Filled b)" for m b
    using i(3) [OF that] that by (intro mq_append_ok(1) [OF i(1)]) (auto simp: phase_ok_def)
  moreover have "fst (mq_push m q) = RT_EOK" if "P m = Some (Urgent b)" for m b
    using that by (intro mq_push_ok(1) [OF i(1)]) auto
  moreover have "mq_stores (mq_data q m) b" if "P m = Some (Reading b)" for m b using i(3) [OF that] by (simp add: phase_ok_def)
  ultimately show ?thesis using mq_ok_card [OF i(1)] d(3,4) i(2) by blast
qed

theorem rt_mq_interleaving_witness:
  "\<exists>q P. mq_step\<^sup>*\<^sup>* (mq_pool_init (messagequeue example_mq 4), Map.empty, []) (q, P, []) \<and> card (dom P) = 1
    \<and> length (mq_free_nodes q) + length (mq_nodes q) = 1"
proof -
  let ?x = "messagequeue example_mq 4"
  have l: "\<forall>m < unat (max_msgs ?x). length (mq_data ?x m) = unat (msg_size ?x)"
    using mq_okD(8) [OF example_mq_sel(2)] by blast
  note i = mq_pool_init_ok [of ?x]
  have "mq_free_nodes (mq_pool_init ?x) \<noteq> []" using i(5) l example_mq_sel(7) by auto
  then obtain m where m: "msg_queue_free (mq_pool_init ?x) = Some m"
    using mq_okD(1) [OF i(1)] l by (cases "mq_free_nodes (mq_pool_init ?x)") auto
  let ?q = "mq_take_free m (mq_pool_init ?x)" and ?P = "[m \<mapsto> Taken []]"
  have s: "mq_step\<^sup>*\<^sup>* (mq_pool_init ?x, Map.empty, []) (?q, ?P, [])"
    using mq_step.take_free [OF m, of "[]" Map.empty "[]"] by (auto intro: r_into_rtranclp)
  have "max_msgs ?q = 2" using i(3) l example_mq_sel(7) by (simp add: mq_take_free_def)
  then show ?thesis using rt_mq_interleaving [OF s l] s by (intro exI [of _ ?q] exI [of _ ?P]) simp
qed

text \<open>
  First in, first out: after \<open>rt_mq_init\<close> with messages of at most 65532 bytes and memory for
  them, messages of at most that size sent with \<open>rt_mq_send\<close>, no more than the pool has nodes, are
  returned in the order in which they were sent by as many calls of \<open>rt_mq_recv\<close> with a buffer that
  is large enough; each result begins with the bytes of its message.
\<close>

theorem rt_mq_fifo:
  assumes "unat msz \<le> 65532" "\<forall>b \<in> set bs. length b \<le> unat msz \<and> length b \<le> sz"
    and "k' = rt_mq_init a name mem msz pool_size flag k"
    and "\<forall>m < unat (max_msgs (messagequeue k' a)). length (mem m) = unat (msg_size (messagequeue k' a))"
    and "length bs \<le> unat (max_msgs (messagequeue k' a))"
  shows "list_all2 (\<lambda>r b. \<exists>w. r = Returns RT_EOK (Some w) \<and> take (length b) w = b)
    (fst (get_many (rt_mq_recv a sz timeout) (length bs) (fold (\<lambda>b k. snd (rt_mq_send a b k)) bs k'))) bs"
proof -
  let ?q = "messagequeue k' a"
  note i = rt_mq_init_effect [of a name mem msz pool_size flag k, folded assms(3)]
  have m: "\<And>m. m < unat (max_msgs ?q) \<Longrightarrow> length (mem m) = unat (msg_size ?q)" using assms(4) by blast
  have al: "unat (RT_ALIGN msz 4) = (unat msz + 3) div 4 * 4" using assms(1) by (intro RT_ALIGN4) simp
  have le: "(unat msz + 3) div 4 \<le> 65535 div 4" using assms(1) by (intro div_le_mono) simp
  then have "unat (ucast (RT_ALIGN msz 4) :: u16) = (unat msz + 3) div 4 * 4"
    using al by (simp add: unsigned_ucast_eq take_bit_nat_eq_self)
  then have ms: "unat msz \<le> unat (msg_size ?q)" using i(5) m by (simp add: assms(3))
  have fit: "\<forall>b \<in> set bs. length b \<le> unat (msg_size ?q)" using assms(2) ms by fastforce
  have room: "length (mq_contents ?q) + length bs \<le> unat (max_msgs ?q)" using i(2) m assms(5) by simp
  obtain ws where w: "list_all2 mq_stores ws bs" "mq_ok {} (fold mq_put bs ?q)" "mq_contents (fold mq_put bs ?q) = ws"
    using mqq.put_many [of ?q bs] i(1,2) m fit room by auto
  let ?k = "upd_mq a (fold mq_put bs) k'"
  have k: "fold (\<lambda>b k. snd (rt_mq_send a b k)) bs k' = ?k" by (rule mq_send_many) (use i m fit room in simp_all)
  have g: "fst (get_many mq_get (length bs) (fold mq_put bs ?q)) = ws"
    using mqq.get_many_contents [OF w(2), of "length bs"] w(3) list_all2_lengthD [OF w(1)] by simp
  have "fst (get_many (rt_mq_recv a sz timeout) (length bs) ?k)
      = map (\<lambda>w. Returns 0 (Some (take (min sz (unat (msg_size ?q))) w))) ws"
    using mq_recv_many [of ?k a "length bs" sz timeout] w i(4) m g list_all2_lengthD [OF w(1)] by simp
  moreover have "take (length b) (take (min sz (unat (msg_size ?q))) x) = b" if "b \<in> set bs" "mq_stores x b" for x b
    using that fit assms(2) by (simp add: mq_stores_def min_absorb1)
  then have "list_all2 (\<lambda>x b. take (length b) (take (min sz (unat (msg_size ?q))) x) = b) ws bs"
    using w(1) by (auto simp: list_all2_conv_all_nth)
  ultimately show ?thesis unfolding k by (simp add: list_all2_conv_all_nth)
qed

theorem rt_mq_fifo_witness:
  "list_all2 (\<lambda>r b. \<exists>w. r = Returns 0 (Some w) \<and> take (length b) w = b)
    (fst (get_many (rt_mq_recv 4 4 0) 2 (fold (\<lambda>b k. snd (rt_mq_send 4 b k)) [[1, 2], [3]]
      (rt_mq_init 4 [109, 113, 0] (\<lambda>_. [0, 0, 0, 0]) 3 16 0 example_ipc)))) [[1, 2], [3]]"
proof -
  let ?k = "rt_mq_init 4 [109, 113, 0] (\<lambda>_. [0, 0, 0, 0]) 3 16 0 example_ipc"
  have s: "msg_size (messagequeue ?k 4) = 4" "max_msgs (messagequeue ?k 4) = 2"
    by (simp_all add: rt_mq_init_def mq_setup_def mq_pool_init_def RT_ALIGN_def Let_def)
  have "list_all2 (\<lambda>r b. \<exists>w. r = Returns 0 (Some w) \<and> take (length b) w = b)
    (fst (get_many (rt_mq_recv 4 4 0) (length [[1, 2], [3 :: u8]]) (fold (\<lambda>b k. snd (rt_mq_send 4 b k)) [[1, 2], [3]] ?k))) [[1, 2], [3]]"
    by (rule rt_mq_fifo [where msz = 3 and pool_size = 16, OF _ _ refl]) (use s in auto)
  then show ?thesis by (simp add: numeral_2_eq_2)
qed

text \<open>
  \<open>rt_mq_control\<close> with \<open>RT_IPC_CMD_RESET\<close> returns on every consistent state: its loops end, every
  waiting thread is runnable again with error \<open>-RT_ERROR\<close>, and all nodes are free.
\<close>

theorem rt_mq_control_resets:
  assumes "kernel_inv k" "mq_ok {} (messagequeue k a)"
  shows "\<exists>k'. rt_mq_control a 1 k = Some (RT_EOK, k') \<and> kernel_inv k' \<and> mq_abs a k' = ([], [], [])
    \<and> mq_ok {} (messagequeue k' a) \<and> length (mq_free_nodes (messagequeue k' a)) = unat (max_msgs (messagequeue k a))
    \<and> (\<forall>t \<in> set (tlist k (Suspended a)) \<union> set (tlist k (Senders a)).
         tstat k' t \<in> {RT_THREAD_READY, RT_THREAD_RUNNING} \<and> error (thread k' t) = - RT_ERROR)"
proof -
  obtain k1 where k1: "ipc_list_resume_all (Suspended a) k = Some k1" "kernel_inv k1" "tlist k1 (Suspended a) = []"
    "kernel.more k1 = kernel.more k" "\<forall>t \<in> set (tlist k (Suspended a)). tstat k1 t \<in> {1, 3} \<and> error (thread k1 t) = - 1"
    "tlist k1 (Senders a) = tlist k (Senders a)"
    using ipc_list_resume_all_effect [OF assms(1) wait_list_simps(1) [of a]] by auto
  obtain k2 where k2: "ipc_list_resume_all (Senders a) k1 = Some k2" "kernel_inv k2" "tlist k2 (Senders a) = []"
    "kernel.more k2 = kernel.more k1" "\<forall>t \<in> set (tlist k1 (Senders a)). tstat k2 t \<in> {1, 3} \<and> error (thread k2 t) = - 1"
    "\<forall>t. t \<notin> set (tlist k1 (Senders a)) \<longrightarrow> tstat k2 t = tstat k1 t \<and> error (thread k2 t) = error (thread k1 t)"
    "tlist k2 (Suspended a) = tlist k1 (Suspended a)"
    using ipc_list_resume_all_effect [OF k1(2) wait_list_simps(2) [of a]] by auto
  have q: "messagequeue k2 = messagequeue k" using ipc_more_sel(5) [OF k2(4)] ipc_more_sel(5) [OF k1(4)] by simp
  obtain q' where q': "mq_flush (messagequeue k2 a) = Some q'" "mq_ok {} (q'\<lparr>mq_entry := 0\<rparr>)" "mq_nodes q' = []"
    "max_msgs q' = max_msgs (messagequeue k a)"
    using mq_flush_effect [where H = "{}" and q = "messagequeue k a" and e = "mq_entry (messagequeue k a)"] assms(2) q by auto
  let ?u = "upd_mq a (\<lambda>_. q'\<lparr>mq_entry := 0\<rparr>) k2"
  have u: "kernel_inv ?u" using k2(2) by (rule upd_ipc_inv(5))
  have r: "rt_mq_control a 1 k = Some (0, rt_schedule ?u)" using k1(1) k2(1) q'(1) by (simp add: rt_mq_control_def)
  have n: "mq_nodes (q'\<lparr>mq_entry := 0\<rparr>) = []" using q'(3) by (simp add: mq_nodes_def)
  have "tstat (rt_schedule ?u) t \<in> {1, 3} \<and> error (thread (rt_schedule ?u) t) = - 1"
    if "t \<in> set (tlist k (Suspended a)) \<union> set (tlist k (Senders a))" for t
    using that k1(5,6) k2(5,6) rt_schedule_tstat [of ?u t] u by (cases "t \<in> set (tlist k (Senders a))") (auto simp: kernel_inv_def)
  then show ?thesis using r u q'(2,4) n k1(3) k2(3,7) mq_ok_card [OF q'(2)]
    by (simp add: rt_schedule_kernel_inv wait_lists_schedule mq_abs_def mq_contents_def)
qed

theorem rt_mq_control_resets_witness:
  "\<exists>k'. rt_mq_control 4 1 example_mq = Some (0, k') \<and> mq_abs 4 k' = ([], [], [])"
  using rt_mq_control_resets [OF example_mq_sel(1,2)] by blast

end
