(* ===== verification/Allocator.thy ===== *)
theory Allocator
  imports Prelude
begin

text \<open>
  The contract of an allocator, as its clients use it: \<open>alloc\<close> may refuse, a block that it grants
  overlaps no live block and is as large as asked for, and \<open>release\<close> ends the life of exactly one
  block. The heap (\<open>Mem\<close>) and the memory pools (\<open>Mempool\<close>) are instances; what holds for every
  client is proved here once.
\<close>

definition apart :: "(nat \<times> nat) set \<Rightarrow> bool" where
  "apart L \<longleftrightarrow> (\<forall>(a, e) \<in> L. \<forall>(b, f) \<in> L. (a, e) \<noteq> (b, f) \<longrightarrow> e \<le> b \<or> f \<le> a)"

lemma image_fst_Diff: "(\<And>f. (a, f) \<in> L \<Longrightarrow> e = f) \<Longrightarrow> fst ` (L - {(a, e)}) = fst ` L - {a}"
  by (force simp: image_iff)

text \<open>What a client does, one step at a time: ask for memory, or give back the \<open>i\<close>-th block it
  holds.\<close>

datatype 'q client_op = Ask 'q | Give_back nat

fun client :: "('q \<Rightarrow> 'h \<Rightarrow> (nat option \<times> 'h) option) \<Rightarrow> (nat \<Rightarrow> 'h \<Rightarrow> 'h option) \<Rightarrow> 'q client_op list \<Rightarrow> nat list \<times> 'h \<Rightarrow> (nat list \<times> 'h) option" where
  "client alloc release [] (held, h) = Some (held, h)"
| "client alloc release (Ask q # ops) (held, h) =
     Option.bind (alloc q h) (\<lambda>(r, h). client alloc release ops (case r of None \<Rightarrow> held | Some p \<Rightarrow> held @ [p], h))"
| "client alloc release (Give_back i # ops) (held, h) =
     (if i < length held then
        Option.bind (release (held ! i) h) (\<lambda>h. client alloc release ops (take i held @ drop (Suc i) held, h))
      else client alloc release ops (held, h))"

locale allocator =
  fixes ok :: "'h \<Rightarrow> bool" and live :: "'h \<Rightarrow> (nat \<times> nat) set" and valid :: "'q \<Rightarrow> bool" and need :: "'q \<Rightarrow> nat"
    and alloc :: "'q \<Rightarrow> 'h \<Rightarrow> (nat option \<times> 'h) option" and release :: "nat \<Rightarrow> 'h \<Rightarrow> 'h option"
  assumes live_apart: "ok h \<Longrightarrow> apart (live h)"
    and live_bounds: "ok h \<Longrightarrow> (a, e) \<in> live h \<Longrightarrow> a < e"
    and alloc: "ok h \<Longrightarrow> valid q \<Longrightarrow> \<exists>r h'. alloc q h = Some (r, h') \<and> ok h'
      \<and> (case r of None \<Rightarrow> live h' = live h | Some p \<Rightarrow> \<exists>e. (p, e) \<notin> live h \<and> live h' = insert (p, e) (live h) \<and> p + need q \<le> e)"
    and release: "ok h \<Longrightarrow> (p, e) \<in> live h \<Longrightarrow> \<exists>h'. release p h = Some h' \<and> ok h' \<and> live h' = live h - {(p, e)}"
begin

lemma live_inj:
  assumes "ok h" "(a, e) \<in> live h" "(a, f) \<in> live h"
  shows "e = f"
proof (rule ccontr)
  assume "e \<noteq> f"
  then have "e \<le> a \<or> f \<le> a" using live_apart [OF assms(1)] assms(2,3) unfolding apart_def by blast
  then show False using live_bounds [OF assms(1)] assms(2,3) by (meson leD)
qed

text \<open>Every client that gives back only what it holds runs to its end, and then the blocks it holds
  and those live before are the live ones.\<close>

lemma client_runs:
  assumes "ok h" "\<forall>q. Ask q \<in> set ops \<longrightarrow> valid q" "distinct held" "set held \<subseteq> fst ` live h"
  shows "\<exists>held' h'. client alloc release ops (held, h) = Some (held', h') \<and> ok h' \<and> apart (live h') \<and> distinct held'
    \<and> fst ` live h' = (fst ` live h - set held) \<union> set held' \<and> set held' \<inter> (fst ` live h - set held) = {}"
  using assms
proof (induction ops arbitrary: held h)
  case Nil
  then show ?case using live_apart [of h] by auto
next
  case (Cons x ops)
  have v: "\<forall>q. Ask q \<in> set ops \<longrightarrow> valid q" using Cons.prems(2) by simp
  show ?case
  proof (cases x)
    case (Ask q)
    obtain r h1 where r: "alloc q h = Some (r, h1)" "ok h1" and
      l: "case r of None \<Rightarrow> live h1 = live h | Some p \<Rightarrow> \<exists>e. (p, e) \<notin> live h \<and> live h1 = insert (p, e) (live h) \<and> p + need q \<le> e"
      using alloc [OF Cons.prems(1)] Cons.prems(2) Ask by fastforce
    show ?thesis
    proof (cases r)
      case None
      then show ?thesis using Cons.IH [OF r(2) v Cons.prems(3)] Cons.prems(4) l r(1) Ask by simp
    next
      case (Some p)
      obtain e where e: "(p, e) \<notin> live h" "live h1 = insert (p, e) (live h)" using l Some by auto
      have "p \<notin> fst ` live h" using e live_inj [OF r(2)] by fastforce
      then have n: "p \<notin> set held" "fst ` live h1 - set (held @ [p]) = fst ` live h - set held" using Cons.prems(4) e(2) by auto
      have d: "distinct (held @ [p])" "set (held @ [p]) \<subseteq> fst ` live h1" using n(1) Cons.prems(3,4) e(2) by auto
      show ?thesis using Cons.IH [OF r(2) v d] unfolding n(2) using r(1) Some Ask by simp
    qed
  next
    case (Give_back i)
    show ?thesis
    proof (cases "i < length held")
      case True
      let ?held = "take i held @ drop (Suc i) held"
      have split: "held = take i held @ held ! i # drop (Suc i) held" by (rule id_take_nth_drop [OF True])
      have "distinct (take i held @ held ! i # drop (Suc i) held)" using Cons.prems(3) by (simp only: split [symmetric])
      moreover have "set held = set (take i held @ held ! i # drop (Suc i) held)" by (rule arg_cong [OF split])
      ultimately have ds: "distinct ?held" "held ! i \<notin> set ?held" "set held = insert (held ! i) (set ?held)" by auto
      obtain e where e: "(held ! i, e) \<in> live h" using Cons.prems(4) True by (fastforce dest: nth_mem)
      obtain h1 where h1: "release (held ! i) h = Some h1" "ok h1" "live h1 = live h - {(held ! i, e)}"
        using release [OF Cons.prems(1) e] by blast
      have f: "fst ` live h1 = fst ` live h - {held ! i}"
        unfolding h1(3) using live_inj [OF Cons.prems(1) e] by (rule image_fst_Diff)
      have s: "set ?held \<subseteq> fst ` live h1" "fst ` live h1 - set ?held = fst ` live h - set held" using f ds Cons.prems(4) by auto
      show ?thesis using Cons.IH [OF h1(2) v ds(1) s(1)] unfolding s(2) using h1(1) True Give_back by simp
    next
      case False
      then show ?thesis using Cons.IH [OF Cons.prems(1) v Cons.prems(3,4)] Give_back by simp
    qed
  qed
qed

text \<open>A client that starts with nothing and gives everything back leaks nothing.\<close>

lemma client_from_empty:
  assumes "ok h" "live h = {}" "\<forall>q. Ask q \<in> set ops \<longrightarrow> valid q"
  shows "\<exists>held h'. client alloc release ops ([], h) = Some (held, h') \<and> ok h' \<and> apart (live h') \<and> distinct held \<and> fst ` live h' = set held"
  using client_runs [OF assms(1,3), of "[]"] assms(2) by auto

end

end
