(* ===== verification/Mem.thy ===== *)
theory Mem
  imports Kservice Allocator
begin

text \<open>
  The small-memory heap, \<^verbatim>\<open>rt-thread/src/mem.c\<close>. The heap is a sequence of blocks, each a header
  of 12 bytes (\<open>SIZEOF_STRUCT_MEM\<close>) and its payload; \<open>next\<close> and \<open>prev\<close> are offsets from
  \<open>heap_ptr\<close>, and a last header at \<open>heap_end\<close> closes the sequence. Headers and user bytes are
  kept apart here: \<open>hdr\<close> maps the offset of a header to its fields, \<open>bytes\<close> an address to
  user data; that no header lies in a payload is part of the invariant. Offsets are natural numbers,
  with the subtractions of \<open>rt_size_t\<close> that can wrap written out as \<open>sub32\<close>; sizes the caller
  passes are 32-bit words. The outer option is \<open>None\<close> when the call does not return: the heap
  semaphore is taken, or a loop does not end.
\<close>

section \<open>State\<close>

record heap_mem =
  magic :: u16
  used :: u16
  nxt :: nat
  prv :: nat

record small_heap =
  heap_ptr :: nat
  heap_end :: nat
  lfree :: nat
  mem_size_aligned :: nat
  heap_sem :: u16
  used_mem :: u32
  max_mem :: u32
  hdr :: "nat \<Rightarrow> heap_mem"
  bytes :: "nat \<Rightarrow> u8"

abbreviation (input) HEAP_MAGIC :: u16 where "HEAP_MAGIC \<equiv> 0x1ea0"

definition sub32 :: "nat \<Rightarrow> nat \<Rightarrow> nat" where
  "sub32 x y = (x + 2 ^ 32 - y) mod 2 ^ 32"

definition upd_hdr :: "nat \<Rightarrow> (heap_mem \<Rightarrow> heap_mem) \<Rightarrow> small_heap \<Rightarrow> small_heap" where
  "upd_hdr p f h = h\<lparr>hdr := (hdr h)(p := f (hdr h p))\<rparr>"

text \<open>\<open>rt_sem_take(&heap_sem, RT_WAITING_FOREVER)\<close> and \<open>rt_sem_release(&heap_sem)\<close> with nobody
  waiting.\<close>

definition heap_lock :: "small_heap \<Rightarrow> small_heap option" where
  "heap_lock h = (if heap_sem h > 0 then Some (h\<lparr>heap_sem := heap_sem h - 1\<rparr>) else None)"

definition heap_unlock :: "small_heap \<Rightarrow> small_heap" where
  "heap_unlock h = h\<lparr>heap_sem := heap_sem h + 1\<rparr>"

text \<open>The accounting of \<open>RT_MEM_STATS\<close> when a block of \<open>n\<close> bytes is taken.\<close>

definition mem_stats :: "nat \<Rightarrow> small_heap \<Rightarrow> small_heap" where
  "mem_stats n h =
     (let h = h\<lparr>used_mem := used_mem h + word_of_nat n\<rparr>
      in if max_mem h < used_mem h then h\<lparr>max_mem := used_mem h\<rparr> else h)"

section \<open>Operations\<close>

text \<open>\<open>plug_holes\<close> merges a free block with the next block and then with the previous one.\<close>

definition plug_next :: "nat \<Rightarrow> small_heap \<Rightarrow> small_heap" where
  "plug_next mem h =
     (let nmem = nxt (hdr h mem)
      in if mem \<noteq> nmem \<and> used (hdr h nmem) = 0 \<and> nmem \<noteq> heap_end h then
           let h = (if lfree h = nmem then h\<lparr>lfree := mem\<rparr> else h);
               h = upd_hdr mem (\<lambda>m. m\<lparr>nxt := nxt (hdr h nmem)\<rparr>) h
           in upd_hdr (nxt (hdr h nmem)) (\<lambda>m. m\<lparr>prv := mem\<rparr>) h
         else h)"

definition plug_prev :: "nat \<Rightarrow> small_heap \<Rightarrow> small_heap" where
  "plug_prev mem h =
     (let pmem = prv (hdr h mem)
      in if pmem \<noteq> mem \<and> used (hdr h pmem) = 0 then
           let h = (if lfree h = mem then h\<lparr>lfree := pmem\<rparr> else h);
               h = upd_hdr pmem (\<lambda>m. m\<lparr>nxt := nxt (hdr h mem)\<rparr>) h
           in upd_hdr (nxt (hdr h mem)) (\<lambda>m. m\<lparr>prv := pmem\<rparr>) h
         else h)"

definition plug_holes :: "nat \<Rightarrow> small_heap \<Rightarrow> small_heap" where
  "plug_holes mem h = plug_prev mem (plug_next mem h)"

definition rt_system_heap_init :: "u32 \<Rightarrow> u32 \<Rightarrow> small_heap \<Rightarrow> small_heap" where
  "rt_system_heap_init begin_addr end_addr h =
     (let begin_align = RT_ALIGN begin_addr RT_ALIGN_SIZE; end_align = RT_ALIGN_DOWN end_addr RT_ALIGN_SIZE
      in if end_align > 2 * 12 \<and> end_align - 2 * 12 \<ge> begin_align then
           let sz = unat (end_align - begin_align - 2 * 12);
               h = h\<lparr>mem_size_aligned := sz, heap_ptr := unat begin_align\<rparr>;
               h = upd_hdr 0 (\<lambda>m. m\<lparr>magic := HEAP_MAGIC, nxt := sz + 12, prv := 0, used := 0\<rparr>) h;
               h = h\<lparr>heap_end := sz + 12\<rparr>;
               h = upd_hdr (sz + 12) (\<lambda>m. m\<lparr>magic := HEAP_MAGIC, used := 1, nxt := sz + 12, prv := sz + 12\<rparr>) h
           in h\<lparr>heap_sem := 1, lfree := 0\<rparr>
         else h)"

text \<open>The search loop of \<open>rt_malloc\<close>: the offset of the block it will use.\<close>

partial_function (option) malloc_search :: "small_heap \<Rightarrow> nat \<Rightarrow> nat \<Rightarrow> nat option option" where
  "malloc_search h sz ptr =
     (if ptr < sub32 (mem_size_aligned h) sz then
        (if used (hdr h ptr) = 0 \<and> sub32 (nxt (hdr h ptr)) (ptr + 12) \<ge> sz then Some (Some ptr)
         else malloc_search h sz (nxt (hdr h ptr)))
      else Some None)"

text \<open>Using the block: it is split when the rest can hold a header and 12 bytes.\<close>

definition malloc_use :: "nat \<Rightarrow> nat \<Rightarrow> small_heap \<Rightarrow> small_heap" where
  "malloc_use ptr sz h =
     (let h = (if sub32 (nxt (hdr h ptr)) (ptr + 12) \<ge> sz + 12 + 12 then
                 let ptr2 = ptr + 12 + sz;
                     h = upd_hdr ptr2 (\<lambda>m. m\<lparr>magic := HEAP_MAGIC, used := 0, nxt := nxt (hdr h ptr), prv := ptr\<rparr>) h;
                     h = upd_hdr ptr (\<lambda>m. m\<lparr>nxt := ptr2, used := 1\<rparr>) h
                 in mem_stats (sz + 12) (if nxt (hdr h ptr2) \<noteq> mem_size_aligned h + 12
                    then upd_hdr (nxt (hdr h ptr2)) (\<lambda>m. m\<lparr>prv := ptr2\<rparr>) h else h)
               else mem_stats (sub32 (nxt (hdr h ptr)) ptr) (upd_hdr ptr (\<lambda>m. m\<lparr>used := 1\<rparr>) h))
      in upd_hdr ptr (\<lambda>m. m\<lparr>magic := HEAP_MAGIC\<rparr>) h)"

partial_function (option) lfree_advance :: "small_heap \<Rightarrow> nat \<Rightarrow> nat option" where
  "lfree_advance h f =
     (if used (hdr h f) \<noteq> 0 \<and> f \<noteq> heap_end h then lfree_advance h (nxt (hdr h f)) else Some f)"

definition rt_malloc :: "u32 \<Rightarrow> small_heap \<Rightarrow> (nat option \<times> small_heap) option" where
  "rt_malloc size_arg h =
     (if size_arg = 0 then Some (None, h)
      else
        let sz = unat (RT_ALIGN size_arg RT_ALIGN_SIZE)
        in if sz > mem_size_aligned h then Some (None, h)
           else
             let sz = (if sz < 12 then 12 else sz)
             in case heap_lock h of
                  None \<Rightarrow> None
                | Some h \<Rightarrow>
                    (case malloc_search h sz (lfree h) of
                       None \<Rightarrow> None
                     | Some None \<Rightarrow> Some (None, heap_unlock h)
                     | Some (Some ptr) \<Rightarrow>
                         let h = malloc_use ptr sz h
                         in map_option (\<lambda>f. (Some (heap_ptr h + ptr + 12), heap_unlock (h\<lparr>lfree := f\<rparr>)))
                              (if ptr = lfree h then lfree_advance h (lfree h) else Some (lfree h))))"

definition rt_free :: "nat option \<Rightarrow> small_heap \<Rightarrow> small_heap option" where
  "rt_free rmem h =
     (case rmem of
        None \<Rightarrow> Some h
      | Some p \<Rightarrow>
          if p < heap_ptr h \<or> p \<ge> heap_ptr h + heap_end h then Some h
          else
            let mem = sub32 p (heap_ptr h + 12)
            in case heap_lock h of
                 None \<Rightarrow> None
               | Some h \<Rightarrow>
                   let h = upd_hdr mem (\<lambda>m. m\<lparr>used := 0, magic := HEAP_MAGIC\<rparr>) h;
                       h = (if mem < lfree h then h\<lparr>lfree := mem\<rparr> else h);
                       h = h\<lparr>used_mem := used_mem h - word_of_nat (sub32 (nxt (hdr h mem)) mem)\<rparr>
                   in Some (heap_unlock (plug_holes mem h)))"

definition copy_bytes :: "nat \<Rightarrow> nat \<Rightarrow> nat \<Rightarrow> small_heap \<Rightarrow> small_heap" where
  "copy_bytes dst src n h = h\<lparr>bytes := (\<lambda>a. if dst \<le> a \<and> a < dst + n then bytes h (src + (a - dst)) else bytes h a)\<rparr>"

text \<open>Shrinking a block of \<open>sz\<close> bytes in place: the tail becomes a free block.\<close>

definition realloc_shrink :: "nat \<Rightarrow> nat \<Rightarrow> small_heap \<Rightarrow> small_heap" where
  "realloc_shrink ptr newsize h =
     (let ptr2 = ptr + 12 + newsize;
          h = upd_hdr ptr2 (\<lambda>m. m\<lparr>magic := HEAP_MAGIC, used := 0, nxt := nxt (hdr h ptr), prv := ptr\<rparr>) h;
          h = upd_hdr ptr (\<lambda>m. m\<lparr>nxt := ptr2\<rparr>) h;
          h = (if nxt (hdr h ptr2) \<noteq> mem_size_aligned h + 12
               then upd_hdr (nxt (hdr h ptr2)) (\<lambda>m. m\<lparr>prv := ptr2\<rparr>) h else h);
          h = (if ptr2 < lfree h then h\<lparr>lfree := ptr2\<rparr> else h)
      in plug_holes ptr2 h)"

definition rt_realloc :: "nat option \<Rightarrow> u32 \<Rightarrow> small_heap \<Rightarrow> (nat option \<times> small_heap) option" where
  "rt_realloc rmem newsize_arg h =
     (let newsize_w = RT_ALIGN newsize_arg RT_ALIGN_SIZE; newsize = unat newsize_w
      in if newsize > mem_size_aligned h then Some (None, h)
         else if newsize = 0 then map_option (\<lambda>h. (None, h)) (rt_free rmem h)
         else case rmem of
           None \<Rightarrow> rt_malloc newsize_w h
         | Some p \<Rightarrow>
             (case heap_lock h of
                None \<Rightarrow> None
              | Some h \<Rightarrow>
                  if p < heap_ptr h \<or> p \<ge> heap_ptr h + heap_end h then Some (Some p, heap_unlock h)
                  else
                    let ptr = sub32 p (heap_ptr h + 12);
                        sz = sub32 (nxt (hdr h ptr)) (ptr + 12)
                    in if sz = newsize then Some (Some p, heap_unlock h)
                       else if newsize + 12 + 12 < sz then
                         Some (Some p, heap_unlock (realloc_shrink ptr newsize (h\<lparr>used_mem := used_mem h - word_of_nat (sz - newsize)\<rparr>)))
                       else
                         case rt_malloc newsize_w (heap_unlock h) of
                           None \<Rightarrow> None
                         | Some (None, h) \<Rightarrow> Some (None, h)
                         | Some (Some nmem, h) \<Rightarrow>
                             map_option (\<lambda>h. (Some nmem, h))
                               (rt_free (Some p) (copy_bytes nmem p (if sz < newsize then sz else newsize) h))))"

definition rt_calloc :: "u32 \<Rightarrow> u32 \<Rightarrow> small_heap \<Rightarrow> (nat option \<times> small_heap) option" where
  "rt_calloc count sz h =
     (case rt_malloc (count * sz) h of
        None \<Rightarrow> None
      | Some (None, h) \<Rightarrow> Some (None, h)
      | Some (Some p, h) \<Rightarrow>
          Some (Some p, h\<lparr>bytes := (\<lambda>a. if p \<le> a \<and> a < p + unat (count * sz) then 0 else bytes h a)\<rparr>))"

definition rt_memory_info :: "small_heap \<Rightarrow> nat \<times> u32 \<times> u32" where
  "rt_memory_info h = (mem_size_aligned h, used_mem h, max_mem h)"

section \<open>Sequences of blocks\<close>

text \<open>\<open>seg H pv a bs e\<close>: from offset \<open>a\<close> to \<open>e\<close> lie the blocks \<open>bs\<close>, and the block before \<open>a\<close> is
  \<open>pv\<close>.\<close>

primrec seg :: "(nat \<Rightarrow> heap_mem) \<Rightarrow> nat \<Rightarrow> nat \<Rightarrow> nat list \<Rightarrow> nat \<Rightarrow> bool" where
  "seg H pv a [] e \<longleftrightarrow> a = e"
| "seg H pv a (b # bs) e \<longleftrightarrow> b = a \<and> prv (H b) = pv \<and> magic (H b) = HEAP_MAGIC \<and> b + 16 \<le> nxt (H b) \<and> 4 dvd nxt (H b)
     \<and> seg H b (nxt (H b)) bs e"

lemma seg_append:
  "seg H pv a (xs @ ys) e \<longleftrightarrow> (\<exists>m. seg H pv a xs m \<and> seg H (if xs = [] then pv else last xs) m ys e)"
  by (induction xs arbitrary: pv a) auto

lemma seg_cong: "(\<And>b. b \<in> set bs \<Longrightarrow> H' b = H b) \<Longrightarrow> seg H' pv a bs e = seg H pv a bs e"
  by (induction bs arbitrary: pv a) auto

lemma seg_bounds:
  assumes "seg H pv a bs e"
  shows "a \<le> e" "b \<in> set bs \<Longrightarrow> a \<le> b" "b \<in> set bs \<Longrightarrow> b + 16 \<le> nxt (H b)" "b \<in> set bs \<Longrightarrow> nxt (H b) \<le> e" "b \<in> set bs \<Longrightarrow> b < e"
proof -
  have "a \<le> e \<and> (\<forall>b \<in> set bs. a \<le> b \<and> b + 16 \<le> nxt (H b) \<and> nxt (H b) \<le> e)" using assms
    by (induction bs arbitrary: pv a) fastforce+
  then show "a \<le> e" "b \<in> set bs \<Longrightarrow> a \<le> b" "b \<in> set bs \<Longrightarrow> b + 16 \<le> nxt (H b)" "b \<in> set bs \<Longrightarrow> nxt (H b) \<le> e"
    "b \<in> set bs \<Longrightarrow> b < e" by force+
qed

lemma seg_distinct: "seg H pv a bs e \<Longrightarrow> distinct bs"
proof (induction bs arbitrary: pv a)
  case (Cons b bs)
  then show ?case using seg_bounds(2) [of H b "nxt (H b)" bs e b] by auto
qed simp

text \<open>A block inside: what lies before it and after it.\<close>

lemma seg_split:
  assumes "seg H pv a (xs @ b # ys) e"
  shows "seg H pv a xs b" "seg H b (nxt (H b)) ys e" "prv (H b) = (if xs = [] then pv else last xs)" "magic (H b) = HEAP_MAGIC"
    "b + 16 \<le> nxt (H b)" "4 dvd nxt (H b)" "x \<in> set xs \<Longrightarrow> x < b" "x \<in> set xs \<Longrightarrow> nxt (H x) \<le> b" "y \<in> set ys \<Longrightarrow> nxt (H b) \<le> y"
  using assms seg_bounds [of H pv a xs b] seg_bounds(2) [of H b "nxt (H b)" ys e] by (auto simp: seg_append)

text \<open>Only the first block knows what lies before.\<close>

lemma seg_set_prv: "seg H pv a ys e \<Longrightarrow> seg (H(a := (H a)\<lparr>prv := pv'\<rparr>)) pv' a ys e"
proof (cases ys)
  case (Cons y zs)
  assume s: "seg H pv a ys e"
  have "a \<notin> set zs" using seg_distinct [OF s] s Cons by auto
  then have "seg (H(a := (H a)\<lparr>prv := pv'\<rparr>)) a (nxt (H a)) zs e = seg H a (nxt (H a)) zs e" by (intro seg_cong) auto
  then show ?thesis using s Cons by auto
qed simp

section \<open>The invariant\<close>

fun hwalk :: "nat \<Rightarrow> (nat \<Rightarrow> heap_mem) \<Rightarrow> nat \<Rightarrow> nat \<Rightarrow> nat list" where
  "hwalk 0 H e a = []"
| "hwalk (Suc n) H e a = (if a < e then a # hwalk n H e (nxt (H a)) else [])"

definition heap_blocks :: "small_heap \<Rightarrow> nat list" where
  "heap_blocks h = hwalk (heap_end h) (hdr h) (heap_end h) 0"

lemma hwalk_seg: "seg H pv a bs e \<Longrightarrow> length bs \<le> n \<Longrightarrow> hwalk n H e a = bs"
proof (induction bs arbitrary: n pv a)
  case Nil
  then show ?case by (cases n) auto
next
  case (Cons b bs)
  then obtain n' where n: "n = Suc n'" by (cases n) auto
  have "a < e" using seg_bounds(5) [OF Cons.prems(1), of b] Cons.prems(1) by simp
  then show ?case using Cons n by auto
qed

lemma seg_length: "seg H pv a bs e \<Longrightarrow> 16 * length bs \<le> e - a"
proof (induction bs arbitrary: pv a)
  case (Cons b bs)
  have "16 * length bs \<le> e - nxt (H b)" "nxt (H b) \<le> e"
    using Cons.IH [of b "nxt (H b)"] seg_bounds(1) [of H b "nxt (H b)" bs e] Cons.prems by auto
  then show ?case using Cons.prems by auto
qed simp

definition free_in :: "small_heap \<Rightarrow> nat \<Rightarrow> bool" where
  "free_in h b \<longleftrightarrow> used (hdr h b) = 0"

lemma free_in_upd [simp]:
  "free_in (h\<lparr>lfree := x\<rparr>) = free_in h" "free_in (h\<lparr>heap_sem := s\<rparr>) = free_in h" "free_in (h\<lparr>bytes := y\<rparr>) = free_in h"
  "free_in (h\<lparr>used_mem := u\<rparr>) = free_in h"
  by (simp_all add: free_in_def fun_eq_iff)

text \<open>No two neighbours are both free.\<close>

fun coalesced :: "(nat \<Rightarrow> bool) \<Rightarrow> nat list \<Rightarrow> bool" where
  "coalesced f (x # y # bs) \<longleftrightarrow> \<not> (f x \<and> f y) \<and> coalesced f (y # bs)"
| "coalesced f _ \<longleftrightarrow> True"

text \<open>The blocks cover the heap, free neighbours have been merged, and \<open>lfree\<close> is the lowest free
  block, or the end.\<close>

definition heap_inv :: "nat list \<Rightarrow> small_heap \<Rightarrow> bool" where
  "heap_inv bs h \<longleftrightarrow> seg (hdr h) 0 0 bs (heap_end h) \<and> heap_end h = mem_size_aligned h + 12 \<and> 12 \<le> mem_size_aligned h
     \<and> \<not> free_in h (heap_end h) \<and> coalesced (free_in h) bs \<and> lfree h = hd (filter (free_in h) bs @ [heap_end h])
     \<and> heap_ptr h + heap_end h + 12 \<le> 2 ^ 32 \<and> 4 dvd heap_ptr h \<and> 4 dvd mem_size_aligned h"

definition heap_ok :: "small_heap \<Rightarrow> bool" where
  "heap_ok h \<longleftrightarrow> heap_inv (heap_blocks h) h"

lemma heap_inv_blocks: "heap_inv bs h \<Longrightarrow> heap_blocks h = bs"
proof -
  assume "heap_inv bs h"
  then have s: "seg (hdr h) 0 0 bs (heap_end h)" unfolding heap_inv_def by blast
  then have "length bs \<le> heap_end h" using seg_length [OF s] by simp
  then show ?thesis unfolding heap_blocks_def by (rule hwalk_seg [OF s])
qed

lemma heap_inv_ok: "heap_inv bs h \<Longrightarrow> heap_ok h"
  using heap_inv_blocks [of bs h] by (simp add: heap_ok_def)

lemma heap_invD:
  assumes "heap_inv bs h"
  shows "seg (hdr h) 0 0 bs (heap_end h)" "heap_end h = mem_size_aligned h + 12" "12 \<le> mem_size_aligned h"
    "\<not> free_in h (heap_end h)" "coalesced (free_in h) bs" "lfree h = hd (filter (free_in h) bs @ [heap_end h])"
    "heap_ptr h + heap_end h + 12 \<le> 2 ^ 32" "4 dvd heap_ptr h" "4 dvd mem_size_aligned h"
  using assms by (unfold heap_inv_def) blast+

text \<open>The blocks in use with their ends.\<close>

definition used_blocks :: "small_heap \<Rightarrow> (nat \<times> nat) set" where
  "used_blocks h = {(b, nxt (hdr h b)) | b. b \<in> set (heap_blocks h) \<and> \<not> free_in h b}"

lemma coalesced_append:
  "coalesced f (xs @ ys) \<longleftrightarrow> coalesced f xs \<and> coalesced f ys \<and> (xs \<noteq> [] \<longrightarrow> ys \<noteq> [] \<longrightarrow> \<not> (f (last xs) \<and> f (hd ys)))"
proof (induction xs)
  case (Cons a xs)
  then show ?case by (cases xs; cases ys) auto
qed (cases ys; simp)

lemma coalesced_cong: "(\<And>b. b \<in> set bs \<Longrightarrow> f b = g b) \<Longrightarrow> coalesced f bs = coalesced g bs"
  by (induction f bs rule: coalesced.induct) auto

lemma upd_hdr_sel [simp]:
  "hdr (upd_hdr p f h) = (hdr h)(p := f (hdr h p))" "heap_end (upd_hdr p f h) = heap_end h" "lfree (upd_hdr p f h) = lfree h"
  "mem_size_aligned (upd_hdr p f h) = mem_size_aligned h" "heap_ptr (upd_hdr p f h) = heap_ptr h"
  "heap_sem (upd_hdr p f h) = heap_sem h" "bytes (upd_hdr p f h) = bytes h" "used_mem (upd_hdr p f h) = used_mem h"
  "max_mem (upd_hdr p f h) = max_mem h"
  by (simp_all add: upd_hdr_def)

lemma mem_stats_sel [simp]:
  "hdr (mem_stats n h) = hdr h" "heap_end (mem_stats n h) = heap_end h" "lfree (mem_stats n h) = lfree h"
  "mem_size_aligned (mem_stats n h) = mem_size_aligned h" "heap_ptr (mem_stats n h) = heap_ptr h"
  "heap_sem (mem_stats n h) = heap_sem h" "bytes (mem_stats n h) = bytes h"
  "used_mem (mem_stats n h) = used_mem h + word_of_nat n" "max_mem (mem_stats n h) = max (max_mem h) (used_mem h + word_of_nat n)"
  by (auto simp: mem_stats_def Let_def max_def)

lemma sub32_eq: "y \<le> x \<Longrightarrow> x < 2 ^ 32 \<Longrightarrow> sub32 x y = x - y"
proof -
  assume "y \<le> x" "x < 2 ^ 32"
  then have "x + 2 ^ 32 - y = (x - y) + 2 ^ 32" "x - y < 2 ^ 32" by linarith+
  then show ?thesis unfolding sub32_def by (simp only: mod_add_self2 mod_less)
qed

lemma seg_join:
  "seg H pv a xs b \<Longrightarrow> prv (H b) = (if xs = [] then pv else last xs) \<Longrightarrow> magic (H b) = HEAP_MAGIC \<Longrightarrow> b + 16 \<le> nxt (H b) \<Longrightarrow>
     4 dvd nxt (H b) \<Longrightarrow> seg H b (nxt (H b)) ys e \<Longrightarrow> seg H pv a (xs @ b # ys) e"
  by (auto simp: seg_append)

section \<open>Searching\<close>

lemma heap_block_size:
  assumes "heap_inv bs h" "b \<in> set bs"
  shows "sub32 (nxt (hdr h b)) (b + 12) = nxt (hdr h b) - (b + 12)" "b < heap_end h" "nxt (hdr h b) \<le> heap_end h" "b + 16 \<le> nxt (hdr h b)"
proof -
  note d = heap_invD [OF assms(1)] and s = seg_bounds [OF heap_invD(1) [OF assms(1)]]
  show "b < heap_end h" "nxt (hdr h b) \<le> heap_end h" "b + 16 \<le> nxt (hdr h b)" using s(3-5) assms(2) by auto
  then show "sub32 (nxt (hdr h b)) (b + 12) = nxt (hdr h b) - (b + 12)" using d(7) by (intro sub32_eq) auto
qed

definition fits :: "small_heap \<Rightarrow> nat \<Rightarrow> nat \<Rightarrow> bool" where
  "fits h sz b \<longleftrightarrow> b < mem_size_aligned h - sz \<and> free_in h b \<and> b + 12 + sz \<le> nxt (hdr h b)"

lemma malloc_search_eq:
  assumes i: "heap_inv (xs @ ys) h" and sz: "sz \<le> mem_size_aligned h"
  shows "malloc_search h sz (hd (ys @ [heap_end h])) = Some (find (fits h sz) ys)"
  using i
proof (induction ys arbitrary: xs)
  case Nil
  note d = heap_invD [OF i]
  have "sub32 (mem_size_aligned h) sz = mem_size_aligned h - sz" using d(2,7) sz by (intro sub32_eq) auto
  moreover have "\<not> heap_end h < mem_size_aligned h - sz" using d(2) by linarith
  ultimately show ?case by (subst malloc_search.simps) simp
next
  case (Cons b ys)
  note d = heap_invD [OF Cons.prems]
  have l: "sub32 (mem_size_aligned h) sz = mem_size_aligned h - sz" using d(2,7) sz by (intro sub32_eq) auto
  note bs = heap_block_size [OF Cons.prems, of b]
  have s: "seg (hdr h) b (nxt (hdr h b)) ys (heap_end h)" using seg_split(2) [OF d(1)] .
  then have n: "nxt (hdr h b) = hd (ys @ [heap_end h])" by (cases ys) auto
  show ?case
  proof (cases "b < mem_size_aligned h - sz")
    case True
    have "malloc_search h sz b = (if fits h sz b then Some (Some b) else malloc_search h sz (nxt (hdr h b)))"
      using True l bs by (subst malloc_search.simps) (auto simp: fits_def free_in_def)
    then show ?thesis using Cons.IH [of "xs @ [b]"] Cons.prems n by simp
  next
    case False
    have "\<not> fits h sz y" if "y \<in> set ys" for y using seg_split(9) [OF d(1) that] bs False by (auto simp: fits_def)
    then have "find (fits h sz) (b # ys) = None" using False by (auto simp: find_None_iff fits_def)
    moreover have "malloc_search h sz b = Some None" using False l by (subst malloc_search.simps) simp
    ultimately show ?thesis by simp
  qed
qed

lemma find_append: "find P (xs @ ys) = (case find P xs of None \<Rightarrow> find P ys | Some x \<Rightarrow> Some x)"
  by (induction xs) auto

lemma lfree_split:
  assumes "heap_inv bs h"
  obtains xs ys where "bs = xs @ ys" "lfree h = hd (ys @ [heap_end h])" "\<forall>x \<in> set xs. \<not> free_in h x" "ys \<noteq> [] \<Longrightarrow> free_in h (hd ys)"
proof -
  let ?xs = "takeWhile (\<lambda>b. \<not> free_in h b) bs" and ?ys = "dropWhile (\<lambda>b. \<not> free_in h b) bs"
  have "hd (filter (free_in h) bs @ [e]) = hd (?ys @ [e])" for e by (induction bs) auto
  then have "lfree h = hd (?ys @ [heap_end h])" using heap_invD(6) [OF assms] by simp
  moreover have "\<forall>x \<in> set ?xs. \<not> free_in h x" by (auto dest: set_takeWhileD)
  moreover have "?ys \<noteq> [] \<Longrightarrow> free_in h (hd ?ys)" using hd_dropWhile by blast
  ultimately show thesis using that [of ?xs ?ys] by simp
qed

text \<open>The search ends, with the first block that fits.\<close>

lemma malloc_search_lfree:
  assumes i: "heap_inv bs h" and sz: "sz \<le> mem_size_aligned h"
  shows "malloc_search h sz (lfree h) = Some (find (fits h sz) bs)"
proof -
  obtain xs ys where l: "bs = xs @ ys" "lfree h = hd (ys @ [heap_end h])" "\<forall>x \<in> set xs. \<not> free_in h x"
    using lfree_split [OF i] by metis
  have "find (fits h sz) xs = None" using l(3) by (auto simp: find_None_iff fits_def)
  then show ?thesis using malloc_search_eq [of xs ys h sz] i sz l by (simp add: find_append)
qed

lemma lfree_advance_eq:
  assumes "seg (hdr h) pv a ys (heap_end h)"
  shows "lfree_advance h a = Some (hd (filter (free_in h) ys @ [heap_end h]))"
  using assms
proof (induction ys arbitrary: pv a)
  case Nil
  then show ?case by (subst lfree_advance.simps) simp
next
  case (Cons b ys)
  have "b \<noteq> heap_end h" using seg_bounds(5) [OF Cons.prems, of b] by auto
  then have "lfree_advance h b = (if free_in h b then Some b else lfree_advance h (nxt (hdr h b)))"
    by (subst lfree_advance.simps) (simp add: free_in_def)
  then show ?case using Cons by auto
qed

section \<open>Splitting a block\<close>

text \<open>The headers after a block \<open>b\<close> has been cut at \<open>p2\<close>: \<open>u\<close> is the new used flag of \<open>b\<close>.\<close>

definition cut :: "nat \<Rightarrow> nat \<Rightarrow> u16 \<Rightarrow> nat \<Rightarrow> (nat \<Rightarrow> heap_mem) \<Rightarrow> nat \<Rightarrow> heap_mem" where
  "cut b p2 u e H = (let n = nxt (H b)
     in H(p2 := \<lparr>magic = HEAP_MAGIC, used = 0, nxt = n, prv = b\<rparr>, b := \<lparr>magic = HEAP_MAGIC, used = u, nxt = p2, prv = prv (H b)\<rparr>,
          n := if n = e then H n else (H n)\<lparr>prv := p2\<rparr>))"

lemma cut_apply:
  assumes "p2 < nxt (H b)" "b < p2"
  shows "cut b p2 u e H p2 = \<lparr>magic = HEAP_MAGIC, used = 0, nxt = nxt (H b), prv = b\<rparr>"
    "cut b p2 u e H b = \<lparr>magic = HEAP_MAGIC, used = u, nxt = p2, prv = prv (H b)\<rparr>"
    "cut b p2 u e H (nxt (H b)) = (if nxt (H b) = e then H e else (H (nxt (H b)))\<lparr>prv := p2\<rparr>)"
    "x \<noteq> p2 \<Longrightarrow> x \<noteq> b \<Longrightarrow> x \<noteq> nxt (H b) \<Longrightarrow> cut b p2 u e H x = H x"
    "x \<noteq> p2 \<Longrightarrow> x \<noteq> b \<Longrightarrow> used (cut b p2 u e H x) = used (H x)" "x \<noteq> p2 \<Longrightarrow> x \<noteq> b \<Longrightarrow> nxt (cut b p2 u e H x) = nxt (H x)"
  using assms by (auto simp: cut_def Let_def)

lemma seg_cut:
  assumes s: "seg H pv a (xs @ b # ys) e" and p2: "b + 16 \<le> p2" "p2 + 16 \<le> nxt (H b)" "4 dvd p2"
  shows "seg (cut b p2 u e H) pv a (xs @ b # p2 # ys) e"
proof -
  let ?H = "cut b p2 u e H" and ?n = "nxt (H b)"
  note d = seg_split [OF s] and c = cut_apply [of p2 H b]
  have lt: "p2 < ?n" "b < p2" using p2 by simp_all
  have "seg ?H pv a xs b = seg H pv a xs b"
    using d(7) lt by (intro seg_cong c(4) [OF lt]) (auto dest!: d(7))
  then have x: "seg ?H pv a xs b" using d(1) by simp
  have "seg ?H p2 ?n ys e"
  proof (cases ys)
    case Nil
    then show ?thesis using d(2) by simp
  next
    case (Cons y zs)
    have ne: "?n \<noteq> e" using seg_bounds(5) [OF d(2), of y] d(2) Cons by auto
    have "seg ?H p2 ?n ys e = seg (H(?n := (H ?n)\<lparr>prv := p2\<rparr>)) p2 ?n ys e"
      using d(9) lt by (intro seg_cong) (force simp: c(3) [OF lt] ne intro: c(4) [OF lt])
    then show ?thesis using seg_set_prv [OF d(2)] by simp
  qed
  then have "seg ?H b p2 (p2 # ys) e" using c(1) [OF lt] d(6) p2 by simp
  then show ?thesis using x c(2) [OF lt] d(3) p2 by (intro seg_join) simp_all
qed

lemma header_eq:
  "m\<lparr>magic := a, used := u, nxt := n, prv := p\<rparr> = \<lparr>magic = a, used = u, nxt = n, prv = p\<rparr>"
  "m\<lparr>nxt := n, used := u, magic := a\<rparr> = \<lparr>magic = a, used = u, nxt = n, prv = prv m\<rparr>" for m :: heap_mem
  by (cases m; simp)+

lemma malloc_use_hdr:
  assumes i: "heap_inv (xs @ b # ys) h" and sz: "12 \<le> sz" "b + 12 + sz \<le> nxt (hdr h b)"
  shows "hdr (malloc_use b sz h) = (if b + 12 + sz + 24 \<le> nxt (hdr h b) then cut b (b + 12 + sz) 1 (heap_end h) (hdr h)
      else (hdr h)(b := (hdr h b)\<lparr>used := 1\<rparr>))"
    "heap_end (malloc_use b sz h) = heap_end h" "mem_size_aligned (malloc_use b sz h) = mem_size_aligned h"
    "heap_ptr (malloc_use b sz h) = heap_ptr h" "lfree (malloc_use b sz h) = lfree h" "heap_sem (malloc_use b sz h) = heap_sem h"
    "bytes (malloc_use b sz h) = bytes h"
proof -
  note d = heap_invD [OF i] and q = seg_split [OF heap_invD(1) [OF i]]
  have r: "sub32 (nxt (hdr h b)) (b + 12) = nxt (hdr h b) - (b + 12)" using heap_block_size(1) [OF i, of b] by simp
  show "hdr (malloc_use b sz h) = (if b + 12 + sz + 24 \<le> nxt (hdr h b) then cut b (b + 12 + sz) 1 (heap_end h) (hdr h)
      else (hdr h)(b := (hdr h b)\<lparr>used := 1\<rparr>))"
  proof (cases "b + 12 + sz + 24 \<le> nxt (hdr h b)")
    case True
    have "nxt (hdr h b) \<noteq> b" "nxt (hdr h b) \<noteq> b + 12 + sz" "b \<noteq> b + 12 + sz" using True by simp_all
    moreover have "sz + 12 + 12 \<le> sub32 (nxt (hdr h b)) (b + 12)" using True r by simp
    ultimately show ?thesis using True d(2)
      by (simp add: malloc_use_def cut_def header_eq Let_def fun_upd_twist)
  next
    case False
    then have "\<not> sz + 12 + 12 \<le> sub32 (nxt (hdr h b)) (b + 12)" using r by simp
    moreover have "(hdr h b)\<lparr>used := 1, magic := HEAP_MAGIC\<rparr> = (hdr h b)\<lparr>used := 1\<rparr>" using q(4) by (cases "hdr h b") simp
    ultimately show ?thesis using False by (simp add: malloc_use_def Let_def)
  qed
qed (simp_all add: malloc_use_def Let_def)

lemma malloc_use_stats:
  assumes i: "heap_inv (xs @ b # ys) h" and sz: "12 \<le> sz" "b + 12 + sz \<le> nxt (hdr h b)"
  shows "used_mem (malloc_use b sz h) = used_mem h + word_of_nat (nxt (hdr (malloc_use b sz h) b) - b)"
    "max_mem (malloc_use b sz h) = max (max_mem h) (used_mem (malloc_use b sz h))"
proof -
  have r: "sub32 (nxt (hdr h b)) (b + 12) = nxt (hdr h b) - (b + 12)" using heap_block_size(1) [OF i, of b] by simp
  have r0: "sub32 (nxt (hdr h b)) b = nxt (hdr h b) - b"
    using heap_block_size(3,4) [OF i, of b] heap_invD(7) [OF i] by (intro sub32_eq) auto
  show "used_mem (malloc_use b sz h) = used_mem h + word_of_nat (nxt (hdr (malloc_use b sz h) b) - b)"
  proof (cases "b + 12 + sz + 24 \<le> nxt (hdr h b)")
    case True
    moreover have "sz + 12 + 12 \<le> sub32 (nxt (hdr h b)) (b + 12)" using True r by simp
    ultimately show ?thesis using cut_apply(2) [of "b + 12 + sz" "hdr h" b] unfolding malloc_use_hdr(1) [OF i sz]
      by (simp add: malloc_use_def Let_def)
  next
    case False
    moreover have "\<not> sz + 12 + 12 \<le> sub32 (nxt (hdr h b)) (b + 12)" using False r by simp
    ultimately show ?thesis using r0 unfolding malloc_use_hdr(1) [OF i sz] by (simp add: malloc_use_def Let_def)
  qed
  show "max_mem (malloc_use b sz h) = max (max_mem h) (used_mem (malloc_use b sz h))" by (simp add: malloc_use_def Let_def)
qed

section \<open>Allocation\<close>

definition malloc_blocks :: "nat list \<Rightarrow> nat \<Rightarrow> nat list \<Rightarrow> nat \<Rightarrow> small_heap \<Rightarrow> nat list" where
  "malloc_blocks xs b ys sz h = xs @ b # (if b + 12 + sz + 24 \<le> nxt (hdr h b) then [b + 12 + sz] else []) @ ys"

lemma malloc_use_free:
  assumes i: "heap_inv (xs @ b # ys) h" and f: "free_in h b" and sz: "12 \<le> sz" "b + 12 + sz \<le> nxt (hdr h b)"
  shows "\<not> free_in (malloc_use b sz h) b" "x \<in> set (xs @ ys @ [heap_end h]) \<Longrightarrow> free_in (malloc_use b sz h) x = free_in h x"
    "x \<in> set (xs @ ys) \<Longrightarrow> nxt (hdr (malloc_use b sz h) x) = nxt (hdr h x)"
    "b + 12 + sz + 24 \<le> nxt (hdr h b) \<Longrightarrow> free_in (malloc_use b sz h) (b + 12 + sz)"
    "nxt (hdr (malloc_use b sz h) b) = (if b + 12 + sz + 24 \<le> nxt (hdr h b) then b + 12 + sz else nxt (hdr h b))"
proof -
  let ?p = "b + 12 + sz"
  note q = seg_split [OF heap_invD(1) [OF i]] and m = malloc_use_hdr(1) [OF i sz]
  have e: "nxt (hdr h b) \<le> heap_end h" using heap_block_size(3) [OF i, of b] by simp
  have "x \<noteq> b \<and> (?p + 24 \<le> nxt (hdr h b) \<longrightarrow> x \<noteq> ?p)" if "x \<in> set (xs @ ys @ [heap_end h])" for x
    using that q(5) q(7) [of x] q(9) [of x] e by auto
  then show "x \<in> set (xs @ ys @ [heap_end h]) \<Longrightarrow> free_in (malloc_use b sz h) x = free_in h x"
    "x \<in> set (xs @ ys) \<Longrightarrow> nxt (hdr (malloc_use b sz h) x) = nxt (hdr h x)"
    using cut_apply(5,6) [of ?p "hdr h" b x] sz(1) by (auto simp: m free_in_def)
  show "\<not> free_in (malloc_use b sz h) b" "?p + 24 \<le> nxt (hdr h b) \<Longrightarrow> free_in (malloc_use b sz h) ?p"
    "nxt (hdr (malloc_use b sz h) b) = (if ?p + 24 \<le> nxt (hdr h b) then ?p else nxt (hdr h b))"
    using cut_apply(1,2) [of ?p "hdr h" b] by (auto simp: m free_in_def)
qed

lemma malloc_use_seg:
  assumes i: "heap_inv (xs @ b # ys) h" and f: "free_in h b" and sz: "12 \<le> sz" "b + 12 + sz \<le> nxt (hdr h b)" "4 dvd b + sz"
  shows "seg (hdr (malloc_use b sz h)) 0 0 (malloc_blocks xs b ys sz h) (heap_end h)"
proof (cases "b + 12 + sz + 24 \<le> nxt (hdr h b)")
  case True
  have "4 dvd b + 12 + sz" using sz(3) by presburger
  then show ?thesis using True seg_cut [OF heap_invD(1) [OF i], of "b + 12 + sz" 1] sz
    by (simp add: malloc_use_hdr [OF i sz(1,2)] malloc_blocks_def)
next
  case False
  let ?H = "(hdr h)(b := (hdr h b)\<lparr>used := 1\<rparr>)"
  note q = seg_split [OF heap_invD(1) [OF i]]
  have "seg ?H 0 0 xs b = seg (hdr h) 0 0 xs b" using q(7) by (intro seg_cong) auto
  moreover have "seg ?H b (nxt (hdr h b)) ys (heap_end h) = seg (hdr h) b (nxt (hdr h b)) ys (heap_end h)"
    using q(5,9) by (intro seg_cong) fastforce
  ultimately have "seg ?H 0 0 (xs @ b # ys) (heap_end h)" using q(1-6) by (intro seg_join) simp_all
  then show ?thesis using False by (simp add: malloc_use_hdr [OF i sz(1,2)] malloc_blocks_def)
qed

lemma filter_cong_set: "(\<And>x. x \<in> set xs \<Longrightarrow> P x = Q x) \<Longrightarrow> filter P xs = filter Q xs"
  by (induction xs) auto

lemma malloc_use_lfree:
  assumes i: "heap_inv (xs @ b # ys) h" and f: "free_in h b" and sz: "12 \<le> sz" "b + 12 + sz \<le> nxt (hdr h b)" "4 dvd b + sz"
  defines "h1 \<equiv> malloc_use b sz h"
  shows "(if b = lfree h then lfree_advance h1 b else Some (lfree h))
    = Some (hd (filter (free_in h1) (malloc_blocks xs b ys sz h) @ [heap_end h]))"
proof -
  note fr = malloc_use_free [OF i f sz(1,2), folded h1_def]
  have e: "heap_end h1 = heap_end h" by (simp add: h1_def malloc_use_hdr [OF i sz(1,2)])
  have x: "filter (free_in h1) xs = filter (free_in h) xs" using fr(2) by (intro filter_cong_set) auto
  let ?r = "(if b + 12 + sz + 24 \<le> nxt (hdr h b) then [b + 12 + sz] else []) @ ys"
  have s: "seg (hdr h1) 0 0 (xs @ b # ?r) (heap_end h1)"
    using malloc_use_seg [OF i f sz] e by (simp add: h1_def malloc_blocks_def)
  note q = seg_split [OF s]
  have l: "lfree h = hd (filter (free_in h) xs @ [b])" using heap_invD(6) [OF i] f by (cases "filter (free_in h) xs") auto
  show ?thesis
  proof (cases "filter (free_in h) xs")
    case Nil
    then have "b = lfree h" using l by simp
    moreover have "lfree_advance h1 b = Some (hd (filter (free_in h1) (b # ?r) @ [heap_end h1]))"
      using s by (intro lfree_advance_eq) (auto simp: seg_append)
    moreover have "filter (free_in h1) (malloc_blocks xs b ys sz h) = filter (free_in h1) (b # ?r)"
      unfolding malloc_blocks_def using x Nil by simp
    ultimately show ?thesis using e by simp
  next
    case (Cons y zs)
    then have "y \<in> set xs" by (auto simp: filter_eq_Cons_iff)
    then have "b \<noteq> lfree h" using l Cons q(7) by fastforce
    moreover have "filter (free_in h1) (malloc_blocks xs b ys sz h) = y # zs @ filter (free_in h1) (b # ?r)"
      unfolding malloc_blocks_def using x Cons by simp
    ultimately show ?thesis using l Cons by simp
  qed
qed

lemma malloc_use_inv:
  assumes i: "heap_inv (xs @ b # ys) h" and f: "free_in h b" and sz: "12 \<le> sz" "b + 12 + sz \<le> nxt (hdr h b)" "4 dvd b + sz"
  shows "heap_inv (malloc_blocks xs b ys sz h)
    ((malloc_use b sz h)\<lparr>lfree := hd (filter (free_in (malloc_use b sz h)) (malloc_blocks xs b ys sz h) @ [heap_end h])\<rparr>)"
proof -
  let ?h1 = "malloc_use b sz h" and ?bs = "malloc_blocks xs b ys sz h"
  let ?h = "?h1\<lparr>lfree := hd (filter (free_in ?h1) ?bs @ [heap_end h])\<rparr>"
  note d = heap_invD [OF i] and fr = malloc_use_free [OF i f sz(1,2)] and m = malloc_use_hdr [OF i sz(1,2)]
  have co: "coalesced (free_in h) xs" "coalesced (free_in h) ys" "ys \<noteq> [] \<Longrightarrow> \<not> free_in h (hd ys)"
    using d(5) f by (simp_all add: coalesced_append) (cases ys; simp)+
  have "coalesced (free_in ?h1) xs" "coalesced (free_in ?h1) ys"
    using co(1,2) fr(2) coalesced_cong [of xs "free_in ?h1" "free_in h"] coalesced_cong [of ys "free_in ?h1" "free_in h"] by auto
  moreover have "ys \<noteq> [] \<Longrightarrow> \<not> free_in ?h1 (hd ys)" using co(3) fr(2) by (cases ys) auto
  ultimately have "coalesced (free_in ?h1) ?bs"
    using fr(1) unfolding malloc_blocks_def by (cases ys) (auto simp: coalesced_append)
  moreover have "\<not> free_in ?h1 (heap_end h)" using fr(2) d(4) by simp
  ultimately show ?thesis using malloc_use_seg [OF i f sz] d m by (simp add: heap_inv_def)
qed

lemma seg_dvd: "seg H pv a bs e \<Longrightarrow> 4 dvd a \<Longrightarrow> b \<in> set bs \<Longrightarrow> 4 dvd b"
  by (induction bs arbitrary: pv a) auto

lemma heap_inv_upd [simp]:
  "heap_inv bs (h\<lparr>heap_sem := s\<rparr>) = heap_inv bs h" "heap_inv bs (h\<lparr>bytes := y\<rparr>) = heap_inv bs h" "heap_inv bs (h\<lparr>used_mem := u\<rparr>) = heap_inv bs h"
  by (simp_all add: heap_inv_def)

lemma heap_lock_eq: "0 < heap_sem h \<Longrightarrow> heap_lock h = Some (h\<lparr>heap_sem := heap_sem h - 1\<rparr>)"
  by (simp add: heap_lock_def)

text \<open>What a request is rounded up to.\<close>

definition request :: "u32 \<Rightarrow> nat" where
  "request size_arg = max 12 (unat (RT_ALIGN size_arg 4))"

lemma request_bounds:
  assumes "unat size_arg \<le> 2 ^ 32 - 4"
  shows "12 \<le> request size_arg" "4 dvd request size_arg" "unat size_arg \<le> request size_arg"
proof -
  note a = RT_ALIGN4 [OF assms]
  show "12 \<le> request size_arg" by (simp add: request_def)
  have "4 dvd unat (RT_ALIGN size_arg 4)" using a by simp
  then show "4 dvd request size_arg" by (simp add: request_def max_def)
  have "unat size_arg \<le> unat (RT_ALIGN size_arg 4)" unfolding a by linarith
  then show "unat size_arg \<le> request size_arg" by (simp add: request_def)
qed

lemma rt_malloc_cases:
  assumes ok: "heap_ok h" and l: "0 < heap_sem h" and s: "size_arg \<noteq> 0" "4 dvd request size_arg"
  obtains
    (none) "rt_malloc size_arg h = Some (None, h)" "\<And>b. b \<in> set (heap_blocks h) \<Longrightarrow> \<not> fits h (request size_arg) b"
  | (some) xs b ys h' where "heap_blocks h = xs @ b # ys" "fits h (request size_arg) b"
      "rt_malloc size_arg h = Some (Some (heap_ptr h + b + 12), h')" "heap_inv (malloc_blocks xs b ys (request size_arg) h) h'"
      "hdr h' = hdr (malloc_use b (request size_arg) h)" "heap_ptr h' = heap_ptr h" "heap_end h' = heap_end h"
      "mem_size_aligned h' = mem_size_aligned h" "heap_sem h' = heap_sem h" "bytes h' = bytes h"
      "used_mem h' = used_mem h + word_of_nat (nxt (hdr h' b) - b)" "max_mem h' = max (max_mem h) (used_mem h')"
proof (cases "mem_size_aligned h < unat (RT_ALIGN size_arg 4)")
  case True
  show thesis using True s by (intro none) (auto simp: rt_malloc_def request_def fits_def)
next
  case False
  let ?r = "request size_arg" and ?bs = "heap_blocks h" and ?h = "h\<lparr>heap_sem := heap_sem h - 1\<rparr>"
  have i: "heap_inv ?bs ?h" "heap_inv ?bs h" using ok by (simp_all add: heap_ok_def)
  have le: "?r \<le> mem_size_aligned ?h" using False heap_invD(3) [OF i(2)] by (simp add: request_def)
  have se: "malloc_search ?h ?r (lfree ?h) = Some (find (fits ?h ?r) ?bs)" by (rule malloc_search_lfree [OF i(1) le])
  have ft: "fits ?h ?r = fits h ?r" by (simp add: fits_def fun_eq_iff)
  have rq: "(if unat (RT_ALIGN size_arg 4) < 12 then 12 else unat (RT_ALIGN size_arg 4)) = ?r" by (simp add: request_def)
  have un: "heap_unlock ?h = h" by (simp add: heap_unlock_def)
  show thesis
  proof (cases "find (fits h ?r) ?bs")
    case None
    have "rt_malloc size_arg h = Some (None, h)"
      using False s(1) l se ft None rq un by (simp add: rt_malloc_def heap_lock_eq)
    then show thesis using None by (intro none) (auto simp: find_None_iff)
  next
    case (Some b)
    then have f: "fits h ?r b" and "b \<in> set ?bs" by (auto simp: find_Some_iff)
    then obtain xs ys where bs: "?bs = xs @ b # ys" by (meson split_list)
    have "4 dvd b" using seg_dvd [OF heap_invD(1) [OF i(2)]] \<open>b \<in> set ?bs\<close> by simp
    then have sz: "12 \<le> ?r" "b + 12 + ?r \<le> nxt (hdr ?h b)" "4 dvd b + ?r" and fr: "free_in ?h b"
      using f s(2) by (auto simp: fits_def request_def)
    note i' = i(1) [unfolded bs]
    let ?h1 = "malloc_use b ?r ?h"
    let ?f = "hd (filter (free_in ?h1) (malloc_blocks xs b ys ?r ?h) @ [heap_end ?h])"
    note m = malloc_use_hdr [OF i' sz(1,2)]
    have hd1: "hdr ?h1 = hdr (malloc_use b ?r h)"
      using m(1) malloc_use_hdr(1) [of xs b ys h ?r] i(2) bs sz by simp
    have adv: "(if b = lfree ?h1 then lfree_advance ?h1 (lfree ?h1) else Some (lfree ?h1)) = Some ?f"
      using malloc_use_lfree [OF i' fr sz] m(5) by (cases "b = lfree ?h1") simp_all
    have "rt_malloc size_arg h = Some (Some (heap_ptr h + b + 12), heap_unlock (?h1\<lparr>lfree := ?f\<rparr>))"
      using False s(1) l se ft Some rq adv m(4) by (simp add: rt_malloc_def heap_lock_eq Let_def del: fun_upd_apply)
    moreover have "heap_inv (malloc_blocks xs b ys ?r h) (heap_unlock (?h1\<lparr>lfree := ?f\<rparr>))"
      using malloc_use_inv [OF i' fr sz] by (simp add: heap_unlock_def malloc_blocks_def)
    ultimately show thesis by (rule some [OF bs f]) (use m hd1 malloc_use_stats [OF i' sz(1,2)] in \<open>simp_all add: heap_unlock_def\<close>)
  qed
qed

lemma used_blocks_malloc:
  assumes i: "heap_inv (xs @ b # ys) h" and f: "free_in h b" and sz: "12 \<le> sz" "b + 12 + sz \<le> nxt (hdr h b)"
    and h': "heap_inv (malloc_blocks xs b ys sz h) h'" "hdr h' = hdr (malloc_use b sz h)"
  shows "used_blocks h' = insert (b, nxt (hdr h' b)) (used_blocks h)"
proof -
  note fr = malloc_use_free [OF i f sz]
  have fe: "free_in h' = free_in (malloc_use b sz h)" using h'(2) by (simp add: free_in_def fun_eq_iff)
  have "used_blocks h' = {(x, nxt (hdr h' x)) | x. x \<in> insert b (set (xs @ ys)) \<and> \<not> free_in h' x}"
    using heap_inv_blocks [OF h'(1)] fr(4) fe by (auto simp: used_blocks_def malloc_blocks_def)
  also have "\<dots> = insert (b, nxt (hdr h' b)) {(x, nxt (hdr h x)) | x. x \<in> set (xs @ ys) \<and> \<not> free_in h x}"
    using fr(1-3) fe h'(2) by auto
  also have "\<dots> = insert (b, nxt (hdr h' b)) (used_blocks h)"
    using heap_inv_blocks [OF i] f by (auto simp: used_blocks_def)
  finally show ?thesis .
qed

section \<open>Merging neighbours\<close>

definition merge_hdr :: "nat \<Rightarrow> nat \<Rightarrow> (nat \<Rightarrow> heap_mem) \<Rightarrow> nat \<Rightarrow> heap_mem" where
  "merge_hdr x y H = (let n = nxt (H y); H = H(x := (H x)\<lparr>nxt := n\<rparr>) in H(n := (H n)\<lparr>prv := x\<rparr>))"

lemma merge_hdr_used [simp]: "used (merge_hdr x y H z) = used (H z)"
  by (simp add: merge_hdr_def Let_def)

lemma merge_hdr_nxt: "nxt (merge_hdr x y H z) = (if z = x then nxt (H y) else nxt (H z))"
  by (simp add: merge_hdr_def Let_def)

lemma seg_merge:
  assumes s: "seg H pv a (xs @ x # y # zs) e"
  shows "seg (merge_hdr x y H) pv a (xs @ x # zs) e"
proof -
  let ?n = "nxt (H y)" and ?H = "merge_hdr x y H"
  note q = seg_split [OF s]
  have y: "seg H x (nxt (H x)) ([] @ y # zs) e" using q(2) by auto
  note r = seg_split [OF y]
  have yx: "y = nxt (H x)" using q(2) by simp
  have lt: "x < y" "y < ?n" using q(5) r(5) yx by simp_all
  have "seg ?H pv a xs x = seg H pv a xs x"
    using q(7) lt by (intro seg_cong) (fastforce simp: merge_hdr_def Let_def)
  then have xs: "seg ?H pv a xs x" using q(1) by simp
  have "seg ?H x ?n zs e = seg (H(?n := (H ?n)\<lparr>prv := x\<rparr>)) x ?n zs e"
    using r(9) lt by (intro seg_cong) (fastforce simp: merge_hdr_def Let_def)
  then have zs: "seg ?H x ?n zs e" using seg_set_prv [OF r(2)] by simp
  have h: "prv (?H x) = prv (H x)" "magic (?H x) = magic (H x)" "nxt (?H x) = ?n" using lt by (simp_all add: merge_hdr_def Let_def)
  show ?thesis using xs zs h q(3,4) r(5,6) q(5) yx by (intro seg_join) auto
qed

text \<open>The block list after a free block \<open>b\<close> has been merged with its neighbours.\<close>

definition plug_blocks :: "(nat \<Rightarrow> bool) \<Rightarrow> nat list \<Rightarrow> nat \<Rightarrow> nat list \<Rightarrow> nat list" where
  "plug_blocks f xs b ys =
     xs @ (if xs \<noteq> [] \<and> f (last xs) then [] else [b]) @ (if ys \<noteq> [] \<and> f (hd ys) then tl ys else ys)"

text \<open>What \<open>plug_holes\<close> does to the headers: \<open>lfree\<close> is already the lowest free block.\<close>

lemma plug_next_eq:
  assumes s: "seg (hdr h) 0 0 (xs @ b # ys) (heap_end h)" and e: "\<not> free_in h (heap_end h)" and l: "lfree h \<notin> set ys"
  defines "H \<equiv> if ys \<noteq> [] \<and> free_in h (hd ys) then merge_hdr b (hd ys) (hdr h) else hdr h"
  shows "plug_next b h = h\<lparr>hdr := H\<rparr>"
    and "seg H 0 0 (xs @ b # (if ys \<noteq> [] \<and> free_in h (hd ys) then tl ys else ys)) (heap_end h)"
    and "prv (H b) = (if xs = [] then 0 else last xs)"
proof -
  note q = seg_split [OF s]
  show "plug_next b h = h\<lparr>hdr := H\<rparr>"
  proof (cases ys)
    case Nil
    then have "nxt (hdr h b) = heap_end h" using q(2) by simp
    then show ?thesis using Nil by (simp add: plug_next_def H_def)
  next
    case (Cons y zs)
    then have y: "nxt (hdr h b) = y" "y \<noteq> heap_end h" "b \<noteq> y" "lfree h \<noteq> y"
      using q(2,5) seg_bounds(5) [OF q(2), of y] l by auto
    show ?thesis using y Cons by (simp add: plug_next_def H_def merge_hdr_def free_in_def upd_hdr_def Let_def)
  qed
  show "seg H 0 0 (xs @ b # (if ys \<noteq> [] \<and> free_in h (hd ys) then tl ys else ys)) (heap_end h)"
    using s seg_merge [of "hdr h" 0 0 xs b "hd ys" "tl ys" "heap_end h"] by (auto simp: H_def)
  then show "prv (H b) = (if xs = [] then 0 else last xs)" by (rule seg_split(3))
qed

lemma plug_holes_eq:
  assumes s: "seg (hdr h) 0 0 (xs @ b # ys) (heap_end h)" and e: "\<not> free_in h (heap_end h)" and f: "free_in h b"
    and l: "lfree h = hd (filter (free_in h) (xs @ b # ys) @ [heap_end h])"
  shows "\<exists>H. plug_holes b h = h\<lparr>hdr := H\<rparr> \<and> seg H 0 0 (plug_blocks (free_in h) xs b ys) (heap_end h)
    \<and> (\<forall>x. used (H x) = used (hdr h x)) \<and> (\<forall>x \<in> set (xs @ ys). \<not> free_in h x \<longrightarrow> nxt (H x) = nxt (hdr h x))
    \<and> ((xs = [] \<or> \<not> free_in h (last xs)) \<longrightarrow> nxt (H b) = (if ys \<noteq> [] \<and> free_in h (hd ys) then nxt (hdr h (hd ys)) else nxt (hdr h b)))"
proof -
  note q = seg_split [OF s]
  have lf: "lfree h \<notin> set ys" "xs \<noteq> [] \<Longrightarrow> free_in h (last xs) \<Longrightarrow> lfree h \<noteq> b"
  proof -
    have "lfree h \<in> set (xs @ [b])" using l f by (cases "filter (free_in h) xs") (auto simp: filter_eq_Cons_iff)
    then show "lfree h \<notin> set ys" using seg_distinct [OF s] by auto
    assume "xs \<noteq> []" "free_in h (last xs)"
    then obtain z zs where "filter (free_in h) xs = z # zs" by (cases "filter (free_in h) xs") (auto simp: filter_empty_conv)
    then show "lfree h \<noteq> b" using l q(7) [of z] by (auto simp: filter_eq_Cons_iff)
  qed
  note n = plug_next_eq [OF s e lf(1)]
  define G where "G = (if ys \<noteq> [] \<and> free_in h (hd ys) then merge_hdr b (hd ys) (hdr h) else hdr h)"
  define zs where "zs = (if ys \<noteq> [] \<and> free_in h (hd ys) then tl ys else ys)"
  note n = n [folded G_def zs_def]
  have u: "\<forall>x. used (G x) = used (hdr h x)" by (simp add: G_def)
  have nx: "nxt (G x) = nxt (hdr h x)" if "x \<noteq> b" for x using that by (simp add: G_def merge_hdr_nxt)
  have nb: "nxt (G b) = (if ys \<noteq> [] \<and> free_in h (hd ys) then nxt (hdr h (hd ys)) else nxt (hdr h b))"
    by (simp add: G_def merge_hdr_nxt)
  have b: "b \<notin> set (xs @ ys)" using seg_distinct [OF s] by auto
  show ?thesis
  proof (cases "xs \<noteq> [] \<and> free_in h (last xs)")
    case False
    have "prv (G b) = b \<or> used (G (prv (G b))) \<noteq> 0" using n(3) q(1) False u by (auto simp: free_in_def)
    then have "plug_holes b h = h\<lparr>hdr := G\<rparr>" unfolding plug_holes_def n(1) by (auto simp: plug_prev_def Let_def)
    moreover have "seg G 0 0 (plug_blocks (free_in h) xs b ys) (heap_end h)"
      using n(2) False by (auto simp: plug_blocks_def zs_def)
    moreover have "\<forall>x \<in> set (xs @ ys). \<not> free_in h x \<longrightarrow> nxt (G x) = nxt (hdr h x)" using nx b by metis
    ultimately show ?thesis using u nb by blast
  next
    case True
    then obtain ws w where xs: "xs = ws @ [w]" by (metis rev_exhaust)
    have w: "w < b" "free_in h w" using q(7) [of w] True xs by auto
    let ?M = "merge_hdr w b G"
    have "plug_holes b h = h\<lparr>hdr := ?M\<rparr>"
      unfolding plug_holes_def n(1) using n(3) xs w lf(2) u
      by (simp add: plug_prev_def Let_def free_in_def merge_hdr_def upd_hdr_def)
    moreover have "seg ?M 0 0 (plug_blocks (free_in h) xs b ys) (heap_end h)"
      using seg_merge [of G 0 0 ws w b zs "heap_end h"] n(2) True xs by (simp add: plug_blocks_def zs_def)
    moreover have "\<forall>x \<in> set (xs @ ys). \<not> free_in h x \<longrightarrow> nxt (?M x) = nxt (hdr h x)"
      using nx b w(2) by (metis merge_hdr_nxt)
    ultimately show ?thesis using u True by (metis merge_hdr_used)
  qed
qed

text \<open>All of the invariant but that free neighbours of \<open>b\<close> have been merged.\<close>

definition heap_hole :: "nat list \<Rightarrow> nat \<Rightarrow> nat list \<Rightarrow> small_heap \<Rightarrow> bool" where
  "heap_hole xs b ys h \<longleftrightarrow> seg (hdr h) 0 0 (xs @ b # ys) (heap_end h) \<and> heap_end h = mem_size_aligned h + 12 \<and> 12 \<le> mem_size_aligned h
     \<and> \<not> free_in h (heap_end h) \<and> free_in h b \<and> coalesced (free_in h) xs \<and> coalesced (free_in h) ys
     \<and> lfree h = hd (filter (free_in h) (xs @ b # ys) @ [heap_end h])
     \<and> heap_ptr h + heap_end h + 12 \<le> 2 ^ 32 \<and> 4 dvd heap_ptr h \<and> 4 dvd mem_size_aligned h"

lemma heap_hole_upd [simp]: "heap_hole xs b ys (h\<lparr>used_mem := u\<rparr>) = heap_hole xs b ys h"
  by (simp add: heap_hole_def)

lemma coalesced_tl: "coalesced f ys \<Longrightarrow> coalesced f (tl ys) \<and> (ys \<noteq> [] \<longrightarrow> f (hd ys) \<longrightarrow> tl ys \<noteq> [] \<longrightarrow> \<not> f (hd (tl ys)))"
  by (cases "(f, ys)" rule: coalesced.cases) auto

lemma coalesced_plug:
  assumes "coalesced f xs" "coalesced f ys" "f b"
  shows "coalesced f (plug_blocks f xs b ys)"
proof -
  let ?zs = "if ys \<noteq> [] \<and> f (hd ys) then tl ys else ys"
  have z: "coalesced f ?zs" "?zs \<noteq> [] \<Longrightarrow> \<not> f (hd ?zs)" using assms(2) coalesced_tl [of f ys] by auto
  have "coalesced f ([b] @ ?zs)" unfolding coalesced_append using z by auto
  then show ?thesis using assms(1) z unfolding plug_blocks_def coalesced_append by auto
qed

lemma hd_filter_plug:
  assumes "f b"
  shows "hd (filter f (plug_blocks f xs b ys) @ [e]) = hd (filter f (xs @ b # ys) @ [e])"
proof (cases "filter f xs")
  case Nil
  then have "\<not> (xs \<noteq> [] \<and> f (last xs))" by (auto simp: filter_empty_conv)
  then have "plug_blocks f xs b ys = xs @ b # (if ys \<noteq> [] \<and> f (hd ys) then tl ys else ys)" unfolding plug_blocks_def by auto
  then show ?thesis using Nil assms by simp
next
  case (Cons x zs)
  then show ?thesis by (simp add: plug_blocks_def)
qed

lemma plug_holes_inv:
  assumes "heap_hole xs b ys h"
  shows "heap_inv (plug_blocks (free_in h) xs b ys) (plug_holes b h)"
    "used_blocks (plug_holes b h) = {(x, nxt (hdr h x)) | x. x \<in> set (xs @ ys) \<and> \<not> free_in h x}"
    "\<exists>H. plug_holes b h = h\<lparr>hdr := H\<rparr>" "free_in (plug_holes b h) = free_in h"
    "xs = [] \<or> \<not> free_in h (last xs) \<Longrightarrow>
       nxt (hdr (plug_holes b h) b) = (if ys \<noteq> [] \<and> free_in h (hd ys) then nxt (hdr h (hd ys)) else nxt (hdr h b))"
proof -
  let ?bs = "plug_blocks (free_in h) xs b ys"
  have a: "seg (hdr h) 0 0 (xs @ b # ys) (heap_end h)" "heap_end h = mem_size_aligned h + 12" "12 \<le> mem_size_aligned h"
    "\<not> free_in h (heap_end h)" "free_in h b" "coalesced (free_in h) xs" "coalesced (free_in h) ys"
    "lfree h = hd (filter (free_in h) (xs @ b # ys) @ [heap_end h])"
    "heap_ptr h + heap_end h + 12 \<le> 2 ^ 32" "4 dvd heap_ptr h" "4 dvd mem_size_aligned h"
    using assms unfolding heap_hole_def by blast+
  obtain H where H: "plug_holes b h = h\<lparr>hdr := H\<rparr>" "seg H 0 0 ?bs (heap_end h)" "\<forall>x. used (H x) = used (hdr h x)"
    "\<forall>x \<in> set (xs @ ys). \<not> free_in h x \<longrightarrow> nxt (H x) = nxt (hdr h x)"
    "xs = [] \<or> \<not> free_in h (last xs) \<Longrightarrow> nxt (H b) = (if ys \<noteq> [] \<and> free_in h (hd ys) then nxt (hdr h (hd ys)) else nxt (hdr h b))"
    using plug_holes_eq [OF a(1,4,5,8)] by blast
  have f: "free_in (h\<lparr>hdr := H\<rparr>) = free_in h" using H(3) by (simp add: free_in_def fun_eq_iff)
  have i: "heap_inv ?bs (h\<lparr>hdr := H\<rparr>)"
    unfolding heap_inv_def f using a H(2) coalesced_plug [OF a(6,7,5)] hd_filter_plug [of "free_in h" b xs ys "heap_end h"] by simp
  show "heap_inv ?bs (plug_holes b h)" "\<exists>H. plug_holes b h = h\<lparr>hdr := H\<rparr>" "free_in (plug_holes b h) = free_in h"
    using i H(1) f by auto
  show "nxt (hdr (plug_holes b h) b) = (if ys \<noteq> [] \<and> free_in h (hd ys) then nxt (hdr h (hd ys)) else nxt (hdr h b))"
    if "xs = [] \<or> \<not> free_in h (last xs)" using H(1,5) that by simp
  have "x \<in> set ?bs \<and> \<not> free_in h x \<longleftrightarrow> x \<in> set (xs @ ys) \<and> \<not> free_in h x" for x
    using a(5) by (cases ys) (auto simp: plug_blocks_def)
  then show "used_blocks (plug_holes b h) = {(x, nxt (hdr h x)) | x. x \<in> set (xs @ ys) \<and> \<not> free_in h x}"
    using H(4) heap_inv_blocks [OF i] unfolding H(1) used_blocks_def f by auto
qed

section \<open>Release\<close>

lemma block_hole:
  assumes i: "heap_inv (xs @ b # ys) h" and u: "\<not> free_in h b"
  defines "h1 \<equiv> upd_hdr b (\<lambda>m. m\<lparr>used := 0, magic := HEAP_MAGIC\<rparr>) h"
  shows "heap_hole xs b ys (if b < lfree h1 then h1\<lparr>lfree := b\<rparr> else h1)"
proof -
  note d = heap_invD [OF i] and q = seg_split [OF heap_invD(1) [OF i]]
  define h2 where "h2 = (if b < lfree h1 then h1\<lparr>lfree := b\<rparr> else h1)"
  have c: "heap_end h2 = heap_end h" "mem_size_aligned h2 = mem_size_aligned h" "heap_ptr h2 = heap_ptr h"
    "lfree h2 = (if b < lfree h then b else lfree h)" by (simp_all add: h2_def h1_def)
  have hd: "hdr h2 = (hdr h)(b := (hdr h b)\<lparr>used := 0\<rparr>)" using q(4) by (cases "hdr h b") (simp add: h2_def h1_def)
  have f: "free_in h2 x = (x = b \<or> free_in h x)" for x unfolding free_in_def hd by simp
  have n: "b \<notin> set (xs @ ys)" using seg_distinct [OF d(1)] by auto
  have fx: "filter (free_in h2) xs = filter (free_in h) xs" "coalesced (free_in h2) xs" "coalesced (free_in h2) ys"
  proof -
    have co: "coalesced (free_in h) xs" "coalesced (free_in h) ys"
      using d(5) coalesced_tl [of "free_in h" "b # ys"] by (simp_all add: coalesced_append)
    have eq: "free_in h2 x = free_in h x" if "x \<in> set (xs @ ys)" for x using that n f by auto
    show "filter (free_in h2) xs = filter (free_in h) xs" using eq by (intro filter_cong_set) simp
    have "coalesced (free_in h2) xs = coalesced (free_in h) xs" "coalesced (free_in h2) ys = coalesced (free_in h) ys"
      using eq by (intro coalesced_cong; simp)+
    then show "coalesced (free_in h2) xs" "coalesced (free_in h2) ys" using co by simp_all
  qed
  have e: "b \<noteq> heap_end h" using heap_block_size(2) [OF i, of b] by simp
  have "seg (hdr h2) 0 0 (xs @ b # ys) (heap_end h)"
  proof (rule seg_join)
    have "seg (hdr h2) 0 0 xs b = seg (hdr h) 0 0 xs b" using q(7) unfolding hd by (intro seg_cong) auto
    then show "seg (hdr h2) 0 0 xs b" using q(1) by simp
    have "seg (hdr h2) b (nxt (hdr h b)) ys (heap_end h) = seg (hdr h) b (nxt (hdr h b)) ys (heap_end h)"
      using n unfolding hd by (intro seg_cong) auto
    then show "seg (hdr h2) b (nxt (hdr h2 b)) ys (heap_end h)" using q(2) unfolding hd by simp
  qed (use q(3-6) in \<open>simp_all add: hd\<close>)
  moreover have "lfree h2 = hd (filter (free_in h2) (xs @ b # ys) @ [heap_end h])"
  proof (cases "filter (free_in h) xs")
    case Nil
    have "lfree h = hd (filter (free_in h) ys @ [heap_end h])" using d(6) Nil u by simp
    then have "lfree h \<in> set ys \<or> lfree h = heap_end h" by (cases "filter (free_in h) ys") (auto simp: filter_eq_Cons_iff)
    then have "b < lfree h" using q(5,9) heap_block_size(2) [OF i, of b] by fastforce
    then show ?thesis using Nil fx(1) by (simp add: c f)
  next
    case (Cons y zs)
    then have "y \<in> set xs" "lfree h = y" using d(6) by (auto simp: filter_eq_Cons_iff)
    then have "\<not> b < lfree h" using q(7) [of y] by simp
    then show ?thesis using Cons fx(1) \<open>lfree h = y\<close> by (simp add: c)
  qed
  ultimately have "heap_hole xs b ys h2" using d e fx(2,3) f unfolding heap_hole_def c by simp
  then show ?thesis by (simp add: h2_def)
qed

lemma heap_offset:
  assumes "heap_inv bs h" "b \<in> set bs"
  shows "sub32 (heap_ptr h + b + 12) (heap_ptr h + 12) = b" "heap_ptr h \<le> heap_ptr h + b + 12" "heap_ptr h + b + 12 < heap_ptr h + heap_end h"
  using heap_invD(7) [OF assms(1)] heap_block_size(3,4) [OF assms] by (auto simp: sub32_eq)

lemma heap_unlock_sel [simp]:
  "hdr (heap_unlock h) = hdr h" "heap_ptr (heap_unlock h) = heap_ptr h" "heap_end (heap_unlock h) = heap_end h"
  "bytes (heap_unlock h) = bytes h" "mem_size_aligned (heap_unlock h) = mem_size_aligned h" "free_in (heap_unlock h) = free_in h"
  "heap_inv bs (heap_unlock h) = heap_inv bs h" "used_mem (heap_unlock h) = used_mem h" "max_mem (heap_unlock h) = max_mem h" "heap_blocks (heap_unlock h) = heap_blocks h" "used_blocks (heap_unlock h) = used_blocks h"
  by (simp_all add: heap_unlock_def used_blocks_def heap_blocks_def)

lemma rt_free_effect:
  assumes ok: "heap_ok h" and l: "0 < heap_sem h" and b: "heap_blocks h = xs @ b # ys" "\<not> free_in h b"
  shows "\<exists>h'. rt_free (Some (heap_ptr h + b + 12)) h = Some h' \<and> heap_inv (plug_blocks (\<lambda>x. x = b \<or> free_in h x) xs b ys) h'
    \<and> used_blocks h' = used_blocks h - {(b, nxt (hdr h b))} \<and> (\<forall>x. free_in h' x = (x = b \<or> free_in h x))
    \<and> heap_ptr h' = heap_ptr h \<and> heap_end h' = heap_end h \<and> heap_sem h' = heap_sem h \<and> bytes h' = bytes h
    \<and> used_mem h' = used_mem h - word_of_nat (nxt (hdr h b) - b) \<and> max_mem h' = max_mem h
    \<and> (xs = [] \<or> \<not> free_in h (last xs) \<longrightarrow>
        nxt (hdr h' b) = (if ys \<noteq> [] \<and> free_in h (hd ys) then nxt (hdr h (hd ys)) else nxt (hdr h b)))"
proof -
  let ?l = "h\<lparr>heap_sem := heap_sem h - 1\<rparr>"
  let ?u = "upd_hdr b (\<lambda>m. m\<lparr>used := 0, magic := HEAP_MAGIC\<rparr>) ?l"
  define v0 where "v0 = (if b < lfree ?u then ?u\<lparr>lfree := b\<rparr> else ?u)"
  define v where "v = v0\<lparr>used_mem := used_mem v0 - word_of_nat (sub32 (nxt (hdr v0 b)) b)\<rparr>"
  have i: "heap_inv (xs @ b # ys) ?l" "heap_inv (xs @ b # ys) h" using ok b(1) by (simp_all add: heap_ok_def)
  note o = heap_offset [OF i(2), of b]
  have "heap_hole xs b ys v0" unfolding v0_def using block_hole [OF i(1)] b(2) by simp
  then have hole: "heap_hole xs b ys v" by (simp add: v_def)
  note p = plug_holes_inv [OF hole]
  obtain H where H: "plug_holes b v = v\<lparr>hdr := H\<rparr>" using p(3) by blast
  have f: "free_in v = (\<lambda>x. x = b \<or> free_in h x)" by (simp add: v_def v0_def free_in_def fun_eq_iff)
  have nb: "b \<notin> set (xs @ ys)" using seg_distinct [OF heap_invD(1) [OF i(2)]] by auto
  have nv: "nxt (hdr v x) = nxt (hdr h x)" for x by (simp add: v_def v0_def)
  have r: "rt_free (Some (heap_ptr h + b + 12)) h = Some (heap_unlock (plug_holes b v))"
    using o l by (simp add: rt_free_def heap_lock_eq v_def v0_def Let_def del: upd_hdr_sel(1))
  have "used_blocks (plug_holes b v) = used_blocks h - {(b, nxt (hdr h b))}"
    unfolding p(2) f nv using b nb by (auto simp: used_blocks_def)
  moreover have "nxt (hdr (plug_holes b v) b) = (if ys \<noteq> [] \<and> free_in h (hd ys) then nxt (hdr h (hd ys)) else nxt (hdr h b))"
    if "xs = [] \<or> \<not> free_in h (last xs)"
  proof -
    have "last xs \<noteq> b" if "xs \<noteq> []" using nb that last_in_set [of xs] by auto
    moreover have "hd ys \<noteq> b" if "ys \<noteq> []" using nb that by (cases ys) auto
    ultimately have "xs = [] \<or> \<not> (last xs = b \<or> free_in h (last xs))" "ys \<noteq> [] \<Longrightarrow> hd ys \<noteq> b" using that by auto
    then show ?thesis using p(5) unfolding f nv by auto
  qed
  moreover have "heap_ptr (plug_holes b v) = heap_ptr h" "heap_end (plug_holes b v) = heap_end h" "bytes (plug_holes b v) = bytes h"
    "heap_sem (heap_unlock (plug_holes b v)) = heap_sem h" "max_mem (plug_holes b v) = max_mem h"
    unfolding H heap_unlock_def by (simp_all add: v_def v0_def)
  moreover have "used_mem (plug_holes b v) = used_mem h - word_of_nat (nxt (hdr h b) - b)"
  proof -
    have "sub32 (nxt (hdr h b)) b = nxt (hdr h b) - b"
      using heap_block_size(3,4) [OF i(2), of b] heap_invD(7) [OF i(2)] by (intro sub32_eq) auto
    then show ?thesis unfolding H by (simp add: v_def v0_def)
  qed
  ultimately show ?thesis using r p(1,4) f by (intro exI [of _ "heap_unlock (plug_holes b v)"]) simp
qed

lemma realloc_shrink_effect:
  assumes i: "heap_inv (xs @ b # ys) h" and u: "\<not> free_in h b" and n: "4 \<le> newsize" "4 dvd newsize" "b + 12 + newsize + 24 < nxt (hdr h b)"
  shows "\<exists>bs H. realloc_shrink b newsize h = h\<lparr>hdr := H, lfree := lfree (realloc_shrink b newsize h)\<rparr>
    \<and> heap_inv bs (realloc_shrink b newsize h)
    \<and> used_blocks (realloc_shrink b newsize h) = insert (b, b + 12 + newsize) (used_blocks h - {(b, nxt (hdr h b))})"
proof -
  let ?p = "b + 12 + newsize"
  note d = heap_invD [OF i] and q = seg_split [OF heap_invD(1) [OF i]]
  define C where "C = cut b ?p (used (hdr h b)) (heap_end h) (hdr h)"
  define h2 where "h2 = h\<lparr>hdr := C, lfree := if ?p < lfree h then ?p else lfree h\<rparr>"
  have lt: "?p < nxt (hdr h b)" "b < ?p" using n by simp_all
  note c = cut_apply [of ?p "hdr h" b, OF lt, where u = "used (hdr h b)" and e = "heap_end h", folded C_def]
  have "4 dvd b" using seg_dvd [OF d(1)] by simp
  then have p4: "4 dvd ?p" using n(2) by presburger
  have sh: "realloc_shrink b newsize h = plug_holes ?p h2"
  proof -
    have "(hdr h b)\<lparr>nxt := ?p\<rparr> = \<lparr>magic = HEAP_MAGIC, used = used (hdr h b), nxt = ?p, prv = prv (hdr h b)\<rparr>"
      using q(4) by (cases "hdr h b") simp
    then show ?thesis using lt d(2)
      by (simp add: realloc_shrink_def h2_def C_def cut_def header_eq upd_hdr_def Let_def fun_upd_twist)
  qed
  have f: "free_in h2 x = (x = ?p \<or> free_in h x)" if "x \<in> set (xs @ b # ?p # ys) \<or> x = heap_end h" for x
    using that c(1,2) c(5) [of x] u by (cases "x = ?p"; cases "x = b") (simp_all add: free_in_def h2_def)
  have nu: "?p \<notin> set (xs @ b # ys)" "?p \<noteq> heap_end h"
    using q(7) [of ?p] q(9) [of ?p] n heap_block_size(3) [OF i, of b] by auto
  have "seg C 0 0 (xs @ b # ?p # ys) (heap_end h)" unfolding C_def using n p4 by (intro seg_cut [OF d(1)]) simp_all
  moreover have eq: "free_in h2 x = free_in h x" if "x \<in> set (xs @ b # ys)" for x using that f [of x] nu(1) by auto
  moreover have fl: "filter (free_in h2) (xs @ [b]) = filter (free_in h) xs"
    using eq u filter_cong_set [of xs "free_in h2" "free_in h"] by simp
  moreover have "coalesced (free_in h2) (xs @ [b])" "coalesced (free_in h2) ys"
  proof -
    have "coalesced (free_in h) (xs @ [b])" "coalesced (free_in h) ys"
      using d(5) coalesced_tl [of "free_in h" "b # ys"] by (simp_all add: coalesced_append)
    moreover have "coalesced (free_in h2) (xs @ [b]) = coalesced (free_in h) (xs @ [b])" "coalesced (free_in h2) ys = coalesced (free_in h) ys"
      by (rule coalesced_cong, rule eq, simp, blast) (rule coalesced_cong, rule eq, simp)
    ultimately show "coalesced (free_in h2) (xs @ [b])" "coalesced (free_in h2) ys" by simp_all
  qed
  moreover have "lfree h2 = hd (filter (free_in h2) ((xs @ [b]) @ ?p # ys) @ [heap_end h])"
  proof (cases "filter (free_in h) xs")
    case Nil
    have "lfree h = hd (filter (free_in h) ys @ [heap_end h])" using d(6) Nil u by simp
    then have "lfree h \<in> set ys \<or> lfree h = heap_end h" by (cases "filter (free_in h) ys") (auto simp: filter_eq_Cons_iff)
    then have "?p < lfree h" using q(9) lt heap_block_size(3) [OF i, of b] by fastforce
    then show ?thesis unfolding filter_append using Nil fl f [of ?p] by (simp add: h2_def)
  next
    case (Cons y zs)
    then have "y \<in> set xs" "lfree h = y" using d(6) by (auto simp: filter_eq_Cons_iff)
    then show ?thesis unfolding filter_append using Cons fl q(7) [of y] by (simp add: h2_def)
  qed
  ultimately have hole: "heap_hole (xs @ [b]) ?p ys h2"
    using d f [of ?p] f [of "heap_end h"] nu unfolding heap_hole_def by (simp add: h2_def)
  note p = plug_holes_inv [OF hole]
  have "used_blocks (plug_holes ?p h2) = {(x, nxt (hdr h2 x)) | x. x \<in> set (xs @ b # ys) \<and> \<not> free_in h x}"
    unfolding p(2) using f nu by auto
  also have "\<dots> = insert (b, ?p) {(x, nxt (hdr h x)) | x. x \<in> set (xs @ ys) \<and> \<not> free_in h x}"
  proof -
    have "nxt (hdr h2 x) = nxt (hdr h x)" if "x \<in> set (xs @ ys)" for x
      using that c(6) [of x] nu(1) seg_distinct [OF d(1)] unfolding h2_def by auto
    moreover have "nxt (hdr h2 b) = ?p" using c(2) by (simp add: h2_def)
    ultimately show ?thesis using u by auto
  qed
  also have "\<dots> = insert (b, ?p) (used_blocks h - {(b, nxt (hdr h b))})"
    using heap_inv_blocks [OF i] seg_distinct [OF d(1)] by (auto simp: used_blocks_def)
  finally have ub: "used_blocks (plug_holes ?p h2) = insert (b, ?p) (used_blocks h - {(b, nxt (hdr h b))})" .
  obtain H where H: "plug_holes ?p h2 = h2\<lparr>hdr := H\<rparr>" using p(3) by blast
  have "plug_holes ?p h2 = h\<lparr>hdr := H, lfree := lfree (plug_holes ?p h2)\<rparr>" unfolding H by (simp add: h2_def)
  then show ?thesis using p(1) ub unfolding sh by blast
qed

section \<open>Blocks do not overlap\<close>

lemma blocks_disjoint:
  assumes "heap_inv bs h" "b \<in> set bs" "c \<in> set bs" "b \<noteq> c"
  shows "nxt (hdr h b) \<le> c \<or> nxt (hdr h c) \<le> b"
proof -
  obtain xs ys where bs: "bs = xs @ b # ys" using assms(2) by (meson split_list)
  note q = seg_split [OF heap_invD(1) [OF assms(1), unfolded bs]]
  show ?thesis using assms(3,4) q(8) [of c] q(9) [of c] bs by auto
qed

lemma used_blocksD:
  assumes "heap_ok h" "(b, e) \<in> used_blocks h"
  shows "e = nxt (hdr h b)" "b \<in> set (heap_blocks h)" "\<not> free_in h b" "b + 16 \<le> e" "e \<le> heap_end h" "4 dvd b"
proof -
  show a: "e = nxt (hdr h b)" "b \<in> set (heap_blocks h)" "\<not> free_in h b" using assms(2) by (auto simp: used_blocks_def)
  have i: "heap_inv (heap_blocks h) h" using assms(1) by (simp add: heap_ok_def)
  show "b + 16 \<le> e" "e \<le> heap_end h" using heap_block_size(3,4) [OF i a(2)] a(1) by auto
  show "4 dvd b" using seg_dvd [OF heap_invD(1) [OF i] _ a(2)] by simp
qed

lemma rt_malloc_effect:
  assumes ok: "heap_ok h" and l: "0 < heap_sem h" and s: "size_arg \<noteq> 0" "unat size_arg \<le> 2 ^ 32 - 4"
  obtains
    (none) "rt_malloc size_arg h = Some (None, h)"
      "\<And>b. b \<in> set (heap_blocks h) \<Longrightarrow> free_in h b \<Longrightarrow> b + 12 + request size_arg \<le> nxt (hdr h b) \<Longrightarrow> b + 12 + request size_arg = heap_end h"
  | (some) xs b ys h' where "heap_blocks h = xs @ b # ys" "free_in h b" "rt_malloc size_arg h = Some (Some (heap_ptr h + b + 12), h')"
      "heap_ok h'" "b + 12 + request size_arg \<le> nxt (hdr h' b)" "nxt (hdr h' b) \<le> nxt (hdr h b)" "nxt (hdr h b) \<le> heap_end h"
      "used_blocks h' = insert (b, nxt (hdr h' b)) (used_blocks h)"
      "heap_blocks h' = malloc_blocks xs b ys (request size_arg) h" "hdr h' = hdr (malloc_use b (request size_arg) h)"
      "heap_ptr h' = heap_ptr h" "heap_end h' = heap_end h" "mem_size_aligned h' = mem_size_aligned h" "heap_sem h' = heap_sem h" "bytes h' = bytes h"
      "used_mem h' = used_mem h + word_of_nat (nxt (hdr h' b) - b)" "max_mem h' = max (max_mem h) (used_mem h')"
proof -
  note rb = request_bounds [OF s(2)]
  have i: "heap_inv (heap_blocks h) h" using ok by (simp add: heap_ok_def)
  from ok l s(1) rb(2) show thesis
  proof (cases rule: rt_malloc_cases)
    case none
    have "b + 12 + request size_arg = heap_end h" if "b \<in> set (heap_blocks h)" "free_in h b" "b + 12 + request size_arg \<le> nxt (hdr h b)" for b
      using none(2) [OF that(1)] that heap_block_size(3) [OF i that(1)] heap_invD(2) [OF i] by (auto simp: fits_def)
    then show thesis using none(1) that(1) by blast
  next
    case (some xs b ys h')
    have i': "heap_inv (xs @ b # ys) h" using i some(1) by simp
    have f: "free_in h b" "b + 12 + request size_arg \<le> nxt (hdr h b)" using some(2) by (auto simp: fits_def)
    note fr = malloc_use_free [OF i' f(1) rb(1) f(2)]
    have "b + 12 + request size_arg \<le> nxt (hdr h' b)" "nxt (hdr h' b) \<le> nxt (hdr h b)" using fr(5) some(5) f(2) by auto
    moreover have "nxt (hdr h b) \<le> heap_end h" using heap_block_size(3) [OF i'] by simp
    ultimately show thesis using that(2) [OF some(1) f(1) some(3) heap_inv_ok [OF some(4)]]
        used_blocks_malloc [OF i' f(1) rb(1) f(2) some(4,5)] heap_inv_blocks [OF some(4)] some(5-12) by blast
  qed
qed

section \<open>Accounting\<close>

text \<open>\<open>used_mem\<close> counts the bytes of the blocks in use with their headers, and \<open>max_mem\<close> its maximum.\<close>

definition used_bytes :: "small_heap \<Rightarrow> nat" where
  "used_bytes h = (\<Sum>(b, e) \<in> used_blocks h. e - b)"

definition heap_stats :: "small_heap \<Rightarrow> bool" where
  "heap_stats h \<longleftrightarrow> unat (used_mem h) = used_bytes h \<and> used_mem h \<le> max_mem h"

lemma seg_sum: "seg H pv a bs e \<Longrightarrow> (\<Sum>b\<leftarrow>bs. nxt (H b) - b) = e - a"
proof (induction bs arbitrary: pv a)
  case (Cons b bs)
  have "nxt (H b) \<le> e" "b \<le> nxt (H b)" using Cons.prems seg_bounds(1) [of H b "nxt (H b)" bs e] by auto
  moreover have "(\<Sum>b\<leftarrow>bs. nxt (H b) - b) = e - nxt (H b)" "b = a" using Cons.IH [of b "nxt (H b)"] Cons.prems by auto
  ultimately show ?case by simp
qed simp

lemma finite_used [simp]: "finite (used_blocks h)"
proof -
  have "used_blocks h \<subseteq> (\<lambda>b. (b, nxt (hdr h b))) ` set (heap_blocks h)" by (auto simp: used_blocks_def)
  then show ?thesis by (rule finite_subset) simp
qed

lemma used_bytes_bound:
  assumes "heap_ok h"
  shows "used_bytes h < 2 ^ 32"
proof -
  have i: "heap_inv (heap_blocks h) h" using assms by (simp add: heap_ok_def)
  let ?g = "\<lambda>b. (b, nxt (hdr h b))" and ?S = "set (heap_blocks h)"
  have "used_bytes h \<le> (\<Sum>(b, e) \<in> ?g ` ?S. e - b)"
    unfolding used_bytes_def by (rule sum_mono2) (auto simp: used_blocks_def)
  also have "\<dots> = (\<Sum>b \<in> ?S. nxt (hdr h b) - b)" by (simp add: sum.reindex inj_on_def)
  also have "\<dots> = (\<Sum>b\<leftarrow>heap_blocks h. nxt (hdr h b) - b)"
    by (rule sum.distinct_set_conv_list [OF seg_distinct [OF heap_invD(1) [OF i]]])
  also have "\<dots> = heap_end h" using seg_sum [OF heap_invD(1) [OF i]] by simp
  also have "\<dots> < 2 ^ 32" using heap_invD(7) [OF i] by simp
  finally show ?thesis .
qed

lemma heap_stats_insert:
  assumes s: "heap_stats h" and ok: "heap_ok h'" and u: "used_blocks h' = insert (b, e) (used_blocks h)" "(b, e) \<notin> used_blocks h"
    and m: "used_mem h' = used_mem h + word_of_nat (e - b)" "max_mem h' = max (max_mem h) (used_mem h')"
  shows "heap_stats h'"
proof -
  have b: "used_bytes h' = used_bytes h + (e - b)" using u by (simp add: used_bytes_def)
  then have lt: "used_bytes h + (e - b) < 2 ^ 32" using used_bytes_bound [OF ok] by simp
  have "unat (word_of_nat (e - b) :: u32) = e - b" using lt by (intro unat_of_nat32) simp
  then have "unat (used_mem h') = used_bytes h'" unfolding m(1) b using s lt by (simp add: heap_stats_def unat_add_no_wrap)
  then show ?thesis using m(2) by (simp add: heap_stats_def)
qed

lemma heap_stats_less:
  assumes s: "heap_stats h" and ok: "heap_ok h" and b: "used_bytes h = used_bytes h' + n"
    and m: "used_mem h' = used_mem h - word_of_nat n" "max_mem h' = max_mem h"
  shows "heap_stats h'"
proof -
  have "n < 2 ^ 32" using used_bytes_bound [OF ok] b by simp
  then have e: "unat (word_of_nat n :: u32) = n" by (rule unat_of_nat32)
  then have le: "word_of_nat n \<le> used_mem h" using s b by (simp add: heap_stats_def word_le_nat_alt)
  then have d: "unat (used_mem h') = unat (used_mem h) - n" unfolding m(1) using e by (simp add: unat_sub)
  then have "used_mem h' \<le> used_mem h" by (simp add: word_le_nat_alt)
  then show ?thesis using s b m(2) d by (auto simp: heap_stats_def)
qed

lemma used_bytes_remove: "(b, e) \<in> used_blocks h \<Longrightarrow> used_bytes h = (e - b) + (\<Sum>(b, e) \<in> used_blocks h - {(b, e)}. e - b)"
  unfolding used_bytes_def using sum.remove [OF finite_used, of "(b, e)" h "\<lambda>(b, e). e - b"] by simp

lemma heap_stats_remove:
  assumes "heap_stats h" "heap_ok h" and u: "used_blocks h' = used_blocks h - {(b, e)}" "(b, e) \<in> used_blocks h"
    and m: "used_mem h' = used_mem h - word_of_nat (e - b)" "max_mem h' = max_mem h"
  shows "heap_stats h'"
  using used_bytes_remove [OF u(2)] u(1) by (intro heap_stats_less [OF assms(1,2) _ m]) (simp add: used_bytes_def)

lemma heap_stats_shrink:
  assumes "heap_stats h" and ok: "heap_ok h" and u: "used_blocks h' = insert (b, e') (used_blocks h - {(b, e)})" "(b, e) \<in> used_blocks h"
    and e: "b \<le> e'" "e' \<le> e" and m: "used_mem h' = used_mem h - word_of_nat (e - e')" "max_mem h' = max_mem h"
  shows "heap_stats h'"
proof (rule heap_stats_less [OF assms(1,2) _ m])
  have "(b, e') \<notin> used_blocks h - {(b, e)}" using used_blocksD(1) [OF ok u(2)] used_blocksD(1) [OF ok] by auto
  then have "used_bytes h' = (e' - b) + (\<Sum>(b, e) \<in> used_blocks h - {(b, e)}. e - b)" by (simp add: used_bytes_def u(1))
  then show "used_bytes h = used_bytes h' + (e - e')" using used_bytes_remove [OF u(2)] e by simp
qed

section \<open>Initialisation\<close>

lemma rt_system_heap_init_effect:
  fixes h :: small_heap
  assumes "unat begin_addr + 42 \<le> unat end_addr"
  defines "h' \<equiv> rt_system_heap_init begin_addr end_addr h"
  shows "heap_inv [0] h'" "heap_sem h' = 1" "free_in h' 0" "used_blocks h' = {}"
    "mem_size_aligned h' + 32 \<ge> unat end_addr - unat begin_addr - 2" "used_mem h = 0 \<Longrightarrow> heap_stats h'"
proof -
  let ?b = "RT_ALIGN begin_addr 4" and ?e = "RT_ALIGN_DOWN end_addr 4"
  have lt: "unat end_addr < 2 ^ 32" using unsigned_less [of end_addr] by simp
  have b: "unat ?b = (unat begin_addr + 3) div 4 * 4" using assms(1) lt by (intro RT_ALIGN4) simp
  have e: "unat ?e = unat end_addr div 4 * 4" by (rule RT_ALIGN_DOWN4)
  have be: "unat ?b + 36 \<le> unat ?e" "unat ?b \<le> unat begin_addr + 3" "unat end_addr \<le> unat ?e + 3" using assms(1) unfolding b e by linarith+
  have c: "?e > 2 * 12" "?e - 2 * 12 \<ge> ?b"
    using be by (simp_all add: word_less_nat_alt word_le_nat_alt unat_sub)
  define s where "s = unat ?e - unat ?b - 24"
  have sz: "unat (?e - ?b - 2 * 12) = s"
    using be by (simp add: unat_sub word_le_nat_alt s_def)
  have h': "hdr h' = (hdr h)(0 := \<lparr>magic = HEAP_MAGIC, used = 0, nxt = s + 12, prv = 0\<rparr>,
      s + 12 := \<lparr>magic = HEAP_MAGIC, used = 1, nxt = s + 12, prv = s + 12\<rparr>)"
    "mem_size_aligned h' = s" "heap_ptr h' = unat ?b" "heap_end h' = s + 12" "heap_sem h' = 1" "lfree h' = 0" "used_mem h' = used_mem h"
    unfolding h'_def rt_system_heap_init_def Let_def using c unfolding sz by (simp_all add: fun_eq_iff)
  have s12: "12 \<le> s" "unat ?b + (s + 12) + 12 \<le> 2 ^ 32" using be lt e unfolding s_def by linarith+
  have d4: "4 dvd s" "4 dvd unat ?b" unfolding s_def b e by (simp_all add: dvd_diff_nat)
  have f: "free_in h' 0" "\<not> free_in h' (s + 12)" by (simp_all add: free_in_def h'(1))
  have sg: "seg (hdr h') 0 0 [0] (s + 12)" using s12 d4(1) by (simp add: h'(1))
  show i: "heap_inv [0] h'" unfolding heap_inv_def h'(2-6) using s12 d4 f sg by simp
  show "heap_sem h' = 1" "free_in h' 0" by (rule h'(5), rule f(1))
  show u: "used_blocks h' = {}" using heap_inv_blocks [OF i] f(1) by (simp add: used_blocks_def)
  show "used_mem h = 0 \<Longrightarrow> heap_stats h'" using u h'(7) by (simp add: heap_stats_def used_bytes_def)
  show "mem_size_aligned h' + 32 \<ge> unat end_addr - unat begin_addr - 2" unfolding h'(2) s_def using be by linarith
qed

section \<open>The heap as an allocator\<close>

text \<open>The memory the clients hold: addresses from the start of a payload to its end.\<close>

definition heap_live :: "small_heap \<Rightarrow> (nat \<times> nat) set" where
  "heap_live h = (\<lambda>(b, e). (heap_ptr h + b + 12, heap_ptr h + e)) ` used_blocks h"

lemma heap_live_iff: "(p, q) \<in> heap_live h \<longleftrightarrow> (\<exists>b e. (b, e) \<in> used_blocks h \<and> p = heap_ptr h + b + 12 \<and> q = heap_ptr h + e)"
  by (auto simp: heap_live_def)

lemma heap_live_apart:
  assumes "heap_ok h"
  shows "apart (heap_live h)"
proof -
  have i: "heap_inv (heap_blocks h) h" using assms by (simp add: heap_ok_def)
  have d: "e \<le> c + 12 \<or> f \<le> b + 12" if "(b, e) \<in> used_blocks h" "(c, f) \<in> used_blocks h" "(b, e) \<noteq> (c, f)" for b c e f
  proof -
    have e: "e = nxt (hdr h b)" "f = nxt (hdr h c)" using used_blocksD(1) [OF assms] that(1,2) by blast+
    then have "b \<noteq> c" using that(3) by auto
    then show ?thesis using blocks_disjoint [OF i] used_blocksD(2) [OF assms] that(1,2) e by (meson trans_le_add1)
  qed
  have "q \<le> p' \<or> q' \<le> p" if "(p, q) \<in> heap_live h" "(p', q') \<in> heap_live h" "(p, q) \<noteq> (p', q')" for p q p' q'
    using that d unfolding heap_live_iff by fastforce
  then show ?thesis unfolding apart_def by blast
qed

lemma rt_malloc_live:
  assumes ok: "heap_ok h" "0 < heap_sem h" and s: "unat size_arg \<le> 2 ^ 32 - 4"
  shows "\<exists>r h'. rt_malloc size_arg h = Some (r, h') \<and> heap_ok h' \<and> heap_sem h' = heap_sem h \<and> bytes h' = bytes h \<and> (heap_stats h \<longrightarrow> heap_stats h')
    \<and> (case r of None \<Rightarrow> h' = h
        | Some p \<Rightarrow> \<exists>b e. free_in h b \<and> (b, e) \<notin> used_blocks h \<and> used_blocks h' = insert (b, e) (used_blocks h) \<and> heap_ptr h' = heap_ptr h
            \<and> p = heap_ptr h + b + 12 \<and> 4 dvd p \<and> b + 12 + unat size_arg \<le> e \<and> e \<le> heap_end h)"
proof (cases "size_arg = 0")
  case True
  then show ?thesis using ok by (simp add: rt_malloc_def)
next
  case False
  have i: "heap_inv (heap_blocks h) h" using ok(1) by (simp add: heap_ok_def)
  from ok False s show ?thesis
  proof (cases rule: rt_malloc_effect)
    case none
    then show ?thesis using ok by simp
  next
    case (some xs b ys h')
    have "4 dvd b" using seg_dvd [OF heap_invD(1) [OF i], of b] some(1) by simp
    then have d: "4 dvd heap_ptr h + b + 12" using heap_invD(8) [OF i] by presburger
    have n: "(b, nxt (hdr h' b)) \<notin> used_blocks h" using some(2) by (simp add: used_blocks_def)
    have "b + 12 + unat size_arg \<le> nxt (hdr h' b)" "nxt (hdr h' b) \<le> heap_end h" using some(5-7) request_bounds(3) [OF s] by linarith+
    then have "\<exists>b' e. free_in h b' \<and> (b', e) \<notin> used_blocks h \<and> used_blocks h' = insert (b', e) (used_blocks h) \<and> heap_ptr h' = heap_ptr h
      \<and> heap_ptr h + b + 12 = heap_ptr h + b' + 12 \<and> 4 dvd heap_ptr h + b + 12 \<and> b' + 12 + unat size_arg \<le> e \<and> e \<le> heap_end h"
      using some(2,8,11) d n by blast
    then show ?thesis using some(3,4,14,15) heap_stats_insert [OF _ some(4,8) n some(16,17)] by auto
  qed
qed

lemma rt_free_live:
  assumes ok: "heap_ok h" "0 < heap_sem h" and b: "(b, e) \<in> used_blocks h"
  shows "\<exists>h'. rt_free (Some (heap_ptr h + b + 12)) h = Some h' \<and> heap_ok h' \<and> used_blocks h' = used_blocks h - {(b, e)}
    \<and> heap_ptr h' = heap_ptr h \<and> heap_sem h' = heap_sem h \<and> bytes h' = bytes h \<and> (heap_stats h \<longrightarrow> heap_stats h')"
proof -
  note u = used_blocksD [OF ok(1) b]
  obtain xs ys where "heap_blocks h = xs @ b # ys" using u(2) by (meson split_list)
  from rt_free_effect [OF ok this u(3)] show ?thesis
    using u(1) heap_inv_ok heap_stats_remove [OF _ ok(1) _ b] by fastforce
qed

interpretation small_mem: allocator "\<lambda>h. heap_ok h \<and> 0 < heap_sem h \<and> heap_stats h" heap_live "\<lambda>q. unat q \<le> 2 ^ 32 - 4" unat rt_malloc "\<lambda>p. rt_free (Some p)"
proof
  fix h a e
  assume h: "heap_ok h \<and> 0 < heap_sem h \<and> heap_stats h"
  show "apart (heap_live h)" using h heap_live_apart by simp
  show "a < e" if "(a, e) \<in> heap_live h" using that h used_blocksD(4) by (fastforce simp: heap_live_iff)
  show "\<exists>h'. rt_free (Some a) h = Some h' \<and> (heap_ok h' \<and> 0 < heap_sem h' \<and> heap_stats h') \<and> heap_live h' = heap_live h - {(a, e)}"
    if ae: "(a, e) \<in> heap_live h"
  proof -
    obtain b f where b: "(b, f) \<in> used_blocks h" "a = heap_ptr h + b + 12" "e = heap_ptr h + f" using ae unfolding heap_live_iff by blast
    obtain h' where "rt_free (Some a) h = Some h'" "heap_ok h'" "used_blocks h' = used_blocks h - {(b, f)}" "heap_ptr h' = heap_ptr h"
      "heap_sem h' = heap_sem h" "heap_stats h'" using rt_free_live [of h, OF _ _ b(1)] h b(2) by blast
    moreover have "inj (\<lambda>(b, e). (heap_ptr h + b + 12, heap_ptr h + e))" by (auto simp: inj_def)
    ultimately show ?thesis using h b by (simp add: heap_live_def image_set_diff)
  qed
next
  fix h and q :: u32
  assume h: "heap_ok h \<and> 0 < heap_sem h \<and> heap_stats h" and q: "unat q \<le> 2 ^ 32 - 4"
  obtain r h' where r: "rt_malloc q h = Some (r, h')" "heap_ok h'" "heap_sem h' = heap_sem h" "heap_stats h'" and
    l: "case r of None \<Rightarrow> h' = h | Some p \<Rightarrow> \<exists>b e. free_in h b \<and> (b, e) \<notin> used_blocks h \<and> used_blocks h' = insert (b, e) (used_blocks h)
      \<and> heap_ptr h' = heap_ptr h \<and> p = heap_ptr h + b + 12 \<and> 4 dvd p \<and> b + 12 + unat q \<le> e \<and> e \<le> heap_end h"
    using rt_malloc_live [OF _ _ q] h by blast
  have "case r of None \<Rightarrow> heap_live h' = heap_live h
      | Some p \<Rightarrow> \<exists>e. (p, e) \<notin> heap_live h \<and> heap_live h' = insert (p, e) (heap_live h) \<and> p + unat q \<le> e"
  proof (cases r)
    case (Some p)
    then obtain b e where b: "(b, e) \<notin> used_blocks h" "used_blocks h' = insert (b, e) (used_blocks h)" "heap_ptr h' = heap_ptr h"
      "p = heap_ptr h + b + 12" "b + 12 + unat q \<le> e" using l by auto
    then have "(p, heap_ptr h + e) \<notin> heap_live h" "heap_live h' = insert (p, heap_ptr h + e) (heap_live h)" by (auto simp: heap_live_def)
    then show ?thesis using Some b(4,5) by auto
  qed (use l in simp)
  then show "\<exists>r h'. rt_malloc q h = Some (r, h') \<and> (heap_ok h' \<and> 0 < heap_sem h' \<and> heap_stats h') \<and> (case r of None \<Rightarrow> heap_live h' = heap_live h
      | Some p \<Rightarrow> \<exists>e. (p, e) \<notin> heap_live h \<and> heap_live h' = insert (p, e) (heap_live h) \<and> p + unat q \<le> e)"
    using r h by auto
qed

section \<open>Releasing what was just allocated\<close>

lemma seg_nxt: "seg H pv a bs e \<Longrightarrow> seg H' pv' a bs e \<Longrightarrow> b \<in> set bs \<Longrightarrow> nxt (H b) = nxt (H' b)"
proof (induction bs arbitrary: pv pv' a)
  case (Cons c bs)
  have "nxt (H c) = nxt (H' c)" using Cons.prems by (cases bs) auto
  then show ?case using Cons.IH [of c "nxt (H c)" c] Cons.prems by auto
qed simp

lemma coalesced_neighbours:
  assumes "coalesced f (xs @ b # ys)" "f b"
  shows "xs \<noteq> [] \<Longrightarrow> \<not> f (last xs)" "ys \<noteq> [] \<Longrightarrow> \<not> f (hd ys)"
  using assms coalesced_tl [of f "b # ys"] by (auto simp: coalesced_append)

text \<open>The blocks that \<open>rt_malloc\<close> leaves, once \<open>b\<close> is free again, merge to the blocks before.\<close>

lemma malloc_plug_blocks:
  assumes i: "heap_inv (xs @ b # ys) h" "free_in h b" and sz: "12 \<le> sz" "b + 12 + sz \<le> nxt (hdr h b)"
    and h1: "hdr h1 = hdr (malloc_use b sz h)"
  shows "plug_blocks (\<lambda>x. x = b \<or> free_in h1 x) xs b ((if b + 12 + sz + 24 \<le> nxt (hdr h b) then [b + 12 + sz] else []) @ ys) = xs @ b # ys"
proof -
  note fr = malloc_use_free [OF i sz] and co = coalesced_neighbours [OF heap_invD(5) [OF i(1)] i(2)]
  have f1: "free_in h1 = free_in (malloc_use b sz h)" using h1 by (simp add: free_in_def fun_eq_iff)
  have nb: "b \<notin> set (xs @ ys)" using seg_distinct [OF heap_invD(1) [OF i(1)]] by auto
  have l: "\<not> (xs \<noteq> [] \<and> (last xs = b \<or> free_in h1 (last xs)))" using co(1) fr(2) [of "last xs"] nb f1 last_in_set [of xs] by auto
  have y: "\<not> (ys \<noteq> [] \<and> (hd ys = b \<or> free_in h1 (hd ys)))" using co(2) fr(2) [of "hd ys"] nb f1 by (cases ys) auto
  show ?thesis
  proof (cases "b + 12 + sz + 24 \<le> nxt (hdr h b)")
    case True
    then show ?thesis unfolding plug_blocks_def using l fr(4) f1 by simp
  next
    case False
    then show ?thesis unfolding plug_blocks_def using l y by auto
  qed
qed

lemma malloc_free_effect:
  assumes ok: "heap_ok h" "0 < heap_sem h" and s: "size_arg \<noteq> 0" "unat size_arg \<le> 2 ^ 32 - 4"
    and m: "rt_malloc size_arg h = Some (Some p, h1)"
  shows "\<exists>h2. rt_free (Some p) h1 = Some h2 \<and> heap_inv (heap_blocks h) h2 \<and> bytes h2 = bytes h \<and> heap_sem h2 = heap_sem h \<and> heap_end h2 = heap_end h
    \<and> (\<forall>x \<in> set (heap_blocks h). free_in h2 x = free_in h x)"
  using ok s
proof (cases rule: rt_malloc_effect)
  case none
  then show ?thesis using m by simp
next
  case (some xs b ys h')
  let ?r = "request size_arg"
  let ?zs = "(if b + 12 + ?r + 24 \<le> nxt (hdr h b) then [b + 12 + ?r] else []) @ ys"
  have e: "h' = h1" "p = heap_ptr h1 + b + 12" using m some(3,11) by auto
  have i: "heap_inv (xs @ b # ys) h" using ok(1) some(1) by (simp add: heap_ok_def)
  have le: "12 \<le> ?r" "b + 12 + ?r \<le> nxt (hdr h b)" using request_bounds(1) [OF s(2)] some(5,6) by simp_all
  note fr = malloc_use_free [OF i some(2) le]
  have f1: "free_in h1 = free_in (malloc_use b ?r h)" using some(10) e(1) by (simp add: free_in_def fun_eq_iff)
  have b1: "heap_blocks h1 = xs @ b # ?zs" using some(9) e(1) by (simp add: malloc_blocks_def)
  have ok1: "heap_ok h1" "0 < heap_sem h1" "\<not> free_in h1 b" using some(4,14) e(1) ok(2) fr(1) f1 by simp_all
  obtain h2 where h2: "rt_free (Some p) h1 = Some h2" "heap_inv (plug_blocks (\<lambda>x. x = b \<or> free_in h1 x) xs b ?zs) h2"
    "bytes h2 = bytes h1" "heap_sem h2 = heap_sem h1" "heap_end h2 = heap_end h1" "\<forall>x. free_in h2 x = (x = b \<or> free_in h1 x)"
    using rt_free_effect [OF ok1(1,2) b1 ok1(3)] e(2) by blast
  have "heap_inv (heap_blocks h) h2"
    using h2(2) malloc_plug_blocks [OF i some(2) le, of h1] some(1,10) e(1) by simp
  moreover have "\<forall>x \<in> set (heap_blocks h). free_in h2 x = free_in h x" using h2(6) fr(2) f1 some(1,2) by auto
  ultimately show ?thesis using h2 some(12,14,15) e(1) by auto
qed

section \<open>Changing the size of a block\<close>

text \<open>What \<open>rt_realloc\<close> promises for a live block \<open>(b, e)\<close>: the result holds the first bytes, the
  other blocks keep theirs.\<close>

definition kept :: "small_heap \<Rightarrow> nat \<Rightarrow> nat \<Rightarrow> nat \<Rightarrow> nat \<Rightarrow> nat \<Rightarrow> nat \<Rightarrow> small_heap \<Rightarrow> bool" where
  "kept h b e n p b' e' h' \<longleftrightarrow> p = heap_ptr h + b' + 12 \<and> used_blocks h' = insert (b', e') (used_blocks h - {(b, e)}) \<and> b' + 12 + n \<le> e' \<and> (b', e') \<notin> used_blocks h - {(b, e)}
     \<and> heap_ptr h' = heap_ptr h \<and> (\<forall>i < min n (e - (b + 12)). bytes h' (p + i) = bytes h (heap_ptr h + b + 12 + i))
     \<and> (\<forall>(c, f) \<in> used_blocks h - {(b, e)}. \<forall>a. heap_ptr h + c + 12 \<le> a \<longrightarrow> a < heap_ptr h + f \<longrightarrow> bytes h' a = bytes h a)"

lemma realloc_moves:
  assumes ok: "heap_ok h" "0 < heap_sem h" and b: "(b, e) \<in> used_blocks h" and n: "unat newsize \<le> 2 ^ 32 - 4"
    and m: "rt_malloc newsize h = Some (Some p, h1)" and len: "len = min (e - (b + 12)) (unat newsize)"
  shows "\<exists>h2 b' e'. rt_free (Some (heap_ptr h + b + 12)) (copy_bytes p (heap_ptr h + b + 12) len h1) = Some h2 \<and> heap_ok h2
    \<and> heap_sem h2 = heap_sem h \<and> (heap_stats h \<longrightarrow> heap_stats h2) \<and> kept h b e (unat newsize) p b' e' h2"
proof -
  obtain b' e' where h1: "heap_ok h1" "heap_sem h1 = heap_sem h" "bytes h1 = bytes h" "(b', e') \<notin> used_blocks h"
    "used_blocks h1 = insert (b', e') (used_blocks h)" "heap_ptr h1 = heap_ptr h" "p = heap_ptr h + b' + 12" "b' + 12 + unat newsize \<le> e'"
    "heap_stats h \<longrightarrow> heap_stats h1"
    using rt_malloc_live [OF ok n] m by auto
  define c where "c = copy_bytes p (heap_ptr h + b + 12) len h1"
  have c: "heap_ok c" "heap_sem c = heap_sem h" "used_blocks c = used_blocks h1" "heap_ptr c = heap_ptr h" "heap_stats h \<longrightarrow> heap_stats c"
    using h1 by (simp_all add: c_def copy_bytes_def heap_ok_def used_blocks_def heap_blocks_def heap_stats_def used_bytes_def)
  have cb: "bytes c = (\<lambda>a. if p \<le> a \<and> a < p + len then bytes h (heap_ptr h + b + 12 + (a - p)) else bytes h a)"
    unfolding c_def copy_bytes_def h1(3) [symmetric] by simp
  obtain h2 where h2: "rt_free (Some (heap_ptr h + b + 12)) c = Some h2" "heap_ok h2" "used_blocks h2 = used_blocks c - {(b, e)}"
    "heap_ptr h2 = heap_ptr c" "heap_sem h2 = heap_sem c" "bytes h2 = bytes c" "heap_stats c \<longrightarrow> heap_stats h2"
    using rt_free_live [of c b e] c ok(2) b h1(5) by auto
  have "(b', e') \<noteq> (b, e)" using b h1(4) by auto
  then have u: "used_blocks h2 = insert (b', e') (used_blocks h - {(b, e)})" using h2(3) c(3) h1(5) by auto
  have "bytes h2 a = bytes h a" if x: "(x, f) \<in> used_blocks h" "heap_ptr h + x + 12 \<le> a" "a < heap_ptr h + f" for x f a
  proof -
    have "(x, f) \<in> used_blocks h1" "(b', e') \<in> used_blocks h1" "(x, f) \<noteq> (b', e')" using x h1(4,5) by auto
    then have "(heap_ptr h + x + 12, heap_ptr h + f) \<in> heap_live h1" "(p, heap_ptr h + e') \<in> heap_live h1"
      "(heap_ptr h + x + 12, heap_ptr h + f) \<noteq> (p, heap_ptr h + e')" unfolding heap_live_iff h1(6,7) by auto
    then have "heap_ptr h + f \<le> p \<or> heap_ptr h + e' \<le> heap_ptr h + x + 12" using heap_live_apart [OF h1(1)] unfolding apart_def by blast
    moreover have "p + len \<le> heap_ptr h + e'" using h1(7,8) len by simp
    ultimately show ?thesis using x(2,3) unfolding h2(6) cb by auto
  qed
  moreover have "bytes h2 (p + i) = bytes h (heap_ptr h + b + 12 + i)" if "i < min (unat newsize) (e - (b + 12))" for i
    using that len unfolding h2(6) cb by simp
  ultimately have "kept h b e (unat newsize) p b' e' h2" using u h1(4,7,8) h2(4) c(4) unfolding kept_def by auto
  moreover have "heap_sem h2 = heap_sem h" "heap_stats h \<longrightarrow> heap_stats h2" using h2(5,7) c(2,5) by simp_all
  ultimately show ?thesis using h2(1,2) unfolding c_def by blast
qed

lemma kept_mono: "n \<le> m \<Longrightarrow> kept h b e m p b' e' h' \<Longrightarrow> kept h b e n p b' e' h'"
  by (auto simp: kept_def)

lemma rt_realloc_effect:
  assumes ok: "heap_ok h" "0 < heap_sem h" and b: "(b, e) \<in> used_blocks h" and n: "newsize \<noteq> 0" "unat newsize \<le> 2 ^ 32 - 4"
  shows "\<exists>r h'. rt_realloc (Some (heap_ptr h + b + 12)) newsize h = Some (r, h') \<and> heap_ok h' \<and> heap_sem h' = heap_sem h \<and> (heap_stats h \<longrightarrow> heap_stats h')
    \<and> (case r of None \<Rightarrow> h' = h | Some p \<Rightarrow> \<exists>b' e'. kept h b e (unat (RT_ALIGN newsize 4)) p b' e' h')"
proof -
  define w where "w = RT_ALIGN newsize 4"
  let ?l = "h\<lparr>heap_sem := heap_sem h - 1\<rparr>" and ?p = "heap_ptr h + b + 12"
  note u = used_blocksD [OF ok(1) b]
  have i: "heap_inv (heap_blocks h) h" using ok(1) by (simp add: heap_ok_def)
  note o = heap_offset [OF i u(2)] and z = heap_block_size(1) [OF i u(2)]
  have un: "heap_unlock ?l = h" by (simp add: heap_unlock_def)
  have a: "unat w = (unat newsize + 3) div 4 * 4" unfolding w_def by (rule RT_ALIGN4 [OF n(2)])
  have n0: "0 < unat newsize" using n(1) by (simp add: unat_gt_0)
  have w: "unat w \<noteq> 0" "4 dvd unat w" "4 \<le> unat w" "unat w \<le> 2 ^ 32 - 4"
  proof -
    show d: "4 dvd unat w" unfolding a by simp
    show z: "unat w \<noteq> 0" "unat w \<le> 2 ^ 32 - 4" using n0 n(2) unfolding a by simp_all
    show "4 \<le> unat w" using d z(1) by (intro dvd_imp_le) simp_all
  qed
  consider "mem_size_aligned h < unat w" | "unat w \<le> mem_size_aligned h" "e - (b + 12) = unat w"
    | "unat w \<le> mem_size_aligned h" "unat w + 24 < e - (b + 12)"
    | "unat w \<le> mem_size_aligned h" "e - (b + 12) \<noteq> unat w" "\<not> unat w + 24 < e - (b + 12)" by linarith
  then have "\<exists>r h'. rt_realloc (Some ?p) newsize h = Some (r, h') \<and> heap_ok h' \<and> heap_sem h' = heap_sem h \<and> (heap_stats h \<longrightarrow> heap_stats h')
    \<and> (case r of None \<Rightarrow> h' = h | Some p \<Rightarrow> \<exists>b' e'. kept h b e (unat w) p b' e' h')"
  proof cases
    case 1
    then show ?thesis using ok by (simp add: rt_realloc_def Let_def w_def)
  next
    case 2
    have "kept h b e (unat w) ?p b e h" using 2 u(4) b by (auto simp: kept_def)
    moreover have "rt_realloc (Some ?p) newsize h = Some (Some ?p, h)"
      using 2 w(1) ok(2) o un u(1) z by (simp add: rt_realloc_def Let_def w_def [symmetric] heap_lock_eq)
    ultimately show ?thesis using ok(1) by auto
  next
    case 3
    obtain xs ys where bs: "heap_blocks h = xs @ b # ys" using u(2) by (meson split_list)
    define u' where "u' = used_mem h - word_of_nat (e - (b + 12) - unat w)"
    let ?m = "?l\<lparr>used_mem := u'\<rparr>"
    have il: "heap_inv (xs @ b # ys) ?m" "\<not> free_in ?m b" "b + 12 + unat w + 24 < nxt (hdr ?m b)" using i bs u(1,3) 3(2) by simp_all
    define s where "s = realloc_shrink b (unat w) ?m"
    obtain zs H where s: "s = ?m\<lparr>hdr := H, lfree := lfree s\<rparr>" "heap_inv zs s"
      "used_blocks s = insert (b, b + 12 + unat w) (used_blocks ?m - {(b, nxt (hdr ?m b))})"
      using realloc_shrink_effect [OF il(1,2) w(3,2) il(3)] unfolding s_def by blast
    have sf: "heap_ptr s = heap_ptr h" "bytes s = bytes h" "heap_sem (heap_unlock s) = heap_sem h" "used_mem s = u'" "max_mem s = max_mem h"
      by (subst s(1), simp add: heap_unlock_def)+
    have "used_blocks ?m = used_blocks h" by (simp add: used_blocks_def heap_blocks_def)
    moreover have "(b, b + 12 + unat w) \<notin> used_blocks h" using used_blocksD(1) [OF ok(1), of b "b + 12 + unat w"] u(1) 3(2) by auto
    ultimately have "kept h b e (unat w) ?p b (b + 12 + unat w) (heap_unlock s)" using s(3) sf u(1) by (auto simp: kept_def)
    moreover have "rt_realloc (Some ?p) newsize h = Some (Some ?p, heap_unlock s)"
      using 3 w(1) ok(2) o u(1) z by (simp add: rt_realloc_def Let_def w_def [symmetric] heap_lock_eq s_def u'_def)
    moreover have "heap_ok (heap_unlock s)" using s(2) heap_inv_ok [of zs "heap_unlock s"] by simp
    moreover have "heap_stats (heap_unlock s)" if "heap_stats h"
      using heap_stats_shrink [OF that ok(1) _ b, of "heap_unlock s" "b + 12 + unat w"] s(3) sf u(1) 3(2) \<open>used_blocks ?m = used_blocks h\<close>
      by (simp add: u'_def)
    ultimately show ?thesis using sf(3) by auto
  next
    case 4
    have r: "rt_realloc (Some ?p) newsize h = (case rt_malloc w h of None \<Rightarrow> None | Some (None, h) \<Rightarrow> Some (None, h)
      | Some (Some nmem, h) \<Rightarrow> map_option (\<lambda>h. (Some nmem, h)) (rt_free (Some ?p) (copy_bytes nmem ?p (min (e - (b + 12)) (unat w)) h)))"
      using 4 w(1) ok(2) o un u(1) z by (simp add: rt_realloc_def Let_def w_def [symmetric] heap_lock_eq min_def split: option.split)
    obtain q h1 where q: "rt_malloc w h = Some (q, h1)" "case q of None \<Rightarrow> h1 = h | Some _ \<Rightarrow> True"
      using rt_malloc_live [OF ok w(4)] by (auto split: option.splits)
    show ?thesis
    proof (cases q)
      case None
      then show ?thesis using r q ok(1) by simp
    next
      case (Some p)
      then show ?thesis using r realloc_moves [OF ok b w(4), of p h1 "min (e - (b + 12)) (unat w)"] q(1) by auto
    qed
  qed
  then show ?thesis unfolding w_def .
qed

section \<open>Properties\<close>

text \<open>A heap of 216 bytes, after reset.\<close>

definition cold_heap :: small_heap where
  "cold_heap = rt_system_heap_init 0x1000 0x1100
     \<lparr>heap_ptr = 0, heap_end = 0, lfree = 0, mem_size_aligned = 0, heap_sem = 0, used_mem = 0, max_mem = 0,
      hdr = (\<lambda>_. \<lparr>magic = 0, used = 0, nxt = 0, prv = 0\<rparr>), bytes = (\<lambda>_. 0)\<rparr>"

lemma cold_heap:
  "heap_inv [0] cold_heap" "heap_ok cold_heap" "heap_sem cold_heap = 1" "free_in cold_heap 0" "used_blocks cold_heap = {}" "heap_live cold_heap = {}"
  "heap_ptr cold_heap = 4096" "mem_size_aligned cold_heap = 232" "heap_stats cold_heap" "used_mem cold_heap = 0"
proof -
  have le: "unat (0x1000 :: u32) + 42 \<le> unat (0x1100 :: u32)" by simp
  note i = rt_system_heap_init_effect [OF le]
  show h: "heap_inv [0] cold_heap" "heap_sem cold_heap = 1" "free_in cold_heap 0" "used_blocks cold_heap = {}"
    unfolding cold_heap_def by (rule i)+
  show "heap_stats cold_heap" unfolding cold_heap_def by (rule i) simp
  show "heap_ok cold_heap" by (rule heap_inv_ok [OF h(1)])
  show "heap_live cold_heap = {}" by (simp add: heap_live_def h(4))
  show "heap_ptr cold_heap = 4096" "mem_size_aligned cold_heap = 232" "used_mem cold_heap = 0"
    by (simp_all add: cold_heap_def rt_system_heap_init_def RT_ALIGN_def RT_ALIGN_DOWN_def Let_def)
qed

text \<open>
  C5. \<open>rt_malloc\<close> returns. It refuses only when no free block is large enough, the exact end of the
  heap apart, and then changes nothing; otherwise the block it returns is aligned, lies in the heap,
  is as large as asked for and overlaps no block in use. Nothing is written to user memory.
\<close>

theorem rt_malloc_correct:
  assumes "heap_ok h" "0 < heap_sem h" "size_arg \<noteq> 0" "unat size_arg \<le> 2 ^ 32 - 4"
  shows "\<exists>r h'. rt_malloc size_arg h = Some (r, h') \<and> heap_ok h' \<and> heap_sem h' = heap_sem h \<and> bytes h' = bytes h
    \<and> (case r of
         None \<Rightarrow> h' = h \<and> (\<forall>b \<in> set (heap_blocks h). free_in h b \<longrightarrow> b + 12 + request size_arg \<le> nxt (hdr h b)
           \<longrightarrow> b + 12 + request size_arg = heap_end h)
       | Some p \<Rightarrow> \<exists>e. 4 dvd p \<and> heap_ptr h + 12 \<le> p \<and> p + unat size_arg \<le> e \<and> e \<le> heap_ptr h + heap_end h
           \<and> (p, e) \<notin> heap_live h \<and> heap_live h' = insert (p, e) (heap_live h) \<and> apart (heap_live h'))"
proof -
  obtain r h' where r: "rt_malloc size_arg h = Some (r, h')" "heap_ok h'" "heap_sem h' = heap_sem h" "bytes h' = bytes h" and
    l: "case r of None \<Rightarrow> h' = h | Some p \<Rightarrow> \<exists>b e. free_in h b \<and> (b, e) \<notin> used_blocks h \<and> used_blocks h' = insert (b, e) (used_blocks h)
      \<and> heap_ptr h' = heap_ptr h \<and> p = heap_ptr h + b + 12 \<and> 4 dvd p \<and> b + 12 + unat size_arg \<le> e \<and> e \<le> heap_end h"
    using rt_malloc_live [OF assms(1,2,4)] by blast
  show ?thesis
  proof (cases r)
    case None
    from assms have "\<forall>b \<in> set (heap_blocks h). free_in h b \<longrightarrow> b + 12 + request size_arg \<le> nxt (hdr h b)
           \<longrightarrow> b + 12 + request size_arg = heap_end h"
      by (cases rule: rt_malloc_effect) (use r(1) None in auto)
    then show ?thesis using r l None by simp
  next
    case (Some p)
    then obtain b e where b: "(b, e) \<notin> used_blocks h" "used_blocks h' = insert (b, e) (used_blocks h)" "heap_ptr h' = heap_ptr h"
      "p = heap_ptr h + b + 12" "4 dvd p" "b + 12 + unat size_arg \<le> e" "e \<le> heap_end h" using l by auto
    have "(p, heap_ptr h + e) \<notin> heap_live h" "heap_live h' = insert (p, heap_ptr h + e) (heap_live h)"
      using b(1-4) by (auto simp: heap_live_def)
    moreover have "heap_ptr h + 12 \<le> p" "p + unat size_arg \<le> heap_ptr h + e" "heap_ptr h + e \<le> heap_ptr h + heap_end h"
      using b(4,6,7) by simp_all
    ultimately show ?thesis using r Some b(5) heap_live_apart [OF r(2)] by auto
  qed
qed

theorem rt_malloc_correct_witness:
  "\<exists>r h'. rt_malloc 100 cold_heap = Some (r, h') \<and> heap_ok h'"
  using rt_malloc_correct [of cold_heap 100] cold_heap by auto

text \<open>
  Releasing a block that was just allocated undoes the allocation: the sequence of blocks, their
  sizes and states and the lowest free block are as before.
\<close>

theorem rt_malloc_free_restores:
  assumes "heap_ok h" "0 < heap_sem h" "size_arg \<noteq> 0" "unat size_arg \<le> 2 ^ 32 - 4" "rt_malloc size_arg h = Some (Some p, h1)"
  shows "\<exists>h2. rt_free (Some p) h1 = Some h2 \<and> heap_ok h2 \<and> heap_blocks h2 = heap_blocks h \<and> lfree h2 = lfree h \<and> bytes h2 = bytes h
    \<and> heap_sem h2 = heap_sem h \<and> (\<forall>b \<in> set (heap_blocks h). free_in h2 b = free_in h b \<and> nxt (hdr h2 b) = nxt (hdr h b))"
proof -
  have i: "heap_inv (heap_blocks h) h" using assms(1) by (simp add: heap_ok_def)
  obtain h2 where h2: "rt_free (Some p) h1 = Some h2" "heap_inv (heap_blocks h) h2" "bytes h2 = bytes h" "heap_sem h2 = heap_sem h"
    "heap_end h2 = heap_end h" "\<forall>x \<in> set (heap_blocks h). free_in h2 x = free_in h x"
    using malloc_free_effect [OF assms] by blast
  have "filter (free_in h2) (heap_blocks h) = filter (free_in h) (heap_blocks h)" using h2(6) by (intro filter_cong_set) simp
  then have "lfree h2 = lfree h" using heap_invD(6) [OF i] heap_invD(6) [OF h2(2)] h2(5) by simp
  moreover have "nxt (hdr h2 b) = nxt (hdr h b)" if "b \<in> set (heap_blocks h)" for b
    using seg_nxt [OF heap_invD(1) [OF h2(2)] _ that] heap_invD(1) [OF i] h2(5) by simp
  ultimately show ?thesis using h2 heap_inv_ok [OF h2(2)] heap_inv_blocks [OF h2(2)] by blast
qed

theorem rt_malloc_free_restores_witness:
  "\<exists>p h1 h2. rt_malloc 100 cold_heap = Some (Some p, h1) \<and> rt_free (Some p) h1 = Some h2 \<and> heap_blocks h2 = [0]"
proof -
  have b: "heap_blocks cold_heap = [0]" by (rule heap_inv_blocks [OF cold_heap(1)])
  have n: "nxt (hdr cold_heap 0) = 244" "heap_end cold_heap = 244" using heap_invD(1,2) [OF cold_heap(1)] cold_heap(8) by simp_all
  have c: "heap_ok cold_heap" "0 < heap_sem cold_heap" "(100 :: u32) \<noteq> 0" "unat (100 :: u32) \<le> 2 ^ 32 - 4" using cold_heap by simp_all
  obtain p h1 where m: "rt_malloc 100 cold_heap = Some (Some p, h1)"
    using c by (cases rule: rt_malloc_effect) (use b n cold_heap(4) in \<open>auto simp: request_def RT_ALIGN_def\<close>)
  show ?thesis using rt_malloc_free_restores [OF c m] m b by auto
qed

text \<open>
  C34. \<open>rt_realloc\<close> of a block in use returns; when it fails, nothing has changed, and otherwise the
  result is large enough, holds the bytes of the old block up to the smaller of the two sizes, and
  the bytes of every other block in use are untouched.
\<close>

theorem rt_realloc_correct:
  assumes "heap_ok h" "0 < heap_sem h" "(b, e) \<in> used_blocks h" "newsize \<noteq> 0" "unat newsize \<le> 2 ^ 32 - 4"
  shows "\<exists>r h'. rt_realloc (Some (heap_ptr h + b + 12)) newsize h = Some (r, h') \<and> heap_ok h' \<and> heap_sem h' = heap_sem h \<and> (heap_stats h \<longrightarrow> heap_stats h')
    \<and> (case r of None \<Rightarrow> h' = h | Some p \<Rightarrow> \<exists>b' e'. kept h b e (unat newsize) p b' e' h')"
proof -
  have "unat newsize \<le> unat (RT_ALIGN newsize 4)" unfolding RT_ALIGN4 [OF assms(5)] by linarith
  then show ?thesis using rt_realloc_effect [OF assms] kept_mono by (fastforce split: option.splits)
qed

theorem rt_realloc_correct_witness:
  "\<exists>p h1 r h2. rt_malloc 100 cold_heap = Some (Some p, h1) \<and> rt_realloc (Some p) 40 h1 = Some (r, h2) \<and> heap_ok h2"
proof -
  have b: "heap_blocks cold_heap = [0]" by (rule heap_inv_blocks [OF cold_heap(1)])
  have n: "nxt (hdr cold_heap 0) = 244" "heap_end cold_heap = 244" using heap_invD(1,2) [OF cold_heap(1)] cold_heap(8) by simp_all
  have c: "heap_ok cold_heap" "0 < heap_sem cold_heap" "(100 :: u32) \<noteq> 0" "unat (100 :: u32) \<le> 2 ^ 32 - 4" using cold_heap by simp_all
  from c show ?thesis
  proof (cases rule: rt_malloc_effect)
    case none
    then show ?thesis using b n cold_heap(4) by (auto simp: request_def RT_ALIGN_def)
  next
    case (some xs a ys h')
    have h: "0 < heap_sem h'" "(a, nxt (hdr h' a)) \<in> used_blocks h'" "(40 :: u32) \<noteq> 0" "unat (40 :: u32) \<le> 2 ^ 32 - 4"
      using some(8,14) cold_heap(3) by auto
    show ?thesis using rt_realloc_correct [OF some(4) h] some(3,11) by auto
  qed
qed

text \<open>
  C4. A heap that has just been initialised, and any client that asks for memory and gives back
  blocks it holds, in any order: every call returns, the blocks held never overlap, they are
  exactly the blocks the heap has in use, and \<open>rt_memory_info\<close> reports their total size.
\<close>

theorem heap_client_safe:
  assumes "unat begin_addr + 42 \<le> unat end_addr" "used_mem h = 0" "\<forall>q. Ask q \<in> set ops \<longrightarrow> unat q \<le> 2 ^ 32 - 4"
  shows "\<exists>held h'. client rt_malloc (\<lambda>p. rt_free (Some p)) ops ([], rt_system_heap_init begin_addr end_addr h) = Some (held, h')
    \<and> heap_ok h' \<and> apart (heap_live h') \<and> distinct held \<and> fst ` heap_live h' = set held
    \<and> (case rt_memory_info h' of (sz, u, mx) \<Rightarrow> sz = mem_size_aligned h' \<and> unat u = used_bytes h' \<and> u \<le> mx)"
proof -
  define h0 where "h0 = rt_system_heap_init begin_addr end_addr h"
  note i = rt_system_heap_init_effect [OF assms(1), of h, folded h0_def]
  have l: "heap_live h0 = {}" using i(4) by (simp add: heap_live_def)
  have ok: "heap_ok h0 \<and> 0 < heap_sem h0 \<and> heap_stats h0" using heap_inv_ok [OF i(1)] i(2) i(6) [OF assms(2)] by simp
  from small_mem.client_from_empty [OF ok l assms(3)] show ?thesis
    unfolding h0_def [symmetric] by (fastforce simp: rt_memory_info_def heap_stats_def)
qed

theorem heap_client_safe_witness:
  "\<exists>held h'. client rt_malloc (\<lambda>p. rt_free (Some p)) [Ask 40, Ask 20, Give_back 0, Ask 60]
     ([], rt_system_heap_init 0x1000 0x1100 cold_heap) = Some (held, h') \<and> apart (heap_live h')"
proof -
  have "unat (0x1000 :: u32) + 42 \<le> unat (0x1100 :: u32)" "\<forall>q. Ask q \<in> set [Ask 40, Ask 20, Give_back 0, Ask 60] \<longrightarrow> unat (q :: u32) \<le> 2 ^ 32 - 4"
    by auto
  from heap_client_safe [OF this(1) cold_heap(10) this(2)] show ?thesis by blast
qed

text \<open>
  A request of more than \<open>0xFFFFFFFC\<close> bytes wraps to zero when it is rounded up, before it is
  compared with the size of the heap, and is served like a request of 12 bytes; and \<open>rt_calloc\<close>
  multiplies its arguments without looking for overflow, so that \<open>0x80000001\<close> objects of two bytes
  get the block of a two-byte request.
\<close>

theorem rt_malloc_size_wraps:
  assumes "heap_ok h" "0xFFFFFFFC < size_arg"
  shows "rt_malloc size_arg h = rt_malloc 12 h
    \<and> map_option fst (rt_calloc 0x80000001 2 h) = map_option fst (rt_malloc 2 h)"
proof -
  have "size_arg = 0xFFFFFFFD \<or> size_arg = 0xFFFFFFFE \<or> size_arg = 0xFFFFFFFF"
  proof -
    have "unat size_arg < 2 ^ 32" "unat size_arg > 0xFFFFFFFC" using assms(2) unsigned_less [of size_arg] by (simp_all add: word_less_nat_alt)
    then have "unat size_arg = unat (0xFFFFFFFD :: u32) \<or> unat size_arg = unat (0xFFFFFFFE :: u32) \<or> unat size_arg = unat (0xFFFFFFFF :: u32)"
      by auto
    then show ?thesis by (metis word_unat_eq_iff)
  qed
  then have a: "RT_ALIGN size_arg 4 = 0" by (auto simp: RT_ALIGN_def)
  have "12 \<le> mem_size_aligned h" using heap_invD(3) assms(1) by (auto simp: heap_ok_def)
  then have "rt_malloc size_arg h = rt_malloc 12 h" using a assms(2) by (auto simp: rt_malloc_def RT_ALIGN_def Let_def)
  moreover have "map_option fst (rt_calloc 0x80000001 2 h) = map_option fst (rt_malloc 2 h)"
  proof -
    have "(0x80000001 :: u32) * 2 = 2" by simp
    then show ?thesis unfolding rt_calloc_def by (simp only:) (simp split: option.split)
  qed
  ultimately show ?thesis ..
qed

theorem rt_malloc_size_wraps_witness:
  "\<exists>r h'. rt_malloc 0xFFFFFFFF cold_heap = Some (r, h')"
  using rt_malloc_size_wraps [of cold_heap "0xFFFFFFFF"] rt_malloc_live [of cold_heap 12] cold_heap by auto

text \<open>
  The search ends at \<open>mem_size_aligned - size\<close>, so the largest request that fits into the last
  block exactly is refused: an empty heap cannot be allocated whole.
\<close>

theorem rt_malloc_refuses_exact_fit:
  assumes "heap_inv [0] h" "0 < heap_sem h" "0 < mem_size_aligned h"
  shows "rt_malloc (word_of_nat (mem_size_aligned h)) h = Some (None, h) \<and> nxt (hdr h 0) = 0 + 12 + mem_size_aligned h"
proof -
  let ?s = "word_of_nat (mem_size_aligned h) :: u32"
  note d = heap_invD [OF assms(1)]
  have s: "unat ?s = mem_size_aligned h" "mem_size_aligned h \<le> 2 ^ 32 - 4"
    using d(2,7) by (simp_all add: unat_of_nat)
  have r: "request ?s = mem_size_aligned h" using RT_ALIGN4 [of ?s] s d(3,9) by (auto simp: request_def elim!: dvdE)
  have n: "nxt (hdr h 0) = heap_end h" using d(1) by simp
  then have e: "nxt (hdr h 0) = 0 + 12 + mem_size_aligned h" using d(2) by simp
  have b: "heap_blocks h = [0]" by (rule heap_inv_blocks [OF assms(1)])
  have ok: "heap_ok h" by (rule heap_inv_ok [OF assms(1)])
  have "?s \<noteq> 0" using s(1) assms(3) by auto
  with ok assms(2) have "rt_malloc ?s h = Some (None, h)"
    by (cases rule: rt_malloc_cases [of h ?s]) (use r d(9) b in \<open>auto simp: fits_def Cons_eq_append_conv\<close>)
  with e show ?thesis by blast
qed

theorem rt_malloc_refuses_exact_fit_witness: "rt_malloc 232 cold_heap = Some (None, cold_heap)"
  using rt_malloc_refuses_exact_fit [of cold_heap] cold_heap by simp

end
