(* ===== verification/Mem_Align.thy ===== *)
theory Mem_Align
  imports Mem Kservice
begin

text \<open>
  The routines of \<^verbatim>\<open>rt-thread/src/kservice.c\<close> on top of the heap: aligned blocks (\<open>rt_malloc_align\<close>,
  \<open>rt_free_align\<close>), which keep the address of the real block in the word in front of the aligned
  one, and \<open>rt_strdup\<close>.
\<close>

section \<open>Operations\<close>

definition rt_malloc_align :: "u32 \<Rightarrow> u32 \<Rightarrow> small_heap \<Rightarrow> (nat option \<times> small_heap) option" where
  "rt_malloc_align sz align h =
     (let uintptr_size = 4 - 1;
          align = (align + uintptr_size) AND NOT uintptr_size;
          align_size = ((sz + uintptr_size) AND NOT uintptr_size) + align
      in case rt_malloc align_size h of
           None \<Rightarrow> None
         | Some (None, h) \<Rightarrow> Some (None, h)
         | Some (Some ptr, h) \<Rightarrow>
             let p = word_of_nat ptr;
                 align_ptr = unat (if p AND (align - 1) = 0 then p + align
                   else (p + (align - 1)) AND NOT (align - 1) :: u32)
             in Some (Some align_ptr, h\<lparr>bytes := store32 (align_ptr - 4) p (bytes h)\<rparr>))"

definition rt_free_align :: "nat \<Rightarrow> small_heap \<Rightarrow> small_heap option" where
  "rt_free_align ptr h =
     (let real_ptr = unat (load32 (ptr - 4) (bytes h))
      in rt_free (if real_ptr = 0 then None else Some real_ptr) h)"

definition rt_strdup :: "cstring \<Rightarrow> small_heap \<Rightarrow> (nat option \<times> small_heap) option" where
  "rt_strdup s h =
     (let len = rt_strlen s + 1
      in case rt_malloc (word_of_nat len) h of
           None \<Rightarrow> None
         | Some (None, h) \<Rightarrow> Some (None, h)
         | Some (Some tmp, h) \<Rightarrow>
             Some (Some tmp, h\<lparr>bytes := (\<lambda>a. if tmp \<le> a \<and> a < tmp + len then chr_at (drop (a - tmp) s) else bytes h a)\<rparr>))"

section \<open>Alignment\<close>

lemma and_mask_zero:
  fixes x :: u32
  shows "x AND (2 ^ k - 1) = 0 \<longleftrightarrow> 2 ^ k dvd unat x"
proof -
  have "x AND (2 ^ k - 1) = take_bit k x" by (simp add: take_bit_eq_mask mask_eq_exp_minus_1)
  moreover have "unat (take_bit k x) = unat x mod 2 ^ k"
    unfolding take_bit_eq_mod [of k "unat x", symmetric] by (rule unsigned_take_bit_eq)
  ultimately show ?thesis by (metis dvd_eq_mod_eq_0 unat_0 unat_eq_zero)
qed

lemma and_not_mask:
  fixes x :: u32
  shows "unat (x AND NOT (2 ^ k - 1)) = unat x div 2 ^ k * 2 ^ k"
proof -
  have t: "x AND (2 ^ k - 1) = take_bit k x" by (simp add: take_bit_eq_mask mask_eq_exp_minus_1)
  have u: "unat (take_bit k x) = unat x mod 2 ^ k"
    unfolding take_bit_eq_mod [of k "unat x", symmetric] by (rule unsigned_take_bit_eq)
  have "x = (x AND NOT (2 ^ k - 1)) + (x AND (2 ^ k - 1))"
    using disjunctive_add_eq_or [of "x AND NOT (2 ^ k - 1)" "x AND (2 ^ k - 1)"]
    by (simp add: bit.conj_disj_distrib [symmetric] ac_simps)
  then have "x AND NOT (2 ^ k - 1) = x - take_bit k x" unfolding t by (metis add_diff_cancel_right')
  moreover have "unat (x - take_bit k x) = unat x - unat x mod 2 ^ k"
    unfolding u [symmetric] by (rule unat_sub) (simp only: word_le_nat_alt u, simp)
  ultimately show ?thesis by (simp add: minus_mod_eq_div_mult)
qed

lemma load32_store32: "load32 a (store32 a w m) = w"
proof (rule bit_word_eqI)
  fix n :: nat
  assume "n < LENGTH(32)"
  then show "bit (load32 a (store32 a w m)) n = bit w n"
    unfolding load32_def store32_def by (cases "n < 8"; cases "n < 16"; cases "n < 24") (auto simp: bit_simps not_less)
qed

lemma store32_outside: "x < a \<or> a + 4 \<le> x \<Longrightarrow> store32 a w m x = m x"
  by (auto simp: store32_def)

lemma bytes_irrelevant [simp]:
  "heap_ok (h\<lparr>bytes := f\<rparr>) \<longleftrightarrow> heap_ok h" "used_blocks (h\<lparr>bytes := f\<rparr>) = used_blocks h" "heap_live (h\<lparr>bytes := f\<rparr>) = heap_live h"
  by (simp_all add: heap_ok_def heap_inv_def heap_blocks_def used_blocks_def heap_live_def free_in_def)


section \<open>Properties\<close>

lemma apartD: "apart L \<Longrightarrow> (a, e) \<in> L \<Longrightarrow> (b, f) \<in> L \<Longrightarrow> (a, e) \<noteq> (b, f) \<Longrightarrow> e \<le> b \<or> f \<le> a"
  unfolding apart_def by blast

text \<open>Where an aligned block ends up in the block \<open>rt_malloc\<close> returned.\<close>

lemma align_place:
  fixes p :: u32
  assumes "2 \<le> k" "k < 31" "4 dvd unat p" "unat p + 2 ^ k < 2 ^ 32"
  defines "q \<equiv> unat (if p AND (2 ^ k - 1) = 0 then p + 2 ^ k else (p + (2 ^ k - 1)) AND NOT (2 ^ k - 1))"
  shows "2 ^ k dvd q" "unat p + 4 \<le> q" "q \<le> unat p + 2 ^ k"
proof -
  have "(2 :: nat) ^ k < 2 ^ 32" using assms(2) by (intro power_strict_increasing) simp_all
  then have u: "unat (2 ^ k :: u32) = 2 ^ k" using unat_of_nat32 [of "2 ^ k"] by simp
  have d4: "(4 :: nat) dvd 2 ^ k" using assms(1) by (metis le_imp_power_dvd power2_eq_square numeral_Bit0 mult_2)
  have l: "(4 :: nat) \<le> 2 ^ k" using d4 by (rule dvd_imp_le) simp
  have "2 ^ k dvd q \<and> unat p + 4 \<le> q \<and> q \<le> unat p + 2 ^ k"
  proof (cases "p AND (2 ^ k - 1) = 0")
    case True
    then have "q = unat p + 2 ^ k" using assms(4) by (simp add: q_def unat_add_no_wrap u)
    then show ?thesis using True l by (simp add: and_mask_zero)
  next
    case False
    then have nd: "\<not> 2 ^ k dvd unat p" by (simp add: and_mask_zero)
    have "unat (2 ^ k - 1 :: u32) = 2 ^ k - 1" using u by (subst unat_sub) (simp_all add: word_le_nat_alt)
    then have "unat (p + (2 ^ k - 1)) = unat p + (2 ^ k - 1)" using assms(4) by (simp add: unat_add_no_wrap)
    then have q: "q = (unat p + (2 ^ k - 1)) div 2 ^ k * 2 ^ k" using False by (simp add: q_def and_not_mask)
    define r where "r = unat p mod 2 ^ k"
    have r: "0 < r" "r < 2 ^ k" using nd by (simp_all add: r_def dvd_eq_mod_eq_0)
    have p: "unat p = unat p div 2 ^ k * 2 ^ k + r" by (simp only: r_def div_mult_mod_eq)
    have "(unat p + (2 ^ k - 1)) div 2 ^ k = unat p div 2 ^ k + 1"
    proof -
      have "unat p + (2 ^ k - 1) = (r - 1) + (unat p div 2 ^ k + 1) * 2 ^ k" using p r by (simp add: algebra_simps)
      moreover have "((r - 1) + (unat p div 2 ^ k + 1) * 2 ^ k) div 2 ^ k = unat p div 2 ^ k + 1" using r by (subst div_mult_self1) simp_all
      ultimately show ?thesis by (simp only:)
    qed
    then have "q = unat p div 2 ^ k * 2 ^ k + 2 ^ k" unfolding q by simp
    then have q: "2 ^ k dvd q" "unat p < q" "q \<le> unat p + 2 ^ k" using p r by (simp, linarith+)
    have "4 dvd q" using d4 q(1) by (rule dvd_trans)
    then have "unat p + 4 \<le> q" using assms(3) q(2) by presburger
    then show ?thesis using q by blast
  qed
  then show "2 ^ k dvd q" "unat p + 4 \<le> q" "q \<le> unat p + 2 ^ k" by blast+
qed


text \<open>
  An aligned allocation for a power of two returns; when it is refused nothing changes.
  Otherwise the address is a multiple of the alignment, its bytes and the word in
  front of them lie in one new block of the heap, no other live block is written, and
  \<open>rt_free_align\<close> gives back exactly that block.
\<close>

theorem rt_malloc_align_correct:
  assumes h: "heap_ok h" "0 < heap_sem h" and k: "2 \<le> k" "k < 31" and s: "unat sz + 2 ^ k \<le> 2 ^ 32 - 8"
  shows "\<exists>r h'. rt_malloc_align sz (2 ^ k) h = Some (r, h') \<and> heap_ok h'
    \<and> (case r of None \<Rightarrow> h' = h
       | Some p \<Rightarrow> 2 ^ k dvd p \<and> (\<exists>q e h''. (q, e) \<notin> heap_live h \<and> heap_live h' = insert (q, e) (heap_live h)
           \<and> q + 4 \<le> p \<and> p + unat sz \<le> e \<and> (\<forall>(a, f) \<in> heap_live h. \<forall>x. a \<le> x \<and> x < f \<longrightarrow> bytes h' x = bytes h x)
           \<and> rt_free_align p h' = Some h'' \<and> heap_ok h'' \<and> heap_live h'' = heap_live h))"
proof -
  have d4: "(4 :: nat) dvd 2 ^ k" using le_imp_power_dvd [OF k(1), of "2 :: nat"] by simp
  have "(2 :: nat) ^ k < 2 ^ 32" using k(2) by (intro power_strict_increasing) simp_all
  then have u: "unat (2 ^ k :: u32) = 2 ^ k" using unat_of_nat32 [of "2 ^ k"] by simp
  have "unat ((2 ^ k + (4 - 1)) AND NOT (4 - 1) :: u32) = unat (2 ^ k :: u32)"
  proof -
    have "unat (2 ^ k + 3 :: u32) = 2 ^ k + 3" using s u by (simp add: unat_add_no_wrap)
    moreover have "(2 ^ k + 3) div 4 * 4 = (2 :: nat) ^ k" using d4 by (auto elim: dvdE)
    ultimately show ?thesis using and_not3 [of "2 ^ k + 3"] u by simp
  qed
  then have a: "(2 ^ k + (4 - 1)) AND NOT (4 - 1) = (2 ^ k :: u32)" by (simp only: word_unat_eq_iff)
  define n where "n = ((sz + (4 - 1)) AND NOT (4 - 1)) + 2 ^ k"
  have "unat (sz + 3) = unat sz + 3" using s by (simp add: unat_add_no_wrap)
  then have "unat ((sz + (4 - 1)) AND NOT (4 - 1)) = (unat sz + 3) div 4 * 4" using and_not3 [of "sz + 3"] by simp
  moreover have "(unat sz + 3) div 4 * 4 \<le> unat sz + 3" "unat sz \<le> (unat sz + 3) div 4 * 4" by linarith+
  ultimately have n: "unat sz + 2 ^ k \<le> unat n" "unat n \<le> 2 ^ 32 - 4" using s u by (simp_all add: n_def unat_add_no_wrap)
  obtain r h' where m: "rt_malloc n h = Some (r, h')" "heap_ok h'" "heap_sem h' = heap_sem h" "bytes h' = bytes h" and
    l: "case r of None \<Rightarrow> h' = h | Some p \<Rightarrow> \<exists>b e. free_in h b \<and> (b, e) \<notin> used_blocks h \<and> used_blocks h' = insert (b, e) (used_blocks h)
      \<and> heap_ptr h' = heap_ptr h \<and> p = heap_ptr h + b + 12 \<and> 4 dvd p \<and> b + 12 + unat n \<le> e \<and> e \<le> heap_end h"
    using rt_malloc_live [OF h n(2)] by blast
  show ?thesis
  proof (cases r)
    case None
    then show ?thesis using m l unfolding rt_malloc_align_def Let_def a n_def [symmetric] by simp
  next
    case (Some p0)
    then obtain b e where b: "(b, e) \<notin> used_blocks h" "used_blocks h' = insert (b, e) (used_blocks h)" "heap_ptr h' = heap_ptr h"
      "p0 = heap_ptr h + b + 12" "4 dvd p0" "b + 12 + unat n \<le> e" "e \<le> heap_end h" using l by auto
    define w where "w = (word_of_nat p0 :: u32)"
    have "heap_ptr h + heap_end h + 12 \<le> 2 ^ 32" using heap_invD(7) h(1) by (auto simp: heap_ok_def)
    then have bd: "p0 + unat n < 2 ^ 32" using b(4,6,7) by linarith
    then have w: "unat w = p0" by (simp add: w_def unat_of_nat32)
    define q where "q = unat (if w AND (2 ^ k - 1) = 0 then w + 2 ^ k else (w + (2 ^ k - 1)) AND NOT (2 ^ k - 1))"
    have q: "2 ^ k dvd q" "p0 + 4 \<le> q" "q \<le> p0 + 2 ^ k"
      using align_place [OF k, of w] b(5) bd n(1) unfolding w q_def [symmetric] by simp_all
    define h2 where "h2 = h'\<lparr>bytes := store32 (q - 4) w (bytes h')\<rparr>"
    have r: "rt_malloc_align sz (2 ^ k) h = Some (Some q, h2)"
      unfolding rt_malloc_align_def Let_def a n_def [symmetric] m(1) Some option.case prod.case w_def [symmetric] q_def [symmetric] h2_def ..
    have ok: "heap_ok h2" "0 < heap_sem h2" "(b, e) \<in> used_blocks h2" "heap_ptr h2 = heap_ptr h" using m(2,3) h(2) b(2,3) by (simp_all add: h2_def)
    obtain h'' where f: "rt_free (Some p0) h2 = Some h''" "heap_ok h''" "used_blocks h'' = used_blocks h2 - {(b, e)}" "heap_ptr h'' = heap_ptr h2"
      using rt_free_live [OF ok(1-3)] b(4) ok(4) by auto
    have fa: "rt_free_align q h2 = Some h''"
      using f(1) b(4) by (simp add: rt_free_align_def h2_def load32_store32 w)
    have lv: "heap_live h2 = insert (p0, heap_ptr h + e) (heap_live h)" "(p0, heap_ptr h + e) \<notin> heap_live h"
      using b(1-4) by (auto simp: h2_def heap_live_def)
    have "used_blocks h'' = used_blocks h" using f(3) b(1,2) by (simp add: h2_def)
    then have lf: "heap_live h'' = heap_live h" using f(4) ok(4) by (simp add: heap_live_def)
    have qe: "q + unat sz \<le> heap_ptr h + e" using q(3) n(1) b(4,6) by linarith
    have ot: "bytes h2 x = bytes h x" if "(c, f) \<in> heap_live h" "c \<le> x" "x < f" for c f x
    proof -
      have "(c, f) \<noteq> (p0, heap_ptr h + e)" using lv(2) that(1) by auto
      then have "f \<le> p0 \<or> heap_ptr h + e \<le> c" using apartD [OF heap_live_apart [OF ok(1)], of c f p0] that(1) lv(1) by blast
      then have "x < q - 4 \<or> q - 4 + 4 \<le> x" using that(2,3) q(2) qe by linarith
      then show ?thesis using m(4) by (simp add: h2_def store32_outside)
    qed
    have "\<exists>a f g. (a, f) \<notin> heap_live h \<and> heap_live h2 = insert (a, f) (heap_live h) \<and> a + 4 \<le> q \<and> q + unat sz \<le> f
        \<and> (\<forall>(a, f) \<in> heap_live h. \<forall>x. a \<le> x \<and> x < f \<longrightarrow> bytes h2 x = bytes h x)
        \<and> rt_free_align q h2 = Some g \<and> heap_ok g \<and> heap_live g = heap_live h"
      using lv q(2) qe ot fa f(2) lf by blast
    then show ?thesis using r ok(1) q(1) by auto
  qed
qed

theorem rt_malloc_align_correct_witness:
  "\<exists>r h'. rt_malloc_align 40 32 cold_heap = Some (r, h') \<and> heap_ok h'"
  using rt_malloc_align_correct [of cold_heap 5 40] cold_heap by auto

text \<open>A duplicate is a new live block with the characters of the string and a zero.\<close>

lemma rt_strdup_correct:
  assumes h: "heap_ok h" "0 < heap_sem h" and s: "0 \<notin> set s" "length s < 2 ^ 32 - 5"
  shows "\<exists>r h'. rt_strdup s h = Some (r, h') \<and> heap_ok h' \<and> (case r of None \<Rightarrow> h' = h
    | Some p \<Rightarrow> (\<forall>i < length s. bytes h' (p + i) = s ! i) \<and> bytes h' (p + length s) = 0
        \<and> (\<exists>e. (p, e) \<notin> heap_live h \<and> heap_live h' = insert (p, e) (heap_live h) \<and> p + length s < e))"
proof -
  define n where "n = (word_of_nat (length s + 1) :: u32)"
  have n: "unat n = length s + 1" using s(2) unfolding n_def by (intro unat_of_nat32) simp
  have l: "rt_strlen s + 1 = length s + 1" using rt_strlen_length [OF s(1)] by simp
  have "unat n \<le> 2 ^ 32 - 4" using n s(2) by simp
  then obtain r h' where m: "rt_malloc n h = Some (r, h')" "heap_ok h'" and
    c: "case r of None \<Rightarrow> h' = h | Some p \<Rightarrow> \<exists>b e. free_in h b \<and> (b, e) \<notin> used_blocks h \<and> used_blocks h' = insert (b, e) (used_blocks h)
      \<and> heap_ptr h' = heap_ptr h \<and> p = heap_ptr h + b + 12 \<and> 4 dvd p \<and> b + 12 + unat n \<le> e \<and> e \<le> heap_end h"
    using rt_malloc_live [OF h, of n] by blast
  show ?thesis
  proof (cases r)
    case None
    then show ?thesis using m c unfolding rt_strdup_def Let_def l n_def [symmetric] by simp
  next
    case (Some p)
    then obtain b e where b: "(b, e) \<notin> used_blocks h" "used_blocks h' = insert (b, e) (used_blocks h)" "heap_ptr h' = heap_ptr h"
      "p = heap_ptr h + b + 12" "b + 12 + unat n \<le> e" using c by auto
    then have "(p, heap_ptr h + e) \<notin> heap_live h \<and> heap_live h' = insert (p, heap_ptr h + e) (heap_live h) \<and> p + length s < heap_ptr h + e"
      using n by (auto simp: heap_live_def)
    moreover have "chr_at (drop i s) = (if i < length s then s ! i else 0)" for i
      by (simp add: chr_at_def Cons_nth_drop_Suc [symmetric])
    moreover have "chr_at [] = 0" by (simp add: chr_at_def)
    ultimately show ?thesis using m Some unfolding rt_strdup_def Let_def l n_def [symmetric] by auto
  qed
qed

end
