(* ===== verification/Mempool.thy ===== *)
theory Mempool
  imports Ipc_Queue Mem
begin

text \<open>
  Memory pools, \<^verbatim>\<open>rt-thread/src/mempool.c\<close>: blocks of one size, each behind a word that links the free
  blocks or, when the block is in use, points to its pool. The state extends the kernel with the
  pools, the words in front of the blocks (\<open>pool_word\<close>, by address), the heap the pools are created
  on, and the error number of code outside a thread. The wait list of the pool at \<open>a\<close> is
  \<open>Suspended a\<close>. As in the IPC theories, \<open>rt_mp_alloc\<close> is split at \<open>rt_schedule\<close>.
\<close>

section \<open>State\<close>

record rt_mempool =
  start_address :: nat
  mp_size :: u32
  block_list :: nat
  block_size :: u32
  block_total_count :: u32
  block_free_count :: u32

record pools = kernel +
  mempool :: "addr \<Rightarrow> rt_mempool"
  pool_word :: "nat \<Rightarrow> nat"
  pool_heap :: small_heap

abbreviation (input) RT_Object_Class_MemPool :: u8 where "RT_Object_Class_MemPool \<equiv> 8"

definition upd_pool :: "addr \<Rightarrow> (rt_mempool \<Rightarrow> rt_mempool) \<Rightarrow> 'a pools_scheme \<Rightarrow> 'a pools_scheme" where
  "upd_pool a f k = k\<lparr>mempool := (mempool k)(a := f (mempool k a))\<rparr>"

section \<open>Operations\<close>

text \<open>The address of block \<open>i\<close>, in 32-bit arithmetic, and the loop that links all blocks.\<close>

definition block_addr :: "nat \<Rightarrow> u32 \<Rightarrow> u32 \<Rightarrow> nat" where
  "block_addr start bs i = unat (word_of_nat start + i * (bs + 4))"

definition link_blocks :: "nat \<Rightarrow> u32 \<Rightarrow> u32 \<Rightarrow> (nat \<Rightarrow> nat) \<Rightarrow> nat \<Rightarrow> nat" where
  "link_blocks start bs cnt w =
     (fold (\<lambda>i w. w(block_addr start bs (word_of_nat i) := block_addr start bs (word_of_nat i + 1))) [0..<unat cnt] w)
       (block_addr start bs (cnt - 1) := 0)"

definition rt_mp_init :: "addr \<Rightarrow> cstring \<Rightarrow> nat \<Rightarrow> u32 \<Rightarrow> u32 \<Rightarrow> 'a pools_scheme \<Rightarrow> 'a pools_scheme" where
  "rt_mp_init a name start sz bs k =
     (let k = rt_object_init (Ipc_obj a) RT_Object_Class_MemPool name k;
          k = upd_pool a (\<lambda>p. p\<lparr>start_address := start, mp_size := RT_ALIGN_DOWN sz RT_ALIGN_SIZE\<rparr>) k;
          bs = RT_ALIGN bs RT_ALIGN_SIZE;
          k = upd_pool a (\<lambda>p. p\<lparr>block_size := bs\<rparr>) k;
          k = upd_pool a (\<lambda>p. p\<lparr>block_total_count := mp_size p div (block_size p + 4)\<rparr>) k;
          k = upd_pool a (\<lambda>p. p\<lparr>block_free_count := block_total_count p\<rparr>) k;
          k = k\<lparr>tlist := (tlist k)(Suspended a := [])\<rparr>;
          k = k\<lparr>pool_word := link_blocks start bs (block_total_count (mempool k a)) (pool_word k)\<rparr>
      in upd_pool a (\<lambda>p. p\<lparr>block_list := start\<rparr>) k)"

definition rt_mp_detach :: "addr \<Rightarrow> 'a pools_scheme \<Rightarrow> 'a pools_scheme option" where
  "rt_mp_detach a k = map_option (rt_object_detach (Ipc_obj a)) (ipc_list_resume_all (Suspended a) k)"

text \<open>\<open>mem\<close> is the memory \<open>rt_object_allocate\<close> gets for the control block, if it does.\<close>

definition rt_mp_create :: "obj_id option \<Rightarrow> cstring \<Rightarrow> u32 \<Rightarrow> u32 \<Rightarrow> 'a pools_scheme \<Rightarrow> (addr option \<times> 'a pools_scheme) option" where
  "rt_mp_create mem name block_count bs k =
     (case rt_object_allocate mem RT_Object_Class_MemPool name k of
        (Some (Ipc_obj a), k) \<Rightarrow>
          let bs = RT_ALIGN bs RT_ALIGN_SIZE;
              k = upd_pool a (\<lambda>p. p\<lparr>block_size := bs, mp_size := (bs + 4) * block_count\<rparr>) k
          in (case rt_malloc ((bs + 4) * block_count) (pool_heap k) of
                None \<Rightarrow> None
              | Some (None, h) \<Rightarrow>
                  Some (None, rt_object_delete (Ipc_obj a) (upd_pool a (\<lambda>p. p\<lparr>start_address := 0\<rparr>) (k\<lparr>pool_heap := h\<rparr>)))
              | Some (Some start, h) \<Rightarrow>
                  let k = k\<lparr>pool_heap := h\<rparr>;
                      k = upd_pool a (\<lambda>p. p\<lparr>start_address := start, block_total_count := block_count, block_free_count := block_count\<rparr>) k;
                      k = k\<lparr>tlist := (tlist k)(Suspended a := [])\<rparr>;
                      k = k\<lparr>pool_word := link_blocks start bs block_count (pool_word k)\<rparr>
                  in Some (Some a, upd_pool a (\<lambda>p. p\<lparr>block_list := start\<rparr>) k))
      | (_, k) \<Rightarrow> Some (None, k))"

definition rt_mp_delete :: "addr \<Rightarrow> 'a pools_scheme \<Rightarrow> 'a pools_scheme option" where
  "rt_mp_delete a k =
     Option.bind (ipc_list_resume_all (Suspended a) k) (\<lambda>k.
     map_option (\<lambda>h. rt_object_delete (Ipc_obj a) (k\<lparr>pool_heap := h\<rparr>))
       (rt_free (if start_address (mempool k a) = 0 then None else Some (start_address (mempool k a))) (pool_heap k)))"

datatype mp_outcome = Mp_returns "nat option" | Mp_blocks int u32 | Mp_faults

text \<open>Taking the first free block.\<close>

definition mp_take :: "addr \<Rightarrow> 'a pools_scheme \<Rightarrow> nat \<times> 'a pools_scheme" where
  "mp_take a k =
     (let k = upd_pool a (\<lambda>p. p\<lparr>block_free_count := block_free_count p - 1\<rparr>) k;
          block_ptr = block_list (mempool k a);
          k = upd_pool a (\<lambda>p. p\<lparr>block_list := pool_word k block_ptr\<rparr>) k;
          k = k\<lparr>pool_word := (pool_word k)(block_ptr := a)\<rparr>
      in (block_ptr + 4, k))"

definition mp_alloc_loop :: "addr \<Rightarrow> tid option \<Rightarrow> int \<Rightarrow> u32 \<Rightarrow> 'a pools_scheme \<Rightarrow> mp_outcome \<times> 'a pools_scheme" where
  "mp_alloc_loop a self time before_sleep k =
     (if block_free_count (mempool k a) = 0 then
        (if time = 0 then (Mp_returns None, rt_set_errno (- RT_ETIMEOUT) k)
         else case self of
                None \<Rightarrow> (Mp_faults, k)
              | Some t \<Rightarrow>
                  let k = upd_thread t (\<lambda>th. th\<lparr>error := RT_EOK\<rparr>) k;
                      k = tlist_push_front (Suspended a) t (snd (rt_thread_suspend t k));
                      before_sleep = (if time > 0 then rt_tick_get k else before_sleep)
                  in (Mp_blocks time before_sleep, rt_schedule (wait_timer t time k)))
      else case mp_take a k of (block, k) \<Rightarrow> (Mp_returns (Some block), k))"

definition rt_mp_alloc :: "addr \<Rightarrow> int \<Rightarrow> 'a pools_scheme \<Rightarrow> mp_outcome \<times> 'a pools_scheme" where
  "rt_mp_alloc a time k = mp_alloc_loop a (rt_thread_self k) time 0 k"

text \<open>A thread that runs again after it has waited.\<close>

definition rt_mp_alloc_resumed :: "addr \<Rightarrow> tid \<Rightarrow> int \<Rightarrow> u32 \<Rightarrow> 'a pools_scheme \<Rightarrow> mp_outcome \<times> 'a pools_scheme" where
  "rt_mp_alloc_resumed a t time before_sleep k =
     (if error (thread k t) \<noteq> RT_EOK then (Mp_returns None, k)
      else mp_alloc_loop a (Some t) (timeout_left time before_sleep k) before_sleep k)"

text \<open>\<open>rt_mp_free\<close> finds the pool in the word in front of the block.\<close>

definition mp_give :: "nat \<Rightarrow> 'a pools_scheme \<Rightarrow> 'a pools_scheme" where
  "mp_give block_ptr k =
     (let a = pool_word k block_ptr;
          k = upd_pool a (\<lambda>p. p\<lparr>block_free_count := block_free_count p + 1\<rparr>) k;
          k = k\<lparr>pool_word := (pool_word k)(block_ptr := block_list (mempool k a))\<rparr>
      in upd_pool a (\<lambda>p. p\<lparr>block_list := block_ptr\<rparr>) k)"

definition rt_mp_free :: "nat option \<Rightarrow> 'a pools_scheme \<Rightarrow> 'a pools_scheme" where
  "rt_mp_free block k =
     (case block of
        None \<Rightarrow> k
      | Some p \<Rightarrow>
          let a = pool_word k (p - 4); k = mp_give (p - 4) k
          in if tlist k (Suspended a) \<noteq> [] then
               rt_schedule (ipc_list_resume (Suspended a) (upd_thread (hd (tlist k (Suspended a))) (\<lambda>th. th\<lparr>error := RT_EOK\<rparr>) k))
             else k)"

section \<open>The blocks of a pool\<close>

definition blocks :: "rt_mempool \<Rightarrow> nat set" where
  "blocks p = (\<lambda>i. start_address p + i * (unat (block_size p) + 4)) ` {..<unat (block_total_count p)}"

primrec mp_chain :: "(nat \<Rightarrow> nat) \<Rightarrow> nat \<Rightarrow> nat \<Rightarrow> nat list" where
  "mp_chain w 0 b = []"
| "mp_chain w (Suc n) b = b # mp_chain w n (w b)"

definition free_blocks :: "rt_mempool \<Rightarrow> (nat \<Rightarrow> nat) \<Rightarrow> nat list" where
  "free_blocks p w = mp_chain w (unat (block_free_count p)) (block_list p)"

text \<open>The free list holds blocks of the pool, each once; the other blocks point to the pool.\<close>

definition pool_ok :: "addr \<Rightarrow> rt_mempool \<Rightarrow> (nat \<Rightarrow> nat) \<Rightarrow> bool" where
  "pool_ok a p w \<longleftrightarrow> distinct (free_blocks p w) \<and> set (free_blocks p w) \<subseteq> blocks p \<and> (\<forall>b \<in> blocks p - set (free_blocks p w). w b = a)
     \<and> 0 < unat (block_size p)"

definition pool_live :: "rt_mempool \<Rightarrow> (nat \<Rightarrow> nat) \<Rightarrow> (nat \<times> nat) set" where
  "pool_live p w = (\<lambda>b. (b + 4, b + 4 + unat (block_size p))) ` (blocks p - set (free_blocks p w))"

lemma mp_chain_cong: "(\<And>x. x \<in> set (mp_chain w n b) \<Longrightarrow> w' x = w x) \<Longrightarrow> mp_chain w' n b = mp_chain w n b"
  by (induction n arbitrary: b) auto

lemma blocks_apart:
  assumes "b \<in> blocks p" "c \<in> blocks p" "b \<noteq> c"
  shows "b + 4 + unat (block_size p) \<le> c \<or> c + 4 + unat (block_size p) \<le> b"
proof -
  let ?s = "unat (block_size p) + 4"
  obtain i j where ij: "b = start_address p + i * ?s" "c = start_address p + j * ?s" using assms(1,2) by (auto simp: blocks_def)
  have "i \<noteq> j" using assms(3) ij by auto
  then have "Suc i * ?s \<le> j * ?s \<or> Suc j * ?s \<le> i * ?s" by (metis Suc_leI mult_le_mono1 nat_neq_iff)
  then show ?thesis using ij by auto
qed

lemma finite_blocks [simp]: "finite (blocks p)" "card (blocks p) = unat (block_total_count p)"
  by (auto simp: blocks_def card_image inj_on_def)

lemma free_count_le: "pool_ok a p w \<Longrightarrow> unat (block_free_count p) \<le> unat (block_total_count p)"
proof -
  assume ok: "pool_ok a p w"
  have "length (free_blocks p w) = unat (block_free_count p)" for p w
  proof -
    have "length (mp_chain w n b) = n" for n b by (induction n arbitrary: b) auto
    then show ?thesis by (simp add: free_blocks_def)
  qed
  moreover have "card (set (free_blocks p w)) \<le> card (blocks p)" using ok by (intro card_mono) (auto simp: pool_ok_def)
  ultimately show ?thesis using ok distinct_card [of "free_blocks p w"] by (simp add: pool_ok_def)
qed

lemma pool_live_apart: "apart (pool_live p w)" "(x, e) \<in> pool_live p w \<Longrightarrow> pool_ok a p w \<Longrightarrow> x < e"
proof -
  have "e \<le> y \<or> f \<le> x" if xy: "(x, e) \<in> pool_live p w" "(y, f) \<in> pool_live p w" "(x, e) \<noteq> (y, f)" for x y e f
  proof -
    obtain b c where "b \<in> blocks p" "c \<in> blocks p" "x = b + 4" "e = b + 4 + unat (block_size p)" "y = c + 4" "f = c + 4 + unat (block_size p)"
      using xy(1,2) unfolding pool_live_def by blast
    then show ?thesis using blocks_apart [of b p c] xy(3) by auto
  qed
  then show "apart (pool_live p w)" unfolding apart_def by blast
qed (auto simp: pool_live_def pool_ok_def)

section \<open>Taking and giving back\<close>

definition take_pool :: "rt_mempool \<Rightarrow> (nat \<Rightarrow> nat) \<Rightarrow> rt_mempool" where
  "take_pool p w = p\<lparr>block_free_count := block_free_count p - 1, block_list := w (block_list p)\<rparr>"

definition give_pool :: "nat \<Rightarrow> rt_mempool \<Rightarrow> rt_mempool" where
  "give_pool b p = p\<lparr>block_free_count := block_free_count p + 1, block_list := b\<rparr>"

lemma mp_take_eq:
  "mp_take a k = (block_list (mempool k a) + 4, k\<lparr>mempool := (mempool k)(a := take_pool (mempool k a) (pool_word k)),
     pool_word := (pool_word k)(block_list (mempool k a) := a)\<rparr>)"
  by (simp add: mp_take_def upd_pool_def Let_def take_pool_def)

lemma mp_give_eq:
  "pool_word k b = a \<Longrightarrow> mp_give b k = k\<lparr>mempool := (mempool k)(a := give_pool b (mempool k a)),
     pool_word := (pool_word k)(b := block_list (mempool k a))\<rparr>"
  by (simp add: mp_give_def upd_pool_def Let_def give_pool_def)

lemma take_pool_effect:
  assumes ok: "pool_ok a p w" and c: "block_free_count p \<noteq> 0"
  defines "b \<equiv> block_list p"
  shows "pool_ok a (take_pool p w) (w(b := a))" "free_blocks p w = b # free_blocks (take_pool p w) (w(b := a))"
    "b \<in> blocks p" "pool_live (take_pool p w) (w(b := a)) = insert (b + 4, b + 4 + unat (block_size p)) (pool_live p w)"
    "(b + 4, b + 4 + unat (block_size p)) \<notin> pool_live p w" "block_size (take_pool p w) = block_size p"
proof -
  have n: "unat (block_free_count p) = Suc (unat (block_free_count p - 1))" using c by (simp add: unat_minus_one unat_gt_0)
  have f: "free_blocks p w = b # mp_chain w (unat (block_free_count p - 1)) (w b)" by (simp add: free_blocks_def n b_def)
  then have nb: "b \<notin> set (mp_chain w (unat (block_free_count p - 1)) (w b))" using ok by (simp add: pool_ok_def)
  have "mp_chain (w(b := a)) (unat (block_free_count p - 1)) (w b) = mp_chain w (unat (block_free_count p - 1)) (w b)"
    using nb by (intro mp_chain_cong) auto
  then have g: "free_blocks (take_pool p w) (w(b := a)) = mp_chain w (unat (block_free_count p - 1)) (w b)"
    by (simp add: free_blocks_def take_pool_def b_def)
  show fg: "free_blocks p w = b # free_blocks (take_pool p w) (w(b := a))" using f g by simp
  have bl: "blocks (take_pool p w) = blocks p" by (simp add: blocks_def take_pool_def)
  show sz: "block_size (take_pool p w) = block_size p" by (simp add: take_pool_def)
  show bb: "b \<in> blocks p" using ok fg by (simp add: pool_ok_def)
  show "pool_ok a (take_pool p w) (w(b := a))" using ok fg nb g unfolding pool_ok_def bl sz by auto
  show "pool_live (take_pool p w) (w(b := a)) = insert (b + 4, b + 4 + unat (block_size p)) (pool_live p w)"
    unfolding pool_live_def bl sz fg using bb nb g by auto
  show "(b + 4, b + 4 + unat (block_size p)) \<notin> pool_live p w" unfolding pool_live_def fg by auto
qed

lemma give_pool_effect:
  assumes ok: "pool_ok a p w" and b: "b \<in> blocks p" "b \<notin> set (free_blocks p w)"
  shows "pool_ok a (give_pool b p) (w(b := block_list p))" "free_blocks (give_pool b p) (w(b := block_list p)) = b # free_blocks p w"
    "pool_live (give_pool b p) (w(b := block_list p)) = pool_live p w - {(b + 4, b + 4 + unat (block_size p))}"
    "block_size (give_pool b p) = block_size p"
proof -
  let ?p = "give_pool b p" and ?w = "w(b := block_list p)"
  have "unat (block_free_count p) < unat (block_total_count p)"
  proof -
    have "length (mp_chain w n b) = n" for n b by (induction n arbitrary: b) auto
    then have "unat (block_free_count p) = card (set (free_blocks p w))"
      using ok distinct_card [of "free_blocks p w"] by (simp add: pool_ok_def free_blocks_def)
    also have "\<dots> < card (blocks p)" using ok b by (intro psubset_card_mono) (auto simp: pool_ok_def)
    finally show ?thesis by simp
  qed
  moreover have "unat (block_total_count p) < 2 ^ 32" using unsigned_less [of "block_total_count p"] by simp
  ultimately have n: "unat (block_free_count p + 1) = Suc (unat (block_free_count p))" by (simp add: unat_add_no_wrap)
  have "mp_chain ?w (unat (block_free_count p)) (block_list p) = free_blocks p w"
    unfolding free_blocks_def using b(2) by (intro mp_chain_cong) (auto simp: free_blocks_def)
  then show f: "free_blocks ?p ?w = b # free_blocks p w" by (simp add: free_blocks_def give_pool_def n)
  have bl: "blocks ?p = blocks p" by (simp add: blocks_def give_pool_def)
  show sz: "block_size ?p = block_size p" by (simp add: give_pool_def)
  show "pool_ok a ?p ?w" using ok b f unfolding pool_ok_def bl sz by auto
  show "pool_live ?p ?w = pool_live p w - {(b + 4, b + 4 + unat (block_size p))}"
    unfolding pool_live_def bl sz f by auto
qed

section \<open>Effect on the kernel\<close>

lemma pools_more_sel:
  assumes "kernel.more k' = kernel.more k"
  shows "mempool k' = mempool k" "pool_word k' = pool_word k" "pool_heap k' = pool_heap k"
  using assms by (cases k; cases k'; simp)+

lemma pools_upd_inv:
  assumes "kernel_inv k"
  shows "kernel_inv (k\<lparr>mempool := m\<rparr>)" "kernel_inv (k\<lparr>mempool := m, pool_word := w\<rparr>)"
  by (rule kernel_inv_more [OF assms]; simp)+

definition pool_inv :: "addr \<Rightarrow> 'a pools_scheme \<Rightarrow> bool" where
  "pool_inv a k \<longleftrightarrow> kernel_inv k \<and> pool_ok a (mempool k a) (pool_word k)"

lemma rt_mp_alloc_available:
  assumes k: "pool_inv a k" and c: "block_free_count (mempool k a) \<noteq> 0"
  defines "b \<equiv> block_list (mempool k a)"
  shows "\<exists>k'. rt_mp_alloc a time k = (Mp_returns (Some (b + 4)), k') \<and> pool_inv a k' \<and> tlist k' = tlist k \<and> thread k' = thread k
    \<and> mempool k' = (mempool k)(a := take_pool (mempool k a) (pool_word k)) \<and> pool_word k' = (pool_word k)(b := a)"
proof -
  let ?k = "k\<lparr>mempool := (mempool k)(a := take_pool (mempool k a) (pool_word k)), pool_word := (pool_word k)(b := a)\<rparr>"
  have "rt_mp_alloc a time k = (Mp_returns (Some (b + 4)), ?k)"
    using c by (simp add: rt_mp_alloc_def mp_alloc_loop_def mp_take_eq b_def)
  moreover have "pool_inv a ?k"
    using k take_pool_effect(1) [OF _ c, of a "pool_word k"] by (simp add: pool_inv_def b_def pools_upd_inv)
  ultimately show ?thesis by simp
qed

lemma rt_mp_alloc_refused:
  assumes k: "pool_inv a k" and c: "block_free_count (mempool k a) = 0"
  shows "\<exists>k'. rt_mp_alloc a 0 k = (Mp_returns None, k') \<and> pool_inv a k' \<and> mempool k' = mempool k \<and> pool_word k' = pool_word k
    \<and> tlist k' = tlist k \<and> tstat k' = tstat k"
  using assms rt_set_errno_effect [of k "- RT_ETIMEOUT"] pools_more_sel [OF rt_set_errno_effect(4), of k "- RT_ETIMEOUT"]
  by (simp add: rt_mp_alloc_def mp_alloc_loop_def pool_inv_def)

text \<open>A thread that finds no block is put at the front of the wait list.\<close>

lemma rt_mp_alloc_blocks:
  assumes k: "pool_inv a k" and c: "block_free_count (mempool k a) = 0" and t: "rt_current_thread k = Some t" "tstat k t = 3" and n: "time \<noteq> 0"
  shows "\<exists>k'. rt_mp_alloc a time k = (Mp_blocks time (if time > 0 then rt_tick k else 0), k') \<and> pool_inv a k' \<and> mempool k' = mempool k
    \<and> pool_word k' = pool_word k \<and> tlist k' (Suspended a) = t # tlist k (Suspended a) \<and> tstat k' t = 2"
proof -
  let ?e = "upd_thread t (\<lambda>th. th\<lparr>error := 0\<rparr>) k"
  let ?s = "snd (rt_thread_suspend t ?e)"
  let ?p = "?s\<lparr>tlist := (tlist ?s)(Suspended a := [] @ t # tlist ?e (Suspended a))\<rparr>"
  have ki: "kernel_inv k" using k by (simp add: pool_inv_def)
  note e = set_error_inv [OF ki, of t 0]
  have te: "tstat ?e t = 3" using e(2) t(2) by simp
  note s = suspend_insert_effect [OF e(1) te wait_list_simps(1) [of a], of "[]"]
  have s': "tlist ?s = tlist ?e" "kernel_inv ?p" "tstat ?p t = 2" using s by (simp_all del: upd_thread_sel)
  note w = wait_timer_effect [OF s'(2,3), of time]
  have ws: "tstat (wait_timer t time ?p) t = 2" using w(3) s'(3) by simp
  note r = schedule_waiter [OF w(1) ws]
  have p: "tlist_push_front (Suspended a) t ?s = ?p" using s'(1) by (simp add: tlist_push_front_def)
  have m: "kernel.more (rt_schedule (wait_timer t time ?p)) = kernel.more k" by simp
  have "rt_mp_alloc a time k = (Mp_blocks time (if time > 0 then rt_tick k else 0), rt_schedule (wait_timer t time ?p))"
    using c n t(1) unfolding rt_mp_alloc_def mp_alloc_loop_def Let_def p [symmetric]
    by (simp add: rt_thread_self_def rt_tick_get_def tlist_push_front_def)
  moreover have "tlist (rt_schedule (wait_timer t time ?p)) (Suspended a) = t # tlist k (Suspended a)"
    using r(3) [of "Suspended a"] w(2) by simp
  ultimately show ?thesis using r(1,2) k pools_more_sel [OF m] by (auto simp: pool_inv_def)
qed

lemma rt_mp_free_effect:
  assumes k: "pool_inv a k" and b: "b \<in> blocks (mempool k a)" "b \<notin> set (free_blocks (mempool k a) (pool_word k))"
  defines "k' \<equiv> rt_mp_free (Some (b + 4)) k"
  shows "pool_inv a k'" "mempool k' = (mempool k)(a := give_pool b (mempool k a))" "pool_word k' = (pool_word k)(b := block_list (mempool k a))"
    "tlist k' (Suspended a) = tl (tlist k (Suspended a))" "tlist k (Suspended a) = t # ts \<Longrightarrow> tstat k' t \<in> {1, 3}"
proof -
  have w: "pool_word k b = a" using k b by (simp add: pool_inv_def pool_ok_def)
  define g where "g = mp_give b k"
  have g: "g = k\<lparr>mempool := (mempool k)(a := give_pool b (mempool k a)), pool_word := (pool_word k)(b := block_list (mempool k a))\<rparr>"
    unfolding g_def by (rule mp_give_eq [OF w])
  have gi: "kernel_inv g" using k by (simp add: g pool_inv_def pools_upd_inv)
  have gp: "pool_ok a (mempool g a) (pool_word g)" using k give_pool_effect(1) [OF _ b, of a] by (simp add: g pool_inv_def)
  have gt: "tlist g = tlist k" by (simp add: g)
  define e where "e = (if tlist k (Suspended a) = [] then g else upd_thread (hd (tlist k (Suspended a))) (\<lambda>th. th\<lparr>error := 0\<rparr>) g)"
  have ei: "kernel_inv e" "tlist e = tlist k" "kernel.more e = kernel.more g" using gi gt by (simp_all add: e_def set_error_inv)
  have k': "k' = wake_one (Suspended a) e"
    using w gt by (auto simp: k'_def rt_mp_free_def Let_def g_def [symmetric] wake_one_def e_def)
  note wk = wake_one_effect [OF ei(1) wait_list_simps(1) [of a]]
  have m: "kernel.more k' = kernel.more g" using wk(4) ei(3) by (simp add: k')
  show "mempool k' = (mempool k)(a := give_pool b (mempool k a))" "pool_word k' = (pool_word k)(b := block_list (mempool k a))"
    using pools_more_sel(1,2) [OF m] by (simp_all add: g)
  show "pool_inv a k'" using wk(1) gp pools_more_sel(1,2) [OF m] by (simp add: k' pool_inv_def)
  show "tlist k' (Suspended a) = tl (tlist k (Suspended a))" using wk(2) ei(2) by (simp add: k')
  show "tstat k' t \<in> {1, 3}" if "tlist k (Suspended a) = t # ts" using wk(5) that ei(2) by (simp add: k')
qed

section \<open>Setting up a pool\<close>

lemma fold_upd:
  assumes "inj_on f {..<n}" "j < n"
  shows "fold (\<lambda>i w. w(f i := g i)) [0..<n] w (f j) = g j"
  using assms
proof (induction n)
  case (Suc n)
  then show ?case by (cases "j = n") (auto simp: inj_on_def lessThan_Suc)
qed simp

lemma mp_chain_linked:
  assumes "\<And>j. i \<le> j \<Longrightarrow> Suc j < i + m \<Longrightarrow> w (f j) = f (Suc j)"
  shows "mp_chain w m (f i) = map f [i..<i + m]"
  using assms
proof (induction m arbitrary: i)
  case (Suc m)
  have "mp_chain w m (w (f i)) = map f [Suc i..<Suc i + m]"
  proof (cases m)
    case (Suc l)
    then show ?thesis using Suc.IH [of "Suc i"] Suc.prems by simp
  qed simp
  then show ?case by (simp add: upt_conv_Cons del: upt_Suc)
qed simp

lemma link_blocks_chain:
  assumes s: "unat bs + 4 < 2 ^ 32" and e: "start + n * (unat bs + 4) \<le> 2 ^ 32" and n: "n < 2 ^ 32"
  shows "mp_chain (link_blocks start bs (word_of_nat n) w) n start = map (\<lambda>i. start + i * (unat bs + 4)) [0..<n]"
proof (cases n)
  case (Suc m)
  let ?s = "unat bs + 4" and ?f = "\<lambda>i. block_addr start bs (word_of_nat i)"
  have f: "?f i = start + i * ?s" if i: "i < n" for i
  proof -
    have "Suc i * ?s \<le> n * ?s" using i by (intro mult_le_mono1) simp
    then have le: "start + i * ?s < 2 ^ 32" using e by simp
    have b: "bs + 4 = word_of_nat ?s" by simp
    have e: "word_of_nat start + word_of_nat i * (bs + 4) = (word_of_nat (start + i * ?s) :: u32)"
      unfolding b of_nat_add of_nat_mult ..
    have "unat (word_of_nat x :: u32) = x" if "x < 2 ^ 32" for x using that by (simp add: unat_of_nat)
    then show ?thesis unfolding block_addr_def e using le by blast
  qed
  have inj: "inj_on ?f {..<n}" using f by (auto simp: inj_on_def)
  have u: "unat (word_of_nat n :: u32) = n" using n by (simp add: unat_of_nat)
  have last: "block_addr start bs (word_of_nat n - 1) = ?f m" using Suc by simp
  have "link_blocks start bs (word_of_nat n) w (?f j) = ?f (Suc j)" if "Suc j < n" for j
  proof -
    have "?f j \<noteq> ?f m" using inj that Suc by (auto simp: inj_on_def)
    moreover have "fold (\<lambda>i w. w(?f i := block_addr start bs (word_of_nat i + 1))) [0..<n] w (?f j) = block_addr start bs (word_of_nat j + 1)"
      using that by (intro fold_upd [OF inj]) simp
    ultimately show ?thesis unfolding link_blocks_def last u by (simp add: add.commute)
  qed
  then have "mp_chain (link_blocks start bs (word_of_nat n) w) n (start + 0 * ?s) = map (\<lambda>i. start + i * ?s) [0..<0 + n]"
    using f by (intro mp_chain_linked) (metis Suc_lessD add_0)
  then show ?thesis by simp
qed simp

text \<open>Every block is free; the pool may be too small for one.\<close>

lemma linked_pool:
  fixes p :: rt_mempool and w :: "nat \<Rightarrow> nat"
  assumes n: "block_total_count p = word_of_nat n" "block_free_count p = word_of_nat n" "n < 2 ^ 32" and b: "block_list p = start_address p"
    and s: "unat (block_size p) + 4 < 2 ^ 32" "0 < unat (block_size p)" "start_address p + n * (unat (block_size p) + 4) \<le> 2 ^ 32"
  defines "w' \<equiv> link_blocks (start_address p) (block_size p) (block_total_count p) w"
  shows "pool_ok a p w'" "set (free_blocks p w') = blocks p" "pool_live p w' = {}"
proof -
  let ?f = "\<lambda>i. start_address p + i * (unat (block_size p) + 4)"
  have u: "unat (word_of_nat n :: u32) = n" using n(3) by (simp add: unat_of_nat)
  have "free_blocks p w' = map ?f [0..<n]"
    unfolding free_blocks_def w'_def n u b by (rule link_blocks_chain [OF s(1,3) n(3)])
  moreover have "blocks p = ?f ` {..<n}" by (simp add: blocks_def n u)
  moreover have "distinct (map ?f [0..<n])" by (simp add: distinct_map inj_on_def)
  ultimately show "set (free_blocks p w') = blocks p" "pool_ok a p w'" using s(2) by (auto simp: pool_ok_def)
  then show "pool_live p w' = {}" by (simp add: pool_live_def)
qed

lemma rt_mp_init_effect:
  fixes a :: addr and name :: cstring
  assumes k: "kernel_inv k" "tlist k (Suspended a) = []" and s: "0 < unat bs" "unat bs \<le> 2 ^ 32 - 12" "start + unat sz \<le> 2 ^ 32"
  defines "k' \<equiv> rt_mp_init a name start sz bs k" and "b \<equiv> (unat bs + 3) div 4 * 4"
  shows "pool_inv a k'" "set (free_blocks (mempool k' a) (pool_word k')) = blocks (mempool k' a)" "pool_live (mempool k' a) (pool_word k') = {}"
    "unat (block_size (mempool k' a)) = b" "unat (block_total_count (mempool k' a)) = unat sz div 4 * 4 div (b + 4)"
    "tlist k' (Suspended a) = []"
proof -
  let ?o = "rt_object_init (Ipc_obj a) RT_Object_Class_MemPool name k"
  let ?bs = "RT_ALIGN bs 4" and ?m = "RT_ALIGN_DOWN sz 4"
  have o: "kernel_inv ?o" by (rule rt_object_init_kernel_inv [OF k(1)])
  have "sched_inv (rt_enter_critical k)" using k(1) by (simp add: kernel_inv_def rt_enter_critical_inv)
  then have ot: "tlist ?o (Suspended a) = []" using k(2)
    by (simp add: rt_object_init_def rt_exit_critical_def Let_def rt_enter_critical_def sched_inv_lock_nest rt_schedule_wait_lists)
  have bz: "unat ?bs = b" unfolding b_def using s(2) by (intro RT_ALIGN4) simp
  have b4: "unat (?bs + 4) = b + 4" "b + 4 < 2 ^ 32" "0 < b"
    using s(1,2) bz unfolding b_def by (simp_all add: unat_add_no_wrap)
  define n where "n = unat sz div 4 * 4 div (b + 4)"
  have cnt: "?m div (?bs + 4) = word_of_nat n"
  proof -
    have "unat (?m div (?bs + 4)) = n" by (simp add: unat_div_distrib RT_ALIGN_DOWN4 b4(1) n_def)
    then show ?thesis by (metis word_nat_cases unsigned_of_nat of_nat_unat ucast_id)
  qed
  have n: "n * (b + 4) \<le> unat sz" "n < 2 ^ 32"
  proof -
    have "n * (b + 4) \<le> unat sz div 4 * 4" unfolding n_def by (rule div_times_less_eq_dividend)
    then show "n * (b + 4) \<le> unat sz" by linarith
    have "n \<le> n * (b + 4)" by simp
    moreover have "unat sz < 2 ^ 32" using unsigned_less [of sz] by simp
    ultimately show "n < 2 ^ 32" using \<open>n * (b + 4) \<le> unat sz\<close> by linarith
  qed
  let ?p = "(mempool ?o a)\<lparr>start_address := start, mp_size := ?m, block_size := ?bs, block_total_count := word_of_nat n,
    block_free_count := word_of_nat n, block_list := start\<rparr>"
  have k': "k' = ?o\<lparr>tlist := (tlist ?o)(Suspended a := []), mempool := (mempool ?o)(a := ?p),
      pool_word := link_blocks start ?bs (word_of_nat n) (pool_word ?o)\<rparr>"
    by (simp add: k'_def rt_mp_init_def upd_pool_def Let_def cnt)
  have p: "mempool k' a = ?p" "pool_word k' = link_blocks (start_address ?p) (block_size ?p) (block_total_count ?p) (pool_word ?o)"
    by (simp_all add: k')
  have c: "block_total_count ?p = word_of_nat n" "block_free_count ?p = word_of_nat n" "block_list ?p = start_address ?p"
    "unat (block_size ?p) + 4 < 2 ^ 32" "0 < unat (block_size ?p)" "start_address ?p + n * (unat (block_size ?p) + 4) \<le> 2 ^ 32"
    using b4(2,3) bz n(1) s(3) by simp_all
  note l = linked_pool(1) [OF c(1,2) n(2) c(3-6), where w = "pool_word ?o" and a = a, folded p]
    linked_pool(2,3) [OF c(1,2) n(2) c(3-6), where w = "pool_word ?o", folded p]
  show "set (free_blocks (mempool k' a) (pool_word k')) = blocks (mempool k' a)" "pool_live (mempool k' a) (pool_word k') = {}" by (rule l)+
  have "kernel_inv k'" by (rule kernel_inv_more [OF o]) (use ot in \<open>auto simp: k'\<close>)
  then show "pool_inv a k'" using l(1) by (simp add: pool_inv_def)
  have "unat (word_of_nat n :: u32) = n" using n(2) by (simp add: unat_of_nat)
  then show "unat (block_size (mempool k' a)) = b" "unat (block_total_count (mempool k' a)) = unat sz div 4 * 4 div (b + 4)" "tlist k' (Suspended a) = []"
    using bz by (simp_all add: p(1) k' n_def)
qed

section \<open>A pool as an allocator\<close>

text \<open>A call of \<open>rt_mp_alloc\<close> that does not wait.\<close>

definition mp_try_alloc :: "addr \<Rightarrow> unit \<Rightarrow> 'a pools_scheme \<Rightarrow> (nat option \<times> 'a pools_scheme) option" where
  "mp_try_alloc a u k = (case rt_mp_alloc a 0 k of (Mp_returns r, k) \<Rightarrow> Some (r, k) | _ \<Rightarrow> None)"

interpretation fixed_pool: allocator "\<lambda>k. pool_inv a k \<and> unat (block_size (mempool k a)) = bs" "\<lambda>k. pool_live (mempool k a) (pool_word k)"
  "\<lambda>_. True" "\<lambda>_. bs" "mp_try_alloc a" "\<lambda>p k. Some (rt_mp_free (Some p) k)"
  for a bs
proof
  fix k :: "'a pools_scheme" and x e u
  assume k: "pool_inv a k \<and> unat (block_size (mempool k a)) = bs"
  then have ok: "pool_ok a (mempool k a) (pool_word k)" by (simp add: pool_inv_def)
  show "apart (pool_live (mempool k a) (pool_word k))" by (rule pool_live_apart)
  show "x < e" if "(x, e) \<in> pool_live (mempool k a) (pool_word k)" using pool_live_apart(2) that ok by blast
  show "\<exists>r k'. mp_try_alloc a u k = Some (r, k') \<and> (pool_inv a k' \<and> unat (block_size (mempool k' a)) = bs)
      \<and> (case r of None \<Rightarrow> pool_live (mempool k' a) (pool_word k') = pool_live (mempool k a) (pool_word k)
          | Some p \<Rightarrow> \<exists>e. (p, e) \<notin> pool_live (mempool k a) (pool_word k)
              \<and> pool_live (mempool k' a) (pool_word k') = insert (p, e) (pool_live (mempool k a) (pool_word k)) \<and> p + bs \<le> e)"
  proof (cases "block_free_count (mempool k a) = 0")
    case True
    then show ?thesis using rt_mp_alloc_refused [of a k] k by (auto simp: mp_try_alloc_def)
  next
    case False
    note t = take_pool_effect [OF ok False]
    show ?thesis using rt_mp_alloc_available [of a k 0, OF _ False] k t(4-6) by (auto simp: mp_try_alloc_def)
  qed
  show "\<exists>k'. Some (rt_mp_free (Some x) k) = Some k' \<and> (pool_inv a k' \<and> unat (block_size (mempool k' a)) = bs)
      \<and> pool_live (mempool k' a) (pool_word k') = pool_live (mempool k a) (pool_word k) - {(x, e)}"
    if xe: "(x, e) \<in> pool_live (mempool k a) (pool_word k)"
  proof -
    obtain b where b: "b \<in> blocks (mempool k a)" "b \<notin> set (free_blocks (mempool k a) (pool_word k))" "x = b + 4" "e = b + 4 + unat (block_size (mempool k a))"
      using xe unfolding pool_live_def by blast
    show ?thesis using rt_mp_free_effect(1-3) [OF _ b(1,2)] give_pool_effect(3,4) [OF ok b(1,2)] k b(3,4) by auto
  qed
qed

section \<open>Properties\<close>

text \<open>The example kernel with pools of two blocks, all of them in use by pool 7.\<close>

definition example_pools :: pools where
  "example_pools = example_running (pools.fields (\<lambda>_. \<lparr>start_address = 0x2000, mp_size = 24, block_list = 0, block_size = 8,
     block_total_count = 2, block_free_count = 0\<rparr>) (\<lambda>_. 7) cold_heap)"

lemma example_pools_sel [simp]:
  "kernel_inv example_pools" "tlist example_pools (Suspended a) = []" "rt_current_thread example_pools = Some 1" "tstat example_pools 1 = 3"
  "block_free_count (mempool example_pools a) = 0" "pool_inv 7 example_pools"
proof -
  show i: "kernel_inv example_pools" "tlist example_pools (Suspended a) = []" "rt_current_thread example_pools = Some 1" "tstat example_pools 1 = 3"
    by (simp_all add: example_pools_def example_running_inv)
  have m: "mempool example_pools a = \<lparr>start_address = 0x2000, mp_size = 24, block_list = 0, block_size = 8, block_total_count = 2,
      block_free_count = 0\<rparr>" "pool_word example_pools b = 7" for a b
    by (simp_all add: example_pools_def example_running_def example_kernel_def boot_kernel_def pools.defs)
  show "block_free_count (mempool example_pools a) = 0" "pool_inv 7 example_pools"
    using i(1) by (simp_all add: m pool_inv_def pool_ok_def free_blocks_def)
qed

text \<open>
  C15. A memory pool that has just been set up, and any client that takes blocks without waiting and
  gives back blocks it holds, in any order: the blocks held never overlap and each has the block
  size, and they are exactly the blocks that are not on the free list; threads that wait for a block
  may be woken in between.
\<close>

theorem rt_mp_client_safe:
  assumes "kernel_inv k" "tlist k (Suspended a) = []" "0 < unat bs" "unat bs \<le> 2 ^ 32 - 12" "start + unat sz \<le> 2 ^ 32"
  shows "\<exists>held k'. client (mp_try_alloc a) (\<lambda>p k. Some (rt_mp_free (Some p) k)) ops ([], rt_mp_init a name start sz bs k) = Some (held, k')
    \<and> pool_inv a k' \<and> unat (block_size (mempool k' a)) = (unat bs + 3) div 4 * 4 \<and> apart (pool_live (mempool k' a) (pool_word k'))
    \<and> distinct held \<and> fst ` pool_live (mempool k' a) (pool_word k') = set held"
proof -
  note i = rt_mp_init_effect [OF assms, of name]
  show ?thesis using fixed_pool.client_from_empty [of a "rt_mp_init a name start sz bs k" "(unat bs + 3) div 4 * 4" ops] i(1,3,4) by blast
qed

theorem rt_mp_client_safe_witness:
  "\<exists>held k'. client (mp_try_alloc 7) (\<lambda>p k. Some (rt_mp_free (Some p) k)) [Ask (), Ask (), Give_back 0, Ask ()]
     ([], rt_mp_init 7 [] 0x2000 64 10 example_pools) = Some (held, k') \<and> pool_inv 7 k'"
  using rt_mp_client_safe [of example_pools 7 10 "0x2000" 64 "[Ask (), Ask (), Give_back 0, Ask ()]" "[]"] by auto

text \<open>The calls of a pool, with every field a caller sees.\<close>

lemma rt_mp_steps:
  assumes "pool_inv a k" "rt_current_thread k = Some t" "tstat k t = RT_THREAD_RUNNING"
  shows "\<exists>k'. pool_inv a k' \<and> snd (rt_mp_alloc a time k) = k'
      \<and> (if block_free_count (mempool k a) \<noteq> 0 then
           fst (rt_mp_alloc a time k) = Mp_returns (Some (hd (free_blocks (mempool k a) (pool_word k)) + 4))
           \<and> free_blocks (mempool k' a) (pool_word k') = tl (free_blocks (mempool k a) (pool_word k)) \<and> tlist k' = tlist k
         else if time = 0 then
           fst (rt_mp_alloc a time k) = Mp_returns None \<and> free_blocks (mempool k' a) (pool_word k') = [] \<and> tlist k' = tlist k
         else fst (rt_mp_alloc a time k) = Mp_blocks time (if time > 0 then rt_tick k else 0)
           \<and> free_blocks (mempool k' a) (pool_word k') = [] \<and> tlist k' (Suspended a) = t # tlist k (Suspended a) \<and> tstat k' t = RT_THREAD_SUSPEND)"
    and "b \<in> blocks (mempool k a) \<Longrightarrow> b \<notin> set (free_blocks (mempool k a) (pool_word k)) \<Longrightarrow>
      (let k' = rt_mp_free (Some (b + 4)) k
       in pool_inv a k' \<and> free_blocks (mempool k' a) (pool_word k') = b # free_blocks (mempool k a) (pool_word k)
          \<and> tlist k' (Suspended a) = tl (tlist k (Suspended a))
          \<and> (\<forall>u us. tlist k (Suspended a) = u # us \<longrightarrow> tstat k' u \<in> {RT_THREAD_READY, RT_THREAD_RUNNING}))"
proof -
  have ok: "pool_ok a (mempool k a) (pool_word k)" using assms(1) by (simp add: pool_inv_def)
  let ?f = "free_blocks (mempool k a) (pool_word k)"
  have z: "?f = []" if "block_free_count (mempool k a) = 0" using that by (simp add: free_blocks_def)
  show "\<exists>k'. pool_inv a k' \<and> snd (rt_mp_alloc a time k) = k'
      \<and> (if block_free_count (mempool k a) \<noteq> 0 then
           fst (rt_mp_alloc a time k) = Mp_returns (Some (hd ?f + 4)) \<and> free_blocks (mempool k' a) (pool_word k') = tl ?f \<and> tlist k' = tlist k
         else if time = 0 then
           fst (rt_mp_alloc a time k) = Mp_returns None \<and> free_blocks (mempool k' a) (pool_word k') = [] \<and> tlist k' = tlist k
         else fst (rt_mp_alloc a time k) = Mp_blocks time (if time > 0 then rt_tick k else 0)
           \<and> free_blocks (mempool k' a) (pool_word k') = [] \<and> tlist k' (Suspended a) = t # tlist k (Suspended a) \<and> tstat k' t = RT_THREAD_SUSPEND)"
  proof (cases "block_free_count (mempool k a) = 0")
    case True
    show ?thesis
    proof (cases "time = 0")
      case True
      then show ?thesis using rt_mp_alloc_refused [OF assms(1)] \<open>block_free_count (mempool k a) = 0\<close> z by auto
    next
      case False
      then show ?thesis using rt_mp_alloc_blocks [OF assms(1) True assms(2,3) False] True z by auto
    qed
  next
    case False
    then show ?thesis using rt_mp_alloc_available [OF assms(1) False, of time] take_pool_effect(2) [OF ok False] by auto
  qed
  assume b: "b \<in> blocks (mempool k a)" "b \<notin> set ?f"
  note r = rt_mp_free_effect [OF assms(1) b]
  show "let k' = rt_mp_free (Some (b + 4)) k
       in pool_inv a k' \<and> free_blocks (mempool k' a) (pool_word k') = b # ?f \<and> tlist k' (Suspended a) = tl (tlist k (Suspended a))
          \<and> (\<forall>u us. tlist k (Suspended a) = u # us \<longrightarrow> tstat k' u \<in> {RT_THREAD_READY, RT_THREAD_RUNNING})"
    using r(1-4) r(5) give_pool_effect(2) [OF ok b] by (auto simp: Let_def)
qed

text \<open>
  \<open>rt_mp_alloc\<close> and \<open>rt_mp_free\<close> against a counter of free blocks with a stack of waiting threads:
  a free block is returned at once; without one a caller that does not wait gets none, and one that
  does is suspended in front of the threads that already wait; a freed block goes back and wakes the
  first of them, so the thread that has waited longest is served last.
\<close>

theorem rt_mp_refines:
  assumes "pool_inv a k" "rt_current_thread k = Some t" "tstat k t = RT_THREAD_RUNNING"
  shows "(\<exists>k'. pool_inv a k' \<and> snd (rt_mp_alloc a time k) = k'
      \<and> (if block_free_count (mempool k a) \<noteq> 0 then
           fst (rt_mp_alloc a time k) = Mp_returns (Some (hd (free_blocks (mempool k a) (pool_word k)) + 4))
           \<and> free_blocks (mempool k' a) (pool_word k') = tl (free_blocks (mempool k a) (pool_word k)) \<and> tlist k' = tlist k
         else if time = 0 then
           fst (rt_mp_alloc a time k) = Mp_returns None \<and> free_blocks (mempool k' a) (pool_word k') = [] \<and> tlist k' = tlist k
         else fst (rt_mp_alloc a time k) = Mp_blocks time (if time > 0 then rt_tick k else 0)
           \<and> free_blocks (mempool k' a) (pool_word k') = [] \<and> tlist k' (Suspended a) = t # tlist k (Suspended a) \<and> tstat k' t = RT_THREAD_SUSPEND))
    \<and> (b \<in> blocks (mempool k a) \<longrightarrow> b \<notin> set (free_blocks (mempool k a) (pool_word k)) \<longrightarrow>
      (let k' = rt_mp_free (Some (b + 4)) k
       in pool_inv a k' \<and> free_blocks (mempool k' a) (pool_word k') = b # free_blocks (mempool k a) (pool_word k)
          \<and> tlist k' (Suspended a) = tl (tlist k (Suspended a))
          \<and> (\<forall>u us. tlist k (Suspended a) = u # us \<longrightarrow> tstat k' u \<in> {RT_THREAD_READY, RT_THREAD_RUNNING})))"
  using rt_mp_steps [OF assms] by blast

theorem rt_mp_refines_witness:
  "fst (rt_mp_alloc 7 (- 1) example_pools) = Mp_blocks (- 1) 0 \<and> tlist (snd (rt_mp_alloc 7 (- 1) example_pools)) (Suspended 7) = [1]"
  using rt_mp_refines [OF example_pools_sel(6,3,4), THEN conjunct1, of "- 1"] by (simp del: One_nat_def)

text \<open>
  A pool whose memory is smaller than one block with its word: there is no block to link, and
  the write that ends the free list stores a null pointer in front of the pool's memory.
\<close>

theorem rt_mp_init_underflow:
  assumes "unat bs \<le> 2 ^ 32 - 12" "unat sz div 4 * 4 < (unat bs + 3) div 4 * 4 + 4" "(unat bs + 3) div 4 * 4 + 4 \<le> start" "start < 2 ^ 32"
  shows "block_total_count (mempool (rt_mp_init a name start sz bs k) a) = 0
    \<and> pool_word (rt_mp_init a name start sz bs k) (start - ((unat bs + 3) div 4 * 4 + 4)) = 0"
proof -
  define b where "b = (unat bs + 3) div 4 * 4"
  have bz: "unat (RT_ALIGN bs 4) = b" unfolding b_def using assms(1) by (intro RT_ALIGN4) simp
  have b4: "unat (RT_ALIGN bs 4 + 4) = b + 4" "b + 4 < 2 ^ 32"
    using assms(1) bz unfolding b_def by (simp_all add: unat_add_no_wrap)
  have "unat (RT_ALIGN_DOWN sz 4 div (RT_ALIGN bs 4 + 4)) = 0"
    using assms(2) unfolding b_def [symmetric] by (simp add: unat_div_distrib RT_ALIGN_DOWN4 b4(1))
  then have c: "RT_ALIGN_DOWN sz 4 div (RT_ALIGN bs 4 + 4) = 0" by (simp only: unat_eq_zero)
  then have t: "block_total_count (mempool (rt_mp_init a name start sz bs k) a) = 0"
    by (simp add: rt_mp_init_def upd_pool_def Let_def)
  have "block_addr start (RT_ALIGN bs 4) (0 - 1) = start - (b + 4)"
  proof -
    have "unat (word_of_nat start :: u32) = start" using assms(4) by (simp add: unat_of_nat)
    moreover have "RT_ALIGN bs 4 + 4 \<le> word_of_nat start" using assms(3) calculation b4(1) unfolding b_def [symmetric] by (simp add: word_le_nat_alt)
    ultimately have "unat (word_of_nat start - (RT_ALIGN bs 4 + 4)) = start - (b + 4)" using b4(1) by (simp add: unat_sub)
    moreover have "word_of_nat start + (0 - 1) * (RT_ALIGN bs 4 + 4) = (word_of_nat start - (RT_ALIGN bs 4 + 4) :: u32)" by simp
    ultimately show ?thesis by (simp only: block_addr_def)
  qed
  then have "pool_word (rt_mp_init a name start sz bs k) (start - ((unat bs + 3) div 4 * 4 + 4)) = 0"
    unfolding b_def [symmetric] using c by (simp add: rt_mp_init_def upd_pool_def Let_def link_blocks_def)
  with t show ?thesis ..
qed

theorem rt_mp_init_underflow_witness:
  "pool_word (rt_mp_init 9 [] 0x2000 8 8 example_pools) 8180 = 0"
  using rt_mp_init_underflow [of 8 8 "0x2000" 9 "[]" example_pools] by simp

end
