(* ===== verification/Ringbuffer.thy ===== *)
theory Ringbuffer
  imports Mem Fifo
begin

text \<open>
  Ring buffers, \<^verbatim>\<open>rt-thread/components/drivers/src/ringbuffer.c\<close>, the byte queues of the serial and
  pipe drivers. The read and write positions are a 15-bit index and a mirror bit that flips each time
  the index wraps; \<open>buffer_size\<close> is a signed 16-bit number. Memory is a function from addresses to
  bytes; the bytes a caller passes in are a function of their position and a 16-bit length, and those
  it gets back a list. The model keeps C's conversions: \<open>buffer_size\<close> is read with its sign, and
  lengths are converted to \<open>rt_size_t\<close> where the code does so.
\<close>

section \<open>State\<close>

record rt_ringbuffer =
  buffer_ptr :: nat
  read_mirror :: "1 word"
  read_index :: "15 word"
  write_mirror :: "1 word"
  write_index :: "15 word"
  buffer_size :: u16

datatype rt_ringbuffer_state = RT_RINGBUFFER_EMPTY | RT_RINGBUFFER_FULL | RT_RINGBUFFER_HALFFULL

type_synonym memory = "nat \<Rightarrow> u8"

definition memcpy :: "nat \<Rightarrow> (nat \<Rightarrow> u8) \<Rightarrow> int \<Rightarrow> memory \<Rightarrow> memory" where
  "memcpy dst src n m = (\<lambda>a. if dst \<le> a \<and> a < dst + unat (word_of_int n :: u32) then src (a - dst) else m a)"

definition bsize :: "rt_ringbuffer \<Rightarrow> int" where
  "bsize rb = sint (buffer_size rb)"

section \<open>Operations\<close>

definition rt_ringbuffer_status :: "rt_ringbuffer \<Rightarrow> rt_ringbuffer_state" where
  "rt_ringbuffer_status rb =
     (if read_index rb = write_index rb then
        (if read_mirror rb = write_mirror rb then RT_RINGBUFFER_EMPTY else RT_RINGBUFFER_FULL)
      else RT_RINGBUFFER_HALFFULL)"

definition rt_ringbuffer_init :: "rt_ringbuffer \<Rightarrow> nat \<Rightarrow> u16 \<Rightarrow> rt_ringbuffer" where
  "rt_ringbuffer_init rb pool sz =
     rb\<lparr>read_mirror := 0, read_index := 0, write_mirror := 0, write_index := 0, buffer_ptr := pool,
        buffer_size := sz AND NOT (4 - 1)\<rparr>"

definition rt_ringbuffer_data_len :: "rt_ringbuffer \<Rightarrow> u32" where
  "rt_ringbuffer_data_len rb =
     (case rt_ringbuffer_status rb of
        RT_RINGBUFFER_EMPTY \<Rightarrow> 0
      | RT_RINGBUFFER_FULL \<Rightarrow> word_of_int (bsize rb)
      | RT_RINGBUFFER_HALFFULL \<Rightarrow>
          let wi = ucast (write_index rb) :: u32; ri = ucast (read_index rb) :: u32
          in if wi > ri then wi - ri else word_of_int (bsize rb) - (ri - wi))"

definition rt_ringbuffer_get_size :: "rt_ringbuffer \<Rightarrow> u16" where
  "rt_ringbuffer_get_size rb = buffer_size rb"

definition rt_ringbuffer_space_len :: "rt_ringbuffer \<Rightarrow> u32" where
  "rt_ringbuffer_space_len rb = word_of_int (bsize rb) - rt_ringbuffer_data_len rb"

definition rt_ringbuffer_put :: "(nat \<Rightarrow> u8) \<Rightarrow> u16 \<Rightarrow> rt_ringbuffer \<times> memory \<Rightarrow> u32 \<times> rt_ringbuffer \<times> memory" where
  "rt_ringbuffer_put ptr len = (\<lambda>(rb, m).
     let sz = ucast (rt_ringbuffer_space_len rb) :: u16
     in if sz = 0 then (0, rb, m)
        else
          let len = (if sz < len then sz else len); room = bsize rb - uint (write_index rb)
          in if room > uint len then
               (ucast len, rb\<lparr>write_index := write_index rb + ucast len\<rparr>,
                memcpy (buffer_ptr rb + unat (write_index rb)) ptr (uint len) m)
             else
               let m = memcpy (buffer_ptr rb + unat (write_index rb)) ptr room m;
                   m = memcpy (buffer_ptr rb) (\<lambda>i. ptr (nat (room + int i))) (uint len - room) m
               in (ucast len, rb\<lparr>write_mirror := NOT (write_mirror rb), write_index := word_of_int (uint len - room)\<rparr>, m))"

text \<open>\<open>rt_ringbuffer_put_force\<close> keeps the last \<open>buffer_size\<close> bytes of what it is given and then writes
  them over the oldest bytes; \<open>force_write\<close> is that second part.\<close>

definition force_write :: "(nat \<Rightarrow> u8) \<Rightarrow> u16 \<Rightarrow> u16 \<Rightarrow> rt_ringbuffer \<times> memory \<Rightarrow> rt_ringbuffer \<times> memory" where
  "force_write ptr len space_length = (\<lambda>(rb, m).
     let room = bsize rb - uint (write_index rb)
     in if room > uint len then
          let m = memcpy (buffer_ptr rb + unat (write_index rb)) ptr (uint len) m;
              rb = rb\<lparr>write_index := write_index rb + ucast len\<rparr>;
              rb = (if len > space_length then rb\<lparr>read_index := write_index rb\<rparr> else rb)
          in (rb, m)
        else
          let m = memcpy (buffer_ptr rb + unat (write_index rb)) ptr room m;
              m = memcpy (buffer_ptr rb) (\<lambda>i. ptr (nat (room + int i))) (uint len - room) m;
              rb = rb\<lparr>write_mirror := NOT (write_mirror rb), write_index := word_of_int (uint len - room)\<rparr>;
              rb = (if len > space_length then
                      let rb = (if write_index rb \<le> read_index rb then rb\<lparr>read_mirror := NOT (read_mirror rb)\<rparr> else rb)
                      in rb\<lparr>read_index := write_index rb\<rparr>
                    else rb)
          in (rb, m))"

definition rt_ringbuffer_put_force :: "(nat \<Rightarrow> u8) \<Rightarrow> u16 \<Rightarrow> rt_ringbuffer \<times> memory \<Rightarrow> u32 \<times> rt_ringbuffer \<times> memory" where
  "rt_ringbuffer_put_force ptr len = (\<lambda>(rb, m).
     let space_length = ucast (rt_ringbuffer_space_len rb) :: u16
     in if uint len > bsize rb then
          let ptr = (\<lambda>i. ptr (nat (uint len - bsize rb + int i))); len = word_of_int (bsize rb) :: u16
          in (ucast len, force_write ptr len space_length (rb, m))
        else (ucast len, force_write ptr len space_length (rb, m)))"

text \<open>The bytes read are returned as a list, those of the second copy behind those of the first.\<close>

definition bytes_at :: "memory \<Rightarrow> nat \<Rightarrow> int \<Rightarrow> u8 list" where
  "bytes_at m a n = map (\<lambda>i. m (a + i)) [0..<unat (word_of_int n :: u32)]"

definition rt_ringbuffer_get :: "u16 \<Rightarrow> rt_ringbuffer \<times> memory \<Rightarrow> (u32 \<times> u8 list) \<times> rt_ringbuffer \<times> memory" where
  "rt_ringbuffer_get len = (\<lambda>(rb, m).
     let sz = rt_ringbuffer_data_len rb
     in if sz = 0 then ((0, []), rb, m)
        else
          let len = (if sz < ucast len then ucast sz else len); room = bsize rb - uint (read_index rb)
          in if room > uint len then
               ((ucast len, bytes_at m (buffer_ptr rb + unat (read_index rb)) (uint len)),
                rb\<lparr>read_index := read_index rb + ucast len\<rparr>, m)
             else
               ((ucast len, bytes_at m (buffer_ptr rb + unat (read_index rb)) room @ bytes_at m (buffer_ptr rb) (uint len - room)),
                rb\<lparr>read_mirror := NOT (read_mirror rb), read_index := word_of_int (uint len - room)\<rparr>, m))"

definition rt_ringbuffer_peak :: "rt_ringbuffer \<Rightarrow> (u32 \<times> nat option) \<times> rt_ringbuffer" where
  "rt_ringbuffer_peak rb =
     (let sz = rt_ringbuffer_data_len rb
      in if sz = 0 then ((0, None), rb)
         else
           let ptr = buffer_ptr rb + unat (read_index rb); room = word_of_int (bsize rb - uint (read_index rb)) :: u32
           in if room > sz then ((sz, Some ptr), rb\<lparr>read_index := read_index rb + ucast sz\<rparr>)
              else ((room, Some ptr), rb\<lparr>read_mirror := NOT (read_mirror rb), read_index := 0\<rparr>))"

definition rt_ringbuffer_putchar :: "u8 \<Rightarrow> rt_ringbuffer \<times> memory \<Rightarrow> u32 \<times> rt_ringbuffer \<times> memory" where
  "rt_ringbuffer_putchar ch = (\<lambda>(rb, m).
     if rt_ringbuffer_space_len rb = 0 then (0, rb, m)
     else
       let m = m(buffer_ptr rb + unat (write_index rb) := ch)
       in if uint (write_index rb) = bsize rb - 1
          then (1, rb\<lparr>write_mirror := NOT (write_mirror rb), write_index := 0\<rparr>, m)
          else (1, rb\<lparr>write_index := write_index rb + 1\<rparr>, m))"

definition rt_ringbuffer_putchar_force :: "u8 \<Rightarrow> rt_ringbuffer \<times> memory \<Rightarrow> u32 \<times> rt_ringbuffer \<times> memory" where
  "rt_ringbuffer_putchar_force ch = (\<lambda>(rb, m).
     let old_state = rt_ringbuffer_status rb; m = m(buffer_ptr rb + unat (write_index rb) := ch)
     in if uint (write_index rb) = bsize rb - 1 then
          let rb = rb\<lparr>write_mirror := NOT (write_mirror rb), write_index := 0\<rparr>
          in (1, if old_state = RT_RINGBUFFER_FULL then rb\<lparr>read_mirror := NOT (read_mirror rb), read_index := write_index rb\<rparr> else rb, m)
        else
          let rb = rb\<lparr>write_index := write_index rb + 1\<rparr>
          in (1, if old_state = RT_RINGBUFFER_FULL then rb\<lparr>read_index := write_index rb\<rparr> else rb, m))"

definition rt_ringbuffer_getchar :: "rt_ringbuffer \<times> memory \<Rightarrow> (u32 \<times> u8 option) \<times> rt_ringbuffer \<times> memory" where
  "rt_ringbuffer_getchar = (\<lambda>(rb, m).
     if rt_ringbuffer_data_len rb = 0 then ((0, None), rb, m)
     else
       let ch = m (buffer_ptr rb + unat (read_index rb))
       in if uint (read_index rb) = bsize rb - 1
          then ((1, Some ch), rb\<lparr>read_mirror := NOT (read_mirror rb), read_index := 0\<rparr>, m)
          else ((1, Some ch), rb\<lparr>read_index := read_index rb + 1\<rparr>, m))"

definition rt_ringbuffer_reset :: "rt_ringbuffer \<Rightarrow> rt_ringbuffer" where
  "rt_ringbuffer_reset rb = rb\<lparr>read_mirror := 0, read_index := 0, write_mirror := 0, write_index := 0\<rparr>"

text \<open>The control block takes 12 bytes of the heap; \<open>raw\<close> is what they held before.\<close>

definition rt_ringbuffer_create :: "u16 \<Rightarrow> rt_ringbuffer \<Rightarrow> small_heap \<Rightarrow> ((nat \<times> rt_ringbuffer) option \<times> small_heap) option" where
  "rt_ringbuffer_create sz raw h =
     (let sz = sz AND NOT (4 - 1)
      in case rt_malloc 12 h of
           None \<Rightarrow> None
         | Some (None, h) \<Rightarrow> Some (None, h)
         | Some (Some rb, h) \<Rightarrow>
             (case rt_malloc (ucast sz) h of
                None \<Rightarrow> None
              | Some (None, h) \<Rightarrow> map_option (\<lambda>h. (None, h)) (rt_free (Some rb) h)
              | Some (Some pool, h) \<Rightarrow> Some (Some (rb, rt_ringbuffer_init raw pool sz), h)))"

definition rt_ringbuffer_destroy :: "nat \<times> rt_ringbuffer \<Rightarrow> small_heap \<Rightarrow> small_heap option" where
  "rt_ringbuffer_destroy rb h = Option.bind (rt_free (Some (buffer_ptr (snd rb))) h) (rt_free (Some (fst rb)))"

section \<open>The ring as a sequence\<close>

text \<open>\<open>ring m a n v k\<close>: the \<open>k\<close> bytes from position \<open>v\<close> on, in a ring of \<open>n\<close> bytes at \<open>a\<close>.\<close>

definition ring :: "memory \<Rightarrow> nat \<Rightarrow> nat \<Rightarrow> nat \<Rightarrow> nat \<Rightarrow> u8 list" where
  "ring m a n v k = map (\<lambda>i. m (a + i mod n)) [v..<v + k]"

lemma length_ring [simp]: "length (ring m a n v k) = k"
  by (simp add: ring_def)

lemma nth_ring: "i < k \<Longrightarrow> ring m a n v k ! i = m (a + (v + i) mod n)"
  by (simp add: ring_def)

lemma ring_mod: "ring m a n (v mod n) k = ring m a n v k"
  by (rule nth_equalityI) (simp_all add: nth_ring mod_add_left_eq)

lemma ring_add: "ring m a n v (j + k) = ring m a n v j @ ring m a n (v + j) k"
  by (rule nth_equalityI) (auto simp: nth_ring nth_append add.assoc)

lemma drop_ring: "drop j (ring m a n v k) = ring m a n (v + j) (k - j)"
  by (rule nth_equalityI) (auto simp: nth_ring add.assoc)

lemma take_ring: "take j (ring m a n v k) = ring m a n v (min j k)"
  by (rule nth_equalityI) (auto simp: nth_ring)

text \<open>The bytes \<open>d\<close> written into the ring from position \<open>s\<close> on.\<close>

definition ring_put :: "memory \<Rightarrow> nat \<Rightarrow> nat \<Rightarrow> nat \<Rightarrow> u8 list \<Rightarrow> memory \<Rightarrow> bool" where
  "ring_put m a n s d m' \<longleftrightarrow> (\<forall>j < n. m' (a + (s + j) mod n) = (if j < length d then d ! j else m (a + (s + j) mod n)))
     \<and> (\<forall>x. x < a \<or> a + n \<le> x \<longrightarrow> m' x = m x)"

text \<open>Writing \<open>d\<close> behind the \<open>k\<close> bytes at \<open>v\<close>, and then leaving out the first \<open>j\<close> bytes.\<close>

lemma ring_write:
  assumes w: "ring_put m a n s d m'" and s: "s = (v + k) mod n" and n: "0 < n" "length d \<le> n" "k \<le> n" "k + length d - j \<le> n" "j \<le> k + length d"
  shows "ring m' a n (v + j) (k + length d - j) = drop j (ring m a n v k @ d)"
proof (rule nth_equalityI)
  fix i assume "i < length (ring m' a n (v + j) (k + length d - j))"
  then have i: "i + j < k + length d" by simp
  have "m' (a + (v + (i + j)) mod n) = (ring m a n v k @ d) ! (i + j)"
  proof (cases "i + j < k")
    case True
    let ?x = "i + j + n - k"
    have "(s + ?x) mod n = (v + (i + j)) mod n"
    proof -
      have "(s + ?x) mod n = (v + k + ?x) mod n" unfolding s by (simp add: mod_add_left_eq)
      also have "v + k + ?x = v + (i + j) + n" using n(3) by simp
      finally show ?thesis by simp
    qed
    moreover have "?x < n" "\<not> ?x < length d" using True n(3,4) i by linarith+
    ultimately show ?thesis using w True unfolding ring_put_def by (metis nth_append length_ring nth_ring)
  next
    case False
    let ?x = "i + j - k"
    have "(s + ?x) mod n = (v + (i + j)) mod n"
    proof -
      have "(s + ?x) mod n = (v + k + ?x) mod n" unfolding s by (simp add: mod_add_left_eq)
      also have "v + k + ?x = v + (i + j)" using False by simp
      finally show ?thesis .
    qed
    moreover have "?x < length d" "?x < n" using False i n(2) by linarith+
    ultimately show ?thesis using w False unfolding ring_put_def by (metis nth_append length_ring)
  qed
  then show "ring m' a n (v + j) (k + length d - j) ! i = drop j (ring m a n v k @ d) ! i"
    using i n(5) by (simp add: nth_ring ac_simps del: drop_append)
qed simp

section \<open>The invariant\<close>

abbreviation rb_size :: "rt_ringbuffer \<Rightarrow> nat" where "rb_size rb \<equiv> unat (buffer_size rb)"
abbreviation ri :: "rt_ringbuffer \<Rightarrow> nat" where "ri rb \<equiv> unat (read_index rb)"
abbreviation wi :: "rt_ringbuffer \<Rightarrow> nat" where "wi rb \<equiv> unat (write_index rb)"

text \<open>The indices lie in the buffer, and the write position is at most one round ahead.\<close>

definition rb_ok :: "rt_ringbuffer \<Rightarrow> bool" where
  "rb_ok rb \<longleftrightarrow> rb_size rb < 2 ^ 15 \<and> ri rb < rb_size rb \<and> wi rb < rb_size rb
     \<and> (if read_mirror rb = write_mirror rb then ri rb \<le> wi rb else wi rb \<le> ri rb)"

definition rb_len :: "rt_ringbuffer \<Rightarrow> nat" where
  "rb_len rb = (if read_mirror rb = write_mirror rb then wi rb - ri rb else rb_size rb - ri rb + wi rb)"

definition rb_contents :: "rt_ringbuffer \<times> memory \<Rightarrow> u8 list" where
  "rb_contents = (\<lambda>(rb, m). ring m (buffer_ptr rb) (rb_size rb) (ri rb) (rb_len rb))"

lemma mirror_bit: "a = b \<longleftrightarrow> bit a 0 = bit b 0" for a b :: "1 word"
  using bit_word_eqI [of a b] by auto

lemma mirror_flip [simp]: "(NOT x = y) = (x \<noteq> y)" "(y = NOT x) = (y \<noteq> x)" for x y :: "1 word"
proof -
  note e = mirror_bit
  show "(NOT x = y) = (x \<noteq> y)" "(y = NOT x) = (y \<noteq> x)" by (auto simp: e [of "NOT x"] e [of x] e [of y] bit_not_iff)
qed

lemma unat_of_int32: "x < 2 ^ 32 \<Longrightarrow> unat (word_of_int (int x) :: u32) = x"
  by (simp add: unat_of_nat)

lemma unat15: "x < 2 ^ 15 \<Longrightarrow> unat (word_of_nat x :: 15 word) = x"
  by (simp add: unat_of_nat)

lemma rb_okD:
  assumes "rb_ok rb"
  shows "bsize rb = int (rb_size rb)" "rb_len rb \<le> rb_size rb" "wi rb = (ri rb + rb_len rb) mod rb_size rb" "0 < rb_size rb"
    "unat (word_of_int (bsize rb) :: u32) = rb_size rb"
proof -
  have a: "rb_size rb < 2 ^ 15" "ri rb < rb_size rb" "wi rb < rb_size rb"
    "if read_mirror rb = write_mirror rb then ri rb \<le> wi rb else wi rb \<le> ri rb" using assms unfolding rb_ok_def by blast+
  show b: "bsize rb = int (rb_size rb)" 
  proof -
    have "sint (buffer_size rb) = signed_take_bit 15 (int (rb_size rb))" by (simp add: sint_uint uint_nat [symmetric])
    also have "\<dots> = int (rb_size rb)"
    proof (rule signed_take_bit_int_eq_self)
      have p: "(2 :: int) ^ 15 = 32768" and "rb_size rb < 32768" using a(1) by simp_all
      then show "- (2 ^ 15) \<le> int (rb_size rb)" "int (rb_size rb) < 2 ^ 15" unfolding p by linarith+
    qed
    finally show ?thesis unfolding bsize_def .
  qed
  show "rb_len rb \<le> rb_size rb" "0 < rb_size rb" using a by (auto simp: rb_len_def split: if_splits)
  show "wi rb = (ri rb + rb_len rb) mod rb_size rb"
  proof (cases "read_mirror rb = write_mirror rb")
    case False
    then have "ri rb + rb_len rb = rb_size rb + wi rb" using a by (simp add: rb_len_def)
    then show ?thesis using a(3) by simp
  qed (use a in \<open>simp add: rb_len_def\<close>)
  show "unat (word_of_int (bsize rb) :: u32) = rb_size rb" unfolding b by (rule unat_of_int32) (use a(1) in simp)
qed

lemma rb_lens:
  assumes "rb_ok rb"
  shows "unat (rt_ringbuffer_data_len rb) = rb_len rb" "unat (rt_ringbuffer_space_len rb) = rb_size rb - rb_len rb"
    "rt_ringbuffer_status rb = RT_RINGBUFFER_FULL \<longleftrightarrow> rb_len rb = rb_size rb"
    "unat (ucast (rt_ringbuffer_space_len rb) :: u16) = rb_size rb - rb_len rb" "unat (ucast (rt_ringbuffer_data_len rb) :: u16) = rb_len rb"
proof -
  note d = rb_okD [OF assms]
  have a: "rb_size rb < 2 ^ 15" "ri rb < rb_size rb" "wi rb < rb_size rb"
    "if read_mirror rb = write_mirror rb then ri rb \<le> wi rb else wi rb \<le> ri rb" using assms unfolding rb_ok_def by blast+
  have c: "unat (ucast (write_index rb) :: u32) = wi rb" "unat (ucast (read_index rb) :: u32) = ri rb"
    using a by (simp_all add: unsigned_ucast_eq take_bit_nat_eq_self)
  have eq: "read_index rb = write_index rb \<longleftrightarrow> ri rb = wi rb" by (simp add: word_unat_eq_iff)
  show l: "unat (rt_ringbuffer_data_len rb) = rb_len rb"
    using a c d(5) eq unfolding rt_ringbuffer_data_len_def rt_ringbuffer_status_def rb_len_def
    by (auto simp: Let_def word_less_nat_alt word_le_nat_alt unat_sub split: if_splits)
  show s: "unat (rt_ringbuffer_space_len rb) = rb_size rb - rb_len rb"
    unfolding rt_ringbuffer_space_len_def using d(2,5) l by (simp add: unat_sub word_le_nat_alt)
  show "rt_ringbuffer_status rb = RT_RINGBUFFER_FULL \<longleftrightarrow> rb_len rb = rb_size rb"
    using a eq by (auto simp: rt_ringbuffer_status_def rb_len_def)
  show "unat (ucast (rt_ringbuffer_space_len rb) :: u16) = rb_size rb - rb_len rb" "unat (ucast (rt_ringbuffer_data_len rb) :: u16) = rb_len rb"
    using s l d(2) a(1) by (simp_all add: unsigned_ucast_eq take_bit_nat_eq_self)
qed

section \<open>Moving the positions\<close>

text \<open>The read position moves by \<open>j\<close> and the write position by \<open>k\<close>.\<close>

definition moved :: "nat \<Rightarrow> nat \<Rightarrow> rt_ringbuffer \<Rightarrow> rt_ringbuffer \<Rightarrow> bool" where
  "moved j k rb rb' \<longleftrightarrow> buffer_ptr rb' = buffer_ptr rb \<and> buffer_size rb' = buffer_size rb
     \<and> ri rb' = (if ri rb + j < rb_size rb then ri rb + j else ri rb + j - rb_size rb)
     \<and> (read_mirror rb' = read_mirror rb \<longleftrightarrow> ri rb + j < rb_size rb)
     \<and> wi rb' = (if wi rb + k < rb_size rb then wi rb + k else wi rb + k - rb_size rb)
     \<and> (write_mirror rb' = write_mirror rb \<longleftrightarrow> wi rb + k < rb_size rb)"

lemma mirror_eq: "(x' = y') = ((x' = x) = (y' = y) \<longleftrightarrow> x = y)" for x y x' y' :: "1 word"
proof -
  note e = mirror_bit
  show ?thesis unfolding e by blast
qed

lemma moved_ok:
  assumes ok: "rb_ok rb" and m: "moved j k rb rb'" and j: "j \<le> rb_len rb + k" "j \<le> rb_size rb" "k \<le> rb_size rb" "rb_len rb + k - j \<le> rb_size rb"
  shows "rb_ok rb'" "rb_len rb' = rb_len rb + k - j" "ri rb' = (ri rb + j) mod rb_size rb" "rb_size rb' = rb_size rb"
    "buffer_ptr rb' = buffer_ptr rb"
proof -
  have a: "rb_size rb < 2 ^ 15" "ri rb < rb_size rb" "wi rb < rb_size rb"
    "if read_mirror rb = write_mirror rb then ri rb \<le> wi rb else wi rb \<le> ri rb" using ok unfolding rb_ok_def by blast+
  note m = m [unfolded moved_def]
  show s: "rb_size rb' = rb_size rb" "buffer_ptr rb' = buffer_ptr rb" using m by simp_all
  have mm: "(read_mirror rb' = write_mirror rb') =
      (((ri rb + j < rb_size rb) = (wi rb + k < rb_size rb)) = (read_mirror rb = write_mirror rb))"
    unfolding mirror_eq [of "read_mirror rb'" "write_mirror rb'" "read_mirror rb" "write_mirror rb"] using m by simp
  show "rb_len rb' = rb_len rb + k - j" using m a j s mm unfolding rb_len_def by (auto split: if_splits)
  show "rb_ok rb'" using m a j s mm unfolding rb_ok_def rb_len_def by (auto split: if_splits)
  show "ri rb' = (ri rb + j) mod rb_size rb" using m a(2) j(2) by (auto simp: mod_if)
qed

text \<open>What a write of \<open>d\<close> does, with the read position moved on by \<open>j\<close>; and what a read of \<open>j\<close> bytes does.\<close>

lemma moved_contents:
  assumes ok: "rb_ok rb" and m: "moved j (length d) rb rb'" "ring_put m (buffer_ptr rb) (rb_size rb) (wi rb) d m'"
    and j: "j \<le> rb_len rb + length d" "j \<le> rb_size rb" "length d \<le> rb_size rb" "rb_len rb + length d - j \<le> rb_size rb"
  shows "rb_ok rb'" "rb_contents (rb', m') = drop j (rb_contents (rb, m) @ d)" "rb_size rb' = rb_size rb" "buffer_ptr rb' = buffer_ptr rb"
proof -
  note o = moved_ok [OF ok m(1) j] and d = rb_okD [OF ok]
  show "rb_ok rb'" "rb_size rb' = rb_size rb" "buffer_ptr rb' = buffer_ptr rb" by (rule o)+
  show "rb_contents (rb', m') = drop j (rb_contents (rb, m) @ d)"
    unfolding rb_contents_def using ring_write [OF m(2) d(3,4) j(3) d(2) j(4,1)] by (simp only: o ring_mod prod.case)
qed

lemma moved_read:
  assumes ok: "rb_ok rb" and m: "moved j 0 rb rb'" and j: "j \<le> rb_len rb"
  shows "rb_ok rb'" "rb_contents (rb', m) = drop j (rb_contents (rb, m))" "rb_size rb' = rb_size rb" "buffer_ptr rb' = buffer_ptr rb"
proof -
  have p: "ring_put m (buffer_ptr rb) (rb_size rb) (wi rb) [] m" by (simp add: ring_put_def)
  have m': "moved j (length []) rb rb'" using m by simp
  show "rb_ok rb'" "rb_contents (rb', m) = drop j (rb_contents (rb, m))" "rb_size rb' = rb_size rb" "buffer_ptr rb' = buffer_ptr rb"
    using moved_contents [OF ok m' p] rb_okD(2) [OF ok] j by simp_all
qed

section \<open>Copies\<close>

text \<open>A write of \<open>k\<close> bytes in one piece, and in two.\<close>

lemma memcpy_one:
  assumes "s + k \<le> n" "n < 2 ^ 32"
  shows "ring_put m a n s (map ptr [0..<k]) (memcpy (a + s) ptr (int k) m)"
  unfolding ring_put_def
proof (intro conjI allI impI)
  fix j assume j: "j < n"
  have k: "unat (word_of_int (int k) :: u32) = k" using assms by (simp add: unat_of_nat)
  show "memcpy (a + s) ptr (int k) m (a + (s + j) mod n) =
    (if j < length (map ptr [0..<k]) then map ptr [0..<k] ! j else m (a + (s + j) mod n))"
  proof (cases "s + j < n")
    case True
    then show ?thesis unfolding memcpy_def k by simp
  next
    case False
    then have "(s + j) mod n = s + j - n" using assms(1) j by (simp add: mod_if)
    then show ?thesis using False assms(1) j unfolding memcpy_def k by auto
  qed
next
  fix x assume "x < a \<or> a + n \<le> x"
  then show "memcpy (a + s) ptr (int k) m x = m x" using assms by (auto simp: memcpy_def unat_of_nat)
qed

lemma memcpy_two:
  assumes "n \<le> s + k" "s < n" "k \<le> n" "n < 2 ^ 32"
  shows "ring_put m a n s (map ptr [0..<k])
    (memcpy a (\<lambda>i. ptr (nat (int (n - s) + int i))) (int (s + k - n)) (memcpy (a + s) ptr (int (n - s)) m))"
  unfolding ring_put_def
proof (intro conjI allI impI)
  fix j assume j: "j < n"
  have k: "unat (word_of_int (int (n - s)) :: u32) = n - s" "unat (word_of_int (int (s + k - n)) :: u32) = s + k - n"
    using assms by (intro unat_of_int32, simp)+
  show "memcpy a (\<lambda>i. ptr (nat (int (n - s) + int i))) (int (s + k - n)) (memcpy (a + s) ptr (int (n - s)) m) (a + (s + j) mod n) =
    (if j < length (map ptr [0..<k]) then map ptr [0..<k] ! j else m (a + (s + j) mod n))"
  proof (cases "s + j < n")
    case True
    then have "j < k" "\<not> s + j < s + k - n" using assms by auto
    then show ?thesis using True unfolding memcpy_def k by simp
  next
    case False
    define x y where "x = s + j - n" and "y = s + k - n"
    have e: "(s + j) mod n = x" "n - s + x = j" "x < s" "(x < y) = (j < k)"
      using False assms j by (simp_all add: mod_if x_def y_def) linarith
    have f: "(\<lambda>i. ptr (nat (int (n - s) + int i))) = (\<lambda>i. ptr (n - s + i))" by (rule ext, rule arg_cong [of _ _ ptr]) linarith
    show ?thesis unfolding f memcpy_def k e(1) using e(2-4) unfolding y_def by simp
  qed
next
  fix x assume "x < a \<or> a + n \<le> x"
  moreover have "unat (word_of_int (int (n - s)) :: u32) = n - s" "unat (word_of_int (int (s + k - n)) :: u32) = s + k - n"
    using assms by (intro unat_of_int32, simp)+
  ultimately show "memcpy a (\<lambda>i. ptr (nat (int (n - s) + int i))) (int (s + k - n)) (memcpy (a + s) ptr (int (n - s)) m) x = m x"
    using assms by (auto simp: memcpy_def)
qed

section \<open>Operations keep the ring\<close>

lemma rb_ok_bounds:
  assumes "rb_ok rb"
  shows "rb_size rb < 2 ^ 15" "ri rb < rb_size rb" "wi rb < rb_size rb"
  using assms unfolding rb_ok_def by blast+

lemma write_moved:
  fixes len :: u16
  assumes ok: "rb_ok rb" and l: "unat len \<le> rb_size rb"
  shows "wi rb + unat len < rb_size rb \<Longrightarrow> moved 0 (unat len) rb (rb\<lparr>write_index := write_index rb + ucast len\<rparr>)"
    "rb_size rb \<le> wi rb + unat len \<Longrightarrow> moved 0 (unat len) rb
       (rb\<lparr>write_mirror := NOT (write_mirror rb), write_index := word_of_int (uint len - (bsize rb - uint (write_index rb)))\<rparr>)"
proof -
  note b = rb_ok_bounds [OF ok]
  have c: "unat (ucast len :: 15 word) = unat len" using l b(1) by (simp add: unsigned_ucast_eq take_bit_nat_eq_self)
  show "moved 0 (unat len) rb (rb\<lparr>write_index := write_index rb + ucast len\<rparr>)" if "wi rb + unat len < rb_size rb"
  proof -
    have "unat (write_index rb + ucast len) = wi rb + unat len" using that b(1) c by (simp add: unat_add_no_wrap)
    then show ?thesis using that b by (simp add: moved_def)
  qed
  show "moved 0 (unat len) rb (rb\<lparr>write_mirror := NOT (write_mirror rb), write_index := word_of_int (uint len - (bsize rb - uint (write_index rb)))\<rparr>)"
    if g: "rb_size rb \<le> wi rb + unat len"
  proof -
    define k where "k = wi rb + unat len - rb_size rb"
    have "uint len - (bsize rb - uint (write_index rb)) = int k"
      unfolding rb_okD(1) [OF ok] k_def using g by (simp add: uint_nat [symmetric] of_nat_diff)
    then have "unat (word_of_int (uint len - (bsize rb - uint (write_index rb))) :: 15 word) = k"
      using unat15 [of k] b(1,3) l unfolding k_def by simp
    then show ?thesis using g b unfolding moved_def k_def by simp
  qed
qed

lemma put_copies:
  fixes len :: u16
  assumes ok: "rb_ok rb" and l: "unat len \<le> rb_size rb"
  defines "room \<equiv> bsize rb - uint (write_index rb)"
  shows "room > uint len \<longleftrightarrow> wi rb + unat len < rb_size rb"
    "wi rb + unat len < rb_size rb \<Longrightarrow> ring_put m (buffer_ptr rb) (rb_size rb) (wi rb) (map ptr [0..<unat len])
       (memcpy (buffer_ptr rb + wi rb) ptr (uint len) m)"
    "rb_size rb \<le> wi rb + unat len \<Longrightarrow> ring_put m (buffer_ptr rb) (rb_size rb) (wi rb) (map ptr [0..<unat len])
       (memcpy (buffer_ptr rb) (\<lambda>i. ptr (nat (room + int i))) (uint len - room) (memcpy (buffer_ptr rb + wi rb) ptr room m))"
proof -
  note b = rb_ok_bounds [OF ok]
  have r: "room = int (rb_size rb - wi rb)" "uint len = int (unat len)"
    unfolding room_def rb_okD(1) [OF ok] using b(3) by (simp_all add: of_nat_diff)
  have n: "rb_size rb < 2 ^ 32" using b(1) by simp
  show "room > uint len \<longleftrightarrow> wi rb + unat len < rb_size rb" unfolding r by linarith
  show "ring_put m (buffer_ptr rb) (rb_size rb) (wi rb) (map ptr [0..<unat len]) (memcpy (buffer_ptr rb + wi rb) ptr (uint len) m)"
    if "wi rb + unat len < rb_size rb" unfolding r(2) using that n by (intro memcpy_one) simp_all
  assume g: "rb_size rb \<le> wi rb + unat len"
  then have "uint len - room = int (wi rb + unat len - rb_size rb)" unfolding r using b(3) by linarith
  then show "ring_put m (buffer_ptr rb) (rb_size rb) (wi rb) (map ptr [0..<unat len])
       (memcpy (buffer_ptr rb) (\<lambda>i. ptr (nat (room + int i))) (uint len - room) (memcpy (buffer_ptr rb + wi rb) ptr room m))"
    unfolding r(1) using memcpy_two [OF g b(3) l n] by simp
qed

text \<open>Outside the buffer nothing is written.\<close>

definition outside_kept :: "rt_ringbuffer \<Rightarrow> memory \<Rightarrow> memory \<Rightarrow> bool" where
  "outside_kept rb m m' \<longleftrightarrow> (\<forall>x. x < buffer_ptr rb \<or> buffer_ptr rb + rb_size rb \<le> x \<longrightarrow> m' x = m x)"

lemma rt_ringbuffer_put_effect:
  fixes len :: u16
  assumes ok: "rb_ok rb"
  defines "n \<equiv> min (unat len) (rb_size rb - rb_len rb)"
  shows "\<exists>rb' m'. rt_ringbuffer_put ptr len (rb, m) = (word_of_nat n, rb', m') \<and> rb_ok rb' \<and> rb_contents (rb', m') = rb_contents (rb, m) @ map ptr [0..<n]
    \<and> rb_size rb' = rb_size rb \<and> buffer_ptr rb' = buffer_ptr rb \<and> outside_kept rb m m'"
proof (cases "rb_len rb = rb_size rb")
  case True
  then have "ucast (rt_ringbuffer_space_len rb) = (0 :: u16)" using rb_lens(4) [OF ok] by (simp add: word_unat_eq_iff)
  then show ?thesis using True ok by (simp add: rt_ringbuffer_put_def n_def outside_kept_def)
next
  case False
  define s where "s = (ucast (rt_ringbuffer_space_len rb) :: u16)"
  define l where "l = (if s < len then s else len)"
  have s: "unat s = rb_size rb - rb_len rb" "s \<noteq> 0" using rb_lens(4) [OF ok] False rb_okD(2) [OF ok] by (auto simp: s_def)
  have ln: "unat l = n" using s(1) by (auto simp: l_def n_def word_less_nat_alt)
  then have le: "unat l \<le> rb_size rb" "rb_len rb + n \<le> rb_size rb" using rb_okD(2) [OF ok] by (auto simp: n_def)
  have w: "ucast l = (word_of_nat n :: u32)" by (simp add: ln [symmetric])
  note c = put_copies(1) [OF ok le(1)] put_copies(2,3) [OF ok le(1), where ptr = ptr and m = m] and mv = write_moved [OF ok le(1)]
  define rb' m' where "rb' = fst (snd (rt_ringbuffer_put ptr len (rb, m)))" and "m' = snd (snd (rt_ringbuffer_put ptr len (rb, m)))"
  have "rt_ringbuffer_put ptr len (rb, m) = (word_of_nat n, rb', m')"
    using s(2) w by (auto simp: rb'_def m'_def rt_ringbuffer_put_def Let_def s_def l_def)
  moreover have p: "moved 0 (length (map ptr [0..<n])) rb rb'" "ring_put m (buffer_ptr rb) (rb_size rb) (wi rb) (map ptr [0..<n]) m'"
    using s(2) c mv ln unfolding rb'_def m'_def rt_ringbuffer_put_def prod.case Let_def s_def [symmetric] l_def [symmetric]
    by (cases "wi rb + unat l < rb_size rb"; simp)+
  moreover have "outside_kept rb m m'" using p(2) unfolding ring_put_def outside_kept_def by blast
  ultimately show ?thesis using moved_contents [OF ok p] le ln by auto
qed

lemma force_moved:
  assumes ok: "rb_ok rb" and m: "moved 0 n rb rb1" "n \<le> rb_size rb" "read_index rb1 = read_index rb" "read_mirror rb1 = read_mirror rb"
    and o: "rb_size rb < rb_len rb + n"
  shows "wi rb + n < rb_size rb \<Longrightarrow> moved (rb_len rb + n - rb_size rb) n rb (rb1\<lparr>read_index := write_index rb1\<rparr>)"
    "rb_size rb \<le> wi rb + n \<Longrightarrow> moved (rb_len rb + n - rb_size rb) n rb
       ((if write_index rb1 \<le> read_index rb1 then rb1\<lparr>read_mirror := NOT (read_mirror rb1)\<rparr> else rb1)\<lparr>read_index := write_index rb1\<rparr>)"
proof -
  let ?j = "rb_len rb + n - rb_size rb"
  have a: "ri rb < rb_size rb" "wi rb < rb_size rb"
    "if read_mirror rb = write_mirror rb then ri rb \<le> wi rb else wi rb \<le> ri rb" using ok unfolding rb_ok_def by blast+
  note m' = m(1) [unfolded moved_def]
  have le: "write_index rb1 \<le> read_index rb1 \<longleftrightarrow> wi rb1 \<le> ri rb" using m(3) by (simp add: word_le_nat_alt)
  show "moved ?j n rb (rb1\<lparr>read_index := write_index rb1\<rparr>)" if "wi rb + n < rb_size rb"
  proof -
    have "read_mirror rb \<noteq> write_mirror rb" "ri rb + ?j = wi rb + n" using that o a by (auto simp: rb_len_def split: if_splits)
    then show ?thesis using that m' m(4) unfolding moved_def by simp
  qed
  assume g: "rb_size rb \<le> wi rb + n"
  show "moved ?j n rb ((if write_index rb1 \<le> read_index rb1 then rb1\<lparr>read_mirror := NOT (read_mirror rb1)\<rparr> else rb1)\<lparr>read_index := write_index rb1\<rparr>)"
  proof (cases "read_mirror rb = write_mirror rb")
    case True
    then have "ri rb + ?j = wi rb + n - rb_size rb" "\<not> wi rb1 \<le> ri rb" "ri rb + ?j < rb_size rb"
      using g o a m' m(2) by (auto simp: rb_len_def)
    then show ?thesis using g m' m(4) unfolding moved_def le by simp
  next
    case False
    then have "ri rb + ?j = wi rb + n" "wi rb1 \<le> ri rb" using g o a m' m(2) by (auto simp: rb_len_def)
    then show ?thesis using g m' m(4) unfolding moved_def le by simp
  qed
qed

text \<open>What stays of \<open>xs\<close> in a buffer of \<open>n\<close> bytes: the last \<open>n\<close>.\<close>

definition last_bytes :: "nat \<Rightarrow> 'a list \<Rightarrow> 'a list" where
  "last_bytes n xs = drop (length xs - n) xs"

lemma last_bytes_append: "n \<le> length ys \<Longrightarrow> last_bytes n (xs @ ys) = last_bytes n ys"
  by (simp add: last_bytes_def)

lemma rb_contents_length [simp]: "length (rb_contents (rb, m)) = rb_len rb"
  by (simp add: rb_contents_def)

lemma force_write_effect:
  fixes len sp :: u16
  assumes ok: "rb_ok rb" and l: "unat len \<le> rb_size rb" and sp: "sp = ucast (rt_ringbuffer_space_len rb)"
  shows "moved (rb_len rb + unat len - rb_size rb) (unat len) rb (fst (force_write ptr len sp (rb, m)))"
    "ring_put m (buffer_ptr rb) (rb_size rb) (wi rb) (map ptr [0..<unat len]) (snd (force_write ptr len sp (rb, m)))"
proof -
  note c = put_copies(1) [OF ok l] put_copies(2,3) [OF ok l, where ptr = ptr and m = m] and mv = write_moved [OF ok l]
  have s: "len > sp \<longleftrightarrow> rb_size rb < rb_len rb + unat len"
    using rb_lens(4) [OF ok] rb_okD(2) [OF ok] by (auto simp: sp word_less_nat_alt)
  show "ring_put m (buffer_ptr rb) (rb_size rb) (wi rb) (map ptr [0..<unat len]) (snd (force_write ptr len sp (rb, m)))"
    using c unfolding force_write_def by (cases "wi rb + unat len < rb_size rb") (simp_all add: Let_def)
  show "moved (rb_len rb + unat len - rb_size rb) (unat len) rb (fst (force_write ptr len sp (rb, m)))"
  proof (cases "rb_size rb < rb_len rb + unat len")
    case True
    show ?thesis
    proof (cases "wi rb + unat len < rb_size rb")
      case w: True
      show ?thesis using force_moved(1) [OF ok mv(1) [OF w] l _ _ True w] c(1) w s True unfolding force_write_def by (simp add: Let_def)
    next
      case w: False
      then have w': "rb_size rb \<le> wi rb + unat len" by simp
      define rb1 where "rb1 = rb\<lparr>write_mirror := NOT (write_mirror rb), write_index := word_of_int (uint len - (bsize rb - uint (write_index rb)))\<rparr>"
      have "read_index rb1 = read_index rb" "read_mirror rb1 = read_mirror rb" by (simp_all add: rb1_def)
      note fm = force_moved(2) [OF ok mv(2) [OF w', folded rb1_def] l this True w']
      show ?thesis unfolding force_write_def prod.case Let_def rb1_def [symmetric] using fm c(1) w s True by (simp split: if_splits)
    qed
  next
    case False
    then show ?thesis using mv c(1) s unfolding force_write_def by (cases "wi rb + unat len < rb_size rb") (simp_all add: Let_def)
  qed
qed

lemma rt_ringbuffer_put_force_effect:
  fixes len :: u16
  assumes ok: "rb_ok rb"
  shows "\<exists>rb' m'. rt_ringbuffer_put_force ptr len (rb, m) = (word_of_nat (min (unat len) (rb_size rb)), rb', m') \<and> rb_ok rb'
    \<and> rb_contents (rb', m') = last_bytes (rb_size rb) (rb_contents (rb, m) @ map ptr [0..<unat len])
    \<and> rb_size rb' = rb_size rb \<and> buffer_ptr rb' = buffer_ptr rb \<and> outside_kept rb m m'"
proof -
  define big where "big \<longleftrightarrow> rb_size rb < unat len"
  define p l where "p = (if big then (\<lambda>i. ptr (nat (uint len - bsize rb + int i))) else ptr)"
    and "l = (if big then word_of_int (bsize rb) else len)"
  define sp where "sp = (ucast (rt_ringbuffer_space_len rb) :: u16)"
  note d = rb_okD [OF ok] and b = rb_ok_bounds [OF ok]
  have "unat (word_of_int (bsize rb) :: u16) = rb_size rb" unfolding d(1) by simp
  then have l: "unat l = min (unat len) (rb_size rb)" by (simp add: l_def big_def)
  have u: "uint len = int (unat len)" by simp
  have g: "uint len > bsize rb \<longleftrightarrow> big" unfolding d(1) u big_def by linarith
  have lw: "ucast l = (word_of_nat (min (unat len) (rb_size rb)) :: u32)" by (simp add: l [symmetric])
  have le: "unat l \<le> rb_size rb" using l by simp
  have dt: "map p [0..<unat l] = last_bytes (rb_size rb) (map ptr [0..<unat len])"
  proof (cases big)
    case True
    have "nat (uint len - bsize rb + int i) = unat len - rb_size rb + i" for i
      using True unfolding d(1) u big_def by linarith
    then have "p = (\<lambda>i. ptr (unat len - rb_size rb + i))" using True by (simp add: p_def fun_eq_iff)
    then show ?thesis using True l by (intro nth_equalityI) (simp_all add: last_bytes_def big_def)
  qed (use l in \<open>simp add: p_def last_bytes_def big_def\<close>)
  obtain rb' m' where r: "force_write p l sp (rb, m) = (rb', m')" by fastforce
  note f = force_write_effect [OF ok le sp_def, where ptr = p and m = m, unfolded r fst_conv snd_conv]
  let ?d = "map p [0..<unat l]" and ?j = "rb_len rb + unat l - rb_size rb"
  have f': "moved ?j (length ?d) rb rb'" using f(1) by simp
  have "rt_ringbuffer_put_force ptr len (rb, m) = (word_of_nat (min (unat len) (rb_size rb)), rb', m')"
    unfolding lw [symmetric] r [symmetric] rt_ringbuffer_put_force_def prod.case Let_def sp_def [symmetric] g p_def l_def by simp
  moreover have "drop ?j (rb_contents (rb, m) @ ?d) = last_bytes (rb_size rb) (rb_contents (rb, m) @ ?d)"
    by (simp add: last_bytes_def)
  moreover have "\<dots> = last_bytes (rb_size rb) (rb_contents (rb, m) @ map ptr [0..<unat len])"
    unfolding dt by (cases big) (simp_all add: big_def last_bytes_def)
  moreover have "outside_kept rb m m'" using f(2) unfolding ring_put_def outside_kept_def by blast
  ultimately show ?thesis using moved_contents [OF ok f' f(2)] le d(2) by (intro exI [of _ rb'] exI [of _ m']) simp
qed

section \<open>Reading\<close>

lemma bytes_at_ring:
  assumes "s + k \<le> n" "n < 2 ^ 32"
  shows "bytes_at m (a + s) (int k) = ring m a n s k"
proof (rule nth_equalityI)
  have k: "unat (word_of_int (int k) :: u32) = k" using assms by (intro unat_of_int32) simp
  show "length (bytes_at m (a + s) (int k)) = length (ring m a n s k)" unfolding bytes_at_def k by simp
  fix i assume "i < length (bytes_at m (a + s) (int k))"
  then show "bytes_at m (a + s) (int k) ! i = ring m a n s k ! i" using assms unfolding bytes_at_def k by (simp add: nth_ring add.assoc)
qed

lemma read_moved:
  fixes len :: u16
  assumes ok: "rb_ok rb" and l: "unat len \<le> rb_size rb"
  defines "room \<equiv> bsize rb - uint (read_index rb)"
  shows "room > uint len \<longleftrightarrow> ri rb + unat len < rb_size rb"
    "ri rb + unat len < rb_size rb \<Longrightarrow> moved (unat len) 0 rb (rb\<lparr>read_index := read_index rb + ucast len\<rparr>)"
    "ri rb + unat len < rb_size rb \<Longrightarrow> bytes_at m (buffer_ptr rb + ri rb) (uint len) = ring m (buffer_ptr rb) (rb_size rb) (ri rb) (unat len)"
    "rb_size rb \<le> ri rb + unat len \<Longrightarrow> moved (unat len) 0 rb (rb\<lparr>read_mirror := NOT (read_mirror rb), read_index := word_of_int (uint len - room)\<rparr>)"
    "rb_size rb \<le> ri rb + unat len \<Longrightarrow> bytes_at m (buffer_ptr rb + ri rb) room @ bytes_at m (buffer_ptr rb) (uint len - room) =
       ring m (buffer_ptr rb) (rb_size rb) (ri rb) (unat len)"
proof -
  note b = rb_ok_bounds [OF ok]
  have r: "room = int (rb_size rb - ri rb)" "uint len = int (unat len)"
    unfolding room_def rb_okD(1) [OF ok] using b(2) by (simp_all add: of_nat_diff)
  have n: "rb_size rb < 2 ^ 32" using b(1) by simp
  have c: "unat (ucast len :: 15 word) = unat len" using l b(1) by (simp add: unsigned_ucast_eq take_bit_nat_eq_self)
  show "room > uint len \<longleftrightarrow> ri rb + unat len < rb_size rb" unfolding r by linarith
  show "moved (unat len) 0 rb (rb\<lparr>read_index := read_index rb + ucast len\<rparr>)" if "ri rb + unat len < rb_size rb"
  proof -
    have "unat (read_index rb + ucast len) = ri rb + unat len" using that b(1) c by (simp add: unat_add_no_wrap)
    then show ?thesis using that b by (simp add: moved_def)
  qed
  show "bytes_at m (buffer_ptr rb + ri rb) (uint len) = ring m (buffer_ptr rb) (rb_size rb) (ri rb) (unat len)"
    if "ri rb + unat len < rb_size rb" unfolding r(2) using that n by (intro bytes_at_ring) simp_all
  assume g: "rb_size rb \<le> ri rb + unat len"
  define k where "k = ri rb + unat len - rb_size rb"
  have lr: "uint len - room = int k" unfolding r k_def using b(2) g by linarith
  have "unat (word_of_int (uint len - room) :: 15 word) = k" using unat15 [of k] b(1,2) l unfolding lr k_def by simp
  then show "moved (unat len) 0 rb (rb\<lparr>read_mirror := NOT (read_mirror rb), read_index := word_of_int (uint len - room)\<rparr>)"
    using g b unfolding moved_def k_def by simp
  have f: "k \<le> rb_size rb" "unat len = rb_size rb - ri rb + k" "ri rb + (rb_size rb - ri rb) = rb_size rb" using g b(2) l by (simp_all add: k_def)
  have "ring m (buffer_ptr rb) (rb_size rb) (ri rb) (unat len) =
      ring m (buffer_ptr rb) (rb_size rb) (ri rb) (rb_size rb - ri rb) @ ring m (buffer_ptr rb) (rb_size rb) 0 k"
    unfolding f(2) ring_add f(3) using ring_mod [of m "buffer_ptr rb" "rb_size rb" "rb_size rb" k] by simp
  then show "bytes_at m (buffer_ptr rb + ri rb) room @ bytes_at m (buffer_ptr rb) (uint len - room) =
       ring m (buffer_ptr rb) (rb_size rb) (ri rb) (unat len)"
    using bytes_at_ring [of "ri rb" "rb_size rb - ri rb" "rb_size rb" m "buffer_ptr rb"] bytes_at_ring [of 0 k "rb_size rb" m "buffer_ptr rb"]
      n f(1,3) unfolding lr unfolding r(1) by simp
qed

lemma rt_ringbuffer_get_effect:
  fixes len :: u16
  assumes ok: "rb_ok rb"
  defines "n \<equiv> min (unat len) (rb_len rb)"
  shows "\<exists>rb'. rt_ringbuffer_get len (rb, m) = ((word_of_nat n, take n (rb_contents (rb, m))), rb', m) \<and> rb_ok rb'
    \<and> rb_contents (rb', m) = drop n (rb_contents (rb, m)) \<and> rb_size rb' = rb_size rb \<and> buffer_ptr rb' = buffer_ptr rb"
proof (cases "rb_len rb = 0")
  case True
  then have "rt_ringbuffer_data_len rb = 0" using rb_lens(1) [OF ok] by (simp add: word_unat_eq_iff)
  then show ?thesis using True ok by (simp add: rt_ringbuffer_get_def n_def)
next
  case False
  define s where "s = rt_ringbuffer_data_len rb"
  define l where "l = (if s < ucast len then ucast s else len)"
  have s: "unat s = rb_len rb" "s \<noteq> 0" "unat (ucast s :: u16) = rb_len rb" using rb_lens(1,5) [OF ok] False by (auto simp: s_def)
  have "unat (ucast len :: u32) = unat len"
  proof -
    have "unat len < 65536" using unsigned_less [of len] by simp
    then show ?thesis by (simp add: unsigned_ucast_eq take_bit_nat_eq_self)
  qed
  then have ln: "unat l = n" using s(1,3) by (auto simp: l_def n_def word_less_nat_alt)
  then have le: "unat l \<le> rb_size rb" "n \<le> rb_len rb" using rb_okD(2) [OF ok] by (auto simp: n_def)
  have w: "ucast l = (word_of_nat n :: u32)" by (simp add: ln [symmetric])
  note c = read_moved(1,2,4) [OF ok le(1)] read_moved(3,5) [OF ok le(1), where m = m]
  have t: "take n (rb_contents (rb, m)) = ring m (buffer_ptr rb) (rb_size rb) (ri rb) (unat l)"
    using le(2) ln by (simp add: rb_contents_def take_ring min_def)
  obtain v rb' m' where r: "rt_ringbuffer_get len (rb, m) = (v, rb', m')" by (metis prod.exhaust)
  have "v = (word_of_nat n, take n (rb_contents (rb, m)))" "m' = m" "moved n 0 rb rb'"
    using r s(2) c ln t w unfolding rt_ringbuffer_get_def prod.case Let_def s_def [symmetric] l_def [symmetric]
    by (cases "ri rb + unat l < rb_size rb"; simp)+
  then show ?thesis using moved_read [OF ok _ le(2)] r by auto
qed

text \<open>\<open>rt_ringbuffer_peak\<close> hands out the bytes up to the end of the buffer, in place.\<close>

lemma rt_ringbuffer_peak_effect:
  assumes ok: "rb_ok rb" and l: "rb_len rb \<noteq> 0"
  defines "n \<equiv> min (rb_len rb) (rb_size rb - ri rb)"
  shows "\<exists>rb'. rt_ringbuffer_peak rb = ((word_of_nat n, Some (buffer_ptr rb + ri rb)), rb') \<and> rb_ok rb'
    \<and> map (\<lambda>i. m (buffer_ptr rb + ri rb + i)) [0..<n] = take n (rb_contents (rb, m))
    \<and> rb_contents (rb', m) = drop n (rb_contents (rb, m)) \<and> 0 < n"
proof -
  define s where "s = rt_ringbuffer_data_len rb"
  define room where "room = (word_of_int (bsize rb - uint (read_index rb)) :: u32)"
  note b = rb_ok_bounds [OF ok] and d = rb_okD [OF ok]
  have s: "unat s = rb_len rb" "s \<noteq> 0" using rb_lens(1) [OF ok] l by (auto simp: s_def)
  have "bsize rb - uint (read_index rb) = int (rb_size rb - ri rb)" unfolding d(1) using b(2) by (simp add: of_nat_diff)
  then have r: "unat room = rb_size rb - ri rb" unfolding room_def using b(1) by (simp only:) (intro unat_of_int32, simp)
  have c: "unat (ucast s :: 15 word) = rb_len rb" if "rb_len rb < rb_size rb - ri rb"
    using that b(1) s(1) by (simp add: unsigned_ucast_eq take_bit_nat_eq_self)
  have t: "map (\<lambda>i. m (buffer_ptr rb + ri rb + i)) [0..<n] = take n (rb_contents (rb, m))"
    unfolding rb_contents_def prod.case take_ring using b(2) d(2) by (intro nth_equalityI) (auto simp: nth_ring n_def add.assoc)
  have n: "n \<le> rb_len rb" "0 < n" using l b(2) by (auto simp: n_def)
  show ?thesis
  proof (cases "rb_len rb < rb_size rb - ri rb")
    case True
    have "unat (read_index rb + ucast s) = ri rb + rb_len rb" using True b(1) c by (simp add: unat_add_no_wrap)
    then have m: "moved n 0 rb (rb\<lparr>read_index := read_index rb + ucast s\<rparr>)" using True b by (simp add: moved_def n_def)
    have "s = word_of_nat n" using True by (simp add: n_def s(1) [symmetric])
    moreover have "rt_ringbuffer_peak rb = ((s, Some (buffer_ptr rb + ri rb)), rb\<lparr>read_index := read_index rb + ucast s\<rparr>)"
      unfolding rt_ringbuffer_peak_def Let_def s_def [symmetric] room_def [symmetric] using s True r by (simp add: word_less_nat_alt)
    ultimately show ?thesis using moved_read [OF ok m n(1)] t n(2) by auto
  next
    case False
    have m: "moved n 0 rb (rb\<lparr>read_mirror := NOT (read_mirror rb), read_index := 0\<rparr>)" using False b by (simp add: moved_def n_def)
    have "unat room = unat (word_of_nat n :: u32)" using r False b(1) by (simp add: n_def unat_of_nat)
    then have "room = word_of_nat n" by (simp only: word_unat_eq_iff)
    moreover have "rt_ringbuffer_peak rb = ((room, Some (buffer_ptr rb + ri rb)), rb\<lparr>read_mirror := NOT (read_mirror rb), read_index := 0\<rparr>)"
      unfolding rt_ringbuffer_peak_def Let_def s_def [symmetric] room_def [symmetric] using s False r by (simp add: word_less_nat_alt)
    ultimately show ?thesis using moved_read [OF ok m n(1)] t n(2) by auto
  qed
qed

section \<open>Single bytes\<close>

lemma next_index:
  assumes ok: "rb_ok rb"
  shows "uint (write_index rb) = bsize rb - 1 \<longleftrightarrow> rb_size rb \<le> wi rb + 1" "uint (read_index rb) = bsize rb - 1 \<longleftrightarrow> rb_size rb \<le> ri rb + 1"
    "wi rb + 1 < rb_size rb \<Longrightarrow> unat (write_index rb + 1) = wi rb + 1" "ri rb + 1 < rb_size rb \<Longrightarrow> unat (read_index rb + 1) = ri rb + 1"
proof -
  note b = rb_ok_bounds [OF ok]
  have u: "uint (write_index rb) = int (wi rb)" "uint (read_index rb) = int (ri rb)" by simp_all
  show "uint (write_index rb) = bsize rb - 1 \<longleftrightarrow> rb_size rb \<le> wi rb + 1" "uint (read_index rb) = bsize rb - 1 \<longleftrightarrow> rb_size rb \<le> ri rb + 1"
    unfolding rb_okD(1) [OF ok] u using b by linarith+
  show "wi rb + 1 < rb_size rb \<Longrightarrow> unat (write_index rb + 1) = wi rb + 1" "ri rb + 1 < rb_size rb \<Longrightarrow> unat (read_index rb + 1) = ri rb + 1"
    using b(1) by (simp_all add: unat_add_no_wrap)
qed

lemma char_put:
  assumes ok: "rb_ok rb"
  shows "ring_put m (buffer_ptr rb) (rb_size rb) (wi rb) [ch] (m(buffer_ptr rb + wi rb := ch))"
    "wi rb + 1 < rb_size rb \<Longrightarrow> moved 0 1 rb (rb\<lparr>write_index := write_index rb + 1\<rparr>)"
    "rb_size rb \<le> wi rb + 1 \<Longrightarrow> moved 0 1 rb (rb\<lparr>write_mirror := NOT (write_mirror rb), write_index := 0\<rparr>)"
proof -
  note b = rb_ok_bounds [OF ok]
  have "memcpy (buffer_ptr rb + wi rb) (\<lambda>_. ch) (int 1) m = m(buffer_ptr rb + wi rb := ch)"
    by (auto simp: memcpy_def fun_eq_iff)
  then show "ring_put m (buffer_ptr rb) (rb_size rb) (wi rb) [ch] (m(buffer_ptr rb + wi rb := ch))"
    using memcpy_one [of "wi rb" 1 "rb_size rb" m "buffer_ptr rb" "\<lambda>_. ch"] b by simp
  show "wi rb + 1 < rb_size rb \<Longrightarrow> moved 0 1 rb (rb\<lparr>write_index := write_index rb + 1\<rparr>)"
    "rb_size rb \<le> wi rb + 1 \<Longrightarrow> moved 0 1 rb (rb\<lparr>write_mirror := NOT (write_mirror rb), write_index := 0\<rparr>)"
    using b next_index(3) [OF ok] by (simp_all add: moved_def)
qed

lemma rt_ringbuffer_putchar_effect:
  fixes m :: memory and ch :: u8
  assumes ok: "rb_ok rb"
  defines "r \<equiv> rt_ringbuffer_putchar ch (rb, m)"
  shows "rb_len rb = rb_size rb \<Longrightarrow> r = (0, rb, m)"
    "rb_len rb < rb_size rb \<Longrightarrow> fst r = 1 \<and> rb_ok (fst (snd r)) \<and> rb_contents (snd r) = rb_contents (rb, m) @ [ch] \<and> rb_size (fst (snd r)) = rb_size rb
       \<and> buffer_ptr (fst (snd r)) = buffer_ptr rb"
proof -
  have z: "rt_ringbuffer_space_len rb = 0 \<longleftrightarrow> rb_len rb = rb_size rb"
    using rb_lens(2) [OF ok] rb_okD(2) [OF ok] by (auto simp: word_unat_eq_iff)
  show "r = (0, rb, m)" if "rb_len rb = rb_size rb" using that z by (simp add: r_def rt_ringbuffer_putchar_def)
  assume l: "rb_len rb < rb_size rb"
  have p: "moved 0 (length [ch]) rb (fst (snd r))" "snd (snd r) = m(buffer_ptr rb + wi rb := ch)" "fst r = 1"
    using l z char_put(2,3) [OF ok] next_index(1) [OF ok] by (cases "wi rb + 1 < rb_size rb"; simp add: r_def rt_ringbuffer_putchar_def Let_def)+
  have "snd r = (fst (snd r), m(buffer_ptr rb + wi rb := ch))" using p(2) by (simp add: prod_eq_iff)
  then have "rb_contents (snd r) = rb_contents (fst (snd r), m(buffer_ptr rb + wi rb := ch))" by (rule arg_cong)
  then show "fst r = 1 \<and> rb_ok (fst (snd r)) \<and> rb_contents (snd r) = rb_contents (rb, m) @ [ch] \<and> rb_size (fst (snd r)) = rb_size rb
       \<and> buffer_ptr (fst (snd r)) = buffer_ptr rb"
    using moved_contents [OF ok p(1) char_put(1) [OF ok, of m ch]] l by (simp add: p)
qed

lemma rt_ringbuffer_putchar_force_effect:
  fixes m :: memory and ch :: u8
  assumes ok: "rb_ok rb"
  defines "r \<equiv> rt_ringbuffer_putchar_force ch (rb, m)"
  shows "fst r = 1" "rb_ok (fst (snd r))" "rb_contents (snd r) = last_bytes (rb_size rb) (rb_contents (rb, m) @ [ch])"
proof -
  let ?j = "rb_len rb + 1 - rb_size rb" and ?w = "rb\<lparr>write_index := write_index rb + 1\<rparr>"
  let ?f = "rb\<lparr>write_mirror := NOT (write_mirror rb), write_index := 0\<rparr>"
  note d = rb_okD [OF ok] and b = rb_ok_bounds [OF ok] and c = char_put(2,3) [OF ok]
  have st: "rt_ringbuffer_status rb = RT_RINGBUFFER_FULL \<longleftrightarrow> rb_size rb < rb_len rb + 1" using rb_lens(3) [OF ok] d(2) by auto
  have fm: "moved ?j 1 rb (rb1\<lparr>read_index := write_index rb1\<rparr>)" if "rb_size rb < rb_len rb + 1" "wi rb + 1 < rb_size rb" "rb1 = ?w" for rb1
    using force_moved(1) [OF ok c(1)] that b by simp
  have "moved ?j 1 rb (?f\<lparr>read_mirror := NOT (read_mirror rb), read_index := 0\<rparr>)" if "rb_size rb < rb_len rb + 1" "rb_size rb \<le> wi rb + 1"
    using force_moved(2) [OF ok c(2) [OF that(2)]] that b by (simp add: word_le_nat_alt)
  then have p: "moved ?j (length [ch]) rb (fst (snd r))"
    using c fm [OF _ _ refl] next_index(1) [OF ok] st by (cases "wi rb + 1 < rb_size rb"; cases "rb_size rb < rb_len rb + 1"; simp add: r_def rt_ringbuffer_putchar_force_def Let_def)
  have "snd r = (fst (snd r), m(buffer_ptr rb + wi rb := ch))" by (simp add: prod_eq_iff r_def rt_ringbuffer_putchar_force_def Let_def)
  then have q: "rb_contents (snd r) = rb_contents (fst (snd r), m(buffer_ptr rb + wi rb := ch))" by (rule arg_cong)
  show "fst r = 1" by (simp add: r_def rt_ringbuffer_putchar_force_def Let_def)
  show "rb_ok (fst (snd r))" "rb_contents (snd r) = last_bytes (rb_size rb) (rb_contents (rb, m) @ [ch])"
    using moved_contents [OF ok p char_put(1) [OF ok, of m ch]] q d(2,4) by (simp_all add: last_bytes_def)
qed

lemma rt_ringbuffer_getchar_effect:
  fixes m :: memory
  assumes ok: "rb_ok rb"
  defines "r \<equiv> rt_ringbuffer_getchar (rb, m)"
  shows "rb_len rb = 0 \<Longrightarrow> r = ((0, None), rb, m)"
    "rb_contents (rb, m) = c # cs \<Longrightarrow> fst r = (1, Some c) \<and> rb_ok (fst (snd r)) \<and> rb_contents (snd r) = cs \<and> rb_size (fst (snd r)) = rb_size rb
       \<and> buffer_ptr (fst (snd r)) = buffer_ptr rb"
proof -
  note b = rb_ok_bounds [OF ok]
  have z: "rt_ringbuffer_data_len rb = 0 \<longleftrightarrow> rb_len rb = 0" using rb_lens(1) [OF ok] by (auto simp: word_unat_eq_iff)
  show "r = ((0, None), rb, m)" if "rb_len rb = 0" using that z by (simp add: r_def rt_ringbuffer_getchar_def)
  assume cs: "rb_contents (rb, m) = c # cs"
  have l: "0 < rb_len rb" using arg_cong [OF cs, of length] by simp
  then have "c = m (buffer_ptr rb + ri rb)" using arg_cong [OF cs, of hd] b(2) by (simp add: rb_contents_def ring_def upt_conv_Cons)
  moreover have "moved 1 0 rb (fst (snd r))"
    using l z next_index(2,4) [OF ok] b by (cases "ri rb + 1 < rb_size rb") (simp_all add: r_def rt_ringbuffer_getchar_def Let_def moved_def)
  moreover have "snd (snd r) = m" "fst r = (1, Some (m (buffer_ptr rb + ri rb)))" using l z by (simp_all add: r_def rt_ringbuffer_getchar_def Let_def)
  ultimately show "fst r = (1, Some c) \<and> rb_ok (fst (snd r)) \<and> rb_contents (snd r) = cs \<and> rb_size (fst (snd r)) = rb_size rb
       \<and> buffer_ptr (fst (snd r)) = buffer_ptr rb"
    using moved_read(1,3,4) [OF ok, of 1 "fst (snd r)"] moved_read(2) [OF ok, of 1 "fst (snd r)" m] l cs
    by (metis Suc_leI One_nat_def drop_Suc_Cons drop_0 prod.collapse)
qed

section \<open>A queue of bytes\<close>

definition rb_getchar :: "rt_ringbuffer \<times> memory \<Rightarrow> u8 \<times> rt_ringbuffer \<times> memory" where
  "rb_getchar s = (the (snd (fst (rt_ringbuffer_getchar s))), snd (rt_ringbuffer_getchar s))"

interpretation rbq: fifo_queue "\<lambda>s. rb_ok (fst s)" rb_contents "\<lambda>s. rb_size (fst s)" "\<lambda>ch s. snd (rt_ringbuffer_putchar ch s)"
  rb_getchar "\<lambda>_ _. True" "(=)"
proof
  fix s :: "rt_ringbuffer \<times> memory" and v assume s: "rb_ok (fst s)"
  show "length (rb_contents s) \<le> rb_size (fst s)" using rb_okD(2) [OF s] by (cases s) simp
  show "rb_ok (fst (snd (rt_ringbuffer_putchar v s))) \<and> (\<exists>w. w = v \<and> rb_contents (snd (rt_ringbuffer_putchar v s)) = rb_contents s @ [w])
      \<and> rb_size (fst (snd (rt_ringbuffer_putchar v s))) = rb_size (fst s) \<and> (\<lambda>_. True) = (\<lambda>_. True)"
    if "length (rb_contents s) < rb_size (fst s)"
    using rt_ringbuffer_putchar_effect(2) [OF s, of v "snd s"] that by (cases s) simp
  show "fst (rb_getchar s) = w \<and> rb_ok (fst (snd (rb_getchar s))) \<and> rb_contents (snd (rb_getchar s)) = ws
      \<and> rb_size (fst (snd (rb_getchar s))) = rb_size (fst s) \<and> (\<lambda>_. True) = (\<lambda>_. True)"
    if "rb_contents s = w # ws" for w ws
    using rt_ringbuffer_getchar_effect(2) [OF s, of "snd s" w ws] that by (cases s) (simp add: rb_getchar_def)
qed

section \<open>Creation\<close>

lemma and_not3_16: "unat ((x :: u16) AND NOT 3) = unat x div 4 * 4"
proof -
  have u: "ucast (x AND NOT 3) = (ucast x :: u32) AND NOT 3"
    by (rule bit_word_eqI) (auto simp: bit_simps dest: bit_imp_le_length)
  have e: "unat (ucast y :: u32) = unat y" for y :: u16
  proof -
    have "unat y < 65536" using unsigned_less [of y] by simp
    then show ?thesis by (simp add: unsigned_ucast_eq take_bit_nat_eq_self)
  qed
  show ?thesis using and_not3 [of "ucast x"] unfolding u [symmetric] e .
qed

lemma rt_ringbuffer_init_effect:
  assumes "4 \<le> unat sz"
  shows "rb_size (rt_ringbuffer_init raw pool sz) = unat sz div 4 * 4" "buffer_ptr (rt_ringbuffer_init raw pool sz) = pool"
    "unat sz < 2 ^ 15 \<Longrightarrow> rb_ok (rt_ringbuffer_init raw pool sz)" "rb_contents (rt_ringbuffer_init raw pool sz, m) = []"
  using assms and_not3_16 [of sz] by (simp_all add: rt_ringbuffer_init_def rb_ok_def rb_contents_def rb_len_def ring_def div_greater_zero_iff less_mult_imp_div_less)

text \<open>Two blocks of the heap, taken in turn and given back.\<close>

lemma rt_ringbuffer_create_cases:
  assumes h: "heap_ok h" "0 < heap_sem h" "heap_stats h"
  obtains h' where "rt_ringbuffer_create sz raw h = Some (None, h')" "heap_ok h'" "0 < heap_sem h'" "heap_stats h'" "heap_live h' = heap_live h"
  | p pool h' e f where "rt_ringbuffer_create sz raw h = Some (Some (p, rt_ringbuffer_init raw pool (sz AND NOT 3)), h')" "heap_ok h'" "0 < heap_sem h'" "heap_stats h'"
      "heap_live h' = insert (pool, f) (insert (p, e) (heap_live h))" "(p, e) \<notin> heap_live h" "(pool, f) \<notin> insert (p, e) (heap_live h)"
      "p + 12 \<le> e" "pool + unat (sz AND NOT 3) \<le> f"
proof -
  define z where "z = sz AND NOT 3"
  have zz: "sz AND NOT (4 - 1) = z" by (simp add: z_def)
  have lz: "unat z < 65536" using unsigned_less [of z] by simp
  then have uz: "unat (ucast z :: u32) = unat z" by (simp add: unsigned_ucast_eq take_bit_nat_eq_self)
  have v: "unat (ucast z :: u32) \<le> 2 ^ 32 - 4" unfolding uz using lz by simp
  obtain r h1 where r: "rt_malloc 12 h = Some (r, h1)" "heap_ok h1 \<and> 0 < heap_sem h1 \<and> heap_stats h1" and
    l: "case r of None \<Rightarrow> heap_live h1 = heap_live h | Some p \<Rightarrow> \<exists>e. (p, e) \<notin> heap_live h \<and> heap_live h1 = insert (p, e) (heap_live h) \<and> p + unat (12 :: u32) \<le> e"
    using small_mem.alloc [of h 12] h by auto
  show thesis
  proof (cases r)
    case None
    then show thesis using that(1) [of h1] r l unfolding rt_ringbuffer_create_def Let_def zz by simp
  next
    case (Some p)
    then obtain e where e: "(p, e) \<notin> heap_live h" "heap_live h1 = insert (p, e) (heap_live h)" "p + 12 \<le> e" using l by auto
    obtain q h2 where q: "rt_malloc (ucast z) h1 = Some (q, h2)" "heap_ok h2 \<and> 0 < heap_sem h2 \<and> heap_stats h2" and
      l2: "case q of None \<Rightarrow> heap_live h2 = heap_live h1
        | Some pool \<Rightarrow> \<exists>f. (pool, f) \<notin> heap_live h1 \<and> heap_live h2 = insert (pool, f) (heap_live h1) \<and> pool + unat z \<le> f"
      using small_mem.alloc [OF r(2) v, unfolded uz] by blast
    show thesis
    proof (cases q)
      case None
      have "(p, e) \<in> heap_live h2" using None l2 e(2) by simp
      from small_mem.release [OF q(2) this] obtain h3 where "rt_free (Some p) h2 = Some h3" "heap_ok h3 \<and> 0 < heap_sem h3 \<and> heap_stats h3"
        "heap_live h3 = heap_live h2 - {(p, e)}" by blast
      then show thesis using that(1) [of h3] r(1) q(1) Some None l2 e(1,2) unfolding rt_ringbuffer_create_def Let_def zz by simp
    next
      case pool: (Some pool)
      then obtain f where f: "(pool, f) \<notin> heap_live h1" "heap_live h2 = insert (pool, f) (heap_live h1)" "pool + unat z \<le> f"
        using l2 by auto
      then show thesis using that(2) [of p pool h2 f e] r(1) q e Some pool unfolding z_def [symmetric] unfolding rt_ringbuffer_create_def Let_def zz by simp
    qed
  qed
qed

section \<open>Properties\<close>

text \<open>An example: a buffer of 8 bytes at address 100.\<close>

definition rb_raw :: rt_ringbuffer where
  "rb_raw = \<lparr>buffer_ptr = 0, read_mirror = 0, read_index = 0, write_mirror = 0, write_index = 0, buffer_size = 0\<rparr>"

lemma rb_example: "rb_ok (rt_ringbuffer_init rb_raw 100 8)"
  using rt_ringbuffer_init_effect(3) [of 8] by simp

text \<open>
  C14. \<open>rt_ringbuffer_put\<close> and \<open>rt_ringbuffer_get\<close> implement a bounded queue of bytes: a put appends
  as many bytes as there is room for and says how many, a get removes bytes from the front in order,
  across the end of the buffer; no byte outside the buffer is written.
\<close>

theorem rt_ringbuffer_refines:
  fixes len :: u16
  assumes "rb_ok rb"
  shows "(\<exists>rb' m'. let n = min (unat len) (rb_size rb - length (rb_contents (rb, m)))
      in rt_ringbuffer_put ptr len (rb, m) = (word_of_nat n, rb', m') \<and> rb_ok rb' \<and> rb_contents (rb', m') = rb_contents (rb, m) @ map ptr [0..<n]
        \<and> outside_kept rb m m')
    \<and> (\<exists>rb'. let n = min (unat len) (length (rb_contents (rb, m)))
      in rt_ringbuffer_get len (rb, m) = ((word_of_nat n, take n (rb_contents (rb, m))), rb', m) \<and> rb_ok rb'
        \<and> rb_contents (rb', m) = drop n (rb_contents (rb, m)))"
  using rt_ringbuffer_put_effect [OF assms, of ptr len m] rt_ringbuffer_get_effect [OF assms, of len m] by (auto simp: Let_def)

theorem rt_ringbuffer_refines_witness:
  "\<exists>rb' m'. rt_ringbuffer_put (\<lambda>i. word_of_nat i) 5 (rt_ringbuffer_init rb_raw 100 8, \<lambda>_. 0) = (5, rb', m')
     \<and> rb_contents (rb', m') = [0, 1, 2, 3, 4]"
proof -
  have "map word_of_nat [0..<5] = [0, 1, 2, 3, 4 :: u8]" by (simp add: upt_rec)
  moreover have "rb_size (rt_ringbuffer_init rb_raw 100 8) = 8" "rb_contents (rt_ringbuffer_init rb_raw 100 8, \<lambda>_. 0) = []"
    using rt_ringbuffer_init_effect(1,4) [of 8] by simp_all
  ultimately show ?thesis
    using rt_ringbuffer_refines [OF rb_example, where len = 5 and ptr = word_of_nat and m = "\<lambda>_. 0", THEN conjunct1] by simp blast
qed

text \<open>
  A forced put never fails: whatever its length, the buffer then holds the last \<open>buffer_size\<close>
  bytes of the old contents followed by the new bytes; \<open>rt_ringbuffer_putchar_force\<close> likewise.
\<close>

theorem rt_ringbuffer_put_force_keeps_last:
  fixes len :: u16
  assumes "rb_ok rb"
  shows "(\<exists>rb' m'. rt_ringbuffer_put_force ptr len (rb, m) = (word_of_nat (min (unat len) (rb_size rb)), rb', m') \<and> rb_ok rb'
      \<and> rb_contents (rb', m') = last_bytes (rb_size rb) (rb_contents (rb, m) @ map ptr [0..<unat len]) \<and> outside_kept rb m m')
    \<and> rb_ok (fst (snd (rt_ringbuffer_putchar_force ch (rb, m))))
      \<and> rb_contents (snd (rt_ringbuffer_putchar_force ch (rb, m))) = last_bytes (rb_size rb) (rb_contents (rb, m) @ [ch])"
  using rt_ringbuffer_put_force_effect [OF assms, of ptr len m] rt_ringbuffer_putchar_force_effect [OF assms, of ch m] by auto

theorem rt_ringbuffer_put_force_keeps_last_witness:
  "\<exists>rb' m'. rt_ringbuffer_put_force (\<lambda>i. word_of_nat i) 10 (rt_ringbuffer_init rb_raw 100 8, \<lambda>_. 0) = (8, rb', m')
     \<and> rb_contents (rb', m') = [2, 3, 4, 5, 6, 7, 8, 9]"
proof -
  have "map word_of_nat [0..<10] = [0, 1, 2, 3, 4, 5, 6, 7, 8, 9 :: u8]" by (simp add: upt_rec)
  moreover have "rb_size (rt_ringbuffer_init rb_raw 100 8) = 8" "rb_contents (rt_ringbuffer_init rb_raw 100 8, \<lambda>_. 0) = []"
    using rt_ringbuffer_init_effect(1,4) [of 8] by simp_all
  ultimately show ?thesis
    using rt_ringbuffer_put_force_keeps_last [OF rb_example, where len = 10 and ptr = word_of_nat and m = "\<lambda>_. 0", THEN conjunct1]
    by (simp add: last_bytes_def) blast
qed

text \<open>
  Bytes written one by one into a fresh ring buffer are read back in the order they were written.
\<close>

theorem rt_ringbuffer_char_fifo:
  assumes "4 \<le> unat sz" "unat sz < 2 ^ 15" "length cs \<le> unat sz div 4 * 4"
  shows "fst (get_many rb_getchar (length cs) (fold (\<lambda>ch s. snd (rt_ringbuffer_putchar ch s)) cs (rt_ringbuffer_init raw pool sz, m))) = cs"
proof -
  note i = rt_ringbuffer_init_effect [OF assms(1)]
  have s: "rb_ok (fst (rt_ringbuffer_init raw pool sz, m))" "length cs \<le> rb_size (fst (rt_ringbuffer_init raw pool sz, m))"
    using i(1,3) assms(2,3) by simp_all
  show ?thesis using rbq.first_in_first_out [OF s(1) i(4) _ s(2)] by (simp add: list.rel_eq)
qed

theorem rt_ringbuffer_char_fifo_witness:
  "fst (get_many rb_getchar (length [7 :: u8, 8, 9]) (fold (\<lambda>ch s. snd (rt_ringbuffer_putchar ch s)) [7, 8, 9] (rt_ringbuffer_init rb_raw 100 8, \<lambda>_. 0))) = [7, 8, 9]"
  by (rule rt_ringbuffer_char_fifo) simp_all

text \<open>
  \<open>rt_ringbuffer_create\<close> returns; a buffer it creates has its control block and its bytes in
  blocks of the heap that overlap nothing in use, starts empty, and \<open>rt_ringbuffer_destroy\<close> gives
  exactly these blocks back; when it fails, nothing is lost.
\<close>

theorem rt_ringbuffer_create_destroy:
  assumes "heap_ok h" "0 < heap_sem h" "heap_stats h" "unat sz < 2 ^ 15"
  shows "\<exists>r h'. rt_ringbuffer_create sz raw h = Some (r, h') \<and> heap_ok h'
    \<and> (case r of
         None \<Rightarrow> heap_live h' = heap_live h
       | Some (p, rb) \<Rightarrow> rb_size rb = unat sz div 4 * 4 \<and> (4 \<le> unat sz \<longrightarrow> rb_ok rb \<and> rb_contents (rb, m) = [])
           \<and> (\<exists>e f. heap_live h' = heap_live h \<union> {(p, e), (buffer_ptr rb, f)} \<and> p + 12 \<le> e \<and> buffer_ptr rb + rb_size rb \<le> f \<and> apart (heap_live h'))
           \<and> (\<exists>h2. rt_ringbuffer_destroy (p, rb) h' = Some h2 \<and> heap_ok h2 \<and> heap_live h2 = heap_live h))"
  using assms(1-3)
proof (cases rule: rt_ringbuffer_create_cases [where sz = sz and raw = raw])
  case (1 h')
  then show ?thesis by simp
next
  case (2 p pool h' e f)
  let ?rb = "rt_ringbuffer_init raw pool (sz AND NOT 3)"
  have z: "unat (sz AND NOT 3) = unat sz div 4 * 4" "unat (sz AND NOT 3) < 2 ^ 15" using and_not3_16 [of sz] assms(4) by simp_all
  have rb: "rb_size ?rb = unat sz div 4 * 4" "buffer_ptr ?rb = pool" using and_not3_16 [of "sz AND NOT 3"] z(1) by (simp_all add: rt_ringbuffer_init_def)
  have fresh: "rb_ok ?rb \<and> rb_contents (?rb, m) = []" if "4 \<le> unat sz"
  proof -
    have "4 \<le> unat (sz AND NOT 3)" unfolding z(1) using that by presburger
    then show ?thesis using rt_ringbuffer_init_effect(3,4) z(2) by blast
  qed
  have h: "heap_ok h' \<and> 0 < heap_sem h' \<and> heap_stats h'" using 2 by simp
  have "(pool, f) \<in> heap_live h'" using 2(5) by simp
  from small_mem.release [OF h this] obtain h1 where h1: "rt_free (Some pool) h' = Some h1" "heap_ok h1 \<and> 0 < heap_sem h1 \<and> heap_stats h1"
    "heap_live h1 = heap_live h' - {(pool, f)}" by blast
  have "(p, e) \<in> heap_live h1" using h1(3) 2(5,7) by auto
  from small_mem.release [OF h1(2) this] obtain h2 where h2: "rt_free (Some p) h1 = Some h2" "heap_ok h2" "heap_live h2 = heap_live h1 - {(p, e)}" by blast
  have "heap_live h2 = heap_live h" using h2(3) h1(3) 2(5-7) by auto
  moreover have "rt_ringbuffer_destroy (p, ?rb) h' = Some h2" using h1(1) h2(1) rb(2) by (simp add: rt_ringbuffer_destroy_def)
  moreover have "\<exists>e f. heap_live h' = heap_live h \<union> {(p, e), (buffer_ptr ?rb, f)} \<and> p + 12 \<le> e \<and> buffer_ptr ?rb + rb_size ?rb \<le> f \<and> apart (heap_live h')"
    using 2(2,5,8,9) rb z(1) heap_live_apart [of h'] by (intro exI [of _ e] exI [of _ f]) auto
  ultimately have "rb_size ?rb = unat sz div 4 * 4 \<and> (4 \<le> unat sz \<longrightarrow> rb_ok ?rb \<and> rb_contents (?rb, m) = [])
      \<and> (\<exists>e f. heap_live h' = heap_live h \<union> {(p, e), (buffer_ptr ?rb, f)} \<and> p + 12 \<le> e \<and> buffer_ptr ?rb + rb_size ?rb \<le> f \<and> apart (heap_live h'))
      \<and> (\<exists>h2. rt_ringbuffer_destroy (p, ?rb) h' = Some h2 \<and> heap_ok h2 \<and> heap_live h2 = heap_live h)"
    using rb(1) fresh h2(2) by blast
  then show ?thesis using 2(1,2) by (intro exI [of _ "Some (p, ?rb)"] exI [of _ h'], unfold option.case prod.case) blast
qed

theorem rt_ringbuffer_create_destroy_witness:
  "\<exists>r h'. rt_ringbuffer_create 64 rb_raw cold_heap = Some (r, h') \<and> heap_ok h'"
  using rt_ringbuffer_create_destroy [where h = cold_heap and sz = 64 and raw = rb_raw and m = "\<lambda>_. 0"] cold_heap by auto

lemma u16_negative:
  fixes z :: u16
  assumes "32768 \<le> unat z"
  shows "sint z = - int (65536 - unat z)" "0 < 65536 - unat z" "unat z + (65536 - unat z) = 65536"
proof -
  have lt: "unat z < 65536" using unsigned_less [of z] by simp
  define b where "b = 65536 - unat z"
  have "- int b = int (unat z) - 65536" unfolding b_def using lt by linarith
  then have "z = word_of_int (- int b)" by simp
  then have "sint z = signed_take_bit 15 (- int b)" by (simp only: sint_sbintrunc') simp
  also have "\<dots> = - int b"
  proof (rule signed_take_bit_int_eq_self)
    have p: "(2 :: int) ^ 15 = 32768" by simp
    show "- (2 ^ 15) \<le> - int b" "- int b < 2 ^ 15" unfolding p b_def using lt assms by linarith+
  qed
  finally show "sint z = - int (65536 - unat z)" unfolding b_def .
  show "0 < 65536 - unat z" "unat z + (65536 - unat z) = 65536" using lt by linarith+
qed

lemma unat_negative32:
  assumes "0 < b" "b \<le> 65536"
  shows "unat (word_of_int (- int b) :: u32) = 2 ^ 32 - b"
proof -
  from assms have "int (2 ^ 32 - b) = 4294967296 - int b" by simp
  then have e: "word_of_int (int (2 ^ 32 - b)) = (word_of_int (- int b) :: u32)" by simp
  show ?thesis unfolding e [symmetric] by (rule unat_of_int32) (use assms in simp)
qed

text \<open>The put on a buffer of negative size \<open>- b\<close>: the first copy runs over \<open>2 ^ 32 - b\<close> bytes.\<close>

lemma put_negative_copies:
  fixes len sz pool raw
  defines "rb \<equiv> rt_ringbuffer_init raw pool sz"
  assumes b: "bsize rb = - int b" "0 < b" "unat (buffer_size rb) + b = 65536" and len: "len \<noteq> 0"
    and a: "pool + 65536 \<le> a" "a < pool + (2 ^ 32 - 65536)"
  shows "snd (snd (rt_ringbuffer_put ptr len (rb, m))) a = ptr (a - pool)"
proof -
  define z where "z = buffer_size rb"
  define l where "l = (if z < len then z else len)"
  have "unat l \<le> unat z" by (auto simp: l_def word_less_nat_alt)
  then have lt: "unat l + b \<le> 65536" using b(3) unfolding z_def by linarith
  have b3: "b \<le> 65536" using lt by linarith
  have f: "write_index rb = 0" "read_index rb = 0" "write_mirror rb = 0" "read_mirror rb = 0" "buffer_ptr rb = pool"
    by (simp_all add: rb_def rt_ringbuffer_init_def)
  have "ucast (word_of_int (sint z) :: u32) = z" by (rule bit_word_eqI) (auto simp: bit_simps)
  then have sp: "(ucast (rt_ringbuffer_space_len rb) :: u16) = z"
    by (simp add: rt_ringbuffer_space_len_def rt_ringbuffer_data_len_def rt_ringbuffer_status_def f bsize_def z_def)
  have z0: "z \<noteq> 0" using b(1,2) by (auto simp: z_def bsize_def)
  have n2: "unat (word_of_int (uint l - (- int b)) :: u32) = unat l + b"
  proof -
    have e: "uint l - (- int b) = int (unat l + b)" by simp
    show ?thesis unfolding e by (rule unat_of_int32) (use lt in simp)
  qed
  let ?m1 = "memcpy pool ptr (- int b) m"
  have "uint l = int (unat l)" by simp
  then have "\<not> uint l < - int b" by linarith
  then have pt: "snd (snd (rt_ringbuffer_put ptr len (rb, m))) = memcpy pool (\<lambda>i. ptr (nat (- int b + int i))) (uint l - (- int b)) ?m1"
    unfolding rt_ringbuffer_put_def prod.case Let_def sp b(1) f l_def [symmetric] using z0 by simp
  have "\<not> a < pool + (unat l + b)" using a(1) lt by linarith
  then have "snd (snd (rt_ringbuffer_put ptr len (rb, m))) a = ?m1 a" unfolding pt by (subst memcpy_def, unfold n2) simp
  also have "\<dots> = ptr (a - pool)"
  proof -
    have "pool \<le> a" "a < pool + (2 ^ 32 - b)" using a b3 by simp_all
    then show ?thesis unfolding memcpy_def unat_negative32 [OF b(2) b3] by (simp only: simp_thms if_True)
  qed
  finally show ?thesis .
qed

text \<open>
  \<open>rt_ringbuffer_create\<close> takes an unsigned size and \<open>rt_ringbuffer_init\<close> a signed one: for 32768
  bytes and more the new buffer has a negative size (the assertion that would catch it is not
  compiled in), and the first put copies nearly the whole address space, far beyond the pool.
\<close>

theorem rt_ringbuffer_create_negative:
  fixes len :: u16
  assumes "2 ^ 15 \<le> unat sz" "len \<noteq> 0" "pool + 65536 \<le> a" "a < pool + (2 ^ 32 - 65536)"
  shows "bsize (rt_ringbuffer_init raw pool (sz AND NOT (4 - 1))) < 0
    \<and> snd (snd (rt_ringbuffer_put ptr len (rt_ringbuffer_init raw pool (sz AND NOT (4 - 1)), m))) a = ptr (a - pool)"
proof -
  define z where "z = buffer_size (rt_ringbuffer_init raw pool (sz AND NOT (4 - 1)))"
  have "unat z = unat sz div 4 * 4"
    using and_not3_16 [of "sz AND NOT 3"] and_not3_16 [of sz] by (simp add: z_def rt_ringbuffer_init_def)
  moreover have "32768 \<le> unat sz" using assms(1) by simp
  ultimately have "32768 \<le> unat z" by presburger
  note b = u16_negative [OF this, unfolded z_def, folded bsize_def]
  have "bsize (rt_ringbuffer_init raw pool (sz AND NOT (4 - 1))) < 0" unfolding b(1) using b(2) by linarith
  then show ?thesis using put_negative_copies [OF b assms(2-4)] by blast
qed

theorem rt_ringbuffer_create_negative_witness:
  "snd (snd (rt_ringbuffer_put (\<lambda>_. 1) 1 (rt_ringbuffer_init rb_raw 4096 (40000 AND NOT (4 - 1)), \<lambda>_. 0))) 1000000 = 1"
  by (rule rt_ringbuffer_create_negative [THEN conjunct2]) simp_all

end
