(* ===== verification/Ringblk.thy ===== *)
theory Ringblk
  imports Mem Rt_Slist
begin

text \<open>
  The ring of blocks of \<^verbatim>\<open>rt-thread/components/drivers/src/ringblk_buf.c\<close>: blocks of varying size are
  cut from a buffer in ring order, filled, put, taken by a reader and freed. A block descriptor is
  named by its index in \<open>blk_set\<close>; \<open>blk_list\<close> is the list of the blocks in use in the order they were
  allocated, which \<open>Rt_Slist\<close> refines to the \<open>next\<close> pointers. \<open>rt_size_t\<close> is 32 bits wide, the size
  field of a descriptor 24.
\<close>

section \<open>State and operations\<close>

datatype rbb_status = RT_RBB_BLK_UNUSED | RT_RBB_BLK_INITED | RT_RBB_BLK_PUT | RT_RBB_BLK_GET

record rt_rbb_blk =
  blk_status :: rbb_status
  blk_size :: nat
  blk_buf :: nat

record rt_rbb =
  rbb_buf :: nat
  rbb_buf_size :: nat
  blk_set :: "nat \<Rightarrow> rt_rbb_blk"
  blk_max_num :: nat
  blk_list :: "nat list"

definition upd_blk :: "nat \<Rightarrow> (rt_rbb_blk \<Rightarrow> rt_rbb_blk) \<Rightarrow> rt_rbb \<Rightarrow> rt_rbb" where
  "upd_blk i f r = r\<lparr>blk_set := (blk_set r)(i := f (blk_set r i))\<rparr>"

definition rt_rbb_init :: "nat \<Rightarrow> u32 \<Rightarrow> (nat \<Rightarrow> rt_rbb_blk) \<Rightarrow> u32 \<Rightarrow> rt_rbb" where
  "rt_rbb_init buf sz block_set n =
     \<lparr>rbb_buf = buf, rbb_buf_size = unat sz,
      blk_set = (\<lambda>i. if i < unat n then (block_set i)\<lparr>blk_status := RT_RBB_BLK_UNUSED\<rparr> else block_set i),
      blk_max_num = unat n, blk_list = []\<rparr>"

text \<open>Creation takes the control block, the buffer and the descriptors from the heap; what they held
  is \<open>raw\<close>.\<close>

definition rt_rbb_create :: "u32 \<Rightarrow> u32 \<Rightarrow> (nat \<Rightarrow> rt_rbb_blk) \<Rightarrow> small_heap \<Rightarrow> ((nat \<times> nat \<times> rt_rbb) option \<times> small_heap) option" where
  "rt_rbb_create sz n raw h =
     (case rt_malloc 20 h of
        None \<Rightarrow> None
      | Some (None, h) \<Rightarrow> Some (None, h)
      | Some (Some rbb, h) \<Rightarrow>
          (case rt_malloc sz h of
             None \<Rightarrow> None
           | Some (None, h) \<Rightarrow> map_option (\<lambda>h. (None, h)) (rt_free (Some rbb) h)
           | Some (Some buf, h) \<Rightarrow>
               (case rt_malloc (12 * n) h of
                  None \<Rightarrow> None
                | Some (None, h) \<Rightarrow>
                    map_option (\<lambda>h. (None, h)) (Option.bind (rt_free (Some buf) h) (rt_free (Some rbb)))
                | Some (Some set1, h) \<Rightarrow> Some (Some (rbb, set1, rt_rbb_init buf sz raw n), h))))"

definition rt_rbb_destroy :: "nat \<times> nat \<times> rt_rbb \<Rightarrow> small_heap \<Rightarrow> small_heap option" where
  "rt_rbb_destroy = (\<lambda>(rbb, set1, r) h.
     Option.bind (rt_free (Some (rbb_buf r)) h) (\<lambda>h. Option.bind (rt_free (Some set1) h) (rt_free (Some rbb))))"

definition find_empty_blk_in_set :: "rt_rbb \<Rightarrow> nat option" where
  "find_empty_blk_in_set r = find (\<lambda>i. blk_status (blk_set r i) = RT_RBB_BLK_UNUSED) [0..<blk_max_num r]"

text \<open>A block is entered in the list, initialised at an address with a size.\<close>

definition enter_blk :: "nat \<Rightarrow> nat \<Rightarrow> u32 \<Rightarrow> rt_rbb \<Rightarrow> rt_rbb" where
  "enter_blk i a sz r =
     (let r = r\<lparr>blk_list := blk_list r @ [i]\<rparr>;
          r = upd_blk i (\<lambda>b. b\<lparr>blk_status := RT_RBB_BLK_INITED\<rparr>) r;
          r = upd_blk i (\<lambda>b. b\<lparr>blk_buf := a\<rparr>) r
      in upd_blk i (\<lambda>b. b\<lparr>blk_size := unat sz mod 2 ^ 24\<rparr>) r)"

definition blk_end :: "rt_rbb \<Rightarrow> nat \<Rightarrow> nat" where
  "blk_end r i = blk_buf (blk_set r i) + blk_size (blk_set r i)"

definition rt_rbb_blk_alloc :: "u32 \<Rightarrow> rt_rbb \<Rightarrow> nat option \<times> rt_rbb" where
  "rt_rbb_blk_alloc sz r =
     (case find_empty_blk_in_set r of
        None \<Rightarrow> (None, r)
      | Some new \<Rightarrow>
          if length (blk_list r) < blk_max_num r then
            if length (blk_list r) > 0 then
              let head = hd (blk_list r); tail = last (blk_list r)
              in if blk_buf (blk_set r head) \<le> blk_buf (blk_set r tail) then
                   let empty1 = sub32 (rbb_buf r + rbb_buf_size r) (blk_end r tail);
                       empty2 = sub32 (blk_buf (blk_set r head)) (rbb_buf r)
                   in if empty1 \<ge> unat sz then (Some new, enter_blk new (blk_end r tail) sz r)
                      else if empty2 \<ge> unat sz then (Some new, enter_blk new (rbb_buf r) sz r)
                      else (None, r)
                 else
                   let empty1 = sub32 (blk_buf (blk_set r head)) (blk_end r tail)
                   in if empty1 \<ge> unat sz then (Some new, enter_blk new (blk_end r tail) sz r)
                      else (None, r)
            else (Some new, enter_blk new (rbb_buf r) sz r)
          else (None, r))"

definition rt_rbb_blk_put :: "nat \<Rightarrow> rt_rbb \<Rightarrow> rt_rbb" where
  "rt_rbb_blk_put i r = upd_blk i (\<lambda>b. b\<lparr>blk_status := RT_RBB_BLK_PUT\<rparr>) r"

primrec blk_get_loop :: "nat list \<Rightarrow> rt_rbb \<Rightarrow> nat option \<times> rt_rbb" where
  "blk_get_loop [] r = (None, r)"
| "blk_get_loop (i # is) r =
     (if blk_status (blk_set r i) = RT_RBB_BLK_PUT
      then (Some i, upd_blk i (\<lambda>b. b\<lparr>blk_status := RT_RBB_BLK_GET\<rparr>) r)
      else blk_get_loop is r)"

definition rt_rbb_blk_get :: "rt_rbb \<Rightarrow> nat option \<times> rt_rbb" where
  "rt_rbb_blk_get r = (if blk_list r = [] then (None, r) else blk_get_loop (blk_list r) r)"

definition rt_rbb_blk_size :: "nat \<Rightarrow> rt_rbb \<Rightarrow> nat" where
  "rt_rbb_blk_size i r = blk_size (blk_set r i)"

definition rt_rbb_blk_buf :: "nat \<Rightarrow> rt_rbb \<Rightarrow> nat" where
  "rt_rbb_blk_buf i r = blk_buf (blk_set r i)"

definition rt_rbb_blk_free :: "nat \<Rightarrow> rt_rbb \<Rightarrow> rt_rbb" where
  "rt_rbb_blk_free i r =
     (let r = r\<lparr>blk_list := remove1 i (blk_list r)\<rparr>
      in upd_blk i (\<lambda>b. b\<lparr>blk_status := RT_RBB_BLK_UNUSED\<rparr>) r)"

text \<open>Taking a run of blocks: the loop walks over the list while it removes blocks from it, with the
  last block taken and the queue filled so far.\<close>

record rt_rbb_blk_queue =
  blocks :: nat
  blk_num :: nat

primrec queue_get_loop :: "u32 \<Rightarrow> nat list \<Rightarrow> nat option \<Rightarrow> u32 \<Rightarrow> rt_rbb_blk_queue \<Rightarrow> rt_rbb \<Rightarrow> u32 \<times> rt_rbb_blk_queue \<times> rt_rbb" where
  "queue_get_loop len [] last_block tot q r = (tot, q, r)"
| "queue_get_loop len (i # is) last_block tot q r =
     (let stop = (case last_block of
            None \<Rightarrow> False
          | Some l \<Rightarrow> blk_status (blk_set r i) \<noteq> RT_RBB_BLK_PUT \<or> blk_buf (blk_set r l) > blk_buf (blk_set r i)
              \<or> tot + word_of_nat (blk_size (blk_set r i)) > len);
          skip = (last_block = None \<and> blk_status (blk_set r i) \<noteq> RT_RBB_BLK_PUT)
      in if skip then queue_get_loop len is None tot q r
         else if stop then (tot, q, r)
         else
           let q = (if last_block = None then q\<lparr>blocks := i, blk_num := 0\<rparr> else q);
               r = r\<lparr>blk_list := remove1 i (blk_list r)\<rparr>;
               tot = tot + word_of_nat (blk_size (blk_set r i));
               r = upd_blk i (\<lambda>b. b\<lparr>blk_status := RT_RBB_BLK_GET\<rparr>) r
           in queue_get_loop len is (Some i) tot (q\<lparr>blk_num := blk_num q + 1\<rparr>) r)"

definition rt_rbb_blk_queue_get :: "u32 \<Rightarrow> rt_rbb_blk_queue \<Rightarrow> rt_rbb \<Rightarrow> u32 \<times> rt_rbb_blk_queue \<times> rt_rbb" where
  "rt_rbb_blk_queue_get len q r =
     (if blk_list r = [] then (0, q, r) else queue_get_loop len (blk_list r) None 0 q r)"

definition rt_rbb_blk_queue_len :: "rt_rbb_blk_queue \<Rightarrow> rt_rbb \<Rightarrow> u32" where
  "rt_rbb_blk_queue_len q r =
     fold (\<lambda>i tot. tot + word_of_nat (blk_size (blk_set r (blocks q + i)))) [0..<blk_num q] 0"

definition rt_rbb_blk_queue_buf :: "rt_rbb_blk_queue \<Rightarrow> rt_rbb \<Rightarrow> nat" where
  "rt_rbb_blk_queue_buf q r = blk_buf (blk_set r (blocks q))"

definition rt_rbb_blk_queue_free :: "rt_rbb_blk_queue \<Rightarrow> rt_rbb \<Rightarrow> rt_rbb" where
  "rt_rbb_blk_queue_free q r = fold (\<lambda>i. rt_rbb_blk_free (blocks q + i)) [0..<blk_num q] r"

primrec next_queue_len_loop :: "nat list \<Rightarrow> nat option \<Rightarrow> u32 \<Rightarrow> rt_rbb \<Rightarrow> u32" where
  "next_queue_len_loop [] last_block len r = len"
| "next_queue_len_loop (i # is) last_block len r =
     (case last_block of
        None \<Rightarrow>
          if blk_status (blk_set r i) \<noteq> RT_RBB_BLK_PUT then next_queue_len_loop is None len r
          else next_queue_len_loop is (Some i) (len + word_of_nat (blk_size (blk_set r i))) r
      | Some l \<Rightarrow>
          if blk_status (blk_set r i) \<noteq> RT_RBB_BLK_PUT \<or> blk_buf (blk_set r l) > blk_buf (blk_set r i) then len
          else next_queue_len_loop is (Some i) (len + word_of_nat (blk_size (blk_set r i))) r)"

definition rt_rbb_next_blk_queue_len :: "rt_rbb \<Rightarrow> u32" where
  "rt_rbb_next_blk_queue_len r = (if blk_list r = [] then 0 else next_queue_len_loop (blk_list r) None 0 r)"

definition rt_rbb_get_buf_size :: "rt_rbb \<Rightarrow> nat" where
  "rt_rbb_get_buf_size r = rbb_buf_size r"


section \<open>The layout of the ring\<close>

text \<open>Blocks laid out in order between two addresses.\<close>

primrec laid :: "(nat \<Rightarrow> rt_rbb_blk) \<Rightarrow> nat \<Rightarrow> nat list \<Rightarrow> nat \<Rightarrow> bool" where
  "laid f lo [] hi \<longleftrightarrow> lo \<le> hi"
| "laid f lo (i # is) hi \<longleftrightarrow> lo \<le> blk_buf (f i) \<and> 0 < blk_size (f i) \<and> laid f (blk_buf (f i) + blk_size (f i)) is hi"

lemma laid_bounds:
  "laid f lo is hi \<Longrightarrow> lo \<le> hi"
  "laid f lo is hi \<Longrightarrow> i \<in> set is \<Longrightarrow> lo \<le> blk_buf (f i) \<and> 0 < blk_size (f i) \<and> blk_buf (f i) + blk_size (f i) \<le> hi"
proof -
  show b: "laid f lo is hi \<Longrightarrow> lo \<le> hi" for lo "is" by (induction "is" arbitrary: lo) (simp, fastforce)
  show "laid f lo is hi \<Longrightarrow> i \<in> set is \<Longrightarrow> lo \<le> blk_buf (f i) \<and> 0 < blk_size (f i) \<and> blk_buf (f i) + blk_size (f i) \<le> hi"
    by (induction "is" arbitrary: lo) (auto dest: b, fastforce)
qed

lemma laid_mono: "laid f lo is hi \<Longrightarrow> lo' \<le> lo \<Longrightarrow> hi \<le> hi' \<Longrightarrow> laid f lo' is hi'"
  by (induction "is" arbitrary: lo lo') auto

lemma laid_cong: "(\<And>i. i \<in> set is \<Longrightarrow> blk_buf (f i) = blk_buf (g i) \<and> blk_size (f i) = blk_size (g i)) \<Longrightarrow> laid f lo is hi = laid g lo is hi"
  by (induction "is" arbitrary: lo) auto

lemma laid_append: "laid f lo (xs @ ys) hi \<longleftrightarrow> (\<exists>m. laid f lo xs m \<and> laid f m ys hi)"
proof (induction xs arbitrary: lo)
  case Nil
  then show ?case by (auto intro: laid_mono)
qed auto

lemma laid_snoc: "laid f lo (xs @ [i]) hi \<longleftrightarrow> laid f lo xs (blk_buf (f i)) \<and> 0 < blk_size (f i) \<and> blk_buf (f i) + blk_size (f i) \<le> hi"
  unfolding laid_append by (auto intro: laid_mono)

lemma laid_last: "laid f lo xs hi \<Longrightarrow> xs \<noteq> [] \<Longrightarrow> laid f lo xs (blk_buf (f (last xs)) + blk_size (f (last xs)))"
  by (induction xs arbitrary: lo) auto

lemma laid_remove: "laid f lo xs hi \<Longrightarrow> laid f lo (remove1 i xs) hi"
proof (induction xs arbitrary: lo)
  case (Cons x xs)
  then show ?case by (auto intro: laid_mono)
qed simp

lemma laid_apart:
  "laid f lo xs hi \<Longrightarrow> distinct xs \<Longrightarrow> i \<in> set xs \<Longrightarrow> j \<in> set xs \<Longrightarrow> i \<noteq> j
   \<Longrightarrow> blk_buf (f i) + blk_size (f i) \<le> blk_buf (f j) \<or> blk_buf (f j) + blk_size (f j) \<le> blk_buf (f i)"
proof (induction xs arbitrary: lo)
  case (Cons x xs)
  have "blk_buf (f x) + blk_size (f x) \<le> blk_buf (f y)" if "y \<in> set xs" for y
    using laid_bounds(2) [of f _ xs hi y] Cons.prems(1) that by auto
  then show ?case using Cons by auto
qed simp

text \<open>The invariant: the blocks in use, in the order they were allocated, run from somewhere to the
  end of the buffer and, when they wrap around, on from its start up to the oldest block.\<close>

definition ring_parts :: "rt_rbb \<Rightarrow> nat list \<Rightarrow> nat list \<Rightarrow> bool" where
  "ring_parts r xs ys \<longleftrightarrow> blk_list r = xs @ ys \<and> (xs = [] \<longrightarrow> ys = [])
     \<and> laid (blk_set r) (rbb_buf r) xs (rbb_buf r + rbb_buf_size r)
     \<and> (xs \<noteq> [] \<longrightarrow> laid (blk_set r) (rbb_buf r) ys (blk_buf (blk_set r (hd xs))))"

definition rbb_ok :: "rt_rbb \<Rightarrow> bool" where
  "rbb_ok r \<longleftrightarrow> rbb_buf r + rbb_buf_size r < 2 ^ 32 \<and> distinct (blk_list r)
     \<and> (\<forall>i \<in> set (blk_list r). i < blk_max_num r \<and> blk_status (blk_set r i) \<noteq> RT_RBB_BLK_UNUSED)
     \<and> (\<exists>xs ys. ring_parts r xs ys)"

definition rbb_live :: "rt_rbb \<Rightarrow> (nat \<times> nat) set" where
  "rbb_live r = (\<lambda>i. (blk_buf (blk_set r i), blk_end r i)) ` set (blk_list r)"

lemma sub32_le: "y \<le> x \<Longrightarrow> x < 2 ^ 32 \<Longrightarrow> sub32 x y = x - y"
proof -
  assume "y \<le> x" "x < 2 ^ 32"
  then have "x + 2 ^ 32 - y = (x - y) + 2 ^ 32" by simp
  then have "sub32 x y = (x - y) mod 2 ^ 32" by (simp only: sub32_def mod_add_self2)
  then show ?thesis using \<open>x < 2 ^ 32\<close> by simp
qed

lemma ring_blocks:
  assumes "rbb_ok r" "i \<in> set (blk_list r)"
  shows "rbb_buf r \<le> blk_buf (blk_set r i)" "0 < blk_size (blk_set r i)" "blk_end r i \<le> rbb_buf r + rbb_buf_size r"
    "j \<in> set (blk_list r) \<Longrightarrow> i \<noteq> j \<Longrightarrow> blk_end r i \<le> blk_buf (blk_set r j) \<or> blk_end r j \<le> blk_buf (blk_set r i)"
proof -
  obtain xs ys where rp: "ring_parts r xs ys" using assms(1) unfolding rbb_ok_def by blast
  then have p: "blk_list r = xs @ ys" "laid (blk_set r) (rbb_buf r) xs (rbb_buf r + rbb_buf_size r)"
    "xs \<noteq> [] \<longrightarrow> laid (blk_set r) (rbb_buf r) ys (blk_buf (blk_set r (hd xs)))" "xs = [] \<longrightarrow> ys = []"
    unfolding ring_parts_def by blast+
  have "distinct (xs @ ys)" using assms(1) p(1) by (simp add: rbb_ok_def)
  note p = p this [unfolded distinct_append, THEN conjunct1] this [unfolded distinct_append, THEN conjunct2, THEN conjunct1]
  let ?f = "blk_set r"
  have hd: "blk_buf (?f (hd xs)) \<le> blk_buf (?f x)" if "x \<in> set xs" for x
    using p(2) that laid_bounds(2) [of ?f _ "tl xs" "rbb_buf r + rbb_buf_size r" x] by (cases xs) fastforce+
  have in_xs: "rbb_buf r \<le> blk_buf (?f x) \<and> 0 < blk_size (?f x) \<and> blk_end r x \<le> rbb_buf r + rbb_buf_size r" if "x \<in> set xs" for x
    using laid_bounds(2) [OF p(2) that] by (simp add: blk_end_def)
  have in_ys: "rbb_buf r \<le> blk_buf (?f y) \<and> 0 < blk_size (?f y) \<and> blk_end r y \<le> blk_buf (?f x)" if "y \<in> set ys" "x \<in> set xs" for x y
  proof -
    have "xs \<noteq> []" using that(2) by auto
    then have "laid ?f (rbb_buf r) ys (blk_buf (?f (hd xs)))" using p(3) by simp
    from laid_bounds(2) [OF this that(1)] show ?thesis using hd [OF that(2)] by (simp add: blk_end_def)
  qed
  have some: "\<exists>x. x \<in> set xs" if "y \<in> set ys" for y using that p(4) by (cases xs) auto
  have all: "rbb_buf r \<le> blk_buf (?f i) \<and> 0 < blk_size (?f i) \<and> blk_end r i \<le> rbb_buf r + rbb_buf_size r"
  proof (cases "i \<in> set xs")
    case False
    then have "i \<in> set ys" using assms(2) p(1) by simp
    then obtain x where "x \<in> set xs" "i \<in> set ys" using some by blast
    then show ?thesis using in_ys [of i x] in_xs [of x] by (auto simp: blk_end_def)
  qed (rule in_xs)
  then show "rbb_buf r \<le> blk_buf (?f i)" "0 < blk_size (?f i)" "blk_end r i \<le> rbb_buf r + rbb_buf_size r" by blast+
  assume j: "j \<in> set (blk_list r)" "i \<noteq> j"
  have y: "blk_end r i \<le> blk_buf (?f j) \<or> blk_end r j \<le> blk_buf (?f i)" if "i \<in> set ys" "j \<in> set ys"
  proof -
    have "laid ?f (rbb_buf r) ys (blk_buf (?f (hd xs)))" using p(3) some [OF that(1)] by auto
    from laid_apart [OF this p(6) that j(2)] show ?thesis by (simp add: blk_end_def)
  qed
  show "blk_end r i \<le> blk_buf (?f j) \<or> blk_end r j \<le> blk_buf (?f i)"
    using laid_apart [OF p(2,5), of i j] j in_ys [of i j] in_ys [of j i] y assms(2) p(1) by (auto simp: blk_end_def)
qed


section \<open>Operations keep the layout\<close>

lemma enter_blk_sel [simp]:
  "blk_list (enter_blk i a sz r) = blk_list r @ [i]" "rbb_buf (enter_blk i a sz r) = rbb_buf r"
  "rbb_buf_size (enter_blk i a sz r) = rbb_buf_size r" "blk_max_num (enter_blk i a sz r) = blk_max_num r"
  "j \<noteq> i \<Longrightarrow> blk_set (enter_blk i a sz r) j = blk_set r j"
  "blk_set (enter_blk i a sz r) i = \<lparr>blk_status = RT_RBB_BLK_INITED, blk_size = unat sz mod 2 ^ 24, blk_buf = a, \<dots> = rt_rbb_blk.more (blk_set r i)\<rparr>"
  by (simp_all add: enter_blk_def upd_blk_def Let_def)

lemma find_empty:
  "find_empty_blk_in_set r = Some i \<Longrightarrow> i < blk_max_num r \<and> blk_status (blk_set r i) = RT_RBB_BLK_UNUSED"
  "find_empty_blk_in_set r = None \<Longrightarrow> i < blk_max_num r \<Longrightarrow> blk_status (blk_set r i) \<noteq> RT_RBB_BLK_UNUSED"
  by (auto simp: find_empty_blk_in_set_def find_Some_iff find_None_iff)

text \<open>Where the code puts a block: behind the newest, or at the start of the buffer.\<close>

lemma ring_parts_enter:
  assumes "ring_parts r xs ys" "i \<notin> set (blk_list r)" "0 < unat sz" "unat sz < 2 ^ 24"
  defines "e a \<equiv> enter_blk i a sz r"
  shows "xs = [] \<Longrightarrow> unat sz \<le> rbb_buf_size r \<Longrightarrow> ring_parts (e (rbb_buf r)) [i] []"
    "xs \<noteq> [] \<Longrightarrow> ys = [] \<Longrightarrow> blk_end r (last xs) + unat sz \<le> rbb_buf r + rbb_buf_size r \<Longrightarrow> ring_parts (e (blk_end r (last xs))) (xs @ [i]) []"
    "xs \<noteq> [] \<Longrightarrow> ys = [] \<Longrightarrow> rbb_buf r + unat sz \<le> blk_buf (blk_set r (hd xs)) \<Longrightarrow> ring_parts (e (rbb_buf r)) xs [i]"
    "ys \<noteq> [] \<Longrightarrow> blk_end r (last ys) + unat sz \<le> blk_buf (blk_set r (hd xs)) \<Longrightarrow> ring_parts (e (blk_end r (last ys))) xs (ys @ [i])"
proof -
  let ?f = "blk_set r"
  have p: "blk_list r = xs @ ys" "xs = [] \<longrightarrow> ys = []" "laid ?f (rbb_buf r) xs (rbb_buf r + rbb_buf_size r)"
    "xs \<noteq> [] \<longrightarrow> laid ?f (rbb_buf r) ys (blk_buf (?f (hd xs)))" using assms(1) unfolding ring_parts_def by blast+
  have c: "laid (blk_set (e a)) lo zs hi = laid ?f lo zs hi" if "set zs \<subseteq> set (blk_list r)" for a lo zs hi
  proof (rule laid_cong)
    fix j
    assume "j \<in> set zs"
    then have "j \<noteq> i" using that assms(2) by auto
    then show "blk_buf (blk_set (e a) j) = blk_buf (?f j) \<and> blk_size (blk_set (e a) j) = blk_size (?f j)" by (simp add: e_def)
  qed
  have cx: "laid (blk_set (e a)) lo xs hi = laid ?f lo xs hi" "laid (blk_set (e a)) lo ys hi = laid ?f lo ys hi" for a lo hi
    by (rule c; simp add: p(1))+
  have h: "blk_set (e a) (hd xs) = ?f (hd xs)" if "xs \<noteq> []" for a using that assms(2) p(1) by (cases xs) (auto simp: e_def)
  have s: "unat sz mod 2 ^ 24 = unat sz" using assms(4) by simp
  have i: "blk_buf (blk_set (e a) i) = a" "blk_size (blk_set (e a) i) = unat sz" for a by (simp_all add: e_def s [simplified])
  have sel: "blk_list (e a) = blk_list r @ [i]" "rbb_buf (e a) = rbb_buf r" "rbb_buf_size (e a) = rbb_buf_size r" for a by (simp_all add: e_def)
  show "ring_parts (e (rbb_buf r)) [i] []" if "xs = []" "unat sz \<le> rbb_buf_size r"
    using that p assms(3) by (simp add: ring_parts_def sel i)
  show "ring_parts (e (blk_end r (last xs))) (xs @ [i]) []"
    if "xs \<noteq> []" "ys = []" "blk_end r (last xs) + unat sz \<le> rbb_buf r + rbb_buf_size r"
    using that p assms(3) laid_last [OF p(3)] laid_bounds(2) [OF p(3), of "hd xs"]
    by (simp add: ring_parts_def sel i laid_snoc cx h blk_end_def)
  show "ring_parts (e (rbb_buf r)) xs [i]" if "xs \<noteq> []" "ys = []" "rbb_buf r + unat sz \<le> blk_buf (?f (hd xs))"
    using that p assms(3) by (simp add: ring_parts_def sel i cx h)
  show "ring_parts (e (blk_end r (last ys))) xs (ys @ [i])" if "ys \<noteq> []" "blk_end r (last ys) + unat sz \<le> blk_buf (?f (hd xs))"
    using that p assms(3) laid_last [of ?f "rbb_buf r" ys] by (auto simp: ring_parts_def sel i cx h laid_snoc blk_end_def)
qed

lemma ring_order:
  assumes "ring_parts r xs ys" "xs \<noteq> []"
  shows "blk_buf (blk_set r (hd xs)) \<le> blk_buf (blk_set r (last xs))"
    "ys \<noteq> [] \<Longrightarrow> blk_end r (last ys) \<le> blk_buf (blk_set r (hd xs))"
proof -
  let ?f = "blk_set r"
  have p: "laid ?f (rbb_buf r) xs (rbb_buf r + rbb_buf_size r)" "laid ?f (rbb_buf r) ys (blk_buf (?f (hd xs)))"
    using assms unfolding ring_parts_def by blast+
  obtain x zs where x: "xs = x # zs" using assms(2) by (cases xs) auto
  have "blk_buf (?f x) \<le> blk_buf (?f y)" if "y \<in> set zs" for y
    using laid_bounds(2) [of ?f _ zs _ y] p(1) that unfolding x by fastforce
  then show "blk_buf (?f (hd xs)) \<le> blk_buf (?f (last xs))" unfolding x by (cases zs) auto
  show "ys \<noteq> [] \<Longrightarrow> blk_end r (last ys) \<le> blk_buf (?f (hd xs))"
    using laid_bounds(2) [OF p(2), of "last ys"] by (simp add: blk_end_def)
qed

lemma rbb_ok_enter:
  assumes "rbb_ok r" "find_empty_blk_in_set r = Some i" "ring_parts (enter_blk i a sz r) xs ys"
  shows "rbb_ok (enter_blk i a sz r)" "i \<notin> set (blk_list r)"
proof -
  note f = find_empty(1) [OF assms(2)]
  show n: "i \<notin> set (blk_list r)" using assms(1) f by (auto simp: rbb_ok_def)
  have "j < blk_max_num r \<and> blk_status (blk_set (enter_blk i a sz r) j) \<noteq> RT_RBB_BLK_UNUSED" if "j \<in> set (blk_list r @ [i])" for j
    using that assms(1) f by (cases "j = i") (auto simp: rbb_ok_def)
  then show "rbb_ok (enter_blk i a sz r)" using assms(1,3) n by (auto simp: rbb_ok_def)
qed


text \<open>Where there is room for a block: behind the newest, or at the start of the buffer.\<close>

definition ring_room :: "rt_rbb \<Rightarrow> nat \<Rightarrow> bool" where
  "ring_room r n \<longleftrightarrow>
     (if blk_list r = [] then n \<le> rbb_buf_size r
      else let head = blk_buf (blk_set r (hd (blk_list r))); tail = blk_end r (last (blk_list r))
           in if head < tail then tail + n \<le> rbb_buf r + rbb_buf_size r \<or> rbb_buf r + n \<le> head
              else tail + n \<le> head)"

lemma rt_rbb_blk_alloc_effect:
  assumes ok: "rbb_ok r" and sz: "0 < unat sz" "unat sz < 2 ^ 24" "unat sz \<le> rbb_buf_size r"
  shows "(find_empty_blk_in_set r = None \<or> blk_max_num r \<le> length (blk_list r) \<or> \<not> ring_room r (unat sz))
      \<and> rt_rbb_blk_alloc sz r = (None, r)
    \<or> (\<exists>i a. find_empty_blk_in_set r = Some i \<and> ring_room r (unat sz) \<and> rt_rbb_blk_alloc sz r = (Some i, enter_blk i a sz r)
        \<and> rbb_ok (enter_blk i a sz r) \<and> i \<notin> set (blk_list r))"
proof (cases "find_empty_blk_in_set r")
  case None
  then show ?thesis by (simp add: rt_rbb_blk_alloc_def)
next
  case (Some i)
  let ?f = "blk_set r"
  obtain xs ys where rp: "ring_parts r xs ys" using ok unfolding rbb_ok_def by blast
  then have p: "blk_list r = xs @ ys" "xs = [] \<longrightarrow> ys = []" unfolding ring_parts_def by blast+
  have n: "i \<notin> set (blk_list r)" using ok find_empty(1) [OF Some] by (auto simp: rbb_ok_def)
  note enter = ring_parts_enter [OF rp n sz(1,2)] and keep = rbb_ok_enter [OF ok Some]
  have lt: "rbb_buf r + rbb_buf_size r < 2 ^ 32" using ok by (simp add: rbb_ok_def)
  show ?thesis
  proof (cases "blk_max_num r \<le> length (blk_list r)")
    case True
    then show ?thesis using Some by (simp add: rt_rbb_blk_alloc_def)
  next
    case nf: False
    show ?thesis
    proof (cases "xs = []")
      case True
      then show ?thesis using Some p nf keep [OF enter(1) [OF True sz(3)]] sz(3)
        by (auto simp: rt_rbb_blk_alloc_def ring_room_def)
    next
      case x: False
      define head tail where "head = hd xs" and "tail = last (blk_list r)"
      have hl: "head \<in> set (blk_list r)" "tail \<in> set (blk_list r)" "hd (blk_list r) = head" "blk_list r \<noteq> []"
        using x p(1) last_in_set [of "blk_list r"] by (simp_all add: head_def tail_def)
      note bh = ring_blocks [OF ok hl(1)] and bt = ring_blocks [OF ok hl(2)]
      have e1: "sub32 (rbb_buf r + rbb_buf_size r) (blk_end r tail) = rbb_buf r + rbb_buf_size r - blk_end r tail"
        by (rule sub32_le [OF bt(3) lt])
      have e2: "sub32 (blk_buf (?f head)) (rbb_buf r) = blk_buf (?f head) - rbb_buf r"
        by (rule sub32_le [OF bh(1)]) (use bh(3) lt in \<open>simp add: blk_end_def\<close>)
      have alloc: "rt_rbb_blk_alloc sz r = (if blk_buf (?f head) \<le> blk_buf (?f tail) then
           (if unat sz \<le> rbb_buf r + rbb_buf_size r - blk_end r tail then (Some i, enter_blk i (blk_end r tail) sz r)
            else if unat sz \<le> blk_buf (?f head) - rbb_buf r then (Some i, enter_blk i (rbb_buf r) sz r) else (None, r))
         else if unat sz \<le> sub32 (blk_buf (?f head)) (blk_end r tail) then (Some i, enter_blk i (blk_end r tail) sz r) else (None, r))"
        using Some nf hl(3,4) unfolding rt_rbb_blk_alloc_def Let_def tail_def [symmetric] e1 e2 by (simp add: e1 e2)
      show ?thesis
      proof (cases "ys = []")
        case True
        then have tl: "tail = last xs" using p(1) by (simp add: tail_def)
        have "blk_buf (?f head) \<le> blk_buf (?f tail)"
          using ring_order [OF rp x] True by (simp add: head_def tl)
        moreover have "blk_buf (?f head) < blk_end r tail" using calculation bt(2) by (simp add: blk_end_def)
        ultimately show ?thesis
          using keep [OF enter(2) [OF x True]] keep [OF enter(3) [OF x True]] Some bt(3) bh(1) hl(3,4) n unfolding alloc
          by (auto simp: ring_room_def Let_def tl [symmetric] head_def [symmetric] tail_def [symmetric])
      next
        case False
        then have tl: "tail = last ys" using p(1) by (simp add: tail_def)
        have w: "blk_end r tail \<le> blk_buf (?f head)" "\<not> blk_buf (?f head) \<le> blk_buf (?f tail)"
          using ring_order [OF rp x] False bt(2) by (auto simp: head_def tl blk_end_def)
        then have "sub32 (blk_buf (?f head)) (blk_end r tail) = blk_buf (?f head) - blk_end r tail"
          using bh(3) lt by (intro sub32_le) (auto simp: blk_end_def)
        then show ?thesis
          using w keep [OF enter(4) [OF False]] Some hl(3,4) n unfolding alloc
          by (auto simp: ring_room_def Let_def tl [symmetric] head_def [symmetric] tail_def [symmetric])
      qed
    qed
  qed
qed


lemma rt_rbb_blk_free_effect:
  assumes "rbb_ok r"
  shows "rbb_ok (rt_rbb_blk_free i r)" "blk_list (rt_rbb_blk_free i r) = remove1 i (blk_list r)"
    "rbb_live (rt_rbb_blk_free i r) = (\<lambda>i. (blk_buf (blk_set r i), blk_end r i)) ` (set (blk_list r) - {i})"
    "rbb_buf_size (rt_rbb_blk_free i r) = rbb_buf_size r" "rbb_buf (rt_rbb_blk_free i r) = rbb_buf r"
proof -
  let ?r = "rt_rbb_blk_free i r"
  have d: "distinct (blk_list r)" using assms by (simp add: rbb_ok_def)
  have sel: "blk_list ?r = remove1 i (blk_list r)" "rbb_buf ?r = rbb_buf r" "rbb_buf_size ?r = rbb_buf_size r" "blk_max_num ?r = blk_max_num r"
    "blk_buf (blk_set ?r j) = blk_buf (blk_set r j)" "blk_size (blk_set ?r j) = blk_size (blk_set r j)"
    "j \<noteq> i \<Longrightarrow> blk_set ?r j = blk_set r j" for j by (simp_all add: rt_rbb_blk_free_def upd_blk_def Let_def)
  show "blk_list ?r = remove1 i (blk_list r)" "rbb_buf_size ?r = rbb_buf_size r" "rbb_buf ?r = rbb_buf r" by (rule sel)+
  show "rbb_live ?r = (\<lambda>i. (blk_buf (blk_set r i), blk_end r i)) ` (set (blk_list r) - {i})"
    using d by (simp add: rbb_live_def blk_end_def sel)
  obtain xs ys where rp: "ring_parts r xs ys" using assms unfolding rbb_ok_def by blast
  then have p: "blk_list r = xs @ ys" "xs = [] \<longrightarrow> ys = []" "laid (blk_set r) (rbb_buf r) xs (rbb_buf r + rbb_buf_size r)"
    "xs \<noteq> [] \<longrightarrow> laid (blk_set r) (rbb_buf r) ys (blk_buf (blk_set r (hd xs)))" unfolding ring_parts_def by blast+
  have c: "laid (blk_set ?r) lo zs hi = laid (blk_set r) lo zs hi" for lo zs hi by (rule laid_cong) (simp add: sel)
  have "\<exists>xs' ys'. ring_parts ?r xs' ys'"
  proof (cases "xs = []")
    case True
    then show ?thesis using p by (intro exI [of _ "[]"]) (simp add: ring_parts_def sel)
  next
    case x: False
    then have ly: "laid (blk_set r) (rbb_buf r) ys (blk_buf (blk_set r (hd xs)))" using p(4) by simp
    have hb: "blk_buf (blk_set r (hd xs)) \<le> blk_buf (blk_set r y)" if "y \<in> set xs" for y
    proof -
      obtain z zs where "xs = z # zs" using x by (cases xs) auto
      then show ?thesis using that p(3) laid_bounds(2) [of "blk_set r" _ zs _ y] by fastforce
    qed
    have he: "blk_buf (blk_set r (hd xs)) \<le> rbb_buf r + rbb_buf_size r" using laid_bounds(2) [OF p(3), of "hd xs"] x by simp
    have "i \<in> set xs \<Longrightarrow> i \<notin> set ys" using d p(1) by auto
    then have rm: "remove1 i (xs @ ys) = remove1 i xs @ remove1 i ys" by (simp add: remove1_append remove1_idem)
    show ?thesis
    proof (cases "remove1 i xs = []")
      case True
      have l: "laid (blk_set r) (rbb_buf r) (remove1 i ys) (rbb_buf r + rbb_buf_size r)" by (rule laid_mono [OF laid_remove [OF ly] le_refl he])
      from laid_bounds(2) [OF this hd_in_set] have "ring_parts ?r (remove1 i ys) []"
        using True rm l by (simp add: ring_parts_def sel c p(1))
      then show ?thesis by blast
    next
      case False
      then have "hd (remove1 i xs) \<in> set xs" using hd_in_set [OF False] by (meson notin_set_remove1)
      from laid_mono [OF laid_remove [OF ly, of i] le_refl hb [OF this]]
      have "ring_parts ?r (remove1 i xs) (remove1 i ys)"
        using rm False laid_remove [OF p(3), of i] by (simp add: ring_parts_def sel c p(1))
      then show ?thesis by blast
    qed
  qed
  then show "rbb_ok ?r" using assms d by (auto simp: rbb_ok_def sel)
qed


section \<open>The ring of blocks as an allocator\<close>

text \<open>A client knows a block by its address.\<close>

definition rbb_take :: "u32 \<Rightarrow> rt_rbb \<Rightarrow> (nat option \<times> rt_rbb) option" where
  "rbb_take sz r = (case rt_rbb_blk_alloc sz r of (b, r) \<Rightarrow> Some (map_option (\<lambda>i. rt_rbb_blk_buf i r) b, r))"

definition rbb_give :: "nat \<Rightarrow> rt_rbb \<Rightarrow> rt_rbb option" where
  "rbb_give p r = map_option (\<lambda>i. rt_rbb_blk_free i r) (find (\<lambda>i. rt_rbb_blk_buf i r = p) (blk_list r))"

lemma rbb_live_enter:
  assumes "i \<notin> set (blk_list r)" "unat sz < 2 ^ 24"
  shows "rbb_live (enter_blk i a sz r) = insert (a, a + unat sz) (rbb_live r)"
proof -
  let ?r = "enter_blk i a sz r"
  have "(\<lambda>j. (blk_buf (blk_set ?r j), blk_end ?r j)) ` set (blk_list r) = (\<lambda>j. (blk_buf (blk_set r j), blk_end r j)) ` set (blk_list r)"
  proof (rule image_cong)
    fix j
    assume "j \<in> set (blk_list r)"
    then have "j \<noteq> i" using assms(1) by auto
    then show "(blk_buf (blk_set ?r j), blk_end ?r j) = (blk_buf (blk_set r j), blk_end r j)" by (simp add: blk_end_def)
  qed simp
  moreover have "blk_buf (blk_set ?r i) = a" "blk_end ?r i = a + unat sz" using assms(2) by (simp_all add: blk_end_def)
  ultimately show ?thesis by (simp add: rbb_live_def)
qed

lemma image_remove: "(\<And>j. j \<in> S \<Longrightarrow> j \<noteq> i \<Longrightarrow> F j \<noteq> F i) \<Longrightarrow> F ` (S - {i}) = F ` S - {F i}"
  by force

lemma rbb_live_apart: "rbb_ok r \<Longrightarrow> apart (rbb_live r)"
  unfolding apart_def rbb_live_def using ring_blocks(4) [of r] by fastforce

interpretation block_ring: allocator "\<lambda>r. rbb_ok r \<and> rbb_buf r = b \<and> rbb_buf_size r = n" rbb_live "\<lambda>q. 0 < unat q \<and> unat q < 2 ^ 24 \<and> unat q \<le> n" unat rbb_take rbb_give
  for b n :: nat
proof
  fix r :: rt_rbb
  assume r: "rbb_ok r \<and> rbb_buf r = b \<and> rbb_buf_size r = n"
  show "apart (rbb_live r)" using r rbb_live_apart by simp
  show "a < e" if "(a, e) \<in> rbb_live r" for a e
    using that r ring_blocks(2) [of r] by (auto simp: rbb_live_def blk_end_def)
  show "\<exists>h'. rbb_give p r = Some h' \<and> (rbb_ok h' \<and> rbb_buf h' = b \<and> rbb_buf_size h' = n) \<and> rbb_live h' = rbb_live r - {(p, e)}" if pe: "(p, e) \<in> rbb_live r" for p e
  proof -
    obtain i where i: "i \<in> set (blk_list r)" "p = blk_buf (blk_set r i)" "e = blk_end r i" using pe by (auto simp: rbb_live_def)
    have u: "j = i" if "j \<in> set (blk_list r)" "blk_buf (blk_set r j) = p" for j
      using ring_blocks(2) [of r i] ring_blocks(4) [of r i j] ring_blocks(2) [of r j] r that i by (auto simp: blk_end_def)
    have "find (\<lambda>i. rt_rbb_blk_buf i r = p) (blk_list r) = Some i"
    proof (cases "find (\<lambda>i. rt_rbb_blk_buf i r = p) (blk_list r)")
      case None
      then show ?thesis using i by (auto simp: find_None_iff rt_rbb_blk_buf_def)
    next
      case (Some j)
      then have "j \<in> set (blk_list r)" "blk_buf (blk_set r j) = p" by (auto simp: find_Some_iff rt_rbb_blk_buf_def)
      then show ?thesis using u Some by simp
    qed
    moreover have "rbb_live (rt_rbb_blk_free i r) = rbb_live r - {(p, e)}"
    proof -
      define F where "F j = (blk_buf (blk_set r j), blk_end r j)" for j
      have "F j \<noteq> F i" if j: "j \<in> set (blk_list r)" "j \<noteq> i" for j
      proof
        assume "F j = F i"
        then have "blk_buf (blk_set r j) = p" unfolding F_def i(2) by simp
        then show False using u [OF j(1)] j(2) by blast
      qed
      then have "F ` (set (blk_list r) - {i}) = F ` set (blk_list r) - {F i}" by (rule image_remove)
      then show ?thesis unfolding rt_rbb_blk_free_effect(3) [OF conjunct1 [OF r]] unfolding rbb_live_def F_def i(2,3) .
    qed
    ultimately show ?thesis using rt_rbb_blk_free_effect(1,4,5) [of r i] r by (simp add: rbb_give_def)
  qed
next
  fix r :: rt_rbb and q :: u32
  assume r: "rbb_ok r \<and> rbb_buf r = b \<and> rbb_buf_size r = n" and q: "0 < unat q \<and> unat q < 2 ^ 24 \<and> unat q \<le> n"
  show "\<exists>p h'. rbb_take q r = Some (p, h') \<and> (rbb_ok h' \<and> rbb_buf h' = b \<and> rbb_buf_size h' = n) \<and> (case p of None \<Rightarrow> rbb_live h' = rbb_live r
      | Some p \<Rightarrow> \<exists>e. (p, e) \<notin> rbb_live r \<and> rbb_live h' = insert (p, e) (rbb_live r) \<and> p + unat q \<le> e)"
  proof (rule disjE [OF rt_rbb_blk_alloc_effect [of r q]])
    assume "(find_empty_blk_in_set r = None \<or> blk_max_num r \<le> length (blk_list r) \<or> \<not> ring_room r (unat q))
      \<and> rt_rbb_blk_alloc q r = (None, r)"
    then show ?thesis using r by (simp add: rbb_take_def)
  next
    assume "\<exists>i a. find_empty_blk_in_set r = Some i \<and> ring_room r (unat q) \<and> rt_rbb_blk_alloc q r = (Some i, enter_blk i a q r)
        \<and> rbb_ok (enter_blk i a q r) \<and> i \<notin> set (blk_list r)"
    then obtain i a where
      a: "rt_rbb_blk_alloc q r = (Some i, enter_blk i a q r)" "rbb_ok (enter_blk i a q r)" "i \<notin> set (blk_list r)" by blast
    have "(a, a + unat q) \<notin> rbb_live r"
    proof
      assume "(a, a + unat q) \<in> rbb_live r"
      then obtain j where j: "j \<in> set (blk_list r)" "blk_buf (blk_set r j) = a" by (auto simp: rbb_live_def)
      then have "j \<noteq> i" using a(3) by auto
      then have "blk_end (enter_blk i a q r) i \<le> a \<or> blk_end (enter_blk i a q r) j \<le> a"
        using ring_blocks(4) [OF a(2), of i j] j by simp
      then show False using ring_blocks(2) [of r j] r q j \<open>j \<noteq> i\<close> by (auto simp: blk_end_def)
    qed
    then show ?thesis using a r q rbb_live_enter [OF a(3), of q a] by (auto simp: rbb_take_def rt_rbb_blk_buf_def)
  qed (use r q in auto)
qed


section \<open>Order of delivery\<close>

lemma blk_get_loop_first:
  "blk_get_loop is r = (case find (\<lambda>i. blk_status (blk_set r i) = RT_RBB_BLK_PUT) is of
     None \<Rightarrow> (None, r) | Some i \<Rightarrow> (Some i, upd_blk i (\<lambda>b. b\<lparr>blk_status := RT_RBB_BLK_GET\<rparr>) r))"
  by (induction "is") auto

lemma rbb_ok_status:
  assumes "rbb_ok r" "st \<noteq> RT_RBB_BLK_UNUSED" "i \<in> set (blk_list r)"
  shows "rbb_ok (upd_blk i (\<lambda>b. b\<lparr>blk_status := st\<rparr>) r)"
proof -
  let ?r = "upd_blk i (\<lambda>b. b\<lparr>blk_status := st\<rparr>) r"
  have sel: "blk_list ?r = blk_list r" "rbb_buf ?r = rbb_buf r" "rbb_buf_size ?r = rbb_buf_size r" "blk_max_num ?r = blk_max_num r"
    "blk_buf (blk_set ?r j) = blk_buf (blk_set r j)" "blk_size (blk_set ?r j) = blk_size (blk_set r j)" for j by (simp_all add: upd_blk_def)
  have c: "laid (blk_set ?r) lo zs hi = laid (blk_set r) lo zs hi" for lo zs hi by (rule laid_cong) (simp add: sel)
  have "ring_parts ?r xs ys = ring_parts r xs ys" for xs ys by (simp add: ring_parts_def sel c)
  moreover have "blk_status (blk_set ?r j) = (if j = i then st else blk_status (blk_set r j))" for j by (simp add: upd_blk_def)
  ultimately show ?thesis using assms by (auto simp: rbb_ok_def sel)
qed

section \<open>Properties\<close>

lemma rbb_ok_init: "buf + unat sz < 2 ^ 32 \<Longrightarrow> rbb_ok (rt_rbb_init buf sz raw n)"
  by (auto simp: rbb_ok_def rt_rbb_init_def ring_parts_def)

definition example_rbb :: rt_rbb where
  "example_rbb = rt_rbb_init 0x1000 64 (\<lambda>_. \<lparr>blk_status = RT_RBB_BLK_GET, blk_size = 0, blk_buf = 0\<rparr>) 4"

lemma example_rbb: "rbb_ok example_rbb" "rbb_live example_rbb = {}" "rbb_buf_size example_rbb = 64" "rbb_buf example_rbb = 0x1000"
  by (simp_all add: example_rbb_def rbb_ok_init rbb_live_def) (simp_all add: rt_rbb_init_def)

text \<open>
  C33. Every client that takes blocks no larger than the buffer from a fresh ring and frees them in any
  order runs to its end; the blocks it holds are exactly the ones in the ring and never overlap.
\<close>

theorem rt_rbb_client_safe:
  assumes "buf + unat sz < 2 ^ 32" "\<forall>q. Ask q \<in> set ops \<longrightarrow> 0 < unat q \<and> unat q < 2 ^ 24 \<and> unat q \<le> unat sz"
  shows "\<exists>held r. client rbb_take rbb_give ops ([], rt_rbb_init buf sz raw n) = Some (held, r)
    \<and> rbb_ok r \<and> apart (rbb_live r) \<and> distinct held \<and> fst ` rbb_live r = set held
    \<and> (\<forall>(a, e) \<in> rbb_live r. buf \<le> a \<and> e \<le> buf + unat sz)"
proof -
  let ?r = "rt_rbb_init buf sz raw n"
  have "rbb_ok ?r \<and> rbb_buf ?r = buf \<and> rbb_buf_size ?r = unat sz" "rbb_live ?r = {}"
    using rbb_ok_init [OF assms(1)] by (simp_all add: rt_rbb_init_def rbb_live_def)
  from block_ring.client_from_empty [OF this assms(2)] obtain held r where
    c: "client rbb_take rbb_give ops ([], ?r) = Some (held, r)" "rbb_ok r \<and> rbb_buf r = buf \<and> rbb_buf_size r = unat sz"
      "apart (rbb_live r) \<and> distinct held \<and> fst ` rbb_live r = set held" by blast
  then have "\<forall>(a, e) \<in> rbb_live r. buf \<le> a \<and> e \<le> buf + unat sz"
    using ring_blocks(1,3) [of r] by (auto simp: rbb_live_def)
  then show ?thesis using c by blast
qed

theorem rt_rbb_client_safe_witness:
  "\<exists>held r. client rbb_take rbb_give [Ask 40, Ask 20, Give_back 0, Ask 30] ([], rt_rbb_init 0x1000 64 (blk_set example_rbb) 4) = Some (held, r)
    \<and> apart (rbb_live r)"
proof -
  have "\<forall>q. Ask q \<in> set [Ask 40, Ask 20, Give_back 0, Ask 30] \<longrightarrow> 0 < unat (q :: u32) \<and> unat q < 2 ^ 24 \<and> unat q \<le> unat (64 :: u32)" by auto
  from rt_rbb_client_safe [OF _ this, where buf = "0x1000" and raw = "blk_set example_rbb" and n = 4] show ?thesis by auto
qed

text \<open>
  A request that fits the buffer is refused only when every descriptor is in use or there is no room
  for it behind the newest block or, while the blocks do not wrap, at the start; nothing changes then.
  A block that is granted is entered as the newest, with the size asked for.
\<close>

theorem rt_rbb_blk_alloc_correct:
  assumes "rbb_ok r" "0 < unat sz" "unat sz < 2 ^ 24" "unat sz \<le> rbb_buf_size r"
  shows "case rt_rbb_blk_alloc sz r of
      (None, r') \<Rightarrow> r' = r \<and> (\<not> ring_room r (unat sz) \<or> blk_max_num r \<le> length (blk_list r)
          \<or> (\<forall>i < blk_max_num r. blk_status (blk_set r i) \<noteq> RT_RBB_BLK_UNUSED))
    | (Some i, r') \<Rightarrow> rbb_ok r' \<and> blk_list r' = blk_list r @ [i] \<and> rt_rbb_blk_size i r' = unat sz
          \<and> (\<forall>j \<in> set (blk_list r). blk_set r' j = blk_set r j)"
proof -
  have k: "\<forall>j \<in> set (blk_list r). blk_set (enter_blk i a sz r) j = blk_set r j" if "i \<notin> set (blk_list r)" for i a
    using that by (metis enter_blk_sel(5))
  from rt_rbb_blk_alloc_effect [OF assms] show ?thesis
    using find_empty(2) [of r] assms(3) k by (auto simp: rt_rbb_blk_size_def simp del: enter_blk_sel(5))
qed

theorem rt_rbb_blk_alloc_correct_witness:
  "case rt_rbb_blk_alloc 40 example_rbb of (None, r') \<Rightarrow> r' = example_rbb | (Some i, r') \<Rightarrow> rbb_ok r' \<and> rt_rbb_blk_size i r' = 40"
  using rt_rbb_blk_alloc_correct [of example_rbb 40] example_rbb by (auto split: prod.splits option.splits)

text \<open>The ring with one block that has been put.\<close>

definition example_put :: rt_rbb where
  "example_put = rt_rbb_blk_put 0 (snd (rt_rbb_blk_alloc 40 example_rbb))"

lemma example_put:
  "rbb_ok example_put" "blk_list example_put = [0]" "blk_status (blk_set example_put 0) = RT_RBB_BLK_PUT"
  "blk_buf (blk_set example_put 0) = 0x1000" "blk_size (blk_set example_put 0) = 40" "rbb_buf example_put = 0x1000"
  "find_empty_blk_in_set (upd_blk 0 (\<lambda>b. b\<lparr>blk_status := RT_RBB_BLK_GET\<rparr>) (example_put\<lparr>blk_list := []\<rparr>)) = Some 1"
proof -
  have e: "blk_list example_rbb = []" "blk_max_num example_rbb = 4" "find_empty_blk_in_set example_rbb = Some 0" "rbb_buf example_rbb = 0x1000"
    by (simp_all add: example_rbb_def rt_rbb_init_def find_empty_blk_in_set_def upt_rec)
  then have a: "rt_rbb_blk_alloc 40 example_rbb = (Some 0, enter_blk 0 0x1000 40 example_rbb)" by (simp add: rt_rbb_blk_alloc_def)
  have "rbb_ok (enter_blk 0 0x1000 40 example_rbb)" using rt_rbb_blk_alloc_effect [of example_rbb 40] example_rbb a by auto
  then show "rbb_ok example_put" by (simp add: example_put_def a rt_rbb_blk_put_def rbb_ok_status)
  show "blk_list example_put = [0]" "blk_status (blk_set example_put 0) = RT_RBB_BLK_PUT" "blk_buf (blk_set example_put 0) = 0x1000"
    "blk_size (blk_set example_put 0) = 40" "rbb_buf example_put = 0x1000"
    by (simp_all add: example_put_def a rt_rbb_blk_put_def upd_blk_def e)
  show "find_empty_blk_in_set (upd_blk 0 (\<lambda>b. b\<lparr>blk_status := RT_RBB_BLK_GET\<rparr>) (example_put\<lparr>blk_list := []\<rparr>)) = Some 1"
    by (simp add: find_empty_blk_in_set_def example_put_def a rt_rbb_blk_put_def upd_blk_def e upt_rec)
      (simp add: example_rbb_def rt_rbb_init_def enter_blk_def upd_blk_def)
qed

text \<open>
  Blocks are delivered in the order they were allocated: \<open>rt_rbb_blk_get\<close> returns the first block of the
  list that has been put, and null exactly when there is none; it changes nothing but its status.
\<close>

theorem rt_rbb_blk_get_fifo:
  assumes "rbb_ok r"
  shows "case rt_rbb_blk_get r of
      (None, r') \<Rightarrow> r' = r \<and> (\<forall>i \<in> set (blk_list r). blk_status (blk_set r i) \<noteq> RT_RBB_BLK_PUT)
    | (Some i, r') \<Rightarrow> rbb_ok r' \<and> rbb_live r' = rbb_live r \<and> (\<exists>xs ys. blk_list r = xs @ i # ys \<and> blk_list r' = blk_list r
          \<and> blk_status (blk_set r i) = RT_RBB_BLK_PUT \<and> blk_status (blk_set r' i) = RT_RBB_BLK_GET
          \<and> (\<forall>j \<in> set xs. blk_status (blk_set r j) \<noteq> RT_RBB_BLK_PUT))"
proof (cases "find (\<lambda>i. blk_status (blk_set r i) = RT_RBB_BLK_PUT) (blk_list r)")
  case None
  then have "rt_rbb_blk_get r = (None, r)" by (simp add: rt_rbb_blk_get_def blk_get_loop_first)
  then show ?thesis using None by (auto simp: find_None_iff)
next
  case (Some i)
  then obtain k where k: "k < length (blk_list r)" "blk_status (blk_set r i) = RT_RBB_BLK_PUT" "i = blk_list r ! k"
    "\<forall>j < k. blk_status (blk_set r (blk_list r ! j)) \<noteq> RT_RBB_BLK_PUT" by (auto simp: find_Some_iff)
  let ?r = "upd_blk i (\<lambda>b. b\<lparr>blk_status := RT_RBB_BLK_GET\<rparr>) r"
  have i: "i \<in> set (blk_list r)" using k(1,3) by simp
  then have g: "rt_rbb_blk_get r = (Some i, ?r)" using Some by (auto simp: rt_rbb_blk_get_def blk_get_loop_first)
  have "blk_list r = take k (blk_list r) @ i # drop (Suc k) (blk_list r)" using id_take_nth_drop [OF k(1)] k(3) by simp
  moreover have "\<forall>j \<in> set (take k (blk_list r)). blk_status (blk_set r j) \<noteq> RT_RBB_BLK_PUT" using k(4) by (auto simp: in_set_conv_nth)
  moreover have "rbb_live ?r = rbb_live r" "blk_list ?r = blk_list r" "blk_status (blk_set ?r i) = RT_RBB_BLK_GET"
    by (auto simp: rbb_live_def blk_end_def upd_blk_def)
  moreover have "rbb_ok ?r" by (rule rbb_ok_status [OF assms _ i]) simp
  ultimately show ?thesis using k(2) unfolding g by auto
qed

theorem rt_rbb_blk_get_fifo_witness:
  "fst (rt_rbb_blk_get example_put) = Some 0"
  using rt_rbb_blk_get_fifo [OF example_put(1)] example_put(2,3) by (auto simp: Cons_eq_append_conv split: prod.splits option.splits)

text \<open>
  A block queue does not protect its memory: \<open>rt_rbb_blk_queue_get\<close> takes the blocks out of the list, by
  which \<open>rt_rbb_blk_alloc\<close> knows what is in use. When it has taken the only block of a ring, the next
  allocation returns the same memory, before the reader has freed the queue.
\<close>

theorem rt_rbb_blk_queue_get_releases_early:
  assumes "blk_list r = [i]" "blk_status (blk_set r i) = RT_RBB_BLK_PUT" "blk_buf (blk_set r i) = rbb_buf r"
    "rt_rbb_blk_queue_get len q r = (tot, q', r')" "find_empty_blk_in_set r' = Some j"
  shows "blocks q' = i \<and> blk_num q' = 1 \<and> rt_rbb_blk_queue_buf q' r' = rbb_buf r
    \<and> fst (rt_rbb_blk_alloc sz r') = Some j \<and> rt_rbb_blk_buf j (snd (rt_rbb_blk_alloc sz r')) = rbb_buf r"
proof -
  have r: "r' = upd_blk i (\<lambda>b. b\<lparr>blk_status := RT_RBB_BLK_GET\<rparr>) (r\<lparr>blk_list := []\<rparr>)" and q: "q' = q\<lparr>blocks := i, blk_num := 1\<rparr>"
    using assms(1-4) by (auto simp: rt_rbb_blk_queue_get_def Let_def)
  have "0 < blk_max_num r'" using find_empty(1) [OF assms(5)] by simp
  moreover have "blk_list r' = []" "rbb_buf r' = rbb_buf r" "blk_buf (blk_set r' i) = rbb_buf r" using assms(3) by (simp_all add: r upd_blk_def)
  ultimately show ?thesis using assms(5) q by (simp add: rt_rbb_blk_alloc_def rt_rbb_blk_queue_buf_def rt_rbb_blk_buf_def)
qed

theorem rt_rbb_blk_queue_get_releases_early_witness:
  "rt_rbb_blk_buf 1 (snd (rt_rbb_blk_alloc 16 (snd (snd (rt_rbb_blk_queue_get 64 \<lparr>blocks = 0, blk_num = 0\<rparr> example_put))))) = 0x1000"
  using rt_rbb_blk_queue_get_releases_early [of example_put 0 64 "\<lparr>blocks = 0, blk_num = 0\<rparr>" 40
      "\<lparr>blocks = 0, blk_num = 1\<rparr>" "upd_blk 0 (\<lambda>b. b\<lparr>blk_status := RT_RBB_BLK_GET\<rparr>) (example_put\<lparr>blk_list := []\<rparr>)" 1 16]
    example_put by (simp add: rt_rbb_blk_queue_get_def Let_def)

text \<open>
  Into an empty ring \<open>rt_rbb_blk_alloc\<close> grants any size: a block larger than the whole buffer is
  returned, and its end lies beyond it.
\<close>

theorem rt_rbb_blk_alloc_empty_overflows:
  assumes "blk_list r = []" "find_empty_blk_in_set r = Some i" "rbb_buf_size r < unat sz" "unat sz < 2 ^ 24"
  shows "fst (rt_rbb_blk_alloc sz r) = Some i
    \<and> rbb_buf r + rbb_buf_size r < blk_end (snd (rt_rbb_blk_alloc sz r)) i"
  using assms find_empty(1) [OF assms(2)] by (simp add: rt_rbb_blk_alloc_def blk_end_def)

theorem rt_rbb_blk_alloc_empty_overflows_witness:
  "fst (rt_rbb_blk_alloc 100 example_rbb) = Some 0 \<and> 0x1000 + 64 < blk_end (snd (rt_rbb_blk_alloc 100 example_rbb)) 0"
proof -
  have "find_empty_blk_in_set example_rbb = Some 0" "blk_list example_rbb = []"
    by (simp_all add: example_rbb_def rt_rbb_init_def find_empty_blk_in_set_def upt_rec)
  then show ?thesis using rt_rbb_blk_alloc_empty_overflows [of example_rbb 0 100] example_rbb by simp
qed

end
