(* ===== verification/Completion.thy ===== *)
theory Completion
  imports Ipc_Queue
begin

text \<open>
  Completions, \<^verbatim>\<open>rt-thread/components/drivers/src/completion.c\<close>: a driver's thread waits until an
  interrupt handler reports that a transfer is done. The state extends the kernel with the flags of
  the completions; the wait list of the completion at \<open>a\<close> is \<open>Suspended a\<close>. As in the IPC theories, a
  wait is split at \<open>rt_schedule\<close>: \<open>rt_completion_wait_end\<close> is what the thread does when it runs again.
\<close>

section \<open>State and operations\<close>

record rt_completion =
  comp_flag :: u32

record completions = kernel +
  completion :: "addr \<Rightarrow> rt_completion"

abbreviation (input) RT_COMPLETED :: u32 where "RT_COMPLETED \<equiv> 1"
abbreviation (input) RT_UNCOMPLETED :: u32 where "RT_UNCOMPLETED \<equiv> 0"

definition set_flag :: "addr \<Rightarrow> u32 \<Rightarrow> 'a completions_scheme \<Rightarrow> 'a completions_scheme" where
  "set_flag a v k = k\<lparr>completion := (completion k)(a := (completion k a)\<lparr>comp_flag := v\<rparr>)\<rparr>"

definition rt_completion_init :: "addr \<Rightarrow> 'a completions_scheme \<Rightarrow> 'a completions_scheme" where
  "rt_completion_init a k =
     (let k = set_flag a RT_UNCOMPLETED k
      in k\<lparr>tlist := (tlist k)(Suspended a := [])\<rparr>)"

text \<open>\<open>Comp_faults\<close> is the write through the null thread pointer when code that is not a thread has
  to wait.\<close>

datatype comp_outcome = Comp_returns rt_err | Comp_blocks | Comp_faults

text \<open>What the waiting calls of the device layer do with the running thread: clear its error, suspend
  it, append it to a wait list, start its timer, and schedule.\<close>

definition wait_on :: "list_id \<Rightarrow> tid \<Rightarrow> int \<Rightarrow> 'a kernel_scheme \<Rightarrow> 'a kernel_scheme" where
  "wait_on l t timeout k =
     (let k = upd_thread t (\<lambda>th. th\<lparr>error := RT_EOK\<rparr>) k;
          k = snd (rt_thread_suspend t k);
          k = tlist_push_back l t k
      in rt_schedule (wait_timer t timeout k))"

definition rt_completion_wait :: "addr \<Rightarrow> int \<Rightarrow> 'a completions_scheme \<Rightarrow> comp_outcome \<times> 'a completions_scheme" where
  "rt_completion_wait a timeout k =
     (if comp_flag (completion k a) \<noteq> RT_COMPLETED then
        (if timeout = 0 then (Comp_returns (- RT_ETIMEOUT), k)
         else case rt_thread_self k of
                None \<Rightarrow> (Comp_faults, k)
              | Some t \<Rightarrow> (Comp_blocks, wait_on (Suspended a) t timeout k))
      else (Comp_returns RT_EOK, set_flag a RT_UNCOMPLETED k))"

definition rt_completion_wait_end :: "addr \<Rightarrow> tid \<Rightarrow> 'a completions_scheme \<Rightarrow> rt_err \<times> 'a completions_scheme" where
  "rt_completion_wait_end a t k = (error (thread k t), set_flag a RT_UNCOMPLETED k)"

definition rt_completion_done :: "addr \<Rightarrow> 'a completions_scheme \<Rightarrow> 'a completions_scheme" where
  "rt_completion_done a k =
     (if comp_flag (completion k a) = RT_COMPLETED then k
      else
        let k = set_flag a RT_COMPLETED k
        in if tlist k (Suspended a) \<noteq> [] then rt_schedule (ipc_list_resume (Suspended a) k) else k)"

section \<open>Waiting and waking\<close>

lemma wait_on_ipc_wait: "wait_on l t time k = rt_schedule (ipc_wait l t RT_IPC_FLAG_FIFO time (upd_thread t (\<lambda>th. th\<lparr>error := 0\<rparr>) k))"
  by (simp add: wait_on_def ipc_wait_def ipc_list_suspend_def Let_def)

lemma wait_on_effect:
  assumes k: "kernel_inv k" and t: "tstat k t = 3" and l: "wait_list l"
  shows "kernel_inv (wait_on l t time k)" "tlist (wait_on l t time k) l = tlist k l @ [t]" "tstat (wait_on l t time k) t = 2"
    "wait_list m \<Longrightarrow> m \<noteq> l \<Longrightarrow> tlist (wait_on l t time k) m = tlist k m" "kernel.more (wait_on l t time k) = kernel.more k"
    "error (thread (wait_on l t time k) t) = 0"
proof -
  note b = block_effect [OF k t l, where flag = 0 and time = time, folded wait_on_ipc_wait]
  show "kernel_inv (wait_on l t time k)" "tlist (wait_on l t time k) l = tlist k l @ [t]" "tstat (wait_on l t time k) t = 2"
    "wait_list m \<Longrightarrow> m \<noteq> l \<Longrightarrow> tlist (wait_on l t time k) m = tlist k m" "kernel.more (wait_on l t time k) = kernel.more k"
    using b by (simp_all add: wait_place_def)
  show "error (thread (wait_on l t time k) t) = 0"
    by (simp add: wait_on_def wait_timer_def rt_thread_suspend_def rt_timer_start_def Let_def)
qed

text \<open>The timer of the thread is set to the whole timeout.\<close>

lemma wait_on_timer:
  assumes "0 < time"
  shows "timeout_tick (timer (wait_on l t time k) (Thread_timer t)) = rt_tick k + of_int time"
proof -
  define s where "s = tlist_push_back l t (snd (rt_thread_suspend t (upd_thread t (\<lambda>th. th\<lparr>error := 0\<rparr>) k)))"
  define c where "c = snd (rt_timer_control (Thread_timer t) 0 (of_int time) s)"
  have c: "timer_init_tick (timer c (Thread_timer t)) = of_int time" by (simp add: c_def rt_timer_control_def)
  have "rt_tick s = rt_tick k" by (simp add: s_def rt_thread_suspend_def Let_def)
  then have "rt_tick c = rt_tick k" by (simp add: c_def)
  then have "timeout_tick (timer (timer_enqueue (Thread_timer t) c) (Thread_timer t)) = rt_tick k + of_int time" using c by simp
  moreover have "timer (snd (rt_thread_resume u j)) = timer j" for u and j :: "'a kernel_scheme"
    by (simp add: rt_thread_resume_def Let_def)
  then have "timer (rt_timer_start (Thread_timer t) c) = timer (timer_enqueue (Thread_timer t) c)"
    by (simp add: rt_timer_start_def Let_def)
  moreover have "wait_on l t time k = rt_schedule (rt_timer_start (Thread_timer t) c)"
    using assms by (simp add: wait_on_def wait_timer_def s_def c_def Let_def)
  ultimately show ?thesis by simp
qed

lemma completions_more_sel: "kernel.more k' = kernel.more k \<Longrightarrow> completion k' = completion (k :: 'a completions_scheme)"
  by (cases k; cases k') simp

lemma set_flag_sel [simp]:
  "completion (set_flag a v k) = (completion k)(a := (completion k a)\<lparr>comp_flag := v\<rparr>)"
  "tlist (set_flag a v k) = tlist k" "thread (set_flag a v k) = thread k" "tstat (set_flag a v k) = tstat k"
  "rt_current_thread (set_flag a v k) = rt_current_thread k"
  by (simp_all add: set_flag_def tstat_def fun_eq_iff)

lemma set_flag_inv [kinv]: "kernel_inv k \<Longrightarrow> kernel_inv (set_flag a v k)"
  by (erule kernel_inv_more) (simp_all add: set_flag_def)

section \<open>Specification\<close>

text \<open>Whether the completion has been reported and not yet been taken, and the threads that wait.\<close>

type_synonym comp_spec = "bool \<times> tid list"

definition comp_abs :: "addr \<Rightarrow> 'a completions_scheme \<Rightarrow> comp_spec" where
  "comp_abs a k = (comp_flag (completion k a) = RT_COMPLETED, tlist k (Suspended a))"

text \<open>The assertion in \<open>rt_completion_wait\<close>, which is compiled only with \<^verbatim>\<open>RT_DEBUG\<close>, says how a
  completion may be used: one thread waits at a time.\<close>

definition comp_ok :: "comp_spec \<Rightarrow> bool" where
  "comp_ok c \<longleftrightarrow> length (snd c) \<le> 1 \<and> (fst c \<longrightarrow> snd c = [])"

fun wait_spec :: "int \<Rightarrow> tid \<Rightarrow> comp_spec \<Rightarrow> comp_outcome \<times> comp_spec" where
  "wait_spec timeout t (True, q) = (Comp_returns RT_EOK, (False, q))"
| "wait_spec timeout t (False, q) =
     (if timeout = 0 then (Comp_returns (- RT_ETIMEOUT), (False, q)) else (Comp_blocks, (False, q @ [t])))"

fun done_spec :: "comp_spec \<Rightarrow> comp_spec" where
  "done_spec (True, q) = (True, q)"
| "done_spec (False, q) = (True, tl q)"

lemma rt_completion_wait_effect:
  assumes k: "kernel_inv k" and c: "rt_current_thread k = Some t" "tstat k t = 3"
  shows "kernel_inv (snd (rt_completion_wait a timeout k))"
    "(fst (rt_completion_wait a timeout k), comp_abs a (snd (rt_completion_wait a timeout k))) = wait_spec timeout t (comp_abs a k)"
proof -
  note w = wait_on_effect [OF k c(2) wait_list_simps(1) [of a], where time = timeout]
  show "kernel_inv (snd (rt_completion_wait a timeout k))"
    using k c(1) w(1) by (simp add: rt_completion_wait_def rt_thread_self_def set_flag_inv)
  show "(fst (rt_completion_wait a timeout k), comp_abs a (snd (rt_completion_wait a timeout k))) = wait_spec timeout t (comp_abs a k)"
    using c(1) w(2) completions_more_sel [OF w(5)] by (simp add: rt_completion_wait_def comp_abs_def rt_thread_self_def)
qed

lemma rt_completion_done_wake:
  "rt_completion_done a k = (if comp_flag (completion k a) = 1 then k else wake_one (Suspended a) (set_flag a 1 k))"
  by (simp add: rt_completion_done_def wake_one_def Let_def)

lemma rt_completion_done_effect:
  assumes k: "kernel_inv k"
  shows "kernel_inv (rt_completion_done a k)" "comp_abs a (rt_completion_done a k) = done_spec (comp_abs a k)"
    "comp_flag (completion k a) \<noteq> 1 \<Longrightarrow> tlist k (Suspended a) = t # ts \<Longrightarrow> tstat (rt_completion_done a k) t \<in> {1, 3}"
proof -
  note w = wake_one_effect [OF set_flag_inv [OF k, of a 1] wait_list_simps(1) [of a]]
  show "kernel_inv (rt_completion_done a k)" using k w(1) by (simp add: rt_completion_done_wake)
  show "comp_abs a (rt_completion_done a k) = done_spec (comp_abs a k)"
    using w(2) completions_more_sel [OF w(4)] by (simp add: rt_completion_done_wake comp_abs_def)
  show "tstat (rt_completion_done a k) t \<in> {1, 3}" if "comp_flag (completion k a) \<noteq> 1" "tlist k (Suspended a) = t # ts"
    using w(5) that by (simp add: rt_completion_done_wake)
qed

lemma rt_completion_done_error [simp]: "error (thread (rt_completion_done a k) u) = error (thread k u)"
  by (simp add: rt_completion_done_def ipc_list_resume_def Let_def)

section \<open>Properties\<close>

text \<open>
  C19. A completion, used by one waiting thread at a time as its assertion demands, refines a flag with
  a place for that thread: \<open>rt_completion_wait\<close> by the running thread takes the flag, gives up or
  waits; \<open>rt_completion_done\<close> sets the flag and wakes the thread that waits, if there is one; both
  keep it so that nobody waits once the flag is set. The thread that waits is woken by
  \<open>rt_completion_done\<close> and returns \<open>RT_EOK\<close> with the flag taken, whatever happened while it waited.
\<close>

theorem rt_completion_refines:
  assumes "kernel_inv k" "rt_current_thread k = Some t" "tstat k t = RT_THREAD_RUNNING" "comp_ok (comp_abs a k)"
    and "kernel_inv w" "comp_abs a w = (False, [u])" "error (thread w u) = RT_EOK"
  shows "(snd (comp_abs a k) = [] \<longrightarrow> (case rt_completion_wait a timeout k of (r, k') \<Rightarrow>
        (r, comp_abs a k') = wait_spec timeout t (comp_abs a k) \<and> comp_ok (comp_abs a k') \<and> kernel_inv k'
        \<and> (r = Comp_blocks \<longrightarrow> tstat k' t = RT_THREAD_SUSPEND \<and> error (thread k' t) = RT_EOK)))
    \<and> comp_abs a (rt_completion_done a k) = (True, []) \<and> kernel_inv (rt_completion_done a k)
    \<and> tstat (rt_completion_done a w) u \<in> {RT_THREAD_READY, RT_THREAD_RUNNING}
    \<and> (case rt_completion_wait_end a u (rt_completion_done a w) of (r, w') \<Rightarrow> r = RT_EOK \<and> comp_abs a w' = (False, []))"
proof -
  have b: "tstat (snd (rt_completion_wait a timeout k)) t = 2 \<and> error (thread (snd (rt_completion_wait a timeout k)) t) = 0"
    if "fst (rt_completion_wait a timeout k) = Comp_blocks"
    using that wait_on_effect(3,6) [OF assms(1,3) wait_list_simps(1) [of a], where time = timeout] assms(2)
    by (auto simp: rt_completion_wait_def rt_thread_self_def split: if_splits)
  have wt: "comp_ok (snd (wait_spec timeout t (f, [])))" for f by (cases f) (simp_all add: comp_ok_def)
  have "case rt_completion_wait a timeout k of (r, k') \<Rightarrow>
      (r, comp_abs a k') = wait_spec timeout t (comp_abs a k) \<and> comp_ok (comp_abs a k') \<and> kernel_inv k'
      \<and> (r = Comp_blocks \<longrightarrow> tstat k' t = 2 \<and> error (thread k' t) = 0)" if none: "snd (comp_abs a k) = []"
  proof -
    obtain f where f: "comp_abs a k = (f, [])" using none by (metis prod.collapse)
    show ?thesis
      using rt_completion_wait_effect [OF assms(1-3), of a timeout] b wt [of f] unfolding f
      by (cases "rt_completion_wait a timeout k") (auto dest: arg_cong [of _ _ snd])
  qed
  moreover have "comp_abs a (rt_completion_done a k) = (True, [])"
    using rt_completion_done_effect(2) [OF assms(1), of a] assms(4)
    by (cases "comp_abs a k" rule: done_spec.cases) (auto simp: comp_ok_def le_Suc_eq length_Suc_conv)
  moreover have "tstat (rt_completion_done a w) u \<in> {1, 3}" "comp_abs a (rt_completion_done a w) = (True, [])"
    using rt_completion_done_effect [OF assms(5), of a] assms(6) by (auto simp: comp_abs_def)
  ultimately show ?thesis
    using rt_completion_done_effect(1) [OF assms(1), of a] assms(7)
    by (auto simp: rt_completion_wait_end_def comp_abs_def)
qed

definition example_completions :: completions where
  "example_completions = example_running (completions.fields (\<lambda>_. \<lparr>comp_flag = 0\<rparr>))"

lemma example_completions_sel [simp]:
  "kernel_inv example_completions" "rt_current_thread example_completions = Some 1" "tstat example_completions 1 = 3"
  "tlist example_completions (Suspended a) = []" "comp_flag (completion example_completions a) = 0"
  "rt_interrupt_nest example_completions = 0" "timer_row example_completions r = []"
  by (simp_all add: example_completions_def example_running_inv)
    (simp_all add: example_running_def example_kernel_def boot_kernel_def completions.defs)

text \<open>The example: thread 1 waits on completion 4.\<close>

definition example_waiting :: completions where
  "example_waiting = wait_on (Suspended 4) 1 (- 1) example_completions"

lemma example_waiting:
  "kernel_inv example_waiting" "comp_abs 4 example_waiting = (False, [1])" "error (thread example_waiting 1) = 0"
  "tstat example_waiting 1 = 2" "Thread_timer 1 \<notin> set (timer_row example_waiting Hard)"
proof -
  note w = wait_on_effect [OF example_completions_sel(1,3) wait_list_simps(1) [of 4], where time = "- 1", folded example_waiting_def]
  show "kernel_inv example_waiting" "error (thread example_waiting 1) = 0" "tstat example_waiting 1 = 2" by (rule w)+
  show "comp_abs 4 example_waiting = (False, [1])" using w(2) completions_more_sel [OF w(5)] by (simp add: comp_abs_def)
  show "Thread_timer 1 \<notin> set (timer_row example_waiting Hard)"
    by (auto simp: example_waiting_def wait_on_def wait_timer_def rt_thread_suspend_def Let_def dest!: timer_row_stop_subset(1))
qed

theorem rt_completion_refines_witness:
  "fst (rt_completion_wait 4 0 example_completions) = Comp_returns (- RT_ETIMEOUT)
    \<and> fst (rt_completion_wait_end 4 1 (rt_completion_done 4 example_waiting)) = RT_EOK"
proof -
  have "comp_ok (comp_abs 4 example_completions)" "snd (comp_abs 4 example_completions) = []"
    "comp_abs 4 example_completions = (False, [])" by (simp_all add: comp_abs_def comp_ok_def)
  then show ?thesis
    using rt_completion_refines [OF example_completions_sel(1-3) _ example_waiting(1-3), of 0] by (auto simp: case_prod_beta)
qed

text \<open>
  A completion that is reported after the waiting thread has timed out, but before that thread
  runs, is lost: the thread returns \<open>-RT_ETIMEOUT\<close> and takes the flag all the same, so the next wait
  does not find it.
\<close>

theorem rt_completion_timeout_loses:
  assumes "kernel_inv k" "comp_abs a k = (False, [t])" "Thread_timer t \<notin> set (timer_row k Hard)"
  shows "case rt_completion_wait_end a t (rt_completion_done a (rt_thread_timeout t k)) of (r, k') \<Rightarrow>
    r = - RT_ETIMEOUT \<and> fst (rt_completion_wait a 0 k') = Comp_returns (- RT_ETIMEOUT)"
proof -
  have l: "tlist k (Suspended a) = [t]" using assms(2) by (simp add: comp_abs_def)
  have "tstat k t = 2" using wait_list_hd(1) [OF assms(1) wait_list_simps(1) l] .
  then show ?thesis using rt_thread_timeout_effect(2) [OF assms(1) _ assms(3)]
    by (simp add: rt_completion_wait_end_def rt_completion_wait_def)
qed

theorem rt_completion_timeout_loses_witness:
  "fst (rt_completion_wait_end 4 1 (rt_completion_done 4 (rt_thread_timeout 1 example_waiting))) = - RT_ETIMEOUT"
  using rt_completion_timeout_loses [OF example_waiting(1,2,5)] by (simp add: case_prod_beta)

end
