(* ===== verification/Dataqueue.thy ===== *)
theory Dataqueue
  imports Completion Mem
begin

text \<open>
  Data queues, \<^verbatim>\<open>rt-thread/components/drivers/src/dataqueue.c\<close>: a bounded queue of pointers and sizes
  between a driver and its user, with a low-water mark and a callback. The state extends the kernel
  with the queues and the heap the slots are taken from. The threads that wait to pop from the queue
  at \<open>a\<close> are on \<open>Suspended a\<close>, those that wait to push on \<open>Senders a\<close>. The indices are 15 bits wide. The
  callback \<open>evt_notify\<close> is user code: \<open>nf f a e\<close> is what the callback named \<open>f\<close> does with the queue at \<open>a\<close>
  and the event \<open>e\<close>. Calls that block are split at \<open>rt_schedule\<close>.
\<close>

section \<open>State\<close>

record rt_data_queue =
  dq_magic :: u32
  dq_size :: u16
  dq_lwm :: u16
  get_index :: "15 word"
  is_empty :: bool
  put_index :: "15 word"
  is_full :: bool
  dq_items :: "nat \<Rightarrow> nat \<times> u32"
  dq_queue :: "nat option"
  evt_notify :: "nat option"

record data_queues = kernel +
  data_queue :: "addr \<Rightarrow> rt_data_queue"
  dq_heap :: small_heap

abbreviation (input) DATAQUEUE_MAGIC :: u32 where "DATAQUEUE_MAGIC \<equiv> 0xbead0e0e"
abbreviation (input) RT_DATAQUEUE_EVENT_POP :: nat where "RT_DATAQUEUE_EVENT_POP \<equiv> 1"
abbreviation (input) RT_DATAQUEUE_EVENT_PUSH :: nat where "RT_DATAQUEUE_EVENT_PUSH \<equiv> 2"
abbreviation (input) RT_DATAQUEUE_EVENT_LWM :: nat where "RT_DATAQUEUE_EVENT_LWM \<equiv> 3"

type_synonym 'a notifier = "nat \<Rightarrow> addr \<Rightarrow> nat \<Rightarrow> 'a data_queues_scheme \<Rightarrow> 'a data_queues_scheme"

definition upd_dq :: "addr \<Rightarrow> (rt_data_queue \<Rightarrow> rt_data_queue) \<Rightarrow> 'a data_queues_scheme \<Rightarrow> 'a data_queues_scheme" where
  "upd_dq a f k = k\<lparr>data_queue := (data_queue k)(a := f (data_queue k a))\<rparr>"

section \<open>The ring\<close>

definition dq_put :: "nat \<times> u32 \<Rightarrow> rt_data_queue \<Rightarrow> rt_data_queue" where
  "dq_put item q =
     (let q = q\<lparr>dq_items := (dq_items q)(unat (put_index q) := item)\<rparr>;
          q = q\<lparr>put_index := put_index q + 1\<rparr>;
          q = (if unat (put_index q) = unat (dq_size q) then q\<lparr>put_index := 0\<rparr> else q);
          q = q\<lparr>is_empty := False\<rparr>
      in if put_index q = get_index q then q\<lparr>is_full := True\<rparr> else q)"

definition dq_get :: "rt_data_queue \<Rightarrow> (nat \<times> u32) \<times> rt_data_queue" where
  "dq_get q =
     (let item = dq_items q (unat (get_index q));
          q = q\<lparr>get_index := get_index q + 1\<rparr>;
          q = (if unat (get_index q) = unat (dq_size q) then q\<lparr>get_index := 0\<rparr> else q);
          q = q\<lparr>is_full := False\<rparr>
      in (item, if put_index q = get_index q then q\<lparr>is_empty := True\<rparr> else q))"

definition rt_data_queue_len :: "rt_data_queue \<Rightarrow> u16" where
  "rt_data_queue_len q =
     (if is_empty q then 0
      else if put_index q > get_index q then ucast (put_index q) - ucast (get_index q)
      else dq_size q + ucast (put_index q) - ucast (get_index q))"

section \<open>Operations\<close>

definition rt_data_queue_init :: "addr \<Rightarrow> u16 \<Rightarrow> u16 \<Rightarrow> nat option \<Rightarrow> 'a data_queues_scheme \<Rightarrow> (rt_err \<times> 'a data_queues_scheme) option" where
  "rt_data_queue_init a sz lwm notify k =
     (let k = upd_dq a (\<lambda>q. q\<lparr>evt_notify := notify, dq_magic := DATAQUEUE_MAGIC, dq_size := sz, dq_lwm := lwm\<rparr>) k;
          k = upd_dq a (\<lambda>q. q\<lparr>get_index := 0, put_index := 0, is_empty := True, is_full := False\<rparr>) k;
          k = k\<lparr>tlist := (tlist k)(Senders a := [], Suspended a := [])\<rparr>
      in case rt_malloc (8 * ucast sz) (dq_heap k) of
           None \<Rightarrow> None
         | Some (p, h) \<Rightarrow>
             let k = upd_dq a (\<lambda>q. q\<lparr>dq_queue := p\<rparr>) (k\<lparr>dq_heap := h\<rparr>)
             in Some (if p = None then - RT_ENOMEM else RT_EOK, k))"

definition dq_notify :: "'a notifier \<Rightarrow> addr \<Rightarrow> nat \<Rightarrow> 'a data_queues_scheme \<Rightarrow> 'a data_queues_scheme" where
  "dq_notify nf a e k = (case evt_notify (data_queue k a) of None \<Rightarrow> k | Some f \<Rightarrow> nf f a e k)"

datatype dq_outcome = Dq_returns rt_err "(nat \<times> u32) option" | Dq_blocks | Dq_faults

text \<open>The loop of \<open>rt_data_queue_push\<close> and what follows it; \<open>self\<close> is the local variable \<open>thread\<close>.\<close>

definition dq_push_loop :: "'a notifier \<Rightarrow> addr \<Rightarrow> nat \<times> u32 \<Rightarrow> tid option \<Rightarrow> int \<Rightarrow> 'a data_queues_scheme \<Rightarrow> dq_outcome \<times> 'a data_queues_scheme" where
  "dq_push_loop nf a item self timeout k =
     (if is_full (data_queue k a) then
        (if timeout = 0 then (Dq_returns (- RT_ETIMEOUT) None, k)
         else case self of
                None \<Rightarrow> (Dq_faults, k)
              | Some t \<Rightarrow> (Dq_blocks, wait_on (Senders a) t timeout k))
      else
        let k = upd_dq a (dq_put item) k
        in if tlist k (Suspended a) \<noteq> [] then (Dq_returns RT_EOK None, rt_schedule (ipc_list_resume (Suspended a) k))
           else (Dq_returns RT_EOK None, dq_notify nf a RT_DATAQUEUE_EVENT_PUSH k))"

definition rt_data_queue_push :: "'a notifier \<Rightarrow> addr \<Rightarrow> nat \<Rightarrow> u32 \<Rightarrow> int \<Rightarrow> 'a data_queues_scheme \<Rightarrow> dq_outcome \<times> 'a data_queues_scheme" where
  "rt_data_queue_push nf a data_ptr data_size timeout k =
     dq_push_loop nf a (data_ptr, data_size) (rt_thread_self k) timeout k"

text \<open>A pusher that runs again: it looks again with the timeout it started with.\<close>

definition rt_data_queue_push_resumed :: "'a notifier \<Rightarrow> addr \<Rightarrow> nat \<Rightarrow> u32 \<Rightarrow> tid \<Rightarrow> int \<Rightarrow> 'a data_queues_scheme \<Rightarrow> dq_outcome \<times> 'a data_queues_scheme" where
  "rt_data_queue_push_resumed nf a data_ptr data_size t timeout k =
     (if error (thread k t) \<noteq> RT_EOK then (Dq_returns (error (thread k t)) None, k)
      else dq_push_loop nf a (data_ptr, data_size) (Some t) timeout k)"

definition dq_pop_loop :: "'a notifier \<Rightarrow> addr \<Rightarrow> tid option \<Rightarrow> int \<Rightarrow> 'a data_queues_scheme \<Rightarrow> dq_outcome \<times> 'a data_queues_scheme" where
  "dq_pop_loop nf a self timeout k =
     (if is_empty (data_queue k a) then
        (if timeout = 0 then (Dq_returns (- RT_ETIMEOUT) None, k)
         else case self of
                None \<Rightarrow> (Dq_faults, k)
              | Some t \<Rightarrow> (Dq_blocks, wait_on (Suspended a) t timeout k))
      else
        case dq_get (data_queue k a) of (item, q) \<Rightarrow>
          let k = upd_dq a (\<lambda>_. q) k
          in if rt_data_queue_len (data_queue k a) \<le> dq_lwm (data_queue k a) then
               let k = (if tlist k (Senders a) \<noteq> [] then rt_schedule (ipc_list_resume (Senders a) k) else k)
               in (Dq_returns RT_EOK (Some item), dq_notify nf a RT_DATAQUEUE_EVENT_LWM k)
             else (Dq_returns RT_EOK (Some item), dq_notify nf a RT_DATAQUEUE_EVENT_POP k))"

definition rt_data_queue_pop :: "'a notifier \<Rightarrow> addr \<Rightarrow> int \<Rightarrow> 'a data_queues_scheme \<Rightarrow> dq_outcome \<times> 'a data_queues_scheme" where
  "rt_data_queue_pop nf a timeout k = dq_pop_loop nf a (rt_thread_self k) timeout k"

definition rt_data_queue_pop_resumed :: "'a notifier \<Rightarrow> addr \<Rightarrow> tid \<Rightarrow> int \<Rightarrow> 'a data_queues_scheme \<Rightarrow> dq_outcome \<times> 'a data_queues_scheme" where
  "rt_data_queue_pop_resumed nf a t timeout k =
     (if error (thread k t) \<noteq> RT_EOK then (Dq_returns (error (thread k t)) None, k)
      else dq_pop_loop nf a (Some t) timeout k)"

definition rt_data_queue_peek :: "addr \<Rightarrow> 'a data_queues_scheme \<Rightarrow> rt_err \<times> (nat \<times> u32) option" where
  "rt_data_queue_peek a k =
     (if is_empty (data_queue k a) then (- RT_EEMPTY, None)
      else (RT_EOK, Some (dq_items (data_queue k a) (unat (get_index (data_queue k a))))))"

definition rt_data_queue_reset :: "addr \<Rightarrow> 'a data_queues_scheme \<Rightarrow> 'a data_queues_scheme option" where
  "rt_data_queue_reset a k =
     (let k = upd_dq a (\<lambda>q. q\<lparr>get_index := 0, put_index := 0, is_empty := True, is_full := False\<rparr>) k;
          k = rt_enter_critical k
      in map_option (\<lambda>k. rt_schedule (rt_exit_critical k))
           (Option.bind (ipc_list_resume_all (Suspended a) k) (ipc_list_resume_all (Senders a))))"

definition rt_data_queue_deinit :: "addr \<Rightarrow> 'a data_queues_scheme \<Rightarrow> (rt_err \<times> 'a data_queues_scheme) option" where
  "rt_data_queue_deinit a k =
     Option.bind (rt_data_queue_reset a k) (\<lambda>k.
       let k = upd_dq a (\<lambda>q. q\<lparr>dq_magic := 0\<rparr>) k
       in map_option (\<lambda>h. (RT_EOK, k\<lparr>dq_heap := h\<rparr>)) (rt_free (dq_queue (data_queue k a)) (dq_heap k)))"

section \<open>The ring is a bounded queue\<close>

definition dq_len :: "rt_data_queue \<Rightarrow> nat" where
  "dq_len q =
     (if is_empty q then 0
      else if get_index q < put_index q then unat (put_index q) - unat (get_index q)
      else unat (dq_size q) + unat (put_index q) - unat (get_index q))"

definition dq_contents :: "rt_data_queue \<Rightarrow> (nat \<times> u32) list" where
  "dq_contents q = map (\<lambda>i. dq_items q ((unat (get_index q) + i) mod unat (dq_size q))) [0..<dq_len q]"

definition dq_ok :: "rt_data_queue \<Rightarrow> bool" where
  "dq_ok q \<longleftrightarrow> unat (dq_size q) \<le> 2 ^ 15 \<and> unat (get_index q) < unat (dq_size q) \<and> unat (put_index q) < unat (dq_size q)
     \<and> \<not> (is_empty q \<and> is_full q) \<and> (put_index q = get_index q \<longleftrightarrow> is_empty q \<or> is_full q)"

text \<open>The step of an index, also at 32768 slots, where the 15 bits wrap by themselves.\<close>

lemma index_step:
  fixes x :: "15 word" and n :: u16
  assumes "unat x < unat n" "unat n \<le> 2 ^ 15"
  shows "unat (if unat (x + 1) = unat n then 0 else x + 1) = Suc (unat x) mod unat n"
proof (cases "Suc (unat x) = 2 ^ 15")
  case True
  then have "unat (x + 1) = 0" by (simp add: unat_word_ariths)
  moreover have "unat n = 2 ^ 15" using True assms by simp
  ultimately show ?thesis using True by simp
next
  case False
  moreover have "unat x < 2 ^ 15" using unsigned_less [of x] by simp
  ultimately have "unat (x + 1) = Suc (unat x)" by (simp add: unat_add_no_wrap)
  then show ?thesis using assms by (auto simp: mod_Suc)
qed

lemma dq_len_put:
  assumes "dq_ok q"
  shows "unat (put_index q) = (unat (get_index q) + dq_len q) mod unat (dq_size q)" "dq_len q \<le> unat (dq_size q)"
    "is_full q \<longleftrightarrow> dq_len q = unat (dq_size q)" "is_empty q \<longleftrightarrow> dq_len q = 0"
  using assms by (auto simp: dq_ok_def dq_len_def word_less_nat_alt word_unat_eq_iff)

lemma dq_full_ok:
  assumes "dq_ok q"
  shows "is_full q \<longleftrightarrow> \<not> length (dq_contents q) < unat (dq_size q)" "is_empty q \<longleftrightarrow> dq_contents q = []"
    "length (dq_contents q) \<le> unat (dq_size q)" "0 < unat (dq_size q)"
  using dq_len_put [OF assms] assms by (auto simp: dq_contents_def dq_ok_def)

text \<open>An index that is known to be the next slot fixes the flags and the length.\<close>

lemma dq_len_unique:
  assumes "unat (put_index q) = (unat (get_index q) + n) mod unat (dq_size q)" "n \<le> unat (dq_size q)"
    "is_empty q \<longleftrightarrow> n = 0" "is_full q \<longleftrightarrow> n = unat (dq_size q)" "unat (get_index q) < unat (dq_size q)" "unat (dq_size q) \<le> 2 ^ 15"
  shows "dq_len q = n" "dq_ok q"
proof -
  have p: "unat (put_index q) = (if unat (get_index q) + n < unat (dq_size q) then unat (get_index q) + n
      else unat (get_index q) + n - unat (dq_size q))"
    using assms(1,2,5) by (simp add: mod_if)
  show "dq_len q = n" using p assms(2-5) by (auto simp: dq_len_def word_less_nat_alt split: if_splits)
  have "put_index q = get_index q \<longleftrightarrow> n = 0 \<or> n = unat (dq_size q)"
    using p assms(2,5) by (auto simp: word_unat_eq_iff split: if_splits)
  then show "dq_ok q" using assms by (auto simp: dq_ok_def)
qed

lemma dq_put_effect:
  assumes ok: "dq_ok q" and room: "length (dq_contents q) < unat (dq_size q)"
  shows "dq_ok (dq_put item q)" "dq_contents (dq_put item q) = dq_contents q @ [item]"
    "dq_size (dq_put item q) = dq_size q" "dq_lwm (dq_put item q) = dq_lwm q" "evt_notify (dq_put item q) = evt_notify q"
proof -
  let ?n = "unat (dq_size q)" and ?g = "unat (get_index q)" and ?p = "if unat (put_index q + 1) = unat (dq_size q) then 0 else put_index q + 1"
  note l = dq_len_put [OF ok]
  have r: "dq_len q < ?n" using room by (simp add: dq_contents_def)
  have b: "unat (put_index q) < ?n" "?n \<le> 2 ^ 15" "?g < ?n" using ok by (auto simp: dq_ok_def)
  have u: "unat ?p = (?g + Suc (dq_len q)) mod ?n" unfolding index_step [OF b(1,2)] l(1) by (simp add: mod_Suc_eq)
  have e: "?p = get_index q \<longleftrightarrow> Suc (dq_len q) = ?n"
    using b(3) r unfolding word_unat_eq_iff u by (auto simp: mod_if)
  have q: "dq_put item q = q\<lparr>dq_items := (dq_items q)(unat (put_index q) := item), put_index := ?p, is_empty := False,
      is_full := is_full q \<or> Suc (dq_len q) = ?n\<rparr>"
    using e by (auto simp: dq_put_def Let_def)
  have nf: "\<not> is_full q" using l(3) r by simp
  have d: "dq_len (dq_put item q) = Suc (dq_len q)" and ok': "dq_ok (dq_put item q)"
    using dq_len_unique [of "dq_put item q" "Suc (dq_len q)"] u r b nf unfolding q by auto
  show "dq_ok (dq_put item q)" by (rule ok')
  have "(?g + x) mod ?n \<noteq> (?g + dq_len q) mod ?n" if "x < dq_len q" for x using ring_slots [OF that r, of ?g] by simp
  then show "dq_contents (dq_put item q) = dq_contents q @ [item]"
    using l(1) unfolding dq_contents_def d by (simp add: q)
  show "dq_size (dq_put item q) = dq_size q" "dq_lwm (dq_put item q) = dq_lwm q" "evt_notify (dq_put item q) = evt_notify q"
    unfolding q by simp_all
qed

lemma dq_get_effect:
  assumes ok: "dq_ok q" and c: "dq_contents q = item # items"
  shows "fst (dq_get q) = item" "dq_ok (snd (dq_get q))" "dq_contents (snd (dq_get q)) = items"
    "dq_size (snd (dq_get q)) = dq_size q" "dq_lwm (snd (dq_get q)) = dq_lwm q" "evt_notify (snd (dq_get q)) = evt_notify q"
proof -
  let ?n = "unat (dq_size q)" and ?g = "unat (get_index q)" and ?p = "if unat (get_index q + 1) = unat (dq_size q) then 0 else get_index q + 1"
  note l = dq_len_put [OF ok]
  have n: "dq_len q = Suc (length items)" using arg_cong [OF c, of length] by (simp add: dq_contents_def)
  have b: "?g < ?n" "?n \<le> 2 ^ 15" using ok by (auto simp: dq_ok_def)
  have u: "unat ?p = Suc ?g mod ?n" by (rule index_step [OF b])
  have s: "(unat ?p + x) mod ?n = (?g + Suc x) mod ?n" for x unfolding u by (simp add: mod_add_left_eq)
  have p: "unat (put_index q) = (unat ?p + length items) mod ?n" using l(1) unfolding s n .
  have e: "put_index q = ?p \<longleftrightarrow> items = []"
  proof -
    have "Suc ?g mod ?n = (if Suc ?g = ?n then 0 else Suc ?g)" using b(1) by (simp add: mod_if)
    then have "unat (put_index q) = unat ?p \<longleftrightarrow> length items = 0" using p l(2) n b(1) u by (auto simp: mod_if)
    then show ?thesis by (simp add: word_unat_eq_iff)
  qed
  have q: "dq_get q = (dq_items q ?g, q\<lparr>get_index := ?p, is_full := False, is_empty := is_empty q \<or> items = []\<rparr>)"
    using e by (auto simp: dq_get_def Let_def)
  have ne: "\<not> is_empty q" using l(4) n by simp
  have d: "dq_len (snd (dq_get q)) = length items" and ok': "dq_ok (snd (dq_get q))"
    using dq_len_unique [of "snd (dq_get q)" "length items"] p u l(2) n b ne unfolding q by auto
  show "dq_ok (snd (dq_get q))" by (rule ok')
  have m: "dq_contents q = dq_items q ?g # map (\<lambda>i. dq_items q ((?g + Suc i) mod ?n)) [0..<length items]"
    unfolding dq_contents_def n using b(1) by (simp add: upt_conv_Cons map_Suc_upt [symmetric] del: upt_Suc)
  have it: "items = map (\<lambda>i. dq_items q ((?g + Suc i) mod ?n)) [0..<length items]" using c m by simp
  show "fst (dq_get q) = item" using c unfolding m q by simp
  show "dq_contents (snd (dq_get q)) = items"
    using it s unfolding dq_contents_def d by (simp add: q del: if_split)
  show "dq_size (snd (dq_get q)) = dq_size q" "dq_lwm (snd (dq_get q)) = dq_lwm q" "evt_notify (snd (dq_get q)) = evt_notify q"
    unfolding q by simp_all
qed

interpretation dqq: fifo_queue dq_ok dq_contents "\<lambda>q. unat (dq_size q)" dq_put dq_get "\<lambda>_ _. True" "(=)"
  by unfold_locales (auto simp: dq_full_ok dq_put_effect dq_get_effect)

lemma rt_data_queue_len_contents:
  assumes "dq_ok q"
  shows "unat (rt_data_queue_len q) = length (dq_contents q)"
proof -
  have b: "unat (dq_size q) \<le> 2 ^ 15" "unat (get_index q) < unat (dq_size q)" "unat (put_index q) < unat (dq_size q)" using assms by (auto simp: dq_ok_def)
  have u: "unat (ucast x :: u16) = unat x" for x :: "15 word"
  proof -
    have "unat x < 2 ^ 15" using unsigned_less [of x] by simp
    then show ?thesis by (simp add: unsigned_ucast_eq take_bit_nat_eq_self)
  qed
  have "unat (ucast (put_index q) - ucast (get_index q) :: u16) = unat (put_index q) - unat (get_index q)" if "get_index q < put_index q"
    using that by (simp add: unat_sub u word_le_nat_alt word_less_nat_alt)
  moreover have "unat (dq_size q + ucast (put_index q) - ucast (get_index q)) = unat (dq_size q) + unat (put_index q) - unat (get_index q)"
  proof -
    have "unat (dq_size q + ucast (put_index q)) = unat (dq_size q) + unat (put_index q)" using b by (simp add: unat_add_no_wrap u)
    then show ?thesis using b by (simp add: unat_sub u word_le_nat_alt)
  qed
  ultimately show ?thesis by (simp add: rt_data_queue_len_def dq_contents_def dq_len_def)
qed

section \<open>Refinement\<close>

text \<open>The queue with the threads that wait to pop and to push, and the event an operation reports.\<close>

type_synonym dq_spec = "(nat \<times> u32) list \<times> tid list \<times> tid list"

definition dq_abs :: "addr \<Rightarrow> 'a data_queues_scheme \<Rightarrow> dq_spec" where
  "dq_abs a k = (dq_contents (data_queue k a), tlist k (Suspended a), tlist k (Senders a))"

fun push_spec :: "nat \<Rightarrow> nat \<times> u32 \<Rightarrow> tid \<Rightarrow> int \<Rightarrow> dq_spec \<Rightarrow> dq_outcome \<times> nat option \<times> dq_spec" where
  "push_spec cap item t timeout (q, poppers, pushers) =
     (if length q < cap then
        (Dq_returns RT_EOK None, if poppers = [] then Some RT_DATAQUEUE_EVENT_PUSH else None, (q @ [item], tl poppers, pushers))
      else if timeout = 0 then (Dq_returns (- RT_ETIMEOUT) None, None, (q, poppers, pushers))
      else (Dq_blocks, None, (q, poppers, pushers @ [t])))"

fun pop_spec :: "nat \<Rightarrow> tid \<Rightarrow> int \<Rightarrow> dq_spec \<Rightarrow> dq_outcome \<times> nat option \<times> dq_spec" where
  "pop_spec lwm t timeout ([], poppers, pushers) =
     (if timeout = 0 then (Dq_returns (- RT_ETIMEOUT) None, None, ([], poppers, pushers))
      else (Dq_blocks, None, ([], poppers @ [t], pushers)))"
| "pop_spec lwm t timeout (item # q, poppers, pushers) =
     (if length q \<le> lwm then (Dq_returns RT_EOK (Some item), Some RT_DATAQUEUE_EVENT_LWM, (q, poppers, tl pushers))
      else (Dq_returns RT_EOK (Some item), Some RT_DATAQUEUE_EVENT_POP, (q, poppers, pushers)))"

definition dq_report :: "'a notifier \<Rightarrow> addr \<Rightarrow> nat option \<Rightarrow> 'a data_queues_scheme \<Rightarrow> 'a data_queues_scheme" where
  "dq_report nf a ev k = (case ev of None \<Rightarrow> k | Some e \<Rightarrow> dq_notify nf a e k)"

lemma data_queues_more_sel:
  "kernel.more k' = kernel.more k \<Longrightarrow> data_queue k' = data_queue (k :: 'a data_queues_scheme)"
  "kernel.more k' = kernel.more k \<Longrightarrow> dq_heap k' = dq_heap (k :: 'a data_queues_scheme)"
  by (cases k; cases k'; simp)+

lemma upd_dq_sel [simp]:
  "data_queue (upd_dq a f k) = (data_queue k)(a := f (data_queue k a))" "tlist (upd_dq a f k) = tlist k"
  "thread (upd_dq a f k) = thread k" "dq_heap (upd_dq a f k) = dq_heap k"
  by (simp_all add: upd_dq_def)

lemma upd_dq_inv [kinv]: "kernel_inv k \<Longrightarrow> kernel_inv (upd_dq a f k)"
  by (erule kernel_inv_more) (simp_all add: upd_dq_def)

text \<open>A change of the queue followed by a wake-up.\<close>

lemma dq_wake_abs:
  assumes "kernel_inv k" "wait_list l"
  shows "dq_abs a (wake_one l (upd_dq a f k)) = (dq_contents (f (data_queue k a)),
      (if l = Suspended a then tl else id) (tlist k (Suspended a)), (if l = Senders a then tl else id) (tlist k (Senders a)))"
    "data_queue (wake_one l (upd_dq a f k)) a = f (data_queue k a)" "kernel_inv (wake_one l (upd_dq a f k))"
proof -
  note w = wake_one_effect [OF upd_dq_inv [OF assms(1), of a f] assms(2)]
  show d: "data_queue (wake_one l (upd_dq a f k)) a = f (data_queue k a)" using data_queues_more_sel(1) [OF w(4)] by simp
  show "dq_abs a (wake_one l (upd_dq a f k)) = (dq_contents (f (data_queue k a)),
      (if l = Suspended a then tl else id) (tlist k (Suspended a)), (if l = Senders a then tl else id) (tlist k (Senders a)))"
    using w(2) w(3) [of "Suspended a"] w(3) [of "Senders a"] by (auto simp: dq_abs_def d)
  show "kernel_inv (wake_one l (upd_dq a f k))" by (rule w(1))
qed

lemma dq_wait_abs:
  assumes "kernel_inv k" "tstat k t = 3" "wait_list l"
  shows "dq_abs a (wait_on l t timeout k) = (dq_contents (data_queue k a),
      tlist k (Suspended a) @ (if l = Suspended a then [t] else []), tlist k (Senders a) @ (if l = Senders a then [t] else []))"
    "data_queue (wait_on l t timeout k) = data_queue k" "kernel_inv (wait_on l t timeout k)"
proof -
  note w = wait_on_effect [OF assms, where time = timeout]
  show d: "data_queue (wait_on l t timeout k) = data_queue k" by (rule data_queues_more_sel(1) [OF w(5)])
  show "dq_abs a (wait_on l t timeout k) = (dq_contents (data_queue k a),
      tlist k (Suspended a) @ (if l = Suspended a then [t] else []), tlist k (Senders a) @ (if l = Senders a then [t] else []))"
    using w(2) w(4) [of "Suspended a"] w(4) [of "Senders a"] by (auto simp: dq_abs_def d)
  show "kernel_inv (wait_on l t timeout k)" by (rule w(1))
qed

definition dq_good :: "addr \<Rightarrow> 'a data_queues_scheme \<Rightarrow> 'a data_queues_scheme \<Rightarrow> bool" where
  "dq_good a k k' \<longleftrightarrow> kernel_inv k' \<and> dq_ok (data_queue k' a) \<and> dq_size (data_queue k' a) = dq_size (data_queue k a)
     \<and> dq_lwm (data_queue k' a) = dq_lwm (data_queue k a) \<and> evt_notify (data_queue k' a) = evt_notify (data_queue k a)"

lemma dq_push_loop_effect:
  assumes k: "kernel_inv k" and ok: "dq_ok (data_queue k a)" and t: "tstat k t = 3"
  shows "\<exists>r ev k1. dq_push_loop nf a item (Some t) timeout k = (r, dq_report nf a ev k1)
    \<and> (r, ev, dq_abs a k1) = push_spec (unat (dq_size (data_queue k a))) item t timeout (dq_abs a k) \<and> dq_good a k k1"
proof (cases "length (dq_contents (data_queue k a)) < unat (dq_size (data_queue k a))")
  case True
  note p = dq_put_effect [OF ok True, of item]
  let ?k = "upd_dq a (dq_put item) k"
  have "dq_push_loop nf a item (Some t) timeout k = (Dq_returns 0 None,
      dq_report nf a (if tlist k (Suspended a) = [] then Some 2 else None) (wake_one (Suspended a) ?k))"
    using True dq_full_ok(1) [OF ok] by (auto simp: dq_push_loop_def dq_report_def wake_one_def Let_def)
  moreover have "dq_good a k (wake_one (Suspended a) ?k)"
    using dq_wake_abs(2,3) [OF k wait_list_simps(1), of a a "dq_put item"] p by (simp add: dq_good_def)
  ultimately show ?thesis
    using True dq_wake_abs(1) [OF k wait_list_simps(1), of a a "dq_put item"] p(2) by (auto simp: dq_abs_def [of a k])
next
  case False
  then have full: "is_full (data_queue k a)" using dq_full_ok(1) [OF ok] by simp
  show ?thesis
  proof (cases "timeout = 0")
    case True
    then have "dq_push_loop nf a item (Some t) timeout k = (Dq_returns (- 2) None, dq_report nf a None k)"
      using full by (simp add: dq_push_loop_def dq_report_def)
    then show ?thesis using False True k ok by (auto simp: dq_abs_def dq_good_def)
  next
    case nz: False
    then have "dq_push_loop nf a item (Some t) timeout k = (Dq_blocks, dq_report nf a None (wait_on (Senders a) t timeout k))"
      using full by (simp add: dq_push_loop_def dq_report_def)
    moreover have "dq_good a k (wait_on (Senders a) t timeout k)"
      using ok dq_wait_abs(2,3) [OF k t wait_list_simps(2), of a timeout] by (simp add: dq_good_def)
    ultimately show ?thesis
      using False nz dq_wait_abs(1) [OF k t wait_list_simps(2), of a a timeout] by (auto simp: dq_abs_def [of a k])
  qed
qed

lemma dq_pop_loop_effect:
  assumes k: "kernel_inv k" and ok: "dq_ok (data_queue k a)" and t: "tstat k t = 3"
  shows "\<exists>r ev k1. dq_pop_loop nf a (Some t) timeout k = (r, dq_report nf a ev k1)
    \<and> (r, ev, dq_abs a k1) = pop_spec (unat (dq_lwm (data_queue k a))) t timeout (dq_abs a k) \<and> dq_good a k k1"
proof (cases "dq_contents (data_queue k a)")
  case (Cons item items)
  let ?q = "snd (dq_get (data_queue k a))"
  note g = dq_get_effect [OF ok Cons]
  have ne: "\<not> is_empty (data_queue k a)" using Cons dq_full_ok(2) [OF ok] by simp
  have l: "rt_data_queue_len ?q \<le> dq_lwm ?q \<longleftrightarrow> length items \<le> unat (dq_lwm (data_queue k a))"
    using rt_data_queue_len_contents [OF g(2)] g(3,5) by (simp add: word_le_nat_alt)
  show ?thesis
  proof (cases "length items \<le> unat (dq_lwm (data_queue k a))")
    case True
    have "dq_pop_loop nf a (Some t) timeout k = (Dq_returns 0 (Some item),
        dq_report nf a (Some 3) (wake_one (Senders a) (upd_dq a (\<lambda>_. ?q) k)))"
      using ne l True g(1) by (simp add: dq_pop_loop_def dq_report_def wake_one_def Let_def case_prod_beta)
    moreover have "dq_good a k (wake_one (Senders a) (upd_dq a (\<lambda>_. ?q) k))"
      using dq_wake_abs(2,3) [OF k wait_list_simps(2), of a a "\<lambda>_. ?q"] g by (simp add: dq_good_def)
    ultimately show ?thesis
      using True Cons dq_wake_abs(1) [OF k wait_list_simps(2), of a a "\<lambda>_. ?q"] g(3) by (auto simp: dq_abs_def [of a k])
  next
    case False
    have "dq_pop_loop nf a (Some t) timeout k = (Dq_returns 0 (Some item), dq_report nf a (Some 1) (upd_dq a (\<lambda>_. ?q) k))"
      using ne l False g(1) by (simp add: dq_pop_loop_def dq_report_def Let_def case_prod_beta)
    moreover have "dq_good a k (upd_dq a (\<lambda>_. ?q) k)" using k g by (simp add: dq_good_def upd_dq_inv)
    ultimately show ?thesis using False Cons g(3) by (auto simp: dq_abs_def)
  qed
next
  case Nil
  then have e: "is_empty (data_queue k a)" using dq_full_ok(2) [OF ok] by simp
  show ?thesis
  proof (cases "timeout = 0")
    case True
    then have "dq_pop_loop nf a (Some t) timeout k = (Dq_returns (- 2) None, dq_report nf a None k)"
      using e by (simp add: dq_pop_loop_def dq_report_def)
    then show ?thesis using Nil True k ok by (auto simp: dq_abs_def dq_good_def)
  next
    case False
    then have "dq_pop_loop nf a (Some t) timeout k = (Dq_blocks, dq_report nf a None (wait_on (Suspended a) t timeout k))"
      using e by (simp add: dq_pop_loop_def dq_report_def)
    moreover have "dq_good a k (wait_on (Suspended a) t timeout k)"
      using ok dq_wait_abs(2,3) [OF k t wait_list_simps(1), of a timeout] by (simp add: dq_good_def)
    ultimately show ?thesis
      using Nil False dq_wait_abs(1) [OF k t wait_list_simps(1), of a a timeout] by (auto simp: dq_abs_def [of a k])
  qed
qed

section \<open>Reset\<close>

lemma resume_both_effect:
  assumes "kernel_inv k"
  shows "\<exists>k'. Option.bind (ipc_list_resume_all (Suspended a) k) (ipc_list_resume_all (Senders a)) = Some k' \<and> kernel_inv k'
    \<and> tlist k' (Suspended a) = [] \<and> tlist k' (Senders a) = [] \<and> kernel.more k' = kernel.more k
    \<and> (\<forall>t \<in> set (tlist k (Suspended a)) \<union> set (tlist k (Senders a)). tstat k' t \<in> {1, 3} \<and> error (thread k' t) = - RT_ERROR)"
proof -
  obtain k1 where k1: "ipc_list_resume_all (Suspended a) k = Some k1" "kernel_inv k1" "tlist k1 (Suspended a) = []"
    "kernel.more k1 = kernel.more k" "\<forall>t \<in> set (tlist k (Suspended a)). tstat k1 t \<in> {1, 3} \<and> error (thread k1 t) = - RT_ERROR"
    "tlist k1 (Senders a) = tlist k (Senders a)"
    using ipc_list_resume_all_effect [OF assms wait_list_simps(1) [of a]] wait_list_simps(2) by blast
  obtain k2 where k2: "ipc_list_resume_all (Senders a) k1 = Some k2" "kernel_inv k2" "tlist k2 (Senders a) = []"
    "kernel.more k2 = kernel.more k1" "\<forall>t \<in> set (tlist k1 (Senders a)). tstat k2 t \<in> {1, 3} \<and> error (thread k2 t) = - RT_ERROR"
    "\<forall>t. t \<notin> set (tlist k1 (Senders a)) \<longrightarrow> tstat k2 t = tstat k1 t \<and> error (thread k2 t) = error (thread k1 t)"
    "tlist k2 (Suspended a) = tlist k1 (Suspended a)"
    using ipc_list_resume_all_effect [OF k1(2) wait_list_simps(2) [of a]] wait_list_simps(1) by blast
  have "tstat k2 t \<in> {1, 3} \<and> error (thread k2 t) = - RT_ERROR" if "t \<in> set (tlist k (Suspended a)) \<union> set (tlist k (Senders a))" for t
    using that k1(5,6) k2(5,6) by (cases "t \<in> set (tlist k1 (Senders a))") auto
  then show ?thesis using k1 k2 by auto
qed

lemma rt_data_queue_reset_effect:
  assumes k: "kernel_inv k" and sz: "0 < unat (dq_size (data_queue k a))" "unat (dq_size (data_queue k a)) \<le> 2 ^ 15"
  shows "\<exists>k'. rt_data_queue_reset a k = Some k' \<and> dq_good a k k' \<and> dq_abs a k' = ([], [], [])
    \<and> (\<forall>t \<in> set (tlist k (Suspended a)) \<union> set (tlist k (Senders a)). tstat k' t \<in> {1, 3} \<and> error (thread k' t) = - RT_ERROR)"
proof -
  let ?f = "\<lambda>q. q\<lparr>get_index := 0, put_index := 0, is_empty := True, is_full := False\<rparr>"
  let ?k = "rt_enter_critical (upd_dq a ?f k)"
  have i: "kernel_inv ?k" using k by (simp add: exit_critical_kernel_inv upd_dq_inv)
  have l: "tlist ?k = tlist k" "kernel.more ?k = kernel.more (upd_dq a ?f k)" by (simp_all add: rt_enter_critical_def)
  obtain k1 where k1: "Option.bind (ipc_list_resume_all (Suspended a) ?k) (ipc_list_resume_all (Senders a)) = Some k1" "kernel_inv k1"
    "tlist k1 (Suspended a) = []" "tlist k1 (Senders a) = []" "kernel.more k1 = kernel.more ?k"
    "\<forall>t \<in> set (tlist ?k (Suspended a)) \<union> set (tlist ?k (Senders a)). tstat k1 t \<in> {1, 3} \<and> error (thread k1 t) = - RT_ERROR"
    using resume_both_effect [OF i, of a] by blast
  let ?c = "rt_exit_critical k1"
  have c: "kernel_inv ?c" using k1(2) by (rule exit_critical_kernel_inv)
  have s: "sched_inv ?c" using c by (simp add: kernel_inv_def)
  have d: "data_queue (rt_schedule ?c) a = ?f (data_queue k a)"
    using data_queues_more_sel(1) [of "rt_schedule ?c" "upd_dq a ?f k"] k1(5) l(2) by simp
  have "rt_data_queue_reset a k = Some (rt_schedule ?c)" using k1(1) by (simp add: rt_data_queue_reset_def Let_def)
  moreover have "dq_good a k (rt_schedule ?c)"
    using c sz by (simp add: dq_good_def d rt_schedule_kernel_inv dq_ok_def)
  moreover have "dq_abs a (rt_schedule ?c) = ([], [], [])"
    using wait_lists_schedule [OF c, of a] exit_critical_effect(1) [OF k1(2)] k1(3,4)
    by (simp add: dq_abs_def d) (simp add: dq_contents_def dq_len_def)
  moreover have "tstat (rt_schedule ?c) t \<in> {1, 3} \<and> error (thread (rt_schedule ?c) t) = - RT_ERROR"
    if "t \<in> set (tlist k (Suspended a)) \<union> set (tlist k (Senders a))" for t
    using that k1(6) exit_critical_effect(2,3) [OF k1(2), of t] rt_schedule_tstat [OF s, of t] unfolding l(1) by auto
  ultimately show ?thesis by blast
qed

section \<open>Properties\<close>

text \<open>
  C18. A data queue refines a bounded queue with the threads that wait to pop and to push, in the order
  they came: \<open>rt_data_queue_push\<close> and \<open>rt_data_queue_pop\<close> by the running thread do what the specification
  does and report the event it names to the callback as the last thing they do; a pusher is woken only
  when a pop leaves no more items than the low-water mark. \<open>rt_data_queue_peek\<close> and \<open>rt_data_queue_len\<close>
  read the queue, and \<open>rt_data_queue_reset\<close> returns, empties it and wakes everyone with \<open>-RT_ERROR\<close>.
\<close>

theorem rt_data_queue_refines:
  assumes "kernel_inv k" "dq_ok (data_queue k a)" "rt_current_thread k = Some t" "tstat k t = RT_THREAD_RUNNING"
  shows "(\<exists>r ev k1. rt_data_queue_push nf a ptr sz timeout k = (r, dq_report nf a ev k1) \<and> dq_good a k k1
        \<and> (r, ev, dq_abs a k1) = push_spec (unat (dq_size (data_queue k a))) (ptr, sz) t timeout (dq_abs a k))
    \<and> (\<exists>r ev k1. rt_data_queue_pop nf a timeout k = (r, dq_report nf a ev k1) \<and> dq_good a k k1
        \<and> (r, ev, dq_abs a k1) = pop_spec (unat (dq_lwm (data_queue k a))) t timeout (dq_abs a k))
    \<and> rt_data_queue_peek a k = (case fst (dq_abs a k) of [] \<Rightarrow> (- RT_EEMPTY, None) | item # _ \<Rightarrow> (RT_EOK, Some item))
    \<and> unat (rt_data_queue_len (data_queue k a)) = length (fst (dq_abs a k))
    \<and> (\<exists>k'. rt_data_queue_reset a k = Some k' \<and> dq_good a k k' \<and> dq_abs a k' = ([], [], [])
        \<and> (\<forall>u \<in> set (tlist k (Suspended a)) \<union> set (tlist k (Senders a)).
             tstat k' u \<in> {RT_THREAD_READY, RT_THREAD_RUNNING} \<and> error (thread k' u) = - RT_ERROR))"
proof (intro conjI)
  show "rt_data_queue_peek a k = (case fst (dq_abs a k) of [] \<Rightarrow> (- RT_EEMPTY, None) | item # _ \<Rightarrow> (RT_EOK, Some item))"
  proof (cases "dq_contents (data_queue k a)")
    case (Cons item items)
    then show ?thesis using dq_get_effect(1) [OF assms(2) Cons] dq_full_ok(2) [OF assms(2)]
      by (simp add: rt_data_queue_peek_def dq_abs_def dq_get_def Let_def)
  qed (use dq_full_ok(2) [OF assms(2)] in \<open>simp add: rt_data_queue_peek_def dq_abs_def\<close>)
  show "unat (rt_data_queue_len (data_queue k a)) = length (fst (dq_abs a k))"
    using rt_data_queue_len_contents [OF assms(2)] by (simp add: dq_abs_def)
  show "\<exists>k'. rt_data_queue_reset a k = Some k' \<and> dq_good a k k' \<and> dq_abs a k' = ([], [], [])
      \<and> (\<forall>u \<in> set (tlist k (Suspended a)) \<union> set (tlist k (Senders a)). tstat k' u \<in> {1, 3} \<and> error (thread k' u) = - RT_ERROR)"
    using assms(2) by (intro rt_data_queue_reset_effect [OF assms(1)]) (auto simp: dq_ok_def)
qed (use dq_push_loop_effect [OF assms(1,2,4), where nf = nf and timeout = timeout and item = "(ptr, sz)"]
    dq_pop_loop_effect [OF assms(1,2,4), where nf = nf and timeout = timeout] assms(3)
    in \<open>simp_all add: rt_data_queue_push_def rt_data_queue_pop_def rt_thread_self_def conj_commute conj_left_commute\<close>)

text \<open>The example kernel with empty queues of two slots and the low-water mark 0.\<close>

definition example_queues :: data_queues where
  "example_queues = example_running (data_queues.fields (\<lambda>_. \<lparr>dq_magic = DATAQUEUE_MAGIC, dq_size = 2, dq_lwm = 0, get_index = 1,
     is_empty = True, put_index = 1, is_full = False, dq_items = (\<lambda>_. (0, 0)), dq_queue = Some 0x100, evt_notify = None\<rparr>) cold_heap)"

lemma example_queues_sel [simp]:
  "kernel_inv example_queues" "rt_current_thread example_queues = Some 1" "tstat example_queues 1 = 3"
  "tlist example_queues (Suspended a) = []" "tlist example_queues (Senders a) = []" "dq_ok (data_queue example_queues a)"
  "dq_abs a example_queues = ([], [], [])" "dq_size (data_queue example_queues a) = 2" "evt_notify (data_queue example_queues a) = None"
proof -
  have d: "data_queue example_queues a = \<lparr>dq_magic = DATAQUEUE_MAGIC, dq_size = 2, dq_lwm = 0, get_index = 1, is_empty = True,
      put_index = 1, is_full = False, dq_items = (\<lambda>_. (0, 0)), dq_queue = Some 0x100, evt_notify = None\<rparr>"
    by (simp add: example_queues_def example_running_def example_kernel_def boot_kernel_def data_queues.defs)
  show "kernel_inv example_queues" "rt_current_thread example_queues = Some 1" "tstat example_queues 1 = 3"
    "tlist example_queues (Suspended a) = []" "tlist example_queues (Senders a) = []"
    by (simp_all add: example_queues_def example_running_inv)
  then show "dq_ok (data_queue example_queues a)" "dq_abs a example_queues = ([], [], [])"
    "dq_size (data_queue example_queues a) = 2" "evt_notify (data_queue example_queues a) = None"
    by (simp_all add: d dq_ok_def dq_abs_def dq_contents_def dq_len_def)
qed

theorem rt_data_queue_refines_witness:
  "fst (rt_data_queue_push (\<lambda>_ _ _ k. k) 4 0x5000 64 0 example_queues) = Dq_returns RT_EOK None
    \<and> fst (rt_data_queue_pop (\<lambda>_ _ _ k. k) 4 0 example_queues) = Dq_returns (- RT_ETIMEOUT) None
    \<and> rt_data_queue_peek 4 example_queues = (- RT_EEMPTY, None)"
  using rt_data_queue_refines [OF example_queues_sel(1,6,2,3), where a = 4 and nf = "\<lambda>_ _ _ k. k" and ptr = "0x5000" and sz = 64 and timeout = 0]
  by auto

text \<open>
  The timeout of a push is not a bound on its waiting time: a pusher that is woken and finds the
  queue full again, after any number of ticks, waits for its whole timeout from then on.
\<close>

theorem rt_data_queue_timeout_restarts:
  assumes "is_full (data_queue k a)" "error (thread k t) = RT_EOK" "0 < timeout"
  shows "case rt_data_queue_push_resumed nf a ptr sz t timeout k of (r, k') \<Rightarrow>
    r = Dq_blocks \<and> timeout_tick (timer k' (Thread_timer t)) = rt_tick k + of_int timeout"
  using assms wait_on_timer [OF assms(3)] by (simp add: rt_data_queue_push_resumed_def dq_push_loop_def)

theorem rt_data_queue_timeout_restarts_witness:
  "fst (rt_data_queue_push_resumed (\<lambda>_ _ _ k. k) 4 0x5000 64 1 10 (upd_dq 4 (\<lambda>q. q\<lparr>is_full := True, is_empty := False\<rparr>) example_queues))
    = Dq_blocks"
proof -
  have "error (thread example_queues 1) = 0"
    by (simp add: example_queues_def example_running_def example_kernel_def boot_kernel_def started_thread_def zero_thread_def)
  then show ?thesis
    using rt_data_queue_timeout_restarts [where k = "upd_dq 4 (\<lambda>q. q\<lparr>is_full := True, is_empty := False\<rparr>) example_queues" and a = 4
        and t = 1 and timeout = 10 and nf = "\<lambda>_ _ _ k. k" and ptr = "0x5000" and sz = 64] by (simp add: case_prod_beta)
qed

text \<open>
  First in, first out: after \<open>rt_data_queue_init\<close> with a size of at most 32768 the slots lie in a block of
  the heap, and as many items as fit are returned by the ring in the order in which they were put.
\<close>

theorem rt_data_queue_init_fifo:
  assumes "heap_ok (dq_heap k)" "0 < heap_sem (dq_heap k)" "0 < unat sz" "unat sz \<le> 2 ^ 15"
  shows "\<exists>r k'. rt_data_queue_init a sz lwm f k = Some (r, k') \<and> dq_abs a k' = ([], [], []) \<and> dq_ok (data_queue k' a)
    \<and> heap_ok (dq_heap k') \<and> (r = RT_EOK \<longleftrightarrow> dq_queue (data_queue k' a) \<noteq> None)
    \<and> (length items \<le> unat sz \<longrightarrow> fst (get_many dq_get (length items) (fold dq_put items (data_queue k' a))) = items)"
proof -
  have "unat (8 * ucast sz :: u32) \<le> 2 ^ 32 - 4"
  proof -
    have "unat (8 * ucast sz :: u32) = 8 * unat sz"
      using assms(4) by (simp add: unat_word_ariths unsigned_ucast_eq take_bit_nat_eq_self)
    then show ?thesis using assms(4) by simp
  qed
  then obtain r h' where m: "rt_malloc (8 * ucast sz) (dq_heap k) = Some (r, h')" "heap_ok h'"
    using rt_malloc_live [OF assms(1,2)] by blast
  obtain k' where k': "rt_data_queue_init a sz lwm f k = Some (if r = None then - 5 else 0, k')" "dq_heap k' = h'"
    "tlist k' (Suspended a) = []" "tlist k' (Senders a) = []"
    "data_queue k' a = (data_queue k a)\<lparr>evt_notify := f, dq_magic := DATAQUEUE_MAGIC, dq_size := sz, dq_lwm := lwm,
       get_index := 0, put_index := 0, is_empty := True, is_full := False, dq_queue := r\<rparr>"
    using m(1) by (simp add: rt_data_queue_init_def upd_dq_def Let_def)
  have ok: "dq_ok (data_queue k' a)" "dq_contents (data_queue k' a) = []" "dq_size (data_queue k' a) = sz"
    using assms(3,4) by (simp_all add: k'(5) dq_ok_def dq_contents_def dq_len_def)
  have "fst (get_many dq_get (length items) (fold dq_put items (data_queue k' a))) = items" if "length items \<le> unat sz"
    using dqq.first_in_first_out [OF ok(1,2), of items] ok(3) that by (simp add: list.rel_eq)
  then show ?thesis using k' m(2) ok by (auto simp: dq_abs_def)
qed

end
