(* ===== verification/Workqueue.thy ===== *)
theory Workqueue
  imports Ipc_Sem
begin

text \<open>
  Work queues, \<^verbatim>\<open>rt-thread/components/drivers/src/workqueue.c\<close>: a worker thread that runs the work items
  submitted to its queue, at once or after a delay on a soft timer. The state extends the IPC state
  with the queues, the items and the lists they are on; the node of an item is on at most one of
  them, and \<open>rt_list_remove\<close> takes it off whichever that is. The semaphore of the queue at \<open>a\<close> is the one
  at \<open>a\<close>, the timer of item \<open>w\<close> is \<open>Timer w\<close> and its callback \<open>User_timeout w\<close>. A round of the worker is
  split where the work function runs. What a work function does are other calls of the system.
\<close>

section \<open>State\<close>

record rt_work =
  work_func :: nat
  work_data :: nat
  work_flags :: u16
  work_type :: u16
  work_queue :: "addr option"

record rt_workqueue =
  work_current :: "nat option"
  work_thread :: tid

datatype work_list = Work_list addr | Delayed_list addr

record workqueues = ipc +
  workqueue :: "addr \<Rightarrow> rt_workqueue"
  work :: "nat \<Rightarrow> rt_work"
  wlist :: "work_list \<Rightarrow> nat list"
  sys_workq :: "addr option"

abbreviation (input) RT_WORK_STATE_PENDING :: u16 where "RT_WORK_STATE_PENDING \<equiv> 1"
abbreviation (input) RT_WORK_STATE_SUBMITTING :: u16 where "RT_WORK_STATE_SUBMITTING \<equiv> 2"

definition upd_work :: "nat \<Rightarrow> (rt_work \<Rightarrow> rt_work) \<Rightarrow> 'a workqueues_scheme \<Rightarrow> 'a workqueues_scheme" where
  "upd_work w f k = k\<lparr>work := (work k)(w := f (work k w))\<rparr>"

definition upd_queue :: "addr \<Rightarrow> (rt_workqueue \<Rightarrow> rt_workqueue) \<Rightarrow> 'a workqueues_scheme \<Rightarrow> 'a workqueues_scheme" where
  "upd_queue a f k = k\<lparr>workqueue := (workqueue k)(a := f (workqueue k a))\<rparr>"

definition wlist_remove :: "nat \<Rightarrow> 'a workqueues_scheme \<Rightarrow> 'a workqueues_scheme" where
  "wlist_remove w k = k\<lparr>wlist := \<lambda>l. removeAll w (wlist k l)\<rparr>"

definition wlist_push_back :: "work_list \<Rightarrow> nat \<Rightarrow> 'a workqueues_scheme \<Rightarrow> 'a workqueues_scheme" where
  "wlist_push_back l w k = k\<lparr>wlist := (wlist k)(l := wlist k l @ [w])\<rparr>"

definition wlist_push_front :: "work_list \<Rightarrow> nat \<Rightarrow> 'a workqueues_scheme \<Rightarrow> 'a workqueues_scheme" where
  "wlist_push_front l w k = k\<lparr>wlist := (wlist k)(l := w # wlist k l)\<rparr>"

definition set_work_flag :: "u16 \<Rightarrow> nat \<Rightarrow> 'a workqueues_scheme \<Rightarrow> 'a workqueues_scheme" where
  "set_work_flag f w = upd_work w (\<lambda>x. x\<lparr>work_flags := work_flags x OR f\<rparr>)"

definition clear_work_flag :: "u16 \<Rightarrow> nat \<Rightarrow> 'a workqueues_scheme \<Rightarrow> 'a workqueues_scheme" where
  "clear_work_flag f w = upd_work w (\<lambda>x. x\<lparr>work_flags := work_flags x AND NOT f\<rparr>)"

section \<open>Operations\<close>

definition rt_work_init :: "nat \<Rightarrow> nat \<Rightarrow> nat \<Rightarrow> 'a workqueues_scheme \<Rightarrow> 'a workqueues_scheme" where
  "rt_work_init w func data k =
     upd_work w (\<lambda>_. \<lparr>work_func = func, work_data = data, work_flags = 0, work_type = 0, work_queue = None\<rparr>) k"

text \<open>The loop that wakes everyone who waits for the running item to end.\<close>

partial_function (option) completion_loop :: "addr \<Rightarrow> 'a ipc_scheme \<Rightarrow> (rt_err \<times> 'a ipc_scheme) option" where
  "completion_loop a k =
     (case rt_sem_trytake a k of (result, k) \<Rightarrow>
        if result = Some (- RT_ETIMEOUT) then completion_loop a (snd (rt_sem_release a k))
        else if result = Some RT_EOK then Some (RT_EOK, k) else Some (- RT_ERROR, k))"

definition workqueue_work_completion :: "addr \<Rightarrow> 'a ipc_scheme \<Rightarrow> (rt_err \<times> 'a ipc_scheme) option" where
  "workqueue_work_completion a k =
     map_option (\<lambda>(result, k). (result, rt_exit_critical k)) (completion_loop a (rt_enter_critical k))"

text \<open>A round of the worker thread: it suspends itself when there is no work, or takes the first item;
  \<open>worker_finish\<close> is what follows the work function.\<close>

definition worker_idle :: "'a workqueues_scheme \<Rightarrow> 'a workqueues_scheme" where
  "worker_idle k =
     (case rt_thread_self k of None \<Rightarrow> k | Some t \<Rightarrow> rt_schedule (snd (rt_thread_suspend t k)))"

definition worker_take :: "addr \<Rightarrow> nat \<Rightarrow> 'a workqueues_scheme \<Rightarrow> 'a workqueues_scheme" where
  "worker_take a w k =
     (let k = wlist_remove w k;
          k = upd_queue a (\<lambda>q. q\<lparr>work_current := Some w\<rparr>) k;
          k = clear_work_flag RT_WORK_STATE_PENDING w k
      in upd_work w (\<lambda>x. x\<lparr>work_queue := None\<rparr>) k)"

definition worker_finish :: "addr \<Rightarrow> 'a workqueues_scheme \<Rightarrow> 'a workqueues_scheme option" where
  "worker_finish a k = map_option snd (workqueue_work_completion a (upd_queue a (\<lambda>q. q\<lparr>work_current := None\<rparr>) k))"

definition workqueue_thread_entry_round ::
  "(nat \<Rightarrow> nat \<Rightarrow> nat \<Rightarrow> 'a workqueues_scheme \<Rightarrow> 'a workqueues_scheme) \<Rightarrow> addr \<Rightarrow> 'a workqueues_scheme \<Rightarrow> 'a workqueues_scheme option" where
  "workqueue_thread_entry_round call a k =
     (case wlist k (Work_list a) of
        [] \<Rightarrow> Some (worker_idle k)
      | w # _ \<Rightarrow>
          let k = worker_take a w k
          in worker_finish a (call (work_func (work k w)) w (work_data (work k w)) k))"

text \<open>What every submission does last: resume the worker if it is suspended and runs nothing.\<close>

definition wake_worker :: "addr \<Rightarrow> 'a workqueues_scheme \<Rightarrow> 'a workqueues_scheme" where
  "wake_worker a k =
     (if work_current (workqueue k a) = None \<and> tstat k (work_thread (workqueue k a)) = RT_THREAD_SUSPEND
      then rt_schedule (snd (rt_thread_resume (work_thread (workqueue k a)) k))
      else k)"

definition workqueue_submit_work :: "addr \<Rightarrow> nat \<Rightarrow> u32 \<Rightarrow> 'a workqueues_scheme \<Rightarrow> rt_err \<times> 'a workqueues_scheme" where
  "workqueue_submit_work a w ticks k =
     (let k = clear_work_flag RT_WORK_STATE_PENDING w (wlist_remove w k)
      in if ticks = 0 then
           if work_current (workqueue k a) \<noteq> Some w then
             let k = set_work_flag RT_WORK_STATE_PENDING w (wlist_push_back (Work_list a) w k);
                 k = upd_work w (\<lambda>x. x\<lparr>work_queue := Some a\<rparr>) k
             in (RT_EOK, wake_worker a k)
           else (- RT_EBUSY, wake_worker a k)
         else if ticks < RT_TICK_MAX div 2 then
           let k = (if work_flags (work k w) AND RT_WORK_STATE_SUBMITTING \<noteq> 0 then
                      snd (rt_timer_control (Timer w) 0 ticks (snd (rt_timer_stop (Timer w) k)))
                    else set_work_flag RT_WORK_STATE_SUBMITTING w
                           (rt_timer_init (Timer w) [119, 111, 114, 107, 0] (User_timeout w) ticks RT_TIMER_FLAG_SOFT_TIMER k));
               k = upd_work w (\<lambda>x. x\<lparr>work_queue := Some a\<rparr>) k;
               k = wlist_push_back (Delayed_list a) w k
           in (RT_EOK, rt_timer_start (Timer w) k)
         else (- RT_ERROR, k))"

definition workqueue_cancel_work :: "addr \<Rightarrow> nat \<Rightarrow> 'a workqueues_scheme \<Rightarrow> rt_err \<times> 'a workqueues_scheme" where
  "workqueue_cancel_work a w k =
     (let k = clear_work_flag RT_WORK_STATE_PENDING w (wlist_remove w k);
          k = (if work_flags (work k w) AND RT_WORK_STATE_SUBMITTING \<noteq> 0 then
                 clear_work_flag RT_WORK_STATE_SUBMITTING w (rt_timer_detach (Timer w) (snd (rt_timer_stop (Timer w) k)))
               else k)
      in (if work_current (workqueue k a) \<noteq> Some w then RT_EOK else - RT_EBUSY, upd_work w (\<lambda>x. x\<lparr>work_queue := None\<rparr>) k))"

text \<open>The timer callback of a delayed item; \<open>None\<close> is the read through the null pointer of an item that
  belongs to no queue.\<close>

definition delayed_work_timeout_handler :: "nat \<Rightarrow> 'a workqueues_scheme \<Rightarrow> 'a workqueues_scheme option" where
  "delayed_work_timeout_handler w k =
     (case work_queue (work k w) of
        None \<Rightarrow> None
      | Some a \<Rightarrow>
          let k = clear_work_flag RT_WORK_STATE_SUBMITTING w (rt_timer_detach (Timer w) k);
              k = wlist_remove w k;
              k = (if work_current (workqueue k a) \<noteq> Some w
                   then set_work_flag RT_WORK_STATE_PENDING w (wlist_push_back (Work_list a) w k) else k)
          in Some (wake_worker a k))"

definition rt_workqueue_dowork :: "addr \<Rightarrow> nat \<Rightarrow> 'a workqueues_scheme \<Rightarrow> rt_err \<times> 'a workqueues_scheme" where
  "rt_workqueue_dowork a w k = workqueue_submit_work a w 0 k"

definition rt_workqueue_submit_work :: "addr \<Rightarrow> nat \<Rightarrow> u32 \<Rightarrow> 'a workqueues_scheme \<Rightarrow> rt_err \<times> 'a workqueues_scheme" where
  "rt_workqueue_submit_work a w time k = workqueue_submit_work a w time k"

definition rt_workqueue_critical_work :: "addr \<Rightarrow> nat \<Rightarrow> 'a workqueues_scheme \<Rightarrow> rt_err \<times> 'a workqueues_scheme" where
  "rt_workqueue_critical_work a w k = (RT_EOK, wake_worker a (wlist_push_front (Work_list a) w (wlist_remove w k)))"

definition rt_workqueue_cancel_work :: "addr \<Rightarrow> nat \<Rightarrow> 'a workqueues_scheme \<Rightarrow> rt_err \<times> 'a workqueues_scheme" where
  "rt_workqueue_cancel_work a w k = workqueue_cancel_work a w k"

text \<open>\<open>None\<close> as result: the caller waits for the running item to end.\<close>

definition rt_workqueue_cancel_work_sync :: "addr \<Rightarrow> nat \<Rightarrow> 'a workqueues_scheme \<Rightarrow> rt_err option \<times> 'a workqueues_scheme" where
  "rt_workqueue_cancel_work_sync a w k =
     (if work_current (workqueue k a) = Some w then
        (case rt_sem_take a (- 1) k of (None, k) \<Rightarrow> (None, k) | (Some _, k) \<Rightarrow> (Some RT_EOK, k))
      else (Some RT_EOK, snd (workqueue_cancel_work a w k)))"

partial_function (option) cancel_list :: "addr \<Rightarrow> work_list \<Rightarrow> 'a workqueues_scheme \<Rightarrow> 'a workqueues_scheme option" where
  "cancel_list a l k =
     (case wlist k l of [] \<Rightarrow> Some k | w # _ \<Rightarrow> cancel_list a l (snd (workqueue_cancel_work a w k)))"

definition rt_workqueue_cancel_all_work :: "addr \<Rightarrow> 'a workqueues_scheme \<Rightarrow> (rt_err \<times> 'a workqueues_scheme) option" where
  "rt_workqueue_cancel_all_work a k =
     map_option (\<lambda>k. (RT_EOK, rt_exit_critical k))
       (Option.bind (cancel_list a (Work_list a) (rt_enter_critical k)) (cancel_list a (Delayed_list a)))"

text \<open>\<open>mem\<close>, \<open>thread_mem\<close> and \<open>stack\<close> are the blocks the heap gives for the queue, the worker and its stack, if
  it does, \<open>entry_fn\<close> the address of the worker's entry function, and \<open>free\<close> gives a block back.\<close>

definition rt_workqueue_create ::
  "addr option \<Rightarrow> obj_id option \<Rightarrow> addr option \<Rightarrow> (addr \<Rightarrow> 'a workqueues_scheme \<Rightarrow> 'a workqueues_scheme) \<Rightarrow> addr \<Rightarrow>
     cstring \<Rightarrow> u16 \<Rightarrow> u8 \<Rightarrow> 'a workqueues_scheme \<Rightarrow> addr option \<times> 'a workqueues_scheme" where
  "rt_workqueue_create mem thread_mem stack free entry_fn name stk_size priority k =
     (case mem of
        None \<Rightarrow> (None, k)
      | Some a \<Rightarrow>
          let k = k\<lparr>wlist := (wlist k)(Work_list a := [], Delayed_list a := [])\<rparr>;
              k = upd_queue a (\<lambda>q. q\<lparr>work_current := None\<rparr>) k;
              k = rt_sem_init a [119, 113, 117, 101, 117, 101, 0] 0 RT_IPC_FLAG_FIFO k
          in (case rt_thread_create thread_mem stack name entry_fn a (ucast stk_size) priority 10 k of
                (None, k) \<Rightarrow> (None, free a k)
              | (Some t, k) \<Rightarrow> (Some a, rt_thread_startup t (upd_queue a (\<lambda>q. q\<lparr>work_thread := t\<rparr>) k))))"

definition rt_workqueue_destroy ::
  "'a workqueues_ext ipc_ext cleanup_fn \<Rightarrow> (addr \<Rightarrow> 'a workqueues_scheme \<Rightarrow> 'a workqueues_scheme) \<Rightarrow> addr \<Rightarrow> 'a workqueues_scheme \<Rightarrow>
     (rt_err \<times> 'a workqueues_scheme) option" where
  "rt_workqueue_destroy clean free a k =
     Option.bind (rt_workqueue_cancel_all_work a k) (\<lambda>(_, k).
       let k = rt_thread_delete clean (work_thread (workqueue k a)) k
       in map_option (\<lambda>k. (RT_EOK, free a k)) (rt_sem_detach a k))"

text \<open>The work queue of the system; \<open>None\<close> is the use of its null pointer.\<close>

definition rt_work_submit :: "nat \<Rightarrow> u32 \<Rightarrow> 'a workqueues_scheme \<Rightarrow> (rt_err \<times> 'a workqueues_scheme) option" where
  "rt_work_submit w time k = map_option (\<lambda>a. rt_workqueue_submit_work a w time k) (sys_workq k)"

definition rt_work_cancel :: "nat \<Rightarrow> 'a workqueues_scheme \<Rightarrow> (rt_err \<times> 'a workqueues_scheme) option" where
  "rt_work_cancel w k = map_option (\<lambda>a. rt_workqueue_cancel_work a w k) (sys_workq k)"

definition rt_work_sys_workqueue_init ::
  "addr option \<Rightarrow> obj_id option \<Rightarrow> addr option \<Rightarrow> (addr \<Rightarrow> 'a workqueues_scheme \<Rightarrow> 'a workqueues_scheme) \<Rightarrow> addr \<Rightarrow>
     'a workqueues_scheme \<Rightarrow> int \<times> 'a workqueues_scheme" where
  "rt_work_sys_workqueue_init mem thread_mem stack free entry_fn k =
     (if sys_workq k \<noteq> None then (RT_EOK, k)
      else case rt_workqueue_create mem thread_mem stack free entry_fn [115, 121, 115, 95, 119, 111, 114, 107, 0] 2048 23 k of
             (q, k) \<Rightarrow> (RT_EOK, k\<lparr>sys_workq := q\<rparr>))"

section \<open>Frame\<close>

lemma upd_wq_sel [simp]:
  "work (upd_work w f k) = (work k)(w := f (work k w))" "workqueue (upd_work w f k) = workqueue k" "wlist (upd_work w f k) = wlist k"
  "work (upd_queue a g k) = work k" "workqueue (upd_queue a g k) = (workqueue k)(a := g (workqueue k a))" "wlist (upd_queue a g k) = wlist k"
  "work (wlist_remove w k) = work k" "workqueue (wlist_remove w k) = workqueue k" "wlist (wlist_remove w k) = (\<lambda>l. removeAll w (wlist k l))"
  "work (wlist_push_back l w k) = work k" "workqueue (wlist_push_back l w k) = workqueue k"
  "wlist (wlist_push_back l w k) = (wlist k)(l := wlist k l @ [w])"
  "work (wlist_push_front l w k) = work k" "workqueue (wlist_push_front l w k) = workqueue k"
  "wlist (wlist_push_front l w k) = (wlist k)(l := w # wlist k l)"
  by (simp_all add: upd_work_def upd_queue_def wlist_remove_def wlist_push_back_def wlist_push_front_def)

lemma work_flag_sel [simp]:
  "work (set_work_flag f w k) = (work k)(w := (work k w)\<lparr>work_flags := work_flags (work k w) OR f\<rparr>)"
  "work (clear_work_flag f w k) = (work k)(w := (work k w)\<lparr>work_flags := work_flags (work k w) AND NOT f\<rparr>)"
  "workqueue (set_work_flag f w k) = workqueue k" "wlist (set_work_flag f w k) = wlist k"
  "workqueue (clear_work_flag f w k) = workqueue k" "wlist (clear_work_flag f w k) = wlist k"
  by (simp_all add: set_work_flag_def clear_work_flag_def)

text \<open>Changes of the work queues leave the kernel and the semaphores alone.\<close>

definition wq_only :: "'a workqueues_scheme \<Rightarrow> 'a workqueues_scheme \<Rightarrow> bool" where
  "wq_only k k' \<longleftrightarrow> tlist k' = tlist k \<and> ready_group k' = ready_group k \<and> thread k' = thread k \<and> rt_current_thread k' = rt_current_thread k
     \<and> timer k' = timer k \<and> timer_row k' = timer_row k \<and> object k' = object k \<and> sem k' = sem k \<and> rt_tick k' = rt_tick k
     \<and> rt_scheduler_lock_nest k' = rt_scheduler_lock_nest k"

lemma wq_only [simp]:
  "wq_only k (upd_work w f k)" "wq_only k (upd_queue a g k)" "wq_only k (wlist_remove w k)" "wq_only k (wlist_push_back l w k)"
  "wq_only k (wlist_push_front l w k)" "wq_only k (set_work_flag fl w k)" "wq_only k (clear_work_flag fl w k)"
  by (simp_all add: wq_only_def upd_work_def upd_queue_def wlist_remove_def wlist_push_back_def wlist_push_front_def
      set_work_flag_def clear_work_flag_def)

lemma wq_onlyD:
  assumes "wq_only k k'"
  shows "kernel_inv k \<Longrightarrow> kernel_inv k'" "tstat k' = tstat k" "timer_row k' = timer_row k" "sem k' = sem k" "tlist k' = tlist k"
    "rt_current_thread k' = rt_current_thread k" "timer_flag k' = timer_flag k" "rt_tick k' = rt_tick k" "timer k' = timer k" "thread k' = thread k"
    "object k' = object k"
  using assms kernel_inv_more [of k k'] by (auto simp: wq_only_def tstat_def timer_flag_def fun_eq_iff)

lemmas wq_kernel [simp] =
  wq_onlyD(2-11) [OF wq_only(1)] wq_onlyD(2-11) [OF wq_only(2)] wq_onlyD(2-11) [OF wq_only(3)] wq_onlyD(2-11) [OF wq_only(4)]
  wq_onlyD(2-11) [OF wq_only(5)] wq_onlyD(2-11) [OF wq_only(6)] wq_onlyD(2-11) [OF wq_only(7)]

lemmas wq_inv_kinv [kinv] =
  wq_onlyD(1) [OF wq_only(1)] wq_onlyD(1) [OF wq_only(2)] wq_onlyD(1) [OF wq_only(3)] wq_onlyD(1) [OF wq_only(4)]
  wq_onlyD(1) [OF wq_only(5)] wq_onlyD(1) [OF wq_only(6)] wq_onlyD(1) [OF wq_only(7)]

lemma wq_more_sel:
  assumes "kernel.more k' = kernel.more k"
  shows "workqueue k' = workqueue k" "work k' = work k" "wlist k' = wlist k" "sys_workq k' = sys_workq (k :: 'a workqueues_scheme)"
    "sem k' = sem k"
  using assms by (cases k; cases k'; simp)+

lemma detach_more [simp]: "kernel.more (rt_timer_detach x k) = kernel.more k" "kernel.more (upd_timer_flag x f k) = kernel.more k"
  "kernel.more (snd (rt_timer_stop x k)) = kernel.more k" "kernel.more (rt_timer_init x name fn time flag k) = kernel.more k"
  by (simp_all add: rt_timer_detach_def upd_timer_flag_def rt_timer_init_def timer_init_def Let_def)

lemmas wq_frame [simp] =
  wq_more_sel [OF detach_more(1)] wq_more_sel [OF detach_more(3)] wq_more_sel [OF detach_more(4)]
  wq_more_sel [OF rt_schedule_sel(9)] wq_more_sel [OF kernel_ops_more(1)] wq_more_sel [OF kernel_ops_more(2)]
  wq_more_sel [OF kernel_ops_more(3)] wq_more_sel [OF timer_start_more] wq_more_sel [OF upd_more(8)] wq_more_sel [OF upd_more(9)]

text \<open>Threads only become runnable: what resuming, starting a timer and scheduling have in common.\<close>

definition keeps_awake :: "'a kernel_scheme \<Rightarrow> 'a kernel_scheme \<Rightarrow> bool" where
  "keeps_awake k k' \<longleftrightarrow> (\<forall>t. tstat k' t = tstat k t \<or> tstat k' t \<in> {1, 3})"

lemma keeps_awakeD:
  assumes "keeps_awake k k'"
  shows "tstat k t \<noteq> 2 \<Longrightarrow> tstat k' t \<noteq> 2" "tstat k t \<in> {1, 3} \<Longrightarrow> tstat k' t \<in> {1, 3}"
  using assms by (auto simp: keeps_awake_def dest: spec [of _ t])

lemma keeps_awake_trans: "keeps_awake k k' \<Longrightarrow> keeps_awake k' k'' \<Longrightarrow> keeps_awake k k''"
  unfolding keeps_awake_def by metis

lemma keeps_awake_same [simp]: "tstat k' = tstat k \<Longrightarrow> keeps_awake k k'"
  by (simp add: keeps_awake_def)

lemma keeps_awake_schedule: "kernel_inv k \<Longrightarrow> keeps_awake k (rt_schedule k)"
proof -
  assume "kernel_inv k"
  then have s: "sched_inv k" by (simp add: kernel_inv_def)
  show ?thesis unfolding keeps_awake_def using rt_schedule_tstat [OF s] by blast
qed

lemma keeps_awake_resume: "keeps_awake k (snd (rt_thread_resume t k))"
proof (cases "tstat k t = 2")
  case True
  then show ?thesis using rt_thread_resume_effect(2) [OF True] by (simp add: keeps_awake_def)
qed (simp add: rt_thread_resume_def)

lemma rt_thread_resume_timers:
  "x \<in> set (timer_row (snd (rt_thread_resume t k)) r) \<Longrightarrow> x \<in> set (timer_row k r)"
  by (auto simp: rt_thread_resume_def Let_def dest: timer_row_stop_subset(1) split: if_splits)

lemma keeps_awake_timer_start: "kernel_inv k \<Longrightarrow> keeps_awake k (rt_timer_start (Timer w) k)"
proof -
  assume k: "kernel_inv k"
  have e: "kernel_inv (timer_enqueue (Timer w) k)" using k by (auto simp: kernel_inv_def intro: timer_inv_enqueue)
  have "keeps_awake (timer_enqueue (Timer w) k) (rt_schedule (snd (rt_thread_resume timer_thread (timer_enqueue (Timer w) k))))"
    by (rule keeps_awake_trans [OF keeps_awake_resume keeps_awake_schedule]) (rule rt_thread_resume_inv [OF e])
  then show ?thesis by (auto simp: rt_timer_start_def Let_def keeps_awake_def)
qed

lemma wake_worker_effect:
  assumes "kernel_inv k"
  shows "kernel_inv (wake_worker a k)" "keeps_awake k (wake_worker a k)"
    "workqueue (wake_worker a k) = workqueue k" "work (wake_worker a k) = work k" "wlist (wake_worker a k) = wlist k"
    "sem (wake_worker a k) = sem k" "x \<in> set (timer_row (wake_worker a k) r) \<Longrightarrow> x \<in> set (timer_row k r)"
    "work_current (workqueue k a) = None \<Longrightarrow> tstat (wake_worker a k) (work_thread (workqueue k a)) \<noteq> 2"
proof -
  let ?t = "work_thread (workqueue k a)"
  have r: "kernel_inv (snd (rt_thread_resume ?t k))" using assms by (rule rt_thread_resume_inv)
  show "kernel_inv (wake_worker a k)" using assms r by (simp add: wake_worker_def rt_schedule_kernel_inv)
  show aw: "keeps_awake k (wake_worker a k)"
    using keeps_awake_trans [OF keeps_awake_resume keeps_awake_schedule [OF r]] by (simp add: wake_worker_def)
  show "workqueue (wake_worker a k) = workqueue k" "work (wake_worker a k) = work k" "wlist (wake_worker a k) = wlist k"
    "sem (wake_worker a k) = sem k" by (simp_all add: wake_worker_def)
  show "x \<in> set (timer_row (wake_worker a k) r) \<Longrightarrow> x \<in> set (timer_row k r)"
    by (auto simp: wake_worker_def dest: rt_thread_resume_timers split: if_splits)
  have "tstat (snd (rt_thread_resume ?t k)) ?t \<noteq> 2" if "tstat k ?t = 2" using rt_thread_resume_effect(2) [OF that] by simp
  then show "work_current (workqueue k a) = None \<Longrightarrow> tstat (wake_worker a k) ?t \<noteq> 2"
    using keeps_awakeD(1) [OF keeps_awake_schedule [OF r], of ?t] by (auto simp: wake_worker_def)
qed

section \<open>The invariant\<close>

lemma work_bits [simp]:
  "(f AND NOT 1) AND 1 = (0 :: u16)" "(f AND NOT 1) AND 2 = f AND (2 :: u16)" "(f AND NOT 2) AND 1 = f AND (1 :: u16)"
  "(f AND NOT 2) AND 2 = (0 :: u16)" "(f OR 1) AND 2 = f AND (2 :: u16)" "(f OR 2) AND 1 = f AND (1 :: u16)" "(f OR 2) AND 2 = (2 :: u16)"
  "(f AND - 2) AND 1 = (0 :: u16)" "(f AND - 2) AND 2 = f AND (2 :: u16)" "(f AND - 3) AND 1 = f AND (1 :: u16)" "(f AND - 3) AND 2 = (0 :: u16)"
  by (simp_all add: and.assoc word_ao_dist)

text \<open>An item is on at most one list; a pending one waits for a worker, a delayed one is marked so and
  knows its queue, and only marked items have a timer.\<close>

definition wq_data :: "addr \<Rightarrow> 'a workqueues_scheme \<Rightarrow> bool" where
  "wq_data a k \<longleftrightarrow> family_ok (wlist k)
     \<and> (\<forall>w. work_flags (work k w) AND RT_WORK_STATE_PENDING \<noteq> 0 \<longrightarrow> (\<exists>b. w \<in> set (wlist k (Work_list b))))
     \<and> (\<forall>w b. w \<in> set (wlist k (Delayed_list b)) \<longrightarrow>
           work_flags (work k w) AND RT_WORK_STATE_SUBMITTING \<noteq> 0 \<and> work_queue (work k w) = Some b)
     \<and> (\<forall>w r. Timer w \<in> set (timer_row k r) \<longrightarrow> work_flags (work k w) AND RT_WORK_STATE_SUBMITTING \<noteq> 0)
     \<and> (\<forall>w. work_current (workqueue k a) = Some w \<longrightarrow> work_flags (work k w) AND RT_WORK_STATE_PENDING = 0)"

text \<open>The worker is not left asleep: while there is work for it and it runs nothing, it is not suspended.\<close>

definition wq_awake :: "addr \<Rightarrow> 'a workqueues_scheme \<Rightarrow> bool" where
  "wq_awake a k \<longleftrightarrow> (wlist k (Work_list a) \<noteq> [] \<and> work_current (workqueue k a) = None \<longrightarrow>
     tstat k (work_thread (workqueue k a)) \<noteq> RT_THREAD_SUSPEND)"

definition wq_inv :: "addr \<Rightarrow> 'a workqueues_scheme \<Rightarrow> bool" where
  "wq_inv a k \<longleftrightarrow> kernel_inv k \<and> wq_data a k \<and> wq_awake a k \<and> sem_value (sem k a) = 0"

lemma wq_dataI:
  assumes "family_ok (wlist k)" "\<And>w. work_flags (work k w) AND 1 \<noteq> 0 \<Longrightarrow> \<exists>b. w \<in> set (wlist k (Work_list b))"
    "\<And>w b. w \<in> set (wlist k (Delayed_list b)) \<Longrightarrow> work_flags (work k w) AND 2 \<noteq> 0"
    "\<And>w b. w \<in> set (wlist k (Delayed_list b)) \<Longrightarrow> work_queue (work k w) = Some b"
    "\<And>w r. Timer w \<in> set (timer_row k r) \<Longrightarrow> work_flags (work k w) AND 2 \<noteq> 0"
    "\<And>w. work_current (workqueue k a) = Some w \<Longrightarrow> work_flags (work k w) AND 1 = 0"
  shows "wq_data a k"
  using assms unfolding wq_data_def by blast

lemma wq_dataD:
  assumes "wq_data a k"
  shows "family_ok (wlist k)" "work_flags (work k w) AND 1 \<noteq> 0 \<Longrightarrow> \<exists>b. w \<in> set (wlist k (Work_list b))"
    "w \<in> set (wlist k (Delayed_list b)) \<Longrightarrow> work_flags (work k w) AND 2 \<noteq> 0"
    "w \<in> set (wlist k (Delayed_list b)) \<Longrightarrow> work_queue (work k w) = Some b"
    "Timer w \<in> set (timer_row k r) \<Longrightarrow> work_flags (work k w) AND 2 \<noteq> 0"
    "work_current (workqueue k a) = Some w \<Longrightarrow> work_flags (work k w) AND 1 = 0"
  using assms unfolding wq_data_def by blast+

lemma wq_data_cong:
  assumes "wq_data a k" "wlist k' = wlist k" "work k' = work k" "workqueue k' = workqueue k"
    "\<And>w r. Timer w \<in> set (timer_row k' r) \<Longrightarrow> \<exists>r. Timer w \<in> set (timer_row k r)"
  shows "wq_data a k'"
  using assms unfolding wq_data_def by metis

text \<open>Taking an item off its list, and putting it on a work list.\<close>

definition taken_off :: "nat \<Rightarrow> 'a workqueues_scheme \<Rightarrow> 'a workqueues_scheme" where
  "taken_off w k = clear_work_flag RT_WORK_STATE_PENDING w (wlist_remove w k)"

lemma taken_off_sel [simp]:
  "wlist (taken_off w k) = (\<lambda>l. removeAll w (wlist k l))" "workqueue (taken_off w k) = workqueue k"
  "work (taken_off w k) = (work k)(w := (work k w)\<lparr>work_flags := work_flags (work k w) AND NOT 1\<rparr>)"
  "wq_only k (taken_off w k)"
  using wq_only(3) [of k w] wq_only(7) [of "wlist_remove w k" 1 w] by (simp_all add: taken_off_def wq_only_def)

lemmas taken_off_kernel [simp] = wq_onlyD(2-11) [OF taken_off_sel(4)]

lemma wq_data_taken_off: "wq_data a k \<Longrightarrow> wq_data a (taken_off w k)"
  by (rule wq_dataI) (auto simp: family_ok_remove dest: wq_dataD split: if_splits)

lemma wq_data_front: "wq_data a k \<Longrightarrow> wq_data a (wlist_push_front (Work_list a) w (wlist_remove w k))"
proof (rule wq_dataI)
  assume d: "wq_data a k"
  let ?k = "wlist_push_front (Work_list a) w (wlist_remove w k)"
  show "family_ok (wlist ?k)"
    using family_ok_push_front [OF family_ok_remove [OF wq_dataD(1) [OF d], of w], of w "Work_list a"] by simp
  show "\<exists>b. v \<in> set (wlist ?k (Work_list b))" if "work_flags (work ?k v) AND 1 \<noteq> 0" for v
    using wq_dataD(2) [OF d, of v] that by (cases "v = w") auto
qed (auto dest: wq_dataD)

lemma wq_data_back:
  assumes d: "wq_data a k" and w: "\<forall>l. w \<notin> set (wlist k l)" and c: "work_current (workqueue k a) \<noteq> Some w"
  shows "wq_data a (set_work_flag 1 w (wlist_push_back (Work_list a) w k))"
proof (rule wq_dataI)
  let ?k = "set_work_flag 1 w (wlist_push_back (Work_list a) w k)"
  show "family_ok (wlist ?k)" using family_ok_push_back [OF wq_dataD(1) [OF d] w, of "Work_list a"] by simp
  show "\<exists>b. v \<in> set (wlist ?k (Work_list b))" if "work_flags (work ?k v) AND 1 \<noteq> 0" for v
    using wq_dataD(2) [OF d, of v] that by (cases "v = w") auto
qed (use w c in \<open>auto dest: wq_dataD(3-6) [OF d] split: if_splits\<close>)

section \<open>Every operation keeps the invariant\<close>

lemma wake_worker_inv:
  assumes "kernel_inv k" "wq_data a k" "sem_value (sem k a) = 0"
  shows "wq_inv a (wake_worker a k)"
proof -
  note e = wake_worker_effect [OF assms(1), where a = a]
  have "wq_data a (wake_worker a k)" by (rule wq_data_cong [OF assms(2) e(5,4,3)]) (use e(7) in blast)
  then show ?thesis using e(1,8) assms(3) by (simp add: wq_inv_def wq_awake_def e(3,5,6))
qed

lemma taken_off_kinv: "kernel_inv k \<Longrightarrow> kernel_inv (taken_off w k)"
  by (rule wq_onlyD(1) [OF taken_off_sel(4)])

lemma submit_now:
  "workqueue_submit_work a w 0 k =
     (if work_current (workqueue k a) \<noteq> Some w
      then (0, wake_worker a (upd_work w (\<lambda>x. x\<lparr>work_queue := Some a\<rparr>) (set_work_flag 1 w (wlist_push_back (Work_list a) w (taken_off w k)))))
      else (- 7, wake_worker a (taken_off w k)))"
  by (simp add: workqueue_submit_work_def taken_off_def Let_def)

lemma wq_data_queue:
  assumes "wq_data a k" "\<forall>b. w \<notin> set (wlist k (Delayed_list b))"
  shows "wq_data a (upd_work w (\<lambda>x. x\<lparr>work_queue := q\<rparr>) k)"
  by (rule wq_dataI) (use assms(2) in \<open>auto simp: wq_dataD(1) [OF assms(1)] dest: wq_dataD(2-6) [OF assms(1)] split: if_splits\<close>)

lemma submit_now_inv:
  assumes "wq_inv a k"
  shows "wq_inv a (snd (workqueue_submit_work a w 0 k))"
proof -
  have k: "kernel_inv k" "wq_data a k" "sem_value (sem k a) = 0" using assms by (auto simp: wq_inv_def)
  let ?b = "set_work_flag 1 w (wlist_push_back (Work_list a) w (taken_off w k))"
  have b: "wq_data a ?b" if "work_current (workqueue k a) \<noteq> Some w"
    by (rule wq_data_back [OF wq_data_taken_off [OF k(2)]]) (use that in simp_all)
  have i: "kernel_inv ?b" using k(1) by (simp add: wq_inv_kinv taken_off_kinv)
  have "wq_inv a (wake_worker a (upd_work w (\<lambda>x. x\<lparr>work_queue := Some a\<rparr>) ?b))" if "work_current (workqueue k a) \<noteq> Some w"
    using that k(3) by (intro wake_worker_inv wq_data_queue b wq_inv_kinv i) simp_all
  moreover have "wq_inv a (wake_worker a (taken_off w k))"
    using k by (intro wake_worker_inv wq_data_taken_off taken_off_kinv) simp_all
  ultimately show ?thesis by (simp add: submit_now)
qed

text \<open>A delayed item: its timer is set, and it goes to the list of delayed items.\<close>

definition delay_timer :: "nat \<Rightarrow> u32 \<Rightarrow> 'a workqueues_scheme \<Rightarrow> 'a workqueues_scheme" where
  "delay_timer w ticks k =
     (if work_flags (work k w) AND 2 \<noteq> 0 then snd (rt_timer_control (Timer w) 0 ticks (snd (rt_timer_stop (Timer w) k)))
      else rt_timer_init (Timer w) [119, 111, 114, 107, 0] (User_timeout w) ticks 4 k)"

definition delayed :: "addr \<Rightarrow> nat \<Rightarrow> u32 \<Rightarrow> 'a workqueues_scheme \<Rightarrow> 'a workqueues_scheme" where
  "delayed a w ticks k =
     wlist_push_back (Delayed_list a) w (upd_work w (\<lambda>x. x\<lparr>work_queue := Some a\<rparr>) (set_work_flag 2 w (delay_timer w ticks (taken_off w k))))"

lemma set_flag_again: "work_flags (work k w) AND 2 \<noteq> 0 \<Longrightarrow> set_work_flag 2 w k = k"
proof -
  assume "work_flags (work k w) AND 2 \<noteq> 0"
  then have "bit (work_flags (work k w)) 1" by (simp add: and_exp_eq_0_iff_not_bit [of _ 1, simplified])
  then have "work_flags (work k w) OR 2 = work_flags (work k w)" by (intro bit_eqI) (auto simp: bit_simps)
  then show ?thesis by (simp add: set_work_flag_def upd_work_def)
qed

lemma submit_later:
  assumes "ticks \<noteq> 0" "ticks < 0x7FFFFFFF"
  shows "workqueue_submit_work a w ticks k = (0, rt_timer_start (Timer w) (delayed a w ticks k))"
  using assms by (auto simp: workqueue_submit_work_def delayed_def delay_timer_def taken_off_def set_flag_again Let_def)

lemma delay_timer_effect:
  assumes "kernel_inv k" "work_flags (work k w) AND 2 = 0 \<longrightarrow> (\<forall>r. Timer w \<notin> set (timer_row k r))"
  shows "kernel_inv (delay_timer w ticks k)" "x \<in> set (timer_row (delay_timer w ticks k) r) \<Longrightarrow> x \<in> set (timer_row k r)"
    "keeps_awake k (delay_timer w ticks k)" "kernel.more (delay_timer w ticks k) = kernel.more k"
proof -
  show "kernel_inv (delay_timer w ticks k)" using assms
    by (auto simp: delay_timer_def intro!: rt_timer_control_inv timer_step_inv rt_timer_init_inv)
  show "x \<in> set (timer_row (delay_timer w ticks k) r) \<Longrightarrow> x \<in> set (timer_row k r)"
    by (auto simp: delay_timer_def rt_timer_init_def timer_init_def Let_def dest: timer_row_stop_subset(1) split: if_splits)
  have "tstat (rt_object_init b ty n k) t = tstat k t \<or> tstat k t \<in> {1, 3} \<and> tstat (rt_object_init b ty n k) t \<in> {1, 3}" for b ty n t
    using critical_tstat [of k t] assms(1) by (simp add: rt_object_init_def Let_def kernel_inv_def)
  then have "keeps_awake k (rt_object_init b ty n k)" for b ty n unfolding keeps_awake_def by blast
  then show "keeps_awake k (delay_timer w ticks k)" by (simp add: delay_timer_def rt_timer_init_def timer_init_def keeps_awake_def Let_def)
  show "kernel.more (delay_timer w ticks k) = kernel.more k" by (simp add: delay_timer_def)
qed

lemma timer_start_rows:
  "x \<in> set (timer_row (rt_timer_start (Timer w) k) r) \<Longrightarrow> x = Timer w \<or> x \<in> set (timer_row k r)"
  by (auto simp: rt_timer_start_def timer_enqueue_def Let_def dest!: rt_thread_resume_timers split: if_splits)

lemma wq_data_delay:
  assumes d: "wq_data a k" and w: "\<forall>l. w \<notin> set (wlist k l)" and f: "work_flags (work k w) AND 2 \<noteq> 0"
  shows "wq_data a (wlist_push_back (Delayed_list a) w (upd_work w (\<lambda>x. x\<lparr>work_queue := Some a\<rparr>) k))"
proof (rule wq_dataI)
  let ?k = "wlist_push_back (Delayed_list a) w (upd_work w (\<lambda>x. x\<lparr>work_queue := Some a\<rparr>) k)"
  show "family_ok (wlist ?k)" using family_ok_push_back [OF wq_dataD(1) [OF d] w, of "Delayed_list a"] by simp
qed (use w f in \<open>auto dest: wq_dataD(2-6) [OF d] split: if_splits\<close>)

lemma wq_data_mark:
  assumes "wq_data a k"
  shows "wq_data a (set_work_flag 2 w k)"
  by (rule wq_dataI) (auto simp: wq_dataD(1) [OF assms] dest: wq_dataD(2-6) [OF assms] split: if_splits)

text \<open>Starting the timer of a marked item.\<close>

lemma wq_data_timer_start:
  assumes d: "wq_data a k" and f: "work_flags (work k w) AND 2 \<noteq> 0"
  shows "wq_data a (rt_timer_start (Timer w) k)"
proof (rule wq_dataI)
  let ?k = "rt_timer_start (Timer w) k"
  show "work_flags (work ?k v) AND 2 \<noteq> 0" if "Timer v \<in> set (timer_row ?k r)" for v r
    using timer_start_rows [OF that] wq_dataD(5) [OF d, of v r] f by auto
qed (use wq_dataD [OF d] in auto)

lemma submit_later_inv:
  assumes i: "wq_inv a k" and t: "ticks \<noteq> 0" "ticks < 0x7FFFFFFF"
  shows "wq_inv a (snd (workqueue_submit_work a w ticks k))"
proof -
  have k: "kernel_inv k" "wq_data a k" "sem_value (sem k a) = 0" "wq_awake a k" using i by (auto simp: wq_inv_def)
  let ?o = "taken_off w k"
  let ?t = "delay_timer w ticks ?o"
  have o: "wq_data a ?o" "kernel_inv ?o" using k(1,2) by (simp_all add: wq_data_taken_off taken_off_kinv)
  have off: "work_flags (work ?o w) AND 2 = 0 \<longrightarrow> (\<forall>r. Timer w \<notin> set (timer_row ?o r))"
    using wq_dataD(5) [OF o(1), of w] by blast
  note d = delay_timer_effect [OF o(2) off, where ticks = ticks]
  note s = wq_more_sel [OF d(4)]
  have "wq_data a ?t" by (rule wq_data_cong [OF o(1) s(3,2,1)]) (rule exI, erule d(2))
  then have "wq_data a (set_work_flag 2 w ?t)" by (rule wq_data_mark)
  then have dd: "wq_data a (delayed a w ticks k)" unfolding delayed_def by (rule wq_data_delay) (simp_all add: s)
  have ki: "kernel_inv (delayed a w ticks k)" unfolding delayed_def by (intro wq_inv_kinv d(1))
  have "keeps_awake k (delayed a w ticks k)" using d(3) by (simp add: delayed_def keeps_awake_def)
  from keeps_awake_trans [OF this keeps_awake_timer_start [OF ki, of w]]
  have aw: "keeps_awake k (rt_timer_start (Timer w) (delayed a w ticks k))" .
  have "wq_data a (rt_timer_start (Timer w) (delayed a w ticks k))" by (rule wq_data_timer_start [OF dd]) (simp add: delayed_def)
  moreover have "wq_awake a (rt_timer_start (Timer w) (delayed a w ticks k))"
    using k(4) keeps_awakeD(1) [OF aw, of "work_thread (workqueue k a)"] by (auto simp: wq_awake_def delayed_def s)
  moreover have "kernel_inv (rt_timer_start (Timer w) (delayed a w ticks k))" using ki by (rule rt_timer_start_inv) simp
  ultimately show ?thesis using k(3) by (simp add: submit_later [OF t] wq_inv_def delayed_def s)
qed

lemma submit_inv:
  assumes "wq_inv a k"
  shows "wq_inv a (snd (workqueue_submit_work a w ticks k))"
proof -
  have k: "kernel_inv k" "wq_data a k" "sem_value (sem k a) = 0" "wq_awake a k" using assms by (auto simp: wq_inv_def)
  have "wq_inv a (taken_off w k)"
    using k by (auto simp: wq_inv_def wq_data_taken_off taken_off_kinv wq_awake_def)
  then have "wq_inv a (snd (workqueue_submit_work a w ticks k))" if "ticks \<noteq> 0" "\<not> ticks < 0x7FFFFFFF"
    using that by (simp add: workqueue_submit_work_def taken_off_def Let_def)
  then show ?thesis using submit_now_inv [OF assms] submit_later_inv [OF assms] by (cases "ticks = 0") blast+
qed

lemma critical_work_inv:
  assumes "wq_inv a k"
  shows "wq_inv a (snd (rt_workqueue_critical_work a w k))"
proof -
  have k: "kernel_inv k" "wq_data a k" "sem_value (sem k a) = 0" using assms by (auto simp: wq_inv_def)
  then have "wq_inv a (wake_worker a (wlist_push_front (Work_list a) w (wlist_remove w k)))"
    by (intro wake_worker_inv wq_data_front wq_inv_kinv) simp_all
  then show ?thesis by (simp add: rt_workqueue_critical_work_def)
qed

text \<open>An item whose timer is gone is no longer marked.\<close>

lemma wq_data_unmark:
  assumes d: "wq_data a k" and w: "\<forall>b. w \<notin> set (wlist k (Delayed_list b))" "\<forall>r. Timer w \<notin> set (timer_row k r)"
  shows "wq_data a (clear_work_flag 2 w k)"
  by (rule wq_dataI) (use w in \<open>auto simp: wq_dataD(1) [OF d] dest: wq_dataD(2-6) [OF d] split: if_splits\<close>)

lemma wq_data_detach: "wq_data a k \<Longrightarrow> wq_data a (rt_timer_detach (Timer w) k)"
  by (rule wq_data_cong) auto

lemma cancel_effect:
  assumes "kernel_inv k" "wq_data a k"
  shows "kernel_inv (snd (workqueue_cancel_work b w k))" "wq_data a (snd (workqueue_cancel_work b w k))"
    "tstat (snd (workqueue_cancel_work b w k)) = tstat k" "workqueue (snd (workqueue_cancel_work b w k)) = workqueue k"
    "sem (snd (workqueue_cancel_work b w k)) = sem k" "wlist (snd (workqueue_cancel_work b w k)) = (\<lambda>l. removeAll w (wlist k l))"
    "Timer w \<notin> set (timer_row (snd (workqueue_cancel_work b w k)) r)"
proof -
  let ?o = "taken_off w k"
  let ?d = "rt_timer_detach (Timer w) (snd (rt_timer_stop (Timer w) ?o))"
  let ?u = "if work_flags (work ?o w) AND 2 \<noteq> 0 then clear_work_flag 2 w ?d else ?o"
  have c: "snd (workqueue_cancel_work b w k) = upd_work w (\<lambda>x. x\<lparr>work_queue := None\<rparr>) ?u"
    by (simp add: workqueue_cancel_work_def taken_off_def Let_def)
  have o: "wq_data a ?o" "kernel_inv ?o" using assms by (simp_all add: wq_data_taken_off taken_off_kinv)
  have st: "wq_data a (snd (rt_timer_stop (Timer w) ?o))"
  proof (rule wq_data_cong [OF o(1)])
    fix v r assume "Timer v \<in> set (timer_row (snd (rt_timer_stop (Timer w) ?o)) r)"
    from timer_row_stop_subset(1) [OF this] show "\<exists>r. Timer v \<in> set (timer_row ?o r)" by blast
  qed simp_all
  have u: "wq_data a ?u"
    using o(1) wq_data_unmark [OF wq_data_detach [OF st], of w] by simp
  show "wq_data a (snd (workqueue_cancel_work b w k))" unfolding c by (rule wq_data_queue [OF u]) simp
  have "kernel_inv ?d" by (rule timer_step_inv(2) [OF timer_step_inv(1) [OF o(2)]])
  then show "kernel_inv (snd (workqueue_cancel_work b w k))" unfolding c using o(2) by (simp add: wq_inv_kinv)
  show "tstat (snd (workqueue_cancel_work b w k)) = tstat k" "workqueue (snd (workqueue_cancel_work b w k)) = workqueue k"
    "sem (snd (workqueue_cancel_work b w k)) = sem k" "wlist (snd (workqueue_cancel_work b w k)) = (\<lambda>l. removeAll w (wlist k l))"
    unfolding c by simp_all
  show "Timer w \<notin> set (timer_row (snd (workqueue_cancel_work b w k)) r)"
    unfolding c using wq_dataD(5) [OF o(1), of w r] by auto
qed

lemma cancel_inv:
  assumes "wq_inv a k"
  shows "wq_inv a (snd (workqueue_cancel_work a w k))"
  using assms cancel_effect [of k a a w] by (auto simp: wq_inv_def wq_awake_def)

lemma timeout_handler_inv:
  assumes i: "wq_inv a k" and q: "work_queue (work k w) = Some a" and h: "delayed_work_timeout_handler w k = Some k'"
  shows "wq_inv a k'"
proof -
  have k: "kernel_inv k" "wq_data a k" "sem_value (sem k a) = 0" using i by (auto simp: wq_inv_def)
  let ?d = "rt_timer_detach (Timer w) k"
  let ?r = "wlist_remove w (clear_work_flag 2 w ?d)"
  let ?s = "if work_current (workqueue k a) \<noteq> Some w then set_work_flag 1 w (wlist_push_back (Work_list a) w ?r) else ?r"
  have k': "k' = wake_worker a ?s" using h q by (auto simp: delayed_work_timeout_handler_def Let_def)
  have fam: "family_ok (\<lambda>l. removeAll w (wlist k l))" by (rule family_ok_remove [OF wq_dataD(1) [OF k(2)]])
  have "wq_data a ?s"
  proof (rule wq_dataI)
    show "family_ok (wlist ?s)" using fam family_ok_push_back [OF fam, of w "Work_list a"] by simp
    show "\<exists>b. v \<in> set (wlist ?s (Work_list b))" if fl: "work_flags (work ?s v) AND 1 \<noteq> 0" for v
    proof (cases "v = w")
      case True
      then show ?thesis using fl wq_dataD(6) [OF k(2), of v] by (cases "work_current (workqueue k a) = Some w") auto
    next
      case False
      then obtain b where "v \<in> set (wlist k (Work_list b))" using fl wq_dataD(2) [OF k(2), of v] by (auto split: if_splits)
      then show ?thesis using False by (intro exI [of _ b]) auto
    qed
    show "work_flags (work ?s v) AND 2 \<noteq> 0" if "Timer v \<in> set (timer_row ?s r)" for v r
      using that wq_dataD(5) [OF k(2), of v r] by (auto split: if_splits)
    show "work_flags (work ?s v) AND 1 = 0" if "work_current (workqueue ?s a) = Some v" for v
      using that wq_dataD(6) [OF k(2), of v] by (auto split: if_splits)
  qed (use wq_dataD(3,4) [OF k(2)] in \<open>auto split: if_splits\<close>)
  moreover have "kernel_inv ?s" using timer_step_inv(2) [OF k(1), of "Timer w"] by (simp add: wq_inv_kinv)
  ultimately show ?thesis unfolding k' using k(3) by (intro wake_worker_inv) simp_all
qed

lemma worker_take_inv:
  assumes i: "wq_inv a k" and c: "work_current (workqueue k a) = None"
  shows "wq_inv a (worker_take a w k)"
proof -
  have k: "kernel_inv k" "wq_data a k" "sem_value (sem k a) = 0" using i by (auto simp: wq_inv_def)
  have "wq_data a (worker_take a w k)"
  proof (rule wq_dataI)
    show "family_ok (wlist (worker_take a w k))"
      using family_ok_remove [OF wq_dataD(1) [OF k(2)]] by (simp add: worker_take_def Let_def)
    show "\<exists>b. v \<in> set (wlist (worker_take a w k) (Work_list b))" if "work_flags (work (worker_take a w k) v) AND 1 \<noteq> 0" for v
      using that wq_dataD(2) [OF k(2), of v] by (auto simp: worker_take_def Let_def split: if_splits)
  qed (use wq_dataD(3-5) [OF k(2)] in \<open>auto simp: worker_take_def Let_def split: if_splits\<close>)
  moreover have "kernel_inv (worker_take a w k)" using k(1) by (simp add: worker_take_def wq_inv_kinv Let_def)
  ultimately show ?thesis using k(3) by (simp add: wq_inv_def wq_awake_def) (simp add: worker_take_def Let_def)
qed

section \<open>The end of an item\<close>

lemma completion_loop_effect:
  fixes k :: "'a ipc_scheme"
  assumes "kernel_inv k" "sem_value (sem k a) = 0"
  shows "\<exists>k'. completion_loop a k = Some (0, k') \<and> kernel_inv k' \<and> kernel.more k' = kernel.more k \<and> tlist k' (Suspended a) = []
    \<and> keeps_awake k k' \<and> (\<forall>x r. x \<in> set (timer_row k' r) \<longrightarrow> x \<in> set (timer_row k r))
    \<and> (\<forall>t \<in> set (tlist k (Suspended a)). tstat k' t \<in> {1, 3})"
  using assms
proof (induction "tlist k (Suspended a)" arbitrary: k)
  case Nil
  let ?i = "upd_sem a (\<lambda>s. s\<lparr>sem_value := sem_value s + 1\<rparr>) k"
  have "upd_sem a (\<lambda>s. s\<lparr>sem_value := sem_value s - 1\<rparr>) ?i = k" by (simp add: upd_sem_def)
  then have "completion_loop a ?i = Some (0, k)"
    using Nil.prems(2) by (subst completion_loop.simps) (simp add: rt_sem_trytake_def rt_sem_take_def)
  moreover have "completion_loop a k = completion_loop a ?i"
    using Nil by (subst completion_loop.simps) (simp add: rt_sem_trytake_def rt_sem_take_def rt_sem_release_def)
  ultimately show ?case using Nil by simp
next
  case (Cons t ts)
  let ?r = "ipc_list_resume (Suspended a) k"
  let ?k = "rt_schedule ?r"
  note r = ipc_list_resume_effect [OF Cons.prems(1) wait_list_simps(1) Cons.hyps(2) [symmetric]]
  have k1: "kernel_inv ?k" using r(1) by (rule rt_schedule_kernel_inv)
  have l1: "tlist ?k (Suspended a) = ts" using wait_lists_schedule(1) [OF r(1)] r(2) by simp
  have s1: "sem ?k = sem k" by simp
  have aw: "keeps_awake k ?k"
    using keeps_awake_trans [OF keeps_awake_resume keeps_awake_schedule [OF r(1) [unfolded ipc_list_resume_def]]]
    by (simp add: ipc_list_resume_def)
  have rows: "x \<in> set (timer_row ?k q) \<Longrightarrow> x \<in> set (timer_row k q)" for x q
    by (simp add: ipc_list_resume_def rt_thread_resume_timers)
  have t1: "tstat ?k t \<in> {1, 3}" using rt_schedule_tstat [of ?r t] r(1,3) by (auto simp: kernel_inv_def)
  obtain k' where k': "completion_loop a ?k = Some (0, k')" "kernel_inv k'" "kernel.more k' = kernel.more ?k" "tlist k' (Suspended a) = []"
    "keeps_awake ?k k'" "\<forall>x r. x \<in> set (timer_row k' r) \<longrightarrow> x \<in> set (timer_row ?k r)" "\<forall>u \<in> set ts. tstat k' u \<in> {1, 3}"
    using Cons.hyps(1) [OF l1 [symmetric] k1] Cons.prems(2) s1 unfolding l1 by auto
  have "completion_loop a k = completion_loop a ?k"
    using Cons.prems(2) Cons.hyps(2) [symmetric]
    by (subst completion_loop.simps) (simp add: rt_sem_trytake_def rt_sem_take_def rt_sem_release_def)
  moreover have "tstat k' t \<in> {1, 3}" by (rule keeps_awakeD(2) [OF k'(5) t1])
  ultimately show ?case using k' rows keeps_awake_trans [OF aw k'(5)] Cons.hyps(2) [symmetric] by auto
qed

lemma workqueue_work_completion_effect:
  fixes k :: "'a ipc_scheme"
  assumes "kernel_inv k" "sem_value (sem k a) = 0"
  shows "\<exists>k'. workqueue_work_completion a k = Some (0, k') \<and> kernel_inv k' \<and> kernel.more k' = kernel.more k \<and> tlist k' (Suspended a) = []
    \<and> keeps_awake k k' \<and> (\<forall>x r. x \<in> set (timer_row k' r) \<longrightarrow> x \<in> set (timer_row k r))
    \<and> (\<forall>t \<in> set (tlist k (Suspended a)). tstat k' t \<in> {1, 3})"
proof -
  let ?e = "rt_enter_critical k"
  have e: "kernel_inv ?e" "tlist ?e = tlist k" "tstat ?e = tstat k" "timer_row ?e = timer_row k" "sem_value (sem ?e a) = 0"
    using exit_critical_kernel_inv(1) [OF assms(1)] assms(2) by (simp_all add: rt_enter_critical_def tstat_def fun_eq_iff)
  obtain c where c: "completion_loop a ?e = Some (0, c)" "kernel_inv c" "kernel.more c = kernel.more ?e" "tlist c (Suspended a) = []"
    "keeps_awake ?e c" "\<forall>x r. x \<in> set (timer_row c r) \<longrightarrow> x \<in> set (timer_row ?e r)"
    "\<forall>t \<in> set (tlist ?e (Suspended a)). tstat c t \<in> {1, 3}"
    using completion_loop_effect [OF e(1,5)] by blast
  let ?k = "rt_exit_critical c"
  have x: "keeps_awake c ?k" using exit_critical_effect(2) [OF c(2)] unfolding keeps_awake_def by blast
  have r: "timer_row ?k = timer_row c" by (simp add: rt_exit_critical_def Let_def)
  have "keeps_awake k c" using c(5) by (simp add: keeps_awake_def e(3))
  then have "keeps_awake k ?k" using x by (rule keeps_awake_trans)
  moreover have "\<forall>t \<in> set (tlist k (Suspended a)). tstat ?k t \<in> {1, 3}" using c(7) keeps_awakeD(2) [OF x] by (simp add: e(2))
  ultimately show ?thesis using c exit_critical_kernel_inv(2) [OF c(2)] exit_critical_effect(1) [OF c(2), of "Suspended a"]
    by (simp add: workqueue_work_completion_def e(4) r)
qed

text \<open>When the work function has returned, everyone who waited for it runs again, and the worker goes on
  to the next item.\<close>

lemma worker_finish_effect:
  assumes i: "wq_inv a k" and t: "tstat k (work_thread (workqueue k a)) \<noteq> 2"
  shows "\<exists>k'. worker_finish a k = Some k' \<and> wq_inv a k' \<and> work_current (workqueue k' a) = None \<and> wlist k' = wlist k
    \<and> work k' = work k \<and> tlist k' (Suspended a) = [] \<and> (\<forall>u \<in> set (tlist k (Suspended a)). tstat k' u \<in> {1, 3})"
proof -
  have k: "kernel_inv k" "wq_data a k" "sem_value (sem k a) = 0" using i by (auto simp: wq_inv_def)
  let ?c = "upd_queue a (\<lambda>q. q\<lparr>work_current := None\<rparr>) k"
  have c: "kernel_inv ?c" "sem_value (sem ?c a) = 0" using k by (simp_all add: wq_inv_kinv)
  obtain k' where k': "workqueue_work_completion a ?c = Some (0, k')" "kernel_inv k'" "kernel.more k' = kernel.more ?c"
    "tlist k' (Suspended a) = []" "keeps_awake ?c k'" "\<forall>x r. x \<in> set (timer_row k' r) \<longrightarrow> x \<in> set (timer_row ?c r)"
    "\<forall>u \<in> set (tlist ?c (Suspended a)). tstat k' u \<in> {1, 3}"
    using workqueue_work_completion_effect [OF c] by blast
  note s = wq_more_sel [OF k'(3)]
  have "wq_data a ?c" by (rule wq_dataI) (use wq_dataD(1-5) [OF k(2)] in auto)
  then have "wq_data a k'" by (rule wq_data_cong) (use s k'(6) in auto)
  moreover have "tstat k' (work_thread (workqueue k a)) \<noteq> 2" using keeps_awakeD(1) [OF k'(5)] t by simp
  ultimately have "wq_inv a k'" using k'(2) k(3) by (simp add: wq_inv_def wq_awake_def s)
  then show ?thesis using k' by (simp add: worker_finish_def s)
qed

lemma rt_thread_suspend_timers: "x \<in> set (timer_row (snd (rt_thread_suspend t k)) r) \<Longrightarrow> \<exists>r. x \<in> set (timer_row k r)"
  using timer_row_stop_subset(1) [of x "Thread_timer t" "set_stat t 2 (rt_schedule_remove_thread t k)" r]
  by (auto simp: rt_thread_suspend_def Let_def split: if_splits)

lemma suspend_current_data:
  assumes "wq_data a k"
  shows "wq_data a (rt_schedule (snd (rt_thread_suspend t k)))"
  by (rule wq_data_cong [OF assms]) (auto intro: rt_thread_suspend_timers)

lemma worker_idle_inv:
  assumes i: "wq_inv a k" and e: "wlist k (Work_list a) = []"
  shows "wq_inv a (worker_idle k)"
proof (cases "rt_thread_self k")
  case (Some t)
  have k: "kernel_inv k" "wq_data a k" "sem_value (sem k a) = 0" using i by (auto simp: wq_inv_def)
  have "kernel_inv (rt_schedule (snd (rt_thread_suspend t k)))" by (intro rt_schedule_kernel_inv rt_thread_suspend_inv k(1))
  moreover note suspend_current_data [OF k(2), of t]
  ultimately show ?thesis using Some k(3) e by (simp add: worker_idle_def wq_inv_def wq_awake_def)
qed (use i in \<open>simp add: worker_idle_def\<close>)

section \<open>Cancelling everything\<close>

lemma cancel_list_effect:
  assumes "wq_inv a k"
  shows "\<exists>k'. cancel_list a l k = Some k' \<and> wq_inv a k' \<and> wlist k' l = [] \<and> (\<forall>m. set (wlist k' m) \<subseteq> set (wlist k m))
    \<and> workqueue k' = workqueue k \<and> tstat k' = tstat k \<and> tlist k' = tlist k"
  using assms
proof (induction "length (wlist k l)" arbitrary: k rule: less_induct)
  case less
  show ?case
  proof (cases "wlist k l")
    case Nil
    then show ?thesis using less.prems by (subst cancel_list.simps) auto
  next
    case (Cons w ws)
    let ?k = "snd (workqueue_cancel_work a w k)"
    have k: "kernel_inv k" "wq_data a k" using less.prems by (auto simp: wq_inv_def)
    note c = cancel_effect [OF k, where b = a and w = w]
    have tl: "tlist ?k = tlist k" by (simp add: workqueue_cancel_work_def Let_def)
    have "length (wlist ?k l) < length (wlist k l)" using Cons by (simp add: c(6) le_imp_less_Suc)
    from less.hyps [OF this cancel_inv [OF less.prems]] obtain k' where
      k': "cancel_list a l ?k = Some k'" "wq_inv a k'" "wlist k' l = []" "\<forall>m. set (wlist k' m) \<subseteq> set (wlist ?k m)"
        "workqueue k' = workqueue ?k" "tstat k' = tstat ?k" "tlist k' = tlist ?k" by blast
    moreover have "cancel_list a l k = cancel_list a l ?k" using Cons by (subst cancel_list.simps) simp
    ultimately show ?thesis using c(3,4,6) tl by fastforce
  qed
qed

text \<open>What other parts of the system may do to the state: anything but touch the queue and its items, start
  the timer of an item, or suspend the worker between two items. While an item runs the worker may be
  suspended, by the item's function, which is called in its thread and may wait for anything.\<close>

definition wq_other :: "addr \<Rightarrow> 'a workqueues_scheme \<Rightarrow> 'a workqueues_scheme \<Rightarrow> bool" where
  "wq_other a k k' \<longleftrightarrow> kernel_inv k' \<and> wlist k' = wlist k \<and> work k' = work k \<and> workqueue k' = workqueue k
     \<and> sem_value (sem k' a) = sem_value (sem k a) \<and> (\<forall>w r. Timer w \<in> set (timer_row k' r) \<longrightarrow> (\<exists>r. Timer w \<in> set (timer_row k r)))
     \<and> (work_current (workqueue k a) = None \<and> tstat k (work_thread (workqueue k a)) \<noteq> RT_THREAD_SUSPEND \<longrightarrow> tstat k' (work_thread (workqueue k a)) \<noteq> RT_THREAD_SUSPEND)"

lemma wq_other_inv: "wq_other a k k' \<Longrightarrow> wq_inv a k \<Longrightarrow> wq_inv a k'"
  using wq_data_cong [of a k k'] by (auto simp: wq_other_def wq_inv_def wq_awake_def)

lemma wq_other_kernel:
  assumes "kernel_inv k'" "kernel.more k' = kernel.more k" "timer_row k' = timer_row k" "keeps_awake k k'"
  shows "wq_other a k k'"
proof -
  note m = wq_more_sel [OF assms(2)]
  have "\<forall>w r. Timer w \<in> set (timer_row k' r) \<longrightarrow> (\<exists>r. Timer w \<in> set (timer_row k r))" unfolding assms(3) by blast
  then show ?thesis using assms(1) keeps_awakeD(1) [OF assms(4)] unfolding wq_other_def m by simp
qed

lemma cancel_all_effect:
  assumes "wq_inv a k"
  shows "\<exists>k'. rt_workqueue_cancel_all_work a k = Some (0, k') \<and> wq_inv a k' \<and> wlist k' (Work_list a) = [] \<and> wlist k' (Delayed_list a) = []
    \<and> work_current (workqueue k' a) = work_current (workqueue k a)"
proof -
  let ?e = "rt_enter_critical k"
  have k: "kernel_inv k" using assms by (simp add: wq_inv_def)
  have "wq_other a k ?e" by (rule wq_other_kernel) (use k in \<open>simp_all add: exit_critical_kernel_inv\<close>, simp_all add: rt_enter_critical_def tstat_def fun_eq_iff)
  from wq_other_inv [OF this assms] have e: "wq_inv a ?e" .
  obtain k1 where k1: "cancel_list a (Work_list a) ?e = Some k1" "wq_inv a k1" "wlist k1 (Work_list a) = []" "workqueue k1 = workqueue ?e"
    using cancel_list_effect [OF e] by blast
  obtain k2 where k2: "cancel_list a (Delayed_list a) k1 = Some k2" "wq_inv a k2" "wlist k2 (Delayed_list a) = []"
    "\<forall>m. set (wlist k2 m) \<subseteq> set (wlist k1 m)" "workqueue k2 = workqueue k1"
    using cancel_list_effect [OF k1(2)] by blast
  let ?k = "rt_exit_critical k2"
  have kk: "kernel_inv k2" using k2(2) by (simp add: wq_inv_def)
  have "keeps_awake k2 ?k" using exit_critical_effect(2) [OF kk] unfolding keeps_awake_def by blast
  then have x: "wq_other a k2 ?k"
    using exit_critical_kernel_inv(2) [OF kk] by (intro wq_other_kernel) (simp_all add: rt_exit_critical_def Let_def)
  have "wlist k2 (Work_list a) = []" using k2(4) k1(3) by (metis subset_empty set_empty)
  then show ?thesis using k1(1,4) k2 wq_other_inv [OF x k2(2)] x
    by (simp add: rt_workqueue_cancel_all_work_def wq_other_def wq_more_sel(1) [of ?e k])
qed

lemma cancel_sync_inv:
  assumes i: "wq_inv a k" and c: "rt_current_thread k = Some t" "tstat k t = 3" "ipc_flag k a \<in> {0, 1}"
  shows "wq_inv a (snd (rt_workqueue_cancel_work_sync a w k))"
proof (cases "work_current (workqueue k a) = Some w")
  case True
  have k: "kernel_inv k" "wq_data a k" "sem_value (sem k a) = 0" using i by (auto simp: wq_inv_def)
  let ?e = "upd_thread t (\<lambda>th. th\<lparr>error := 0\<rparr>) k"
  let ?k = "rt_schedule (ipc_wait (Suspended a) t (ipc_flag k a) (- 1) ?e)"
  have s: "snd (rt_workqueue_cancel_work_sync a w k) = ?k"
    using True k(3) c(1) by (simp add: rt_workqueue_cancel_work_sync_def rt_sem_take_def rt_thread_self_def Let_def)
  have "wq_data a ?k"
  proof (rule wq_data_cong [OF k(2)])
    fix v r assume "Timer v \<in> set (timer_row ?k r)"
    then have "\<exists>r. Timer v \<in> set (timer_row ?e r)"
      using rt_thread_suspend_timers [of "Timer v" t ?e r] by (auto simp: ipc_wait_def wait_timer_def ipc_list_suspend_def Let_def split: if_splits)
    then show "\<exists>r. Timer v \<in> set (timer_row k r)" by simp
  qed (simp_all add: wq_more_sel(1-3) [OF ipc_ops_more(3)] wq_more_sel(1-3) [OF set_stat_more(4)])
  moreover have "kernel_inv ?k" by (rule block_effect(1) [OF k(1) c(2) wait_list_simps(1) c(3)])
  ultimately show ?thesis using True k(3) by (simp add: s wq_inv_def wq_awake_def wq_more_sel(1-3) [OF ipc_ops_more(3)] wq_more_sel(1-3) [OF set_stat_more(4)])
next
  case False
  then show ?thesis using cancel_inv [OF i] by (simp add: rt_workqueue_cancel_work_sync_def)
qed

section \<open>Runs\<close>

text \<open>The calls on the queue at \<open>a\<close>, by any thread and by the timer thread, the steps of its worker, and
  what else happens in the system.\<close>

inductive wq_step :: "addr \<Rightarrow> 'a workqueues_scheme \<Rightarrow> 'a workqueues_scheme \<Rightarrow> bool" for a where
  wq_submit: "wq_step a k (snd (rt_workqueue_submit_work a w time k))"
| wq_dowork: "wq_step a k (snd (rt_workqueue_dowork a w k))"
| wq_critical: "wq_step a k (snd (rt_workqueue_critical_work a w k))"
| wq_cancel: "wq_step a k (snd (rt_workqueue_cancel_work a w k))"
| wq_cancel_sync: "rt_current_thread k = Some t \<Longrightarrow> tstat k t = RT_THREAD_RUNNING \<Longrightarrow> ipc_flag k a \<in> {0, 1} \<Longrightarrow>
    wq_step a k (snd (rt_workqueue_cancel_work_sync a w k))"
| wq_cancel_all: "rt_workqueue_cancel_all_work a k = Some (r, k') \<Longrightarrow> wq_step a k k'"
| wq_timeout: "work_queue (work k w) = Some a \<Longrightarrow> delayed_work_timeout_handler w k = Some k' \<Longrightarrow> wq_step a k k'"
| wq_idle: "rt_current_thread k = Some (work_thread (workqueue k a)) \<Longrightarrow> wlist k (Work_list a) = [] \<Longrightarrow>
    work_current (workqueue k a) = None \<Longrightarrow> wq_step a k (worker_idle k)"
| wq_take: "wlist k (Work_list a) = w # ws \<Longrightarrow> work_current (workqueue k a) = None \<Longrightarrow> wq_step a k (worker_take a w k)"
| wq_finish: "tstat k (work_thread (workqueue k a)) = RT_THREAD_RUNNING \<Longrightarrow> worker_finish a k = Some k' \<Longrightarrow> wq_step a k k'"
| wq_others: "wq_other a k k' \<Longrightarrow> wq_step a k k'"

lemma wq_step_inv:
  assumes "wq_step a k k'" "wq_inv a k"
  shows "wq_inv a k'"
  using assms
proof (cases rule: wq_step.cases)
  case (wq_cancel_all r)
  then show ?thesis using cancel_all_effect [OF assms(2)] by auto
next
  case wq_finish
  then show ?thesis using worker_finish_effect [OF assms(2)] by auto
qed (use assms(2) in \<open>auto simp: rt_workqueue_submit_work_def rt_workqueue_dowork_def rt_workqueue_cancel_work_def
    intro: submit_inv critical_work_inv cancel_inv cancel_sync_inv timeout_handler_inv worker_idle_inv worker_take_inv wq_other_inv\<close>)

text \<open>A queue nothing has been submitted to.\<close>

definition wq_new :: "addr \<Rightarrow> 'a workqueues_scheme \<Rightarrow> bool" where
  "wq_new a k \<longleftrightarrow> kernel_inv k \<and> (\<forall>l. wlist k l = []) \<and> (\<forall>w. work_flags (work k w) = 0) \<and> (\<forall>w r. Timer w \<notin> set (timer_row k r))
     \<and> work_current (workqueue k a) = None \<and> sem_value (sem k a) = 0"

lemma wq_new_inv: "wq_new a k \<Longrightarrow> wq_inv a k"
  by (simp add: wq_new_def wq_inv_def wq_data_def wq_awake_def family_ok_def)

interpretation wq_run: safe_steps "wq_new a" "wq_step a" "wq_inv a" for a
  by unfold_locales (rule wq_new_inv, assumption, rule wq_step_inv)

section \<open>Properties\<close>

text \<open>An example: the queue at 4, whose worker is thread 2 and sleeps.\<close>

definition example_queue :: "tid \<Rightarrow> workqueues" where
  "example_queue t = example_running (idle_ipc
     (workqueues.fields (\<lambda>_. \<lparr>work_current = None, work_thread = t\<rparr>)
       (\<lambda>_. \<lparr>work_func = 0, work_data = 0, work_flags = 0, work_type = 0, work_queue = None\<rparr>) (\<lambda>_. []) None))"

definition example_workqueues :: workqueues where
  "example_workqueues = snd (rt_thread_suspend 2 (example_queue 2))"

lemma example_queue_sel [simp]:
  "kernel_inv (example_queue t)" "tstat (example_queue t) = (\<lambda>_. 0)(0 := 1, 1 := 3, 2 := 1)"
  "workqueue (example_queue t) = (\<lambda>_. \<lparr>work_current = None, work_thread = t\<rparr>)"
  "work (example_queue t) = (\<lambda>_. \<lparr>work_func = 0, work_data = 0, work_flags = 0, work_type = 0, work_queue = None\<rparr>)"
  "wlist (example_queue t) = (\<lambda>_. [])" "sem (example_queue t) = (\<lambda>_. \<lparr>sem_value = 0\<rparr>)" "timer_row (example_queue t) = (\<lambda>_. [])"
  by (simp_all add: example_queue_def example_running_inv) (simp_all add: example_running_def example_kernel_def boot_kernel_def idle_ipc_def workqueues.defs)

lemma example_workqueues_sel [simp]:
  "kernel_inv example_workqueues" "tstat example_workqueues = (\<lambda>_. 0)(0 := 1, 1 := 3, 2 := 2)"
  "workqueue example_workqueues = (\<lambda>_. \<lparr>work_current = None, work_thread = 2\<rparr>)"
  "work example_workqueues = (\<lambda>_. \<lparr>work_func = 0, work_data = 0, work_flags = 0, work_type = 0, work_queue = None\<rparr>)"
  "wlist example_workqueues = (\<lambda>_. [])" "sem example_workqueues = (\<lambda>_. \<lparr>sem_value = 0\<rparr>)"
  "Timer w \<notin> set (timer_row example_workqueues r)"
proof -
  show "kernel_inv example_workqueues" "tstat example_workqueues = (\<lambda>_. 0)(0 := 1, 1 := 3, 2 := 2)"
    by (simp_all add: example_workqueues_def rt_thread_suspend_inv rt_thread_suspend_effect(2))
  show "Timer w \<notin> set (timer_row example_workqueues r)"
    by (auto simp: example_workqueues_def dest!: rt_thread_suspend_timers)
qed (simp_all add: example_workqueues_def wq_more_sel [OF kernel_ops_more(1)])

lemma example_workqueues_new: "wq_new 4 example_workqueues" "wq_new 4 (example_queue 1)"
  by (simp_all add: wq_new_def)


lemma dowork_effect:
  assumes "kernel_inv k" "work_current (workqueue k a) = None"
  shows "workqueue (snd (rt_workqueue_dowork a w k)) = workqueue k"
    "wlist (snd (rt_workqueue_dowork a w k)) (Work_list a) = removeAll w (wlist k (Work_list a)) @ [w]"
    "keeps_awake k (snd (rt_workqueue_dowork a w k))" "fst (rt_workqueue_dowork a w k) = 0"
proof -
  let ?q = "upd_work w (\<lambda>x. x\<lparr>work_queue := Some a\<rparr>) (set_work_flag 1 w (wlist_push_back (Work_list a) w (taken_off w k)))"
  have q: "kernel_inv ?q" by (intro wq_inv_kinv taken_off_kinv assms(1))
  note e = wake_worker_effect(2,3,5) [OF q, where a = a]
  have d: "rt_workqueue_dowork a w k = (0, wake_worker a ?q)" using assms(2) by (simp add: rt_workqueue_dowork_def submit_now)
  show "workqueue (snd (rt_workqueue_dowork a w k)) = workqueue k" "fst (rt_workqueue_dowork a w k) = 0"
    "wlist (snd (rt_workqueue_dowork a w k)) (Work_list a) = removeAll w (wlist k (Work_list a)) @ [w]" unfolding d snd_conv e by simp_all
  show "keeps_awake k (snd (rt_workqueue_dowork a w k))" using e(1) by (simp add: d keeps_awake_def)
qed

text \<open>In the example item 7 is submitted, its function blocks the worker, and item 8 is submitted meanwhile.\<close>

lemma example_blocking_run:
  defines "k1 \<equiv> worker_take 4 7 (snd (rt_workqueue_dowork 4 7 example_workqueues))"
  defines "k2 \<equiv> snd (rt_thread_suspend 2 k1)"
  shows "(wq_step 4)\<^sup>*\<^sup>* example_workqueues (snd (rt_workqueue_dowork 4 8 k2))"
    "tstat k2 2 = 2" "work_current (workqueue k2 4) = Some 7"
    "work_flags (work (snd (rt_workqueue_dowork 4 8 k2)) 8) AND 1 \<noteq> 0"
proof -
  let ?d = "snd (rt_workqueue_dowork 4 7 example_workqueues)"
  have c: "work_current (workqueue example_workqueues 4) = None" by simp
  note d = dowork_effect [OF example_workqueues_sel(1) c, of 7]
  have wl: "wlist ?d (Work_list 4) = 7 # []" using d(2) by simp
  have wc: "work_current (workqueue ?d 4) = None" using d(1) c by simp
  have r1: "(wq_step 4)\<^sup>*\<^sup>* example_workqueues k1"
    unfolding k1_def by (rule rtranclp.rtrancl_into_rtrancl [OF r_into_rtranclp [of "wq_step 4", OF wq_dowork] wq_take [OF wl wc]])
  have i: "kernel_inv k1" using wq_run.reach_inv [OF example_workqueues_new(1) r1] by (simp add: wq_inv_def)
  have k1: "work_current (workqueue k1 4) = Some 7" by (simp add: k1_def worker_take_def Let_def)
  note m = wq_more_sel [OF kernel_ops_more(1), of 2 k1]
  have "wq_other 4 k1 k2"
    using i k1 m unfolding wq_other_def k2_def by (auto simp: rt_thread_suspend_inv dest: rt_thread_suspend_timers)
  then show "(wq_step 4)\<^sup>*\<^sup>* example_workqueues (snd (rt_workqueue_dowork 4 8 k2))"
    by (intro rtranclp.rtrancl_into_rtrancl [OF rtranclp.rtrancl_into_rtrancl [OF r1 wq_others] wq_dowork])
  have "wq_inv 4 ?d" by (rule wq_run.reach_inv [OF example_workqueues_new(1) r_into_rtranclp [of "wq_step 4", OF wq_dowork]])
  then have "tstat ?d 2 \<noteq> 2" using wl d(1) by (simp add: wq_inv_def wq_awake_def)
  then have "tstat ?d 2 \<in> {1, 3}" using d(3) by (auto simp: keeps_awake_def dest: spec [of _ 2])
  then have "tstat k1 2 \<in> {1, 3}" by (simp add: k1_def worker_take_def Let_def)
  then show "tstat k2 2 = 2" by (auto simp: k2_def rt_thread_suspend_effect(2))
  show "work_current (workqueue k2 4) = Some 7" using k1 m by (simp add: k2_def)
  then have e: "snd (rt_workqueue_dowork 4 8 k2)
      = wake_worker 4 (upd_work 8 (\<lambda>x. x\<lparr>work_queue := Some 4\<rparr>) (set_work_flag 1 8 (wlist_push_back (Work_list 4) 8 (taken_off 8 k2))))"
    by (simp add: rt_workqueue_dowork_def submit_now)
  have "kernel_inv k2" unfolding k2_def by (rule rt_thread_suspend_inv [OF i])
  then have "kernel_inv (upd_work 8 (\<lambda>x. x\<lparr>work_queue := Some 4\<rparr>) (set_work_flag 1 8 (wlist_push_back (Work_list 4) 8 (taken_off 8 k2))))"
    by (intro wq_inv_kinv taken_off_kinv)
  from wake_worker_effect(4) [OF this, of 4]
  show "work_flags (work (snd (rt_workqueue_dowork 4 8 k2)) 8) AND 1 \<noteq> 0"
    unfolding e by (simp add: bit.conj_disj_distrib2)
qed


text \<open>
  C20. A round of the worker that finds an item takes it, runs its function and then wakes every
  thread that waits for it in \<open>rt_workqueue_cancel_work_sync\<close>: the loop that releases the semaphore
  once for every waiter ends, and the count of the semaphore is zero again.
\<close>

theorem rt_workqueue_round_wakes_all:
  assumes "wq_inv a k" "wlist k (Work_list a) = w # ws"
    and "k1 = worker_take a w k" "k2 = call (work_func (work k1 w)) w (work_data (work k1 w)) k1"
    and "wq_inv a k2" "tstat k2 (work_thread (workqueue k2 a)) = RT_THREAD_RUNNING"
  shows "w \<notin> set (wlist k1 (Work_list a)) \<and> work_current (workqueue k1 a) = Some w
    \<and> (\<exists>k'. workqueue_thread_entry_round call a k = Some k' \<and> wq_inv a k' \<and> work_current (workqueue k' a) = None
        \<and> sem_value (sem k' a) = 0 \<and> tlist k' (Suspended a) = []
        \<and> (\<forall>u \<in> set (tlist k2 (Suspended a)). tstat k' u \<in> {RT_THREAD_READY, RT_THREAD_RUNNING}))"
proof -
  have "workqueue_thread_entry_round call a k = worker_finish a k2"
    using assms(2-4) by (simp add: workqueue_thread_entry_round_def Let_def)
  moreover obtain k' where "worker_finish a k2 = Some k'" "wq_inv a k'" "work_current (workqueue k' a) = None"
    "tlist k' (Suspended a) = []" "\<forall>u \<in> set (tlist k2 (Suspended a)). tstat k' u \<in> {1, 3}"
    using worker_finish_effect [OF assms(5)] assms(6) by auto
  ultimately show ?thesis using assms(3) by (simp add: worker_take_def Let_def wq_inv_def)
qed

theorem rt_workqueue_round_wakes_all_witness:
  "\<exists>k'. workqueue_thread_entry_round (\<lambda>_ _ _ k. k) 4 (snd (rt_workqueue_dowork 4 7 (example_queue 1))) = Some k' \<and> sem_value (sem k' 4) = 0"
proof -
  let ?k = "snd (rt_workqueue_dowork 4 7 (example_queue 1))"
  have i: "wq_inv 4 ?k" using submit_inv [OF wq_new_inv [OF example_workqueues_new(2)], of 7 0] by (simp add: rt_workqueue_dowork_def)
  have "tstat ?k 1 = 3" by (simp add: rt_workqueue_dowork_def submit_now wake_worker_def)
  then have t: "tstat (worker_take 4 7 ?k) (work_thread (workqueue (worker_take 4 7 ?k) 4)) = 3"
    by (simp add: worker_take_def dowork_effect Let_def)
  have j: "wq_inv 4 (worker_take 4 7 ?k)" by (rule worker_take_inv [OF i]) (simp add: dowork_effect)
  have "wlist ?k (Work_list 4) = [7]" by (simp add: dowork_effect)
  from rt_workqueue_round_wakes_all [OF i this refl _ j t, of "\<lambda>_ _ _ k. k"] show ?thesis by auto
qed

lemma resume_keeps_user_timer:
  "Timer w \<in> set (timer_row k r) \<Longrightarrow> Timer w \<in> set (timer_row (snd (rt_thread_resume t k)) r)"
  by (auto simp: rt_thread_resume_def rt_timer_stop_def Let_def)

text \<open>
  A delayed item that is submitted again, now without a delay, keeps its timer running. Once the
  worker has taken the item, it belongs to no queue, so when the timer fires its handler reads
  through a null pointer.
\<close>

theorem rt_workqueue_resubmit_faults:
  assumes "wq_inv a k" "Timer w \<in> set (timer_row k r)" "wlist k (Work_list a) = []" "work_current (workqueue k a) = None"
  shows "case rt_workqueue_submit_work a w 0 k of (res, k1) \<Rightarrow> res = RT_EOK \<and> wlist k1 (Work_list a) = [w]
    \<and> (let k2 = worker_take a w k1 in Timer w \<in> set (timer_row k2 r) \<and> delayed_work_timeout_handler w k2 = None)"
proof -
  let ?k = "snd (rt_workqueue_dowork a w k)"
  note d = dowork_effect [OF _ assms(4), where w = w]
  have "Timer w \<in> set (timer_row ?k r)"
    using resume_keeps_user_timer [OF assms(2)] assms(2,4) by (simp add: rt_workqueue_dowork_def submit_now wake_worker_def)
      (simp add: rt_thread_resume_def rt_timer_stop_def Let_def)
  then show ?thesis using d(2,4) assms(1,3)
    by (simp add: rt_workqueue_submit_work_def rt_workqueue_dowork_def case_prod_beta worker_take_def delayed_work_timeout_handler_def wq_inv_def Let_def)
qed

text \<open>The example: item 7 with a delay of 10 ticks.\<close>

lemma timer_start_mem: "Timer w \<in> set (timer_row (rt_timer_start (Timer w) k) (start_row k (Timer w)))"
proof -
  have "Timer w \<in> set (timer_row (timer_enqueue (Timer w) k) (start_row k (Timer w)))" by (simp add: timer_enqueue_mem)
  then show ?thesis using resume_keeps_user_timer by (auto simp: rt_timer_start_def Let_def)
qed

theorem rt_workqueue_resubmit_faults_witness:
  "delayed_work_timeout_handler 7 (worker_take 4 7 (snd (rt_workqueue_submit_work 4 7 0
     (snd (rt_workqueue_submit_work 4 7 10 example_workqueues))))) = None"
proof -
  let ?k = "snd (rt_workqueue_submit_work 4 7 10 example_workqueues)"
  have s: "?k = rt_timer_start (Timer 7) (delayed 4 7 10 example_workqueues)" by (simp add: rt_workqueue_submit_work_def submit_later)
  have i: "wq_inv 4 ?k" using submit_inv [OF wq_new_inv [OF example_workqueues_new(1)], of 7 10] by (simp add: rt_workqueue_submit_work_def)
  have "wlist ?k (Work_list 4) = []" "work_current (workqueue ?k 4) = None"
    by (simp_all add: s delayed_def delay_timer_def)
  moreover have "Timer 7 \<in> set (timer_row ?k (start_row (delayed 4 7 10 example_workqueues) (Timer 7)))" unfolding s by (rule timer_start_mem)
  ultimately show ?thesis using rt_workqueue_resubmit_faults [OF i] by (auto simp: case_prod_beta Let_def)
qed

end
