(* ===== verification/Waitqueue.thy ===== *)
theory Waitqueue
  imports Ipc
begin

text \<open>
  Wait queues, \<^verbatim>\<open>rt-thread/components/drivers/src/waitqueue.c\<close>: threads and pollers wait for a condition of a
  device. The state extends the IPC state with the flag and the list of each queue and with the nodes
  on the lists. The node of a waiting thread is a local variable of \<open>rt_wqueue_wait\<close>, so its name is an
  argument; \<open>rt_wqueue_wait_end\<close> is what the thread does when it runs again. The wake-up function of a
  poller's node is a parameter: \<open>wakef f n key k\<close> is what the function named \<open>f\<close> returns and does for the
  node \<open>n\<close>. It is taken not to change the list it is called from.
\<close>

section \<open>State and operations\<close>

record rt_wqueue_node =
  polling_thread :: tid
  node_wakeup :: "nat option"
  node_key :: u32

record waitqueues = ipc +
  wq_flag :: "addr \<Rightarrow> u32"
  waiting_list :: "addr \<Rightarrow> nat list"
  wq_node :: "nat \<Rightarrow> rt_wqueue_node"

abbreviation (input) RT_WQ_FLAG_CLEAN :: u32 where "RT_WQ_FLAG_CLEAN \<equiv> 0"
abbreviation (input) RT_WQ_FLAG_WAKEUP :: u32 where "RT_WQ_FLAG_WAKEUP \<equiv> 1"

type_synonym 'a wakeup_fn = "nat \<Rightarrow> nat \<Rightarrow> nat \<Rightarrow> 'a waitqueues_scheme \<Rightarrow> int \<times> 'a waitqueues_scheme"

definition set_wq_flag :: "addr \<Rightarrow> u32 \<Rightarrow> 'a waitqueues_scheme \<Rightarrow> 'a waitqueues_scheme" where
  "set_wq_flag q v k = k\<lparr>wq_flag := (wq_flag k)(q := v)\<rparr>"

definition rt_wqueue_init :: "addr \<Rightarrow> 'a waitqueues_scheme \<Rightarrow> 'a waitqueues_scheme" where
  "rt_wqueue_init q k = (set_wq_flag q RT_WQ_FLAG_CLEAN k)\<lparr>waiting_list := (waiting_list k)(q := [])\<rparr>"

definition rt_wqueue_add :: "addr \<Rightarrow> nat \<Rightarrow> 'a waitqueues_scheme \<Rightarrow> 'a waitqueues_scheme" where
  "rt_wqueue_add q n k = k\<lparr>waiting_list := (waiting_list k)(q := waiting_list k q @ [n])\<rparr>"

definition rt_wqueue_remove :: "nat \<Rightarrow> 'a waitqueues_scheme \<Rightarrow> 'a waitqueues_scheme" where
  "rt_wqueue_remove n k = k\<lparr>waiting_list := \<lambda>q. removeAll n (waiting_list k q)\<rparr>"

definition wqueue_default_wake :: "nat \<Rightarrow> nat \<Rightarrow> int" where
  "wqueue_default_wake n key = 0"

definition node_wake :: "'a wakeup_fn \<Rightarrow> nat \<Rightarrow> nat \<Rightarrow> 'a waitqueues_scheme \<Rightarrow> int \<times> 'a waitqueues_scheme" where
  "node_wake wakef n key k =
     (case node_wakeup (wq_node k n) of None \<Rightarrow> (wqueue_default_wake n key, k) | Some f \<Rightarrow> wakef f n key k)"

text \<open>The loop over the nodes: it ends at the first whose function returns 0.\<close>

fun wakeup_loop :: "'a wakeup_fn \<Rightarrow> nat \<Rightarrow> nat list \<Rightarrow> 'a waitqueues_scheme \<Rightarrow> bool \<times> 'a waitqueues_scheme" where
  "wakeup_loop wakef key [] k = (False, k)"
| "wakeup_loop wakef key (node # queue_list) k =
     (case node_wake wakef node key k of (r, k) \<Rightarrow>
        if r = 0 then (True, rt_wqueue_remove node (snd (rt_thread_resume (polling_thread (wq_node k node)) k)))
        else wakeup_loop wakef key queue_list k)"

definition rt_wqueue_wakeup :: "'a wakeup_fn \<Rightarrow> addr \<Rightarrow> nat \<Rightarrow> 'a waitqueues_scheme \<Rightarrow> 'a waitqueues_scheme" where
  "rt_wqueue_wakeup wakef q key k =
     (case wakeup_loop wakef key (waiting_list k q) (set_wq_flag q RT_WQ_FLAG_WAKEUP k) of
        (need_schedule, k) \<Rightarrow> if need_schedule then rt_schedule k else k)"

datatype wq_outcome = Wq_returns int | Wq_blocks | Wq_faults

text \<open>The end of the wait; a queue whose flag is set is not waited for, and the local node never gets
  onto a list. \<open>Wq_faults\<close> is the use of the null thread pointer.\<close>

definition rt_wqueue_wait_end :: "addr \<Rightarrow> nat \<Rightarrow> 'a waitqueues_scheme \<Rightarrow> int \<times> 'a waitqueues_scheme" where
  "rt_wqueue_wait_end q n k = (0, rt_wqueue_remove n (set_wq_flag q RT_WQ_FLAG_CLEAN k))"

definition wq_suspend :: "tid \<Rightarrow> int \<Rightarrow> 'a kernel_scheme \<Rightarrow> 'a kernel_scheme" where
  "wq_suspend t tick k =
     (let k = snd (rt_thread_suspend t k)
      in if tick \<noteq> - 1 then rt_timer_start (Thread_timer t) (snd (rt_timer_control (Thread_timer t) 0 (of_int tick) k)) else k)"

definition rt_wqueue_wait :: "int \<Rightarrow> addr \<Rightarrow> nat \<Rightarrow> int \<Rightarrow> int \<Rightarrow> 'a waitqueues_scheme \<Rightarrow> wq_outcome \<times> 'a waitqueues_scheme" where
  "rt_wqueue_wait tick_per_second q n condition msec k =
     (let tick = sint (rt_tick_from_millisecond tick_per_second msec)
      in if condition \<noteq> 0 \<or> tick = 0 then (Wq_returns 0, k)
         else if wq_flag k q = RT_WQ_FLAG_WAKEUP then
           (case rt_wqueue_wait_end q n k of (r, k) \<Rightarrow> (Wq_returns r, k))
         else case rt_thread_self k of
           None \<Rightarrow> (Wq_faults, k)
         | Some t \<Rightarrow>
             let k = k\<lparr>wq_node := (wq_node k)(n := \<lparr>polling_thread = t, node_wakeup = None, node_key = 0\<rparr>)\<rparr>;
                 k = rt_wqueue_add q n k
             in (Wq_blocks, rt_schedule (wq_suspend t tick k)))"

section \<open>Frame\<close>

lemma wqueue_sel [simp]:
  "wq_flag (set_wq_flag q v k) = (wq_flag k)(q := v)" "waiting_list (set_wq_flag q v k) = waiting_list k" "wq_node (set_wq_flag q v k) = wq_node k"
  "wq_flag (rt_wqueue_add q n k) = wq_flag k" "waiting_list (rt_wqueue_add q n k) = (waiting_list k)(q := waiting_list k q @ [n])"
  "wq_node (rt_wqueue_add q n k) = wq_node k"
  "wq_flag (rt_wqueue_remove n k) = wq_flag k" "waiting_list (rt_wqueue_remove n k) = (\<lambda>q. removeAll n (waiting_list k q))"
  "wq_node (rt_wqueue_remove n k) = wq_node k"
  by (simp_all add: set_wq_flag_def rt_wqueue_add_def rt_wqueue_remove_def)

lemma wqueue_more_sel:
  assumes "kernel.more k' = kernel.more k"
  shows "wq_flag k' = wq_flag k" "waiting_list k' = waiting_list k" "wq_node k' = wq_node (k :: 'a waitqueues_scheme)"
  using assms by (cases k; cases k'; simp)+

text \<open>Changes of the wait queues leave the kernel alone.\<close>

definition wqueue_only :: "'a waitqueues_scheme \<Rightarrow> 'a waitqueues_scheme \<Rightarrow> bool" where
  "wqueue_only k k' \<longleftrightarrow> tlist k' = tlist k \<and> ready_group k' = ready_group k \<and> thread k' = thread k \<and> rt_current_thread k' = rt_current_thread k
     \<and> timer k' = timer k \<and> timer_row k' = timer_row k \<and> object k' = object k"

lemma wqueue_only [simp]:
  "wqueue_only k (set_wq_flag q v k)" "wqueue_only k (rt_wqueue_add q n k)" "wqueue_only k (rt_wqueue_remove n k)"
  "wqueue_only k (k\<lparr>wq_node := w\<rparr>)"
  by (simp_all add: wqueue_only_def set_wq_flag_def rt_wqueue_add_def rt_wqueue_remove_def)

lemma wqueue_onlyD:
  assumes "wqueue_only k k'"
  shows "kernel_inv k \<Longrightarrow> kernel_inv k'" "tstat k' = tstat k" "tlist k' = tlist k" "rt_current_thread k' = rt_current_thread k"
  using assms kernel_inv_more [of k k'] by (auto simp: wqueue_only_def tstat_def fun_eq_iff)

lemmas wqueue_kernel [simp] =
  wqueue_onlyD(2-4) [OF wqueue_only(1)] wqueue_onlyD(2-4) [OF wqueue_only(2)] wqueue_onlyD(2-4) [OF wqueue_only(3)]
  wqueue_onlyD(2-4) [OF wqueue_only(4)]

lemmas wqueue_kinv [kinv] =
  wqueue_onlyD(1) [OF wqueue_only(1)] wqueue_onlyD(1) [OF wqueue_only(2)] wqueue_onlyD(1) [OF wqueue_only(3)]
  wqueue_onlyD(1) [OF wqueue_only(4)]

lemmas wqueue_frame [simp] =
  wqueue_more_sel [OF rt_schedule_sel(9)] wqueue_more_sel [OF kernel_ops_more(1)] wqueue_more_sel [OF kernel_ops_more(2)]
  wqueue_more_sel [OF kernel_ops_more(3)] wqueue_more_sel [OF timer_start_more]

section \<open>Waking\<close>

text \<open>What the wake-up functions may do: \<open>accepts f n key\<close> says which nodes they wake, and they leave the
  kernel and the queues as they are.\<close>

definition wakes_as :: "(nat \<Rightarrow> nat \<Rightarrow> nat \<Rightarrow> bool) \<Rightarrow> 'a wakeup_fn \<Rightarrow> bool" where
  "wakes_as accepts wakef \<longleftrightarrow> (\<forall>f n key k. (fst (wakef f n key k) = 0 \<longleftrightarrow> accepts f n key) \<and> wqueue_only k (snd (wakef f n key k))
     \<and> waiting_list (snd (wakef f n key k)) = waiting_list k \<and> wq_node (snd (wakef f n key k)) = wq_node k \<and> wq_flag (snd (wakef f n key k)) = wq_flag k)"

definition node_accepts :: "(nat \<Rightarrow> nat \<Rightarrow> nat \<Rightarrow> bool) \<Rightarrow> nat \<Rightarrow> 'a waitqueues_scheme \<Rightarrow> nat \<Rightarrow> bool" where
  "node_accepts accepts key k n = (case node_wakeup (wq_node k n) of None \<Rightarrow> True | Some f \<Rightarrow> accepts f n key)"

lemma node_wake_effect:
  assumes "wakes_as accepts wakef"
  shows "fst (node_wake wakef n key k) = 0 \<longleftrightarrow> node_accepts accepts key k n" "wqueue_only k (snd (node_wake wakef n key k))"
    "waiting_list (snd (node_wake wakef n key k)) = waiting_list k" "wq_node (snd (node_wake wakef n key k)) = wq_node k"
    "wq_flag (snd (node_wake wakef n key k)) = wq_flag k"
  using assms by (auto simp: node_wake_def wakes_as_def node_accepts_def wqueue_default_wake_def wqueue_only_def split: option.split)

lemma wakeup_loop_effect:
  fixes ns :: "nat list" and key :: nat
  assumes "wakes_as accepts wakef" "kernel_inv k"
  defines "r \<equiv> wakeup_loop wakef key ns k"
  shows "kernel_inv (snd r) \<and> wq_flag (snd r) = wq_flag k \<and> wq_node (snd r) = wq_node k
    \<and> (case find (node_accepts accepts key k) ns of
         None \<Rightarrow> \<not> fst r \<and> waiting_list (snd r) = waiting_list k \<and> tstat (snd r) = tstat k
       | Some n \<Rightarrow> fst r \<and> waiting_list (snd r) = (\<lambda>q. removeAll n (waiting_list k q)) \<and> tstat (snd r) (polling_thread (wq_node k n)) \<noteq> RT_THREAD_SUSPEND)"
  using assms(2) unfolding r_def
proof (induction ns arbitrary: k)
  case (Cons n ns)
  note e = node_wake_effect [OF assms(1), where n = n and key = key and k = k]
  obtain v k1 where w: "node_wake wakef n key k = (v, k1)" by force
  have k1: "kernel_inv k1" "waiting_list k1 = waiting_list k" "wq_node k1 = wq_node k" "wq_flag k1 = wq_flag k" "tstat k1 = tstat k"
    using e(2-5) wqueue_onlyD(1,2) [OF e(2)] Cons.prems by (simp_all add: w)
  have na: "node_accepts accepts key k1 = node_accepts accepts key k" by (simp add: node_accepts_def k1(3) fun_eq_iff)
  show ?case
  proof (cases "v = 0")
    case True
    let ?t = "polling_thread (wq_node k n)"
    have "tstat (snd (rt_thread_resume ?t k1)) ?t \<noteq> 2"
      using rt_thread_resume_effect(2) [of k1 ?t] by (cases "tstat k1 ?t = 2") (simp_all add: rt_thread_resume_def)
    moreover have "kernel_inv (rt_wqueue_remove n (snd (rt_thread_resume ?t k1)))" by (intro wqueue_kinv rt_thread_resume_inv k1(1))
    moreover have "node_accepts accepts key k n" using e(1) True by (simp add: w)
    ultimately show ?thesis using True k1 by (simp add: w)
  next
    case False
    then have "\<not> node_accepts accepts key k n" using e(1) by (simp add: w)
    then have "find (node_accepts accepts key k) (n # ns) = find (node_accepts accepts key k) ns" by simp
    moreover have "wakeup_loop wakef key (n # ns) k = wakeup_loop wakef key ns k1" using False by (simp add: w)
    ultimately show ?thesis using Cons.IH [OF k1(1)] by (simp only: na k1(2-5))
  qed
qed simp

text \<open>Scheduling does not suspend a thread.\<close>

lemma schedule_keeps_awake: "kernel_inv k \<Longrightarrow> tstat k t \<noteq> 2 \<Longrightarrow> tstat (rt_schedule k) t \<noteq> 2"
  using rt_schedule_tstat [of k t] by (auto simp: kernel_inv_def)

lemma rt_wqueue_wakeup_effect:
  fixes q :: addr and key :: nat
  assumes "wakes_as accepts wakef" "kernel_inv k"
  defines "k' \<equiv> rt_wqueue_wakeup wakef q key k"
  shows "kernel_inv k'" "wq_flag k' = (wq_flag k)(q := 1)" "wq_node k' = wq_node k"
    "find (node_accepts accepts key k) (waiting_list k q) = None \<Longrightarrow> waiting_list k' = waiting_list k \<and> tstat k' = tstat k"
    "find (node_accepts accepts key k) (waiting_list k q) = Some n \<Longrightarrow>
       waiting_list k' = (\<lambda>q. removeAll n (waiting_list k q)) \<and> tstat k' (polling_thread (wq_node k n)) \<noteq> RT_THREAD_SUSPEND"
proof -
  have k1: "kernel_inv (set_wq_flag q 1 k)" by (intro wqueue_kinv assms(2))
  obtain b k2 where r: "wakeup_loop wakef key (waiting_list k q) (set_wq_flag q 1 k) = (b, k2)" by force
  have na: "node_accepts accepts key (set_wq_flag q 1 k) = node_accepts accepts key k" by (simp add: node_accepts_def fun_eq_iff)
  note l = wakeup_loop_effect [OF assms(1) k1, where key = key and ns = "waiting_list k q", unfolded na r, simplified]
  have k': "k' = (if b then rt_schedule k2 else k2)" by (simp add: k'_def rt_wqueue_wakeup_def r)
  show "kernel_inv k'" "wq_flag k' = (wq_flag k)(q := 1)" "wq_node k' = wq_node k" using l by (simp_all add: k' rt_schedule_kernel_inv)
  show "waiting_list k' = waiting_list k \<and> tstat k' = tstat k" if "find (node_accepts accepts key k) (waiting_list k q) = None"
    using l by (simp add: k' that)
  show "waiting_list k' = (\<lambda>q. removeAll n (waiting_list k q)) \<and> tstat k' (polling_thread (wq_node k n)) \<noteq> RT_THREAD_SUSPEND"
    if "find (node_accepts accepts key k) (waiting_list k q) = Some n"
    using l schedule_keeps_awake [of k2 "polling_thread (wq_node k n)"] by (simp add: k' that)
qed

section \<open>Waiting\<close>

lemma wq_suspend_effect:
  assumes k: "kernel_inv k" and t: "tstat k t = 3"
  shows "kernel_inv (wq_suspend t tick k)" "tstat (wq_suspend t tick k) = (tstat k)(t := 2)"
    "rt_current_thread (wq_suspend t tick k) = rt_current_thread k" "kernel.more (wq_suspend t tick k) = kernel.more k"
proof -
  let ?s = "snd (rt_thread_suspend t k)"
  let ?c = "snd (rt_timer_control (Thread_timer t) 0 (of_int tick) ?s)"
  have s: "kernel_inv ?s" "tstat ?s = (tstat k)(t := 2)" by (simp_all add: rt_thread_suspend_inv k rt_thread_suspend_effect(2) t)
  have c: "kernel_inv ?c" using s(1) by (intro rt_timer_control_inv) auto
  then have fl: "timer_flag ?c (Thread_timer t) AND 4 = 0"
    using timer_invD(5) [of ?c t] by (simp add: kernel_inv_def thread_timer_ok_def)
  have "kernel_inv (rt_timer_start (Thread_timer t) ?c)" using c s(2) by (intro rt_timer_start_inv) auto
  then show "kernel_inv (wq_suspend t tick k)" using s(1) by (simp add: wq_suspend_def Let_def)
  show "tstat (wq_suspend t tick k) = (tstat k)(t := 2)" "rt_current_thread (wq_suspend t tick k) = rt_current_thread k"
    "kernel.more (wq_suspend t tick k) = kernel.more k"
    using rt_timer_start_thread(2,3) [OF fl] s(2) by (simp_all add: wq_suspend_def Let_def)
qed

lemma rt_wqueue_wait_blocks:
  assumes "kernel_inv k" "rt_current_thread k = Some t" "tstat k t = 3" "condition = 0"
    "sint (rt_tick_from_millisecond tps msec) \<noteq> 0" "wq_flag k q \<noteq> 1"
  shows "\<exists>k'. rt_wqueue_wait tps q n condition msec k = (Wq_blocks, k') \<and> kernel_inv k' \<and> tstat k' t = 2 \<and> wq_flag k' = wq_flag k
    \<and> waiting_list k' = (waiting_list k)(q := waiting_list k q @ [n])
    \<and> wq_node k' = (wq_node k)(n := \<lparr>polling_thread = t, node_wakeup = None, node_key = 0\<rparr>)"
proof -
  let ?tick = "sint (rt_tick_from_millisecond tps msec)"
  let ?a = "rt_wqueue_add q n (k\<lparr>wq_node := (wq_node k)(n := \<lparr>polling_thread = t, node_wakeup = None, node_key = 0\<rparr>)\<rparr>)"
  let ?k = "wq_suspend t ?tick ?a"
  have a: "kernel_inv ?a" "tstat ?a t = 3" using assms(1,3) by (simp_all add: wqueue_kinv)
  note w = wq_suspend_effect [OF a, of ?tick]
  have "rt_wqueue_wait tps q n condition msec k = (Wq_blocks, rt_schedule ?k)"
    using assms(2,4-6) by (simp add: rt_wqueue_wait_def rt_thread_self_def Let_def)
  moreover have "tstat (rt_schedule ?k) t = 2" using rt_schedule_tstat [of ?k t] w(1,2) by (simp add: kernel_inv_def)
  ultimately show ?thesis using rt_schedule_kernel_inv [OF w(1)] wqueue_more_sel [OF w(4)] by simp
qed

section \<open>Properties\<close>

text \<open>
  A wait queue: \<open>rt_wqueue_wakeup\<close> sets the flag and wakes the thread of the first node whose wake-up
  function accepts the key, taking that node and no other off the queue. The running thread's
  \<open>rt_wqueue_wait\<close> returns at once when its condition holds, when it must not wait or when the flag is
  set, and otherwise suspends it at the end of the queue. A wake-up that finds nobody is not lost: the
  next wait returns at once and clears the flag.
\<close>

theorem rt_wqueue_correct:
  assumes "wakes_as accepts wakef" "kernel_inv k" "rt_current_thread k = Some t" "tstat k t = RT_THREAD_RUNNING"
  shows "(let k' = rt_wqueue_wakeup wakef q key k
      in kernel_inv k' \<and> wq_flag k' q = RT_WQ_FLAG_WAKEUP
        \<and> (case find (node_accepts accepts key k) (waiting_list k q) of
             None \<Rightarrow> waiting_list k' = waiting_list k \<and> tstat k' = tstat k
               \<and> (sint (rt_tick_from_millisecond tps msec) \<noteq> 0 \<longrightarrow>
                    rt_wqueue_wait tps q n 0 msec k' = (Wq_returns 0, rt_wqueue_remove n (set_wq_flag q RT_WQ_FLAG_CLEAN k')))
           | Some w \<Rightarrow> waiting_list k' q = removeAll w (waiting_list k q) \<and> tstat k' (polling_thread (wq_node k w)) \<noteq> RT_THREAD_SUSPEND))
    \<and> (case rt_wqueue_wait tps q n condition msec k of (r, k') \<Rightarrow>
         if condition \<noteq> 0 \<or> sint (rt_tick_from_millisecond tps msec) = 0 then r = Wq_returns 0 \<and> k' = k
         else if wq_flag k q = RT_WQ_FLAG_WAKEUP then r = Wq_returns 0 \<and> wq_flag k' q = RT_WQ_FLAG_CLEAN
         else r = Wq_blocks \<and> kernel_inv k' \<and> waiting_list k' q = waiting_list k q @ [n] \<and> tstat k' t = RT_THREAD_SUSPEND
           \<and> polling_thread (wq_node k' n) = t)"
proof -
  note w = rt_wqueue_wakeup_effect [OF assms(1,2), where q = q and key = key]
  have "rt_wqueue_wait tps q n 0 msec (rt_wqueue_wakeup wakef q key k) =
      (Wq_returns 0, rt_wqueue_remove n (set_wq_flag q 0 (rt_wqueue_wakeup wakef q key k)))"
    if "sint (rt_tick_from_millisecond tps msec) \<noteq> 0"
    using that w(2) by (simp add: rt_wqueue_wait_def rt_wqueue_wait_end_def)
  moreover have "case rt_wqueue_wait tps q n condition msec k of (r, k') \<Rightarrow>
         if condition \<noteq> 0 \<or> sint (rt_tick_from_millisecond tps msec) = 0 then r = Wq_returns 0 \<and> k' = k
         else if wq_flag k q = 1 then r = Wq_returns 0 \<and> wq_flag k' q = 0
         else r = Wq_blocks \<and> kernel_inv k' \<and> waiting_list k' q = waiting_list k q @ [n] \<and> tstat k' t = 2 \<and> polling_thread (wq_node k' n) = t"
  proof (cases "condition \<noteq> 0 \<or> sint (rt_tick_from_millisecond tps msec) = 0 \<or> wq_flag k q = 1")
    case True
    then show ?thesis by (auto simp: rt_wqueue_wait_def rt_wqueue_wait_end_def)
  next
    case False
    then show ?thesis using rt_wqueue_wait_blocks [OF assms(2-4), of condition tps msec q n] by auto
  qed
  ultimately show ?thesis using w by (auto simp: Let_def split: option.split)
qed

text \<open>The example: thread 1 runs, and the poller's node 5 of thread 2, whose function refuses the key, waits
  on the queue at 4.\<close>

definition example_waitqueues :: waitqueues where
  "example_waitqueues = example_running (idle_ipc
     (waitqueues.fields (\<lambda>_. 0) ((\<lambda>_. [])(4 := [5])) (\<lambda>_. \<lparr>polling_thread = 2, node_wakeup = Some 0, node_key = 1\<rparr>)))"

lemma example_waitqueues_sel [simp]:
  "kernel_inv example_waitqueues" "rt_current_thread example_waitqueues = Some 1" "tstat example_waitqueues 1 = 3"
  "wq_flag example_waitqueues q = 0" "waiting_list example_waitqueues 4 = [5]"
  "node_wakeup (wq_node example_waitqueues n) = Some 0"
  by (simp_all add: example_waitqueues_def example_running_inv)
    (simp_all add: example_running_def example_kernel_def boot_kernel_def idle_ipc_def waitqueues.defs)

theorem rt_wqueue_correct_witness:
  "rt_wqueue_wait 1000 4 7 0 (- 1) (rt_wqueue_wakeup (\<lambda>_ _ _ k. (- 1, k)) 4 2 example_waitqueues)
     = (Wq_returns 0, rt_wqueue_remove 7 (set_wq_flag 4 0 (rt_wqueue_wakeup (\<lambda>_ _ _ k. (- 1, k)) 4 2 example_waitqueues)))"
proof -
  have "wakes_as (\<lambda>_ _ _. False) (\<lambda>_ _ _ k. (- 1, k) :: int \<times> waitqueues)" by (simp add: wakes_as_def wqueue_only_def)
  from rt_wqueue_correct [OF this example_waitqueues_sel(1-3), where q = 4 and key = 2 and tps = 1000 and n = 7 and msec = "- 1"]
  show ?thesis by (simp add: node_accepts_def rt_tick_from_millisecond_def Let_def)
qed

end
