(* ===== verification/Device.thy ===== *)
theory Device
  imports Waitqueue Mem
begin

text \<open>
  The device registry, \<^verbatim>\<open>rt-thread/src/device.c\<close>: devices are objects with a name, a count of those who have
  them open, and driver functions. The state extends that of the wait queues (every device contains
  one) with the devices and the heap dynamic ones are taken from. The driver functions are code
  outside the registry: a device stores their names, and \<open>drv\<close> gives what each of them returns and does.
\<close>

section \<open>State\<close>

record rt_device =
  dev_type :: nat
  dev_flag :: u16
  open_flag :: u16
  ref_count :: u8
  device_id :: u8
  rx_indicate :: "nat option"
  tx_complete :: "nat option"
  device_init :: "nat option"
  device_open :: "nat option"
  device_close :: "nat option"
  device_read :: "nat option"
  device_write :: "nat option"
  device_control :: "nat option"
  fops :: "nat option"
  dev_user_data :: nat

record devices = waitqueues +
  device :: "addr \<Rightarrow> rt_device"
  dev_heap :: small_heap

record 'k drivers =
  drv_init :: "nat \<Rightarrow> addr \<Rightarrow> 'k \<Rightarrow> rt_err \<times> 'k"
  drv_open :: "nat \<Rightarrow> addr \<Rightarrow> u16 \<Rightarrow> 'k \<Rightarrow> rt_err \<times> 'k"
  drv_close :: "nat \<Rightarrow> addr \<Rightarrow> 'k \<Rightarrow> rt_err \<times> 'k"
  drv_read :: "nat \<Rightarrow> addr \<Rightarrow> int \<Rightarrow> addr \<Rightarrow> u32 \<Rightarrow> 'k \<Rightarrow> u32 \<times> 'k"
  drv_write :: "nat \<Rightarrow> addr \<Rightarrow> int \<Rightarrow> addr \<Rightarrow> u32 \<Rightarrow> 'k \<Rightarrow> u32 \<times> 'k"
  drv_control :: "nat \<Rightarrow> addr \<Rightarrow> int \<Rightarrow> addr \<Rightarrow> 'k \<Rightarrow> rt_err \<times> 'k"

abbreviation (input) RT_Object_Class_Device :: u8 where "RT_Object_Class_Device \<equiv> 9"
abbreviation (input) RT_DEVICE_FLAG_STANDALONE :: u16 where "RT_DEVICE_FLAG_STANDALONE \<equiv> 8"
abbreviation (input) RT_DEVICE_FLAG_ACTIVATED :: u16 where "RT_DEVICE_FLAG_ACTIVATED \<equiv> 0x10"
abbreviation (input) RT_DEVICE_OFLAG_CLOSE :: u16 where "RT_DEVICE_OFLAG_CLOSE \<equiv> 0"
abbreviation (input) RT_DEVICE_OFLAG_OPEN :: u16 where "RT_DEVICE_OFLAG_OPEN \<equiv> 8"
abbreviation (input) RT_DEVICE_OFLAG_MASK :: u16 where "RT_DEVICE_OFLAG_MASK \<equiv> 0xf0f"

definition upd_device :: "addr \<Rightarrow> (rt_device \<Rightarrow> rt_device) \<Rightarrow> 'a devices_scheme \<Rightarrow> 'a devices_scheme" where
  "upd_device d f k = k\<lparr>device := (device k)(d := f (device k d))\<rparr>"

definition zero_device :: rt_device where
  "zero_device = \<lparr>dev_type = 0, dev_flag = 0, open_flag = 0, ref_count = 0, device_id = 0, rx_indicate = None, tx_complete = None,
     device_init = None, device_open = None, device_close = None, device_read = None, device_write = None, device_control = None,
     fops = None, dev_user_data = 0\<rparr>"

section \<open>The registry\<close>

text \<open>The device at \<open>d\<close> is the object \<open>Ipc_obj d\<close>; the cast of \<open>rt_device_find\<close> reads the address back.\<close>

definition rt_device_find :: "cstring option \<Rightarrow> 'a devices_scheme \<Rightarrow> addr option \<times> 'a devices_scheme" where
  "rt_device_find name k =
     (case rt_object_find name RT_Object_Class_Device k of
        (Some (Ipc_obj d), k) \<Rightarrow> (Some d, k) | (_, k) \<Rightarrow> (None, k))"

definition rt_device_register :: "addr option \<Rightarrow> cstring \<Rightarrow> u16 \<Rightarrow> 'a devices_scheme \<Rightarrow> rt_err \<times> 'a devices_scheme" where
  "rt_device_register dev name flags k =
     (case dev of None \<Rightarrow> (- RT_ERROR, k)
      | Some d \<Rightarrow>
         (case rt_device_find (Some name) k of
            (Some _, k) \<Rightarrow> (- RT_ERROR, k)
          | (None, k) \<Rightarrow>
              let k = rt_object_init (Ipc_obj d) RT_Object_Class_Device name k;
                  k = upd_device d (\<lambda>v. v\<lparr>dev_flag := flags, ref_count := 0, open_flag := 0\<rparr>) k;
                  k = upd_device d (\<lambda>v. v\<lparr>fops := None\<rparr>) k
              in (RT_EOK, rt_wqueue_init d k)))"

definition rt_device_unregister :: "addr \<Rightarrow> 'a devices_scheme \<Rightarrow> rt_err \<times> 'a devices_scheme" where
  "rt_device_unregister d k = (RT_EOK, rt_object_detach (Ipc_obj d) k)"

text \<open>\<open>sizeof(struct rt_device)\<close> is 84 bytes. \<open>rt_memset\<close> clears the object, the device and its wait
  queue.\<close>

definition rt_device_create :: "nat \<Rightarrow> u32 \<Rightarrow> 'a devices_scheme \<Rightarrow> (addr option \<times> 'a devices_scheme) option" where
  "rt_device_create ty attach_size k =
     (let attach_size = (attach_size + 3) AND NOT 3
      in case rt_malloc (84 + attach_size) (dev_heap k) of
           None \<Rightarrow> None
         | Some (None, h) \<Rightarrow> Some (None, k\<lparr>dev_heap := h\<rparr>)
         | Some (Some d, h) \<Rightarrow>
             let k = k\<lparr>dev_heap := h\<rparr>;
                 k = upd_object (Ipc_obj d) (\<lambda>_. zero_object) k;
                 k = (set_wq_flag d 0 k)\<lparr>waiting_list := (waiting_list k)(d := [])\<rparr>
             in Some (Some d, upd_device d (\<lambda>_. zero_device\<lparr>dev_type := ty\<rparr>) k))"

definition rt_device_destroy :: "addr \<Rightarrow> 'a devices_scheme \<Rightarrow> 'a devices_scheme option" where
  "rt_device_destroy d k =
     (let k = rt_object_detach (Ipc_obj d) k
      in map_option (\<lambda>h. k\<lparr>dev_heap := h\<rparr>) (rt_free (Some d) (dev_heap k)))"

section \<open>The driver interface\<close>

definition rt_device_init :: "'a devices_scheme drivers \<Rightarrow> addr \<Rightarrow> 'a devices_scheme \<Rightarrow> rt_err \<times> 'a devices_scheme" where
  "rt_device_init drv d k =
     (case device_init (device k d) of
        None \<Rightarrow> (RT_EOK, k)
      | Some f \<Rightarrow>
          if dev_flag (device k d) AND RT_DEVICE_FLAG_ACTIVATED = 0 then
            (case drv_init drv f d k of (result, k) \<Rightarrow>
               if result \<noteq> RT_EOK then (result, k)
               else (result, upd_device d (\<lambda>v. v\<lparr>dev_flag := dev_flag v OR RT_DEVICE_FLAG_ACTIVATED\<rparr>) k))
          else (RT_EOK, k))"

text \<open>The steps of \<open>rt_device_open\<close>: initialise a device that is not active, refuse a stand-alone device that
  is open, call the driver, count.\<close>

definition open_activate :: "'a devices_scheme drivers \<Rightarrow> addr \<Rightarrow> 'a devices_scheme \<Rightarrow> rt_err \<times> 'a devices_scheme" where
  "open_activate drv d k =
     (if dev_flag (device k d) AND RT_DEVICE_FLAG_ACTIVATED = 0 then
        (case (case device_init (device k d) of None \<Rightarrow> (RT_EOK, k) | Some f \<Rightarrow> drv_init drv f d k) of (result, k) \<Rightarrow>
           if result \<noteq> RT_EOK then (result, k)
           else (RT_EOK, upd_device d (\<lambda>v. v\<lparr>dev_flag := dev_flag v OR RT_DEVICE_FLAG_ACTIVATED\<rparr>) k))
      else (RT_EOK, k))"

definition rt_device_open :: "'a devices_scheme drivers \<Rightarrow> addr \<Rightarrow> u16 \<Rightarrow> 'a devices_scheme \<Rightarrow> rt_err \<times> 'a devices_scheme" where
  "rt_device_open drv d oflag k =
     (case open_activate drv d k of (result, k) \<Rightarrow>
        if result \<noteq> RT_EOK then (result, k)
        else if dev_flag (device k d) AND RT_DEVICE_FLAG_STANDALONE \<noteq> 0 \<and> open_flag (device k d) AND RT_DEVICE_OFLAG_OPEN \<noteq> 0 then
          (- RT_EBUSY, k)
        else
          (case (case device_open (device k d) of
                   Some f \<Rightarrow> drv_open drv f d oflag k
                 | None \<Rightarrow> (RT_EOK, upd_device d (\<lambda>v. v\<lparr>open_flag := oflag AND RT_DEVICE_OFLAG_MASK\<rparr>) k)) of (result, k) \<Rightarrow>
             if result = RT_EOK \<or> result = - RT_ENOSYS then
               (result, upd_device d (\<lambda>v. v\<lparr>open_flag := open_flag v OR RT_DEVICE_OFLAG_OPEN, ref_count := ref_count v + 1\<rparr>) k)
             else (result, k)))"

definition rt_device_close :: "'a devices_scheme drivers \<Rightarrow> addr \<Rightarrow> 'a devices_scheme \<Rightarrow> rt_err \<times> 'a devices_scheme" where
  "rt_device_close drv d k =
     (if ref_count (device k d) = 0 then (- RT_ERROR, k)
      else
        let k = upd_device d (\<lambda>v. v\<lparr>ref_count := ref_count v - 1\<rparr>) k
        in if ref_count (device k d) \<noteq> 0 then (RT_EOK, k)
           else
             (case (case device_close (device k d) of Some f \<Rightarrow> drv_close drv f d k | None \<Rightarrow> (RT_EOK, k)) of (result, k) \<Rightarrow>
                if result = RT_EOK \<or> result = - RT_ENOSYS then
                  (result, upd_device d (\<lambda>v. v\<lparr>open_flag := RT_DEVICE_OFLAG_CLOSE\<rparr>) k)
                else (result, k)))"

definition rt_device_read :: "'a devices_scheme drivers \<Rightarrow> addr \<Rightarrow> int \<Rightarrow> addr \<Rightarrow> u32 \<Rightarrow> 'a devices_scheme \<Rightarrow> u32 \<times> 'a devices_scheme" where
  "rt_device_read drv d pos buffer sz k =
     (if ref_count (device k d) = 0 then (0, rt_set_errno (- RT_ERROR) k)
      else case device_read (device k d) of
             Some f \<Rightarrow> drv_read drv f d pos buffer sz k
           | None \<Rightarrow> (0, rt_set_errno (- RT_ENOSYS) k))"

definition rt_device_write :: "'a devices_scheme drivers \<Rightarrow> addr \<Rightarrow> int \<Rightarrow> addr \<Rightarrow> u32 \<Rightarrow> 'a devices_scheme \<Rightarrow> u32 \<times> 'a devices_scheme" where
  "rt_device_write drv d pos buffer sz k =
     (if ref_count (device k d) = 0 then (0, rt_set_errno (- RT_ERROR) k)
      else case device_write (device k d) of
             Some f \<Rightarrow> drv_write drv f d pos buffer sz k
           | None \<Rightarrow> (0, rt_set_errno (- RT_ENOSYS) k))"

definition rt_device_control :: "'a devices_scheme drivers \<Rightarrow> addr \<Rightarrow> int \<Rightarrow> addr \<Rightarrow> 'a devices_scheme \<Rightarrow> rt_err \<times> 'a devices_scheme" where
  "rt_device_control drv d cmd arg k =
     (case device_control (device k d) of
        Some f \<Rightarrow> drv_control drv f d cmd arg k
      | None \<Rightarrow> (- RT_ENOSYS, k))"

definition rt_device_set_rx_indicate :: "addr \<Rightarrow> nat option \<Rightarrow> 'a devices_scheme \<Rightarrow> rt_err \<times> 'a devices_scheme" where
  "rt_device_set_rx_indicate d rx_ind k = (RT_EOK, upd_device d (\<lambda>v. v\<lparr>rx_indicate := rx_ind\<rparr>) k)"

definition rt_device_set_tx_complete :: "addr \<Rightarrow> nat option \<Rightarrow> 'a devices_scheme \<Rightarrow> rt_err \<times> 'a devices_scheme" where
  "rt_device_set_tx_complete d tx_done k = (RT_EOK, upd_device d (\<lambda>v. v\<lparr>tx_complete := tx_done\<rparr>) k)"

section \<open>Frame\<close>

lemma upd_device_sel [simp]:
  "device (upd_device d f k) = (device k)(d := f (device k d))" "object (upd_device d f k) = object k"
  "object_list (upd_device d f k) = object_list k" "dev_heap (upd_device d f k) = dev_heap k"
  by (simp_all add: upd_device_def)

lemma devices_more_sel:
  assumes "kernel.more k' = kernel.more k"
  shows "device k' = device k" "dev_heap k' = dev_heap (k :: 'a devices_scheme)"
  using assms by (cases k; cases k'; simp)+

lemma rt_object_find_more [simp]: "kernel.more (snd (rt_object_find name ty k)) = kernel.more k"
  by (simp add: rt_object_find_def Let_def split: option.split prod.split)

lemma rt_wqueue_init_sel [simp]:
  "device (rt_wqueue_init d k) = device k" "object (rt_wqueue_init d k) = object k" "object_list (rt_wqueue_init d k) = object_list k"
  by (simp_all add: rt_wqueue_init_def set_wq_flag_def)

lemma rt_object_find_sel [simp]:
  "object (snd (rt_object_find name ty k)) = object k" "object_list (snd (rt_object_find name ty k)) = object_list k"
  by (simp_all add: rt_object_find_def Let_def split: option.split prod.split)

section \<open>Names\<close>

text \<open>The devices on the list of the class: registered objects with different names.\<close>

definition dev_names_ok :: "'a devices_scheme \<Rightarrow> bool" where
  "dev_names_ok k \<longleftrightarrow> obj_inv k \<and> (\<forall>b \<in> set (object_list k 9). \<exists>d. b = Ipc_obj d)
     \<and> inj_on (\<lambda>b. obj_name (object k b)) (set (object_list k 9))"

definition named_devices :: "'a devices_scheme \<Rightarrow> (cstring \<times> addr) set" where
  "named_devices k = {(obj_name (object k (Ipc_obj d)), d) | d. Ipc_obj d \<in> set (object_list k 9)}"

lemma class_9 [simp]: "9 \<in> set object_classes"
  by (simp add: object_classes_def)

lemma dev_names_entry:
  assumes "dev_names_ok k" "b \<in> set (object_list k 9)"
  shows "rt_strncpy (obj_name (object k b)) 8 = obj_name (object k b)" "\<exists>d. b = Ipc_obj d"
  using assms obj_inv_entry [of k b 9] by (auto simp: dev_names_ok_def)

lemma rt_device_find_result:
  assumes "dev_names_ok k"
  shows "fst (rt_device_find (Some name) k) = Some d \<longleftrightarrow> (rt_strncpy name 8, d) \<in> named_devices k"
proof -
  let ?P = "\<lambda>b. rt_strncpy (obj_name (object k b)) 8 = rt_strncpy name 8"
  have f: "fst (rt_device_find (Some name) k) = (case find ?P (object_list k 9) of Some (Ipc_obj d) \<Rightarrow> Some d | _ \<Rightarrow> None)"
    using rt_object_find_result [of name 9 k] by (auto simp: rt_device_find_def split: prod.split option.split obj_id.split)
  have "find ?P (object_list k 9) = Some b \<longleftrightarrow> b \<in> set (object_list k 9) \<and> obj_name (object k b) = rt_strncpy name 8" for b
  proof
    assume "find ?P (object_list k 9) = Some b"
    then have "b \<in> set (object_list k 9)" "?P b" by (auto simp: find_Some_iff)
    then show "b \<in> set (object_list k 9) \<and> obj_name (object k b) = rt_strncpy name 8" using dev_names_entry(1) [OF assms] by simp
  next
    assume b: "b \<in> set (object_list k 9) \<and> obj_name (object k b) = rt_strncpy name 8"
    then have p: "?P b" by (simp add: rt_strncpy_idem)
    then obtain c where c: "find ?P (object_list k 9) = Some c" using b by (cases "find ?P (object_list k 9)") (auto simp: find_None_iff)
    then have "c \<in> set (object_list k 9)" "?P c" by (auto simp: find_Some_iff)
    then have "obj_name (object k c) = obj_name (object k b)" using b dev_names_entry(1) [OF assms] by simp
    then have "c = b" using assms \<open>c \<in> set (object_list k 9)\<close> b by (auto simp: dev_names_ok_def inj_on_def)
    then show "find ?P (object_list k 9) = Some b" using c by simp
  qed
  moreover have "(case r of Some (Ipc_obj d) \<Rightarrow> Some d | _ \<Rightarrow> None) = Some d \<longleftrightarrow> r = Some (Ipc_obj d)" for r
    by (auto split: option.split obj_id.split)
  ultimately show ?thesis unfolding f named_devices_def by auto
qed

lemma inj_on_fresh: "inj_on f A \<Longrightarrow> f x \<notin> f ` A \<Longrightarrow> inj_on f (insert x A)"
  by auto

lemma rt_device_register_effect:
  assumes ok: "dev_names_ok k" and u: "unregistered (Ipc_obj d) k"
  shows "case rt_device_register (Some d) name flags k of (r, k') \<Rightarrow> dev_names_ok k'
    \<and> (if rt_strncpy name 8 \<in> fst ` named_devices k then r = - RT_ERROR \<and> named_devices k' = named_devices k \<and> device k' = device k
       else r = RT_EOK \<and> named_devices k' = insert (rt_strncpy name 8, d) (named_devices k)
         \<and> dev_flag (device k' d) = flags \<and> ref_count (device k' d) = 0 \<and> open_flag (device k' d) = 0
         \<and> rt_object_is_systemobject (Ipc_obj d) k')"
proof -
  obtain r k1 where f: "rt_device_find (Some name) k = (r, k1)" by force
  have "snd (rt_device_find (Some name) k) = snd (rt_object_find (Some name) 9 k)"
    by (simp add: rt_device_find_def split: prod.split option.split obj_id.split)
  then have "k1 = snd (rt_object_find (Some name) 9 k)" using f by simp
  then have k1: "object k1 = object k" "object_list k1 = object_list k" "device k1 = device k"
    by (simp_all add: devices_more_sel(1) [OF rt_object_find_more])
  have same: "obj_inv k1 = obj_inv k" by (rule obj_inv_cong) (simp_all add: k1)
  have n1: "dev_names_ok k1" "named_devices k1 = named_devices k" using ok same by (simp_all add: dev_names_ok_def named_devices_def k1)
  have res: "r = Some e \<longleftrightarrow> (rt_strncpy name 8, e) \<in> named_devices k" for e using rt_device_find_result [OF ok, of name e] f by simp
  show ?thesis
  proof (cases r)
    case (Some e)
    then have "rt_strncpy name 8 \<in> fst ` named_devices k" using res by force
    then show ?thesis using Some f n1 k1 by (simp add: rt_device_register_def)
  next
    case None
    then have fresh: "rt_strncpy name 8 \<notin> fst ` named_devices k" using res by force
    let ?i = "rt_object_init (Ipc_obj d) 9 name k1"
    let ?u = "upd_device d (\<lambda>v. v\<lparr>fops := None\<rparr>) (upd_device d (\<lambda>v. v\<lparr>dev_flag := flags, ref_count := 0, open_flag := 0\<rparr>) ?i)"
    let ?k = "rt_wqueue_init d ?u"
    have e: "rt_device_register (Some d) name flags k = (0, ?k)" using None f by (simp add: rt_device_register_def Let_def)
    have ol: "object_list ?k = (object_list k)(9 := Ipc_obj d # object_list k 9)" by (simp add: k1)
    have ob: "object ?k = (object k)(Ipc_obj d := (object k (Ipc_obj d))\<lparr>obj_type := 0x89, obj_name := rt_strncpy name 8\<rparr>)" by (simp add: k1)
    have "unregistered (Ipc_obj d) k1" using u by (simp add: unregistered_def k1)
    then have "obj_inv ?i" using n1(1) by (intro rt_object_init_inv) (simp_all add: dev_names_ok_def)
    then have oi: "obj_inv ?k" by (subst obj_inv_cong [of _ ?i]) simp_all
    have nd: "Ipc_obj d \<notin> set (object_list k 9)" using u by (simp add: unregistered_def)
    have names: "obj_name (object k b) \<noteq> rt_strncpy name 8" if b: "b \<in> set (object_list k 9)" for b
    proof -
      obtain c where "b = Ipc_obj c" using dev_names_entry(2) [OF ok b] by blast
      then have "(obj_name (object k b), c) \<in> named_devices k" using b by (auto simp: named_devices_def)
      then show ?thesis using fresh by force
    qed
    have old: "obj_name (object ?k b) = obj_name (object k b)" if "b \<in> set (object_list k 9)" for b
      using that nd unfolding ob by auto
    define f where "f b = obj_name (object ?k b)" for b
    have fo: "f b = obj_name (object k b)" if "b \<in> set (object_list k 9)" for b unfolding f_def by (rule old [OF that])
    have "inj_on f (set (object_list k 9))" using ok inj_on_cong [of "set (object_list k 9)", OF fo] by (simp add: dev_names_ok_def)
    moreover have "f (Ipc_obj d) \<notin> f ` set (object_list k 9)"
      using names fo unfolding f_def [of "Ipc_obj d"] ob by (auto simp: image_iff) (metis fo)
    ultimately have "inj_on f (insert (Ipc_obj d) (set (object_list k 9)))" by (rule inj_on_fresh)
    then have "inj_on (\<lambda>b. obj_name (object ?k b)) (set (object_list ?k 9))" unfolding ol f_def by (simp only: fun_upd_same list.set)
    then have "dev_names_ok ?k" using oi ok unfolding dev_names_ok_def ol by auto
    moreover have "named_devices ?k = insert (rt_strncpy name 8, d) (named_devices k)"
      using nd unfolding named_devices_def ol ob by auto
    ultimately show ?thesis unfolding e using fresh by (simp add: rt_object_is_systemobject_def)
  qed
qed

section \<open>Counting opens\<close>

text \<open>Two states with the same count, in which the device is open or not alike.\<close>

definition same_open :: "addr \<Rightarrow> 'a devices_scheme \<Rightarrow> 'a devices_scheme \<Rightarrow> bool" where
  "same_open d k k' \<longleftrightarrow> ref_count (device k' d) = ref_count (device k d)
     \<and> open_flag (device k' d) AND RT_DEVICE_OFLAG_OPEN = open_flag (device k d) AND RT_DEVICE_OFLAG_OPEN"

text \<open>What the registry relies on: no driver function changes the count of the device, and only a
  successful open and a close may clear its open flag.\<close>

definition drivers_ok :: "'a devices_scheme drivers \<Rightarrow> addr \<Rightarrow> bool" where
  "drivers_ok drv d \<longleftrightarrow>
     (\<forall>f k. same_open d k (snd (drv_init drv f d k)))
   \<and> (\<forall>f o' k. ref_count (device (snd (drv_open drv f d o' k)) d) = ref_count (device k d)
        \<and> (fst (drv_open drv f d o' k) \<notin> {RT_EOK, - RT_ENOSYS} \<longrightarrow> same_open d k (snd (drv_open drv f d o' k))))
   \<and> (\<forall>f k. ref_count (device (snd (drv_close drv f d k)) d) = ref_count (device k d))
   \<and> (\<forall>f pos b n k. same_open d k (snd (drv_read drv f d pos b n k)) \<and> same_open d k (snd (drv_write drv f d pos b n k)))
   \<and> (\<forall>f cmd arg k. same_open d k (snd (drv_control drv f d cmd arg k)))"

lemma drivers_okD:
  assumes "drivers_ok drv d"
  shows "same_open d k (snd (drv_init drv f d k))" "ref_count (device (snd (drv_open drv f d o' k)) d) = ref_count (device k d)"
    "fst (drv_open drv f d o' k) \<notin> {0, - 6} \<Longrightarrow> same_open d k (snd (drv_open drv f d o' k))"
    "ref_count (device (snd (drv_close drv f d k)) d) = ref_count (device k d)"
    "same_open d k (snd (drv_read drv f d pos b n k))" "same_open d k (snd (drv_write drv f d pos b n k))"
    "same_open d k (snd (drv_control drv f d cmd arg k))"
  using assms unfolding drivers_ok_def by blast+

lemma same_open_refl [simp]: "same_open d k k" "same_open d k (rt_set_errno e k)"
proof -
  have "device (rt_set_errno e k) = device k"
    by (auto simp: rt_set_errno_def upd_thread_def split: option.split)
  then show "same_open d k k" "same_open d k (rt_set_errno e k)" by (simp_all add: same_open_def)
qed

lemma same_open_flag [simp]: "same_open d k (upd_device d (\<lambda>v. v\<lparr>dev_flag := g v\<rparr>) k') = same_open d k k'"
  by (simp add: same_open_def)

lemma same_open_trans: "same_open d k k' \<Longrightarrow> same_open d k' k'' \<Longrightarrow> same_open d k k''"
  by (simp add: same_open_def)

lemma open_activate_same:
  assumes "drivers_ok drv d"
  shows "same_open d k (snd (open_activate drv d k))"
  using drivers_okD(1) [OF assms] by (auto simp: open_activate_def case_prod_beta split: option.split)

lemma device_calls_same:
  assumes "drivers_ok drv d"
  shows "same_open d k (snd (rt_device_init drv d k))" "same_open d k (snd (rt_device_read drv d pos b sz k))"
    "same_open d k (snd (rt_device_write drv d pos b sz k))" "same_open d k (snd (rt_device_control drv d cmd arg k))"
  using drivers_okD [OF assms]
  by (auto simp: rt_device_init_def rt_device_read_def rt_device_write_def rt_device_control_def case_prod_beta split: option.split)

lemma open_bit [simp]: "(f OR 8) AND 8 = (8 :: u16)" "(f OR 8) AND 8 \<noteq> (0 :: u16)"
  by (simp_all add: word_ao_dist)

text \<open>An open is counted unless it is refused: by its result, or because the initialisation failed (with any
  error, also the one a driver's open may return).\<close>

definition open_counts :: "'a devices_scheme drivers \<Rightarrow> addr \<Rightarrow> u16 \<Rightarrow> 'a devices_scheme \<Rightarrow> bool" where
  "open_counts drv d oflag k \<longleftrightarrow> fst (open_activate drv d k) = RT_EOK \<and> fst (rt_device_open drv d oflag k) \<in> {RT_EOK, - RT_ENOSYS}"

lemma rt_device_open_effect:
  assumes "drivers_ok drv d"
  shows "if open_counts drv d oflag k
    then ref_count (device (snd (rt_device_open drv d oflag k)) d) = ref_count (device k d) + 1
      \<and> open_flag (device (snd (rt_device_open drv d oflag k)) d) AND 8 \<noteq> 0
    else same_open d k (snd (rt_device_open drv d oflag k))"
proof -
  obtain ra ka where a: "open_activate drv d k = (ra, ka)" by force
  have s: "same_open d k ka" using open_activate_same [OF assms, of k] by (simp add: a)
  let ?busy = "dev_flag (device ka d) AND 8 \<noteq> 0 \<and> open_flag (device ka d) AND 8 \<noteq> 0"
  obtain ro ko where o: "(case device_open (device ka d) of Some f \<Rightarrow> drv_open drv f d oflag ka
      | None \<Rightarrow> (RT_EOK, upd_device d (\<lambda>v. v\<lparr>open_flag := oflag AND RT_DEVICE_OFLAG_MASK\<rparr>) ka)) = (ro, ko)" by force
  have ref: "ref_count (device ko d) = ref_count (device ka d)"
    using o drivers_okD(2) [OF assms, where k = ka and o' = oflag] by (auto split: option.splits) (metis snd_conv)
  have same: "same_open d ka ko" if "ro \<noteq> 0" "ro \<noteq> - 6"
    using o that drivers_okD(3) [OF assms, where k = ka and o' = oflag] by (auto split: option.splits) (metis empty_iff fst_conv insert_iff snd_conv)
  have e: "rt_device_open drv d oflag k = (if ra \<noteq> 0 then (ra, ka) else if ?busy then (- 7, ka)
      else if ro = 0 \<or> ro = - 6 then (ro, upd_device d (\<lambda>v. v\<lparr>open_flag := open_flag v OR 8, ref_count := ref_count v + 1\<rparr>) ko) else (ro, ko))"
    by (simp add: rt_device_open_def a o)
  show ?thesis using s same_open_trans [OF s same] ref by (auto simp: e open_counts_def a same_open_def)
qed

lemma rt_device_close_effect:
  assumes "drivers_ok drv d"
  shows "ref_count (device k d) = 0 \<Longrightarrow> rt_device_close drv d k = (- RT_ERROR, k)"
    "ref_count (device k d) \<noteq> 0 \<Longrightarrow> ref_count (device k d) \<noteq> 1 \<Longrightarrow>
       rt_device_close drv d k = (RT_EOK, upd_device d (\<lambda>v. v\<lparr>ref_count := ref_count v - 1\<rparr>) k)"
    "ref_count (device k d) \<noteq> 0 \<Longrightarrow> ref_count (device (snd (rt_device_close drv d k)) d) = ref_count (device k d) - 1"
  using drivers_okD(4) [OF assms]
  by (auto simp: rt_device_close_def case_prod_beta Let_def split: option.split)

text \<open>Runs of one device: \<open>n\<close> counts the opens that have not been closed.\<close>

inductive dev_step :: "'a devices_scheme drivers \<Rightarrow> addr \<Rightarrow> nat \<times> 'a devices_scheme \<Rightarrow> nat \<times> 'a devices_scheme \<Rightarrow> bool" for drv d where
  dev_open: "n < 255 \<Longrightarrow> dev_step drv d (n, k) (if open_counts drv d oflag k then n + 1 else n, snd (rt_device_open drv d oflag k))"
| dev_close: "dev_step drv d (n, k) (n - 1, snd (rt_device_close drv d k))"
| dev_init: "dev_step drv d (n, k) (n, snd (rt_device_init drv d k))"
| dev_read: "dev_step drv d (n, k) (n, snd (rt_device_read drv d pos b sz k))"
| dev_write: "dev_step drv d (n, k) (n, snd (rt_device_write drv d pos b sz k))"
| dev_control: "dev_step drv d (n, k) (n, snd (rt_device_control drv d cmd arg k))"

definition dev_run_inv :: "addr \<Rightarrow> nat \<times> 'a devices_scheme \<Rightarrow> bool" where
  "dev_run_inv d s \<longleftrightarrow> (case s of (n, k) \<Rightarrow> unat (ref_count (device k d)) = n \<and> (0 < n \<longrightarrow> open_flag (device k d) AND RT_DEVICE_OFLAG_OPEN \<noteq> 0))"

lemma dev_run_same: "same_open d k k' \<Longrightarrow> dev_run_inv d (n, k) \<Longrightarrow> dev_run_inv d (n, k')"
  by (simp add: dev_run_inv_def same_open_def)

lemma dev_step_inv:
  assumes "drivers_ok drv d" "dev_step drv d s s'" "dev_run_inv d s"
  shows "dev_run_inv d s'"
  using assms(2,3)
proof cases
  case (dev_open n k oflag)
  then show ?thesis using rt_device_open_effect [OF assms(1), of oflag k] assms(3) dev_run_same
    by (cases "open_counts drv d oflag k") (auto simp: dev_run_inv_def unat_add_no_wrap)
next
  case (dev_close n k)
  let ?r = "ref_count (device k d)"
  have n: "unat ?r = n" "0 < n \<longrightarrow> open_flag (device k d) AND 8 \<noteq> 0" using assms(3) dev_close(1) by (auto simp: dev_run_inv_def)
  consider "?r = 0" | "?r = 1" | "?r \<noteq> 0" "?r \<noteq> 1" by blast
  then show ?thesis
  proof cases
    case 1
    then show ?thesis using rt_device_close_effect(1) [OF assms(1)] assms(3) dev_close n by (simp add: dev_run_inv_def)
  next
    case 2
    then show ?thesis using rt_device_close_effect(3) [OF assms(1), of k] dev_close n by (simp add: dev_run_inv_def)
  next
    case 3
    then have "unat (?r - 1) = n - 1" using n(1) by (simp add: unat_minus_one)
    then show ?thesis using 3 rt_device_close_effect(2) [OF assms(1), of k] dev_close n by (auto simp: dev_run_inv_def)
  qed
next
  case (dev_init n k)
  then show ?thesis using assms(3) dev_run_same [OF device_calls_same(1) [OF assms(1)]] by simp
next
  case (dev_read n k)
  then show ?thesis using assms(3) dev_run_same [OF device_calls_same(2) [OF assms(1)]] by simp
next
  case (dev_write n k)
  then show ?thesis using assms(3) dev_run_same [OF device_calls_same(3) [OF assms(1)]] by simp
next
  case (dev_control n k)
  then show ?thesis using assms(3) dev_run_same [OF device_calls_same(4) [OF assms(1)]] by simp
qed

interpretation dev_run: safe_steps "\<lambda>s. fst s = 0 \<and> ref_count (device (snd s) d) = 0"
  "\<lambda>s s'. drivers_ok drv d \<and> dev_step drv d s s'" "dev_run_inv d"
  for drv :: "'a devices_scheme drivers" and d
  by unfold_locales (auto simp: dev_run_inv_def dest: dev_step_inv)

lemma rt_device_unregister_effect:
  assumes "dev_names_ok k"
  shows "dev_names_ok (snd (rt_device_unregister d k)) \<and> named_devices (snd (rt_device_unregister d k)) = {(n, e) \<in> named_devices k. e \<noteq> d}"
proof -
  let ?k = "rt_object_detach (Ipc_obj d) k"
  have ol: "object_list ?k = (\<lambda>c. removeAll (Ipc_obj d) (object_list k c))"
    and ob: "\<And>b. obj_name (object ?k b) = obj_name (object k b)" by (simp_all add: object_defs)
  have "inj_on (\<lambda>b. obj_name (object k b)) (set (object_list k 9))" using assms by (simp add: dev_names_ok_def)
  then have "inj_on (\<lambda>b. obj_name (object k b)) (set (object_list ?k 9))" unfolding ol by (rule inj_on_subset) auto
  moreover have "obj_inv ?k" using rt_object_detach_inv assms by (auto simp: dev_names_ok_def)
  ultimately have "dev_names_ok ?k" using assms by (auto simp: dev_names_ok_def ob ol)
  moreover have "named_devices ?k = {(n, e) \<in> named_devices k. e \<noteq> d}" by (auto simp: named_devices_def ol ob)
  ultimately show ?thesis by (simp add: rt_device_unregister_def)
qed

section \<open>Properties\<close>


definition example_drivers :: "devices drivers" where
  "example_drivers = \<lparr>drv_init = \<lambda>_ _ k. (RT_EOK, k), drv_open = \<lambda>_ _ _ k. (RT_EOK, k), drv_close = \<lambda>_ _ k. (- RT_EIO, k),
     drv_read = \<lambda>_ _ _ _ _ k. (0, k), drv_write = \<lambda>_ _ _ _ _ k. (0, k), drv_control = \<lambda>_ _ _ _ k. (RT_EOK, k)\<rparr>"

text \<open>The example: stand-alone devices whose driver fails to close.\<close>

definition example_devices :: "u8 \<Rightarrow> u16 \<Rightarrow> devices" where
  "example_devices n fl = example_running (idle_ipc (waitqueues_ext (\<lambda>_. 0) (\<lambda>_. []) (\<lambda>_. \<lparr>polling_thread = 0, node_wakeup = None, node_key = 0\<rparr>)
     (devices.fields (\<lambda>_. zero_device\<lparr>dev_flag := 0x18, open_flag := fl, ref_count := n, device_close := Some 0\<rparr>) cold_heap)))"

lemma example_devices_sel [simp]:
  "device (example_devices n fl) d = zero_device\<lparr>dev_flag := 0x18, open_flag := fl, ref_count := n, device_close := Some 0\<rparr>"
  "object_list (example_devices n fl) = (\<lambda>_. [])"
  by (simp_all add: example_devices_def example_running_def example_kernel_def boot_kernel_def idle_ipc_def devices.defs)

lemma example_drivers_ok: "drivers_ok example_drivers d"
  by (simp add: drivers_ok_def example_drivers_def)


text \<open>
  C31. Device names: as long as devices enter and leave the registry by \<open>rt_device_register\<close> and
  \<open>rt_device_unregister\<close>, no two registered devices have the same name (its first eight characters),
  \<open>rt_device_register\<close> refuses exactly the names that are taken, and \<open>rt_device_find\<close> returns exactly
  the device registered under the name.
\<close>

theorem rt_device_names_unique:
  assumes "dev_names_ok k" "unregistered (Ipc_obj d) k"
  shows "case rt_device_register (Some d) name flags k of (r, k') \<Rightarrow>
      dev_names_ok k' \<and> (\<forall>key e. fst (rt_device_find (Some key) k') = Some e \<longleftrightarrow> (rt_strncpy key RT_NAME_MAX, e) \<in> named_devices k')
    \<and> (if rt_strncpy name RT_NAME_MAX \<in> fst ` named_devices k then r = - RT_ERROR \<and> named_devices k' = named_devices k \<and> device k' = device k
       else r = RT_EOK \<and> named_devices k' = insert (rt_strncpy name RT_NAME_MAX, d) (named_devices k) \<and> ref_count (device k' d) = 0)
    \<and> dev_names_ok (snd (rt_device_unregister e k')) \<and> named_devices (snd (rt_device_unregister e k')) = {(n, f) \<in> named_devices k'. f \<noteq> e}"
proof -
  obtain r k' where r: "rt_device_register (Some d) name flags k = (r, k')" by force
  note e = rt_device_register_effect [OF assms, of name flags, unfolded r prod.case]
  then have ok: "dev_names_ok k'" by blast
  show ?thesis unfolding r prod.case
    using e rt_device_unregister_effect [OF ok, of e] rt_device_find_result [OF ok] by (auto split: if_splits)
qed

theorem rt_device_names_unique_witness:
  "fst (rt_device_find (Some [116, 49]) (snd (rt_device_register (Some 4) [116, 49] 3 (example_devices 0 0)))) = Some 4"
proof -
  have "dev_names_ok (example_devices 0 0)" "unregistered (Ipc_obj 4) (example_devices 0 0)" "named_devices (example_devices 0 0) = {}"
    by (simp_all add: dev_names_ok_def obj_inv_def family_ok_def unregistered_def named_devices_def)
  then show ?thesis using rt_device_names_unique [of "example_devices 0 0" 4 "[116, 49]" 3] by (simp add: case_prod_beta)
qed

text \<open>
  When the driver of a stand-alone device fails to close it, the device can never be used again:
  its count is zero, so it cannot be closed, but it is still marked open, so every open is refused.
\<close>

theorem rt_device_close_failure_locks:
  assumes "ref_count (device k d) = 1" "dev_flag (device k d) AND RT_DEVICE_FLAG_STANDALONE \<noteq> 0"
    "dev_flag (device k d) AND RT_DEVICE_FLAG_ACTIVATED \<noteq> 0" "open_flag (device k d) AND RT_DEVICE_OFLAG_OPEN \<noteq> 0"
    and "device_close (device k d) = Some f" "fst (drv_close drv f d k1) \<notin> {RT_EOK, - RT_ENOSYS}"
    and "k1 = upd_device d (\<lambda>v. v\<lparr>ref_count := 0\<rparr>) k" "device (snd (drv_close drv f d k1)) d = device k1 d"
  shows "case rt_device_close drv d k of (r, k') \<Rightarrow> r = fst (drv_close drv f d k1)
    \<and> rt_device_open drv d oflag k' = (- RT_EBUSY, k') \<and> rt_device_close drv d k' = (- RT_ERROR, k')"
proof -
  have "upd_device d (\<lambda>v. v\<lparr>ref_count := ref_count v - 1\<rparr>) k = k1" using assms(1) by (simp add: upd_device_def assms(7))
  then have e: "rt_device_close drv d k = drv_close drv f d k1"
    using assms(1,5,6) by (auto simp: rt_device_close_def case_prod_beta Let_def assms(7))
  show ?thesis unfolding e using assms(2-4,8)
    by (simp add: case_prod_beta rt_device_open_def open_activate_def rt_device_close_def assms(7))
qed

theorem rt_device_close_failure_locks_witness:
  "fst (rt_device_open example_drivers 4 3 (snd (rt_device_close example_drivers 4 (example_devices 1 8)))) = - RT_EBUSY"
  using rt_device_close_failure_locks [OF _ _ _ _ _ _ refl, of "example_devices 1 8" 4 0 example_drivers 3]
  by (simp add: example_drivers_def zero_device_def case_prod_beta)

end
