(* ===== verification/Libc_Time.thy ===== *)
theory Libc_Time
  imports Prelude "HOL-Library.Signed_Division"
begin

text \<open>
  Calendar time, \<^verbatim>\<open>rt-thread/components/libc/compilers/common/time.c\<close>: seconds since 1970 to broken-down time
  and back, its text form, the time zone, and the clock that the tick counter drives. \<open>time_t\<close> (64 bits)
  and the fields of \<open>struct tm\<close> (\<open>int\<close>) are signed, so they are integers here, with C's truncating division;
  where a \<open>time_t\<close> is narrowed to an \<open>int\<close>, or a sum of \<open>int\<close>s can leave the 32 bits, \<open>int32\<close> wraps the
  value (the narrowing wraps with every compiler used here; the sum is undefined behaviour in C, and the
  wrapped value is what the machine's addition gives). The theorems say for which values nothing wraps.
  A read outside a table is \<open>None\<close>.
\<close>

unbundle bit_operations_syntax

section \<open>Tables\<close>

record tm =
  tm_sec :: int
  tm_min :: int
  tm_hour :: int
  tm_mday :: int
  tm_mon :: int
  tm_year :: int
  tm_wday :: int
  tm_yday :: int
  tm_isdst :: int

definition spm :: "int list" where
  "spm = [0, 31, 59, 90, 120, 151, 181, 212, 243, 273, 304, 334, 365]"

definition isleap :: "int \<Rightarrow> bool" where
  "isleap year \<longleftrightarrow> year smod 4 = 0 \<and> (year smod 100 \<noteq> 0 \<or> year smod 400 = 0)"

abbreviation (input) SPD :: int where "SPD \<equiv> 24 * 60 * 60"

definition tz_is_dst :: int where "tz_is_dst = 0"

section \<open>Seconds to broken-down time\<close>

text \<open>The loop over the years: \<open>work\<close> counts the days that are left.\<close>

function gm_years :: "int \<Rightarrow> int \<Rightarrow> int \<times> int" where
  "gm_years i work =
     (let k = (if isleap (int32 i) then 366 else 365)
      in if work \<ge> k then gm_years (i + 1) (work - k) else (i, work))"
  by auto

termination by (relation "measure (\<lambda>(i, work). nat work)") (auto split: if_splits)

fun gm_month :: "nat \<Rightarrow> int \<Rightarrow> nat" where
  "gm_month 0 work = 0"
| "gm_month (Suc i) work = (if spm ! Suc i > work then gm_month i work else Suc i)"

definition gmtime_r :: "int \<Rightarrow> tm" where
  "gmtime_r timep =
     (let work = timep smod SPD;
          sec = work smod 60;
          work = work sdiv 60;
          mins = work smod 60;
          hour = work sdiv 60;
          work = timep sdiv SPD;
          wday = (4 + work) smod 7
      in case gm_years 1970 work of (i, work) \<Rightarrow>
        let year = int32 (i - 1900);
            yday = int32 work;
            (mday, work) =
              (if isleap (int32 i) \<and> work > 58 then (if work = 59 then 2 else 1, work - 1) else (1, work));
            i = gm_month 11 work
        in \<lparr>tm_sec = sec, tm_min = mins, tm_hour = hour, tm_mday = int32 (mday + (work - spm ! i)), tm_mon = int i, tm_year = year,
             tm_wday = wday, tm_yday = yday, tm_isdst = tz_is_dst\<rparr>)"

text \<open>\<open>tz\<close> is the time zone in hours that \<open>tz_get\<close> returns.\<close>

definition localtime_r :: "int \<Rightarrow> int \<Rightarrow> tm" where
  "localtime_r tz t = gmtime_r (t + tz * 3600)"

section \<open>Broken-down time to seconds\<close>

text \<open>The loop that carries days into months.\<close>

function tm_carry :: "int \<Rightarrow> int \<Rightarrow> int \<Rightarrow> (int \<times> int \<times> int) option" where
  "tm_carry mday mon year =
     (if mon < 0 \<or> 11 < mon then None
      else if mday > spm ! nat (1 + mon) then
        let mday = (if mon = 1 \<and> isleap (int32 (year + 1900)) then mday - 1 else mday);
            mday = mday - spm ! nat mon;
            mon = mon + 1
        in if mon > 11 then tm_carry mday 0 (int32 (year + 1)) else tm_carry mday mon year
      else Some (mday, mon, year))"
  by auto

definition tm_years_days :: "int \<Rightarrow> int" where
  "tm_years_days years =
     (let day = years * 365 + (years + 1) sdiv 4
      in if years \<ge> 131 then
           let years = (years - 131) sdiv 100;
               day = day - (drop_bit 2 years * 3 + 1);
               years = years AND 3;
               years = (if years = 3 then years - 1 else years)
           in day - years
         else day)"

definition tm_normalize :: "tm \<Rightarrow> tm option" where
  "tm_normalize t =
     (let t = (if tm_sec t > 60 then t\<lparr>tm_min := int32 (tm_min t + tm_sec t sdiv 60), tm_sec := tm_sec t smod 60\<rparr> else t);
          t = (if tm_min t > 60 then t\<lparr>tm_hour := int32 (tm_hour t + tm_min t sdiv 60), tm_min := tm_min t smod 60\<rparr> else t);
          t = (if tm_hour t > 24 then t\<lparr>tm_mday := int32 (tm_mday t + tm_hour t sdiv 24), tm_hour := tm_hour t smod 24\<rparr> else t);
          t = (if tm_mon t > 12 then t\<lparr>tm_year := int32 (tm_year t + tm_mon t sdiv 12), tm_mon := tm_mon t smod 12\<rparr> else t)
      in map_option (\<lambda>(mday, mon, year). t\<lparr>tm_mday := mday, tm_mon := mon, tm_year := year\<rparr>)
           (tm_carry (tm_mday t) (tm_mon t) (tm_year t)))"

definition timegm :: "tm \<Rightarrow> (int \<times> tm) option" where
  "timegm t =
     (let years = int32 (tm_year t - 70)
      in case tm_normalize t of
           None \<Rightarrow> None
         | Some t \<Rightarrow>
             if tm_year t < 70 then Some (- 1, t)
             else
               let day = tm_years_days years;
                   yday = int32 (spm ! nat (tm_mon t) + tm_mday t - 1 + of_bool (isleap (int32 (tm_year t + 1900)) \<and> tm_mon t > 1));
                   day = day + yday;
                   t = t\<lparr>tm_yday := yday\<rparr>;
                   t = t\<lparr>tm_wday := (day + 4) smod 7\<rparr>;
                   day = day * 24
               in Some (((day + tm_hour t) * 60 + tm_min t) * 60 + tm_sec t, t))"

definition mktime :: "int \<Rightarrow> tm \<Rightarrow> (int \<times> tm) option" where
  "mktime tz t = map_option (\<lambda>(timestamp, t). (timestamp - 3600 * tz, t)) (timegm t)"

lemma spm_simps [simp]:
  "spm ! 0 = 0" "spm ! Suc 0 = 31" "spm ! 2 = 59" "spm ! 3 = 90" "spm ! 4 = 120" "spm ! 5 = 151" "spm ! 6 = 181" "spm ! 7 = 212"
  "spm ! 8 = 243" "spm ! 9 = 273" "spm ! 10 = 304" "spm ! 11 = 334" "spm ! 12 = 365"
  by (simp_all add: spm_def)

lemma month_cases:
  fixes m :: int
  assumes "0 \<le> m" "m \<le> 11"
  shows "m \<in> {0, 1, 2, 3, 4, 5, 6, 7, 8, 9, 10, 11}"
  using assms by simp presburger

text \<open>A carry out of January takes off nothing, every other carry at least 31 days.\<close>

lemma spm_carry: "0 < m \<Longrightarrow> m \<le> 11 \<Longrightarrow> 31 \<le> spm ! nat m"
  using month_cases [of m] by auto

termination tm_carry
proof (relation "measures [\<lambda>(mday, mon, year). nat mday, \<lambda>(mday, mon, year). if mon = 0 then 1 else 0]")
  fix mday mon year mday1 mday2 mon1 :: int
  assume a: "\<not> (mon < 0 \<or> 11 < mon)" "spm ! nat (1 + mon) < mday" "mday1 = (if mon = 1 \<and> isleap (int32 (year + 1900)) then mday - 1 else mday)"
    "mday2 = mday1 - spm ! nat mon" "mon1 = mon + 1"
  have s: "31 \<le> spm ! nat (1 + mon)" using spm_carry [of "1 + mon"] a(1) by (cases "mon = 11") auto
  have d: "mday2 < mday \<and> 0 < mday \<or> mon = 0 \<and> mday2 = mday"
    using spm_carry [of mon] a s by (cases "mon = 0") (auto simp del: int32_id)
  show "((mday2, 0, int32 (year + 1)), mday, mon, year) \<in> measures [\<lambda>(mday, mon, year). nat mday, \<lambda>(mday, mon, year). if mon = 0 then 1 else 0]" if "11 < mon1"
    using d a(5) that by (auto simp del: int32_id)
  show "((mday2, mon1, year), mday, mon, year) \<in> measures [\<lambda>(mday, mon, year). nat mday, \<lambda>(mday, mon, year). if mon = 0 then 1 else 0]" if "\<not> 11 < mon1"
    using d a by (auto simp del: int32_id)
qed simp

declare gm_years.simps [simp del] tm_carry.simps [simp del]

section \<open>The calendar\<close>

definition year_days :: "int \<Rightarrow> int" where
  "year_days y = (if isleap y then 366 else 365)"

definition month_days :: "bool \<Rightarrow> nat \<Rightarrow> int" where
  "month_days leap m = [31, if leap then 29 else 28, 31, 30, 31, 30, 31, 31, 30, 31, 30, 31] ! m"

text \<open>Days from 1 January 1970 to 1 January of \<open>y\<close>, and from there to the first of month \<open>m\<close>.\<close>

definition days_to_year :: "int \<Rightarrow> int" where
  "days_to_year y = (\<Sum>i \<in> {1970..<y}. year_days i)"

definition days_to_month :: "bool \<Rightarrow> nat \<Rightarrow> int" where
  "days_to_month leap m = (\<Sum>i < m. month_days leap i)"

text \<open>A proper date and time from 1970 on, the day of its year, and the seconds it stands for.\<close>

definition tm_leap :: "tm \<Rightarrow> bool" where
  "tm_leap t = isleap (tm_year t + 1900)"

definition valid_tm :: "tm \<Rightarrow> bool" where
  "valid_tm t \<longleftrightarrow> 0 \<le> tm_sec t \<and> tm_sec t < 60 \<and> 0 \<le> tm_min t \<and> tm_min t < 60 \<and> 0 \<le> tm_hour t \<and> tm_hour t < 24
     \<and> 70 \<le> tm_year t \<and> 0 \<le> tm_mon t \<and> tm_mon t \<le> 11 \<and> 1 \<le> tm_mday t \<and> tm_mday t \<le> month_days (tm_leap t) (nat (tm_mon t))"

definition day_of_year :: "tm \<Rightarrow> int" where
  "day_of_year t = days_to_month (tm_leap t) (nat (tm_mon t)) + tm_mday t - 1"

definition tm_days :: "tm \<Rightarrow> int" where
  "tm_days t = days_to_year (tm_year t + 1900) + day_of_year t"

definition tm_seconds :: "tm \<Rightarrow> int" where
  "tm_seconds t = ((tm_days t * 24 + tm_hour t) * 60 + tm_min t) * 60 + tm_sec t"

subsection \<open>Months\<close>

definition month_start :: "bool \<Rightarrow> nat \<Rightarrow> int" where
  "month_start leap m = spm ! m + of_bool (leap \<and> 1 < m)"

lemma days_to_month_start: "m \<le> 11 \<Longrightarrow> days_to_month leap m = month_start leap m"
proof -
  assume "m \<le> 11"
  then have "m = 0 \<or> m = 1 \<or> m = 2 \<or> m = 3 \<or> m = 4 \<or> m = 5 \<or> m = 6 \<or> m = 7 \<or> m = 8 \<or> m = 9 \<or> m = 10 \<or> m = 11" by presburger
  then show ?thesis
    by (elim disjE) (simp_all add: days_to_month_def month_start_def month_days_def spm_def eval_nat_numeral)
qed

lemma gm_month_11:
  "gm_month 11 w = (if 334 \<le> w then 11 else if 304 \<le> w then 10 else if 273 \<le> w then 9 else if 243 \<le> w then 8 else if 212 \<le> w then 7
     else if 181 \<le> w then 6 else if 151 \<le> w then 5 else if 120 \<le> w then 4 else if 90 \<le> w then 3 else if 59 \<le> w then 2
     else if 31 \<le> w then 1 else 0)"
  by (simp add: eval_nat_numeral spm_def)

text \<open>How \<open>gmtime_r\<close> finds the month and its day from the day \<open>w\<close> of the year.\<close>

definition gm_day :: "bool \<Rightarrow> int \<Rightarrow> nat \<times> int" where
  "gm_day leap w =
     (case (if leap \<and> w > 58 then (if w = 59 then 2 else 1, w - 1) else (1, w)) of (mday, w) \<Rightarrow>
        (gm_month 11 w, mday + (w - spm ! gm_month 11 w)))"

lemma gm_day_valid:
  assumes "0 \<le> w" "w < (if leap then 366 else 365)" "gm_day leap w = (m, d)"
  shows "m \<le> 11" "1 \<le> d" "d \<le> month_days leap m" "w = month_start leap m + d - 1"
  using assms unfolding gm_day_def gm_month_11 month_start_def month_days_def
  by (auto split: if_splits)

lemma month_cases_nat:
  fixes m :: nat
  assumes "m \<le> 11"
  shows "m \<in> {0, 1, 2, 3, 4, 5, 6, 7, 8, 9, 10, 11}"
  using assms by simp presburger

lemma gm_day_of:
  assumes "m \<le> 11" "1 \<le> d" "d \<le> month_days leap m"
  shows "gm_day leap (month_start leap m + d - 1) = (m, d)"
proof -
  have "m \<in> {0, 1, 2, 3, 4, 5, 6, 7, 8, 9, 10, 11}" by (rule month_cases_nat [OF assms(1)])
  then show ?thesis using assms(2,3)
    by (elim insertE emptyE; cases leap; simp add: gm_day_def gm_month_11 month_start_def month_days_def split: if_splits)
qed

lemma month_start_range:
  assumes "m \<le> 11" "1 \<le> d" "d \<le> month_days leap m"
  shows "0 \<le> month_start leap m + d - 1" "month_start leap m + d - 1 < (if leap then 366 else 365)"
proof -
  have m: "m \<in> {0, 1, 2, 3, 4, 5, 6, 7, 8, 9, 10, 11}" by (rule month_cases_nat [OF assms(1)])
  then show "0 \<le> month_start leap m + d - 1" using assms(2) by (elim insertE emptyE; simp add: month_start_def)
  show "month_start leap m + d - 1 < (if leap then 366 else 365)"
    using m assms(3) by (elim insertE emptyE; cases leap; simp add: month_start_def month_days_def)
qed

subsection \<open>Years\<close>

lemma isleap_mod: "0 \<le> y \<Longrightarrow> isleap y \<longleftrightarrow> y mod 4 = 0 \<and> (y mod 100 \<noteq> 0 \<or> y mod 400 = 0)"
  by (simp add: isleap_def smod_mod_positive)

lemma year_days_pos [simp]: "365 \<le> year_days y" "0 < year_days y" "0 \<le> year_days y"
  by (simp_all add: year_days_def)

text \<open>The loop over the years finds the year of a day, and its day in the year.\<close>

lemma gm_years_sum: "0 \<le> i \<Longrightarrow> y < 2 ^ 31 \<Longrightarrow> i \<le> y \<Longrightarrow> 0 \<le> w \<Longrightarrow> w < year_days y \<Longrightarrow> gm_years i ((\<Sum>j \<in> {i..<y}. year_days j) + w) = (y, w)"
proof (induction "nat (y - i)" arbitrary: i)
  case 0
  then show ?case by (subst gm_years.simps) (simp add: year_days_def)
next
  case (Suc n)
  then have "{i..<y} = insert i {i + 1..<y}" by auto
  then have s: "(\<Sum>j \<in> {i..<y}. year_days j) = year_days i + (\<Sum>j \<in> {i + 1..<y}. year_days j)" by simp
  have "0 \<le> (\<Sum>j \<in> {i + 1..<y}. year_days j)" by (simp add: sum_nonneg)
  then have "gm_years i ((\<Sum>j \<in> {i..<y}. year_days j) + w) = gm_years (i + 1) ((\<Sum>j \<in> {i + 1..<y}. year_days j) + w)"
    using Suc.prems Suc.hyps(2) unfolding s by (subst gm_years.simps) (simp add: year_days_def Let_def algebra_simps)
  also have "\<dots> = (y, w)" using Suc.hyps(2) Suc.prems by (intro Suc.hyps(1)) auto
  finally show ?case .
qed

lemma gm_years_sound:
  "0 \<le> i \<Longrightarrow> 365 * i + work < 365 * 2 ^ 31 \<Longrightarrow> 0 \<le> work \<Longrightarrow> gm_years i work = (y, w) \<Longrightarrow> i \<le> y \<and> 0 \<le> w \<and> w < year_days y \<and> work = (\<Sum>j \<in> {i..<y}. year_days j) + w"
proof (induction i work rule: gm_years.induct)
  case (1 i work)
  have n: "int32 i = i" using 1(2-4) by simp
  show ?case
  proof (cases "work \<ge> year_days i")
    case True
    have "gm_years (i + 1) (work - year_days i) = (y, w)"
      using 1(5) True by (subst (asm) gm_years.simps) (simp add: year_days_def Let_def n split: if_splits)
    then have IH: "i + 1 \<le> y" "0 \<le> w" "w < year_days y" "work - year_days i = (\<Sum>j \<in> {i + 1..<y}. year_days j) + w"
      using 1(1) [OF refl] 1(2,3) True by (auto simp: year_days_def n split: if_splits)
    then have "{i..<y} = insert i {i + 1..<y}" by auto
    then show ?thesis using IH by simp
  next
    case False
    then have "y = i" "w = work" using 1(5) by (subst (asm) gm_years.simps, simp add: year_days_def Let_def n split: if_splits)+
    then show ?thesis using False 1(4) by simp
  qed
qed

text \<open>The leap years by the Gregorian rule, counted in closed form.\<close>

lemma div_step: "0 < k \<Longrightarrow> y div k = (y - 1) div k + of_bool (k dvd y)" for y k :: int
proof -
  assume k: "0 < k"
  define q r where "q = y div k" "r = y mod k"
  have y: "y = k * q + r" "0 \<le> r" "r < k" using k by (simp_all add: q_r_def)
  show ?thesis
  proof (cases "r = 0")
    case True
    have "(y - 1) div k = (k * (q - 1) + (k - 1)) div k" using y(1) True by (simp add: algebra_simps)
    also have "\<dots> = q - 1" using k by (simp add: div_add1_eq [of "k * (q - 1)"] div_pos_pos_trivial)
    finally show ?thesis using True by (simp add: q_r_def dvd_eq_mod_eq_0)
  next
    case False
    have "(y - 1) div k = (k * q + (r - 1)) div k" by (subst y(1)) (simp only: add_diff_eq)
    also have "\<dots> = q" using k y False by (simp add: div_pos_pos_trivial)
    finally show ?thesis using False by (simp add: q_r_def dvd_eq_mod_eq_0)
  qed
qed

lemma days_to_year_closed:
  "1970 \<le> y \<Longrightarrow> days_to_year y = 365 * (y - 1970) + (y - 1) div 4 - (y - 1) div 100 + (y - 1) div 400 - 477"
proof (induction y rule: int_ge_induct)
  case (step y)
  then have "{1970..<y + 1} = insert y {1970..<y}" by auto
  then have "days_to_year (y + 1) = days_to_year y + year_days y" by (simp add: days_to_year_def)
  moreover have "year_days y = 365 + of_bool (4 dvd y) - of_bool (100 dvd y) + of_bool (400 dvd y)"
  proof -
    have "100 dvd y \<Longrightarrow> 4 dvd y" "400 dvd y \<Longrightarrow> 100 dvd y" using dvd_trans [of 4 100 y] dvd_trans [of 100 400 y] by auto
    then show ?thesis using step.hyps
      by (cases "4 dvd y"; cases "100 dvd y"; cases "400 dvd y"; simp add: year_days_def isleap_mod mod_eq_0_iff_dvd)
  qed
  ultimately show ?case using step.IH div_step [of 4 y] div_step [of 100 y] div_step [of 400 y] by simp
qed (simp add: days_to_year_def)

lemma leap_centuries:
  fixes c :: int
  shows "c div 4 * 3 + 1 + (if c mod 4 = 3 then 2 else c mod 4) = c + 6 - (c + 21) div 4"
proof -
  define q r where "q = c div 4" "r = c mod 4"
  have c: "c = 4 * q + r" and r: "r = 0 \<or> r = 1 \<or> r = 2 \<or> r = 3" by (auto simp: q_r_def)
  have "(c + 21) div 4 = q + 5 + (if r = 3 then 1 else 0)"
    using int_div_pos_eq [of "c + 21" 4 "q + 5 + (if r = 3 then 1 else 0)" "if r = 3 then 0 else r + 1"] c r by auto
  then show ?thesis using c r by (auto simp: q_r_def [symmetric])
qed

lemma tm_years_days_correct:
  assumes "1970 \<le> y"
  shows "tm_years_days (y - 1970) = days_to_year y"
proof -
  have leaps: "(y - 1970 + 1) sdiv 4 = (y - 1) div 4 - 492"
  proof -
    have "(y - 1970 + 1) sdiv 4 = (y - 1 + (- 492) * 4) div 4" using assms by (simp add: signed_divide_int_def zsgn_def)
    then show ?thesis by (simp only: div_mult_self1)
  qed
  show ?thesis
  proof (cases "y \<le> 2100")
    case True
    have "(y - 1) div 100 - (y - 1) div 400 = 15"
    proof (cases "y \<le> 2000")
      case True
      then have "(y - 1) div 100 = 19" "(y - 1) div 400 = 4"
        using assms int_div_pos_eq [of "y - 1" 100 19 "y - 1901"] int_div_pos_eq [of "y - 1" 400 4 "y - 1601"] by simp_all
      then show ?thesis by simp
    next
      case False
      then have "(y - 1) div 100 = 20" "(y - 1) div 400 = 5"
        using True int_div_pos_eq [of "y - 1" 100 20 "y - 2001"] int_div_pos_eq [of "y - 1" 400 5 "y - 2001"] by simp_all
      then show ?thesis by simp
    qed
    then show ?thesis using True leaps days_to_year_closed [OF assms] by (simp add: tm_years_days_def Let_def)
  next
    case False
    define c where "c = (y - 2101) div 100"
    have c: "(y - 1970 - 131) sdiv 100 = c" using False by (simp add: c_def signed_divide_int_def zsgn_def)
    have h: "(y - 1) div 100 = c + 21"
    proof -
      have "(y - 1) div 100 = (y - 2101 + 21 * 100) div 100" by simp
      then show ?thesis unfolding c_def by (simp only: div_mult_self1)
    qed
    have f: "(y - 1) div 400 = (c + 21) div 4" using h zdiv_zmult2_eq [of 4 "y - 1" 100] by simp
    have b: "drop_bit 2 c = c div 4" "c AND 3 = c mod 4"
      using take_bit_eq_mask [of 2 c] by (simp_all add: drop_bit_eq_div take_bit_eq_mod mask_eq_exp_minus_1)
    have t: "tm_years_days (y - 1970) = (y - 1970) * 365 + ((y - 1) div 4 - 492) - (c div 4 * 3 + 1) - (if c mod 4 = 3 then 2 else c mod 4)"
    proof -
      have "131 \<le> y - 1970" using False by simp
      moreover have "(if c mod 4 = 3 then c mod 4 - 1 else c mod 4) = (if c mod 4 = 3 then 2 else c mod 4)" by simp
      ultimately show ?thesis unfolding tm_years_days_def Let_def leaps c b by (simp only: if_True)
    qed
    show ?thesis using leap_centuries [of c] unfolding t days_to_year_closed [OF assms] h f by linarith
  qed
qed

section \<open>Both directions\<close>

lemma gmtime_r_eq:
  assumes "0 \<le> t" "gm_years 1970 (t div 86400) = (y, w)" "gm_day (isleap y) w = (m, d)"
    and "1970 \<le> y" "y < 2 ^ 31" "0 \<le> w" "w < 366" "1 \<le> d" "d \<le> 31"
  shows "gmtime_r t = \<lparr>tm_sec = t mod 86400 mod 60, tm_min = t mod 86400 div 60 mod 60, tm_hour = t mod 86400 div 60 div 60,
     tm_mday = d, tm_mon = int m, tm_year = y - 1900, tm_wday = (4 + t div 86400) mod 7, tm_yday = w, tm_isdst = 0\<rparr>"
proof -
  have s: "t smod SPD = t mod 86400" "t sdiv SPD = t div 86400"
    using assms(1) by (auto simp: smod_mod_positive signed_divide_int_def zsgn_def)
  have p: "0 \<le> t mod 86400" "0 \<le> t div 86400" using assms(1) by (simp_all add: pos_imp_zdiv_nonneg_iff)
  have q: "x smod n = x mod n" "x sdiv n = x div n" if "0 \<le> x" "0 < n" for x n :: int
    using that by (auto simp: smod_mod_positive signed_divide_int_def zsgn_def)
  have h: "0 \<le> t mod 86400 div 60" using p(1) by (simp add: pos_imp_zdiv_nonneg_iff)
  have r: "t mod 86400 smod 60 = t mod 86400 mod 60" "t mod 86400 sdiv 60 = t mod 86400 div 60"
    "(4 + t div 86400) smod 7 = (4 + t div 86400) mod 7" using p by (auto intro!: q)
  have r2: "t mod 86400 div 60 smod 60 = t mod 86400 div 60 mod 60" "t mod 86400 div 60 sdiv 60 = t mod 86400 div 60 div 60"
    using h by (auto intro!: q)
  obtain a b where ab: "(if isleap y \<and> w > 58 then (if w = 59 then 2 else 1, w - 1) else (1 :: int, w)) = (a, b)" by force
  have "m = gm_month 11 b" "d = a + (b - spm ! m)" using assms(3) unfolding gm_day_def ab by auto
  moreover have n: "int32 y = y" "int32 (y - 1900) = y - 1900" "int32 w = w" "int32 d = d" using assms(4-9) by simp_all
  ultimately have "int32 (a + (b - spm ! m)) = d" by simp
  then show ?thesis
    unfolding gmtime_r_def Let_def s r r2 assms(2) prod.case n ab tz_is_dst_def
    by (simp only: \<open>m = gm_month 11 b\<close>)
qed

lemma day_seconds:
  fixes x :: int
  shows "(x div 1440 * 24 + x mod 1440 div 60) * 60 + x mod 1440 mod 60 = x"
proof -
  have "(u * 24 + v) * 60 + w = u * 1440 + (v * 60 + w)" for u v w :: int by simp
  then show ?thesis by (simp only: div_mult_mod_eq)
qed

lemma minutes_of_day: "t mod 86400 div 60 = t div 60 mod 1440" "t div 86400 = t div 60 div 1440" "t mod 86400 mod 60 = t mod 60" for t :: int
proof -
  have "t mod (60 * 1440) = 60 * (t div 60 mod 1440) + t mod 60" by (rule zmod_zmult2_eq) simp
  then show "t mod 86400 div 60 = t div 60 mod 1440" by simp
  show "t div 86400 = t div 60 div 1440" using zdiv_zmult2_eq [of 1440 t 60] by simp
  show "t mod 86400 mod 60 = t mod 60" by (rule mod_mod_cancel) simp
qed

lemma hour_of_day: "0 \<le> x \<Longrightarrow> 0 \<le> x mod 1440 div 60 \<and> x mod 1440 div 60 < 24" for x :: int
  using zdiv_mono1 [of "x mod 1440" 1439 60] pos_mod_bound [of 1440 x] by (simp add: pos_imp_zdiv_nonneg_iff)

lemma month_days_le: "m \<le> 11 \<Longrightarrow> month_days leap m \<le> 31"
  using month_cases_nat [of m] by (auto simp: month_days_def)

lemma gmtime_r_effect:
  assumes "0 \<le> t" "t < 2 ^ 55"
  shows "valid_tm (gmtime_r t)" "tm_seconds (gmtime_r t) = t" "tm_yday (gmtime_r t) = day_of_year (gmtime_r t)"
    "tm_wday (gmtime_r t) = (tm_days (gmtime_r t) + 4) mod 7" "tm_isdst (gmtime_r t) = 0"
    "365 * (tm_year (gmtime_r t) - 70) \<le> t div 86400"
proof -
  obtain y w where g: "gm_years 1970 (t div 86400) = (y, w)" by force
  obtain m d where md: "gm_day (isleap y) w = (m, d)" by force
  have "t div 86400 \<le> 2 ^ 55 div 86400" using assms(2) by (intro zdiv_mono1) auto
  then have d0: "0 \<le> t div 86400" "365 * 1970 + t div 86400 < 365 * 2 ^ 31" "t div 86400 \<le> 417005205600"
    using assms(1) by (simp_all add: pos_imp_zdiv_nonneg_iff)
  from gm_years_sound [OF _ d0(2,1) g] have y: "1970 \<le> y" "0 \<le> w" "w < year_days y" "t div 86400 = days_to_year y + w"
    by (auto simp: days_to_year_def)
  have yd: "365 * (y - 1970) \<le> days_to_year y"
    using sum_bounded_below [of "{1970..<y}" 365 year_days] y(1) by (simp add: days_to_year_def)
  have v: "m \<le> 11" "1 \<le> d" "d \<le> month_days (isleap y) m" "w = month_start (isleap y) m + d - 1"
    using gm_day_valid [OF y(2) _ md] y(3) by (auto simp: year_days_def)
  have "y < 2 ^ 31" using yd y(2,4) d0(3) by simp
  moreover have "w < 366" using y(3) by (simp add: year_days_def split: if_splits)
  moreover have "d \<le> 31" using v(3) month_days_le [OF v(1), of "isleap y"] by simp
  ultimately have e: "gmtime_r t = \<lparr>tm_sec = t mod 86400 mod 60, tm_min = t mod 86400 div 60 mod 60, tm_hour = t mod 86400 div 60 div 60,
     tm_mday = d, tm_mon = int m, tm_year = y - 1900, tm_wday = (4 + t div 86400) mod 7, tm_yday = w, tm_isdst = 0\<rparr>"
    using y(2) v(2) by (intro gmtime_r_eq [OF assms(1) g md y(1)])
  have l: "tm_leap (gmtime_r t) = isleap y" by (simp add: e tm_leap_def)
  have doy: "day_of_year (gmtime_r t) = w" unfolding day_of_year_def l using v(1,4) by (simp add: e days_to_month_start)
  then show "tm_yday (gmtime_r t) = day_of_year (gmtime_r t)" by (simp add: e)
  have days: "tm_days (gmtime_r t) = t div 86400" using doy y(4) by (simp add: tm_days_def) (simp add: e)
  have "0 \<le> t div 60" using assms by (simp add: pos_imp_zdiv_nonneg_iff)
  note h = hour_of_day [OF this]
  show "valid_tm (gmtime_r t)" using v y(1) h unfolding valid_tm_def l by (simp add: e minutes_of_day)
  have "tm_seconds (gmtime_r t) = ((t div 60 div 1440 * 24 + t div 60 mod 1440 div 60) * 60 + t div 60 mod 1440 mod 60) * 60 + t mod 60"
    unfolding tm_seconds_def days unfolding e tm.select_convs minutes_of_day ..
  then show "tm_seconds (gmtime_r t) = t" unfolding day_seconds by simp
  show "tm_wday (gmtime_r t) = (tm_days (gmtime_r t) + 4) mod 7" by (simp add: days) (simp add: e add.commute)
  show "tm_isdst (gmtime_r t) = 0" by (simp add: e)
  show "365 * (tm_year (gmtime_r t) - 70) \<le> t div 86400" using yd y(2,4) by (simp add: e)
qed

lemma tm_normalize_valid: "valid_tm t \<Longrightarrow> tm_normalize t = Some t"
proof -
  assume v: "valid_tm t"
  have "tm_mday t \<le> spm ! nat (1 + tm_mon t)"
    using month_cases [of "tm_mon t"] v by (auto simp: valid_tm_def month_days_def split: if_splits)
  then have "tm_carry (tm_mday t) (tm_mon t) (tm_year t) = Some (tm_mday t, tm_mon t, tm_year t)"
    using v by (subst tm_carry.simps) (simp add: valid_tm_def)
  then show ?thesis using v by (simp add: tm_normalize_def valid_tm_def Let_def)
qed

lemma valid_tm_month:
  assumes "valid_tm t"
  shows "nat (tm_mon t) \<le> 11" "day_of_year t = month_start (tm_leap t) (nat (tm_mon t)) + tm_mday t - 1"
    "0 \<le> day_of_year t" "day_of_year t < year_days (tm_year t + 1900)" "0 \<le> tm_days t"
proof -
  show m: "nat (tm_mon t) \<le> 11" using assms unfolding valid_tm_def by linarith
  then show d: "day_of_year t = month_start (tm_leap t) (nat (tm_mon t)) + tm_mday t - 1"
    by (simp add: day_of_year_def days_to_month_start)
  show "0 \<le> day_of_year t" "day_of_year t < year_days (tm_year t + 1900)"
    unfolding d using month_start_range [OF m, of "tm_mday t" "tm_leap t"] assms by (auto simp: valid_tm_def year_days_def tm_leap_def)
  moreover have "0 \<le> days_to_year y" for y by (simp add: days_to_year_def sum_nonneg)
  ultimately show "0 \<le> tm_days t" by (simp add: tm_days_def)
qed

lemma timegm_valid:
  assumes "valid_tm t" "tm_year t + 1900 < 2 ^ 31"
  shows "timegm t = Some (tm_seconds t, t\<lparr>tm_yday := day_of_year t, tm_wday := (tm_days t + 4) mod 7\<rparr>)"
proof -
  have n: "int32 (tm_year t + 1900) = tm_year t + 1900" "int32 (tm_year t - 70) = tm_year t - 70" "int32 (day_of_year t) = day_of_year t"
    using assms valid_tm_month(3,4) [OF assms(1)] by (simp_all add: valid_tm_def year_days_def split: if_splits)
  have "1970 \<le> tm_year t + 1900" using assms by (simp add: valid_tm_def)
  from tm_years_days_correct [OF this] have y: "tm_years_days (tm_year t - 70) = days_to_year (tm_year t + 1900)" by simp
  have d: "spm ! nat (tm_mon t) + tm_mday t - 1 + of_bool (isleap (tm_year t + 1900) \<and> tm_mon t > 1) = day_of_year t"
    using valid_tm_month(2) [OF assms(1)] by (auto simp: month_start_def tm_leap_def)
  have w: "(tm_days t + 4) smod 7 = (tm_days t + 4) mod 7" using valid_tm_month(5) [OF assms(1)] by (simp add: smod_mod_positive)
  show ?thesis using assms d w y
    by (simp add: timegm_def tm_normalize_valid Let_def tm_days_def tm_seconds_def valid_tm_def n del: int32_id)
qed

lemma gmtime_r_seconds:
  assumes "valid_tm t" "tm_year t + 1900 < 2 ^ 31"
  shows "gmtime_r (tm_seconds t) = t\<lparr>tm_yday := day_of_year t, tm_wday := (tm_days t + 4) mod 7, tm_isdst := 0\<rparr>"
proof -
  note v = valid_tm_month [OF assms(1)]
  have h: "0 \<le> tm_hour t" "tm_hour t < 24" "0 \<le> tm_min t" "tm_min t < 60" "0 \<le> tm_sec t" "tm_sec t < 60"
    using assms by (simp_all add: valid_tm_def)
  let ?s = "tm_seconds t" and ?r = "(tm_hour t * 60 + tm_min t) * 60 + tm_sec t"
  have "?s = 86400 * tm_days t + ?r" by (simp add: tm_seconds_def)
  moreover have r: "0 \<le> ?r" "?r < 86400" using h by simp_all
  ultimately have d: "?s div 86400 = tm_days t" "?s mod 86400 = ?r" using int_div_pos_eq int_mod_pos_eq by blast+
  have m: "?r div 60 = tm_hour t * 60 + tm_min t" "?r mod 60 = tm_sec t"
    using int_div_pos_eq [of ?r 60 "tm_hour t * 60 + tm_min t" "tm_sec t"] int_mod_pos_eq [of ?r 60 "tm_hour t * 60 + tm_min t" "tm_sec t"] h by simp_all
  have n: "(tm_hour t * 60 + tm_min t) div 60 = tm_hour t" "(tm_hour t * 60 + tm_min t) mod 60 = tm_min t"
    using int_div_pos_eq [of "tm_hour t * 60 + tm_min t" 60 "tm_hour t" "tm_min t"]
      int_mod_pos_eq [of "tm_hour t * 60 + tm_min t" 60 "tm_hour t" "tm_min t"] h by simp_all
  have y: "1970 \<le> tm_year t + 1900" "tm_year t + 1900 < 2 ^ 31" "0 \<le> day_of_year t" "day_of_year t < 366" "1 \<le> tm_mday t" "tm_mday t \<le> 31"
    using assms v(3,4) month_days_le [OF v(1), of "tm_leap t"] by (simp_all add: valid_tm_def year_days_def split: if_splits)
  have "0 \<le> ?s" using v(5) r(1) by (simp add: tm_seconds_def)
  moreover have "gm_years 1970 (?s div 86400) = (tm_year t + 1900, day_of_year t)"
    using gm_years_sum [of 1970 "tm_year t + 1900" "day_of_year t"] v(3,4) assms unfolding d by (simp add: tm_days_def days_to_year_def valid_tm_def)
  moreover have "gm_day (isleap (tm_year t + 1900)) (day_of_year t) = (nat (tm_mon t), tm_mday t)"
    using gm_day_of [OF v(1), of "tm_mday t" "tm_leap t"] assms by (simp add: v(2) valid_tm_def tm_leap_def)
  ultimately have "gmtime_r ?s = \<lparr>tm_sec = tm_sec t, tm_min = tm_min t, tm_hour = tm_hour t, tm_mday = tm_mday t, tm_mon = int (nat (tm_mon t)),
      tm_year = tm_year t + 1900 - 1900, tm_wday = (4 + tm_days t) mod 7, tm_yday = day_of_year t, tm_isdst = 0\<rparr>"
    using gmtime_r_eq [of ?s "tm_year t + 1900" "day_of_year t" "nat (tm_mon t)" "tm_mday t"] y unfolding d m n by blast
  then show ?thesis using assms by (simp add: valid_tm_def add.commute)
qed

section \<open>The text form\<close>

definition day_names :: "u8 list" where
  "day_names = [83, 117, 110, 32, 77, 111, 110, 32, 84, 117, 101, 32, 87, 101, 100, 32, 84, 104, 117, 32, 70, 114, 105, 32, 83, 97, 116, 32]"

definition month_names :: "u8 list" where
  "month_names = [74, 97, 110, 32, 70, 101, 98, 32, 77, 97, 114, 32, 65, 112, 114, 32, 77, 97, 121, 32, 74, 117, 110, 32,
     74, 117, 108, 32, 65, 117, 103, 32, 83, 101, 112, 32, 79, 99, 116, 32, 78, 111, 118, 32, 68, 101, 99, 32]"

definition num2str :: "int \<Rightarrow> u8 list" where
  "num2str i = [of_int (i sdiv 10 + 48), of_int (i smod 10 + 48)]"

text \<open>The 26 bytes of the buffer. A negative day of the week or month reads in front of its table.\<close>

definition asctime_text :: "u8 list \<Rightarrow> u8 list \<Rightarrow> tm \<Rightarrow> int \<Rightarrow> u8 list" where
  "asctime_text day mon t year =
     (let mday = num2str (tm_mday t);
          mday = (if hd mday = 48 then 32 # tl mday else mday)
      in day @ mon @ mday @ [32] @ num2str (tm_hour t) @ [58] @ num2str (tm_min t) @ [58] @ num2str (tm_sec t) @ [32]
         @ num2str (year sdiv 100) @ num2str (year smod 100) @ [10, 0])"

definition asctime_r :: "tm \<Rightarrow> u8 list option" where
  "asctime_r t =
     (if int (length day_names) \<le> tm_wday t * 4 \<or> int (length month_names) \<le> tm_mon t * 4 then
        Some (asctime_text (take 4 day_names) (take 4 month_names) t 2000)
      else if tm_wday t < 0 \<or> tm_mon t < 0 then None
      else Some (asctime_text (take 4 (drop (nat (tm_wday t * 4)) day_names)) (take 4 (drop (nat (tm_mon t * 4)) month_names)) t (tm_year t + 1900)))"

definition ctime_r :: "int \<Rightarrow> int \<Rightarrow> u8 list option" where
  "ctime_r tz t = asctime_r (localtime_r tz t)"

lemma ctime_r_length:
  assumes "0 \<le> t + tz * 3600" "t + tz * 3600 < 2 ^ 55"
  shows "\<exists>s. ctime_r tz t = Some s \<and> length s = 26 \<and> s ! 24 = 10 \<and> s ! 25 = 0"
proof -
  let ?t = "gmtime_r (t + tz * 3600)"
  note g = gmtime_r_effect [OF assms]
  have w: "0 \<le> tm_wday ?t" "tm_wday ?t < 7" by (simp_all add: g(4))
  have m: "0 \<le> tm_mon ?t" "tm_mon ?t \<le> 11" using g(1) by (simp_all add: valid_tm_def)
  have l: "length (asctime_text d mo x y) = 26 \<and> asctime_text d mo x y ! 24 = 10 \<and> asctime_text d mo x y ! 25 = 0"
    if "length d = 4" "length mo = 4" for d mo x y
    using that by (auto simp: asctime_text_def num2str_def Let_def nth_append)
  have "length (take 4 (drop (nat (tm_wday ?t * 4)) day_names)) = 4" "length (take 4 (drop (nat (tm_mon ?t * 4)) month_names)) = 4"
    using w m by (auto simp: day_names_def month_names_def)
  then show ?thesis using l w m by (auto simp: ctime_r_def localtime_r_def asctime_r_def day_names_def month_names_def)
qed

section \<open>The clock\<close>

text \<open>\<open>_timevalue\<close> is a pair of seconds and microseconds; the arithmetic on microseconds and nanoseconds is
  unsigned and 32 bits wide, as the constants are. \<open>RT_TICK_PER_SECOND\<close> is 1000. \<open>rtc\<close> is the time the clock
  device gives, if it is there and does, and \<open>rtc_set\<close> whether it takes the new time.\<close>

type_synonym timevalue = "int \<times> u32"

definition rt_clock_time_system_init :: "int option \<Rightarrow> u32 \<Rightarrow> int \<times> timevalue" where
  "rt_clock_time_system_init rtc tick =
     (case rtc of
        Some time \<Rightarrow> (0, (time - uint (tick div 1000) - 1, tick mod 1000 * 1000))
      | None \<Rightarrow> (- 1, (0, 0)))"

definition clock_getres :: "nat \<Rightarrow> (int \<times> u32) option" where
  "clock_getres clockid = (if clockid = 1 then Some (0, 1000000000 div 1000) else None)"

definition clock_gettime :: "nat \<Rightarrow> timevalue \<Rightarrow> u32 \<Rightarrow> (int \<times> u32) option" where
  "clock_gettime clockid tv tick =
     (if clockid = 1 then
        Some (fst tv + sint tick sdiv 1000, (snd tv + of_int (sint tick smod 1000) * 1000) * 1000)
      else None)"

definition clock_settime :: "nat \<Rightarrow> u32 \<Rightarrow> u32 \<Rightarrow> bool \<Rightarrow> timevalue \<Rightarrow> int \<times> timevalue" where
  "clock_settime clockid second tick rtc_set tv =
     (if clockid \<noteq> 1 then (- 1, tv)
      else (if rtc_set then 0 else - 1, (uint (second - tick div 1000 - 1), 1000000 - tick mod 1000 * 1000)))"

text \<open>\<open>now\<close> is what \<open>clock_gettime\<close> returns; a product that leaves the range of \<open>int\<close> wraps.\<close>

definition rt_timespec_to_tick :: "int \<times> u32 \<Rightarrow> int \<times> u32 \<Rightarrow> u32" where
  "rt_timespec_to_tick time now =
     (let (nsecond, second) =
        (if sint (snd time - snd now) < 0 then (1000000000 - (snd now - snd time), of_int (fst time - fst now - 1))
         else (snd time - snd now, of_int (fst time - fst now)));
          tick = second * 1000 + nsecond * 1000 div 1000000000
      in if sint tick < 0 then 0 else tick)"

section \<open>Properties\<close>

text \<open>
  C29. \<open>gmtime_r\<close> computes the Gregorian calendar: for every second from 1970 on, the result is a proper date
  and time whose seconds, counted year by year and month by month, are those it was given, with the
  right day of the week and of the year, and every field fits into an \<open>int\<close>.
\<close>

theorem gmtime_r_correct:
  assumes "0 \<le> t" "t < 2 ^ 55"
  shows "valid_tm (gmtime_r t) \<and> tm_seconds (gmtime_r t) = t \<and> tm_yday (gmtime_r t) = day_of_year (gmtime_r t)
    \<and> tm_wday (gmtime_r t) = (tm_days (gmtime_r t) + 4) mod 7 \<and> tm_year (gmtime_r t) < 2 ^ 31"
proof -
  have "t div 86400 \<le> 2 ^ 55 div 86400" using assms(2) by (intro zdiv_mono1) auto
  then show ?thesis using gmtime_r_effect [OF assms] by simp
qed

theorem gmtime_r_correct_witness:
  "tm_seconds (gmtime_r 1078012800) = 1078012800"
  using gmtime_r_correct [of 1078012800] by simp

text \<open>
  C21. \<open>timegm\<close> and \<open>gmtime_r\<close> are inverse to each other, and so are \<open>mktime\<close> and \<open>localtime_r\<close> in every time
  zone: the seconds of a time come back, and of every proper date from 1970 on, leap years and full
  centuries included, the date comes back with the day of the week and of the year filled in. The times
  are below \<open>2 ^ 55\<close> seconds and the years below \<open>2 ^ 31\<close>, so that no \<open>int\<close> wraps on the way.
\<close>

theorem timegm_gmtime_roundtrip:
  assumes "0 \<le> t" "t < 2 ^ 55" "valid_tm d" "tm_year d + 1900 < 2 ^ 31" "0 \<le> u + tz * 3600" "u + tz * 3600 < 2 ^ 55"
  shows "timegm (gmtime_r t) = Some (t, gmtime_r t)
    \<and> mktime tz (localtime_r tz u) = Some (u, localtime_r tz u)
    \<and> (case timegm d of None \<Rightarrow> False
        | Some (s, d') \<Rightarrow> s = tm_seconds d \<and> gmtime_r s = d'\<lparr>tm_isdst := 0\<rparr>
            \<and> d' = d\<lparr>tm_yday := day_of_year d, tm_wday := (tm_days d + 4) mod 7\<rparr>)"
proof -
  have r: "timegm (gmtime_r t) = Some (t, gmtime_r t)" if t: "0 \<le> t" "t < 2 ^ 55" for t
  proof -
    note g = gmtime_r_effect [OF t]
    have "t div 86400 \<le> 2 ^ 55 div 86400" using t(2) by (intro zdiv_mono1) auto
    then have y: "tm_year (gmtime_r t) + 1900 < 2 ^ 31" using g(6) by simp
    have "gmtime_r t\<lparr>tm_yday := day_of_year (gmtime_r t), tm_wday := (tm_days (gmtime_r t) + 4) mod 7\<rparr> = gmtime_r t"
      unfolding g(3,4) [symmetric] by simp
    then show ?thesis by (simp only: timegm_valid [OF g(1) y] g(2))
  qed
  have "mktime tz (localtime_r tz u) = Some (u, localtime_r tz u)"
    using r [OF assms(5,6)] by (simp add: mktime_def localtime_r_def)
  then show ?thesis using r [OF assms(1,2)] gmtime_r_seconds [OF assms(3,4)] by (simp add: timegm_valid [OF assms(3,4)])
qed

theorem timegm_gmtime_roundtrip_witness: "mktime 8 (localtime_r 8 951782400) = Some (951782400, localtime_r 8 951782400)"
proof -
  have "valid_tm \<lparr>tm_sec = 59, tm_min = 59, tm_hour = 23, tm_mday = 29, tm_mon = 1, tm_year = 100, tm_wday = 0, tm_yday = 0, tm_isdst = 0\<rparr>"
    by (simp add: valid_tm_def month_days_def tm_leap_def isleap_def)
  from timegm_gmtime_roundtrip [OF _ _ this, of 0 951782400 8] show ?thesis by simp
qed

text \<open>
  \<open>timegm\<close> does not normalise days that overflow their month: the 32nd to 59th of January, which stand for
  days of February, come out 31 days too late, because the carry takes nothing off and then counts
  January again; and the 13th month (\<open>tm_mon = 12\<close>) makes it read behind its table.
\<close>

theorem timegm_carry_wrong:
  assumes "valid_tm (d\<lparr>tm_mday := 1, tm_mon := 0\<rparr>)" "tm_year d + 1900 < 2 ^ 31" "tm_mon d = 0" "32 \<le> tm_mday d" "tm_mday d \<le> 59"
  shows "map_option fst (timegm d) = Some (tm_seconds (d\<lparr>tm_mday := tm_mday d - 31, tm_mon := 1\<rparr>) + 31 * 86400)
    \<and> timegm (d\<lparr>tm_mon := 12, tm_mday := 1\<rparr>) = None"
proof -
  have v: "0 \<le> tm_sec d" "tm_sec d < 60" "0 \<le> tm_min d" "tm_min d < 60" "0 \<le> tm_hour d" "tm_hour d < 24" "70 \<le> tm_year d"
    using assms(1) by (simp_all add: valid_tm_def)
  have "tm_carry (tm_mday d) 0 (tm_year d) = tm_carry (tm_mday d) 1 (tm_year d)" using assms(4) by (subst tm_carry.simps) simp
  also have "\<dots> = Some (tm_mday d, 1, tm_year d)" using assms(5) by (subst tm_carry.simps) simp
  finally have n: "tm_normalize d = Some (d\<lparr>tm_mon := 1\<rparr>)" using v assms(3) by (simp add: tm_normalize_def)
  have "tm_years_days (tm_year d - 70) = days_to_year (tm_year d + 1900)" using tm_years_days_correct [of "tm_year d + 1900"] v by simp
  moreover have "days_to_month l 1 = 31" for l by (simp add: days_to_month_start month_start_def)
  ultimately have "map_option fst (timegm d) = Some (tm_seconds (d\<lparr>tm_mday := tm_mday d - 31, tm_mon := 1\<rparr>) + 31 * 86400)"
    using v assms(2-5) by (simp add: timegm_def n Let_def tm_seconds_def tm_days_def day_of_year_def)
  moreover have "tm_carry 1 12 y = None" for y by (subst tm_carry.simps) simp
  then have "timegm (d\<lparr>tm_mon := 12, tm_mday := 1\<rparr>) = None" using v by (simp add: timegm_def tm_normalize_def)
  ultimately show ?thesis ..
qed

theorem timegm_carry_wrong_witness:
  "map_option fst (timegm \<lparr>tm_sec = 0, tm_min = 0, tm_hour = 0, tm_mday = 32, tm_mon = 0, tm_year = 70, tm_wday = 0, tm_yday = 0, tm_isdst = 0\<rparr>)
     = Some (31 * 86400 + 31 * 86400)"
  using timegm_carry_wrong [of "\<lparr>tm_sec = 0, tm_min = 0, tm_hour = 0, tm_mday = 32, tm_mon = 0, tm_year = 70, tm_wday = 0, tm_yday = 0, tm_isdst = 0\<rparr>"]
  by (simp add: valid_tm_def month_days_def tm_seconds_def tm_days_def days_to_year_def day_of_year_def days_to_month_def)

text \<open>
  \<open>rt_timespec_to_tick\<close> ignores the part of a wait below a second: a time that is later in the same
  second by any number of nanoseconds gives at most four ticks, where up to 999 are meant, because
  the product with the ticks of a second leaves the 32 bits before it is divided.
\<close>

theorem rt_timespec_to_tick_subsecond:
  assumes "snd now \<le> snd time" "snd time < 1000000000" "fst time = fst now"
  shows "rt_timespec_to_tick time now \<le> 4"
proof -
  let ?d = "snd time - snd now"
  have "unat ?d = unat (snd time) - unat (snd now)" using assms(1) by (rule unat_sub)
  then have "uint ?d < 2 ^ 31" using assms(2) by (simp add: uint_nat word_less_nat_alt)
  then have "signed_take_bit 31 (uint ?d) = uint ?d" by (intro signed_take_bit_int_eq_self) (auto intro: order_trans [of _ 0])
  then have d: "0 \<le> sint ?d" unfolding sint_uint by simp
  have "unat (?d * 1000) div 1000000000 \<le> 4294967295 div 1000000000"
    using unsigned_less [of "?d * 1000", where ?'a = nat] by (intro div_le_mono) (simp add: less_Suc_eq_le [symmetric] del: unsigned_less)
  then have "?d * 1000 div 1000000000 \<le> 4" by (simp add: word_le_nat_alt unat_div)
  then show ?thesis using assms(3) d by (simp add: rt_timespec_to_tick_def Let_def)
qed

theorem rt_timespec_to_tick_subsecond_witness: "rt_timespec_to_tick (7, 500000000) (7, 0) \<le> 4"
  using rt_timespec_to_tick_subsecond [of "(7, 0)" "(7, 500000000)"] by simp

end
