(* ===== verification/Pipe.thy ===== *)
theory Pipe
  imports Device Ipc_Mutex Ringbuffer Printf
begin

text \<open>
  Pipes, \<^verbatim>\<open>rt-thread/components/drivers/src/pipe.c\<close>: a device with a ring buffer between its readers and its
  writers, a mutex around it and a wait queue on each side. A call is a sequence of stages: between two
  stages the thread may lose the processor, because the stage took or released the mutex, woke somebody
  or waited. \<open>pipe_pc\<close> is what a thread in a call does next; the stages that take and release the mutex,
  wake and wait are the same for all calls (\<open>pipe_step\<close>), the others are one definition per function and stage.
  \<open>None\<close> is the use of a null pointer, or a heap call that does not return.
\<close>

section \<open>State\<close>

record rt_pipe =
  is_named :: bool
  fifo :: "(addr \<times> rt_ringbuffer) option"
  bufsz :: u16
  readers :: u8
  writers :: u8

record pipes = devices +
  pipe :: "addr \<Rightarrow> rt_pipe"
  pipe_mem :: memory
  pipeno :: u32

text \<open>The parts of the control block (156 bytes) that have an address of their own.\<close>

definition reader_queue :: "addr \<Rightarrow> addr" where "reader_queue p = p + 96"
definition writer_queue :: "addr \<Rightarrow> addr" where "writer_queue p = p + 108"
definition pipe_lock :: "addr \<Rightarrow> addr" where "pipe_lock p = p + 120"

definition upd_pipe :: "addr \<Rightarrow> (rt_pipe \<Rightarrow> rt_pipe) \<Rightarrow> 'a pipes_scheme \<Rightarrow> 'a pipes_scheme" where
  "upd_pipe p f k = k\<lparr>pipe := (pipe k)(p := f (pipe k p))\<rparr>"

abbreviation (input) RT_EINVAL :: int where "RT_EINVAL \<equiv> 10"
abbreviation (input) EAGAIN :: int where "EAGAIN \<equiv> 11"
abbreviation (input) EINVAL :: int where "EINVAL \<equiv> 22"
abbreviation (input) EPIPE :: int where "EPIPE \<equiv> 32"
abbreviation (input) POLLIN :: nat where "POLLIN \<equiv> 1"
abbreviation (input) POLLOUT :: nat where "POLLOUT \<equiv> 2"
abbreviation (input) POLLERR :: nat where "POLLERR \<equiv> 4"
abbreviation (input) POLLHUP :: nat where "POLLHUP \<equiv> 8"
abbreviation (input) O_ACCMODE :: u32 where "O_ACCMODE \<equiv> 3"
abbreviation (input) O_RDONLY :: u32 where "O_RDONLY \<equiv> 0"
abbreviation (input) O_WRONLY :: u32 where "O_WRONLY \<equiv> 1"
abbreviation (input) O_RDWR :: u32 where "O_RDWR \<equiv> 2"
abbreviation (input) O_NONBLOCK :: u32 where "O_NONBLOCK \<equiv> 0x800"
abbreviation (input) RT_Device_Class_Pipe :: nat where "RT_Device_Class_Pipe \<equiv> 16"
abbreviation (input) PIPE_BUFSZ :: int where "PIPE_BUFSZ \<equiv> 512"

section \<open>Stages\<close>

text \<open>\<open>Locked\<close> carries the locals of \<open>pipe_fops_write\<close>: \<open>ret\<close>, the bytes written, and \<open>wakeup\<close>. The node of a wait is
  a local variable of the thread; its name is an argument of \<open>pipe_step\<close>.\<close>

datatype pipe_pc =
    Take pipe_pc
  | Locked u32 bool
  | Unlock pipe_pc
  | Wake addr nat pipe_pc
  | Wait addr pipe_pc
  | Waiting addr pipe_pc
  | Closing_readers
  | Closing_fifo
  | Closed
  | Return int "u8 list"

type_synonym 'a stage = "(pipe_pc \<times> 'a pipes_scheme) option"

definition set_fifo :: "addr \<Rightarrow> (addr \<times> rt_ringbuffer) option \<Rightarrow> 'a pipes_scheme \<Rightarrow> 'a pipes_scheme" where
  "set_fifo p f k = upd_pipe p (\<lambda>v. v\<lparr>fifo := f\<rparr>) k"

text \<open>\<^verbatim>\<open>pipe->fifo = rt_ringbuffer_create(pipe->bufsz)\<close>; \<open>raw\<close> is what the memory of the control block held before.\<close>

definition pipe_fifo_create :: "rt_ringbuffer \<Rightarrow> addr \<Rightarrow> 'a pipes_scheme \<Rightarrow> 'a pipes_scheme option" where
  "pipe_fifo_create raw p k =
     map_option (\<lambda>(f, h). set_fifo p f (k\<lparr>dev_heap := h\<rparr>)) (rt_ringbuffer_create (bufsz (pipe k p)) raw (dev_heap k))"

definition pipe_fifo_destroy :: "addr \<Rightarrow> 'a pipes_scheme \<Rightarrow> 'a pipes_scheme option" where
  "pipe_fifo_destroy p k =
     (case fifo (pipe k p) of
        None \<Rightarrow> None
      | Some f \<Rightarrow> map_option (\<lambda>h. set_fifo p None (k\<lparr>dev_heap := h\<rparr>)) (rt_ringbuffer_destroy f (dev_heap k)))"

section \<open>File operations\<close>

definition pipe_fops_open :: "addr option \<Rightarrow> pipe_pc" where
  "pipe_fops_open data = (case data of None \<Rightarrow> Return (- 1) [] | Some p \<Rightarrow> Take (Locked 0 False))"

definition count_open :: "u32 \<Rightarrow> rt_pipe \<Rightarrow> rt_pipe" where
  "count_open flags v =
     (let mode = flags AND O_ACCMODE
      in if mode = O_RDONLY then v\<lparr>readers := readers v + 1\<rparr>
         else if mode = O_WRONLY then v\<lparr>writers := writers v + 1\<rparr>
         else if mode = O_RDWR then v\<lparr>readers := readers v + 1, writers := writers v + 1\<rparr>
         else v)"

definition pipe_fops_open_locked :: "rt_ringbuffer \<Rightarrow> addr \<Rightarrow> u32 \<Rightarrow> 'a pipes_scheme \<Rightarrow> 'a stage" where
  "pipe_fops_open_locked raw p flags k =
     (let opened = (\<lambda>k. (Unlock (Return 0 []), upd_device p (\<lambda>d. d\<lparr>ref_count := ref_count d + 1\<rparr>) (upd_pipe p (count_open flags) k)))
      in if ref_count (device k p) = 0 then
           map_option (\<lambda>k. if fifo (pipe k p) = None then (Unlock (Return (- RT_ENOMEM) []), k) else opened k) (pipe_fifo_create raw p k)
         else Some (opened k))"

definition pipe_fops_close :: "addr option \<Rightarrow> pipe_pc" where
  "pipe_fops_close data = (case data of None \<Rightarrow> Return (- 1) [] | Some p \<Rightarrow> Take (Locked 0 False))"

definition count_close :: "u32 \<Rightarrow> rt_pipe \<Rightarrow> rt_pipe" where
  "count_close flags v =
     (let mode = flags AND O_ACCMODE
      in if mode = O_RDONLY then v\<lparr>readers := readers v - 1\<rparr>
         else if mode = O_WRONLY then v\<lparr>writers := writers v - 1\<rparr>
         else if mode = O_RDWR then v\<lparr>readers := readers v - 1, writers := writers v - 1\<rparr>
         else v)"

definition pipe_fops_close_locked :: "addr \<Rightarrow> u32 \<Rightarrow> 'a pipes_scheme \<Rightarrow> 'a stage" where
  "pipe_fops_close_locked p flags k =
     (let k = upd_pipe p (count_close flags) k
      in Some (if writers (pipe k p) = 0 then Wake (reader_queue p) (POLLIN + POLLERR + POLLHUP) Closing_readers else Closing_readers, k))"

definition pipe_fops_close_readers :: "addr \<Rightarrow> 'a pipes_scheme \<Rightarrow> 'a stage" where
  "pipe_fops_close_readers p k =
     Some (if readers (pipe k p) = 0 then Wake (writer_queue p) (POLLOUT + POLLERR + POLLHUP) Closing_fifo else Closing_fifo, k)"

definition pipe_fops_close_fifo :: "addr \<Rightarrow> 'a pipes_scheme \<Rightarrow> 'a stage" where
  "pipe_fops_close_fifo p k =
     map_option (\<lambda>k. (Unlock Closed, upd_device p (\<lambda>d. d\<lparr>ref_count := ref_count d - 1\<rparr>) k))
       (if ref_count (device k p) = 1 \<and> fifo (pipe k p) \<noteq> None then pipe_fifo_destroy p k else Some k)"

definition pipe_fops_ioctl :: "addr \<Rightarrow> u32 \<Rightarrow> 'a pipes_scheme \<Rightarrow> (int \<times> u32 option) option" where
  "pipe_fops_ioctl p cmd k =
     (if cmd = 0x8004667F then map_option (\<lambda>f. (0, Some (rt_ringbuffer_data_len (snd f)))) (fifo (pipe k p))
      else if cmd = 0x80046679 then map_option (\<lambda>f. (0, Some (rt_ringbuffer_space_len (snd f)))) (fifo (pipe k p))
      else Some (- EINVAL, None))"

definition pipe_fops_read :: "addr \<Rightarrow> 'a pipes_scheme \<Rightarrow> pipe_pc" where
  "pipe_fops_read p k = (if writers (pipe k p) = 0 then Return 0 [] else Take (Locked 0 False))"

definition pipe_fops_read_locked :: "addr \<Rightarrow> u32 \<Rightarrow> u32 \<Rightarrow> 'a pipes_scheme \<Rightarrow> 'a stage" where
  "pipe_fops_read_locked p flags count k =
     (if writers (pipe k p) = 0 then Some (Unlock (Return 0 []), k)
      else case fifo (pipe k p) of
        None \<Rightarrow> None
      | Some (a, rb) \<Rightarrow>
          (case rt_ringbuffer_get (ucast count) (rb, pipe_mem k) of ((len, bs), rb, m) \<Rightarrow>
             let k = set_fifo p (Some (a, rb)) (k\<lparr>pipe_mem := m\<rparr>)
             in Some (if sint len > 0 then Wake (writer_queue p) POLLOUT (Unlock (Return (sint len) bs))
                      else if flags AND O_NONBLOCK \<noteq> 0 then Unlock (Return (- EAGAIN) [])
                      else Unlock (Wake (writer_queue p) POLLOUT (Wait (reader_queue p) (Take (Locked 0 False)))), k)))"

definition pipe_fops_write :: "addr \<Rightarrow> u32 \<Rightarrow> 'a pipes_scheme \<Rightarrow> pipe_pc" where
  "pipe_fops_write p count k =
     (if readers (pipe k p) = 0 then Return (- EPIPE) []
      else if count = 0 then Return 0 []
      else Take (Locked 0 False))"

text \<open>The end of \<open>pipe_fops_write\<close>, from the last release on.\<close>

definition write_out :: "addr \<Rightarrow> int \<Rightarrow> bool \<Rightarrow> pipe_pc" where
  "write_out p ret wakeup = Unlock (if wakeup then Wake (reader_queue p) POLLIN (Return ret []) else Return ret [])"

definition pipe_fops_write_locked :: "addr \<Rightarrow> u32 \<Rightarrow> (nat \<Rightarrow> u8) \<Rightarrow> u32 \<Rightarrow> u32 \<Rightarrow> bool \<Rightarrow> 'a pipes_scheme \<Rightarrow> 'a stage" where
  "pipe_fops_write_locked p flags buf count ret wakeup k =
     (if readers (pipe k p) = 0 then Some (write_out p (if ret = 0 then - EPIPE else sint ret) wakeup, k)
      else case fifo (pipe k p) of
        None \<Rightarrow> None
      | Some (a, rb) \<Rightarrow>
          (case rt_ringbuffer_put (\<lambda>i. buf (unat ret + i)) (ucast (count - ret)) (rb, pipe_mem k) of (len, rb, m) \<Rightarrow>
             let k = set_fifo p (Some (a, rb)) (k\<lparr>pipe_mem := m\<rparr>); ret = ret + len
             in Some (if ret = count then write_out p (sint ret) True
                      else if flags AND O_NONBLOCK \<noteq> 0 then write_out p (if ret = 0 then - EAGAIN else sint ret) True
                      else Unlock (Wake (reader_queue p) POLLIN (Wait (writer_queue p) (Take (Locked ret True)))), k)))"

text \<open>\<open>poll_add q\<close> is \<open>rt_poll_add\<close> of the request on the queue \<open>q\<close>: it calls the function of the request, if any.\<close>

definition pipe_fops_poll :: "(addr \<Rightarrow> 'a pipes_scheme \<Rightarrow> 'a pipes_scheme) \<Rightarrow> addr \<Rightarrow> u32 \<Rightarrow> 'a pipes_scheme \<Rightarrow> (nat \<times> 'a pipes_scheme) option" where
  "pipe_fops_poll poll_add p flags k =
     (let k = poll_add (writer_queue p) (poll_add (reader_queue p) k);
          mode = flags AND O_ACCMODE; rd = (mode = O_RDONLY \<or> mode = O_RDWR); wr = (mode = O_WRONLY \<or> mode = O_RDWR)
      in if \<not> rd \<and> \<not> wr then Some (0, k)
         else case fifo (pipe k p) of
           None \<Rightarrow> None
         | Some (_, rb) \<Rightarrow> Some
             ((if rd \<and> rt_ringbuffer_data_len rb \<noteq> 0 then POLLIN else 0) + (if rd \<and> writers (pipe k p) = 0 then POLLHUP else 0)
              + (if wr \<and> rt_ringbuffer_space_len rb \<noteq> 0 then POLLOUT else 0) + (if wr \<and> readers (pipe k p) = 0 then POLLERR else 0), k))"

section \<open>Device operations\<close>

definition rt_pipe_open :: "addr option \<Rightarrow> pipe_pc" where
  "rt_pipe_open dev = (case dev of None \<Rightarrow> Return (- RT_EINVAL) [] | Some p \<Rightarrow> Take (Locked 0 False))"

definition rt_pipe_open_locked :: "rt_ringbuffer \<Rightarrow> addr \<Rightarrow> 'a pipes_scheme \<Rightarrow> 'a stage" where
  "rt_pipe_open_locked raw p k =
     (if fifo (pipe k p) = None then
        map_option (\<lambda>k. (Unlock (Return (if fifo (pipe k p) = None then - RT_ENOMEM else RT_EOK) []), k)) (pipe_fifo_create raw p k)
      else Some (Unlock (Return RT_EOK []), k))"

definition rt_pipe_close :: "addr option \<Rightarrow> pipe_pc" where
  "rt_pipe_close dev = (case dev of None \<Rightarrow> Return (- RT_EINVAL) [] | Some p \<Rightarrow> Take (Locked 0 False))"

definition rt_pipe_close_locked :: "addr \<Rightarrow> 'a pipes_scheme \<Rightarrow> 'a stage" where
  "rt_pipe_close_locked p k =
     map_option (\<lambda>k. (Unlock (Return RT_EOK []), k)) (if ref_count (device k p) = 1 then pipe_fifo_destroy p k else Some k)"

definition rt_pipe_read :: "addr option \<Rightarrow> u32 \<Rightarrow> 'a pipes_scheme \<Rightarrow> pipe_pc \<times> 'a pipes_scheme" where
  "rt_pipe_read dev count k =
     (case dev of
        None \<Rightarrow> (Return 0 [], rt_set_errno EINVAL k)
      | Some p \<Rightarrow> (if count = 0 then Return 0 [] else Take (Locked 0 False), k))"

definition rt_pipe_write :: "addr option \<Rightarrow> u32 \<Rightarrow> 'a pipes_scheme \<Rightarrow> pipe_pc \<times> 'a pipes_scheme" where
  "rt_pipe_write dev count k =
     (case dev of
        None \<Rightarrow> (Return 0 [], rt_set_errno EINVAL k)
      | Some p \<Rightarrow> (if count = 0 then Return 0 [] else Take (Locked 0 False), k))"

text \<open>The loops of \<open>rt_pipe_read\<close> and \<open>rt_pipe_write\<close>: a get or put never moves more than it was asked to.\<close>

lemma unat_widen: "unat (ucast (x :: u16) :: u32) = unat x"
proof -
  have "unat x < 65536" using unsigned_less [of x] by simp
  then show ?thesis by (simp add: unsigned_ucast_eq take_bit_nat_eq_self)
qed

lemma unat_narrow: "unat (ucast (x :: u32) :: u16) \<le> unat x"
  by (simp add: unsigned_ucast_eq)

lemma get_at_most:
  assumes "rt_ringbuffer_get len s = ((n, bs), s')"
  shows "unat n \<le> unat len"
proof -
  define sz where "sz = rt_ringbuffer_data_len (fst s)"
  define l where "l = (if sz < ucast len then ucast sz else len)"
  have "unat l \<le> unat len" using unat_narrow [of sz] by (auto simp: l_def word_less_nat_alt unat_widen)
  moreover have "n = 0 \<or> n = ucast l"
    using assms by (cases s) (auto simp: rt_ringbuffer_get_def Let_def l_def sz_def split: if_splits)
  ultimately show ?thesis by (auto simp: unat_widen)
qed

lemma put_at_most:
  assumes "rt_ringbuffer_put ptr len s = (n, s')"
  shows "unat n \<le> unat len"
proof -
  define sz where "sz = (ucast (rt_ringbuffer_space_len (fst s)) :: u16)"
  define l where "l = (if sz < len then sz else len)"
  have "unat l \<le> unat len" by (auto simp: l_def word_less_nat_alt)
  moreover have "n = 0 \<or> n = ucast l"
    using assms by (cases s) (auto simp: rt_ringbuffer_put_def Let_def l_def sz_def split: if_splits)
  ultimately show ?thesis by (auto simp: unat_widen)
qed

function pipe_get_loop :: "u32 \<Rightarrow> u32 \<Rightarrow> rt_ringbuffer \<times> memory \<Rightarrow> (u32 \<times> u8 list) \<times> rt_ringbuffer \<times> memory" where
  "pipe_get_loop count read_bytes s =
     (if read_bytes < count then
        (case rt_ringbuffer_get (ucast (count - read_bytes)) s of ((len, bs), s) \<Rightarrow>
           if sint len \<le> 0 then ((read_bytes, []), s)
           else case pipe_get_loop count (read_bytes + len) s of ((n, cs), s) \<Rightarrow> ((n, bs @ cs), s))
      else ((read_bytes, []), s))"
  by pat_completeness auto

function pipe_put_loop :: "(nat \<Rightarrow> u8) \<Rightarrow> u32 \<Rightarrow> u32 \<Rightarrow> rt_ringbuffer \<times> memory \<Rightarrow> u32 \<times> rt_ringbuffer \<times> memory" where
  "pipe_put_loop buf count write_bytes s =
     (if write_bytes < count then
        (case rt_ringbuffer_put (\<lambda>i. buf (unat write_bytes + i)) (ucast (count - write_bytes)) s of (len, s) \<Rightarrow>
           if sint len \<le> 0 then (write_bytes, s) else pipe_put_loop buf count (write_bytes + len) s)
      else (write_bytes, s))"
  by pat_completeness auto

lemma progress:
  fixes n len count :: u32
  assumes "n < count" "unat len \<le> unat (ucast (count - n) :: u16)" "0 < sint len"
  shows "unat (count - (n + len)) < unat (count - n)"
proof -
  have "unat (ucast (count - n) :: u16) \<le> unat (count - n)" by (simp add: unsigned_ucast_eq)
  then have le: "unat len \<le> unat (count - n)" using assms(2) by simp
  have "unat len \<noteq> 0" using assms(3) by (metis less_irrefl signed_0 unat_eq_zero)
  moreover have "unat (count - n - len) = unat (count - n) - unat len" using le by (simp add: unat_sub word_le_nat_alt)
  moreover have "count - (n + len) = count - n - len" by simp
  ultimately show ?thesis using le by (metis diff_less le_zero_eq not_gr_zero)
qed

termination pipe_get_loop
  by (relation "measure (\<lambda>(count, n, _). unat (count - n))") (auto intro!: progress dest: get_at_most [OF sym])

termination pipe_put_loop
  by (relation "measure (\<lambda>(_, count, n, _). unat (count - n))") (auto intro!: progress dest: put_at_most [OF sym])

declare pipe_get_loop.simps [simp del] pipe_put_loop.simps [simp del]

definition rt_pipe_read_locked :: "addr \<Rightarrow> u32 \<Rightarrow> 'a pipes_scheme \<Rightarrow> 'a stage" where
  "rt_pipe_read_locked p count k =
     map_option (\<lambda>(a, rb). case pipe_get_loop count 0 (rb, pipe_mem k) of ((n, bs), rb, m) \<Rightarrow>
         (Unlock (Return (uint n) bs), set_fifo p (Some (a, rb)) (k\<lparr>pipe_mem := m\<rparr>))) (fifo (pipe k p))"

definition rt_pipe_write_locked :: "addr \<Rightarrow> (nat \<Rightarrow> u8) \<Rightarrow> u32 \<Rightarrow> 'a pipes_scheme \<Rightarrow> 'a stage" where
  "rt_pipe_write_locked p buf count k =
     map_option (\<lambda>(a, rb). case pipe_put_loop buf count 0 (rb, pipe_mem k) of (n, rb, m) \<Rightarrow>
         (Unlock (Return (uint n) []), set_fifo p (Some (a, rb)) (k\<lparr>pipe_mem := m\<rparr>))) (fifo (pipe k p))"

definition rt_pipe_control :: "addr \<Rightarrow> int \<Rightarrow> addr \<Rightarrow> 'a pipes_scheme \<Rightarrow> rt_err \<times> 'a pipes_scheme" where
  "rt_pipe_control d cmd args k = (RT_EOK, k)"

section \<open>Creation and deletion\<close>

text \<open>The driver functions of a pipe by name.\<close>

definition pipe_driver_ids :: "rt_device \<Rightarrow> rt_device" where
  "pipe_driver_ids d = d\<lparr>device_init := None, device_open := Some 0, device_read := Some 0, device_write := Some 0,
     device_close := Some 0, device_control := Some 0, rx_indicate := None, tx_complete := None\<rparr>"

text \<open>The control block is cleared, the objects and queues in it with it.\<close>

definition zero_pipe :: "addr \<Rightarrow> 'a pipes_scheme \<Rightarrow> 'a pipes_scheme" where
  "zero_pipe p k =
     (let k = upd_object (Ipc_obj (pipe_lock p)) (\<lambda>_. zero_object) (upd_object (Ipc_obj p) (\<lambda>_. zero_object) k);
          k = upd_mutex (pipe_lock p) (\<lambda>_. \<lparr>mutex_value = 0, original_priority = 0, hold = 0, owner = None\<rparr>) k;
          k = set_wq_flag (writer_queue p) 0 (set_wq_flag (reader_queue p) 0 (set_wq_flag p 0 k));
          k = k\<lparr>waiting_list := (waiting_list k)(p := [], reader_queue p := [], writer_queue p := [])\<rparr>;
          k = upd_device p (\<lambda>_. zero_device) k
      in upd_pipe p (\<lambda>_. \<lparr>is_named = False, fifo = None, bufsz = 0, readers = 0, writers = 0\<rparr>) k)"

definition rt_pipe_create :: "cstring \<Rightarrow> int \<Rightarrow> 'a pipes_scheme \<Rightarrow> (addr option \<times> 'a pipes_scheme) option" where
  "rt_pipe_create name sz k =
     (case rt_malloc 156 (dev_heap k) of
        None \<Rightarrow> None
      | Some (None, h) \<Rightarrow> Some (None, k\<lparr>dev_heap := h\<rparr>)
      | Some (Some p, h) \<Rightarrow>
          let k = zero_pipe p (k\<lparr>dev_heap := h\<rparr>);
              k = upd_pipe p (\<lambda>v. v\<lparr>is_named := True\<rparr>) k;
              k = rt_mutex_init (pipe_lock p) name RT_IPC_FLAG_FIFO k;
              k = rt_wqueue_init (writer_queue p) (rt_wqueue_init (reader_queue p) k);
              k = upd_pipe p (\<lambda>v. v\<lparr>bufsz := word_of_int sz\<rparr>) k;
              k = upd_device p (\<lambda>d. pipe_driver_ids (d\<lparr>dev_type := RT_Device_Class_Pipe\<rparr>)) k
          in (case rt_device_register (Some p) name 0x7 k of (r, k) \<Rightarrow>
                if r \<noteq> 0 then map_option (\<lambda>h. (None, k\<lparr>dev_heap := h\<rparr>)) (rt_free (Some p) (dev_heap k))
                else Some (Some p, upd_device p (\<lambda>d. d\<lparr>fops := Some 0\<rparr>) k)))"

definition rt_pipe_delete :: "cstring \<Rightarrow> 'a pipes_scheme \<Rightarrow> (int \<times> 'a pipes_scheme) option" where
  "rt_pipe_delete name k =
     (case rt_device_find (Some name) k of
        (None, k) \<Rightarrow> Some (- RT_EINVAL, k)
      | (Some p, k) \<Rightarrow>
          if dev_type (device k p) \<noteq> RT_Device_Class_Pipe then Some (- RT_EINVAL, k)
          else if ref_count (device k p) \<noteq> 0 then Some (- RT_EBUSY, k)
          else Option.bind (rt_mutex_detach (pipe_lock p) k) (\<lambda>k.
            let k = snd (rt_device_unregister p k)
            in Option.bind (if fifo (pipe k p) = None then Some k else pipe_fifo_destroy p k) (\<lambda>k.
                 map_option (\<lambda>h. (0, k\<lparr>dev_heap := h\<rparr>)) (rt_free (Some p) (dev_heap k)))))"

definition pipe_fops_close_closed :: "addr \<Rightarrow> 'a pipes_scheme \<Rightarrow> 'a stage" where
  "pipe_fops_close_closed p k =
     (if ref_count (device k p) = 0 \<and> \<not> is_named (pipe k p)
      then map_option (\<lambda>(_, k). (Return 0 [], k)) (rt_pipe_delete (obj_name (object k (Ipc_obj p))) k)
      else Some (Return 0 [], k))"

text \<open>\<^verbatim>\<open>pipe(fildes)\<close> and \<^verbatim>\<open>mkfifo\<close>. \<open>open_file\<close> and \<open>close_file\<close> are the file system's calls, \<open>pipeno\<close> counts the
  pipes; \<open>pipe_name\<close> is what \<open>rt_snprintf\<close> leaves in the local \<open>dname\<close>.\<close>

definition pipe_name :: "u32 \<Rightarrow> cstring option" where
  "pipe_name no =
     map_option (\<lambda>(_, m). takeWhile (\<lambda>c. c \<noteq> 0) (map m [8..<16])) (rt_snprintf 8 8 (map ascii ''pipe%d'') [Va_word no] (\<lambda>_. 0))"

definition pipe_call ::
  "(cstring \<Rightarrow> u32 \<Rightarrow> 'a pipes_scheme \<Rightarrow> int \<times> 'a pipes_scheme) \<Rightarrow> (int \<Rightarrow> 'a pipes_scheme \<Rightarrow> 'a pipes_scheme) \<Rightarrow> 'a pipes_scheme
    \<Rightarrow> ((int \<times> int list) \<times> 'a pipes_scheme) option" where
  "pipe_call open_file close_file k =
     Option.bind (pipe_name (pipeno k)) (\<lambda>dname.
     let k = k\<lparr>pipeno := pipeno k + 1\<rparr>
     in case rt_pipe_create dname PIPE_BUFSZ k of
           None \<Rightarrow> None
         | Some (None, k) \<Rightarrow> Some ((- 1, []), k)
         | Some (Some p, k) \<Rightarrow>
             let k = upd_pipe p (\<lambda>v. v\<lparr>is_named := False\<rparr>) k; dev_name = map ascii ''/dev/'' @ dname
             in Some (case open_file dev_name O_RDONLY k of (fd0, k) \<Rightarrow>
                  if fd0 < 0 then ((- 1, [fd0]), k)
                  else case open_file dev_name O_WRONLY k of (fd1, k) \<Rightarrow>
                    if fd1 < 0 then ((- 1, [fd0, fd1]), close_file fd0 k) else ((0, [fd0, fd1]), k)))"

definition mkfifo :: "cstring \<Rightarrow> 'a pipes_scheme \<Rightarrow> (int \<times> 'a pipes_scheme) option" where
  "mkfifo path k = map_option (\<lambda>(r, k). (if r = None then - 1 else 0, k)) (rt_pipe_create path PIPE_BUFSZ k)"

section \<open>Calls\<close>

datatype pipe_op =
    Fops_open u32
  | Fops_close u32
  | Fops_read u32 u32
  | Fops_write u32 "nat \<Rightarrow> u8" u32
  | Dev_open
  | Dev_close
  | Dev_read u32
  | Dev_write "nat \<Rightarrow> u8" u32

definition pipe_enter :: "addr \<Rightarrow> pipe_op \<Rightarrow> 'a pipes_scheme \<Rightarrow> pipe_pc" where
  "pipe_enter p oper k = (case oper of
     Fops_open flags \<Rightarrow> pipe_fops_open (Some p) | Fops_close flags \<Rightarrow> pipe_fops_close (Some p)
   | Fops_read flags count \<Rightarrow> pipe_fops_read p k | Fops_write flags buf count \<Rightarrow> pipe_fops_write p count k
   | Dev_open \<Rightarrow> rt_pipe_open (Some p) | Dev_close \<Rightarrow> rt_pipe_close (Some p)
   | Dev_read count \<Rightarrow> fst (rt_pipe_read (Some p) count k) | Dev_write buf count \<Rightarrow> fst (rt_pipe_write (Some p) count k))"

definition pipe_locked :: "rt_ringbuffer \<Rightarrow> addr \<Rightarrow> pipe_op \<Rightarrow> u32 \<Rightarrow> bool \<Rightarrow> 'a pipes_scheme \<Rightarrow> 'a stage" where
  "pipe_locked raw p oper ret wakeup k = (case oper of
     Fops_open flags \<Rightarrow> pipe_fops_open_locked raw p flags k | Fops_close flags \<Rightarrow> pipe_fops_close_locked p flags k
   | Fops_read flags count \<Rightarrow> pipe_fops_read_locked p flags count k
   | Fops_write flags buf count \<Rightarrow> pipe_fops_write_locked p flags buf count ret wakeup k
   | Dev_open \<Rightarrow> rt_pipe_open_locked raw p k | Dev_close \<Rightarrow> rt_pipe_close_locked p k
   | Dev_read count \<Rightarrow> rt_pipe_read_locked p count k | Dev_write buf count \<Rightarrow> rt_pipe_write_locked p buf count k)"

definition pipe_step :: "rt_ringbuffer \<Rightarrow> int \<Rightarrow> 'a pipes_ext devices_ext wakeup_fn \<Rightarrow> addr \<Rightarrow> nat \<Rightarrow> pipe_op \<Rightarrow> pipe_pc \<Rightarrow> 'a pipes_scheme \<Rightarrow> 'a stage" where
  "pipe_step raw tps wakef p n oper pc k = (case pc of
     Take next \<Rightarrow> Some (next, snd (rt_mutex_take (pipe_lock p) (- 1) k))
   | Locked ret wakeup \<Rightarrow> pipe_locked raw p oper ret wakeup k
   | Unlock next \<Rightarrow> Some (next, snd (rt_mutex_release (pipe_lock p) k))
   | Wake q key next \<Rightarrow> Some (next, rt_wqueue_wakeup wakef q key k)
   | Wait q next \<Rightarrow> (case rt_wqueue_wait tps q n 0 (- 1) k of
       (Wq_returns _, k) \<Rightarrow> Some (next, k) | (Wq_blocks, k) \<Rightarrow> Some (Waiting q next, k) | (Wq_faults, k) \<Rightarrow> None)
   | Waiting q next \<Rightarrow> Some (next, snd (rt_wqueue_wait_end q n k))
   | Closing_readers \<Rightarrow> pipe_fops_close_readers p k
   | Closing_fifo \<Rightarrow> pipe_fops_close_fifo p k
   | Closed \<Rightarrow> pipe_fops_close_closed p k
   | Return r bs \<Rightarrow> Some (Return r bs, k))"

end
