(* ===== verification/Pipe_Run.thy ===== *)
theory Pipe_Run
  imports Pipe
begin

text \<open>
  Runs of a pipe: any number of threads open, close, read and write it at the same time. A step of a run is
  one stage of a call of the running thread (\<open>pipe_step\<close>), and between the steps the rest of the system does
  what it likes with everything but the pipe. Shown are mutual exclusion and that no byte is lost, doubled
  or put out of order.
\<close>

section \<open>The lock\<close>

text \<open>The threads that hold the lock or have been queued for it.\<close>

definition lock_users :: "addr \<Rightarrow> 'a ipc_scheme \<Rightarrow> tid set" where
  "lock_users a k = {t. owner (mutex k a) = Some t} \<union> set (tlist k (Suspended a))"

definition lock_ok :: "addr \<Rightarrow> 'a ipc_scheme \<Rightarrow> bool" where
  "lock_ok a k \<longleftrightarrow> kernel_inv k \<and> mutex_inv a k \<and> ipc_flag k a \<in> {RT_IPC_FLAG_FIFO, RT_IPC_FLAG_PRIO}
     \<and> (owner (mutex k a) \<noteq> None \<longrightarrow> hold (mutex k a) = 1)"

text \<open>Steps that leave the lock alone.\<close>

definition lock_same :: "addr \<Rightarrow> 'a ipc_scheme \<Rightarrow> 'a ipc_scheme \<Rightarrow> bool" where
  "lock_same a k k' \<longleftrightarrow> kernel_inv k' \<and> mutex k' a = mutex k a \<and> tlist k' (Suspended a) = tlist k (Suspended a) \<and> ipc_flag k' a = ipc_flag k a"

lemma lock_sameD: "lock_same a k k' \<Longrightarrow> lock_ok a k \<Longrightarrow> lock_ok a k'" "lock_same a k k' \<Longrightarrow> lock_users a k' = lock_users a k"
  by (auto simp: lock_same_def lock_ok_def lock_users_def mutex_inv_def split: option.splits)

lemma lock_same_trans: "lock_same a k k' \<Longrightarrow> lock_same a k' k'' \<Longrightarrow> lock_same a k k''"
  by (simp add: lock_same_def)

text \<open>A thread that runs is not queued for anything.\<close>

lemma running_not_queued: "kernel_inv k \<Longrightarrow> tstat k t = 3 \<Longrightarrow> t \<notin> set (tlist k (Suspended a))"
  using rq_waiting(1) [of k t a] by (auto simp: kernel_inv_def sched_inv_def)

text \<open>Timer flags live in the objects of the timers; the objects of the IPC objects are left alone.\<close>

lemma timer_ops_object [simp]:
  "object (upd_timer_flag y f k) (Ipc_obj x) = object k (Ipc_obj x)" "object (snd (rt_timer_stop y k)) (Ipc_obj x) = object k (Ipc_obj x)"
  "object (timer_enqueue y k) (Ipc_obj x) = object k (Ipc_obj x)" "object (snd (rt_timer_control y c v k)) (Ipc_obj x) = object k (Ipc_obj x)"
  by (simp_all add: upd_timer_flag_def rt_timer_stop_def timer_enqueue_def rt_timer_control_def Let_def)

lemma switch_object [simp]:
  "object (snd (rt_thread_resume t k)) (Ipc_obj x) = object k (Ipc_obj x)" "object (snd (rt_thread_suspend t k)) (Ipc_obj x) = object k (Ipc_obj x)"
  by (simp_all add: rt_thread_resume_def rt_thread_suspend_def Let_def)

lemma timer_start_object [simp]: "object (rt_timer_start y k) (Ipc_obj x) = object k (Ipc_obj x)"
  by (simp add: rt_timer_start_def Let_def)

lemma ipc_object [simp]:
  "object (ipc_list_suspend l t fl k) (Ipc_obj x) = object k (Ipc_obj x)" "object (ipc_wait l t fl time k) (Ipc_obj x) = object k (Ipc_obj x)"
  "object (ipc_list_resume l k) (Ipc_obj x) = object k (Ipc_obj x)" "object (wq_suspend t tick k) (Ipc_obj x) = object k (Ipc_obj x)"
  by (simp_all add: ipc_list_suspend_def ipc_wait_def wait_timer_def ipc_list_resume_def wq_suspend_def Let_def split: list.split)

lemma ipc_flag_frame [simp]:
  "ipc_flag (rt_schedule k) = ipc_flag k" "ipc_flag (snd (rt_thread_resume t k)) = ipc_flag k"
  "ipc_flag (ipc_wait l t fl time k) = ipc_flag k" "ipc_flag (ipc_list_resume l k) = ipc_flag k" "ipc_flag (wq_suspend t tick k) = ipc_flag k"
  by (simp_all add: ipc_flag_def fun_eq_iff)

lemma set_wait_place [simp]: "set (wait_place fl p t us) = insert t (set us)"
  by (simp add: wait_place_def)

lemma take_waits:
  fixes k :: "'a ipc_scheme" and time :: int and ow :: tid and b :: bool
  assumes k: "kernel_inv k" and c: "tstat k t = 3" and f: "ipc_flag k a \<in> {0, 1}" and p: "unat (current_priority (thread k t)) < 32"
  defines "k1 \<equiv> upd_thread t (\<lambda>th. th\<lparr>error := 0\<rparr>) k"
  defines "k2 \<equiv> (if b then change_priority ow (current_priority (thread k t)) k1 else k1)"
  defines "k' \<equiv> rt_schedule (ipc_wait (Suspended a) t (ipc_flag k a) time k2)"
  shows "set (tlist k' (Suspended a)) = insert t (set (tlist k (Suspended a)))" "ipc_flag k' = ipc_flag k" "kernel.more k' = kernel.more k"
proof -
  note e = set_error_inv [OF k, of t 0]
  have i1: "kernel_inv k1" "tstat k1 = tstat k" using e by (simp_all add: k1_def)
  note cp = change_priority_effect [OF i1(1), where t = ow and p = "current_priority (thread k t)"]
  have i2: "kernel_inv k2" "tstat k2 t = 3" "tlist k2 (Suspended a) = tlist k (Suspended a)" "ipc_flag k2 = ipc_flag k"
    using i1 cp(1,3,4) change_priority_kernel_inv [OF i1(1) p] c by (simp_all add: k2_def) (simp_all add: k1_def)
  note w = ipc_wait_effect [OF i2(1,2) wait_list_simps(1) [of a] f, of time]
  show "set (tlist k' (Suspended a)) = insert t (set (tlist k (Suspended a)))"
    using wait_lists_schedule(1) [OF w(1), of a] w(2) i2(3) by (simp add: k'_def)
  show "ipc_flag k' = ipc_flag k" using i2(4) by (simp add: k'_def)
  show "kernel.more k' = kernel.more k" by (simp add: k'_def k2_def k1_def)
qed

lemma ipc_more_upd [simp]: "ipc.more (upd_mutex a f k) = ipc.more k" "ipc.more (upd_thread t g k) = ipc.more (k :: 'a ipc_scheme)"
  by (simp_all add: upd_mutex_def upd_thread_def)

lemma ipc_more_eq: "kernel.more k' = kernel.more k \<Longrightarrow> ipc.more k' = ipc.more (k :: 'a ipc_scheme)"
  by (cases k; cases k'; simp)

lemma take_lock:
  fixes k :: "'a ipc_scheme"
  assumes ok: "lock_ok a k" and c: "rt_current_thread k = Some t" "tstat k t = 3" and n: "t \<notin> lock_users a k"
  defines "k' \<equiv> snd (rt_mutex_take a (- 1) k)"
  shows "lock_ok a k'" "lock_users a k' = insert t (lock_users a k)" "ipc.more k' = ipc.more k"
proof -
  have k: "kernel_inv k" "mutex_inv a k" "ipc_flag k a \<in> {0, 1}" and o: "owner (mutex k a) \<noteq> Some t"
    and h: "owner (mutex k a) \<noteq> None \<longrightarrow> hold (mutex k a) = 1"
    using ok n by (auto simp: lock_ok_def lock_users_def)
  have i: "kernel_inv k' \<and> mutex_inv a k'" unfolding k'_def by (rule rt_mutex_take_inv [OF k(1,2) c k(3)])
  have "lock_ok a k' \<and> lock_users a k' = insert t (lock_users a k) \<and> ipc.more k' = ipc.more k"
    using k(1,2) c
  proof (cases rule: rt_mutex_take_cases [where time = "- 1"])
    case free
    then have e: "tlist k (Suspended a) = []" using k(2) by (simp add: mutex_inv_def)
    have "tlist k' (Suspended a) = []" "owner (mutex k' a) = Some t" "hold (mutex k' a) = 1" "ipc_flag k' = ipc_flag k" "ipc.more k' = ipc.more k"
      using free(2) e by (simp_all add: k'_def)
    then show ?thesis using i k(3) e free(1) unfolding lock_ok_def lock_users_def by auto
  next
    case (wait ow)
    have p: "unat (current_priority (thread k t)) < 32" using started_prio [OF k(1), of t] c(2) by simp
    have e: "k' = rt_schedule (ipc_wait (Suspended a) t (ipc_flag k a) (- 1)
       (if current_priority (thread k t) < current_priority (thread k ow)
        then change_priority ow (current_priority (thread k t)) (upd_thread t (\<lambda>th. th\<lparr>error := 0\<rparr>) k)
        else upd_thread t (\<lambda>th. th\<lparr>error := 0\<rparr>) k))" unfolding k'_def wait(4) snd_conv ..
    note w = take_waits [OF k(1) c(2) k(3) p, where time = "- 1" and ow = ow
      and b = "current_priority (thread k t) < current_priority (thread k ow)", folded e]
    have "mutex k' = mutex k" "ipc.more k' = ipc.more k" using ipc_more_sel(2) [OF w(3)] ipc_more_eq [OF w(3)] by simp_all
    then show ?thesis using i w(1,2) h k(3) by (auto simp: lock_ok_def lock_users_def)
  qed (use o in simp_all)
  then show "lock_ok a k'" "lock_users a k' = insert t (lock_users a k)" "ipc.more k' = ipc.more k" by simp_all
qed

lemma release_lock:
  fixes k :: "'a ipc_scheme"
  assumes ok: "lock_ok a k" and c: "rt_current_thread k = Some t" and o: "owner (mutex k a) = Some t"
  defines "k' \<equiv> snd (rt_mutex_release a k)"
  shows "lock_ok a k'" "lock_users a k' = lock_users a k - {t}" "ipc.more k' = ipc.more k"
proof -
  have k: "kernel_inv k" "mutex_inv a k" "ipc_flag k a \<in> {0, 1}" "hold (mutex k a) = 1"
    using ok o by (auto simp: lock_ok_def)
  have t: "t \<notin> set (tlist k (Suspended a))" using k(2) o by (simp add: mutex_inv_def)
  have i: "kernel_inv k' \<and> mutex_inv a k'" unfolding k'_def by (rule rt_mutex_release_inv [OF k(1,2) c])
  note r = mutex_restored_effect [OF k(1,2) o]
  have m: "ipc.more (mutex_restored a t k) = ipc.more k" and f: "ipc_flag (mutex_restored a t k) = ipc_flag k"
    using change_priority_effect(4) [OF upd_ipc_inv(2) [OF k(1)]]
    by (simp_all add: mutex_restored_def Let_def ipc_more_eq [OF change_priority_sel(1)])
  have "lock_ok a k' \<and> lock_users a k' = lock_users a k - {t} \<and> ipc.more k' = ipc.more k"
    using k(2,1) c
  proof (cases rule: rt_mutex_release_cases)
    case free
    have "tlist k' (Suspended a) = []" "owner (mutex k' a) = None" "ipc_flag k' = ipc_flag k" "ipc.more k' = ipc.more k"
      using free(3,4) r(4) [of "Suspended a"] m f by (simp_all add: k'_def)
    then show ?thesis using i k(3) o free(3) unfolding lock_ok_def lock_users_def by auto
  next
    case (pass w ws)
    let ?k3 = "upd_mutex a (\<lambda>_. \<lparr>mutex_value = 0, original_priority = current_priority (thread (mutex_restored a t k) w), hold = 1, owner = Some w\<rparr>)
              (mutex_restored a t k)"
    have i3: "kernel_inv ?k3" using r(1) by (rule upd_ipc_inv)
    have l3: "tlist ?k3 (Suspended a) = w # ws" using r(4) pass(3) by simp
    note ru = ipc_list_resume_effect [OF i3 wait_list_simps(1) l3]
    have "set ws \<union> {w} = set (tlist k (Suspended a))" "t \<noteq> w" "t \<notin> set ws" using pass(3) t by auto
    moreover have "tlist k' (Suspended a) = ws" "owner (mutex k' a) = Some w" "hold (mutex k' a) = 1" "ipc_flag k' = ipc_flag k" "ipc.more k' = ipc.more k"
      using pass(4) ru(2) wait_lists_schedule(1) [OF ru(1), of a] f m
        ipc_more_eq [OF rt_schedule_sel(9), of "ipc_list_resume (Suspended a) ?k3"] ipc_more_eq [OF ipc_ops_more(2), of "Suspended a" ?k3]
      by (simp_all add: k'_def)
    ultimately show ?thesis using i k(3) o unfolding lock_ok_def lock_users_def by auto
  qed (use o k(4) in simp_all)
  then show "lock_ok a k'" "lock_users a k' = lock_users a k - {t}" "ipc.more k' = ipc.more k" by simp_all
qed

section \<open>Waking and waiting\<close>

text \<open>Steps that leave the pipes alone.\<close>

definition pipe_same :: "'a pipes_scheme \<Rightarrow> 'a pipes_scheme \<Rightarrow> bool" where
  "pipe_same k k' \<longleftrightarrow> pipe k' = pipe k \<and> pipe_mem k' = pipe_mem k \<and> device k' = device k"

lemma pipe_same_refl [simp]: "pipe_same k k"
  by (simp add: pipe_same_def)

lemma pipe_same_trans: "pipe_same k k' \<Longrightarrow> pipe_same k' k'' \<Longrightarrow> pipe_same k k''"
  by (simp add: pipe_same_def)

lemma pipes_more:
  assumes "ipc.more k' = ipc.more (k :: 'a pipes_scheme)"
  shows "pipe_same k k'" "waiting_list k' = waiting_list k" "wq_node k' = wq_node k" "wq_flag k' = wq_flag k" "dev_heap k' = dev_heap k"
  using assms by (cases k; cases k'; simp add: pipe_same_def)+

lemmas kernel_pipes_more = pipes_more [OF ipc_more_eq]

text \<open>What the wake-up functions of pollers leave alone.\<close>

definition wakes_quiet :: "'a pipes_ext devices_ext wakeup_fn \<Rightarrow> bool" where
  "wakes_quiet wakef \<longleftrightarrow> (\<forall>f n key (k :: 'a pipes_scheme). mutex (snd (wakef f n key k)) = mutex k \<and> pipe_same k (snd (wakef f n key k)))"

lemma wqueue_mutex [simp]:
  "mutex (set_wq_flag q v k) = mutex k" "mutex (rt_wqueue_add q n k) = mutex k" "mutex (rt_wqueue_remove n k) = mutex k"
  "ipc_flag (set_wq_flag q v k) = ipc_flag k" "ipc_flag (rt_wqueue_add q n k) = ipc_flag k" "ipc_flag (rt_wqueue_remove n k) = ipc_flag k"
  by (simp_all add: set_wq_flag_def rt_wqueue_add_def rt_wqueue_remove_def ipc_flag_def fun_eq_iff)

lemma wqueue_pipe [simp]:
  "pipe_same k (set_wq_flag q v k)" "pipe_same k (rt_wqueue_add q n k)" "pipe_same k (rt_wqueue_remove n k)"
  by (simp_all add: pipe_same_def set_wq_flag_def rt_wqueue_add_def rt_wqueue_remove_def)

lemma resume_lock:
  assumes "kernel_inv k" "t \<notin> set (tlist k (Suspended a))"
  shows "lock_same a k (snd (rt_thread_resume t k))"
proof -
  have "tlist (snd (rt_thread_resume t k)) (Suspended a) = tlist k (Suspended a)"
    using rt_thread_resume_tlist [of k t "Suspended a"] assms(2) by (cases "tstat k t = 2") (simp_all add: rt_thread_resume_def)
  then show ?thesis using assms(1) by (simp add: lock_same_def rt_thread_resume_inv)
qed

lemma schedule_lock: "kernel_inv k \<Longrightarrow> lock_same a k (rt_schedule k)"
  by (simp add: lock_same_def rt_schedule_kernel_inv wait_lists_schedule)

lemma node_wake_quiet:
  assumes "wakes_as accepts wakef" "wakes_quiet wakef" "kernel_inv k"
  shows "lock_same a k (snd (node_wake wakef n key k))" "pipe_same k (snd (node_wake wakef n key k))"
proof -
  note e = node_wake_effect(2) [OF assms(1), where n = n and key = key and k = k]
  have "mutex (snd (node_wake wakef n key k)) = mutex k" "pipe_same k (snd (node_wake wakef n key k))"
    using assms(2) by (auto simp: node_wake_def wakes_quiet_def split: option.split)
  then show "lock_same a k (snd (node_wake wakef n key k))" "pipe_same k (snd (node_wake wakef n key k))"
    using wqueue_onlyD(1,3) [OF e] assms(3) e by (simp_all add: lock_same_def wqueue_only_def ipc_flag_def)
qed

lemma wakeup_loop_quiet:
  fixes ns :: "nat list" and key :: nat
  assumes "wakes_as accepts wakef" "wakes_quiet wakef"
  shows "kernel_inv k \<Longrightarrow> \<forall>n \<in> set ns. polling_thread (wq_node k n) \<notin> set (tlist k (Suspended a)) \<Longrightarrow>
     lock_same a k (snd (wakeup_loop wakef key ns k)) \<and> pipe_same k (snd (wakeup_loop wakef key ns k))
   \<and> (\<forall>q. set (waiting_list (snd (wakeup_loop wakef key ns k)) q) \<subseteq> set (waiting_list k q))"
proof (induction ns arbitrary: k)
  case (Cons n ns)
  obtain v k1 where w: "node_wake wakef n key k = (v, k1)" by force
  note q = node_wake_quiet(1) [OF assms Cons.prems(1), where a = a and n = n and key = key, unfolded w snd_conv]
    node_wake_quiet(2) [OF assms Cons.prems(1), where n = n and key = key, unfolded w snd_conv]
  note e = node_wake_effect [OF assms(1), where n = n and key = key and k = k, unfolded w snd_conv]
  have k1: "kernel_inv k1" "tlist k1 (Suspended a) = tlist k (Suspended a)" using q(1) by (simp_all add: lock_same_def)
  show ?case
  proof (cases "v = 0")
    case True
    let ?t = "polling_thread (wq_node k n)"
    have "lock_same a k1 (snd (rt_thread_resume ?t k1))" using resume_lock [OF k1(1)] Cons.prems(2) by (simp add: k1(2))
    then have "lock_same a k (rt_wqueue_remove n (snd (rt_thread_resume ?t k1)))" using q(1)
      by (simp add: lock_same_def wqueue_kinv)
    moreover have "pipe_same k1 (rt_wqueue_remove n (snd (rt_thread_resume ?t k1)))"
      using pipe_same_trans [OF kernel_pipes_more(1) [OF kernel_ops_more(2)] wqueue_pipe(3)] .
    ultimately show ?thesis using True e(3,4) pipe_same_trans [OF q(2)] by (auto simp: w)
  next
    case False
    have "\<forall>n \<in> set ns. polling_thread (wq_node k1 n) \<notin> set (tlist k1 (Suspended a))" using Cons.prems(2) e(4) k1(2) by simp
    note ih = Cons.IH [OF k1(1) this]
    show ?thesis using False ih e(3) lock_same_trans [OF q(1)] pipe_same_trans [OF q(2)] by (simp add: w)
  qed
qed (simp add: lock_same_def)

lemma wakeup_quiet:
  fixes q :: addr and key :: nat
  assumes "wakes_as accepts wakef" "wakes_quiet wakef" "kernel_inv k"
    and "\<forall>n \<in> set (waiting_list k q). polling_thread (wq_node k n) \<notin> set (tlist k (Suspended a))"
  defines "k' \<equiv> rt_wqueue_wakeup wakef q key k"
  shows "lock_same a k k'" "pipe_same k k'" "wq_node k' = wq_node k" "set (waiting_list k' r) \<subseteq> set (waiting_list k r)"
proof -
  let ?k = "set_wq_flag q 1 k"
  obtain b k2 where r: "wakeup_loop wakef key (waiting_list k q) ?k = (b, k2)" by force
  have k': "k' = (if b then rt_schedule k2 else k2)" by (simp add: k'_def rt_wqueue_wakeup_def r)
  have l: "lock_same a k ?k" using assms(3) by (simp add: lock_same_def wqueue_kinv)
  have "kernel_inv ?k" "\<forall>n \<in> set (waiting_list k q). polling_thread (wq_node ?k n) \<notin> set (tlist ?k (Suspended a))"
    using assms(3,4) by (simp_all add: wqueue_kinv)
  note w = wakeup_loop_quiet [OF assms(1,2) this, of key, unfolded r snd_conv]
  then have s: "lock_same a k2 k'" using schedule_lock [of k2 a] by (simp add: k' lock_same_def)
  show "lock_same a k k'" using l w s lock_same_trans by blast
  have "pipe_same k2 k'" "waiting_list k' = waiting_list k2" using kernel_pipes_more(1) [OF rt_schedule_sel(9), of k2] by (simp_all add: k')
  moreover have "pipe_same k k2" using w pipe_same_trans [OF wqueue_pipe(1)] by blast
  ultimately show "pipe_same k k'" "set (waiting_list k' r) \<subseteq> set (waiting_list k r)"
    using w pipe_same_trans [of k k2] by auto
  show "wq_node k' = wq_node k" unfolding k'_def by (rule rt_wqueue_wakeup_effect(3) [OF assms(1,3)])
qed

lemma forever_tick [simp]: "sint (rt_tick_from_millisecond tps (- 1)) = - 1"
  by (simp add: rt_tick_from_millisecond_def Let_def)

lemma wait_quiet:
  assumes k: "kernel_inv k" and c: "rt_current_thread k = Some t" "tstat k t = 3" and n: "t \<notin> set (tlist k (Suspended a))"
  obtains k' r where "rt_wqueue_wait tps q n 0 (- 1) k = (Wq_returns r, k')" "lock_same a k k'" "pipe_same k k'" "wq_node k' = wq_node k"
      "\<And>r. set (waiting_list k' r) \<subseteq> set (waiting_list k r)"
  | k' where "rt_wqueue_wait tps q n 0 (- 1) k = (Wq_blocks, k')" "lock_same a k k'" "pipe_same k k'"
      "wq_node k' = (wq_node k)(n := \<lparr>polling_thread = t, node_wakeup = None, node_key = 0\<rparr>)"
      "waiting_list k' = (waiting_list k)(q := waiting_list k q @ [n])"
proof (cases "wq_flag k q = 1")
  case True
  let ?k = "rt_wqueue_remove n (set_wq_flag q 0 k)"
  have "lock_same a k ?k" using k by (simp add: lock_same_def wqueue_kinv)
  moreover have "pipe_same k ?k" by (rule pipe_same_trans [OF wqueue_pipe(1,3)])
  ultimately show thesis using that(1) [of 0 ?k] True by (auto simp: rt_wqueue_wait_def rt_wqueue_wait_end_def)
next
  case False
  let ?m = "k\<lparr>wq_node := (wq_node k)(n := \<lparr>polling_thread = t, node_wakeup = None, node_key = 0\<rparr>)\<rparr>"
  let ?a = "rt_wqueue_add q n ?m"
  let ?s = "wq_suspend t (- 1) ?a"
  have a: "kernel_inv ?a" "tstat ?a t = 3" using k c(2) by (simp_all add: wqueue_kinv)
  have e: "rt_wqueue_wait tps q n 0 (- 1) k = (Wq_blocks, rt_schedule ?s)"
    using False c(1) by (simp add: rt_wqueue_wait_def rt_thread_self_def Let_def)
  have tl: "tlist ?s (Suspended a) = tlist k (Suspended a)"
    using rt_thread_suspend_effect(3) [of ?a t] a(2) n by (simp add: wq_suspend_def)
  note s = wq_suspend_effect(1,4) [OF a, of "- 1"]
  have m: "mutex ?s = mutex k" using ipc_more_sel(2) [OF s(2)] by simp
  have "lock_same a ?s (rt_schedule ?s)" by (rule schedule_lock [OF s(1)])
  moreover have "ipc_flag ?m = ipc_flag k" by (simp add: ipc_flag_def fun_eq_iff)
  ultimately have l: "lock_same a k (rt_schedule ?s)" using tl m by (simp add: lock_same_def)
  have "kernel.more (rt_schedule ?s) = kernel.more ?a" using s(2) by simp
  note f = kernel_pipes_more [OF this]
  have "pipe_same k ?a" by (simp add: pipe_same_def rt_wqueue_add_def)
  then have "pipe_same k (rt_schedule ?s)" using f(1) pipe_same_trans by blast
  then show thesis using that(2) [OF e l] f(2,3) by simp
qed

lemma waiting_quiet:
  assumes "kernel_inv k"
  shows "lock_same a k (snd (rt_wqueue_wait_end q n k))" "pipe_same k (snd (rt_wqueue_wait_end q n k))"
    "wq_node (snd (rt_wqueue_wait_end q n k)) = wq_node k" "waiting_list (snd (rt_wqueue_wait_end q n k)) r = removeAll n (waiting_list k r)"
  using assms pipe_same_trans [OF wqueue_pipe(1,3)] by (simp_all add: rt_wqueue_wait_end_def lock_same_def wqueue_kinv)

section \<open>Stages\<close>

text \<open>The stages between taking and releasing the lock, and the stages a call of an operation can reach.\<close>

fun inside :: "pipe_pc \<Rightarrow> bool" where
  "inside (Locked ret wakeup) = True"
| "inside (Unlock next) = True"
| "inside (Wake q key next) = inside next"
| "inside Closing_readers = True"
| "inside Closing_fifo = True"
| "inside (Take next) = False"
| "inside (Wait q next) = False"
| "inside (Waiting q next) = False"
| "inside Closed = False"
| "inside (Return r bs) = False"

fun reaches :: "addr \<Rightarrow> pipe_op \<Rightarrow> pipe_pc \<Rightarrow> bool" where
  "reaches p oper (Locked ret wakeup) =
     (case oper of Fops_write flags buf count \<Rightarrow> unat ret < unat count \<and> unat count < 2 ^ 31 | _ \<Rightarrow> ret = 0)"
| "reaches p oper (Take next) = (inside next \<and> reaches p oper next)"
| "reaches p oper (Unlock next) = (\<not> inside next \<and> reaches p oper next)"
| "reaches p oper (Wake q key next) = (q \<in> {reader_queue p, writer_queue p} \<and> reaches p oper next)"
| "reaches p oper (Wait q next) = (q \<in> {reader_queue p, writer_queue p} \<and> \<not> inside next \<and> reaches p oper next)"
| "reaches p oper (Waiting q next) = (q \<in> {reader_queue p, writer_queue p} \<and> \<not> inside next \<and> reaches p oper next)"
| "reaches p oper Closing_readers = (\<exists>flags. oper = Fops_close flags)"
| "reaches p oper Closing_fifo = (\<exists>flags. oper = Fops_close flags)"
| "reaches p oper Closed = (\<exists>flags. oper = Fops_close flags)"
| "reaches p oper (Return r bs) = True"

text \<open>What the caller is told: the bytes it has read, and how many of its own have been written.\<close>

fun pc_bytes :: "pipe_pc \<Rightarrow> u8 list" where
  "pc_bytes (Take next) = pc_bytes next"
| "pc_bytes (Unlock next) = pc_bytes next"
| "pc_bytes (Wake q key next) = pc_bytes next"
| "pc_bytes (Wait q next) = pc_bytes next"
| "pc_bytes (Waiting q next) = pc_bytes next"
| "pc_bytes (Return r bs) = bs"
| "pc_bytes _ = []"

fun pc_count :: "pipe_pc \<Rightarrow> nat" where
  "pc_count (Locked ret wakeup) = unat ret"
| "pc_count (Take next) = pc_count next"
| "pc_count (Unlock next) = pc_count next"
| "pc_count (Wake q key next) = pc_count next"
| "pc_count (Wait q next) = pc_count next"
| "pc_count (Waiting q next) = pc_count next"
| "pc_count (Return r bs) = nat r"
| "pc_count _ = 0"

definition bytes_read :: "pipe_pc \<Rightarrow> pipe_pc \<Rightarrow> u8 list" where
  "bytes_read pc pc' = drop (length (pc_bytes pc)) (pc_bytes pc')"

definition bytes_written :: "pipe_op \<Rightarrow> pipe_pc \<Rightarrow> pipe_pc \<Rightarrow> u8 list" where
  "bytes_written oper pc pc' = (case oper of
     Fops_write flags buf count \<Rightarrow> map buf [pc_count pc..<pc_count pc']
   | Dev_write buf count \<Rightarrow> map buf [pc_count pc..<pc_count pc']
   | _ \<Rightarrow> [])"

text \<open>Somebody keeps the pipe open, and fewer than 256 have it open.\<close>

definition stays_open :: "addr \<Rightarrow> pipe_op \<Rightarrow> pipe_pc \<Rightarrow> 'a pipes_scheme \<Rightarrow> bool" where
  "stays_open p oper pc k = (case pc of
     Locked ret wakeup \<Rightarrow> (case oper of Fops_open flags \<Rightarrow> ref_count (device k p) \<noteq> 255 | Dev_close \<Rightarrow> ref_count (device k p) \<noteq> 1 | _ \<Rightarrow> True)
   | Closing_fifo \<Rightarrow> ref_count (device k p) \<noteq> 1
   | _ \<Rightarrow> True)"

text \<open>The stages inside change the pipe and its device, nothing else.\<close>

definition base_same :: "'a pipes_scheme \<Rightarrow> 'a pipes_scheme \<Rightarrow> bool" where
  "base_same k k' \<longleftrightarrow> (kernel_inv k \<longrightarrow> (\<forall>a. lock_same a k k')) \<and> waiting_list k' = waiting_list k \<and> wq_node k' = wq_node k"

lemma base_same_refl [simp]: "base_same k k"
  by (simp add: base_same_def lock_same_def)

lemma base_same_trans: "base_same k k' \<Longrightarrow> base_same k' k'' \<Longrightarrow> base_same k k''"
  by (auto simp: base_same_def lock_same_def)

lemma base_same_upd [simp]:
  "base_same k (upd_pipe p f k)" "base_same k (upd_device p g k)" "base_same k (k\<lparr>pipe_mem := m\<rparr>)" "base_same k (set_fifo p x k)"
proof -
  have kinv: "kernel_inv k'" if "kernel_inv k" "wqueue_only k k'" for k' :: "'a pipes_scheme" by (rule wqueue_onlyD(1) [OF that(2,1)])
  show "base_same k (upd_pipe p f k)" "base_same k (upd_device p g k)" "base_same k (k\<lparr>pipe_mem := m\<rparr>)" "base_same k (set_fifo p x k)"
    by (auto simp: base_same_def lock_same_def upd_pipe_def upd_device_def set_fifo_def ipc_flag_def wqueue_only_def intro!: kinv)
qed

lemma pipe_upd_sel [simp]:
  "pipe (upd_pipe p f k) = (pipe k)(p := f (pipe k p))" "pipe_mem (upd_pipe p f k) = pipe_mem k" "device (upd_pipe p f k) = device k"
  "pipe (set_fifo p x k) = (pipe k)(p := (pipe k p)\<lparr>fifo := x\<rparr>)" "pipe_mem (set_fifo p x k) = pipe_mem k" "device (set_fifo p x k) = device k"
  "pipe (upd_device p g k) = pipe k" "pipe_mem (upd_device p g k) = pipe_mem k"
  by (simp_all add: upd_pipe_def set_fifo_def upd_device_def)

lemma fifo_count [simp]: "fifo (count_open flags v) = fifo v" "fifo (count_close flags v) = fifo v"
  by (simp_all add: count_open_def count_close_def Let_def)

text \<open>An open pipe with the bytes \<open>xs\<close> in it, and what a stage makes of it.\<close>

definition holds_data :: "addr \<Rightarrow> 'a pipes_scheme \<Rightarrow> u8 list \<Rightarrow> bool" where
  "holds_data p k xs \<longleftrightarrow> ref_count (device k p) \<noteq> 0
     \<and> (\<exists>a rb. fifo (pipe k p) = Some (a, rb) \<and> rb_ok rb \<and> rb_contents (rb, pipe_mem k) = xs)"

definition stage_ok :: "addr \<Rightarrow> pipe_op \<Rightarrow> pipe_pc \<Rightarrow> 'a pipes_scheme \<Rightarrow> u8 list \<Rightarrow> 'a stage \<Rightarrow> bool" where
  "stage_ok p oper pc k xs r \<longleftrightarrow> (\<exists>pc' k' ys. r = Some (pc', k') \<and> base_same k k' \<and> inside pc' = inside pc \<and> reaches p oper pc'
     \<and> holds_data p k' ys \<and> bytes_read pc pc' @ ys = xs @ bytes_written oper pc pc')"

lemma holds_data_same: "pipe_same k k' \<Longrightarrow> holds_data p k' xs = holds_data p k xs"
  by (simp add: holds_data_def pipe_same_def)

lemma rb_len_small: "rb_ok rb \<Longrightarrow> rb_len rb \<le> rb_size rb \<and> rb_size rb < 2 ^ 15"
  using rb_okD(2) by (simp add: rb_ok_def)

lemma small_word: "n < 2 ^ 15 \<Longrightarrow> unat (word_of_nat n :: u32) = n \<and> sint (word_of_nat n :: u32) = int n \<and> (word_of_nat n = (0 :: u32) \<longleftrightarrow> n = 0)"
proof -
  assume n: "n < 2 ^ 15"
  then have u: "unat (word_of_nat n :: u32) = n" by (simp add: unsigned_of_nat take_bit_nat_eq_self)
  moreover have "sint (word_of_nat n :: u32) = int n" using n by (simp add: signed_of_nat signed_take_bit_int_eq_self)
  moreover have "word_of_nat n = (0 :: u32) \<longleftrightarrow> n = 0" using u by (metis unat_eq_zero)
  ultimately show ?thesis by simp
qed

lemma map_shift: "map (\<lambda>i. f (m + i)) [0..<n] = map f [m..<m + n]"
  by (rule nth_equalityI) simp_all

lemma read_stage:
  assumes d: "holds_data p k xs"
  shows "stage_ok p (Fops_read flags count) (Locked ret wk) k xs (pipe_fops_read_locked p flags count k)"
proof (cases "writers (pipe k p) = 0")
  case True
  then show ?thesis using d by (auto simp: pipe_fops_read_locked_def stage_ok_def bytes_read_def bytes_written_def)
next
  case False
  obtain a rb where f: "fifo (pipe k p) = Some (a, rb)" "rb_ok rb" "rb_contents (rb, pipe_mem k) = xs" and r: "ref_count (device k p) \<noteq> 0"
    using d by (auto simp: holds_data_def)
  define n where "n = min (unat (ucast count :: u16)) (rb_len rb)"
  obtain rb' where g: "rt_ringbuffer_get (ucast count) (rb, pipe_mem k) = ((word_of_nat n, take n xs), rb', pipe_mem k)" "rb_ok rb'"
      "rb_contents (rb', pipe_mem k) = drop n xs"
    using rt_ringbuffer_get_effect [OF f(2), of "ucast count" "pipe_mem k"] by (auto simp: n_def f(3))
  have n: "n < 2 ^ 15" using rb_len_small [OF f(2)] by (auto simp: n_def min_def)
  let ?k = "set_fifo p (Some (a, rb')) (k\<lparr>pipe_mem := pipe_mem k\<rparr>)"
  have h: "holds_data p ?k (drop n xs)" using g(2,3) r by (simp add: holds_data_def)
  show ?thesis unfolding pipe_fops_read_locked_def stage_ok_def
    using False f(1) g(1) h small_word [OF n] by (auto simp: Let_def bytes_read_def bytes_written_def)
qed

lemma count_out [simp]: "pc_count (write_out p r wk) = nat r" "pc_bytes (write_out p r wk) = []" "inside (write_out p r wk)"
  "reaches p (Fops_write flags buf count) (write_out p r wk)"
  by (simp_all add: write_out_def)

lemma nat_sint: "unat (x :: u32) < 2 ^ 31 \<Longrightarrow> nat (sint x) = unat x"
proof -
  assume x: "unat x < 2 ^ 31"
  then have "int (unat x) < int (2 ^ 31)" by (simp only: of_nat_less_iff)
  then have u: "uint x < 2 ^ 31" by simp
  have "- (2 ^ 31) \<le> uint x" using order.trans [of "- (2 ^ 31)" 0 "uint x"] by simp
  then have "sint x = uint x" using u signed_take_bit_int_eq_self [of 31 "uint x"] by (simp add: sint_uint)
  then show ?thesis by simp
qed

lemma write_stage:
  assumes d: "holds_data p k xs" and c: "reaches p (Fops_write flags buf count) (Locked ret wk)"
  shows "stage_ok p (Fops_write flags buf count) (Locked ret wk) k xs (pipe_fops_write_locked p flags buf count ret wk k)"
proof (cases "readers (pipe k p) = 0")
  case True
  then show ?thesis using d c by (auto simp: pipe_fops_write_locked_def stage_ok_def bytes_read_def bytes_written_def nat_sint)
next
  case False
  obtain a rb where f: "fifo (pipe k p) = Some (a, rb)" "rb_ok rb" "rb_contents (rb, pipe_mem k) = xs" and r: "ref_count (device k p) \<noteq> 0"
    using d by (auto simp: holds_data_def)
  define ptr where "ptr = (\<lambda>i. buf (unat ret + i))"
  define n where "n = min (unat (ucast (count - ret) :: u16)) (rb_size rb - rb_len rb)"
  obtain rb' m' where g: "rt_ringbuffer_put ptr (ucast (count - ret)) (rb, pipe_mem k) = (word_of_nat n, rb', m')" "rb_ok rb'"
      "rb_contents (rb', m') = xs @ map ptr [0..<n]"
    using rt_ringbuffer_put_effect [OF f(2), of ptr "ucast (count - ret)" "pipe_mem k"] by (auto simp: n_def f(3))
  have n: "n < 2 ^ 15" using rb_len_small [OF f(2)] by (auto simp: n_def min_def)
  have "n \<le> unat (count - ret)" using unat_narrow [of "count - ret"] by (simp add: n_def)
  then have le: "unat ret + n \<le> unat count" "unat count < 2 ^ 31" using c by (auto simp: unat_sub word_le_nat_alt)
  then have u: "unat (ret + word_of_nat n) = unat ret + n" using small_word [OF n] by (subst unat_add_no_wrap) simp_all
  then have e: "ret + word_of_nat n = count \<longleftrightarrow> unat ret + n = unat count" "ret + word_of_nat n = 0 \<longleftrightarrow> unat ret + n = 0" "nat (sint (ret + word_of_nat n)) = unat ret + n"
    using le nat_sint [of "ret + word_of_nat n"] by (metis word_unat_eq_iff, metis unat_eq_zero, simp)
  let ?k = "set_fifo p (Some (a, rb')) (k\<lparr>pipe_mem := m'\<rparr>)"
  have h: "holds_data p ?k (xs @ map buf [unat ret..<unat ret + n])"
    using g(2,3) r by (simp add: holds_data_def ptr_def map_shift)
  have b: "base_same k ?k" using base_same_trans [OF base_same_upd(3,4)] .
  define ret' where "ret' = ret + word_of_nat n"
  define pc' where "pc' = (if ret' = count then write_out p (sint ret') True
      else if flags AND O_NONBLOCK \<noteq> 0 then write_out p (if ret' = 0 then - EAGAIN else sint ret') True
      else Unlock (Wake (reader_queue p) POLLIN (Wait (writer_queue p) (Take (Locked ret' True)))))"
  have "pipe_fops_write_locked p flags buf count ret wk k = Some (pc', ?k)"
    using False f(1) g(1) by (simp add: pipe_fops_write_locked_def ptr_def [symmetric] pc'_def ret'_def Let_def)
  moreover have "pc_count pc' = unat ret + n" "pc_bytes pc' = []" "inside pc'" "reaches p (Fops_write flags buf count) pc'"
    using le u e by (auto simp: pc'_def ret'_def)
  ultimately show ?thesis using h b by (auto simp: stage_ok_def bytes_read_def bytes_written_def)
qed

lemma get_loop_effect:
  assumes "rb_ok rb"
  shows "\<exists>r bs rb'. pipe_get_loop count n (rb, m) = ((r, bs), rb', m) \<and> rb_ok rb' \<and> bs @ rb_contents (rb', m) = rb_contents (rb, m)"
  using assms
proof (induction count n "(rb, m)" arbitrary: rb rule: pipe_get_loop.induct)
  case (1 count n rb)
  define l where "l = min (unat (ucast (count - n) :: u16)) (rb_len rb)"
  obtain rb1 where g: "rt_ringbuffer_get (ucast (count - n)) (rb, m) = ((word_of_nat l, take l (rb_contents (rb, m))), rb1, m)" "rb_ok rb1"
      "rb_contents (rb1, m) = drop l (rb_contents (rb, m))"
    using rt_ringbuffer_get_effect [OF 1(2), of "ucast (count - n)" m] by (auto simp: l_def)
  have l: "l < 2 ^ 15" using rb_len_small [OF 1(2)] by (auto simp: l_def min_def)
  show ?case
  proof (cases "n < count \<and> 0 < l")
    case True
    then obtain r bs rb' where "pipe_get_loop count (n + word_of_nat l) (rb1, m) = ((r, bs), rb', m)" "rb_ok rb'" "bs @ rb_contents (rb', m) = rb_contents (rb1, m)"
      using 1(1) [OF _ g(1) [symmetric] refl _ g(2)] small_word [OF l] by auto
    then show ?thesis using True g small_word [OF l] by (subst pipe_get_loop.simps) (simp add: append_assoc)
  next
    case False
    then show ?thesis using 1(2) g small_word [OF l] by (subst pipe_get_loop.simps) auto
  qed
qed

lemma put_loop_effect:
  assumes "rb_ok rb" "unat n \<le> unat count"
  shows "\<exists>r rb' m'. pipe_put_loop buf count n (rb, m) = (r, rb', m') \<and> rb_ok rb' \<and> unat n \<le> unat r
     \<and> rb_contents (rb', m') = rb_contents (rb, m) @ map buf [unat n..<unat r]"
  using assms
proof (induction buf count n "(rb, m)" arbitrary: rb m rule: pipe_put_loop.induct)
  case (1 buf count n rb m)
  define ptr where "ptr = (\<lambda>i. buf (unat n + i))"
  define l where "l = min (unat (ucast (count - n) :: u16)) (rb_size rb - rb_len rb)"
  obtain rb1 m1 where g: "rt_ringbuffer_put ptr (ucast (count - n)) (rb, m) = (word_of_nat l, rb1, m1)" "rb_ok rb1"
      "rb_contents (rb1, m1) = rb_contents (rb, m) @ map ptr [0..<l]"
    using rt_ringbuffer_put_effect [OF 1(2), of ptr "ucast (count - n)" m] by (auto simp: l_def)
  have l: "l < 2 ^ 15" using rb_len_small [OF 1(2)] by (auto simp: l_def min_def)
  show ?case
  proof (cases "n < count \<and> 0 < l")
    case True
    have "l \<le> unat (count - n)" using unat_narrow [of "count - n"] by (simp add: l_def)
    then have le: "unat n + l \<le> unat count" using 1(3) by (auto simp: unat_sub word_le_nat_alt)
    then have u: "unat (n + word_of_nat l) = unat n + l"
      using small_word [OF l] order.strict_trans1 [OF le unsigned_less] by (subst unat_add_no_wrap) simp_all
    have "\<exists>r rb' m'. pipe_put_loop buf count (n + word_of_nat l) (rb1, m1) = (r, rb', m') \<and> rb_ok rb' \<and> unat n + l \<le> unat r
     \<and> rb_contents (rb', m') = rb_contents (rb1, m1) @ map buf [unat n + l..<unat r]"
      using 1(1) [OF _ g(1) [unfolded ptr_def, symmetric] _ g(2), unfolded u] True small_word [OF l] le by auto
    then obtain r rb' m' where r: "pipe_put_loop buf count (n + word_of_nat l) (rb1, m1) = (r, rb', m')" "rb_ok rb'" "unat n + l \<le> unat r"
      "rb_contents (rb', m') = rb_contents (rb1, m1) @ map buf [unat n + l..<unat r]" by blast
    have "map ptr [0..<l] @ map buf [unat n + l..<unat r] = map buf [unat n..<unat r]"
      using r(3) upt_add_eq_append [of "unat n" "unat n + l" "unat r - (unat n + l)"]
      by (simp add: ptr_def map_shift flip: map_append)
    then show ?thesis using True g r small_word [OF l]
      by (subst pipe_put_loop.simps) (simp add: ptr_def [symmetric])
  next
    case False
    then show ?thesis using 1(2) g small_word [OF l] by (subst pipe_put_loop.simps) (auto simp: ptr_def [symmetric])
  qed
qed

lemma dev_stage:
  assumes d: "holds_data p k xs"
  shows "stage_ok p (Dev_read count) (Locked ret wk) k xs (rt_pipe_read_locked p count k)"
    "ret = 0 \<Longrightarrow> stage_ok p (Dev_write buf count) (Locked ret wk) k xs (rt_pipe_write_locked p buf count k)"
proof -
  obtain a rb where f: "fifo (pipe k p) = Some (a, rb)" "rb_ok rb" "rb_contents (rb, pipe_mem k) = xs" and r: "ref_count (device k p) \<noteq> 0"
    using d by (auto simp: holds_data_def)
  have b: "base_same k (set_fifo p x (k\<lparr>pipe_mem := m\<rparr>))" for x m using base_same_trans [OF base_same_upd(3,4)] .
  have h: "rb_ok rb' \<Longrightarrow> rb_contents (rb', m') = ys \<Longrightarrow> holds_data p (set_fifo p (Some (a, rb')) (k\<lparr>pipe_mem := m'\<rparr>)) ys" for rb' m' ys
    using r by (simp add: holds_data_def)
  obtain n bs rb' where g: "pipe_get_loop count 0 (rb, pipe_mem k) = ((n, bs), rb', pipe_mem k)" "rb_ok rb'" "bs @ rb_contents (rb', pipe_mem k) = xs"
    using get_loop_effect [OF f(2), of count 0 "pipe_mem k"] f(3) by auto
  show "stage_ok p (Dev_read count) (Locked ret wk) k xs (rt_pipe_read_locked p count k)"
    unfolding stage_ok_def rt_pipe_read_locked_def using f(1) g b h [OF g(2), of "pipe_mem k"] by (auto simp: bytes_read_def bytes_written_def)
  obtain n rb' m' where g: "pipe_put_loop buf count 0 (rb, pipe_mem k) = (n, rb', m')" "rb_ok rb'" "rb_contents (rb', m') = xs @ map buf [0..<unat n]"
    using put_loop_effect [OF f(2), of 0 count buf "pipe_mem k"] f(3) by auto
  show "stage_ok p (Dev_write buf count) (Locked ret wk) k xs (rt_pipe_write_locked p buf count k)" if "ret = 0"
    unfolding stage_ok_def rt_pipe_write_locked_def using f(1) g b h [OF g(2,3)] that by (auto simp: bytes_read_def bytes_written_def)
qed

lemma holds_data_upd:
  assumes "holds_data p k xs"
  shows "fifo (f (pipe k p)) = fifo (pipe k p) \<Longrightarrow> holds_data p (upd_pipe p f k) xs"
    "ref_count (g (device k p)) \<noteq> 0 \<Longrightarrow> holds_data p (upd_device p g k) xs"
  using assms by (auto simp: holds_data_def)

text \<open>A count below its limits stays positive.\<close>

lemma count_up: "x \<noteq> (255 :: u8) \<Longrightarrow> x + 1 \<noteq> 0"
proof
  assume "x \<noteq> 255" "x + 1 = 0"
  then have "x = - 1" by (simp add: eq_neg_iff_add_eq_0)
  then show False using \<open>x \<noteq> 255\<close> by simp
qed

lemma count_stage:
  assumes d: "holds_data p k xs" and o: "stays_open p oper pc k"
  shows "oper = Fops_open flags \<Longrightarrow> pc = Locked ret wk \<Longrightarrow> stage_ok p oper pc k xs (pipe_fops_open_locked raw p flags k)"
    "oper = Fops_close flags \<Longrightarrow> pc = Locked ret wk \<Longrightarrow> stage_ok p oper pc k xs (pipe_fops_close_locked p flags k)"
    "oper = Fops_close flags \<Longrightarrow> pc = Closing_readers \<Longrightarrow> stage_ok p oper pc k xs (pipe_fops_close_readers p k)"
    "oper = Fops_close flags \<Longrightarrow> pc = Closing_fifo \<Longrightarrow> stage_ok p oper pc k xs (pipe_fops_close_fifo p k)"
    "oper = Fops_close flags \<Longrightarrow> pc = Closed \<Longrightarrow> stage_ok p oper pc k xs (pipe_fops_close_closed p k)"
    "oper = Dev_open \<Longrightarrow> pc = Locked ret wk \<Longrightarrow> stage_ok p oper pc k xs (rt_pipe_open_locked raw p k)"
    "oper = Dev_close \<Longrightarrow> pc = Locked ret wk \<Longrightarrow> stage_ok p oper pc k xs (rt_pipe_close_locked p k)"
proof -
  have r: "ref_count (device k p) \<noteq> 0" "fifo (pipe k p) \<noteq> None" using d by (auto simp: holds_data_def)
  note sd = stage_ok_def bytes_read_def bytes_written_def
  show "stage_ok p oper pc k xs (pipe_fops_open_locked raw p flags k)" if "oper = Fops_open flags" "pc = Locked ret wk"
  proof -
    have "ref_count (device k p) + 1 \<noteq> 0" using o that count_up by (auto simp: stays_open_def)
    then have "holds_data p (upd_device p (\<lambda>d. d\<lparr>ref_count := ref_count d + 1\<rparr>) (upd_pipe p (count_open flags) k)) xs"
      by (intro holds_data_upd d) simp_all
    then show ?thesis using r that base_same_trans [OF base_same_upd(1,2)] by (auto simp: sd pipe_fops_open_locked_def Let_def)
  qed
  show "stage_ok p oper pc k xs (pipe_fops_close_locked p flags k)" if "oper = Fops_close flags" "pc = Locked ret wk"
    using holds_data_upd(1) [OF d, of "count_close flags"] that by (auto simp: sd pipe_fops_close_locked_def Let_def)
  show "stage_ok p oper pc k xs (pipe_fops_close_readers p k)" if "oper = Fops_close flags" "pc = Closing_readers"
    using d that by (auto simp: sd pipe_fops_close_readers_def)
  show "stage_ok p oper pc k xs (pipe_fops_close_fifo p k)" if "oper = Fops_close flags" "pc = Closing_fifo"
    using holds_data_upd(2) [OF d, of "\<lambda>d. d\<lparr>ref_count := ref_count d - 1\<rparr>"] o that
    by (auto simp: sd pipe_fops_close_fifo_def stays_open_def)
  show "stage_ok p oper pc k xs (pipe_fops_close_closed p k)" if "oper = Fops_close flags" "pc = Closed"
    using d r(1) that by (auto simp: sd pipe_fops_close_closed_def)
  show "stage_ok p oper pc k xs (rt_pipe_open_locked raw p k)" if "oper = Dev_open" "pc = Locked ret wk"
    using d r(2) that by (auto simp: sd rt_pipe_open_locked_def)
  show "stage_ok p oper pc k xs (rt_pipe_close_locked p k)" if "oper = Dev_close" "pc = Locked ret wk"
    using d o that by (auto simp: sd rt_pipe_close_locked_def stays_open_def)
qed

text \<open>Every stage that is not one of the four common ones.\<close>

lemma own_stage:
  assumes d: "holds_data p k xs" and o: "stays_open p oper pc k" and r: "reaches p oper pc"
    and pc: "(\<exists>ret wk. pc = Locked ret wk) \<or> pc \<in> {Closing_readers, Closing_fifo, Closed}"
  shows "stage_ok p oper pc k xs (pipe_step raw tps wakef p n oper pc k)"
proof (cases "\<exists>ret wk. pc = Locked ret wk")
  case True
  then obtain ret wk where l: "pc = Locked ret wk" by auto
  then have e: "pipe_step raw tps wakef p n oper pc k = pipe_locked raw p oper ret wk k" by (simp add: pipe_step_def)
  show ?thesis unfolding e using l d o r
    by (cases oper) (auto simp: pipe_locked_def intro: read_stage write_stage dev_stage count_stage)
next
  case False
  then show ?thesis using count_stage(3-5) [OF d o] r pc by (auto simp: pipe_step_def)
qed

section \<open>Runs\<close>

text \<open>\<open>calls\<close> says which threads are in a call, and at which stage; \<open>sent\<close> are the bytes the writers have been told
  are written, in the order of the writes, and \<open>received\<close> those the readers have been given.\<close>

record 'k pipe_run =
  run_state :: 'k
  calls :: "tid \<Rightarrow> (pipe_op \<times> pipe_pc) option"
  sent :: "u8 list"
  received :: "u8 list"

text \<open>A node on one of the queues waits for the thread \<open>t\<close>.\<close>

definition polls :: "addr \<Rightarrow> tid \<Rightarrow> 'a pipes_scheme \<Rightarrow> bool" where
  "polls p t k \<longleftrightarrow> (\<exists>q \<in> {reader_queue p, writer_queue p}. \<exists>n \<in> set (waiting_list k q). polling_thread (wq_node k n) = t)"

text \<open>What the rest of the system leaves alone: the lock, the pipe, and the queue entries of threads in a
  call. Pollers come and go.\<close>

definition rest_of_system :: "addr \<Rightarrow> (tid \<Rightarrow> (pipe_op \<times> pipe_pc) option) \<Rightarrow> 'a pipes_scheme \<Rightarrow> 'a pipes_scheme \<Rightarrow> bool" where
  "rest_of_system p cs k k' \<longleftrightarrow> lock_same (pipe_lock p) k k' \<and> pipe k' p = pipe k p \<and> ref_count (device k' p) = ref_count (device k p)
     \<and> (\<forall>a rb. fifo (pipe k p) = Some (a, rb) \<longrightarrow> (\<forall>x. buffer_ptr rb \<le> x \<and> x < buffer_ptr rb + rb_size rb \<longrightarrow> pipe_mem k' x = pipe_mem k x))
     \<and> (\<forall>q \<in> {reader_queue p, writer_queue p}. \<forall>n \<in> set (waiting_list k' q).
          cs (polling_thread (wq_node k' n)) = None \<or> n \<in> set (waiting_list k q) \<and> wq_node k' n = wq_node k n)"

definition fits :: "pipe_op \<Rightarrow> bool" where
  "fits oper \<longleftrightarrow> (case oper of Fops_write flags buf count \<Rightarrow> unat count < 2 ^ 31 | _ \<Rightarrow> True)"

definition runs :: "tid \<Rightarrow> 'a kernel_scheme \<Rightarrow> bool" where
  "runs t k \<longleftrightarrow> rt_current_thread k = Some t \<and> tstat k t = RT_THREAD_RUNNING"

inductive pipe_run_step :: "rt_ringbuffer \<Rightarrow> int \<Rightarrow> 'a pipes_ext devices_ext wakeup_fn \<Rightarrow> addr
    \<Rightarrow> 'a pipes_scheme pipe_run \<Rightarrow> 'a pipes_scheme pipe_run \<Rightarrow> bool" for raw tps wakef p where
  run_call: "runs t (run_state s) \<Longrightarrow> calls s t = None \<Longrightarrow> \<not> polls p t (run_state s) \<Longrightarrow> fits oper \<Longrightarrow>
     pipe_run_step raw tps wakef p s (s\<lparr>calls := (calls s)(t := Some (oper, pipe_enter p oper (run_state s)))\<rparr>)"
| run_stage: "runs t (run_state s) \<Longrightarrow> calls s t = Some (oper, pc) \<Longrightarrow> stays_open p oper pc (run_state s) \<Longrightarrow>
     pipe_step raw tps wakef p t oper pc (run_state s) = Some (pc', k') \<Longrightarrow>
     pipe_run_step raw tps wakef p s
       (s\<lparr>run_state := k', calls := (calls s)(t := Some (oper, pc')),
          sent := sent s @ bytes_written oper pc pc', received := received s @ bytes_read pc pc'\<rparr>)"
| run_return: "runs t (run_state s) \<Longrightarrow> calls s t = Some (oper, Return r bs) \<Longrightarrow>
     pipe_run_step raw tps wakef p s (s\<lparr>calls := (calls s)(t := None)\<rparr>)"
| run_rest: "rest_of_system p (calls s) (run_state s) k' \<Longrightarrow> pipe_run_step raw tps wakef p s (s\<lparr>run_state := k'\<rparr>)"

definition pipe_run_init :: "addr \<Rightarrow> 'a pipes_scheme pipe_run \<Rightarrow> bool" where
  "pipe_run_init p s \<longleftrightarrow> lock_ok (pipe_lock p) (run_state s) \<and> owner (mutex (run_state s) (pipe_lock p)) = None \<and> calls s = (\<lambda>_. None)
     \<and> holds_data p (run_state s) [] \<and> sent s = [] \<and> received s = []"

definition thread_inside :: "'k pipe_run \<Rightarrow> tid \<Rightarrow> bool" where
  "thread_inside s t \<longleftrightarrow> (\<exists>oper pc. calls s t = Some (oper, pc) \<and> inside pc)"

text \<open>A thread with an entry of its own on a queue is waiting.\<close>

definition nodes_ok :: "addr \<Rightarrow> (tid \<Rightarrow> (pipe_op \<times> pipe_pc) option) \<Rightarrow> 'a pipes_scheme \<Rightarrow> bool" where
  "nodes_ok p cs k \<longleftrightarrow> (\<forall>q \<in> {reader_queue p, writer_queue p}. \<forall>n \<in> set (waiting_list k q). \<forall>oper pc.
     cs (polling_thread (wq_node k n)) = Some (oper, pc) \<longrightarrow> n = polling_thread (wq_node k n) \<and> (\<exists>r next. pc = Waiting r next))"

definition pipe_run_inv :: "addr \<Rightarrow> 'a pipes_scheme pipe_run \<Rightarrow> bool" where
  "pipe_run_inv p s \<longleftrightarrow> lock_ok (pipe_lock p) (run_state s)
     \<and> lock_users (pipe_lock p) (run_state s) = {t. thread_inside s t}
     \<and> (\<forall>t oper pc. calls s t = Some (oper, pc) \<longrightarrow> reaches p oper pc)
     \<and> nodes_ok p (calls s) (run_state s)
     \<and> (\<exists>xs. holds_data p (run_state s) xs \<and> received s @ xs = sent s)"

text \<open>The state after the running thread \<open>t\<close> has gone on to \<open>pc'\<close>.\<close>

definition run_next :: "tid \<Rightarrow> pipe_op \<Rightarrow> pipe_pc \<Rightarrow> pipe_pc \<Rightarrow> 'k \<Rightarrow> 'k pipe_run \<Rightarrow> 'k pipe_run" where
  "run_next t oper pc pc' k' s = s\<lparr>run_state := k', calls := (calls s)(t := Some (oper, pc')),
     sent := sent s @ bytes_written oper pc pc', received := received s @ bytes_read pc pc'\<rparr>"

lemma inside_next:
  "{u. thread_inside (run_next t oper pc pc' k' s) u} = (if inside pc' then insert t {u. thread_inside s u} else {u. thread_inside s u} - {t})"
  by (auto simp: thread_inside_def run_next_def)

lemma nodes_next:
  assumes "nodes_ok p cs k" "cs t = Some (oper, pc)" "\<And>r next. pc \<noteq> Waiting r next"
    and "wq_node k' = wq_node k" "\<And>q. set (waiting_list k' q) \<subseteq> set (waiting_list k q)"
  shows "nodes_ok p (cs(t := x)) k'"
proof -
  have no: "polling_thread (wq_node k n) \<noteq> t" if "q \<in> {reader_queue p, writer_queue p}" "n \<in> set (waiting_list k q)" for q n
    using assms(1-3) that unfolding nodes_ok_def by blast
  show ?thesis unfolding nodes_ok_def
  proof (intro ballI allI impI)
    fix q n oper pc
    assume q: "q \<in> {reader_queue p, writer_queue p}" and n: "n \<in> set (waiting_list k' q)"
      and c: "(cs(t := x)) (polling_thread (wq_node k' n)) = Some (oper, pc)"
    have m: "n \<in> set (waiting_list k q)" using n assms(5) by blast
    then have "cs (polling_thread (wq_node k n)) = Some (oper, pc)" using c no [OF q m] assms(4) by simp
    then show "n = polling_thread (wq_node k' n) \<and> (\<exists>r next. pc = Waiting r next)"
      using assms(1) q m unfolding nodes_ok_def assms(4) by blast
  qed
qed

lemma nodes_wait:
  assumes "nodes_ok p cs k" "cs t = Some (oper, Wait q next)"
    and "wq_node k' = (wq_node k)(t := \<lparr>polling_thread = t, node_wakeup = None, node_key = 0\<rparr>)"
    and "waiting_list k' = (waiting_list k)(q := waiting_list k q @ [t])"
  shows "nodes_ok p (cs(t := Some (oper, Waiting q next))) k'"
  unfolding nodes_ok_def
proof (intro ballI allI impI)
  fix r n op1 pc1
  assume r: "r \<in> {reader_queue p, writer_queue p}" and n: "n \<in> set (waiting_list k' r)"
    and c: "(cs(t := Some (oper, Waiting q next))) (polling_thread (wq_node k' n)) = Some (op1, pc1)"
  show "n = polling_thread (wq_node k' n) \<and> (\<exists>r next. pc1 = Waiting r next)"
  proof (cases "n = t")
    case False
    then have m: "n \<in> set (waiting_list k r)" "wq_node k' n = wq_node k n" using n assms(3,4) by (auto split: if_splits)
    have "polling_thread (wq_node k n) \<noteq> t"
      using assms(1,2) r m(1) unfolding nodes_ok_def by blast
    then show ?thesis using assms(1) r m c unfolding nodes_ok_def by auto
  qed (use c assms(3) in auto)
qed

lemma nodes_woken:
  assumes "nodes_ok p cs k" "cs t = Some (oper, Waiting q next)" "wq_node k' = wq_node k" "\<And>r. waiting_list k' r = removeAll t (waiting_list k r)"
  shows "nodes_ok p (cs(t := x)) k'"
  unfolding nodes_ok_def
proof (intro ballI allI impI)
  fix r n op1 pc1
  assume r: "r \<in> {reader_queue p, writer_queue p}" and n: "n \<in> set (waiting_list k' r)"
    and c: "(cs(t := x)) (polling_thread (wq_node k' n)) = Some (op1, pc1)"
  have m: "n \<in> set (waiting_list k r)" "n \<noteq> t" using n assms(4) by auto
  then have "polling_thread (wq_node k n) \<noteq> t" using assms(1,2) r unfolding nodes_ok_def by metis
  then show "n = polling_thread (wq_node k' n) \<and> (\<exists>r next. pc1 = Waiting r next)"
    using assms(1,3) r m(1) c unfolding nodes_ok_def by auto
qed

lemma run_next_inv:
  assumes inv: "pipe_run_inv p s" and c: "calls s t = Some (oper, pc)"
    and lock: "lock_ok (pipe_lock p) k'"
      "lock_users (pipe_lock p) k' = (if inside pc' then insert t (lock_users (pipe_lock p) (run_state s)) else lock_users (pipe_lock p) (run_state s) - {t})"
    and pc': "reaches p oper pc'" "nodes_ok p ((calls s)(t := Some (oper, pc'))) k'"
    and data: "holds_data p (run_state s) xs" "received s @ xs = sent s" "holds_data p k' ys" "bytes_read pc pc' @ ys = xs @ bytes_written oper pc pc'"
  shows "pipe_run_inv p (run_next t oper pc pc' k' s)"
proof -
  have "lock_users (pipe_lock p) k' = {u. thread_inside (run_next t oper pc pc' k' s) u}"
    using lock(2) inv unfolding inside_next by (auto simp: pipe_run_inv_def)
  moreover have "(received s @ bytes_read pc pc') @ ys = sent s @ bytes_written oper pc pc'" using data(2,4) by (metis append_assoc)
  ultimately show ?thesis using inv lock(1) pc' data(3) by (auto simp: pipe_run_inv_def run_next_def)
qed

text \<open>The stages that do not touch the bytes.\<close>

lemma quiet_next_inv:
  assumes "pipe_run_inv p s" "calls s t = Some (oper, pc)" "lock_ok (pipe_lock p) k'"
    "lock_users (pipe_lock p) k' = (if inside pc' then insert t (lock_users (pipe_lock p) (run_state s)) else lock_users (pipe_lock p) (run_state s) - {t})"
    "reaches p oper pc'" "nodes_ok p ((calls s)(t := Some (oper, pc'))) k'"
    and same: "pipe_same (run_state s) k'" "pc_bytes pc' = pc_bytes pc" "pc_count pc' = pc_count pc"
  shows "pipe_run_inv p (run_next t oper pc pc' k' s)"
proof -
  obtain xs where xs: "holds_data p (run_state s) xs" "received s @ xs = sent s" using assms(1) by (auto simp: pipe_run_inv_def)
  have "bytes_read pc pc' = []" "bytes_written oper pc pc' = []"
    using same(2,3) by (simp_all add: bytes_read_def bytes_written_def split: pipe_op.split)
  then show ?thesis using run_next_inv [OF assms(1-6) xs, of xs] holds_data_same [OF same(1)] xs(1) by simp
qed

lemma same_users: "lock_same a k k' \<Longrightarrow> lock_users a k = U \<Longrightarrow> (t \<in> U) = b \<Longrightarrow> lock_users a k' = (if b then insert t U else U - {t})"
  by (auto simp: lock_sameD(2))

lemma stage_inv:
  assumes w: "wakes_as accepts wakef" "wakes_quiet wakef" and inv: "pipe_run_inv p s" and run: "runs t (run_state s)"
    and c: "calls s t = Some (oper, pc)" and o: "stays_open p oper pc (run_state s)"
  shows "\<exists>pc' k'. pipe_step raw tps wakef p t oper pc (run_state s) = Some (pc', k') \<and> pipe_run_inv p (run_next t oper pc pc' k' s)"
proof -
  define k where "k = run_state s"
  define a where "a = pipe_lock p"
  have ok: "lock_ok a k" "kernel_inv k" and us: "lock_users a k = {t. thread_inside s t}" and re: "reaches p oper pc" and no: "nodes_ok p (calls s) k"
    using inv c by (auto simp: pipe_run_inv_def k_def a_def lock_ok_def)
  have cur: "rt_current_thread k = Some t" "tstat k t = 3" using run by (simp_all add: runs_def k_def)
  have nq: "t \<notin> set (tlist k (Suspended a))" using running_not_queued [OF ok(2) cur(2)] .
  have tin: "t \<in> lock_users a k \<longleftrightarrow> inside pc" using us c by (simp add: thread_inside_def)
  note next_inv = quiet_next_inv [OF inv c, folded k_def a_def]
  have own: "\<exists>pc' k'. pipe_step raw tps wakef p t oper pc k = Some (pc', k') \<and> pipe_run_inv p (run_next t oper pc pc' k' s)"
    if pcs: "(\<exists>ret wk. pc = Locked ret wk) \<or> pc \<in> {Closing_readers, Closing_fifo, Closed}"
  proof -
    obtain xs where xs: "holds_data p k xs" "received s @ xs = sent s" using inv by (auto simp: pipe_run_inv_def k_def)
    obtain pc' k' ys where st: "pipe_step raw tps wakef p t oper pc k = Some (pc', k')" "base_same k k'" "inside pc' = inside pc" "reaches p oper pc'"
        "holds_data p k' ys" "bytes_read pc pc' @ ys = xs @ bytes_written oper pc pc'"
      using own_stage [OF xs(1) o [folded k_def] re pcs, of raw tps wakef t] unfolding stage_ok_def by blast
    have b: "lock_same a k k'" "waiting_list k' = waiting_list k" "wq_node k' = wq_node k" using st(2) ok(2) by (simp_all add: base_same_def)
    have "\<And>r next. pc \<noteq> Waiting r next" using pcs by auto
    then have "nodes_ok p ((calls s)(t := Some (oper, pc'))) k'" by (intro nodes_next [OF no c _ b(3)]) (simp_all add: b(2))
    then have "pipe_run_inv p (run_next t oper pc pc' k' s)"
      using run_next_inv [OF inv c, folded k_def a_def, OF lock_sameD(1) [OF b(1) ok(1)] _ st(4) _ xs st(5,6)]
        same_users [OF b(1) refl tin] st(3) by simp
    then show ?thesis using st(1) by blast
  qed
  show ?thesis unfolding k_def [symmetric]
  proof (cases pc)
    case (Take nx)
    let ?k = "snd (rt_mutex_take a (- 1) k)"
    have "t \<notin> lock_users a k" using tin Take by simp
    note l = take_lock [OF ok(1) cur this]
    note m = pipes_more [OF l(3)]
    have "pipe_run_inv p (run_next t oper pc nx ?k s)"
      using next_inv [of ?k nx] l(1,2) Take re m(1) nodes_next [OF no c _ m(3), where x = "Some (oper, nx)"] m(2) by simp
    then show "\<exists>pc' k'. pipe_step raw tps wakef p t oper pc k = Some (pc', k') \<and> pipe_run_inv p (run_next t oper pc pc' k' s)"
      using Take by (simp add: pipe_step_def a_def)
  next
    case (Unlock nx)
    let ?k = "snd (rt_mutex_release a k)"
    have "owner (mutex k a) = Some t" using tin Unlock nq by (simp add: lock_users_def)
    note l = release_lock [OF ok(1) cur(1) this]
    note m = pipes_more [OF l(3)]
    have "pipe_run_inv p (run_next t oper pc nx ?k s)"
      using next_inv [of ?k nx] l(1,2) Unlock re m(1) nodes_next [OF no c _ m(3), where x = "Some (oper, nx)"] m(2) by simp
    then show "\<exists>pc' k'. pipe_step raw tps wakef p t oper pc k = Some (pc', k') \<and> pipe_run_inv p (run_next t oper pc pc' k' s)"
      using Unlock by (simp add: pipe_step_def a_def)
  next
    case (Wake q key nx)
    let ?k = "rt_wqueue_wakeup wakef q key k"
    have q: "q \<in> {reader_queue p, writer_queue p}" using re Wake by simp
    have "\<forall>n \<in> set (waiting_list k q). polling_thread (wq_node k n) \<notin> set (tlist k (Suspended a))"
    proof (intro ballI notI)
      fix n assume n: "n \<in> set (waiting_list k q)" "polling_thread (wq_node k n) \<in> set (tlist k (Suspended a))"
      then have "thread_inside s (polling_thread (wq_node k n))" using us by (auto simp: lock_users_def)
      then obtain op1 pc1 where "calls s (polling_thread (wq_node k n)) = Some (op1, pc1)" "inside pc1" by (auto simp: thread_inside_def)
      moreover from this have "\<exists>r next. pc1 = Waiting r next" using no q n(1) unfolding nodes_ok_def by blast
      ultimately show False by auto
    qed
    note f = wakeup_quiet [OF w ok(2) this]
    have "pipe_run_inv p (run_next t oper pc nx ?k s)"
      using next_inv [of ?k nx] lock_sameD(1) [OF f(1) ok(1)] same_users [OF f(1) refl tin] Wake re f(2)
        nodes_next [OF no c _ f(3,4), where x = "Some (oper, nx)"] by simp
    then show "\<exists>pc' k'. pipe_step raw tps wakef p t oper pc k = Some (pc', k') \<and> pipe_run_inv p (run_next t oper pc pc' k' s)"
      using Wake by (simp add: pipe_step_def)
  next
    case (Wait q nx)
    from wait_quiet [OF ok(2) cur nq, where tps = tps and q = q and n = t]
    show "\<exists>pc' k'. pipe_step raw tps wakef p t oper pc k = Some (pc', k') \<and> pipe_run_inv p (run_next t oper pc pc' k' s)"
    proof cases
      case (1 k' r)
      have "pipe_run_inv p (run_next t oper pc nx k' s)"
        using next_inv [of k' nx] lock_sameD(1) [OF 1(2) ok(1)] same_users [OF 1(2) refl tin] Wait re 1(3)
          nodes_next [OF no c _ 1(4,5), where x = "Some (oper, nx)"] by simp
      then show ?thesis using Wait 1(1) by (simp add: pipe_step_def)
    next
      case (2 k')
      have "pipe_run_inv p (run_next t oper pc (Waiting q nx) k' s)"
        using next_inv [of k' "Waiting q nx"] lock_sameD(1) [OF 2(2) ok(1)] same_users [OF 2(2) refl tin] Wait re 2(3)
          nodes_wait [OF no c [unfolded Wait] 2(4,5)] by simp
      then show ?thesis using Wait 2(1) by (simp add: pipe_step_def)
    qed
  next
    case (Waiting q nx)
    let ?k = "snd (rt_wqueue_wait_end q t k)"
    note f = waiting_quiet(1) [OF ok(2), of a q t] waiting_quiet(2-4) [OF ok(2), of q t]
    have "pipe_run_inv p (run_next t oper pc nx ?k s)"
      using next_inv [of ?k nx] lock_sameD(1) [OF f(1) ok(1)] same_users [OF f(1) refl tin] Waiting re f(2)
        nodes_woken [OF no c [unfolded Waiting] f(3,4)] by simp
    then show "\<exists>pc' k'. pipe_step raw tps wakef p t oper pc k = Some (pc', k') \<and> pipe_run_inv p (run_next t oper pc pc' k' s)"
      using Waiting by (simp add: pipe_step_def)
  next
    case (Return r bs)
    have "pipe_run_inv p (run_next t oper pc pc k s)"
      using next_inv [of k pc] ok(1) tin Return re nodes_next [OF no c _ refl order.refl, where x = "Some (oper, pc)"] by simp
    then show "\<exists>pc' k'. pipe_step raw tps wakef p t oper pc k = Some (pc', k') \<and> pipe_run_inv p (run_next t oper pc pc' k' s)"
      using Return by (simp add: pipe_step_def)
  qed (rule own; simp)+
qed

lemma ring_cong: "0 < n \<Longrightarrow> \<forall>x. a \<le> x \<and> x < a + n \<longrightarrow> m' x = m x \<Longrightarrow> ring m' a n v c = ring m a n v c"
  by (simp add: ring_def)

lemma rest_holds_data:
  assumes "rest_of_system p cs k k'" "holds_data p k xs"
  shows "holds_data p k' xs"
proof -
  obtain a rb where f: "fifo (pipe k p) = Some (a, rb)" "rb_ok rb" "rb_contents (rb, pipe_mem k) = xs" using assms(2) by (auto simp: holds_data_def)
  have "rb_contents (rb, pipe_mem k') = xs"
    using assms(1) f ring_cong [OF rb_okD(4) [OF f(2)], of "buffer_ptr rb" "pipe_mem k'" "pipe_mem k"]
    by (simp add: rest_of_system_def rb_contents_def)
  then show ?thesis using assms f(1,2) by (simp add: holds_data_def rest_of_system_def)
qed

lemma enter_reaches: "fits oper \<Longrightarrow> reaches p oper (pipe_enter p oper k) \<and> \<not> inside (pipe_enter p oper k)"
  by (cases oper) (auto simp: pipe_enter_def fits_def pipe_fops_open_def pipe_fops_close_def pipe_fops_read_def pipe_fops_write_def
      rt_pipe_open_def rt_pipe_close_def rt_pipe_read_def rt_pipe_write_def unat_gt_0)

lemma pipe_run_step_inv:
  assumes w: "wakes_as accepts wakef" "wakes_quiet wakef" and st: "pipe_run_step raw tps wakef p s s'" and inv: "pipe_run_inv p s"
  shows "pipe_run_inv p s'"
  using st
proof cases
  case (run_call t oper)
  note e = enter_reaches [OF run_call(5), of p "run_state s"]
  have "{u. thread_inside s' u} = {u. thread_inside s u}" using run_call(1,3) e by (auto simp: thread_inside_def)
  moreover have "nodes_ok p ((calls s)(t := Some (oper, pipe_enter p oper (run_state s)))) (run_state s)"
    using inv run_call(4) by (auto simp: pipe_run_inv_def nodes_ok_def polls_def)
  ultimately show ?thesis using inv e by (auto simp: pipe_run_inv_def run_call(1))
next
  case (run_stage t oper pc pc' k')
  from stage_inv [OF w inv run_stage(2-4), of raw tps] run_stage(5)
  have "pipe_run_inv p (run_next t oper pc pc' k' s)" by simp
  then show ?thesis by (simp add: run_stage(1) run_next_def)
next
  case (run_return t oper r bs)
  have "{u. thread_inside s' u} = {u. thread_inside s u}" using run_return(1,3) by (auto simp: thread_inside_def)
  moreover have "nodes_ok p ((calls s)(t := None)) (run_state s)"
    using inv by (auto simp: pipe_run_inv_def nodes_ok_def)
  ultimately show ?thesis using inv by (auto simp: pipe_run_inv_def run_return(1))
next
  case (run_rest k')
  have l: "lock_same (pipe_lock p) (run_state s) k'" using run_rest(2) by (simp add: rest_of_system_def)
  have "nodes_ok p (calls s) k'"
    unfolding nodes_ok_def
  proof (intro ballI allI impI)
    fix q n oper pc
    assume q: "q \<in> {reader_queue p, writer_queue p}" and n: "n \<in> set (waiting_list k' q)" and c: "calls s (polling_thread (wq_node k' n)) = Some (oper, pc)"
    then have "n \<in> set (waiting_list (run_state s) q)" "wq_node k' n = wq_node (run_state s) n"
      using run_rest(2) unfolding rest_of_system_def by force+
    then show "n = polling_thread (wq_node k' n) \<and> (\<exists>r next. pc = Waiting r next)"
      using inv q c unfolding pipe_run_inv_def nodes_ok_def by metis
  qed
  moreover obtain xs where "holds_data p (run_state s) xs" "received s @ xs = sent s" using inv by (auto simp: pipe_run_inv_def)
  moreover from this(1) have "holds_data p k' xs" by (rule rest_holds_data [OF run_rest(2)])
  ultimately show ?thesis using inv lock_sameD [OF l]
    unfolding run_rest(1) by (auto simp: pipe_run_inv_def thread_inside_def)
qed

interpretation pipe_runs: safe_steps "pipe_run_init p"
  "\<lambda>s s'. wakes_as accepts wakef \<and> wakes_quiet wakef \<and> pipe_run_step raw tps wakef p s s'" "pipe_run_inv p"
  for raw tps and accepts and wakef :: "'a pipes_ext devices_ext wakeup_fn" and p
proof
  fix s :: "'a pipes_scheme pipe_run"
  show "pipe_run_init p s \<Longrightarrow> pipe_run_inv p s"
    by (auto simp: pipe_run_init_def pipe_run_inv_def thread_inside_def nodes_ok_def lock_users_def lock_ok_def mutex_inv_def split: option.splits)
qed (auto intro: pipe_run_step_inv)

section \<open>Properties\<close>

text \<open>
  C22. Threads that open, close, read and write the same pipe at the same time, in any order and with any
  interruptions, while somebody keeps it open: a running thread that works on the pipe holds its lock
  and no other thread does, no stage follows a null pointer, and the bytes the readers have been given,
  followed by those in the buffer, are exactly the bytes the writers have been told are written, in
  order: nothing is lost, doubled or reordered.
\<close>

theorem pipe_run_fifo:
  assumes "wakes_as accepts wakef" "wakes_quiet wakef" "pipe_run_init p s0" "(pipe_run_step raw tps wakef p)\<^sup>*\<^sup>* s0 s"
  shows "(\<exists>a rb. fifo (pipe (run_state s) p) = Some (a, rb) \<and> rb_ok rb \<and> received s @ rb_contents (rb, pipe_mem (run_state s)) = sent s)
    \<and> (\<forall>t. runs t (run_state s) \<and> thread_inside s t \<longrightarrow> owner (mutex (run_state s) (pipe_lock p)) = Some t)
    \<and> (\<forall>t oper pc. runs t (run_state s) \<and> calls s t = Some (oper, pc) \<and> stays_open p oper pc (run_state s)
         \<longrightarrow> pipe_step raw tps wakef p t oper pc (run_state s) \<noteq> None)"
proof -
  have "(\<lambda>s s'. wakes_as accepts wakef \<and> wakes_quiet wakef \<and> pipe_run_step raw tps wakef p s s')\<^sup>*\<^sup>* s0 s" using assms(1,2,4) by simp
  from pipe_runs.reach_inv [OF assms(3) this] have inv: "pipe_run_inv p s" .
  have "owner (mutex (run_state s) (pipe_lock p)) = Some t" if t: "runs t (run_state s)" "thread_inside s t" for t
  proof -
    have k: "kernel_inv (run_state s)" "tstat (run_state s) t = 3" using inv t(1) by (simp_all add: pipe_run_inv_def lock_ok_def runs_def)
    have "t \<in> lock_users (pipe_lock p) (run_state s)" using inv t(2) by (simp add: pipe_run_inv_def)
    then show ?thesis using running_not_queued [OF k] by (simp add: lock_users_def)
  qed
  moreover have "\<exists>a rb. fifo (pipe (run_state s) p) = Some (a, rb) \<and> rb_ok rb \<and> received s @ rb_contents (rb, pipe_mem (run_state s)) = sent s"
    using inv by (auto simp: pipe_run_inv_def holds_data_def)
  moreover have "pipe_step raw tps wakef p t oper pc (run_state s) \<noteq> None"
    if "runs t (run_state s)" "calls s t = Some (oper, pc)" "stays_open p oper pc (run_state s)" for t oper pc
    using stage_inv [OF assms(1,2) inv that(1-3), of raw tps] by auto
  ultimately show ?thesis by blast
qed

text \<open>The example: one pipe with a buffer of 8 bytes at address 100, open for a reader and a writer.\<close>

definition example_pipes :: "u8 \<Rightarrow> rt_pipe \<Rightarrow> pipes" where
  "example_pipes n v = example_running (idle_ipc (waitqueues_ext (\<lambda>_. 0) (\<lambda>_. []) (\<lambda>_. \<lparr>polling_thread = 0, node_wakeup = None, node_key = 0\<rparr>)
     (devices_ext (\<lambda>_. zero_device\<lparr>ref_count := n\<rparr>) cold_heap (pipes.fields (\<lambda>_. v) (\<lambda>_. 0) 0))))"

definition example_open :: rt_pipe where
  "example_open = \<lparr>is_named = True, fifo = Some (80, rt_ringbuffer_init rb_raw 100 8), bufsz = 8, readers = 1, writers = 1\<rparr>"

lemma example_pipes_sel [simp]:
  "kernel_inv (example_pipes n v)" "rt_current_thread (example_pipes n v) = Some 1" "tstat (example_pipes n v) = (\<lambda>_. 0)(0 := 1, 1 := 3, 2 := 1)"
  "tlist (example_pipes n v) = (\<lambda>_. [])(Ready 31 := [0], Ready 10 := [2])"
  "mutex (example_pipes n v) a = \<lparr>mutex_value = 1, original_priority = 0xFF, hold = 0, owner = None\<rparr>" "ipc_flag (example_pipes n v) a = 0"
  "waiting_list (example_pipes n v) q = []" "device (example_pipes n v) d = zero_device\<lparr>ref_count := n\<rparr>" "dev_heap (example_pipes n v) = cold_heap"
  "pipe (example_pipes n v) p = v" "pipe_mem (example_pipes n v) = (\<lambda>_. 0)"
  by (simp_all add: example_pipes_def example_running_inv)
    (simp_all add: ipc_flag_def example_running_def example_kernel_def boot_kernel_def idle_ipc_def zero_object_def pipes.defs)

lemma example_run_init: "pipe_run_init 200 \<lparr>run_state = example_pipes 2 example_open, calls = (\<lambda>_. None), sent = [], received = []\<rparr>"
  using rb_example rt_ringbuffer_init_effect(4) [of 8 rb_raw 100]
  by (simp add: pipe_run_init_def lock_ok_def mutex_inv_def holds_data_def example_open_def)

definition example_wakeup :: "unit pipes_ext devices_ext wakeup_fn" where
  "example_wakeup = (\<lambda>_ _ _ k. (0, k))"

lemma example_wakeup_ok: "wakes_as (\<lambda>_ _ _. True) example_wakeup" "wakes_quiet example_wakeup"
  by (simp_all add: wakes_as_def wakes_quiet_def example_wakeup_def wqueue_only_def)

definition example_run :: "pipes pipe_run" where
  "example_run = \<lparr>run_state = example_pipes 2 example_open, calls = (\<lambda>_. None), sent = [], received = []\<rparr>"

theorem pipe_run_fifo_witness:
  "pipe_step rb_raw 1000 example_wakeup 200 1 (Fops_write 1 (\<lambda>_. 7) 3) (Take (Locked 0 False)) (example_pipes 2 example_open) \<noteq> None"
proof -
  let ?w = "Fops_write 1 (\<lambda>_. 7) 3"
  define s1 where "s1 = example_run\<lparr>calls := (calls example_run)(1 := Some (?w, pipe_enter 200 ?w (run_state example_run)))\<rparr>"
  have "runs 1 (run_state example_run)" "calls example_run 1 = None" "\<not> polls 200 1 (run_state example_run)" "fits ?w"
    by (simp_all add: example_run_def runs_def polls_def fits_def)
  then have "pipe_run_step rb_raw 1000 example_wakeup 200 example_run s1" unfolding s1_def by (rule run_call)
  then have "(pipe_run_step rb_raw 1000 example_wakeup 200)\<^sup>*\<^sup>* example_run s1" by (rule r_into_rtranclp)
  note f = pipe_run_fifo [OF example_wakeup_ok example_run_init [folded example_run_def] this, THEN conjunct2, THEN conjunct2, rule_format, of 1 ?w]
  have e: "run_state s1 = example_pipes 2 example_open" "calls s1 1 = Some (?w, Take (Locked 0 False))"
    by (simp_all add: s1_def example_run_def pipe_enter_def pipe_fops_write_def example_open_def)
  then have "runs 1 (run_state s1) \<and> calls s1 1 = Some (?w, Take (Locked 0 False)) \<and> stays_open 200 ?w (Take (Locked 0 False)) (run_state s1)"
    by (simp add: runs_def stays_open_def)
  from f [OF this] show ?thesis unfolding e(1) .
qed

end
