(* ===== verification/Pipe_Life.thy ===== *)
theory Pipe_Life
  imports Pipe_Run
begin

text \<open>
  The life of a pipe: the descriptors that have it open, and the memory its buffer takes while there are any.
  The stages of opening and closing are run one after the other, as they are under the lock of the pipe.
\<close>

section \<open>Descriptors and memory\<close>

definition heap_fine :: "small_heap \<Rightarrow> bool" where
  "heap_fine h \<longleftrightarrow> heap_ok h \<and> 0 < heap_sem h \<and> heap_stats h"

definition can_read :: "u32 \<Rightarrow> bool" where
  "can_read flags \<longleftrightarrow> flags AND O_ACCMODE \<in> {O_RDONLY, O_RDWR}"

definition can_write :: "u32 \<Rightarrow> bool" where
  "can_write flags \<longleftrightarrow> flags AND O_ACCMODE \<in> {O_WRONLY, O_RDWR}"

text \<open>The buffer \<open>(a, rb)\<close> lives in two blocks of the heap beside the blocks \<open>L\<close> of others.\<close>

definition buffer_lives :: "(addr \<times> nat) set \<Rightarrow> addr \<times> rt_ringbuffer \<Rightarrow> small_heap \<Rightarrow> bool" where
  "buffer_lives L f h \<longleftrightarrow> (case f of (a, rb) \<Rightarrow> rb_ok rb \<and> (\<exists>e g. heap_live h = insert (buffer_ptr rb, g) (insert (a, e) L)
     \<and> (a, e) \<notin> L \<and> (buffer_ptr rb, g) \<notin> insert (a, e) L \<and> a + 12 \<le> e \<and> buffer_ptr rb + rb_size rb \<le> g))"

text \<open>\<open>fds\<close> are the flags of the descriptors that are open.\<close>

definition pipe_life :: "addr \<Rightarrow> (addr \<times> nat) set \<Rightarrow> u32 list \<Rightarrow> 'a pipes_scheme \<Rightarrow> bool" where
  "pipe_life p L fds k \<longleftrightarrow> length fds < 256 \<and> 4 \<le> unat (bufsz (pipe k p)) \<and> unat (bufsz (pipe k p)) < 2 ^ 15
     \<and> unat (ref_count (device k p)) = length fds
     \<and> unat (readers (pipe k p)) = length (filter can_read fds) \<and> unat (writers (pipe k p)) = length (filter can_write fds)
     \<and> heap_fine (dev_heap k)
     \<and> (case fifo (pipe k p) of None \<Rightarrow> fds = [] \<and> heap_live (dev_heap k) = L | Some f \<Rightarrow> fds \<noteq> [] \<and> buffer_lives L f (dev_heap k))"

lemma buffer_create:
  assumes "heap_fine h" "4 \<le> unat sz" "unat sz < 2 ^ 15"
  obtains h' where "rt_ringbuffer_create sz raw h = Some (None, h')" "heap_fine h'" "heap_live h' = heap_live h"
  | f h' where "rt_ringbuffer_create sz raw h = Some (Some f, h')" "heap_fine h'" "buffer_lives (heap_live h) f h'" "rb_contents (snd f, m) = []"
proof -
  have h: "heap_ok h" "0 < heap_sem h" "heap_stats h" using assms(1) by (simp_all add: heap_fine_def)
  show thesis
    using h
  proof (cases rule: rt_ringbuffer_create_cases [where sz = sz and raw = raw])
    case (1 h')
    then show thesis using that(1) by (simp add: heap_fine_def)
  next
    case (2 p pool h' e f)
    let ?z = "sz AND NOT 3"
    define rb where "rb = rt_ringbuffer_init raw pool ?z"
    have "4 \<le> unat ?z" "unat ?z < 2 ^ 15" using assms(2,3) unfolding and_not3_16 by presburger+
    then have r: "rb_ok rb" "buffer_ptr rb = pool" "rb_size rb \<le> unat ?z" "rb_contents (rb, m) = []"
      using rt_ringbuffer_init_effect [of ?z raw pool] unfolding rb_def by simp_all
    have "pool + rb_size rb \<le> f" using r(3) 2(9) by linarith
    then have "buffer_lives (heap_live h) (p, rb) h'" using r(1) 2(5-8) unfolding buffer_lives_def prod.case r(2) by blast
    then show thesis using that(2) [OF 2(1) [folded rb_def]] 2(2-4) r(4) by (simp add: heap_fine_def)
  qed
qed

lemma buffer_destroy:
  assumes "heap_fine h" "buffer_lives L f h"
  shows "\<exists>h'. rt_ringbuffer_destroy f h = Some h' \<and> heap_fine h' \<and> heap_live h' = L"
proof -
  obtain a rb e g where f: "f = (a, rb)" and l: "heap_live h = insert (buffer_ptr rb, g) (insert (a, e) L)" "(a, e) \<notin> L"
      "(buffer_ptr rb, g) \<notin> insert (a, e) L"
    using assms(2) by (auto simp: buffer_lives_def split: prod.splits)
  have "(buffer_ptr rb, g) \<in> heap_live h" using l(1) by simp
  from small_mem.release [OF assms(1) [unfolded heap_fine_def] this] obtain h1 where h1: "rt_free (Some (buffer_ptr rb)) h = Some h1"
    "heap_ok h1 \<and> 0 < heap_sem h1 \<and> heap_stats h1" "heap_live h1 = heap_live h - {(buffer_ptr rb, g)}" by blast
  have "(a, e) \<in> heap_live h1" using h1(3) l by auto
  from small_mem.release [OF h1(2) this] obtain h2 where "rt_free (Some a) h1 = Some h2" "heap_ok h2 \<and> 0 < heap_sem h2 \<and> heap_stats h2"
    "heap_live h2 = heap_live h1 - {(a, e)}" by blast
  then show ?thesis using h1 l f by (auto simp: rt_ringbuffer_destroy_def heap_fine_def)
qed

section \<open>Opening and closing\<close>

lemma count_lt [simp]: "unat (x :: u8) < 256"
  using unsigned_less [of x] by simp

lemma count_words:
  "unat (x :: u8) < 255 \<Longrightarrow> unat (x + 1) = unat x + 1" "0 < unat x \<Longrightarrow> unat (x - 1) = unat x - 1"
  by (simp_all add: unat_add_no_wrap unat_sub_le word_le_nat_alt)

text \<open>The counts of a descriptor that is opened or closed.\<close>

lemma count_open_counts:
  assumes "unat (readers v) < 255" "unat (writers v) < 255"
  shows "unat (readers (count_open flags v)) = unat (readers v) + (if can_read flags then 1 else 0)"
    "unat (writers (count_open flags v)) = unat (writers v) + (if can_write flags then 1 else 0)" "bufsz (count_open flags v) = bufsz v"
  using assms by (auto simp: count_open_def can_read_def can_write_def Let_def count_words)

lemma count_close_counts:
  assumes "can_read flags \<Longrightarrow> 0 < unat (readers v)" "can_write flags \<Longrightarrow> 0 < unat (writers v)"
  shows "unat (readers (count_close flags v)) = unat (readers v) - (if can_read flags then 1 else 0)"
    "unat (writers (count_close flags v)) = unat (writers v) - (if can_write flags then 1 else 0)" "bufsz (count_close flags v) = bufsz v"
  using assms by (auto simp: count_close_def can_read_def can_write_def Let_def count_words)

text \<open>\<open>close_stages\<close> are the stages of \<open>pipe_fops_close\<close> that change the pipe.\<close>

definition close_stages :: "addr \<Rightarrow> u32 \<Rightarrow> 'a pipes_scheme \<Rightarrow> 'a pipes_scheme option" where
  "close_stages p flags k = Option.bind (pipe_fops_close_locked p flags k) (\<lambda>(_, k). map_option snd (pipe_fops_close_fifo p k))"

lemma runs_device [simp]: "runs t (upd_device p g k) = runs t k"
  by (simp add: runs_def upd_device_def tstat_def)

lemma heap_frame [simp]:
  "dev_heap (upd_pipe p f k) = dev_heap k" "dev_heap (set_fifo p x k) = dev_heap k"
  by (simp_all add: upd_pipe_def set_fifo_def)

lemma life_open:
  assumes life: "pipe_life p L fds k" and n: "length fds < 255"
  shows "\<exists>pc k'. pipe_fops_open_locked raw p flags k = Some (pc, k')
    \<and> (pc = Unlock (Return 0 []) \<and> pipe_life p L (flags # fds) k' \<and> (fds = [] \<longrightarrow> holds_data p k' [])
       \<or> fds = [] \<and> pc = Unlock (Return (- RT_ENOMEM) []) \<and> pipe_life p L [] k')"
proof -
  let ?v = "pipe k p"
  have c: "unat (readers ?v) < 255" "unat (writers ?v) < 255" "unat (ref_count (device k p)) < 255"
    using life n order.strict_trans1 [OF length_filter_le, of fds 255] by (auto simp: pipe_life_def)
  note counts = count_open_counts [of ?v, OF c(1,2), of flags] count_words(1) [OF c(3)]
  show ?thesis
  proof (cases "fds = []")
    case False
    then have "ref_count (device k p) \<noteq> 0" using life by (auto simp: pipe_life_def)
    then show ?thesis using life n counts False
      by (auto simp: pipe_fops_open_locked_def Let_def pipe_life_def split: option.splits)
  next
    case True
    then have e: "ref_count (device k p) = 0" "heap_fine (dev_heap k)" "heap_live (dev_heap k) = L"
      "4 \<le> unat (bufsz ?v)" "unat (bufsz ?v) < 2 ^ 15" "fifo ?v = None"
      using life by (auto simp: pipe_life_def unat_eq_zero split: option.splits)
    show ?thesis
      using e(2,4,5)
    proof (cases rule: buffer_create [where raw = raw and m = "pipe_mem k"])
      case (1 h')
      then show ?thesis using life e True by (auto simp: pipe_fops_open_locked_def pipe_fifo_create_def Let_def pipe_life_def)
    next
      case (2 f h')
      obtain a rb where f: "f = (a, rb)" by force
      let ?k = "upd_device p (\<lambda>d. d\<lparr>ref_count := ref_count d + 1\<rparr>) (upd_pipe p (count_open flags) (set_fifo p (Some f) (k\<lparr>dev_heap := h'\<rparr>)))"
      have "pipe_fops_open_locked raw p flags k = Some (Unlock (Return 0 []), ?k)"
        using 2(1) e(1) by (simp add: pipe_fops_open_locked_def pipe_fifo_create_def)
      moreover have "pipe_life p L (flags # fds) ?k" using life e 2(2,3) counts n True count_open_counts [of "?v\<lparr>fifo := Some f\<rparr>" flags]
        by (simp add: pipe_life_def)
      moreover have "holds_data p ?k []" using 2(3,4) counts(4) e(1) by (simp add: holds_data_def f buffer_lives_def)
      ultimately show ?thesis by blast
    qed
  qed
qed

lemma life_close:
  assumes life: "pipe_life p L (xs @ flags # ys) k"
  shows "\<exists>k'. close_stages p flags k = Some k' \<and> pipe_life p L (xs @ ys) k'"
proof -
  let ?v = "pipe k p"
  have c: "can_read flags \<Longrightarrow> 0 < unat (readers ?v)" "can_write flags \<Longrightarrow> 0 < unat (writers ?v)" "0 < unat (ref_count (device k p))"
    using life by (auto simp: pipe_life_def)
  obtain f where f: "fifo ?v = Some f" "buffer_lives L f (dev_heap k)" "heap_fine (dev_heap k)"
    using life by (auto simp: pipe_life_def split: option.splits)
  note counts = count_close_counts [of flags ?v, OF c(1,2)] count_words(2) [OF c(3)]
  have one: "ref_count (device k p) = 1 \<longleftrightarrow> xs @ ys = []"
    using life unat_1 [where 'a = 8] by (auto simp: pipe_life_def word_unat_eq_iff)
  show ?thesis
  proof (cases "xs @ ys = []")
    case True
    obtain h' where h': "rt_ringbuffer_destroy f (dev_heap k) = Some h'" "heap_fine h'" "heap_live h' = L" using buffer_destroy [OF f(3,2)] by blast
    show ?thesis using life counts True one f(1) h'
      by (auto simp: close_stages_def pipe_fops_close_locked_def pipe_fops_close_fifo_def pipe_fifo_destroy_def pipe_life_def Let_def)
  next
    case False
    then show ?thesis using life counts one f
      by (auto simp: close_stages_def pipe_fops_close_locked_def pipe_fops_close_fifo_def pipe_life_def Let_def)
  qed
qed

text \<open>Reading and writing leave the buffer where it is.\<close>

lemma life_fifo:
  assumes "pipe_life p L fds k" "fifo (pipe k p) = Some (a, rb)" "rb_ok rb'" "buffer_ptr rb' = buffer_ptr rb" "rb_size rb' = rb_size rb"
  shows "pipe_life p L fds (set_fifo p (Some (a, rb')) (k\<lparr>pipe_mem := m\<rparr>))"
  using assms by (simp add: pipe_life_def buffer_lives_def)

lemma life_transfer:
  assumes life: "pipe_life p L fds k" and n: "fds \<noteq> []"
  shows "\<exists>pc k'. pipe_fops_read_locked p flags count k = Some (pc, k') \<and> pipe_life p L fds k'"
    "\<exists>pc k'. pipe_fops_write_locked p flags buf count ret wk k = Some (pc, k') \<and> pipe_life p L fds k'"
proof -
  obtain a rb where f: "fifo (pipe k p) = Some (a, rb)" "rb_ok rb"
    using life n by (auto simp: pipe_life_def buffer_lives_def split: option.splits)
  have keep: "k\<lparr>pipe_mem := pipe_mem k\<rparr> = k" by simp
  show "\<exists>pc k'. pipe_fops_read_locked p flags count k = Some (pc, k') \<and> pipe_life p L fds k'"
    using rt_ringbuffer_get_effect [OF f(2), of "ucast count" "pipe_mem k"] f(1) life life_fifo [OF life f(1)]
    by (auto simp: pipe_fops_read_locked_def Let_def) (metis keep)+
  show "\<exists>pc k'. pipe_fops_write_locked p flags buf count ret wk k = Some (pc, k') \<and> pipe_life p L fds k'"
    using rt_ringbuffer_put_effect [OF f(2), of "\<lambda>i. buf (unat ret + i)" "ucast (count - ret)" "pipe_mem k"] f(1) life life_fifo [OF life f(1)]
    by (auto simp: pipe_fops_write_locked_def Let_def)
qed

section \<open>Alone\<close>

text \<open>A call that nobody interrupts and that need not wait: its stages one after the other, at most \<open>m\<close> of them.\<close>

fun pipe_alone :: "nat \<Rightarrow> rt_ringbuffer \<Rightarrow> int \<Rightarrow> 'a pipes_ext devices_ext wakeup_fn \<Rightarrow> addr \<Rightarrow> nat \<Rightarrow> pipe_op \<Rightarrow> pipe_pc \<Rightarrow> 'a pipes_scheme
    \<Rightarrow> (int \<times> 'a pipes_scheme) option" where
  "pipe_alone 0 raw tps wakef p n oper pc k = None"
| "pipe_alone (Suc m) raw tps wakef p n oper pc k = (case pc of
     Return r bs \<Rightarrow> Some (r, k)
   | _ \<Rightarrow> Option.bind (pipe_step raw tps wakef p n oper pc k) (\<lambda>(pc, k). pipe_alone m raw tps wakef p n oper pc k))"

lemma take_free:
  assumes "lock_ok a k" "rt_current_thread k = Some t" "tstat k t = 3" "owner (mutex k a) = None"
  defines "k' \<equiv> snd (rt_mutex_take a (- 1) k)"
  shows "lock_ok a k'" "ipc.more k' = ipc.more k" "rt_current_thread k' = Some t" "owner (mutex k' a) = Some t"
proof -
  have k: "kernel_inv k" "mutex_inv a k" using assms(1) by (auto simp: lock_ok_def)
  have "t \<notin> lock_users a k" using k(2) assms(4) by (simp add: lock_users_def mutex_inv_def)
  note t = take_lock [OF assms(1-3) this]
  show "lock_ok a k'" "ipc.more k' = ipc.more k" using t(1,3) by (simp_all add: k'_def)
  show "rt_current_thread k' = Some t" "owner (mutex k' a) = Some t"
    using k assms(2,3) by (cases rule: rt_mutex_take_cases [where time = "- 1"]; use assms(2,4) in \<open>simp add: k'_def\<close>)+
qed

lemma pipe_close_alone:
  assumes "lock_ok (pipe_lock p) k" "runs t k" "owner (mutex k (pipe_lock p)) = None" "ref_count (device k p) \<noteq> 1"
  shows "\<exists>k'. pipe_alone 4 raw tps wakef p n Dev_close (rt_pipe_close (Some p)) k = Some (RT_EOK, k') \<and> pipe_same k k' \<and> dev_heap k' = dev_heap k"
proof -
  have r: "rt_current_thread k = Some t" "tstat k t = 3" using assms(2) by (simp_all add: runs_def)
  define k1 where "k1 = snd (rt_mutex_take (pipe_lock p) (- 1) k)"
  define k2 where "k2 = snd (rt_mutex_release (pipe_lock p) k1)"
  note t = take_free [OF assms(1) r assms(3), folded k1_def]
  note m1 = pipes_more [OF t(2)]
  note m2 = pipes_more [OF release_lock(3) [OF t(1,3,4)], folded k2_def]
  have "ref_count (device k1 p) \<noteq> 1" using assms(4) m1(1) by (simp add: pipe_same_def)
  then have "pipe_alone 4 raw tps wakef p n Dev_close (rt_pipe_close (Some p)) k = Some (RT_EOK, k2)"
    by (simp add: numeral_eq_Suc rt_pipe_close_def pipe_step_def pipe_locked_def rt_pipe_close_locked_def k1_def k2_def)
  then show ?thesis using pipe_same_trans [OF m1(1) m2(1)] m1(5) m2(5) by auto
qed

section \<open>Properties\<close>

text \<open>
  C32. The descriptors of a pipe: while no more than 255 are open, the reference count is the number of open
  descriptors, \<open>readers\<close> and \<open>writers\<close> count those that may read and write, and the buffer exists exactly while
  there is a descriptor: the first open creates it empty in two blocks of the heap that overlap nothing (or
  fails and changes nothing), reads, writes and further opens and closes keep it, and the last close gives
  exactly these blocks back.
\<close>

theorem pipe_descriptors:
  assumes "pipe_life p L fds k"
  shows "(length fds < 255 \<longrightarrow> (\<exists>pc k'. pipe_fops_open_locked raw p flags k = Some (pc, k')
        \<and> (pc = Unlock (Return 0 []) \<and> pipe_life p L (flags # fds) k' \<and> (fds = [] \<longrightarrow> holds_data p k' [])
           \<or> fds = [] \<and> pc = Unlock (Return (- RT_ENOMEM) []) \<and> pipe_life p L [] k')))
    \<and> (\<forall>xs ys. fds = xs @ flags # ys \<longrightarrow> (\<exists>k'. close_stages p flags k = Some k' \<and> pipe_life p L (xs @ ys) k'))
    \<and> (fds \<noteq> [] \<longrightarrow> (\<exists>pc k'. pipe_fops_read_locked p flags count k = Some (pc, k') \<and> pipe_life p L fds k')
        \<and> (\<exists>pc k'. pipe_fops_write_locked p flags buf count ret wk k = Some (pc, k') \<and> pipe_life p L fds k'))
    \<and> unat (ref_count (device k p)) = length fds \<and> (fifo (pipe k p) = None \<longleftrightarrow> fds = []) \<and> (fds = [] \<longrightarrow> heap_live (dev_heap k) = L)"
proof -
  have "fifo (pipe k p) = None \<longleftrightarrow> fds = []" "fds = [] \<longrightarrow> heap_live (dev_heap k) = L" "unat (ref_count (device k p)) = length fds"
    using assms by (auto simp: pipe_life_def split: option.splits)
  then show ?thesis using life_open [OF assms, of raw flags] life_close [of p L _ flags _ k] life_transfer(1) [OF assms, of flags count]
      life_transfer(2) [OF assms, of flags buf count ret wk] assms by blast
qed

theorem pipe_descriptors_witness:
  "\<exists>pc k'. pipe_fops_open_locked rb_raw 200 2 (example_pipes 0 \<lparr>is_named = True, fifo = None, bufsz = 64, readers = 0, writers = 0\<rparr>) = Some (pc, k')
     \<and> (pipe_life 200 {} [2] k' \<or> pipe_life 200 {} [] k')"
proof -
  have "pipe_life 200 {} [] (example_pipes 0 \<lparr>is_named = True, fifo = None, bufsz = 64, readers = 0, writers = 0\<rparr>)"
    using cold_heap by (simp add: pipe_life_def heap_fine_def zero_device_def)
  from pipe_descriptors [OF this, of rb_raw 2, THEN conjunct1] show ?thesis by auto
qed

text \<open>
  C39. Closing a pipe through the device interface never frees its buffer: \<open>rt_device_close\<close> has taken the
  count down to zero when it calls \<open>rt_pipe_close\<close>, which frees the buffer only at a count of one. The data
  stay in it, and when a descriptor is opened next, \<open>pipe_fops_open\<close> puts a new buffer in the place of the
  old one, whose blocks stay allocated.
\<close>

theorem pipe_device_close_leaks:
  assumes "lock_ok (pipe_lock p) k" "runs t k" "owner (mutex k (pipe_lock p)) = None"
    and "ref_count (device k p) = 1" "device_close (device k p) = Some f"
    and "\<And>k. drv_close drv f p k = (case pipe_alone 4 raw tps wakef p n Dev_close (rt_pipe_close (Some p)) k of
         None \<Rightarrow> (- RT_ERROR, k) | Some (r, k) \<Rightarrow> (r, k))"
    and "heap_fine (dev_heap k)" "4 \<le> unat (bufsz (pipe k p))" "unat (bufsz (pipe k p)) < 2 ^ 15"
  shows "case rt_device_close drv p k of (r, k') \<Rightarrow> r = RT_EOK \<and> ref_count (device k' p) = 0 \<and> pipe k' = pipe k \<and> pipe_mem k' = pipe_mem k
    \<and> dev_heap k' = dev_heap k
    \<and> (\<exists>pc k2. pipe_fops_open_locked raw p flags k' = Some (pc, k2) \<and> heap_live (dev_heap k) \<subseteq> heap_live (dev_heap k2)
         \<and> (fifo (pipe k2 p) = None \<or> holds_data p k2 []))"
proof -
  define k1 where "k1 = upd_device p (\<lambda>v. v\<lparr>ref_count := ref_count v - 1\<rparr>) k"
  have l: "lock_same (pipe_lock p) k k1" using base_same_upd(2) assms(1) unfolding k1_def base_same_def lock_ok_def by blast
  have "lock_ok (pipe_lock p) k1" "runs t k1" "owner (mutex k1 (pipe_lock p)) = None" "ref_count (device k1 p) = 0"
    using lock_sameD(1) [OF l assms(1)] assms(2,3,4) l by (simp_all add: k1_def lock_same_def)
  then obtain k2 where k2: "pipe_alone 4 raw tps wakef p n Dev_close (rt_pipe_close (Some p)) k1 = Some (RT_EOK, k2)"
      "pipe_same k1 k2" "dev_heap k2 = dev_heap k1"
    using pipe_close_alone [of p k1 t raw tps wakef n] by auto
  define k3 where "k3 = upd_device p (\<lambda>v. v\<lparr>open_flag := RT_DEVICE_OFLAG_CLOSE\<rparr>) k2"
  have "drv_close drv f p k1 = (RT_EOK, k2)" using k2(1) by (simp add: assms(6))
  then have e: "rt_device_close drv p k = (RT_EOK, k3)"
    using assms(4,5) by (simp add: rt_device_close_def k3_def k1_def [symmetric]) (simp add: k1_def)
  have s: "ref_count (device k3 p) = 0" "pipe k3 = pipe k" "pipe_mem k3 = pipe_mem k" "dev_heap k3 = dev_heap k"
    using k2(2,3) assms(4) by (simp_all add: k3_def pipe_same_def) (simp_all add: k1_def)
  have "\<exists>pc k4. pipe_fops_open_locked raw p flags k3 = Some (pc, k4) \<and> heap_live (dev_heap k) \<subseteq> heap_live (dev_heap k4)
         \<and> (fifo (pipe k4 p) = None \<or> holds_data p k4 [])"
    using assms(7-9)
  proof (cases rule: buffer_create [where raw = raw and m = "pipe_mem k"])
    case (1 h')
    then show ?thesis using s by (simp add: pipe_fops_open_locked_def pipe_fifo_create_def)
  next
    case (2 b h')
    obtain a rb where b: "b = (a, rb)" by force
    show ?thesis using 2 s by (auto simp: pipe_fops_open_locked_def pipe_fifo_create_def holds_data_def b buffer_lives_def)
  qed
  then show ?thesis using s by (simp add: e)
qed

theorem pipe_device_close_leaks_witness:
  "case rt_device_close (\<lparr>drv_init = \<lambda>_ _ k. (RT_EOK, k), drv_open = \<lambda>_ _ _ k. (RT_EOK, k),
        drv_close = \<lambda>_ p k. (case pipe_alone 4 rb_raw 1000 example_wakeup p 1 Dev_close (rt_pipe_close (Some p)) k of
           None \<Rightarrow> (- RT_ERROR, k) | Some (r, k) \<Rightarrow> (r, k)),
        drv_read = \<lambda>_ _ _ _ _ k. (0, k), drv_write = \<lambda>_ _ _ _ _ k. (0, k), drv_control = \<lambda>_ _ _ _ k. (RT_EOK, k)\<rparr>) 200
      (upd_device 200 (\<lambda>d. d\<lparr>device_close := Some 0\<rparr>) (example_pipes 1 example_open)) of
    (r, k) \<Rightarrow> r = RT_EOK \<and> ref_count (device k 200) = 0 \<and> pipe k 200 = example_open"
proof -
  let ?k = "upd_device 200 (\<lambda>d. d\<lparr>device_close := Some 0\<rparr>) (example_pipes 1 example_open)"
  have l: "lock_same (pipe_lock 200) (example_pipes 1 example_open) ?k" using base_same_upd(2) [of "example_pipes 1 example_open" 200 "\<lambda>d. d\<lparr>device_close := Some 0\<rparr>"]
    by (simp add: base_same_def)
  have "lock_ok (pipe_lock 200) (example_pipes 1 example_open)" by (simp add: lock_ok_def mutex_inv_def)
  from lock_sameD(1) [OF l this] l have k: "lock_ok (pipe_lock 200) ?k" "owner (mutex ?k (pipe_lock 200)) = None"
    by (simp_all add: lock_same_def)
  have r: "runs 1 ?k" "ref_count (device ?k 200) = 1" "device_close (device ?k 200) = Some 0" "heap_fine (dev_heap ?k)"
    "unat (bufsz (pipe ?k 200)) = 8" "pipe ?k 200 = example_open"
    using cold_heap by (simp_all add: zero_device_def heap_fine_def example_open_def) (simp_all add: runs_def)
  show ?thesis
    using pipe_device_close_leaks [OF k(1) r(1) k(2) r(2,3) _ r(4), where raw = rb_raw and tps = 1000 and wakef = example_wakeup and n = 1] r(5,6)
    by (auto simp: case_prod_beta)
qed

end
