(* ===== verification/Dfs_Path.thy ===== *)
theory Dfs_Path
  imports Mem_Align Printf
begin

text \<open>
  Paths of the device file system, \<^verbatim>\<open>rt-thread/components/dfs/src/dfs.c\<close>: \<open>dfs_normalize_path\<close> makes a name
  absolute and takes the dots out of it, in place, in a block of the heap; \<open>dfs_subdir\<close> is the part of a name
  behind a directory. The memory is the \<open>bytes\<close> of the heap. A loop that does not end has the value \<open>None\<close>.
\<close>

section \<open>Operations\<close>

abbreviation (input) slash :: u8 where "slash \<equiv> 47"
abbreviation (input) dot :: u8 where "dot \<equiv> 46"

text \<open>\<^verbatim>\<open>while (*src == '/') src++\<close>, and the copy of a name up to a slash or the end: \<open>c\<close> is the character behind it
  and \<open>src\<close> points past that.\<close>

partial_function (option) skip_slashes :: "memory \<Rightarrow> addr \<Rightarrow> addr option" where
  "skip_slashes m src = (if m src = slash then skip_slashes m (src + 1) else Some src)"

partial_function (option) copy_name :: "memory \<Rightarrow> addr \<Rightarrow> addr \<Rightarrow> (u8 \<times> memory \<times> addr \<times> addr) option" where
  "copy_name m dst src =
     (let c = m src; src = src + 1
      in if c \<noteq> 0 \<and> c \<noteq> slash then copy_name (m(dst := c)) (dst + 1) src else Some (c, m, dst, src))"

function strip_name :: "memory \<Rightarrow> addr \<Rightarrow> addr \<Rightarrow> addr" where
  "strip_name m dst0 dst = (if dst0 < dst \<and> m (dst - 1) \<noteq> slash then strip_name m dst0 (dst - 1) else dst)"
  by pat_completeness auto
termination by (relation "measure (\<lambda>(_, _, dst). dst)") auto

declare strip_name.simps [simp del]

text \<open>\<open>up_one\<close>: \<open>None\<close> when the start of the path is passed.\<close>

definition up_one :: "memory \<Rightarrow> addr \<Rightarrow> addr \<Rightarrow> addr option" where
  "up_one m dst0 dst = (if dst = dst0 then None else Some (strip_name m dst0 (dst - 1)))"

text \<open>The loop, with \<open>dst\<close> at its end; no \<open>dst\<close> is the way to the return of \<open>NULL\<close>.\<close>

partial_function (option) norm_loop :: "memory \<Rightarrow> addr \<Rightarrow> addr \<Rightarrow> addr \<Rightarrow> (memory \<times> addr option) option" where
  "norm_loop m dst0 dst src =
     (if m src = dot \<and> m (src + 1) = slash then
        Option.bind (skip_slashes m (src + 2)) (norm_loop m dst0 dst)
      else if m src = dot \<and> m (src + 1) = dot \<and> (m (src + 2) = 0 \<or> m (src + 2) = slash) then
        Option.bind (if m (src + 2) = 0 then Some (src + 2) else skip_slashes m (src + 3)) (\<lambda>src.
          case up_one m dst0 dst of None \<Rightarrow> Some (m, None) | Some dst \<Rightarrow> norm_loop m dst0 dst src)
      else
        Option.bind (copy_name m dst (if m src = dot \<and> m (src + 1) = 0 then src + 1 else src)) (\<lambda>(c, m, dst, src).
          if c = slash then
            Option.bind (skip_slashes (m(dst := slash)) src) (norm_loop (m(dst := slash)) dst0 (dst + 1))
          else Some (m, Some dst)))"

text \<open>What follows the loop; a path is never at address 0.\<close>

definition norm_end :: "addr \<Rightarrow> addr \<Rightarrow> memory \<Rightarrow> memory" where
  "norm_end fullpath dst m =
     (let m = m(dst := 0); dst = dst - 1;
          m = (if dst \<noteq> fullpath \<and> m dst = slash then m(dst := 0) else m)
      in if m fullpath = 0 then m(fullpath := slash, fullpath + 1 := 0) else m)"

text \<open>Everything behind the allocation.\<close>

definition norm_block :: "addr \<Rightarrow> small_heap \<Rightarrow> (addr option \<times> small_heap) option" where
  "norm_block fullpath h =
     (case norm_loop (bytes h) fullpath fullpath fullpath of
        None \<Rightarrow> None
      | Some (m, None) \<Rightarrow> map_option (\<lambda>h. (None, h)) (rt_free (Some fullpath) (h\<lparr>bytes := m\<rparr>))
      | Some (m, Some dst) \<Rightarrow> Some (Some fullpath, h\<lparr>bytes := norm_end fullpath dst m\<rparr>))"

definition dfs_normalize_path :: "cstring \<Rightarrow> cstring option \<Rightarrow> cstring \<Rightarrow> small_heap \<Rightarrow> (addr option \<times> small_heap) option" where
  "dfs_normalize_path working_directory directory filename h =
     (let directory = (case directory of None \<Rightarrow> working_directory | Some d \<Rightarrow> d)
      in if chr_at filename \<noteq> slash then
           let sz = rt_strlen directory + rt_strlen filename + 2
           in case rt_malloc (word_of_nat sz) h of
                None \<Rightarrow> None
              | Some (None, h) \<Rightarrow> Some (None, h)
              | Some (Some fullpath, h) \<Rightarrow>
                  (case rt_snprintf fullpath (unat (word_of_nat sz :: u32)) (map ascii ''%s/%s'') [Va_string (Some directory), Va_string (Some filename)] (bytes h) of
                     None \<Rightarrow> None
                   | Some (_, m) \<Rightarrow> norm_block fullpath (h\<lparr>bytes := m\<rparr>))
         else
           case rt_strdup filename h of
             None \<Rightarrow> None
           | Some (None, h) \<Rightarrow> Some (None, h)
           | Some (Some fullpath, h) \<Rightarrow> norm_block fullpath h)"

text \<open>\<open>dfs_subdir\<close> returns an offset into \<open>filename\<close>.\<close>

definition dfs_subdir :: "cstring \<Rightarrow> cstring \<Rightarrow> nat option" where
  "dfs_subdir directory filename =
     (if rt_strlen directory = rt_strlen filename then None
      else
        let dir = rt_strlen directory
        in Some (if chr_at (drop dir filename) \<noteq> slash \<and> dir \<noteq> 0 then dir - 1 else dir))"

section \<open>The list version\<close>

definition is_slash :: "u8 \<Rightarrow> bool" where "is_slash c \<longleftrightarrow> c = slash"

definition strip_last :: "u8 list \<Rightarrow> u8 list" where
  "strip_last out = rev (dropWhile (\<lambda>c. c \<noteq> slash) (rev out))"

lemma shorter: "length (dropWhile P (drop n xs)) \<le> length xs - n"
  using length_dropWhile_le [of P "drop n xs"] by simp

lemma rest_shorter:
  assumes "dropWhile (\<lambda>c. c \<noteq> slash) xs \<noteq> []"
  shows "length (dropWhile is_slash (dropWhile (\<lambda>c. c \<noteq> slash) xs)) < length xs"
proof -
  obtain c ys where cy: "dropWhile (\<lambda>c. c \<noteq> slash) xs = c # ys" using assms by (cases "dropWhile (\<lambda>c. c \<noteq> slash) xs") auto
  then have "c = slash" using dropWhile_eq_Cons_conv [of "\<lambda>c. c \<noteq> slash" xs c ys] by simp
  then have "length (dropWhile is_slash (c # ys)) \<le> length ys" using length_dropWhile_le [of is_slash ys] by (simp add: is_slash_def)
  moreover have "length (c # ys) \<le> length xs" using length_dropWhile_le [of "\<lambda>c. c \<noteq> slash" xs] cy by simp
  ultimately show ?thesis using cy by simp
qed

text \<open>The loop on the text that is left, \<open>rest\<close>, and the text that has been written, \<open>out\<close>.\<close>

function norm_list :: "u8 list \<Rightarrow> u8 list \<Rightarrow> u8 list option" where
  "norm_list out rest =
     (if take 2 rest = [dot, slash] then norm_list out (dropWhile is_slash (drop 2 rest))
      else if rest = [dot, dot] \<or> take 3 rest = [dot, dot, slash] then
        (if out = [] then None else norm_list (strip_last (butlast out)) (dropWhile is_slash (drop 3 rest)))
      else
        let rest = (if rest = [dot] then [] else rest); name = takeWhile (\<lambda>c. c \<noteq> slash) rest; rest = dropWhile (\<lambda>c. c \<noteq> slash) rest
        in if rest = [] then Some (out @ name) else norm_list (out @ name @ [slash]) (dropWhile is_slash rest))"
  by pat_completeness auto

termination
proof (relation "measure (\<lambda>(_, rest). length rest)")
  fix out rest :: "u8 list"
  show "take 2 rest = [dot, slash] \<Longrightarrow> ((out, dropWhile is_slash (drop 2 rest)), out, rest) \<in> measure (\<lambda>(_, rest). length rest)"
    using shorter [of is_slash 2 rest] by (cases rest) auto
  show "rest = [dot, dot] \<or> take 3 rest = [dot, dot, slash] \<Longrightarrow>
      ((strip_last (butlast out), dropWhile is_slash (drop 3 rest)), out, rest) \<in> measure (\<lambda>(_, rest). length rest)"
    using shorter [of is_slash 3 rest] by (cases rest) auto
  fix x xa xb :: "u8 list"
  assume x: "x = (if rest = [dot] then [] else rest)" "xa = takeWhile (\<lambda>c. c \<noteq> slash) x" "xb = dropWhile (\<lambda>c. c \<noteq> slash) x" "xb \<noteq> []"
  show "((out @ xa @ [slash], dropWhile is_slash xb), out, rest) \<in> measure (\<lambda>(_, rest). length rest)"
    using rest_shorter [of x] x by (auto split: if_splits)
qed simp

declare norm_list.simps [simp del]

text \<open>A string in memory.\<close>

definition str_at :: "memory \<Rightarrow> addr \<Rightarrow> u8 list \<Rightarrow> bool" where
  "str_at m a s \<longleftrightarrow> (\<forall>i < length s. m (a + i) = s ! i) \<and> m (a + length s) = 0 \<and> 0 \<notin> set s"

text \<open>The text between two addresses.\<close>

definition text_at :: "memory \<Rightarrow> addr \<Rightarrow> u8 list \<Rightarrow> bool" where
  "text_at m a s \<longleftrightarrow> (\<forall>i < length s. m (a + i) = s ! i)"

lemma str_at_Nil [simp]: "str_at m a [] \<longleftrightarrow> m a = 0"
  by (simp add: str_at_def)

lemma str_at_Cons: "str_at m a (c # s) \<longleftrightarrow> m a = c \<and> c \<noteq> 0 \<and> str_at m (a + 1) s"
  by (auto simp: str_at_def nth_Cons' less_Suc_eq_0_disj split: if_splits)

lemma str_at_head: "str_at m a s \<Longrightarrow> m a = (case s of [] \<Rightarrow> 0 | c # _ \<Rightarrow> c)"
  by (cases s) (simp_all add: str_at_Cons)

lemma str_at_drop: "str_at m a s \<Longrightarrow> n \<le> length s \<Longrightarrow> str_at m (a + n) (drop n s)"
  by (auto simp: str_at_def add.assoc dest: in_set_dropD)

lemma str_at_cong: "str_at m a s \<Longrightarrow> (\<And>x. a \<le> x \<Longrightarrow> x \<le> a + length s \<Longrightarrow> m' x = m x) \<Longrightarrow> str_at m' a s"
  by (simp add: str_at_def)

lemma text_at_cong: "text_at m a s \<Longrightarrow> (\<And>x. a \<le> x \<Longrightarrow> x < a + length s \<Longrightarrow> m' x = m x) \<Longrightarrow> text_at m' a s"
  by (simp add: text_at_def)

lemma text_at_snoc: "text_at m a (s @ [c]) \<longleftrightarrow> text_at m a s \<and> m (a + length s) = c"
  by (auto simp: text_at_def nth_append less_Suc_eq)

lemma text_at_append: "text_at m a (s @ t) \<longleftrightarrow> text_at m a s \<and> text_at m (a + length s) t"
proof (induction t rule: rev_induct)
  case (snoc c t)
  have "text_at m a (s @ t @ [c]) \<longleftrightarrow> text_at m a ((s @ t) @ [c])" by simp
  then show ?case unfolding text_at_snoc [of m a "s @ t" c] text_at_snoc [of m "a + length s" t c] snoc by (auto simp: add.assoc)
qed (simp add: text_at_def)

lemma skip_slashes_list:
  "str_at m src s \<Longrightarrow> skip_slashes m src = Some (src + (length s - length (dropWhile is_slash s)))
     \<and> str_at m (src + (length s - length (dropWhile is_slash s))) (dropWhile is_slash s)"
proof (induction s arbitrary: src)
  case Nil
  then show ?case by (subst skip_slashes.simps) simp
next
  case (Cons c s)
  then have m: "m src = c" "str_at m (src + 1) s" by (simp_all add: str_at_Cons)
  show ?case
  proof (cases "c = slash")
    case True
    have le: "length (dropWhile is_slash s) \<le> length s" by (rule length_dropWhile_le)
    then have e: "src + (length (c # s) - length (dropWhile is_slash s)) = src + 1 + (length s - length (dropWhile is_slash s))" by simp
    have d: "dropWhile is_slash (c # s) = dropWhile is_slash s" using True by (simp add: is_slash_def)
    show ?thesis using Cons.IH [OF m(2)] True m(1) unfolding d e by (subst skip_slashes.simps) simp
  next
    case False
    then show ?thesis using m Cons.prems by (subst skip_slashes.simps) (simp add: is_slash_def)
  qed
qed

text \<open>Copying down in place: what has been read may be overwritten, what is still to be read is not.\<close>

lemma copy_name_list:
  assumes "str_at m src s" "text_at m dst0 out" "dst0 + length out = dst" "dst \<le> src"
  defines "name \<equiv> takeWhile (\<lambda>c. c \<noteq> slash) s" and "rest \<equiv> dropWhile (\<lambda>c. c \<noteq> slash) s"
  shows "\<exists>m'. copy_name m dst src = Some (if rest = [] then 0 else slash, m', dst + length name, src + length name + 1)
    \<and> text_at m' dst0 (out @ name) \<and> str_at m' (src + length name) rest
    \<and> (\<forall>x. x < dst \<or> src + length name \<le> x \<longrightarrow> m' x = m x)"
  using assms(1-4) unfolding name_def rest_def
proof (induction s arbitrary: src m dst out)
  case Nil
  then show ?case by (subst copy_name.simps) simp
next
  case (Cons c s)
  have c: "m src = c" "c \<noteq> 0" "str_at m (src + 1) s" using Cons.prems(1) by (simp_all add: str_at_Cons)
  show ?case
  proof (cases "c = slash")
    case True
    then show ?thesis using c Cons.prems by (subst copy_name.simps) (simp add: Let_def)
  next
    case False
    let ?m = "m(dst := c)"
    have s: "str_at ?m (src + 1) s" using c(3) Cons.prems(4) by (auto intro: str_at_cong)
    have t: "text_at ?m dst0 (out @ [c])" using Cons.prems(2,3) by (auto simp: text_at_snoc intro: text_at_cong)
    have d: "dst0 + length (out @ [c]) = dst + 1" "dst + 1 \<le> src + 1" using Cons.prems(3,4) by simp_all
    obtain m' where m': "copy_name ?m (dst + 1) (src + 1) = Some (if dropWhile (\<lambda>c. c \<noteq> slash) s = [] then 0 else slash, m',
        dst + 1 + length (takeWhile (\<lambda>c. c \<noteq> slash) s), src + 1 + length (takeWhile (\<lambda>c. c \<noteq> slash) s) + 1)"
      "text_at m' dst0 ((out @ [c]) @ takeWhile (\<lambda>c. c \<noteq> slash) s)" "str_at m' (src + 1 + length (takeWhile (\<lambda>c. c \<noteq> slash) s)) (dropWhile (\<lambda>c. c \<noteq> slash) s)"
      "\<forall>x. x < dst + 1 \<or> src + 1 + length (takeWhile (\<lambda>c. c \<noteq> slash) s) \<le> x \<longrightarrow> m' x = ?m x"
      using Cons.IH [OF s t d] by blast
    have "copy_name m dst src = copy_name ?m (dst + 1) (src + 1)" using c False by (subst copy_name.simps) (simp add: Let_def)
    then show ?thesis using m' False Cons.prems(4) by auto
  qed
qed

lemma strip_name_list:
  "text_at m dst0 out \<Longrightarrow> strip_name m dst0 (dst0 + length out) = dst0 + length (strip_last out) \<and> strip_last out = take (length (strip_last out)) out"
proof (induction out rule: rev_induct)
  case (snoc c out)
  have m: "text_at m dst0 out" "m (dst0 + length out) = c" using snoc.prems by (simp_all add: text_at_snoc)
  have "length (strip_last out) \<le> length out" using length_dropWhile_le [of "\<lambda>c. c \<noteq> slash" "rev out"] by (simp add: strip_last_def)
  then show ?case using snoc.IH [OF m(1)] m by (subst strip_name.simps) (simp add: strip_last_def)
qed (simp add: strip_last_def strip_name.simps)

lemma text_at_take: "text_at m a s \<Longrightarrow> text_at m a (take n s)"
  by (simp add: text_at_def)

lemma up_one_list:
  assumes "text_at m dst0 out"
  shows "up_one m dst0 (dst0 + length out) = (if out = [] then None else Some (dst0 + length (strip_last (butlast out))))"
    "text_at m dst0 (strip_last (butlast out))" "length (strip_last (butlast out)) \<le> length out"
proof -
  have b: "text_at m dst0 (butlast out)" using text_at_take [OF assms, of "length out - 1"] by (simp add: butlast_conv_take)
  note s = strip_name_list [OF b, THEN conjunct1] strip_name_list [OF b, THEN conjunct2]
  show "up_one m dst0 (dst0 + length out) = (if out = [] then None else Some (dst0 + length (strip_last (butlast out))))"
    using s(1) by (cases out rule: rev_cases) (simp_all add: up_one_def)
  show "text_at m dst0 (strip_last (butlast out))" using s(2) text_at_take [OF b] by metis
  have "length (strip_last (butlast out)) \<le> length (butlast out)" using s(2) by (metis length_take min.cobounded1)
  then show "length (strip_last (butlast out)) \<le> length out" by simp
qed

text \<open>What the loop looks ahead for.\<close>

lemma ahead:
  assumes "str_at m src rest"
  shows "take 2 rest = [dot, slash] \<longleftrightarrow> m src = dot \<and> m (src + 1) = slash"
    "rest = [dot, dot] \<longleftrightarrow> m src = dot \<and> m (src + 1) = dot \<and> m (src + 2) = 0"
    "take 3 rest = [dot, dot, slash] \<longleftrightarrow> m src = dot \<and> m (src + 1) = dot \<and> m (src + 2) = slash"
    "rest = [dot] \<longleftrightarrow> m src = dot \<and> m (src + 1) = 0"
proof -
  have "(take 2 rest = [dot, slash] \<longleftrightarrow> m src = dot \<and> m (src + 1) = slash)
    \<and> (rest = [dot, dot] \<longleftrightarrow> m src = dot \<and> m (src + 1) = dot \<and> m (src + 2) = 0)
    \<and> (take 3 rest = [dot, dot, slash] \<longleftrightarrow> m src = dot \<and> m (src + 1) = dot \<and> m (src + 2) = slash)
    \<and> (rest = [dot] \<longleftrightarrow> m src = dot \<and> m (src + 1) = 0)"
  proof (cases rest)
    case (Cons c1 r1)
    then show ?thesis
    proof (cases r1)
      case (Cons c2 r2)
      then show ?thesis using assms \<open>rest = c1 # r1\<close> by (cases r2) (auto simp: str_at_Cons)
    qed (use assms in \<open>auto simp: str_at_Cons\<close>)
  qed (use assms in auto)
  then show "take 2 rest = [dot, slash] \<longleftrightarrow> m src = dot \<and> m (src + 1) = slash"
    "rest = [dot, dot] \<longleftrightarrow> m src = dot \<and> m (src + 1) = dot \<and> m (src + 2) = 0"
    "take 3 rest = [dot, dot, slash] \<longleftrightarrow> m src = dot \<and> m (src + 1) = dot \<and> m (src + 2) = slash"
    "rest = [dot] \<longleftrightarrow> m src = dot \<and> m (src + 1) = 0" by blast+
qed

lemma skipped:
  assumes "str_at m src s" "dropWhile is_slash s = t"
  shows "\<exists>src'. skip_slashes m src = Some src' \<and> str_at m src' t \<and> src \<le> src' \<and> src' + length t = src + length s"
  using skip_slashes_list [OF assms(1)] length_dropWhile_le [of is_slash s] assms(2) by auto

text \<open>The loop in memory computes the loop on lists, and writes only between the start of the path and its end.\<close>

definition loop_result :: "memory \<Rightarrow> addr \<Rightarrow> addr \<Rightarrow> u8 list option \<Rightarrow> (memory \<times> addr option) option \<Rightarrow> bool" where
  "loop_result m dst0 stop res r \<longleftrightarrow> (\<exists>m'. (\<forall>x. x < dst0 \<or> stop \<le> x \<longrightarrow> m' x = m x) \<and> r = Some (m', map_option (\<lambda>t. dst0 + length t) res)
     \<and> (\<forall>t. res = Some t \<longrightarrow> text_at m' dst0 t \<and> dst0 + length t \<le> stop))"

lemma norm_loop_list:
  assumes "str_at m src rest" "text_at m dst0 out" "dst0 + length out = dst" "dst \<le> src"
  shows "loop_result m dst0 (src + length rest) (norm_list out rest) (norm_loop m dst0 dst src)"
  using assms
proof (induction out rest arbitrary: m dst src rule: norm_list.induct)
  case (1 out rest)
  note a = ahead [OF 1(4)]
  show ?case
  proof (cases "take 2 rest = [dot, slash]")
    case c1: True
    have l: "2 \<le> length rest" using arg_cong [OF c1, of length] by simp
    obtain src' where s: "skip_slashes m (src + 2) = Some src'" "str_at m src' (dropWhile is_slash (drop 2 rest))" "src + 2 \<le> src'"
        "src' + length (dropWhile is_slash (drop 2 rest)) = src + length rest"
      using skipped [OF str_at_drop [OF 1(4) l] refl] l by auto
    have "norm_list out rest = norm_list out (dropWhile is_slash (drop 2 rest))" using c1 by (subst norm_list.simps) simp
    moreover have "norm_loop m dst0 dst src = norm_loop m dst0 dst src'" using c1 a(1) s(1) by (subst norm_loop.simps) simp
    ultimately show ?thesis using 1(1) [OF c1 s(2) 1(5,6)] 1(7) s(3,4) by simp
  next
    case n1: False
    show ?thesis
    proof (cases "rest = [dot, dot] \<or> take 3 rest = [dot, dot, slash]")
      case c2: True
      define src1 where "src1 = (if m (src + 2) = 0 then Some (src + 2) else skip_slashes m (src + 3))"
      have "\<exists>src'. src1 = Some src' \<and> str_at m src' (dropWhile is_slash (drop 3 rest)) \<and> src \<le> src' \<and> src' + length (dropWhile is_slash (drop 3 rest)) = src + length rest"
      proof (cases "rest = [dot, dot]")
        case True
        then show ?thesis using a(2) by (simp add: src1_def)
      next
        case False
        then have t: "take 3 rest = [dot, dot, slash]" using c2 by simp
        have l: "3 \<le> length rest" using arg_cong [OF t, of length] by simp
        have "src1 = skip_slashes m (src + 3)" using a(3) t by (simp add: src1_def)
        then show ?thesis using skipped [OF str_at_drop [OF 1(4) l] refl] l by auto
      qed
      then obtain src' where s: "src1 = Some src'" "str_at m src' (dropWhile is_slash (drop 3 rest))" "src \<le> src'"
          "src' + length (dropWhile is_slash (drop 3 rest)) = src + length rest" by blast
      note u = up_one_list [OF 1(5), unfolded 1(6)]
      have e: "norm_loop m dst0 dst src = (case up_one m dst0 dst of None \<Rightarrow> Some (m, None) | Some dst \<Rightarrow> norm_loop m dst0 dst src')"
        using c2 a(2,3) s(1) by (subst norm_loop.simps) (auto simp: src1_def)
      have f: "norm_list out rest = (if out = [] then None else norm_list (strip_last (butlast out)) (dropWhile is_slash (drop 3 rest)))"
        using n1 c2 by (subst norm_list.simps) simp
      show ?thesis
      proof (cases "out = []")
        case True
        then show ?thesis using e f u(1) by (simp add: loop_result_def)
      next
        case False
        have "dst0 + length (strip_last (butlast out)) \<le> src'" using u(3) 1(6,7) s(3) by simp
        from 1(2) [OF n1 c2 False s(2) u(2) refl this] show ?thesis using e f u(1) False s(4) by simp
      qed
    next
      case n2: False
      define rest1 where "rest1 = (if rest = [dot] then [] else rest)"
      define src1 where "src1 = (if m src = dot \<and> m (src + 1) = 0 then src + 1 else src)"
      define name where "name = takeWhile (\<lambda>c. c \<noteq> slash) rest1"
      define rest2 where "rest2 = dropWhile (\<lambda>c. c \<noteq> slash) rest1"
      have s1: "str_at m src1 rest1" "src1 + length rest1 = src + length rest" "dst \<le> src1"
        using 1(4,7) a(4) by (auto simp: rest1_def src1_def)
      have len: "length name + length rest2 = length rest1"
        unfolding name_def rest2_def by (metis length_append takeWhile_dropWhile_id)
      obtain m1 where c: "copy_name m dst src1 = Some (if rest2 = [] then 0 else slash, m1, dst + length name, src1 + length name + 1)"
          "text_at m1 dst0 (out @ name)" "str_at m1 (src1 + length name) rest2" "\<forall>x. x < dst \<or> src1 + length name \<le> x \<longrightarrow> m1 x = m x"
        using copy_name_list [OF s1(1) 1(5,6) s1(3)] unfolding name_def rest2_def by blast
      have e: "norm_loop m dst0 dst src = (if rest2 = [] then Some (m1, Some (dst + length name))
          else Option.bind (skip_slashes (m1(dst + length name := slash)) (src1 + length name + 1)) (norm_loop (m1(dst + length name := slash)) dst0 (dst + length name + 1)))"
      proof -
        have n: "\<not> (m src = dot \<and> m (src + 1) = slash)" "\<not> (m src = dot \<and> m (src + 1) = dot \<and> (m (src + 2) = 0 \<or> m (src + 2) = slash))"
          using n1 n2 a(1-3) by blast+
        show ?thesis unfolding norm_loop.simps [of m dst0 dst src] if_not_P [OF n(1)] if_not_P [OF n(2)] src1_def [symmetric] c(1) by simp
      qed
      have f: "norm_list out rest = (if rest2 = [] then Some (out @ name) else norm_list (out @ name @ [slash]) (dropWhile is_slash rest2))"
        unfolding norm_list.simps [of out rest] if_not_P [OF n1] if_not_P [OF n2] Let_def rest1_def [symmetric] name_def [symmetric] rest2_def [symmetric] ..
      show ?thesis
      proof (cases "rest2 = []")
        case True
        then show ?thesis using e f c(2,4) s1(2,3) len 1(6) by (auto simp: loop_result_def)
      next
        case False
        let ?m = "m1(dst + length name := slash)"
        obtain r where r: "rest2 = slash # r" using False unfolding rest2_def
          by (cases "dropWhile (\<lambda>c. c \<noteq> slash) rest1") (use dropWhile_eq_Cons_conv [of "\<lambda>c. c \<noteq> slash" rest1] in auto)
        have st: "str_at ?m (src1 + length name + 1) r" using c(3) s1(3) unfolding r by (auto simp: str_at_Cons intro: str_at_cong)
        have tx: "text_at ?m dst0 (out @ name @ [slash])"
          using c(2) 1(6) text_at_snoc [of ?m dst0 "out @ name" slash] by (auto simp: add.assoc intro: text_at_cong)
        have dr: "dropWhile is_slash r = dropWhile is_slash rest2" unfolding r by (simp add: is_slash_def)
        obtain src' where s: "skip_slashes ?m (src1 + length name + 1) = Some src'" "str_at ?m src' (dropWhile is_slash rest2)"
            "src1 + length name + 1 \<le> src'" "src' + length (dropWhile is_slash rest2) = src1 + length name + 1 + length r"
          using skipped [OF st dr] by blast
        have d: "dst0 + length (out @ name @ [slash]) = dst + length name + 1" "dst + length name + 1 \<le> src'" using 1(6) s(3) s1(3) by simp_all
        have ih: "loop_result ?m dst0 (src' + length (dropWhile is_slash rest2)) (norm_list (out @ name @ [slash]) (dropWhile is_slash rest2))
            (norm_loop ?m dst0 (dst + length name + 1) src')"
          by (rule 1(3) [OF n1 n2 rest1_def name_def rest2_def False s(2) tx d])
        have stop: "src' + length (dropWhile is_slash rest2) = src + length rest" using s(4) s1(2) len unfolding r by simp
        have "?m x = m x" if "x < dst0 \<or> src + length rest \<le> x" for x using that c(4) 1(6) s1(2,3) len unfolding r by auto
        then show ?thesis using ih False e f s(1) unfolding stop by (auto simp: loop_result_def split: option.splits)
      qed
    qed
  qed
qed

section \<open>The components of a path\<close>

text \<open>
  The names between the slashes, and what \<^verbatim>\<open>.\<close> and \<^verbatim>\<open>..\<close> make of them. The first \<^verbatim>\<open>..\<close> at the root takes the slash in
  front of the path away, which is what the flag says; the next one has no result.
\<close>

function names :: "u8 list \<Rightarrow> u8 list list" where
  "names s = (let s = dropWhile is_slash s
     in if s = [] then [] else takeWhile (\<lambda>c. c \<noteq> slash) s # names (dropWhile (\<lambda>c. c \<noteq> slash) s))"
  by pat_completeness auto
termination
proof (relation "measure length")
  fix s x :: "u8 list"
  assume x: "x = dropWhile is_slash s" "x \<noteq> []"
  have "\<not> is_slash (hd x)" using hd_dropWhile [of is_slash s] x by simp
  then obtain c ys where c: "x = c # ys" "c \<noteq> slash" using x(2) by (cases x) (auto simp: is_slash_def)
  then have "length (dropWhile (\<lambda>c. c \<noteq> slash) x) \<le> length ys" using length_dropWhile_le [of "\<lambda>c. c \<noteq> slash" ys] by simp
  moreover have "length x \<le> length s" using length_dropWhile_le [of is_slash s] x(1) by simp
  ultimately show "(dropWhile (\<lambda>c. c \<noteq> slash) x, s) \<in> measure length" using c(1) by simp
qed simp

declare names.simps [simp del]

fun walk :: "bool \<Rightarrow> u8 list list \<Rightarrow> u8 list list \<Rightarrow> (bool \<times> u8 list list) option" where
  "walk r st [] = Some (r, st)"
| "walk r st (c # cs) =
     (if c = [dot] then walk r st cs
      else if c = [dot, dot] then
        (if st \<noteq> [] then walk r (butlast st) cs else if r then walk False [] cs else None)
      else walk r (st @ [c]) cs)"

definition path_names :: "u8 list \<Rightarrow> (bool \<times> u8 list list) option" where
  "path_names s = walk (s \<noteq> [] \<and> hd s = slash) [] (names s)"

text \<open>The text of the names of a path, with and without a slash at the end.\<close>

definition dirs :: "bool \<Rightarrow> u8 list list \<Rightarrow> u8 list" where
  "dirs r st = (if r then [slash] else []) @ concat (map (\<lambda>c. c @ [slash]) st)"

definition render :: "bool \<times> u8 list list \<Rightarrow> u8 list" where
  "render = (\<lambda>(r, st). if st = [] then [slash] else butlast (dirs r st))"

definition plain_name :: "u8 list \<Rightarrow> bool" where
  "plain_name c \<longleftrightarrow> c \<noteq> [] \<and> slash \<notin> set c \<and> 0 \<notin> set c"

lemma dirs_snoc: "dirs r (st @ [c]) = dirs r st @ c @ [slash]"
  by (simp add: dirs_def)

lemma dirs_empty: "dirs r st = [] \<longleftrightarrow> st = [] \<and> \<not> r"
  by (auto simp: dirs_def)

lemma strip_dirs:
  assumes "plain_name c"
  shows "strip_last (butlast (dirs r (st @ [c]))) = dirs r st"
proof -
  have a: "\<forall>x \<in> set (rev c). x \<noteq> slash" using assms by (auto simp: plain_name_def)
  have "dropWhile (\<lambda>x. x \<noteq> slash) (rev c @ rev (dirs r st)) = dropWhile (\<lambda>x. x \<noteq> slash) (rev (dirs r st))"
    by (rule dropWhile_append2) (use a in blast)
  moreover have "dropWhile (\<lambda>x. x \<noteq> slash) (rev (dirs r st)) = rev (dirs r st)"
    by (cases st rule: rev_cases) (simp_all add: dirs_snoc, simp add: dirs_def)
  ultimately show ?thesis unfolding dirs_snoc strip_last_def by (simp add: butlast_append)
qed

lemma names_skip: "names (dropWhile is_slash s) = names s"
  by (subst (1 2) names.simps) (simp add: dropWhile_idem)

lemma names_Nil [simp]: "names [] = []"
  by (simp add: names.simps)

lemma names_head:
  assumes "rest \<noteq> []" "hd rest \<noteq> slash"
  shows "names rest = takeWhile (\<lambda>c. c \<noteq> slash) rest # names (dropWhile is_slash (dropWhile (\<lambda>c. c \<noteq> slash) rest))"
proof -
  have d: "dropWhile is_slash rest = rest" using assms by (cases rest) (auto simp: is_slash_def)
  show ?thesis using assms(1) by (subst names.simps) (simp add: d Let_def names_skip)
qed

lemma hd_skipped: "dropWhile is_slash s = [] \<or> hd (dropWhile is_slash s) \<noteq> slash"
  using hd_dropWhile [of is_slash s] by (auto simp: is_slash_def)

text \<open>The list version walks the names.\<close>

definition walked :: "(bool \<times> u8 list list) option \<Rightarrow> u8 list option \<Rightarrow> bool" where
  "walked w res = (case w of
      None \<Rightarrow> res = None
    | Some (r, st) \<Rightarrow> list_all plain_name st \<and> (\<exists>t. res = Some t \<and> (t = dirs r st \<or> st \<noteq> [] \<and> t @ [slash] = dirs r st)))"

lemma norm_list_end: "norm_list out [] = Some out" "norm_list out [dot] = Some out"
  by (simp_all add: norm_list.simps [of out "[]"] norm_list.simps [of out "[dot]"])

lemma norm_list_walk:
  assumes "rest = [] \<or> hd rest \<noteq> slash" "list_all plain_name st" "0 \<notin> set rest"
  shows "walked (walk r st (names rest)) (norm_list (dirs r st) rest)"
  using assms
proof (induction "length rest" arbitrary: rest r st rule: less_induct)
  case less
  show ?case
  proof (cases "rest = []")
    case True
    then show ?thesis using less.prems(2) by (simp add: walked_def norm_list_end)
  next
    case False
    define name where "name = takeWhile (\<lambda>c. c \<noteq> slash) rest"
    define rest2 where "rest2 = dropWhile (\<lambda>c. c \<noteq> slash) rest"
    define rest3 where "rest3 = dropWhile is_slash rest2"
    have split: "rest = name @ rest2" unfolding name_def rest2_def by simp
    have nm: "names rest = name # names rest3"
      using names_head [OF False] less.prems(1) False unfolding name_def rest2_def rest3_def by blast
    have r2: "rest2 = [] \<or> (\<exists>u. rest2 = slash # u)"
    proof (cases rest2)
      case (Cons c u)
      then show ?thesis using hd_dropWhile [of "\<lambda>c. c \<noteq> slash" rest] unfolding rest2_def by simp
    qed simp
    have ne: "name \<noteq> []" using less.prems(1) False unfolding name_def by (cases rest) auto
    have pl: "plain_name name" using ne less.prems(3) set_takeWhileD [of _ "\<lambda>c. c \<noteq> slash" rest]
      unfolding plain_name_def name_def by blast
    have le: "length rest3 \<le> length rest2" unfolding rest3_def by (rule length_dropWhile_le)
    have lt: "length rest3 < length rest" using le ne unfolding split by (cases name) auto
    have z: "0 \<notin> set rest3" using less.prems(3) set_dropWhileD unfolding rest3_def rest2_def by metis
    have h3: "rest3 = [] \<or> hd rest3 \<noteq> slash" unfolding rest3_def by (rule hd_skipped)
    note ih = less.hyps [OF lt h3 _ z]
    have drop: "dropWhile is_slash (drop (Suc (length name)) rest) = rest3"
      using r2 unfolding rest3_def split by (auto simp: is_slash_def)
    consider "name = [dot]" | "name = [dot, dot]" | "name \<noteq> [dot]" "name \<noteq> [dot, dot]" by blast
    then show ?thesis
    proof cases
      case 1
      have "norm_list (dirs r st) rest = norm_list (dirs r st) rest3"
      proof (cases "rest2 = []")
        case True
        then show ?thesis using 1 unfolding split rest3_def by (simp add: norm_list_end)
      next
        case False
        then have "take 2 rest = [dot, slash]" "dropWhile is_slash (drop 2 rest) = rest3" using 1 r2 drop unfolding split by (auto simp: numeral_2_eq_2)
        then show ?thesis by (subst norm_list.simps) simp
      qed
      then show ?thesis using ih [OF less.prems(2)] 1 nm by simp
    next
      case 2
      then have n: "take 2 rest \<noteq> [dot, slash]" "rest = [dot, dot] \<or> take 3 rest = [dot, dot, slash]" "dropWhile is_slash (drop 3 rest) = rest3"
        using r2 drop unfolding split by (auto simp: numeral_2_eq_2 numeral_3_eq_3)
      have e: "norm_list (dirs r st) rest = (if dirs r st = [] then None else norm_list (strip_last (butlast (dirs r st))) rest3)"
        using n by (subst norm_list.simps) simp
      show ?thesis
      proof (cases st rule: rev_cases)
        case Nil
        show ?thesis
        proof (cases r)
          case True
          have "strip_last (butlast (dirs r st)) = dirs False []" using Nil True by (simp add: dirs_def strip_last_def)
          then show ?thesis using ih [of "[]" False] e Nil True 2 nm by (simp add: dirs_empty)
        next
          case False
          then show ?thesis using e Nil 2 nm by (simp add: dirs_empty walked_def)
        qed
      next
        case (snoc st' c)
        then have "strip_last (butlast (dirs r st)) = dirs r st'" using strip_dirs [of c r st'] less.prems(2) by simp
        then show ?thesis using ih [of st' r] e snoc less.prems(2) 2 nm by (simp add: dirs_empty)
      qed
    next
      case 3
      have n: "\<not> take 2 rest = [dot, slash]" "\<not> (rest = [dot, dot] \<or> take 3 rest = [dot, dot, slash])" "rest \<noteq> [dot]"
        using 3 unfolding name_def by (cases rest; cases "tl rest"; cases "tl (tl rest)"; auto simp: numeral_2_eq_2 numeral_3_eq_3)+
      have e: "norm_list (dirs r st) rest = (if rest2 = [] then Some (dirs r st @ name) else norm_list (dirs r st @ name @ [slash]) rest3)"
        unfolding norm_list.simps [of _ rest] if_not_P [OF n(1)] if_not_P [OF n(2)] if_not_P [OF n(3)] Let_def name_def rest2_def rest3_def ..
      have w: "walk r st (names rest) = walk r (st @ [name]) (names rest3)" using 3 nm by simp
      have ps: "list_all plain_name (st @ [name])" using less.prems(2) pl by simp
      show ?thesis
      proof (cases "rest2 = []")
        case True
        then have "rest3 = []" unfolding rest3_def by simp
        then show ?thesis using e w True ps by (simp add: walked_def dirs_snoc)
      next
        case False
        then show ?thesis using ih [OF ps, of r] e w by (simp add: dirs_snoc)
      qed
    qed
  qed
qed

lemma norm_list_names:
  assumes "s \<noteq> []" "0 \<notin> set s"
  shows "walked (path_names s) (norm_list [] s)"
proof (cases "hd s = slash")
  case True
  then have n: "take 2 s \<noteq> [dot, slash]" "\<not> (s = [dot, dot] \<or> take 3 s = [dot, dot, slash])" "s \<noteq> [dot]" "takeWhile (\<lambda>c. c \<noteq> slash) s = []"
      "dropWhile (\<lambda>c. c \<noteq> slash) s = s"
    using assms(1) by (cases s; auto)+
  have "norm_list [] s = norm_list (dirs True []) (dropWhile is_slash s)"
    unfolding norm_list.simps [of _ s] if_not_P [OF n(1)] if_not_P [OF n(2)] if_not_P [OF n(3)] Let_def n(4,5) if_not_P [OF assms(1)]
    by (simp add: dirs_def)
  moreover have "0 \<notin> set (dropWhile is_slash s)" using assms(2) set_dropWhileD by metis
  ultimately show ?thesis using norm_list_walk [OF hd_skipped, of "[]" s True] assms(1) True by (simp add: path_names_def names_skip)
next
  case False
  then show ?thesis using norm_list_walk [of s "[]" False] assms by (simp add: path_names_def dirs_def)
qed

section \<open>The end of the path\<close>

lemma render_text:
  assumes "list_all plain_name st"
  shows "render (r, st) \<noteq> []" "0 \<notin> set (render (r, st))"
    "st \<noteq> [] \<Longrightarrow> dirs r st = render (r, st) @ [slash] \<and> last (render (r, st)) \<noteq> slash"
proof -
  have z: "0 \<notin> set (dirs r st)" using assms by (auto simp: dirs_def plain_name_def list_all_iff)
  show "0 \<notin> set (render (r, st))" using z in_set_butlastD [of 0 "dirs r st"] by (auto simp: render_def)
  show "render (r, st) \<noteq> []"
    by (cases st rule: rev_cases) (use assms in \<open>auto simp: render_def dirs_snoc butlast_append plain_name_def\<close>)
  show "dirs r st = render (r, st) @ [slash] \<and> last (render (r, st)) \<noteq> slash" if ne: "st \<noteq> []"
  proof (cases st rule: rev_cases)
    case (snoc st' c)
    then have c: "c \<noteq> []" "slash \<notin> set c" using assms by (simp_all add: plain_name_def)
    have "last c \<noteq> slash" using c last_in_set by metis
    then show ?thesis using snoc c(1) by (simp add: render_def dirs_snoc butlast_append)
  qed (use ne in simp)
qed

lemma str_at_text: "str_at m a s \<longleftrightarrow> text_at m a s \<and> m (a + length s) = 0 \<and> 0 \<notin> set s"
  by (simp add: str_at_def text_at_def)

lemma norm_end_render:
  assumes t: "text_at m p t" "t = dirs r st \<or> st \<noteq> [] \<and> t @ [slash] = dirs r st" and st: "list_all plain_name st" and p: "0 < p"
  defines "m' \<equiv> norm_end p (p + length t) m"
  shows "str_at m' p (render (r, st))" "length (render (r, st)) \<le> max 1 (length t)"
    "\<forall>x. x < p \<and> (x + 1 = p \<longrightarrow> m x \<noteq> slash) \<or> p + max 1 (length t) < x \<longrightarrow> m' x = m x"
    "r \<or> st \<noteq> [] \<Longrightarrow> x < p \<Longrightarrow> m' x = m x"
proof -
  note rt = render_text [OF st, of r]
  have "str_at m' p (render (r, st)) \<and> length (render (r, st)) \<le> max 1 (length t)
    \<and> (\<forall>x. x < p \<and> (x + 1 = p \<longrightarrow> m x \<noteq> slash) \<or> p + max 1 (length t) < x \<longrightarrow> m' x = m x)
    \<and> (r \<or> st \<noteq> [] \<longrightarrow> (\<forall>x < p. m' x = m x))"
  proof (cases "st = []")
    case True
    then have "t = (if r then [slash] else [])" using t(2) by (auto simp: dirs_def)
    then show ?thesis using True t(1) p by (cases r) (auto simp: m'_def norm_end_def Let_def render_def str_at_Cons text_at_def)
  next
    case False
    let ?s = "render (r, st)"
    have d: "dirs r st = ?s @ [slash]" "last ?s \<noteq> slash" using rt(3) False by simp_all
    have s: "text_at m p ?s" "t = ?s \<or> t = ?s @ [slash]" using t d(1) by (auto simp: text_at_snoc)
    have ms: "t = ?s @ [slash] \<Longrightarrow> m (p + length ?s) = slash" using t(1) text_at_snoc [of m p ?s slash] by simp
    obtain u c where u: "?s = u @ [c]" using rt(1) by (cases ?s rule: rev_cases) auto
    have c: "m (p + length u) = c" "c \<noteq> slash" "m p \<noteq> 0"
      using s(1) d(2) rt(2) unfolding u by (auto simp: text_at_snoc, cases u, auto simp: text_at_def)
    have m': "m' = (if t = ?s then m(p + length ?s := 0) else m(p + length t := 0, p + length ?s := 0))"
      using s(2) c ms unfolding m'_def norm_end_def u by (auto simp: Let_def)
    have "text_at (m(p + length t := 0, p + length ?s := 0)) p ?s" "text_at (m(p + length ?s := 0)) p ?s"
      using s by (auto intro!: text_at_cong [OF s(1)])
    then have "str_at m' p ?s \<and> length ?s \<le> max 1 (length t)
        \<and> (\<forall>x. x < p \<and> (x + 1 = p \<longrightarrow> m x \<noteq> slash) \<or> p + max 1 (length t) < x \<longrightarrow> m' x = m x)"
      using s(2) rt(2) m' by (auto simp: str_at_text)
    moreover have "\<forall>x < p. m' x = m x" using m' by simp
    ultimately show ?thesis by blast
  qed
  then show "str_at m' p (render (r, st))" "length (render (r, st)) \<le> max 1 (length t)"
    "\<forall>x. x < p \<and> (x + 1 = p \<longrightarrow> m x \<noteq> slash) \<or> p + max 1 (length t) < x \<longrightarrow> m' x = m x"
    "r \<or> st \<noteq> [] \<Longrightarrow> x < p \<Longrightarrow> m' x = m x" by blast+
qed

section \<open>The path in the heap\<close>

lemma fresh_block:
  assumes h: "heap_ok h" "0 < heap_sem h" and n: "n < 2 ^ 32 - 4"
  shows "\<exists>r h'. rt_malloc (word_of_nat n) h = Some (r, h') \<and> (case r of None \<Rightarrow> h' = h
    | Some p \<Rightarrow> \<exists>b e. heap_ok h' \<and> 0 < heap_sem h' \<and> bytes h' = bytes h \<and> heap_ptr h' = heap_ptr h \<and> (b, e) \<notin> used_blocks h
        \<and> used_blocks h' = insert (b, e) (used_blocks h) \<and> p = heap_ptr h + b + 12 \<and> p + n \<le> heap_ptr h + e \<and> p + n < 2 ^ 32)"
proof -
  have u: "unat (word_of_nat n :: u32) = n" using n by (intro unat_of_nat32) simp
  then have "unat (word_of_nat n :: u32) \<le> 2 ^ 32 - 4" using n by simp
  from rt_malloc_live [OF h this, unfolded u] obtain r h' where m: "rt_malloc (word_of_nat n) h = Some (r, h')" "heap_ok h'" "heap_sem h' = heap_sem h" "bytes h' = bytes h" and
    c: "case r of None \<Rightarrow> h' = h | Some p \<Rightarrow> \<exists>b e. free_in h b \<and> (b, e) \<notin> used_blocks h \<and> used_blocks h' = insert (b, e) (used_blocks h)
      \<and> heap_ptr h' = heap_ptr h \<and> p = heap_ptr h + b + 12 \<and> 4 dvd p \<and> b + 12 + n \<le> e \<and> e \<le> heap_end h" by blast
  have "heap_ptr h + heap_end h + 12 \<le> 2 ^ 32" using h(1) heap_invD(7) unfolding heap_ok_def by blast
  then show ?thesis using m c h(2) by (cases r) fastforce+
qed

lemma walk_invariant: "walk r st cs = Some (r', st') \<Longrightarrow> [dot] \<notin> set st \<Longrightarrow> [dot, dot] \<notin> set st \<Longrightarrow> [dot] \<notin> set st' \<and> [dot, dot] \<notin> set st'"
  by (induction r st cs rule: walk.induct) (auto split: if_splits dest: in_set_butlastD)

text \<open>Between two blocks in use is a header; the contents of the blocks in use.\<close>

lemma live_gap:
  assumes "heap_ok h" "(p, e) \<in> heap_live h" "(q, f) \<in> heap_live h" "(p, e) \<noteq> (q, f)"
  shows "e + 12 \<le> q \<or> f + 12 \<le> p"
proof -
  have i: "heap_inv (heap_blocks h) h" using assms(1) by (simp add: heap_ok_def)
  obtain b b' where b: "(b, b') \<in> used_blocks h" "p = heap_ptr h + b + 12" "e = heap_ptr h + b'" using assms(2) by (auto simp: heap_live_iff)
  obtain c c' where c: "(c, c') \<in> used_blocks h" "q = heap_ptr h + c + 12" "f = heap_ptr h + c'" using assms(3) by (auto simp: heap_live_iff)
  have n: "b' = nxt (hdr h b)" "c' = nxt (hdr h c)" using used_blocksD(1) [OF assms(1)] b(1) c(1) by blast+
  then have "b \<noteq> c" using assms(4) b c by auto
  then show ?thesis using blocks_disjoint [OF i, of b c] used_blocksD(2) [OF assms(1)] b c n by auto
qed

definition live_kept :: "small_heap \<Rightarrow> small_heap \<Rightarrow> bool" where
  "live_kept h h' \<longleftrightarrow> (\<forall>(q, f) \<in> heap_live h \<inter> heap_live h'. \<forall>x. q \<le> x \<longrightarrow> x < f \<longrightarrow> bytes h' x = bytes h x)"

lemma live_kept_refl [simp]: "live_kept h h"
  by (simp add: live_kept_def)

lemma norm_block_correct:
  assumes h: "heap_ok h" "0 < heap_sem h" and b: "(b, e) \<in> used_blocks h" "p = heap_ptr h + b + 12"
    and s: "str_at (bytes h) p s" "s \<noteq> []" "p + length s < heap_ptr h + e"
  shows "\<exists>r h'. norm_block p h = Some (r, h') \<and> heap_ok h' \<and> 0 < heap_sem h'
    \<and> (\<forall>x. x < p \<and> (x + 1 = p \<longrightarrow> bytes h x \<noteq> slash) \<or> heap_ptr h + e \<le> x \<longrightarrow> bytes h' x = bytes h x)
    \<and> (case path_names s of
        None \<Rightarrow> r = None \<and> heap_ptr h' = heap_ptr h \<and> used_blocks h' = used_blocks h - {(b, e)}
      | Some w \<Rightarrow> r = Some p \<and> heap_ptr h' = heap_ptr h \<and> used_blocks h' = used_blocks h \<and> str_at (bytes h') p (render w) \<and> length (render w) \<le> length s
          \<and> list_all plain_name (snd w) \<and> [dot] \<notin> set (snd w) \<and> [dot, dot] \<notin> set (snd w)
          \<and> (fst w \<or> snd w \<noteq> [] \<longrightarrow> (\<forall>x < p. bytes h' x = bytes h x)))"
proof -
  have w: "walked (path_names s) (norm_list [] s)" using s(1,2) by (intro norm_list_names) (simp_all add: str_at_def)
  have l: "loop_result (bytes h) p (p + length s) (norm_list [] s) (norm_loop (bytes h) p p p)"
    using norm_loop_list [OF s(1), of p "[]" p] by (simp add: text_at_def)
  then obtain m where m: "\<forall>x. x < p \<or> p + length s \<le> x \<longrightarrow> m x = bytes h x"
      "norm_loop (bytes h) p p p = Some (m, map_option (\<lambda>t. p + length t) (norm_list [] s))"
      "\<And>t. norm_list [] s = Some t \<Longrightarrow> text_at m p t \<and> p + length t \<le> p + length s" unfolding loop_result_def by blast
  show ?thesis
  proof (cases "path_names s")
    case None
    then have e: "norm_list [] s = None" using w by (simp add: walked_def)
    obtain h' where "rt_free (Some p) (h\<lparr>bytes := m\<rparr>) = Some h'" "heap_ok h'" "used_blocks h' = used_blocks h - {(b, e)}" "heap_ptr h' = heap_ptr h" "bytes h' = m"
        "heap_sem h' = heap_sem h" using rt_free_live [of "h\<lparr>bytes := m\<rparr>" b e] h b by auto
    then show ?thesis using None m(1,2) e s(3) h(2) by (simp add: norm_block_def)
  next
    case (Some w')
    obtain r st where w': "w' = (r, st)" by (cases w')
    obtain t where t: "list_all plain_name st" "norm_list [] s = Some t" "t = dirs r st \<or> st \<noteq> [] \<and> t @ [slash] = dirs r st"
      using w Some w' by (auto simp: walked_def)
    note m3 = m(3) [OF t(2)]
    have p: "0 < p" using b(2) by simp
    note n = norm_end_render [OF conjunct1 [OF m3] t(3,1) p]
    have ls: "max 1 (length t) \<le> length s" using m3 s(2) by (cases s) auto
    have "norm_block p h = Some (Some p, h\<lparr>bytes := norm_end p (p + length t) m\<rparr>)" using m(2) t(2) by (simp add: norm_block_def)
    moreover have "norm_end p (p + length t) m x = bytes h x" if x: "x < p \<and> (x + 1 = p \<longrightarrow> bytes h x \<noteq> slash) \<or> heap_ptr h + e \<le> x" for x
    proof -
      have "m x = bytes h x" using x m(1) s(3) by auto
      then show ?thesis using n(3) x ls s(3) by auto
    qed
    moreover have "r \<or> st \<noteq> [] \<longrightarrow> (\<forall>x < p. norm_end p (p + length t) m x = bytes h x)" using n(4) m(1) by simp
    moreover have "[dot] \<notin> set st \<and> [dot, dot] \<notin> set st" using walk_invariant [of _ "[]"] Some w' unfolding path_names_def by fastforce
    ultimately show ?thesis using Some w' n(1,2) ls t(1) h by auto
  qed
qed

text \<open>The text that is normalised.\<close>

definition full_name :: "cstring \<Rightarrow> cstring option \<Rightarrow> cstring \<Rightarrow> u8 list" where
  "full_name working_directory directory filename =
     (if chr_at filename = slash then filename
      else (case directory of None \<Rightarrow> working_directory | Some d \<Rightarrow> d) @ slash # filename)"

lemma format_join:
  assumes "0 \<notin> set d" "0 \<notin> set f"
  shows "format_text (map ascii ''%s/%s'') [Va_string (Some d), Va_string (Some f)] = Some (d @ slash # f)"
proof -
  have tw: "takeWhile (\<lambda>c. c \<noteq> 0) d = d" "takeWhile (\<lambda>c. c \<noteq> 0) f = f" using assms by (auto simp: takeWhile_eq_all_conv)
  have "format_text (map ascii ''%s/%s'') [Va_string (Some d), Va_string (Some f)]
      = Some (string_text 0 (- 1) (- 1) (Some d) @ slash # string_text 0 (- 1) (- 1) (Some f))" by (simp add: format_eval)
  then show ?thesis by (simp add: string_text_def tw)
qed

lemma str_at_written:
  assumes "length s < n" "0 \<notin> set s"
  shows "str_at (written p n s m) p s" "x < p \<or> p + n \<le> x \<Longrightarrow> written p n s m x = m x"
  using assms by (auto simp: str_at_def written_def Let_def min_def)

text \<open>What the first half of the function leaves: no memory, or the text in a new block.\<close>

lemma named_block:
  assumes h: "heap_ok h" "0 < heap_sem h" and s: "s = full_name wd directory filename" "0 \<notin> set s" "length s < 2 ^ 32 - 6"
  obtains "dfs_normalize_path wd directory filename h = Some (None, h)" "rt_malloc (word_of_nat (length s + 1)) h = Some (None, h)"
  | p b e h1 where "dfs_normalize_path wd directory filename h = norm_block p h1" "heap_ok h1" "0 < heap_sem h1" "(b, e) \<notin> used_blocks h"
    "used_blocks h1 = insert (b, e) (used_blocks h)" "heap_ptr h1 = heap_ptr h" "p = heap_ptr h + b + 12" "str_at (bytes h1) p s"
    "p + length s < heap_ptr h + e" "\<forall>x. x < p \<or> heap_ptr h + e \<le> x \<longrightarrow> bytes h1 x = bytes h x"
proof (cases "chr_at filename = slash")
  case True
  then have f: "s = filename" using s(1) by (simp add: full_name_def)
  have l: "rt_strlen filename + 1 = length s + 1" using s(2) f by (simp add: rt_strlen_length)
  obtain r h' where m: "rt_malloc (word_of_nat (length s + 1)) h = Some (r, h')" and
    c: "case r of None \<Rightarrow> h' = h | Some p \<Rightarrow> \<exists>b e. heap_ok h' \<and> 0 < heap_sem h' \<and> bytes h' = bytes h \<and> heap_ptr h' = heap_ptr h \<and> (b, e) \<notin> used_blocks h
      \<and> used_blocks h' = insert (b, e) (used_blocks h) \<and> p = heap_ptr h + b + 12 \<and> p + (length s + 1) \<le> heap_ptr h + e \<and> p + (length s + 1) < 2 ^ 32"
    using fresh_block [OF h, of "length s + 1"] s(3) by auto
  show thesis
  proof (cases r)
    case None
    then show thesis using that(1) m c True unfolding dfs_normalize_path_def rt_strdup_def Let_def l by simp
  next
    case (Some p)
    define h1 where "h1 = h'\<lparr>bytes := (\<lambda>a. if p \<le> a \<and> a < p + (length s + 1) then chr_at (drop (a - p) filename) else bytes h' a)\<rparr>"
    have "dfs_normalize_path wd directory filename h = norm_block p h1"
      using m Some True unfolding dfs_normalize_path_def rt_strdup_def Let_def l h1_def by simp
    moreover have "str_at (bytes h1) p s"
      using s(2) by (auto simp: str_at_def h1_def f chr_at_def Cons_nth_drop_Suc [symmetric])
    ultimately show thesis using that(2) [of p h1] c Some by (auto simp: h1_def)
  qed
next
  case False
  define d where "d = (case directory of None \<Rightarrow> wd | Some d \<Rightarrow> d)"
  have f: "s = d @ slash # filename" using s(1) False by (simp add: full_name_def d_def)
  have l: "rt_strlen d + rt_strlen filename + 2 = length s + 1" using s(2) f by (simp add: rt_strlen_length)
  obtain r h' where m: "rt_malloc (word_of_nat (length s + 1)) h = Some (r, h')" and
    c: "case r of None \<Rightarrow> h' = h | Some p \<Rightarrow> \<exists>b e. heap_ok h' \<and> 0 < heap_sem h' \<and> bytes h' = bytes h \<and> heap_ptr h' = heap_ptr h \<and> (b, e) \<notin> used_blocks h
      \<and> used_blocks h' = insert (b, e) (used_blocks h) \<and> p = heap_ptr h + b + 12 \<and> p + (length s + 1) \<le> heap_ptr h + e \<and> p + (length s + 1) < 2 ^ 32"
    using fresh_block [OF h, of "length s + 1"] s(3) by auto
  have u: "unat (word_of_nat (length s + 1) :: u32) = length s + 1" using s(3) by (intro unat_of_nat32) simp
  show thesis
  proof (cases r)
    case None
    then show thesis using that(1) m c False unfolding dfs_normalize_path_def Let_def d_def [symmetric] l by simp
  next
    case (Some p)
    define h1 where "h1 = h'\<lparr>bytes := written p (length s + 1) s (bytes h')\<rparr>"
    have "p + (length s + 1) < 2 ^ 32" using c Some by auto
    then have "rt_snprintf p (length s + 1) (map ascii ''%s/%s'') [Va_string (Some d), Va_string (Some filename)] (bytes h')
        = Some (int (length s), written p (length s + 1) s (bytes h'))"
      using format_join [of d filename] s(2) f unfolding rt_snprintf_def by (simp only: rt_vsnprintf_text) simp
    then have "dfs_normalize_path wd directory filename h = norm_block p h1"
      using m Some False unfolding dfs_normalize_path_def Let_def d_def [symmetric] l u h1_def by simp
    moreover note str_at_written [of s "length s + 1", OF _ s(2)]
    ultimately show thesis using that(2) [of p h1] c Some by (auto simp: h1_def)
  qed
qed

text \<open>Behind the directory of a mounted file system comes the slash with the rest; behind the root the whole name.\<close>

lemma dfs_subdir_behind:
  assumes "0 \<notin> set (d @ slash # f)"
  shows "dfs_subdir d (d @ slash # f) = Some (length d)"
  using assms by (simp add: dfs_subdir_def rt_strlen_length chr_at_def Let_def)

lemma dfs_subdir_root:
  assumes "0 \<notin> set (slash # f)" "f \<noteq> []" "hd f \<noteq> slash"
  shows "dfs_subdir [slash] (slash # f) = Some 0"
proof -
  have "rt_strlen [slash] = 1" "rt_strlen (slash # f) = 1 + length f" using assms(1) by (simp_all add: rt_strlen_length)
  then show ?thesis using assms(2,3) by (cases f) (simp_all add: dfs_subdir_def chr_at_def Let_def)
qed

section \<open>Names of names\<close>

lemma names_slash: "names (slash # s) = names s"
  using names_skip [of "slash # s"] names_skip [of s] by (simp add: is_slash_def)

lemma names_plain: "plain_name c \<Longrightarrow> names (c @ slash # s) = c # names s" "plain_name c \<Longrightarrow> names c = [c]"
proof -
  assume c: "plain_name c"
  then have a: "\<forall>x \<in> set c. x \<noteq> slash" "c \<noteq> []" "hd c \<noteq> slash" by (cases c; auto simp: plain_name_def)+
  have t: "takeWhile (\<lambda>x. x \<noteq> slash) (c @ slash # s) = c" "dropWhile (\<lambda>x. x \<noteq> slash) (c @ slash # s) = slash # s"
      "takeWhile (\<lambda>x. x \<noteq> slash) c = c" "dropWhile (\<lambda>x. x \<noteq> slash) c = []" using a(1) by (simp_all add: takeWhile_append dropWhile_append takeWhile_eq_all_conv)
  show "names (c @ slash # s) = c # names s" using names_head [of "c @ slash # s"] a(2,3) t(1,2) by (simp add: names_skip names_slash)
  show "names c = [c]" using names_head [OF a(2,3)] t(3,4) by simp
qed

lemma names_dirs: "list_all plain_name st \<Longrightarrow> names (dirs r st @ s) = st @ names s"
proof -
  assume st: "list_all plain_name st"
  have "names (dirs False st @ s) = st @ names s" using st by (induction st) (simp_all add: dirs_def names_plain)
  then show ?thesis by (cases r) (simp_all add: dirs_def names_slash)
qed

text \<open>A normal path is its own normal form, and a name behind it is walked from there.\<close>

lemma walk_plain: "[dot] \<notin> set cs \<Longrightarrow> [dot, dot] \<notin> set cs \<Longrightarrow> walk r st (cs @ ds) = walk r (st @ cs) ds"
  by (induction cs arbitrary: st) auto

lemma rooted_text:
  assumes "list_all plain_name st"
  shows "hd (render (True, st)) = slash" "names (render (True, st) @ slash # s) = st @ names s"
proof -
  have "render (True, st) @ slash # s = (if st = [] then slash # slash # s else dirs True st @ s)" using render_text(3) [OF assms, of True] by (cases "st = []") (simp_all add: render_def)
  then show "names (render (True, st) @ slash # s) = st @ names s" using names_dirs [OF assms, of True s] by (simp add: names_slash)
  show "hd (render (True, st)) = slash" using assms by (cases st) (auto simp: render_def dirs_def plain_name_def butlast_append)
qed

lemma path_names_behind:
  assumes "list_all plain_name st" "[dot] \<notin> set st" "[dot, dot] \<notin> set st"
  shows "path_names (render (True, st) @ slash # s) = walk True st (names s)"
  using rooted_text [OF assms(1)] render_text(1) [OF assms(1), of True] walk_plain [OF assms(2,3), of True "[]"] by (simp add: path_names_def)

text \<open>Both halves together.\<close>

lemma path_block_full:
  assumes "heap_ok h" "0 < heap_sem h" "s = full_name working_directory directory filename" "0 \<notin> set s" "length s < 2 ^ 32 - 6"
  shows "\<exists>r h'. dfs_normalize_path working_directory directory filename h = Some (r, h') \<and> heap_ok h' \<and> 0 < heap_sem h' \<and> live_kept h h'
    \<and> (case r of
         None \<Rightarrow> heap_live h' = heap_live h \<and> (h' = h \<and> rt_malloc (word_of_nat (length s + 1)) h = Some (None, h) \<or> path_names s = None)
       | Some p \<Rightarrow> \<exists>rooted st e. path_names s = Some (rooted, st) \<and> (p, e) \<notin> heap_live h \<and> heap_live h' = insert (p, e) (heap_live h)
           \<and> str_at (bytes h') p (render (rooted, st)) \<and> p + length (render (rooted, st)) < e
           \<and> list_all plain_name st \<and> [dot] \<notin> set st \<and> [dot, dot] \<notin> set st
           \<and> (\<forall>x. x < p \<and> (x + 1 = p \<longrightarrow> bytes h x \<noteq> slash) \<or> e \<le> x \<longrightarrow> bytes h' x = bytes h x)
           \<and> (rooted \<or> st \<noteq> [] \<longrightarrow> (\<forall>x < p. bytes h' x = bytes h x)))"
  using assms
proof (cases rule: named_block)
  case 1
  then show ?thesis using assms(1,2) by simp
next
  case (2 p b e h1)
  have ne: "s \<noteq> []" using assms(3) by (auto simp: full_name_def chr_at_def split: if_splits list.splits)
  have b: "(b, e) \<in> used_blocks h1" "p = heap_ptr h1 + b + 12" "p + length s < heap_ptr h1 + e" using 2 by simp_all
  obtain r h' where r: "norm_block p h1 = Some (r, h')" "heap_ok h'" "0 < heap_sem h'"
      "\<forall>x. x < p \<and> (x + 1 = p \<longrightarrow> bytes h1 x \<noteq> slash) \<or> heap_ptr h1 + e \<le> x \<longrightarrow> bytes h' x = bytes h1 x" and
    c: "case path_names s of
        None \<Rightarrow> r = None \<and> heap_ptr h' = heap_ptr h1 \<and> used_blocks h' = used_blocks h1 - {(b, e)}
      | Some w \<Rightarrow> r = Some p \<and> heap_ptr h' = heap_ptr h1 \<and> used_blocks h' = used_blocks h1 \<and> str_at (bytes h') p (render w) \<and> length (render w) \<le> length s
          \<and> list_all plain_name (snd w) \<and> [dot] \<notin> set (snd w) \<and> [dot, dot] \<notin> set (snd w)
          \<and> (fst w \<or> snd w \<noteq> [] \<longrightarrow> (\<forall>x < p. bytes h' x = bytes h1 x))"
    using norm_block_correct [OF 2(2,3) b(1,2) 2(8) ne b(3)] by blast
  have live: "(p, heap_ptr h + e) \<notin> heap_live h" "heap_live h1 = insert (p, heap_ptr h + e) (heap_live h)" using 2(4-7) by (auto simp: heap_live_def)
  have out: "bytes h' x = bytes h x" if "x < p \<and> (x + 1 = p \<longrightarrow> bytes h x \<noteq> slash) \<or> heap_ptr h + e \<le> x" for x
  proof -
    have "bytes h1 x = bytes h x" using that 2(10) by blast
    then show ?thesis using that r(4) 2(6) by metis
  qed
  have kept: "live_kept h h'"
  proof -
    have "bytes h' x = bytes h x" if q: "(q, f) \<in> heap_live h" "q \<le> x" "x < f" for q f x
    proof -
      have "f + 12 \<le> p \<or> heap_ptr h + e + 12 \<le> q" using live_gap [OF 2(2), of q f p "heap_ptr h + e"] q(1) live by auto
      then show ?thesis using out [of x] q(2,3) by auto
    qed
    then show ?thesis unfolding live_kept_def by blast
  qed
  show ?thesis
  proof (cases "path_names s")
    case None
    then have "used_blocks h' = used_blocks h" "heap_ptr h' = heap_ptr h" using c 2(4-6) by auto
    then show ?thesis using None c r(1,2,3) kept 2(1) by (auto simp: heap_live_def)
  next
    case (Some w)
    obtain rooted st where w: "w = (rooted, st)" by (cases w)
    have "heap_live h' = heap_live h1" using c Some by (simp add: heap_live_def)
    moreover have "rooted \<or> st \<noteq> [] \<longrightarrow> (\<forall>x < p. bytes h' x = bytes h x)" using c Some w 2(10) by simp
    ultimately show ?thesis
      using Some w c r(1,2,3) 2(1,9) live out kept by (intro exI [of _ "Some p"] exI [of _ h']) auto
  qed
qed

lemma path_block:
  assumes "heap_ok h" "0 < heap_sem h" "s = full_name working_directory directory filename" "0 \<notin> set s" "length s < 2 ^ 32 - 6"
  shows "\<exists>r h'. dfs_normalize_path working_directory directory filename h = Some (r, h') \<and> heap_ok h' \<and> 0 < heap_sem h' \<and> live_kept h h'
    \<and> (case r of
         None \<Rightarrow> heap_live h' = heap_live h \<and> (h' = h \<or> path_names s = None)
       | Some p \<Rightarrow> \<exists>rooted st e. path_names s = Some (rooted, st) \<and> (p, e) \<notin> heap_live h \<and> heap_live h' = insert (p, e) (heap_live h)
           \<and> str_at (bytes h') p (render (rooted, st)) \<and> p + length (render (rooted, st)) < e
           \<and> list_all plain_name st \<and> [dot] \<notin> set st \<and> [dot, dot] \<notin> set st
           \<and> (\<forall>x. x < p \<and> (x + 1 = p \<longrightarrow> bytes h x \<noteq> slash) \<or> e \<le> x \<longrightarrow> bytes h' x = bytes h x))"
proof -
  obtain r h' where r: "dfs_normalize_path working_directory directory filename h = Some (r, h')" "heap_ok h'" "0 < heap_sem h'" "live_kept h h'"
    and c: "case r of
         None \<Rightarrow> heap_live h' = heap_live h \<and> (h' = h \<and> rt_malloc (word_of_nat (length s + 1)) h = Some (None, h) \<or> path_names s = None)
       | Some p \<Rightarrow> \<exists>rooted st e. path_names s = Some (rooted, st) \<and> (p, e) \<notin> heap_live h \<and> heap_live h' = insert (p, e) (heap_live h)
           \<and> str_at (bytes h') p (render (rooted, st)) \<and> p + length (render (rooted, st)) < e
           \<and> list_all plain_name st \<and> [dot] \<notin> set st \<and> [dot, dot] \<notin> set st
           \<and> (\<forall>x. x < p \<and> (x + 1 = p \<longrightarrow> bytes h x \<noteq> slash) \<or> e \<le> x \<longrightarrow> bytes h' x = bytes h x)
           \<and> (rooted \<or> st \<noteq> [] \<longrightarrow> (\<forall>x < p. bytes h' x = bytes h x))"
    using path_block_full [OF assms] by blast
  show ?thesis
  proof (cases r)
    case None
    then show ?thesis using r c by auto
  next
    case (Some p)
    show ?thesis using c unfolding Some option.case by (intro exI [of _ "Some p"] exI [of _ h']) (use r Some in \<open>simp, blast\<close>)
  qed
qed

section \<open>Resolving a path\<close>

text \<open>
  What the names of an absolute path stand for: \<^verbatim>\<open>.\<close> is the directory reached so far and \<^verbatim>\<open>..\<close> the one above it,
  where the root is above itself. \<open>climbs\<close> says that a \<^verbatim>\<open>..\<close> is met at the root.
\<close>

fun resolve :: "u8 list list \<Rightarrow> u8 list list \<Rightarrow> u8 list list" where
  "resolve st [] = st"
| "resolve st (c # cs) = resolve (if c = [dot] then st else if c = [dot, dot] then butlast st else st @ [c]) cs"

fun climbs :: "u8 list list \<Rightarrow> u8 list list \<Rightarrow> bool" where
  "climbs st [] = False"
| "climbs st (c # cs) \<longleftrightarrow> c = [dot, dot] \<and> st = []
     \<or> climbs (if c = [dot] then st else if c = [dot, dot] then butlast st else st @ [c]) cs"

definition absolute :: "u8 list list \<Rightarrow> u8 list" where
  "absolute st = (if st = [] then [slash] else concat (map (\<lambda>c. slash # c) st))"

lemma walk_resolve: "\<not> climbs st cs \<Longrightarrow> walk True st cs = Some (True, resolve st cs)"
  by (induction cs arbitrary: st) (auto split: if_splits)

lemma render_absolute: "render (True, st) = absolute st"
proof -
  have "slash # concat (map (\<lambda>c. c @ [slash]) st) = concat (map (\<lambda>c. slash # c) st) @ [slash]" by (induction st) auto
  then have "dirs True st = concat (map (\<lambda>c. slash # c) st) @ [slash]" by (simp add: dirs_def)
  then show ?thesis by (simp add: render_def absolute_def)
qed

section \<open>Properties\<close>



text \<open>
  A relative name is walked from its directory: for a directory in normal form the result is the text of
  what the names of the file lead to from there. \<^verbatim>\<open>.\<close> is the directory and \<^verbatim>\<open>..\<close> the one above it, the root for
  the root, but a name behind \<^verbatim>\<open>../\<close> at the root comes back without the slash in front, as a relative name.
\<close>

theorem dfs_normalize_path_relative:
  assumes "heap_ok h" "0 < heap_sem h" "0 \<notin> set filename" "length (render (True, st)) + length filename < 2 ^ 32 - 7"
    and "list_all plain_name st" "[dot] \<notin> set st" "[dot, dot] \<notin> set st" "filename = [] \<or> hd filename \<noteq> slash"
  shows "\<exists>r h'. dfs_normalize_path working_directory (Some (render (True, st))) filename h = Some (r, h')
    \<and> (r \<noteq> None \<longrightarrow> walk True st (names filename) \<noteq> None)
    \<and> (\<forall>p w. r = Some p \<longrightarrow> walk True st (names filename) = Some w \<longrightarrow> str_at (bytes h') p (render w))
    \<and> (\<forall>p. r = Some p \<longrightarrow> filename = [dot] \<longrightarrow> str_at (bytes h') p (render (True, st)))
    \<and> (\<forall>p. r = Some p \<longrightarrow> filename = [dot, dot] \<longrightarrow> str_at (bytes h') p (render (True, butlast st)))
    \<and> (\<forall>p c. r = Some p \<longrightarrow> filename = [dot, dot, slash] @ c \<longrightarrow> st = [] \<longrightarrow> plain_name c \<longrightarrow> c \<noteq> [dot] \<longrightarrow> c \<noteq> [dot, dot] \<longrightarrow> str_at (bytes h') p c)"
proof -
  define s where "s = render (True, st) @ slash # filename"
  have f: "s = full_name working_directory (Some (render (True, st))) filename"
    using assms(8) by (cases filename) (simp_all add: s_def full_name_def chr_at_def)
  have z: "0 \<notin> set s" "length s < 2 ^ 32 - 6" using render_text(2) [OF assms(5)] assms(3,4) by (simp_all add: s_def)
  have n: "path_names s = walk True st (names filename)" unfolding s_def by (rule path_names_behind [OF assms(5-7)])
  obtain r h' where r: "dfs_normalize_path working_directory (Some (render (True, st))) filename h = Some (r, h')"
    and w: "\<And>p. r = Some p \<Longrightarrow> \<exists>w. path_names s = Some w \<and> str_at (bytes h') p (render w)"
    using path_block [OF assms(1,2) f z] by (cases "fst (the (dfs_normalize_path working_directory (Some (render (True, st))) filename h))") fastforce+
  have v: "str_at (bytes h') p (render w)" if "r = Some p" "walk True st (names filename) = Some w" for p w using w [OF that(1)] n that(2) by auto
  have d: "plain_name [dot]" "plain_name [dot, dot]" by (simp_all add: plain_name_def)
  have e: "render (False, []) = render (True, [])" by (simp add: render_def)
  have "str_at (bytes h') p (render (True, st))" if "r = Some p" "filename = [dot]" for p using v [OF that(1)] that(2) names_plain(2) [OF d(1)] by simp
  moreover have "str_at (bytes h') p (render (True, butlast st))" if "r = Some p" "filename = [dot, dot]" for p
    using v [OF that(1)] that(2) names_plain(2) [OF d(2)] e by (cases "st = []") simp_all
  moreover have "str_at (bytes h') p c" if "r = Some p" "filename = [dot, dot, slash] @ c" "st = []" "plain_name c" "c \<noteq> [dot]" "c \<noteq> [dot, dot]" for p c
    using v [OF that(1)] that(2-) names_plain(1) [OF d(2), of c] names_plain(2) [OF that(4)] by (simp add: render_def dirs_def)
  moreover have "r \<noteq> None \<longrightarrow> walk True st (names filename) \<noteq> None" using w n by (cases r) auto
  ultimately show ?thesis using r v by blast
qed

theorem dfs_normalize_path_relative_witness:
  "\<exists>r h'. dfs_normalize_path [] (Some (map ascii ''/'')) (map ascii ''../etc'') cold_heap = Some (r, h')
    \<and> (\<forall>p. r = Some p \<longrightarrow> str_at (bytes h') p (map ascii ''etc''))"
proof -
  have r: "render (True, []) = map ascii ''/''" by (simp add: render_def)
  have c: "plain_name (map ascii ''etc'')" "map ascii ''../etc'' = [dot, dot, slash] @ map ascii ''etc''"
    "map ascii ''etc'' \<noteq> [dot]" "map ascii ''etc'' \<noteq> [dot, dot]" by (simp_all add: plain_name_def)
  show ?thesis
    using dfs_normalize_path_relative [of cold_heap "map ascii ''../etc''" "[]" "[]"] cold_heap(2,3) c unfolding r by fastforce
qed

end
