(* ===== verification/Dfs_Fs.thy ===== *)
theory Dfs_Fs
  imports Dfs_Path Device "HOL-Library.Monad_Syntax" "HOL-Library.Sublist"
begin

text \<open>
  File systems and files, \<^verbatim>\<open>rt-thread/components/dfs/src/dfs_fs.c\<close> and \<^verbatim>\<open>dfs_file.c\<close>: the table of the types of
  file systems, the table of the mounted ones, the search for the file system of a path, and the operations on
  open files. The state extends that of the devices. The operations of a file system are code outside of
  these files: \<open>code\<close> gives the operations at a pointer to a \<^verbatim>\<open>dfs_filesystem_ops\<close> or \<^verbatim>\<open>dfs_file_ops\<close>. Paths that the
  tables keep are strings in the heap; a function that follows a pointer to no string has the value
  \<open>None\<close>. \<open>fslock\<close> counts how often the running thread holds the lock, which nobody else takes.
\<close>

section \<open>State\<close>

record dfs_filesystem =
  dev_id :: "addr option"
  path :: "addr option"
  ops :: "nat option"
  fs_data :: nat

record dfs_fd =
  fd_magic :: u16
  fd_type :: u16
  fd_path :: "addr option"
  fd_ref_count :: int
  fd_fs :: "nat option"
  fd_fops :: "nat option"
  fd_flags :: u32
  fd_size :: u32
  fd_pos :: int
  fd_data :: "nat option"

record dfs = devices +
  filesystem_operation_table :: "nat option list"
  filesystem_table :: "dfs_filesystem list"
  working_directory :: cstring
  fslock :: nat
  fd_at :: "addr \<Rightarrow> dfs_fd"
  maxfd :: nat
  fds :: "addr option"
  fd_slots :: "addr option list"

text \<open>The operations at a pointer; a pointer that is null is \<open>None\<close>. A file is named by the address of its \<^verbatim>\<open>dfs_fd\<close>, a
  file system by its place in the table.\<close>

record 'k dfs_file_ops =
  op_open :: "(addr \<Rightarrow> 'k \<Rightarrow> int \<times> 'k) option"
  op_close :: "(addr \<Rightarrow> 'k \<Rightarrow> int \<times> 'k) option"
  op_ioctl :: "(addr \<Rightarrow> u32 \<Rightarrow> u32 \<Rightarrow> 'k \<Rightarrow> int \<times> 'k) option"
  op_read :: "(addr \<Rightarrow> addr \<Rightarrow> u32 \<Rightarrow> 'k \<Rightarrow> int \<times> 'k) option"
  op_write :: "(addr \<Rightarrow> addr \<Rightarrow> u32 \<Rightarrow> 'k \<Rightarrow> int \<times> 'k) option"
  op_flush :: "(addr \<Rightarrow> 'k \<Rightarrow> int \<times> 'k) option"
  op_lseek :: "(addr \<Rightarrow> int \<Rightarrow> 'k \<Rightarrow> int \<times> 'k) option"
  op_getdents :: "(addr \<Rightarrow> addr \<Rightarrow> u32 \<Rightarrow> 'k \<Rightarrow> int \<times> 'k) option"

record 'k dfs_filesystem_ops =
  ops_name :: cstring
  ops_flags :: u32
  ops_fops :: nat
  op_mount :: "(nat \<Rightarrow> u32 \<Rightarrow> nat \<Rightarrow> 'k \<Rightarrow> int \<times> 'k) option"
  op_unmount :: "(nat \<Rightarrow> 'k \<Rightarrow> int \<times> 'k) option"
  op_mkfs :: "(addr \<Rightarrow> 'k \<Rightarrow> int \<times> 'k) option"
  op_statfs :: "(nat \<Rightarrow> addr \<Rightarrow> 'k \<Rightarrow> int \<times> 'k) option"
  op_unlink :: "(nat \<Rightarrow> cstring \<Rightarrow> 'k \<Rightarrow> int \<times> 'k) option"
  op_stat :: "(nat \<Rightarrow> cstring \<Rightarrow> addr \<Rightarrow> 'k \<Rightarrow> int \<times> 'k) option"
  op_rename :: "(nat \<Rightarrow> cstring option \<Rightarrow> cstring option \<Rightarrow> 'k \<Rightarrow> int \<times> 'k) option"

record 'k dfs_code =
  fs_code :: "nat \<Rightarrow> 'k dfs_filesystem_ops"
  file_code :: "nat \<Rightarrow> 'k dfs_file_ops"
  dev_code :: "'k drivers"

text \<open>Error numbers of the C library.\<close>

abbreviation (input) ENOENT :: int where "ENOENT \<equiv> 2"
abbreviation (input) EIO :: int where "EIO \<equiv> 5"
abbreviation (input) ENXIO :: int where "ENXIO \<equiv> 6"
abbreviation (input) EBADF :: int where "EBADF \<equiv> 9"
abbreviation (input) ENOMEM :: int where "ENOMEM \<equiv> 12"
abbreviation (input) EBUSY :: int where "EBUSY \<equiv> 16"
abbreviation (input) EEXIST :: int where "EEXIST \<equiv> 17"
abbreviation (input) EXDEV :: int where "EXDEV \<equiv> 18"
abbreviation (input) ENODEV :: int where "ENODEV \<equiv> 19"
abbreviation (input) ENOTDIR :: int where "ENOTDIR \<equiv> 20"
abbreviation (input) EINVAL :: int where "EINVAL \<equiv> 22"
abbreviation (input) ENOSPC :: int where "ENOSPC \<equiv> 28"
abbreviation (input) ENOSYS :: int where "ENOSYS \<equiv> 88"

abbreviation (input) DFS_FS_FLAG_FULLPATH :: u32 where "DFS_FS_FLAG_FULLPATH \<equiv> 1"
abbreviation (input) FT_REGULAR :: u16 where "FT_REGULAR \<equiv> 0"
abbreviation (input) FT_DIRECTORY :: u16 where "FT_DIRECTORY \<equiv> 2"
abbreviation (input) DFS_F_OPEN :: u32 where "DFS_F_OPEN \<equiv> 0x01000000"
abbreviation (input) DFS_F_DIRECTORY :: u32 where "DFS_F_DIRECTORY \<equiv> 0x02000000"
abbreviation (input) DFS_F_EOF :: u32 where "DFS_F_EOF \<equiv> 0x04000000"
abbreviation (input) O_RDONLY :: u32 where "O_RDONLY \<equiv> 0"
abbreviation (input) O_CREAT :: u32 where "O_CREAT \<equiv> 0x200"
abbreviation (input) O_APPEND :: u32 where "O_APPEND \<equiv> 8"
abbreviation (input) O_NONBLOCK :: u32 where "O_NONBLOCK \<equiv> 0x4000"
abbreviation (input) O_DIRECTORY :: u32 where "O_DIRECTORY \<equiv> 0x200000"
abbreviation (input) F_GETFL :: u32 where "F_GETFL \<equiv> 3"
abbreviation (input) F_SETFL :: u32 where "F_SETFL \<equiv> 4"
abbreviation (input) RT_FIOFTRUNCATE :: u32 where "RT_FIOFTRUNCATE \<equiv> 0x52540000"
abbreviation (input) RT_DEVICE_OFLAG_RDWR :: u16 where "RT_DEVICE_OFLAG_RDWR \<equiv> 3"

definition upd_fs :: "nat \<Rightarrow> (dfs_filesystem \<Rightarrow> dfs_filesystem) \<Rightarrow> 'a dfs_scheme \<Rightarrow> 'a dfs_scheme" where
  "upd_fs i f k = k\<lparr>filesystem_table := (filesystem_table k)[i := f (filesystem_table k ! i)]\<rparr>"

definition upd_fd :: "addr \<Rightarrow> (dfs_fd \<Rightarrow> dfs_fd) \<Rightarrow> 'a dfs_scheme \<Rightarrow> 'a dfs_scheme" where
  "upd_fd d f k = k\<lparr>fd_at := (fd_at k)(d := f (fd_at k d))\<rparr>"

definition zero_filesystem :: dfs_filesystem where
  "zero_filesystem = \<lparr>dev_id = None, path = None, ops = None, fs_data = 0\<rparr>"

text \<open>The string at an address.\<close>

partial_function (option) cstring_at :: "memory \<Rightarrow> addr \<Rightarrow> cstring option" where
  "cstring_at m a = (if m a = 0 then Some [] else do { s \<leftarrow> cstring_at m (a + 1); Some (m a # s) })"

definition dfs_free :: "addr option \<Rightarrow> 'a dfs_scheme \<Rightarrow> 'a dfs_scheme option" where
  "dfs_free p k = map_option (\<lambda>h. k\<lparr>dev_heap := h\<rparr>) (rt_free p (dev_heap k))"

definition dfs_full_path :: "cstring \<Rightarrow> 'a dfs_scheme \<Rightarrow> (addr option \<times> 'a dfs_scheme) option" where
  "dfs_full_path name k = map_option (\<lambda>(r, h). (r, k\<lparr>dev_heap := h\<rparr>)) (dfs_normalize_path (working_directory k) None name (dev_heap k))"

section \<open>The tables\<close>

definition dfs_lock :: "'a dfs_scheme \<Rightarrow> 'a dfs_scheme" where
  "dfs_lock k = k\<lparr>fslock := fslock k + 1\<rparr>"

definition dfs_unlock :: "'a dfs_scheme \<Rightarrow> 'a dfs_scheme" where
  "dfs_unlock k = k\<lparr>fslock := fslock k - 1\<rparr>"

text \<open>The loop of \<open>dfs_register\<close>: the first empty place, and whether the name is taken.\<close>

fun register_loop :: "(nat \<Rightarrow> 'k dfs_filesystem_ops) \<Rightarrow> cstring \<Rightarrow> nat \<Rightarrow> nat option \<Rightarrow> nat option list \<Rightarrow> nat option \<times> bool" where
  "register_loop code name i vacant [] = (vacant, False)"
| "register_loop code name i vacant (iter # rest) =
     (case iter of
        None \<Rightarrow> register_loop code name (i + 1) (if vacant = None then Some i else vacant) rest
      | Some t \<Rightarrow>
          if rt_strcmp (ops_name (code t)) name = 0 then (vacant, True)
          else register_loop code name (i + 1) vacant rest)"

definition dfs_register :: "'a dfs_scheme dfs_code \<Rightarrow> nat \<Rightarrow> 'a dfs_scheme \<Rightarrow> int \<times> 'a dfs_scheme" where
  "dfs_register code fsops k =
     (let k = dfs_lock k
      in case register_loop (fs_code code) (ops_name (fs_code code fsops)) 0 None (filesystem_operation_table k) of
        (vacant, found) \<Rightarrow>
          let ret = (if found then - 1 else 0);
              k = (if found then rt_set_errno (- EEXIST) k else k);
              (ret, k) = (case vacant of
                 None \<Rightarrow> (- 1, rt_set_errno (- ENOSPC) k)
               | Some i \<Rightarrow> if ret = 0 then (ret, k\<lparr>filesystem_operation_table := (filesystem_operation_table k)[i := Some fsops]\<rparr>) else (ret, k))
          in (ret, dfs_unlock k))"

text \<open>The loop of \<open>dfs_filesystem_lookup\<close> from place \<open>i\<close> on.\<close>

fun lookup_loop :: "memory \<Rightarrow> cstring \<Rightarrow> nat \<Rightarrow> nat option \<Rightarrow> nat \<Rightarrow> dfs_filesystem list \<Rightarrow> nat option option" where
  "lookup_loop m name prefixlen fs i [] = Some fs"
| "lookup_loop m name prefixlen fs i (iter # rest) =
     (case (path iter, ops iter) of
        (Some p, Some _) \<Rightarrow>
          do {
            s \<leftarrow> cstring_at m p;
            let fspath = rt_strlen s;
            if fspath < prefixlen \<or> rt_strncmp s name fspath \<noteq> 0 then lookup_loop m name prefixlen fs (i + 1) rest
            else if 1 < fspath \<and> fspath < rt_strlen name \<and> chr_at (drop fspath name) \<noteq> slash then lookup_loop m name prefixlen fs (i + 1) rest
            else lookup_loop m name fspath (Some i) (i + 1) rest
          }
      | _ \<Rightarrow> lookup_loop m name prefixlen fs (i + 1) rest)"

definition dfs_filesystem_lookup :: "cstring \<Rightarrow> 'a dfs_scheme \<Rightarrow> (nat option \<times> 'a dfs_scheme) option" where
  "dfs_filesystem_lookup name k =
     (let k = dfs_lock k
      in map_option (\<lambda>fs. (fs, dfs_unlock k)) (lookup_loop (bytes (dev_heap k)) name 0 None 0 (filesystem_table k)))"

definition dfs_filesystem_get_mounted_path :: "addr option \<Rightarrow> 'a dfs_scheme \<Rightarrow> addr option" where
  "dfs_filesystem_get_mounted_path dev k =
     (case find (\<lambda>iter. ops iter \<noteq> None \<and> dev_id iter = dev) (filesystem_table k) of None \<Rightarrow> None | Some iter \<Rightarrow> path iter)"

text \<open>A partition entry of the first sector of a disk: its type, first sector and number of sectors.\<close>

definition dfs_filesystem_get_partition :: "(nat \<Rightarrow> u8) \<Rightarrow> nat \<Rightarrow> int \<times> (u8 \<times> u32 \<times> u32) option" where
  "dfs_filesystem_get_partition buf pindex =
     (let dpt = 0x1be + pindex * 16;
          word = (\<lambda>i. ucast (buf (dpt + i)) OR push_bit 8 (ucast (buf (dpt + i + 1))) OR push_bit 16 (ucast (buf (dpt + i + 2)))
                    OR push_bit 24 (ucast (buf (dpt + i + 3))))
      in if buf dpt \<noteq> 0x80 \<and> buf dpt \<noteq> 0 then (- EIO, None)
         else if buf (dpt + 4) = 0 then (- EIO, None)
         else (0, Some (buf (dpt + 4), word 8, word 12)))"

section \<open>Opening and closing a file\<close>

text \<open>The name below the mount point of the file system \<open>i\<close>, in a block of its own where the file system does not
  want the whole name.\<close>

definition below :: "cstring \<Rightarrow> cstring \<Rightarrow> cstring" where
  "below fspath fullpath = (case dfs_subdir fspath fullpath of None \<Rightarrow> [slash] | Some n \<Rightarrow> drop n fullpath)"

definition open_prepare :: "'a dfs_scheme dfs_code \<Rightarrow> addr \<Rightarrow> nat \<Rightarrow> addr \<Rightarrow> cstring \<Rightarrow> u32 \<Rightarrow> 'a dfs_scheme \<Rightarrow> 'a dfs_scheme option" where
  "open_prepare code d i fullpath s flags k =
     (case (ops (filesystem_table k ! i), path (filesystem_table k ! i)) of
        (Some t, Some fspath) \<Rightarrow>
          let k = upd_fd d (\<lambda>f. f\<lparr>fd_fs := Some i, fd_fops := Some (ops_fops (fs_code code t)), fd_type := FT_REGULAR, fd_flags := flags,
                  fd_size := 0, fd_pos := 0, fd_data := Some i\<rparr>) k
          in if ops_flags (fs_code code t) AND DFS_FS_FLAG_FULLPATH = 0 then
               do {
                 fspath \<leftarrow> cstring_at (bytes (dev_heap k)) fspath;
                 (p, h) \<leftarrow> rt_strdup (below fspath s) (dev_heap k);
                 dfs_free (Some fullpath) (upd_fd d (\<lambda>f. f\<lparr>fd_path := p\<rparr>) (k\<lparr>dev_heap := h\<rparr>))
               }
             else Some (upd_fd d (\<lambda>f. f\<lparr>fd_path := Some fullpath\<rparr>) k)
      | _ \<Rightarrow> None)"

definition drop_path :: "addr \<Rightarrow> 'a dfs_scheme \<Rightarrow> 'a dfs_scheme option" where
  "drop_path d k = map_option (upd_fd d (\<lambda>f. f\<lparr>fd_path := None\<rparr>)) (dfs_free (fd_path (fd_at k d)) k)"

definition open_call :: "'a dfs_scheme dfs_code \<Rightarrow> addr \<Rightarrow> u32 \<Rightarrow> 'a dfs_scheme \<Rightarrow> (int \<times> 'a dfs_scheme) option" where
  "open_call code d flags k =
     (case fd_fops (fd_at k d) of None \<Rightarrow> None
      | Some fo \<Rightarrow>
          (case op_open (file_code code fo) of
             None \<Rightarrow> map_option (\<lambda>k. (- ENOSYS, k)) (drop_path d k)
           | Some f \<Rightarrow>
               (case f d k of (result, k) \<Rightarrow>
                  if result < 0 then map_option (\<lambda>k. (result, k)) (drop_path d k)
                  else
                    let k = upd_fd d (\<lambda>f. f\<lparr>fd_flags := fd_flags f OR DFS_F_OPEN\<rparr>) k
                    in Some (0, if flags AND O_DIRECTORY \<noteq> 0 then
                         upd_fd d (\<lambda>f. f\<lparr>fd_type := FT_DIRECTORY, fd_flags := fd_flags f OR DFS_F_DIRECTORY\<rparr>) k else k))))"

definition dfs_file_open :: "'a dfs_scheme dfs_code \<Rightarrow> addr option \<Rightarrow> cstring \<Rightarrow> u32 \<Rightarrow> 'a dfs_scheme \<Rightarrow> (int \<times> 'a dfs_scheme) option" where
  "dfs_file_open code fd name flags k =
     (case fd of
        None \<Rightarrow> Some (- EINVAL, k)
      | Some d \<Rightarrow>
          do {
            (fullpath, k) \<leftarrow> dfs_full_path name k;
            case fullpath of
              None \<Rightarrow> Some (- ENOMEM, k)
            | Some p \<Rightarrow>
                do {
                  s \<leftarrow> cstring_at (bytes (dev_heap k)) p;
                  (fs, k) \<leftarrow> dfs_filesystem_lookup s k;
                  case fs of
                    None \<Rightarrow> map_option (\<lambda>k. (- ENOENT, k)) (dfs_free (Some p) k)
                  | Some i \<Rightarrow> do { k \<leftarrow> open_prepare code d i p s flags k; open_call code d flags k }
                }
          })"

definition dfs_file_close :: "'a dfs_scheme dfs_code \<Rightarrow> addr option \<Rightarrow> 'a dfs_scheme \<Rightarrow> (int \<times> 'a dfs_scheme) option" where
  "dfs_file_close code fd k =
     (case fd of
        None \<Rightarrow> Some (- ENXIO, k)
      | Some d \<Rightarrow>
          (case fd_fops (fd_at k d) of None \<Rightarrow> None
           | Some fo \<Rightarrow>
               (case (case op_close (file_code code fo) of None \<Rightarrow> (0, k) | Some f \<Rightarrow> f d k) of (result, k) \<Rightarrow>
                  if result < 0 then Some (result, k) else map_option (\<lambda>k. (result, k)) (drop_path d k))))"

section \<open>Mounting\<close>

text \<open>The search for an empty place, which a file system on the same name ends; the types by their name.\<close>

fun mount_loop :: "memory \<Rightarrow> cstring \<Rightarrow> nat \<Rightarrow> nat option \<Rightarrow> dfs_filesystem list \<Rightarrow> (nat option \<times> bool) option" where
  "mount_loop m name i fs [] = Some (fs, False)"
| "mount_loop m name i fs (iter # rest) =
     (if ops iter = None then mount_loop m name (i + 1) (if fs = None then Some i else fs) rest
      else case path iter of None \<Rightarrow> None
           | Some p \<Rightarrow> do { s \<leftarrow> cstring_at m p; if rt_strcmp s name = 0 then Some (fs, True) else mount_loop m name (i + 1) fs rest })"

definition find_type :: "(nat \<Rightarrow> 'k dfs_filesystem_ops) \<Rightarrow> cstring \<Rightarrow> nat option list \<Rightarrow> nat option" where
  "find_type code name table = find (\<lambda>t. rt_strcmp (ops_name (code t)) name = 0) (List.map_filter id table)"

text \<open>The check that the mount point is a directory; \<open>fd\<close> is the local variable of that name.\<close>

definition mount_point :: "'a dfs_scheme dfs_code \<Rightarrow> addr \<Rightarrow> cstring \<Rightarrow> 'a dfs_scheme \<Rightarrow> (int \<times> 'a dfs_scheme) option" where
  "mount_point code fd fullpath k =
     (if rt_strcmp fullpath (map ascii ''/'') \<noteq> 0 \<and> rt_strcmp fullpath (map ascii ''/dev'') \<noteq> 0 then
        do {
          (result, k) \<leftarrow> dfs_file_open code (Some fd) fullpath (O_RDONLY OR O_DIRECTORY) k;
          if result < 0 then Some (- 1, k) else do { (_, k) \<leftarrow> dfs_file_close code (Some fd) k; Some (0, k) }
        }
      else Some (0, k))"

definition mount_err1 :: "addr \<Rightarrow> 'a dfs_scheme \<Rightarrow> (int \<times> 'a dfs_scheme) option" where
  "mount_err1 fullpath k = map_option (\<lambda>k. (- 1, k)) (dfs_free (Some fullpath) (dfs_unlock k))"

definition fs_close_device :: "'a dfs_scheme dfs_code \<Rightarrow> nat \<Rightarrow> 'a dfs_scheme \<Rightarrow> 'a dfs_scheme" where
  "fs_close_device code i k = (case dev_id (filesystem_table k ! i) of None \<Rightarrow> k | Some d \<Rightarrow> snd (rt_device_close (dev_code code) d k))"

definition mount_enter :: "'a dfs_scheme dfs_code \<Rightarrow> nat \<Rightarrow> addr option \<Rightarrow> addr \<Rightarrow> cstring \<Rightarrow> u32 \<Rightarrow> nat \<Rightarrow> 'a dfs_scheme \<Rightarrow> (int \<times> 'a dfs_scheme) option" where
  "mount_enter code t dev fullpath name rwflag data k =
     (let k = dfs_lock k
      in do {
           (fs, taken) \<leftarrow> mount_loop (bytes (dev_heap k)) name 0 None (filesystem_table k);
           if taken then mount_err1 fullpath (rt_set_errno (- EINVAL) k)
           else case fs of
             None \<Rightarrow> mount_err1 fullpath (rt_set_errno (- ENOSPC) k)
           | Some i \<Rightarrow>
               let k = dfs_unlock (upd_fs i (\<lambda>f. f\<lparr>path := Some fullpath, ops := Some t, dev_id := dev\<rparr>) k);
                   (result, k) = (case dev of None \<Rightarrow> (0, k) | Some d \<Rightarrow> rt_device_open (dev_code code) d RT_DEVICE_OFLAG_RDWR k)
               in if result \<noteq> RT_EOK then mount_err1 fullpath (upd_fs i (\<lambda>_. zero_filesystem) (dfs_lock k))
                  else case op_mount (fs_code code t) of None \<Rightarrow> None
                  | Some f \<Rightarrow>
                      (case f i rwflag data k of (result, k) \<Rightarrow>
                         if result < 0 then
                           mount_err1 fullpath (upd_fs i (\<lambda>_. zero_filesystem) (dfs_lock (if dev \<noteq> None then fs_close_device code i k else k)))
                         else Some (0, k))
         })"

definition dfs_mount :: "'a dfs_scheme dfs_code \<Rightarrow> addr \<Rightarrow> cstring option \<Rightarrow> cstring \<Rightarrow> cstring \<Rightarrow> u32 \<Rightarrow> nat \<Rightarrow> 'a dfs_scheme \<Rightarrow> (int \<times> 'a dfs_scheme) option" where
  "dfs_mount code fd device_name name filesystemtype rwflag data k =
     (case (case device_name of None \<Rightarrow> (None, k) | Some n \<Rightarrow> rt_device_find (Some n) k) of (dev, k) \<Rightarrow>
        if device_name \<noteq> None \<and> dev = None then Some (- 1, rt_set_errno (- ENODEV) k)
        else case find_type (fs_code code) filesystemtype (filesystem_operation_table k) of
          None \<Rightarrow> Some (- 1, rt_set_errno (- ENODEV) k)
        | Some t \<Rightarrow>
            if op_mount (fs_code code t) = None then Some (- 1, rt_set_errno (- ENOSYS) k)
            else do {
              (fullpath, k) \<leftarrow> dfs_full_path name k;
              case fullpath of
                None \<Rightarrow> Some (- 1, rt_set_errno (- ENOTDIR) k)
              | Some p \<Rightarrow>
                  do {
                    s \<leftarrow> cstring_at (bytes (dev_heap k)) p;
                    (result, k) \<leftarrow> mount_point code fd s k;
                    if result < 0 then map_option (\<lambda>k. (- 1, rt_set_errno (- ENOTDIR) k)) (dfs_free (Some p) k)
                    else mount_enter code t dev p name rwflag data k
                  }
            })"

text \<open>The file system that is mounted on a path.\<close>

fun unmount_loop :: "memory \<Rightarrow> cstring \<Rightarrow> nat \<Rightarrow> dfs_filesystem list \<Rightarrow> nat option option" where
  "unmount_loop m name i [] = Some None"
| "unmount_loop m name i (iter # rest) =
     (case path iter of
        None \<Rightarrow> unmount_loop m name (i + 1) rest
      | Some p \<Rightarrow> do { s \<leftarrow> cstring_at m p; if rt_strcmp s name = 0 then Some (Some i) else unmount_loop m name (i + 1) rest })"

definition dfs_unmount :: "'a dfs_scheme dfs_code \<Rightarrow> cstring \<Rightarrow> 'a dfs_scheme \<Rightarrow> (int \<times> 'a dfs_scheme) option" where
  "dfs_unmount code specialfile k =
     do {
       (fullpath, k) \<leftarrow> dfs_full_path specialfile k;
       case fullpath of
         None \<Rightarrow> Some (- 1, rt_set_errno (- ENOTDIR) k)
       | Some p \<Rightarrow>
           do {
             let k = dfs_lock k;
             s \<leftarrow> cstring_at (bytes (dev_heap k)) p;
             fs \<leftarrow> unmount_loop (bytes (dev_heap k)) s 0 (filesystem_table k);
             case fs of
               None \<Rightarrow> mount_err1 p k
             | Some i \<Rightarrow>
                 (case ops (filesystem_table k ! i) of None \<Rightarrow> None
                  | Some t \<Rightarrow>
                      (case op_unmount (fs_code code t) of
                         None \<Rightarrow> mount_err1 p k
                       | Some f \<Rightarrow>
                           (case f i k of (result, k) \<Rightarrow>
                              if result < 0 then mount_err1 p k
                              else
                                do {
                                  let k = fs_close_device code i k;
                                  k \<leftarrow> dfs_free (path (filesystem_table k ! i)) k;
                                  let k = dfs_unlock (upd_fs i (\<lambda>_. zero_filesystem) k);
                                  k \<leftarrow> dfs_free (Some p) k;
                                  Some (0, k)
                                })))
           }
     }"

definition dfs_mkfs :: "'a dfs_scheme dfs_code \<Rightarrow> cstring \<Rightarrow> cstring option \<Rightarrow> 'a dfs_scheme \<Rightarrow> int \<times> 'a dfs_scheme" where
  "dfs_mkfs code fs_name device_name k =
     (case (case device_name of None \<Rightarrow> (None, k) | Some n \<Rightarrow> rt_device_find (Some n) k) of
        (None, k) \<Rightarrow> (- 1, rt_set_errno (- ENODEV) k)
      | (Some d, k) \<Rightarrow>
          (case find_type (fs_code code) fs_name (filesystem_operation_table k) of
             None \<Rightarrow> (- 1, k)
           | Some t \<Rightarrow>
               (case op_mkfs (fs_code code t) of
                  None \<Rightarrow> (- 1, rt_set_errno (- ENOSYS) k)
                | Some f \<Rightarrow> f d k)))"

definition dfs_statfs :: "'a dfs_scheme dfs_code \<Rightarrow> cstring \<Rightarrow> addr \<Rightarrow> 'a dfs_scheme \<Rightarrow> (int \<times> 'a dfs_scheme) option" where
  "dfs_statfs code name buffer k =
     do {
       (fs, k) \<leftarrow> dfs_filesystem_lookup name k;
       case fs of
         None \<Rightarrow> Some (- 1, k)
       | Some i \<Rightarrow>
           (case ops (filesystem_table k ! i) of None \<Rightarrow> None
            | Some t \<Rightarrow> (case op_statfs (fs_code code t) of None \<Rightarrow> Some (- 1, k) | Some f \<Rightarrow> Some (f i buffer k)))
     }"

section \<open>Mount points and names\<close>

text \<open>A list of names in normal form, and its text.\<close>

definition normal :: "u8 list list \<Rightarrow> bool" where
  "normal st \<longleftrightarrow> list_all plain_name st \<and> [dot] \<notin> set st \<and> [dot, dot] \<notin> set st"

abbreviation text_of :: "u8 list list \<Rightarrow> cstring" where
  "text_of st \<equiv> render (True, st)"

definition slashed :: "u8 list list \<Rightarrow> cstring" where
  "slashed st = concat (map ((#) slash) st)"

lemma slashed_simps [simp]: "slashed [] = []" "slashed (c # st) = slash # c @ slashed st" "slashed (st @ ns) = slashed st @ slashed ns"
  by (simp_all add: slashed_def)

lemma text_of_slashed: "text_of st = (if st = [] then [slash] else slashed st)"
proof -
  have "slash # concat (map (\<lambda>c. c @ [slash]) st) = slashed st @ [slash]" by (induction st) simp_all
  then show ?thesis by (simp add: render_def dirs_def)
qed

lemma slashed_head: "slashed st = [] \<or> hd (slashed st) = slash"
  by (cases st) simp_all

lemma split_at_slash:
  assumes "c @ x = d @ y" "slash \<notin> set c" "slash \<notin> set d" "x = [] \<or> hd x = slash" "y = [] \<or> hd y = slash"
  shows "c = d \<and> x = y"
proof -
  have "takeWhile (\<lambda>a. a \<noteq> slash) (c @ x) = c" if "slash \<notin> set c" "x = [] \<or> hd x = slash" for c x
    using that by (cases x) (auto simp: takeWhile_append takeWhile_eq_all_conv)
  from this [OF assms(2,4)] this [OF assms(3,5)] show ?thesis using assms(1) by simp
qed

lemma slashed_prefix:
  assumes "list_all plain_name st" "list_all plain_name ns" "r = [] \<or> hd r = slash"
  shows "slashed ns = slashed st @ r \<longleftrightarrow> prefix st ns \<and> r = slashed (drop (length st) ns)"
  using assms
proof (induction st arbitrary: ns)
  case (Cons c st)
  show ?case
  proof (cases ns)
    case Nil
    then show ?thesis by simp
  next
    case (Cons d ns')
    have p: "slash \<notin> set c" "slash \<notin> set d" using Cons.prems(1,2) Cons by (simp_all add: plain_name_def)
    have h: "slashed st @ r = [] \<or> hd (slashed st @ r) = slash" using slashed_head [of st] Cons.prems(3) by (cases "slashed st") auto
    have "slashed ns = slashed (c # st) @ r \<longleftrightarrow> d = c \<and> slashed ns' = slashed st @ r"
      using split_at_slash [of d "slashed ns'" c "slashed st @ r"] p h slashed_head [of ns'] Cons by auto
    also have "\<dots> \<longleftrightarrow> d = c \<and> prefix st ns' \<and> r = slashed (drop (length st) ns')" using Cons.IH [of ns'] Cons.prems Cons by auto
    finally show ?thesis using Cons by auto
  qed
qed auto

lemma rt_strncmp_prefix:
  assumes "0 \<notin> set s" "0 \<notin> set t"
  shows "rt_strncmp s t (length s) = 0 \<longleftrightarrow> prefix s t"
proof -
  have "rt_strncpy s (length s) = rt_strncpy t (length s) \<longleftrightarrow> prefix s t" if "0 \<notin> set s" "0 \<notin> set t" for s t
    using that
  proof (induction s arbitrary: t)
    case (Cons c s)
    then show ?case by (cases t) (auto simp: chr_at_def)
  qed simp
  then show ?thesis using assms by (simp add: rt_strncmp_zero_iff)
qed

text \<open>The test of \<open>dfs_filesystem_lookup\<close>: one path lies below another.\<close>

lemma path_test:
  assumes st: "list_all plain_name st" and ns: "list_all plain_name ns"
  defines "s \<equiv> text_of st" and "t \<equiv> text_of ns"
  shows "rt_strncmp s t (length s) = 0 \<and> \<not> (1 < length s \<and> length s < length t \<and> chr_at (drop (length s) t) \<noteq> slash) \<longleftrightarrow> prefix st ns"
proof (cases "st = []")
  case True
  have "hd t = slash" unfolding t_def by (rule rooted_text [OF ns])
  then show ?thesis using True render_text(1) [OF ns, of True] by (cases t) (auto simp: s_def t_def text_of_slashed chr_at_def)
next
  case False
  have z: "0 \<notin> set s" "0 \<notin> set t" using render_text(2) st ns by (simp_all add: s_def t_def)
  have s: "s = slashed st" using False by (simp add: s_def text_of_slashed)
  have l: "1 < length s" using False st unfolding s by (cases st) (auto simp: plain_name_def)
  have lt: "length s < length t \<longleftrightarrow> drop (length s) t \<noteq> []" by auto
  have "rt_strncmp s t (length s) = 0 \<and> \<not> (1 < length s \<and> length s < length t \<and> chr_at (drop (length s) t) \<noteq> slash)
    \<longleftrightarrow> prefix s t \<and> (drop (length s) t = [] \<or> hd (drop (length s) t) = slash)"
    unfolding rt_strncmp_prefix [OF z] lt using l by (cases "drop (length s) t") (simp_all add: chr_at_def)
  also have "\<dots> \<longleftrightarrow> (\<exists>r. t = s @ r \<and> (r = [] \<or> hd r = slash))" by (auto elim!: prefixE)
  also have "\<dots> \<longleftrightarrow> prefix st ns"
  proof (cases "ns = []")
    case True
    then have "t = [slash]" by (simp add: t_def text_of_slashed)
    moreover have "length (s @ r) > 1" for r using l by simp
    ultimately have "t \<noteq> s @ r" for r by (metis One_nat_def length_Cons list.size(3) less_irrefl)
    then show ?thesis using True \<open>st \<noteq> []\<close> by simp
  next
    case False
    then have "t = slashed ns" by (simp add: t_def text_of_slashed)
    then have "(\<exists>r. t = s @ r \<and> (r = [] \<or> hd r = slash)) \<longleftrightarrow> (\<exists>r. prefix st ns \<and> r = slashed (drop (length st) ns) \<and> (r = [] \<or> hd r = slash))"
      unfolding s using slashed_prefix [OF st ns] by (intro iff_exI) metis
    then show ?thesis using slashed_head [of "drop (length st) ns"] by auto
  qed
  finally show ?thesis .
qed

text \<open>A longer prefix has a longer text.\<close>

lemma text_longer:
  assumes "list_all plain_name ns" "prefix st ns" "prefix st' ns"
  shows "length (text_of st) < length (text_of st') \<longleftrightarrow> length st < length st'"
proof -
  have *: "length (text_of a) < length (text_of b)" if ab: "prefix a ns" "prefix b ns" "length a < length b" for a b
  proof -
    have "prefix a b" using prefix_length_prefix [OF ab(1,2)] ab(3) by simp
    then obtain e where e: "b = a @ e" by (elim prefixE)
    then obtain c d where b: "b = a @ c # d" using ab(3) by (cases e) auto
    then have "plain_name c" using ab(2) assms(1) by (auto elim!: prefixE)
    then have "c \<noteq> []" by (simp add: plain_name_def)
    then show ?thesis unfolding b by (cases c) (simp_all add: text_of_slashed)
  qed
  consider "length st < length st'" | "length st' < length st" | "st = st'"
    using assms(2,3) by (metis linorder_neqE_nat prefix_length_prefix prefix_order.antisym le_refl)
  then show ?thesis
  proof cases
    case 1
    then show ?thesis using * [OF assms(2,3)] by simp
  next
    case 2
    then show ?thesis using * [OF assms(3,2)] by simp
  qed simp
qed

lemma cstring_at_str: "str_at m a s \<Longrightarrow> cstring_at m a = Some s"
  by (induction s arbitrary: a) (simp_all add: cstring_at.simps [of m] str_at_Cons)

text \<open>A file system is mounted on names; an entry of the table is empty or mounted.\<close>

definition mounted_on :: "memory \<Rightarrow> dfs_filesystem \<Rightarrow> u8 list list \<Rightarrow> bool" where
  "mounted_on m f st \<longleftrightarrow> ops f \<noteq> None \<and> (\<exists>p. path f = Some p \<and> str_at m p (text_of st)) \<and> normal st"

definition entry_ok :: "memory \<Rightarrow> dfs_filesystem \<Rightarrow> bool" where
  "entry_ok m f \<longleftrightarrow> ops f = None \<and> path f = None \<or> (\<exists>st. mounted_on m f st)"

lemma mounted_onD:
  assumes "mounted_on m f st"
  shows "\<exists>p t. path f = Some p \<and> ops f = Some t \<and> cstring_at m p = Some (text_of st) \<and> rt_strlen (text_of st) = length (text_of st)" "list_all plain_name st"
  using assms cstring_at_str render_text(2) [of st True] by (auto simp: mounted_on_def normal_def rt_strlen_length)

lemma mounted_on_unique:
  assumes "mounted_on m f st" "mounted_on m f st'"
  shows "st = st'"
proof -
  have e: "text_of st = text_of st'" using mounted_onD(1) [OF assms(1)] mounted_onD(1) [OF assms(2)] by auto
  have "names (text_of st @ [slash]) = st" "names (text_of st' @ [slash]) = st'"
    using rooted_text(2) [OF mounted_onD(2) [OF assms(1)], of "[]"] rooted_text(2) [OF mounted_onD(2) [OF assms(2)], of "[]"] by simp_all
  then show ?thesis unfolding e by metis
qed

text \<open>The loop finds the last of the longest names above the path.\<close>

definition mount_above :: "memory \<Rightarrow> u8 list list \<Rightarrow> dfs_filesystem \<Rightarrow> u8 list list \<Rightarrow> bool" where
  "mount_above m ns f st \<longleftrightarrow> mounted_on m f st \<and> prefix st ns"

lemma lookup_step:
  assumes "list_all plain_name ns" "mounted_on m f st"
  shows "lookup_loop m (text_of ns) plen fs i (f # rest) =
    (if plen \<le> length (text_of st) \<and> prefix st ns then lookup_loop m (text_of ns) (length (text_of st)) (Some i) (i + 1) rest
     else lookup_loop m (text_of ns) plen fs (i + 1) rest)"
proof -
  obtain p t where p: "path f = Some p" "ops f = Some t" "cstring_at m p = Some (text_of st)" "rt_strlen (text_of st) = length (text_of st)"
    using mounted_onD(1) [OF assms(2)] by blast
  have n: "rt_strlen (text_of ns) = length (text_of ns)" using render_text(2) [OF assms(1)] by (simp add: rt_strlen_length)
  show ?thesis using p n path_test [OF mounted_onD(2) [OF assms(2)] assms(1)] by (auto simp: Let_def not_less)
qed

lemma lookup_loop_longest:
  assumes "list_all plain_name ns" "\<forall>f \<in> set rest. entry_ok m f"
  shows "\<exists>r. lookup_loop m (text_of ns) plen fs i rest = Some r
    \<and> (r = fs \<and> (\<forall>f \<in> set rest. \<forall>st. mount_above m ns f st \<longrightarrow> length (text_of st) < plen)
       \<or> (\<exists>j st. r = Some (i + j) \<and> j < length rest \<and> mount_above m ns (rest ! j) st \<and> plen \<le> length (text_of st)
            \<and> (\<forall>f \<in> set rest. \<forall>st'. mount_above m ns f st' \<longrightarrow> length (text_of st') \<le> length (text_of st))))"
  using assms(2)
proof (induction rest arbitrary: plen fs i)
  case (Cons f rest)
  have e: "\<forall>f \<in> set rest. entry_ok m f" using Cons.prems by simp
  consider "ops f = None" "path f = None" | st where "mounted_on m f st" using Cons.prems by (auto simp: entry_ok_def)
  then show ?case
  proof cases
    case 1
    then have n: "\<not> mount_above m ns f st" for st by (simp add: mount_above_def mounted_on_def)
    have l: "lookup_loop m (text_of ns) plen fs i (f # rest) = lookup_loop m (text_of ns) plen fs (i + 1) rest" using 1 by simp
    show ?thesis using Cons.IH [OF e, of plen fs "i + 1"] n unfolding l by (auto intro!: exI [of _ "Suc _"])
  next
    case (2 st)
    have u: "length (text_of st') \<le> length (text_of st)" "prefix st ns" if "mount_above m ns f st'" for st'
      using that mounted_on_unique [OF 2, of st'] by (simp_all add: mount_above_def)
    show ?thesis
    proof (cases "plen \<le> length (text_of st) \<and> prefix st ns")
      case True
      then have a: "mount_above m ns f st" "plen \<le> length (text_of st)" using 2 by (simp_all add: mount_above_def)
      have l: "lookup_loop m (text_of ns) plen fs i (f # rest) = lookup_loop m (text_of ns) (length (text_of st)) (Some i) (i + 1) rest"
        using lookup_step [OF assms(1) 2, of plen fs i rest] True by simp
      obtain r where r: "lookup_loop m (text_of ns) (length (text_of st)) (Some i) (i + 1) rest = Some r"
        and c: "r = Some i \<and> (\<forall>f \<in> set rest. \<forall>st'. mount_above m ns f st' \<longrightarrow> length (text_of st') < length (text_of st))
          \<or> (\<exists>j st'. r = Some (i + 1 + j) \<and> j < length rest \<and> mount_above m ns (rest ! j) st' \<and> length (text_of st) \<le> length (text_of st')
               \<and> (\<forall>f \<in> set rest. \<forall>st2. mount_above m ns f st2 \<longrightarrow> length (text_of st2) \<le> length (text_of st')))"
        using Cons.IH [OF e, of "length (text_of st)" "Some i" "i + 1"] by blast
      from c show ?thesis
      proof
        assume "r = Some i \<and> (\<forall>f \<in> set rest. \<forall>st'. mount_above m ns f st' \<longrightarrow> length (text_of st') < length (text_of st))"
        then show ?thesis unfolding l r using a u by (intro exI [of _ r] conjI refl disjI2 exI [of _ 0] exI [of _ st]) (auto intro: less_imp_le)
      next
        assume "\<exists>j st'. r = Some (i + 1 + j) \<and> j < length rest \<and> mount_above m ns (rest ! j) st' \<and> length (text_of st) \<le> length (text_of st')
               \<and> (\<forall>f \<in> set rest. \<forall>st2. mount_above m ns f st2 \<longrightarrow> length (text_of st2) \<le> length (text_of st'))"
        then obtain j st' where j: "r = Some (i + 1 + j)" "j < length rest" "mount_above m ns (rest ! j) st'" "length (text_of st) \<le> length (text_of st')"
          "\<forall>f \<in> set rest. \<forall>st2. mount_above m ns f st2 \<longrightarrow> length (text_of st2) \<le> length (text_of st')" by blast
        moreover have "length (text_of st2) \<le> length (text_of st')" if "mount_above m ns f st2" for st2 using u(1) [OF that] j(4) by simp
        moreover have "plen \<le> length (text_of st')" using a(2) j(4) by simp
        ultimately show ?thesis unfolding l r by (intro exI [of _ r] conjI refl disjI2 exI [of _ "Suc j"] exI [of _ st']) auto
      qed
    next
      case False
      then have n: "mount_above m ns f st' \<Longrightarrow> length (text_of st') < plen" for st' using u [of st'] by fastforce
      have l: "lookup_loop m (text_of ns) plen fs i (f # rest) = lookup_loop m (text_of ns) plen fs (i + 1) rest"
        using lookup_step [OF assms(1) 2, of plen fs i rest] False by simp
      obtain r where r: "lookup_loop m (text_of ns) plen fs (i + 1) rest = Some r"
        and c: "r = fs \<and> (\<forall>f \<in> set rest. \<forall>st. mount_above m ns f st \<longrightarrow> length (text_of st) < plen)
          \<or> (\<exists>j st. r = Some (i + 1 + j) \<and> j < length rest \<and> mount_above m ns (rest ! j) st \<and> plen \<le> length (text_of st)
               \<and> (\<forall>f \<in> set rest. \<forall>st'. mount_above m ns f st' \<longrightarrow> length (text_of st') \<le> length (text_of st)))"
        using Cons.IH [OF e, of plen fs "i + 1"] by blast
      from c show ?thesis
      proof
        assume "r = fs \<and> (\<forall>f \<in> set rest. \<forall>st. mount_above m ns f st \<longrightarrow> length (text_of st) < plen)"
        then show ?thesis unfolding l r using n by auto
      next
        assume "\<exists>j st. r = Some (i + 1 + j) \<and> j < length rest \<and> mount_above m ns (rest ! j) st \<and> plen \<le> length (text_of st)
               \<and> (\<forall>f \<in> set rest. \<forall>st'. mount_above m ns f st' \<longrightarrow> length (text_of st') \<le> length (text_of st))"
        then obtain j st2 where j: "r = Some (i + 1 + j)" "j < length rest" "mount_above m ns (rest ! j) st2" "plen \<le> length (text_of st2)"
          "\<forall>f \<in> set rest. \<forall>st'. mount_above m ns f st' \<longrightarrow> length (text_of st') \<le> length (text_of st2)" by blast
        then show ?thesis unfolding l r using n by (intro exI [of _ r] conjI refl disjI2 exI [of _ "Suc j"] exI [of _ st2]) (auto dest!: n)
      qed
    qed
  qed
qed simp

text \<open>All entries of the table of file systems are empty or mounted.\<close>

definition mounts_ok :: "'a dfs_scheme \<Rightarrow> bool" where
  "mounts_ok k \<longleftrightarrow> (\<forall>f \<in> set (filesystem_table k). entry_ok (bytes (dev_heap k)) f)"

text \<open>The file system \<open>i\<close> is mounted on the names \<open>st\<close>.\<close>

definition mounted :: "'a dfs_scheme \<Rightarrow> nat \<Rightarrow> u8 list list \<Rightarrow> bool" where
  "mounted k i st \<longleftrightarrow> i < length (filesystem_table k) \<and> mounted_on (bytes (dev_heap k)) (filesystem_table k ! i) st"

lemma dfs_unlock_lock [simp]: "dfs_unlock (dfs_lock k) = k"
  by (simp add: dfs_lock_def dfs_unlock_def)

lemma dfs_lock_sel [simp]: "filesystem_table (dfs_lock k) = filesystem_table k" "dev_heap (dfs_lock k) = dev_heap k"
    "filesystem_table (dfs_unlock k) = filesystem_table k" "dev_heap (dfs_unlock k) = dev_heap k"
  by (simp_all add: dfs_lock_def dfs_unlock_def)

lemma lookup_longest:
  assumes "mounts_ok k" "normal ns"
  shows "\<exists>r. dfs_filesystem_lookup (text_of ns) k = Some (r, k) \<and> (case r of
      None \<Rightarrow> \<forall>i st. mounted k i st \<longrightarrow> \<not> prefix st ns
    | Some i \<Rightarrow> \<exists>st. mounted k i st \<and> prefix st ns \<and> (\<forall>j st'. mounted k j st' \<longrightarrow> prefix st' ns \<longrightarrow> length st' \<le> length st))"
proof -
  let ?m = "bytes (dev_heap k)" and ?T = "filesystem_table k"
  have ns: "list_all plain_name ns" using assms(2) by (simp add: normal_def)
  obtain r where r: "lookup_loop ?m (text_of ns) 0 None 0 ?T = Some r"
    and c: "r = None \<and> (\<forall>f \<in> set ?T. \<forall>st. mount_above ?m ns f st \<longrightarrow> length (text_of st) < 0)
       \<or> (\<exists>j st. r = Some (0 + j) \<and> j < length ?T \<and> mount_above ?m ns (?T ! j) st \<and> 0 \<le> length (text_of st)
            \<and> (\<forall>f \<in> set ?T. \<forall>st'. mount_above ?m ns f st' \<longrightarrow> length (text_of st') \<le> length (text_of st)))"
    using lookup_loop_longest [OF ns, of ?T ?m 0 None 0] assms(1) unfolding mounts_ok_def by blast
  have l: "dfs_filesystem_lookup (text_of ns) k = Some (r, k)" using r by (simp add: dfs_filesystem_lookup_def Let_def)
  have m: "mount_above ?m ns (?T ! i) st \<and> ?T ! i \<in> set ?T" if "mounted k i st" "prefix st ns" for i st
    using that by (simp add: mounted_def mount_above_def)
  from c show ?thesis
  proof
    assume "r = None \<and> (\<forall>f \<in> set ?T. \<forall>st. mount_above ?m ns f st \<longrightarrow> length (text_of st) < 0)"
    then show ?thesis using l m by fastforce
  next
    assume "\<exists>j st. r = Some (0 + j) \<and> j < length ?T \<and> mount_above ?m ns (?T ! j) st \<and> 0 \<le> length (text_of st)
            \<and> (\<forall>f \<in> set ?T. \<forall>st'. mount_above ?m ns f st' \<longrightarrow> length (text_of st') \<le> length (text_of st))"
    then obtain j st where j: "r = Some j" "j < length ?T" "mount_above ?m ns (?T ! j) st"
        "\<forall>f \<in> set ?T. \<forall>st'. mount_above ?m ns f st' \<longrightarrow> length (text_of st') \<le> length (text_of st)" by auto
    have "length st' \<le> length st" if "mounted k i st'" "prefix st' ns" for i st'
    proof -
      have "prefix st ns" using j(3) by (simp add: mount_above_def)
      moreover have "\<not> length (text_of st) < length (text_of st')" using m [OF that] j(4) by (meson not_le)
      ultimately show ?thesis using text_longer [OF ns, of st st'] that(2) by simp
    qed
    moreover have "mounted k j st" "prefix st ns" using j(2,3) by (simp_all add: mounted_def mount_above_def)
    ultimately show ?thesis using l j(1) by auto
  qed
qed

section \<open>Blocks of the heap\<close>

definition heap_good :: "small_heap \<Rightarrow> bool" where
  "heap_good h \<longleftrightarrow> heap_ok h \<and> 0 < heap_sem h"

text \<open>The heap changes, and nothing else.\<close>

abbreviation (input) with_heap :: "'a dfs_scheme \<Rightarrow> small_heap \<Rightarrow> 'a dfs_scheme" where
  "with_heap k h \<equiv> k\<lparr>dev_heap := h\<rparr>"

lemma live_kept_trans:
  assumes "live_kept h h1" "live_kept h1 h2" "heap_live h \<inter> heap_live h2 \<subseteq> heap_live h1"
  shows "live_kept h h2"
  unfolding live_kept_def
proof (intro ballI, clarify)
  fix q f x
  assume l: "(q, f) \<in> heap_live h" "(q, f) \<in> heap_live h2" and x: "q \<le> x" "x < f"
  have "bytes h1 x = bytes h x" using assms(1,3) l x unfolding live_kept_def by blast
  moreover have "bytes h2 x = bytes h1 x" using assms(2,3) l x unfolding live_kept_def by blast
  ultimately show "bytes h2 x = bytes h x" by simp
qed

lemma str_kept:
  assumes "live_kept h h'" "(p, e) \<in> heap_live h" "(p, e) \<in> heap_live h'" "str_at (bytes h) p s" "p + length s < e"
  shows "str_at (bytes h') p s"
  using assms(4)
proof (rule str_at_cong)
  fix x assume "p \<le> x" "x \<le> p + length s"
  then have "p \<le> x" "x < e" using assms(5) by simp_all
  then show "bytes h' x = bytes h x" using assms(1-3) unfolding live_kept_def by blast
qed

text \<open>The blocks in use that start in \<open>A\<close> stay, with their contents; the code outside may do what it likes with the rest of the heap.\<close>

definition kept_at :: "addr set \<Rightarrow> small_heap \<Rightarrow> small_heap \<Rightarrow> bool" where
  "kept_at A h h' \<longleftrightarrow> (\<forall>(q, f) \<in> heap_live h. q \<in> A \<longrightarrow> (q, f) \<in> heap_live h' \<and> (\<forall>x. q \<le> x \<longrightarrow> x < f \<longrightarrow> bytes h' x = bytes h x))"

lemma kept_atD:
  assumes "kept_at A h h'" "(q, f) \<in> heap_live h" "q \<in> A"
  shows "(q, f) \<in> heap_live h'" "q \<le> x \<Longrightarrow> x < f \<Longrightarrow> bytes h' x = bytes h x"
  using assms unfolding kept_at_def by blast+

lemma kept_at_refl [simp]: "kept_at A h h"
  by (auto simp: kept_at_def)

lemma kept_at_trans: "kept_at A h h1 \<Longrightarrow> kept_at A h1 h2 \<Longrightarrow> kept_at A h h2"
  unfolding kept_at_def by fastforce

lemma kept_at_mono: "kept_at A h h' \<Longrightarrow> B \<subseteq> A \<Longrightarrow> kept_at B h h'"
  unfolding kept_at_def by blast

lemma kept_at_live:
  assumes "live_kept h h'" "\<And>q f. (q, f) \<in> heap_live h \<Longrightarrow> q \<in> A \<Longrightarrow> (q, f) \<in> heap_live h'"
  shows "kept_at A h h'"
  unfolding kept_at_def
proof (intro ballI, clarify)
  fix q f assume q: "(q, f) \<in> heap_live h" "q \<in> A"
  then show "(q, f) \<in> heap_live h' \<and> (\<forall>x\<ge>q. x < f \<longrightarrow> bytes h' x = bytes h x)"
    using assms(1) assms(2) [OF q] unfolding live_kept_def by blast
qed

lemma str_kept_at:
  assumes "kept_at A h h'" "(p, e) \<in> heap_live h" "p \<in> A" "str_at (bytes h) p s" "p + length s < e"
  shows "str_at (bytes h') p s"
  by (rule str_at_cong [OF assms(4)]) (rule kept_atD(2) [OF assms(1-3)], use assms(5) in simp_all)

lemma dfs_free_block:
  assumes "heap_good (dev_heap k)" "(p, e) \<in> heap_live (dev_heap k)"
  shows "\<exists>h. dfs_free (Some p) k = Some (with_heap k h) \<and> heap_good h \<and> heap_live h = heap_live (dev_heap k) - {(p, e)} \<and> live_kept (dev_heap k) h"
proof -
  let ?h = "dev_heap k"
  have ok: "heap_ok ?h" "0 < heap_sem ?h" using assms(1) by (simp_all add: heap_good_def)
  obtain b b' where b: "(b, b') \<in> used_blocks ?h" "p = heap_ptr ?h + b + 12" "e = heap_ptr ?h + b'" using assms(2) by (auto simp: heap_live_iff)
  obtain h where h: "rt_free (Some p) ?h = Some h" "heap_ok h" "used_blocks h = used_blocks ?h - {(b, b')}" "heap_ptr h = heap_ptr ?h"
      "heap_sem h = heap_sem ?h" "bytes h = bytes ?h" using rt_free_live [OF ok b(1)] b(2) by blast
  have "inj (\<lambda>(b, e). (heap_ptr ?h + b + 12, heap_ptr ?h + e))" by (auto simp: inj_def)
  then have "heap_live h = heap_live ?h - {(p, e)}" using h(3,4) b(2,3) by (simp add: heap_live_def image_set_diff)
  then show ?thesis using h ok by (auto simp: dfs_free_def heap_good_def live_kept_def)
qed

lemma dfs_free_None [simp]: "dfs_free None k = Some k"
  by (simp add: dfs_free_def rt_free_def)

lemma strdup_block:
  assumes h: "heap_good h" and s: "0 \<notin> set s" "length s < 2 ^ 32 - 6"
  shows "\<exists>r h'. rt_strdup s h = Some (r, h') \<and> (case r of None \<Rightarrow> h' = h \<and> rt_malloc (word_of_nat (length s + 1)) h = Some (None, h)
    | Some p \<Rightarrow> \<exists>e. heap_good h' \<and> (p, e) \<notin> heap_live h \<and> heap_live h' = insert (p, e) (heap_live h) \<and> str_at (bytes h') p s
        \<and> p + length s < e \<and> live_kept h h')"
proof -
  have l: "rt_strlen s + 1 = length s + 1" using s(1) by (simp add: rt_strlen_length)
  have ok: "heap_ok h" "0 < heap_sem h" using h by (simp_all add: heap_good_def)
  obtain r h' where m: "rt_malloc (word_of_nat (length s + 1)) h = Some (r, h')" and
    c: "case r of None \<Rightarrow> h' = h | Some p \<Rightarrow> \<exists>b e. heap_ok h' \<and> 0 < heap_sem h' \<and> bytes h' = bytes h \<and> heap_ptr h' = heap_ptr h \<and> (b, e) \<notin> used_blocks h
      \<and> used_blocks h' = insert (b, e) (used_blocks h) \<and> p = heap_ptr h + b + 12 \<and> p + (length s + 1) \<le> heap_ptr h + e \<and> p + (length s + 1) < 2 ^ 32"
    using fresh_block [OF ok, of "length s + 1"] s(2) by auto
  show ?thesis
  proof (cases r)
    case None
    then show ?thesis using m c unfolding rt_strdup_def Let_def l by simp
  next
    case (Some p)
    then obtain b e where b: "heap_ok h'" "0 < heap_sem h'" "bytes h' = bytes h" "heap_ptr h' = heap_ptr h" "(b, e) \<notin> used_blocks h"
      "used_blocks h' = insert (b, e) (used_blocks h)" "p = heap_ptr h + b + 12" "p + (length s + 1) \<le> heap_ptr h + e" using c by auto
    define h1 where "h1 = h'\<lparr>bytes := (\<lambda>a. if p \<le> a \<and> a < p + (length s + 1) then chr_at (drop (a - p) s) else bytes h' a)\<rparr>"
    have r: "rt_strdup s h = Some (Some p, h1)" using m Some unfolding rt_strdup_def Let_def l h1_def by simp
    have live: "(p, heap_ptr h + e) \<notin> heap_live h" "heap_live h1 = insert (p, heap_ptr h + e) (heap_live h)"
      using b(4-7) by (auto simp: heap_live_def h1_def)
    have st: "str_at (bytes h1) p s" using s(1) by (auto simp: str_at_def h1_def chr_at_def Cons_nth_drop_Suc [symmetric])
    have ok1: "heap_ok h1" using b(1) by (simp add: h1_def)
    have "bytes h1 x = bytes h x" if q: "(q, f) \<in> heap_live h" "q \<le> x" "x < f" for q f x
    proof -
      have "f + 12 \<le> p \<or> heap_ptr h + e + 12 \<le> q" using live_gap [OF ok1, of q f p "heap_ptr h + e"] q(1) live by auto
      then show ?thesis using q(2,3) b(3,8) by (auto simp: h1_def)
    qed
    then have "live_kept h h1" unfolding live_kept_def by blast
    then show ?thesis using r live st ok1 b(2,8) by (intro exI [of _ "Some p"] exI [of _ h1]) (auto simp: heap_good_def h1_def)
  qed
qed

text \<open>The strings that the table points to stand in blocks in use.\<close>

definition mounts_live :: "'a dfs_scheme \<Rightarrow> bool" where
  "mounts_live k \<longleftrightarrow> heap_good (dev_heap k) \<and> mounts_ok k
     \<and> (\<forall>f \<in> set (filesystem_table k). \<forall>st p. mounted_on (bytes (dev_heap k)) f st \<longrightarrow> path f = Some p
         \<longrightarrow> (\<exists>e. (p, e) \<in> heap_live (dev_heap k) \<and> p + length (text_of st) < e))"

definition mount_paths :: "'a dfs_scheme \<Rightarrow> addr set" where
  "mount_paths k = {p. \<exists>f \<in> set (filesystem_table k). path f = Some p}"

lemma mounted_on_blocks:
  assumes k: "mounts_live k" and h: "kept_at (mount_paths k) (dev_heap k) h" and f: "f \<in> set (filesystem_table k)"
  shows "mounted_on (bytes h) f st \<longleftrightarrow> mounted_on (bytes (dev_heap k)) f st"
proof -
  have *: "mounted_on (bytes h) f st" if mt: "mounted_on (bytes (dev_heap k)) f st" for st
  proof -
    obtain p where p: "path f = Some p" "str_at (bytes (dev_heap k)) p (text_of st)" using mt by (auto simp: mounted_on_def)
    obtain e where e: "(p, e) \<in> heap_live (dev_heap k)" "p + length (text_of st) < e" using k f p(1) mt unfolding mounts_live_def by blast
    have "p \<in> mount_paths k" using f p(1) by (auto simp: mount_paths_def)
    then have "str_at (bytes h) p (text_of st)" by (rule str_kept_at [OF h e(1) _ p(2) e(2)])
    then show ?thesis using mt p(1) by (auto simp: mounted_on_def)
  qed
  have "entry_ok (bytes (dev_heap k)) f" using k f by (simp add: mounts_live_def mounts_ok_def)
  then consider "ops f = None" | st' where "mounted_on (bytes (dev_heap k)) f st'" by (auto simp: entry_ok_def)
  then show ?thesis
  proof cases
    case 1
    then show ?thesis by (simp add: mounted_on_def)
  next
    case 2
    then show ?thesis using * mounted_on_unique [of "bytes h" f st] by metis
  qed
qed

lemma mounted_on_kept:
  assumes "mounts_live k" "heap_live (dev_heap k) \<subseteq> heap_live h" "live_kept (dev_heap k) h" "f \<in> set (filesystem_table k)"
  shows "mounted_on (bytes h) f st \<longleftrightarrow> mounted_on (bytes (dev_heap k)) f st"
  by (rule mounted_on_blocks [OF assms(1) kept_at_live [OF assms(3)] assms(4)]) (use assms(2) in blast)

lemma mounts_live_blocks:
  assumes k: "mounts_live k" and k': "filesystem_table k' = filesystem_table k" "heap_good (dev_heap k')"
    "kept_at (mount_paths k) (dev_heap k) (dev_heap k')"
  shows "mounts_live k'" "mounted k' = mounted k"
proof -
  have m: "mounted_on (bytes (dev_heap k')) f st \<longleftrightarrow> mounted_on (bytes (dev_heap k)) f st" if "f \<in> set (filesystem_table k)" for f st
    by (rule mounted_on_blocks [OF k k'(3) that])
  show "mounted k' = mounted k" using m by (auto simp: fun_eq_iff mounted_def k'(1))
  have "mounts_ok k'" using k m unfolding mounts_live_def mounts_ok_def entry_ok_def k'(1) by blast
  moreover have "\<exists>e. (p, e) \<in> heap_live (dev_heap k') \<and> p + length (text_of st) < e"
    if f: "f \<in> set (filesystem_table k)" "mounted_on (bytes (dev_heap k')) f st" "path f = Some p" for f st p
  proof -
    obtain e where e: "(p, e) \<in> heap_live (dev_heap k)" "p + length (text_of st) < e" using k f m [OF f(1)] unfolding mounts_live_def by blast
    moreover have "p \<in> mount_paths k" using f(1,3) by (auto simp: mount_paths_def)
    ultimately show ?thesis using kept_atD(1) [OF k'(3)] by blast
  qed
  ultimately show "mounts_live k'" using k'(2) unfolding mounts_live_def k'(1) by blast
qed

lemma mounts_live_kept:
  assumes "mounts_live k" "filesystem_table k' = filesystem_table k" "heap_good (dev_heap k')"
    "heap_live (dev_heap k) \<subseteq> heap_live (dev_heap k')" "live_kept (dev_heap k) (dev_heap k')"
  shows "mounts_live k'" "mounted k' = mounted k"
  by (rule mounts_live_blocks [OF assms(1-3) kept_at_live [OF assms(5)]]; use assms(4) in blast)+

text \<open>One place of the table is set.\<close>

lemma mounts_live_place:
  assumes k: "mounts_live k" and i: "i < length (filesystem_table k)"
    and k': "filesystem_table k' = (filesystem_table k)[i := g]" "heap_good (dev_heap k')" "kept_at (mount_paths k) (dev_heap k) (dev_heap k')"
    and g: "entry_ok (bytes (dev_heap k')) g" "\<And>st p. mounted_on (bytes (dev_heap k')) g st \<Longrightarrow> path g = Some p \<Longrightarrow> \<exists>e. (p, e) \<in> heap_live (dev_heap k') \<and> p + length (text_of st) < e"
  shows "mounts_live k'" "mounted k' j st \<longleftrightarrow> (if j = i then mounted_on (bytes (dev_heap k')) g st else mounted k j st)"
proof -
  define k0 where "k0 = k\<lparr>dev_heap := dev_heap k'\<rparr>"
  have k0: "filesystem_table k0 = filesystem_table k" "dev_heap k0 = dev_heap k'" by (simp_all add: k0_def)
  have l0: "mounts_live k0" "mounted k0 = mounted k" by (rule mounts_live_blocks [OF k k0(1)]; use k' in \<open>simp add: k0(2)\<close>)+
  have m: "mounted_on (bytes (dev_heap k')) f st \<longleftrightarrow> mounted_on (bytes (dev_heap k)) f st" if "f \<in> set (filesystem_table k)" for f st
    by (rule mounted_on_blocks [OF k k'(3) that])
  show "mounted k' j st \<longleftrightarrow> (if j = i then mounted_on (bytes (dev_heap k')) g st else mounted k j st)"
    using m i by (auto simp: mounted_def k'(1))
  have s: "f = g \<or> f \<in> set (filesystem_table k)" if "f \<in> set (filesystem_table k')" for f
    using that set_update_subset_insert [of "filesystem_table k" i g] by (auto simp: k'(1))
  have "mounts_ok k'" using l0(1) s g(1) unfolding mounts_live_def mounts_ok_def k0 by metis
  moreover have "\<exists>e. (p, e) \<in> heap_live (dev_heap k') \<and> p + length (text_of st) < e"
    if f: "f \<in> set (filesystem_table k')" "mounted_on (bytes (dev_heap k')) f st" "path f = Some p" for f st p
    using s [OF f(1)] g(2) f(2,3) l0(1) unfolding mounts_live_def k0 by metis
  ultimately show "mounts_live k'" using k'(2) unfolding mounts_live_def by blast
qed

section \<open>Opening\<close>

text \<open>The longest mount point above names, and the name below it.\<close>

definition longest_mount :: "'a dfs_scheme \<Rightarrow> u8 list list \<Rightarrow> nat \<Rightarrow> u8 list list \<Rightarrow> bool" where
  "longest_mount k ns i st \<longleftrightarrow> mounted k i st \<and> prefix st ns \<and> (\<forall>j st'. mounted k j st' \<longrightarrow> prefix st' ns \<longrightarrow> length st' \<le> length st)"

lemma below_names:
  assumes "list_all plain_name ns" "prefix st ns"
  shows "below (text_of st) (text_of ns) = text_of (drop (length st) ns)"
proof -
  obtain zs where zs: "ns = st @ zs" using assms(2) by (elim prefixE)
  have st: "list_all plain_name st" and z: "list_all plain_name zs" using assms(1) zs by simp_all
  have l: "rt_strlen (text_of st) = length (text_of st)" "rt_strlen (text_of ns) = length (text_of ns)"
    using render_text(2) st assms(1) by (simp_all add: rt_strlen_length)
  show ?thesis
  proof (cases zs)
    case Nil
    then show ?thesis using zs by (simp add: below_def dfs_subdir_def text_of_slashed)
  next
    case (Cons c zs')
    then have c: "c \<noteq> []" "hd c \<noteq> slash" using z by (cases c; auto simp: plain_name_def)+
    have ne: "length (text_of st) \<noteq> length (text_of ns)" using text_longer [OF assms(1), of st ns] assms(2) zs Cons by auto
    show ?thesis
    proof (cases "st = []")
      case True
      then have "dfs_subdir (text_of st) (text_of ns) = Some 0" using ne l c Cons zs
        by (cases c) (auto simp: dfs_subdir_def text_of_slashed chr_at_def Let_def)
      then show ?thesis using True by (simp add: below_def)
    next
      case False
      then have "text_of ns = text_of st @ slashed zs" "slashed zs = slash # c @ slashed zs'" using zs Cons by (simp_all add: text_of_slashed)
      then have "dfs_subdir (text_of st) (text_of ns) = Some (length (text_of st))" using ne l by (simp add: dfs_subdir_def chr_at_def Let_def)
      then show ?thesis using \<open>text_of ns = text_of st @ slashed zs\<close> zs Cons by (simp add: below_def) (simp add: text_of_slashed)
    qed
  qed
qed

lemma upd_fd_sel [simp]: "filesystem_table (upd_fd d f k) = filesystem_table k" "dev_heap (upd_fd d f k) = dev_heap k"
    "fd_at (upd_fd d f k) d = f (fd_at k d)" "upd_fd d f (with_heap k h) = with_heap (upd_fd d f k) h"
  by (simp_all add: upd_fd_def)

lemma upd_fd_comp: "upd_fd d f (upd_fd d g k) = upd_fd d (f \<circ> g) k"
  by (simp add: upd_fd_def)

lemma dfs_full_path_result:
  assumes k: "mounts_live k" and s: "s = full_name (working_directory k) None name" "0 \<notin> set s" "length s < 2 ^ 32 - 6"
  obtains h r where "dfs_full_path name k = Some (r, with_heap k h)" "heap_good h" "live_kept (dev_heap k) h"
    "r = None \<Longrightarrow> heap_live h = heap_live (dev_heap k)" "r = None \<Longrightarrow> h = dev_heap k \<or> path_names s = None"
    "\<And>p. r = Some p \<Longrightarrow> \<exists>rooted st e. path_names s = Some (rooted, st) \<and> (p, e) \<notin> heap_live (dev_heap k)
       \<and> heap_live h = insert (p, e) (heap_live (dev_heap k)) \<and> str_at (bytes h) p (render (rooted, st)) \<and> p + length (render (rooted, st)) < e \<and> normal st"
proof -
  have g: "heap_ok (dev_heap k)" "0 < heap_sem (dev_heap k)" using k by (simp_all add: mounts_live_def heap_good_def)
  obtain r h where r: "dfs_normalize_path (working_directory k) None name (dev_heap k) = Some (r, h)" "heap_ok h" "0 < heap_sem h" "live_kept (dev_heap k) h" and
    c: "case r of None \<Rightarrow> heap_live h = heap_live (dev_heap k) \<and> (h = dev_heap k \<or> path_names s = None)
       | Some p \<Rightarrow> \<exists>rooted st e. path_names s = Some (rooted, st) \<and> (p, e) \<notin> heap_live (dev_heap k) \<and> heap_live h = insert (p, e) (heap_live (dev_heap k))
           \<and> str_at (bytes h) p (render (rooted, st)) \<and> p + length (render (rooted, st)) < e
           \<and> list_all plain_name st \<and> [dot] \<notin> set st \<and> [dot, dot] \<notin> set st
           \<and> (\<forall>x. x < p \<and> (x + 1 = p \<longrightarrow> bytes (dev_heap k) x \<noteq> slash) \<or> e \<le> x \<longrightarrow> bytes h x = bytes (dev_heap k) x)"
    using path_block [OF g s] by blast
  show thesis
  proof (rule that [of r h])
    show "dfs_full_path name k = Some (r, with_heap k h)" using r(1) by (simp add: dfs_full_path_def)
    show "heap_good h" using r by (simp add: heap_good_def)
    show "live_kept (dev_heap k) h" by (rule r(4))
    show "r = None \<Longrightarrow> heap_live h = heap_live (dev_heap k)" "r = None \<Longrightarrow> h = dev_heap k \<or> path_names s = None" using c by simp_all
    show "\<exists>rooted st e. path_names s = Some (rooted, st) \<and> (p, e) \<notin> heap_live (dev_heap k)
       \<and> heap_live h = insert (p, e) (heap_live (dev_heap k)) \<and> str_at (bytes h) p (render (rooted, st)) \<and> p + length (render (rooted, st)) < e \<and> normal st"
      if "r = Some p" for p using c that unfolding normal_def by auto
  qed
qed

text \<open>No room for the text \<open>s\<close> in the heap, with one more block in it.\<close>

definition no_room :: "small_heap \<Rightarrow> cstring \<Rightarrow> bool" where
  "no_room h0 s \<longleftrightarrow> (\<exists>h q f. heap_good h \<and> (q, f) \<notin> heap_live h0 \<and> heap_live h = insert (q, f) (heap_live h0)
     \<and> rt_malloc (word_of_nat (length s + 1)) h = Some (None, h))"

text \<open>A file that is about to be opened in the file system \<open>i\<close> with the names \<open>ns\<close>: its fields are set, and its path is a new
  block with the names. The path is null only when the heap had no room for it beside the full path, which was still in use then.\<close>

definition file_ready :: "'a dfs_scheme dfs_code \<Rightarrow> addr \<Rightarrow> nat \<Rightarrow> u8 list list \<Rightarrow> u32 \<Rightarrow> 'a dfs_scheme \<Rightarrow> 'a dfs_scheme \<Rightarrow> bool" where
  "file_ready code d i ns flags k k1 \<longleftrightarrow> (\<exists>g. k1 = (upd_fd d g k)\<lparr>dev_heap := dev_heap k1\<rparr>) \<and> heap_good (dev_heap k1) \<and> live_kept (dev_heap k) (dev_heap k1)
     \<and> fd_fs (fd_at k1 d) = Some i \<and> fd_fops (fd_at k1 d) = map_option (\<lambda>t. ops_fops (fs_code code t)) (ops (filesystem_table k ! i))
     \<and> fd_ref_count (fd_at k1 d) = fd_ref_count (fd_at k d) \<and> fd_magic (fd_at k1 d) = fd_magic (fd_at k d)
     \<and> fd_type (fd_at k1 d) = FT_REGULAR \<and> fd_flags (fd_at k1 d) = flags \<and> fd_size (fd_at k1 d) = 0 \<and> fd_pos (fd_at k1 d) = 0
     \<and> (case fd_path (fd_at k1 d) of
          None \<Rightarrow> heap_live (dev_heap k1) = heap_live (dev_heap k) \<and> no_room (dev_heap k) (text_of ns)
        | Some p \<Rightarrow> \<exists>e. (p, e) \<notin> heap_live (dev_heap k) \<and> heap_live (dev_heap k1) = insert (p, e) (heap_live (dev_heap k))
            \<and> str_at (bytes (dev_heap k1)) p (text_of ns) \<and> p + length (text_of ns) < e)"

definition below_mount :: "'a dfs_scheme dfs_code \<Rightarrow> 'a dfs_scheme \<Rightarrow> nat \<Rightarrow> u8 list list \<Rightarrow> u8 list list \<Rightarrow> u8 list list" where
  "below_mount code k i st ns =
     (case ops (filesystem_table k ! i) of None \<Rightarrow> ns
      | Some t \<Rightarrow> if ops_flags (fs_code code t) AND DFS_FS_FLAG_FULLPATH = 0 then drop (length st) ns else ns)"

lemma open_prepare_ready:
  assumes k: "mounts_live k" and h: "heap_good h" "live_kept (dev_heap k) h" "heap_live h = insert (p, e) (heap_live (dev_heap k))" "(p, e) \<notin> heap_live (dev_heap k)"
    and s: "str_at (bytes h) p (text_of ns)" "p + length (text_of ns) < e" "normal ns" "length (text_of ns) < 2 ^ 32 - 6"
    and m: "mounted k i st" "prefix st ns"
  shows "\<exists>k1. open_prepare code d i p (text_of ns) flags (with_heap k h) = Some k1 \<and> file_ready code d i (below_mount code k i st ns) flags k k1"
proof -
  let ?f = "filesystem_table k ! i"
  have f: "?f \<in> set (filesystem_table k)" "mounted_on (bytes (dev_heap k)) ?f st" using m(1) by (simp_all add: mounted_def)
  have ns: "list_all plain_name ns" using s(3) by (simp add: normal_def)
  have "mounted_on (bytes h) ?f st" using mounted_on_kept [OF k _ h(2) f(1)] h(3) f(2) by blast
  from mounted_onD(1) [OF this] obtain q t where q: "path ?f = Some q" "ops ?f = Some t" "cstring_at (bytes h) q = Some (text_of st)" by blast
  define k0 where "k0 = upd_fd d (\<lambda>f. f\<lparr>fd_fs := Some i, fd_fops := Some (ops_fops (fs_code code t)), fd_type := FT_REGULAR, fd_flags := flags,
                  fd_size := 0, fd_pos := 0, fd_data := Some i\<rparr>) k"
  have k0: "fd_fs (fd_at k0 d) = Some i" "fd_fops (fd_at k0 d) = Some (ops_fops (fs_code code t))" "fd_type (fd_at k0 d) = FT_REGULAR"
      "fd_flags (fd_at k0 d) = flags" "fd_size (fd_at k0 d) = 0" "fd_pos (fd_at k0 d) = 0" "filesystem_table k0 = filesystem_table k"
      "fd_ref_count (fd_at k0 d) = fd_ref_count (fd_at k d)" "fd_magic (fd_at k0 d) = fd_magic (fd_at k d)"
    by (simp_all add: k0_def)
  have fr: "\<exists>g. (upd_fd d f k0)\<lparr>dev_heap := h\<rparr> = (upd_fd d g k)\<lparr>dev_heap := dev_heap ((upd_fd d f k0)\<lparr>dev_heap := h\<rparr>)\<rparr>" for f h
    unfolding k0_def upd_fd_comp by auto
  show ?thesis
  proof (cases "ops_flags (fs_code code t) AND DFS_FS_FLAG_FULLPATH = 0")
    case False
    have "open_prepare code d i p (text_of ns) flags (with_heap k h) = Some (upd_fd d (\<lambda>f. f\<lparr>fd_path := Some p\<rparr>) (with_heap k0 h))"
      using q False by (simp add: open_prepare_def k0_def Let_def)
    moreover have "file_ready code d i (below_mount code k i st ns) flags k (upd_fd d (\<lambda>f. f\<lparr>fd_path := Some p\<rparr>) (with_heap k0 h))"
      using q(2) False k0 h s(1,2) fr [where f = "\<lambda>f. f\<lparr>fd_path := Some p\<rparr>" and h = h] unfolding file_ready_def below_mount_def by auto
    ultimately show ?thesis by blast
  next
    case True
    have b: "below (text_of st) (text_of ns) = text_of (drop (length st) ns)" by (rule below_names [OF ns m(2)])
    have d: "list_all plain_name (drop (length st) ns)" using ns by (auto simp: list_all_iff dest: in_set_dropD)
    have z: "0 \<notin> set (text_of (drop (length st) ns))" by (rule render_text(2) [OF d])
    have le: "length (text_of (drop (length st) ns)) < 2 ^ 32 - 6"
    proof -
      obtain zs where zs: "ns = st @ zs" using m(2) by (elim prefixE)
      then show ?thesis using s(4) by (cases "zs = []") (auto simp: text_of_slashed split: if_splits)
    qed
    obtain r h1 where r: "rt_strdup (text_of (drop (length st) ns)) h = Some (r, h1)" and c: "case r of None \<Rightarrow> h1 = h \<and> rt_malloc (word_of_nat (length (text_of (drop (length st) ns)) + 1)) h = Some (None, h)
      | Some q \<Rightarrow> \<exists>e2. heap_good h1 \<and> (q, e2) \<notin> heap_live h \<and> heap_live h1 = insert (q, e2) (heap_live h) \<and> str_at (bytes h1) q (text_of (drop (length st) ns))
          \<and> q + length (text_of (drop (length st) ns)) < e2 \<and> live_kept h h1" using strdup_block [OF h(1) z le] by blast
    define k2 where "k2 = upd_fd d (\<lambda>f. f\<lparr>fd_path := r\<rparr>) (with_heap k0 h1)"
    have g1: "heap_good h1" "live_kept h h1" "(p, e) \<in> heap_live h1" using c h(1,3) by (cases r; auto)+
    obtain h2 where h2: "dfs_free (Some p) k2 = Some (with_heap k2 h2)" "heap_good h2" "heap_live h2 = heap_live h1 - {(p, e)}" "live_kept h1 h2"
      using dfs_free_block [of k2 p e] g1 by (auto simp: k2_def)
    have e: "open_prepare code d i p (text_of ns) flags (with_heap k h) = Some (with_heap k2 h2)"
      using q True r h2(1) b by (simp add: open_prepare_def k0_def k2_def Let_def)
    have l: "case r of None \<Rightarrow> heap_live h2 = heap_live (dev_heap k) \<and> no_room (dev_heap k) (text_of (drop (length st) ns)) | Some q \<Rightarrow> \<exists>e2. (q, e2) \<notin> heap_live (dev_heap k) \<and> heap_live h2 = insert (q, e2) (heap_live (dev_heap k))
        \<and> str_at (bytes h2) q (text_of (drop (length st) ns)) \<and> q + length (text_of (drop (length st) ns)) < e2"
    proof (cases r)
      case None
      then have "no_room (dev_heap k) (text_of (drop (length st) ns))" using c h(1,3,4) unfolding no_room_def by auto
      then show ?thesis using None c h2(3) h(3,4) by simp
    next
      case (Some q)
      then obtain e2 where e2: "(q, e2) \<notin> heap_live h" "heap_live h1 = insert (q, e2) (heap_live h)" "str_at (bytes h1) q (text_of (drop (length st) ns))"
        "q + length (text_of (drop (length st) ns)) < e2" using c by auto
      have l2: "heap_live h2 = insert (q, e2) (heap_live (dev_heap k))" using h2(3) e2(1,2) h(3,4) by auto
      have "str_at (bytes h2) q (text_of (drop (length st) ns))" by (rule str_kept [OF h2(4) _ _ e2(3,4)]) (simp_all add: e2(2) l2)
      then show ?thesis using Some e2 l2 h(3) by auto
    qed
    have "live_kept (dev_heap k) h1" by (rule live_kept_trans [OF h(2) g1(2)]) (use h(3) in auto)
    then have "live_kept (dev_heap k) h2" by (rule live_kept_trans [OF _ h2(4)]) (use h2(3) in auto)
    then have "file_ready code d i (below_mount code k i st ns) flags k (with_heap k2 h2)"
      using q(2) True k0 h2(2) l fr [where f = "\<lambda>f. f\<lparr>fd_path := r\<rparr>" and h = h2] unfolding file_ready_def below_mount_def k2_def by (cases r) auto
    then show ?thesis using e by blast
  qed
qed

lemma text_of_short: "path_names s = Some (True, ns) \<Longrightarrow> walked (path_names s) (norm_list [] s) \<Longrightarrow> length (text_of ns) \<le> max 1 (length (the (norm_list [] s)))"
proof -
  assume "path_names s = Some (True, ns)" "walked (path_names s) (norm_list [] s)"
  then obtain t where t: "norm_list [] s = Some t" "t = dirs True ns \<or> ns \<noteq> [] \<and> t @ [slash] = dirs True ns" by (auto simp: walked_def)
  have "length (dirs True ns) \<le> length t + 1" using t(2) by (metis le_add1 length_append_singleton order_refl Suc_eq_plus1)
  then show ?thesis using t(1) by (auto simp: render_def max_def)
qed

lemma open_file_cases:
  assumes k: "mounts_live k" and s: "s = full_name (working_directory k) None name" "0 \<notin> set s" "length s < 2 ^ 32 - 6" "path_names s = Some (True, ns)"
  obtains (nomem) "dfs_file_open code (Some d) name flags k = Some (- ENOMEM, k)"
  | (nofs) h where "\<nexists>i st. longest_mount k ns i st" "dfs_file_open code (Some d) name flags k = Some (- ENOENT, with_heap k h)" "heap_good h"
      "heap_live h = heap_live (dev_heap k)" "live_kept (dev_heap k) h"
  | (ready) i st k1 where "longest_mount k ns i st" "dfs_file_open code (Some d) name flags k = open_call code d flags k1"
      "file_ready code d i (below_mount code k i st ns) flags k k1"
proof -
  obtain h r where f: "dfs_full_path name k = Some (r, with_heap k h)" "heap_good h" "live_kept (dev_heap k) h"
    "r = None \<Longrightarrow> heap_live h = heap_live (dev_heap k)" "r = None \<Longrightarrow> h = dev_heap k \<or> path_names s = None"
    "\<And>p. r = Some p \<Longrightarrow> \<exists>rooted st e. path_names s = Some (rooted, st) \<and> (p, e) \<notin> heap_live (dev_heap k)
       \<and> heap_live h = insert (p, e) (heap_live (dev_heap k)) \<and> str_at (bytes h) p (render (rooted, st)) \<and> p + length (render (rooted, st)) < e \<and> normal st"
    by (rule dfs_full_path_result [OF k s(1-3)]) (rule that)
  show thesis
  proof (cases r)
    case None
    then have "with_heap k h = k" using f(5) s(4) by simp
    then show thesis using nomem f(1) None by (simp add: dfs_file_open_def)
  next
    case (Some p)
    then obtain e where p: "(p, e) \<notin> heap_live (dev_heap k)" "heap_live h = insert (p, e) (heap_live (dev_heap k))" "str_at (bytes h) p (text_of ns)"
        "p + length (text_of ns) < e" "normal ns" using f(6) s(4) by auto
    have kh: "mounts_live (with_heap k h)" "mounted (with_heap k h) = mounted k"
      using mounts_live_kept [OF k, of "with_heap k h"] f(2,3) p(2) by auto
    obtain r2 where r2: "dfs_filesystem_lookup (text_of ns) (with_heap k h) = Some (r2, with_heap k h)" and c: "case r2 of
        None \<Rightarrow> \<forall>i st. mounted k i st \<longrightarrow> \<not> prefix st ns
      | Some i \<Rightarrow> \<exists>st. mounted k i st \<and> prefix st ns \<and> (\<forall>j st'. mounted k j st' \<longrightarrow> prefix st' ns \<longrightarrow> length st' \<le> length st)"
      using lookup_longest [of "with_heap k h" ns, unfolded kh(2)] kh(1) p(5) unfolding mounts_live_def by blast
    have cs: "cstring_at (bytes h) p = Some (text_of ns)" by (rule cstring_at_str [OF p(3)])
    show thesis
    proof (cases r2)
      case None
      obtain h2 where "dfs_free (Some p) (with_heap k h) = Some (with_heap (with_heap k h) h2)" "heap_good h2" "heap_live h2 = heap_live h - {(p, e)}" "live_kept h h2"
        using dfs_free_block [of "with_heap k h" p e] f(2) p(2) by auto
      moreover have "live_kept (dev_heap k) h2" by (rule live_kept_trans [OF f(3)]) (use calculation p(2) in auto)
      moreover have "\<nexists>i st. longest_mount k ns i st" using c None by (simp add: longest_mount_def)
      ultimately show thesis using nofs [of h2] f(1) Some cs r2 None p(1,2) by (simp add: dfs_file_open_def)
    next
      case (Some i)
      then obtain st where st: "longest_mount k ns i st" using c by (auto simp: longest_mount_def)
      then have m: "mounted k i st" "prefix st ns" by (simp_all add: longest_mount_def)
      have len: "length (text_of ns) < 2 ^ 32 - 6"
      proof -
        have ne: "s \<noteq> []" using s(1) by (auto simp: full_name_def chr_at_def split: if_splits list.splits)
        obtain t where t: "norm_list [] s = Some t" "length (text_of ns) \<le> max 1 (length t)"
          using norm_list_names [OF ne s(2)] text_of_short [OF s(4)] s(4) by (auto simp: walked_def)
        have "length t \<le> length s"
        proof -
          define m :: memory where "m = (\<lambda>x. if x < length s then s ! x else 0)"
          have "str_at m 0 s" using s(2) by (simp add: str_at_def m_def)
          from norm_loop_list [OF this, of 0 "[]" 0] t(1) show ?thesis by (auto simp: loop_result_def text_at_def)
        qed
        then show ?thesis using t(2) s(3) by auto
      qed
      obtain k1 where "open_prepare code d i p (text_of ns) flags (with_heap k h) = Some k1" "file_ready code d i (below_mount code k i st ns) flags k k1"
        using open_prepare_ready [OF k f(2,3) p(2,1,3,4,5) len m] by blast
      then show thesis using ready [OF st, of k1] f(1) \<open>r = Some p\<close> cs r2 Some by (simp add: dfs_file_open_def)
    qed
  qed
qed

section \<open>What a mount changes\<close>

text \<open>The loop over the table: the name is taken when it is the text of a mount point, letter by letter, and the place is
  the first that is empty.\<close>

lemma takeWhile_no_zero: "0 \<notin> set s \<Longrightarrow> takeWhile (\<lambda>c. c \<noteq> 0) s = s"
  by (auto simp: takeWhile_eq_all_conv)

lemma mount_loop_result:
  assumes "\<forall>f \<in> set es. entry_ok m f" "0 \<notin> set name"
  shows "\<exists>r. mount_loop m name n fs es = Some (r, \<exists>f \<in> set es. \<exists>st. mounted_on m f st \<and> text_of st = name)
    \<and> ((\<forall>f \<in> set es. \<forall>st. mounted_on m f st \<longrightarrow> text_of st \<noteq> name) \<longrightarrow> (case fs of Some x \<Rightarrow> r = Some x
        | None \<Rightarrow> (case r of None \<Rightarrow> \<forall>f \<in> set es. ops f \<noteq> None
            | Some i \<Rightarrow> n \<le> i \<and> i < n + length es \<and> ops (es ! (i - n)) = None \<and> (\<forall>j < i - n. ops (es ! j) \<noteq> None))))"
  using assms(1)
proof (induction es arbitrary: n fs)
  case Nil
  show ?case by (simp split: option.split)
next
  case (Cons f es)
  have ok: "\<forall>g \<in> set es. entry_ok m g" and okf: "entry_ok m f" using Cons.prems by simp_all
  show ?case
  proof (cases "ops f")
    case None
    then have nm: "\<not> mounted_on m f st" for st by (simp add: mounted_on_def)
    obtain r where r: "mount_loop m name (n + 1) (if fs = None then Some n else fs) es = Some (r, \<exists>f \<in> set es. \<exists>st. mounted_on m f st \<and> text_of st = name)"
      "(\<forall>f \<in> set es. \<forall>st. mounted_on m f st \<longrightarrow> text_of st \<noteq> name) \<Longrightarrow> r = (if fs = None then Some n else fs)"
      using Cons.IH [OF ok, of "n + 1" "if fs = None then Some n else fs"] by (cases fs) auto
    then show ?thesis using None nm by (cases fs) auto
  next
    case (Some t)
    obtain st where st: "mounted_on m f st" using okf Some by (auto simp: entry_ok_def)
    obtain q where q: "path f = Some q" "cstring_at m q = Some (text_of st)" using mounted_onD(1) [OF st] by blast
    have u: "mounted_on m f st' \<longleftrightarrow> st' = st" for st' using st mounted_on_unique by blast
    have z: "0 \<notin> set (text_of st)" using render_text(2) mounted_onD(2) [OF st] by simp
    have eq: "rt_strcmp (text_of st) name = 0 \<longleftrightarrow> text_of st = name" using z assms(2) by (simp add: rt_strcmp_zero_iff takeWhile_no_zero)
    show ?thesis
    proof (cases "text_of st = name")
      case True
      then have "mount_loop m name n fs (f # es) = Some (fs, True)" using Some q eq by simp
      then show ?thesis using True u by auto
    next
      case False
      obtain r where r: "mount_loop m name (n + 1) fs es = Some (r, \<exists>f \<in> set es. \<exists>st. mounted_on m f st \<and> text_of st = name)"
        and c: "(\<forall>f \<in> set es. \<forall>st. mounted_on m f st \<longrightarrow> text_of st \<noteq> name) \<longrightarrow> (case fs of Some x \<Rightarrow> r = Some x
          | None \<Rightarrow> (case r of None \<Rightarrow> \<forall>f \<in> set es. ops f \<noteq> None
            | Some i \<Rightarrow> n + 1 \<le> i \<and> i < n + 1 + length es \<and> ops (es ! (i - (n + 1))) = None \<and> (\<forall>j < i - (n + 1). ops (es ! j) \<noteq> None)))"
        using Cons.IH [OF ok, of "n + 1" fs] by blast
      have l: "mount_loop m name n fs (f # es) = mount_loop m name (n + 1) fs es" using Some q eq False by simp
      have s: "ops ((f # es) ! (i - n)) = ops (es ! (i - (n + 1)))" if "n + 1 \<le> i" for i using that by (simp add: nth_Cons')
      have "(\<forall>j < i - n. ops ((f # es) ! j) \<noteq> None) \<longleftrightarrow> (\<forall>j < i - (n + 1). ops (es ! j) \<noteq> None)" if "n + 1 \<le> i" for i
      proof -
        have "i - n = Suc (i - (n + 1))" using that by simp
        then show ?thesis using Some by (auto simp: less_Suc_eq_0_disj)
      qed
      then show ?thesis unfolding l using r c u False Some s by (auto split: option.splits)
    qed
  qed
qed

text \<open>What the code outside has to leave alone while a file system is mounted: the table of the mounted file systems but for the data of the
  new one, and the blocks with their paths. It may allocate, free and write any other block.\<close>

definition mount_quiet :: "'a dfs_scheme \<Rightarrow> 'a dfs_scheme \<Rightarrow> bool" where
  "mount_quiet k k' \<longleftrightarrow> filesystem_table k' = filesystem_table k \<and> heap_good (dev_heap k') \<and> kept_at (mount_paths k) (dev_heap k) (dev_heap k')"

text \<open>The calls of \<open>dfs_mount\<close> to the device and to the file system, once the place \<open>i\<close> is filled in, and their answers.\<close>

definition entered :: "nat \<Rightarrow> addr \<Rightarrow> nat \<Rightarrow> addr option \<Rightarrow> 'a dfs_scheme \<Rightarrow> 'a dfs_scheme" where
  "entered i p t dev k = upd_fs i (\<lambda>f. f\<lparr>path := Some p, ops := Some t, dev_id := dev\<rparr>) k"

definition device_opened :: "'a dfs_scheme dfs_code \<Rightarrow> addr option \<Rightarrow> 'a dfs_scheme \<Rightarrow> int \<times> 'a dfs_scheme" where
  "device_opened code dev k = (case dev of None \<Rightarrow> (RT_EOK, k) | Some d \<Rightarrow> rt_device_open (dev_code code) d RT_DEVICE_OFLAG_RDWR k)"

definition device_closed :: "'a dfs_scheme dfs_code \<Rightarrow> addr option \<Rightarrow> 'a dfs_scheme \<Rightarrow> 'a dfs_scheme" where
  "device_closed code dev k = (case dev of None \<Rightarrow> k | Some d \<Rightarrow> snd (rt_device_close (dev_code code) d k))"

definition first_empty :: "'a dfs_scheme \<Rightarrow> nat \<Rightarrow> bool" where
  "first_empty k i \<longleftrightarrow> i < length (filesystem_table k) \<and> ops (filesystem_table k ! i) = None \<and> (\<forall>j < i. ops (filesystem_table k ! j) \<noteq> None)"

lemma first_empty_unique: "first_empty k i \<Longrightarrow> first_empty k j \<Longrightarrow> i = j"
  unfolding first_empty_def by (metis linorder_neqE_nat)

definition mount_calls_quiet :: "'a dfs_scheme dfs_code \<Rightarrow> nat \<Rightarrow> addr option \<Rightarrow> addr \<Rightarrow> u32 \<Rightarrow> nat \<Rightarrow> 'a dfs_scheme \<Rightarrow> bool" where
  "mount_calls_quiet code t dev p rwflag data k \<longleftrightarrow> (\<forall>i f r3 k3 r4 k4. first_empty k i \<longrightarrow> op_mount (fs_code code t) = Some f
     \<longrightarrow> device_opened code dev (entered i p t dev k) = (r3, k3) \<longrightarrow> f i rwflag data k3 = (r4, k4) \<longrightarrow>
       mount_quiet (entered i p t dev k) k3
       \<and> (r3 = RT_EOK \<longrightarrow> (\<exists>x. mount_quiet (upd_fs i (\<lambda>s. s\<lparr>fs_data := x\<rparr>) k3) k4) \<and> (r4 < 0 \<longrightarrow> mount_quiet k4 (device_closed code dev k4))))"

text \<open>A mount that is taken back: the state is the one that the calls left, but for the place \<open>i\<close>, which is cleared, and the path,
  which is freed.\<close>

definition mount_undone :: "nat \<Rightarrow> addr \<Rightarrow> nat \<Rightarrow> 'a dfs_scheme \<Rightarrow> 'a dfs_scheme \<Rightarrow> bool" where
  "mount_undone i p e k k' \<longleftrightarrow> (\<exists>h. k' = with_heap (upd_fs i (\<lambda>_. zero_filesystem) k) h
     \<and> heap_live h = heap_live (dev_heap k) - {(p, e)} \<and> live_kept (dev_heap k) h)"

lemma mount_quiet_refl: "heap_good (dev_heap k) \<Longrightarrow> mount_quiet k k"
  by (simp add: mount_quiet_def)

lemma mount_quiet_paths: "mount_quiet k k' \<Longrightarrow> mount_paths k' = mount_paths k"
  by (simp add: mount_quiet_def mount_paths_def)

lemma mount_quiet_trans: "mount_quiet k k1 \<Longrightarrow> mount_quiet k1 k2 \<Longrightarrow> mount_quiet k k2"
  using mount_quiet_paths [of k k1] kept_at_trans unfolding mount_quiet_def by metis

lemma dfs_errno_sel [simp]:
  "filesystem_table (rt_set_errno e k) = filesystem_table k" "dev_heap (rt_set_errno e k) = dev_heap k"
  "rt_get_errno (with_heap k h) = rt_get_errno k" "rt_get_errno (dfs_unlock k) = rt_get_errno k"
  by (simp_all add: rt_set_errno_def upd_thread_def rt_get_errno_def rt_interrupt_get_nest_def rt_thread_self_def dfs_unlock_def split: option.split)

lemma upd_fs_sel [simp]: "filesystem_table (upd_fs i f k) = (filesystem_table k)[i := f (filesystem_table k ! i)]" "dev_heap (upd_fs i f k) = dev_heap k"
  by (simp_all add: upd_fs_def)

lemma mount_paths_data [simp]: "mount_paths (upd_fs i (\<lambda>s. s\<lparr>fs_data := x\<rparr>) k) = mount_paths k"
proof (cases "i < length (filesystem_table k)")
  case True
  have im: "mount_paths k = {p. Some p \<in> path ` set (filesystem_table k)}" for k :: "'a dfs_scheme"
    by (simp only: mount_paths_def image_iff eq_commute [of "Some _"])
  have "map path (filesystem_table (upd_fs i (\<lambda>s. s\<lparr>fs_data := x\<rparr>) k)) = (map path (filesystem_table k))[i := map path (filesystem_table k) ! i]"
    using True by (simp add: map_update)
  then have "path ` set (filesystem_table (upd_fs i (\<lambda>s. s\<lparr>fs_data := x\<rparr>) k)) = path ` set (filesystem_table k)"
    by (metis list_update_id set_map)
  then show ?thesis unfolding im by simp
qed (simp add: mount_paths_def list_update_beyond)

lemma mount_err1_effect:
  assumes k: "mounts_live k" and p: "(p, e) \<in> heap_live (dev_heap k)" "p \<notin> mount_paths k"
  shows "\<exists>h. mount_err1 p k = Some (- 1, with_heap (dfs_unlock k) h) \<and> mounts_live (with_heap (dfs_unlock k) h)
    \<and> mounted (with_heap (dfs_unlock k) h) = mounted k \<and> heap_live h = heap_live (dev_heap k) - {(p, e)} \<and> live_kept (dev_heap k) h"
proof -
  have g: "heap_good (dev_heap k)" using k by (simp add: mounts_live_def)
  have u: "dev_heap (dfs_unlock k) = dev_heap k" "filesystem_table (dfs_unlock k) = filesystem_table k" by (simp_all add: dfs_unlock_def)
  obtain h where h: "dfs_free (Some p) (dfs_unlock k) = Some (with_heap (dfs_unlock k) h)" "heap_good h" "heap_live h = heap_live (dev_heap k) - {(p, e)}"
      "live_kept (dev_heap k) h" using dfs_free_block [of "dfs_unlock k" p e] g p(1) u(1) by auto
  have "kept_at (mount_paths k) (dev_heap k) h" by (rule kept_at_live [OF h(4)]) (use h(3) p(2) in auto)
  then have "mounts_live (with_heap (dfs_unlock k) h)" "mounted (with_heap (dfs_unlock k) h) = mounted k"
    using mounts_live_blocks [OF k, of "with_heap (dfs_unlock k) h"] u h by (simp_all add: dfs_unlock_def)
  then show ?thesis using h by (auto simp: mount_err1_def)
qed

text \<open>A failed mount: the place is cleared and the path is freed.\<close>

lemma mount_reset:
  assumes k: "mounts_live k" and i: "first_empty k i" and p: "(p, e) \<in> heap_live (dev_heap k1)" "p \<notin> mount_paths k"
    and k1: "filesystem_table k1 = (filesystem_table k)[i := g]" "heap_good (dev_heap k1)" "kept_at (mount_paths k) (dev_heap k) (dev_heap k1)"
  shows "\<exists>k'. mount_err1 p (upd_fs i (\<lambda>_. zero_filesystem) (dfs_lock k1)) = Some (- 1, k') \<and> mounts_live k' \<and> mounted k' = mounted k
    \<and> mount_undone i p e k1 k'"
proof -
  let ?k = "upd_fs i (\<lambda>_. zero_filesystem) (dfs_lock k1)"
  have T: "filesystem_table ?k = (filesystem_table k)[i := zero_filesystem]" "dev_heap ?k = dev_heap k1" using k1(1) by simp_all
  have z: "\<not> mounted_on m zero_filesystem st" "entry_ok m zero_filesystem" "path zero_filesystem = None" for m st
    by (simp_all add: mounted_on_def entry_ok_def zero_filesystem_def)
  have i': "i < length (filesystem_table k)" using i by (simp add: first_empty_def)
  note l = mounts_live_place [OF k i' T(1), unfolded T(2), OF k1(2,3) z(2)]
  have n: "\<not> mounted k i st" for st using i by (simp add: mounted_def mounted_on_def first_empty_def)
  have m: "mounts_live ?k" "mounted ?k = mounted k"
    using l z(1) n by (auto simp: fun_eq_iff)
  have "p \<notin> mount_paths ?k"
    using set_update_subset_insert [of "filesystem_table k" i zero_filesystem] p(2) z(3) unfolding T(1) mount_paths_def by fastforce
  moreover have "dfs_unlock ?k = upd_fs i (\<lambda>_. zero_filesystem) k1" by (simp add: dfs_unlock_def dfs_lock_def upd_fs_def)
  ultimately show ?thesis using mount_err1_effect [OF m(1), of p e] p(1) m(2) unfolding T(2) mount_undone_def by auto
qed

text \<open>What entering a file system in the empty place \<open>i\<close> comes to, by the answers of the device and of the file system.\<close>

definition mount_result :: "'a dfs_scheme dfs_code \<Rightarrow> nat \<Rightarrow> nat \<Rightarrow> addr option \<Rightarrow> addr \<Rightarrow> nat \<Rightarrow> u8 list list \<Rightarrow> u32 \<Rightarrow> nat \<Rightarrow> 'a dfs_scheme \<Rightarrow> int \<Rightarrow> 'a dfs_scheme \<Rightarrow> bool" where
  "mount_result code i t dev p e st rwflag data k r k' \<longleftrightarrow>
     (case device_opened code dev (entered i p t dev k) of (r3, k3) \<Rightarrow>
        if r3 \<noteq> RT_EOK then r = - 1 \<and> mounted k' = mounted k \<and> mount_undone i p e k3 k'
        else case the (op_mount (fs_code code t)) i rwflag data k3 of (r4, k4) \<Rightarrow>
          if r4 < 0 then r = - 1 \<and> mounted k' = mounted k \<and> mount_undone i p e (device_closed code dev k4) k'
          else r = 0 \<and> k' = k4 \<and> (\<forall>j st'. mounted k' j st' \<longleftrightarrow> (if j = i then st' = st else mounted k j st')))"

lemma mount_enter_vacant:
  assumes k: "mounts_live k" and t: "op_mount (fs_code code t) \<noteq> None" and code: "mount_calls_quiet code t dev p rwflag data k"
    and p: "(p, e) \<in> heap_live (dev_heap k)" "str_at (bytes (dev_heap k)) p (text_of st)" "p + length (text_of st) < e" "normal st" "p \<notin> mount_paths k"
    and l: "mount_loop (bytes (dev_heap k)) name 0 None (filesystem_table k) = Some (Some i, False)" and i: "first_empty k i"
  shows "\<exists>r k'. mount_enter code t dev p name rwflag data k = Some (r, k') \<and> mounts_live k' \<and> mount_result code i t dev p e st rwflag data k r k'"
proof -
  let ?T = "filesystem_table k" and ?k = "dfs_lock k"
  have g: "heap_good (dev_heap k)" and ok: "entry_ok (bytes (dev_heap k)) (?T ! i)" and i': "i < length ?T" "ops (?T ! i) = None"
    using k i by (auto simp: mounts_live_def mounts_ok_def first_empty_def)
  define k2 where "k2 = entered i p t dev k"
  have k2': "dfs_unlock (upd_fs i (\<lambda>f. f\<lparr>path := Some p, ops := Some t, dev_id := dev\<rparr>) ?k) = k2"
    by (simp add: k2_def entered_def dfs_unlock_def dfs_lock_def upd_fs_def)
  obtain r3 k3 where k3: "device_opened code dev k2 = (r3, k3)" by force
  obtain f where f: "op_mount (fs_code code t) = Some f" using t by blast
  obtain r4 k4 where k4: "f i rwflag data k3 = (r4, k4)" by force
  have q3: "mount_quiet k2 k3" and q4: "r3 = RT_EOK \<Longrightarrow> \<exists>x. mount_quiet (upd_fs i (\<lambda>s. s\<lparr>fs_data := x\<rparr>) k3) k4"
    and q5: "r3 = RT_EOK \<Longrightarrow> r4 < 0 \<Longrightarrow> mount_quiet k4 (device_closed code dev k4)"
    using code i f k3 k4 unfolding mount_calls_quiet_def k2_def by blast+
  have k2: "filesystem_table k2 = ?T[i := (?T ! i)\<lparr>path := Some p, ops := Some t, dev_id := dev\<rparr>]" "dev_heap k2 = dev_heap k"
    by (simp_all add: k2_def entered_def)
  have mp: "insert p (mount_paths k) \<subseteq> mount_paths k2"
  proof -
    have "q \<in> mount_paths k2" if q: "q \<in> mount_paths k" for q
    proof -
      obtain j where j: "j < length ?T" "path (?T ! j) = Some q" using q by (auto simp: mount_paths_def in_set_conv_nth)
      have "path (?T ! i) = None" using ok i'(2) by (auto simp: entry_ok_def mounted_on_def)
      then have "i \<noteq> j" using j(2) by auto
      then have "path (filesystem_table k2 ! j) = Some q" using j(2) by (simp add: k2(1))
      moreover have "filesystem_table k2 ! j \<in> set (filesystem_table k2)" by (rule nth_mem) (simp add: k2(1) j(1))
      ultimately show ?thesis unfolding mount_paths_def by blast
    qed
    moreover have "p \<in> mount_paths k2" unfolding mount_paths_def k2(1)
      using set_update_memI [OF i'(1), of "(?T ! i)\<lparr>path := Some p, ops := Some t, dev_id := dev\<rparr>"] by (intro CollectI bexI) auto
    ultimately show ?thesis by blast
  qed
  have h3: "filesystem_table k3 = filesystem_table k2" "heap_good (dev_heap k3)" "kept_at (mount_paths k2) (dev_heap k) (dev_heap k3)"
    using q3 by (simp_all add: mount_quiet_def k2(2))
  have live: "(p, e) \<in> heap_live (dev_heap k')" "kept_at (mount_paths k) (dev_heap k) (dev_heap k')"
    if "kept_at (mount_paths k2) (dev_heap k) (dev_heap k')" for k'
    using kept_atD(1) [OF that p(1)] kept_at_mono [OF that] mp by blast+
  have en: "mount_enter code t dev p name rwflag data k = (if r3 \<noteq> RT_EOK then mount_err1 p (upd_fs i (\<lambda>_. zero_filesystem) (dfs_lock k3))
      else if r4 < 0 then mount_err1 p (upd_fs i (\<lambda>_. zero_filesystem) (dfs_lock (if dev \<noteq> None then fs_close_device code i k4 else k4))) else Some (0, k4))"
    using k3 unfolding device_opened_def
    by (simp only: mount_enter_def Let_def dfs_lock_sel l Option.bind.simps(2) prod.case if_False option.case(2) k2' f k4)
  have res: "mount_result code i t dev p e st rwflag data k r k' \<longleftrightarrow>
      (if r3 \<noteq> RT_EOK then r = - 1 \<and> mounted k' = mounted k \<and> mount_undone i p e k3 k'
       else if r4 < 0 then r = - 1 \<and> mounted k' = mounted k \<and> mount_undone i p e (device_closed code dev k4) k'
       else r = 0 \<and> k' = k4 \<and> (\<forall>j st'. mounted k' j st' \<longleftrightarrow> (if j = i then st' = st else mounted k j st')))" for r k'
    unfolding mount_result_def k2_def [symmetric] k3 f using k4 by simp
  show ?thesis
  proof (cases "r3 = RT_EOK")
    case False
    have "\<exists>k'. mount_err1 p (upd_fs i (\<lambda>_. zero_filesystem) (dfs_lock k3)) = Some (- 1, k') \<and> mounts_live k' \<and> mounted k' = mounted k \<and> mount_undone i p e k3 k'"
      by (rule mount_reset [OF k i live(1) [OF h3(3)] p(5) h3(1) [unfolded k2(1)] h3(2) live(2) [OF h3(3)]])
    then show ?thesis using en res False by auto
  next
    case True
    obtain x where x: "mount_quiet (upd_fs i (\<lambda>s. s\<lparr>fs_data := x\<rparr>) k3) k4" using q4 [OF True] by blast
    have T4: "filesystem_table k4 = ?T[i := (?T ! i)\<lparr>path := Some p, ops := Some t, dev_id := dev, fs_data := x\<rparr>]"
      using x i'(1) by (simp add: mount_quiet_def h3(1) k2(1))
    have mp_x: "mount_paths (upd_fs i (\<lambda>s. s\<lparr>fs_data := x\<rparr>) k3) = mount_paths k2"
      using mount_quiet_paths [OF q3] by simp
    have h4: "heap_good (dev_heap k4)" "kept_at (mount_paths k2) (dev_heap k) (dev_heap k4)"
      using x mp_x kept_at_trans [OF h3(3)] by (auto simp: mount_quiet_def)
    show ?thesis
    proof (cases "r4 < 0")
      case r4: True
      let ?k5 = "device_closed code dev k4"
      have q: "mount_quiet k4 ?k5" by (rule q5 [OF True r4])
      have "mount_paths k4 = mount_paths k2" using mount_quiet_paths [OF x] mp_x by simp
      then have h5: "filesystem_table ?k5 = filesystem_table k4" "heap_good (dev_heap ?k5)" "kept_at (mount_paths k2) (dev_heap k) (dev_heap ?k5)"
        using q kept_at_trans [OF h4(2)] by (auto simp: mount_quiet_def)
      have "(if dev \<noteq> None then fs_close_device code i k4 else k4) = ?k5"
        using i'(1) by (simp add: fs_close_device_def device_closed_def T4 split: option.split)
      moreover have "\<exists>k'. mount_err1 p (upd_fs i (\<lambda>_. zero_filesystem) (dfs_lock ?k5)) = Some (- 1, k') \<and> mounts_live k' \<and> mounted k' = mounted k \<and> mount_undone i p e ?k5 k'"
        by (rule mount_reset [OF k i live(1) [OF h5(3)] p(5) h5(1) [unfolded T4] h5(2) live(2) [OF h5(3)]])
      ultimately show ?thesis using en res True r4 by auto
    next
      case good: False
      let ?g = "(?T ! i)\<lparr>path := Some p, ops := Some t, dev_id := dev, fs_data := x\<rparr>"
      note pl = live(1) [OF h4(2)]
      have "p \<in> mount_paths k2" using mp by blast
      then have "str_at (bytes (dev_heap k4)) p (text_of st)" by (rule str_kept_at [OF h4(2) p(1) _ p(2,3)])
      then have mo: "mounted_on (bytes (dev_heap k4)) ?g st" using p(4) by (simp add: mounted_on_def)
      then have mg: "mounted_on (bytes (dev_heap k4)) ?g st' \<longleftrightarrow> st' = st" for st' using mounted_on_unique by blast
      have eg: "entry_ok (bytes (dev_heap k4)) ?g" using mo by (auto simp: entry_ok_def)
      have bg: "\<exists>e. (q, e) \<in> heap_live (dev_heap k4) \<and> q + length (text_of st') < e"
        if "mounted_on (bytes (dev_heap k4)) ?g st'" "path ?g = Some q" for st' q using that mg p(3) pl by auto
      have lv: "mounts_live k4" by (rule mounts_live_place(1) [OF k i'(1) T4 h4(1) live(2) [OF h4(2)] eg]) (rule bg)
      have "mounted k4 j st' \<longleftrightarrow> (if j = i then mounted_on (bytes (dev_heap k4)) ?g st' else mounted k j st')" for j st'
        by (rule mounts_live_place(2) [OF k i'(1) T4 h4(1) live(2) [OF h4(2)] eg]) (rule bg)
      then have "\<And>j st'. mounted k4 j st' \<longleftrightarrow> (if j = i then st' = st else mounted k j st')" by (simp add: mg)
      then show ?thesis using en res True good lv by auto
    qed
  qed
qed

lemma mount_enter_effect:
  assumes k: "mounts_live k" and t: "op_mount (fs_code code t) \<noteq> None" and code: "mount_calls_quiet code t dev p rwflag data k" and name: "0 \<notin> set name"
    and p: "(p, e) \<in> heap_live (dev_heap k)" "str_at (bytes (dev_heap k)) p (text_of st)" "p + length (text_of st) < e" "normal st" "p \<notin> mount_paths k"
  shows "\<exists>r k'. mount_enter code t dev p name rwflag data k = Some (r, k') \<and> mounts_live k'
    \<and> (if \<exists>j st'. mounted k j st' \<and> text_of st' = name
       then r = - 1 \<and> rt_get_errno k' = - EINVAL \<and> mounted k' = mounted k \<and> heap_live (dev_heap k') = heap_live (dev_heap k) - {(p, e)}
       else if \<nexists>i. first_empty k i
       then r = - 1 \<and> rt_get_errno k' = - ENOSPC \<and> mounted k' = mounted k \<and> heap_live (dev_heap k') = heap_live (dev_heap k) - {(p, e)}
       else \<exists>i. first_empty k i \<and> mount_result code i t dev p e st rwflag data k r k')"
proof -
  let ?T = "filesystem_table k" and ?m = "bytes (dev_heap k)" and ?k = "dfs_lock k"
  have lk: "mounts_live ?k" "mounted ?k = mounted k" using mounts_live_kept [OF k, of ?k] k by (simp_all add: mounts_live_def)
  have ok: "\<forall>f \<in> set ?T. entry_ok ?m f" and g: "heap_good (dev_heap k)" using k by (simp_all add: mounts_live_def mounts_ok_def)
  have tk: "(\<exists>f \<in> set ?T. \<exists>st. mounted_on ?m f st \<and> text_of st = name) \<longleftrightarrow> (\<exists>j st'. mounted k j st' \<and> text_of st' = name)"
    unfolding mounted_def using in_set_conv_nth [of _ ?T] by fastforce
  obtain fs where l: "mount_loop ?m name 0 None ?T = Some (fs, \<exists>j st'. mounted k j st' \<and> text_of st' = name)"
    and c: "(\<nexists>j st'. mounted k j st' \<and> text_of st' = name) \<longrightarrow> (case fs of None \<Rightarrow> \<forall>f \<in> set ?T. ops f \<noteq> None | Some i \<Rightarrow> first_empty k i)"
    using mount_loop_result [OF ok name, of 0 None] unfolding tk [symmetric] first_empty_def by (fastforce split: option.splits)
  have err: "\<exists>k'. mount_err1 p (rt_set_errno x ?k) = Some (- 1, k') \<and> mounts_live k' \<and> mounted k' = mounted k
      \<and> heap_live (dev_heap k') = heap_live (dev_heap k) - {(p, e)} \<and> rt_get_errno k' = x" for x
  proof -
    have e: "mounts_live (rt_set_errno x ?k)" "mounted (rt_set_errno x ?k) = mounted k"
      using mounts_live_kept [OF lk(1), of "rt_set_errno x ?k"] lk g by simp_all
    have "p \<notin> mount_paths (rt_set_errno x ?k)" using p(5) by (simp add: mount_paths_def)
    from mount_err1_effect [OF e(1) _ this, of e] show ?thesis using p(1) e(2) by auto
  qed
  consider (taken) "\<exists>j st'. mounted k j st' \<and> text_of st' = name"
    | (full) "\<nexists>j st'. mounted k j st' \<and> text_of st' = name" "fs = None"
    | (vacant) i where "\<nexists>j st'. mounted k j st' \<and> text_of st' = name" "fs = Some i" by (cases fs) blast+
  then show ?thesis
  proof cases
    case taken
    have "mount_enter code t dev p name rwflag data k = mount_err1 p (rt_set_errno (- EINVAL) ?k)"
      unfolding mount_enter_def Let_def using l taken by simp
    then show ?thesis unfolding if_P [OF taken] using err [of "- EINVAL"] by auto
  next
    case full
    have all: "\<nexists>i. first_empty k i" using c full by (auto simp: first_empty_def dest: nth_mem)
    have "mount_enter code t dev p name rwflag data k = mount_err1 p (rt_set_errno (- ENOSPC) ?k)"
      unfolding mount_enter_def Let_def using l full by simp
    then show ?thesis unfolding if_not_P [OF full(1)] if_P [OF all] using err [of "- ENOSPC"] by auto
  next
    case vacant
    have i: "first_empty k i" using c vacant by auto
    then have nf: "\<not> (\<nexists>i. first_empty k i)" by blast
    show ?thesis unfolding if_not_P [OF vacant(1)] if_not_P [OF nf]
      using mount_enter_vacant [OF k t code p _ i, of name] l vacant i by auto
  qed
qed

section \<open>An example\<close>

text \<open>A heap with the paths \<^verbatim>\<open>/\<close> and \<^verbatim>\<open>/sd\<close> of two mounted file systems, the table of files, one file and its path \<^verbatim>\<open>/a\<close>. The file systems
  do nothing, but the read of a file fails.\<close>

definition example_heap :: small_heap where
  "example_heap = \<lparr>heap_ptr = 4096, heap_end = 244, lfree = 160, mem_size_aligned = 232, heap_sem = 1, used_mem = 160, max_mem = 160,
     hdr = (\<lambda>_. \<lparr>magic = HEAP_MAGIC, used = 1, nxt = 244, prv = 160\<rparr>)(0 := \<lparr>magic = HEAP_MAGIC, used = 1, nxt = 28, prv = 0\<rparr>,
       28 := \<lparr>magic = HEAP_MAGIC, used = 1, nxt = 56, prv = 0\<rparr>, 56 := \<lparr>magic = HEAP_MAGIC, used = 1, nxt = 84, prv = 28\<rparr>,
       84 := \<lparr>magic = HEAP_MAGIC, used = 1, nxt = 132, prv = 56\<rparr>, 132 := \<lparr>magic = HEAP_MAGIC, used = 1, nxt = 160, prv = 84\<rparr>,
       160 := \<lparr>magic = HEAP_MAGIC, used = 0, nxt = 244, prv = 132\<rparr>),
     bytes = (\<lambda>_. 0)(4108 := 47, 4136 := 47, 4137 := 115, 4138 := 100, 4240 := 47, 4241 := 97)\<rparr>"

lemma used_blocks_set: "used_blocks h = set (map (\<lambda>b. (b, heap_mem.nxt (hdr h b))) (filter (\<lambda>b. \<not> free_in h b) (heap_blocks h)))"
  by (auto simp: used_blocks_def)

lemma example_heap: "heap_good example_heap" "heap_live example_heap = {(4108, 4124), (4136, 4152), (4164, 4180), (4192, 4228), (4240, 4256)}"
proof -
  have i: "heap_inv [0, 28, 56, 84, 132, 160] example_heap" by (simp add: heap_inv_def example_heap_def free_in_def)
  then show "heap_good example_heap" using heap_inv_ok by (simp add: heap_good_def example_heap_def)
  show "heap_live example_heap = {(4108, 4124), (4136, 4152), (4164, 4180), (4192, 4228), (4240, 4256)}"
    unfolding heap_live_def used_blocks_set heap_inv_blocks [OF i] by (simp add: example_heap_def free_in_def)
qed

definition example_file :: dfs_fd where
  "example_file = \<lparr>fd_magic = 0xfdfd, fd_type = FT_REGULAR, fd_path = Some 4240, fd_ref_count = 1, fd_fs = Some 0, fd_fops = Some 0, fd_flags = DFS_F_OPEN,
     fd_size = 0, fd_pos = 0, fd_data = None\<rparr>"

definition example_fs :: "addr \<Rightarrow> dfs_filesystem" where
  "example_fs p = \<lparr>dev_id = None, path = Some p, ops = Some 0, fs_data = 0\<rparr>"

lemma example_fs_sel [simp]: "dev_id (example_fs p) = None" "path (example_fs p) = Some p" "ops (example_fs p) = Some 0"
  by (simp_all add: example_fs_def)

definition example_dfs :: "dfs" where
  "example_dfs = example_running (idle_ipc (waitqueues_ext (\<lambda>_. 0) (\<lambda>_. []) (\<lambda>_. \<lparr>polling_thread = 0, node_wakeup = None, node_key = 0\<rparr>)
     (devices_ext (\<lambda>_. zero_device) example_heap (dfs.fields [Some 0, None, None, None]
        [example_fs 4108, example_fs 4136, zero_filesystem, zero_filesystem]
        [slash] 0 (\<lambda>_. example_file) 4 (Some 4164) [Some 4192, None, None, None]))))"

lemma example_dfs_sel [simp]:
  "dev_heap example_dfs = example_heap" "working_directory example_dfs = [slash]" "fd_at example_dfs = (\<lambda>_. example_file)" "maxfd example_dfs = 4"
  "fds example_dfs = Some 4164" "fd_slots example_dfs = [Some 4192, None, None, None]"
  "filesystem_table example_dfs = [example_fs 4108, example_fs 4136,
     zero_filesystem, zero_filesystem]"
  by (simp_all add: example_dfs_def example_running_def example_kernel_def boot_kernel_def idle_ipc_def dfs.defs)

definition example_code :: "dfs dfs_code" where
  "example_code = \<lparr>fs_code = (\<lambda>_. \<lparr>ops_name = [], ops_flags = 0, ops_fops = 0, op_mount = Some (\<lambda>_ _ _ k. (0, k)), op_unmount = None, op_mkfs = None,
       op_statfs = None, op_unlink = None, op_stat = None, op_rename = None\<rparr>),
     file_code = (\<lambda>_. \<lparr>op_open = Some (\<lambda>_ k. (0, k)), op_close = Some (\<lambda>_ k. (0, k)), op_ioctl = None, op_read = Some (\<lambda>_ _ _ k. (- EIO, k)), op_write = None,
       op_flush = None, op_lseek = None, op_getdents = None\<rparr>),
     dev_code = \<lparr>drv_init = \<lambda>_ _ k. (RT_EOK, k), drv_open = \<lambda>_ _ _ k. (RT_EOK, k), drv_close = \<lambda>_ _ k. (RT_EOK, k),
       drv_read = \<lambda>_ _ _ _ _ k. (0, k), drv_write = \<lambda>_ _ _ _ _ k. (0, k), drv_control = \<lambda>_ _ _ _ k. (RT_EOK, k)\<rparr>\<rparr>"

lemma example_strings: "str_at (bytes example_heap) 4108 (text_of [])" "str_at (bytes example_heap) 4136 (text_of [[115, 100]])"
  "str_at (bytes example_heap) 4240 (text_of [[97]])"
  by (simp_all add: text_of_slashed str_at_Cons example_heap_def)

lemma example_entries:
  "mounted_on (bytes example_heap) (example_fs 4108) st \<longleftrightarrow> st = []"
  "mounted_on (bytes example_heap) (example_fs 4136) st \<longleftrightarrow> st = [[115, 100]]"
  "\<not> mounted_on (bytes example_heap) zero_filesystem st"
proof -
  have "mounted_on (bytes example_heap) (example_fs 4108) []" "mounted_on (bytes example_heap) (example_fs 4136) [[115, 100]]"
    using example_strings by (simp_all add: mounted_on_def normal_def plain_name_def)
  then show "mounted_on (bytes example_heap) (example_fs 4108) st \<longleftrightarrow> st = []" "mounted_on (bytes example_heap) (example_fs 4136) st \<longleftrightarrow> st = [[115, 100]]"
    using mounted_on_unique by blast+
  show "\<not> mounted_on (bytes example_heap) zero_filesystem st" by (simp add: mounted_on_def zero_filesystem_def)
qed

lemma example_mounted: "mounted example_dfs i st \<longleftrightarrow> i = 0 \<and> st = [] \<or> i = 1 \<and> st = [[115, 100]]"
proof -
  consider "i = 0" | "i = 1" | "i = 2" | "i = 3" | "4 \<le> i" by linarith
  then show ?thesis by cases (simp_all add: mounted_def example_entries)
qed

lemma example_mounts_live: "mounts_live example_dfs"
proof -
  have e: "entry_ok (bytes example_heap) f" if f: "f \<in> set (filesystem_table example_dfs)" for f
  proof -
    have z: "entry_ok m zero_filesystem" for m by (simp add: entry_ok_def zero_filesystem_def)
    consider "f = example_fs 4108" | "f = example_fs 4136" | "f = zero_filesystem" using f unfolding example_dfs_sel list.set by blast
    then show ?thesis by cases (simp_all add: z, simp_all add: entry_ok_def example_entries)
  qed
  have l: "\<exists>e. (p, e) \<in> heap_live example_heap \<and> p + length (text_of st) < e"
    if f: "f \<in> set (filesystem_table example_dfs)" "mounted_on (bytes example_heap) f st" "path f = Some p" for f st p
  proof -
    consider "p = 4108" "st = []" | "p = 4136" "st = [[115, 100]]" using f example_entries by (auto simp del: insert_iff)
    then show ?thesis
    proof cases
      case 1
      then show ?thesis by (intro exI [of _ 4124]) (simp add: example_heap(2) text_of_slashed)
    next
      case 2
      then show ?thesis by (intro exI [of _ 4152]) (simp add: example_heap(2) text_of_slashed)
    qed
  qed
  show ?thesis using example_heap(1) e l by (simp only: mounts_live_def mounts_ok_def example_dfs_sel) blast
qed

text \<open>The same file system, but it refuses to be mounted.\<close>

definition refusing_code :: "dfs dfs_code" where
  "refusing_code = example_code\<lparr>fs_code := \<lambda>t. (fs_code example_code t)\<lparr>op_mount := Some (\<lambda>_ _ _ k. (- EIO, k))\<rparr>\<rparr>"

lemma example_mount_quiet: "mount_calls_quiet example_code t None p rwflag data example_dfs" "mount_calls_quiet refusing_code t None p rwflag data example_dfs"
proof -
  have q: "mount_quiet (entered i p t None example_dfs) (entered i p t None example_dfs)" for i
    by (rule mount_quiet_refl) (simp add: entered_def example_heap(1))
  have s: "\<exists>x. mount_quiet (upd_fs i (\<lambda>s. s\<lparr>fs_data := x\<rparr>) (entered i p t None example_dfs)) (entered i p t None example_dfs)" for i
    using q [of i] by (intro exI [of _ "fs_data (filesystem_table (entered i p t None example_dfs) ! i)"]) (simp add: upd_fs_def)
  show "mount_calls_quiet example_code t None p rwflag data example_dfs" "mount_calls_quiet refusing_code t None p rwflag data example_dfs"
    unfolding mount_calls_quiet_def using q s by (auto simp: example_code_def refusing_code_def device_opened_def device_closed_def)
qed

lemma example_first_empty: "first_empty example_dfs i \<longleftrightarrow> i = 2"
proof -
  have "first_empty example_dfs 2" by (simp add: first_empty_def zero_filesystem_def less_Suc_eq numeral_2_eq_2)
  then show ?thesis using first_empty_unique by blast
qed

section \<open>Properties\<close>

text \<open>
  C27. \<open>dfs_filesystem_lookup\<close> finds the file system that is mounted on the longest of the names above a path, name
  by name (\<^verbatim>\<open>/sd\<close> is not above \<^verbatim>\<open>/sdcard\<close>), and none exactly when nothing is mounted above it; it gives the lock back.
\<close>

theorem dfs_filesystem_lookup_longest:
  assumes "mounts_ok k" "normal ns"
  shows "\<exists>r. dfs_filesystem_lookup (text_of ns) k = Some (r, k) \<and> (case r of
      None \<Rightarrow> \<nexists>i st. longest_mount k ns i st \<or> mounted k i st \<and> prefix st ns
    | Some i \<Rightarrow> \<exists>st. longest_mount k ns i st)"
  using lookup_longest [OF assms] unfolding longest_mount_def by (fastforce split: option.splits)

theorem dfs_filesystem_lookup_longest_witness:
  "dfs_filesystem_lookup (text_of [[115, 100, 99]]) example_dfs = Some (Some 0, example_dfs)"
proof -
  have "mounts_ok example_dfs" "normal [[115, 100, 99]]" using example_mounts_live by (simp_all add: mounts_live_def normal_def plain_name_def)
  from dfs_filesystem_lookup_longest [OF this] obtain r where r: "dfs_filesystem_lookup (text_of [[115, 100, 99]]) example_dfs = Some (r, example_dfs)"
    and c: "case r of None \<Rightarrow> \<nexists>i st. longest_mount example_dfs [[115, 100, 99]] i st \<or> mounted example_dfs i st \<and> prefix st [[115, 100, 99]]
      | Some i \<Rightarrow> \<exists>st. longest_mount example_dfs [[115, 100, 99]] i st" by blast
  have "mounted example_dfs 0 []" by (simp add: example_mounted)
  then have "\<exists>i st. mounted example_dfs i st \<and> prefix st [[115, 100, 99]]" using Nil_prefix by blast
  then have "r \<noteq> None" using c by (cases r) auto
  then show ?thesis using r c by (auto simp: longest_mount_def example_mounted)
qed

text \<open>
  C25. \<open>dfs_mount\<close>, once the device, the type and the mount point are found: a name that is the text of a mount point is
  refused with \<^verbatim>\<open>EINVAL\<close> and a full table with \<^verbatim>\<open>ENOSPC\<close>; the mount points are as before and the path is freed. Otherwise
  the first empty place is filled in, the device is opened, and only when it opens, the file system is asked. When the device
  does not open, or when the file system answers with an error, in which case the device is closed again, the call returns -1,
  and the state is the one that these calls left, but for the place, which is cleared, and the path, which is freed. When the file system
  accepts, the call returns 0 and it stands in that place, mounted on the names of the normalised path, and the other mount points
  are the same.
\<close>

theorem dfs_mount_enters:
  assumes "mounts_live k" "op_mount (fs_code code t) \<noteq> None" "mount_calls_quiet code t dev p rwflag data k" "0 \<notin> set name"
    and "(p, e) \<in> heap_live (dev_heap k)" "str_at (bytes (dev_heap k)) p (text_of st)" "p + length (text_of st) < e" "normal st" "p \<notin> mount_paths k"
  shows "\<exists>r k'. mount_enter code t dev p name rwflag data k = Some (r, k') \<and> mounts_live k'
    \<and> (if \<exists>j st'. mounted k j st' \<and> text_of st' = name
       then r = - 1 \<and> rt_get_errno k' = - EINVAL \<and> mounted k' = mounted k \<and> heap_live (dev_heap k') = heap_live (dev_heap k) - {(p, e)}
       else if \<nexists>i. first_empty k i
       then r = - 1 \<and> rt_get_errno k' = - ENOSPC \<and> mounted k' = mounted k \<and> heap_live (dev_heap k') = heap_live (dev_heap k) - {(p, e)}
       else \<exists>i. first_empty k i \<and>
         (case device_opened code dev (entered i p t dev k) of (r3, k3) \<Rightarrow>
            if r3 \<noteq> RT_EOK then r = - 1 \<and> mounted k' = mounted k \<and> mount_undone i p e k3 k'
            else case the (op_mount (fs_code code t)) i rwflag data k3 of (r4, k4) \<Rightarrow>
              if r4 < 0 then r = - 1 \<and> mounted k' = mounted k \<and> mount_undone i p e (device_closed code dev k4) k'
              else r = 0 \<and> k' = k4 \<and> (\<forall>j st'. mounted k' j st' \<longleftrightarrow> (if j = i then st' = st else mounted k j st'))))"
  using mount_enter_effect [OF assms] unfolding mount_result_def .

theorem dfs_mount_enters_witness:
  "(\<exists>k'. mount_enter example_code 0 None 4240 (text_of [[97]]) 0 0 example_dfs = Some (0, k') \<and> mounted k' 2 [[97]] \<and> mounted k' 0 [])
    \<and> (\<exists>k'. mount_enter refusing_code 0 None 4240 (text_of [[97]]) 0 0 example_dfs = Some (- 1, k') \<and> mounted k' = mounted example_dfs
        \<and> (4240, 4256) \<notin> heap_live (dev_heap k') \<and> filesystem_table k' ! 2 = zero_filesystem)"
proof -
  have o: "op_mount (fs_code example_code 0) \<noteq> None" "op_mount (fs_code refusing_code 0) \<noteq> None" by (simp_all add: example_code_def refusing_code_def)
  have n: "0 \<notin> set (text_of [[97]])" "4240 + length (text_of [[97]]) < 4256" "normal [[97]]" by (simp_all add: text_of_slashed normal_def plain_name_def)
  have p: "(4240, 4256) \<in> heap_live (dev_heap example_dfs)" "4240 \<notin> mount_paths example_dfs"
    by (simp_all add: example_heap(2) zero_filesystem_def mount_paths_def)
  have s: "str_at (bytes (dev_heap example_dfs)) 4240 (text_of [[97]])" using example_strings(3) by simp
  have t: "\<not> (\<exists>j st'. mounted example_dfs j st' \<and> text_of st' = text_of [[97]])" by (simp add: example_mounted text_of_slashed)
  have v: "\<not> (\<nexists>i. first_empty example_dfs i)" by (simp add: example_first_empty)
  note w = dfs_mount_enters [OF example_mounts_live _ _ n(1) p(1) s n(2,3) p(2), unfolded if_not_P [OF t] if_not_P [OF v] example_first_empty]
  have d: "device_opened c None k = (RT_EOK, k)" "device_closed c None k = k" for c and k :: dfs by (simp_all add: device_opened_def device_closed_def)
  have f: "the (op_mount (fs_code example_code 0)) i rw da k = (0, k)" "the (op_mount (fs_code refusing_code 0)) i rw da k = (- EIO, k)" for i rw da k
    by (simp_all add: example_code_def refusing_code_def)
  have e: "- EIO < 0" by simp
  have l: "filesystem_table (upd_fs 2 (\<lambda>_. zero_filesystem) (entered 2 4240 0 None example_dfs)) ! 2 = zero_filesystem" by (simp add: entered_def)
  have a: "\<exists>k'. mount_enter example_code 0 None 4240 (text_of [[97]]) 0 0 example_dfs = Some (0, k') \<and> mounted k' 2 [[97]] \<and> mounted k' 0 []"
    using w [OF o(1) example_mount_quiet(1), of 0 0] by (auto simp: d f example_mounted)
  have b: "\<exists>k'. mount_enter refusing_code 0 None 4240 (text_of [[97]]) 0 0 example_dfs = Some (- 1, k') \<and> mounted k' = mounted example_dfs
        \<and> (4240, 4256) \<notin> heap_live (dev_heap k') \<and> filesystem_table k' ! 2 = zero_filesystem"
    using w [OF o(2) example_mount_quiet(2), of 0 0] e l by (auto simp: d f mount_undone_def)
  show ?thesis using a b by blast
qed

end
