(* ===== verification/Dfs_Fd.thy ===== *)
theory Dfs_Fd
  imports Dfs_Fs
begin

text \<open>
  Descriptors, the rest of \<^verbatim>\<open>rt-thread/components/dfs/src/dfs.c\<close>: the table of open files, which grows by four places in
  the heap, and the counts of references. The number of a descriptor is its place plus 3. The array of
  pointers is the list \<open>fd_slots\<close>, which \<open>rt_realloc\<close> keeps where it moves the array. \<open>cons\<close> is the
  descriptor of the console, which stands for 0, 1 and 2.
\<close>

section \<open>Operations\<close>

abbreviation (input) DFS_FD_MAX :: nat where "DFS_FD_MAX \<equiv> 16"
abbreviation (input) DFS_FD_OFFSET :: int where "DFS_FD_OFFSET \<equiv> 3"
abbreviation (input) DFS_FD_MAGIC :: u16 where "DFS_FD_MAGIC \<equiv> 0xfdfd"

definition zero_fd :: dfs_fd where
  "zero_fd = \<lparr>fd_magic = 0, fd_type = 0, fd_path = None, fd_ref_count = 0, fd_fs = None, fd_fops = None, fd_flags = 0, fd_size = 0,
     fd_pos = 0, fd_data = None\<rparr>"

fun fd_search :: "(addr \<Rightarrow> dfs_fd) \<Rightarrow> nat \<Rightarrow> addr option list \<Rightarrow> nat" where
  "fd_search at idx [] = idx"
| "fd_search at idx (s # rest) =
     (case s of None \<Rightarrow> idx | Some d \<Rightarrow> if fd_ref_count (at d) = 0 then idx else fd_search at (idx + 1) rest)"

text \<open>Four more places, or as many as there may be.\<close>

definition fd_grow :: "'a dfs_scheme \<Rightarrow> (bool \<times> 'a dfs_scheme) option" where
  "fd_grow k =
     (let cnt = (if maxfd k + 4 > DFS_FD_MAX then DFS_FD_MAX else maxfd k + 4)
      in map_option (\<lambda>(p, h). case p of
             None \<Rightarrow> (False, k\<lparr>dev_heap := h\<rparr>)
           | Some p \<Rightarrow> (True, k\<lparr>dev_heap := h, fds := Some p, fd_slots := fd_slots k @ replicate (cnt - maxfd k) None, maxfd := cnt\<rparr>))
         (rt_realloc (fds k) (word_of_nat (cnt * 4)) (dev_heap k)))"

text \<open>\<open>sizeof(struct dfs_fd)\<close> is 36 bytes.\<close>

definition fd_alloc :: "nat \<Rightarrow> 'a dfs_scheme \<Rightarrow> (nat \<times> 'a dfs_scheme) option" where
  "fd_alloc startfd k =
     (let idx = fd_search (fd_at k) startfd (drop startfd (fd_slots k))
      in do {
           (ok, k) \<leftarrow> (if idx = maxfd k \<and> maxfd k < DFS_FD_MAX then fd_grow k else Some (True, k));
           if \<not> ok then Some (idx, k)
           else if idx < maxfd k \<and> fd_slots k ! idx = None then
             do {
               (p, h) \<leftarrow> rt_calloc 1 36 (dev_heap k);
               Some (case p of
                   None \<Rightarrow> (maxfd k, k\<lparr>dev_heap := h\<rparr>)
                 | Some d \<Rightarrow> (idx, upd_fd d (\<lambda>_. zero_fd) (k\<lparr>dev_heap := h, fd_slots := (fd_slots k)[idx := Some d]\<rparr>)))
             }
           else Some (idx, k)
         })"

definition fd_new :: "'a dfs_scheme \<Rightarrow> (int \<times> 'a dfs_scheme) option" where
  "fd_new k =
     do {
       (idx, k) \<leftarrow> fd_alloc 0 (dfs_lock k);
       if idx = maxfd k then Some (- (1 + DFS_FD_OFFSET) + DFS_FD_OFFSET, dfs_unlock k)
       else case fd_slots k ! idx of None \<Rightarrow> None
         | Some d \<Rightarrow> Some (int idx + DFS_FD_OFFSET, dfs_unlock (upd_fd d (\<lambda>f. f\<lparr>fd_ref_count := 1, fd_magic := DFS_FD_MAGIC\<rparr>) k))
     }"

definition fd_get :: "int \<Rightarrow> int \<Rightarrow> 'a dfs_scheme \<Rightarrow> addr option \<times> 'a dfs_scheme" where
  "fd_get cons fd k =
     (let fd = (if 0 \<le> fd \<and> fd \<le> 2 then cons else fd); fd = fd - DFS_FD_OFFSET
      in if fd < 0 \<or> fd \<ge> int (maxfd k) then (None, k)
         else
           let k = dfs_lock k
           in case fd_slots k ! nat fd of
                None \<Rightarrow> (None, dfs_unlock k)
              | Some d \<Rightarrow>
                  if fd_magic (fd_at k d) \<noteq> DFS_FD_MAGIC then (None, dfs_unlock k)
                  else (Some d, dfs_unlock (upd_fd d (\<lambda>f. f\<lparr>fd_ref_count := fd_ref_count f + 1\<rparr>) k)))"

text \<open>The place of a file in the table, if it is there.\<close>

fun fd_place :: "addr \<Rightarrow> nat \<Rightarrow> addr option list \<Rightarrow> nat option" where
  "fd_place d index [] = None"
| "fd_place d index (s # rest) = (if s = Some d then Some index else fd_place d (index + 1) rest)"

definition fd_put :: "addr \<Rightarrow> 'a dfs_scheme \<Rightarrow> 'a dfs_scheme option" where
  "fd_put fd k =
     (let k = upd_fd fd (\<lambda>f. f\<lparr>fd_ref_count := fd_ref_count f - 1\<rparr>) (dfs_lock k)
      in if fd_ref_count (fd_at k fd) = 0 then
           (case fd_place fd 0 (fd_slots k) of
              None \<Rightarrow> Some (dfs_unlock k)
            | Some index \<Rightarrow> map_option (\<lambda>k. dfs_unlock (k\<lparr>fd_slots := (fd_slots k)[index := None]\<rparr>)) (dfs_free (Some fd) k))
         else Some (dfs_unlock k))"

section \<open>The descriptors\<close>

text \<open>How often the descriptor in a place is held.\<close>

definition fd_count :: "'a dfs_scheme \<Rightarrow> nat \<Rightarrow> int" where
  "fd_count k n = (if n < length (fd_slots k) then (case fd_slots k ! n of None \<Rightarrow> 0 | Some d \<Rightarrow> fd_ref_count (fd_at k d)) else 0)"

text \<open>The files of the table, and the blocks in use that are neither a file nor the array.\<close>

definition fd_files :: "'a dfs_scheme \<Rightarrow> addr set" where
  "fd_files k = {d. Some d \<in> set (fd_slots k)}"

definition fd_addrs :: "'a dfs_scheme \<Rightarrow> addr set" where
  "fd_addrs k = set_option (fds k) \<union> fd_files k"

definition other_blocks :: "'a dfs_scheme \<Rightarrow> (nat \<times> nat) set" where
  "other_blocks k = {x \<in> heap_live (dev_heap k). fst x \<notin> fd_addrs k}"

definition fd_inv :: "'a dfs_scheme \<Rightarrow> bool" where
  "fd_inv k \<longleftrightarrow> heap_good (dev_heap k) \<and> length (fd_slots k) = maxfd k \<and> maxfd k \<le> DFS_FD_MAX
     \<and> (\<forall>i < maxfd k. \<forall>j < maxfd k. \<forall>d. fd_slots k ! i = Some d \<longrightarrow> fd_slots k ! j = Some d \<longrightarrow> i = j)
     \<and> (\<forall>d \<in> fd_files k. 0 < fd_ref_count (fd_at k d) \<and> fd_magic (fd_at k d) = DFS_FD_MAGIC \<and> (\<exists>e. (d, e) \<in> heap_live (dev_heap k) \<and> d + 36 \<le> e))
     \<and> (\<forall>a. fds k = Some a \<longrightarrow> a \<notin> fd_files k \<and> (\<exists>e. (a, e) \<in> heap_live (dev_heap k) \<and> a + 4 * maxfd k \<le> e))
     \<and> (fds k = None \<longrightarrow> maxfd k = 0)"

text \<open>Nothing changes but the table, the files and the heap, and in the heap no other block.\<close>

definition fd_frame :: "'a dfs_scheme \<Rightarrow> 'a dfs_scheme \<Rightarrow> bool" where
  "fd_frame k k' \<longleftrightarrow> (\<exists>h at m a s. k' = k\<lparr>dev_heap := h, fd_at := at, maxfd := m, fds := a, fd_slots := s\<rparr>)
     \<and> other_blocks k' = other_blocks k
     \<and> (\<forall>(q, f) \<in> other_blocks k. \<forall>x. q \<le> x \<longrightarrow> x < f \<longrightarrow> bytes (dev_heap k') x = bytes (dev_heap k) x)"

lemma fd_frameI:
  assumes "k' = k\<lparr>dev_heap := dev_heap k', fd_at := fd_at k', maxfd := maxfd k', fds := fds k', fd_slots := fd_slots k'\<rparr>"
    "other_blocks k' = other_blocks k" "\<forall>(q, f) \<in> other_blocks k. \<forall>x. q \<le> x \<longrightarrow> x < f \<longrightarrow> bytes (dev_heap k') x = bytes (dev_heap k) x"
  shows "fd_frame k k'"
  using assms unfolding fd_frame_def by blast

lemma fd_frame_refl [simp]: "fd_frame k k"
  by (rule fd_frameI) auto

lemma fd_frame_trans:
  assumes "fd_frame k k1" "fd_frame k1 k2"
  shows "fd_frame k k2"
proof -
  have "\<exists>h at m a s. k2 = k\<lparr>dev_heap := h, fd_at := at, maxfd := m, fds := a, fd_slots := s\<rparr>" using assms unfolding fd_frame_def by force
  moreover have "other_blocks k2 = other_blocks k" using assms by (simp add: fd_frame_def)
  moreover have "\<forall>(q, f) \<in> other_blocks k. \<forall>x. q \<le> x \<longrightarrow> x < f \<longrightarrow> bytes (dev_heap k2) x = bytes (dev_heap k) x"
    using assms unfolding fd_frame_def by fastforce
  ultimately show ?thesis unfolding fd_frame_def by blast
qed

section \<open>Blocks\<close>

lemma small_live_pos: "heap_ok h \<Longrightarrow> (a, e) \<in> heap_live h \<Longrightarrow> a < e"
  using used_blocksD(4) by (fastforce simp: heap_live_iff)

lemma live_fun: "heap_ok h \<Longrightarrow> (a, e) \<in> heap_live h \<Longrightarrow> (a, f) \<in> heap_live h \<Longrightarrow> e = f"
  using live_gap [of h a e a f] small_live_pos [of h a e] small_live_pos [of h a f] by fastforce

definition new_block :: "small_heap \<Rightarrow> (nat \<times> nat) set \<Rightarrow> nat \<Rightarrow> nat \<Rightarrow> small_heap \<Rightarrow> bool" where
  "new_block h X n p h' \<longleftrightarrow> heap_good h' \<and> (\<exists>e. heap_live h' = insert (p, e) (heap_live h - X) \<and> (p, e) \<notin> heap_live h - X \<and> p + n \<le> e)
     \<and> (\<forall>(q, f) \<in> heap_live h - X. \<forall>x. q \<le> x \<longrightarrow> x < f \<longrightarrow> bytes h' x = bytes h x)"

lemma new_block_fresh: "new_block h X n p h' \<Longrightarrow> (p, f) \<notin> heap_live h - X"
  using live_fun [of h' p f] by (auto simp: new_block_def heap_good_def)

lemma malloc_block:
  assumes h: "heap_good h" and n: "n < 2 ^ 32 - 4"
  shows "\<exists>r h'. rt_malloc (word_of_nat n) h = Some (r, h') \<and> (case r of None \<Rightarrow> h' = h | Some p \<Rightarrow> new_block h {} n p h' \<and> bytes h' = bytes h)"
proof -
  have ok: "heap_ok h" "0 < heap_sem h" using h by (simp_all add: heap_good_def)
  obtain r h' where m: "rt_malloc (word_of_nat n) h = Some (r, h')" and
    c: "case r of None \<Rightarrow> h' = h | Some p \<Rightarrow> \<exists>b e. heap_ok h' \<and> 0 < heap_sem h' \<and> bytes h' = bytes h \<and> heap_ptr h' = heap_ptr h \<and> (b, e) \<notin> used_blocks h
      \<and> used_blocks h' = insert (b, e) (used_blocks h) \<and> p = heap_ptr h + b + 12 \<and> p + n \<le> heap_ptr h + e \<and> p + n < 2 ^ 32"
    using fresh_block [OF ok n] by blast
  show ?thesis
  proof (cases r)
    case (Some p)
    then obtain b e where b: "heap_ok h'" "0 < heap_sem h'" "bytes h' = bytes h" "heap_ptr h' = heap_ptr h" "(b, e) \<notin> used_blocks h"
      "used_blocks h' = insert (b, e) (used_blocks h)" "p = heap_ptr h + b + 12" "p + n \<le> heap_ptr h + e" using c by auto
    have "(p, heap_ptr h + e) \<notin> heap_live h" "heap_live h' = insert (p, heap_ptr h + e) (heap_live h)" using b(4-7) by (auto simp: heap_live_def)
    then show ?thesis using m Some b by (auto simp: new_block_def heap_good_def)
  qed (use m c in simp)
qed

lemma calloc_block:
  assumes h: "heap_good h"
  shows "\<exists>r h'. rt_calloc 1 36 h = Some (r, h') \<and> (case r of None \<Rightarrow> h' = h | Some p \<Rightarrow> new_block h {} 36 p h')"
proof -
  obtain r h' where m: "rt_malloc 36 h = Some (r, h')" and c: "case r of None \<Rightarrow> h' = h | Some p \<Rightarrow> new_block h {} 36 p h' \<and> bytes h' = bytes h"
    using malloc_block [OF h, of 36] by auto
  show ?thesis
  proof (cases r)
    case (Some p)
    define h1 where "h1 = h'\<lparr>bytes := (\<lambda>a. if p \<le> a \<and> a < p + unat (36 :: u32) then 0 else bytes h' a)\<rparr>"
    obtain e where e: "heap_good h'" "heap_live h' = insert (p, e) (heap_live h)" "(p, e) \<notin> heap_live h" "p + 36 \<le> e" "bytes h' = bytes h"
      using c Some by (auto simp: new_block_def)
    have g: "heap_good h1" "heap_live h1 = heap_live h'" using e(1) by (simp_all add: h1_def heap_good_def)
    have "bytes h1 x = bytes h x" if q: "(q, f) \<in> heap_live h" "q \<le> x" "x < f" for q f x
    proof -
      have "f + 12 \<le> p \<or> e + 12 \<le> q" using live_gap [of h' q f p e] e(1-3) q(1) by (auto simp: heap_good_def)
      then show ?thesis using q(2,3) e(4,5) by (auto simp: h1_def)
    qed
    then have "new_block h {} 36 p h1" using e g unfolding new_block_def by auto
    then show ?thesis using m Some by (simp add: rt_calloc_def h1_def)
  qed (use m c in \<open>simp add: rt_calloc_def\<close>)
qed

lemma realloc_block:
  assumes h: "heap_good h" and n: "0 < n" "n \<le> 64" "4 dvd n" and a: "\<And>a. old = Some a \<Longrightarrow> (a, e) \<in> heap_live h"
  shows "\<exists>r h'. rt_realloc old (word_of_nat n) h = Some (r, h')
    \<and> (case r of None \<Rightarrow> h' = h | Some p \<Rightarrow> new_block h ((\<lambda>a. (a, e)) ` set_option old) n p h')"
proof -
  define w where "w = (word_of_nat n :: u32)"
  have w: "unat w = n" using n(2) unfolding w_def by (intro unat_of_nat32) simp
  have al: "unat (RT_ALIGN w 4) = n" using RT_ALIGN4 [of w] w n by auto
  then have al': "RT_ALIGN w 4 = w" using w by (metis word_unat_eq_iff)
  have ok: "heap_ok h" "0 < heap_sem h" using h by (simp_all add: heap_good_def)
  show ?thesis
  proof (cases old)
    case None
    then have "rt_realloc old w h = (if n > mem_size_aligned h then Some (None, h) else rt_malloc w h)"
      using n(1) al al' by (simp add: rt_realloc_def Let_def)
    moreover obtain r h' where "rt_malloc w h = Some (r, h')" "case r of None \<Rightarrow> h' = h | Some p \<Rightarrow> new_block h {} n p h'"
      using malloc_block [OF h, of n] n(2) unfolding w_def [symmetric] by (fastforce split: option.splits)
    ultimately show ?thesis unfolding w_def [symmetric] None
      by (intro exI [of _ "if n > mem_size_aligned h then None else r"] exI [of _ "if n > mem_size_aligned h then h else h'"]) (auto split: option.splits)
  next
    case (Some a)
    then obtain b b' where b: "(b, b') \<in> used_blocks h" "a = heap_ptr h + b + 12" "e = heap_ptr h + b'" using assms(5) by (auto simp: heap_live_iff)
    have "w \<noteq> 0" "unat w \<le> 2 ^ 32 - 4" using w n by auto
    from rt_realloc_effect [OF ok b(1) this, unfolded al] obtain r h' where
      r: "rt_realloc old w h = Some (r, h')" "heap_ok h'" "heap_sem h' = heap_sem h"
      and c: "case r of None \<Rightarrow> h' = h | Some p \<Rightarrow> \<exists>c f. kept h b b' n p c f h'" using b(2) Some by blast
    show ?thesis
    proof (cases r)
      case (Some p)
      then obtain c f where c: "kept h b b' n p c f h'" using c by auto
      have i: "inj (\<lambda>(b, e). (heap_ptr h + b + 12, heap_ptr h + e))" by (auto simp: inj_def)
      have l: "heap_live h' = insert (p, heap_ptr h + f) (heap_live h - {(a, e)})"
        using c b(2,3) unfolding kept_def heap_live_def by (simp add: image_set_diff [OF i])
      have nl: "(p, heap_ptr h + f) \<notin> heap_live h - {(a, e)}" using c b(2,3) by (auto simp: kept_def heap_live_iff)
      have "bytes h' x = bytes h x" if q: "(q, g) \<in> heap_live h - {(a, e)}" "q \<le> x" "x < g" for q g x
      proof -
        obtain d d' where d: "(d, d') \<in> used_blocks h" "q = heap_ptr h + d + 12" "g = heap_ptr h + d'" using q(1) by (auto simp: heap_live_iff)
        then have "(d, d') \<noteq> (b, b')" using q(1) b(2,3) by auto
        then show ?thesis using c d q(2,3) unfolding kept_def by blast
      qed
      then have "new_block h {(a, e)} n p h'" using l nl c r(2,3) ok(2) unfolding new_block_def heap_good_def kept_def by auto
      then show ?thesis using r(1) Some \<open>old = Some a\<close> unfolding w_def by auto
    qed (use r(1) c in \<open>auto simp: w_def\<close>)
  qed
qed

lemma other_blocks_new:
  assumes g: "heap_good (dev_heap k)" and nb: "new_block (dev_heap k) X n p h'" and X: "X \<subseteq> heap_live (dev_heap k)" "fst ` X \<subseteq> fd_addrs k"
    and k': "dev_heap k' = h'" "fd_addrs k' = insert p (fd_addrs k - fst ` X)"
  shows "other_blocks k' = other_blocks k"
    "\<forall>(q, f) \<in> other_blocks k. \<forall>x. q \<le> x \<longrightarrow> x < f \<longrightarrow> bytes (dev_heap k') x = bytes (dev_heap k) x"
proof -
  have ok: "heap_ok (dev_heap k)" using g by (simp add: heap_good_def)
  obtain e where e: "heap_live h' = insert (p, e) (heap_live (dev_heap k) - X)" using nb by (auto simp: new_block_def)
  have "(q, f) \<in> other_blocks k' \<longleftrightarrow> (q, f) \<in> other_blocks k" for q f
  proof
    assume a: "(q, f) \<in> other_blocks k'"
    then have q: "(q, f) \<in> heap_live (dev_heap k) - X" "q \<notin> fd_addrs k - fst ` X" using e k' by (auto simp: other_blocks_def)
    have "q \<notin> fst ` X"
    proof
      assume "q \<in> fst ` X"
      then obtain f' where f': "(q, f') \<in> X" by auto
      then have "f' = f" using live_fun [OF ok, of q f' f] X(1) q(1) by blast
      then show False using f' q(1) by simp
    qed
    then show "(q, f) \<in> other_blocks k" using q by (simp add: other_blocks_def)
  next
    assume a: "(q, f) \<in> other_blocks k"
    then have q: "(q, f) \<in> heap_live (dev_heap k)" "q \<notin> fd_addrs k" by (simp_all add: other_blocks_def)
    then have x: "(q, f) \<in> heap_live (dev_heap k) - X" using X(2) by force
    then have "q \<noteq> p" using new_block_fresh [OF nb, of f] by auto
    then show "(q, f) \<in> other_blocks k'" using x q e k' by (simp add: other_blocks_def)
  qed
  then show "other_blocks k' = other_blocks k" by auto
  show "\<forall>(q, f) \<in> other_blocks k. \<forall>x. q \<le> x \<longrightarrow> x < f \<longrightarrow> bytes (dev_heap k') x = bytes (dev_heap k) x"
  proof (intro ballI, clarify)
    fix q f x assume a: "(q, f) \<in> other_blocks k" and x: "q \<le> x" "x < f"
    then have "(q, f) \<in> heap_live (dev_heap k) - X" using X(2) by (force simp: other_blocks_def)
    then show "bytes (dev_heap k') x = bytes (dev_heap k) x" using nb x unfolding new_block_def k'(1) by blast
  qed
qed

lemma fd_invD:
  assumes "fd_inv k"
  shows "heap_good (dev_heap k)" "length (fd_slots k) = maxfd k" "maxfd k \<le> DFS_FD_MAX"
    "\<And>i j d. i < maxfd k \<Longrightarrow> j < maxfd k \<Longrightarrow> fd_slots k ! i = Some d \<Longrightarrow> fd_slots k ! j = Some d \<Longrightarrow> i = j"
    "\<And>d. d \<in> fd_files k \<Longrightarrow> 0 < fd_ref_count (fd_at k d)" "\<And>d. d \<in> fd_files k \<Longrightarrow> fd_magic (fd_at k d) = DFS_FD_MAGIC"
    "\<And>d. d \<in> fd_files k \<Longrightarrow> \<exists>e. (d, e) \<in> heap_live (dev_heap k) \<and> d + 36 \<le> e"
    "\<And>a. fds k = Some a \<Longrightarrow> a \<notin> fd_files k" "\<And>a. fds k = Some a \<Longrightarrow> \<exists>e. (a, e) \<in> heap_live (dev_heap k) \<and> a + 4 * maxfd k \<le> e"
    "fds k = None \<Longrightarrow> maxfd k = 0"
  using assms unfolding fd_inv_def by blast+

lemma fd_grow_effect:
  assumes k: "fd_inv k" and m: "maxfd k < DFS_FD_MAX"
  shows "\<exists>ok k'. fd_grow k = Some (ok, k') \<and> fd_inv k' \<and> fd_frame k k' \<and> fd_at k' = fd_at k
    \<and> (if ok then maxfd k < maxfd k' \<and> fd_slots k' = fd_slots k @ replicate (maxfd k' - maxfd k) None else k' = k)"
proof -
  note inv = fd_invD [OF k]
  define cnt where "cnt = (if maxfd k + 4 > DFS_FD_MAX then DFS_FD_MAX else maxfd k + 4)"
  have cnt: "maxfd k < cnt" "cnt \<le> 16" "cnt * 4 \<le> 64" "4 dvd cnt * 4" "0 < cnt * 4" using m by (simp_all add: cnt_def)
  obtain e where e: "\<And>a. fds k = Some a \<Longrightarrow> (a, e) \<in> heap_live (dev_heap k)" using inv(9) by (cases "fds k") auto
  define X where "X = (\<lambda>a. (a, e)) ` set_option (fds k)"
  obtain r h' where r: "rt_realloc (fds k) (word_of_nat (cnt * 4)) (dev_heap k) = Some (r, h')"
    and c: "case r of None \<Rightarrow> h' = dev_heap k | Some p \<Rightarrow> new_block (dev_heap k) X (cnt * 4) p h'"
    using realloc_block [OF inv(1) cnt(5,3,4) e] unfolding X_def by blast
  show ?thesis
  proof (cases r)
    case None
    then have "fd_grow k = Some (False, k)" using r c unfolding fd_grow_def cnt_def [symmetric] Let_def by simp
    then show ?thesis using k by auto
  next
    case (Some p)
    then have nb: "new_block (dev_heap k) X (cnt * 4) p h'" using c by simp
    define k' where "k' = k\<lparr>dev_heap := h', fds := Some p, fd_slots := fd_slots k @ replicate (cnt - maxfd k) None, maxfd := cnt\<rparr>"
    have sel: "fd_slots k' = fd_slots k @ replicate (cnt - maxfd k) None" "maxfd k' = cnt" "fds k' = Some p" "dev_heap k' = h'" "fd_at k' = fd_at k"
      by (simp_all add: k'_def)
    have f: "fd_files k' = fd_files k" by (auto simp: fd_files_def sel)
    obtain f where l: "heap_live h' = insert (p, f) (heap_live (dev_heap k) - X)" "p + cnt * 4 \<le> f" "heap_good h'" using nb by (auto simp: new_block_def)
    have fX: "(d, g) \<notin> X" if "d \<in> fd_files k" for d g using that inv(8) by (auto simp: X_def)
    have pf: "p \<notin> fd_files k" using inv(7) [of p] fX new_block_fresh [OF nb] by blast
    have X: "X \<subseteq> heap_live (dev_heap k)" "fst ` X = set_option (fds k)" using e by (auto simp: X_def image_image)
    have ad: "fd_addrs k' = insert p (fd_addrs k - fst ` X)" using inv(8) by (auto simp: fd_addrs_def f sel X(2))
    have o: "other_blocks k' = other_blocks k" "\<forall>(q, f) \<in> other_blocks k. \<forall>x. q \<le> x \<longrightarrow> x < f \<longrightarrow> bytes (dev_heap k') x = bytes (dev_heap k) x"
      by (rule other_blocks_new [OF inv(1) nb X(1) _ sel(4) ad]; simp add: X(2) fd_addrs_def)+
    have "fd_frame k k'" by (rule fd_frameI [OF _ o]) (simp add: k'_def)
    moreover have "fd_inv k'" unfolding fd_inv_def
    proof (intro conjI ballI allI impI)
      show "heap_good (dev_heap k')" "length (fd_slots k') = maxfd k'" "maxfd k' \<le> DFS_FD_MAX" using l(3) inv(2) cnt(1,2) by (simp_all add: sel)
      fix i j d assume "i < maxfd k'" "j < maxfd k'" "fd_slots k' ! i = Some d" "fd_slots k' ! j = Some d"
      then show "i = j" using inv(2,4) by (auto simp: sel nth_append split: if_splits)
    next
      fix d assume d: "d \<in> fd_files k'"
      show "0 < fd_ref_count (fd_at k' d)" "fd_magic (fd_at k' d) = DFS_FD_MAGIC" using d inv(5,6) by (simp_all add: f sel)
      show "\<exists>e. (d, e) \<in> heap_live (dev_heap k') \<and> d + 36 \<le> e" using d inv(7) [of d] fX [of d] l(1) by (auto simp: f sel)
    next
      fix a assume "fds k' = Some a"
      then show "a \<notin> fd_files k'" "\<exists>e. (a, e) \<in> heap_live (dev_heap k') \<and> a + 4 * maxfd k' \<le> e" using pf l(1,2) by (auto simp: sel f)
    qed (simp add: sel)
    moreover have "fd_grow k = Some (True, k')" using r Some unfolding fd_grow_def cnt_def [symmetric] Let_def k'_def by simp
    ultimately show ?thesis using cnt(1) by (auto simp: sel)
  qed
qed

lemma fd_search_first:
  assumes "\<forall>d. Some d \<in> set rest \<longrightarrow> fd_ref_count (at d) \<noteq> 0"
  shows "\<exists>i \<le> length rest. fd_search at idx rest = idx + i \<and> (\<forall>j < i. rest ! j \<noteq> None) \<and> (i < length rest \<longrightarrow> rest ! i = None)"
  using assms
proof (induction rest arbitrary: idx)
  case (Cons s rest)
  show ?case
  proof (cases s)
    case None
    then show ?thesis by (intro exI [of _ 0]) simp
  next
    case (Some d)
    obtain i where i: "i \<le> length rest" "fd_search at (idx + 1) rest = idx + 1 + i" "\<forall>j < i. rest ! j \<noteq> None" "i < length rest \<longrightarrow> rest ! i = None"
      using Cons.IH [of "idx + 1"] Cons.prems by auto
    moreover have "(s # rest) ! j \<noteq> None" if "j < Suc i" for j using that i(3) Some by (cases j) auto
    ultimately show ?thesis using Some Cons.prems by (intro exI [of _ "Suc i"]) auto
  qed
qed simp

text \<open>The lock does not touch the table.\<close>

lemma fd_lock [simp]:
  "fd_at (dfs_lock k) = fd_at k" "fd_slots (dfs_lock k) = fd_slots k" "maxfd (dfs_lock k) = maxfd k" "fds (dfs_lock k) = fds k"
  "fd_addrs (dfs_lock k) = fd_addrs k" "fd_files (dfs_lock k) = fd_files k" "fd_count (dfs_lock k) = fd_count k"
  "other_blocks (dfs_lock k) = other_blocks k" "fd_inv (dfs_lock k) = fd_inv k"
proof -
  show sel: "fd_at (dfs_lock k) = fd_at k" "fd_slots (dfs_lock k) = fd_slots k" "maxfd (dfs_lock k) = maxfd k" "fds (dfs_lock k) = fds k"
    by (simp_all add: dfs_lock_def)
  show f: "fd_files (dfs_lock k) = fd_files k" by (simp add: fd_files_def sel)
  show a: "fd_addrs (dfs_lock k) = fd_addrs k" by (simp add: fd_addrs_def f sel)
  show "fd_count (dfs_lock k) = fd_count k" by (auto simp: fun_eq_iff fd_count_def sel split: option.split)
  show "other_blocks (dfs_lock k) = other_blocks k" by (simp add: other_blocks_def a)
  show "fd_inv (dfs_lock k) = fd_inv k" by (simp add: fd_inv_def f sel)
qed

lemma fd_unlock [simp]:
  "fd_at (dfs_unlock k) = fd_at k" "fd_slots (dfs_unlock k) = fd_slots k" "maxfd (dfs_unlock k) = maxfd k" "fds (dfs_unlock k) = fds k"
  "fd_addrs (dfs_unlock k) = fd_addrs k" "fd_files (dfs_unlock k) = fd_files k" "fd_count (dfs_unlock k) = fd_count k"
  "other_blocks (dfs_unlock k) = other_blocks k" "fd_inv (dfs_unlock k) = fd_inv k"
proof -
  show sel: "fd_at (dfs_unlock k) = fd_at k" "fd_slots (dfs_unlock k) = fd_slots k" "maxfd (dfs_unlock k) = maxfd k" "fds (dfs_unlock k) = fds k"
    by (simp_all add: dfs_unlock_def)
  show f: "fd_files (dfs_unlock k) = fd_files k" by (simp add: fd_files_def sel)
  show a: "fd_addrs (dfs_unlock k) = fd_addrs k" by (simp add: fd_addrs_def f sel)
  show "fd_count (dfs_unlock k) = fd_count k" by (auto simp: fun_eq_iff fd_count_def sel split: option.split)
  show "other_blocks (dfs_unlock k) = other_blocks k" by (simp add: other_blocks_def a)
  show "fd_inv (dfs_unlock k) = fd_inv k" by (simp add: fd_inv_def f sel)
qed

lemma fd_frame_unlock: "fd_frame (dfs_lock k) k1 \<Longrightarrow> fd_frame k (dfs_unlock k1)"
proof -
  assume a: "fd_frame (dfs_lock k) k1"
  then obtain h at m l s where e: "k1 = (dfs_lock k)\<lparr>dev_heap := h, fd_at := at, maxfd := m, fds := l, fd_slots := s\<rparr>" unfolding fd_frame_def by blast
  have "dfs_unlock k1 = k\<lparr>dev_heap := h, fd_at := at, maxfd := m, fds := l, fd_slots := s\<rparr>" unfolding e by (simp add: dfs_unlock_def dfs_lock_def)
  then have "\<exists>h at m a s. dfs_unlock k1 = k\<lparr>dev_heap := h, fd_at := at, maxfd := m, fds := a, fd_slots := s\<rparr>" by blast
  moreover have "other_blocks (dfs_unlock k1) = other_blocks k" using a by (simp add: fd_frame_def)
  moreover have "\<forall>(q, f) \<in> other_blocks k. \<forall>x. q \<le> x \<longrightarrow> x < f \<longrightarrow> bytes (dev_heap (dfs_unlock k1)) x = bytes (dev_heap k) x"
    using a by (simp add: fd_frame_def)
  ultimately show ?thesis unfolding fd_frame_def by blast
qed

lemma fd_count_grow:
  assumes "fd_at k1 = fd_at k" "fd_slots k1 = fd_slots k @ replicate n None"
  shows "fd_count k1 j = fd_count k j"
proof (cases "j < length (fd_slots k)")
  case True
  then have "fd_slots k1 ! j = fd_slots k ! j" using assms(2) by (simp add: nth_append)
  then show ?thesis using True by (simp add: fd_count_def assms split: option.split)
next
  case False
  then show ?thesis by (simp add: fd_count_def assms(2) nth_append)
qed

text \<open>A place that is free, a new file in it.\<close>

lemma fd_place_file:
  assumes k: "fd_inv k" and i: "i < maxfd k" "fd_slots k ! i = None" and nb: "new_block (dev_heap k) {} 36 p h"
  defines "k' \<equiv> upd_fd p (\<lambda>_. zero_fd\<lparr>fd_ref_count := 1, fd_magic := DFS_FD_MAGIC\<rparr>) (k\<lparr>dev_heap := h, fd_slots := (fd_slots k)[i := Some p]\<rparr>)"
  shows "fd_inv k'" "fd_frame k k'" "p \<notin> fd_files k" "fd_count k' j = (if j = i then 1 else fd_count k j)" "fd_files k' = insert p (fd_files k)"
proof -
  note inv = fd_invD [OF k]
  have sel: "fd_slots k' = (fd_slots k)[i := Some p]" "maxfd k' = maxfd k" "fds k' = fds k" "dev_heap k' = h"
      "fd_at k' = (fd_at k)(p := zero_fd\<lparr>fd_ref_count := 1, fd_magic := DFS_FD_MAGIC\<rparr>)"
    by (simp_all add: k'_def upd_fd_def)
  obtain f where l: "heap_live h = insert (p, f) (heap_live (dev_heap k))" "p + 36 \<le> f" "heap_good h" using nb by (auto simp: new_block_def)
  have fresh: "(p, g) \<notin> heap_live (dev_heap k)" for g using new_block_fresh [OF nb] by simp
  show pf: "p \<notin> fd_files k" using inv(7) fresh by blast
  have pa: "fds k \<noteq> Some p" using inv(9) fresh by blast
  have il: "i < length (fd_slots k)" using i(1) inv(2) by simp
  show ff: "fd_files k' = insert p (fd_files k)"
  proof -
    obtain xs ys where x: "fd_slots k = xs @ None # ys" "length xs = i" using id_take_nth_drop [OF il] i(2) il by (metis length_take min.absorb4)
    then have "(fd_slots k)[i := Some p] = xs @ Some p # ys" by (simp add: list_update_append)
    then show ?thesis using x(1) by (auto simp: fd_files_def sel)
  qed
  have ad: "fd_addrs k' = insert p (fd_addrs k - fst ` {})" by (auto simp: fd_addrs_def ff sel)
  note o = other_blocks_new [OF inv(1) nb _ _ sel(4) ad, simplified]
  show "fd_frame k k'" by (rule fd_frameI [OF _ o(1)]) (use o(2) in \<open>auto simp: k'_def upd_fd_def\<close>)
  show "fd_inv k'" unfolding fd_inv_def
  proof (intro conjI ballI allI impI)
    show "heap_good (dev_heap k')" "length (fd_slots k') = maxfd k'" "maxfd k' \<le> DFS_FD_MAX" using l(3) inv(2,3) by (simp_all add: sel)
    show "fds k' = None \<Longrightarrow> maxfd k' = 0" using inv(10) by (simp add: sel)
    fix a b d assume ab: "a < maxfd k'" "b < maxfd k'" "fd_slots k' ! a = Some d" "fd_slots k' ! b = Some d"
    have "fd_slots k ! j \<noteq> Some p" if "j < maxfd k" for j using pf that inv(2) by (auto simp: fd_files_def in_set_conv_nth)
    then show "a = b" using ab inv(4) [of a b d] il inv(2) by (cases "a = i"; cases "b = i") (auto simp: sel)
  next
    fix d assume d: "d \<in> fd_files k'"
    show "0 < fd_ref_count (fd_at k' d)" "fd_magic (fd_at k' d) = DFS_FD_MAGIC" using d inv(5,6) by (auto simp: ff sel)
    show "\<exists>e. (d, e) \<in> heap_live (dev_heap k') \<and> d + 36 \<le> e" using d inv(7) l(1,2) by (auto simp: ff sel)
  next
    fix a assume "fds k' = Some a"
    then show "a \<notin> fd_files k'" "\<exists>e. (a, e) \<in> heap_live (dev_heap k') \<and> a + 4 * maxfd k' \<le> e" using inv(8,9) pa l(1) by (auto simp: sel ff)
  qed
  consider "j = i" | "j \<noteq> i" "\<not> j < length (fd_slots k)" | "j < length (fd_slots k) \<and> j \<noteq> i" by blast
  then show "fd_count k' j = (if j = i then 1 else fd_count k j)"
  proof cases
    case 1
    then show ?thesis using il by (simp add: fd_count_def sel)
  next
    case 2
    then show ?thesis by (simp add: fd_count_def sel)
  next
    case 3
    note True = this
    then have "fd_slots k ! j \<noteq> Some p" using pf unfolding fd_files_def by (metis mem_Collect_eq nth_mem)
    then show ?thesis using True by (auto simp: fd_count_def sel split: option.splits)
  qed
qed

lemma fd_new_effect:
  assumes k: "fd_inv k"
  shows "\<exists>r k'. fd_new k = Some (r, k') \<and> fd_inv k' \<and> fd_frame k k' \<and> (\<forall>d \<in> fd_files k. fd_at k' d = fd_at k d)
    \<and> (r = - 1 \<and> (\<forall>j. fd_count k' j = fd_count k j) \<and> fd_files k' = fd_files k
       \<or> (\<exists>i < DFS_FD_MAX. \<exists>d. r = int i + 3 \<and> fd_count k i = 0 \<and> (\<forall>j < i. 0 < fd_count k j)
            \<and> (\<forall>j. fd_count k' j = (if j = i then 1 else fd_count k j)) \<and> i < maxfd k' \<and> fd_slots k' ! i = Some d \<and> d \<notin> fd_files k
            \<and> fd_files k' = insert d (fd_files k) \<and> fd_at k' d = zero_fd\<lparr>fd_ref_count := 1, fd_magic := DFS_FD_MAGIC\<rparr>))"
proof -
  note inv = fd_invD [OF k]
  let ?l = "dfs_lock k"
  note ls = fd_lock(1,2,3,6,7) [of k]
  have li: "fd_inv ?l" using k by simp
  have un: "fd_frame k (dfs_unlock k1)" "fd_inv (dfs_unlock k1) \<longleftrightarrow> fd_inv k1" "fd_slots (dfs_unlock k1) = fd_slots k1" "maxfd (dfs_unlock k1) = maxfd k1"
      "fd_at (dfs_unlock k1) = fd_at k1" "fd_count (dfs_unlock k1) = fd_count k1" "fd_files (dfs_unlock k1) = fd_files k1" if "fd_frame ?l k1" for k1
    using that fd_frame_unlock by simp_all
  define i where "i = fd_search (fd_at k) 0 (fd_slots k)"
  have "\<forall>d. Some d \<in> set (fd_slots k) \<longrightarrow> fd_ref_count (fd_at k d) \<noteq> 0" using inv(5) by (fastforce simp: fd_files_def)
  then have i: "i \<le> maxfd k" "i < maxfd k \<Longrightarrow> fd_slots k ! i = None" and first: "\<forall>j < i. fd_slots k ! j \<noteq> None"
    using fd_search_first [of "fd_slots k" "fd_at k" 0] inv(2) by (auto simp: i_def)
  have low: "0 < fd_count k j" if j: "j < i" for j
  proof -
    obtain d where "fd_slots k ! j = Some d" using first j by auto
    then have d: "fd_slots k ! j = Some d" "j < length (fd_slots k)" using j i(1) inv(2) by simp_all
    then have "d \<in> fd_files k" unfolding fd_files_def by (metis mem_Collect_eq nth_mem)
    then show ?thesis using inv(5) d by (simp add: fd_count_def)
  qed
  obtain ok k1 where g: "(if i = maxfd k \<and> maxfd k < DFS_FD_MAX then fd_grow ?l else Some (True, ?l)) = Some (ok, k1)" "fd_inv k1" "fd_frame ?l k1" "fd_at k1 = fd_at k"
      "(if \<not> ok then k1 = ?l \<and> i = maxfd k
        else \<exists>n. fd_slots k1 = fd_slots k @ replicate n None \<and> (i < maxfd k1 \<longrightarrow> fd_slots k1 ! i = None) \<and> (i < maxfd k1 \<or> i = maxfd k1))"
  proof (cases "i = maxfd k \<and> maxfd k < DFS_FD_MAX")
    case True
    obtain ok k1 where "fd_grow ?l = Some (ok, k1)" "fd_inv k1" "fd_frame ?l k1" "fd_at k1 = fd_at k"
      "if ok then maxfd k < maxfd k1 \<and> fd_slots k1 = fd_slots k @ replicate (maxfd k1 - maxfd k) None else k1 = ?l"
      using fd_grow_effect [OF li] True unfolding ls by blast
    then show thesis using that [of ok k1] True inv(2) by (auto simp: nth_append split: if_splits)
  next
    case False
    then show thesis using that [of True ?l] li i i(1) [unfolded le_less] by (auto simp: ls intro: exI [of _ 0])
  qed
  have cnt: "fd_count k1 = fd_count k" if "ok"
    using that g(4,5) fd_count_grow [of k1 k] by (auto simp: fun_eq_iff)
  have files: "fd_files k1 = fd_files k" if "ok" using that g(5) by (auto simp: fd_files_def)
  show ?thesis
  proof (cases "ok \<and> i < maxfd k1")
    case False
    then have "i = maxfd k1" using g(5) by (auto simp: ls split: if_splits)
    then have "fd_new k = Some (- 1, dfs_unlock k1)"
      using g(1) False unfolding fd_new_def fd_alloc_def by (auto simp: ls i_def [symmetric] Let_def)
    moreover have "fd_count k1 = fd_count k" using cnt g(5) by (cases ok) (auto simp: ls)
    moreover have "fd_files k1 = fd_files k" using files g(5) by (cases ok) (auto simp: ls)
    ultimately show ?thesis using un [OF g(3)] g(2,4) by auto
  next
    case True
    then have s: "fd_slots k1 ! i = None" "i < maxfd k1" using g(5) by auto
    obtain r h where r: "rt_calloc 1 36 (dev_heap k1) = Some (r, h)" and c: "case r of None \<Rightarrow> h = dev_heap k1 | Some p \<Rightarrow> new_block (dev_heap k1) {} 36 p h"
      using calloc_block [OF fd_invD(1) [OF g(2)]] by blast
    have al: "fd_alloc 0 ?l = Some (case r of None \<Rightarrow> (maxfd k1, k1\<lparr>dev_heap := h\<rparr>)
        | Some d \<Rightarrow> (i, upd_fd d (\<lambda>_. zero_fd) (k1\<lparr>dev_heap := h, fd_slots := (fd_slots k1)[i := Some d]\<rparr>)))"
      using g(1) True s r by (auto simp: fd_alloc_def ls i_def [symmetric] Let_def)
    show ?thesis
    proof (cases r)
      case None
      then have "fd_new k = Some (- 1, dfs_unlock k1)" using al c by (simp add: fd_new_def)
      then show ?thesis using un [OF g(3)] g(2,4) cnt files True by auto
    next
      case (Some p)
      then have nb: "new_block (dev_heap k1) {} 36 p h" using c by simp
      define k2 where "k2 = upd_fd p (\<lambda>_. zero_fd\<lparr>fd_ref_count := 1, fd_magic := DFS_FD_MAGIC\<rparr>) (k1\<lparr>dev_heap := h, fd_slots := (fd_slots k1)[i := Some p]\<rparr>)"
      note pf = fd_place_file [OF g(2) s(2,1) nb, folded k2_def]
      have il: "i < length (fd_slots k1)" using s(2) fd_invD(2) [OF g(2)] by simp
      have "fd_new k = Some (int i + 3, dfs_unlock k2)"
        using al Some s(2) il by (simp add: fd_new_def k2_def upd_fd_def)
      moreover have "fd_frame ?l k2" by (rule fd_frame_trans [OF g(3) pf(2)])
      moreover have "fd_count k1 i = 0" using s(1) by (simp add: fd_count_def)
      then have "fd_count k i = 0" using cnt True by simp
      moreover have "i < DFS_FD_MAX" using s(2) fd_invD(3) [OF g(2)] by simp
      moreover have "\<forall>d \<in> fd_files k. fd_at k2 d = fd_at k d" using pf(3) files True g(4) by (auto simp: k2_def upd_fd_def)
      moreover have "fd_slots k2 ! i = Some p" "maxfd k2 = maxfd k1" "fd_at k2 p = zero_fd\<lparr>fd_ref_count := 1, fd_magic := DFS_FD_MAGIC\<rparr>"
        using il by (simp_all add: k2_def upd_fd_def)
      moreover have "\<forall>j < i. 0 < fd_count k j" using low by blast
      ultimately show ?thesis using un [of k2] pf files True cnt s(2) by (intro exI [of _ "int i + 3"] exI [of _ "dfs_unlock k2"]) auto
    qed
  qed
qed

section \<open>References\<close>

lemma fd_slot_file: "fd_inv k \<Longrightarrow> i < maxfd k \<Longrightarrow> fd_slots k ! i = Some d \<Longrightarrow> d \<in> fd_files k"
  using fd_invD(2) [of k] unfolding fd_files_def by (metis mem_Collect_eq nth_mem)

text \<open>A count that stays above zero.\<close>

lemma fd_ref_change:
  assumes k: "fd_inv k" and i: "i < maxfd k" "fd_slots k ! i = Some d" and n: "0 < fd_ref_count (fd_at k d) + n"
  defines "k' \<equiv> upd_fd d (\<lambda>f. f\<lparr>fd_ref_count := fd_ref_count f + n\<rparr>) k"
  shows "fd_inv k'" "fd_frame k k'" "fd_count k' j = (if j = i then fd_count k j + n else fd_count k j)"
proof -
  note inv = fd_invD [OF k]
  have sel: "fd_slots k' = fd_slots k" "maxfd k' = maxfd k" "fds k' = fds k" "dev_heap k' = dev_heap k"
      "fd_at k' = (fd_at k)(d := (fd_at k d)\<lparr>fd_ref_count := fd_ref_count (fd_at k d) + n\<rparr>)"
    by (simp_all add: k'_def upd_fd_def)
  have ff: "fd_files k' = fd_files k" by (simp add: fd_files_def sel)
  have ad: "other_blocks k' = other_blocks k" by (simp add: other_blocks_def fd_addrs_def ff sel)
  show "fd_frame k k'" by (rule fd_frameI [OF _ ad]) (simp_all add: k'_def upd_fd_def)
  show "fd_inv k'" using k n unfolding fd_inv_def ff sel by auto
  show "fd_count k' j = (if j = i then fd_count k j + n else fd_count k j)"
  proof (cases "j < length (fd_slots k) \<and> j \<noteq> i")
    case True
    then have "fd_slots k ! j \<noteq> Some d" using i inv(2) inv(4) [of i j d] by auto
    then show ?thesis using True by (auto simp: fd_count_def sel split: option.split)
  next
    case False
    have il: "i < length (fd_slots k)" using i(1) inv(2) by simp
    show ?thesis
    proof (cases "j = i")
      case True
      then show ?thesis using il i(2) by (simp add: fd_count_def sel)
    next
      case False
      then have "\<not> j < length (fd_slots k)" using \<open>\<not> (j < length (fd_slots k) \<and> j \<noteq> i)\<close> by simp
      then show ?thesis using False by (simp add: fd_count_def sel)
    qed
  qed
qed

lemma fd_get_effect:
  assumes k: "fd_inv k" and n: "n = (if 0 \<le> fd \<and> fd \<le> 2 then cons else fd) - 3"
  shows "if 0 \<le> n \<and> 0 < fd_count k (nat n)
    then \<exists>d. fd_get cons fd k = (Some d, upd_fd d (\<lambda>f. f\<lparr>fd_ref_count := fd_ref_count f + 1\<rparr>) k) \<and> nat n < maxfd k \<and> fd_slots k ! nat n = Some d
    else fd_get cons fd k = (None, k)"
proof (cases "0 \<le> n \<and> n < int (maxfd k)")
  case False
  then have "fd_get cons fd k = (None, k)" using n by (auto simp: fd_get_def Let_def)
  moreover have "\<not> (0 \<le> n \<and> 0 < fd_count k (nat n))" using False fd_invD(2) [OF k] by (auto simp: fd_count_def)
  ultimately show ?thesis by (metis (no_types))
next
  case True
  note inv = fd_invD [OF k]
  have l: "dfs_unlock (upd_fd d f (dfs_lock k)) = upd_fd d f k" for d f by (simp add: dfs_lock_def dfs_unlock_def upd_fd_def)
  have nn: "nat n < maxfd k" using True by linarith
  show ?thesis
  proof (cases "fd_slots k ! nat n")
    case None
    then have "fd_get cons fd k = (None, k)" using n True by (auto simp: fd_get_def Let_def)
    moreover have "fd_count k (nat n) = 0" using None by (simp add: fd_count_def)
    ultimately show ?thesis by simp
  next
    case (Some d)
    have f: "d \<in> fd_files k" by (rule fd_slot_file [OF k nn Some])
    then have m: "fd_magic (fd_at k d) = DFS_FD_MAGIC" "0 < fd_count k (nat n)" using inv(2,5,6) nn Some by (simp_all add: fd_count_def)
    have "\<not> (n < 0 \<or> n \<ge> int (maxfd k))" using True by linarith
    then have "fd_get cons fd k = (Some d, upd_fd d (\<lambda>f. f\<lparr>fd_ref_count := fd_ref_count f + 1\<rparr>) k)"
      unfolding fd_get_def Let_def n [symmetric] using Some m(1) l by (simp add: upd_fd_def)
    then show ?thesis using True m(2) nn Some by simp
  qed
qed

lemma fd_place_nth:
  assumes "i < length xs" "xs ! i = Some d" "\<And>j. j < length xs \<Longrightarrow> xs ! j = Some d \<Longrightarrow> j = i"
  shows "fd_place d idx xs = Some (idx + i)"
  using assms
proof (induction xs arbitrary: i idx)
  case (Cons s xs)
  show ?case
  proof (cases i)
    case (Suc m)
    have "s \<noteq> Some d" using Cons.prems(3) [of 0] Suc by auto
    moreover have "fd_place d (idx + 1) xs = Some (idx + 1 + m)"
    proof (rule Cons.IH)
      show "m < length xs" "xs ! m = Some d" using Cons.prems(1,2) Suc by simp_all
      show "j = m" if "j < length xs" "xs ! j = Some d" for j using Cons.prems(3) [of "Suc j"] that Suc by simp
    qed
    ultimately show ?thesis using Suc by simp
  qed (use Cons.prems(2) in simp)
qed simp

lemma fd_put_effect:
  assumes k: "fd_inv k" and i: "i < maxfd k" "fd_slots k ! i = Some d"
  shows "\<exists>k'. fd_put d k = Some k' \<and> fd_inv k' \<and> fd_frame k k' \<and> maxfd k' = maxfd k \<and> (\<forall>j. fd_count k' j = (if j = i then fd_count k j - 1 else fd_count k j))
    \<and> fd_slots k' = (if fd_count k i = 1 then (fd_slots k)[i := None] else fd_slots k)
    \<and> fd_at k' = (fd_at k)(d := (fd_at k d)\<lparr>fd_ref_count := fd_ref_count (fd_at k d) - 1\<rparr>)"
proof -
  note inv = fd_invD [OF k]
  have f: "d \<in> fd_files k" by (rule fd_slot_file [OF k i])
  have il: "i < length (fd_slots k)" using i(1) inv(2) by simp
  have c: "fd_count k i = fd_ref_count (fd_at k d)" using i(2) il by (simp add: fd_count_def)
  define k1 where "k1 = upd_fd d (\<lambda>f. f\<lparr>fd_ref_count := fd_ref_count f + - 1\<rparr>) k"
  have lk: "upd_fd d (\<lambda>f. f\<lparr>fd_ref_count := fd_ref_count f - 1\<rparr>) (dfs_lock k) = dfs_lock k1"
    by (simp add: k1_def dfs_lock_def upd_fd_def)
  have at1: "fd_at k1 = (fd_at k)(d := (fd_at k d)\<lparr>fd_ref_count := fd_ref_count (fd_at k d) - 1\<rparr>)" "fd_slots k1 = fd_slots k" "maxfd k1 = maxfd k"
      "fds k1 = fds k" "dev_heap k1 = dev_heap k" by (simp_all add: k1_def upd_fd_def)
  show ?thesis
  proof (cases "fd_ref_count (fd_at k d) = 1")
    case False
    then have n: "0 < fd_ref_count (fd_at k d) + - 1" using inv(5) [OF f] by simp
    note rc = fd_ref_change [OF k i n, folded k1_def]
    have "fd_put d k = Some k1" using False unfolding fd_put_def Let_def lk by (simp add: at1)
    then show ?thesis using rc at1 c False by auto
  next
    case True
    have pl: "fd_place d 0 (fd_slots k) = Some (0 + i)"
      by (rule fd_place_nth [OF il i(2)]) (use inv(2,4) i il in metis)
    obtain e where e: "(d, e) \<in> heap_live (dev_heap k)" using inv(7) [OF f] by blast
    obtain h where h: "dfs_free (Some d) (dfs_lock k1) = Some (with_heap (dfs_lock k1) h)" "heap_good h" "heap_live h = heap_live (dev_heap k) - {(d, e)}"
        "live_kept (dev_heap k) h"
      using dfs_free_block [of "dfs_lock k1" d e] inv(1) e by (auto simp: at1)
    define k' where "k' = k1\<lparr>dev_heap := h, fd_slots := (fd_slots k)[i := None]\<rparr>"
    have put: "fd_put d k = Some k'"
      using True pl h(1) unfolding fd_put_def Let_def lk by (simp add: at1 k'_def) (simp add: dfs_lock_def dfs_unlock_def)
    have sel: "fd_slots k' = (fd_slots k)[i := None]" "maxfd k' = maxfd k" "fds k' = fds k" "dev_heap k' = h" "fd_at k' = fd_at k1"
      by (simp_all add: k'_def at1)
    have u: "fd_slots k ! j = Some d \<Longrightarrow> j < maxfd k \<Longrightarrow> j = i" for j using inv(4) i by blast
    have ff: "fd_files k' = fd_files k - {d}"
    proof -
      have "Some x \<in> set ((fd_slots k)[i := None]) \<longleftrightarrow> Some x \<in> set (fd_slots k) \<and> x \<noteq> d" for x
      proof
        assume "Some x \<in> set ((fd_slots k)[i := None])"
        then obtain j where j: "j < length (fd_slots k)" "(fd_slots k)[i := None] ! j = Some x" by (auto simp: in_set_conv_nth)
        then have "j \<noteq> i" "fd_slots k ! j = Some x" using il by (auto simp: nth_list_update split: if_splits)
        then show "Some x \<in> set (fd_slots k) \<and> x \<noteq> d" using u [of j] j(1) inv(2) by (metis nth_mem)
      next
        assume a: "Some x \<in> set (fd_slots k) \<and> x \<noteq> d"
        then obtain j where j: "j < length (fd_slots k)" "fd_slots k ! j = Some x" by (auto simp: in_set_conv_nth)
        then have "i \<noteq> j" using a i(2) by auto
        then have "(fd_slots k)[i := None] ! j = Some x" using j(2) by simp
        then show "Some x \<in> set ((fd_slots k)[i := None])" using j(1) by (metis length_list_update nth_mem)
      qed
      then show ?thesis by (auto simp: fd_files_def sel)
    qed
    have ok: "heap_ok (dev_heap k)" using inv(1) by (simp add: heap_good_def)
    have nd: "fds k \<noteq> Some d" using inv(8) f by blast
    have ob: "other_blocks k' = other_blocks k"
    proof -
      have "(q, g) \<in> other_blocks k' \<longleftrightarrow> (q, g) \<in> other_blocks k" for q g
        using live_fun [OF ok e, of g] f h(3) nd by (auto simp: other_blocks_def fd_addrs_def ff sel)
      then show ?thesis by auto
    qed
    have "fd_frame k k'"
    proof (rule fd_frameI [OF _ ob])
      show "k' = k\<lparr>dev_heap := dev_heap k', fd_at := fd_at k', maxfd := maxfd k', fds := fds k', fd_slots := fd_slots k'\<rparr>"
        by (simp add: k'_def k1_def upd_fd_def)
      show "\<forall>(q, f) \<in> other_blocks k. \<forall>x. q \<le> x \<longrightarrow> x < f \<longrightarrow> bytes (dev_heap k') x = bytes (dev_heap k) x"
        using h(3,4) f by (fastforce simp: other_blocks_def fd_addrs_def live_kept_def sel)
    qed
    moreover have "fd_inv k'" unfolding fd_inv_def
    proof (intro conjI ballI allI impI)
      show "heap_good (dev_heap k')" "length (fd_slots k') = maxfd k'" "maxfd k' \<le> DFS_FD_MAX" using h(2) inv(2,3) by (simp_all add: sel)
      show "fds k' = None \<Longrightarrow> maxfd k' = 0" using inv(10) by (simp add: sel)
      fix a b x assume "a < maxfd k'" "b < maxfd k'" "fd_slots k' ! a = Some x" "fd_slots k' ! b = Some x"
      then show "a = b" using inv(4) [of a b x] il inv(2) by (auto simp: sel nth_list_update split: if_splits)
    next
      fix x assume x: "x \<in> fd_files k'"
      then show "0 < fd_ref_count (fd_at k' x)" "fd_magic (fd_at k' x) = DFS_FD_MAGIC" using inv(5,6) by (auto simp: ff sel at1)
      show "\<exists>e. (x, e) \<in> heap_live (dev_heap k') \<and> x + 36 \<le> e" using x inv(7) [of x] h(3) by (auto simp: ff sel)
    next
      fix a assume a: "fds k' = Some a"
      then show "a \<notin> fd_files k'" using inv(8) by (simp add: sel ff)
      have "a \<noteq> d" using a nd by (auto simp: sel)
      then show "\<exists>e. (a, e) \<in> heap_live (dev_heap k') \<and> a + 4 * maxfd k' \<le> e" using a inv(9) h(3) by (auto simp: sel)
    qed
    moreover have "fd_count k' j = (if j = i then fd_count k j - 1 else fd_count k j)" for j
    proof (cases "j = i")
      case True
      then show ?thesis using c \<open>fd_ref_count (fd_at k d) = 1\<close> il by (simp add: fd_count_def sel)
    next
      case False
      have "fd_slots k ! j \<noteq> Some d" if "j < length (fd_slots k)" using u [of j] that inv(2) False by auto
      then show ?thesis using False by (auto simp: fd_count_def sel at1 split: option.splits)
    qed
    ultimately show ?thesis using put True c at1 sel by auto
  qed
qed

end
