(* ===== verification/Dfs_Posix.thy ===== *)
theory Dfs_Posix
  imports Dfs_Fd
begin

text \<open>
  Open files through their descriptors, \<^verbatim>\<open>rt-thread/components/dfs/src/dfs_posix.c\<close> and the rest of \<^verbatim>\<open>dfs_file.c\<close>: every call
  takes a reference to the file, calls the operation of its file system and gives the reference back. The names \<open>open\<close>,
  \<open>close\<close> and so on of the C functions have the prefix \<open>posix\<close> here.
\<close>

section \<open>Opening and closing\<close>

definition posix_open :: "'a dfs_scheme dfs_code \<Rightarrow> int \<Rightarrow> cstring \<Rightarrow> u32 \<Rightarrow> 'a dfs_scheme \<Rightarrow> (int \<times> 'a dfs_scheme) option" where
  "posix_open code cons file flags k =
     do {
       (fd, k) \<leftarrow> fd_new k;
       if fd < 0 then Some (- 1, rt_set_errno (- ENOMEM) k)
       else
         do {
           let (d, k) = fd_get cons fd k;
           (result, k) \<leftarrow> dfs_file_open code d file flags k;
           if result < 0 then
             do { d \<leftarrow> d; k \<leftarrow> fd_put d k; k \<leftarrow> fd_put d k; Some (- 1, rt_set_errno result k) }
           else do { d \<leftarrow> d; k \<leftarrow> fd_put d k; Some (fd, k) }
         }
     }"

definition posix_close :: "'a dfs_scheme dfs_code \<Rightarrow> int \<Rightarrow> int \<Rightarrow> 'a dfs_scheme \<Rightarrow> (int \<times> 'a dfs_scheme) option" where
  "posix_close code cons fd k =
     (case fd_get cons fd k of
        (None, k) \<Rightarrow> Some (- 1, rt_set_errno (- EBADF) k)
      | (Some d, k) \<Rightarrow>
          do {
            (result, k) \<leftarrow> dfs_file_close code (Some d) k;
            k \<leftarrow> fd_put d k;
            if result < 0 then Some (- 1, rt_set_errno result k) else do { k \<leftarrow> fd_put d k; Some (0, k) }
          })"

section \<open>Operations on open files\<close>

definition file_op :: "'a dfs_scheme dfs_code \<Rightarrow> addr \<Rightarrow> 'a dfs_scheme \<Rightarrow> 'a dfs_scheme dfs_file_ops option" where
  "file_op code d k = map_option (file_code code) (fd_fops (fd_at k d))"

definition dfs_file_ioctl :: "'a dfs_scheme dfs_code \<Rightarrow> addr option \<Rightarrow> u32 \<Rightarrow> u32 \<Rightarrow> 'a dfs_scheme \<Rightarrow> (int \<times> 'a dfs_scheme) option" where
  "dfs_file_ioctl code fd cmd args k =
     (case fd of None \<Rightarrow> Some (- EINVAL, k)
      | Some d \<Rightarrow>
          if fd_type (fd_at k d) = FT_REGULAR \<and> cmd = F_GETFL then Some (sint (fd_flags (fd_at k d)), k)
          else if fd_type (fd_at k d) = FT_REGULAR \<and> cmd = F_SETFL then
            let mask = O_NONBLOCK OR O_APPEND
            in Some (0, upd_fd d (\<lambda>f. f\<lparr>fd_flags := (fd_flags f AND NOT mask) OR (args AND mask)\<rparr>) k)
          else do { fo \<leftarrow> file_op code d k; Some (case op_ioctl fo of None \<Rightarrow> (- ENOSYS, k) | Some f \<Rightarrow> f d cmd args k) })"

definition dfs_file_read :: "'a dfs_scheme dfs_code \<Rightarrow> addr option \<Rightarrow> addr \<Rightarrow> u32 \<Rightarrow> 'a dfs_scheme \<Rightarrow> (int \<times> 'a dfs_scheme) option" where
  "dfs_file_read code fd buf len k =
     (case fd of None \<Rightarrow> Some (- EINVAL, k)
      | Some d \<Rightarrow>
          do {
            fo \<leftarrow> file_op code d k;
            Some (case op_read fo of
                None \<Rightarrow> (- ENOSYS, k)
              | Some f \<Rightarrow> (case f d buf len k of (result, k) \<Rightarrow>
                  (result, if result < 0 then upd_fd d (\<lambda>f. f\<lparr>fd_flags := fd_flags f OR DFS_F_EOF\<rparr>) k else k)))
          })"

definition dfs_file_write :: "'a dfs_scheme dfs_code \<Rightarrow> addr option \<Rightarrow> addr \<Rightarrow> u32 \<Rightarrow> 'a dfs_scheme \<Rightarrow> (int \<times> 'a dfs_scheme) option" where
  "dfs_file_write code fd buf len k =
     (case fd of None \<Rightarrow> Some (- EINVAL, k)
      | Some d \<Rightarrow> do { fo \<leftarrow> file_op code d k; Some (case op_write fo of None \<Rightarrow> (- ENOSYS, k) | Some f \<Rightarrow> f d buf len k) })"

definition dfs_file_flush :: "'a dfs_scheme dfs_code \<Rightarrow> addr option \<Rightarrow> 'a dfs_scheme \<Rightarrow> (int \<times> 'a dfs_scheme) option" where
  "dfs_file_flush code fd k =
     (case fd of None \<Rightarrow> Some (- EINVAL, k)
      | Some d \<Rightarrow> do { fo \<leftarrow> file_op code d k; Some (case op_flush fo of None \<Rightarrow> (- ENOSYS, k) | Some f \<Rightarrow> f d k) })"

definition dfs_file_lseek :: "'a dfs_scheme dfs_code \<Rightarrow> addr option \<Rightarrow> int \<Rightarrow> 'a dfs_scheme \<Rightarrow> (int \<times> 'a dfs_scheme) option" where
  "dfs_file_lseek code fd offset k =
     (case fd of None \<Rightarrow> Some (- EINVAL, k)
      | Some d \<Rightarrow>
          do {
            fo \<leftarrow> file_op code d k;
            Some (case op_lseek fo of
                None \<Rightarrow> (- ENOSYS, k)
              | Some f \<Rightarrow> (case f d offset k of (result, k) \<Rightarrow>
                  (result, if result \<ge> 0 then upd_fd d (\<lambda>f. f\<lparr>fd_pos := result\<rparr>) k else k)))
          })"

definition dfs_file_getdents :: "'a dfs_scheme dfs_code \<Rightarrow> addr option \<Rightarrow> addr \<Rightarrow> u32 \<Rightarrow> 'a dfs_scheme \<Rightarrow> (int \<times> 'a dfs_scheme) option" where
  "dfs_file_getdents code fd dirp nbytes k =
     (case fd of None \<Rightarrow> Some (- EINVAL, k)
      | Some d \<Rightarrow>
          if fd_type (fd_at k d) \<noteq> FT_DIRECTORY then Some (- EINVAL, k)
          else do { fo \<leftarrow> file_op code d k; Some (case op_getdents fo of None \<Rightarrow> (- ENOSYS, k) | Some f \<Rightarrow> f d dirp nbytes k) })"

text \<open>The operation gets the address of \<open>length\<close>, here its value.\<close>

definition dfs_file_ftruncate :: "'a dfs_scheme dfs_code \<Rightarrow> addr option \<Rightarrow> int \<Rightarrow> 'a dfs_scheme \<Rightarrow> (int \<times> 'a dfs_scheme) option" where
  "dfs_file_ftruncate code fd len k =
     (case fd of None \<Rightarrow> Some (- EINVAL, k)
      | Some d \<Rightarrow>
          if fd_type (fd_at k d) \<noteq> FT_REGULAR \<or> len < 0 then Some (- EINVAL, k)
          else
            do {
              fo \<leftarrow> file_op code d k;
              Some (case op_ioctl fo of
                  None \<Rightarrow> (- ENOSYS, k)
                | Some f \<Rightarrow> (case f d RT_FIOFTRUNCATE (word_of_int len) k of (result, k) \<Rightarrow>
                    (result, if result = 0 then upd_fd d (\<lambda>f. f\<lparr>fd_size := word_of_int len\<rparr>) k else k)))
            })"

section \<open>Operations on names\<close>

text \<open>Whether a file in a file system is open, by its name below the mount point.\<close>

fun is_open_loop :: "memory \<Rightarrow> (addr \<Rightarrow> dfs_fd) \<Rightarrow> nat \<Rightarrow> cstring \<Rightarrow> addr option list \<Rightarrow> bool option" where
  "is_open_loop m at i mountpath [] = Some False"
| "is_open_loop m at i mountpath (s # rest) =
     (case s of
        None \<Rightarrow> is_open_loop m at i mountpath rest
      | Some d \<Rightarrow>
          (case (fd_fops (at d), fd_path (at d)) of
             (Some _, Some p) \<Rightarrow>
               if fd_fs (at d) = Some i then
                 do { name \<leftarrow> cstring_at m p; if rt_strcmp name mountpath = 0 then Some True else is_open_loop m at i mountpath rest }
               else is_open_loop m at i mountpath rest
           | _ \<Rightarrow> is_open_loop m at i mountpath rest))"

definition fd_is_open :: "cstring \<Rightarrow> 'a dfs_scheme \<Rightarrow> (int \<times> 'a dfs_scheme) option" where
  "fd_is_open pathname k =
     do {
       (fullpath, k) \<leftarrow> dfs_full_path pathname k;
       case fullpath of
         None \<Rightarrow> Some (- 1, k)
       | Some p \<Rightarrow>
           do {
             s \<leftarrow> cstring_at (bytes (dev_heap k)) p;
             (fs, k) \<leftarrow> dfs_filesystem_lookup s k;
             case fs of
               None \<Rightarrow> do { k \<leftarrow> dfs_free (Some p) k; Some (- 1, k) }
             | Some i \<Rightarrow>
                 do {
                   fspath \<leftarrow> path (filesystem_table k ! i);
                   t \<leftarrow> cstring_at (bytes (dev_heap k)) fspath;
                   let mountpath = (if t = [slash] then s else drop (rt_strlen t) s);
                   let k = dfs_lock k;
                   found \<leftarrow> is_open_loop (bytes (dev_heap k)) (fd_at k) i mountpath (fd_slots k);
                   if found then do { k \<leftarrow> dfs_free (Some p) k; Some (0, dfs_unlock k) }
                   else do { k \<leftarrow> dfs_free (Some p) (dfs_unlock k); Some (- 1, k) }
                 }
           }
     }"

text \<open>The name that a file system gets for a path: all of it, or what \<open>dfs_subdir\<close> leaves, which is null for the mount point.\<close>

definition fs_name :: "'a dfs_scheme dfs_code \<Rightarrow> nat \<Rightarrow> nat \<Rightarrow> cstring \<Rightarrow> 'a dfs_scheme \<Rightarrow> cstring option option" where
  "fs_name code i t fullpath k =
     (if ops_flags (fs_code code t) AND DFS_FS_FLAG_FULLPATH \<noteq> 0 then Some (Some fullpath)
      else
        do {
          p \<leftarrow> path (filesystem_table k ! i);
          fspath \<leftarrow> cstring_at (bytes (dev_heap k)) p;
          Some (map_option (\<lambda>n. drop n fullpath) (dfs_subdir fspath fullpath))
        })"

definition dfs_file_unlink :: "'a dfs_scheme dfs_code \<Rightarrow> cstring \<Rightarrow> 'a dfs_scheme \<Rightarrow> (int \<times> 'a dfs_scheme) option" where
  "dfs_file_unlink code name k =
     do {
       (fullpath, k) \<leftarrow> dfs_full_path name k;
       case fullpath of
         None \<Rightarrow> Some (- EINVAL, k)
       | Some p \<Rightarrow>
           do {
             s \<leftarrow> cstring_at (bytes (dev_heap k)) p;
             (fs, k) \<leftarrow> dfs_filesystem_lookup s k;
             (result, k) \<leftarrow>
               (case fs of
                  None \<Rightarrow> Some (- ENOENT, k)
                | Some i \<Rightarrow>
                    do {
                      (open, k) \<leftarrow> fd_is_open s k;
                      if open = 0 then Some (- EBUSY, k)
                      else
                        do {
                          t \<leftarrow> ops (filesystem_table k ! i);
                          case op_unlink (fs_code code t) of
                            None \<Rightarrow> Some (- ENOSYS, k)
                          | Some f \<Rightarrow> do { n \<leftarrow> fs_name code i t s k; Some (f i (case n of None \<Rightarrow> [slash] | Some n \<Rightarrow> n) k) }
                        }
                    });
             k \<leftarrow> dfs_free (Some p) k;
             Some (result, k)
           }
     }"

text \<open>The mount points are directories whose fields \<open>dfs_file_stat\<close> fills in itself: mode, size and time.\<close>

definition mount_point_stat :: "u32 \<times> u32 \<times> nat" where
  "mount_point_stat = (0x41ff, 0, 0)"

definition dfs_file_stat :: "'a dfs_scheme dfs_code \<Rightarrow> cstring \<Rightarrow> addr \<Rightarrow> 'a dfs_scheme \<Rightarrow> (int \<times> (u32 \<times> u32 \<times> nat) option \<times> 'a dfs_scheme) option" where
  "dfs_file_stat code name buf k =
     do {
       (fullpath, k) \<leftarrow> dfs_full_path name k;
       case fullpath of
         None \<Rightarrow> Some (- 1, None, k)
       | Some p \<Rightarrow>
           do {
             s \<leftarrow> cstring_at (bytes (dev_heap k)) p;
             (fs, k) \<leftarrow> dfs_filesystem_lookup s k;
             (result, st, k) \<leftarrow>
               (case fs of
                  None \<Rightarrow> Some (- ENOENT, None, k)
                | Some i \<Rightarrow>
                    do {
                      q \<leftarrow> path (filesystem_table k ! i);
                      fspath \<leftarrow> cstring_at (bytes (dev_heap k)) q;
                      if s = [slash] \<or> dfs_subdir fspath s = None then Some (0, Some mount_point_stat, k)
                      else
                        do {
                          t \<leftarrow> ops (filesystem_table k ! i);
                          case op_stat (fs_code code t) of
                            None \<Rightarrow> Some (- ENOSYS, None, k)
                          | Some f \<Rightarrow> do { n \<leftarrow> fs_name code i t s k; n \<leftarrow> n; case f i n buf k of (result, k) \<Rightarrow> Some (result, None, k) }
                        }
                    });
             k \<leftarrow> dfs_free (Some p) k;
             Some (result, st, k)
           }
     }"

definition dfs_file_rename :: "'a dfs_scheme dfs_code \<Rightarrow> cstring \<Rightarrow> cstring \<Rightarrow> 'a dfs_scheme \<Rightarrow> (int \<times> 'a dfs_scheme) option" where
  "dfs_file_rename code oldpath newpath k =
     do {
       (oldfullpath, k) \<leftarrow> dfs_full_path oldpath k;
       case oldfullpath of
         None \<Rightarrow> Some (- ENOENT, k)
       | Some p \<Rightarrow>
           do {
             (newfullpath, k) \<leftarrow> dfs_full_path newpath k;
             (result, k) \<leftarrow>
               (case newfullpath of
                  None \<Rightarrow> Some (- ENOENT, k)
                | Some q \<Rightarrow>
                    do {
                      s \<leftarrow> cstring_at (bytes (dev_heap k)) p;
                      u \<leftarrow> cstring_at (bytes (dev_heap k)) q;
                      (oldfs, k) \<leftarrow> dfs_filesystem_lookup s k;
                      (newfs, k) \<leftarrow> dfs_filesystem_lookup u k;
                      if oldfs \<noteq> newfs then Some (- EXDEV, k)
                      else
                        do {
                          i \<leftarrow> oldfs;
                          t \<leftarrow> ops (filesystem_table k ! i);
                          case op_rename (fs_code code t) of
                            None \<Rightarrow> Some (- ENOSYS, k)
                          | Some f \<Rightarrow> do { a \<leftarrow> fs_name code i t s k; b \<leftarrow> fs_name code i t u k; Some (f i a b k) }
                        }
                    });
             k \<leftarrow> dfs_free (Some p) k;
             k \<leftarrow> dfs_free newfullpath k;
             Some (result, k)
           }
     }"

section \<open>The calls\<close>

text \<open>A call on a descriptor.\<close>

definition with_fd :: "int \<Rightarrow> int \<Rightarrow> (addr \<Rightarrow> 'a dfs_scheme \<Rightarrow> (int \<times> 'a dfs_scheme) option) \<Rightarrow> 'a dfs_scheme \<Rightarrow> (int \<times> 'a dfs_scheme) option" where
  "with_fd cons fd f k =
     (case fd_get cons fd k of
        (None, k) \<Rightarrow> Some (- 1, rt_set_errno (- EBADF) k)
      | (Some d, k) \<Rightarrow>
          do {
            (result, k) \<leftarrow> f d k;
            k \<leftarrow> fd_put d k;
            Some (if result < 0 then (- 1, rt_set_errno result k) else (result, k))
          })"

definition posix_read :: "'a dfs_scheme dfs_code \<Rightarrow> int \<Rightarrow> int \<Rightarrow> addr \<Rightarrow> u32 \<Rightarrow> 'a dfs_scheme \<Rightarrow> (int \<times> 'a dfs_scheme) option" where
  "posix_read code cons fd buf len k = with_fd cons fd (\<lambda>d. dfs_file_read code (Some d) buf len) k"

definition posix_write :: "'a dfs_scheme dfs_code \<Rightarrow> int \<Rightarrow> int \<Rightarrow> addr \<Rightarrow> u32 \<Rightarrow> 'a dfs_scheme \<Rightarrow> (int \<times> 'a dfs_scheme) option" where
  "posix_write code cons fd buf len k = with_fd cons fd (\<lambda>d. dfs_file_write code (Some d) buf len) k"

abbreviation (input) SEEK_SET :: int where "SEEK_SET \<equiv> 0"
abbreviation (input) SEEK_CUR :: int where "SEEK_CUR \<equiv> 1"
abbreviation (input) SEEK_END :: int where "SEEK_END \<equiv> 2"

definition posix_lseek :: "'a dfs_scheme dfs_code \<Rightarrow> int \<Rightarrow> int \<Rightarrow> int \<Rightarrow> int \<Rightarrow> 'a dfs_scheme \<Rightarrow> (int \<times> 'a dfs_scheme) option" where
  "posix_lseek code cons fd offset whence k =
     with_fd cons fd (\<lambda>d k.
       let target = (if whence = SEEK_SET then Some offset
           else if whence = SEEK_CUR then Some (int32 (offset + fd_pos (fd_at k d)))
           else if whence = SEEK_END then Some (int32 (offset + uint (fd_size (fd_at k d))))
           else None)
       in case target of
            None \<Rightarrow> Some (- EINVAL, k)
          | Some offset \<Rightarrow>
              if offset < 0 then Some (- EINVAL, k)
              else do { (result, k) \<leftarrow> dfs_file_lseek code (Some d) offset k; Some (if result < 0 then result else offset, k) }) k"

definition posix_fsync :: "'a dfs_scheme dfs_code \<Rightarrow> int \<Rightarrow> int \<Rightarrow> 'a dfs_scheme \<Rightarrow> (int \<times> 'a dfs_scheme) option" where
  "posix_fsync code cons fildes k =
     (case fd_get cons fildes k of
        (None, k) \<Rightarrow> Some (- 1, rt_set_errno (- EBADF) k)
      | (Some d, k) \<Rightarrow> do { (ret, k) \<leftarrow> dfs_file_flush code (Some d) k; k \<leftarrow> fd_put d k; Some (ret, k) })"

definition posix_fcntl :: "'a dfs_scheme dfs_code \<Rightarrow> int \<Rightarrow> int \<Rightarrow> u32 \<Rightarrow> u32 \<Rightarrow> 'a dfs_scheme \<Rightarrow> (int \<times> 'a dfs_scheme) option" where
  "posix_fcntl code cons fildes cmd arg k = with_fd cons fildes (\<lambda>d. dfs_file_ioctl code (Some d) cmd arg) k"

definition posix_ftruncate :: "'a dfs_scheme dfs_code \<Rightarrow> int \<Rightarrow> int \<Rightarrow> int \<Rightarrow> 'a dfs_scheme \<Rightarrow> (int \<times> 'a dfs_scheme) option" where
  "posix_ftruncate code cons fd len k =
     with_fd cons fd (\<lambda>d k.
       if len < 0 then Some (- EINVAL, k)
       else do { (result, k) \<leftarrow> dfs_file_ftruncate code (Some d) len k; Some (if result < 0 then result else 0, k) }) k"

text \<open>What \<open>fstat\<close> fills in: mode, size and time.\<close>

definition posix_fstat :: "int \<Rightarrow> int \<Rightarrow> 'a dfs_scheme \<Rightarrow> (int \<times> (u32 \<times> u32 \<times> nat) option \<times> 'a dfs_scheme) option" where
  "posix_fstat cons fildes k =
     (case fd_get cons fildes k of
        (None, k) \<Rightarrow> Some (- 1, None, rt_set_errno (- EBADF) k)
      | (Some d, k) \<Rightarrow>
          do {
            let st = (if fd_type (fd_at k d) = FT_DIRECTORY then 0x41ff else 0x81b6, fd_size (fd_at k d), 0);
            k \<leftarrow> fd_put d k;
            Some (0, Some st, k)
          })"

text \<open>A call on a name.\<close>

definition name_result :: "int \<times> 'a dfs_scheme \<Rightarrow> int \<times> 'a dfs_scheme" where
  "name_result = (\<lambda>(result, k). if result < 0 then (- 1, rt_set_errno result k) else (0, k))"

definition posix_rename :: "'a dfs_scheme dfs_code \<Rightarrow> cstring \<Rightarrow> cstring \<Rightarrow> 'a dfs_scheme \<Rightarrow> (int \<times> 'a dfs_scheme) option" where
  "posix_rename code old_file new_file k = map_option name_result (dfs_file_rename code old_file new_file k)"

definition posix_unlink :: "'a dfs_scheme dfs_code \<Rightarrow> cstring \<Rightarrow> 'a dfs_scheme \<Rightarrow> (int \<times> 'a dfs_scheme) option" where
  "posix_unlink code pathname k = map_option name_result (dfs_file_unlink code pathname k)"

definition posix_rmdir :: "'a dfs_scheme dfs_code \<Rightarrow> cstring \<Rightarrow> 'a dfs_scheme \<Rightarrow> (int \<times> 'a dfs_scheme) option" where
  "posix_rmdir code pathname k = map_option name_result (dfs_file_unlink code pathname k)"

definition posix_stat :: "'a dfs_scheme dfs_code \<Rightarrow> cstring \<Rightarrow> addr \<Rightarrow> 'a dfs_scheme \<Rightarrow> (int \<times> (u32 \<times> u32 \<times> nat) option \<times> 'a dfs_scheme) option" where
  "posix_stat code file buf k =
     map_option (\<lambda>(result, st, k). if result < 0 then (- 1, st, rt_set_errno result k) else (result, st, k)) (dfs_file_stat code file buf k)"

definition posix_access :: "'a dfs_scheme dfs_code \<Rightarrow> cstring \<Rightarrow> addr \<Rightarrow> 'a dfs_scheme \<Rightarrow> (int \<times> 'a dfs_scheme) option" where
  "posix_access code name sb k = map_option (\<lambda>(result, _, k). (if result < 0 then - 1 else 0, k)) (posix_stat code name sb k)"

definition posix_statfs :: "'a dfs_scheme dfs_code \<Rightarrow> cstring \<Rightarrow> addr \<Rightarrow> 'a dfs_scheme \<Rightarrow> (int \<times> 'a dfs_scheme) option" where
  "posix_statfs code name buf k =
     map_option (\<lambda>(result, k). if result < 0 then (- 1, rt_set_errno result k) else (result, k)) (dfs_statfs code name buf k)"

definition posix_mkdir :: "'a dfs_scheme dfs_code \<Rightarrow> int \<Rightarrow> cstring \<Rightarrow> 'a dfs_scheme \<Rightarrow> (int \<times> 'a dfs_scheme) option" where
  "posix_mkdir code cons name k =
     do {
       (fd, k) \<leftarrow> fd_new k;
       if fd = - 1 then Some (- 1, rt_set_errno (- ENOMEM) k)
       else
         do {
           let (d, k) = fd_get cons fd k;
           (result, k) \<leftarrow> dfs_file_open code d name (O_DIRECTORY OR O_CREAT) k;
           d \<leftarrow> d;
           if result < 0 then do { k \<leftarrow> fd_put d k; k \<leftarrow> fd_put d k; Some (- 1, rt_set_errno result k) }
           else do { (_, k) \<leftarrow> dfs_file_close code (Some d) k; k \<leftarrow> fd_put d k; k \<leftarrow> fd_put d k; Some (0, k) }
         }
     }"

section \<open>Directories\<close>

text \<open>A \<^verbatim>\<open>DIR\<close> is a block of 524 bytes; its buffer stays in the memory, its other fields are here.\<close>

record dfs_dir =
  dir_fd :: int
  dir_num :: int
  dir_cur :: int

record dfs_dirs = dfs +
  dir_at :: "addr \<Rightarrow> dfs_dir"

definition posix_opendir :: "'a dfs_dirs_scheme dfs_code \<Rightarrow> int \<Rightarrow> cstring \<Rightarrow> 'a dfs_dirs_scheme \<Rightarrow> (addr option \<times> 'a dfs_dirs_scheme) option" where
  "posix_opendir code cons name k =
     do {
       (fd, k) \<leftarrow> fd_new k;
       if fd = - 1 then Some (None, rt_set_errno (- ENOMEM) k)
       else
         do {
           let (d, k) = fd_get cons fd k;
           (result, k) \<leftarrow> dfs_file_open code d name (O_RDONLY OR O_DIRECTORY) k;
           d \<leftarrow> d;
           if result < 0 then do { k \<leftarrow> fd_put d k; k \<leftarrow> fd_put d k; Some (None, rt_set_errno result k) }
           else
             do {
               (t, h) \<leftarrow> rt_malloc 524 (dev_heap k);
               let k = k\<lparr>dev_heap := h\<rparr>;
               k \<leftarrow> (case t of
                   None \<Rightarrow> do { (_, k) \<leftarrow> dfs_file_close code (Some d) k; fd_put d k }
                 | Some t \<Rightarrow> Some (k\<lparr>dev_heap := h\<lparr>bytes := (\<lambda>a. if t \<le> a \<and> a < t + 524 then 0 else bytes h a)\<rparr>,
                      dir_at := (dir_at k)(t := \<lparr>dir_fd = fd, dir_num = 0, dir_cur = 0\<rparr>)\<rparr>));
               k \<leftarrow> fd_put d k;
               Some (t, k)
             }
         }
     }"

definition upd_dir :: "addr \<Rightarrow> (dfs_dir \<Rightarrow> dfs_dir) \<Rightarrow> 'a dfs_dirs_scheme \<Rightarrow> 'a dfs_dirs_scheme" where
  "upd_dir t f k = k\<lparr>dir_at := (dir_at k)(t := f (dir_at k t))\<rparr>"

text \<open>The entry at \<open>cur\<close>, and its length, the 16 bits behind its first two bytes.\<close>

definition dir_entry :: "addr \<Rightarrow> 'a dfs_dirs_scheme \<Rightarrow> addr" where
  "dir_entry t k = t + 4 + nat (dir_cur (dir_at k t))"

definition d_reclen :: "addr \<Rightarrow> memory \<Rightarrow> int" where
  "d_reclen a m = uint (m (a + 2)) + 256 * uint (m (a + 3))"

definition posix_readdir :: "'a dfs_dirs_scheme dfs_code \<Rightarrow> int \<Rightarrow> addr \<Rightarrow> 'a dfs_dirs_scheme \<Rightarrow> (addr option \<times> 'a dfs_dirs_scheme) option" where
  "posix_readdir code cons t k =
     (case fd_get cons (dir_fd (dir_at k t)) k of
        (None, k) \<Rightarrow> Some (None, rt_set_errno (- EBADF) k)
      | (Some d, k) \<Rightarrow>
          let k = (if dir_num (dir_at k t) \<noteq> 0 then
                upd_dir t (\<lambda>s. s\<lparr>dir_cur := dir_cur s + d_reclen (dir_entry t k) (bytes (dev_heap k))\<rparr>) k else k)
          in if dir_num (dir_at k t) = 0 \<or> dir_cur (dir_at k t) \<ge> dir_num (dir_at k t) then
               do {
                 (result, k) \<leftarrow> dfs_file_getdents code (Some d) (t + 4) 511 k;
                 if result \<le> 0 then do { k \<leftarrow> fd_put d k; Some (None, rt_set_errno result k) }
                 else do { k \<leftarrow> fd_put d (upd_dir t (\<lambda>s. s\<lparr>dir_num := result, dir_cur := 0\<rparr>) k); Some (Some (dir_entry t k), k) }
               }
             else do { k \<leftarrow> fd_put d k; Some (Some (dir_entry t k), k) })"

definition posix_telldir :: "int \<Rightarrow> addr \<Rightarrow> 'a dfs_dirs_scheme \<Rightarrow> (int \<times> 'a dfs_dirs_scheme) option" where
  "posix_telldir cons t k =
     (case fd_get cons (dir_fd (dir_at k t)) k of
        (None, k) \<Rightarrow> Some (0, rt_set_errno (- EBADF) k)
      | (Some d, k) \<Rightarrow>
          do {
            let result = fd_pos (fd_at k d) - dir_num (dir_at k t) + dir_cur (dir_at k t);
            k \<leftarrow> fd_put d k;
            Some (result, k)
          })"

definition posix_seekdir :: "'a dfs_dirs_scheme dfs_code \<Rightarrow> int \<Rightarrow> addr \<Rightarrow> int \<Rightarrow> 'a dfs_dirs_scheme \<Rightarrow> 'a dfs_dirs_scheme option" where
  "posix_seekdir code cons t offset k =
     (case fd_get cons (dir_fd (dir_at k t)) k of
        (None, k) \<Rightarrow> Some (rt_set_errno (- EBADF) k)
      | (Some d, k) \<Rightarrow>
          do {
            (result, k) \<leftarrow> dfs_file_lseek code (Some d) offset k;
            fd_put d (if result \<ge> 0 then upd_dir t (\<lambda>s. s\<lparr>dir_num := 0, dir_cur := 0\<rparr>) k else k)
          })"

definition posix_rewinddir :: "'a dfs_dirs_scheme dfs_code \<Rightarrow> int \<Rightarrow> addr \<Rightarrow> 'a dfs_dirs_scheme \<Rightarrow> 'a dfs_dirs_scheme option" where
  "posix_rewinddir code cons t k = posix_seekdir code cons t 0 k"

definition posix_closedir :: "'a dfs_dirs_scheme dfs_code \<Rightarrow> int \<Rightarrow> addr \<Rightarrow> 'a dfs_dirs_scheme \<Rightarrow> (int \<times> 'a dfs_dirs_scheme) option" where
  "posix_closedir code cons t k =
     (case fd_get cons (dir_fd (dir_at k t)) k of
        (None, k) \<Rightarrow> Some (- 1, rt_set_errno (- EBADF) k)
      | (Some d, k) \<Rightarrow>
          do {
            (result, k) \<leftarrow> dfs_file_close code (Some d) k;
            k \<leftarrow> fd_put d k;
            k \<leftarrow> fd_put d k;
            k \<leftarrow> dfs_free (Some t) k;
            Some (if result < 0 then (- 1, rt_set_errno result k) else (0, k))
          })"

text \<open>The working directory has 256 bytes. A name that fills them leaves it without an end, which has no value here.\<close>

definition posix_chdir :: "'a dfs_dirs_scheme dfs_code \<Rightarrow> int \<Rightarrow> cstring \<Rightarrow> 'a dfs_dirs_scheme \<Rightarrow> (int \<times> 'a dfs_dirs_scheme) option" where
  "posix_chdir code cons name k =
     (if rt_strlen name > 256 then Some (- 1, rt_set_errno (- ENOTDIR) k)
      else
        do {
          (fullpath, k) \<leftarrow> dfs_full_path name k;
          case fullpath of
            None \<Rightarrow> Some (- 1, rt_set_errno (- ENOTDIR) k)
          | Some p \<Rightarrow>
              do {
                s \<leftarrow> cstring_at (bytes (dev_heap k)) p;
                (d, k) \<leftarrow> posix_opendir code cons s (dfs_lock k);
                case d of
                  None \<Rightarrow> do { k \<leftarrow> dfs_free (Some p) k; Some (- 1, dfs_unlock k) }
                | Some t \<Rightarrow>
                    do {
                      (_, k) \<leftarrow> posix_closedir code cons t k;
                      k \<leftarrow> (if length s < 256 then Some (k\<lparr>working_directory := s\<rparr>) else None);
                      k \<leftarrow> dfs_free (Some p) k;
                      Some (0, dfs_unlock k)
                    }
              }
        })"

definition posix_getcwd :: "nat \<Rightarrow> 'a dfs_scheme \<Rightarrow> cstring" where
  "posix_getcwd sz k = rt_strncpy (working_directory k) sz"

section \<open>The invariant\<close>

text \<open>The paths of the mounted file systems and of the open files are blocks of their own, outside of the table of files.\<close>

definition path_at :: "'a dfs_scheme \<Rightarrow> addr \<Rightarrow> bool" where
  "path_at k p \<longleftrightarrow> (\<exists>e. (p, e) \<in> other_blocks k)"

definition mount_paths :: "'a dfs_scheme \<Rightarrow> addr set" where
  "mount_paths k = {p. \<exists>f \<in> set (filesystem_table k). path f = Some p}"

definition mounts_inv :: "'a dfs_scheme \<Rightarrow> bool" where
  "mounts_inv k \<longleftrightarrow> mounts_ok k \<and> (\<forall>f \<in> set (filesystem_table k). \<forall>st p. mounted_on (bytes (dev_heap k)) f st \<longrightarrow> path f = Some p
     \<longrightarrow> (\<exists>e. (p, e) \<in> other_blocks k \<and> p + length (text_of st) < e))"

definition dfs_inv :: "'a dfs_scheme \<Rightarrow> bool" where
  "dfs_inv k \<longleftrightarrow> fd_inv k \<and> mounts_inv k
     \<and> (\<forall>d \<in> fd_files k. \<forall>p. fd_path (fd_at k d) = Some p \<longrightarrow> path_at k p \<and> p \<notin> mount_paths k)
     \<and> (\<forall>d \<in> fd_files k. \<forall>d' \<in> fd_files k. \<forall>p. fd_path (fd_at k d) = Some p \<longrightarrow> fd_path (fd_at k d') = Some p \<longrightarrow> d = d')"

lemma dfs_invD:
  assumes "dfs_inv k"
  shows "fd_inv k" "mounts_inv k" "mounts_live k"
    "\<And>d p. d \<in> fd_files k \<Longrightarrow> fd_path (fd_at k d) = Some p \<Longrightarrow> path_at k p \<and> p \<notin> mount_paths k"
    "\<And>d d' p. d \<in> fd_files k \<Longrightarrow> d' \<in> fd_files k \<Longrightarrow> fd_path (fd_at k d) = Some p \<Longrightarrow> fd_path (fd_at k d') = Some p \<Longrightarrow> d = d'"
proof -
  show "fd_inv k" "mounts_inv k" using assms by (simp_all add: dfs_inv_def)
  then show "mounts_live k" using fd_invD(1) [of k] unfolding mounts_inv_def mounts_live_def other_blocks_def by blast
  show "\<And>d p. d \<in> fd_files k \<Longrightarrow> fd_path (fd_at k d) = Some p \<Longrightarrow> path_at k p \<and> p \<notin> mount_paths k"
    "\<And>d d' p. d \<in> fd_files k \<Longrightarrow> d' \<in> fd_files k \<Longrightarrow> fd_path (fd_at k d) = Some p \<Longrightarrow> fd_path (fd_at k d') = Some p \<Longrightarrow> d = d'"
    using assms unfolding dfs_inv_def by blast+
qed

text \<open>The blocks that the mount points stand in and their contents.\<close>

definition mounts_kept :: "'a dfs_scheme \<Rightarrow> 'a dfs_scheme \<Rightarrow> bool" where
  "mounts_kept k k' \<longleftrightarrow> filesystem_table k' = filesystem_table k
     \<and> (\<forall>(q, f) \<in> other_blocks k. q \<in> mount_paths k \<longrightarrow> (q, f) \<in> other_blocks k' \<and> (\<forall>x. q \<le> x \<longrightarrow> x < f \<longrightarrow> bytes (dev_heap k') x = bytes (dev_heap k) x))"

lemma mounts_inv_kept:
  assumes k: "mounts_inv k" and kk: "mounts_kept k k'"
  shows "mounts_inv k'" "mounted k' = mounted k"
proof -
  have T: "filesystem_table k' = filesystem_table k" using kk by (simp add: mounts_kept_def)
  have fw: "mounted_on (bytes (dev_heap k')) f st \<and> (\<forall>p. path f = Some p \<longrightarrow> (\<exists>e. (p, e) \<in> other_blocks k' \<and> p + length (text_of st) < e))"
    if f: "f \<in> set (filesystem_table k)" and m: "mounted_on (bytes (dev_heap k)) f st" for f st
  proof -
    obtain p where p: "path f = Some p" "str_at (bytes (dev_heap k)) p (text_of st)" using m by (auto simp: mounted_on_def)
    obtain e where e: "(p, e) \<in> other_blocks k" "p + length (text_of st) < e" using k f p(1) m unfolding mounts_inv_def by blast
    have b: "(p, e) \<in> other_blocks k'" "\<forall>x. p \<le> x \<longrightarrow> x < e \<longrightarrow> bytes (dev_heap k') x = bytes (dev_heap k) x"
      using kk e(1) f p(1) unfolding mounts_kept_def mount_paths_def by blast+
    have "str_at (bytes (dev_heap k')) p (text_of st)" by (rule str_at_cong [OF p(2)]) (use b(2) e(2) in auto)
    then show ?thesis using m p(1) b(1) e(2) by (auto simp: mounted_on_def)
  qed
  have bw: "mounted_on (bytes (dev_heap k)) f st" if f: "f \<in> set (filesystem_table k)" and m: "mounted_on (bytes (dev_heap k')) f st" for f st
  proof -
    have "entry_ok (bytes (dev_heap k)) f" using k f by (simp add: mounts_inv_def mounts_ok_def)
    then obtain st' where st': "mounted_on (bytes (dev_heap k)) f st'" using m by (auto simp: entry_ok_def mounted_on_def)
    then have "st' = st" using fw [OF f st'] m mounted_on_unique by blast
    then show ?thesis using st' by simp
  qed
  show "mounted k' = mounted k" using fw bw by (fastforce simp: fun_eq_iff mounted_def T)
  have "mounts_ok k'" using k fw unfolding mounts_inv_def mounts_ok_def entry_ok_def T by blast
  then show "mounts_inv k'" unfolding mounts_inv_def T using bw fw by blast
qed

lemma mounts_kept_trans:
  assumes "mounts_kept k k1" "mounts_kept k1 k2"
  shows "mounts_kept k k2"
proof -
  have "mount_paths k1 = mount_paths k" using assms(1) by (simp add: mounts_kept_def mount_paths_def)
  then show ?thesis using assms unfolding mounts_kept_def by fastforce
qed

lemma mounts_kept_frame: "fd_frame k k' \<Longrightarrow> mounts_kept k k'"
  by (fastforce simp: fd_frame_def mounts_kept_def)

text \<open>A change of the table of files keeps the invariant when the file paths stay.\<close>

lemma dfs_inv_frame:
  assumes k: "dfs_inv k" and f: "fd_frame k k'" "fd_inv k'" and d: "\<And>d. d \<in> fd_files k' \<Longrightarrow> fd_path (fd_at k' d) = None \<or> d \<in> fd_files k \<and> fd_path (fd_at k' d) = fd_path (fd_at k d)"
  shows "dfs_inv k'" "mounted k' = mounted k"
proof -
  note inv = dfs_invD [OF k] and m = mounts_inv_kept [OF dfs_invD(2) [OF k] mounts_kept_frame [OF f(1)]]
  have o: "other_blocks k' = other_blocks k" using f(1) by (simp add: fd_frame_def)
  have T: "mount_paths k' = mount_paths k" using mounts_kept_frame [OF f(1)] by (simp add: mounts_kept_def mount_paths_def)
  show "mounted k' = mounted k" by (rule m(2))
  show "dfs_inv k'" unfolding dfs_inv_def
  proof (intro conjI ballI allI impI)
    show "fd_inv k'" by (rule f(2))
    show "mounts_inv k'" by (rule m(1))
    fix x p assume x: "x \<in> fd_files k'" "fd_path (fd_at k' x) = Some p"
    then have "x \<in> fd_files k" "fd_path (fd_at k x) = Some p" using d [of x] by auto
    then show "path_at k' p" "p \<notin> mount_paths k'" using inv(4) [of x p] by (auto simp: path_at_def o T)
  next
    fix x y p assume "x \<in> fd_files k'" "y \<in> fd_files k'" "fd_path (fd_at k' x) = Some p" "fd_path (fd_at k' y) = Some p"
    then show "x = y" using d [of x] d [of y] inv(5) [of x y p] by auto
  qed
qed

section \<open>File systems that mind their own business\<close>

definition file_paths :: "'a dfs_scheme \<Rightarrow> addr set" where
  "file_paths k = {p. \<exists>d \<in> fd_files k. fd_path (fd_at k d) = Some p}"

text \<open>The table of files stays as it is, but for the type, flags, size, position and data of the file \<open>d\<close>.\<close>

definition same_table :: "addr \<Rightarrow> 'a dfs_scheme \<Rightarrow> 'a dfs_scheme \<Rightarrow> bool" where
  "same_table d k k' \<longleftrightarrow> maxfd k' = maxfd k \<and> fds k' = fds k \<and> fd_slots k' = fd_slots k \<and> (\<forall>x. x \<noteq> d \<longrightarrow> fd_at k' x = fd_at k x)
     \<and> fd_ref_count (fd_at k' d) = fd_ref_count (fd_at k d) \<and> fd_magic (fd_at k' d) = fd_magic (fd_at k d)"

text \<open>What an operation of a file system on the file \<open>d\<close> has to leave alone: the tables, and the blocks they point to.\<close>

definition quiet :: "addr \<Rightarrow> 'a dfs_scheme \<Rightarrow> 'a dfs_scheme \<Rightarrow> bool" where
  "quiet d k k' \<longleftrightarrow> same_table d k k' \<and> filesystem_table k' = filesystem_table k \<and> fslock k' = fslock k
     \<and> fd_path (fd_at k' d) = fd_path (fd_at k d) \<and> fd_fs (fd_at k' d) = fd_fs (fd_at k d) \<and> fd_fops (fd_at k' d) = fd_fops (fd_at k d)
     \<and> heap_good (dev_heap k') \<and> live_kept (dev_heap k) (dev_heap k')
     \<and> (\<forall>(a, e) \<in> heap_live (dev_heap k). a \<in> fd_addrs k \<union> mount_paths k \<union> file_paths k \<longrightarrow> (a, e) \<in> heap_live (dev_heap k'))"

definition quiet_code :: "'a dfs_scheme dfs_code \<Rightarrow> bool" where
  "quiet_code code \<longleftrightarrow> (\<forall>t f d k r k'. dfs_inv k \<longrightarrow> d \<in> fd_files k \<longrightarrow>
     (op_open (file_code code t) = Some f \<longrightarrow> f d k = (r, k') \<longrightarrow> quiet d k k' \<and> (r < 0 \<longrightarrow> heap_live (dev_heap k') = heap_live (dev_heap k)))
     \<and> (op_close (file_code code t) = Some f \<longrightarrow> f d k = (r, k') \<longrightarrow> quiet d k k'))"

lemma same_table_sel:
  assumes "same_table d k k'"
  shows "fd_files k' = fd_files k" "fd_addrs k' = fd_addrs k" "fd_count k' j = fd_count k j" "fd_ref_count (fd_at k' x) = fd_ref_count (fd_at k x)"
    "fd_magic (fd_at k' x) = fd_magic (fd_at k x)"
proof -
  show r: "fd_ref_count (fd_at k' x) = fd_ref_count (fd_at k x)" "fd_magic (fd_at k' x) = fd_magic (fd_at k x)" for x
    using assms unfolding same_table_def by (cases "x = d"; simp)+
  show f: "fd_files k' = fd_files k" using assms by (simp add: same_table_def fd_files_def)
  show "fd_addrs k' = fd_addrs k" using assms f by (simp add: same_table_def fd_addrs_def)
  show "fd_count k' j = fd_count k j" using assms r(1) by (simp add: same_table_def fd_count_def split: option.split)
qed

lemma fd_inv_table:
  assumes k: "fd_inv k" and s: "same_table d k k'" and h: "heap_good (dev_heap k')"
    and b: "\<And>a e. (a, e) \<in> heap_live (dev_heap k) \<Longrightarrow> a \<in> fd_addrs k \<Longrightarrow> (a, e) \<in> heap_live (dev_heap k')"
  shows "fd_inv k'"
proof -
  note inv = fd_invD [OF k] and ss = same_table_sel [OF s]
  have e: "maxfd k' = maxfd k" "fds k' = fds k" "fd_slots k' = fd_slots k" using s by (simp_all add: same_table_def)
  show ?thesis unfolding fd_inv_def e ss
  proof (intro conjI ballI allI impI)
    fix x assume x: "x \<in> fd_files k"
    then have "x \<in> fd_addrs k" by (simp add: fd_addrs_def)
    then show "\<exists>e. (x, e) \<in> heap_live (dev_heap k') \<and> x + 36 \<le> e" using inv(7) [OF x] b by blast
  next
    fix a assume a: "fds k = Some a"
    then have "a \<in> fd_addrs k" by (simp add: fd_addrs_def)
    then show "\<exists>e. (a, e) \<in> heap_live (dev_heap k') \<and> a + 4 * maxfd k \<le> e" using inv(9) [OF a] b by blast
  qed (use h inv in blast)+
qed

lemma quiet_inv:
  assumes k: "dfs_inv k" and q: "quiet d k k'"
  shows "dfs_inv k'" "mounts_kept k k'" "file_paths k' = file_paths k"
proof -
  note inv = dfs_invD [OF k]
  have s: "same_table d k k'" and T: "filesystem_table k' = filesystem_table k" and h: "heap_good (dev_heap k')" "live_kept (dev_heap k) (dev_heap k')"
    and p: "fd_path (fd_at k' d) = fd_path (fd_at k d)"
    and b: "\<And>a e. (a, e) \<in> heap_live (dev_heap k) \<Longrightarrow> a \<in> fd_addrs k \<union> mount_paths k \<union> file_paths k \<Longrightarrow> (a, e) \<in> heap_live (dev_heap k')"
    using q unfolding quiet_def by blast+
  note ss = same_table_sel [OF s]
  have fp: "fd_path (fd_at k' x) = fd_path (fd_at k x)" for x using s p unfolding same_table_def by (cases "x = d"; simp)
  show "file_paths k' = file_paths k" by (simp add: file_paths_def ss(1) fp)
  have o: "(a, e) \<in> other_blocks k'" if "(a, e) \<in> other_blocks k" "a \<in> mount_paths k \<union> file_paths k" for a e
    using that b [of a e] by (auto simp: other_blocks_def ss(2))
  show mk: "mounts_kept k k'" unfolding mounts_kept_def
  proof (intro conjI T ballI, clarify)
    fix a e assume a: "(a, e) \<in> other_blocks k" "a \<in> mount_paths k"
    then have "(a, e) \<in> heap_live (dev_heap k)" "(a, e) \<in> other_blocks k'" using o by (auto simp: other_blocks_def)
    then show "(a, e) \<in> other_blocks k' \<and> (\<forall>x\<ge>a. x < e \<longrightarrow> bytes (dev_heap k') x = bytes (dev_heap k) x)"
      using h(2) unfolding live_kept_def other_blocks_def by blast
  qed
  have M: "mount_paths k' = mount_paths k" by (simp add: mount_paths_def T)
  show "dfs_inv k'" unfolding dfs_inv_def
  proof (intro conjI ballI allI impI)
    show "fd_inv k'" by (rule fd_inv_table [OF inv(1) s h(1)]) (use b in blast)
    show "mounts_inv k'" by (rule mounts_inv_kept(1) [OF inv(2) mk])
    fix x a assume x: "x \<in> fd_files k'" "fd_path (fd_at k' x) = Some a"
    then have "path_at k a \<and> a \<notin> mount_paths k" "a \<in> file_paths k" using inv(4) [of x a] by (auto simp: ss(1) fp file_paths_def)
    then show "path_at k' a" "a \<notin> mount_paths k'" using o unfolding path_at_def M by blast+
  next
    fix x y a assume "x \<in> fd_files k'" "y \<in> fd_files k'" "fd_path (fd_at k' x) = Some a" "fd_path (fd_at k' y) = Some a"
    then show "x = y" using inv(5) [of x y a] by (simp add: ss(1) fp)
  qed
qed

text \<open>The path of a file is dropped.\<close>

lemma drop_path_effect:
  assumes k: "dfs_inv k" and d: "d \<in> fd_files k"
  shows "\<exists>k'. drop_path d k = Some k' \<and> dfs_inv k' \<and> mounts_kept k k' \<and> same_table d k k' \<and> fd_path (fd_at k' d) = None
    \<and> (\<exists>h. k' = (upd_fd d (\<lambda>f. f\<lparr>fd_path := None\<rparr>) k)\<lparr>dev_heap := h\<rparr>)
    \<and> (case fd_path (fd_at k d) of None \<Rightarrow> other_blocks k' = other_blocks k | Some p \<Rightarrow> \<forall>e. (p, e) \<in> other_blocks k \<longrightarrow> other_blocks k' = other_blocks k - {(p, e)})"
proof -
  note inv = dfs_invD [OF k]
  have g: "heap_good (dev_heap k)" "heap_ok (dev_heap k)" using fd_invD(1) [OF inv(1)] by (simp_all add: heap_good_def)
  obtain h X where h: "dfs_free (fd_path (fd_at k d)) k = Some (k\<lparr>dev_heap := h\<rparr>)" "heap_good h" "heap_live h = heap_live (dev_heap k) - X" "live_kept (dev_heap k) h"
    and X: "case fd_path (fd_at k d) of None \<Rightarrow> X = {} | Some p \<Rightarrow> \<exists>e. X = {(p, e)} \<and> (p, e) \<in> other_blocks k"
  proof (cases "fd_path (fd_at k d)")
    case None
    then show thesis using that [of "dev_heap k" "{}"] g by simp
  next
    case (Some p)
    then obtain e where e: "(p, e) \<in> other_blocks k" using inv(4) [OF d] by (auto simp: path_at_def)
    then show thesis using that [of _ "{(p, e)}"] dfs_free_block [OF g(1), of p e] Some by (auto simp: other_blocks_def)
  qed
  define k' where "k' = (upd_fd d (\<lambda>f. f\<lparr>fd_path := None\<rparr>) k)\<lparr>dev_heap := h\<rparr>"
  have dp: "drop_path d k = Some k'" using h(1) by (simp add: drop_path_def k'_def)
  have s: "same_table d k k'" by (simp add: same_table_def k'_def upd_fd_def)
  have sel: "fd_path (fd_at k' d) = None" "dev_heap k' = h" "filesystem_table k' = filesystem_table k" "\<And>x. x \<noteq> d \<Longrightarrow> fd_at k' x = fd_at k x"
    by (simp_all add: k'_def upd_fd_def)
  note ss = same_table_sel [OF s]
  have Xo: "X \<subseteq> other_blocks k" using X by (auto split: option.splits)
  have o: "other_blocks k' = other_blocks k - X" using h(3) by (auto simp: other_blocks_def ss(2) sel(2))
  have M: "mount_paths k' = mount_paths k" by (simp add: mount_paths_def sel(3))
  have Xp: "(a, e) \<in> X \<Longrightarrow> fd_path (fd_at k d) = Some a" for a e using X by (auto split: option.splits)
  have mk: "mounts_kept k k'" unfolding mounts_kept_def
  proof (intro conjI sel(3) ballI, clarify)
    fix a e assume a: "(a, e) \<in> other_blocks k" "a \<in> mount_paths k"
    then have "(a, e) \<notin> X" using Xp inv(4) [OF d] by blast
    then have "(a, e) \<in> other_blocks k'" using a(1) o by blast
    then show "(a, e) \<in> other_blocks k' \<and> (\<forall>x\<ge>a. x < e \<longrightarrow> bytes (dev_heap k') x = bytes (dev_heap k) x)"
      using a(1) h(4) unfolding live_kept_def other_blocks_def sel(2) by blast
  qed
  have "dfs_inv k'" unfolding dfs_inv_def
  proof (intro conjI ballI allI impI)
    show "fd_inv k'" by (rule fd_inv_table [OF inv(1) s]) (use h(2,3) Xo in \<open>auto simp: sel(2) other_blocks_def\<close>)
    show "mounts_inv k'" by (rule mounts_inv_kept(1) [OF inv(2) mk])
    fix x a assume x: "x \<in> fd_files k'" "fd_path (fd_at k' x) = Some a"
    then have xd: "x \<noteq> d" using sel(1) by auto
    then have xa: "x \<in> fd_files k" "fd_path (fd_at k x) = Some a" using x sel(4) by (simp_all add: ss(1))
    then show "a \<notin> mount_paths k'" using inv(4) by (simp add: M)
    obtain e where "(a, e) \<in> other_blocks k" using inv(4) [OF xa] by (auto simp: path_at_def)
    moreover have "(a, e) \<notin> X" using Xp inv(5) [OF xa(1) d xa(2)] xd by blast
    ultimately show "path_at k' a" unfolding path_at_def o by blast
  next
    fix x y a assume xy: "x \<in> fd_files k'" "y \<in> fd_files k'" "fd_path (fd_at k' x) = Some a" "fd_path (fd_at k' y) = Some a"
    then have "x \<noteq> d" "y \<noteq> d" using sel(1) by auto
    then show "x = y" using xy inv(5) [of x y a] by (simp add: ss(1) sel(4))
  qed
  moreover have "case fd_path (fd_at k d) of None \<Rightarrow> other_blocks k' = other_blocks k | Some p \<Rightarrow> \<forall>e. (p, e) \<in> other_blocks k \<longrightarrow> other_blocks k' = other_blocks k - {(p, e)}"
  proof (cases "fd_path (fd_at k d)")
    case (Some p)
    then obtain e where e: "X = {(p, e)}" "(p, e) \<in> other_blocks k" using X by auto
    have "e' = e" if "(p, e') \<in> other_blocks k" for e' using live_fun [OF g(2), of p e' e] that e(2) by (simp add: other_blocks_def)
    then show ?thesis using Some o e(1) by auto
  qed (use X o in simp)
  ultimately show ?thesis using dp mk s sel(1) k'_def by blast
qed

section \<open>Opening a file\<close>

text \<open>The file got its path.\<close>

lemma ready_inv:
  assumes k: "dfs_inv k" and d: "d \<in> fd_files k" and r: "file_ready code d i ns flags k k1"
  shows "dfs_inv k1" "mounts_kept k k1" "same_table d k k1"
    "case fd_path (fd_at k1 d) of None \<Rightarrow> other_blocks k1 = other_blocks k
      | Some p \<Rightarrow> \<exists>e. (p, e) \<notin> other_blocks k \<and> other_blocks k1 = insert (p, e) (other_blocks k)
          \<and> str_at (bytes (dev_heap k1)) p (text_of ns) \<and> p + length (text_of ns) < e"
proof -
  note inv = dfs_invD [OF k]
  have h: "heap_good (dev_heap k1)" "live_kept (dev_heap k) (dev_heap k1)" and rf: "fd_ref_count (fd_at k1 d) = fd_ref_count (fd_at k d)"
      "fd_magic (fd_at k1 d) = fd_magic (fd_at k d)" using r unfolding file_ready_def by blast+
  have "\<exists>g. k1 = (upd_fd d g k)\<lparr>dev_heap := dev_heap k1\<rparr>" using r unfolding file_ready_def by blast
  then obtain g where g: "k1 = (upd_fd d g k)\<lparr>dev_heap := dev_heap k1\<rparr>" by blast
  have at1: "fd_at k1 x = fd_at k x" if "x \<noteq> d" for x by (subst g) (use that in \<open>simp add: upd_fd_def\<close>)
  have sel: "maxfd k1 = maxfd k" "fds k1 = fds k" "fd_slots k1 = fd_slots k" "filesystem_table k1 = filesystem_table k"
    by (subst g, simp add: upd_fd_def)+
  show s: "same_table d k k1" using at1 sel rf by (simp add: same_table_def)
  note ss = same_table_sel [OF s]
  obtain X where X: "heap_live (dev_heap k1) = X \<union> heap_live (dev_heap k)" "X \<inter> heap_live (dev_heap k) = {}"
    and P: "case fd_path (fd_at k1 d) of None \<Rightarrow> X = {} | Some p \<Rightarrow> \<exists>e. X = {(p, e)} \<and> str_at (bytes (dev_heap k1)) p (text_of ns) \<and> p + length (text_of ns) < e"
  proof (cases "fd_path (fd_at k1 d)")
    case None
    then have "heap_live (dev_heap k1) = heap_live (dev_heap k)" using r by (simp add: file_ready_def)
    then show thesis using that [of "{}"] None by simp
  next
    case (Some p)
    then obtain e where "(p, e) \<notin> heap_live (dev_heap k)" "heap_live (dev_heap k1) = insert (p, e) (heap_live (dev_heap k))"
      "str_at (bytes (dev_heap k1)) p (text_of ns)" "p + length (text_of ns) < e" using r by (auto simp: file_ready_def)
    then show thesis using that [of "{(p, e)}"] Some by auto
  qed
  have new: "(a, f) \<notin> heap_live (dev_heap k)" if "(a, e) \<in> X" for a e f
    using that X live_fun [of "dev_heap k1" a e f] h(1) by (auto simp: heap_good_def)
  have na: "a \<notin> fd_addrs k" if "(a, e) \<in> X" for a e
    using new [OF that] fd_invD(7,9) [OF inv(1)] by (auto simp: fd_addrs_def)
  have o: "other_blocks k1 = X \<union> other_blocks k" using X(1) na by (auto simp: other_blocks_def ss(2))
  have nX: "X \<inter> other_blocks k = {}" using X(2) by (auto simp: other_blocks_def)
  have M: "mount_paths k1 = mount_paths k" by (simp add: mount_paths_def sel(4))
  have nm: "a \<notin> mount_paths k" if a: "(a, e) \<in> X" for a e
  proof
    assume "a \<in> mount_paths k"
    then obtain f where f: "f \<in> set (filesystem_table k)" "path f = Some a" by (auto simp: mount_paths_def)
    then obtain st where "mounted_on (bytes (dev_heap k)) f st" using inv(2) by (auto simp: mounts_inv_def mounts_ok_def entry_ok_def)
    then show False using inv(2) f new [OF a] unfolding mounts_inv_def other_blocks_def by blast
  qed
  show mk: "mounts_kept k k1" unfolding mounts_kept_def
  proof (intro conjI sel(4) ballI, clarify)
    fix a e assume a: "(a, e) \<in> other_blocks k" "a \<in> mount_paths k"
    then have "(a, e) \<in> other_blocks k1" using o by blast
    then show "(a, e) \<in> other_blocks k1 \<and> (\<forall>x\<ge>a. x < e \<longrightarrow> bytes (dev_heap k1) x = bytes (dev_heap k) x)"
      using a(1) h(2) unfolding live_kept_def other_blocks_def by blast
  qed
  have Xp: "(a, e) \<in> X \<Longrightarrow> fd_path (fd_at k1 d) = Some a" for a e using P by (auto split: option.splits)
  have pX: "\<exists>e. (a, e) \<in> X" if "fd_path (fd_at k1 d) = Some a" for a using P that by auto
  show "dfs_inv k1" unfolding dfs_inv_def
  proof (intro conjI ballI allI impI)
    show "fd_inv k1" by (rule fd_inv_table [OF inv(1) s h(1)]) (use X(1) in auto)
    show "mounts_inv k1" by (rule mounts_inv_kept(1) [OF inv(2) mk])
    fix x a assume x: "x \<in> fd_files k1" "fd_path (fd_at k1 x) = Some a"
    show "path_at k1 a" "a \<notin> mount_paths k1"
    proof -
      have "path_at k1 a \<and> a \<notin> mount_paths k1"
      proof (cases "x = d")
        case True
        then show ?thesis using pX x(2) nm unfolding path_at_def o M by blast
      next
        case False
        then show ?thesis using x inv(4) [of x a] at1 unfolding path_at_def o M by (auto simp: ss(1))
      qed
      then show "path_at k1 a" "a \<notin> mount_paths k1" by blast+
    qed
  next
    fix x y a assume xy: "x \<in> fd_files k1" "y \<in> fd_files k1" "fd_path (fd_at k1 x) = Some a" "fd_path (fd_at k1 y) = Some a"
    have *: False if x: "x \<in> fd_files k" "x \<noteq> d" "fd_path (fd_at k1 x) = Some a" "fd_path (fd_at k1 d) = Some a" for x
      using pX [OF x(4)] new inv(4) [OF x(1)] x(3) at1 [OF x(2)] by (auto simp: path_at_def other_blocks_def)
    show "x = y"
    proof (cases "x = d \<or> y = d")
      case True
      then show ?thesis using * xy by (auto simp: ss(1))
    next
      case False
      then show ?thesis using xy at1 inv(5) [of x y a] by (simp add: ss(1))
    qed
  qed
  show "case fd_path (fd_at k1 d) of None \<Rightarrow> other_blocks k1 = other_blocks k
      | Some p \<Rightarrow> \<exists>e. (p, e) \<notin> other_blocks k \<and> other_blocks k1 = insert (p, e) (other_blocks k)
          \<and> str_at (bytes (dev_heap k1)) p (text_of ns) \<and> p + length (text_of ns) < e"
    using P o nX by (auto split: option.splits)
qed

text \<open>Only the heap changed, and it has the same blocks.\<close>

lemma heap_only_inv:
  assumes k: "dfs_inv k" and h: "heap_good h" "heap_live h = heap_live (dev_heap k)" "live_kept (dev_heap k) h"
  defines "k' \<equiv> k\<lparr>dev_heap := h\<rparr>"
  shows "dfs_inv k'" "mounts_kept k k'" "same_table d k k'" "other_blocks k' = other_blocks k"
proof -
  note inv = dfs_invD [OF k]
  have s: "same_table x k k'" for x by (simp add: same_table_def k'_def)
  then show "same_table d k k'" .
  note ss = same_table_sel [OF s]
  have sel: "dev_heap k' = h" "filesystem_table k' = filesystem_table k" "fd_at k' = fd_at k" by (simp_all add: k'_def)
  show o: "other_blocks k' = other_blocks k" by (simp add: other_blocks_def ss(2) sel h(2))
  have M: "mount_paths k' = mount_paths k" by (simp add: mount_paths_def sel(2))
  show mk: "mounts_kept k k'" unfolding mounts_kept_def
    using h(2,3) by (auto simp: sel live_kept_def other_blocks_def ss(2))
  have "fd_inv k'" by (rule fd_inv_table [OF inv(1) s]) (simp_all add: sel h)
  then show "dfs_inv k'" using mounts_inv_kept(1) [OF inv(2) mk] inv(4,5) unfolding dfs_inv_def path_at_def by (simp add: ss(1) sel o M)
qed

text \<open>Two steps on the same file.\<close>

lemma same_table_trans: "same_table d k k1 \<Longrightarrow> same_table d k1 k2 \<Longrightarrow> same_table d k k2"
  by (simp add: same_table_def)

lemma upd_fd_inv:
  assumes k: "dfs_inv k" and f: "\<And>x. fd_path (f x) = fd_path x" "\<And>x. fd_ref_count (f x) = fd_ref_count x" "\<And>x. fd_magic (f x) = fd_magic x"
  shows "dfs_inv (upd_fd d f k)" "mounts_kept k (upd_fd d f k)" "same_table d k (upd_fd d f k)" "other_blocks (upd_fd d f k) = other_blocks k"
proof -
  let ?k = "upd_fd d f k"
  note inv = dfs_invD [OF k]
  show s: "same_table d k ?k" using f by (simp add: same_table_def upd_fd_def)
  note ss = same_table_sel [OF s]
  have sel: "dev_heap ?k = dev_heap k" "filesystem_table ?k = filesystem_table k" "fd_path (fd_at ?k x) = fd_path (fd_at k x)" for x
    using f(1) by (simp_all add: upd_fd_def)
  show o: "other_blocks ?k = other_blocks k" by (simp add: other_blocks_def ss(2) sel(1))
  have M: "mount_paths ?k = mount_paths k" by (simp add: mount_paths_def sel(2))
  show mk: "mounts_kept k ?k" unfolding mounts_kept_def by (auto simp: sel o)
  have "fd_inv ?k" by (rule fd_inv_table [OF inv(1) s]) (use fd_invD(1) [OF inv(1)] in \<open>simp_all add: sel\<close>)
  then show "dfs_inv ?k" using mounts_inv_kept(1) [OF inv(2) mk] inv(4,5) unfolding dfs_inv_def path_at_def by (simp add: ss(1) sel o M)
qed

text \<open>What opening a file comes to: no change but for its own fields, or one new path.\<close>

definition opened :: "'a dfs_scheme dfs_code \<Rightarrow> addr \<Rightarrow> u8 list list \<Rightarrow> 'a dfs_scheme \<Rightarrow> int \<Rightarrow> 'a dfs_scheme \<Rightarrow> bool" where
  "opened code d ns k r k' \<longleftrightarrow> (if r < 0 then other_blocks k' = other_blocks k
     else r = 0 \<and> (\<exists>m st. longest_mount k ns m st \<and> fd_fs (fd_at k' d) = Some m
       \<and> (case fd_path (fd_at k' d) of None \<Rightarrow> True
          | Some p \<Rightarrow> \<exists>e. (p, e) \<in> other_blocks k' - other_blocks k \<and> str_at (bytes (dev_heap k')) p (text_of (below_mount code k m st ns))
              \<and> p + length (text_of (below_mount code k m st ns)) < e)))"

lemma open_call_effect:
  assumes code: "quiet_code code" and k: "dfs_inv k" "d \<in> fd_files k" and m: "longest_mount k ns m st" "ops (filesystem_table k ! m) = Some t"
    and r: "file_ready code d m (below_mount code k m st ns) flags k k1"
  shows "\<exists>r k'. open_call code d flags k1 = Some (r, k') \<and> dfs_inv k' \<and> mounts_kept k k' \<and> same_table d k k' \<and> opened code d ns k r k'
    \<and> (r < 0 \<longrightarrow> fd_path (fd_at k' d) = None)"
proof -
  let ?ns = "below_mount code k m st ns"
  note i = ready_inv [OF k r]
  have d1: "d \<in> fd_files k1" using k(2) same_table_sel(1) [OF i(3)] by simp
  have fo: "fd_fops (fd_at k1 d) = Some (ops_fops (fs_code code t))" "fd_fs (fd_at k1 d) = Some m" using r m(2) by (simp_all add: file_ready_def)
  have undo: "\<exists>k'. drop_path d k2 = Some k' \<and> dfs_inv k' \<and> mounts_kept k k' \<and> same_table d k k' \<and> fd_path (fd_at k' d) = None \<and> other_blocks k' = other_blocks k"
    if k2: "dfs_inv k2" "mounts_kept k k2" "same_table d k k2" "fd_path (fd_at k2 d) = fd_path (fd_at k1 d)" "other_blocks k2 = other_blocks k1" for k2
  proof -
    have d2: "d \<in> fd_files k2" using k(2) same_table_sel(1) [OF k2(3)] by simp
    obtain k' where k': "drop_path d k2 = Some k'" "dfs_inv k'" "mounts_kept k2 k'" "same_table d k2 k'" "fd_path (fd_at k' d) = None"
      and o: "case fd_path (fd_at k2 d) of None \<Rightarrow> other_blocks k' = other_blocks k2 | Some p \<Rightarrow> \<forall>e. (p, e) \<in> other_blocks k2 \<longrightarrow> other_blocks k' = other_blocks k2 - {(p, e)}"
      using drop_path_effect [OF k2(1) d2] by blast
    have "other_blocks k' = other_blocks k"
    proof (cases "fd_path (fd_at k1 d)")
      case None
      then show ?thesis using o i(4) by (simp add: k2(4,5))
    next
      case (Some p)
      then obtain e where e: "(p, e) \<notin> other_blocks k" "other_blocks k1 = insert (p, e) (other_blocks k)" using i(4) by auto
      then have "other_blocks k' = other_blocks k1 - {(p, e)}" using o Some by (simp add: k2(4,5))
      then show ?thesis using e by blast
    qed
    then show ?thesis using k' mounts_kept_trans [OF k2(2) k'(3)] same_table_trans [OF k2(3) k'(4)] by blast
  qed
  show ?thesis
  proof (cases "op_open (file_code code (ops_fops (fs_code code t)))")
    case None
    obtain k' where "drop_path d k1 = Some k'" "dfs_inv k'" "mounts_kept k k'" "same_table d k k'" "fd_path (fd_at k' d) = None" "other_blocks k' = other_blocks k"
      using undo [OF i(1-3) refl refl] by blast
    then show ?thesis using None fo by (auto simp: open_call_def opened_def)
  next
    case (Some f)
    obtain r2 k2 where f: "f d k1 = (r2, k2)" by force
    have q: "quiet d k1 k2" "r2 < 0 \<Longrightarrow> heap_live (dev_heap k2) = heap_live (dev_heap k1)" using code i(1) d1 Some f unfolding quiet_code_def by blast+
    have s12: "same_table d k1 k2" and p12: "fd_path (fd_at k2 d) = fd_path (fd_at k1 d)" "fd_fs (fd_at k2 d) = fd_fs (fd_at k1 d)" using q(1) unfolding quiet_def by blast+
    note q2 = quiet_inv [OF i(1) q(1)]
    have k2: "dfs_inv k2" "mounts_kept k k2" "same_table d k k2" using q2(1) mounts_kept_trans [OF i(2) q2(2)] same_table_trans [OF i(3) s12] by blast+
    show ?thesis
    proof (cases "r2 < 0")
      case True
      have "other_blocks k2 = other_blocks k1" using q(2) [OF True] same_table_sel(2) [OF s12] by (simp add: other_blocks_def)
      then obtain k' where "drop_path d k2 = Some k'" "dfs_inv k'" "mounts_kept k k'" "same_table d k k'" "fd_path (fd_at k' d) = None" "other_blocks k' = other_blocks k"
        using undo [OF k2 p12(1)] by blast
      then show ?thesis using Some fo f True by (auto simp: open_call_def opened_def)
    next
      case False
      define g :: "dfs_fd \<Rightarrow> dfs_fd" where "g = (\<lambda>x. if flags AND O_DIRECTORY \<noteq> 0
        then x\<lparr>fd_type := FT_DIRECTORY, fd_flags := fd_flags x OR DFS_F_OPEN OR DFS_F_DIRECTORY\<rparr> else x\<lparr>fd_flags := fd_flags x OR DFS_F_OPEN\<rparr>)"
      have oc: "open_call code d flags k1 = Some (0, upd_fd d g k2)"
        using Some fo f False by (auto simp: open_call_def g_def upd_fd_comp comp_def Let_def or.assoc)
      note u = upd_fd_inv [OF k2(1), of g d]
      have u': "dfs_inv (upd_fd d g k2)" "mounts_kept k2 (upd_fd d g k2)" "same_table d k2 (upd_fd d g k2)" "other_blocks (upd_fd d g k2) = other_blocks k2"
        by (rule u; simp add: g_def)+
      have gp: "fd_path (fd_at (upd_fd d g k2) d) = fd_path (fd_at k1 d)" "fd_fs (fd_at (upd_fd d g k2) d) = Some m"
        using p12 fo(2) by (simp_all add: g_def)
      have "case fd_path (fd_at k1 d) of None \<Rightarrow> True | Some p \<Rightarrow> \<exists>e. (p, e) \<in> other_blocks (upd_fd d g k2) - other_blocks k
          \<and> str_at (bytes (dev_heap (upd_fd d g k2))) p (text_of ?ns) \<and> p + length (text_of ?ns) < e"
      proof (cases "fd_path (fd_at k1 d)")
        case (Some p)
        then obtain e where e: "(p, e) \<notin> other_blocks k" "other_blocks k1 = insert (p, e) (other_blocks k)" "str_at (bytes (dev_heap k1)) p (text_of ?ns)"
          "p + length (text_of ?ns) < e" using i(4) by auto
        have "(p, e) \<in> other_blocks k1" using e(2) by simp
        then have l1: "(p, e) \<in> heap_live (dev_heap k1)" "p \<notin> fd_addrs k1" by (simp_all add: other_blocks_def)
        have fp: "p \<in> file_paths k1" using d1 Some by (auto simp: file_paths_def)
        have l2: "(p, e) \<in> heap_live (dev_heap k2)" "live_kept (dev_heap k1) (dev_heap k2)" using q(1) l1(1) fp unfolding quiet_def by blast+
        have "(p, e) \<in> other_blocks k2" using l2(1) l1(2) same_table_sel(2) [OF s12] by (simp add: other_blocks_def)
        moreover have "str_at (bytes (dev_heap k2)) p (text_of ?ns)" by (rule str_kept [OF l2(2) l1(1) l2(1) e(3,4)])
        ultimately show ?thesis using Some e(1,4) u'(4) by auto
      qed simp
      then have "opened code d ns k 0 (upd_fd d g k2)" using m(1) gp unfolding opened_def by auto
      then show ?thesis using oc u' mounts_kept_trans [OF k2(2) u'(2)] same_table_trans [OF k2(3) u'(3)] by auto
    qed
  qed
qed

lemma file_open_effect:
  assumes code: "quiet_code code" and k: "dfs_inv k" "d \<in> fd_files k" "fd_path (fd_at k d) = None"
    and s: "s = full_name (working_directory k) None name" "0 \<notin> set s" "length s < 2 ^ 32 - 6" "path_names s = Some (True, ns)"
  shows "\<exists>r k'. dfs_file_open code (Some d) name flags k = Some (r, k') \<and> dfs_inv k' \<and> mounts_kept k k' \<and> same_table d k k' \<and> opened code d ns k r k'
    \<and> (r < 0 \<longrightarrow> fd_path (fd_at k' d) = None)"
proof -
  note inv = dfs_invD [OF k(1)]
  show ?thesis
    using inv(3) s
  proof (cases rule: open_file_cases [where code = code and d = d and flags = flags])
    case nomem
    have "mounts_kept k k" "same_table d k k" by (auto simp: mounts_kept_def same_table_def)
    then show ?thesis using nomem k by (auto simp: opened_def)
  next
    case (nofs h)
    note q = heap_only_inv [OF k(1) nofs(3-5)]
    then show ?thesis using nofs(2) k(3) by (auto simp: opened_def)
  next
    case (ready i st k1)
    obtain t where t: "ops (filesystem_table k ! i) = Some t" using ready(1) by (auto simp: longest_mount_def mounted_def mounted_on_def)
    show ?thesis using open_call_effect [OF code k(1,2) ready(1) t ready(3)] unfolding ready(2) .
  qed
qed

section \<open>Properties\<close>

lemma dfs_errno [simp]:
  "dfs_inv (rt_set_errno e k) = dfs_inv k" "fd_count (rt_set_errno e k) = fd_count k" "other_blocks (rt_set_errno e k) = other_blocks k"
  "mounted (rt_set_errno e k) = mounted k" "fd_at (rt_set_errno e k) = fd_at k" "fd_slots (rt_set_errno e k) = fd_slots k"
proof -
  have s: "dev_heap (rt_set_errno e k) = dev_heap k" "filesystem_table (rt_set_errno e k) = filesystem_table k" "fd_at (rt_set_errno e k) = fd_at k"
    "maxfd (rt_set_errno e k) = maxfd k" "fds (rt_set_errno e k) = fds k" "fd_slots (rt_set_errno e k) = fd_slots k"
    by (simp_all add: rt_set_errno_def upd_thread_def split: option.split)
  have f: "fd_files (rt_set_errno e k) = fd_files k" "fd_addrs (rt_set_errno e k) = fd_addrs k" by (simp_all add: fd_files_def fd_addrs_def s)
  show o: "other_blocks (rt_set_errno e k) = other_blocks k" by (simp add: other_blocks_def f s)
  show "fd_count (rt_set_errno e k) = fd_count k" unfolding fd_count_def [abs_def] s ..
  show "mounted (rt_set_errno e k) = mounted k" by (simp add: mounted_def [abs_def] s)
  show "dfs_inv (rt_set_errno e k) = dfs_inv k"
    by (simp add: dfs_inv_def mounts_inv_def mounts_ok_def fd_inv_def path_at_def mount_paths_def o f s)
qed (simp_all add: rt_set_errno_def upd_thread_def split: option.split)

lemma dfs_put_effect:
  assumes k: "dfs_inv k" and i: "i < maxfd k" "fd_slots k ! i = Some d"
  shows "\<exists>k'. fd_put d k = Some k' \<and> dfs_inv k' \<and> mounted k' = mounted k \<and> other_blocks k' = other_blocks k \<and> fd_frame k k' \<and> maxfd k' = maxfd k
    \<and> (\<forall>j. fd_count k' j = (if j = i then fd_count k j - 1 else fd_count k j)) \<and> fd_slots k' = (if fd_count k i = 1 then (fd_slots k)[i := None] else fd_slots k)
    \<and> (\<forall>x. fd_path (fd_at k' x) = fd_path (fd_at k x) \<and> fd_fs (fd_at k' x) = fd_fs (fd_at k x))"
proof -
  obtain k' where p: "fd_put d k = Some k'" "fd_inv k'" "fd_frame k k'" "maxfd k' = maxfd k" "\<forall>j. fd_count k' j = (if j = i then fd_count k j - 1 else fd_count k j)"
    "fd_slots k' = (if fd_count k i = 1 then (fd_slots k)[i := None] else fd_slots k)"
    "fd_at k' = (fd_at k)(d := (fd_at k d)\<lparr>fd_ref_count := fd_ref_count (fd_at k d) - 1\<rparr>)"
    using fd_put_effect [OF dfs_invD(1) [OF k] i] by blast
  have a: "fd_path (fd_at k' x) = fd_path (fd_at k x)" "fd_fs (fd_at k' x) = fd_fs (fd_at k x)" for x by (simp_all add: p(7))
  have "fd_files k' \<subseteq> fd_files k" using set_update_subset_insert [of "fd_slots k" i None] by (auto simp: fd_files_def p(6))
  then have "dfs_inv k'" "mounted k' = mounted k" using dfs_inv_frame [OF k p(3,2)] a by blast+
  then show ?thesis using p a by (auto simp: fd_frame_def)
qed

text \<open>The example of \<^theory_text>\<open>Dfs_Fs\<close> meets the contracts.\<close>

lemma example_dfs_inv: "dfs_inv example_dfs"
proof -
  have fi: "fd_files example_dfs = {4192}" by (auto simp: fd_files_def)
  have ad: "fd_addrs example_dfs = {4164, 4192}" by (auto simp: fd_addrs_def fi)
  have fd: "fd_inv example_dfs"
    unfolding fd_inv_def fi
  proof (intro conjI ballI allI impI)
    fix i j d assume "fd_slots example_dfs ! i = Some d" "fd_slots example_dfs ! j = Some d" "i < maxfd example_dfs" "j < maxfd example_dfs"
    then show "i = j" by (auto simp: nth_Cons' split: if_splits)
  qed (use example_heap in \<open>auto simp: example_file_def\<close>)
  have ob: "other_blocks example_dfs = {(4108, 4124), (4136, 4152), (4240, 4256)}" by (auto simp: other_blocks_def example_heap(2) ad)
  have mp: "mount_paths example_dfs = {4108, 4136}" by (auto simp: mount_paths_def zero_filesystem_def)
  have "mounts_inv example_dfs"
    unfolding mounts_inv_def
  proof (intro conjI ballI allI impI)
    show "mounts_ok example_dfs" using example_mounts_live by (simp add: mounts_live_def)
    fix f st p assume f: "f \<in> set (filesystem_table example_dfs)" "mounted_on (bytes (dev_heap example_dfs)) f st" "path f = Some p"
    then obtain e where "(p, e) \<in> heap_live (dev_heap example_dfs)" "p + length (text_of st) < e" using example_mounts_live unfolding mounts_live_def by blast
    moreover have "p \<in> mount_paths example_dfs" using f(1,3) by (auto simp: mount_paths_def)
    ultimately show "\<exists>e. (p, e) \<in> other_blocks example_dfs \<and> p + length (text_of st) < e" by (auto simp: other_blocks_def mp ad)
  qed
  then show ?thesis using fd unfolding dfs_inv_def fi path_at_def ob mp by (auto simp: example_file_def)
qed

lemma quiet_refl: "dfs_inv k \<Longrightarrow> quiet d k k"
  using fd_invD(1) [OF dfs_invD(1)] by (auto simp: quiet_def same_table_def)

lemma example_quiet_code: "quiet_code example_code"
  using quiet_refl unfolding quiet_code_def by (auto simp: example_code_def)

lemma dfs_get_effect:
  assumes k: "dfs_inv k" and i: "i < maxfd k" "fd_slots k ! i = Some d"
  defines "k1 \<equiv> upd_fd d (\<lambda>f. f\<lparr>fd_ref_count := fd_ref_count f + 1\<rparr>) k"
  shows "fd_get cons (int i + 3) k = (Some d, k1)" "dfs_inv k1" "mounted k1 = mounted k" "fd_frame k k1" "fd_count k1 j = (if j = i then fd_count k j + 1 else fd_count k j)"
    "d \<in> fd_files k1" "maxfd k1 = maxfd k" "fd_slots k1 = fd_slots k"
proof -
  note inv = dfs_invD(1) [OF k]
  have f: "d \<in> fd_files k" by (rule fd_slot_file [OF inv i])
  then have pos: "0 < fd_ref_count (fd_at k d)" using fd_invD(5) [OF inv] by blast
  then have c: "0 < fd_count k i" using i fd_invD(2) [OF inv] by (simp add: fd_count_def)
  show "fd_get cons (int i + 3) k = (Some d, k1)" using fd_get_effect [OF inv refl, of "int i + 3" cons] c i(2) by (simp add: k1_def)
  have "0 < fd_ref_count (fd_at k d) + 1" using pos by simp
  note ref = fd_ref_change [OF inv i this, folded k1_def]
  show "fd_frame k k1" "fd_count k1 j = (if j = i then fd_count k j + 1 else fd_count k j)" by (rule ref)+
  show "dfs_inv k1" "mounted k1 = mounted k" by (rule dfs_inv_frame [OF k ref(2,1)]; simp add: k1_def upd_fd_def fd_files_def)+
  show "d \<in> fd_files k1" "maxfd k1 = maxfd k" "fd_slots k1 = fd_slots k" using f by (simp_all add: k1_def upd_fd_def fd_files_def)
qed

text \<open>A new descriptor and the reference to its file.\<close>

lemma new_descriptor_effect:
  assumes k: "dfs_inv k"
  shows "\<exists>r1 k1. fd_new k = Some (r1, k1) \<and> (r1 = - 1 \<and> dfs_inv k1 \<and> mounted k1 = mounted k \<and> fd_frame k k1 \<and> fd_count k1 = fd_count k
    \<or> (\<exists>i < DFS_FD_MAX. \<exists>d k2. r1 = int i + 3 \<and> fd_count k i = 0 \<and> (\<forall>j < i. 0 < fd_count k j) \<and> fd_get cons r1 k1 = (Some d, k2)
         \<and> dfs_inv k2 \<and> mounted k2 = mounted k \<and> fd_frame k k2 \<and> fd_count k2 = (fd_count k)(i := 2)
         \<and> i < maxfd k2 \<and> fd_slots k2 ! i = Some d \<and> d \<in> fd_files k2 \<and> fd_path (fd_at k2 d) = None))"
proof -
  note inv = dfs_invD [OF k]
  obtain r1 k1 where new: "fd_new k = Some (r1, k1)" "fd_inv k1" "fd_frame k k1" "\<forall>x \<in> fd_files k. fd_at k1 x = fd_at k x"
    and c: "r1 = - 1 \<and> (\<forall>j. fd_count k1 j = fd_count k j) \<and> fd_files k1 = fd_files k
       \<or> (\<exists>i < DFS_FD_MAX. \<exists>d. r1 = int i + 3 \<and> fd_count k i = 0 \<and> (\<forall>j < i. 0 < fd_count k j)
            \<and> (\<forall>j. fd_count k1 j = (if j = i then 1 else fd_count k j)) \<and> i < maxfd k1 \<and> fd_slots k1 ! i = Some d \<and> d \<notin> fd_files k
            \<and> fd_files k1 = insert d (fd_files k) \<and> fd_at k1 d = zero_fd\<lparr>fd_ref_count := 1, fd_magic := DFS_FD_MAGIC\<rparr>)"
    using fd_new_effect [OF inv(1)] by blast
  have fresh: "fd_path (fd_at k1 d) = None \<or> d \<in> fd_files k \<and> fd_path (fd_at k1 d) = fd_path (fd_at k d)" if "d \<in> fd_files k1" for d
    using c new(4) that by (auto simp: zero_fd_def)
  note k1 = dfs_inv_frame [OF k new(3,2) fresh]
  show ?thesis
    using c
  proof (elim disjE exE conjE)
    assume "r1 = - 1" "\<forall>j. fd_count k1 j = fd_count k j"
    then show ?thesis using new(1,3) k1 by (auto simp: fun_eq_iff)
  next
    fix i d
    assume i: "i < DFS_FD_MAX" "r1 = int i + 3" "fd_count k i = 0" "\<forall>j < i. 0 < fd_count k j" "\<forall>j. fd_count k1 j = (if j = i then 1 else fd_count k j)"
      and d: "i < maxfd k1" "fd_slots k1 ! i = Some d" "fd_at k1 d = zero_fd\<lparr>fd_ref_count := 1, fd_magic := DFS_FD_MAGIC\<rparr>"
    define k2 where "k2 = upd_fd d (\<lambda>f. f\<lparr>fd_ref_count := fd_ref_count f + 1\<rparr>) k1"
    note g = dfs_get_effect [OF k1(1) d(1,2), folded k2_def]
    have "fd_path (fd_at k2 d) = None" using d(3) by (simp add: k2_def upd_fd_def zero_fd_def)
    moreover have "fd_count k2 = (fd_count k)(i := 2)" using g(5) i(5) by (auto simp: fun_eq_iff)
    ultimately show ?thesis using new(1) i d(1,2) g(1-4,6-8) k1(2) fd_frame_trans [OF new(3) g(4)] by auto
  qed
qed

lemma posix_open_cases:
  assumes "quiet_code code" "dfs_inv k" "s = full_name (working_directory k) None name" "0 \<notin> set s" "length s < 2 ^ 32 - 6" "path_names s = Some (True, ns)"
  shows "\<exists>r k'. posix_open code cons name flags k = Some (r, k') \<and> dfs_inv k' \<and> mounted k' = mounted k
    \<and> (r = - 1 \<and> rt_get_errno k' < 0 \<and> fd_count k' = fd_count k \<and> other_blocks k' = other_blocks k
       \<or> (\<exists>i < DFS_FD_MAX. \<exists>d m st. r = int i + 3 \<and> fd_count k i = 0 \<and> (\<forall>j < i. 0 < fd_count k j) \<and> fd_count k' = (fd_count k)(i := 1)
            \<and> fd_slots k' ! i = Some d \<and> longest_mount k ns m st \<and> fd_fs (fd_at k' d) = Some m
            \<and> (\<forall>p. fd_path (fd_at k' d) = Some p \<longrightarrow> (\<exists>e. (p, e) \<in> other_blocks k' - other_blocks k
                  \<and> str_at (bytes (dev_heap k')) p (text_of (below_mount code k m st ns))))))"
proof -
  obtain r1 k1 where new: "fd_new k = Some (r1, k1)"
    and c: "r1 = - 1 \<and> dfs_inv k1 \<and> mounted k1 = mounted k \<and> fd_frame k k1 \<and> fd_count k1 = fd_count k
    \<or> (\<exists>i < DFS_FD_MAX. \<exists>d k2. r1 = int i + 3 \<and> fd_count k i = 0 \<and> (\<forall>j < i. 0 < fd_count k j) \<and> fd_get cons r1 k1 = (Some d, k2)
         \<and> dfs_inv k2 \<and> mounted k2 = mounted k \<and> fd_frame k k2 \<and> fd_count k2 = (fd_count k)(i := 2)
         \<and> i < maxfd k2 \<and> fd_slots k2 ! i = Some d \<and> d \<in> fd_files k2 \<and> fd_path (fd_at k2 d) = None)"
    using new_descriptor_effect [OF assms(2), of cons] by blast
  show ?thesis
    using c
  proof (elim disjE exE conjE)
    assume "r1 = - 1" "dfs_inv k1" "mounted k1 = mounted k" "fd_frame k k1" "fd_count k1 = fd_count k"
    then show ?thesis using new by (auto simp: posix_open_def fd_frame_def)
  next
    fix i d k2
    assume i: "i < DFS_FD_MAX" "r1 = int i + 3" "fd_count k i = 0" "\<forall>j < i. 0 < fd_count k j" and get: "fd_get cons r1 k1 = (Some d, k2)"
      and k2: "dfs_inv k2" "mounted k2 = mounted k" and fr: "fd_frame k k2" and c2: "fd_count k2 = (fd_count k)(i := 2)"
      and i2: "i < maxfd k2" "fd_slots k2 ! i = Some d" and d2: "d \<in> fd_files k2" "fd_path (fd_at k2 d) = None"
    have w: "working_directory k2 = working_directory k" "filesystem_table k2 = filesystem_table k" "other_blocks k2 = other_blocks k" using fr by (auto simp: fd_frame_def)
    obtain r k3 where o: "dfs_file_open code (Some d) name flags k2 = Some (r, k3)" "dfs_inv k3" "mounts_kept k2 k3" "same_table d k2 k3" "opened code d ns k2 r k3"
        "r < 0 \<Longrightarrow> fd_path (fd_at k3 d) = None"
      using file_open_effect [OF assms(1) k2(1) d2(1,2) _ assms(4-6)] assms(3) w(1) by metis
    note s3 = same_table_sel [OF o(4)]
    have m3: "mounted k3 = mounted k" using mounts_inv_kept(2) [OF dfs_invD(2) [OF k2(1)] o(3)] k2(2) by simp
    have i3: "i < maxfd k3" "fd_slots k3 ! i = Some d" using o(4) i2 by (simp_all add: same_table_def)
    have c3: "fd_count k3 j = (if j = i then 2 else fd_count k j)" for j using s3(3) by (simp add: c2)
    obtain k4 where p4: "fd_put d k3 = Some k4" "dfs_inv k4" "mounted k4 = mounted k3" "other_blocks k4 = other_blocks k3" "fd_frame k3 k4" "maxfd k4 = maxfd k3"
      "\<forall>j. fd_count k4 j = (if j = i then fd_count k3 j - 1 else fd_count k3 j)" "fd_slots k4 = fd_slots k3"
      "\<forall>x. fd_path (fd_at k4 x) = fd_path (fd_at k3 x) \<and> fd_fs (fd_at k4 x) = fd_fs (fd_at k3 x)"
      using dfs_put_effect [OF o(2) i3] c3 by auto
    have res: "posix_open code cons name flags k = (if r < 0 then map_option (\<lambda>k. (- 1, rt_set_errno r k)) (fd_put d k4) else Some (r1, k4))"
      using new get o(1) p4(1) i(2) by (cases "fd_put d k4") (auto simp: posix_open_def)
    show ?thesis
    proof (cases "r < 0")
      case True
      have i4: "i < maxfd k4" "fd_slots k4 ! i = Some d" using i3 p4(6,8) by simp_all
      obtain k5 where p5: "fd_put d k4 = Some k5" "dfs_inv k5" "mounted k5 = mounted k4" "other_blocks k5 = other_blocks k4"
        "\<forall>j. fd_count k5 j = (if j = i then fd_count k4 j - 1 else fd_count k4 j)"
        using dfs_put_effect [OF p4(2) i4] by blast
      have "fd_count k5 = fd_count k" using p5(5) p4(7) c3 i(3) by (auto simp: fun_eq_iff)
      then show ?thesis using res True p5 p4(3,4) m3 o(5) w(3) by (simp add: opened_def)
    next
      case False
      obtain m st where m: "longest_mount k2 ns m st" "fd_fs (fd_at k3 d) = Some m"
        and pth: "case fd_path (fd_at k3 d) of None \<Rightarrow> True
          | Some p \<Rightarrow> \<exists>e. (p, e) \<in> other_blocks k3 - other_blocks k2 \<and> str_at (bytes (dev_heap k3)) p (text_of (below_mount code k2 m st ns))
              \<and> p + length (text_of (below_mount code k2 m st ns)) < e"
        using o(5) False unfolding opened_def by auto
      have lm: "longest_mount k ns m st" using m(1) k2(2) by (simp add: longest_mount_def)
      have bm: "below_mount code k2 m st ns = below_mount code k m st ns" by (simp add: below_mount_def w(2))
      have "\<exists>e. (p, e) \<in> other_blocks k4 - other_blocks k \<and> str_at (bytes (dev_heap k4)) p (text_of (below_mount code k m st ns))"
        if p: "fd_path (fd_at k4 d) = Some p" for p
      proof -
        obtain e where e: "(p, e) \<in> other_blocks k3 - other_blocks k" "str_at (bytes (dev_heap k3)) p (text_of (below_mount code k m st ns))"
          "p + length (text_of (below_mount code k m st ns)) < e"
          using pth p p4(9) unfolding w(3) bm by auto
        have "str_at (bytes (dev_heap k4)) p (text_of (below_mount code k m st ns))"
          by (rule str_at_cong [OF e(2)]) (use p4(5) e(1,3) in \<open>fastforce simp: fd_frame_def\<close>)
        then show ?thesis using e(1) p4(4) by blast
      qed
      moreover have "fd_count k4 = (fd_count k)(i := 1)" using p4(7) c3 by (auto simp: fun_eq_iff)
      ultimately show ?thesis using res False p4 m3 i lm m(2) i3(2) by auto
    qed
  qed
qed



text \<open>A descriptor that is held has a file.\<close>

lemma fd_count_held:
  assumes "fd_inv k" "fd_count k i \<noteq> 0"
  shows "\<exists>d. fd_slots k ! i = Some d \<and> i < maxfd k \<and> 0 < fd_count k i"
proof -
  obtain d where d: "i < maxfd k" "fd_slots k ! i = Some d" "fd_count k i = fd_ref_count (fd_at k d)"
    using assms(2) fd_invD(2) [OF assms(1)] by (auto simp: fd_count_def split: if_splits option.splits)
  then show ?thesis using fd_slot_file [OF assms(1)] fd_invD(5) [OF assms(1)] by auto
qed

text \<open>Closing a file.\<close>

lemma file_close_effect:
  assumes code: "quiet_code code" and k: "dfs_inv k" "d \<in> fd_files k" "fd_fops (fd_at k d) \<noteq> None"
  shows "\<exists>r k'. dfs_file_close code (Some d) k = Some (r, k') \<and> dfs_inv k' \<and> mounts_kept k k' \<and> same_table d k k'
    \<and> (r < 0 \<longrightarrow> fd_path (fd_at k' d) = fd_path (fd_at k d))
    \<and> (0 \<le> r \<longrightarrow> fd_path (fd_at k' d) = None \<and> (\<forall>p e. fd_path (fd_at k d) = Some p \<longrightarrow> (p, e) \<notin> other_blocks k'))"
proof -
  obtain fo where fo: "fd_fops (fd_at k d) = Some fo" using k(3) by blast
  define c where "c = (case op_close (file_code code fo) of None \<Rightarrow> (0, k) | Some f \<Rightarrow> f d k)"
  obtain r k1 where r: "c = (r, k1)" by force
  have q: "dfs_inv k1" "mounts_kept k k1" "same_table d k k1" "fd_path (fd_at k1 d) = fd_path (fd_at k d)"
  proof -
    have "dfs_inv k1 \<and> mounts_kept k k1 \<and> same_table d k k1 \<and> fd_path (fd_at k1 d) = fd_path (fd_at k d)"
    proof (cases "op_close (file_code code fo)")
      case None
      then have "k1 = k" using r by (simp add: c_def)
      then show ?thesis using k(1) by (auto simp: mounts_kept_def same_table_def)
    next
      case (Some f)
      then have "quiet d k k1" using code k(1,2) r unfolding quiet_code_def c_def by (auto split: option.splits)
      then show ?thesis using quiet_inv [OF k(1)] unfolding quiet_def by blast
    qed
    then show "dfs_inv k1" "mounts_kept k k1" "same_table d k k1" "fd_path (fd_at k1 d) = fd_path (fd_at k d)" by blast+
  qed
  have cl: "dfs_file_close code (Some d) k = (if r < 0 then Some (r, k1) else map_option (\<lambda>k. (r, k)) (drop_path d k1))"
    using fo r by (simp add: dfs_file_close_def c_def)
  show ?thesis
  proof (cases "r < 0")
    case True
    then show ?thesis using cl q by auto
  next
    case False
    have d1: "d \<in> fd_files k1" using k(2) same_table_sel(1) [OF q(3)] by simp
    obtain k2 where k2: "drop_path d k1 = Some k2" "dfs_inv k2" "mounts_kept k1 k2" "same_table d k1 k2" "fd_path (fd_at k2 d) = None"
      and o: "case fd_path (fd_at k1 d) of None \<Rightarrow> other_blocks k2 = other_blocks k1 | Some p \<Rightarrow> \<forall>e. (p, e) \<in> other_blocks k1 \<longrightarrow> other_blocks k2 = other_blocks k1 - {(p, e)}"
      using drop_path_effect [OF q(1) d1] by blast
    have "(p, e) \<notin> other_blocks k2" if p: "fd_path (fd_at k d) = Some p" for p e
    proof
      assume e: "(p, e) \<in> other_blocks k2"
      obtain e1 where e1: "(p, e1) \<in> other_blocks k1" using dfs_invD(4) [OF q(1) d1] p q(4) by (auto simp: path_at_def)
      then have ob: "other_blocks k2 = other_blocks k1 - {(p, e1)}" using o p q(4) by simp
      then have "(p, e) \<in> heap_live (dev_heap k1)" "(p, e1) \<in> heap_live (dev_heap k1)" "(p, e) \<noteq> (p, e1)" using e e1 by (auto simp: other_blocks_def)
      then show False using live_fun [of "dev_heap k1" p e e1] fd_invD(1) [OF dfs_invD(1) [OF q(1)]] by (simp add: heap_good_def)
    qed
    then show ?thesis using cl False k2 mounts_kept_trans [OF q(2) k2(3)] same_table_trans [OF q(3) k2(4)] by auto
  qed
qed

lemma posix_close_cases:
  assumes "quiet_code code" "dfs_inv k"
  shows "fd_count k i = 0 \<Longrightarrow> posix_close code cons (int i + 3) k = Some (- 1, rt_set_errno (- EBADF) k)"
    and "fd_slots k ! i = Some d \<Longrightarrow> 0 < fd_count k i \<Longrightarrow> fd_fops (fd_at k d) \<noteq> None \<Longrightarrow>
      \<exists>r k'. posix_close code cons (int i + 3) k = Some (r, k') \<and> dfs_inv k' \<and> mounted k' = mounted k
        \<and> (r = - 1 \<and> rt_get_errno k' < 0 \<and> fd_count k' = fd_count k \<and> fd_path (fd_at k' d) = fd_path (fd_at k d)
           \<or> r = 0 \<and> fd_count k' = (fd_count k)(i := fd_count k i - 1) \<and> fd_path (fd_at k' d) = None
             \<and> (\<forall>p e. fd_path (fd_at k d) = Some p \<longrightarrow> (p, e) \<notin> other_blocks k'))"
proof -
  note inv = dfs_invD [OF assms(2)]
  show "fd_count k i = 0 \<Longrightarrow> posix_close code cons (int i + 3) k = Some (- 1, rt_set_errno (- EBADF) k)"
    using fd_get_effect [OF inv(1) refl, of "int i + 3" cons] by (simp add: posix_close_def)
  assume d: "fd_slots k ! i = Some d" "0 < fd_count k i" "fd_fops (fd_at k d) \<noteq> None"
  have i: "i < maxfd k" using d(2) fd_invD(2) [OF inv(1)] by (simp add: fd_count_def split: if_splits)
  define k1 where "k1 = upd_fd d (\<lambda>f. f\<lparr>fd_ref_count := fd_ref_count f + 1\<rparr>) k"
  note k1 = dfs_get_effect [OF assms(2) i d(1), folded k1_def]
  have sel: "fd_fops (fd_at k1 d) \<noteq> None" "fd_path (fd_at k1 d) = fd_path (fd_at k d)" "other_blocks k1 = other_blocks k"
    using d(3) k1(4) by (simp_all add: k1_def upd_fd_def fd_frame_def)
  obtain r k2 where k2: "dfs_file_close code (Some d) k1 = Some (r, k2)" "dfs_inv k2" "mounts_kept k1 k2" "same_table d k1 k2"
      "r < 0 \<Longrightarrow> fd_path (fd_at k2 d) = fd_path (fd_at k d)"
      "0 \<le> r \<Longrightarrow> fd_path (fd_at k2 d) = None \<and> (\<forall>p e. fd_path (fd_at k d) = Some p \<longrightarrow> (p, e) \<notin> other_blocks k2)"
    using file_close_effect [OF assms(1) k1(2,6) sel(1)] unfolding sel(2) by blast
  have m2: "mounted k2 = mounted k" using mounts_inv_kept(2) [OF dfs_invD(2) [OF k1(2)] k2(3)] k1(3) by simp
  have i2: "i < maxfd k2" "fd_slots k2 ! i = Some d" using k2(4) k1(7,8) i d(1) by (simp_all add: same_table_def)
  have c2: "fd_count k2 j = (if j = i then fd_count k j + 1 else fd_count k j)" for j using same_table_sel(3) [OF k2(4)] k1(5) by simp
  obtain k3 where k3: "fd_put d k2 = Some k3" "dfs_inv k3" "mounted k3 = mounted k2" "other_blocks k3 = other_blocks k2" "maxfd k3 = maxfd k2"
    "\<forall>j. fd_count k3 j = (if j = i then fd_count k2 j - 1 else fd_count k2 j)" "fd_slots k3 = fd_slots k2" "\<forall>x. fd_path (fd_at k3 x) = fd_path (fd_at k2 x)"
    using dfs_put_effect [OF k2(2) i2] c2 d(2) by auto
  have c3: "fd_count k3 = fd_count k" using k3(6) c2 by (auto simp: fun_eq_iff)
  have res: "posix_close code cons (int i + 3) k = (if r < 0 then Some (- 1, rt_set_errno r k3) else map_option (\<lambda>k. (0, k)) (fd_put d k3))"
    using k1(1) k2(1) k3(1) by (cases "fd_put d k3") (auto simp: posix_close_def)
  show "\<exists>r k'. posix_close code cons (int i + 3) k = Some (r, k') \<and> dfs_inv k' \<and> mounted k' = mounted k
        \<and> (r = - 1 \<and> rt_get_errno k' < 0 \<and> fd_count k' = fd_count k \<and> fd_path (fd_at k' d) = fd_path (fd_at k d)
           \<or> r = 0 \<and> fd_count k' = (fd_count k)(i := fd_count k i - 1) \<and> fd_path (fd_at k' d) = None
             \<and> (\<forall>p e. fd_path (fd_at k d) = Some p \<longrightarrow> (p, e) \<notin> other_blocks k'))"
  proof (cases "r < 0")
    case True
    then show ?thesis using res k3 m2 c3 k2(5) by simp
  next
    case False
    have i3: "i < maxfd k3" "fd_slots k3 ! i = Some d" using i2 k3(5,7) by simp_all
    obtain k4 where k4: "fd_put d k3 = Some k4" "dfs_inv k4" "mounted k4 = mounted k3" "other_blocks k4 = other_blocks k3"
      "\<forall>j. fd_count k4 j = (if j = i then fd_count k3 j - 1 else fd_count k3 j)" "\<forall>x. fd_path (fd_at k4 x) = fd_path (fd_at k3 x)"
      using dfs_put_effect [OF k3(2) i3] by blast
    have "fd_count k4 = (fd_count k)(i := fd_count k i - 1)" using k4(5) c3 by (auto simp: fun_eq_iff)
    then show ?thesis using res False k4 k3(3,4,8) m2 k2(6) by simp
  qed
qed



section \<open>Calls on a descriptor\<close>

definition quiet_io :: "'a dfs_scheme dfs_code \<Rightarrow> bool" where
  "quiet_io code \<longleftrightarrow> (\<forall>t d k r k'. dfs_inv k \<longrightarrow> d \<in> fd_files k \<longrightarrow>
     (\<forall>f buf len. op_read (file_code code t) = Some f \<longrightarrow> f d buf len k = (r, k') \<longrightarrow> quiet d k k')
     \<and> (\<forall>f buf len. op_write (file_code code t) = Some f \<longrightarrow> f d buf len k = (r, k') \<longrightarrow> quiet d k k')
     \<and> (\<forall>f off. op_lseek (file_code code t) = Some f \<longrightarrow> f d off k = (r, k') \<longrightarrow> quiet d k k')
     \<and> (\<forall>f cmd arg. op_ioctl (file_code code t) = Some f \<longrightarrow> f d cmd arg k = (r, k') \<longrightarrow> quiet d k k'))"

definition calm :: "addr \<Rightarrow> 'a dfs_scheme \<Rightarrow> 'a dfs_scheme \<Rightarrow> bool" where
  "calm d k k' \<longleftrightarrow> dfs_inv k' \<and> mounts_kept k k' \<and> same_table d k k'"

lemma calm_refl: "dfs_inv k \<Longrightarrow> calm d k k"
  by (auto simp: calm_def mounts_kept_def same_table_def)

lemma calm_quiet: "dfs_inv k \<Longrightarrow> quiet d k k' \<Longrightarrow> calm d k k'"
  using quiet_inv [of k d k'] unfolding calm_def quiet_def by blast

lemma calm_upd:
  assumes "calm d k k'" "\<And>x. fd_path (f x) = fd_path x" "\<And>x. fd_ref_count (f x) = fd_ref_count x" "\<And>x. fd_magic (f x) = fd_magic x"
  shows "calm d k (upd_fd d f k')"
proof -
  have k': "dfs_inv k'" using assms(1) by (simp add: calm_def)
  note u = upd_fd_inv [OF k', of f d, OF assms(2-4)]
  show ?thesis using assms(1) u mounts_kept_trans [OF _ u(2)] same_table_trans [OF _ u(3)] unfolding calm_def by blast
qed

lemma file_calls_calm:
  assumes code: "quiet_io code" and k: "dfs_inv k" "d \<in> fd_files k" "fd_fops (fd_at k d) \<noteq> None"
  shows "\<exists>r k'. dfs_file_read code (Some d) buf len k = Some (r, k') \<and> calm d k k'"
    "\<exists>r k'. dfs_file_write code (Some d) buf len k = Some (r, k') \<and> calm d k k'"
    "\<exists>r k'. dfs_file_lseek code (Some d) off k = Some (r, k') \<and> calm d k k'"
    "\<exists>r k'. dfs_file_ioctl code (Some d) cmd arg k = Some (r, k') \<and> calm d k k'"
    "\<exists>r k'. dfs_file_ftruncate code (Some d) sz k = Some (r, k') \<and> calm d k k'"
proof -
  obtain t where t: "fd_fops (fd_at k d) = Some t" using k(3) by blast
  let ?o = "file_code code t"
  note c0 = calm_refl [OF k(1), of d]
  have q: "op_read ?o = Some f \<Longrightarrow> f d buf len k = (r, k') \<Longrightarrow> calm d k k'" "op_write ?o = Some g \<Longrightarrow> g d buf len k = (r, k') \<Longrightarrow> calm d k k'"
    "op_lseek ?o = Some h \<Longrightarrow> h d off k = (r, k') \<Longrightarrow> calm d k k'" "op_ioctl ?o = Some i \<Longrightarrow> i d cmd arg k = (r, k') \<Longrightarrow> calm d k k'"
    for f g h i cmd arg r k'
    using code k(1,2) calm_quiet [OF k(1)] unfolding quiet_io_def by blast+
  have ex: "\<exists>r k'. p = (r, k') \<and> calm d k k'" if "\<And>r k'. p = (r, k') \<Longrightarrow> calm d k k'" for p :: "int \<times> 'a dfs_scheme"
    using that by (cases p) blast
  show "\<exists>r k'. dfs_file_read code (Some d) buf len k = Some (r, k') \<and> calm d k k'"
    using t c0 q(1) by (auto simp: dfs_file_read_def file_op_def split: option.split prod.split intro!: calm_upd)
  show "\<exists>r k'. dfs_file_write code (Some d) buf len k = Some (r, k') \<and> calm d k k'"
    using t c0 by (auto simp: dfs_file_write_def file_op_def split: option.split intro!: ex q(2))
  show "\<exists>r k'. dfs_file_lseek code (Some d) off k = Some (r, k') \<and> calm d k k'"
    using t c0 q(3) by (auto simp: dfs_file_lseek_def file_op_def split: option.split prod.split intro!: calm_upd)
  show "\<exists>r k'. dfs_file_ioctl code (Some d) cmd arg k = Some (r, k') \<and> calm d k k'"
  proof (cases "fd_type (fd_at k d) = FT_REGULAR \<and> (cmd = F_GETFL \<or> cmd = F_SETFL)")
    case True
    then show ?thesis using c0 by (auto simp: dfs_file_ioctl_def Let_def intro!: calm_upd)
  next
    case False
    then show ?thesis using t c0 by (auto simp: dfs_file_ioctl_def file_op_def Let_def split: option.split intro!: ex q(4))
  qed
  show "\<exists>r k'. dfs_file_ftruncate code (Some d) sz k = Some (r, k') \<and> calm d k k'"
    using t c0 q(4) by (auto simp: dfs_file_ftruncate_def file_op_def split: option.split prod.split intro!: calm_upd)
qed

lemma with_fd_balanced:
  assumes k: "dfs_inv k" and i: "i < maxfd k" "fd_slots k ! i = Some d" "fd_fops (fd_at k d) \<noteq> None"
    and f: "\<And>k. dfs_inv k \<Longrightarrow> d \<in> fd_files k \<Longrightarrow> fd_fops (fd_at k d) \<noteq> None \<Longrightarrow> \<exists>r k'. f d k = Some (r, k') \<and> calm d k k'"
  shows "\<exists>r k'. with_fd cons (int i + 3) f k = Some (r, k') \<and> dfs_inv k' \<and> mounted k' = mounted k \<and> fd_count k' = fd_count k \<and> fd_slots k' = fd_slots k
    \<and> (r < 0 \<longrightarrow> r = - 1 \<and> rt_get_errno k' < 0)"
proof -
  define k1 where "k1 = upd_fd d (\<lambda>f. f\<lparr>fd_ref_count := fd_ref_count f + 1\<rparr>) k"
  note k1 = dfs_get_effect [OF k i(1,2), folded k1_def]
  have "fd_fops (fd_at k1 d) \<noteq> None" using i(3) by (simp add: k1_def upd_fd_def)
  then obtain r k2 where k2: "f d k1 = Some (r, k2)" "calm d k1 k2" using f [OF k1(2,6)] by blast
  have c: "dfs_inv k2" "mounts_kept k1 k2" "same_table d k1 k2" using k2(2) by (simp_all add: calm_def)
  have m2: "mounted k2 = mounted k" using mounts_inv_kept(2) [OF dfs_invD(2) [OF k1(2)] c(2)] k1(3) by simp
  have i2: "i < maxfd k2" "fd_slots k2 ! i = Some d" "fd_slots k2 = fd_slots k" using c(3) k1(7,8) i by (simp_all add: same_table_def)
  have c2: "fd_count k2 j = (if j = i then fd_count k j + 1 else fd_count k j)" for j using same_table_sel(3) [OF c(3)] k1(5) by simp
  have pos: "fd_count k i \<noteq> 0"
    using fd_slot_file [OF dfs_invD(1) [OF k] i(1,2)] fd_invD(2,5) [OF dfs_invD(1) [OF k]] i(1,2) by (fastforce simp: fd_count_def)
  obtain k3 where k3: "fd_put d k2 = Some k3" "dfs_inv k3" "mounted k3 = mounted k2" "\<forall>j. fd_count k3 j = (if j = i then fd_count k2 j - 1 else fd_count k2 j)"
      "fd_slots k3 = fd_slots k2"
    using dfs_put_effect [OF c(1) i2(1,2)] c2 pos by auto
  have "fd_count k3 = fd_count k" using k3(4) c2 by (auto simp: fun_eq_iff)
  then show ?thesis using k1(1) k2(1) k3 m2 i2(3) by (auto simp: with_fd_def)
qed



end
