(* ===== verification/Spec2Isabelle.thy ===== *)
theory Spec2Isabelle
  imports Prelude Rt_List Rt_Slist Kservice Printf Kernel Scheduler Object Thread_Switch Timer Thread
    Ipc Ipc_Sem Ipc_Mutex Ipc_Event Fifo Ipc_Queue Ipc_Mailbox Ipc_Mq
    Allocator Mem Mem_Align Mempool Ringbuffer Ringblk Completion Dataqueue Workqueue
    Waitqueue Device Libc_Time Pipe Pipe_Run Pipe_Life Dfs_Path Dfs_Fs Dfs_Fd Dfs_Posix
begin

text \<open>
  A verification of the RT-Thread kernel of the HPM6750EVKMINI board support package.

  \<^bold>\<open>The program.\<close> The repository packages the RT-Thread real-time operating system
  (\<^verbatim>\<open>src/rt-thread\<close>) with the vendor SDK of the HPM6750 and example projects. Its own logic is the kernel,
  \<^verbatim>\<open>src/rt-thread/src/*.c\<close>: threads and a preemptive priority scheduler, timers on the system tick,
  blocking objects for communication, the heap and the memory pools, formatted output and the device
  registry; what the drivers build on these, \<^verbatim>\<open>src/rt-thread/components/drivers/src/*.c\<close>: ring buffers,
  block buffers, completions, data queues, work queues, wait queues and pipes; the calendar of the C
  library, \<^verbatim>\<open>src/rt-thread/components/libc/compilers/common/time.c\<close>; and the device file system,
  \<^verbatim>\<open>src/rt-thread/components/dfs/src/*.c\<close>: path names, mounted file systems, descriptors and the calls of POSIX on them. The configuration modelled is the one of the board
  projects: one core, 32 priorities, object names of 8 bytes, 4-byte alignment, the small-memory
  heap, 1000 ticks a second; \<^verbatim>\<open>RT_DEBUG\<close> is off, so \<^verbatim>\<open>RT_ASSERT\<close> is empty, and all hooks are unset.

  \<^bold>\<open>State.\<close> The record \<open>kernel\<close> of \<open>Kernel\<close> holds the globals of \<^verbatim>\<open>scheduler.c\<close>, \<^verbatim>\<open>clock.c\<close>, \<^verbatim>\<open>object.c\<close>,
  \<^verbatim>\<open>timer.c\<close> and \<^verbatim>\<open>idle.c\<close> and maps from addresses to the control blocks; \<open>ipc\<close> extends it with the IPC
  objects, \<open>pools\<close> with the memory pools, \<open>waitqueues\<close> with the wait queues, \<open>devices\<close> with the devices
  and the heap they come from, \<open>pipes\<close> with the pipes, and \<open>dfs\<close> (on \<open>devices\<close>) with the tables of file systems and open
  files. Interrupts are disabled around each access of the
  code to this state, so an operation is a function between the points where they are enabled; a
  call that blocks is split at \<open>rt_schedule\<close>, and a definition with the suffix \<open>_end\<close> or \<open>_resumed\<close> is what the
  thread does when it runs again. The heap (\<open>small_heap\<close>), a ring buffer (\<open>rt_ringbuffer\<close> with the memory it
  writes), a ring of blocks (\<open>rt_rbb\<close>) and a broken-down time (\<open>tm\<close>) are records of their own. Machine
  integers are words of their width wherever the code computes with them; an error code is an \<open>int\<close>, as in the code; \<open>None\<close> of an outermost option is a call that
  does not return.

  \<^bold>\<open>Theories.\<close>
  \<^item> \<open>Prelude\<close>: types, constants, fact collections, rounding, and \<open>safe_steps\<close>, the contract of a step relation.
  \<^item> \<open>Rt_List\<close> (\<^verbatim>\<open>include/rtservice.h\<close>): the intrusive lists on \<open>next\<close> and \<open>prev\<close> pointers, refined to
    lists of nodes; \<open>intrusive_lists\<close> is what the other components rely on when they keep a list of threads
    or timers as an Isabelle list.
  \<^item> \<open>Rt_Slist\<close>: the singly linked lists of the same header.
  \<^item> \<open>Kservice\<close> (\<^verbatim>\<open>kservice.c\<close>): bit search, memory and string routines. \<open>Printf\<close> (the same file): the
    conversions and padding of \<open>rt_vsnprintf\<close>.
  \<^item> \<open>Kernel\<close>, \<open>Scheduler\<close> (\<^verbatim>\<open>scheduler.c\<close>), \<open>Object\<close> (\<^verbatim>\<open>object.c\<close>), \<open>Thread_Switch\<close> (suspending and resuming
    a thread), \<open>Timer\<close> (\<^verbatim>\<open>timer.c\<close>), \<open>Thread\<close> (\<^verbatim>\<open>thread.c\<close>, \<^verbatim>\<open>idle.c\<close>, \<^verbatim>\<open>clock.c\<close>, \<^verbatim>\<open>irq.c\<close>).
  \<^item> \<open>Ipc\<close> (wait lists), \<open>Ipc_Sem\<close>, \<open>Ipc_Mutex\<close>, \<open>Ipc_Event\<close>, \<open>Ipc_Queue\<close> (what the two queues share),
    \<open>Ipc_Mailbox\<close>, \<open>Ipc_Mq\<close> (all of \<^verbatim>\<open>ipc.c\<close>).
  \<^item> \<open>Mem\<close> (\<^verbatim>\<open>mem.c\<close>), \<open>Mempool\<close> (\<^verbatim>\<open>mempool.c\<close>), with the contract they share in \<open>Allocator\<close>; \<open>Mem_Align\<close>:
    aligned blocks and string duplication of \<^verbatim>\<open>kservice.c\<close> on the heap.
  \<^item> \<open>Ringbuffer\<close> (\<^verbatim>\<open>ringbuffer.c\<close>), with the contract of a bounded queue in \<open>Fifo\<close>; \<open>Ringblk\<close>
    (\<^verbatim>\<open>ringblk_buf.c\<close>), whose block list is an \<open>Rt_Slist\<close>.
  \<^item> \<open>Completion\<close> (\<^verbatim>\<open>completion.c\<close>), \<open>Dataqueue\<close> (\<^verbatim>\<open>dataqueue.c\<close>), \<open>Workqueue\<close> (\<^verbatim>\<open>workqueue.c\<close>), \<open>Waitqueue\<close>
    (\<^verbatim>\<open>waitqueue.c\<close>), on the threads and timers of the kernel.
  \<^item> \<open>Device\<close> (\<^verbatim>\<open>device.c\<close>): registration, opening and closing of devices, on objects, wait queues and heap.
  \<^item> \<open>Pipe\<close> (\<^verbatim>\<open>pipe.c\<close>), on devices, mutexes, wait queues, ring buffers and heap: a call is a sequence of stages,
    \<open>pipe_pc\<close>, between which the thread may lose the processor; \<open>Pipe_Run\<close>: runs of many threads; \<open>Pipe_Life\<close>:
    descriptors and memory.
  \<^item> \<open>Libc_Time\<close> (\<^verbatim>\<open>time.c\<close>): seconds, broken-down times, their texts, and time specifications in ticks.
  \<^item> \<open>Dfs_Path\<close> (\<^verbatim>\<open>dfs.c\<close>): the normalisation of path names, in place in a block of the heap; the text it leaves
    is that of a stack of names. \<open>Dfs_Fs\<close> (\<^verbatim>\<open>dfs_fs.c\<close>, opening and closing of \<^verbatim>\<open>dfs_file.c\<close>): mounted file systems, on devices, paths
    and heap; \<open>Dfs_Fd\<close> (\<^verbatim>\<open>dfs.c\<close>): the table of open files, in blocks of the heap, and the counts of references; \<open>Dfs_Posix\<close>
    (\<^verbatim>\<open>dfs_posix.c\<close>, the rest of \<^verbatim>\<open>dfs_file.c\<close>): the calls.

  \<^bold>\<open>What is shown.\<close> \<open>kernel_inv\<close> is the invariant of the kernel: ready queues, the priority bitmap,
  wait lists, timer lists and thread states agree, at most one thread runs, a thread's timer runs
  only while it is suspended. Every operation keeps it (facts in \<open>kinv\<close>), and \<open>Thread\<close> shows it of every
  reachable state; the scheduler chooses the highest priority and rotates equal ones; timers
  fire in deadline order across the wrap-around of the tick. The IPC objects refine abstract
  objects (a counter, a lock with an owner, a set of events, bounded queues) with their queues of
  waiting threads. Heap and pools are interpretations of the locale \<open>allocator\<close>, from which every client
  gets disjoint blocks; the invariant \<open>heap_inv\<close> says that the headers tile the heap, free neighbours are
  merged and the lowest free block is known. The ring buffer, the mailbox and the message queue
  interpret \<open>fifo_queue\<close> and \<open>bounded_queue\<close>; the data queue refines a bounded queue with water marks. A
  work item is on at most one list, and the worker never sleeps while there is work; a wait queue wakes
  the first node that accepts the key; a device's count of opens is the number of its openers, and two
  registered devices never share a name. Threads that use a pipe at the same time exclude each other and pass
  every byte on exactly once and in order. \<open>rt_vsnprintf\<close> never writes past its buffer and decimal output
  reads back; \<open>gmtime_r\<close> gives the calendar date and \<open>timegm\<close> inverts it. A normalised path is the text of the
  names that \<^verbatim>\<open>.\<close> and \<^verbatim>\<open>..\<close> leave, in its own block; a path belongs to the file system on the longest mount point above it, name by name. \<open>fd_inv\<close> says that
  each open file and the array of them stand in blocks of their own and that every file in the table is held; \<open>dfs_inv\<close> adds the paths
  of the mount points and of the open files. Opening gives the lowest free descriptor or changes nothing, also
  where it fails half way; closing gives back what opening took; and a call on a descriptor leaves every count as it was. Theorems of kind \<^emph>\<open>error\<close> show
  where the code does not do what it means to.

  \<^bold>\<open>Loops.\<close> Loops over a list of the model are structural recursions. Loops that follow
  pointers or wait for a list to become empty (\<open>rt_list_len\<close>, \<open>rt_timer_check\<close>, \<open>ipc_list_resume_all\<close>, \<open>rt_defunct_execute\<close>,
  \<open>malloc_search\<close>, \<open>mq_flush\<close>, \<open>cancel_list\<close> of the work queue, the loops over a path) are partial functions whose value is
  \<open>None\<close> when they run for ever; that they return on every state that satisfies the invariant is part of the theorems. \<open>heap_blocks\<close> walks the
  headers with the length of the heap as its bound, which is enough since a block has at least 16
  bytes. Loops that always end are functions with a termination proof: the padding and the digits of
  \<open>Printf\<close>, whose measure is what is left to print, \<open>gm_years\<close>, whose measure is the days that are left, and
  \<open>tm_carry\<close>, whose every round takes days off.

  \<^bold>\<open>Parameters.\<close> User code is a parameter: timer callbacks, cleanup functions, idle hooks, work functions,
  the notifier of a data queue, the wake-up functions of pollers, the driver functions of a device, the operations of a file
  system (\<open>dfs_code\<close>), of which \<open>quiet_code\<close>, \<open>quiet_io\<close> and \<open>mount_code_ok\<close> ask that they leave the tables and the blocks of others
  alone. \<open>cons\<close> is the descriptor of the console. The lock of the file system is taken without contention. Memory
  that an object's creation gets from the heap is a parameter of \<open>rt_object_allocate\<close> and of the creation of
  threads, mailboxes, message queues and work queues; the memory pools, the buffers, the data queues,
  the aligned allocator, the device registry, the pipes and the device file system call the heap model itself. The heap semaphore is taken
  without contention; waiting for it is \<open>None\<close>. The time zone and the values of the real-time clock are
  arguments of \<open>Libc_Time\<close>.

  \<^bold>\<open>Not modelled.\<close> The console (\<^verbatim>\<open>rt_kprintf\<close> and where it prints); the reads and writes of the real-time
  clock device (\<^verbatim>\<open>time\<close>, \<^verbatim>\<open>stime\<close>, \<^verbatim>\<open>gettimeofday\<close>); the CPU port
  (\<^verbatim>\<open>libcpu\<close>: register frames, context switch); SMP and signals, which are not compiled in; the alternative
  heaps \<^verbatim>\<open>slab.c\<close> and \<^verbatim>\<open>memheap.c\<close>, which the configuration leaves out; kernel start-up; device drivers, the
  file systems below the device file system, its \<^verbatim>\<open>select\<close>, \<^verbatim>\<open>poll\<close> and shell commands (\<^verbatim>\<open>ls\<close>, \<^verbatim>\<open>cat\<close>, \<^verbatim>\<open>cp\<close>, \<^verbatim>\<open>df\<close>, \<^verbatim>\<open>list_fd\<close>), network stacks and the shell; the vendor SDK and third-party middleware.
\<close>

end
